(* ===== verification/Prelude.thy ===== *)
theory Prelude
  imports Main "HOL-Library.Word" "HOL-Library.List_Lexorder" "HOL-Library.Sublist"
begin

text \<open>
  What every component of the development shares: the machine types the crates use, Rust's
  \<open>Ordering\<close> and the lexicographic comparison of slices, big-endian byte strings, fallible
  computations as sums, and the notion of two byte strings that \<^emph>\<open>diverge\<close>, on which the order
  preservation of the tuple codec rests.
\<close>

unbundle bit_operations_syntax

section \<open>Machine types and fallible computations\<close>

type_synonym u8 = "8 word"
type_synonym u32 = "32 word"
type_synonym u64 = "64 word"
type_synonym i64 = "64 word"
type_synonym bytes = "8 word list"

text \<open>The development's collections: the simplification rules of the codec's cursor, the laws of
  the ordered map that stands for \<open>BTreeMap\<close>, and the rewrite rules of fallible code.\<close>

named_theorems result_simps
named_theorems reader_simps
named_theorems btree_simps

definition rbind :: "'e + 'a \<Rightarrow> ('a \<Rightarrow> 'e + 'b) \<Rightarrow> 'e + 'b" where
  "rbind m k = (case m of Inl e \<Rightarrow> Inl e | Inr x \<Rightarrow> k x)"

definition map_err :: "('e \<Rightarrow> 'f) \<Rightarrow> 'e + 'a \<Rightarrow> 'f + 'a" where
  "map_err f m = (case m of Inl e \<Rightarrow> Inl (f e) | Inr x \<Rightarrow> Inr x)"

definition ok_or :: "'e \<Rightarrow> 'a option \<Rightarrow> 'e + 'a" where
  "ok_or e x = (case x of None \<Rightarrow> Inl e | Some y \<Rightarrow> Inr y)"

lemma rbind_simps [simp, result_simps]:
  "rbind (Inl e) k = Inl e"
  "rbind (Inr x) k = k x"
  by (simp_all add: rbind_def)

lemma map_err_simps [simp, result_simps]:
  "map_err f (Inl e) = Inl (f e)"
  "map_err f (Inr x) = Inr x"
  by (simp_all add: map_err_def)

lemma ok_or_simps [simp, result_simps]:
  "ok_or e None = Inl e"
  "ok_or e (Some x) = Inr x"
  by (simp_all add: ok_or_def)

lemma rbind_eq_Inr [result_simps]:
  "rbind m k = Inr y \<longleftrightarrow> (\<exists>x. m = Inr x \<and> k x = Inr y)"
  by (cases m) auto

lemma rbind_assoc: "rbind (rbind m k) l = rbind m (\<lambda>x. rbind (k x) l)"
  by (cases m) auto

lemma map_err_eq_Inr [simp, result_simps]: "map_err f m = Inr y \<longleftrightarrow> m = Inr y"
  by (cases m) auto

lemma ok_or_eq_Inr [simp, result_simps]: "ok_or e x = Inr y \<longleftrightarrow> x = Some y"
  by (cases x) auto

lemma rbind_cong [fundef_cong]:
  "m = m' \<Longrightarrow> (\<And>x. m' = Inr x \<Longrightarrow> k x = k' x) \<Longrightarrow> rbind m k = rbind m' k'"
  by (cases m') auto

lemma rbind_weak_cong: "m = m' \<Longrightarrow> rbind m k = rbind m' k"
  by simp

section \<open>Orderings\<close>

datatype ordering = Less | Equal | Greater

definition cmp_lin :: "'a::linorder \<Rightarrow> 'a \<Rightarrow> ordering" where
  "cmp_lin a b = (if a < b then Less else if a = b then Equal else Greater)"

fun reverse_ordering :: "ordering \<Rightarrow> ordering" where
  "reverse_ordering Less = Greater"
| "reverse_ordering Equal = Equal"
| "reverse_ordering Greater = Less"

fun then_with :: "ordering \<Rightarrow> ordering \<Rightarrow> ordering" where
  "then_with Equal o2 = o2"
| "then_with o1 o2 = o1"

text \<open>The comparison of slices and of \<open>Vec<T>\<close>: element by element, a proper prefix first.\<close>

fun lex_cmp :: "('a \<Rightarrow> 'a \<Rightarrow> ordering) \<Rightarrow> 'a list \<Rightarrow> 'a list \<Rightarrow> ordering" where
  "lex_cmp c [] [] = Equal"
| "lex_cmp c [] (y # ys) = Less"
| "lex_cmp c (x # xs) [] = Greater"
| "lex_cmp c (x # xs) (y # ys) = then_with (c x y) (lex_cmp c xs ys)"

lemma lex_cmp_cong [fundef_cong]:
  "xs = xs' \<Longrightarrow> ys = ys' \<Longrightarrow> (\<And>x y. x \<in> set xs' \<Longrightarrow> y \<in> set ys' \<Longrightarrow> c x y = c' x y)
     \<Longrightarrow> lex_cmp c xs ys = lex_cmp c' xs' ys'"
proof (induction xs arbitrary: ys xs' ys')
  case Nil
  then show ?case by (cases ys) auto
next
  case (Cons x xs)
  then show ?case by (cases ys) auto
qed

lemma cmp_lin_simps [simp]:
  "cmp_lin a b = Less \<longleftrightarrow> a < b"
  "cmp_lin a b = Equal \<longleftrightarrow> a = b"
  "cmp_lin a b = Greater \<longleftrightarrow> b < a"
  by (auto simp: cmp_lin_def)

lemma cmp_lin_eqs [simp]:
  "a < b \<Longrightarrow> cmp_lin a b = Less"
  "cmp_lin a a = Equal"
  "b < a \<Longrightarrow> cmp_lin a b = Greater"
  by auto

lemma then_with_eq [simp]:
  "then_with a b = Equal \<longleftrightarrow> a = Equal \<and> b = Equal"
  "then_with a b = Less \<longleftrightarrow> a = Less \<or> a = Equal \<and> b = Less"
  "then_with a b = Greater \<longleftrightarrow> a = Greater \<or> a = Equal \<and> b = Greater"
  by (cases a; simp)+

lemma lex_cmp_lin:
  "lex_cmp cmp_lin xs (ys :: 'a::linorder list) = cmp_lin xs ys"
proof (induction xs arbitrary: ys)
  case Nil
  show ?case by (cases ys) (simp_all add: cmp_lin_def)
next
  case (Cons x xs)
  then show ?case
    by (cases ys) (auto simp: cmp_lin_def)
qed

lemma Nil_less_iff [simp]: "[] < xs \<longleftrightarrow> xs \<noteq> ([] :: 'a::linorder list)"
  by (cases xs) auto

lemma append_less_append [simp]: "ps @ xs < ps @ ys \<longleftrightarrow> xs < (ys :: 'a::linorder list)"
  by (induction ps) auto

lemma append_le_append [simp]: "ps @ xs \<le> ps @ ys \<longleftrightarrow> xs \<le> (ys :: 'a::linorder list)"
  by (induction ps) auto

lemma cmp_lin_append [simp]: "cmp_lin (ps @ xs) (ps @ ys) = cmp_lin xs (ys :: 'a::linorder list)"
  by (simp add: cmp_lin_def)

section \<open>Diverging byte strings\<close>

text \<open>
  \<open>diverges xs ys\<close>: the two strings agree up to some position at which both have a byte, and
  there \<open>xs\<close> has the smaller one. It is stronger than \<open>xs < ys\<close>: neither string is a prefix of
  the other, so nothing appended to them can change which is smaller, and complementing every
  byte reverses it.
\<close>

fun diverges :: "'a::linorder list \<Rightarrow> 'a list \<Rightarrow> bool" where
  "diverges (x # xs) (y # ys) \<longleftrightarrow> x < y \<or> x = y \<and> diverges xs ys"
| "diverges _ _ \<longleftrightarrow> False"

lemma diverges_less: "diverges xs ys \<Longrightarrow> xs < ys"
  by (induction xs ys rule: diverges.induct) auto

lemma diverges_append: "diverges xs ys \<Longrightarrow> diverges (xs @ us) (ys @ vs)"
  by (induction xs ys rule: diverges.induct) auto

lemma diverges_append_less: "diverges xs ys \<Longrightarrow> xs @ us < ys @ vs"
  by (intro diverges_less diverges_append)

lemma diverges_same_prefix [simp]: "diverges (ps @ xs) (ps @ ys) \<longleftrightarrow> diverges xs ys"
  by (induction ps) auto

lemma diverges_irrefl [simp]: "\<not> diverges xs xs"
  using diverges_less by fastforce

lemma diverges_asym: "diverges xs ys \<Longrightarrow> \<not> diverges ys xs"
  using diverges_less order.asym by blast

lemma diverges_not_prefix: "diverges xs ys \<Longrightarrow> \<not> prefix xs ys \<and> \<not> prefix ys xs"
  by (induction xs ys rule: diverges.induct) auto

lemma diverges_map_anti:
  assumes "\<And>x y. f x < f y \<longleftrightarrow> y < x"
  shows "diverges (map f xs) (map f ys) \<longleftrightarrow> diverges ys xs"
proof -
  have inj: "f x = f y \<longleftrightarrow> x = y" for x y
    using assms [of x y] assms [of y x] by (cases x y rule: linorder_cases) auto
  show ?thesis
    by (induction xs ys rule: diverges.induct) (auto simp: assms inj)
qed

lemma less_equal_length_diverges:
  "length xs = length ys \<Longrightarrow> xs < ys \<longleftrightarrow> diverges xs ys"
  by (induction xs ys rule: list_induct2) auto

section \<open>Big-endian byte strings\<close>

text \<open>\<open>to_be n m\<close> is \<open>m.to_be_bytes()\<close> for an \<open>n\<close>-byte unsigned integer, \<open>of_be\<close> is
  \<open>from_be_bytes\<close>.\<close>

fun to_be :: "nat \<Rightarrow> nat \<Rightarrow> bytes" where
  "to_be 0 m = []"
| "to_be (Suc n) m = to_be n (m div 256) @ [of_nat (m mod 256)]"

definition of_be :: "bytes \<Rightarrow> nat" where
  "of_be bs = foldl (\<lambda>a b. a * 256 + unat b) 0 bs"

lemma length_to_be [simp]: "length (to_be n m) = n"
  by (induction n arbitrary: m) auto

lemma of_be_snoc [simp]: "of_be (bs @ [b]) = of_be bs * 256 + unat b"
  by (simp add: of_be_def)

lemma of_be_Nil [simp]: "of_be [] = 0"
  by (simp add: of_be_def)

lemma unat_u8_less: "unat (b :: u8) < 256"
proof -
  have "unat b < 2 ^ LENGTH(8)" by (rule unsigned_less)
  then show ?thesis by simp
qed

lemma of_nat_unat_u8 [simp]: "(of_nat (unat b mod 256) :: u8) = b"
  using unat_u8_less [of b] by simp

lemma unat_of_nat_u8 [simp]: "unat (of_nat (m mod 256) :: u8) = m mod 256"
  by (simp add: unat_of_nat)

lemma of_be_to_be: "m < 256 ^ n \<Longrightarrow> of_be (to_be n m) = m"
proof (induction n arbitrary: m)
  case 0
  then show ?case by simp
next
  case (Suc n)
  then have "m div 256 < 256 ^ n"
    by (simp add: less_mult_imp_div_less mult.commute)
  with Suc.IH show ?case by simp
qed

lemma of_be_bound: "of_be bs < 256 ^ length bs"
proof (induction bs rule: rev_induct)
  case Nil
  then show ?case by simp
next
  case (snoc b bs)
  then show ?case using unat_u8_less [of b] by simp
qed

lemma to_be_of_be: "to_be (length bs) (of_be bs) = bs"
proof (induction bs rule: rev_induct)
  case Nil
  then show ?case by simp
next
  case (snoc b bs)
  have "(of_be bs * 256 + unat b) div 256 = of_be bs"
    and "(of_be bs * 256 + unat b) mod 256 = unat b mod 256"
    using unat_u8_less [of b] by simp_all
  with snoc show ?case by simp
qed

lemma to_be_inj: "m < 256 ^ n \<Longrightarrow> k < 256 ^ n \<Longrightarrow> to_be n m = to_be n k \<longleftrightarrow> m = k"
  using of_be_to_be by metis

lemma to_be_Suc_Cons: "m < 256 ^ Suc n \<Longrightarrow> to_be (Suc n) m = of_nat (m div 256 ^ n) # to_be n (m mod 256 ^ n)"
proof (induction n arbitrary: m)
  case 0
  then show ?case by simp
next
  case (Suc n)
  have less: "m div 256 < 256 ^ Suc n"
    using Suc.prems by (simp add: less_mult_imp_div_less mult.commute)
  have "to_be (Suc (Suc n)) m = to_be (Suc n) (m div 256) @ [of_nat (m mod 256)]"
    by simp
  also have "\<dots> = of_nat (m div 256 div 256 ^ n) # to_be n (m div 256 mod 256 ^ n) @ [of_nat (m mod 256)]"
    using Suc.IH [OF less] by simp
  also have "m div 256 div 256 ^ n = m div 256 ^ Suc n"
    by (simp add: div_mult2_eq)
  also have "m div 256 mod 256 ^ n = m mod 256 ^ Suc n div 256"
    by (simp add: mod_mult2_eq)
  also have "m mod 256 = m mod 256 ^ Suc n mod 256"
    by (simp add: mod_mult2_eq)
  finally show ?case by simp
qed

lemma diverges_snoc:
  "length xs = length ys \<Longrightarrow>
     diverges (xs @ [x]) (ys @ [y]) \<longleftrightarrow> diverges xs ys \<or> xs = ys \<and> x < y"
  by (induction xs ys rule: list_induct2) auto

lemma diverges_to_be:
  "m < 256 ^ n \<Longrightarrow> k < 256 ^ n \<Longrightarrow> diverges (to_be n m) (to_be n k) \<longleftrightarrow> m < k"
proof (induction n arbitrary: m k)
  case 0
  then show ?case by simp
next
  case (Suc n)
  have m: "m div 256 < 256 ^ n" and k: "k div 256 < 256 ^ n"
    using Suc.prems by (simp_all add: less_mult_imp_div_less mult.commute)
  have low: "(of_nat (m mod 256) :: u8) < of_nat (k mod 256) \<longleftrightarrow> m mod 256 < k mod 256"
    by (simp add: word_less_nat_alt)
  have "diverges (to_be (Suc n) m) (to_be (Suc n) k)
      \<longleftrightarrow> m div 256 < k div 256 \<or> m div 256 = k div 256 \<and> m mod 256 < k mod 256"
    using Suc.IH [OF m k] m k low by (simp add: diverges_snoc to_be_inj)
  also have "\<dots> \<longleftrightarrow> m < k"
    using div_mult_mod_eq [of m 256] div_mult_mod_eq [of k 256]
      mod_less_divisor [of 256 m] mod_less_divisor [of 256 k]
    by arith
  finally show ?case .
qed

end
