(* ===== verification/Ordered_Code.thy ===== *)
theory Ordered_Code
  imports Prelude
begin

text \<open>
  The contract a self-delimiting, order-preserving encoding has to meet, as a locale, and what
  follows from it for tuples: the byte order of concatenated encodings is the element-wise order
  of the tuples, no encoding is a prefix of another, a concatenation can be split in one way
  only, and complementing every byte reverses the order exactly. The UTF-8 encoding of a
  character, the wire encoding of a tuple element and its descending form are instances.
\<close>

section \<open>Element-wise comparison against bytes\<close>

text \<open>The relation between a comparison result and two encodings.\<close>

fun agrees :: "ordering \<Rightarrow> 'b::linorder list \<Rightarrow> 'b list \<Rightarrow> bool" where
  "agrees Less xs ys \<longleftrightarrow> diverges xs ys"
| "agrees Equal xs ys \<longleftrightarrow> xs = ys"
| "agrees Greater xs ys \<longleftrightarrow> diverges ys xs"

lemma agrees_less_iff: "agrees c xs ys \<Longrightarrow> diverges xs ys \<longleftrightarrow> c = Less"
  by (cases c) (auto dest: diverges_asym)

lemma agrees_equal_iff: "agrees c xs ys \<Longrightarrow> xs = ys \<longleftrightarrow> c = Equal"
  by (cases c) auto

lemma agrees_greater_iff: "agrees c xs ys \<Longrightarrow> diverges ys xs \<longleftrightarrow> c = Greater"
  by (cases c) (auto dest: diverges_asym)

lemma agrees_cmp_lin: "agrees c xs ys \<Longrightarrow> cmp_lin xs ys = c"
  by (cases c) (auto dest: diverges_less)

lemma agrees_cmp_lin_append:
  "agrees c xs ys \<Longrightarrow> c \<noteq> Equal \<Longrightarrow> cmp_lin (xs @ us) (ys @ vs) = c"
  by (cases c) (auto dest: diverges_append_less)

lemma agrees_Cons [simp]: "agrees c (b # xs) (b # ys) \<longleftrightarrow> agrees c xs ys"
  by (cases c) auto

lemma agrees_prefix [simp]: "agrees c (ps @ xs) (ps @ ys) \<longleftrightarrow> agrees c xs ys"
  by (cases c) auto

lemma agrees_then_with:
  assumes "agrees c xs ys" and "c = Equal \<Longrightarrow> agrees d us vs"
  shows "agrees (then_with c d) (xs @ us) (ys @ vs)"
  using assms by (cases c) (auto intro: diverges_append)

lemma agrees_append_same: "agrees c xs ys \<Longrightarrow> agrees c (xs @ us) (ys @ us)"
  by (cases c) (auto intro: diverges_append)

lemma agrees_reverse: "agrees c xs ys \<Longrightarrow> agrees (reverse_ordering c) ys xs"
  by (cases c) auto

lemma agrees_map_anti:
  assumes "\<And>x y. f x < f y \<longleftrightarrow> y < x" and "agrees c xs ys"
  shows "agrees (reverse_ordering c) (map f xs) (map f ys)"
  using assms(2) diverges_map_anti [of f, OF assms(1)] by (cases c) auto

text \<open>Lists of encodings closed by a terminator that sorts below each of them: the form of a byte
  string and of an array.\<close>

lemma agrees_terminated:
  assumes "\<And>x y. x \<in> set xs \<Longrightarrow> y \<in> set ys \<Longrightarrow> agrees (c x y) (enc x) (enc y)"
    and "\<And>x. x \<in> set xs \<union> set ys \<Longrightarrow> diverges t (enc x)"
  shows "agrees (lex_cmp c xs ys) (concat (map enc xs) @ t) (concat (map enc ys) @ t)"
  using assms
proof (induction xs arbitrary: ys)
  case Nil
  show ?case
  proof (cases ys)
    case (Cons y ys')
    then have "diverges (t @ []) (enc y @ concat (map enc ys') @ t)"
      using Nil.prems(2) [of y] by (intro diverges_append) auto
    with Cons show ?thesis by simp
  qed simp
next
  case (Cons x xs)
  show ?case
  proof (cases ys)
    case Nil
    then have "diverges (t @ []) (enc x @ concat (map enc xs) @ t)"
      using Cons.prems(2) [of x] by (intro diverges_append) auto
    with Nil show ?thesis by simp
  next
    case [simp]: (Cons y ys')
    have "agrees (lex_cmp c xs ys') (concat (map enc xs) @ t) (concat (map enc ys') @ t)"
      using Cons.prems by (intro Cons.IH) auto
    moreover have "agrees (c x y) (enc x) (enc y)" using Cons.prems(1) by simp
    ultimately show ?thesis by (simp add: agrees_then_with)
  qed
qed

text \<open>Equally many elements need no terminator: the vector and the tuple of a fixed width.\<close>

lemma agrees_same_length:
  assumes "length xs = length ys"
    and "\<And>x y. x \<in> set xs \<Longrightarrow> y \<in> set ys \<Longrightarrow> agrees (c x y) (enc x) (enc y)"
  shows "agrees (lex_cmp c xs ys) (concat (map enc xs)) (concat (map enc ys))"
  using assms by (induction xs ys rule: list_induct2) (auto intro: agrees_then_with)

section \<open>The contract\<close>

locale ordered_code =
  fixes ok :: "'a \<Rightarrow> bool"
    and enc :: "'a \<Rightarrow> bytes"
    and cmp :: "'a \<Rightarrow> 'a \<Rightarrow> ordering"
  assumes enc_agrees: "ok a \<Longrightarrow> ok b \<Longrightarrow> agrees (cmp a b) (enc a) (enc b)"
    and enc_nonempty: "ok a \<Longrightarrow> enc a \<noteq> []"
begin

lemma enc_less_iff: "ok a \<Longrightarrow> ok b \<Longrightarrow> diverges (enc a) (enc b) \<longleftrightarrow> cmp a b = Less"
  using enc_agrees agrees_less_iff by blast

lemma enc_eq_iff: "ok a \<Longrightarrow> ok b \<Longrightarrow> enc a = enc b \<longleftrightarrow> cmp a b = Equal"
  using enc_agrees agrees_equal_iff by blast

lemma byte_order: "ok a \<Longrightarrow> ok b \<Longrightarrow> cmp_lin (enc a) (enc b) = cmp a b"
  using enc_agrees agrees_cmp_lin by blast

lemma prefix_free: "ok a \<Longrightarrow> ok b \<Longrightarrow> prefix (enc a) (enc b) \<Longrightarrow> enc a = enc b"
  using enc_agrees [of a b] by (cases "cmp a b") (auto dest: diverges_not_prefix)

lemma split_unique:
  assumes "ok a" "ok b" "enc a @ u = enc b @ v"
  shows "enc a = enc b \<and> u = v"
proof -
  have "prefix (enc a) (enc b) \<or> prefix (enc b) (enc a)"
    using assms(3) by (metis prefixI prefix_same_cases)
  then have "enc a = enc b" using assms(1,2) prefix_free by metis
  with assms(3) show ?thesis by simp
qed

lemma cmp_refl: "ok a \<Longrightarrow> cmp a a = Equal"
  using enc_eq_iff by blast

lemma cmp_antisym: "ok a \<Longrightarrow> ok b \<Longrightarrow> cmp b a = reverse_ordering (cmp a b)"
  using byte_order [of a b] byte_order [of b a] by (cases "cmp a b") auto

lemma cmp_trans:
  assumes "ok a" "ok b" "ok c" "cmp a b \<noteq> Greater" "cmp b c \<noteq> Greater"
  shows "cmp a c \<noteq> Greater \<and> (cmp a c = Equal \<longrightarrow> cmp a b = Equal \<and> cmp b c = Equal)"
proof -
  have ab: "enc a \<le> enc b" and bc: "enc b \<le> enc c"
    using assms byte_order by (metis cmp_lin_simps(3) not_less)+
  then have "enc a \<le> enc c" by simp
  moreover have "enc a = enc c \<Longrightarrow> enc a = enc b \<and> enc b = enc c"
    using ab bc by simp
  ultimately show ?thesis
    using assms byte_order enc_eq_iff by (metis cmp_lin_simps(3) not_less)
qed

text \<open>A tuple's byte order is its element-wise order, whatever its elements' lengths.\<close>

lemma concat_byte_order:
  assumes "list_all ok xs" and "list_all ok ys"
  shows "cmp_lin (concat (map enc xs)) (concat (map enc ys)) = lex_cmp cmp xs ys"
  using assms
proof (induction xs arbitrary: ys)
  case Nil
  then show ?case using enc_nonempty by (cases ys) auto
next
  case (Cons x xs)
  show ?case
  proof (cases ys)
    case Nil
    then show ?thesis using Cons.prems enc_nonempty [of x] by auto
  next
    case [simp]: (Cons y ys')
    have ok: "ok x" "ok y" and IH: "cmp_lin (concat (map enc xs)) (concat (map enc ys')) = lex_cmp cmp xs ys'"
      using Cons.prems Cons.IH by auto
    show ?thesis
    proof (cases "cmp x y = Equal")
      case True
      then have "enc x = enc y" using ok enc_eq_iff by blast
      then show ?thesis using True IH by simp
    next
      case False
      then show ?thesis
        using agrees_cmp_lin_append [OF enc_agrees [OF ok]] by (cases "cmp x y") auto
    qed
  qed
qed

lemma concat_eq_iff:
  assumes "list_all ok xs" and "list_all ok ys"
  shows "concat (map enc xs) = concat (map enc ys) \<longleftrightarrow> lex_cmp cmp xs ys = Equal"
  using concat_byte_order [OF assms] by (metis cmp_lin_simps(2))

text \<open>A tuple that extends another is exactly one whose bytes extend the other's bytes: a key
  prefix is a tuple prefix.\<close>

lemma concat_prefix:
  assumes "list_all ok xs" and "list_all ok ys" and "length xs \<le> length ys"
    and "prefix (concat (map enc xs)) (concat (map enc ys))"
  shows "lex_cmp cmp xs (take (length xs) ys) = Equal"
  using assms
proof (induction xs arbitrary: ys)
  case Nil
  then show ?case by simp
next
  case (Cons x xs)
  then obtain y ys' where [simp]: "ys = y # ys'" by (cases ys) auto
  obtain zs where "enc x @ concat (map enc xs) @ zs = enc y @ concat (map enc ys')"
    using Cons.prems(4) by (auto simp: prefix_def)
  with Cons.prems(1,2) have eq: "enc x = enc y"
    and rest: "concat (map enc xs) @ zs = concat (map enc ys')"
    using split_unique [of x y] by auto
  have "lex_cmp cmp xs (take (length xs) ys') = Equal"
    using Cons.prems(1-3) prefixI [OF rest [symmetric]] by (intro Cons.IH) auto
  moreover have "cmp x y = Equal" using eq Cons.prems(1,2) enc_eq_iff by simp
  ultimately show ?case by simp
qed

end

text \<open>Complementing every byte of an ordered code gives the ordered code of the reverse order.\<close>

lemma not_u8_less: "NOT x < NOT y \<longleftrightarrow> y < (x :: u8)"
proof -
  have "take_bit 8 (uint z) = uint z" for z :: u8
    using uint_lt2p [of z] by (simp add: take_bit_int_eq_self)
  then show ?thesis
    by (simp add: word_less_def unsigned_not_eq take_bit_not_eq_mask_diff)
qed

lemma ordered_code_complement:
  assumes "ordered_code ok enc cmp"
  shows "ordered_code ok (\<lambda>a. map NOT (enc a)) (\<lambda>a b. reverse_ordering (cmp a b))"
proof
  fix a b assume "ok a" "ok b"
  then show "agrees (reverse_ordering (cmp a b)) (map NOT (enc a)) (map NOT (enc b))"
    using agrees_map_anti [OF not_u8_less] ordered_code.enc_agrees [OF assms] by blast
next
  fix a assume "ok a"
  then show "map NOT (enc a) \<noteq> []"
    using ordered_code.enc_nonempty [OF assms] by simp
qed

end
