(* ===== verification/Utf8.thy ===== *)
theory Utf8
  imports Ordered_Code
begin

text \<open>
  Rust's \<open>str\<close> as the crates use it: a \<open>String\<close> is its UTF-8 bytes, \<open>String::from_utf8\<close>
  accepts exactly the well-formed byte strings of the Unicode standard's table of byte
  sequences, and \<open>chars()\<close> yields the Unicode scalar values they spell. A character is its
  scalar value, a natural number. The encoding of characters is an ordered code, which is why
  comparing the bytes of two strings compares their characters.
\<close>

section \<open>Characters and their encoding\<close>

definition is_scalar :: "nat \<Rightarrow> bool" where
  "is_scalar c \<longleftrightarrow> c < 0xD800 \<or> 0xE000 \<le> c \<and> c < 0x110000"

definition utf8_char :: "nat \<Rightarrow> bytes" where
  "utf8_char c =
     (if c < 0x80 then [of_nat c]
      else if c < 0x800 then [of_nat (0xC0 + c div 64), of_nat (0x80 + c mod 64)]
      else if c < 0x10000 then
        [of_nat (0xE0 + c div 64 div 64), of_nat (0x80 + c div 64 mod 64), of_nat (0x80 + c mod 64)]
      else
        [of_nat (0xF0 + c div 64 div 64 div 64), of_nat (0x80 + c div 64 div 64 mod 64),
         of_nat (0x80 + c div 64 mod 64), of_nat (0x80 + c mod 64)])"

definition utf8_encode :: "nat list \<Rightarrow> bytes" where
  "utf8_encode cs = concat (map utf8_char cs)"

section \<open>Decoding\<close>

definition cont :: "u8 \<Rightarrow> bool" where
  "cont b \<longleftrightarrow> 0x80 \<le> unat b \<and> unat b < 0xC0"

text \<open>The second byte of a three- and of a four-byte sequence: the bounds exclude over-long
  forms, the surrogates and everything above \<open>U+10FFFF\<close>.\<close>

definition second3 :: "nat \<Rightarrow> u8 \<Rightarrow> bool" where
  "second3 a b \<longleftrightarrow> cont b \<and> (a = 0xE0 \<longrightarrow> 0xA0 \<le> unat b) \<and> (a = 0xED \<longrightarrow> unat b < 0xA0)"

definition second4 :: "nat \<Rightarrow> u8 \<Rightarrow> bool" where
  "second4 a b \<longleftrightarrow> cont b \<and> (a = 0xF0 \<longrightarrow> 0x90 \<le> unat b) \<and> (a = 0xF4 \<longrightarrow> unat b < 0x90)"

fun utf8_next :: "bytes \<Rightarrow> (nat \<times> bytes) option" where
  "utf8_next [] = None"
| "utf8_next (b # r) =
     (let a = unat b in
      if a < 0x80 then Some (a, r)
      else if 0xC2 \<le> a \<and> a < 0xE0 then
        (case r of
           b1 # r' \<Rightarrow> if cont b1 then Some ((a - 0xC0) * 64 + (unat b1 - 0x80), r') else None
         | _ \<Rightarrow> None)
      else if 0xE0 \<le> a \<and> a < 0xF0 then
        (case r of
           b1 # b2 # r' \<Rightarrow>
             if second3 a b1 \<and> cont b2
             then Some (((a - 0xE0) * 64 + (unat b1 - 0x80)) * 64 + (unat b2 - 0x80), r') else None
         | _ \<Rightarrow> None)
      else if 0xF0 \<le> a \<and> a < 0xF5 then
        (case r of
           b1 # b2 # b3 # r' \<Rightarrow>
             if second4 a b1 \<and> cont b2 \<and> cont b3
             then Some ((((a - 0xF0) * 64 + (unat b1 - 0x80)) * 64 + (unat b2 - 0x80)) * 64
                    + (unat b3 - 0x80), r') else None
         | _ \<Rightarrow> None)
      else None)"

lemma utf8_next_shorter: "utf8_next bs = Some (c, r) \<Longrightarrow> length r < length bs"
  by (cases bs) (auto simp: Let_def split: if_splits list.splits)

function utf8_decode :: "bytes \<Rightarrow> nat list option" where
  "utf8_decode bs =
     (if bs = [] then Some []
      else case utf8_next bs of
        None \<Rightarrow> None
      | Some (c, r) \<Rightarrow> map_option (Cons c) (utf8_decode r))"
  by pat_completeness auto
termination
  by (relation "measure length") (auto dest: utf8_next_shorter)

declare utf8_decode.simps [simp del]

text \<open>\<open>String::from_utf8\<close> and \<open>str::chars\<close>.\<close>

definition from_utf8 :: "bytes \<Rightarrow> bool" where
  "from_utf8 bs \<longleftrightarrow> utf8_decode bs \<noteq> None"

definition chars :: "bytes \<Rightarrow> nat list" where
  "chars bs = (case utf8_decode bs of None \<Rightarrow> [] | Some cs \<Rightarrow> cs)"

section \<open>Encoding and decoding are inverse\<close>

lemma of_nat_u8_simps:
  "a < 256 \<Longrightarrow> unat (of_nat a :: u8) = a"
  "a < 256 \<Longrightarrow> b < 256 \<Longrightarrow> (of_nat a :: u8) < of_nat b \<longleftrightarrow> a < b"
  "a < 256 \<Longrightarrow> b < 256 \<Longrightarrow> (of_nat a :: u8) = of_nat b \<longleftrightarrow> a = b"
proof -
  show 1: "unat (of_nat a :: u8) = a" if "a < 256" for a
    using that by (simp add: unat_of_nat)
  show "a < 256 \<Longrightarrow> b < 256 \<Longrightarrow> (of_nat a :: u8) < of_nat b \<longleftrightarrow> a < b"
    by (simp add: word_less_nat_alt 1)
  show "a < 256 \<Longrightarrow> b < 256 \<Longrightarrow> (of_nat a :: u8) = of_nat b \<longleftrightarrow> a = b"
    by (metis 1)
qed

text \<open>A scalar value by its groups of six bits, most significant first.\<close>

lemma six_bits: "z < 64 \<Longrightarrow> (a * 64 + z) div 64 = a" "z < 64 \<Longrightarrow> (a * 64 + z) mod 64 = (z :: nat)"
  by simp_all

lemma utf8_char_1: "c < 0x80 \<Longrightarrow> utf8_char c = [of_nat c]"
  by (simp add: utf8_char_def)

lemma utf8_char_2:
  "2 \<le> x \<Longrightarrow> x < 32 \<Longrightarrow> z < 64 \<Longrightarrow>
     utf8_char (x * 64 + z) = [of_nat (0xC0 + x), of_nat (0x80 + z)]"
  by (simp add: utf8_char_def)

lemma utf8_char_3:
  assumes "x < 16" "y < 64" "z < 64" "x = 0 \<longrightarrow> 32 \<le> y"
  shows "utf8_char ((x * 64 + y) * 64 + z) = [of_nat (0xE0 + x), of_nat (0x80 + y), of_nat (0x80 + z)]"
proof -
  have "0x800 \<le> (x * 64 + y) * 64 + z" "(x * 64 + y) * 64 + z < 0x10000"
    using assms by auto
  then have "utf8_char ((x * 64 + y) * 64 + z) =
      (let c = (x * 64 + y) * 64 + z in
       [of_nat (0xE0 + c div 64 div 64), of_nat (0x80 + c div 64 mod 64), of_nat (0x80 + c mod 64)])"
    by (auto simp: utf8_char_def Let_def)
  then show ?thesis by (simp only: Let_def six_bits assms)
qed

lemma utf8_char_4:
  assumes "x < 64" "y < 64" "z < 64" "v = 0 \<longrightarrow> 16 \<le> x"
  shows "utf8_char (((v * 64 + x) * 64 + y) * 64 + z)
       = [of_nat (0xF0 + v), of_nat (0x80 + x), of_nat (0x80 + y), of_nat (0x80 + z)]"
proof -
  have "0x10000 \<le> ((v * 64 + x) * 64 + y) * 64 + z"
    using assms by auto
  then have "utf8_char (((v * 64 + x) * 64 + y) * 64 + z) =
      (let c = ((v * 64 + x) * 64 + y) * 64 + z in
       [of_nat (0xF0 + c div 64 div 64 div 64), of_nat (0x80 + c div 64 div 64 mod 64),
         of_nat (0x80 + c div 64 mod 64), of_nat (0x80 + c mod 64)])"
    by (auto simp: utf8_char_def Let_def)
  then show ?thesis by (simp only: Let_def six_bits assms)
qed

lemma is_scalar_cases [consumes 1, case_names one two three four]:
  assumes "is_scalar c"
  obtains (one) "c < 0x80"
  | (two) x z where "c = x * 64 + z" "2 \<le> x" "x < 32" "z < 64"
  | (three) x y z where "c = (x * 64 + y) * 64 + z" "x < 16" "y < 64" "z < 64"
      "x = 0 \<longrightarrow> 32 \<le> y" "x = 13 \<longrightarrow> y < 32"
  | (four) v x y z where "c = ((v * 64 + x) * 64 + y) * 64 + z" "v < 5" "x < 64" "y < 64" "z < 64"
      "v = 0 \<longrightarrow> 16 \<le> x" "v = 4 \<longrightarrow> x < 16"
proof -
  have six: "\<exists>a z. n = a * 64 + z \<and> z < 64" for n :: nat
    by (metis div_mult_mod_eq mod_less_divisor zero_less_numeral)
  obtain a z where c: "c = a * 64 + z" "z < 64" using six by blast
  obtain x y where a: "a = x * 64 + y" "y < 64" using six by blast
  obtain v w where x: "x = v * 64 + w" "w < 64" using six by blast
  consider "c < 0x80" | "0x80 \<le> c" "c < 0x800" | "0x800 \<le> c" "c < 0x10000" | "0x10000 \<le> c"
    by linarith
  then show thesis
  proof cases
    case 1
    then show ?thesis by (rule one)
  next
    case 2
    then show ?thesis using two [of a z] c by linarith
  next
    case 3
    with c a have "c = (x * 64 + y) * 64 + z" "x < 16" "x = 0 \<longrightarrow> 32 \<le> y" by auto
    moreover from 3 c a assms have "x = 13 \<longrightarrow> y < 32" unfolding is_scalar_def by auto
    ultimately show ?thesis using c(2) a(2) by (rule_tac three)
  next
    case 4
    with c a x assms have "c = ((v * 64 + w) * 64 + y) * 64 + z" "v < 5" "v = 0 \<longrightarrow> 16 \<le> w"
      "v = 4 \<longrightarrow> w < 16"
      unfolding is_scalar_def by auto
    then show ?thesis using c(2) a(2) x(2) by (rule_tac four)
  qed
qed

lemma utf8_char_bytes [consumes 1, case_names one two three four]:
  assumes "is_scalar c"
  obtains (one) "c < 0x80" "utf8_char c = [of_nat c]"
  | (two) x z where "c = x * 64 + z" "2 \<le> x" "x < 32" "z < 64"
      "utf8_char c = [of_nat (0xC0 + x), of_nat (0x80 + z)]"
  | (three) x y z where "c = (x * 64 + y) * 64 + z" "x < 16" "y < 64" "z < 64"
      "x = 0 \<longrightarrow> 32 \<le> y" "x = 13 \<longrightarrow> y < 32"
      "utf8_char c = [of_nat (0xE0 + x), of_nat (0x80 + y), of_nat (0x80 + z)]"
  | (four) v x y z where "c = ((v * 64 + x) * 64 + y) * 64 + z" "v < 5" "x < 64" "y < 64" "z < 64"
      "v = 0 \<longrightarrow> 16 \<le> x" "v = 4 \<longrightarrow> x < 16"
      "utf8_char c = [of_nat (0xF0 + v), of_nat (0x80 + x), of_nat (0x80 + y), of_nat (0x80 + z)]"
  using assms
proof (cases c rule: is_scalar_cases)
  case one
  then show ?thesis using utf8_char_1 by (rule_tac that(1))
next
  case (two x z)
  from two(2-4) have "utf8_char c = [of_nat (0xC0 + x), of_nat (0x80 + z)]"
    unfolding two(1) by (rule utf8_char_2)
  with two show ?thesis by (rule that(2))
next
  case (three x y z)
  from three(2-5)
  have "utf8_char c = [of_nat (0xE0 + x), of_nat (0x80 + y), of_nat (0x80 + z)]"
    unfolding three(1) by (rule utf8_char_3)
  with three show ?thesis by (rule that(3))
next
  case (four v x y z)
  from four(3-6)
  have "utf8_char c = [of_nat (0xF0 + v), of_nat (0x80 + x), of_nat (0x80 + y), of_nat (0x80 + z)]"
    unfolding four(1) by (rule utf8_char_4)
  with four show ?thesis by (rule that(4))
qed

lemma utf8_next_char: "is_scalar c \<Longrightarrow> utf8_next (utf8_char c @ r) = Some (c, r)"
  by (cases c rule: utf8_char_bytes)
    (simp_all add: of_nat_u8_simps cont_def second3_def second4_def del: of_nat_add)

lemma utf8_char_nonempty [simp]: "utf8_char c \<noteq> []"
  by (simp add: utf8_char_def)

lemma utf8_encode_simps [simp]:
  "utf8_encode [] = []"
  "utf8_encode (c # cs) = utf8_char c @ utf8_encode cs"
  by (simp_all add: utf8_encode_def)

lemma utf8_decode_encode: "list_all is_scalar cs \<Longrightarrow> utf8_decode (utf8_encode cs) = Some cs"
proof (induction cs)
  case Nil
  show ?case by (simp add: utf8_decode.simps)
next
  case (Cons c cs)
  then show ?case
    by (subst utf8_decode.simps) (simp add: utf8_next_char)
qed

lemma of_nat_unat_u8_eq: "unat b = n \<Longrightarrow> of_nat n = (b :: u8)"
  by auto

lemma utf8_next_inv: "utf8_next bs = Some (c, r) \<Longrightarrow> is_scalar c \<and> bs = utf8_char c @ r"
proof (cases bs)
  case (Cons b bs')
  assume next_eq: "utf8_next bs = Some (c, r)"
  consider "unat b < 0x80" | "0xC2 \<le> unat b" "unat b < 0xE0" | "0xE0 \<le> unat b" "unat b < 0xF0"
    | "0xF0 \<le> unat b" "unat b < 0xF5" | "0x80 \<le> unat b" "unat b < 0xC2 \<or> 0xF5 \<le> unat b"
    by linarith
  then show ?thesis
  proof cases
    case 1
    with next_eq Cons show ?thesis by (auto simp: utf8_char_1 is_scalar_def)
  next
    case 2
    with next_eq Cons obtain b1 where bs: "bs' = b1 # r" "cont b1"
      and c: "c = (unat b - 0xC0) * 64 + (unat b1 - 0x80)"
      by (auto simp: Let_def split: list.splits if_splits)
    have "utf8_char c = [of_nat (0xC0 + (unat b - 0xC0)), of_nat (0x80 + (unat b1 - 0x80))]"
      unfolding c using 2 bs(2) by (intro utf8_char_2) (auto simp: cont_def)
    with 2 bs Cons show ?thesis by (auto simp: cont_def is_scalar_def c)
  next
    case 3
    with next_eq Cons obtain b1 b2 where bs: "bs' = b1 # b2 # r" "second3 (unat b) b1" "cont b2"
      and c: "c = ((unat b - 0xE0) * 64 + (unat b1 - 0x80)) * 64 + (unat b2 - 0x80)"
      by (auto simp: Let_def split: list.splits if_splits)
    have "utf8_char c = [of_nat (0xE0 + (unat b - 0xE0)), of_nat (0x80 + (unat b1 - 0x80)),
        of_nat (0x80 + (unat b2 - 0x80))]"
      unfolding c using 3 bs(2,3) by (intro utf8_char_3) (auto simp: cont_def second3_def)
    moreover have "is_scalar c"
    proof -
      obtain e f g where "unat b = 0xE0 + e" "unat b1 = 0x80 + f" "unat b2 = 0x80 + g"
        using 3 bs(2,3) le_Suc_ex unfolding cont_def second3_def by metis
      with 3 bs(2,3) show ?thesis
        unfolding c is_scalar_def
        by (cases e "13 :: nat" rule: linorder_cases) (auto simp: cont_def second3_def)
    qed
    ultimately show ?thesis using 3 bs Cons by (auto simp: cont_def second3_def)
  next
    case 4
    with next_eq Cons obtain b1 b2 b3 where bs: "bs' = b1 # b2 # b3 # r"
      "second4 (unat b) b1" "cont b2" "cont b3"
      and c: "c = (((unat b - 0xF0) * 64 + (unat b1 - 0x80)) * 64 + (unat b2 - 0x80)) * 64
        + (unat b3 - 0x80)"
      by (auto simp: Let_def split: list.splits if_splits)
    have "utf8_char c = [of_nat (0xF0 + (unat b - 0xF0)), of_nat (0x80 + (unat b1 - 0x80)),
        of_nat (0x80 + (unat b2 - 0x80)), of_nat (0x80 + (unat b3 - 0x80))]"
      unfolding c using 4 bs(2-4) by (intro utf8_char_4) (auto simp: cont_def second4_def)
    moreover have "is_scalar c"
      unfolding c is_scalar_def using 4 bs(2-4) by (auto simp: cont_def second4_def)
    ultimately show ?thesis using 4 bs Cons by (auto simp: cont_def second4_def)
  next
    case 5
    with next_eq Cons show ?thesis by (auto simp: Let_def split: if_splits)
  qed
qed simp

lemma utf8_decode_inv: "utf8_decode bs = Some cs \<Longrightarrow> list_all is_scalar cs \<and> utf8_encode cs = bs"
proof (induction bs arbitrary: cs rule: utf8_decode.induct)
  case (1 bs)
  show ?case
  proof (cases "bs = []")
    case True
    with "1.prems" show ?thesis by (auto simp: utf8_decode.simps)
  next
    case False
    with "1.prems" obtain c r cs' where next_eq: "utf8_next bs = Some (c, r)"
      and dec: "utf8_decode r = Some cs'" and cs: "cs = c # cs'"
      by (subst (asm) utf8_decode.simps) (auto split: option.splits)
    from "1.IH" [OF False next_eq refl dec] utf8_next_inv [OF next_eq] cs
    show ?thesis by simp
  qed
qed

lemma utf8_encode_chars: "from_utf8 bs \<Longrightarrow> utf8_encode (chars bs) = bs \<and> list_all is_scalar (chars bs)"
  by (auto simp: from_utf8_def chars_def dest: utf8_decode_inv)

lemma chars_utf8_encode: "list_all is_scalar cs \<Longrightarrow> chars (utf8_encode cs) = cs \<and> from_utf8 (utf8_encode cs)"
  by (simp add: chars_def from_utf8_def utf8_decode_encode)

section \<open>Byte order is character order\<close>

interpretation utf8: ordered_code is_scalar utf8_char cmp_lin
proof
  fix a b assume ok: "is_scalar a" "is_scalar b"
  have less: "diverges (utf8_char a) (utf8_char b)" if "a < b" "is_scalar a" "is_scalar b" for a b
    using that(2)
  proof (cases a rule: utf8_char_bytes)
    case one
    note A = this
    from that(3) show ?thesis
      by (cases b rule: utf8_char_bytes) (use that(1) A in \<open>auto simp: of_nat_u8_simps simp del: of_nat_add\<close>)
  next
    case (two x z)
    note A = this
    from that(3) show ?thesis
      by (cases b rule: utf8_char_bytes) (use that(1) A in \<open>auto simp: of_nat_u8_simps simp del: of_nat_add\<close>)
  next
    case (three x y z)
    note A = this
    from that(3) show ?thesis
      by (cases b rule: utf8_char_bytes) (use that(1) A in \<open>auto simp: of_nat_u8_simps simp del: of_nat_add\<close>)
  next
    case (four v x y z)
    note A = this
    from that(3) show ?thesis
      by (cases b rule: utf8_char_bytes) (use that(1) A in \<open>auto simp: of_nat_u8_simps simp del: of_nat_add\<close>)
  qed
  show "agrees (cmp_lin a b) (utf8_char a) (utf8_char b)"
    using less [of a b] less [of b a] ok by (cases a b rule: linorder_cases) auto
next
  fix a assume "is_scalar a"
  show "utf8_char a \<noteq> []" by simp
qed

text \<open>
  The order of strings by their UTF-8 bytes, which \<open>Value\<close> uses for \<open>Str\<close>, is the order by
  code points that its documentation promises.
\<close>

lemma str_order_is_char_order:
  assumes "from_utf8 a" and "from_utf8 b"
  shows "cmp_lin a b = lex_cmp cmp_lin (chars a) (chars b)"
  using utf8.concat_byte_order [of "chars a" "chars b"] utf8_encode_chars [OF assms(1)]
    utf8_encode_chars [OF assms(2)]
  by (simp add: utf8_encode_def)

end
