(* ===== verification/Tuple_Value.thy ===== *)
theory Tuple_Value
  imports Utf8
begin

text \<open>
  The closed value model of \<open>crates/slate-tuple/src/value.rs\<close>: the \<open>Value\<close> enum, its type tags,
  its total order, and the reading and writing of decimals. Signed integers are their 64-bit
  two's complement words, floats their IEEE-754 bit patterns (which is all the code looks at), a
  \<open>String\<close> its UTF-8 bytes, a UUID its sixteen bytes.
\<close>

section \<open>Values and their types\<close>

datatype Value =
    Null
  | Bool bool
  | Bytes bytes
  | Str bytes
  | I64 i64
  | U64 u64
  | F64 u64
  | Decimal i64
  | Uuid bytes
  | Vector "u32 list"
  | Array "Value list"

datatype ValueType =
    TBool | TBytes | TStr | TI64 | TU64 | TF64 | TDecimal | TUuid | TVector | TArray

definition ValueType_ALL :: "ValueType list" where
  "ValueType_ALL = [TBool, TBytes, TStr, TI64, TU64, TF64, TDecimal, TUuid, TVector, TArray]"

fun ValueType_name :: "ValueType \<Rightarrow> string" where
  "ValueType_name TBool = ''bool''"
| "ValueType_name TBytes = ''bytes''"
| "ValueType_name TStr = ''string''"
| "ValueType_name TI64 = ''i64''"
| "ValueType_name TU64 = ''u64''"
| "ValueType_name TF64 = ''f64''"
| "ValueType_name TDecimal = ''decimal''"
| "ValueType_name TUuid = ''uuid''"
| "ValueType_name TVector = ''vector''"
| "ValueType_name TArray = ''array''"

fun value_type :: "Value \<Rightarrow> ValueType option" where
  "value_type Null = None"
| "value_type (Bool _) = Some TBool"
| "value_type (Bytes _) = Some TBytes"
| "value_type (Str _) = Some TStr"
| "value_type (I64 _) = Some TI64"
| "value_type (U64 _) = Some TU64"
| "value_type (F64 _) = Some TF64"
| "value_type (Decimal _) = Some TDecimal"
| "value_type (Uuid _) = Some TUuid"
| "value_type (Vector _) = Some TVector"
| "value_type (Array _) = Some TArray"

definition type_name :: "Value \<Rightarrow> string" where
  "type_name v = (case value_type v of None \<Rightarrow> ''null'' | Some t \<Rightarrow> ValueType_name t)"

fun is_null :: "Value \<Rightarrow> bool" where
  "is_null Null = True"
| "is_null _ = False"

section \<open>Floats as bit patterns\<close>

text \<open>\<open>is_nan\<close> and \<open>total_cmp\<close> of the standard library, on the bits: a NaN has every exponent
  bit set and a non-zero fraction, and \<open>total_cmp\<close> compares the patterns as signed integers after
  inverting the magnitude bits of the negative ones.\<close>

definition f64_is_nan :: "u64 \<Rightarrow> bool" where
  "f64_is_nan w \<longleftrightarrow> 0x7FF0000000000000 < w AND 0x7FFFFFFFFFFFFFFF"

definition f32_is_nan :: "u32 \<Rightarrow> bool" where
  "f32_is_nan w \<longleftrightarrow> 0x7F800000 < w AND 0x7FFFFFFF"

definition f64_total_cmp :: "u64 \<Rightarrow> u64 \<Rightarrow> ordering" where
  "f64_total_cmp a b =
     cmp_lin (sint (a XOR drop_bit 1 (signed_drop_bit 63 a)))
             (sint (b XOR drop_bit 1 (signed_drop_bit 63 b)))"

definition f32_total_cmp :: "u32 \<Rightarrow> u32 \<Rightarrow> ordering" where
  "f32_total_cmp a b =
     cmp_lin (sint (a XOR drop_bit 1 (signed_drop_bit 31 a)))
             (sint (b XOR drop_bit 1 (signed_drop_bit 31 b)))"

definition f64_cmp :: "u64 \<Rightarrow> u64 \<Rightarrow> ordering" where
  "f64_cmp a b =
     (case (f64_is_nan a, f64_is_nan b) of
        (True, True) \<Rightarrow> Equal
      | (True, False) \<Rightarrow> Greater
      | (False, True) \<Rightarrow> Less
      | (False, False) \<Rightarrow> f64_total_cmp a b)"

definition f32_cmp :: "u32 \<Rightarrow> u32 \<Rightarrow> ordering" where
  "f32_cmp a b =
     (case (f32_is_nan a, f32_is_nan b) of
        (True, True) \<Rightarrow> Equal
      | (True, False) \<Rightarrow> Greater
      | (False, True) \<Rightarrow> Less
      | (False, False) \<Rightarrow> f32_total_cmp a b)"

text \<open>The loop over the zipped elements of two vectors: the first unequal pair decides.\<close>

fun vector_cmp_loop :: "(u32 \<times> u32) list \<Rightarrow> ordering" where
  "vector_cmp_loop [] = Equal"
| "vector_cmp_loop ((x, y) # ps) =
     (let c = f32_cmp x y in if c \<noteq> Equal then c else vector_cmp_loop ps)"

section \<open>The total order\<close>

fun class_rank :: "Value \<Rightarrow> nat" where
  "class_rank Null = 0"
| "class_rank (Bool _) = 1"
| "class_rank (Bytes _) = 2"
| "class_rank (Str _) = 3"
| "class_rank (I64 _) = 4"
| "class_rank (U64 _) = 4"
| "class_rank (Decimal _) = 5"
| "class_rank (F64 _) = 6"
| "class_rank (Uuid _) = 7"
| "class_rank (Vector _) = 8"
| "class_rank (Array _) = 9"

fun as_i128 :: "Value \<Rightarrow> int option" where
  "as_i128 (I64 v) = Some (sint v)"
| "as_i128 (U64 v) = Some (uint v)"
| "as_i128 _ = None"

fun value_cmp :: "Value \<Rightarrow> Value \<Rightarrow> ordering" where
  "value_cmp a b =
     (let rank = cmp_lin (class_rank a) (class_rank b) in
      if rank \<noteq> Equal then rank
      else case (a, b) of
        (Null, Null) \<Rightarrow> Equal
      | (Bool x, Bool y) \<Rightarrow> cmp_lin x y
      | (Bytes x, Bytes y) \<Rightarrow> lex_cmp cmp_lin x y
      | (Str x, Str y) \<Rightarrow> lex_cmp cmp_lin x y
      | (Uuid x, Uuid y) \<Rightarrow> lex_cmp cmp_lin x y
      | (Vector x, Vector y) \<Rightarrow> then_with (cmp_lin (length x) (length y)) (vector_cmp_loop (zip x y))
      | (Array x, Array y) \<Rightarrow> lex_cmp value_cmp x y
      | (F64 x, F64 y) \<Rightarrow> f64_cmp x y
      | (Decimal x, Decimal y) \<Rightarrow> cmp_lin (sint x) (sint y)
      | (_, _) \<Rightarrow>
          (case (as_i128 a, as_i128 b) of
             (Some x, Some y) \<Rightarrow> cmp_lin x y
           | (_, _) \<Rightarrow> Equal))"

definition value_eq :: "Value \<Rightarrow> Value \<Rightarrow> bool" where
  "value_eq a b \<longleftrightarrow> value_cmp a b = Equal"

declare value_cmp.simps [simp del]

end
