(* ===== verification/Tuple_Codec.thy ===== *)
theory Tuple_Codec
  imports Tuple_Value
begin

text \<open>
  The order-preserving tuple codec of \<open>crates/slate-tuple/src/codec.rs\<close>, function by function:
  the masked sink and the encoder, the cursor \<open>TupleReader\<close> with its schema-directed, dynamic and
  skipping readers, and whole-tuple decoding. \<open>usize\<close> is a natural number with the 64-bit bound
  where the code checks for overflow. The cursor is passed and returned explicitly; after an
  error it is not returned, since every caller gives up then.
\<close>

section \<open>Directions and codes\<close>

datatype Direction = Asc | Desc

fun dir_mask :: "Direction \<Rightarrow> u8" where
  "dir_mask Asc = 0x00"
| "dir_mask Desc = 0xFF"

definition c_NULL :: u8 where "c_NULL = 0x01"
definition c_FALSE :: u8 where "c_FALSE = 0x02"
definition c_TRUE :: u8 where "c_TRUE = 0x03"
definition c_BYTES :: u8 where "c_BYTES = 0x04"
definition c_STR :: u8 where "c_STR = 0x05"
definition c_INT_ZERO :: u8 where "c_INT_ZERO = 0x15"
definition c_INT_MIN :: u8 where "c_INT_MIN = c_INT_ZERO - 8"
definition c_INT_MAX :: u8 where "c_INT_MAX = c_INT_ZERO + 8"
definition c_DECIMAL :: u8 where "c_DECIMAL = 0x1E"
definition c_F64 :: u8 where "c_F64 = 0x21"
definition c_UUID :: u8 where "c_UUID = 0x22"
definition c_VECTOR :: u8 where "c_VECTOR = 0x23"
definition c_ARRAY :: u8 where "c_ARRAY = 0x24"
definition c_NUL :: u8 where "c_NUL = 0x00"
definition c_ESCAPE :: u8 where "c_ESCAPE = 0xFF"

lemmas codes_defs = c_NULL_def c_FALSE_def c_TRUE_def c_BYTES_def c_STR_def c_INT_ZERO_def
  c_INT_MIN_def c_INT_MAX_def c_DECIMAL_def c_F64_def c_UUID_def c_VECTOR_def c_ARRAY_def
  c_NUL_def c_ESCAPE_def

section \<open>Floats and integer lengths\<close>

definition F64_NAN :: u64 where "F64_NAN = 0x7FF8000000000000"
definition F32_NAN :: u32 where "F32_NAN = 0x7FC00000"
definition SIGN_BIT :: u64 where "SIGN_BIT = 0x8000000000000000"
definition SIGN32 :: u32 where "SIGN32 = 0x80000000"

definition f64_to_ordered :: "u64 \<Rightarrow> u64" where
  "f64_to_ordered v =
     (let bits = (if f64_is_nan v then F64_NAN else v)
      in if bits AND SIGN_BIT = 0 then bits XOR SIGN_BIT else NOT bits)"

definition f32_to_ordered :: "u32 \<Rightarrow> u32" where
  "f32_to_ordered v =
     (let bits = (if f32_is_nan v then F32_NAN else v)
      in if bits AND SIGN32 = 0 then bits XOR SIGN32 else NOT bits)"

definition ordered_to_f32 :: "u32 \<Rightarrow> u32" where
  "ordered_to_f32 w = (if w AND SIGN32 = 0 then NOT w else w XOR SIGN32)"

definition ordered_to_f64 :: "u64 \<Rightarrow> u64" where
  "ordered_to_f64 w = (if w AND SIGN_BIT = 0 then NOT w else w XOR SIGN_BIT)"

fun bit_length :: "nat \<Rightarrow> nat" where
  "bit_length n = (if n = 0 then 0 else Suc (bit_length (n div 2)))"

declare bit_length.simps [simp del]

definition leading_zeros :: "u64 \<Rightarrow> nat" where
  "leading_zeros w = 64 - bit_length (unat w)"

definition magnitude_len :: "u64 \<Rightarrow> nat" where
  "magnitude_len m = 8 - leading_zeros m div 8"

definition u64_to_be_bytes :: "u64 \<Rightarrow> bytes" where
  "u64_to_be_bytes w = to_be 8 (unat w)"

definition u32_to_be_bytes :: "u32 \<Rightarrow> bytes" where
  "u32_to_be_bytes w = to_be 4 (unat w)"

definition u64_from_be_bytes :: "bytes \<Rightarrow> u64" where
  "u64_from_be_bytes bs = of_nat (of_be bs)"

definition u32_from_be_bytes :: "bytes \<Rightarrow> u32" where
  "u32_from_be_bytes bs = of_nat (of_be bs)"

text \<open>\<open>i64::unsigned_abs\<close>, and the sign test, on the two's complement word.\<close>

definition unsigned_abs :: "i64 \<Rightarrow> u64" where
  "unsigned_abs v = (if sint v < 0 then - v else v)"

section \<open>Writing\<close>

record Sink =
  sink_buf :: bytes
  sink_mask :: u8

definition Sink_push :: "Sink \<Rightarrow> u8 \<Rightarrow> Sink" where
  "Sink_push s b = s\<lparr>sink_buf := sink_buf s @ [b XOR sink_mask s]\<rparr>"

definition Sink_extend :: "Sink \<Rightarrow> bytes \<Rightarrow> Sink" where
  "Sink_extend s bs = s\<lparr>sink_buf := sink_buf s @ map (\<lambda>b. b XOR sink_mask s) bs\<rparr>"

fun push_escaped_loop :: "Sink \<Rightarrow> bytes \<Rightarrow> Sink" where
  "push_escaped_loop s [] = s"
| "push_escaped_loop s (b # bs) =
     (let s = Sink_push s b;
          s = (if b = c_NUL then Sink_push s c_ESCAPE else s)
      in push_escaped_loop s bs)"

definition push_escaped :: "Sink \<Rightarrow> bytes \<Rightarrow> Sink" where
  "push_escaped s bs = Sink_push (Sink_push (push_escaped_loop s bs) c_NUL) c_NUL"

fun push_magnitude :: "Sink \<Rightarrow> bool \<Rightarrow> bytes \<Rightarrow> Sink" where
  "push_magnitude s negative [] = s"
| "push_magnitude s negative (b # bs) =
     push_magnitude (Sink_push s (if negative then NOT b else b)) negative bs"

definition push_int :: "Sink \<Rightarrow> bool \<Rightarrow> u64 \<Rightarrow> Sink" where
  "push_int s negative magnitude =
     (if magnitude = 0 then Sink_push s c_INT_ZERO
      else
        let len = magnitude_len magnitude;
            code = (if negative then c_INT_ZERO - of_nat len else c_INT_ZERO + of_nat len);
            be = u64_to_be_bytes magnitude
        in push_magnitude (Sink_push s code) negative (drop (8 - len) be))"

text \<open>\<open>encode_prefix_into\<close> returns whether it wrote anything, and the buffer.\<close>

definition encode_prefix_into :: "bytes \<Rightarrow> Value \<Rightarrow> Direction \<Rightarrow> bool \<times> bytes" where
  "encode_prefix_into out v d =
     (let sink = \<lparr>sink_buf = out, sink_mask = dir_mask d\<rparr> in
      case v of
        Bytes b \<Rightarrow> (True, sink_buf (push_escaped_loop (Sink_push sink c_BYTES) b))
      | Str s \<Rightarrow> (True, sink_buf (push_escaped_loop (Sink_push sink c_STR) s))
      | _ \<Rightarrow> (False, out))"

definition vector_count :: "u32 list \<Rightarrow> u32" where
  "vector_count es = (if length es < 2 ^ 32 then of_nat (length es) else - 1)"

fun encode_value_into :: "bytes \<Rightarrow> Value \<Rightarrow> Direction \<Rightarrow> bytes" where
  "encode_value_into out v d =
     (let sink = \<lparr>sink_buf = out, sink_mask = dir_mask d\<rparr> in
      case v of
        Null \<Rightarrow> sink_buf (Sink_push sink c_NULL)
      | Bool b \<Rightarrow> sink_buf (Sink_push sink (if b then c_TRUE else c_FALSE))
      | Bytes b \<Rightarrow> sink_buf (push_escaped (Sink_push sink c_BYTES) b)
      | Str s \<Rightarrow> sink_buf (push_escaped (Sink_push sink c_STR) s)
      | I64 i \<Rightarrow> sink_buf (push_int sink (sint i < 0) (unsigned_abs i))
      | U64 u \<Rightarrow> sink_buf (push_int sink False u)
      | Decimal i \<Rightarrow>
          sink_buf (push_int (Sink_push sink c_DECIMAL) (sint i < 0) (unsigned_abs i))
      | F64 f \<Rightarrow>
          sink_buf (Sink_extend (Sink_push sink c_F64) (u64_to_be_bytes (f64_to_ordered f)))
      | Vector es \<Rightarrow>
          (let count = vector_count es;
               s = Sink_extend (Sink_push sink c_VECTOR) (u32_to_be_bytes count)
           in sink_buf (fold (\<lambda>e s. Sink_extend s (u32_to_be_bytes (f32_to_ordered e)))
                (take (unat count) es) s))
      | Uuid u \<Rightarrow> sink_buf (Sink_extend (Sink_push sink c_UUID) u)
      | Array es \<Rightarrow>
          sink_buf (Sink_push
            (fold (\<lambda>e s. s\<lparr>sink_buf := encode_value_into (sink_buf s) e d\<rparr>) es
               (Sink_push sink c_ARRAY)) c_NUL))"

declare encode_value_into.simps [simp del]

definition encode :: "Value list \<Rightarrow> bytes" where
  "encode vs = fold (\<lambda>v out. encode_value_into out v Asc) vs []"

definition direction_at :: "Direction list \<Rightarrow> nat \<Rightarrow> Direction" where
  "direction_at ds i = (if i < length ds then ds ! i else Asc)"

definition encode_with :: "Value list \<Rightarrow> Direction list \<Rightarrow> bytes" where
  "encode_with vs ds =
     fold (\<lambda>(i, v) out. encode_value_into out v (direction_at ds i)) (enumerate 0 vs) []"

section \<open>Reading\<close>

datatype TupleError =
    Truncated nat nat
  | UnknownTypeCode nat u8
  | TypeMismatch nat string string
  | IntegerOutOfRange nat int string
  | InvalidUtf8 nat
  | MalformedEscape nat
  | NonCanonicalInteger nat
  | TrailingBytes nat nat

record TupleReader =
  buf :: bytes
  pos :: nat

type_synonym 'a read = "TupleError + ('a \<times> TupleReader)"

definition TupleReader_new :: "bytes \<Rightarrow> TupleReader" where
  "TupleReader_new b = \<lparr>buf = b, pos = 0\<rparr>"

definition remainder :: "TupleReader \<Rightarrow> bytes" where
  "remainder r = drop (pos r) (buf r)"

definition reader_is_empty :: "TupleReader \<Rightarrow> bool" where
  "reader_is_empty r \<longleftrightarrow> length (buf r) \<le> pos r"

definition rd_byte :: "u8 \<Rightarrow> TupleReader \<Rightarrow> u8 read" where
  "rd_byte m r =
     (if pos r < length (buf r) then Inr ((buf r ! pos r) XOR m, r\<lparr>pos := pos r + 1\<rparr>)
      else Inl (Truncated (pos r) 1))"

definition rd_take :: "nat \<Rightarrow> u8 \<Rightarrow> TupleReader \<Rightarrow> bytes read" where
  "rd_take n m r =
     (let stop = pos r + n in
      if 2 ^ 64 \<le> stop then Inl (Truncated (pos r) n)
      else if length (buf r) < stop then Inl (Truncated (pos r) (stop - min (length (buf r)) stop))
      else Inr (map (\<lambda>b. b XOR m) (take n (drop (pos r) (buf r))), r\<lparr>pos := stop\<rparr>))"

definition take_u32 :: "u8 \<Rightarrow> TupleReader \<Rightarrow> u32 read" where
  "take_u32 m r = rbind (rd_take 4 m r) (\<lambda>(raw, r). Inr (u32_from_be_bytes raw, r))"

lemma rd_byte_advances:
  "rd_byte m r = Inr (b, r') \<Longrightarrow>
     buf r' = buf r \<and> pos r' = Suc (pos r) \<and> pos r < length (buf r)"
  by (auto simp: rd_byte_def split: if_splits)

function read_escaped_loop :: "u8 \<Rightarrow> bytes \<Rightarrow> TupleReader \<Rightarrow> bytes read" where
  "read_escaped_loop m out r =
     rbind (rd_byte m r) (\<lambda>(b, r1).
       if b \<noteq> c_NUL then read_escaped_loop m (out @ [b]) r1
       else
         let offset = pos r1 - 1 in
         rbind (rd_byte m r1) (\<lambda>(e, r2).
           if e = c_NUL then Inr (out, r2)
           else if e = c_ESCAPE then read_escaped_loop m (out @ [c_NUL]) r2
           else Inl (MalformedEscape offset)))"
  by pat_completeness auto
termination
  by (relation "measure (\<lambda>(m, out, r). length (buf r) - pos r)") (auto dest!: rd_byte_advances)

declare read_escaped_loop.simps [simp del]

definition read_escaped :: "u8 \<Rightarrow> TupleReader \<Rightarrow> bytes read" where
  "read_escaped m r = read_escaped_loop m [] r"

fun int_body_loop :: "nat \<Rightarrow> bool \<Rightarrow> u8 \<Rightarrow> u64 \<Rightarrow> TupleReader \<Rightarrow> u64 read" where
  "int_body_loop 0 negative m magnitude r = Inr (magnitude, r)"
| "int_body_loop (Suc n) negative m magnitude r =
     rbind (rd_byte m r) (\<lambda>(b, r).
       let b = (if negative then NOT b else b)
       in int_body_loop n negative m (push_bit 8 magnitude OR ucast b) r)"

definition read_int_body :: "u8 \<Rightarrow> u8 \<Rightarrow> nat \<Rightarrow> TupleReader \<Rightarrow> (bool \<times> u64) read" where
  "read_int_body code m start r =
     (if code = c_INT_ZERO then Inr ((False, 0), r)
      else
        let (negative, len) =
              (if c_INT_ZERO < code then (False, unat (code - c_INT_ZERO))
               else (True, unat (c_INT_ZERO - code)))
        in rbind (int_body_loop len negative m 0 r) (\<lambda>(magnitude, r).
             if magnitude_len magnitude \<noteq> len then Inl (NonCanonicalInteger start)
             else Inr ((negative, magnitude), r)))"

definition widen :: "bool \<Rightarrow> u64 \<Rightarrow> int" where
  "widen negative magnitude = (if negative then - uint magnitude else uint magnitude)"

definition i64_try_from :: "int \<Rightarrow> i64 option" where
  "i64_try_from x = (if - (2 ^ 63) \<le> x \<and> x < 2 ^ 63 then Some (of_int x) else None)"

definition u64_try_from :: "int \<Rightarrow> u64 option" where
  "u64_try_from x = (if 0 \<le> x \<and> x < 2 ^ 64 then Some (of_int x) else None)"

definition read_int_as :: "u8 \<Rightarrow> u8 \<Rightarrow> nat \<Rightarrow> ValueType \<Rightarrow> TupleReader \<Rightarrow> Value read" where
  "read_int_as code m start target r =
     rbind (read_int_body code m start r) (\<lambda>((negative, magnitude), r).
       let widened = widen negative magnitude in
       case target of
         TI64 \<Rightarrow>
           (case i64_try_from widened of
              Some v \<Rightarrow> Inr (I64 v, r)
            | None \<Rightarrow> Inl (IntegerOutOfRange start widened ''i64''))
       | TU64 \<Rightarrow>
           (case u64_try_from widened of
              Some v \<Rightarrow> Inr (U64 v, r)
            | None \<Rightarrow> Inl (IntegerOutOfRange start widened ''u64''))
       | other \<Rightarrow> Inl (TypeMismatch start (ValueType_name other) ''integer''))"

definition is_int_code :: "u8 \<Rightarrow> bool" where
  "is_int_code code \<longleftrightarrow> c_INT_MIN \<le> code \<and> code \<le> c_INT_MAX"

fun vector_loop :: "nat \<Rightarrow> u8 \<Rightarrow> u32 list \<Rightarrow> TupleReader \<Rightarrow> u32 list read" where
  "vector_loop 0 m es r = Inr (es, r)"
| "vector_loop (Suc n) m es r =
     rbind (rd_take 4 m r) (\<lambda>(raw, r).
       vector_loop n m (es @ [ordered_to_f32 (u32_from_be_bytes raw)]) r)"

text \<open>
  \<open>read_body\<close> and \<open>read_array\<close> call each other, but an array inside an array is refused before
  the element is read. \<open>read_body_with\<close> takes the array reader as an argument; the elements of an
  array are read with one that is never reached, and \<open>read_array_unfold\<close> below is the source's
  own recursion equation.
\<close>

definition read_body_with ::
  "(u8 \<Rightarrow> TupleReader \<Rightarrow> Value read) \<Rightarrow> u8 \<Rightarrow> u8 \<Rightarrow> nat \<Rightarrow> TupleReader \<Rightarrow> Value read" where
  "read_body_with array code m start r =
     (if code = c_FALSE then Inr (Bool False, r)
      else if code = c_TRUE then Inr (Bool True, r)
      else if code = c_BYTES then rbind (read_escaped m r) (\<lambda>(raw, r). Inr (Bytes raw, r))
      else if code = c_STR then
        rbind (read_escaped m r) (\<lambda>(raw, r).
          if from_utf8 raw then Inr (Str raw, r) else Inl (InvalidUtf8 start))
      else if code = c_DECIMAL then
        rbind (rd_byte m r) (\<lambda>(code, r).
          if \<not> is_int_code code then Inl (UnknownTypeCode start code)
          else
            rbind (read_int_body code m start r) (\<lambda>((negative, magnitude), r).
              case i64_try_from (widen negative magnitude) of
                Some v \<Rightarrow> Inr (Decimal v, r)
              | None \<Rightarrow> Inl (UnknownTypeCode start code)))
      else if code = c_F64 then
        rbind (rd_take 8 m r) (\<lambda>(raw, r). Inr (F64 (ordered_to_f64 (u64_from_be_bytes raw)), r))
      else if code = c_UUID then rbind (rd_take 16 m r) (\<lambda>(raw, r). Inr (Uuid raw, r))
      else if code = c_VECTOR then
        rbind (take_u32 m r) (\<lambda>(count, r).
          rbind (vector_loop (unat count) m [] r) (\<lambda>(es, r). Inr (Vector es, r)))
      else if code = c_ARRAY then array m r
      else Inl (UnknownTypeCode start code))"

definition read_dynamic_with ::
  "(u8 \<Rightarrow> TupleReader \<Rightarrow> Value read) \<Rightarrow> u8 \<Rightarrow> TupleReader \<Rightarrow> Value read" where
  "read_dynamic_with array m r =
     (let start = pos r in
      rbind (rd_byte m r) (\<lambda>(code, r).
        if code = c_NULL then Inr (Null, r)
        else if is_int_code code then
          rbind (read_int_body code m start r) (\<lambda>((negative, magnitude), r).
            case i64_try_from (widen negative magnitude) of
              Some v \<Rightarrow> Inr (I64 v, r)
            | None \<Rightarrow> Inr (U64 magnitude, r))
        else read_body_with array code m start r))"

definition no_array :: "u8 \<Rightarrow> TupleReader \<Rightarrow> Value read" where
  "no_array m r = Inl (UnknownTypeCode (pos r) c_ARRAY)"

text \<open>No read moves the cursor back, and every element moves it forward: the loops over the
  elements of an array, and over the elements of a buffer, end.\<close>

definition moved :: "TupleReader \<Rightarrow> TupleReader \<Rightarrow> bool" where
  "moved r r' \<longleftrightarrow> buf r' = buf r \<and> pos r \<le> pos r'"

lemma moved_refl [simp]: "moved r r"
  by (simp add: moved_def)

lemma moved_trans: "moved r s \<Longrightarrow> moved s t \<Longrightarrow> moved r t"
  by (simp add: moved_def)

lemma rd_byte_moved: "rd_byte m r = Inr (b, r') \<Longrightarrow> moved r r'"
  by (auto dest: rd_byte_advances simp: moved_def)

lemma rd_take_moved: "rd_take n m r = Inr (bs, r') \<Longrightarrow> moved r r'"
  by (auto simp: rd_take_def moved_def Let_def split: if_splits)

lemma take_u32_moved: "take_u32 m r = Inr (w, r') \<Longrightarrow> moved r r'"
  by (auto simp: take_u32_def rbind_eq_Inr dest: rd_take_moved)

lemma read_escaped_loop_moved: "read_escaped_loop m out r = Inr (bs, r') \<Longrightarrow> moved r r'"
proof (induction "length (buf r) - pos r" arbitrary: out r rule: less_induct)
  case less
  from less.prems show ?case
    by (subst (asm) read_escaped_loop.simps)
      (fastforce simp: rbind_eq_Inr Let_def moved_def split: if_splits
        dest: less.hyps [rotated] dest!: rd_byte_advances)
qed

lemma int_body_loop_moved: "int_body_loop n neg m a r = Inr (w, r') \<Longrightarrow> moved r r'"
  by (induction n arbitrary: a r)
    (auto simp: rbind_eq_Inr Let_def dest!: rd_byte_moved intro: moved_trans)

lemma read_int_body_moved: "read_int_body code m start r = Inr (x, r') \<Longrightarrow> moved r r'"
  by (auto simp: read_int_body_def rbind_eq_Inr Let_def split: if_splits dest!: int_body_loop_moved)

lemma vector_loop_moved: "vector_loop n m es r = Inr (x, r') \<Longrightarrow> moved r r'"
  by (induction n arbitrary: es r) (auto simp: rbind_eq_Inr dest!: rd_take_moved intro: moved_trans)

lemmas reader_moved = rd_byte_moved rd_take_moved take_u32_moved read_escaped_loop_moved
  read_int_body_moved vector_loop_moved

definition moves :: "(u8 \<Rightarrow> TupleReader \<Rightarrow> 'a read) \<Rightarrow> bool" where
  "moves array \<longleftrightarrow> (\<forall>m r v r'. array m r = Inr (v, r') \<longrightarrow> moved r r')"

lemma movesD: "moves array \<Longrightarrow> array m r = Inr (v, r') \<Longrightarrow> moved r r'"
  by (auto simp: moves_def)

lemma read_body_with_moved:
  assumes "moves array"
    and "read_body_with array code m start r = Inr (v, r')"
  shows "moved r r'"
  using assms(2)
  by (auto simp: read_body_with_def read_escaped_def rbind_eq_Inr split: if_splits option.splits
      dest!: reader_moved movesD [OF assms(1)] intro: moved_trans)

lemma read_dynamic_with_advances:
  assumes "moves array"
    and "read_dynamic_with array m r = Inr (v, r')"
  shows "buf r' = buf r \<and> pos r < pos r' \<and> pos r < length (buf r)"
proof -
  obtain code r1 where byte: "rd_byte m r = Inr (code, r1)"
    using assms(2) by (auto simp: read_dynamic_with_def rbind_eq_Inr Let_def)
  have "moved r1 r'"
    using assms(2) byte
    by (auto simp: read_dynamic_with_def rbind_eq_Inr Let_def split: if_splits option.splits
        dest!: read_int_body_moved read_body_with_moved [OF assms(1)])
  with rd_byte_advances [OF byte] show ?thesis by (auto simp: moved_def)
qed

lemma no_array_moved: "moves no_array"
  by (simp add: moves_def no_array_def)

function read_array_loop :: "u8 \<Rightarrow> Value list \<Rightarrow> TupleReader \<Rightarrow> Value read" where
  "read_array_loop m elements r =
     (let at = pos r in
      rbind (rd_byte m r) (\<lambda>(code, r1).
        if code = c_NUL then Inr (Array elements, r1)
        else if code = c_ARRAY then Inl (UnknownTypeCode at code)
        else
          rbind (read_dynamic_with no_array m (r1\<lparr>pos := at\<rparr>)) (\<lambda>(v, r2).
            read_array_loop m (elements @ [v]) r2)))"
  by pat_completeness auto
termination
  by (relation "measure (\<lambda>(m, es, r). length (buf r) - pos r)")
    (force dest!: rd_byte_advances read_dynamic_with_advances [OF no_array_moved])+

declare read_array_loop.simps [simp del]

definition read_array :: "u8 \<Rightarrow> TupleReader \<Rightarrow> Value read" where
  "read_array m r = read_array_loop m [] r"

definition read_body :: "u8 \<Rightarrow> u8 \<Rightarrow> nat \<Rightarrow> TupleReader \<Rightarrow> Value read" where
  "read_body = read_body_with read_array"

definition read_dynamic_masked :: "u8 \<Rightarrow> TupleReader \<Rightarrow> Value read" where
  "read_dynamic_masked = read_dynamic_with read_array"

definition read_dynamic :: "Direction \<Rightarrow> TupleReader \<Rightarrow> Value read" where
  "read_dynamic d r = read_dynamic_masked (dir_mask d) r"

lemma read_dynamic_with_no_array:
  assumes "\<And>r1. rd_byte m r = Inr (c_ARRAY, r1) \<Longrightarrow> False"
  shows "read_dynamic_with array m r = read_dynamic_with array' m r"
proof -
  have "code \<noteq> c_ARRAY \<Longrightarrow> read_body_with array code m s r' = read_body_with array' code m s r'"
    for code s r'
    by (simp add: read_body_with_def)
  moreover have "code \<noteq> c_ARRAY" if "rd_byte m r = Inr (code, r1)" for code r1
    using assms that by blast
  ultimately show ?thesis
    by (cases "rd_byte m r") (simp_all add: read_dynamic_with_def Let_def split: prod.split)
qed

text \<open>The source's loop, whose elements are read by \<open>read_dynamic_masked\<close> itself.\<close>

lemma read_array_unfold:
  "read_array_loop m elements r =
     (let at = pos r in
      rbind (rd_byte m r) (\<lambda>(code, r1).
        if code = c_NUL then Inr (Array elements, r1)
        else if code = c_ARRAY then Inl (UnknownTypeCode at code)
        else
          rbind (read_dynamic_masked m (r1\<lparr>pos := at\<rparr>)) (\<lambda>(v, r2).
            read_array_loop m (elements @ [v]) r2)))"
proof (cases "rd_byte m r")
  case (Inr p)
  then obtain code r1 where p: "rd_byte m r = Inr (code, r1)" by (cases p) auto
  then have r: "r1\<lparr>pos := pos r\<rparr> = r" by (auto simp: rd_byte_def split: if_splits)
  have "code \<noteq> c_ARRAY \<Longrightarrow> read_dynamic_with no_array m r = read_dynamic_masked m r"
    unfolding read_dynamic_masked_def using p by (intro read_dynamic_with_no_array) auto
  then show ?thesis
    by (subst read_array_loop.simps) (auto simp: p r Let_def)
qed (subst read_array_loop.simps, simp)

section \<open>Schema-directed reading\<close>

definition found_name :: "u8 \<Rightarrow> string option" where
  "found_name code =
     (if code = c_FALSE \<or> code = c_TRUE then Some ''bool''
      else if code = c_BYTES then Some ''bytes''
      else if code = c_STR then Some ''string''
      else if code = c_F64 then Some ''f64''
      else if code = c_DECIMAL then Some ''decimal''
      else if code = c_UUID then Some ''uuid''
      else if code = c_VECTOR then Some ''vector''
      else if code = c_ARRAY then Some ''array''
      else None)"

fun code_matches :: "u8 \<Rightarrow> ValueType \<Rightarrow> bool" where
  "code_matches code TBool \<longleftrightarrow> code = c_FALSE \<or> code = c_TRUE"
| "code_matches code TBytes \<longleftrightarrow> code = c_BYTES"
| "code_matches code TStr \<longleftrightarrow> code = c_STR"
| "code_matches code TF64 \<longleftrightarrow> code = c_F64"
| "code_matches code TUuid \<longleftrightarrow> code = c_UUID"
| "code_matches code TVector \<longleftrightarrow> code = c_VECTOR"
| "code_matches code TDecimal \<longleftrightarrow> code = c_DECIMAL"
| "code_matches code TArray \<longleftrightarrow> code = c_ARRAY"
| "code_matches code TI64 \<longleftrightarrow> False"
| "code_matches code TU64 \<longleftrightarrow> False"

definition tuple_read :: "ValueType \<Rightarrow> Direction \<Rightarrow> TupleReader \<Rightarrow> Value read" where
  "tuple_read expected d r =
     (let m = dir_mask d; start = pos r in
      rbind (rd_byte m r) (\<lambda>(code, r).
        if code = c_NULL then Inr (Null, r)
        else if is_int_code code then read_int_as code m start expected r
        else
          case found_name code of
            None \<Rightarrow> Inl (UnknownTypeCode start code)
          | Some found \<Rightarrow>
              if \<not> code_matches code expected
              then Inl (TypeMismatch start (ValueType_name expected) found)
              else read_body code m start r))"

section \<open>Skipping\<close>

definition advance :: "nat \<Rightarrow> TupleReader \<Rightarrow> unit read" where
  "advance n r =
     (let stop = pos r + n in
      if stop < 2 ^ 64 \<and> stop \<le> length (buf r) then Inr ((), r\<lparr>pos := stop\<rparr>)
      else Inl (Truncated (pos r) (n - (length (buf r) - min (pos r) (length (buf r))))))"

function skip_escaped :: "u8 \<Rightarrow> TupleReader \<Rightarrow> unit read" where
  "skip_escaped m r =
     rbind (rd_byte m r) (\<lambda>(b, r1).
       if b \<noteq> c_NUL then skip_escaped m r1
       else
         let offset = pos r1 - 1 in
         rbind (rd_byte m r1) (\<lambda>(e, r2).
           if e = c_NUL then Inr ((), r2)
           else if e = c_ESCAPE then skip_escaped m r2
           else Inl (MalformedEscape offset)))"
  by pat_completeness auto
termination
  by (relation "measure (\<lambda>(m, r). length (buf r) - pos r)") (auto dest!: rd_byte_advances)

declare skip_escaped.simps [simp del]

definition int_len :: "u8 \<Rightarrow> nat" where
  "int_len code =
     (if c_INT_ZERO < code then unat (code - c_INT_ZERO) else unat (c_INT_ZERO - code))"

definition skip_with ::
  "(u8 \<Rightarrow> TupleReader \<Rightarrow> unit read) \<Rightarrow> u8 \<Rightarrow> TupleReader \<Rightarrow> unit read" where
  "skip_with array m r =
     (let start = pos r in
      rbind (rd_byte m r) (\<lambda>(code, r).
        if code = c_NULL \<or> code = c_FALSE \<or> code = c_TRUE then Inr ((), r)
        else if is_int_code code then advance (int_len code) r
        else if code = c_BYTES \<or> code = c_STR then skip_escaped m r
        else if code = c_F64 then advance 8 r
        else if code = c_DECIMAL then
          rbind (rd_byte m r) (\<lambda>(inner, r).
            if \<not> is_int_code inner then Inl (UnknownTypeCode start inner)
            else advance (int_len inner) r)
        else if code = c_UUID then advance 16 r
        else if code = c_VECTOR then
          rbind (take_u32 m r) (\<lambda>(count, r). advance (unat count * 4) r)
        else if code = c_ARRAY then array m r
        else Inl (UnknownTypeCode start code)))"

definition skip_no_array :: "u8 \<Rightarrow> TupleReader \<Rightarrow> unit read" where
  "skip_no_array m r = Inl (UnknownTypeCode (pos r) c_ARRAY)"

lemma advance_moved: "advance n r = Inr (u, r') \<Longrightarrow> moved r r'"
  by (auto simp: advance_def moved_def Let_def split: if_splits)

lemma skip_escaped_moved: "skip_escaped m r = Inr ((), r') \<Longrightarrow> moved r r'"
proof (induction "length (buf r) - pos r" arbitrary: r rule: less_induct)
  case less
  from less.prems show ?case
    by (subst (asm) skip_escaped.simps)
      (fastforce simp: rbind_eq_Inr Let_def moved_def split: if_splits
        dest: less.hyps [rotated] dest!: rd_byte_advances)
qed

lemma skip_with_advances:
  assumes "moves array"
    and "skip_with array m r = Inr (v, r')"
  shows "buf r' = buf r \<and> pos r < pos r' \<and> pos r < length (buf r)"
proof -
  obtain code r1 where byte: "rd_byte m r = Inr (code, r1)"
    using assms(2) by (auto simp: skip_with_def rbind_eq_Inr Let_def)
  have "moved r1 r'"
    using assms(2) byte
    by (auto simp: skip_with_def rbind_eq_Inr Let_def split: if_splits
        dest!: reader_moved advance_moved skip_escaped_moved movesD [OF assms(1)] intro: moved_trans)
  with rd_byte_advances [OF byte] show ?thesis by (auto simp: moved_def)
qed

lemma skip_no_array_moved: "moves skip_no_array"
  by (simp add: moves_def skip_no_array_def)

function skip_array :: "u8 \<Rightarrow> TupleReader \<Rightarrow> unit read" where
  "skip_array m r =
     (let at = pos r in
      rbind (rd_byte m r) (\<lambda>(inner, r1).
        if inner = c_NUL then Inr ((), r1)
        else if inner = c_ARRAY then Inl (UnknownTypeCode at inner)
        else
          rbind (skip_with skip_no_array m (r1\<lparr>pos := at\<rparr>)) (\<lambda>(_, r2). skip_array m r2)))"
  by pat_completeness auto
termination
  by (relation "measure (\<lambda>(m, r). length (buf r) - pos r)")
    (force dest!: rd_byte_advances skip_with_advances [OF skip_no_array_moved])+

declare skip_array.simps [simp del]

definition skip :: "Direction \<Rightarrow> TupleReader \<Rightarrow> unit read" where
  "skip d r = skip_with skip_array (dir_mask d) r"

section \<open>Whole tuples\<close>

fun decode_prefix_loop ::
  "Value list \<Rightarrow> (nat \<times> ValueType) list \<Rightarrow> Direction list \<Rightarrow> TupleReader \<Rightarrow> Value list read" where
  "decode_prefix_loop out [] ds r = Inr (out, r)"
| "decode_prefix_loop out ((i, ty) # tys) ds r =
     rbind (tuple_read ty (direction_at ds i) r) (\<lambda>(v, r).
       decode_prefix_loop (out @ [v]) tys ds r)"

definition decode_prefix_with ::
  "bytes \<Rightarrow> ValueType list \<Rightarrow> Direction list \<Rightarrow> TupleError + (Value list \<times> bytes)" where
  "decode_prefix_with b tys ds =
     rbind (decode_prefix_loop [] (enumerate 0 tys) ds (TupleReader_new b)) (\<lambda>(out, r).
       Inr (out, remainder r))"

definition decode_prefix :: "bytes \<Rightarrow> ValueType list \<Rightarrow> TupleError + (Value list \<times> bytes)" where
  "decode_prefix b tys = decode_prefix_with b tys []"

definition decode :: "bytes \<Rightarrow> ValueType list \<Rightarrow> TupleError + Value list" where
  "decode b tys =
     rbind (decode_prefix b tys) (\<lambda>(values, rest).
       if rest \<noteq> [] then Inl (TrailingBytes (length values) (length rest)) else Inr values)"

lemma read_array_moved: "read_array_loop m es r = Inr (v, r') \<Longrightarrow> moved r r'"
proof (induction "length (buf r) - pos r" arbitrary: es r rule: less_induct)
  case less
  from less.prems show ?case
    by (subst (asm) read_array_loop.simps)
      (fastforce simp: rbind_eq_Inr Let_def moved_def split: if_splits
        dest: less.hyps [rotated] dest!: rd_byte_advances read_dynamic_with_advances [OF no_array_moved])
qed

lemma read_dynamic_advances:
  "read_dynamic d r = Inr (v, r') \<Longrightarrow> buf r' = buf r \<and> pos r < pos r' \<and> pos r < length (buf r)"
  unfolding read_dynamic_def read_dynamic_masked_def
  by (rule read_dynamic_with_advances) (auto simp: moves_def read_array_def read_array_moved)

function decode_dynamic_loop :: "Value list \<Rightarrow> TupleReader \<Rightarrow> TupleError + Value list" where
  "decode_dynamic_loop out r =
     (if reader_is_empty r then Inr out
      else rbind (read_dynamic Asc r) (\<lambda>(v, r). decode_dynamic_loop (out @ [v]) r))"
  by pat_completeness auto
termination
  by (relation "measure (\<lambda>(out, r). length (buf r) - pos r)") (auto dest!: read_dynamic_advances)

declare decode_dynamic_loop.simps [simp del]

definition decode_dynamic :: "bytes \<Rightarrow> TupleError + Value list" where
  "decode_dynamic b = decode_dynamic_loop [] (TupleReader_new b)"

end
