(* ===== verification/Tuple_Words.thy ===== *)
theory Tuple_Words
  imports Tuple_Codec
begin

text \<open>
  The word arithmetic under the codec: the order of float bit patterns against the order of their
  ordered forms, and the length, the bytes and the order of integers.
\<close>

lemma uint_of_int_id:
  "0 \<le> k \<Longrightarrow> k < 2 ^ LENGTH('a::len) \<Longrightarrow> uint (of_int k :: 'a word) = k"
  by (simp only: unsigned_of_int) (simp add: take_bit_int_eq_self)

section \<open>Floats\<close>

lemma uint_xor_sign:
  fixes x :: "'a::len word"
  shows "uint (x XOR 2 ^ (LENGTH('a) - 1)) = sint x + 2 ^ (LENGTH('a) - 1)"
proof -
  define N where "N = LENGTH('a) - 1"
  have L: "LENGTH('a) = Suc N" using len_gt_0 [where 'a = 'a] by (simp add: N_def)
  have "x XOR 2 ^ N = flip_bit N x"
    by (simp add: flip_bit_eq_xor push_bit_eq_mult)
  also have "\<dots> = x + 2 ^ N"
  proof (cases "bit x N")
    case True
    have "x - 2 ^ N = x + 2 ^ N - 2 ^ Suc N" by simp
    also have "(2 :: 'a word) ^ Suc N = 0" unfolding L [symmetric] by (rule exp_eq_zero_iff [THEN iffD2]) simp
    finally show ?thesis using True by (simp add: flip_bit_eq_if unset_bit_eq)
  next
    case False
    then show ?thesis by (simp add: flip_bit_eq_if set_bit_eq)
  qed
  also have "\<dots> = of_int (sint x + 2 ^ N)" by simp
  finally have "uint (x XOR 2 ^ N) = take_bit (Suc N) (sint x + 2 ^ N)"
    by (simp only: unsigned_of_int L) simp
  moreover have "- (2 ^ N) \<le> sint x" "sint x < 2 ^ N"
    using sint_greater_eq [of x] sint_less [of x] by (simp_all add: N_def)
  then have "take_bit (Suc N) (sint x + 2 ^ N) = sint x + 2 ^ N"
    by (intro take_bit_int_eq_self) simp_all
  ultimately show ?thesis by (simp add: N_def)
qed

lemma cmp_lin_xor_sign:
  fixes x y :: "'a::len word"
  shows "cmp_lin (x XOR 2 ^ (LENGTH('a) - 1)) (y XOR 2 ^ (LENGTH('a) - 1)) =
           cmp_lin (sint x) (sint y)"
proof -
  have "cmp_lin a b = cmp_lin (uint a) (uint b)" for a b :: "'a word"
    by (auto simp: cmp_lin_def word_less_def dest: unsigned_word_eqI)
  then show ?thesis
    by (simp only: uint_xor_sign) (simp add: cmp_lin_def)
qed

lemma and_sign_eq_0_iff:
  fixes x :: "'a::len word"
  shows "x AND 2 ^ (LENGTH('a) - 1) = 0 \<longleftrightarrow> 0 \<le> sint x"
proof -
  have "x AND 2 ^ (LENGTH('a) - 1) = 0 \<longleftrightarrow> \<not> bit x (LENGTH('a) - 1)"
    by (simp add: and_exp_eq_0_iff_not_bit)
  then show ?thesis by (simp add: bit_last_iff not_less)
qed

text \<open>The key that \<open>total_cmp\<close> compares, with its sign bit flipped.\<close>

lemma total_cmp_key:
  fixes x :: "'a::len word"
  defines "N \<equiv> LENGTH('a) - 1"
  shows "(x XOR drop_bit 1 (signed_drop_bit N x)) XOR 2 ^ N =
           (if x AND 2 ^ N = 0 then x XOR 2 ^ N else NOT x)"
proof (rule bit_word_eqI)
  fix n assume n: "n < LENGTH('a)"
  have sgn: "x AND 2 ^ N = 0 \<longleftrightarrow> \<not> bit x N" by (simp add: and_exp_eq_0_iff_not_bit)
  show "bit ((x XOR drop_bit 1 (signed_drop_bit N x)) XOR 2 ^ N) n =
          bit (if x AND 2 ^ N = 0 then x XOR 2 ^ N else NOT x) n"
    using n unfolding sgn
    by (auto simp: bit_xor_iff bit_drop_bit_eq bit_signed_drop_bit_iff bit_not_iff bit_exp_iff N_def
        dest: bit_imp_le_length)
qed


lemma f64_to_ordered_total:
  "\<not> f64_is_nan a \<Longrightarrow>
     f64_to_ordered a = (a XOR drop_bit 1 (signed_drop_bit 63 a)) XOR SIGN_BIT"
  using total_cmp_key [of a] by (simp add: f64_to_ordered_def SIGN_BIT_def)

lemma f32_to_ordered_total:
  "\<not> f32_is_nan a \<Longrightarrow>
     f32_to_ordered a = (a XOR drop_bit 1 (signed_drop_bit 31 a)) XOR SIGN32"
  using total_cmp_key [of a] by (simp add: f32_to_ordered_def SIGN32_def)

lemma f64_total_cmp_ordered:
  "\<not> f64_is_nan a \<Longrightarrow> \<not> f64_is_nan b \<Longrightarrow>
     f64_total_cmp a b = cmp_lin (f64_to_ordered a) (f64_to_ordered b)"
  using cmp_lin_xor_sign [where 'a = 64]
  by (simp add: f64_to_ordered_total f64_total_cmp_def SIGN_BIT_def)

lemma f32_total_cmp_ordered:
  "\<not> f32_is_nan a \<Longrightarrow> \<not> f32_is_nan b \<Longrightarrow>
     f32_total_cmp a b = cmp_lin (f32_to_ordered a) (f32_to_ordered b)"
  using cmp_lin_xor_sign [where 'a = 32]
  by (simp add: f32_to_ordered_total f32_total_cmp_def SIGN32_def)

text \<open>Every NaN is encoded as the canonical one, above every number.\<close>

lemma f64_to_ordered_nan: "f64_is_nan a \<Longrightarrow> f64_to_ordered a = 0xFFF8000000000000"
  by (simp add: f64_to_ordered_def F64_NAN_def SIGN_BIT_def)

lemma f32_to_ordered_nan: "f32_is_nan a \<Longrightarrow> f32_to_ordered a = 0xFFC00000"
  by (simp add: f32_to_ordered_def F32_NAN_def SIGN32_def)



lemma sign_clear:
  fixes x :: "'a::len word"
  assumes "\<not> bit x (LENGTH('a) - 1)"
  shows "x AND mask (LENGTH('a) - 1) = x" and "uint x < 2 ^ (LENGTH('a) - 1)"
proof -
  have x: "take_bit (LENGTH('a) - 1) x = x"
  proof (rule bit_word_eqI)
    fix n assume n: "n < LENGTH('a)"
    then have "n < LENGTH('a) - 1 \<or> n = LENGTH('a) - 1" by auto
    with assms show "bit (take_bit (LENGTH('a) - 1) x) n = bit x n"
      by (auto simp: bit_take_bit_iff)
  qed
  then show "x AND mask (LENGTH('a) - 1) = x" by (simp add: take_bit_eq_mask)
  have "uint x = take_bit (LENGTH('a) - 1) (uint x)"
    using arg_cong [OF x, of uint] by (simp add: unsigned_take_bit_eq)
  then show "uint x < 2 ^ (LENGTH('a) - 1)"
    using take_bit_int_less_exp [of "LENGTH('a) - 1" "uint x"] by simp
qed

lemma sign_clear_sint:
  fixes x :: "'a::len word"
  assumes "\<not> bit x (LENGTH('a) - 1)"
  shows "sint x = uint x"
  unfolding sint_uint using sign_clear(2) [OF assms]
  by (intro signed_take_bit_int_eq_self) (simp_all add: order_trans [of _ 0])

text \<open>Above a number's ordered form there is room for the canonical NaN: \<open>inf\<close> is the bit pattern
  of infinity, the largest that is not a NaN.\<close>

lemma number_below_nan:
  fixes x inf :: "'a::len word"
  assumes N: "N = LENGTH('a) - 1" and "x AND mask N \<le> inf"
  shows "uint (if x AND 2 ^ N = 0 then x XOR 2 ^ N else NOT x) \<le> uint inf + 2 ^ N"
proof -
  have sgn: "x AND 2 ^ N = 0 \<longleftrightarrow> \<not> bit x N" by (simp add: and_exp_eq_0_iff_not_bit)
  show ?thesis
  proof (cases "bit x N")
    case True
    then have "\<not> bit (NOT x) N" by (simp add: bit_not_iff)
    then have "uint (NOT x) < 2 ^ N" unfolding N by (rule sign_clear)
    then show ?thesis using True by (simp add: sgn add_increasing)
  next
    case False
    then have "uint (x XOR 2 ^ N) = uint x + 2 ^ N"
      unfolding N by (simp only: uint_xor_sign sign_clear_sint not_False_eq_True)
    moreover have "x \<le> inf"
      using assms(2) sign_clear(1) [of x] False by (simp add: N)
    ultimately show ?thesis
      using False by (simp add: sgn word_le_def)
  qed
qed

lemma number_below_nan64:
  assumes "\<not> f64_is_nan a"
  shows "f64_to_ordered a < 0xFFF8000000000000"
proof -
  have "f64_to_ordered a = (if a AND 2 ^ 63 = 0 then a XOR 2 ^ 63 else NOT a)"
    using assms by (simp add: f64_to_ordered_def SIGN_BIT_def)
  moreover have "a AND mask 63 \<le> 0x7FF0000000000000"
    using assms by (simp add: f64_is_nan_def mask_eq_exp_minus_1 not_less)
  ultimately have "uint (f64_to_ordered a) \<le> uint (0x7FF0000000000000 :: 64 word) + 2 ^ 63"
    using number_below_nan [of 63 a "0x7FF0000000000000"] by simp
  then show ?thesis by (simp add: word_less_def)
qed

lemma number_below_nan32:
  assumes "\<not> f32_is_nan a"
  shows "f32_to_ordered a < 0xFFC00000"
proof -
  have "f32_to_ordered a = (if a AND 2 ^ 31 = 0 then a XOR 2 ^ 31 else NOT a)"
    using assms by (simp add: f32_to_ordered_def SIGN32_def)
  moreover have "a AND mask 31 \<le> 0x7F800000"
    using assms by (simp add: f32_is_nan_def mask_eq_exp_minus_1 not_less)
  ultimately have "uint (f32_to_ordered a) \<le> uint (0x7F800000 :: 32 word) + 2 ^ 31"
    using number_below_nan [of 31 a "0x7F800000"] by simp
  then show ?thesis by (simp add: word_less_def)
qed

lemma f64_cmp_ordered: "f64_cmp a b = cmp_lin (f64_to_ordered a) (f64_to_ordered b)"
  using number_below_nan64
  by (auto simp: f64_cmp_def f64_to_ordered_nan f64_total_cmp_ordered split: bool.split)

lemma f32_cmp_ordered: "f32_cmp a b = cmp_lin (f32_to_ordered a) (f32_to_ordered b)"
  using number_below_nan32
  by (auto simp: f32_cmp_def f32_to_ordered_nan f32_total_cmp_ordered split: bool.split)

section \<open>Integers\<close>

lemma bit_length_bounds:
  "n < 2 ^ bit_length n" "0 < n \<Longrightarrow> 0 < bit_length n" "0 < n \<Longrightarrow> 2 ^ (bit_length n - 1) \<le> n"
proof (induction n rule: bit_length.induct)
  case (1 n)
  have step: "0 < n \<Longrightarrow> bit_length n = Suc (bit_length (n div 2))"
    by (subst bit_length.simps) simp
  {
    case 1
    show ?case using "1.IH"(1) step
      by (cases "n = 0") (auto simp: bit_length.simps [of 0])
  next
    case 2
    then show ?case using step by simp
  next
    case 3
    show ?case
    proof (cases "n div 2 = 0")
      case True
      with 3 show ?thesis by (simp add: step bit_length.simps [of 0])
    next
      case False
      with "1.IH"(2,3) 3 have "0 < bit_length (n div 2)" "2 ^ (bit_length (n div 2) - 1) \<le> n div 2"
        by auto
      moreover from this have "(2 :: nat) ^ bit_length (n div 2) = 2 * 2 ^ (bit_length (n div 2) - 1)"
        by (cases "bit_length (n div 2)") auto
      ultimately show ?thesis using 3 by (simp add: step)
    qed
  }
qed

lemma bit_length_le: "n < 2 ^ k \<Longrightarrow> bit_length n \<le> k"
proof (cases "n = 0")
  case False
  assume "n < 2 ^ k"
  then have "(2 :: nat) ^ (bit_length n - 1) < 2 ^ k"
    using bit_length_bounds(3) [of n] False by (simp add: order_le_less_trans)
  then show ?thesis by simp
qed (simp add: bit_length.simps)

lemma bit_length_mono: "m \<le> n \<Longrightarrow> bit_length m \<le> bit_length n"
  using bit_length_bounds(1) [of n] by (intro bit_length_le) simp

text \<open>The number of bytes of a magnitude.\<close>

definition byte_len :: "nat \<Rightarrow> nat" where
  "byte_len n = (bit_length n + 7) div 8"

lemma byte_len_0 [simp]: "byte_len 0 = 0"
  by (simp add: byte_len_def bit_length.simps)

lemma byte_len_mono: "m \<le> n \<Longrightarrow> byte_len m \<le> byte_len n"
  using bit_length_mono [of m n] by (simp add: byte_len_def div_le_mono)

lemma byte_len_le: "n < 2 ^ (8 * k) \<Longrightarrow> byte_len n \<le> k"
  using bit_length_le [of n "8 * k"] by (simp add: byte_len_def)

lemma byte_len_pos: "0 < n \<Longrightarrow> 0 < byte_len n"
  using bit_length_bounds(2) [of n] by (simp add: byte_len_def)

lemma less_byte_len: "n < 256 ^ byte_len n"
proof -
  have "n < 2 ^ bit_length n" by (rule bit_length_bounds)
  also have "\<dots> \<le> 2 ^ (8 * byte_len n)"
    by (intro power_increasing) (simp_all add: byte_len_def)
  also have "\<dots> = 256 ^ byte_len n" by (simp add: power_mult)
  finally show ?thesis .
qed

lemma byte_len_lower:
  assumes "0 < n"
  shows "256 ^ (byte_len n - 1) \<le> n"
proof -
  have "(256 :: nat) ^ (byte_len n - 1) = 2 ^ (8 * (byte_len n - 1))" by (simp add: power_mult)
  also have "\<dots> \<le> 2 ^ (bit_length n - 1)"
    using bit_length_bounds(2) [OF assms]
    by (intro power_increasing) (simp_all add: byte_len_def)
  also have "\<dots> \<le> n" using assms by (rule bit_length_bounds)
  finally show ?thesis .
qed

lemma unat_u64_less: "unat (w :: u64) < 2 ^ 64"
proof -
  have "unat w < 2 ^ LENGTH(64)" by (rule unsigned_less)
  then show ?thesis by simp
qed

lemma magnitude_len_eq: "magnitude_len w = byte_len (unat w)"
  using bit_length_le [OF unat_u64_less [of w]]
  by (simp add: magnitude_len_def leading_zeros_def byte_len_def)

lemma drop_to_be: "drop k (to_be (n + k) m) = to_be n m"
  by (induction n arbitrary: m) auto

text \<open>The encoding of an integer: one byte for its sign and length, then its magnitude, complemented
  for a negative one.\<close>

definition int_code :: "int \<Rightarrow> u8" where
  "int_code z = of_int (0x15 + sgn z * int (byte_len (nat \<bar>z\<bar>)))"

definition int_bytes :: "int \<Rightarrow> bytes" where
  "int_bytes z =
     int_code z #
     (let be = to_be (byte_len (nat \<bar>z\<bar>)) (nat \<bar>z\<bar>) in if z < 0 then map NOT be else be)"

definition int_range :: "int \<Rightarrow> bool" where
  "int_range z \<longleftrightarrow> \<bar>z\<bar> < 2 ^ 64"

lemma int_range_byte_len: "int_range z \<Longrightarrow> byte_len (nat \<bar>z\<bar>) \<le> 8"
  by (intro byte_len_le) (simp add: int_range_def nat_less_iff)

lemma uint_int_code:
  assumes "int_range z"
  shows "uint (int_code z) = 0x15 + sgn z * int (byte_len (nat \<bar>z\<bar>))"
proof -
  have "0 \<le> 0x15 + sgn z * int (byte_len (nat \<bar>z\<bar>)) \<and> 0x15 + sgn z * int (byte_len (nat \<bar>z\<bar>)) < 256"
    using int_range_byte_len [OF assms] by (auto simp: sgn_if)
  then show ?thesis
    unfolding int_code_def by (intro uint_of_int_id) simp_all
qed

lemma int_code_bounds: "int_range z \<Longrightarrow> 0x0D \<le> int_code z \<and> int_code z \<le> 0x1D"
  using int_range_byte_len [of z] by (auto simp: word_le_def uint_int_code sgn_if)

lemma int_bytes_diverge:
  assumes x: "int_range x" and y: "int_range y" and less: "x < y"
  shows "diverges (int_bytes x) (int_bytes y)"
proof -
  let ?l = "\<lambda>z. byte_len (nat \<bar>z\<bar>)"
  have code: "int_code x < int_code y \<longleftrightarrow> sgn x * int (?l x) < sgn y * int (?l y)"
    "int_code x = int_code y \<longleftrightarrow> sgn x * int (?l x) = sgn y * int (?l y)"
    by (simp_all add: word_less_def uint_int_code x y word_uint_eq_iff)
  consider (neg) "y < 0" | (mixed) "x < 0" "0 \<le> y" | (zero) "x = 0" | (pos) "0 < x" by linarith
  then show ?thesis
  proof cases
    case neg
    then have "?l y \<le> ?l x" using less by (intro byte_len_mono) simp
    then consider "?l y < ?l x" | "?l y = ?l x" by linarith
    then show ?thesis
    proof cases
      case 2
      have "diverges (to_be (?l y) (nat \<bar>y\<bar>)) (to_be (?l x) (nat \<bar>x\<bar>))"
        unfolding 2 using less neg less_byte_len [of "nat \<bar>x\<bar>"] less_byte_len [of "nat \<bar>y\<bar>"] 2
        by (subst diverges_to_be) auto
      then show ?thesis using neg less 2 code diverges_map_anti [OF not_u8_less]
        by (simp add: int_bytes_def)
    qed (use neg less code in \<open>simp add: int_bytes_def\<close>)
  next
    case mixed
    then show ?thesis using code byte_len_pos [of "nat \<bar>x\<bar>"]
      by (simp add: int_bytes_def sgn_if)
  next
    case zero
    then show ?thesis using code less byte_len_pos [of "nat \<bar>y\<bar>"]
      by (simp add: int_bytes_def)
  next
    case pos
    then have "?l x \<le> ?l y" using less by (intro byte_len_mono) simp
    then consider "?l x < ?l y" | "?l x = ?l y" by linarith
    then show ?thesis
    proof cases
      case 2
      have "diverges (to_be (?l x) (nat \<bar>x\<bar>)) (to_be (?l y) (nat \<bar>y\<bar>))"
        unfolding 2 using less pos less_byte_len [of "nat \<bar>x\<bar>"] less_byte_len [of "nat \<bar>y\<bar>"] 2
        by (subst diverges_to_be) auto
      then show ?thesis using pos less 2 code
        by (simp add: int_bytes_def)
    qed (use pos less code in \<open>simp add: int_bytes_def\<close>)
  qed
qed

lemma int_bytes_agree:
  "int_range x \<Longrightarrow> int_range y \<Longrightarrow> agrees (cmp_lin x y) (int_bytes x) (int_bytes y)"
  by (cases x y rule: linorder_cases) (simp_all add: int_bytes_diverge)

text \<open>The integers of the two integer types.\<close>

lemma unsigned_abs_eq: "uint (unsigned_abs v) = \<bar>sint v\<bar>"
proof (cases "sint v < 0")
  case True
  have "- (2 ^ 63) \<le> sint v" using sint_greater_eq [of v] by simp
  then have "uint (of_int (- sint v) :: u64) = - sint v"
    using True by (intro uint_of_int_id) auto
  then have "uint (- v) = - sint v" by simp
  with True show ?thesis by (simp add: unsigned_abs_def)
next
  case False
  then have "\<not> bit v 63" using bit_last_iff [of v] by simp
  then have "sint v = uint v" using sign_clear_sint [of v] by simp
  with False show ?thesis by (simp add: unsigned_abs_def)
qed

lemma widen_unsigned_abs [simp]: "widen (sint v < 0) (unsigned_abs v) = sint v"
  by (simp add: widen_def unsigned_abs_eq)

lemma int_range_sint [simp]: "int_range (sint (v :: i64))"
  using sint_greater_eq [of v] sint_less [of v] by (simp add: int_range_def)

lemma int_range_uint [simp]: "int_range (uint (v :: u64))"
  using uint_lt2p [of v] by (simp add: int_range_def)

end
