(* ===== verification/Rust_Loops.thy ===== *)
theory Rust_Loops
  imports Prelude
begin

text \<open>
  The iterator and slice idioms the schema and kernel crates are written in: checked indexing,
  \<open>position\<close>, loops that leave with the first error, loops that build a vector and may leave with an
  error, and the quadratic duplicate check. Each comes with the rule its clients reason with.
\<close>

section \<open>Slices\<close>

definition get :: "'a list \<Rightarrow> nat \<Rightarrow> 'a option" where
  "get xs i = (if i < length xs then Some (xs ! i) else None)"

fun position :: "('a \<Rightarrow> bool) \<Rightarrow> 'a list \<Rightarrow> nat option" where
  "position P [] = None"
| "position P (x # xs) = (if P x then Some 0 else map_option Suc (position P xs))"

definition is_some_and :: "('a \<Rightarrow> bool) \<Rightarrow> 'a option \<Rightarrow> bool" where
  "is_some_and P x = (case x of None \<Rightarrow> False | Some y \<Rightarrow> P y)"

definition is_none_or :: "('a \<Rightarrow> bool) \<Rightarrow> 'a option \<Rightarrow> bool" where
  "is_none_or P x = (case x of None \<Rightarrow> True | Some y \<Rightarrow> P y)"

lemma get_simps [simp]:
  "get [] i = None"
  "get (x # xs) 0 = Some x"
  "get (x # xs) (Suc i) = get xs i"
  by (auto simp: get_def)

lemma get_eq_Some [simp]: "get xs i = Some x \<longleftrightarrow> i < length xs \<and> xs ! i = x"
  by (auto simp: get_def)

lemma get_eq_None [simp]: "get xs i = None \<longleftrightarrow> length xs \<le> i"
  by (auto simp: get_def)

lemma get_less [simp]: "i < length xs \<Longrightarrow> get xs i = Some (xs ! i)"
  by simp

lemma is_some_and_simps [simp]:
  "is_some_and P None = False"
  "is_some_and P (Some x) = P x"
  by (simp_all add: is_some_and_def)

lemma is_none_or_simps [simp]:
  "is_none_or P None = True"
  "is_none_or P (Some x) = P x"
  by (simp_all add: is_none_or_def)

lemma position_Some:
  "position P xs = Some i \<Longrightarrow> i < length xs \<and> P (xs ! i) \<and> (\<forall>j<i. \<not> P (xs ! j))"
proof (induction xs arbitrary: i)
  case (Cons x xs)
  show ?case
  proof (cases "P x")
    case False
    with Cons.prems obtain k where k: "position P xs = Some k" "i = Suc k" by auto
    then show ?thesis using Cons.IH [OF k(1)] False by (auto simp: less_Suc_eq_0_disj)
  qed (use Cons.prems in auto)
qed simp

lemma position_None: "position P xs = None \<longleftrightarrow> (\<forall>x\<in>set xs. \<not> P x)"
  by (induction xs) auto

lemma position_first:
  "i < length xs \<Longrightarrow> P (xs ! i) \<Longrightarrow> (\<And>j. j < i \<Longrightarrow> \<not> P (xs ! j)) \<Longrightarrow> position P xs = Some i"
proof (induction xs arbitrary: i)
  case (Cons x xs)
  show ?case
  proof (cases i)
    case (Suc k)
    have "\<not> P (xs ! j)" if "j < k" for j
      using Cons.prems(3) [of "Suc j"] that Suc by simp
    then have "position P xs = Some k"
      using Cons.prems(1,2) Suc by (intro Cons.IH) auto
    then show ?thesis using Cons.prems(3) [of 0] Suc by auto
  qed (use Cons.prems in simp)
qed simp

lemma position_unique:
  assumes "distinct (map f xs)" and "i < length xs"
  shows "position (\<lambda>x. f x = f (xs ! i)) xs = Some i"
  using assms by (intro position_first) (auto simp: distinct_conv_nth)

fun find_map :: "('a \<Rightarrow> 'b option) \<Rightarrow> 'a list \<Rightarrow> 'b option" where
  "find_map f [] = None"
| "find_map f (x # xs) = (case f x of Some y \<Rightarrow> Some y | None \<Rightarrow> find_map f xs)"

lemma find_map_cong [fundef_cong]:
  "xs = ys \<Longrightarrow> (\<And>x. x \<in> set ys \<Longrightarrow> f x = g x) \<Longrightarrow> find_map f xs = find_map g ys"
  by (induction ys arbitrary: xs) (auto split: option.split)

lemma find_map_None: "find_map f xs = None \<longleftrightarrow> (\<forall>x\<in>set xs. f x = None)"
  by (induction xs) (auto split: option.splits)

section \<open>Loops that may fail\<close>

fun try_each :: "('a \<Rightarrow> 'e + unit) \<Rightarrow> 'a list \<Rightarrow> 'e + unit" where
  "try_each f [] = Inr ()"
| "try_each f (x # xs) = rbind (f x) (\<lambda>_. try_each f xs)"

fun try_fold :: "('s \<Rightarrow> 'a \<Rightarrow> 'e + 's) \<Rightarrow> 's \<Rightarrow> 'a list \<Rightarrow> 'e + 's" where
  "try_fold f s [] = Inr s"
| "try_fold f s (x # xs) = rbind (f s x) (\<lambda>s. try_fold f s xs)"

lemma try_each_ok: "try_each f xs = Inr () \<longleftrightarrow> (\<forall>x\<in>set xs. f x = Inr ())"
  by (induction xs) (auto simp: result_simps)

lemma try_each_append: "try_each f (xs @ ys) = rbind (try_each f xs) (\<lambda>_. try_each f ys)"
  by (induction xs) (auto simp: rbind_assoc)

lemma try_fold_append: "try_fold f s (xs @ ys) = rbind (try_fold f s xs) (\<lambda>s. try_fold f s ys)"
  by (induction xs arbitrary: s) (auto simp: rbind_assoc)

text \<open>The rule for such a loop: an invariant of the accumulator.\<close>

lemma try_fold_inv:
  assumes "try_fold f s xs = Inr s'" and "I s"
    and "\<And>s x s'. x \<in> set xs \<Longrightarrow> I s \<Longrightarrow> f s x = Inr s' \<Longrightarrow> I s'"
  shows "I s'"
  using assms
proof (induction xs arbitrary: s)
  case (Cons x xs)
  from Cons.prems(1) obtain u where u: "f s x = Inr u" "try_fold f u xs = Inr s'"
    by (auto simp: result_simps)
  have "I u" using Cons.prems(2,3) u(1) by auto
  then show ?case using Cons.IH [OF u(2)] Cons.prems(3) by auto
qed simp

lemma try_fold_Inl:
  "try_fold f s xs = Inl e \<Longrightarrow> \<exists>s' x. x \<in> set xs \<and> f s' x = Inl e"
proof (induction xs arbitrary: s)
  case (Cons x xs)
  show ?case
  proof (cases "f s x")
    case (Inr u)
    then show ?thesis using Cons.IH [of u] Cons.prems by fastforce
  qed (use Cons.prems in auto)
qed simp

text \<open>A loop that pushes one element in every iteration.\<close>

lemma try_fold_length:
  assumes "try_fold f s xs = Inr s'" and "\<And>s x s'. f s x = Inr s' \<Longrightarrow> length s' = Suc (length s)"
  shows "length s' = length s + length xs"
  using assms
proof (induction xs arbitrary: s)
  case (Cons x xs)
  from Cons.prems(1) obtain u where u: "f s x = Inr u" "try_fold f u xs = Inr s'"
    by (auto simp: result_simps)
  then show ?case using Cons.IH [OF u(2) Cons.prems(2)] Cons.prems(2) [OF u(1)] by simp
qed simp

section \<open>Duplicate checks\<close>

text \<open>\<open>for (i, x) in xs.iter().enumerate() { if xs.iter().take(i).any(|y| ..) { return Err(..) } .. }\<close>,
  with \<open>seen\<close> the elements before \<open>x\<close> and \<open>body\<close> what the iteration does otherwise.\<close>

fun try_distinct ::
  "('a \<Rightarrow> 'k) \<Rightarrow> ('a \<Rightarrow> 'e) \<Rightarrow> ('a \<Rightarrow> 'e + unit) \<Rightarrow> 'a list \<Rightarrow> 'a list \<Rightarrow> 'e + unit" where
  "try_distinct key err body seen [] = Inr ()"
| "try_distinct key err body seen (x # xs) =
     (if list_ex (\<lambda>y. key y = key x) seen then Inl (err x)
      else rbind (body x) (\<lambda>_. try_distinct key err body (seen @ [x]) xs))"

lemma try_distinct_ok:
  "distinct (map key seen) \<Longrightarrow>
   try_distinct key err body seen xs = Inr () \<longleftrightarrow>
     distinct (map key (seen @ xs)) \<and> (\<forall>x\<in>set xs. body x = Inr ())"
proof (induction xs arbitrary: seen)
  case (Cons x xs)
  show ?case
  proof (cases "list_ex (\<lambda>y. key y = key x) seen")
    case True
    then obtain y where "y \<in> set seen" "key x = key y" by (auto simp: list_ex_iff)
    then have "key x \<in> key ` set seen" by (rule rev_image_eqI)
    then show ?thesis using True by auto
  next
    case False
    then have "distinct (map key (seen @ [x]))"
      using Cons.prems by (auto simp: list_ex_iff)
    then show ?thesis using False Cons.IH [of "seen @ [x]"] by (auto simp: result_simps)
  qed
qed simp

end
