(* ===== verification/Sorted_Slices.thy ===== *)
theory Sorted_Slices
  imports Rust_Loops Ordered_Code
begin

text \<open>
  The slice operations that depend on an \<open>Ord\<close> instance: \<open>sort\<close>, \<open>dedup\<close> and \<open>binary_search\<close>, as
  the standard library documents and implements them, over a comparison function. Their laws are
  proved once, in a locale of total comparisons; every order-preserving code gives such a
  comparison.
\<close>

section \<open>The operations\<close>

fun insert_by :: "('a \<Rightarrow> 'a \<Rightarrow> ordering) \<Rightarrow> 'a \<Rightarrow> 'a list \<Rightarrow> 'a list" where
  "insert_by cmp x [] = [x]"
| "insert_by cmp x (y # ys) = (if cmp x y = Greater then y # insert_by cmp x ys else x # y # ys)"

text \<open>A stable sort.\<close>

definition sort_by :: "('a \<Rightarrow> 'a \<Rightarrow> ordering) \<Rightarrow> 'a list \<Rightarrow> 'a list" where
  "sort_by cmp xs = foldr (insert_by cmp) xs []"

text \<open>\<open>dedup\<close> keeps the first of each run of equal elements.\<close>

fun dedup_by :: "('a \<Rightarrow> 'a \<Rightarrow> bool) \<Rightarrow> 'a list \<Rightarrow> 'a list" where
  "dedup_by eq [] = []"
| "dedup_by eq [x] = [x]"
| "dedup_by eq (x # y # ys) = (if eq y x then dedup_by eq (x # ys) else x # dedup_by eq (y # ys))"

text \<open>\<open>binary_search_by\<close>: the base moves up to the middle unless the probe is above the target.\<close>

function search_loop :: "(nat \<Rightarrow> ordering) \<Rightarrow> nat \<Rightarrow> nat \<Rightarrow> nat" where
  "search_loop probe base sz =
     (if sz > 1 then
        let half = sz div 2; mid = base + half in
        search_loop probe (if probe mid = Greater then base else mid) (sz - half)
      else base)"
  by pat_completeness auto
termination
  by (relation "measure (\<lambda>(_, _, sz). sz)") auto

declare search_loop.simps [simp del]

definition binary_search :: "('a \<Rightarrow> 'a \<Rightarrow> ordering) \<Rightarrow> 'a list \<Rightarrow> 'a \<Rightarrow> bool" where
  "binary_search cmp xs x =
     (if length xs = 0 then False
      else cmp (xs ! search_loop (\<lambda>i. cmp (xs ! i) x) 0 (length xs)) x = Equal)"

section \<open>Facts that need no order\<close>

lemma set_insert_by [simp]: "set (insert_by cmp x ys) = insert x (set ys)"
  by (induction ys) auto

lemma set_sort_by [simp]: "set (sort_by cmp xs) = set xs"
  unfolding sort_by_def by (induction xs) auto

lemma mset_insert_length [simp]: "length (insert_by cmp x ys) = Suc (length ys)"
  by (induction ys) auto

lemma length_sort_by [simp]: "length (sort_by cmp xs) = length xs"
  unfolding sort_by_def by (induction xs) auto

lemma set_dedup_by: "set (dedup_by eq xs) \<subseteq> set xs"
  by (induction eq xs rule: dedup_by.induct) auto

text \<open>The loop's invariant: everything below the base probes no greater than the target, everything
  from the end of the window on probes greater.\<close>

lemma search_loop_window:
  assumes "\<And>i j. i \<le> j \<Longrightarrow> j < n \<Longrightarrow> probe i = Greater \<Longrightarrow> probe j = Greater"
    and "sz > 0" and "base + sz \<le> n" and "base > 0 \<Longrightarrow> probe base \<noteq> Greater"
    and "\<And>i. base + sz \<le> i \<Longrightarrow> i < n \<Longrightarrow> probe i = Greater"
  shows "search_loop probe base sz < n \<and>
    (\<forall>i. search_loop probe base sz < i \<longrightarrow> i < n \<longrightarrow> probe i = Greater) \<and>
    (search_loop probe base sz > 0 \<longrightarrow> probe (search_loop probe base sz) \<noteq> Greater)"
  using assms
proof (induction probe base sz rule: search_loop.induct)
  case (1 probe base sz)
  let ?half = "sz div 2" and ?mid = "base + sz div 2"
  show ?case
  proof (cases "sz > 1")
    case True
    then have half: "0 < ?half" "?half < sz" "?mid \<le> base + (sz - ?half)" by auto
    then have mid: "?mid < n" using "1.prems"(3) by simp
    have step: "search_loop probe base sz =
        search_loop probe (if probe ?mid = Greater then base else ?mid) (sz - ?half)"
      using True by (subst search_loop.simps) (simp add: Let_def)
    show ?thesis unfolding step
    proof (rule "1.IH" [OF True refl refl "1.prems"(1)])
      show "(if probe ?mid = Greater then base else ?mid) + (sz - ?half) \<le> n"
        using half "1.prems"(3) by auto
      show "probe i = Greater"
        if "(if probe ?mid = Greater then base else ?mid) + (sz - ?half) \<le> i" "i < n" for i
      proof (cases "probe ?mid = Greater")
        case g: True
        then have "?mid \<le> i" using that(1) half(3) by simp
        then show ?thesis using "1.prems"(1) [OF _ that(2) g] by blast
      qed (use that "1.prems"(5) half in auto)
    qed (use half "1.prems"(4) in auto)
  next
    case False
    then have "sz = 1" "search_loop probe base sz = base" using "1.prems"(2) by (auto simp: search_loop.simps)
    then show ?thesis using "1.prems" by auto
  qed
qed

section \<open>Total comparisons\<close>

locale total_comparison =
  fixes ok :: "'a \<Rightarrow> bool"
    and cmp :: "'a \<Rightarrow> 'a \<Rightarrow> ordering"
  assumes refl: "ok a \<Longrightarrow> cmp a a = Equal"
    and antisym: "ok a \<Longrightarrow> ok b \<Longrightarrow> cmp b a = reverse_ordering (cmp a b)"
    and trans: "ok a \<Longrightarrow> ok b \<Longrightarrow> ok c \<Longrightarrow> cmp a b \<noteq> Greater \<Longrightarrow> cmp b c \<noteq> Greater \<Longrightarrow>
      cmp a c \<noteq> Greater \<and> (cmp a c = Equal \<longrightarrow> cmp a b = Equal \<and> cmp b c = Equal)"
begin

lemma eq_sym: "ok a \<Longrightarrow> ok b \<Longrightarrow> cmp a b = Equal \<longleftrightarrow> cmp b a = Equal"
  using antisym [of a b] by (cases "cmp a b") auto

lemma eq_left:
  assumes "ok a" "ok b" "ok c" "cmp a b = Equal"
  shows "cmp a c = cmp b c"
proof -
  have ba: "cmp b a = Equal" using assms eq_sym by blast
  show ?thesis
  proof (cases "cmp a c")
    case Less
    then show ?thesis using trans [of b a c] trans [of a b c] assms ba by (cases "cmp b c") auto
  next
    case Equal
    then show ?thesis using trans [of b a c] trans [of c a b] eq_sym [of a c] eq_sym [of b c] assms ba
      by (metis antisym reverse_ordering.elims ordering.distinct(3,5))
  next
    case Greater
    then show ?thesis using trans [of a b c] assms by (cases "cmp b c") auto
  qed
qed

lemma insert_by_sorted:
  assumes "ok x" and "list_all ok ys" and "sorted_wrt (\<lambda>a b. cmp a b \<noteq> Greater) ys"
  shows "sorted_wrt (\<lambda>a b. cmp a b \<noteq> Greater) (insert_by cmp x ys)"
  using assms
proof (induction ys)
  case (Cons y ys)
  show ?case
  proof (cases "cmp x y = Greater")
    case True
    then have "cmp y x = Less" using antisym [of x y] Cons.prems by simp
    then show ?thesis using True Cons by auto
  next
    case False
    then show ?thesis using Cons.prems trans [of x y] by (fastforce simp: list_all_iff)
  qed
qed simp

lemma sort_by_sorted: "list_all ok xs \<Longrightarrow> sorted_wrt (\<lambda>a b. cmp a b \<noteq> Greater) (sort_by cmp xs)"
proof (induction xs)
  case (Cons x xs)
  then have "list_all ok (sort_by cmp xs)" by (simp add: list_all_iff)
  then show ?case using Cons insert_by_sorted [of x "sort_by cmp xs"] by (simp add: sort_by_def)
qed (simp add: sort_by_def)

lemma dedup_sorted:
  assumes "list_all ok xs" and "sorted_wrt (\<lambda>a b. cmp a b \<noteq> Greater) xs"
  shows "sorted_wrt (\<lambda>a b. cmp a b = Less) (dedup_by (\<lambda>a b. cmp a b = Equal) xs) \<and>
    (\<forall>x\<in>set xs. \<exists>y\<in>set (dedup_by (\<lambda>a b. cmp a b = Equal) xs). cmp y x = Equal)"
  using assms
proof (induction "\<lambda>a b. cmp a b = Equal" xs rule: dedup_by.induct)
  case (3 x y ys)
  let ?dd = "dedup_by (\<lambda>a b. cmp a b = Equal)"
  show ?case
  proof (cases "cmp y x = Equal")
    case True
    have IH: "sorted_wrt (\<lambda>a b. cmp a b = Less) (?dd (x # ys)) \<and>
        (\<forall>z\<in>set (x # ys). \<exists>y\<in>set (?dd (x # ys)). cmp y z = Equal)"
      using True "3.prems" by (intro "3.hyps"(1)) auto
    moreover have "\<exists>w\<in>set (?dd (x # ys)). cmp w y = Equal"
    proof -
      obtain w where w: "w \<in> set (?dd (x # ys))" "cmp w x = Equal" using IH by auto
      then have "ok w" "ok x" "ok y" using "3.prems" set_dedup_by [of _ "x # ys"] by (auto simp: list_all_iff)
      then have "cmp w y = Equal" using w(2) True eq_left [of w x y] eq_sym [of x y] by simp
      then show ?thesis using w(1) by blast
    qed
    ultimately show ?thesis using True by auto
  next
    case False
    have IH: "sorted_wrt (\<lambda>a b. cmp a b = Less) (?dd (y # ys)) \<and>
        (\<forall>z\<in>set (y # ys). \<exists>w\<in>set (?dd (y # ys)). cmp w z = Equal)"
      using False "3.prems" by (intro "3.hyps"(2)) auto
    have "cmp x z = Less" if "z \<in> set (?dd (y # ys))" for z
    proof -
      have z: "z \<in> set (y # ys)" using that set_dedup_by by fast
      then have oks: "ok x" "ok y" "ok z" using "3.prems"(1) by (auto simp: list_all_iff)
      have xy: "cmp x y \<noteq> Greater" using "3.prems"(2) by simp
      have yz: "cmp y z \<noteq> Greater" using "3.prems"(2) z refl oks by auto
      have "cmp x y \<noteq> Equal" using False oks eq_sym by blast
      then show ?thesis using trans [OF oks(1,2,3) xy yz] by (cases "cmp x z") auto
    qed
    then show ?thesis using False IH "3.prems"(1) refl [of x] by auto
  qed
qed (use refl in \<open>auto simp: list_all_iff\<close>)

lemma binary_search_correct:
  assumes "list_all ok xs" and "ok x" and "sorted_wrt (\<lambda>a b. cmp a b \<noteq> Greater) xs"
  shows "binary_search cmp xs x \<longleftrightarrow> (\<exists>y\<in>set xs. cmp y x = Equal)"
proof (cases "xs = []")
  case False
  let ?probe = "\<lambda>i. cmp (xs ! i) x"
  let ?r = "search_loop ?probe 0 (length xs)"
  have okn: "ok (xs ! i)" if "i < length xs" for i using assms(1) that by (simp add: list_all_length)
  have mono: "?probe j = Greater" if "i \<le> j" "j < length xs" "?probe i = Greater" for i j
  proof (cases "i = j")
    case False
    then have ij: "cmp (xs ! i) (xs ! j) \<noteq> Greater"
      using assms(3) that by (simp add: sorted_wrt_iff_nth_less)
    have oks: "ok (xs ! i)" "ok (xs ! j)" using okn that by simp_all
    show ?thesis using trans [OF oks assms(2) ij] that(3) by auto
  qed (use that in simp)
  have window: "?r < length xs \<and> (\<forall>i. ?r < i \<longrightarrow> i < length xs \<longrightarrow> ?probe i = Greater) \<and>
      (?r > 0 \<longrightarrow> ?probe ?r \<noteq> Greater)"
    by (rule search_loop_window [OF mono]) (use False in simp_all)
  have "?probe ?r = Equal" if y: "y \<in> set xs" "cmp y x = Equal" for y
  proof -
    obtain i where i: "i < length xs" "xs ! i = y" using y(1) by (auto simp: in_set_conv_nth)
    have le: "i \<le> ?r" using window i y(2) by (metis not_le ordering.distinct(5))
    show ?thesis
    proof (cases "i = ?r")
      case False
      then have "cmp (xs ! i) (xs ! ?r) \<noteq> Greater"
        using assms(3) le window by (simp add: sorted_wrt_iff_nth_less)
      moreover have "?probe ?r \<noteq> Greater" using window False le by auto
      ultimately show ?thesis
        using trans [of y "xs ! ?r" x] okn [of ?r] okn [of i] i y(2) window assms(2) by auto
    qed (use i y in simp)
  qed
  then show ?thesis using window False by (auto simp: binary_search_def intro: nth_mem)
qed (simp add: binary_search_def)

text \<open>Sorting and removing duplicates arranges a list for lookup.\<close>

lemma lookup_arranged:
  assumes "list_all ok xs" and "ok x"
  shows "binary_search cmp (dedup_by (\<lambda>a b. cmp a b = Equal) (sort_by cmp xs)) x \<longleftrightarrow>
    (\<exists>y\<in>set xs. cmp y x = Equal)"
proof -
  let ?s = "sort_by cmp xs" and ?d = "dedup_by (\<lambda>a b. cmp a b = Equal) (sort_by cmp xs)"
  have oks: "list_all ok ?s" using assms(1) by (simp add: list_all_iff)
  then have okd: "list_all ok ?d" using set_dedup_by by (fastforce simp: list_all_iff)
  note dd = dedup_sorted [OF oks sort_by_sorted [OF assms(1)]]
  have "sorted_wrt (\<lambda>a b. cmp a b \<noteq> Greater) ?d"
    using dd by (auto elim: sorted_wrt_mono_rel [rotated])
  from binary_search_correct [OF okd assms(2) this]
  have "binary_search cmp ?d x \<longleftrightarrow> (\<exists>y\<in>set ?d. cmp y x = Equal)" .
  also have "\<dots> \<longleftrightarrow> (\<exists>y\<in>set ?s. cmp y x = Equal)"
  proof
    assume "\<exists>y\<in>set ?s. cmp y x = Equal"
    then obtain y where y: "y \<in> set ?s" "cmp y x = Equal" by blast
    then obtain w where w: "w \<in> set ?d" "cmp w y = Equal" using dd by blast
    then have "cmp w x = cmp y x" using eq_left [of w y x] okd oks y assms(2) by (auto simp: list_all_iff)
    then show "\<exists>y\<in>set ?d. cmp y x = Equal" using w y by auto
  qed (use set_dedup_by in fast)
  finally show ?thesis by simp
qed

end

text \<open>The order an order-preserving code defines is a total comparison.\<close>

sublocale ordered_code \<subseteq> total: total_comparison ok cmp
  using cmp_refl cmp_antisym cmp_trans by unfold_locales blast+

end
