(* ===== verification/Tuple_Order.thy ===== *)
theory Tuple_Order
  imports Tuple_Words Sorted_Slices
begin

text \<open>
  The encoder against its specification. \<open>element_bytes\<close> says what one element's bytes are; the
  encoder, which appends masked bytes to a sink one at a time, produces exactly those. The
  elements are an ordered code for the value order, ascending and descending, so every law of
  \<open>ordered_code\<close> holds of them: byte order is value order, no element is a prefix of another,
  and tuples compare element by element.
\<close>

section \<open>The specification of an element\<close>

definition esc_byte :: "u8 \<Rightarrow> bytes" where
  "esc_byte b = (if b = c_NUL then [c_NUL, c_ESCAPE] else [b])"

definition esc_bytes :: "bytes \<Rightarrow> bytes" where
  "esc_bytes bs = concat (map esc_byte bs) @ [c_NUL, c_NUL]"

definition f32_bytes :: "u32 \<Rightarrow> bytes" where
  "f32_bytes e = u32_to_be_bytes (f32_to_ordered e)"

fun element_bytes :: "Value \<Rightarrow> bytes" where
  "element_bytes Null = [c_NULL]"
| "element_bytes (Bool b) = [if b then c_TRUE else c_FALSE]"
| "element_bytes (Bytes b) = c_BYTES # esc_bytes b"
| "element_bytes (Str s) = c_STR # esc_bytes s"
| "element_bytes (I64 i) = int_bytes (sint i)"
| "element_bytes (U64 u) = int_bytes (uint u)"
| "element_bytes (Decimal i) = c_DECIMAL # int_bytes (sint i)"
| "element_bytes (F64 f) = c_F64 # u64_to_be_bytes (f64_to_ordered f)"
| "element_bytes (Uuid u) = c_UUID # u"
| "element_bytes (Vector es) =
     c_VECTOR # u32_to_be_bytes (vector_count es) @
       concat (map f32_bytes (take (unat (vector_count es)) es))"
| "element_bytes (Array es) = c_ARRAY # concat (map element_bytes es) @ [c_NUL]"

text \<open>What Rust's types guarantee of a value: a string is valid UTF-8, a UUID has sixteen bytes;
  and what the encoder needs of a vector, that its length fits its count.\<close>

fun wf_value :: "Value \<Rightarrow> bool" where
  "wf_value (Str s) \<longleftrightarrow> from_utf8 s"
| "wf_value (Uuid u) \<longleftrightarrow> length u = 16"
| "wf_value (Vector es) \<longleftrightarrow> length es < 2 ^ 32"
| "wf_value (Array es) \<longleftrightarrow> list_all wf_value es"
| "wf_value _ \<longleftrightarrow> True"

section \<open>The encoder writes the specified bytes\<close>

lemma Sink_push_extend: "Sink_push s b = Sink_extend s [b]"
  by (simp add: Sink_push_def Sink_extend_def)

lemma Sink_extend_extend [simp]: "Sink_extend (Sink_extend s xs) ys = Sink_extend s (xs @ ys)"
  by (simp add: Sink_extend_def)

lemma Sink_extend_Nil [simp]: "Sink_extend s [] = s"
  by (simp add: Sink_extend_def)

lemma sink_buf_extend [simp]:
  "sink_buf (Sink_extend s bs) = sink_buf s @ map (\<lambda>b. b XOR sink_mask s) bs"
  by (simp add: Sink_extend_def)

lemma sink_mask_extend [simp]: "sink_mask (Sink_extend s bs) = sink_mask s"
  by (simp add: Sink_extend_def)

lemma push_escaped_loop_extend:
  "push_escaped_loop s bs = Sink_extend s (concat (map esc_byte bs))"
  by (induction bs arbitrary: s) (simp_all add: Sink_push_extend esc_byte_def Let_def)

lemma push_escaped_extend: "push_escaped s bs = Sink_extend s (esc_bytes bs)"
  by (simp add: push_escaped_def push_escaped_loop_extend Sink_push_extend esc_bytes_def)

lemma push_magnitude_extend:
  "push_magnitude s neg bs = Sink_extend s (if neg then map NOT bs else bs)"
  by (induction bs arbitrary: s) (simp_all add: Sink_push_extend)

lemma push_int_extend: "push_int s neg mag = Sink_extend s (int_bytes (widen neg mag))"
proof (cases "mag = 0")
  case True
  then show ?thesis
    by (simp add: push_int_def Sink_push_extend widen_def int_bytes_def int_code_def codes_defs)
next
  case False
  have len: "byte_len (unat mag) \<le> 8"
    using unat_u64_less [of mag] by (intro byte_len_le) simp
  have pos: "0 < uint mag" using False by (simp add: uint_0_iff order.not_eq_order_implies_strict order_less_le)
  have be: "drop (8 - byte_len (unat mag)) (u64_to_be_bytes mag) = to_be (byte_len (unat mag)) (unat mag)"
    using drop_to_be [of "8 - byte_len (unat mag)" "byte_len (unat mag)" "unat mag"] len
    by (simp add: u64_to_be_bytes_def)
  have abs: "nat \<bar>widen neg mag\<bar> = unat mag" and "widen neg mag < 0 \<longleftrightarrow> neg"
    using pos by (auto simp: widen_def)
  then show ?thesis
    using False pos
    by (simp add: push_int_def Let_def push_magnitude_extend Sink_push_extend magnitude_len_eq be
        int_bytes_def int_code_def codes_defs widen_def)
qed

lemma widen_False [simp]: "widen False u = uint u"
  by (simp add: widen_def)

lemma fold_extend:
  "fold (\<lambda>e s. Sink_extend s (f e)) es s = Sink_extend s (concat (map f es))"
  by (induction es arbitrary: s) simp_all

lemma fold_elements:
  assumes "\<And>e out. e \<in> set es \<Longrightarrow> enc out e = out @ map (\<lambda>b. b XOR sink_mask s) (g e)"
  shows "fold (\<lambda>e s. s\<lparr>sink_buf := enc (sink_buf s) e\<rparr>) es s = Sink_extend s (concat (map g es))"
  using assms
proof (induction es arbitrary: s)
  case Nil
  show ?case by simp
next
  case (Cons e es)
  have "s\<lparr>sink_buf := enc (sink_buf s) e\<rparr> = Sink_extend s (g e)"
    using Cons.prems [of e] by (simp add: Sink_extend_def)
  then show ?case
    using Cons.IH [of "Sink_extend s (g e)"] Cons.prems
    by (simp add: Sink_extend_def)
qed

lemma encode_value_into_bytes:
  "encode_value_into out v d = out @ map (\<lambda>b. b XOR dir_mask d) (element_bytes v)"
proof (induction v arbitrary: out)
  case (Array es)
  have "fold (\<lambda>e s. s\<lparr>sink_buf := encode_value_into (sink_buf s) e d\<rparr>) es s =
          Sink_extend s (concat (map element_bytes es))" if "sink_mask s = dir_mask d" for s
    using that Array by (intro fold_elements) simp_all
  then show ?case
    by (subst encode_value_into.simps) (simp add: Let_def Sink_push_extend Sink_extend_def)
qed (subst encode_value_into.simps,
     simp add: Let_def Sink_push_extend push_escaped_extend push_int_extend fold_extend
       f32_bytes_def [abs_def] widen_unsigned_abs)+

section \<open>Elements are an ordered code\<close>

lemma esc_bytes_agree: "agrees (lex_cmp cmp_lin xs ys) (esc_bytes xs) (esc_bytes ys)"
  unfolding esc_bytes_def
proof (rule agrees_terminated)
  show "agrees (cmp_lin x y) (esc_byte x) (esc_byte y)" for x y
    by (cases x y rule: linorder_cases) (auto simp: esc_byte_def codes_defs word_less_nat_alt)
  show "diverges [c_NUL, c_NUL] (esc_byte x)" for x
    by (simp add: esc_byte_def codes_defs word_neq_0_conv)
qed

lemma be_word_agree:
  assumes "LENGTH('a) = 8 * n"
  shows "agrees (cmp_lin x y) (to_be n (unat x)) (to_be n (unat (y :: 'a::len word)))"
proof -
  have "unat z < 256 ^ n" for z :: "'a word"
    using unsigned_less [of z, where 'a = nat] assms by (simp add: power_mult)
  then show ?thesis
    by (cases x y rule: linorder_cases) (simp_all add: diverges_to_be word_less_nat_alt)
qed

lemma f64_bytes_agree:
  "agrees (f64_cmp x y) (u64_to_be_bytes (f64_to_ordered x)) (u64_to_be_bytes (f64_to_ordered y))"
  unfolding f64_cmp_ordered u64_to_be_bytes_def by (rule be_word_agree) simp

lemma f32_bytes_agree: "agrees (f32_cmp x y) (f32_bytes x) (f32_bytes y)"
  unfolding f32_bytes_def f32_cmp_ordered u32_to_be_bytes_def by (rule be_word_agree) simp

lemma vector_cmp_loop_lex:
  "length xs = length ys \<Longrightarrow> vector_cmp_loop (zip xs ys) = lex_cmp f32_cmp xs ys"
proof (induction xs ys rule: list_induct2)
  case (Cons x xs y ys)
  then show ?case by (cases "f32_cmp x y") (simp_all add: Let_def)
qed simp

lemma unat_vector_count: "length es < 2 ^ 32 \<Longrightarrow> unat (vector_count es) = length es"
  by (simp add: vector_count_def unat_of_nat)

lemma vector_agree:
  assumes "length xs < 2 ^ 32" and "length ys < 2 ^ 32"
  shows "agrees (then_with (cmp_lin (length xs) (length ys)) (vector_cmp_loop (zip xs ys)))
           (u32_to_be_bytes (vector_count xs) @ concat (map f32_bytes xs))
           (u32_to_be_bytes (vector_count ys) @ concat (map f32_bytes ys))"
proof (rule agrees_then_with)
  have "cmp_lin (length xs) (length ys) = cmp_lin (vector_count xs) (vector_count ys)"
    using assms by (simp add: cmp_lin_def word_less_nat_alt word_unat_eq_iff unat_vector_count)
  then show "agrees (cmp_lin (length xs) (length ys))
      (u32_to_be_bytes (vector_count xs)) (u32_to_be_bytes (vector_count ys))"
    unfolding u32_to_be_bytes_def by (simp add: be_word_agree)
next
  assume "cmp_lin (length xs) (length ys) = Equal"
  then show "agrees (vector_cmp_loop (zip xs ys)) (concat (map f32_bytes xs)) (concat (map f32_bytes ys))"
    by (simp add: vector_cmp_loop_lex agrees_same_length f32_bytes_agree)
qed

text \<open>The first byte of an element determines the class of its value.\<close>

fun class_low :: "nat \<Rightarrow> nat" where
  "class_low r = [0x01, 0x02, 0x04, 0x05, 0x0D, 0x1E, 0x21, 0x22, 0x23, 0x24] ! r"

fun class_high :: "nat \<Rightarrow> nat" where
  "class_high r = [0x01, 0x03, 0x04, 0x05, 0x1D, 0x1E, 0x21, 0x22, 0x23, 0x24] ! r"

lemma int_bytes_Cons [simp]:
  "int_bytes z \<noteq> []" "hd (int_bytes z) = int_code z" "int_code z # tl (int_bytes z) = int_bytes z"
  by (simp_all add: int_bytes_def)

lemma element_bytes_head:
  obtains c bs where "element_bytes v = c # bs"
    and "class_low (class_rank v) \<le> unat c" and "unat c \<le> class_high (class_rank v)"
proof -
  have "13 \<le> unat (int_code z) \<and> unat (int_code z) \<le> 29" if "int_range z" for z
    using int_code_bounds [OF that] by (simp add: word_le_nat_alt)
  note int = this [OF int_range_sint] this [OF int_range_uint]
  show ?thesis
    by (cases v; rule that [of "hd (element_bytes v)" "tl (element_bytes v)"])
      (simp_all add: codes_defs int)
qed

lemma class_rank_le: "class_rank v \<le> 9"
  by (cases v) simp_all

lemma class_ranges:
  assumes "r < s" and "s \<le> 9"
  shows "class_high r < class_low s"
proof -
  have "s \<in> {0,1,2,3,4,5,6,7,8,9}" "r \<in> {0,1,2,3,4,5,6,7,8,9}" using assms by auto
  with assms(1) show ?thesis by auto
qed

lemma rank_diverges:
  assumes "class_rank a < class_rank b"
  shows "diverges (element_bytes a) (element_bytes b)"
proof -
  obtain c bs where a: "element_bytes a = c # bs" "unat c \<le> class_high (class_rank a)"
    by (rule element_bytes_head)
  obtain d cs where b: "element_bytes b = d # cs" "class_low (class_rank b) \<le> unat d"
    by (rule element_bytes_head)
  have "unat c < unat d"
    using a(2) b(2) class_ranges [OF assms class_rank_le] by linarith
  then show ?thesis using a(1) b(1) by (simp add: word_less_nat_alt)
qed


lemma value_cmp_rank:
  "class_rank a < class_rank b \<Longrightarrow> value_cmp a b = Less"
  "class_rank b < class_rank a \<Longrightarrow> value_cmp a b = Greater"
  by (simp_all add: value_cmp.simps [of a b])

lemma rank_agrees:
  "class_rank a \<noteq> class_rank b \<Longrightarrow> agrees (value_cmp a b) (element_bytes a) (element_bytes b)"
  by (cases "class_rank a" "class_rank b" rule: linorder_cases)
    (simp_all add: value_cmp_rank rank_diverges)

lemma nul_diverges: "diverges [c_NUL] (element_bytes v)"
proof -
  obtain c bs where v: "element_bytes v = c # bs" and c: "class_low (class_rank v) \<le> unat c"
    by (rule element_bytes_head)
  have "class_low (class_rank v) > 0" by (cases v) simp_all
  with c have "0 < unat c" by linarith
  then have "0 < c" by (simp add: word_less_nat_alt)
  with v show ?thesis by (simp add: codes_defs)
qed

lemma array_bytes_agree:
  assumes "\<And>x y. x \<in> set xs \<Longrightarrow> y \<in> set ys \<Longrightarrow> agrees (value_cmp x y) (element_bytes x) (element_bytes y)"
  shows "agrees (value_cmp (Array xs) (Array ys)) (element_bytes (Array xs)) (element_bytes (Array ys))"
  using agrees_terminated [of xs ys value_cmp element_bytes "[c_NUL]", OF assms nul_diverges]
  by (simp add: value_cmp.simps)

lemma element_bytes_agree:
  assumes "wf_value a" and "wf_value b"
  shows "agrees (value_cmp a b) (element_bytes a) (element_bytes b)"
  using assms
proof (induction a arbitrary: b)
  case (Array xs)
  show ?case
  proof (cases b)
    case b: (Array ys)
    show ?thesis
      unfolding b by (rule array_bytes_agree) (use Array b in \<open>auto simp: list_all_iff\<close>)
  qed (rule rank_agrees, simp)+
next
  case (Vector es)
  show ?case
  proof (cases b)
    case b: (Vector fs)
    with Vector show ?thesis
      using vector_agree [of es fs] by (simp add: value_cmp.simps unat_vector_count)
  qed (rule rank_agrees, simp)+
next
  case (Uuid u)
  show ?case
  proof (cases b)
    case b: (Uuid w)
    with Uuid show ?thesis
      by (cases u w rule: linorder_cases)
        (simp_all add: value_cmp.simps lex_cmp_lin less_equal_length_diverges)
  qed (rule rank_agrees, simp)+
next
  case (Bool x)
  show ?case
  proof (cases b)
    case b: (Bool y)
    then show ?thesis by (auto simp: value_cmp.simps cmp_lin_def codes_defs)
  qed (rule rank_agrees, simp)+
qed (case_tac b; (rule rank_agrees, simp; fail)?;
     simp add: value_cmp.simps esc_bytes_agree int_bytes_agree f64_bytes_agree; fail)+

text \<open>An element in a direction, and the order that direction asks for.\<close>

definition dir_bytes :: "Direction \<Rightarrow> Value \<Rightarrow> bytes" where
  "dir_bytes d v = map (\<lambda>b. b XOR dir_mask d) (element_bytes v)"

definition dir_cmp :: "Direction \<Rightarrow> Value \<Rightarrow> Value \<Rightarrow> ordering" where
  "dir_cmp d a b = (case d of Asc \<Rightarrow> value_cmp a b | Desc \<Rightarrow> reverse_ordering (value_cmp a b))"

lemma element_bytes_nonempty: "element_bytes v \<noteq> []"
  by (rule element_bytes_head [of v]) simp

lemma xor_0xFF: "b XOR 0xFF = NOT (b :: u8)"
proof (rule bit_word_eqI)
  have "(0xFF :: u8) = - 1" by simp
  then show "n < LENGTH(8) \<Longrightarrow> bit (b XOR 0xFF) n = bit (NOT b) n" for n
    by (simp only: bit_xor_iff bit_not_iff) simp
qed

interpretation asc: ordered_code wf_value element_bytes value_cmp
  by unfold_locales (simp_all add: element_bytes_agree element_bytes_nonempty)

interpretation elem: ordered_code wf_value "dir_bytes d" "dir_cmp d" for d
proof (cases d)
  case Asc
  have "dir_bytes d = element_bytes" "dir_cmp d = value_cmp"
    using Asc by (simp_all add: dir_bytes_def [abs_def] dir_cmp_def [abs_def])
  then show "ordered_code wf_value (dir_bytes d) (dir_cmp d)"
    using asc.ordered_code_axioms by simp
next
  case Desc
  have "dir_bytes d = (\<lambda>v. map NOT (element_bytes v))"
    "dir_cmp d = (\<lambda>a b. reverse_ordering (value_cmp a b))"
    using Desc by (simp_all add: dir_bytes_def [abs_def] dir_cmp_def [abs_def] xor_0xFF)
  then show "ordered_code wf_value (dir_bytes d) (dir_cmp d)"
    using ordered_code_complement [OF asc.ordered_code_axioms] by simp
qed

section \<open>Tuples with a direction per element\<close>

fun tuple_bytes :: "Direction list \<Rightarrow> Value list \<Rightarrow> bytes" where
  "tuple_bytes ds [] = []"
| "tuple_bytes ds (v # vs) = dir_bytes (direction_at ds 0) v @ tuple_bytes (tl ds) vs"

fun tuple_cmp :: "Direction list \<Rightarrow> Value list \<Rightarrow> Value list \<Rightarrow> ordering" where
  "tuple_cmp ds [] [] = Equal"
| "tuple_cmp ds [] (y # ys) = Less"
| "tuple_cmp ds (x # xs) [] = Greater"
| "tuple_cmp ds (x # xs) (y # ys) =
     then_with (dir_cmp (direction_at ds 0) x y) (tuple_cmp (tl ds) xs ys)"

lemma direction_at_tl: "direction_at (tl ds) i = direction_at ds (Suc i)"
  by (cases ds) (simp_all add: direction_at_def)

lemma direction_at_Nil [simp]: "direction_at [] i = Asc"
  by (simp add: direction_at_def)

lemma encode_value_into_dir: "encode_value_into out v d = out @ dir_bytes d v"
  by (simp add: encode_value_into_bytes dir_bytes_def)

lemma fold_encode_value:
  "fold (\<lambda>(i, v) out. encode_value_into out v (direction_at ds i)) (enumerate n vs) out =
     out @ tuple_bytes (drop n ds) vs"
proof (induction vs arbitrary: n out)
  case (Cons v vs)
  have "direction_at (drop n ds) 0 = direction_at ds n"
    by (simp add: direction_at_def)
  moreover have "drop (Suc n) ds = tl (drop n ds)"
    by (simp add: drop_Suc drop_tl)
  ultimately show ?case
    using Cons.IH [of "Suc n"] by (simp add: encode_value_into_dir)
qed simp

lemma encode_with_bytes: "encode_with vs ds = tuple_bytes ds vs"
  unfolding encode_with_def by (simp add: fold_encode_value)

lemma tuple_bytes_asc: "tuple_bytes [] vs = concat (map element_bytes vs)"
  by (induction vs) (simp_all add: dir_bytes_def)

lemma encode_bytes: "encode vs = tuple_bytes [] vs"
proof -
  have "fold (\<lambda>v out. encode_value_into out v Asc) vs out = out @ tuple_bytes [] vs" for out
    by (induction vs arbitrary: out) (simp_all add: encode_value_into_dir)
  then show ?thesis by (simp add: encode_def)
qed

lemma tuple_cmp_asc: "tuple_cmp [] xs ys = lex_cmp value_cmp xs ys"
proof -
  have "tuple_cmp ds xs ys = lex_cmp value_cmp xs ys" if "ds = []" for ds
    using that by (induction ds xs ys rule: tuple_cmp.induct) (simp_all add: dir_cmp_def)
  then show ?thesis by simp
qed

lemma tuple_bytes_Nil_iff: "tuple_bytes ds vs = [] \<longleftrightarrow> vs = []"
  by (cases vs) (simp_all add: dir_bytes_def element_bytes_nonempty)

lemma tuple_byte_order:
  assumes "list_all wf_value xs" and "list_all wf_value ys"
  shows "cmp_lin (tuple_bytes ds xs) (tuple_bytes ds ys) = tuple_cmp ds xs ys"
  using assms
proof (induction ds xs ys rule: tuple_cmp.induct)
  case (4 ds x xs y ys)
  let ?d = "direction_at ds 0"
  have ok: "wf_value x" "wf_value y" and IH: "cmp_lin (tuple_bytes (tl ds) xs) (tuple_bytes (tl ds) ys) = tuple_cmp (tl ds) xs ys"
    using 4 by simp_all
  show ?case
  proof (cases "dir_cmp ?d x y = Equal")
    case True
    then have "dir_bytes ?d x = dir_bytes ?d y" using ok elem.enc_eq_iff by blast
    then show ?thesis using True IH by simp
  next
    case False
    then show ?thesis
      using agrees_cmp_lin_append [OF elem.enc_agrees [OF ok]] by (cases "dir_cmp ?d x y") auto
  qed
qed (simp_all add: tuple_bytes_Nil_iff dir_bytes_def element_bytes_nonempty)

lemma tuple_prefix:
  assumes "list_all wf_value xs" and "list_all wf_value ys" and "length xs \<le> length ys"
    and "prefix (tuple_bytes ds xs) (tuple_bytes ds ys)"
  shows "tuple_cmp ds xs (take (length xs) ys) = Equal"
  using assms
proof (induction ds xs ys rule: tuple_cmp.induct)
  case (4 ds x xs y ys)
  let ?d = "direction_at ds 0"
  obtain zs where "dir_bytes ?d x @ tuple_bytes (tl ds) xs @ zs = dir_bytes ?d y @ tuple_bytes (tl ds) ys"
    using "4.prems"(4) by (auto simp: prefix_def)
  with "4.prems"(1,2) have eq: "dir_bytes ?d x = dir_bytes ?d y"
    and rest: "tuple_bytes (tl ds) xs @ zs = tuple_bytes (tl ds) ys"
    using elem.split_unique [of x y] by auto
  have "tuple_cmp (tl ds) xs (take (length xs) ys) = Equal"
    using "4.prems"(1-3) prefixI [OF rest [symmetric]] by (intro "4.IH") auto
  moreover have "dir_cmp ?d x y = Equal" using eq "4.prems"(1,2) elem.enc_eq_iff by simp
  ultimately show ?case by simp
qed simp_all

section \<open>Prefixes of strings\<close>

lemma esc_byte_split:
  "esc_byte x @ us = esc_byte y @ vs \<longleftrightarrow> x = y \<and> us = vs"
  by (auto simp: esc_byte_def)

lemma esc_prefix_iff:
  "prefix (concat (map esc_byte p)) (esc_bytes s @ rest) \<longleftrightarrow> prefix p s"
proof (induction p arbitrary: s)
  case (Cons x p)
  show ?case
  proof (cases s)
    case Nil
    then show ?thesis by (auto simp: esc_bytes_def esc_byte_def codes_defs)
  next
    case (Cons y s')
    have "prefix (esc_byte x @ us) (esc_byte y @ vs) \<longleftrightarrow> x = y \<and> prefix us vs" for us vs
      by (auto simp: prefix_def esc_byte_split)
    then show ?thesis using Cons.IH [of s'] Cons by (simp add: esc_bytes_def)
  qed
qed simp

lemma encode_prefix_into_bytes:
  "encode_prefix_into out (Bytes b) d =
     (True, out @ map (\<lambda>x. x XOR dir_mask d) (c_BYTES # concat (map esc_byte b)))"
  "encode_prefix_into out (Str s) d =
     (True, out @ map (\<lambda>x. x XOR dir_mask d) (c_STR # concat (map esc_byte s)))"
  by (simp_all add: encode_prefix_into_def Let_def push_escaped_loop_extend Sink_push_extend)

lemma xor_xor [simp]: "(b XOR m) XOR m = (b :: u8)"
  by (simp add: xor.assoc)

lemma prefix_masked:
  "prefix (map (\<lambda>b. b XOR m) xs) (map (\<lambda>b. b XOR m) ys @ zs) \<longleftrightarrow>
     prefix xs (ys @ map (\<lambda>b. b XOR m) (zs :: bytes))"
proof -
  let ?f = "map (\<lambda>b :: u8. b XOR m)"
  have inv: "?f (?f bs) = bs" for bs by (simp add: comp_def)
  have "prefix us vs" if "prefix (?f us) (?f vs)" for us vs
    using map_mono_prefix [OF that, of "\<lambda>b. b XOR m"] by (simp add: inv del: map_map)
  then have "prefix (?f us) (?f vs) \<longleftrightarrow> prefix us vs" for us vs
    using map_mono_prefix by blast
  from this [of xs "ys @ ?f zs"] show ?thesis by (simp add: inv del: map_map)
qed

lemma head_class:
  assumes "class_rank v \<noteq> r" and "r \<le> 9" and "unat c = class_low r"
  shows "\<not> prefix (c # xs) (element_bytes v @ ys)"
proof -
  obtain h bs where v: "element_bytes v = h # bs"
    and h: "class_low (class_rank v) \<le> unat h" "unat h \<le> class_high (class_rank v)"
    by (rule element_bytes_head)
  have "class_low r \<le> class_high r" using assms(2)
    by (cases "r = 1 \<or> r = 4") (auto simp: less_Suc_eq_le numeral_eq_Suc le_Suc_eq)
  then have "unat h \<noteq> unat c"
    using h assms class_ranges [of "class_rank v" r] class_ranges [of r "class_rank v"] class_rank_le [of v]
    by (cases "class_rank v" r rule: linorder_cases) (simp_all del: class_low.simps class_high.simps)
  with v show ?thesis by auto
qed

lemma prefix_str_iff:
  "prefix (c_STR # concat (map esc_byte p)) (element_bytes v @ ys) \<longleftrightarrow> (\<exists>s. v = Str s \<and> prefix p s)"
proof (cases "class_rank v = 3")
  case True
  then obtain s where "v = Str s" by (cases v) simp_all
  then show ?thesis by (simp add: esc_prefix_iff)
next
  case False
  then show ?thesis using head_class [of v 3 c_STR] by (auto simp: codes_defs)
qed

lemma prefix_bytes_iff:
  "prefix (c_BYTES # concat (map esc_byte p)) (element_bytes v @ ys) \<longleftrightarrow> (\<exists>s. v = Bytes s \<and> prefix p s)"
proof (cases "class_rank v = 2")
  case True
  then obtain s where "v = Bytes s" by (cases v) simp_all
  then show ?thesis by (simp add: esc_prefix_iff)
next
  case False
  then show ?thesis using head_class [of v 2 c_BYTES] by (auto simp: codes_defs)
qed

section \<open>The properties of the encoding\<close>

text \<open>C3. The bytes of a tuple, each element written ascending or descending as its position's
  direction says, compare exactly as the tuples do element by element in those directions; the
  shorter of two tuples that agree comes first.\<close>

theorem encode_with_byte_order:
  assumes "list_all wf_value xs" and "list_all wf_value ys"
  shows "cmp_lin (encode_with xs ds) (encode_with ys ds) = tuple_cmp ds xs ys"
  unfolding encode_with_bytes using assms by (rule tuple_byte_order)

theorem encode_with_byte_order_witness:
  "cmp_lin (encode_with [I64 (- 1), Str [0x61]] [Desc]) (encode_with [U64 7, Str [0x61, 0]] [Desc]) =
     Greater"
  using encode_with_byte_order [of "[I64 (- 1), Str [0x61]]" "[U64 7, Str [0x61, 0]]" "[Desc]"]
  by (simp add: from_utf8_def utf8_decode.simps value_cmp.simps dir_cmp_def direction_at_def)

text \<open>The bytes of a tuple are a prefix of the bytes of another that is at least as long only
  when the other tuple starts with elements equal to those of the first: a scan of a key prefix
  sees no row that does not match it.\<close>

theorem encode_with_prefix:
  assumes "list_all wf_value xs" and "list_all wf_value ys" and "length xs \<le> length ys"
    and "prefix (encode_with xs ds) (encode_with ys ds)"
  shows "tuple_cmp ds xs (take (length xs) ys) = Equal"
  using assms unfolding encode_with_bytes by (rule tuple_prefix)

theorem encode_with_prefix_witness:
  "tuple_cmp [] [U64 5] (take 1 [I64 5, Null]) = Equal"
proof -
  have "encode_with [I64 5, Null] [] = encode_with [U64 5] [] @ [c_NULL]"
    by (simp add: encode_with_bytes dir_bytes_def)
  then show ?thesis
    using encode_with_prefix [of "[U64 5]" "[I64 5, Null]" "[]"] by simp
qed

text \<open>The value order is a total order on the values the types allow: reflexive, antisymmetric
  up to the equality it defines, and transitive, across all eleven kinds of values, with signed
  and unsigned integers compared as numbers and floats with one NaN above infinity.\<close>

theorem value_cmp_total_order:
  assumes "wf_value a" and "wf_value b" and "wf_value c"
  shows "value_cmp a a = Equal \<and> value_cmp b a = reverse_ordering (value_cmp a b) \<and>
     (value_cmp a b \<noteq> Greater \<longrightarrow> value_cmp b c \<noteq> Greater \<longrightarrow>
        value_cmp a c \<noteq> Greater \<and>
        (value_cmp a c = Equal \<longrightarrow> value_cmp a b = Equal \<and> value_cmp b c = Equal))"
  using assms asc.cmp_refl asc.cmp_antisym asc.cmp_trans [of a b c] by blast

theorem value_cmp_total_order_witness:
  "value_cmp (I64 (- 3)) (U64 18446744073709551615) \<noteq> Greater \<and>
   value_cmp (I64 (- 3)) (Decimal 0) \<noteq> Greater"
proof -
  have "value_cmp (I64 (- 3)) (U64 18446744073709551615) = Less"
    "value_cmp (U64 18446744073709551615) (Decimal 0) = Less"
    by (simp_all add: value_cmp.simps)
  then show ?thesis
    using value_cmp_total_order [of "I64 (- 3)" "U64 18446744073709551615" "Decimal 0"] by simp
qed

text \<open>The prefix written for a string or byte-string pattern is a prefix of the encoding of
  exactly the values of its own type that start with the pattern, in either direction and
  whatever follows; for a value of another type the buffer is left alone.\<close>

theorem encode_prefix_into_selects:
  "prefix (snd (encode_prefix_into [] (Str p) d)) (encode_value_into [] v d @ rest) =
     (\<exists>s. v = Str s \<and> prefix p s) \<and>
   prefix (snd (encode_prefix_into [] (Bytes b) d)) (encode_value_into [] v d @ rest) =
     (\<exists>s. v = Bytes s \<and> prefix b s) \<and>
   fst (encode_prefix_into out v d) = (class_rank v = 2 \<or> class_rank v = 3) \<and>
   (fst (encode_prefix_into out v d) \<or> encode_prefix_into out v d = (False, out))"
proof (intro conjI)
  show "fst (encode_prefix_into out v d) = (class_rank v = 2 \<or> class_rank v = 3)"
    "fst (encode_prefix_into out v d) \<or> encode_prefix_into out v d = (False, out)"
    by (cases v; simp add: encode_prefix_into_def Let_def)+
  show "prefix (snd (encode_prefix_into [] (Str p) d)) (encode_value_into [] v d @ rest) =
     (\<exists>s. v = Str s \<and> prefix p s)"
    by (simp only: encode_prefix_into_bytes encode_value_into_bytes append_Nil snd_conv
        prefix_masked prefix_str_iff)
  show "prefix (snd (encode_prefix_into [] (Bytes b) d)) (encode_value_into [] v d @ rest) =
     (\<exists>s. v = Bytes s \<and> prefix b s)"
    by (simp only: encode_prefix_into_bytes encode_value_into_bytes append_Nil snd_conv
        prefix_masked prefix_bytes_iff)
qed

end
