(* ===== verification/Tuple_Roundtrip.thy ===== *)
theory Tuple_Roundtrip
  imports Tuple_Order
begin

text \<open>
  The reader against the encoder: what was written is read back, one element or a whole tuple, by
  the schema-directed and the dynamic reader, whatever follows it in the buffer; skipping moves
  the cursor exactly as far as reading does.
\<close>

section \<open>The cursor on masked bytes\<close>

text \<open>A cursor between the bytes it has read and those it has not.\<close>

definition cursor :: "bytes \<Rightarrow> bytes \<Rightarrow> TupleReader" where
  "cursor pre rest = \<lparr>buf = pre @ rest, pos = length pre\<rparr>"

abbreviation masked :: "u8 \<Rightarrow> bytes \<Rightarrow> bytes" where
  "masked m bs \<equiv> map (\<lambda>b. b XOR m) bs"

lemma pos_cursor [simp]: "pos (cursor pre rest) = length pre"
  by (simp add: cursor_def)

lemma buf_cursor [simp]: "buf (cursor pre rest) = pre @ rest"
  by (simp add: cursor_def)

lemma remainder_cursor [simp]: "remainder (cursor pre rest) = rest"
  by (simp add: remainder_def)

lemma new_cursor: "TupleReader_new b = cursor [] b"
  by (simp add: TupleReader_new_def cursor_def)

lemma rd_byte_cursor [simp, reader_simps]:
  "rd_byte m (cursor pre (b # rest)) = Inr (b XOR m, cursor (pre @ [b]) rest)"
  by (simp add: rd_byte_def cursor_def)

lemma rd_take_cursor:
  assumes "length xs = n" and "length pre + n < 2 ^ 64"
  shows "rd_take n m (cursor pre (masked m xs @ rest)) = Inr (xs, cursor (pre @ masked m xs) rest)"
  using assms by (auto simp: rd_take_def cursor_def Let_def comp_def)

lemma advance_cursor:
  assumes "length xs = n" and "length pre + n < 2 ^ 64"
  shows "advance n (cursor pre (xs @ rest)) = Inr ((), cursor (pre @ xs) rest)"
  using assms by (simp add: advance_def cursor_def Let_def)

section \<open>Strings\<close>

lemma read_escaped_loop_cursor:
  "read_escaped_loop m out (cursor pre (masked m (esc_bytes bs) @ rest)) =
     Inr (out @ bs, cursor (pre @ masked m (esc_bytes bs)) rest)"
proof (induction bs arbitrary: out pre)
  case Nil
  show ?case by (subst read_escaped_loop.simps) (simp add: esc_bytes_def Let_def)
next
  case (Cons b bs)
  show ?case
  proof (cases "b = c_NUL")
    case True
    then show ?thesis
      using Cons.IH [of "out @ [b]" "pre @ masked m [c_NUL, c_ESCAPE]"]
      by (subst read_escaped_loop.simps) (simp add: esc_bytes_def esc_byte_def Let_def codes_defs)
  next
    case False
    then show ?thesis
      using Cons.IH [of "out @ [b]" "pre @ masked m [b]"]
      by (subst read_escaped_loop.simps) (simp add: esc_bytes_def esc_byte_def)
  qed
qed

lemma skip_escaped_cursor:
  "skip_escaped m (cursor pre (masked m (esc_bytes bs) @ rest)) =
     Inr ((), cursor (pre @ masked m (esc_bytes bs)) rest)"
proof (induction bs arbitrary: pre)
  case Nil
  show ?case by (subst skip_escaped.simps) (simp add: esc_bytes_def Let_def)
next
  case (Cons b bs)
  show ?case
  proof (cases "b = c_NUL")
    case True
    then show ?thesis
      using Cons.IH [of "pre @ masked m [c_NUL, c_ESCAPE]"]
      by (subst skip_escaped.simps) (simp add: esc_bytes_def esc_byte_def Let_def codes_defs)
  next
    case False
    then show ?thesis
      using Cons.IH [of "pre @ masked m [b]"]
      by (subst skip_escaped.simps) (simp add: esc_bytes_def esc_byte_def)
  qed
qed

section \<open>Integers\<close>

text \<open>Shifting a byte in is multiplying by 256 and adding.\<close>

lemma shift_in_byte: "push_bit 8 (w :: u64) OR ucast (b :: u8) = w * 256 + ucast b"
proof -
  have "push_bit 8 w AND ucast b = (0 :: u64)"
    by (rule bit_word_eqI) (auto simp: bit_simps dest: bit_imp_le_length)
  then have "push_bit 8 w OR ucast b = push_bit 8 w + ucast b"
    by (simp add: disjunctive_add_eq_or)
  then show ?thesis by (simp add: push_bit_eq_mult)
qed

lemma foldl_shift:
  "foldl (\<lambda>a b. push_bit 8 a OR ucast (b :: u8)) 0 bs = (of_nat (of_be bs) :: u64)"
proof (induction bs rule: rev_induct)
  case (snoc b bs)
  then show ?case by (simp add: shift_in_byte)
qed simp

lemma int_body_loop_cursor:
  "int_body_loop (length xs) neg m a (cursor pre (masked m xs @ rest)) =
     Inr (foldl (\<lambda>a b. push_bit 8 a OR ucast b) a (if neg then map NOT xs else xs),
          cursor (pre @ masked m xs) rest)"
proof (induction xs arbitrary: a pre)
  case (Cons b xs)
  then show ?case
    using Cons.IH [of _ "pre @ [b XOR m]"] by (simp add: Let_def)
qed simp

lemma int_code_cases:
  assumes "int_range z"
  shows "int_code z = c_INT_ZERO \<longleftrightarrow> z = 0" and "c_INT_ZERO < int_code z \<longleftrightarrow> 0 < z"
    and "int_len (int_code z) = byte_len (nat \<bar>z\<bar>)" and "is_int_code (int_code z)"
    and "int_code z \<noteq> c_NULL"
proof -
  have u: "uint (int_code z) = 0x15 + sgn z * int (byte_len (nat \<bar>z\<bar>))"
    using assms by (rule uint_int_code)
  have l: "byte_len (nat \<bar>z\<bar>) \<le> 8" "z \<noteq> 0 \<Longrightarrow> 0 < byte_len (nat \<bar>z\<bar>)"
    using assms by (simp_all add: int_range_byte_len byte_len_pos)
  show zero: "int_code z = c_INT_ZERO \<longleftrightarrow> z = 0"
    using u l by (auto simp: word_uint_eq_iff codes_defs sgn_if)
  show less: "c_INT_ZERO < int_code z \<longleftrightarrow> 0 < z"
    using u l by (auto simp: word_less_def codes_defs sgn_if)
  show "is_int_code (int_code z)"
    using int_code_bounds [OF assms] by (simp add: is_int_code_def codes_defs)
  then show "int_code z \<noteq> c_NULL" by (auto simp: is_int_code_def codes_defs word_le_def)
  consider "0 < z" | "z = 0" | "z < 0" by linarith
  then show "int_len (int_code z) = byte_len (nat \<bar>z\<bar>)"
  proof cases
    case 1
    have "int_code z = c_INT_ZERO + of_nat (byte_len (nat \<bar>z\<bar>))"
      using 1 by (simp add: int_code_def codes_defs)
    then show ?thesis using 1 less l by (simp add: int_len_def unat_of_nat)
  next
    case 2
    then show ?thesis by (simp add: int_len_def int_code_def codes_defs)
  next
    case 3
    have "int_code z = c_INT_ZERO - of_nat (byte_len (nat \<bar>z\<bar>))"
      using 3 by (simp add: int_code_def codes_defs)
    then show ?thesis using 3 less l by (simp add: int_len_def unat_of_nat)
  qed
qed

lemma read_int_body_cursor:
  assumes "int_range z"
  shows "read_int_body (int_code z) m start (cursor pre (masked m (tl (int_bytes z)) @ rest)) =
     Inr ((z < 0, of_int \<bar>z\<bar>), cursor (pre @ masked m (tl (int_bytes z))) rest)"
proof (cases "z = 0")
  case True
  then show ?thesis using int_code_cases(1) [OF assms]
    by (simp add: read_int_body_def int_bytes_def)
next
  case False
  let ?n = "byte_len (nat \<bar>z\<bar>)"
  let ?be = "to_be ?n (nat \<bar>z\<bar>)"
  let ?xs = "if z < 0 then map NOT ?be else ?be"
  have len: "(if c_INT_ZERO < int_code z then (False, unat (int_code z - c_INT_ZERO))
               else (True, unat (c_INT_ZERO - int_code z))) = (z < 0, ?n)"
    using int_code_cases(2,3) [OF assms] False by (auto simp: int_len_def split: if_splits)
  have tl: "tl (int_bytes z) = ?xs" by (simp add: int_bytes_def Let_def)
  have w: "(of_nat (of_be ?be) :: u64) = of_int \<bar>z\<bar>"
    using of_be_to_be [OF less_byte_len] by simp
  have "nat \<bar>z\<bar> < 2 ^ 64" using assms by (simp add: int_range_def nat_less_iff)
  then have "unat (of_nat (nat \<bar>z\<bar>) :: u64) = nat \<bar>z\<bar>"
    by (simp only: unat_of_nat) simp
  then have mag: "magnitude_len (of_int \<bar>z\<bar>) = ?n" by (simp add: magnitude_len_eq)
  have "int_body_loop ?n (z < 0) m 0 (cursor pre (masked m ?xs @ rest)) =
          Inr (of_int \<bar>z\<bar>, cursor (pre @ masked m ?xs) rest)"
    using int_body_loop_cursor [of ?xs "z < 0" m 0 pre rest] foldl_shift [of ?be] w
    by (simp add: comp_def split: if_splits)
  then show ?thesis
    unfolding tl read_int_body_def len using int_code_cases(1) [OF assms] False
    by (simp add: mag)
qed

lemma widen_back: "int_range z \<Longrightarrow> widen (z < 0) (of_int \<bar>z\<bar>) = z"
  using uint_of_int_id [where 'a = 64, of "\<bar>z\<bar>"]
  by (cases "z < 0") (simp_all add: widen_def int_range_def)

lemma i64_try_from_sint [simp]: "i64_try_from (sint v) = Some v"
  using sint_greater_eq [of v] sint_less [of v] by (simp add: i64_try_from_def)

lemma u64_try_from_uint [simp]: "u64_try_from (uint v) = Some v"
  using uint_lt2p [of v] by (simp add: u64_try_from_def)

section \<open>Floats\<close>

lemma unorder_word:
  fixes x :: "'a::len word"
  assumes S: "S = 2 ^ (LENGTH('a) - 1)" and w: "w = (if x AND S = 0 then x XOR S else NOT x)"
  shows "(if w AND S = 0 then NOT w else w XOR S) = x"
proof -
  have sgn: "y AND S = 0 \<longleftrightarrow> \<not> bit y (LENGTH('a) - 1)" for y :: "'a word"
    by (simp add: S and_exp_eq_0_iff_not_bit)
  have "bit w (LENGTH('a) - 1) \<longleftrightarrow> \<not> bit x (LENGTH('a) - 1)"
    using len_gt_0 [where 'a = 'a] unfolding w sgn
    by (simp add: S bit_xor_iff bit_exp_iff bit_not_iff)
  then show ?thesis
    unfolding sgn using w by (simp add: sgn xor.assoc)
qed

definition canon_f64 :: "u64 \<Rightarrow> u64" where
  "canon_f64 f = (if f64_is_nan f then F64_NAN else f)"

definition canon_f32 :: "u32 \<Rightarrow> u32" where
  "canon_f32 f = (if f32_is_nan f then F32_NAN else f)"

lemma ordered_f64 [simp]: "ordered_to_f64 (f64_to_ordered f) = canon_f64 f"
  unfolding ordered_to_f64_def f64_to_ordered_def canon_f64_def [symmetric] Let_def
  by (rule unorder_word [OF _ refl]) (simp add: SIGN_BIT_def)

lemma ordered_f32 [simp]: "ordered_to_f32 (f32_to_ordered f) = canon_f32 f"
  unfolding ordered_to_f32_def f32_to_ordered_def canon_f32_def [symmetric] Let_def
  by (rule unorder_word [OF _ refl]) (simp add: SIGN32_def)

lemma u64_be_back [simp]: "u64_from_be_bytes (u64_to_be_bytes w) = w"
  using of_be_to_be [of "unat w" 8] unat_u64_less [of w]
  by (simp add: u64_from_be_bytes_def u64_to_be_bytes_def)

lemma u32_be_back [simp]: "u32_from_be_bytes (u32_to_be_bytes w) = w"
proof -
  have "unat w < 2 ^ LENGTH(32)" by (rule unsigned_less)
  then show ?thesis
    using of_be_to_be [of "unat w" 4] by (simp add: u32_from_be_bytes_def u32_to_be_bytes_def)
qed

lemma length_be_bytes [simp]:
  "length (u64_to_be_bytes w) = 8" "length (u32_to_be_bytes x) = 4" "length (f32_bytes e) = 4"
  by (simp_all add: u64_to_be_bytes_def u32_to_be_bytes_def f32_bytes_def)

lemma f32_bytes_back [simp]: "ordered_to_f32 (u32_from_be_bytes (f32_bytes e)) = canon_f32 e"
  by (simp add: f32_bytes_def)

lemma vector_loop_cursor:
  assumes "length pre + 4 * length es < 2 ^ 64"
  shows "vector_loop (length es) m acc (cursor pre (masked m (concat (map f32_bytes es)) @ rest)) =
     Inr (acc @ map canon_f32 es, cursor (pre @ masked m (concat (map f32_bytes es))) rest)"
  using assms
proof (induction es arbitrary: acc pre)
  case (Cons e es)
  have "rd_take 4 m (cursor pre (masked m (f32_bytes e) @ masked m (concat (map f32_bytes es)) @ rest)) =
      Inr (f32_bytes e, cursor (pre @ masked m (f32_bytes e)) (masked m (concat (map f32_bytes es)) @ rest))"
    using Cons.prems by (intro rd_take_cursor) simp_all
  then show ?case
    using Cons.IH [of "pre @ masked m (f32_bytes e)"] Cons.prems
    by simp
qed simp

section \<open>Elements\<close>

text \<open>What the dynamic reader returns: an integer that fits is signed, a NaN is the canonical one.
  The schema-directed reader knows the type of an integer.\<close>

fun canon_dyn :: "Value \<Rightarrow> Value" where
  "canon_dyn (U64 u) = (if uint u < 2 ^ 63 then I64 u else U64 u)"
| "canon_dyn (F64 f) = F64 (canon_f64 f)"
| "canon_dyn (Vector es) = Vector (map canon_f32 es)"
| "canon_dyn (Array es) = Array (map canon_dyn es)"
| "canon_dyn v = v"

fun canon :: "Value \<Rightarrow> Value" where
  "canon (U64 u) = U64 u"
| "canon v = canon_dyn v"

fun is_array :: "Value \<Rightarrow> bool" where
  "is_array (Array _) \<longleftrightarrow> True"
| "is_array _ \<longleftrightarrow> False"

text \<open>A value the schema can express: no array inside an array.\<close>

fun flat :: "Value \<Rightarrow> bool" where
  "flat (Array es) \<longleftrightarrow> list_all (\<lambda>e. \<not> is_array e) es"
| "flat _ \<longleftrightarrow> True"

text \<open>The body of an element, once its code has been read.\<close>

definition body_bytes :: "Value \<Rightarrow> bytes" where
  "body_bytes v = tl (element_bytes v)"

lemma element_bytes_body: "element_bytes v = hd (element_bytes v) # body_bytes v"
  by (simp add: body_bytes_def element_bytes_nonempty)

lemma decimal_body:
  "read_body_with arr c_DECIMAL m start (cursor pre (masked m (int_bytes (sint i)) @ rest)) =
     Inr (Decimal i, cursor (pre @ masked m (int_bytes (sint i))) rest)"
proof -
  let ?z = "sint i"
  have "masked m (int_bytes ?z) = (int_code ?z XOR m) # masked m (tl (int_bytes ?z))"
    by (metis int_bytes_Cons(3) list.simps(9))
  then show ?thesis
    using read_int_body_cursor [OF int_range_sint, of i m start "pre @ [int_code ?z XOR m]" rest]
      widen_back [OF int_range_sint, of i] int_code_cases(4) [OF int_range_sint, of i]
    by (simp add: read_body_with_def codes_defs)
qed

lemma read_body_cursor:
  assumes "wf_value v" and "\<not> is_array v" and "class_rank v \<noteq> 0" and "class_rank v \<noteq> 4"
    and "length pre + length (body_bytes v) < 2 ^ 64"
  shows "read_body_with arr (hd (element_bytes v)) m start (cursor pre (masked m (body_bytes v) @ rest)) =
     Inr (canon_dyn v, cursor (pre @ masked m (body_bytes v)) rest)"
proof (cases v)
  case (Vector es)
  have "length (concat (map f32_bytes es)) = 4 * length es"
    by (induction es) simp_all
  then show ?thesis
    using assms Vector vector_loop_cursor [of "pre @ masked m (u32_to_be_bytes (vector_count es))" es m "[]" rest]
      rd_take_cursor [of "u32_to_be_bytes (vector_count es)" 4 pre m]
    by (simp add: body_bytes_def read_body_with_def codes_defs unat_vector_count take_u32_def)
next
  case (Decimal i)
  then show ?thesis using decimal_body by (simp add: body_bytes_def)
next
  case (F64 f)
  then show ?thesis
    using assms rd_take_cursor [of "u64_to_be_bytes (f64_to_ordered f)" 8 pre m]
    by (simp add: body_bytes_def read_body_with_def codes_defs)
next
  case (Uuid u)
  then show ?thesis
    using assms rd_take_cursor [of u 16 pre m]
    by (simp add: body_bytes_def read_body_with_def codes_defs)
qed (use assms in \<open>simp_all add: body_bytes_def read_body_with_def codes_defs
       read_escaped_def read_escaped_loop_cursor\<close>)

lemma masked_element:
  "masked m (element_bytes v) = (hd (element_bytes v) XOR m) # masked m (body_bytes v)"
  using arg_cong [OF element_bytes_body [of v], of "masked m"] by simp

lemma length_element: "length (element_bytes v) = Suc (length (body_bytes v))"
  using arg_cong [OF element_bytes_body [of v], of length] by simp

lemma head_facts:
  "class_rank v \<noteq> 0 \<Longrightarrow> class_rank v \<noteq> 4 \<Longrightarrow>
     hd (element_bytes v) \<noteq> c_NULL \<and> \<not> is_int_code (hd (element_bytes v))"
  by (cases v) (simp_all add: codes_defs is_int_code_def word_le_def)

lemma class_rank_0: "class_rank v = 0 \<longleftrightarrow> v = Null"
  by (cases v) simp_all

lemma class_rank_4: "class_rank v = 4 \<longleftrightarrow> (\<exists>z. as_i128 v = Some z)"
  by (cases v) simp_all

lemma as_i128_element:
  "as_i128 v = Some z \<Longrightarrow> int_range z \<and> hd (element_bytes v) = int_code z \<and> body_bytes v = tl (int_bytes z)"
  by (cases v) (auto simp: body_bytes_def)

lemma canon_dyn_int:
  assumes "as_i128 v = Some z"
  shows "(case i64_try_from z of Some w \<Rightarrow> I64 w | None \<Rightarrow> U64 (of_int \<bar>z\<bar>)) = canon_dyn v"
proof (cases v)
  case (U64 u)
  then show ?thesis using assms uint_ge_0 [of u]
    by (auto simp: i64_try_from_def simp del: uint_ge_0)
qed (use assms in auto)

lemma read_dynamic_element:
  assumes "wf_value v" and "\<not> is_array v" and "length pre + length (element_bytes v) < 2 ^ 64"
  shows "read_dynamic_with arr m (cursor pre (masked m (element_bytes v) @ rest)) =
     Inr (canon_dyn v, cursor (pre @ masked m (element_bytes v)) rest)"
proof -
  consider (null) "v = Null" | (int) z where "as_i128 v = Some z"
    | (body) "class_rank v \<noteq> 0" "class_rank v \<noteq> 4"
    using class_rank_0 class_rank_4 by metis
  then show ?thesis
  proof cases
    case null
    then show ?thesis by (simp add: read_dynamic_with_def codes_defs)
  next
    case int
    note z = as_i128_element [OF int]
    have "(case i64_try_from z of None \<Rightarrow> Inr (U64 (of_int \<bar>z\<bar>), r) | Some w \<Rightarrow> Inr (I64 w, r)) =
        (Inr (canon_dyn v, r) :: Value read)" for r
      unfolding canon_dyn_int [OF int, symmetric] by (simp split: option.split)
    then show ?thesis
      using z read_int_body_cursor [of z m "length pre" "pre @ [int_code z XOR m]" rest]
        int_code_cases(4,5) [of z] widen_back [of z]
      by (simp add: read_dynamic_with_def masked_element)
  next
    case body
    then show ?thesis
      using read_body_cursor [OF assms(1,2) body, of "pre @ [hd (element_bytes v) XOR m]" arr m "length pre" rest]
        head_facts [OF body] assms(3)
      by (simp add: read_dynamic_with_def masked_element length_element)
  qed
qed

lemma head_not_nul: "hd (element_bytes v) \<noteq> c_NUL"
  and head_array: "hd (element_bytes v) = c_ARRAY \<longleftrightarrow> is_array v"
proof -
  have "int_range z \<Longrightarrow> int_code z \<noteq> c_NUL \<and> int_code z \<noteq> c_ARRAY" for z
    using int_code_bounds [of z] by (auto simp: codes_defs word_le_def)
  note int = this [OF int_range_sint] this [OF int_range_uint]
  show "hd (element_bytes v) \<noteq> c_NUL" "hd (element_bytes v) = c_ARRAY \<longleftrightarrow> is_array v"
    by (cases v; simp add: int; simp add: codes_defs)+
qed

lemma read_array_loop_cursor:
  assumes "list_all (\<lambda>e. wf_value e \<and> \<not> is_array e) es"
    and "length pre + length (concat (map element_bytes es)) < 2 ^ 64"
  shows "read_array_loop m acc (cursor pre (masked m (concat (map element_bytes es) @ [c_NUL]) @ rest)) =
     Inr (Array (acc @ map canon_dyn es),
          cursor (pre @ masked m (concat (map element_bytes es) @ [c_NUL])) rest)"
  using assms
proof (induction es arbitrary: acc pre)
  case Nil
  show ?case by (subst read_array_loop.simps) (simp add: Let_def)
next
  case (Cons e es)
  let ?tail = "masked m (concat (map element_bytes es) @ [c_NUL]) @ rest"
  let ?r = "cursor pre (masked m (element_bytes e) @ ?tail)"
  have head: "rd_byte m ?r = Inr (hd (element_bytes e), cursor (pre @ [hd (element_bytes e) XOR m]) (masked m (body_bytes e) @ ?tail))"
    by (simp add: masked_element)
  have rewind: "(cursor (pre @ [hd (element_bytes e) XOR m]) (masked m (body_bytes e) @ ?tail))\<lparr>pos := length pre\<rparr> = ?r"
    by (simp add: cursor_def masked_element)
  have elem: "read_dynamic_with no_array m ?r = Inr (canon_dyn e, cursor (pre @ masked m (element_bytes e)) ?tail)"
    using Cons.prems by (intro read_dynamic_element) simp_all
  have "read_array_loop m acc ?r = read_array_loop m (acc @ [canon_dyn e]) (cursor (pre @ masked m (element_bytes e)) ?tail)"
    using Cons.prems head_not_nul [of e] head_array [of e]
    by (subst read_array_loop.simps) (simp add: head rewind elem Let_def del: map_append)
  then show ?case
    using Cons.IH [of "pre @ masked m (element_bytes e)" "acc @ [canon_dyn e]"] Cons.prems by simp
qed

lemma read_body_flat:
  assumes "wf_value v" and "flat v" and "class_rank v \<noteq> 0" and "class_rank v \<noteq> 4"
    and "length pre + length (body_bytes v) < 2 ^ 64"
  shows "read_body (hd (element_bytes v)) m start (cursor pre (masked m (body_bytes v) @ rest)) =
     Inr (canon_dyn v, cursor (pre @ masked m (body_bytes v)) rest)"
proof (cases "is_array v")
  case False
  then show ?thesis
    unfolding read_body_def using assms by (intro read_body_cursor) simp_all
next
  case True
  then obtain es where v: "v = Array es" by (cases v) simp_all
  then show ?thesis
    using read_array_loop_cursor [of es pre m "[]" rest] assms
    by (simp add: read_body_def read_body_with_def body_bytes_def read_array_def list_all_iff codes_defs)
qed

text \<open>A value in a column of a type: null, or of that type.\<close>

definition has_type :: "ValueType \<Rightarrow> Value \<Rightarrow> bool" where
  "has_type ty v \<longleftrightarrow> v = Null \<or> value_type v = Some ty"

lemma read_int_as_canon:
  assumes "as_i128 v = Some z" and "value_type v = Some ty"
  shows "read_int_as (int_code z) m start ty (cursor pre (masked m (tl (int_bytes z)) @ rest)) =
     Inr (canon v, cursor (pre @ masked m (tl (int_bytes z))) rest)"
proof -
  have z: "int_range z" using as_i128_element [OF assms(1)] by simp
  show ?thesis
    using assms z read_int_body_cursor [OF z] widen_back [OF z]
    by (cases v) (auto simp: read_int_as_def Let_def)
qed

lemma body_found:
  "class_rank v \<noteq> 0 \<Longrightarrow> class_rank v \<noteq> 4 \<Longrightarrow> value_type v = Some ty \<Longrightarrow>
     (\<exists>found. found_name (hd (element_bytes v)) = Some found) \<and> code_matches (hd (element_bytes v)) ty"
  by (cases v) (auto simp: found_name_def codes_defs)

lemma tuple_read_element:
  assumes "wf_value v" and "flat v" and "has_type ty v"
    and "length pre + length (element_bytes v) < 2 ^ 64"
  shows "tuple_read ty d (cursor pre (dir_bytes d v @ rest)) =
     Inr (canon v, cursor (pre @ dir_bytes d v) rest)"
proof -
  consider (null) "v = Null" | (int) z where "as_i128 v = Some z"
    | (body) "class_rank v \<noteq> 0" "class_rank v \<noteq> 4"
    using class_rank_0 class_rank_4 by metis
  then show ?thesis
  proof cases
    case null
    then show ?thesis by (simp add: tuple_read_def dir_bytes_def Let_def codes_defs)
  next
    case int
    have "value_type v = Some ty" using assms(3) int by (auto simp: has_type_def)
    then show ?thesis
      using as_i128_element [OF int] int_code_cases(4,5) [of z] read_int_as_canon [OF int, of ty]
      by (simp add: tuple_read_def dir_bytes_def masked_element Let_def)
  next
    case body
    have "value_type v = Some ty" using assms(3) body class_rank_0 by (auto simp: has_type_def)
    moreover have "canon v = canon_dyn v" using body by (cases v) simp_all
    ultimately show ?thesis
      using read_body_flat [OF assms(1,2) body, of "pre @ [hd (element_bytes v) XOR dir_mask d]" "dir_mask d" "length pre" rest]
        head_facts [OF body] body_found [OF body] assms(4)
      by (auto simp: tuple_read_def masked_element length_element dir_bytes_def Let_def)
  qed
qed

section \<open>Skipping\<close>

lemma length_int_bytes [simp]: "length (int_bytes z) = Suc (byte_len (nat \<bar>z\<bar>))"
  by (simp add: int_bytes_def Let_def)

lemma advance_int:
  assumes "int_range z" and "length pre + byte_len (nat \<bar>z\<bar>) < 2 ^ 64"
  shows "advance (int_len (int_code z)) (cursor pre (masked m (tl (int_bytes z)) @ rest)) =
     Inr ((), cursor (pre @ masked m (tl (int_bytes z))) rest)"
  using assms int_code_cases(3) [of z] by (intro advance_cursor) simp_all

lemma skip_int:
  assumes "as_i128 v = Some z" and "length pre + length (element_bytes v) < 2 ^ 64"
  shows "skip_with arr m (cursor pre (masked m (element_bytes v) @ rest)) =
     Inr ((), cursor (pre @ masked m (element_bytes v)) rest)"
proof -
  note z = as_i128_element [OF assms(1)]
  have "int_code z \<noteq> c_NULL \<and> int_code z \<noteq> c_FALSE \<and> int_code z \<noteq> c_TRUE"
    using z int_code_bounds [of z] by (auto simp: codes_defs word_le_def)
  then show ?thesis
    using z int_code_cases(4) [of z] advance_int [of z "pre @ [int_code z XOR m]" m rest] assms(2)
    by (simp add: skip_with_def masked_element length_element)
qed

lemma skip_decimal:
  assumes "length pre + length (element_bytes (Decimal i)) < 2 ^ 64"
  shows "skip_with arr m (cursor pre (masked m (element_bytes (Decimal i)) @ rest)) =
     Inr ((), cursor (pre @ masked m (element_bytes (Decimal i))) rest)"
proof -
  let ?z = "sint i"
  have "masked m (int_bytes ?z) = (int_code ?z XOR m) # masked m (tl (int_bytes ?z))"
    by (metis int_bytes_Cons(3) list.simps(9))
  then show ?thesis
    using int_code_cases(4) [OF int_range_sint, of i] assms
      advance_int [OF int_range_sint, of "pre @ [c_DECIMAL XOR m, int_code ?z XOR m]" i m rest]
    by (simp add: skip_with_def codes_defs is_int_code_def word_le_def)
qed

lemma skip_vector:
  assumes "length es < 2 ^ 32" and "length pre + length (element_bytes (Vector es)) < 2 ^ 64"
  shows "skip_with arr m (cursor pre (masked m (element_bytes (Vector es)) @ rest)) =
     Inr ((), cursor (pre @ masked m (element_bytes (Vector es))) rest)"
proof -
  let ?c = "u32_to_be_bytes (vector_count es)" and ?pre = "pre @ [c_VECTOR XOR m]"
  let ?es = "masked m (concat (map f32_bytes es))"
  have len: "length (concat (map f32_bytes es)) = 4 * length es"
    by (induction es) simp_all
  have "rd_take 4 m (cursor ?pre (masked m ?c @ ?es @ rest)) =
      Inr (?c, cursor (?pre @ masked m ?c) (?es @ rest))"
    using assms by (intro rd_take_cursor) (simp_all add: unat_vector_count)
  moreover have "advance (length es * 4) (cursor (?pre @ masked m ?c) (?es @ rest)) =
      Inr ((), cursor ((?pre @ masked m ?c) @ ?es) rest)"
    using assms len by (intro advance_cursor) (simp_all add: unat_vector_count)
  ultimately show ?thesis
    using assms
    by (simp add: skip_with_def take_u32_def unat_vector_count codes_defs is_int_code_def word_le_def)
qed

lemma skip_element:
  assumes "wf_value v" and "\<not> is_array v" and "length pre + length (element_bytes v) < 2 ^ 64"
  shows "skip_with arr m (cursor pre (masked m (element_bytes v) @ rest)) =
     Inr ((), cursor (pre @ masked m (element_bytes v)) rest)"
proof -
  consider (int) z where "as_i128 v = Some z" | (dec) i where "v = Decimal i"
    | (vec) es where "v = Vector es" | (rest) "class_rank v \<in> {0, 1, 2, 3, 6, 7}"
    using assms(2) by (cases v) auto
  then show ?thesis
  proof cases
    case rest
    then show ?thesis
      using assms advance_cursor [of "masked m (body_bytes v)" _ "pre @ [hd (element_bytes v) XOR m]"]
        skip_escaped_cursor [of m "pre @ [hd (element_bytes v) XOR m]"]
      by (cases v) (auto simp: skip_with_def body_bytes_def codes_defs is_int_code_def word_le_def)
  qed (use assms skip_int skip_decimal skip_vector in auto)
qed

lemma skip_array_cursor:
  assumes "list_all (\<lambda>e. wf_value e \<and> \<not> is_array e) es"
    and "length pre + length (concat (map element_bytes es)) < 2 ^ 64"
  shows "skip_array m (cursor pre (masked m (concat (map element_bytes es) @ [c_NUL]) @ rest)) =
     Inr ((), cursor (pre @ masked m (concat (map element_bytes es) @ [c_NUL])) rest)"
  using assms
proof (induction es arbitrary: pre)
  case Nil
  show ?case by (subst skip_array.simps) (simp add: Let_def)
next
  case (Cons e es)
  let ?tail = "masked m (concat (map element_bytes es) @ [c_NUL]) @ rest"
  let ?r = "cursor pre (masked m (element_bytes e) @ ?tail)"
  have head: "rd_byte m ?r = Inr (hd (element_bytes e), cursor (pre @ [hd (element_bytes e) XOR m]) (masked m (body_bytes e) @ ?tail))"
    by (simp add: masked_element)
  have rewind: "(cursor (pre @ [hd (element_bytes e) XOR m]) (masked m (body_bytes e) @ ?tail))\<lparr>pos := length pre\<rparr> = ?r"
    by (simp add: cursor_def masked_element)
  have elem: "skip_with skip_no_array m ?r = Inr ((), cursor (pre @ masked m (element_bytes e)) ?tail)"
    using Cons.prems by (intro skip_element) simp_all
  have "skip_array m ?r = skip_array m (cursor (pre @ masked m (element_bytes e)) ?tail)"
    using Cons.prems head_not_nul [of e] head_array [of e]
    by (subst skip_array.simps) (simp add: head rewind elem Let_def del: map_append)
  then show ?case
    using Cons.IH [of "pre @ masked m (element_bytes e)"] Cons.prems by simp
qed

lemma skip_flat:
  assumes "wf_value v" and "flat v" and "length pre + length (element_bytes v) < 2 ^ 64"
  shows "skip d (cursor pre (dir_bytes d v @ rest)) = Inr ((), cursor (pre @ dir_bytes d v) rest)"
proof (cases "is_array v")
  case False
  then show ?thesis
    unfolding skip_def dir_bytes_def using assms by (intro skip_element) simp_all
next
  case True
  then obtain es where v: "v = Array es" by (cases v) simp_all
  then show ?thesis
    using skip_array_cursor [of es "pre @ [c_ARRAY XOR dir_mask d]" "dir_mask d" rest] assms
    by (simp add: skip_def skip_with_def dir_bytes_def list_all_iff codes_defs is_int_code_def word_le_def)
qed

section \<open>Skipping any buffer\<close>

text \<open>Whatever bytes the reader accepts, skipping them moves the cursor to the same place. Rust
  bounds the length of a slice, so that the position never wraps.\<close>

definition within :: "TupleReader \<Rightarrow> bool" where
  "within r \<longleftrightarrow> pos r \<le> length (buf r) \<and> length (buf r) < 2 ^ 64"

lemma rd_byte_within: "rd_byte m r = Inr (b, r') \<Longrightarrow> length (buf r) < 2 ^ 64 \<Longrightarrow> within r'"
  by (auto simp: within_def dest: rd_byte_advances)

lemma skip_reads_escaped: "read_escaped_loop m out r = Inr (bs, r') \<Longrightarrow> skip_escaped m r = Inr ((), r')"
proof (induction "length (buf r) - pos r" arbitrary: out r rule: less_induct)
  case less
  obtain b r1 where b: "rd_byte m r = Inr (b, r1)"
    using less.prems by (subst (asm) read_escaped_loop.simps) (auto simp: rbind_eq_Inr)
  note adv = rd_byte_advances [OF b]
  show ?case
  proof (cases "b = c_NUL")
    case False
    then have "read_escaped_loop m (out @ [b]) r1 = Inr (bs, r')"
      using less.prems b by (subst (asm) read_escaped_loop.simps) simp
    then have "skip_escaped m r1 = Inr ((), r')" using less.hyps [of r1] adv by auto
    then show ?thesis using b False by (subst skip_escaped.simps) simp
  next
    case True
    obtain e r2 where e: "rd_byte m r1 = Inr (e, r2)"
      using less.prems b True by (subst (asm) read_escaped_loop.simps) (auto simp: rbind_eq_Inr Let_def)
    note adv2 = rd_byte_advances [OF e]
    have "e = c_NUL \<and> r2 = r' \<or> e \<noteq> c_NUL \<and> e = c_ESCAPE \<and> read_escaped_loop m (out @ [c_NUL]) r2 = Inr (bs, r')"
      using less.prems b True e
      by (subst (asm) read_escaped_loop.simps) (auto simp: Let_def split: if_splits)
    moreover have "skip_escaped m r2 = Inr ((), r')" if "read_escaped_loop m (out @ [c_NUL]) r2 = Inr (bs, r')"
      using less.hyps [OF _ that] adv adv2 by auto
    ultimately show ?thesis using b True e by (subst skip_escaped.simps) (auto simp: Let_def)
  qed
qed

lemma advance_add:
  "within r \<Longrightarrow> pos r + n \<le> length (buf r) \<Longrightarrow> advance n r = Inr ((), r\<lparr>pos := pos r + n\<rparr>)"
  by (simp add: advance_def within_def)

lemma int_body_loop_pos:
  "int_body_loop n neg m a r = Inr (w, r') \<Longrightarrow>
     r' = r\<lparr>pos := pos r + n\<rparr> \<and> (0 < n \<longrightarrow> pos r + n \<le> length (buf r))"
proof (induction n arbitrary: a r)
  case (Suc n)
  then obtain b r1 where b: "rd_byte m r = Inr (b, r1)"
    and r1: "int_body_loop n neg m (push_bit 8 a OR ucast (if neg then NOT b else b)) r1 = Inr (w, r')"
    by (auto simp: rbind_eq_Inr Let_def)
  from b have "r1 = r\<lparr>pos := Suc (pos r)\<rparr>" "pos r < length (buf r)"
    by (auto simp: rd_byte_def split: if_splits)
  with Suc.IH [OF r1] show ?case by (cases n) auto
qed simp

lemma skip_reads_int:
  assumes "read_int_body code m start r = Inr (x, r')" and "within r"
  shows "advance (int_len code) r = Inr ((), r')"
proof -
  have "r' = r\<lparr>pos := pos r + int_len code\<rparr> \<and> pos r + int_len code \<le> length (buf r)"
  proof (cases "code = c_INT_ZERO")
    case True
    then show ?thesis using assms by (simp add: read_int_body_def int_len_def within_def)
  next
    case False
    then obtain neg w where "int_body_loop (int_len code) neg m 0 r = Inr (w, r')"
      using assms(1) by (auto simp: read_int_body_def int_len_def rbind_eq_Inr split: if_splits)
    from int_body_loop_pos [OF this] show ?thesis
      using assms(2) by (cases "int_len code") (auto simp: within_def)
  qed
  with assms(2) show ?thesis by (simp add: advance_add)
qed

lemma rd_take_pos:
  "rd_take n m r = Inr (bs, r') \<Longrightarrow> r' = r\<lparr>pos := pos r + n\<rparr> \<and> pos r + n \<le> length (buf r)"
  by (auto simp: rd_take_def Let_def split: if_splits)

lemma skip_reads_take: "rd_take n m r = Inr (bs, r') \<Longrightarrow> advance n r = Inr ((), r')"
  by (auto simp: rd_take_def advance_def Let_def split: if_splits)

lemma vector_loop_pos:
  "vector_loop n m acc r = Inr (es, r') \<Longrightarrow>
     r' = r\<lparr>pos := pos r + n * 4\<rparr> \<and> (0 < n \<longrightarrow> pos r + n * 4 \<le> length (buf r))"
proof (induction n arbitrary: acc r)
  case (Suc n)
  then obtain raw r1 where raw: "rd_take 4 m r = Inr (raw, r1)"
    and r1: "vector_loop n m (acc @ [ordered_to_f32 (u32_from_be_bytes raw)]) r1 = Inr (es, r')"
    by (auto simp: rbind_eq_Inr)
  from rd_take_pos [OF raw] Suc.IH [OF r1] show ?case by (cases n) auto
qed simp

lemma skip_reads_vector:
  assumes "vector_loop n m acc r = Inr (es, r')" and "within r"
  shows "advance (n * 4) r = Inr ((), r')"
  using vector_loop_pos [OF assms(1)] assms(2) by (cases n) (auto simp: advance_add within_def)

lemma take_u32_within: "take_u32 m r = Inr (w, r') \<Longrightarrow> within r \<Longrightarrow> within r'"
  by (auto simp: take_u32_def rbind_eq_Inr within_def dest!: rd_take_pos)

text \<open>\<open>agree read skip\<close>: where the one returns a cursor, so does the other.\<close>

definition skips_like :: "(u8 \<Rightarrow> TupleReader \<Rightarrow> Value read) \<Rightarrow> (u8 \<Rightarrow> TupleReader \<Rightarrow> unit read) \<Rightarrow> bool" where
  "skips_like rd sk \<longleftrightarrow> (\<forall>m r v r'. within r \<longrightarrow> rd m r = Inr (v, r') \<longrightarrow> sk m r = Inr ((), r'))"

lemma skip_reads_body:
  assumes "skips_like arr sarr" and "read_body_with arr code m start r1 = Inr (v, r')"
    and "rd_byte m r = Inr (code, r1)" and "within r1" and "code \<noteq> c_NULL" and "\<not> is_int_code code"
  shows "skip_with sarr m r = Inr ((), r')"
proof -
  consider "code = c_FALSE \<or> code = c_TRUE" | "code = c_BYTES \<or> code = c_STR" | "code = c_DECIMAL"
    | "code = c_F64" | "code = c_UUID" | "code = c_VECTOR" | "code = c_ARRAY"
    using assms(2) by (auto simp: read_body_with_def split: if_splits)
  then show ?thesis
  proof cases
    case 2
    then obtain raw where "read_escaped_loop m [] r1 = Inr (raw, r')"
      using assms(2) by (auto simp: read_body_with_def read_escaped_def rbind_eq_Inr codes_defs split: if_splits)
    then show ?thesis using 2 assms(3,5,6) skip_reads_escaped
      by (auto simp: skip_with_def codes_defs)
  next
    case 3
    then obtain c r2 x where "rd_byte m r1 = Inr (c, r2)" "is_int_code c" "read_int_body c m start r2 = Inr (x, r')"
      using assms(2) by (fastforce simp: read_body_with_def rbind_eq_Inr codes_defs split: if_splits option.splits)
    moreover have "within r2" using calculation(1) assms(4) by (auto simp: within_def dest: rd_byte_advances)
    ultimately show ?thesis using 3 assms(3,5,6) skip_reads_int
      by (auto simp: skip_with_def codes_defs)
  next
    case 6
    then obtain w r2 es where "take_u32 m r1 = Inr (w, r2)" "vector_loop (unat w) m [] r2 = Inr (es, r')"
      using assms(2) by (auto simp: read_body_with_def rbind_eq_Inr codes_defs split: if_splits)
    then show ?thesis using 6 assms(3-6) skip_reads_vector take_u32_within
      by (auto simp: skip_with_def codes_defs)
  qed (use assms skip_reads_take in
    \<open>auto simp: read_body_with_def skip_with_def rbind_eq_Inr codes_defs skips_like_def split: if_splits\<close>)
qed

lemma skip_with_int:
  assumes "rd_byte m r = Inr (code, r1)" and "is_int_code code"
  shows "skip_with sarr m r = advance (int_len code) r1"
proof -
  have "code \<noteq> c_NULL \<and> code \<noteq> c_FALSE \<and> code \<noteq> c_TRUE"
    using assms(2) by (auto simp: is_int_code_def codes_defs word_le_def)
  with assms show ?thesis by (simp add: skip_with_def)
qed

lemma skip_reads_dynamic:
  assumes "skips_like arr sarr"
  shows "skips_like (read_dynamic_with arr) (skip_with sarr)"
  unfolding skips_like_def
proof (intro allI impI)
  fix m r v r'
  assume r: "within r" and rd: "read_dynamic_with arr m r = Inr (v, r')"
  obtain code r1 where code: "rd_byte m r = Inr (code, r1)"
    using rd by (auto simp: read_dynamic_with_def rbind_eq_Inr Let_def)
  have r1: "within r1" using code r by (auto simp: within_def dest: rd_byte_advances)
  consider "code = c_NULL" "r1 = r'" | "code \<noteq> c_NULL" "is_int_code code" | "code \<noteq> c_NULL" "\<not> is_int_code code"
    using rd code by (auto simp: read_dynamic_with_def Let_def split: if_splits)
  then show "skip_with sarr m r = Inr ((), r')"
  proof cases
    case 2
    then obtain x where "read_int_body code m (pos r) r1 = Inr (x, r')"
      using rd code by (auto simp: read_dynamic_with_def rbind_eq_Inr split: option.splits)
    then show ?thesis
      using skip_with_int [OF code 2(2)] skip_reads_int r1 by simp
  next
    case 3
    then show ?thesis using assms rd code r1 by (auto simp: read_dynamic_with_def intro: skip_reads_body)
  qed (use code in \<open>simp add: skip_with_def\<close>)
qed

lemma advance_within: "advance n r = Inr ((), r') \<Longrightarrow> within r \<Longrightarrow> within r'"
  by (auto simp: advance_def within_def Let_def split: if_splits)

lemma rd_byte_keeps_within: "rd_byte m r = Inr (b, r') \<Longrightarrow> within r \<Longrightarrow> within r'"
  by (auto simp: within_def dest: rd_byte_advances)

lemma skip_escaped_within: "skip_escaped m r = Inr ((), r') \<Longrightarrow> within r \<Longrightarrow> within r'"
proof (induction "length (buf r) - pos r" arbitrary: r rule: less_induct)
  case less
  from less.prems show ?case
    by (subst (asm) skip_escaped.simps)
      (fastforce simp: rbind_eq_Inr Let_def split: if_splits
        dest: less.hyps [rotated] rd_byte_keeps_within rd_byte_advances)
qed

lemma skip_no_array_within:
  "skip_with skip_no_array m r = Inr ((), r') \<Longrightarrow> within r \<Longrightarrow> within r'"
  by (auto simp: skip_with_def skip_no_array_def rbind_eq_Inr Let_def split: if_splits
      dest!: rd_byte_keeps_within advance_within skip_escaped_within take_u32_within)

lemma skip_reads_array:
  "within r \<Longrightarrow> read_array_loop m acc r = Inr (v, r') \<Longrightarrow> skip_array m r = Inr ((), r')"
proof (induction "length (buf r) - pos r" arbitrary: acc r rule: less_induct)
  case less
  have no: "skips_like no_array skip_no_array" by (simp add: skips_like_def no_array_def)
  obtain code r1 where code: "rd_byte m r = Inr (code, r1)"
    using less.prems by (subst (asm) read_array_loop.simps) (auto simp: rbind_eq_Inr Let_def)
  have rewind: "r1\<lparr>pos := pos r\<rparr> = r" using code by (auto simp: rd_byte_def split: if_splits)
  consider "code = c_NUL" "r1 = r'" | e r2 where "code \<noteq> c_NUL" "code \<noteq> c_ARRAY"
      "read_dynamic_with no_array m r = Inr (e, r2)" "read_array_loop m (acc @ [e]) r2 = Inr (v, r')"
    using less.prems code
    by (subst (asm) (2) read_array_loop.simps) (auto simp: rbind_eq_Inr Let_def rewind split: if_splits)
  then show ?case
  proof cases
    case 1
    then show ?thesis using code by (subst skip_array.simps) simp
  next
    case 2
    have sk: "skip_with skip_no_array m r = Inr ((), r2)"
      using skip_reads_dynamic [OF no] less.prems(1) 2(3) by (auto simp: skips_like_def)
    have "buf r2 = buf r" "pos r < pos r2" "pos r < length (buf r)"
      using read_dynamic_with_advances [OF no_array_moved 2(3)] by auto
    moreover have "within r2" using skip_no_array_within [OF sk less.prems(1)] .
    ultimately have "skip_array m r2 = Inr ((), r')" using less.hyps [OF _ _ 2(4)] by auto
    then show ?thesis using code 2(1,2) sk rewind by (subst skip_array.simps) (simp add: Let_def)
  qed
qed


lemma skip_reads_elements: "skips_like read_dynamic_masked (skip_with skip_array)"
  unfolding read_dynamic_masked_def
  by (rule skip_reads_dynamic) (auto simp: skips_like_def read_array_def intro: skip_reads_array)

lemma skip_reads_typed:
  assumes "within r" and "tuple_read ty d r = Inr (v, r')"
  shows "skip d r = Inr ((), r')"
proof -
  let ?m = "dir_mask d"
  obtain code r1 where code: "rd_byte ?m r = Inr (code, r1)"
    using assms(2) by (auto simp: tuple_read_def rbind_eq_Inr Let_def)
  have r1: "within r1" using rd_byte_keeps_within [OF code assms(1)] .
  consider "code = c_NULL" "r1 = r'" | "code \<noteq> c_NULL" "is_int_code code" "read_int_as code ?m (pos r) ty r1 = Inr (v, r')"
    | "code \<noteq> c_NULL" "\<not> is_int_code code" "read_body code ?m (pos r) r1 = Inr (v, r')"
    using assms(2) code by (auto simp: tuple_read_def Let_def split: if_splits option.splits)
  then show ?thesis
  proof cases
    case 2
    then obtain x where "read_int_body code ?m (pos r) r1 = Inr (x, r')"
      by (cases ty) (auto simp: read_int_as_def rbind_eq_Inr Let_def split: option.splits)
    then show ?thesis
      using skip_with_int [OF code 2(2)] skip_reads_int r1 by (simp add: skip_def)
  next
    case 3
    have "skips_like read_array skip_array"
      by (auto simp: skips_like_def read_array_def intro: skip_reads_array)
    then show ?thesis
      using 3 code r1 unfolding skip_def read_body_def by (blast intro: skip_reads_body)
  qed (use code in \<open>simp add: skip_def skip_with_def\<close>)
qed

lemma skip_with_within:
  assumes "skip_with sarr m r = Inr ((), r')" and "within r"
    and "\<And>m r r'. sarr m r = Inr ((), r') \<Longrightarrow> within r \<Longrightarrow> within r'"
  shows "within r'"
  using assms(1,2)
  by (auto simp: skip_with_def rbind_eq_Inr Let_def split: if_splits
      dest!: rd_byte_keeps_within advance_within skip_escaped_within take_u32_within intro: assms(3))

lemma skip_array_within: "skip_array m r = Inr ((), r') \<Longrightarrow> within r \<Longrightarrow> within r'"
proof (induction "length (buf r) - pos r" arbitrary: r rule: less_induct)
  case less
  from less.prems obtain inner r1 where b: "rd_byte m r = Inr (inner, r1)"
    by (subst (asm) skip_array.simps) (auto simp: rbind_eq_Inr Let_def)
  have rewind: "r1\<lparr>pos := pos r\<rparr> = r" using b by (auto simp: rd_byte_def split: if_splits)
  show ?case
  proof (cases "inner = c_NUL")
    case True
    then show ?thesis
      using less.prems b rd_byte_keeps_within [OF b] by (subst (asm) skip_array.simps) (simp add: Let_def)
  next
    case False
    then obtain r2 where r2: "skip_with skip_no_array m r = Inr ((), r2)" "skip_array m r2 = Inr ((), r')"
      using less.prems b
      by (subst (asm) skip_array.simps) (auto simp: rbind_eq_Inr Let_def rewind split: if_splits)
    have "length (buf r2) - pos r2 < length (buf r) - pos r"
      using skip_with_advances [OF skip_no_array_moved r2(1)] by auto
    then show ?thesis
      using less.hyps [OF _ r2(2)] skip_no_array_within [OF r2(1) less.prems(2)] by blast
  qed
qed

lemma skip_within: "skip d r = Inr ((), r') \<Longrightarrow> within r \<Longrightarrow> within r'"
  unfolding skip_def by (rule skip_with_within) (auto intro: skip_array_within)

section \<open>Whole tuples\<close>

definition fits :: "ValueType \<Rightarrow> Value \<Rightarrow> bool" where
  "fits ty v \<longleftrightarrow> wf_value v \<and> flat v \<and> has_type ty v"

lemma decode_prefix_loop_cursor:
  assumes "list_all2 fits tys vs" and "length pre + length (tuple_bytes (drop n ds) vs) < 2 ^ 64"
  shows "decode_prefix_loop out (enumerate n tys) ds (cursor pre (tuple_bytes (drop n ds) vs @ rest)) =
     Inr (out @ map canon vs, cursor (pre @ tuple_bytes (drop n ds) vs) rest)"
  using assms
proof (induction tys vs arbitrary: n out pre rule: list_all2_induct)
  case (Cons ty tys v vs)
  let ?d = "direction_at ds n"
  have d: "direction_at (drop n ds) 0 = ?d" "tl (drop n ds) = drop (Suc n) ds"
    by (simp_all add: direction_at_def drop_Suc drop_tl)
  have "tuple_read ty ?d (cursor pre (dir_bytes ?d v @ tuple_bytes (drop (Suc n) ds) vs @ rest)) =
      Inr (canon v, cursor (pre @ dir_bytes ?d v) (tuple_bytes (drop (Suc n) ds) vs @ rest))"
    using Cons.hyps(1) Cons.prems d
    by (intro tuple_read_element) (simp_all add: fits_def dir_bytes_def)
  then show ?case
    using Cons.IH [of "pre @ dir_bytes ?d v" "Suc n" "out @ [canon v]"] Cons.prems d by simp
qed simp

lemma decode_prefix_with_bytes:
  assumes "list_all2 fits tys vs" and "length (encode_with vs ds) < 2 ^ 64"
  shows "decode_prefix_with (encode_with vs ds @ rest) tys ds = Inr (map canon vs, rest)"
  using assms decode_prefix_loop_cursor [of tys vs "[]" 0 ds "[]" rest]
  by (simp add: decode_prefix_with_def encode_with_bytes new_cursor)

text \<open>The value read back is the value written, as far as the value order can tell.\<close>

lemma f64_ordered_canon: "f64_to_ordered (canon_f64 f) = f64_to_ordered f"
  by (simp add: canon_f64_def f64_to_ordered_def F64_NAN_def f64_is_nan_def)

lemma f32_ordered_canon: "f32_to_ordered (canon_f32 f) = f32_to_ordered f"
  by (simp add: canon_f32_def f32_to_ordered_def F32_NAN_def f32_is_nan_def)

lemma element_bytes_canon_dyn: "element_bytes (canon_dyn v) = element_bytes v"
proof (induction v)
  case (U64 u)
  have "sint u = uint u" if "uint u < 2 ^ 63"
    using that by (simp add: sint_uint signed_take_bit_int_eq_self order_trans [of _ 0])
  then show ?case by simp
next
  case (Vector es)
  then show ?case
    by (simp add: f32_bytes_def [abs_def] f32_ordered_canon vector_count_def take_map comp_def)
next
  case (Array es)
  then show ?case by (simp add: comp_def cong: map_cong)
qed (simp_all add: f64_ordered_canon)


lemma wf_canon_dyn: "wf_value v \<Longrightarrow> wf_value (canon_dyn v)"
  by (induction v) (auto simp: list_all_iff)

lemma canon_cases: "canon v = canon_dyn v \<or> canon v = v"
  by (cases v) simp_all

lemma canon_equal: "wf_value v \<Longrightarrow> element_bytes (canon v) = element_bytes v \<and> value_eq (canon v) v"
  using canon_cases [of v] wf_canon_dyn [of v] element_bytes_canon_dyn [of v] asc.cmp_refl [of v]
    asc.enc_eq_iff [of "canon_dyn v" v]
  by (auto simp: value_eq_def)

lemma tuple_bytes_canon: "list_all wf_value vs \<Longrightarrow> tuple_bytes ds (map canon vs) = tuple_bytes ds vs"
  by (induction vs arbitrary: ds) (simp_all add: dir_bytes_def canon_equal)

section \<open>The properties of the reader\<close>

text \<open>C23. A tuple read back with its column types and directions: every value is the one written up
  to the value order (an unsigned integer inside an array becomes signed when it fits, every NaN
  the canonical one), whatever bytes follow are returned unread, and writing the result again
  gives the same bytes.\<close>

theorem decode_encode:
  assumes "list_all2 fits tys vs" and "length (encode_with vs ds) < 2 ^ 64"
  shows "decode_prefix_with (encode_with vs ds @ rest) tys ds = Inr (map canon vs, rest) \<and>
    list_all2 value_eq (map canon vs) vs \<and> encode_with (map canon vs) ds = encode_with vs ds"
proof -
  have wf: "list_all wf_value vs"
    using assms(1) by (auto simp: list_all2_conv_all_nth list_all_length fits_def)
  then have "list_all2 value_eq (map canon vs) vs"
    by (simp add: list_all2_map1 list_all2_same canon_equal list_all_iff)
  with assms wf show ?thesis
    by (simp add: decode_prefix_with_bytes) (simp add: encode_with_bytes tuple_bytes_canon)
qed

theorem decode_encode_witness:
  "decode_prefix_with (encode_with [I64 (- 2), Str [0x61, 0], Array [U64 1, Null]] [Desc] @ [0xFF])
     [TI64, TStr, TArray] [Desc] =
   Inr ([I64 (- 2), Str [0x61, 0], Array [I64 1, Null]], [0xFF])"
proof -
  have "length (encode_with [I64 (- 2), Str [0x61, 0], Array [U64 1, Null]] [Desc]) < 2 ^ 64"
    by (simp add: encode_with_bytes dir_bytes_def esc_bytes_def esc_byte_def codes_defs byte_len_def
        bit_length.simps)
  then show ?thesis
    using decode_encode [of "[TI64, TStr, TArray]" "[I64 (- 2), Str [0x61, 0], Array [U64 1, Null]]" "[Desc]" "[0xFF]"]
    by (simp add: fits_def has_type_def from_utf8_def utf8_decode.simps)
qed

text \<open>Skipping an element agrees with reading it on every buffer, written by this encoder or
  not: where the reader accepts an element, the skip succeeds and stops at the same place.\<close>

theorem skip_agrees_with_read:
  assumes "pos r \<le> length (buf r)" and "length (buf r) < 2 ^ 64"
    and "tuple_read ty d r = Inr (v, r')"
  shows "skip d r = Inr ((), r')"
  using assms by (intro skip_reads_typed) (simp add: within_def)

theorem skip_agrees_with_read_witness:
  "skip Asc \<lparr>buf = [0x1E, 0x16, 0x05, 0x01], pos = 0\<rparr> = Inr ((), \<lparr>buf = [0x1E, 0x16, 0x05, 0x01], pos = 3\<rparr>)"
proof -
  have "tuple_read TDecimal Asc \<lparr>buf = [0x1E, 0x16, 0x05, 0x01], pos = 0\<rparr> =
      Inr (Decimal 5, \<lparr>buf = [0x1E, 0x16, 0x05, 0x01], pos = 3\<rparr>)"
    by code_simp
  then show ?thesis
    using skip_agrees_with_read [of "\<lparr>buf = [0x1E, 0x16, 0x05, 0x01], pos = 0\<rparr>"] by simp
qed

end
