(* ===== verification/Key_Range.thy ===== *)
theory Key_Range
  imports Prelude
begin

text \<open>
  Regions of the key space: the range of a prefix and the successor of a key
  (\<open>crates/slate-tuple/src/range.rs\<close>), and the key ranges of the store abstraction
  (\<open>crates/slate-kernel/src/store.rs\<close>) with their intersection, membership and emptiness test.
\<close>

section \<open>Bounds\<close>

datatype 'a Bound = Included 'a | Excluded 'a | Unbounded

fun rposition :: "('a \<Rightarrow> bool) \<Rightarrow> 'a list \<Rightarrow> nat option" where
  "rposition P [] = None"
| "rposition P (x # xs) =
     (case rposition P xs of
        Some i \<Rightarrow> Some (Suc i)
      | None \<Rightarrow> if P x then Some 0 else None)"

definition prefix_successor :: "bytes \<Rightarrow> bytes option" where
  "prefix_successor p =
     (case rposition (\<lambda>b. b \<noteq> 0xFF) p of
        None \<Rightarrow> None
      | Some last_incrementable \<Rightarrow>
          let out = take (Suc last_incrementable) p
          in Some (if out = [] then out else butlast out @ [last out + 1]))"

definition prefix_range :: "bytes \<Rightarrow> bytes Bound \<times> bytes Bound" where
  "prefix_range p =
     (case prefix_successor p of
        Some e \<Rightarrow> (Included p, Excluded e)
      | None \<Rightarrow> (Included p, Unbounded))"

definition key_successor :: "bytes \<Rightarrow> bytes" where
  "key_successor key = key @ [0x00]"

section \<open>Key ranges\<close>

record KeyRange =
  range_start :: "bytes Bound"
  range_end :: "bytes Bound"

definition KeyRange_all :: KeyRange where
  "KeyRange_all = \<lparr>range_start = Unbounded, range_end = Unbounded\<rparr>"

definition KeyRange_new :: "bytes Bound \<Rightarrow> bytes Bound \<Rightarrow> KeyRange" where
  "KeyRange_new s e = \<lparr>range_start = s, range_end = e\<rparr>"

definition KeyRange_prefix :: "bytes \<Rightarrow> KeyRange" where
  "KeyRange_prefix p = (let (s, e) = prefix_range p in \<lparr>range_start = s, range_end = e\<rparr>)"

fun max_start :: "bytes Bound \<Rightarrow> bytes Bound \<Rightarrow> bytes Bound" where
  "max_start Unbounded b = b"
| "max_start a Unbounded = a"
| "max_start (Included x) (Included y) =
     (if y < x then Included x else if x < y then Included y else Included y)"
| "max_start (Included x) (Excluded y) =
     (if y < x then Included x else if x < y then Excluded y else Excluded y)"
| "max_start (Excluded x) (Included y) =
     (if y < x then Excluded x else if x < y then Included y else Excluded x)"
| "max_start (Excluded x) (Excluded y) =
     (if y < x then Excluded x else if x < y then Excluded y else Excluded x)"

fun min_end :: "bytes Bound \<Rightarrow> bytes Bound \<Rightarrow> bytes Bound" where
  "min_end Unbounded b = b"
| "min_end a Unbounded = a"
| "min_end (Included x) (Included y) =
     (if x < y then Included x else if y < x then Included y else Included y)"
| "min_end (Included x) (Excluded y) =
     (if x < y then Included x else if y < x then Excluded y else Excluded y)"
| "min_end (Excluded x) (Included y) =
     (if x < y then Excluded x else if y < x then Included y else Excluded x)"
| "min_end (Excluded x) (Excluded y) =
     (if x < y then Excluded x else if y < x then Excluded y else Excluded x)"

definition intersect :: "KeyRange \<Rightarrow> KeyRange \<Rightarrow> KeyRange" where
  "intersect a b =
     \<lparr>range_start = max_start (range_start a) (range_start b),
      range_end = min_end (range_end a) (range_end b)\<rparr>"

fun above_start :: "bytes Bound \<Rightarrow> bytes \<Rightarrow> bool" where
  "above_start Unbounded key \<longleftrightarrow> True"
| "above_start (Included s) key \<longleftrightarrow> s \<le> key"
| "above_start (Excluded s) key \<longleftrightarrow> s < key"

fun below_end :: "bytes Bound \<Rightarrow> bytes \<Rightarrow> bool" where
  "below_end Unbounded key \<longleftrightarrow> True"
| "below_end (Included e) key \<longleftrightarrow> key \<le> e"
| "below_end (Excluded e) key \<longleftrightarrow> key < e"

definition range_contains :: "KeyRange \<Rightarrow> bytes \<Rightarrow> bool" where
  "range_contains r key \<longleftrightarrow> above_start (range_start r) key \<and> below_end (range_end r) key"

definition range_is_empty :: "KeyRange \<Rightarrow> bool" where
  "range_is_empty r \<longleftrightarrow>
     (case (range_start r, range_end r) of
        (Included s, Included e) \<Rightarrow> e < s
      | (Included s, Excluded e) \<Rightarrow> e \<le> s
      | (Excluded s, Excluded e) \<Rightarrow> e \<le> s
      | (Excluded s, Included e) \<Rightarrow> e \<le> s
      | (_, _) \<Rightarrow> False)"

section \<open>The successor of a prefix\<close>

lemma rposition_None: "rposition P xs = None \<longleftrightarrow> (\<forall>x\<in>set xs. \<not> P x)"
  by (induction xs) (auto split: option.splits)

lemma rposition_Some:
  "rposition P xs = Some i \<Longrightarrow> i < length xs \<and> P (xs ! i) \<and> (\<forall>x\<in>set (drop (Suc i) xs). \<not> P x)"
proof (induction xs arbitrary: i)
  case (Cons x xs)
  then show ?case by (auto split: option.splits if_splits simp: rposition_None)
qed simp

lemma all_max_prefix:
  assumes "\<forall>b\<in>set p. b = (0xFF :: u8)"
  shows "p \<le> k \<longleftrightarrow> prefix p k"
  using assms
proof (induction p arbitrary: k)
  case (Cons b p)
  have top: "\<not> 0xFF < (c :: u8)" for c
    using unat_u8_less [of c] by (simp add: word_less_nat_alt)
  show ?case
  proof (cases k)
    case (Cons c ks)
    then show ?thesis using Cons.prems Cons.IH [of ks] top [of c] by (auto simp: Cons_le_Cons)
  qed simp
qed simp

text \<open>A prefix splits at its last byte that can be incremented, and what follows is all \<open>0xFF\<close>.\<close>

lemma prefix_successor_Some:
  assumes "prefix_successor p = Some e"
  obtains q b t where "p = q @ b # t" and "b \<noteq> 0xFF" and "\<forall>x\<in>set t. x = 0xFF" and "e = q @ [b + 1]"
proof -
  obtain i where i: "rposition (\<lambda>b. b \<noteq> 0xFF) p = Some i"
    and e: "e = butlast (take (Suc i) p) @ [last (take (Suc i) p) + 1]"
    using assms by (auto simp: prefix_successor_def Let_def split: option.splits if_splits)
  note r = rposition_Some [OF i]
  have "take (Suc i) p = take i p @ [p ! i]" using r by (simp add: take_Suc_conv_app_nth)
  then have "e = take i p @ [p ! i + 1]" using e by simp
  moreover have "p = take i p @ p ! i # drop (Suc i) p" using r id_take_nth_drop by blast
  ultimately show thesis using that r by blast
qed

lemma u8_succ: "b \<noteq> 0xFF \<Longrightarrow> c < b + 1 \<longleftrightarrow> c \<le> (b :: u8)"
proof -
  assume "b \<noteq> 0xFF"
  then have "uint b \<noteq> 255" by (auto simp: word_uint_eq_iff)
  then have "uint (b + 1) = uint b + 1" using uint_lt2p [of b] by (simp add: uint_word_ariths)
  then show ?thesis by (simp add: word_less_def word_le_def)
qed

lemma prefix_between:
  assumes "b \<noteq> 0xFF" and "\<forall>x\<in>set t. x = (0xFF :: u8)"
  shows "q @ b # t \<le> k \<and> k < q @ [b + 1] \<longleftrightarrow> prefix (q @ b # t) k"
proof (induction q arbitrary: k)
  case Nil
  show ?case
  proof (cases k)
    case (Cons c ks)
    have "b # t \<le> c # ks \<and> c # ks < [b + 1] \<longleftrightarrow> (b < c \<or> b = c \<and> t \<le> ks) \<and> c \<le> b"
      by (simp add: u8_succ [OF assms(1)])
    also have "\<dots> \<longleftrightarrow> b = c \<and> prefix t ks"
      using all_max_prefix [OF assms(2), of ks] by auto
    finally show ?thesis unfolding Cons append_Nil Cons_prefix_Cons .
  qed simp
next
  case (Cons x q)
  show ?case
  proof (cases k)
    case k: (Cons c ks)
    show ?thesis
      unfolding k append_Cons Cons_prefix_Cons Cons.IH [symmetric] by (cases "x = c") auto
  qed simp
qed

lemma prefix_contains: "range_contains (KeyRange_prefix p) k \<longleftrightarrow> prefix p k"
proof (cases "prefix_successor p")
  case None
  then have "\<forall>b\<in>set p. b = 0xFF"
    by (auto simp: prefix_successor_def Let_def rposition_None split: option.splits)
  with None show ?thesis
    by (simp add: KeyRange_prefix_def prefix_range_def range_contains_def all_max_prefix)
next
  case (Some e)
  then obtain q b t where "p = q @ b # t" "b \<noteq> 0xFF" "\<forall>x\<in>set t. x = 0xFF" "e = q @ [b + 1]"
    by (rule prefix_successor_Some)
  with Some prefix_between [of b t q k] show ?thesis
    by (simp add: KeyRange_prefix_def prefix_range_def range_contains_def)
qed

section \<open>Intersection\<close>

lemma above_max_start: "above_start (max_start a b) k \<longleftrightarrow> above_start a k \<and> above_start b k"
  by (induction a b rule: max_start.induct) auto

lemma below_min_end: "below_end (min_end a b) k \<longleftrightarrow> below_end a k \<and> below_end b k"
  by (induction a b rule: min_end.induct) auto

lemma intersect_contains [simp]:
  "range_contains (intersect a b) k \<longleftrightarrow> range_contains a k \<and> range_contains b k"
  by (auto simp: range_contains_def intersect_def above_max_start below_min_end)

section \<open>The properties of key ranges\<close>

text \<open>The range of a prefix contains exactly the keys that start with it, also when the prefix
  ends in, or consists of, bytes \<open>0xFF\<close>.\<close>

theorem prefix_range_exact:
  "range_contains (KeyRange_prefix p) k \<longleftrightarrow> prefix p k"
  by (rule prefix_contains)

text \<open>A range narrowed by a security policy's range contains a key exactly when both contain
  it, so the intersection is never wider than the policy allows; a range reported empty contains
  no key; and the successor of a key is the least key above it.\<close>

theorem intersect_narrows:
  "range_contains (intersect a b) k = (range_contains a k \<and> range_contains b k) \<and>
   \<not> (range_is_empty a \<and> range_contains a k) \<and>
   k < key_successor k \<and> (k < j) = (key_successor k \<le> j)"
proof (intro conjI)
  show "\<not> (range_is_empty a \<and> range_contains a k)"
    by (auto simp: range_is_empty_def range_contains_def split: Bound.splits)
  show "k < key_successor k"
    using append_less_append [of k "[]" "[0]"] by (simp add: key_successor_def)
  show "(k < j) = (key_successor k \<le> j)"
    unfolding key_successor_def
  proof (induction k arbitrary: j)
    case Nil
    show ?case by (cases j) (auto simp: word_neq_0_conv)
  next
    case (Cons x k)
    then show ?case by (cases j) auto
  qed
qed simp

end
