(* ===== verification/Btree_Map.thy ===== *)
theory Btree_Map
  imports Key_Range
begin

text \<open>
  \<open>BTreeMap\<close>, as the crates use it: a finite map whose entries are visited in key order. The model
  is the list of its entries, sorted by key, with the operations the code calls. The contract the
  clients rely on is the locale \<open>ordered_map\<close>; the list implementation is an instance, and the
  lemmas on overlaying a buffer of writes on a map are proved from the contract.
\<close>

section \<open>The operations\<close>

type_synonym ('k, 'v) btree = "('k \<times> 'v) list"

fun bt_get :: "('k::linorder, 'v) btree \<Rightarrow> 'k \<Rightarrow> 'v option" where
  "bt_get [] k = None"
| "bt_get ((x, v) # m) k = (if k = x then Some v else bt_get m k)"

fun bt_insert :: "'k::linorder \<Rightarrow> 'v \<Rightarrow> ('k, 'v) btree \<Rightarrow> ('k, 'v) btree" where
  "bt_insert k v [] = [(k, v)]"
| "bt_insert k v ((x, w) # m) =
     (if k < x then (k, v) # (x, w) # m
      else if k = x then (k, v) # m
      else (x, w) # bt_insert k v m)"

fun bt_remove :: "'k::linorder \<Rightarrow> ('k, 'v) btree \<Rightarrow> ('k, 'v) btree" where
  "bt_remove k [] = []"
| "bt_remove k ((x, w) # m) = (if k = x then m else (x, w) # bt_remove k m)"

definition bt_keys :: "('k, 'v) btree \<Rightarrow> 'k list" where
  "bt_keys m = map fst m"

definition bt_range :: "(bytes, 'v) btree \<Rightarrow> KeyRange \<Rightarrow> (bytes, 'v) btree" where
  "bt_range m r = filter (\<lambda>(k, v). range_contains r k) m"

definition btree :: "('k::linorder, 'v) btree \<Rightarrow> bool" where
  "btree m \<longleftrightarrow> sorted_wrt (<) (map fst m)"

section \<open>The contract\<close>

locale ordered_map =
  fixes inv :: "'m \<Rightarrow> bool"
    and get :: "'m \<Rightarrow> 'k::linorder \<Rightarrow> 'v option"
    and ins :: "'k \<Rightarrow> 'v \<Rightarrow> 'm \<Rightarrow> 'm"
    and rem :: "'k \<Rightarrow> 'm \<Rightarrow> 'm"
    and entries :: "'m \<Rightarrow> ('k \<times> 'v) list"
  assumes get_ins: "inv m \<Longrightarrow> get (ins k v m) j = (if j = k then Some v else get m j)"
    and get_rem: "inv m \<Longrightarrow> get (rem k m) j = (if j = k then None else get m j)"
    and inv_ins: "inv m \<Longrightarrow> inv (ins k v m)"
    and inv_rem: "inv m \<Longrightarrow> inv (rem k m)"
    and entries_sorted: "inv m \<Longrightarrow> sorted_wrt (<) (map fst (entries m))"
    and entries_get: "inv m \<Longrightarrow> (k, v) \<in> set (entries m) \<longleftrightarrow> get m k = Some v"
begin

text \<open>Two maps with the same lookups have the same entries, in the same order.\<close>

lemma entries_ext:
  assumes "inv m" and "inv n" and "\<And>k. get m k = get n k"
  shows "entries m = entries n"
proof -
  have distinct: "distinct (map fst (entries x))" if "inv x" for x
    using entries_sorted [OF that] by (simp add: strict_sorted_iff)
  have "set (entries m) = set (entries n)"
    using assms entries_get by auto
  then have "set (map fst (entries m)) = set (map fst (entries n))" by simp
  then have keys: "map fst (entries m) = map fst (entries n)"
    using entries_sorted assms(1,2) by (intro strict_sorted_equal) auto
  moreover have "map snd (entries m) = map snd (entries n)"
  proof (rule nth_equalityI)
    show len: "length (map snd (entries m)) = length (map snd (entries n))"
      using arg_cong [OF keys, of length] by simp
    fix i assume i: "i < length (map snd (entries m))"
    have "get m (fst (entries m ! i)) = Some (snd (entries m ! i))"
      "get n (fst (entries n ! i)) = Some (snd (entries n ! i))"
      using i len assms(1,2) entries_get by (metis length_map nth_mem prod.collapse)+
    moreover have "fst (entries m ! i) = fst (entries n ! i)"
      using keys i len by (metis length_map nth_map)
    ultimately show "map snd (entries m) ! i = map snd (entries n) ! i"
      using assms(3) i len by simp
  qed
  ultimately show ?thesis by (metis zip_map_fst_snd)
qed

text \<open>Replaying a buffer of writes, each a put or a delete: the last write of a key decides.\<close>

lemma get_fold_writes:
  assumes "inv m"
  shows "inv (fold (\<lambda>(k, w) m. case w of Some v \<Rightarrow> ins k v m | None \<Rightarrow> rem k m) ws m) \<and>
     get (fold (\<lambda>(k, w) m. case w of Some v \<Rightarrow> ins k v m | None \<Rightarrow> rem k m) ws m) j =
       (case map_of (rev ws) j of None \<Rightarrow> get m j | Some w \<Rightarrow> w)"
  using assms
proof (induction ws arbitrary: m)
  case (Cons kw ws)
  obtain k w where kw: "kw = (k, w)" by (cases kw)
  let ?m = "case w of Some v \<Rightarrow> ins k v m | None \<Rightarrow> rem k m"
  have "inv ?m" "get ?m j = (if j = k then w else get m j)"
    using Cons.prems by (auto simp: get_ins get_rem inv_ins inv_rem split: option.split)
  then show ?case
    using Cons.IH [of ?m] kw by (cases "map_of (rev ws) j") (auto simp: map_add_def)
qed simp

end

section \<open>The sorted list is an ordered map\<close>

lemma btree_Cons [btree_simps, simp]:
  "btree []"
  "btree ((k, v) # m) \<longleftrightarrow> (\<forall>x\<in>set m. k < fst x) \<and> btree m"
  by (auto simp: btree_def)

lemma bt_get_None_less: "\<forall>x\<in>set m. k < fst x \<Longrightarrow> bt_get m k = None"
  by (induction m) auto

lemma bt_get_insert [btree_simps]: "bt_get (bt_insert k v m) j = (if j = k then Some v else bt_get m j)"
  by (induction k v m rule: bt_insert.induct) auto

lemma set_bt_insert: "set (bt_insert k v m) \<subseteq> insert (k, v) (set m)"
  by (induction k v m rule: bt_insert.induct) auto

lemma btree_insert [btree_simps]: "btree m \<Longrightarrow> btree (bt_insert k v m)"
proof (induction k v m rule: bt_insert.induct)
  case (2 k v x w m)
  then show ?case using set_bt_insert [of k v m] by fastforce
qed simp

lemma set_bt_remove: "set (bt_remove k m) \<subseteq> set m"
  by (induction k m rule: bt_remove.induct) auto

lemma bt_get_remove [btree_simps]: "btree m \<Longrightarrow> bt_get (bt_remove k m) j = (if j = k then None else bt_get m j)"
  by (induction k m rule: bt_remove.induct) (auto simp: bt_get_None_less)

lemma btree_remove [btree_simps]: "btree m \<Longrightarrow> btree (bt_remove k m)"
proof (induction k m rule: bt_remove.induct)
  case (2 k x w m)
  then show ?case using set_bt_remove [of k m] by auto
qed simp

lemma bt_get_set: "btree m \<Longrightarrow> (k, v) \<in> set m \<longleftrightarrow> bt_get m k = Some v"
  by (induction m) (force simp: bt_get_None_less split: if_splits)+

interpretation bt: ordered_map btree bt_get bt_insert bt_remove id
  by unfold_locales (simp_all add: btree_simps bt_get_set, simp add: btree_def)

lemma bt_get_map_of: "bt_get m k = map_of m k"
  by (induction m) auto

lemma btree_filter: "btree m \<Longrightarrow> btree (filter P m)"
  by (induction m) auto

lemma btree_range [btree_simps]: "btree m \<Longrightarrow> btree (bt_range m r)"
  unfolding bt_range_def by (rule btree_filter)

lemma bt_get_filter:
  "bt_get (filter (\<lambda>(k, v). P k) m) j = (if P j then bt_get m j else None)"
  by (induction m) auto

lemma bt_get_range [btree_simps]:
  "bt_get (bt_range m r) k = (if range_contains r k then bt_get m k else None)"
  unfolding bt_range_def by (rule bt_get_filter)

lemma bt_keys_get: "k \<in> set (bt_keys m) \<longleftrightarrow> bt_get m k \<noteq> None"
  by (induction m) (auto simp: bt_keys_def)

lemma distinct_keys: "btree m \<Longrightarrow> distinct (map fst m)"
  by (simp add: btree_def strict_sorted_iff)

lemma map_of_rev_btree: "btree m \<Longrightarrow> map_of (rev m) k = bt_get m k"
proof (induction m)
  case (Cons x m)
  then show ?case
    by (cases x) (auto simp: map_add_def bt_get_None_less split: option.split)
qed simp

end
