(* ===== verification/Decimal.thy ===== *)
theory Decimal
  imports Utf8 Rust_Loops
begin

text \<open>
  Text as the crates print and parse it: \<open>Display\<close> and \<open>FromStr\<close> of unsigned integers, \<open>str::lines\<close>,
  \<open>str::split_once\<close> and \<open>str::trim\<close> of the standard library, on the scalar values of a string.
\<close>

type_synonym scalars = "nat list"

text \<open>The scalar values of a literal.\<close>

definition lit :: "string \<Rightarrow> scalars" where
  "lit s = map of_char s"

text \<open>\<open>Display\<close> of an unsigned integer.\<close>

fun digits :: "nat \<Rightarrow> string" where
  "digits n = (if n < 10 then [char_of (48 + n)] else digits (n div 10) @ [char_of (48 + n mod 10)])"

declare digits.simps [simp del]

text \<open>\<open>FromStr\<close> of \<open>u64\<close>: one sign of plus is allowed, at least one digit is needed, and a number that does not
  fit is refused.\<close>

definition is_digit :: "nat \<Rightarrow> bool" where
  "is_digit c \<longleftrightarrow> 48 \<le> c \<and> c < 58"

definition number_of :: "scalars \<Rightarrow> nat" where
  "number_of ds = foldl (\<lambda>n d. 10 * n + (d - 48)) 0 ds"

definition parse_u64 :: "scalars \<Rightarrow> u64 option" where
  "parse_u64 s =
     (let ds = (if s \<noteq> [] \<and> hd s = 43 then tl s else s)
      in if ds \<noteq> [] \<and> list_all is_digit ds \<and> number_of ds < 2 ^ 64 then Some (of_nat (number_of ds)) else None)"

text \<open>\<open>char::is_whitespace\<close> and \<open>str::trim\<close>.\<close>

definition is_whitespace :: "nat \<Rightarrow> bool" where
  "is_whitespace c =
     (9 \<le> c \<and> c \<le> 13 \<or> c = 0x20 \<or> c = 0x85 \<or> c = 0xA0 \<or> c = 0x1680 \<or> 0x2000 \<le> c \<and> c \<le> 0x200A \<or>
      c = 0x2028 \<or> c = 0x2029 \<or> c = 0x202F \<or> c = 0x205F \<or> c = 0x3000)"

definition trim :: "scalars \<Rightarrow> scalars" where
  "trim s = rev (dropWhile is_whitespace (rev (dropWhile is_whitespace s)))"

text \<open>\<open>str::lines\<close>: a line ends at a line feed, with one carriage return before it; the last may end at the end
  of the text.\<close>

definition strip_return :: "scalars \<Rightarrow> scalars" where
  "strip_return l = (if l \<noteq> [] \<and> last l = 13 then butlast l else l)"

function str_lines :: "scalars \<Rightarrow> scalars list" where
  "str_lines s =
     (if s = [] then []
      else if 10 \<in> set s
        then strip_return (takeWhile (\<lambda>c. c \<noteq> 10) s) # str_lines (tl (dropWhile (\<lambda>c. c \<noteq> 10) s))
      else [s])"
  by pat_completeness auto
termination
proof (relation "measure length")
  fix s :: scalars
  assume "s \<noteq> []" and "10 \<in> set s"
  then have "dropWhile (\<lambda>c. c \<noteq> 10) s \<noteq> []" by (simp add: dropWhile_eq_Nil_conv)
  moreover have "length (dropWhile (\<lambda>c. c \<noteq> 10) s) \<le> length s" by (rule length_dropWhile_le)
  ultimately show "(tl (dropWhile (\<lambda>c. c \<noteq> 10) s), s) \<in> measure length" by (cases "dropWhile (\<lambda>c. c \<noteq> 10) s") auto
qed simp

declare str_lines.simps [simp del]

text \<open>\<open>str::split_once\<close> at a character.\<close>

definition split_once :: "nat \<Rightarrow> scalars \<Rightarrow> (scalars \<times> scalars) option" where
  "split_once c s = (if c \<in> set s then Some (takeWhile (\<lambda>x. x \<noteq> c) s, tl (dropWhile (\<lambda>x. x \<noteq> c) s)) else None)"

section \<open>What they give\<close>

lemma lit_simps [simp]: "lit [] = []" "lit (c # s) = of_char c # lit s" "lit (s @ s') = lit s @ lit s'"
  by (simp_all add: lit_def)

lemma lit_scalar: "list_all is_scalar (lit s)"
proof -
  have "is_scalar (of_char c)" for c :: char using nat_of_char_less_256 [of c] unfolding is_scalar_def by linarith
  then show ?thesis by (simp add: lit_def list_all_iff)
qed

lemma digits_ascii: "c \<in> set (lit (digits n)) \<Longrightarrow> is_digit c"
proof (induction n rule: digits.induct)
  case (1 n)
  then show ?case by (subst (asm) (2) digits.simps) (auto simp: is_digit_def split: if_splits)
qed

lemma digits_ne: "digits n \<noteq> []"
  by (subst digits.simps) simp

lemma number_of_snoc [simp]: "number_of (ds @ [d]) = 10 * number_of ds + (d - 48)" "number_of [] = 0"
  by (simp_all add: number_of_def)

lemma number_of_digits: "number_of (lit (digits n)) = n"
proof (induction n rule: digits.induct)
  case (1 n)
  show ?case
  proof (cases "n < 10")
    case True
    then have "lit (digits n) = [] @ [48 + n]" by (subst digits.simps) simp
    then show ?thesis by (simp only: number_of_snoc)
  next
    case False
    then have "lit (digits n) = lit (digits (n div 10)) @ [48 + n mod 10]" by (subst digits.simps) simp
    then show ?thesis using 1 False by simp
  qed
qed

lemma parse_digits: "n < 2 ^ 64 \<Longrightarrow> parse_u64 (lit (digits n)) = Some (of_nat n)"
proof -
  assume n: "n < 2 ^ 64"
  have ne: "lit (digits n) \<noteq> []" using digits_ne by (simp add: lit_def)
  moreover have "hd (lit (digits n)) \<noteq> 43" using digits_ascii [OF list.set_sel(1) [OF ne]] by (auto simp: is_digit_def)
  ultimately show ?thesis using n digits_ascii by (simp add: parse_u64_def number_of_digits list_all_iff)
qed

lemma trim_id: "(s \<noteq> [] \<Longrightarrow> \<not> is_whitespace (hd s) \<and> \<not> is_whitespace (last s)) \<Longrightarrow> trim s = s"
proof (cases "s = []")
  case False
  assume "s \<noteq> [] \<Longrightarrow> \<not> is_whitespace (hd s) \<and> \<not> is_whitespace (last s)"
  then have "dropWhile is_whitespace s = s" "dropWhile is_whitespace (rev s) = rev s"
    using False by (simp_all add: dropWhile_eq_self_iff hd_rev)
  then show ?thesis by (simp add: trim_def)
qed (simp add: trim_def)

lemma trim_space: "is_whitespace c \<Longrightarrow> trim (c # s) = trim s"
  by (simp add: trim_def)

lemma trim_digits: "trim (lit (digits n)) = lit (digits n)"
proof (rule trim_id)
  assume ne: "lit (digits n) \<noteq> []"
  have "\<not> is_whitespace c" if "c \<in> set (lit (digits n))" for c
    using digits_ascii [OF that] by (auto simp: is_digit_def is_whitespace_def)
  then show "\<not> is_whitespace (hd (lit (digits n))) \<and> \<not> is_whitespace (last (lit (digits n)))" using ne by simp
qed

text \<open>A text written line by line is read back line by line.\<close>

lemma lines_cons:
  assumes "10 \<notin> set l" and "13 \<notin> set l"
  shows "str_lines (l @ 10 # s) = l # str_lines s"
proof -
  have "strip_return l = l" using assms(2) by (auto simp: strip_return_def dest: last_in_set)
  moreover have "takeWhile (\<lambda>c. c \<noteq> 10) (l @ 10 # s) = l" "dropWhile (\<lambda>c. c \<noteq> 10) (l @ 10 # s) = 10 # s"
    using assms(1) by (auto simp: takeWhile_append dropWhile_append)
  ultimately show ?thesis by (subst str_lines.simps) simp
qed

lemma lines_nil: "str_lines [] = []"
  by (subst str_lines.simps) simp

lemma split_once_field: "c \<notin> set f \<Longrightarrow> split_once c (f @ c # v) = Some (f, v)"
  by (auto simp: split_once_def takeWhile_append dropWhile_append)

end
