(* ===== verification/Text_Terms.thy ===== *)
theory Text_Terms
  imports Utf8
begin

text \<open>
  The tokenizer of \<open>crates/slate-schema/src/text.rs\<close>, which the write path of a full-text index and
  the evaluation of \<open>contains\<close> share. The Unicode tables behind \<open>char::is_alphanumeric\<close> and
  \<open>str::to_lowercase\<close> are a parameter: a record of the two functions on scalar values.
\<close>

record Unicode =
  is_alphanumeric :: "nat \<Rightarrow> bool"
  to_lowercase :: "nat list \<Rightarrow> nat list"

text \<open>\<open>str::split\<close> with a predicate on characters: the pieces between separators, empty ones
  included.\<close>

fun split_on :: "('a \<Rightarrow> bool) \<Rightarrow> 'a list \<Rightarrow> 'a list list" where
  "split_on P [] = [[]]"
| "split_on P (c # cs) =
     (if P c then [] # split_on P cs
      else (case split_on P cs of [] \<Rightarrow> [[c]] | p # ps \<Rightarrow> (c # p) # ps))"

definition tokenize :: "Unicode \<Rightarrow> bytes \<Rightarrow> bytes list" where
  "tokenize u text =
     (let out = map (\<lambda>piece. utf8_encode (to_lowercase u piece))
                  (filter (\<lambda>piece. piece \<noteq> [])
                    (split_on (\<lambda>c. \<not> is_alphanumeric u c) (chars text)))
      in remdups_adj (sort out))"

section \<open>What the split yields\<close>

lemma split_on_ne [simp]: "split_on P cs \<noteq> []"
  by (cases cs) (auto split: list.splits)

lemma split_on_sep: "split_on P (p @ c # cs) = split_on P p @ split_on P cs" if "P c"
  using that
proof (induction p)
  case (Cons x xs)
  then show ?case by (cases "split_on P xs") auto
qed simp

lemma split_on_clean: "\<forall>c\<in>set p. \<not> P c \<Longrightarrow> split_on P p = [p]"
  by (induction p) auto

lemma split_on_pieces: "\<forall>p\<in>set (split_on P cs). \<forall>c\<in>set p. \<not> P c"
proof (induction cs)
  case (Cons c cs)
  then show ?case by (cases "split_on P cs") auto
qed simp

text \<open>A piece is a maximal run of the string without separators.\<close>

definition run_of :: "('a \<Rightarrow> bool) \<Rightarrow> 'a list \<Rightarrow> 'a list \<Rightarrow> bool" where
  "run_of P cs p \<longleftrightarrow>
     (\<exists>us vs. cs = us @ p @ vs \<and> (\<forall>c\<in>set p. \<not> P c) \<and>
        (us = [] \<or> P (last us)) \<and> (vs = [] \<or> P (hd vs)))"

lemma run_of_split: "run_of P cs p \<Longrightarrow> p \<in> set (split_on P cs)"
proof -
  assume "run_of P cs p"
  then obtain us vs where r: "cs = us @ p @ vs" "\<forall>c\<in>set p. \<not> P c"
    "us = [] \<or> P (last us)" "vs = [] \<or> P (hd vs)" unfolding run_of_def by blast
  have tail: "p \<in> set (split_on P (p @ vs))"
  proof (cases vs)
    case (Cons v ws)
    then show ?thesis using r split_on_sep [of P v p ws] split_on_clean [of p P] by simp
  qed (use r split_on_clean [of p P] in simp)
  show ?thesis
  proof (cases us rule: rev_cases)
    case (snoc ys u)
    then show ?thesis using r tail split_on_sep [of P u ys "p @ vs"] by simp
  qed (use r tail in simp)
qed

lemma split_run_of: "p \<in> set (split_on P cs) \<Longrightarrow> run_of P cs p"
proof (induction cs rule: length_induct)
  case (1 cs)
  show ?case
  proof (cases "\<forall>c\<in>set cs. \<not> P c")
    case True
    then have "p = cs" using 1(2) split_on_clean [of cs P] by simp
    then have "cs = [] @ p @ []" by simp
    with True \<open>p = cs\<close> show ?thesis unfolding run_of_def by blast
  next
    case False
    then obtain a c b where cs: "cs = a @ c # b" "P c" "\<forall>x\<in>set a. \<not> P x"
      using split_list_first_prop [of cs P] by blast
    then have split: "split_on P cs = a # split_on P b"
      using split_on_sep [of P c a b] split_on_clean [of a P] by simp
    show ?thesis
    proof (cases "p = a")
      case True
      have "cs = [] @ p @ (c # b)" "P (hd (c # b))" "\<forall>x\<in>set p. \<not> P x" using True cs by simp_all
      then show ?thesis unfolding run_of_def by blast
    next
      case False
      then have "run_of P b p" using 1 split cs by simp
      then obtain us vs where r: "b = us @ p @ vs" "\<forall>c\<in>set p. \<not> P c"
        "us = [] \<or> P (last us)" "vs = [] \<or> P (hd vs)" unfolding run_of_def by blast
      have "cs = (a @ c # us) @ p @ vs" using cs r by simp
      moreover have "P (last (a @ c # us))" using r(3) cs(2) by auto
      ultimately show ?thesis using r(2,4) unfolding run_of_def by blast
    qed
  qed
qed

lemma sorted_remdups_adj_strict: "sorted xs \<Longrightarrow> sorted_wrt (<) (remdups_adj (xs :: 'a::linorder list))"
proof (induction xs rule: remdups_adj.induct)
  case (3 x y xs)
  then show ?case by (cases "x = y") (auto simp: order_less_le dest: order_trans)
qed simp_all

text \<open>The terms of a text are exactly the lowercased maximal runs of letters and digits, each
  once, in strictly ascending byte order, so the entries a row writes for them are distinct keys in
  key order.\<close>

theorem tokenize_terms:
  "set (tokenize u text) =
     {utf8_encode (to_lowercase u p) |p. p \<noteq> [] \<and> run_of (\<lambda>c. \<not> is_alphanumeric u c) (chars text) p} \<and>
   sorted_wrt (<) (tokenize u text)"
proof -
  have "p \<in> set (split_on P cs) \<longleftrightarrow> run_of P cs p" for p :: "nat list" and P cs
    using split_run_of run_of_split by blast
  then show ?thesis
    by (auto simp: tokenize_def Let_def sorted_remdups_adj_strict)
qed

end
