(* ===== verification/Schema_Types.thy ===== *)
theory Schema_Types
  imports Decimal Text_Terms Tuple_Codec
begin

text \<open>
  The declarations of \<open>crates/slate-schema\<close>: the error enum, rows, columns, checks, foreign keys,
  indexes and tables, with the accessors of \<open>table.rs\<close> and \<open>constraint.rs\<close> and the methods of the
  three builders. Structs are records, one field per field of the struct; a trait object
  (\<open>Predicate\<close>, \<open>Computed\<close>) is the function it stands for. Names are only compared, so they are
  strings; the message of a check is trimmed, so it is the list of its scalar values.
\<close>

section \<open>Identifiers, rows and errors\<close>

type_synonym TableId = u32
type_synonym IndexId = u32
type_synonym Ordinal = nat
type_synonym Row = "Value list"

datatype Managed = CreatedAt | UpdatedAt

datatype ReferentialAction = Restrict | Cascade

record CheckFailure =
  cf_check :: string
  cf_column :: "string option"
  cf_message :: "nat list option"

datatype (plugins only: code) SchemaError =
    ManagedColumnNotTimestamp string string ValueType
  | SoftDeleteNotTimestamp string string ValueType
  | SoftDeleteNotNullable string string
  | SoftDeleteManaged string string
  | ManagedColumnNullable string string
  | ManagedColumnInKey string string
  | ScaleTooLarge string string u8 u8
  | UnknownColumn string string
  | DuplicateColumn string string
  | VectorInKey string string string
  | ArrayInKey string string string
  | ArrayWithoutElementType string string
  | NestedArrayColumn string string
  | ArrayElementTypeMismatch string string nat ValueType string
  | MissingPrimaryKey string
  | DuplicateKeyColumn string string string
  | NullablePrimaryKeyColumn string string
  | DuplicateIndex string string
  | IndexValueTypeMismatch string string ValueType string
  | EmptyIndex string string
  | UnindexableText string string string
  | TenantColumnNotKeyPrefix string string
  | DuplicateTable string
  | DuplicateIndexId u32 string string string string
  | ColumnCountMismatch string nat nat
  | ValueTypeMismatch string string ValueType string
  | UnexpectedNull string string
  | RowDecode string TupleError
  | RowFromFutureSchema string u32 u32
  | UnsupportedRowFormat string u8
  | AmbiguousColumnName string string
  | ColumnDroppedBeforeAdded string string u32 u32
  | ColumnDroppedInFutureVersion string string u32 u32
  | DroppedColumnInKey string string string
  | DroppedColumnHasDefault string string
  | NullDefault string string
  | DroppedColumnValue string string
  | DuplicateCheck string string
  | EmptyCheckMessage string string
  | DuplicateForeignKey string string
  | EmptyForeignKey string string
  | UnknownForeignKeyParent string string TableId
  | ForeignKeyWidthMismatch string string string nat nat
  | ForeignKeyTypeMismatch string string string string ValueType ValueType
  | CheckViolation string "CheckFailure list"
  | ForeignKeyViolation string string string
  | CrossTenantForeignKey string string string ReferentialAction
  | ForeignKeyRestricted string string string bool
  | CascadeTooLarge string nat
  | IncompatibleSchemaEvolution string string u32

definition value_or_null :: "Row \<Rightarrow> Ordinal \<Rightarrow> Value" where
  "value_or_null row i = (case get row i of Some v \<Rightarrow> v | None \<Rightarrow> Null)"

definition project :: "Row \<Rightarrow> Ordinal list \<Rightarrow> Value list" where
  "project row os = map (value_or_null row) os"

section \<open>Columns\<close>

record ColumnDef =
  col_name :: string
  col_ty :: ValueType
  col_nullable :: bool
  col_added_in :: u32
  col_dropped_in :: "u32 option"
  col_default :: "Value option"
  col_previous_names :: "string list"
  col_scale :: u8
  col_element :: "ValueType option"
  col_managed :: "Managed option"

definition ColumnDef_scale :: "ColumnDef \<Rightarrow> u8 option" where
  "ColumnDef_scale c = (case col_ty c of TDecimal \<Rightarrow> Some (col_scale c) | _ \<Rightarrow> None)"

definition element_type :: "ColumnDef \<Rightarrow> ValueType option" where
  "element_type c = (case col_ty c of TArray \<Rightarrow> col_element c | _ \<Rightarrow> None)"

definition is_dropped :: "ColumnDef \<Rightarrow> bool" where
  "is_dropped c = (col_dropped_in c \<noteq> None)"

definition answers_to :: "ColumnDef \<Rightarrow> string \<Rightarrow> bool" where
  "answers_to c n = (col_name c = n \<or> list_ex (\<lambda>m. m = n) (col_previous_names c))"

section \<open>Checks and foreign keys\<close>

type_synonym Predicate = "Row \<Rightarrow> bool option"

record CheckDef =
  ck_name :: string
  ck_predicate :: Predicate
  ck_column :: "string option"
  ck_message :: "nat list option"
  ck_source :: "string option"

definition CheckDef_new :: "string \<Rightarrow> Predicate \<Rightarrow> CheckDef" where
  "CheckDef_new n p =
     \<lparr>ck_name = n, ck_predicate = p, ck_column = None, ck_message = None, ck_source = None\<rparr>"

definition with_column :: "string \<Rightarrow> CheckDef \<Rightarrow> CheckDef" where
  "with_column c k = k\<lparr>ck_column := Some c\<rparr>"

definition with_message :: "nat list \<Rightarrow> CheckDef \<Rightarrow> CheckDef" where
  "with_message m k = k\<lparr>ck_message := Some m\<rparr>"

definition with_source :: "string \<Rightarrow> CheckDef \<Rightarrow> CheckDef" where
  "with_source s k = k\<lparr>ck_source := Some s\<rparr>"

definition CheckDef_eq :: "CheckDef \<Rightarrow> CheckDef \<Rightarrow> bool" where
  "CheckDef_eq a b = (ck_name a = ck_name b)"

definition satisfied_by :: "CheckDef \<Rightarrow> Row \<Rightarrow> bool" where
  "satisfied_by k row = (ck_predicate k row \<noteq> Some False)"

record ForeignKeyDef =
  fk_name :: string
  fk_columns :: "Ordinal list"
  fk_parent :: TableId
  fk_on_delete :: ReferentialAction

record ForeignKeyBuilder =
  fb_name :: string
  fb_columns :: "string list"
  fb_parent :: TableId
  fb_on_delete :: ReferentialAction

definition ForeignKeyDef_builder :: "string \<Rightarrow> TableId \<Rightarrow> ForeignKeyBuilder" where
  "ForeignKeyDef_builder n p =
     \<lparr>fb_name = n, fb_columns = [], fb_parent = p, fb_on_delete = Restrict\<rparr>"

definition fb_column :: "string \<Rightarrow> ForeignKeyBuilder \<Rightarrow> ForeignKeyBuilder" where
  "fb_column c b = b\<lparr>fb_columns := fb_columns b @ [c]\<rparr>"

definition on_delete :: "ReferentialAction \<Rightarrow> ForeignKeyBuilder \<Rightarrow> ForeignKeyBuilder" where
  "on_delete a b = b\<lparr>fb_on_delete := a\<rparr>"

definition finish :: "ForeignKeyBuilder \<Rightarrow> Ordinal list \<Rightarrow> ForeignKeyDef" where
  "finish b os =
     \<lparr>fk_name = fb_name b, fk_columns = os, fk_parent = fb_parent b, fk_on_delete = fb_on_delete b\<rparr>"

fun parent_key_loop :: "Row \<Rightarrow> Value list \<Rightarrow> Ordinal list \<Rightarrow> Value list option" where
  "parent_key_loop row key [] = Some key"
| "parent_key_loop row key (i # os) =
     (case get row i of
        None \<Rightarrow> None
      | Some v \<Rightarrow> if is_null v then None else parent_key_loop row (key @ [v]) os)"

definition parent_key :: "ForeignKeyDef \<Rightarrow> Row \<Rightarrow> Value list option" where
  "parent_key f row = parent_key_loop row [] (fk_columns f)"

section \<open>Indexes\<close>

record IndexColumn =
  ic_ordinal :: Ordinal
  ic_direction :: Direction

record IndexExpression =
  ie_compute :: "Row \<Rightarrow> Value"
  ie_produces :: ValueType
  ie_direction :: Direction

record IndexDef =
  ix_id :: IndexId
  ix_name :: string
  ix_columns :: "IndexColumn list"
  ix_unique :: bool
  ix_predicate :: "Predicate option"
  ix_expression :: "IndexExpression option"
  ix_text :: bool

definition IndexDef_eq :: "IndexDef \<Rightarrow> IndexDef \<Rightarrow> bool" where
  "IndexDef_eq a b =
     (ix_id a = ix_id b \<and> ix_name a = ix_name b \<and> ix_columns a = ix_columns b \<and>
      ix_unique a = ix_unique b \<and> ix_text a = ix_text b \<and>
      (ix_predicate a \<noteq> None) = (ix_predicate b \<noteq> None) \<and>
      map_option ie_produces (ix_expression a) = map_option ie_produces (ix_expression b) \<and>
      map_option ie_direction (ix_expression a) = map_option ie_direction (ix_expression b))"

definition admits :: "IndexDef \<Rightarrow> Row \<Rightarrow> bool" where
  "admits ix row = is_none_or (\<lambda>p. p row = Some True) (ix_predicate ix)"

definition index_values :: "Row \<Rightarrow> IndexDef \<Rightarrow> Value list" where
  "index_values row ix = map (\<lambda>c. value_or_null row (ic_ordinal c)) (ix_columns ix)"

definition key_values :: "IndexDef \<Rightarrow> Row \<Rightarrow> Value list" where
  "key_values ix row =
     (case ix_expression ix of
        Some e \<Rightarrow> [ie_compute e row]
      | None \<Rightarrow> index_values row ix)"

definition key_sets :: "Unicode \<Rightarrow> IndexDef \<Rightarrow> Row \<Rightarrow> Value list list" where
  "key_sets u ix row =
     (if \<not> ix_text ix then [key_values ix row]
      else
        case ix_columns ix of
          [] \<Rightarrow> []
        | c # _ \<Rightarrow>
            (case get row (ic_ordinal c) of
               Some (Str text) \<Rightarrow> map (\<lambda>term. [Str term]) (tokenize u text)
             | _ \<Rightarrow> []))"

definition key_directions :: "IndexDef \<Rightarrow> Direction list" where
  "key_directions ix =
     (case ix_expression ix of
        Some e \<Rightarrow> [ie_direction e]
      | None \<Rightarrow> map ic_direction (ix_columns ix))"

definition directions :: "IndexDef \<Rightarrow> Direction list" where
  "directions ix = map ic_direction (ix_columns ix)"

record IndexBuilder =
  ib_id :: IndexId
  ib_name :: string
  ib_columns :: "(string \<times> Direction) list"
  ib_unique :: bool
  ib_predicate :: "Predicate option"
  ib_expression :: "IndexExpression option"
  ib_text :: bool

definition IndexDef_builder :: "string \<Rightarrow> IndexId \<Rightarrow> IndexBuilder" where
  "IndexDef_builder n i =
     \<lparr>ib_id = i, ib_name = n, ib_columns = [], ib_unique = False, ib_predicate = None,
      ib_expression = None, ib_text = False\<rparr>"

definition ib_column_with :: "string \<Rightarrow> Direction \<Rightarrow> IndexBuilder \<Rightarrow> IndexBuilder" where
  "ib_column_with n d b = b\<lparr>ib_columns := ib_columns b @ [(n, d)]\<rparr>"

definition ib_column :: "string \<Rightarrow> IndexBuilder \<Rightarrow> IndexBuilder" where
  "ib_column n b = ib_column_with n Asc b"

definition unique :: "IndexBuilder \<Rightarrow> IndexBuilder" where
  "unique b = b\<lparr>ib_unique := True\<rparr>"

definition only_where :: "Predicate \<Rightarrow> IndexBuilder \<Rightarrow> IndexBuilder" where
  "only_where p b = b\<lparr>ib_predicate := Some p\<rparr>"

definition text_index :: "IndexBuilder \<Rightarrow> IndexBuilder" where
  "text_index b = b\<lparr>ib_text := True\<rparr>"

definition expression_with ::
  "(Row \<Rightarrow> Value) \<Rightarrow> ValueType \<Rightarrow> Direction \<Rightarrow> IndexBuilder \<Rightarrow> IndexBuilder" where
  "expression_with f ty d b =
     b\<lparr>ib_expression := Some \<lparr>ie_compute = f, ie_produces = ty, ie_direction = d\<rparr>\<rparr>"

definition expression :: "(Row \<Rightarrow> Value) \<Rightarrow> ValueType \<Rightarrow> IndexBuilder \<Rightarrow> IndexBuilder" where
  "expression f ty b = expression_with f ty Asc b"

section \<open>Tables\<close>

record TableDef =
  td_id :: TableId
  td_name :: string
  td_columns :: "ColumnDef list"
  td_primary_key :: "Ordinal list"
  td_body_columns :: "Ordinal list"
  td_stored_columns :: "Ordinal list"
  td_indexes :: "IndexDef list"
  td_checks :: "CheckDef list"
  td_foreign_keys :: "ForeignKeyDef list"
  td_tenant_column :: "Ordinal option"
  td_soft_delete :: "Ordinal option"
  td_schema_version :: u32

definition td_column :: "TableDef \<Rightarrow> Ordinal \<Rightarrow> ColumnDef option" where
  "td_column t i = get (td_columns t) i"

definition ordinal_of :: "TableDef \<Rightarrow> string \<Rightarrow> Ordinal option" where
  "ordinal_of t n =
     (case position (\<lambda>c. col_name c = n) (td_columns t) of
        Some i \<Rightarrow> Some i
      | None \<Rightarrow> position (\<lambda>c. answers_to c n) (td_columns t))"

definition is_primary_key_column :: "TableDef \<Rightarrow> Ordinal \<Rightarrow> bool" where
  "is_primary_key_column t i = (i \<in> set (td_primary_key t))"

definition key_types :: "TableDef \<Rightarrow> Ordinal list \<Rightarrow> ValueType list" where
  "key_types t os =
     map (\<lambda>i. case get (td_columns t) i of None \<Rightarrow> TBytes | Some c \<Rightarrow> col_ty c) os"

definition primary_key_types :: "TableDef \<Rightarrow> ValueType list" where
  "primary_key_types t = key_types t (td_primary_key t)"

definition index_key_types :: "TableDef \<Rightarrow> IndexDef \<Rightarrow> ValueType list" where
  "index_key_types t ix =
     (case ix_expression ix of
        Some e \<Rightarrow> [ie_produces e]
      | None \<Rightarrow> key_types t (map ic_ordinal (ix_columns ix)))"

definition td_index :: "TableDef \<Rightarrow> IndexId \<Rightarrow> IndexDef option" where
  "td_index t i = find (\<lambda>x. ix_id x = i) (td_indexes t)"

definition index_by_name :: "TableDef \<Rightarrow> string \<Rightarrow> IndexDef option" where
  "index_by_name t n = find (\<lambda>x. ix_name x = n) (td_indexes t)"

definition primary_key_values :: "Row \<Rightarrow> TableDef \<Rightarrow> Value list" where
  "primary_key_values row t = project row (td_primary_key t)"

section \<open>The table builder\<close>

datatype ColumnChange =
    ChangeDefault string Value
  | ChangeDropped string u32
  | ChangeRenamed string string

record TableBuilder =
  tb_id :: TableId
  tb_name :: string
  tb_columns :: "ColumnDef list"
  tb_primary_key :: "string list"
  tb_indexes :: "IndexBuilder list"
  tb_checks :: "CheckDef list"
  tb_foreign_keys :: "ForeignKeyBuilder list"
  tb_tenant_column :: "string option"
  tb_soft_delete :: "string option"
  tb_schema_version :: u32
  tb_changes :: "ColumnChange list"

definition TableDef_builder :: "string \<Rightarrow> TableId \<Rightarrow> TableBuilder" where
  "TableDef_builder n i =
     \<lparr>tb_id = i, tb_name = n, tb_columns = [], tb_primary_key = [], tb_indexes = [], tb_checks = [],
      tb_foreign_keys = [], tb_tenant_column = None, tb_soft_delete = None, tb_schema_version = 0,
      tb_changes = []\<rparr>"

definition push_column :: "string \<Rightarrow> ValueType \<Rightarrow> bool \<Rightarrow> u32 \<Rightarrow> TableBuilder \<Rightarrow> TableBuilder" where
  "push_column n ty nullable added_in b =
     b\<lparr>tb_columns := tb_columns b @
        [\<lparr>col_name = n, col_ty = ty, col_nullable = nullable, col_added_in = added_in,
          col_dropped_in = None, col_default = None, col_previous_names = [], col_scale = 0,
          col_element = None, col_managed = None\<rparr>]\<rparr>"

text \<open>\<open>if let Some(column) = self.columns.last_mut()\<close> and
  \<open>self.columns.iter_mut().find(|c| c.name == column)\<close>.\<close>

definition update_last :: "('a \<Rightarrow> 'a) \<Rightarrow> 'a list \<Rightarrow> 'a list" where
  "update_last f xs = (if xs = [] then xs else butlast xs @ [f (last xs)])"

fun update_found :: "('a \<Rightarrow> bool) \<Rightarrow> ('a \<Rightarrow> 'a) \<Rightarrow> 'a list \<Rightarrow> 'a list" where
  "update_found P f [] = []"
| "update_found P f (x # xs) = (if P x then f x # xs else x # update_found P f xs)"

definition push_decimal :: "string \<Rightarrow> u8 \<Rightarrow> bool \<Rightarrow> u32 \<Rightarrow> TableBuilder \<Rightarrow> TableBuilder" where
  "push_decimal n s nullable added_in b =
     (let b = push_column n TDecimal nullable added_in b
      in b\<lparr>tb_columns := update_last (\<lambda>c. c\<lparr>col_scale := s\<rparr>) (tb_columns b)\<rparr>)"

definition push_array :: "string \<Rightarrow> ValueType \<Rightarrow> bool \<Rightarrow> u32 \<Rightarrow> TableBuilder \<Rightarrow> TableBuilder" where
  "push_array n e nullable added_in b =
     (let b = push_column n TArray nullable added_in b
      in b\<lparr>tb_columns := update_last (\<lambda>c. c\<lparr>col_element := Some e\<rparr>) (tb_columns b)\<rparr>)"

definition tb_column :: "string \<Rightarrow> ValueType \<Rightarrow> TableBuilder \<Rightarrow> TableBuilder" where
  "tb_column n ty = push_column n ty False 0"

definition nullable_column :: "string \<Rightarrow> ValueType \<Rightarrow> TableBuilder \<Rightarrow> TableBuilder" where
  "nullable_column n ty = push_column n ty True 0"

definition added_column :: "string \<Rightarrow> ValueType \<Rightarrow> u32 \<Rightarrow> TableBuilder \<Rightarrow> TableBuilder" where
  "added_column n ty added_in = push_column n ty True added_in"

definition default_for :: "string \<Rightarrow> Value \<Rightarrow> TableBuilder \<Rightarrow> TableBuilder" where
  "default_for c v b = b\<lparr>tb_changes := tb_changes b @ [ChangeDefault c v]\<rparr>"

definition added_column_with_default ::
  "string \<Rightarrow> ValueType \<Rightarrow> u32 \<Rightarrow> Value \<Rightarrow> TableBuilder \<Rightarrow> TableBuilder" where
  "added_column_with_default n ty added_in v b = default_for n v (push_column n ty False added_in b)"

definition drop_column :: "string \<Rightarrow> u32 \<Rightarrow> TableBuilder \<Rightarrow> TableBuilder" where
  "drop_column c at b = b\<lparr>tb_changes := tb_changes b @ [ChangeDropped c at]\<rparr>"

definition renamed_column :: "string \<Rightarrow> string \<Rightarrow> TableBuilder \<Rightarrow> TableBuilder" where
  "renamed_column c previous b = b\<lparr>tb_changes := tb_changes b @ [ChangeRenamed c previous]\<rparr>"

definition decimal_column :: "string \<Rightarrow> u8 \<Rightarrow> TableBuilder \<Rightarrow> TableBuilder" where
  "decimal_column n s = push_decimal n s False 0"

definition nullable_decimal_column :: "string \<Rightarrow> u8 \<Rightarrow> TableBuilder \<Rightarrow> TableBuilder" where
  "nullable_decimal_column n s = push_decimal n s True 0"

definition array_column :: "string \<Rightarrow> ValueType \<Rightarrow> TableBuilder \<Rightarrow> TableBuilder" where
  "array_column n e = push_array n e False 0"

definition nullable_array_column :: "string \<Rightarrow> ValueType \<Rightarrow> TableBuilder \<Rightarrow> TableBuilder" where
  "nullable_array_column n e = push_array n e True 0"

definition element_for :: "string \<Rightarrow> ValueType \<Rightarrow> TableBuilder \<Rightarrow> TableBuilder" where
  "element_for n e b =
     b\<lparr>tb_columns := update_found (\<lambda>c. col_name c = n) (\<lambda>c. c\<lparr>col_element := Some e\<rparr>) (tb_columns b)\<rparr>"

definition managed_for :: "string \<Rightarrow> Managed \<Rightarrow> TableBuilder \<Rightarrow> TableBuilder" where
  "managed_for n m b =
     b\<lparr>tb_columns := update_found (\<lambda>c. col_name c = n) (\<lambda>c. c\<lparr>col_managed := Some m\<rparr>) (tb_columns b)\<rparr>"

definition scale_for :: "string \<Rightarrow> u8 \<Rightarrow> TableBuilder \<Rightarrow> TableBuilder" where
  "scale_for n s b =
     b\<lparr>tb_columns := update_found (\<lambda>c. col_name c = n) (\<lambda>c. c\<lparr>col_scale := s\<rparr>) (tb_columns b)\<rparr>"

definition tb_set_primary_key :: "string list \<Rightarrow> TableBuilder \<Rightarrow> TableBuilder" where
  "tb_set_primary_key ns b = b\<lparr>tb_primary_key := ns\<rparr>"

definition tb_set_tenant_column :: "string \<Rightarrow> TableBuilder \<Rightarrow> TableBuilder" where
  "tb_set_tenant_column n b = b\<lparr>tb_tenant_column := Some n\<rparr>"

definition tb_set_soft_delete :: "string \<Rightarrow> TableBuilder \<Rightarrow> TableBuilder" where
  "tb_set_soft_delete n b = b\<lparr>tb_soft_delete := Some n\<rparr>"

definition tb_index :: "IndexBuilder \<Rightarrow> TableBuilder \<Rightarrow> TableBuilder" where
  "tb_index ix b = b\<lparr>tb_indexes := tb_indexes b @ [ix]\<rparr>"

definition tb_check :: "CheckDef \<Rightarrow> TableBuilder \<Rightarrow> TableBuilder" where
  "tb_check k b = b\<lparr>tb_checks := tb_checks b @ [k]\<rparr>"

definition tb_foreign_key :: "ForeignKeyBuilder \<Rightarrow> TableBuilder \<Rightarrow> TableBuilder" where
  "tb_foreign_key f b = b\<lparr>tb_foreign_keys := tb_foreign_keys b @ [f]\<rparr>"

definition tb_set_schema_version :: "u32 \<Rightarrow> TableBuilder \<Rightarrow> TableBuilder" where
  "tb_set_schema_version v b = b\<lparr>tb_schema_version := v\<rparr>"

lemma is_null_iff [simp]: "is_null v \<longleftrightarrow> v = Null"
  by (cases v) auto

lemma value_type_None [simp]: "value_type v = None \<longleftrightarrow> v = Null"
  by (cases v) auto

lemma value_or_null_less [simp]: "i < length row \<Longrightarrow> value_or_null row i = row ! i"
  by (simp add: value_or_null_def)

lemma project_in_range: "\<forall>i\<in>set os. i < length row \<Longrightarrow> project row os = map ((!) row) os"
  by (simp add: project_def)

lemma length_project [simp]: "length (project row os) = length os"
  by (simp add: project_def)

text \<open>A blank message is one of whitespace only.\<close>

lemma trim_blank: "trim m = [] \<longleftrightarrow> (\<forall>c\<in>set m. is_whitespace c)"
proof -
  have "trim m = [] \<longleftrightarrow> (\<forall>c\<in>set (dropWhile is_whitespace m). is_whitespace c)"
    by (simp add: trim_def dropWhile_eq_Nil_conv)
  also have "\<dots> \<longleftrightarrow> (\<forall>c\<in>set m. is_whitespace c)"
    by (metis Un_iff set_append set_takeWhileD takeWhile_dropWhile_id)
  finally show ?thesis .
qed

end
