(* ===== verification/Kernel_Error.thy ===== *)
theory Kernel_Error
  imports Schema_Types
begin

text \<open>
  The kernel's error enum, \<open>crates/slate-kernel/src/error.rs\<close>, one constructor per variant with the
  variant's fields. A boxed error of the storage engine is its message. The reason of a refused
  grant is the fault found rather than the sentence printed for it.
\<close>

datatype GrantFault = StrayColumn Ordinal | KeyColumnMissing string

datatype (plugins only: code) KernelError =
    Storage string
  | KernelSchema SchemaError
  | KeyDecode TupleError
  | UnknownTable TableId
  | UniqueViolation string string
  | DuplicatePrimaryKey string
  | RowNotFound string
  | TransactionConflict
  | TransactionPoisoned
  | AccessDenied string string
  | ColumnsWithheld string string
  | InvalidGrant string GrantFault
  | TenantRequired string
  | RowCheckFailed string
  | SoftDeleteColumnSupplied string string
  | RowChanged string
  | InvalidCursor string string
  | MigrationRefused string
  | WriterFenced
  | CommitTimedOut
  | ReplicaTooStale string nat nat
  | NoReplicaAvailable string
  | NotSummable string
  | CorruptIndexEntry string string
  | JoinNotSupported string
  | NoSuchColumn string Ordinal
  | DuplicateAssignment string Ordinal
  | ComparisonTypeMismatch string Ordinal Ordinal
  | DecimalScale string string string
  | JoinBuildTooLarge string nat
  | TooManyGroups nat
  | TooManyDistinctValues nat
  | SortTooLarge nat
  | InListTooLarge nat nat
  | WindowTooLarge nat
  | WindowNeedsOrder string
  | RunningDistinctCount
  | WindowOffsetZero string
  | PredicateWriteTooLarge nat
  | NotSoftDeleting string

definition is_retryable :: "KernelError \<Rightarrow> bool" where
  "is_retryable e = (case e of TransactionConflict \<Rightarrow> True | _ \<Rightarrow> False)"

lemma is_retryable_iff [simp]: "is_retryable e \<longleftrightarrow> e = TransactionConflict"
  by (cases e) (simp_all add: is_retryable_def)

end
