(* ===== verification/Memory_Store.thy ===== *)
theory Memory_Store
  imports Btree_Map Kernel_Error
begin

text \<open>
  The in-memory transactional store of \<open>crates/slate-kernel/src/memory.rs\<close>. The shared state, the
  transaction and their operations are translated one by one; a commit's critical section and the
  later drop of the transaction are separate actions, as the lock is released between them. The
  store and its transactions are then a state machine in which any number of transactions
  interleave, with the log of everything ever committed as a ghost, and its invariant gives
  snapshot isolation with first-committer-wins: reads see the state at begin, and the trimmed
  history decides conflicts exactly as the complete log would. Versions are natural numbers: the
  64-bit counter of commits does not wrap.
\<close>

section \<open>The shared state\<close>

type_synonym Committed = "(bytes, bytes) btree"
type_synonym Pending = "(bytes, bytes option) btree"

record Shared =
  committed :: Committed
  version :: nat
  history :: "(nat \<times> bytes list) list"
  active :: "(nat, nat) btree"

definition Shared_default :: Shared where
  "Shared_default = \<lparr>committed = [], version = 0, history = [], active = []\<rparr>"

definition register :: "nat \<Rightarrow> Shared \<Rightarrow> Shared" where
  "register v s =
     s\<lparr>active := bt_insert v ((case bt_get (active s) v of None \<Rightarrow> 0 | Some n \<Rightarrow> n) + 1) (active s)\<rparr>"

definition trim_history :: "Shared \<Rightarrow> Shared" where
  "trim_history s =
     (let watermark = (case bt_keys (active s) of [] \<Rightarrow> version s | v # _ \<Rightarrow> v)
      in s\<lparr>history := filter (\<lambda>(v, _). watermark < v) (history s)\<rparr>)"

definition unregister :: "nat \<Rightarrow> Shared \<Rightarrow> Shared" where
  "unregister v s =
     trim_history
       (case bt_get (active s) v of
          None \<Rightarrow> s
        | Some count \<Rightarrow>
            let count = count - 1 in
            if count = 0 then s\<lparr>active := bt_remove v (active s)\<rparr>
            else s\<lparr>active := bt_insert v count (active s)\<rparr>)"

definition MemoryStore_len :: "Shared \<Rightarrow> nat" where
  "MemoryStore_len s = length (committed s)"

definition MemoryStore_is_empty :: "Shared \<Rightarrow> bool" where
  "MemoryStore_is_empty s \<longleftrightarrow> MemoryStore_len s = 0"

definition MemoryStore_keys :: "Shared \<Rightarrow> bytes list" where
  "MemoryStore_keys s = bt_keys (committed s)"

definition MemoryStore_entries :: "Shared \<Rightarrow> (bytes \<times> bytes) list" where
  "MemoryStore_entries s = committed s"

definition visible_sequence :: "Shared \<Rightarrow> nat option" where
  "visible_sequence s = Some (version s)"

section \<open>Transactions\<close>

record MemoryTransaction =
  snapshot :: "Committed option"
  started_at :: nat
  pending :: Pending

definition txn_open :: "Shared \<Rightarrow> MemoryTransaction \<times> Shared" where
  "txn_open s =
     (let s' = register (version s) s
      in (\<lparr>snapshot = Some (committed s'), started_at = version s', pending = []\<rparr>, s'))"

definition base :: "MemoryTransaction \<Rightarrow> Committed" where
  "base t = (case snapshot t of Some c \<Rightarrow> c | None \<Rightarrow> [])"

text \<open>Replaying the buffered writes of a map on another, in key order.\<close>

definition apply_pending :: "Pending \<Rightarrow> Committed \<Rightarrow> Committed" where
  "apply_pending p c =
     fold (\<lambda>(k, w) m. case w of Some v \<Rightarrow> bt_insert k v m | None \<Rightarrow> bt_remove k m) p c"

definition visible_range :: "MemoryTransaction \<Rightarrow> KeyRange \<Rightarrow> (bytes \<times> bytes) list" where
  "visible_range t r =
     (if range_is_empty r then []
      else
        let touched = (bt_range (pending t) r \<noteq> []) in
        if \<not> touched then bt_range (base t) r
        else apply_pending (bt_range (pending t) r) (bt_range (base t) r))"

definition txn_get :: "MemoryTransaction \<Rightarrow> bytes \<Rightarrow> bytes option" where
  "txn_get t key =
     (case bt_get (pending t) key of
        Some p \<Rightarrow> p
      | None \<Rightarrow> bt_get (base t) key)"

datatype ScanOrder = Ascending | Descending

definition txn_scan :: "MemoryTransaction \<Rightarrow> KeyRange \<Rightarrow> ScanOrder \<Rightarrow> (bytes \<times> bytes) list" where
  "txn_scan t r ord =
     (let items = visible_range t r in if ord = Descending then rev items else items)"

definition txn_put :: "bytes \<Rightarrow> bytes \<Rightarrow> MemoryTransaction \<Rightarrow> MemoryTransaction" where
  "txn_put key v t = t\<lparr>pending := bt_insert key (Some v) (pending t)\<rparr>"

definition txn_delete :: "bytes \<Rightarrow> MemoryTransaction \<Rightarrow> MemoryTransaction" where
  "txn_delete key t = t\<lparr>pending := bt_insert key None (pending t)\<rparr>"

definition has_conflict :: "MemoryTransaction \<Rightarrow> Pending \<Rightarrow> Shared \<Rightarrow> bool" where
  "has_conflict t p s \<longleftrightarrow>
     list_ex (\<lambda>(_, keys). list_ex (\<lambda>k. k \<in> set keys) (bt_keys p))
       (filter (\<lambda>(v, _). started_at t < v) (history s))"

definition txn_commit ::
  "MemoryTransaction \<Rightarrow> Shared \<Rightarrow> (KernelError + nat option) \<times> MemoryTransaction \<times> Shared" where
  "txn_commit t s =
     (let p = pending t; t = t\<lparr>pending := []\<rparr> in
      if p = [] then (Inr None, t, s)
      else
        let t = t\<lparr>snapshot := None\<rparr> in
        if has_conflict t p s then (Inl TransactionConflict, t, s)
        else
          let v = version s + 1 in
          (Inr (Some v), t,
           s\<lparr>version := v, committed := apply_pending p (committed s),
             history := history s @ [(v, bt_keys p)]\<rparr>))"

definition txn_rollback :: "MemoryTransaction \<Rightarrow> MemoryTransaction" where
  "txn_rollback t = t\<lparr>pending := []\<rparr>"

definition txn_drop :: "MemoryTransaction \<Rightarrow> Shared \<Rightarrow> Shared" where
  "txn_drop t s = unregister (started_at t) s"

section \<open>Reads\<close>

lemma apply_pending_get:
  assumes "btree c" and "btree p"
  shows "btree (apply_pending p c) \<and>
     bt_get (apply_pending p c) k = (case bt_get p k of None \<Rightarrow> bt_get c k | Some w \<Rightarrow> w)"
  unfolding apply_pending_def
  using bt.get_fold_writes [OF assms(1), of p k] by (simp add: map_of_rev_btree [OF assms(2)])

text \<open>A transaction whose maps are maps.\<close>

definition txn_ok :: "MemoryTransaction \<Rightarrow> bool" where
  "txn_ok t \<longleftrightarrow> btree (pending t) \<and> btree (base t)"

lemma txn_ok_ops [simp]:
  "txn_ok t \<Longrightarrow> txn_ok (txn_put k v t)" "txn_ok t \<Longrightarrow> txn_ok (txn_delete k t)"
  "txn_ok t \<Longrightarrow> txn_ok (txn_rollback t)"
  by (simp_all add: txn_ok_def txn_put_def txn_delete_def txn_rollback_def base_def btree_simps)

lemma visible_range_get:
  assumes "txn_ok t"
  shows "btree (visible_range t r) \<and>
     bt_get (visible_range t r) k = (if range_contains r k then txn_get t k else None)"
proof (cases "range_is_empty r")
  case True
  then have "\<not> range_contains r k"
    by (auto simp: range_is_empty_def range_contains_def split: Bound.splits)
  with True show ?thesis by (simp add: visible_range_def)
next
  case False
  have maps: "btree (bt_range (pending t) r)" "btree (bt_range (base t) r)"
    using assms by (simp_all add: txn_ok_def btree_simps)
  show ?thesis
  proof (cases "bt_range (pending t) r = []")
    case True
    then have "range_contains r k \<Longrightarrow> bt_get (pending t) k = None"
      using bt_get_range [of "pending t" r k] by simp
    with True False maps show ?thesis
      by (simp add: visible_range_def txn_get_def bt_get_range)
  next
    case touched: False
    show ?thesis
      using apply_pending_get [OF maps(2,1), of k] False touched
      by (auto simp: visible_range_def txn_get_def bt_get_range split: option.split)
  qed
qed

section \<open>The store as a state machine\<close>

text \<open>A transaction is open until it commits or rolls back, and is registered until it is dropped.\<close>

datatype phase = Open | Finished

record Memory_System =
  shared :: Shared
  txns :: "nat \<Rightarrow> (phase \<times> MemoryTransaction) option"
  commits :: "(nat \<times> Pending) list"

definition system_new :: Memory_System where
  "system_new = \<lparr>shared = Shared_default, txns = (\<lambda>_. None), commits = []\<rparr>"

inductive mem_step :: "Memory_System \<Rightarrow> Memory_System \<Rightarrow> bool" where
  begin_txn: "txns S i = None \<Longrightarrow> txn_open (shared S) = (t, s) \<Longrightarrow>
     mem_step S (S\<lparr>shared := s, txns := (txns S)(i \<mapsto> (Open, t))\<rparr>)"
| put_txn: "txns S i = Some (Open, t) \<Longrightarrow>
     mem_step S (S\<lparr>txns := (txns S)(i \<mapsto> (Open, txn_put k v t))\<rparr>)"
| delete_txn: "txns S i = Some (Open, t) \<Longrightarrow>
     mem_step S (S\<lparr>txns := (txns S)(i \<mapsto> (Open, txn_delete k t))\<rparr>)"
| commit_none: "txns S i = Some (Open, t) \<Longrightarrow> txn_commit t (shared S) = (Inr None, t', s) \<Longrightarrow>
     mem_step S (S\<lparr>shared := s, txns := (txns S)(i \<mapsto> (Finished, t'))\<rparr>)"
| commit_ok: "txns S i = Some (Open, t) \<Longrightarrow> txn_commit t (shared S) = (Inr (Some v), t', s) \<Longrightarrow>
     mem_step S (S\<lparr>shared := s, txns := (txns S)(i \<mapsto> (Finished, t')),
                   commits := commits S @ [(v, pending t)]\<rparr>)"
| commit_conflict: "txns S i = Some (Open, t) \<Longrightarrow> txn_commit t (shared S) = (Inl e, t', s) \<Longrightarrow>
     mem_step S (S\<lparr>shared := s, txns := (txns S)(i \<mapsto> (Finished, t'))\<rparr>)"
| rollback_txn: "txns S i = Some (Open, t) \<Longrightarrow>
     mem_step S (S\<lparr>txns := (txns S)(i \<mapsto> (Finished, txn_rollback t))\<rparr>)"
| drop_txn: "txns S i = Some (ph, t) \<Longrightarrow>
     mem_step S (S\<lparr>shared := txn_drop t (shared S), txns := (txns S)(i := None)\<rparr>)"

inductive mem_reachable :: "Memory_System \<Rightarrow> bool" where
  new: "mem_reachable system_new"
| step: "mem_reachable S \<Longrightarrow> mem_step S S' \<Longrightarrow> mem_reachable S'"

text \<open>The committed map after the commits up to a version.\<close>

definition state_at :: "(nat \<times> Pending) list \<Rightarrow> nat \<Rightarrow> Committed" where
  "state_at log v = fold (\<lambda>(_, p). apply_pending p) (filter (\<lambda>(u, _). u \<le> v) log) []"

definition live_at :: "Memory_System \<Rightarrow> nat \<Rightarrow> nat set" where
  "live_at S v = {i. \<exists>ph t. txns S i = Some (ph, t) \<and> started_at t = v}"

section \<open>The invariant\<close>

definition log_ok :: "nat \<Rightarrow> (nat \<times> Pending) list \<Rightarrow> bool" where
  "log_ok n log \<longleftrightarrow> map fst log = [1..<Suc n] \<and> (\<forall>(v, p)\<in>set log. btree p)"

text \<open>The history is the part of the log above a mark that no registered transaction is below.\<close>

definition history_ok :: "Memory_System \<Rightarrow> bool" where
  "history_ok S \<longleftrightarrow>
     (\<exists>w. w \<le> version (shared S) \<and> history (shared S) = map (\<lambda>(v, p). (v, bt_keys p)) (filter (\<lambda>(v, _). w < v) (commits S)) \<and>
        (\<forall>i ph t. txns S i = Some (ph, t) \<longrightarrow> w \<le> started_at t))"

definition txns_ok :: "Memory_System \<Rightarrow> bool" where
  "txns_ok S \<longleftrightarrow> (\<forall>i ph t. txns S i = Some (ph, t) \<longrightarrow>
     started_at t \<le> version (shared S) \<and> btree (pending t) \<and>
     (ph = Open \<longrightarrow> snapshot t = Some (state_at (commits S) (started_at t))))"

definition active_ok :: "Memory_System \<Rightarrow> bool" where
  "active_ok S \<longleftrightarrow> btree (active (shared S)) \<and> finite (dom (txns S)) \<and>
     (\<forall>v. bt_get (active (shared S)) v =
        (if live_at S v = {} then None else Some (card (live_at S v))))"

definition mem_inv :: "Memory_System \<Rightarrow> bool" where
  "mem_inv S \<longleftrightarrow>
     log_ok (version (shared S)) (commits S) \<and>
     committed (shared S) = state_at (commits S) (version (shared S)) \<and>
     history_ok S \<and> txns_ok S \<and> active_ok S \<and>
     (txns S = (\<lambda>_. None) \<longrightarrow> history (shared S) = [])"

subsection \<open>The log\<close>

lemma log_bound: "log_ok n log \<Longrightarrow> (v, p) \<in> set log \<Longrightarrow> 1 \<le> v \<and> v \<le> n"
proof -
  assume a: "log_ok n log" "(v, p) \<in> set log"
  then have "v \<in> set (map fst log)" by force
  with a(1) show ?thesis by (auto simp: log_ok_def simp del: upt_Suc)
qed

lemma log_filter_all: "log_ok n log \<Longrightarrow> n \<le> v \<Longrightarrow> filter (\<lambda>(u, _). u \<le> v) log = log"
  using log_bound by (fastforce simp: filter_id_conv)

lemma log_ok_snoc: "log_ok n log \<Longrightarrow> btree p \<Longrightarrow> log_ok (Suc n) (log @ [(Suc n, p)])"
  by (auto simp: log_ok_def)

lemma state_at_snoc:
  assumes "log_ok n log"
  shows "v \<le> n \<Longrightarrow> state_at (log @ [(Suc n, p)]) v = state_at log v"
    and "state_at (log @ [(Suc n, p)]) (Suc n) = apply_pending p (state_at log n)"
  using log_filter_all [OF assms, of n] log_filter_all [OF assms, of "Suc n"]
  by (simp_all add: state_at_def)

lemma btree_state_at: "log_ok n log \<Longrightarrow> btree (state_at log v)"
proof -
  assume "log_ok n log"
  then have "\<forall>(v, p)\<in>set (filter (\<lambda>(u, _). u \<le> v) log). btree p" by (auto simp: log_ok_def)
  moreover have "btree c \<Longrightarrow> \<forall>(v, p)\<in>set l. btree p \<Longrightarrow> btree (fold (\<lambda>(_, p). apply_pending p) l c)" for l :: "(nat \<times> Pending) list" and c
    by (induction l arbitrary: c) (auto simp: apply_pending_get)
  ultimately show ?thesis by (simp add: state_at_def)
qed

text \<open>A key no commit between two versions wrote has the same value at both.\<close>

lemma state_at_unchanged:
  assumes "\<forall>(x, p)\<in>set log. btree p" and "u \<le> v"
    and "\<forall>(x, p)\<in>set log. u < x \<and> x \<le> v \<longrightarrow> k \<notin> set (bt_keys p)"
  shows "bt_get (state_at log v) k = bt_get (state_at log u) k"
proof -
  have "btree (state_at log v) \<and> btree (state_at log u) \<and>
      bt_get (state_at log v) k = bt_get (state_at log u) k"
    using assms
  proof (induction log rule: rev_induct)
    case (snoc xp log)
    obtain x p where xp: "xp = (x, p)" by (cases xp)
    have split: "state_at (log @ [(x, p)]) y = (if x \<le> y then apply_pending p (state_at log y) else state_at log y)" for y
      by (simp add: state_at_def)
    have p: "btree p" "u < x \<Longrightarrow> x \<le> v \<Longrightarrow> bt_get p k = None"
      using snoc.prems xp by (auto simp: bt_keys_get)
    have "btree (state_at log v) \<and> btree (state_at log u) \<and>
        bt_get (state_at log v) k = bt_get (state_at log u) k"
      using snoc by simp
    then show ?case
      using p apply_pending_get [OF _ p(1)] assms(2) by (auto simp: xp split split: option.split)
  qed (simp add: state_at_def)
  then show ?thesis by simp
qed

subsection \<open>Every step keeps the invariant\<close>

lemma mem_inv_update:
  assumes "mem_inv S" and "txns S i = Some (ph, t)" and "started_at t' = started_at t"
    and "btree (pending t')" and "ph' = Open \<Longrightarrow> ph = Open \<and> snapshot t' = snapshot t"
  shows "mem_inv (S\<lparr>txns := (txns S)(i \<mapsto> (ph', t'))\<rparr>)"
proof -
  let ?S = "S\<lparr>txns := (txns S)(i \<mapsto> (ph', t'))\<rparr>"
  have "live_at ?S = live_at S"
    using assms(2,3) by (fastforce simp: live_at_def fun_eq_iff)
  then have "active_ok ?S"
    using assms(1) by (simp add: mem_inv_def active_ok_def)
  moreover have "history_ok ?S"
    using assms(1-3) unfolding mem_inv_def history_ok_def by fastforce
  moreover have "txns_ok ?S"
    using assms unfolding mem_inv_def txns_ok_def by auto
  moreover have "txns ?S \<noteq> (\<lambda>_. None)" by (auto simp: fun_eq_iff)
  ultimately show ?thesis using assms(1) by (simp add: mem_inv_def)
qed

lemma finite_live: "finite (dom (txns S)) \<Longrightarrow> finite (live_at S v)"
  by (rule finite_subset [of _ "dom (txns S)"]) (auto simp: live_at_def)

lemma mem_inv_begin:
  assumes "mem_inv S" and "txns S i = None" and "txn_open (shared S) = (t, s)"
  shows "mem_inv (S\<lparr>shared := s, txns := (txns S)(i \<mapsto> (Open, t))\<rparr>)"
proof -
  let ?S = "S\<lparr>shared := s, txns := (txns S)(i \<mapsto> (Open, t))\<rparr>"
  let ?v = "version (shared S)"
  have s: "s = register ?v (shared S)" and t: "snapshot t = Some (committed (shared S))"
    "started_at t = ?v" "pending t = []"
    using assms(3) by (auto simp: txn_open_def register_def Let_def)
  have shared: "version s = ?v" "committed s = committed (shared S)" "history s = history (shared S)"
    by (simp_all add: s register_def)
  have live: "live_at (S\<lparr>shared := x, txns := (txns S)(i \<mapsto> (Open, t))\<rparr>) v =
      (if v = ?v then insert i (live_at S v) else live_at S v)"
    and fresh: "i \<notin> live_at S v" for x v
    using t assms(2) by (auto simp: live_at_def)
  have "finite (live_at S v)" for v
    using assms(1) by (intro finite_live) (simp add: mem_inv_def active_ok_def)
  then have "active_ok ?S"
    using assms(1) fresh by (auto simp: mem_inv_def active_ok_def live s register_def btree_simps)
  moreover have "history_ok ?S"
    using assms(1) t unfolding mem_inv_def history_ok_def shared by (fastforce simp: shared)
  moreover have "txns_ok ?S"
    using assms(1) t unfolding mem_inv_def txns_ok_def by (auto simp: shared)
  moreover have "txns ?S \<noteq> (\<lambda>_. None)" by (auto simp: fun_eq_iff)
  ultimately show ?thesis using assms(1) by (simp add: mem_inv_def shared)
qed

lemma mem_inv_log:
  assumes "mem_inv S" and "txns S i = Some (ph, t)" and "btree p"
    and "s = (shared S)\<lparr>version := Suc (version (shared S)),
               committed := apply_pending p (committed (shared S)),
               history := history (shared S) @ [(Suc (version (shared S)), bt_keys p)]\<rparr>"
  shows "mem_inv (S\<lparr>shared := s, commits := commits S @ [(Suc (version (shared S)), p)]\<rparr>)"
proof -
  let ?v = "version (shared S)"
  let ?S = "S\<lparr>shared := s, commits := commits S @ [(Suc ?v, p)]\<rparr>"
  have log: "log_ok ?v (commits S)" and com: "committed (shared S) = state_at (commits S) ?v"
    using assms(1) by (simp_all add: mem_inv_def)
  have "live_at ?S = live_at S" by (simp add: live_at_def fun_eq_iff)
  then have "active_ok ?S" using assms(1) by (simp add: mem_inv_def active_ok_def assms(4))
  moreover have "history_ok ?S"
  proof -
    obtain w where "w \<le> ?v"
      "history (shared S) = map (\<lambda>(v, p). (v, bt_keys p)) (filter (\<lambda>(v, _). w < v) (commits S))"
      "\<forall>i ph t. txns S i = Some (ph, t) \<longrightarrow> w \<le> started_at t"
      using assms(1) by (auto simp: mem_inv_def history_ok_def)
    then show ?thesis
      unfolding history_ok_def by (intro exI [of _ w]) (simp add: assms(4))
  qed
  moreover have "txns_ok ?S"
    using assms(1) state_at_snoc(1) [OF log] unfolding mem_inv_def txns_ok_def
    by (auto simp: assms(4) le_SucI)
  moreover have "txns ?S \<noteq> (\<lambda>_. None)" using assms(2) by (auto simp: fun_eq_iff)
  ultimately show ?thesis
    using log_ok_snoc [OF log assms(3)] state_at_snoc(2) [OF log] com by (simp add: mem_inv_def assms(4))
qed

text \<open>The least version still registered, above which the history is kept.\<close>

definition watermark :: "Shared \<Rightarrow> nat" where
  "watermark s = (case bt_keys (active s) of [] \<Rightarrow> version s | v # _ \<Rightarrow> v)"

lemma trim_history_shared [simp]:
  "active (trim_history s) = active s" "version (trim_history s) = version s"
  "committed (trim_history s) = committed s"
  "history (trim_history s) = filter (\<lambda>(u, _). watermark s < u) (history s)"
  by (simp_all add: trim_history_def Let_def watermark_def)

lemma watermark_least: "btree (active s) \<Longrightarrow> bt_get (active s) v \<noteq> None \<Longrightarrow> watermark s \<le> v"
  using bt_keys_get [of v "active s"]
  by (cases "active s") (fastforce simp: watermark_def bt_keys_def)+

lemma watermark_bound:
  "\<forall>v. bt_get (active s) v \<noteq> None \<longrightarrow> v \<le> version s \<Longrightarrow> watermark s \<le> version s"
  by (cases "active s") (auto simp: watermark_def bt_keys_def)

text \<open>Dropping a transaction, before the history is trimmed.\<close>

definition deactivate :: "nat \<Rightarrow> Shared \<Rightarrow> Shared" where
  "deactivate v s =
     (case bt_get (active s) v of
        None \<Rightarrow> s
      | Some count \<Rightarrow>
          if count - 1 = 0 then s\<lparr>active := bt_remove v (active s)\<rparr>
          else s\<lparr>active := bt_insert v (count - 1) (active s)\<rparr>)"

lemma unregister_deactivate: "unregister v s = trim_history (deactivate v s)"
  by (simp add: unregister_def deactivate_def Let_def split: option.split)

lemma deactivate_shared [simp]:
  "version (deactivate v s) = version s" "committed (deactivate v s) = committed s"
  "history (deactivate v s) = history s"
  by (simp_all add: deactivate_def split: option.split)

lemma active_ok_deactivate:
  assumes "active_ok S" and "txns S i = Some (ph, t)"
  shows "active_ok (S\<lparr>shared := deactivate (started_at t) (shared S), txns := (txns S)(i := None)\<rparr>)"
proof -
  let ?S = "S\<lparr>shared := deactivate (started_at t) (shared S), txns := (txns S)(i := None)\<rparr>"
  let ?A = "live_at S (started_at t)"
  have live: "live_at (S\<lparr>shared := s, txns := (txns S)(i := None)\<rparr>) v =
      (if v = started_at t then ?A - {i} else live_at S v)" for s v
    using assms(2) by (auto simp: live_at_def)
  have A: "finite ?A" "i \<in> ?A"
    using assms by (auto simp: active_ok_def live_at_def intro: finite_live [unfolded live_at_def])
  then have get: "bt_get (active (shared S)) (started_at t) = Some (card ?A)"
    using assms(1) by (auto simp: active_ok_def)
  have card: "card (?A - {i}) = card ?A - 1" using A by simp
  have "card ?A - 1 = 0 \<longleftrightarrow> ?A - {i} = {}"
    using A card by (metis card_0_eq finite_Diff)
  then show ?thesis
    using assms(1) get card
    by (auto simp: active_ok_def live deactivate_def btree_simps)
qed

lemma live_registered:
  assumes "active_ok S" and "txns S i = Some (ph, t)"
  shows "watermark (shared S) \<le> started_at t"
proof -
  have "live_at S (started_at t) \<noteq> {}" using assms(2) by (auto simp: live_at_def)
  then have "bt_get (active (shared S)) (started_at t) \<noteq> None"
    using assms(1) by (simp add: active_ok_def)
  with assms(1) show ?thesis by (intro watermark_least) (simp_all add: active_ok_def)
qed

lemma registered_bound:
  assumes "active_ok S" and "txns_ok S"
  shows "watermark (shared S) \<le> version (shared S)"
proof (rule watermark_bound, intro allI impI)
  fix v assume "bt_get (active (shared S)) v \<noteq> None"
  then have "live_at S v \<noteq> {}" using assms(1) by (auto simp: active_ok_def split: if_splits)
  then show "v \<le> version (shared S)" using assms(2) by (auto simp: live_at_def txns_ok_def)
qed

lemma history_trimmed:
  assumes "history_ok S" and "active_ok S" and "txns_ok S"
  shows "history_ok (S\<lparr>shared := trim_history (shared S)\<rparr>)"
proof -
  obtain w where w: "w \<le> version (shared S)"
    "history (shared S) = map (\<lambda>(v, p). (v, bt_keys p)) (filter (\<lambda>(v, _). w < v) (commits S))"
    "\<forall>i ph t. txns S i = Some (ph, t) \<longrightarrow> w \<le> started_at t"
    using assms(1) by (auto simp: history_ok_def)
  let ?w = "max w (watermark (shared S))"
  have "history (trim_history (shared S)) =
      map (\<lambda>(v, p). (v, bt_keys p)) (filter (\<lambda>(v, _). ?w < v) (commits S))"
    by (simp add: w(2) filter_map comp_def case_prod_unfold conj_commute)
  moreover have "?w \<le> started_at t" if "txns S i = Some (ph, t)" for i ph t
    using w(3) live_registered [OF assms(2)] that by auto
  moreover have "?w \<le> version (shared S)" using w(1) registered_bound [OF assms(2,3)] by simp
  ultimately show ?thesis unfolding history_ok_def by (intro exI [of _ ?w]) auto
qed

lemma no_live_no_history:
  assumes "history_ok S" and "active_ok S" and "log_ok (version (shared S)) (commits S)"
    and "txns S = (\<lambda>_. None)"
  shows "history (trim_history (shared S)) = []"
proof -
  have "bt_get (active (shared S)) v = None" for v
    using assms(2,4) by (simp add: active_ok_def live_at_def)
  then have "active (shared S) = []"
    by (cases "active (shared S)") (metis bt_get.simps(2) option.distinct(1) surj_pair)+
  then have "watermark (shared S) = version (shared S)" by (simp add: watermark_def bt_keys_def)
  then show ?thesis
    using assms(1) log_bound [OF assms(3)] by (fastforce simp: history_ok_def filter_empty_conv)
qed

lemma mem_inv_drop:
  assumes "mem_inv S" and "txns S i = Some (ph, t)"
  shows "mem_inv (S\<lparr>shared := txn_drop t (shared S), txns := (txns S)(i := None)\<rparr>)"
proof -
  let ?s = "deactivate (started_at t) (shared S)"
  let ?D = "S\<lparr>shared := ?s, txns := (txns S)(i := None)\<rparr>"
  let ?S = "S\<lparr>shared := txn_drop t (shared S), txns := (txns S)(i := None)\<rparr>"
  have shared: "shared ?S = trim_history ?s" by (simp add: txn_drop_def unregister_deactivate)
  have act: "active_ok ?D"
    using assms by (intro active_ok_deactivate) (auto simp: mem_inv_def)
  then have "active_ok ?S"
    unfolding active_ok_def shared by (simp add: live_at_def)
  moreover have txns: "txns_ok ?S"
    using assms(1) unfolding mem_inv_def txns_ok_def shared by auto
  moreover have "history_ok ?S \<and> (txns ?S = (\<lambda>_. None) \<longrightarrow> history (shared ?S) = [])"
  proof -
    have D: "history_ok ?D" "txns_ok ?D"
      using assms(1) by (auto simp: mem_inv_def history_ok_def txns_ok_def)
    have S: "?S = ?D\<lparr>shared := trim_history (shared ?D)\<rparr>" using shared by simp
    have "history_ok ?S" unfolding S by (rule history_trimmed [OF D(1) act D(2)])
    moreover have "log_ok (version (shared ?D)) (commits ?D)" using assms(1) by (simp add: mem_inv_def)
    ultimately show ?thesis
      using no_live_no_history [OF D(1) act] shared by simp
  qed
  ultimately show ?thesis
    using assms(1) shared by (simp add: mem_inv_def)
qed


lemma txn_commit_cases:
  assumes "txn_commit t s = (res, t', s')"
  shows "pending t' = []" and "started_at t' = started_at t"
    and "res = Inr None \<Longrightarrow> s' = s \<and> pending t = []"
    and "res = Inl e \<Longrightarrow> s' = s"
    and "res = Inr (Some v) \<Longrightarrow> v = Suc (version s) \<and> \<not> has_conflict t (pending t) s \<and>
           s' = s\<lparr>version := Suc (version s), committed := apply_pending (pending t) (committed s),
                   history := history s @ [(Suc (version s), bt_keys (pending t))]\<rparr>"
  using assms by (auto simp: txn_commit_def has_conflict_def Let_def split: if_splits)

lemma mem_inv_step: "mem_step S S' \<Longrightarrow> mem_inv S \<Longrightarrow> mem_inv S'"
proof (induction rule: mem_step.induct)
  case (begin_txn S i t s)
  then show ?case by (intro mem_inv_begin)
next
  case (put_txn S i t k v)
  then show ?case
    by (intro mem_inv_update) (auto simp: mem_inv_def txns_ok_def txn_put_def btree_simps)
next
  case (delete_txn S i t k)
  then show ?case
    by (intro mem_inv_update) (auto simp: mem_inv_def txns_ok_def txn_delete_def btree_simps)
next
  case (commit_none S i t t' s)
  note c = txn_commit_cases [OF commit_none(2)]
  have "mem_inv (S\<lparr>txns := (txns S)(i \<mapsto> (Finished, t'))\<rparr>)"
    using commit_none c(1,2) by (intro mem_inv_update) auto
  then show ?case using c(3) by simp
next
  case (commit_conflict S i t e t' s)
  note c = txn_commit_cases [OF commit_conflict(2)]
  have "mem_inv (S\<lparr>txns := (txns S)(i \<mapsto> (Finished, t'))\<rparr>)"
    using commit_conflict c(1,2) by (intro mem_inv_update) auto
  then show ?case using c(4) [OF refl] by simp
next
  case (commit_ok S i t v t' s)
  note c = txn_commit_cases [OF commit_ok(2)]
  let ?S = "S\<lparr>txns := (txns S)(i \<mapsto> (Finished, t'))\<rparr>"
  have "mem_inv ?S"
    using commit_ok c(1,2) by (intro mem_inv_update) auto
  moreover have "btree (pending t)" using commit_ok by (auto simp: mem_inv_def txns_ok_def)
  ultimately have "mem_inv (?S\<lparr>shared := s, commits := commits ?S @ [(Suc (version (shared ?S)), pending t)]\<rparr>)"
    using c(5) [OF refl] by (intro mem_inv_log [of _ i Finished t']) auto
  moreover have "?S\<lparr>shared := s, commits := commits ?S @ [(Suc (version (shared ?S)), pending t)]\<rparr> =
      S\<lparr>shared := s, txns := (txns S)(i \<mapsto> (Finished, t')), commits := commits S @ [(v, pending t)]\<rparr>"
    using c(5) [OF refl] by simp
  ultimately show ?case by simp
next
  case (rollback_txn S i t)
  then show ?case
    by (intro mem_inv_update) (auto simp: txn_rollback_def)
next
  case (drop_txn S i ph t)
  then show ?case by (intro mem_inv_drop)
qed

lemma mem_inv_new: "mem_inv system_new"
  by (auto simp: mem_inv_def system_new_def Shared_default_def log_ok_def state_at_def history_ok_def
      txns_ok_def active_ok_def live_at_def)

lemma reachable_inv: "mem_reachable S \<Longrightarrow> mem_inv S"
  by (induction rule: mem_reachable.induct) (auto intro: mem_inv_new mem_inv_step)

section \<open>Running the store\<close>

text \<open>The steps as functions, to run the machine on concrete inputs.\<close>

definition run_begin :: "nat \<Rightarrow> Memory_System \<Rightarrow> Memory_System" where
  "run_begin i S = (let (t, s) = txn_open (shared S) in S\<lparr>shared := s, txns := (txns S)(i \<mapsto> (Open, t))\<rparr>)"

definition run_put :: "nat \<Rightarrow> bytes \<Rightarrow> bytes \<Rightarrow> Memory_System \<Rightarrow> Memory_System" where
  "run_put i k v S =
     (case txns S i of
        Some (Open, t) \<Rightarrow> S\<lparr>txns := (txns S)(i \<mapsto> (Open, txn_put k v t))\<rparr>
      | _ \<Rightarrow> S)"

definition run_commit :: "nat \<Rightarrow> Memory_System \<Rightarrow> Memory_System" where
  "run_commit i S =
     (case txns S i of
        Some (Open, t) \<Rightarrow>
          (case txn_commit t (shared S) of
             (Inr (Some v), t', s) \<Rightarrow>
               S\<lparr>shared := s, txns := (txns S)(i \<mapsto> (Finished, t')), commits := commits S @ [(v, pending t)]\<rparr>
           | (_, t', s) \<Rightarrow> S\<lparr>shared := s, txns := (txns S)(i \<mapsto> (Finished, t'))\<rparr>)
      | _ \<Rightarrow> S)"

lemma reachable_begin: "mem_reachable S \<Longrightarrow> txns S i = None \<Longrightarrow> mem_reachable (run_begin i S)"
  by (auto simp: run_begin_def intro: mem_reachable.step mem_step.begin_txn split: prod.split)

lemma reachable_put: "mem_reachable S \<Longrightarrow> mem_reachable (run_put i k v S)"
  by (auto simp: run_put_def intro: mem_reachable.step mem_step.put_txn
      split: option.split prod.split phase.split)

lemma reachable_commit: "mem_reachable S \<Longrightarrow> mem_reachable (run_commit i S)"
  by (auto simp: run_commit_def intro: mem_reachable.step mem_step.intros
      split: option.split prod.split phase.split sum.split)

text \<open>Two transactions begin, the first writes a key and commits, the second writes the same key.\<close>

definition race :: Memory_System where
  "race = run_put 1 [5] [8] (run_commit 0 (run_put 0 [5] [7] (run_begin 1 (run_begin 0 system_new))))"

lemma race_reachable: "mem_reachable race"
  unfolding race_def
  by (intro reachable_put reachable_commit reachable_begin mem_reachable.new)
    (simp_all add: run_begin_def system_new_def txn_open_def Let_def)

lemma race_eval:
  "txns race 1 = Some (Open, \<lparr>snapshot = Some [], started_at = 0, pending = [([5], Some [8])]\<rparr>)"
  "commits race = [(1, [([5], Some [7])])]" "version (shared race) = 1"
  "history (shared race) = [(1, [[5]])]" "committed (shared race) = [([5], [7])]"
  by (simp_all add: race_def run_put_def run_commit_def run_begin_def system_new_def Shared_default_def
      txn_open_def register_def txn_put_def txn_commit_def has_conflict_def apply_pending_def bt_keys_def)

section \<open>The properties of the store\<close>

text \<open>A commit sees a conflict exactly when the complete log has one.\<close>

lemma conflict_iff:
  assumes "mem_inv S" and "txns S i = Some (ph, t)"
  shows "has_conflict t p (shared S) \<longleftrightarrow>
     (\<exists>(v, q)\<in>set (commits S). started_at t < v \<and> set (bt_keys p) \<inter> set (bt_keys q) \<noteq> {})"
proof -
  obtain w where "w \<le> started_at t"
    "history (shared S) = map (\<lambda>(v, p). (v, bt_keys p)) (filter (\<lambda>(v, _). w < v) (commits S))"
    using assms by (auto simp: mem_inv_def history_ok_def)
  then show ?thesis
    by (fastforce simp: has_conflict_def list_ex_iff)
qed

text \<open>C22. A transaction reads the state at its beginning: in every reachable state of the store,
  whatever other transactions have committed, a read through an open transaction returns its own
  last write to the key, or else the value the complete log of commits gives the key at the version
  the transaction began at.\<close>

theorem snapshot_read:
  assumes "mem_reachable S" and "txns S i = Some (Open, t)"
  shows "txn_get t k =
    (case bt_get (pending t) k of
       Some w \<Rightarrow> w
     | None \<Rightarrow> bt_get (state_at (commits S) (started_at t)) k)"
  using reachable_inv [OF assms(1)] assms(2)
  by (auto simp: mem_inv_def txns_ok_def txn_get_def base_def split: option.split)

theorem snapshot_read_witness:
  "txn_get \<lparr>snapshot = Some [], started_at = 0, pending = [([5], Some [8])]\<rparr> [6] = None"
  using snapshot_read [OF race_reachable race_eval(1), of "[6]"]
  by (simp add: race_eval state_at_def)

text \<open>C40. A scan returns exactly what reading the keys one by one would: in every reachable state the
  pairs of an open transaction's scan are those keys inside the range whose read finds a value,
  each once, in ascending key order, or the same list reversed.\<close>

theorem scan_agrees_with_get:
  assumes "mem_reachable S" and "txns S i = Some (Open, t)"
  shows "((k, v) \<in> set (txn_scan t r ord)) = (range_contains r k \<and> txn_get t k = Some v) \<and>
    sorted_wrt (<) (map fst (txn_scan t r Ascending)) \<and>
    txn_scan t r Descending = rev (txn_scan t r Ascending)"
proof -
  have inv: "mem_inv S" using assms(1) by (rule reachable_inv)
  then have "txn_ok t"
    using assms(2) btree_state_at by (auto simp: mem_inv_def txns_ok_def txn_ok_def base_def)
  then show ?thesis
    using visible_range_get [of t r] bt_get_set [of "visible_range t r" k v]
    by (auto simp: txn_scan_def btree_def Let_def split: if_splits)
qed

theorem scan_agrees_with_get_witness:
  "([5], [8]) \<in> set (txn_scan \<lparr>snapshot = Some [], started_at = 0, pending = [([5], Some [8])]\<rparr> KeyRange_all Ascending)"
  using scan_agrees_with_get [OF race_reachable race_eval(1), of "[5]" "[8]" KeyRange_all Ascending]
  by (simp add: txn_get_def range_contains_def KeyRange_all_def)

text \<open>C5. First committer wins, with no lost conflict and no false one: a transaction with writes is
  refused exactly when some commit since it began, among all that ever happened and not only those
  the trimmed history still holds, wrote one of its keys; when it is refused the store is
  unchanged; when it is not, it gets the next version, and the committed map changes at its keys
  only, each of which still had the value the transaction saw.\<close>

theorem first_committer_wins:
  assumes "mem_reachable S" and "txns S i = Some (Open, t)" and "pending t \<noteq> []"
    and "txn_commit t (shared S) = (res, t', s)"
  shows "(res = Inl TransactionConflict) =
      (\<exists>(v, q)\<in>set (commits S). started_at t < v \<and> set (bt_keys (pending t)) \<inter> set (bt_keys q) \<noteq> {}) \<and>
    (res = Inl TransactionConflict \<and> s = shared S \<or>
     res = Inr (Some (version (shared S) + 1)) \<and> version s = version (shared S) + 1 \<and>
     (\<forall>k. bt_get (committed s) k =
        (case bt_get (pending t) k of None \<Rightarrow> bt_get (committed (shared S)) k | Some w \<Rightarrow> w)) \<and>
     (\<forall>k. bt_get (pending t) k = None \<or> bt_get (committed (shared S)) k = bt_get (base t) k))"
proof -
  have inv: "mem_inv S" using assms(1) by (rule reachable_inv)
  note conf = conflict_iff [OF inv assms(2), of "pending t"]
  have same: "has_conflict (t\<lparr>pending := [], snapshot := None\<rparr>) p s' = has_conflict t p s'" for p s'
    by (simp add: has_conflict_def)
  show ?thesis
  proof (cases "has_conflict t (pending t) (shared S)")
    case True
    then show ?thesis
      using assms(3,4) conf by (auto simp: txn_commit_def Let_def same)
  next
    case False
    have log: "log_ok (version (shared S)) (commits S)" and pend: "btree (pending t)"
      and com: "committed (shared S) = state_at (commits S) (version (shared S))"
      and base: "base t = state_at (commits S) (started_at t)" "started_at t \<le> version (shared S)"
      using inv assms(2) by (auto simp: mem_inv_def txns_ok_def base_def)
    have same_value: "bt_get (committed (shared S)) k = bt_get (base t) k" if "bt_get (pending t) k \<noteq> None" for k
      unfolding com base(1)
    proof (rule state_at_unchanged)
      show "\<forall>(x, p)\<in>set (commits S). started_at t < x \<and> x \<le> version (shared S) \<longrightarrow> k \<notin> set (bt_keys p)"
        using False conf that bt_keys_get [of k "pending t"] by fastforce
    qed (use log base(2) in \<open>auto simp: log_ok_def\<close>)
    have kept: "\<forall>k. bt_get (pending t) k = None \<or> bt_get (committed (shared S)) k = bt_get (base t) k"
      using same_value by blast
    have "btree (committed (shared S))" unfolding com using log by (rule btree_state_at)
    then show ?thesis
      using False assms(3,4) conf apply_pending_get [OF _ pend] kept
      by (auto simp: txn_commit_def Let_def same)
  qed
qed

theorem first_committer_wins_witness:
  "fst (txn_commit \<lparr>snapshot = Some [], started_at = 0, pending = [([5], Some [8])]\<rparr> (shared race)) =
     Inl TransactionConflict"
proof -
  let ?t = "\<lparr>snapshot = Some [], started_at = 0, pending = [([5], Some [8])]\<rparr>"
  obtain res t' s where c: "txn_commit ?t (shared race) = (res, t', s)" by (metis prod_cases3)
  show ?thesis
    using first_committer_wins [OF race_reachable race_eval(1) _ c] c by (simp add: race_eval bt_keys_def)
qed

text \<open>The conflict history does not outlive the transactions it is kept for: whenever no
  transaction is registered, the history is empty, and the committed map is the replay of every
  commit in version order.\<close>

theorem history_is_bounded:
  assumes "mem_reachable S"
  shows "(txns S = (\<lambda>_. None) \<longrightarrow> history (shared S) = []) \<and>
    map fst (commits S) = [1..<Suc (version (shared S))] \<and>
    committed (shared S) = fold (\<lambda>(_, p). apply_pending p) (commits S) []"
proof -
  have inv: "mem_inv S" using assms by (rule reachable_inv)
  then have "filter (\<lambda>(u, _). u \<le> version (shared S)) (commits S) = commits S"
    by (intro log_filter_all) (auto simp: mem_inv_def)
  then show ?thesis using inv by (simp add: mem_inv_def log_ok_def state_at_def)
qed

theorem history_is_bounded_witness:
  "committed (shared race) = fold (\<lambda>(_, p). apply_pending p) (commits race) []"
  using history_is_bounded [OF race_reachable] by blast

end
