(* ===== verification/Column_Set.thy ===== *)
theory Column_Set
  imports Prelude
begin

text \<open>
  The bitset of column ordinals of \<open>crates/slate-schema/src/columns.rs\<close>: 64-bit words and a
  count, against the set of ordinals it stands for.
\<close>

section \<open>The bitset\<close>

record ColumnSet =
  cs_words :: "u64 list"
  cs_len :: nat

definition ColumnSet_new :: ColumnSet where
  "ColumnSet_new = \<lparr>cs_words = [], cs_len = 0\<rparr>"

definition resize :: "nat \<Rightarrow> u64 list \<Rightarrow> u64 list" where
  "resize n ws = ws @ replicate (n - length ws) 0"

definition ColumnSet_insert :: "nat \<Rightarrow> ColumnSet \<Rightarrow> ColumnSet" where
  "ColumnSet_insert ordinal c =
     (let w = ordinal div 64;
          ws = (if length (cs_words c) \<le> w then resize (w + 1) (cs_words c) else cs_words c);
          bit = push_bit (ordinal mod 64) 1;
          slot = ws ! w
      in if slot AND bit = 0
         then \<lparr>cs_words = ws[w := slot OR bit], cs_len = cs_len c + 1\<rparr>
         else c\<lparr>cs_words := ws\<rparr>)"

definition ColumnSet_all :: "nat \<Rightarrow> ColumnSet" where
  "ColumnSet_all columns = fold ColumnSet_insert [0..<columns] ColumnSet_new"

definition ColumnSet_contains :: "ColumnSet \<Rightarrow> nat \<Rightarrow> bool" where
  "ColumnSet_contains c ordinal \<longleftrightarrow>
     ordinal div 64 < length (cs_words c) \<and>
     (cs_words c ! (ordinal div 64)) AND push_bit (ordinal mod 64) 1 \<noteq> 0"

definition ColumnSet_is_empty :: "ColumnSet \<Rightarrow> bool" where
  "ColumnSet_is_empty c \<longleftrightarrow> cs_len c = 0"

definition count_ones :: "u64 \<Rightarrow> nat" where
  "count_ones w = length (filter (bit w) [0..<64])"

text \<open>The words of the receiver are zipped with those of the argument and one more zero word; the
  words past both stay as they are.\<close>

fun or_words :: "u64 list \<Rightarrow> u64 list \<Rightarrow> u64 list" where
  "or_words (s # ss) (w # ws) = (s OR w) # or_words ss ws"
| "or_words ss _ = ss"

definition union_with :: "ColumnSet \<Rightarrow> ColumnSet \<Rightarrow> ColumnSet" where
  "union_with c d =
     (let ws = (if length (cs_words c) < length (cs_words d)
                then resize (length (cs_words d)) (cs_words c) else cs_words c);
          ws = or_words ws (cs_words d @ [0])
      in \<lparr>cs_words = ws, cs_len = sum_list (map count_ones ws)\<rparr>)"

definition covers_all :: "ColumnSet \<Rightarrow> nat \<Rightarrow> bool" where
  "covers_all c columns \<longleftrightarrow> columns \<le> cs_len c"

definition trailing_zeros :: "u64 \<Rightarrow> nat" where
  "trailing_zeros w = length (takeWhile (\<lambda>i. \<not> bit w i) [0..<64])"

definition contains_all :: "ColumnSet \<Rightarrow> ColumnSet \<Rightarrow> bool" where
  "contains_all c d \<longleftrightarrow>
     list_all (\<lambda>(i, w). i < length (cs_words c) \<and> (cs_words c ! i) AND w = w)
       (enumerate 0 (cs_words d))"

definition ColumnSet_from_iter :: "nat list \<Rightarrow> ColumnSet" where
  "ColumnSet_from_iter os = fold ColumnSet_insert os ColumnSet_new"

section \<open>Clearing the lowest bit\<close>

lemma trailing_zeros_bit:
  assumes "w \<noteq> 0"
  shows "trailing_zeros w < 64" and "bit w (trailing_zeros w)"
    and "n < trailing_zeros w \<Longrightarrow> \<not> bit w n"
proof -
  obtain i where i: "bit w i" using assms by (auto simp: bit_eq_iff)
  then have i64: "i < 64" using bit_imp_le_length [of w i] by simp
  have "\<not> (\<forall>x\<in>set [0..<64]. \<not> bit w x)" using i i64 by auto
  then have less: "length (takeWhile (\<lambda>i. \<not> bit w i) [0..<64]) < length [0..<64]"
    by (metis (no_types, lifting) length_takeWhile_le le_neq_implies_less set_takeWhileD takeWhile_eq_all_conv
        takeWhile_eq_take take_all_iff order_refl)
  then show "trailing_zeros w < 64" by (simp add: trailing_zeros_def)
  show "bit w (trailing_zeros w)"
    using nth_length_takeWhile [OF less] less by (simp add: trailing_zeros_def)
  assume "n < trailing_zeros w"
  then show "\<not> bit w n"
    using takeWhile_nth [of n "\<lambda>i. \<not> bit w i" "[0..<64]"] nth_mem [of n "takeWhile (\<lambda>i. \<not> bit w i) [0..<64]"]
      set_takeWhileD less
    by (fastforce simp: trailing_zeros_def)
qed

lemma and_minus_one:
  assumes "w \<noteq> (0 :: u64)"
  shows "w AND (w - 1) = unset_bit (trailing_zeros w) w"
proof -
  let ?t = "trailing_zeros w" and ?u = "unset_bit (trailing_zeros w) w"
  note t = trailing_zeros_bit [OF assms]
  have "w = ?u + 2 ^ ?t" using t(2) by (simp add: unset_bit_eq)
  then have "w - 1 = ?u + (2 ^ ?t - 1)" by (metis add_diff_eq)
  also have "\<dots> = ?u + mask ?t" by (simp add: mask_eq_exp_minus_1)
  also have "\<dots> = ?u OR mask ?t"
  proof (rule disjunctive_add_eq_or)
    show "?u AND mask ?t = 0"
      using t(3) by (intro bit_word_eqI) (auto simp: bit_simps)
  qed
  finally have m: "w - 1 = ?u OR mask ?t" .
  show ?thesis
    unfolding m using t(3) by (intro bit_word_eqI) (auto simp: bit_simps)
qed

lemma unset_bit_less:
  assumes "bit w t"
  shows "unat (unset_bit t w) < unat (w :: u64)"
proof -
  have "uint (unset_bit t w) = uint w AND uint (NOT (2 ^ t) :: u64)"
    by (simp add: unset_bit_eq_and_not push_bit_of_1 unsigned_and_eq)
  also have "\<dots> \<le> uint w" by (rule AND_upper1) simp
  finally have "unset_bit t w \<le> w" by (simp add: word_le_def)
  moreover have "\<not> bit (unset_bit t w) t" by (simp add: bit_unset_bit_iff)
  then have "unset_bit t w \<noteq> w" using assms by metis
  ultimately show ?thesis by (simp add: word_less_nat_alt [symmetric])
qed

function word_ordinals :: "nat \<Rightarrow> u64 \<Rightarrow> nat list" where
  "word_ordinals index bits =
     (if bits = 0 then []
      else (index * 64 + trailing_zeros bits) # word_ordinals index (bits AND (bits - 1)))"
  by pat_completeness auto
termination
  by (relation "measure (\<lambda>(i, w). unat w)") (auto simp: and_minus_one unset_bit_less trailing_zeros_bit)

declare word_ordinals.simps [simp del]

definition ordinals :: "ColumnSet \<Rightarrow> nat list" where
  "ordinals c = concat (map (\<lambda>(index, w). word_ordinals index w) (enumerate 0 (cs_words c)))"

section \<open>The set of ordinals\<close>

definition cs_set :: "ColumnSet \<Rightarrow> nat set" where
  "cs_set c = {i. i div 64 < length (cs_words c) \<and> bit (cs_words c ! (i div 64)) (i mod 64)}"

text \<open>The count is right and the last word is not zero, so that equal sets are equal bitsets.\<close>

definition cs_inv :: "ColumnSet \<Rightarrow> bool" where
  "cs_inv c \<longleftrightarrow> cs_len c = card (cs_set c) \<and> (cs_words c \<noteq> [] \<longrightarrow> last (cs_words c) \<noteq> 0)"

lemma finite_cs_set [simp]: "finite (cs_set c)"
proof (rule finite_subset)
  show "cs_set c \<subseteq> {..< 64 * length (cs_words c)}"
    by (auto simp: cs_set_def)
qed simp

lemma and_push_bit: "(w :: u64) AND 2 ^ n = 0 \<longleftrightarrow> \<not> bit w n"
  by (rule and_exp_eq_0_iff_not_bit)

lemma contains_cs_set: "ColumnSet_contains c i \<longleftrightarrow> i \<in> cs_set c"
  by (simp add: ColumnSet_contains_def cs_set_def and_push_bit)

definition grow :: "nat \<Rightarrow> u64 list \<Rightarrow> u64 list" where
  "grow w ws = (if length ws \<le> w then resize (w + 1) ws else ws)"

lemma grow_facts:
  "length (grow w ws) = max (length ws) (Suc w)"
  "i < length (grow w ws) \<Longrightarrow> grow w ws ! i = (if i < length ws then ws ! i else 0)"
  by (auto simp: grow_def resize_def nth_append)

lemma cs_set_insert: "cs_set (ColumnSet_insert i c) = insert i (cs_set c)"
proof -
  let ?ws = "grow (i div 64) (cs_words c)"
  let ?b = "push_bit (i mod 64) 1 :: u64"
  have ins: "ColumnSet_insert i c =
      (if bit (?ws ! (i div 64)) (i mod 64) then c\<lparr>cs_words := ?ws\<rparr>
       else \<lparr>cs_words = ?ws[i div 64 := (?ws ! (i div 64)) OR ?b], cs_len = cs_len c + 1\<rparr>)"
    by (simp add: ColumnSet_insert_def Let_def grow_def and_push_bit)
  have w: "i div 64 < length ?ws" by (simp add: grow_facts)
  have old: "j \<in> cs_set c \<longleftrightarrow> j div 64 < length ?ws \<and> bit (?ws ! (j div 64)) (j mod 64)" for j
    by (auto simp: cs_set_def grow_facts split: if_splits)
  have eq: "j div 64 = i div 64 \<Longrightarrow> j mod 64 = i mod 64 \<Longrightarrow> j = i" for j
    by (metis div_mult_mod_eq)
  show ?thesis
  proof (cases "bit (?ws ! (i div 64)) (i mod 64)")
    case True
    then have "cs_set (ColumnSet_insert i c) = cs_set c" by (auto simp: ins old, auto simp: cs_set_def)
    moreover have "i \<in> cs_set c" using True w old by simp
    ultimately show ?thesis by auto
  next
    case False
    have "j \<in> cs_set (ColumnSet_insert i c) \<longleftrightarrow> j = i \<or> j \<in> cs_set c" for j
      using False w eq [of j]
      by (cases "j div 64 = i div 64")
        (auto simp: ins old, auto simp: cs_set_def bit_or_iff bit_exp_iff)
    then show ?thesis by auto
  qed
qed


lemma insert_len: "cs_len (ColumnSet_insert i c) = cs_len c + (if i \<in> cs_set c then 0 else 1)"
proof -
  have "i \<in> cs_set c \<longleftrightarrow> bit (grow (i div 64) (cs_words c) ! (i div 64)) (i mod 64)"
    by (auto simp: cs_set_def grow_facts split: if_splits)
  then show ?thesis by (simp add: ColumnSet_insert_def Let_def grow_def and_push_bit)
qed

lemma insert_last:
  assumes "cs_words c \<noteq> [] \<longrightarrow> last (cs_words c) \<noteq> 0"
  shows "last (cs_words (ColumnSet_insert i c)) \<noteq> 0"
proof -
  let ?ws = "cs_words (ColumnSet_insert i c)"
  have len: "length ?ws = max (length (cs_words c)) (Suc (i div 64))"
    using grow_facts(1) [of "i div 64" "cs_words c"]
    by (simp add: ColumnSet_insert_def Let_def grow_def and_push_bit)
  then have last: "last ?ws = ?ws ! (length ?ws - 1)" by (intro last_conv_nth) auto
  show ?thesis
  proof (cases "length (cs_words c) \<le> Suc (i div 64)")
    case True
    have "i \<in> cs_set (ColumnSet_insert i c)" by (simp add: cs_set_insert)
    then show ?thesis using True len last by (auto simp: cs_set_def)
  next
    case False
    let ?n = "length (cs_words c) - 1"
    have "last (cs_words c) = cs_words c ! ?n" using False by (intro last_conv_nth) auto
    then obtain k where k: "bit (cs_words c ! ?n) k" using False assms by (auto simp: bit_eq_iff)
    then have "k < 64" using bit_imp_le_length [of "cs_words c ! ?n" k] by simp
    then have "?n * 64 + k \<in> cs_set c" using k False by (simp add: cs_set_def)
    then have "?n * 64 + k \<in> cs_set (ColumnSet_insert i c)" by (simp add: cs_set_insert)
    then show ?thesis using \<open>k < 64\<close> False len last by (auto simp: cs_set_def)
  qed
qed

lemma cs_inv_insert: "cs_inv c \<Longrightarrow> cs_inv (ColumnSet_insert i c)"
  using insert_last [of c i] by (simp add: cs_inv_def insert_len cs_set_insert card_insert_if)

lemma cs_inv_new [simp]: "cs_inv ColumnSet_new" "cs_set ColumnSet_new = {}"
  by (simp_all add: cs_inv_def cs_set_def ColumnSet_new_def)

lemma fold_insert: "cs_inv c \<Longrightarrow> cs_inv (fold ColumnSet_insert os c) \<and>
    cs_set (fold ColumnSet_insert os c) = cs_set c \<union> set os"
  by (induction os arbitrary: c) (simp_all add: cs_inv_insert cs_set_insert)

lemma from_iter_set [simp]: "cs_inv (ColumnSet_from_iter os)" "cs_set (ColumnSet_from_iter os) = set os"
  using fold_insert [of ColumnSet_new os] by (simp_all add: ColumnSet_from_iter_def)

subsection \<open>Listing\<close>

lemma word_ordinals_filter: "word_ordinals index w = map ((+) (index * 64)) (filter (bit w) [0..<64])"
proof (induction index w rule: word_ordinals.induct)
  case (1 index w)
  show ?case
  proof (cases "w = 0")
    case False
    let ?t = "trailing_zeros w"
    note t = trailing_zeros_bit [OF False]
    have "[0..<64] = [0..<?t] @ ?t # [Suc ?t..<64]"
      using t(1) by (metis le_add1 less_imp_le_nat upt_add_eq_append upt_conv_Cons add.left_neutral le_add_diff_inverse zero_le)
    moreover have "filter (bit v) [0..<?t] = []" if "v = w \<or> v = unset_bit ?t w" for v
      using that t(3) by (auto simp: filter_empty_conv bit_unset_bit_iff)
    moreover have "filter (bit (unset_bit ?t w)) [Suc ?t..<64] = filter (bit w) [Suc ?t..<64]"
      by (rule filter_cong) (auto simp: bit_unset_bit_iff)
    ultimately have "filter (bit w) [0..<64] = ?t # filter (bit (unset_bit ?t w)) [0..<64]"
      using t(2) by (simp add: bit_unset_bit_iff)
    then show ?thesis
      using 1 False by (subst word_ordinals.simps) (simp add: and_minus_one)
  qed (simp add: word_ordinals.simps)
qed

lemma ordinals_upt: "ordinals c = filter (\<lambda>i. i \<in> cs_set c) [0..<64 * length (cs_words c)]"
proof -
  have "concat (map (\<lambda>(index, w). word_ordinals index w) (enumerate n ws)) =
      filter (\<lambda>i. i div 64 < n + length ws \<and> bit (ws ! (i div 64 - n)) (i mod 64)) [64 * n..<64 * (n + length ws)]"
    for n ws
  proof (induction ws arbitrary: n)
    case (Cons w ws)
    have plus: "(+) (n * 64) = (\<lambda>i. i + n * 64)" by (simp add: fun_eq_iff)
    have "map ((+) (n * 64)) [0..<64] = [64 * n..<64 * n + 64]"
      unfolding plus map_add_upt by (simp add: add.commute mult.commute)
    moreover have "[64 * n..<64 * (n + length (w # ws))] =
        [64 * n..<64 * n + 64] @ [64 * Suc n..<64 * (Suc n + length ws)]"
      using upt_add_eq_append [of "64 * n" "64 * n + 64" "64 * length ws"] by (simp add: algebra_simps)
    ultimately have "[64 * n..<64 * (n + length (w # ws))] =
        map ((+) (n * 64)) [0..<64] @ [64 * Suc n..<64 * (Suc n + length ws)]" by simp
    moreover have "filter (\<lambda>i. i div 64 < n + length (w # ws) \<and> bit ((w # ws) ! (i div 64 - n)) (i mod 64))
        (map ((+) (n * 64)) [0..<64]) = word_ordinals n w"
      by (simp add: word_ordinals_filter filter_map comp_def) (rule filter_cong, auto)
    moreover have "filter (\<lambda>i. i div 64 < n + length (w # ws) \<and> bit ((w # ws) ! (i div 64 - n)) (i mod 64))
        [64 * Suc n..<64 * (Suc n + length ws)] =
      filter (\<lambda>i. i div 64 < Suc n + length ws \<and> bit (ws ! (i div 64 - Suc n)) (i mod 64))
        [64 * Suc n..<64 * (Suc n + length ws)]"
    proof (rule filter_cong [OF refl])
      fix i assume "i \<in> set [64 * Suc n..<64 * (Suc n + length ws)]"
      then have "Suc n \<le> i div 64" by (simp add: less_eq_div_iff_mult_less_eq mult.commute)
      then have "i div 64 - n = Suc (i div 64 - Suc n)" by simp
      then show "(i div 64 < n + length (w # ws) \<and> bit ((w # ws) ! (i div 64 - n)) (i mod 64)) =
          (i div 64 < Suc n + length ws \<and> bit (ws ! (i div 64 - Suc n)) (i mod 64))" by simp
    qed
    ultimately show ?case using Cons.IH [of "Suc n"] by simp
  qed simp
  from this [of 0 "cs_words c"] show ?thesis by (simp add: ordinals_def cs_set_def)
qed


lemma sorted_filter_upt: "finite A \<Longrightarrow> \<forall>i\<in>A. i < n \<Longrightarrow> filter (\<lambda>i. i \<in> A) [0..<n] = sorted_list_of_set A"
  by (rule sorted_distinct_set_unique) (auto simp: sorted_filter [of id, simplified])

lemma cs_set_bound: "i \<in> cs_set c \<Longrightarrow> i < 64 * length (cs_words c)"
  by (auto simp: cs_set_def)

lemma ordinals_sorted_list: "ordinals c = sorted_list_of_set (cs_set c)"
  unfolding ordinals_upt by (rule sorted_filter_upt) (simp_all add: cs_set_bound)

subsection \<open>Union and inclusion\<close>

lemma length_word_ordinals [simp]: "length (word_ordinals i w) = count_ones w"
  by (simp add: word_ordinals_filter count_ones_def)

lemma card_cs_set: "card (cs_set c) = sum_list (map count_ones (cs_words c))"
proof -
  have "card (cs_set c) = length (ordinals c)" by (simp add: ordinals_sorted_list)
  also have "\<dots> = sum_list (map count_ones (cs_words c))"
  proof -
    have "sum_list (map (length \<circ> (\<lambda>(i, w). word_ordinals i w)) (enumerate n ws)) = sum_list (map count_ones ws)"
      for n ws by (induction ws arbitrary: n) simp_all
    then show ?thesis by (simp add: ordinals_def length_concat)
  qed
  finally show ?thesis .
qed

lemma or_words_facts:
  "length (or_words ss ws) = length ss"
  "i < length ss \<Longrightarrow> or_words ss ws ! i = ss ! i OR (if i < length ws then ws ! i else 0)"
  by (induction ss ws arbitrary: i rule: or_words.induct) (auto simp: nth_Cons split: nat.split)

lemma union_facts:
  "length (cs_words (union_with c d)) = max (length (cs_words c)) (length (cs_words d))"
  "i < length (cs_words (union_with c d)) \<Longrightarrow> cs_words (union_with c d) ! i =
     (if i < length (cs_words c) then cs_words c ! i else 0) OR
     (if i < length (cs_words d) then cs_words d ! i else 0)"
  by (auto simp: union_with_def Let_def or_words_facts resize_def nth_append)

lemma cs_set_union: "cs_set (union_with c d) = cs_set c \<union> cs_set d"
proof -
  have "j \<in> cs_set (union_with c d) \<longleftrightarrow> j \<in> cs_set c \<or> j \<in> cs_set d" for j
    unfolding cs_set_def by (auto simp: union_facts bit_or_iff less_max_iff_disj split: if_splits)
  then show ?thesis by auto
qed

lemma word_nonzero:
  assumes "n < length (cs_words c)"
  shows "cs_words c ! n \<noteq> 0 \<longleftrightarrow> (\<exists>k<64. n * 64 + k \<in> cs_set c)"
proof -
  have "bit (cs_words c ! n) k \<Longrightarrow> k < 64" for k using bit_imp_le_length [of "cs_words c ! n" k] by simp
  then have "cs_words c ! n \<noteq> 0 \<longleftrightarrow> (\<exists>k<64. bit (cs_words c ! n) k)" by (auto simp: bit_eq_iff)
  then show ?thesis using assms by (auto simp: cs_set_def)
qed

lemma last_word: "cs_inv c \<Longrightarrow> n < length (cs_words c) \<Longrightarrow> Suc n = length (cs_words c) \<Longrightarrow> cs_words c ! n \<noteq> 0"
  by (cases "cs_words c" rule: rev_cases) (auto simp: cs_inv_def nth_append)

lemma cs_inv_union:
  assumes "cs_inv c" and "cs_inv d"
  shows "cs_inv (union_with c d)"
proof -
  let ?u = "union_with c d"
  have "last (cs_words ?u) \<noteq> 0" if ne: "cs_words ?u \<noteq> []"
  proof -
    define n where "n = length (cs_words ?u) - 1"
    have n: "n < length (cs_words ?u)" "Suc n = length (cs_words ?u)"
      using ne by (auto simp: n_def)
    then have "Suc n = max (length (cs_words c)) (length (cs_words d))" using union_facts(1) by simp
    then have "Suc n = length (cs_words c) \<or> Suc n = length (cs_words d)" by (auto simp: max_def)
    then have "\<exists>k<64. n * 64 + k \<in> cs_set c \<union> cs_set d"
      using last_word [OF assms(1), of n] last_word [OF assms(2), of n] word_nonzero [of n] by auto
    then have "cs_words ?u ! n \<noteq> 0" using word_nonzero [OF n(1)] by (simp add: cs_set_union)
    then show ?thesis using ne by (simp add: last_conv_nth n_def)
  qed
  then show ?thesis
    using card_cs_set [of ?u] by (simp add: cs_inv_def) (simp add: union_with_def Let_def)
qed

lemma and_subset: "a AND b = b \<longleftrightarrow> (\<forall>n. bit b n \<longrightarrow> bit (a :: u64) n)"
proof -
  have "bit b n \<Longrightarrow> n < 64" for n using bit_imp_le_length [of b n] by simp
  then show ?thesis by (auto simp: bit_eq_iff bit_and_iff)
qed

lemma contains_all_subset:
  assumes "cs_inv d"
  shows "contains_all c d \<longleftrightarrow> cs_set d \<subseteq> cs_set c"
proof
  assume "contains_all c d"
  then show "cs_set d \<subseteq> cs_set c"
    by (auto simp: contains_all_def cs_set_def list_all_length nth_enumerate_eq and_subset)
next
  assume sub: "cs_set d \<subseteq> cs_set c"
  have mem: "i < length (cs_words c) \<and> bit (cs_words c ! i) n"
    if "i < length (cs_words d)" "bit (cs_words d ! i) n" for i n
  proof -
    have "n < 64" using bit_imp_le_length [of "cs_words d ! i" n] that(2) by simp
    then have "i * 64 + n \<in> cs_set d" using that by (simp add: cs_set_def)
    then have "i * 64 + n \<in> cs_set c" using sub by blast
    then show ?thesis using \<open>n < 64\<close> by (simp add: cs_set_def)
  qed
  have "length (cs_words d) \<le> length (cs_words c)"
  proof (cases "cs_words d = []")
    case False
    then have "cs_words d ! (length (cs_words d) - 1) \<noteq> 0"
      using assms by (simp add: cs_inv_def last_conv_nth)
    then obtain n where "bit (cs_words d ! (length (cs_words d) - 1)) n" by (auto simp: bit_eq_iff)
    then show ?thesis using mem [of "length (cs_words d) - 1" n] False by auto
  qed simp
  then show "contains_all c d"
    using mem by (auto simp: contains_all_def list_all_length nth_enumerate_eq and_subset)
qed

section \<open>The property of the bitset\<close>

text \<open>The bitset is the set of the ordinals it contains: inserting and uniting add exactly the
  ordinals they should, the stored count is the number of members, one set contains another
  exactly when all its members are members, and listing gives the members in ascending order,
  also across word boundaries.\<close>

theorem column_set_refines_set:
  assumes "cs_inv c" and "cs_inv d"
  shows "ColumnSet_contains (ColumnSet_insert i c) j = (j = i \<or> ColumnSet_contains c j) \<and>
    ColumnSet_contains (union_with c d) j = (ColumnSet_contains c j \<or> ColumnSet_contains d j) \<and>
    contains_all c d = ({k. ColumnSet_contains d k} \<subseteq> {k. ColumnSet_contains c k}) \<and>
    ordinals c = sorted_list_of_set {k. ColumnSet_contains c k} \<and>
    cs_len c = card {k. ColumnSet_contains c k} \<and>
    cs_inv (ColumnSet_insert i c) \<and> cs_inv (union_with c d)"
  using assms cs_inv_insert [of c i] cs_inv_union [of c d] contains_all_subset [of d c]
  by (auto simp: contains_cs_set cs_set_insert cs_set_union ordinals_sorted_list cs_inv_def)

theorem column_set_refines_set_witness:
  "ordinals (ColumnSet_from_iter [70, 3]) = sorted_list_of_set {3, 70} \<and>
   \<not> contains_all (ColumnSet_from_iter [70, 3]) (ColumnSet_from_iter [5])"
proof -
  have "{k. ColumnSet_contains (ColumnSet_from_iter os) k} = set os" for os
    by (simp add: contains_cs_set)
  then show ?thesis
    using column_set_refines_set [of "ColumnSet_from_iter [70, 3]" "ColumnSet_from_iter [5]"]
    by (simp add: insert_commute)
qed

end
