(* ===== verification/Schema_Build.thy ===== *)
theory Schema_Build
  imports Schema_Types
begin

text \<open>
  \<open>TableBuilder::build\<close> of \<open>crates/slate-schema/src/table.rs\<close>, one definition per step of the
  function and in its order, and what it establishes: \<open>table_ok\<close> collects everything the rest of the
  system assumes of a table, and every table built from a builder that the builder's own methods
  can construct satisfies it.
\<close>

section \<open>The steps of \<open>build\<close>\<close>

definition check_duplicate_columns :: "string \<Rightarrow> ColumnDef list \<Rightarrow> SchemaError + unit" where
  "check_duplicate_columns table cols =
     try_distinct col_name (\<lambda>c. DuplicateColumn table (col_name c)) (\<lambda>_. Inr ()) [] cols"

definition MAX_SCALE :: u8 where
  "MAX_SCALE = 18"

definition check_column :: "string \<Rightarrow> ColumnDef \<Rightarrow> SchemaError + unit" where
  "check_column table c =
     rbind
       (if col_ty c = TArray then
          (case col_element c of
             None \<Rightarrow> Inl (ArrayWithoutElementType table (col_name c))
           | Some TArray \<Rightarrow> Inl (NestedArrayColumn table (col_name c))
           | Some _ \<Rightarrow> Inr ())
        else Inr ())
       (\<lambda>_. if col_ty c = TDecimal \<and> col_scale c > MAX_SCALE
            then Inl (ScaleTooLarge table (col_name c) (col_scale c) MAX_SCALE)
            else Inr ())"

definition check_managed :: "string \<Rightarrow> string list \<Rightarrow> ColumnDef \<Rightarrow> SchemaError + unit" where
  "check_managed table key c =
     (case col_managed c of
        None \<Rightarrow> Inr ()
      | Some _ \<Rightarrow>
          if col_ty c \<noteq> TI64 then Inl (ManagedColumnNotTimestamp table (col_name c) (col_ty c))
          else if col_nullable c then Inl (ManagedColumnNullable table (col_name c))
          else if list_ex (\<lambda>n. n = col_name c) key then Inl (ManagedColumnInKey table (col_name c))
          else Inr ())"

fun change_column :: "ColumnChange \<Rightarrow> string" where
  "change_column (ChangeDefault c _) = c"
| "change_column (ChangeDropped c _) = c"
| "change_column (ChangeRenamed c _) = c"

fun change_one :: "string \<Rightarrow> u32 \<Rightarrow> ColumnChange \<Rightarrow> ColumnDef \<Rightarrow> SchemaError + ColumnDef" where
  "change_one table sv (ChangeDefault n v) c =
     (case value_type v of
        None \<Rightarrow> Inl (NullDefault table n)
      | Some actual \<Rightarrow>
          if actual \<noteq> col_ty c then Inl (ValueTypeMismatch table n (col_ty c) (type_name v))
          else Inr (c\<lparr>col_default := Some v\<rparr>))"
| "change_one table sv (ChangeDropped n at) c =
     (if at \<le> col_added_in c then Inl (ColumnDroppedBeforeAdded table n (col_added_in c) at)
      else if at > sv then Inl (ColumnDroppedInFutureVersion table n at sv)
      else Inr (c\<lparr>col_dropped_in := Some at\<rparr>))"
| "change_one table sv (ChangeRenamed n previous) c =
     Inr (c\<lparr>col_previous_names := col_previous_names c @ [previous]\<rparr>)"

definition apply_change ::
  "string \<Rightarrow> u32 \<Rightarrow> ColumnDef list \<Rightarrow> ColumnChange \<Rightarrow> SchemaError + ColumnDef list" where
  "apply_change table sv cols ch =
     (let n = change_column ch in
      rbind (ok_or (UnknownColumn table n) (position (\<lambda>c. col_name c = n) cols)) (\<lambda>i.
      case get cols i of
        None \<Rightarrow> Inr cols
      | Some c \<Rightarrow> rbind (change_one table sv ch c) (\<lambda>c'. Inr (cols[i := c']))))"

definition apply_changes :: "string \<Rightarrow> TableBuilder \<Rightarrow> SchemaError + TableBuilder" where
  "apply_changes table b =
     rbind (try_fold (apply_change table (tb_schema_version b)) (tb_columns b) (tb_changes b))
       (\<lambda>cols. Inr (b\<lparr>tb_columns := cols, tb_changes := []\<rparr>))"

definition column_names :: "ColumnDef \<Rightarrow> string list" where
  "column_names c = col_name c # col_previous_names c"

definition check_name_resolution :: "string \<Rightarrow> ColumnDef list \<Rightarrow> SchemaError + unit" where
  "check_name_resolution table cols =
     try_distinct (\<lambda>n. n) (AmbiguousColumnName table) (\<lambda>_. Inr ()) []
       (concat (map column_names cols))"

definition check_evolution :: "string \<Rightarrow> ColumnDef list \<Rightarrow> SchemaError + unit" where
  "check_evolution table cols =
     try_each (\<lambda>c. if is_dropped c \<and> col_default c \<noteq> None
                   then Inl (DroppedColumnHasDefault table (col_name c)) else Inr ()) cols"

definition reject_dropped ::
  "ColumnDef list \<Rightarrow> Ordinal \<Rightarrow> string \<Rightarrow> string \<Rightarrow> string \<Rightarrow> SchemaError + unit" where
  "reject_dropped cols i table key n =
     (if is_some_and is_dropped (get cols i) then Inl (DroppedColumnInKey table key n) else Inr ())"

definition reject_unkeyable ::
  "ColumnDef list \<Rightarrow> Ordinal \<Rightarrow> string \<Rightarrow> string \<Rightarrow> string \<Rightarrow> SchemaError + unit" where
  "reject_unkeyable cols i table key n =
     (case map_option col_ty (get cols i) of
        Some TVector \<Rightarrow> Inl (VectorInKey table key n)
      | Some TArray \<Rightarrow> Inl (ArrayInKey table key n)
      | _ \<Rightarrow> Inr ())"

definition resolve :: "string \<Rightarrow> ColumnDef list \<Rightarrow> string \<Rightarrow> SchemaError + Ordinal" where
  "resolve table cols n = ok_or (UnknownColumn table n) (position (\<lambda>c. col_name c = n) cols)"

definition key_column ::
  "string \<Rightarrow> ColumnDef list \<Rightarrow> Ordinal list \<Rightarrow> string \<Rightarrow> SchemaError + Ordinal list" where
  "key_column table cols key n =
     rbind (resolve table cols n) (\<lambda>i.
     if i \<in> set key then Inl (DuplicateKeyColumn table ''primary key'' n)
     else if is_some_and col_nullable (get cols i) then Inl (NullablePrimaryKeyColumn table n)
     else
       rbind (reject_unkeyable cols i table ''primary key'' n) (\<lambda>_.
       rbind (reject_dropped cols i table ''primary key'' n) (\<lambda>_.
       Inr (key @ [i]))))"

definition resolve_primary_key ::
  "string \<Rightarrow> ColumnDef list \<Rightarrow> string list \<Rightarrow> SchemaError + Ordinal list" where
  "resolve_primary_key table cols ns =
     (if ns = [] then Inl (MissingPrimaryKey table) else try_fold (key_column table cols) [] ns)"

definition resolve_tenant ::
  "string \<Rightarrow> ColumnDef list \<Rightarrow> Ordinal list \<Rightarrow> string option \<Rightarrow> SchemaError + Ordinal option" where
  "resolve_tenant table cols key tenant =
     (case tenant of
        None \<Rightarrow> Inr None
      | Some n \<Rightarrow>
          rbind (resolve table cols n) (\<lambda>i.
          if get key 0 \<noteq> Some i then Inl (TenantColumnNotKeyPrefix table n) else Inr (Some i)))"

definition resolve_soft_delete ::
  "string \<Rightarrow> ColumnDef list \<Rightarrow> string option \<Rightarrow> SchemaError + Ordinal option" where
  "resolve_soft_delete table cols soft =
     (case soft of
        None \<Rightarrow> Inr None
      | Some n \<Rightarrow>
          rbind (resolve table cols n) (\<lambda>i.
          rbind (ok_or (UnknownColumn table n) (get cols i)) (\<lambda>c.
          if col_ty c \<noteq> TI64 then Inl (SoftDeleteNotTimestamp table n (col_ty c))
          else if \<not> col_nullable c then Inl (SoftDeleteNotNullable table n)
          else if col_managed c \<noteq> None then Inl (SoftDeleteManaged table n)
          else Inr (Some i))))"

definition index_column ::
  "string \<Rightarrow> ColumnDef list \<Rightarrow> string \<Rightarrow> IndexColumn list \<Rightarrow> string \<times> Direction \<Rightarrow>
     SchemaError + IndexColumn list" where
  "index_column table cols ixname ics nd =
     (case nd of (n, d) \<Rightarrow>
      rbind (resolve table cols n) (\<lambda>i.
      if list_ex (\<lambda>c. ic_ordinal c = i) ics then Inl (DuplicateKeyColumn table ixname n)
      else
        rbind (reject_unkeyable cols i table ixname n) (\<lambda>_.
        rbind (reject_dropped cols i table ixname n) (\<lambda>_.
        Inr (ics @ [\<lparr>ic_ordinal = i, ic_direction = d\<rparr>])))))"

definition text_reason :: "ColumnDef list \<Rightarrow> IndexBuilder \<Rightarrow> IndexColumn list \<Rightarrow> string option" where
  "text_reason cols spec ics =
     (if ib_unique spec then
        Some ''is also unique, which no realistic text can satisfy: a term appears in many rows by construction''
      else if length ics \<noteq> 1 then
        Some ''names more than one column, and a cross product of two columns' terms is a different and much larger structure''
      else if (case get ics 0 of None \<Rightarrow> None | Some c \<Rightarrow> map_option col_ty (get cols (ic_ordinal c)))
                \<noteq> Some TStr then
        Some ''keys on a column that is not a string''
      else None)"

definition build_index ::
  "string \<Rightarrow> ColumnDef list \<Rightarrow> IndexDef list \<Rightarrow> IndexBuilder \<Rightarrow> SchemaError + IndexDef list" where
  "build_index table cols ixs spec =
     (if ib_text spec \<and> ib_expression spec \<noteq> None then
        Inl (UnindexableText table (ib_name spec)
          ''also keys on an expression, and a term is not a computed value'')
      else if (ib_columns spec = []) = (ib_expression spec = None) then
        Inl (EmptyIndex table (ib_name spec))
      else if list_ex (\<lambda>i. ix_id i = ib_id spec \<or> ix_name i = ib_name spec) ixs then
        Inl (DuplicateIndex table (ib_name spec))
      else
        rbind (try_fold (index_column table cols (ib_name spec)) [] (ib_columns spec)) (\<lambda>ics.
        rbind
          (if ib_text spec then
             (case text_reason cols spec ics of
                Some reason \<Rightarrow> Inl (UnindexableText table (ib_name spec) reason)
              | None \<Rightarrow> Inr ())
           else Inr ()) (\<lambda>_.
        Inr (ixs @
          [\<lparr>ix_id = ib_id spec, ix_name = ib_name spec, ix_columns = ics, ix_unique = ib_unique spec,
            ix_predicate = ib_predicate spec, ix_expression = ib_expression spec,
            ix_text = ib_text spec\<rparr>]))))"

definition check_checks :: "string \<Rightarrow> CheckDef list \<Rightarrow> SchemaError + unit" where
  "check_checks table checks =
     try_distinct ck_name (\<lambda>k. DuplicateCheck table (ck_name k))
       (\<lambda>k. if is_some_and (\<lambda>m. trim m = []) (ck_message k)
            then Inl (EmptyCheckMessage table (ck_name k)) else Inr ())
       [] checks"

definition foreign_key_column ::
  "string \<Rightarrow> ColumnDef list \<Rightarrow> string \<Rightarrow> Ordinal list \<Rightarrow> string \<Rightarrow> SchemaError + Ordinal list" where
  "foreign_key_column table cols fkname os n =
     rbind (resolve table cols n) (\<lambda>i.
     if i \<in> set os then Inl (DuplicateKeyColumn table fkname n)
     else rbind (reject_dropped cols i table fkname n) (\<lambda>_. Inr (os @ [i])))"

definition build_foreign_key ::
  "string \<Rightarrow> ColumnDef list \<Rightarrow> ForeignKeyDef list \<Rightarrow> ForeignKeyBuilder \<Rightarrow>
     SchemaError + ForeignKeyDef list" where
  "build_foreign_key table cols fks spec =
     (if fb_columns spec = [] then Inl (EmptyForeignKey table (fb_name spec))
      else if list_ex (\<lambda>f. fk_name f = fb_name spec) fks then
        Inl (DuplicateForeignKey table (fb_name spec))
      else
        rbind (try_fold (foreign_key_column table cols (fb_name spec)) [] (fb_columns spec)) (\<lambda>os.
        Inr (fks @ [finish spec os])))"

definition compute_body_columns :: "ColumnDef list \<Rightarrow> Ordinal list \<Rightarrow> Ordinal list" where
  "compute_body_columns cols key = filter (\<lambda>i. i \<notin> set key) [0..<length cols]"

definition compute_stored_columns :: "ColumnDef list \<Rightarrow> Ordinal list \<Rightarrow> Ordinal list" where
  "compute_stored_columns cols body = filter (\<lambda>i. \<not> is_some_and is_dropped (get cols i)) body"

definition build :: "TableBuilder \<Rightarrow> SchemaError + TableDef" where
  "build b =
     (let table = tb_name b in
      rbind (check_duplicate_columns table (tb_columns b)) (\<lambda>_.
      rbind (try_each (check_column table) (tb_columns b)) (\<lambda>_.
      rbind (try_each (check_managed table (tb_primary_key b)) (tb_columns b)) (\<lambda>_.
      rbind (apply_changes table b) (\<lambda>b.
      let cols = tb_columns b in
      rbind (check_name_resolution table cols) (\<lambda>_.
      rbind (check_evolution table cols) (\<lambda>_.
      rbind (resolve_primary_key table cols (tb_primary_key b)) (\<lambda>key.
      rbind (resolve_tenant table cols key (tb_tenant_column b)) (\<lambda>tenant.
      rbind (resolve_soft_delete table cols (tb_soft_delete b)) (\<lambda>soft.
      rbind (try_fold (build_index table cols) [] (tb_indexes b)) (\<lambda>indexes.
      rbind (check_checks table (tb_checks b)) (\<lambda>_.
      rbind (try_fold (build_foreign_key table cols) [] (tb_foreign_keys b)) (\<lambda>fks.
      let body = compute_body_columns cols key in
      Inr \<lparr>td_id = tb_id b, td_name = tb_name b, td_columns = cols, td_primary_key = key,
           td_body_columns = body, td_stored_columns = compute_stored_columns cols body,
           td_indexes = indexes, td_checks = tb_checks b, td_foreign_keys = fks,
           td_tenant_column = tenant, td_soft_delete = soft,
           td_schema_version = tb_schema_version b\<rparr>)))))))))))))"

section \<open>What a table promises\<close>

text \<open>A column that may be a component of a key: in range, of a type that orders meaningfully, and
  still there.\<close>

definition live_column :: "ColumnDef list \<Rightarrow> Ordinal \<Rightarrow> bool" where
  "live_column cols i \<longleftrightarrow> i < length cols \<and> \<not> is_dropped (cols ! i)"

definition keyable :: "ColumnDef list \<Rightarrow> Ordinal \<Rightarrow> bool" where
  "keyable cols i \<longleftrightarrow> live_column cols i \<and> col_ty (cols ! i) \<noteq> TVector \<and> col_ty (cols ! i) \<noteq> TArray"

definition column_ok :: "u32 \<Rightarrow> ColumnDef \<Rightarrow> bool" where
  "column_ok sv c \<longleftrightarrow>
     (col_ty c = TArray \<longrightarrow> (\<exists>e. col_element c = Some e \<and> e \<noteq> TArray)) \<and>
     (col_ty c = TDecimal \<longrightarrow> col_scale c \<le> 18) \<and>
     (\<forall>v. col_default c = Some v \<longrightarrow> value_type v = Some (col_ty c) \<and> \<not> is_dropped c) \<and>
     (\<forall>d. col_dropped_in c = Some d \<longrightarrow> col_added_in c < d \<and> d \<le> sv) \<and>
     (col_managed c \<noteq> None \<longrightarrow> col_ty c = TI64 \<and> \<not> col_nullable c)"

definition key_ok :: "ColumnDef list \<Rightarrow> Ordinal list \<Rightarrow> bool" where
  "key_ok cols key \<longleftrightarrow>
     key \<noteq> [] \<and> distinct key \<and>
     (\<forall>i\<in>set key. keyable cols i \<and> \<not> col_nullable (cols ! i) \<and> col_managed (cols ! i) = None)"

definition index_ok :: "ColumnDef list \<Rightarrow> IndexDef \<Rightarrow> bool" where
  "index_ok cols ix \<longleftrightarrow>
     distinct (map ic_ordinal (ix_columns ix)) \<and>
     (\<forall>c\<in>set (ix_columns ix). keyable cols (ic_ordinal c)) \<and>
     (ix_columns ix = []) = (ix_expression ix \<noteq> None) \<and>
     (ix_text ix \<longrightarrow> \<not> ix_unique ix \<and>
        (\<exists>c. ix_columns ix = [c] \<and> col_ty (cols ! ic_ordinal c) = TStr))"

definition foreign_key_ok :: "ColumnDef list \<Rightarrow> ForeignKeyDef \<Rightarrow> bool" where
  "foreign_key_ok cols f \<longleftrightarrow>
     fk_columns f \<noteq> [] \<and> distinct (fk_columns f) \<and> (\<forall>i\<in>set (fk_columns f). live_column cols i)"

definition soft_delete_ok :: "ColumnDef list \<Rightarrow> Ordinal list \<Rightarrow> Ordinal option \<Rightarrow> bool" where
  "soft_delete_ok cols key soft \<longleftrightarrow>
     (\<forall>i. soft = Some i \<longrightarrow>
        i < length cols \<and> i \<notin> set key \<and> col_ty (cols ! i) = TI64 \<and> col_nullable (cols ! i) \<and>
        col_managed (cols ! i) = None)"

definition table_ok :: "TableDef \<Rightarrow> bool" where
  "table_ok t \<longleftrightarrow>
     (let cols = td_columns t; key = td_primary_key t in
      distinct (concat (map column_names cols)) \<and>
      (\<forall>c\<in>set cols. column_ok (td_schema_version t) c) \<and>
      key_ok cols key \<and>
      (\<forall>i. td_tenant_column t = Some i \<longrightarrow> hd key = i) \<and>
      soft_delete_ok cols key (td_soft_delete t) \<and>
      distinct (map ix_id (td_indexes t)) \<and> distinct (map ix_name (td_indexes t)) \<and>
      (\<forall>ix\<in>set (td_indexes t). index_ok cols ix) \<and>
      distinct (map ck_name (td_checks t)) \<and>
      (\<forall>k\<in>set (td_checks t). \<forall>m. ck_message k = Some m \<longrightarrow> (\<exists>c\<in>set m. \<not> is_whitespace c)) \<and>
      distinct (map fk_name (td_foreign_keys t)) \<and>
      (\<forall>f\<in>set (td_foreign_keys t). foreign_key_ok cols f) \<and>
      td_body_columns t = filter (\<lambda>i. i \<notin> set key) [0..<length cols] \<and>
      td_stored_columns t = filter (\<lambda>i. \<not> is_dropped (cols ! i)) (td_body_columns t))"


section \<open>Builders\<close>

text \<open>The fields of \<open>TableBuilder\<close> are private, so a builder is what its methods make of a fresh one.\<close>

inductive constructed :: "TableBuilder \<Rightarrow> bool" where
  start: "constructed (TableDef_builder n i)"
| column: "constructed b \<Longrightarrow> constructed (tb_column n ty b)"
| nullable_column: "constructed b \<Longrightarrow> constructed (nullable_column n ty b)"
| added_column: "constructed b \<Longrightarrow> constructed (added_column n ty v b)"
| added_column_with_default: "constructed b \<Longrightarrow> constructed (added_column_with_default n ty v d b)"
| default_for: "constructed b \<Longrightarrow> constructed (default_for n d b)"
| drop_column: "constructed b \<Longrightarrow> constructed (drop_column n v b)"
| renamed_column: "constructed b \<Longrightarrow> constructed (renamed_column n m b)"
| decimal_column: "constructed b \<Longrightarrow> constructed (decimal_column n s b)"
| nullable_decimal_column: "constructed b \<Longrightarrow> constructed (nullable_decimal_column n s b)"
| array_column: "constructed b \<Longrightarrow> constructed (array_column n e b)"
| nullable_array_column: "constructed b \<Longrightarrow> constructed (nullable_array_column n e b)"
| element_for: "constructed b \<Longrightarrow> constructed (element_for n e b)"
| managed_for: "constructed b \<Longrightarrow> constructed (managed_for n m b)"
| scale_for: "constructed b \<Longrightarrow> constructed (scale_for n s b)"
| primary_key: "constructed b \<Longrightarrow> constructed (tb_set_primary_key ns b)"
| tenant_column: "constructed b \<Longrightarrow> constructed (tb_set_tenant_column n b)"
| soft_delete: "constructed b \<Longrightarrow> constructed (tb_set_soft_delete n b)"
| index: "constructed b \<Longrightarrow> constructed (tb_index ix b)"
| check: "constructed b \<Longrightarrow> constructed (tb_check k b)"
| foreign_key: "constructed b \<Longrightarrow> constructed (tb_foreign_key f b)"
| schema_version: "constructed b \<Longrightarrow> constructed (tb_set_schema_version v b)"

lemmas builder_defs = tb_column_def nullable_column_def added_column_def added_column_with_default_def
  default_for_def drop_column_def renamed_column_def decimal_column_def nullable_decimal_column_def
  array_column_def nullable_array_column_def element_for_def managed_for_def scale_for_def
  tb_set_primary_key_def tb_set_tenant_column_def tb_set_soft_delete_def tb_index_def tb_check_def
  tb_foreign_key_def tb_set_schema_version_def push_decimal_def push_array_def push_column_def
  TableDef_builder_def

text \<open>What the methods keep: a column carries no default, no drop and no former name before \<open>build\<close>
  folds the changes in, and one added after version 0 is nullable or has a default among them.\<close>

definition fresh_column :: "ColumnChange list \<Rightarrow> ColumnDef \<Rightarrow> bool" where
  "fresh_column chs c \<longleftrightarrow>
     col_dropped_in c = None \<and> col_default c = None \<and> col_previous_names c = [] \<and>
     (col_added_in c = 0 \<or> col_nullable c \<or> (\<exists>v. ChangeDefault (col_name c) v \<in> set chs))"

definition builder_inv :: "TableBuilder \<Rightarrow> bool" where
  "builder_inv b \<longleftrightarrow> (\<forall>c\<in>set (tb_columns b). fresh_column (tb_changes b) c)"

lemma update_found_all:
  "\<forall>x\<in>set xs. Q x \<Longrightarrow> (\<And>x. Q x \<Longrightarrow> Q (f x)) \<Longrightarrow> \<forall>x\<in>set (update_found P f xs). Q x"
  by (induction xs) auto

lemma update_last_snoc [simp]: "update_last f (xs @ [x]) = xs @ [f x]"
  by (simp add: update_last_def)

lemma fresh_column_mono: "fresh_column chs c \<Longrightarrow> set chs \<subseteq> set chs' \<Longrightarrow> fresh_column chs' c"
  by (auto simp: fresh_column_def)

lemma fresh_column_fields [simp]:
  "fresh_column chs (c\<lparr>col_element := e\<rparr>) = fresh_column chs c"
  "fresh_column chs (c\<lparr>col_managed := m\<rparr>) = fresh_column chs c"
  "fresh_column chs (c\<lparr>col_scale := s\<rparr>) = fresh_column chs c"
  by (simp_all add: fresh_column_def)

lemma builder_inv_push:
  "builder_inv b \<Longrightarrow> v = 0 \<or> nullable \<Longrightarrow> builder_inv (push_column n ty nullable v b)"
  by (auto simp: builder_inv_def push_column_def fresh_column_def)

lemma builder_inv_change:
  "builder_inv b \<Longrightarrow> builder_inv (b\<lparr>tb_changes := tb_changes b @ [ch]\<rparr>)"
  by (auto simp: builder_inv_def intro: fresh_column_mono)

lemma builder_inv_update:
  assumes "builder_inv b" and "\<And>c. fresh_column (tb_changes b) c \<Longrightarrow> fresh_column (tb_changes b) (f c)"
  shows "builder_inv (b\<lparr>tb_columns := update_found P f (tb_columns b)\<rparr>)"
  using assms update_found_all [of "tb_columns b" "fresh_column (tb_changes b)" f P]
  by (simp add: builder_inv_def)

lemma builder_inv_last:
  assumes "builder_inv b" and "v = 0 \<or> nullable"
    and "\<And>chs c. fresh_column chs (f c) = fresh_column chs c"
  shows "builder_inv (push_column n ty nullable v b
           \<lparr>tb_columns := update_last f (tb_columns (push_column n ty nullable v b))\<rparr>)"
  using builder_inv_push [OF assms(1,2), of n ty] assms(3)
  by (simp add: builder_inv_def push_column_def)

lemma constructed_inv: "constructed b \<Longrightarrow> builder_inv b"
proof (induction rule: constructed.induct)
  case (start n i)
  then show ?case by (simp add: builder_inv_def TableDef_builder_def)
next
  case (added_column_with_default b n ty v d)
  then show ?case
    by (auto simp: builder_inv_def push_column_def added_column_with_default_def default_for_def
        fresh_column_def)
qed (simp_all add: tb_column_def nullable_column_def added_column_def default_for_def drop_column_def
    renamed_column_def decimal_column_def nullable_decimal_column_def array_column_def
    nullable_array_column_def element_for_def managed_for_def scale_for_def push_decimal_def
    push_array_def Let_def builder_inv_push builder_inv_change builder_inv_update builder_inv_last,
    simp_all add: builder_inv_def tb_set_primary_key_def tb_set_tenant_column_def
    tb_set_soft_delete_def tb_index_def tb_check_def tb_foreign_key_def tb_set_schema_version_def)

section \<open>The changes\<close>

definition same_shape :: "ColumnDef \<Rightarrow> ColumnDef \<Rightarrow> bool" where
  "same_shape c d \<longleftrightarrow>
     col_name c = col_name d \<and> col_ty c = col_ty d \<and> col_nullable c = col_nullable d \<and>
     col_added_in c = col_added_in d \<and> col_scale c = col_scale d \<and> col_element c = col_element d \<and>
     col_managed c = col_managed d"

definition changed_ok :: "u32 \<Rightarrow> ColumnDef \<Rightarrow> bool" where
  "changed_ok sv c \<longleftrightarrow>
     (\<forall>v. col_default c = Some v \<longrightarrow> value_type v = Some (col_ty c)) \<and>
     (\<forall>d. col_dropped_in c = Some d \<longrightarrow> col_added_in c < d \<and> d \<le> sv)"

lemma change_one_ok:
  assumes "change_one table sv ch c = Inr c'"
  shows "same_shape c' c" and "changed_ok sv c \<Longrightarrow> changed_ok sv c'"
    and "col_default c \<noteq> None \<or> (\<exists>n v. ch = ChangeDefault n v) \<Longrightarrow> col_default c' \<noteq> None"
  using assms by (cases ch; auto simp: same_shape_def changed_ok_def split: option.splits if_splits)+

lemma apply_change_Inr:
  "apply_change table sv cols ch = Inr cols' \<longleftrightarrow>
     (\<exists>i c'. position (\<lambda>c. col_name c = change_column ch) cols = Some i \<and> i < length cols \<and>
        change_one table sv ch (cols ! i) = Inr c' \<and> cols' = cols[i := c'])"
proof (cases "position (\<lambda>c. col_name c = change_column ch) cols")
  case (Some i)
  then have "get cols i = Some (cols ! i)" "i < length cols" using position_Some by fastforce+
  then show ?thesis using Some by (auto simp: apply_change_def Let_def result_simps)
qed (simp add: apply_change_def)

lemma same_shape_refl [simp]: "same_shape c c"
  by (simp add: same_shape_def)

lemma same_shape_trans: "same_shape a b \<Longrightarrow> same_shape b c \<Longrightarrow> same_shape a c"
  by (simp add: same_shape_def)

lemma apply_change_shape:
  assumes "apply_change table sv cols ch = Inr cols'"
  shows "list_all2 same_shape cols' cols"
    and "\<forall>c\<in>set cols. changed_ok sv c \<Longrightarrow> \<forall>c\<in>set cols'. changed_ok sv c"
proof -
  from assms obtain i c' where i: "i < length cols" "change_one table sv ch (cols ! i) = Inr c'"
    "cols' = cols[i := c']" unfolding apply_change_Inr by blast
  note c' = change_one_ok(1,2) [OF i(2)]
  show "list_all2 same_shape cols' cols"
    using i c'(1) by (auto simp: list_all2_conv_all_nth nth_list_update)
  show "\<forall>c\<in>set cols'. changed_ok sv c" if "\<forall>c\<in>set cols. changed_ok sv c"
    using that i c'(2) set_update_subset_insert [of cols i c'] by auto
qed

lemma same_shape_names: "list_all2 same_shape cols' cols \<Longrightarrow> map col_name cols' = map col_name cols"
  by (auto simp: list_all2_conv_all_nth same_shape_def intro: nth_equalityI)

lemma changes_shape:
  assumes "try_fold (apply_change table sv) cols chs = Inr cols'" and "\<forall>c\<in>set cols. changed_ok sv c"
  shows "list_all2 same_shape cols' cols \<and> (\<forall>c\<in>set cols'. changed_ok sv c)"
proof (rule try_fold_inv [OF assms(1)])
  show "list_all2 same_shape cols cols \<and> (\<forall>c\<in>set cols. changed_ok sv c)"
    using assms(2) by (simp add: list_all2_same)
next
  fix s ch s'
  assume "list_all2 same_shape s cols \<and> (\<forall>c\<in>set s. changed_ok sv c)"
    and "apply_change table sv s ch = Inr s'"
  note s = this apply_change_shape [OF this(2)]
  have "list_all2 same_shape s' cols"
    using list_all2_trans [of same_shape same_shape same_shape s' s cols] same_shape_trans s(1,3) by blast
  then show "list_all2 same_shape s' cols \<and> (\<forall>c\<in>set s'. changed_ok sv c)"
    using s(1,4) by simp
qed

lemma changes_default:
  assumes "try_fold (apply_change table sv) cols chs = Inr cols'" and "distinct (map col_name cols)"
    and "i < length cols"
    and "col_default (cols ! i) \<noteq> None \<or> (\<exists>v. ChangeDefault (col_name (cols ! i)) v \<in> set chs)"
  shows "col_default (cols' ! i) \<noteq> None"
  using assms
proof (induction chs arbitrary: cols)
  case (Cons ch chs)
  from Cons.prems(1) obtain us where us: "apply_change table sv cols ch = Inr us"
    "try_fold (apply_change table sv) us chs = Inr cols'" by (auto simp: result_simps)
  have shape: "list_all2 same_shape us cols" by (rule apply_change_shape(1) [OF us(1)])
  have name: "col_name (us ! i) = col_name (cols ! i)" and len: "i < length us"
    using shape Cons.prems(3) by (auto simp: list_all2_conv_all_nth same_shape_def)
  from us(1) obtain k c' where k: "position (\<lambda>c. col_name c = change_column ch) cols = Some k"
    "k < length cols" "change_one table sv ch (cols ! k) = Inr c'" "us = cols[k := c']"
    unfolding apply_change_Inr by blast
  have "col_default (us ! i) \<noteq> None \<or> (\<exists>v. ChangeDefault (col_name (us ! i)) v \<in> set chs)"
  proof (cases "\<exists>v. ch = ChangeDefault (col_name (cols ! i)) v")
    case True
    then have "k = i" using k(1) position_unique [OF Cons.prems(2,3)] by auto
    then show ?thesis using k change_one_ok(3) [OF k(3)] True by auto
  next
    case False
    then show ?thesis
      using Cons.prems(4) name k change_one_ok(3) [OF k(3)] by (cases "k = i") auto
  qed
  then show ?case
    using Cons.IH [OF us(2)] same_shape_names [OF shape] Cons.prems(2) len by simp
qed simp


section \<open>Each step of \<open>build\<close> establishes its part\<close>

lemma resolve_Inr [simp]:
  "resolve table cols n = Inr i \<longleftrightarrow> position (\<lambda>c. col_name c = n) cols = Some i"
  by (simp add: resolve_def)

lemma resolve_in_range:
  "position (\<lambda>c. col_name c = n) cols = Some i \<Longrightarrow> i < length cols \<and> col_name (cols ! i) = n"
  using position_Some by fastforce

lemma reject_dropped_Inr:
  "i < length cols \<Longrightarrow> reject_dropped cols i table key n = Inr u \<longleftrightarrow> live_column cols i"
  by (auto simp: reject_dropped_def live_column_def)

lemma reject_unkeyable_Inr:
  "i < length cols \<Longrightarrow> reject_unkeyable cols i table key n = Inr u \<longleftrightarrow>
     col_ty (cols ! i) \<noteq> TVector \<and> col_ty (cols ! i) \<noteq> TArray"
  by (cases "col_ty (cols ! i)") (simp_all add: reject_unkeyable_def)

lemma check_column_Inr:
  "check_column table c = Inr u \<longleftrightarrow>
     (col_ty c = TArray \<longrightarrow> (\<exists>e. col_element c = Some e \<and> e \<noteq> TArray)) \<and>
     (col_ty c = TDecimal \<longrightarrow> col_scale c \<le> 18)"
  by (auto simp: check_column_def MAX_SCALE_def result_simps split: option.splits ValueType.splits)

lemma check_managed_Inr:
  "check_managed table key c = Inr u \<longleftrightarrow>
     (col_managed c \<noteq> None \<longrightarrow> col_ty c = TI64 \<and> \<not> col_nullable c \<and> col_name c \<notin> set key)"
  by (auto simp: check_managed_def list_ex_iff split: option.splits)

lemma key_column_Inr:
  assumes "key_column table cols key n = Inr key'"
  obtains i where "key' = key @ [i]" and "i \<notin> set key" and "keyable cols i"
    and "\<not> col_nullable (cols ! i)" and "col_name (cols ! i) = n"
proof -
  from assms obtain i where i: "position (\<lambda>c. col_name c = n) cols = Some i"
    by (auto simp: key_column_def result_simps)
  then show ?thesis
    using that [of i] assms resolve_in_range [OF i]
    by (auto simp: key_column_def result_simps keyable_def reject_dropped_Inr reject_unkeyable_Inr
        split: if_splits)
qed

lemma resolve_primary_key_ok:
  assumes "resolve_primary_key table cols ns = Inr key"
    and "\<forall>c\<in>set cols. col_managed c \<noteq> None \<longrightarrow> col_name c \<notin> set ns"
  shows "key_ok cols key"
proof -
  from assms(1) have ns: "ns \<noteq> []" and fold: "try_fold (key_column table cols) [] ns = Inr key"
    by (auto simp: resolve_primary_key_def split: if_splits)
  have "distinct key \<and> (\<forall>i\<in>set key. keyable cols i \<and> \<not> col_nullable (cols ! i) \<and>
      col_name (cols ! i) \<in> set ns)"
    by (rule try_fold_inv [OF fold]) (auto elim!: key_column_Inr)
  moreover have "length key = length ns"
    by (rule try_fold_length [OF fold, unfolded list.size add_0]) (auto elim: key_column_Inr)
  ultimately show ?thesis
    using ns assms(2) by (auto simp: key_ok_def keyable_def live_column_def)
qed

lemma resolve_tenant_Inr:
  "resolve_tenant table cols key tenant = Inr (Some i) \<Longrightarrow> key \<noteq> [] \<Longrightarrow> hd key = i"
  by (auto simp: resolve_tenant_def result_simps hd_conv_nth split: option.splits if_splits)

lemma resolve_soft_delete_ok:
  assumes "resolve_soft_delete table cols soft = Inr s" and "key_ok cols key"
  shows "soft_delete_ok cols key s"
  using assms
  by (auto simp: resolve_soft_delete_def soft_delete_ok_def key_ok_def result_simps
      dest: resolve_in_range split: option.splits if_splits)

lemma index_column_Inr:
  assumes "index_column table cols ixname ics nd = Inr ics'"
  obtains c where "ics' = ics @ [c]" and "ic_ordinal c \<notin> ic_ordinal ` set ics"
    and "keyable cols (ic_ordinal c)"
proof -
  obtain n d where nd: "nd = (n, d)" by fastforce
  with assms obtain i where i: "position (\<lambda>c. col_name c = n) cols = Some i"
    by (auto simp: index_column_def result_simps)
  then show ?thesis
    using that [of "\<lparr>ic_ordinal = i, ic_direction = d\<rparr>"] assms nd resolve_in_range [OF i]
    by (auto simp: index_column_def result_simps keyable_def reject_dropped_Inr reject_unkeyable_Inr
        list_ex_iff split: if_splits)
qed

lemma text_reason_None:
  assumes "text_reason cols spec ics = None" and "\<forall>c\<in>set ics. keyable cols (ic_ordinal c)"
  shows "\<not> ib_unique spec \<and> (\<exists>c. ics = [c] \<and> col_ty (cols ! ic_ordinal c) = TStr)"
proof -
  from assms(1) have "length ics = 1" by (auto simp: text_reason_def split: if_splits)
  then obtain c where c: "ics = [c]" by (auto simp: length_Suc_conv)
  then show ?thesis
    using assms by (auto simp: text_reason_def keyable_def live_column_def split: if_splits)
qed

definition indexes_ok :: "ColumnDef list \<Rightarrow> IndexDef list \<Rightarrow> bool" where
  "indexes_ok cols ixs \<longleftrightarrow>
     distinct (map ix_id ixs) \<and> distinct (map ix_name ixs) \<and> (\<forall>ix\<in>set ixs. index_ok cols ix)"

lemma build_index_ok:
  assumes "build_index table cols ixs spec = Inr ixs'" and "indexes_ok cols ixs"
  shows "indexes_ok cols ixs'"
proof -
  from assms(1) obtain ics where fold:
      "try_fold (index_column table cols (ib_name spec)) [] (ib_columns spec) = Inr ics"
    and ixs': "ixs' = ixs @
      [\<lparr>ix_id = ib_id spec, ix_name = ib_name spec, ix_columns = ics, ix_unique = ib_unique spec,
        ix_predicate = ib_predicate spec, ix_expression = ib_expression spec, ix_text = ib_text spec\<rparr>]"
    and terms: "ib_text spec \<Longrightarrow> text_reason cols spec ics = None"
    and shape: "(ib_columns spec = []) = (ib_expression spec \<noteq> None)"
    and new: "\<not> list_ex (\<lambda>i. ix_id i = ib_id spec \<or> ix_name i = ib_name spec) ixs"
    by (auto simp: build_index_def result_simps split: if_splits option.splits)
  have ics: "distinct (map ic_ordinal ics) \<and> (\<forall>c\<in>set ics. keyable cols (ic_ordinal c))"
    by (rule try_fold_inv [OF fold]) (auto elim!: index_column_Inr)
  have "length ics = length (ib_columns spec)"
    by (rule try_fold_length [OF fold, unfolded list.size add_0]) (auto elim: index_column_Inr)
  then have "ics = [] \<longleftrightarrow> ib_columns spec = []" by auto
  then show ?thesis
    using assms(2) ics terms text_reason_None [of cols spec ics] shape new ixs'
    by (auto simp: indexes_ok_def index_ok_def list_ex_iff)
qed

definition foreign_keys_ok :: "ColumnDef list \<Rightarrow> ForeignKeyDef list \<Rightarrow> bool" where
  "foreign_keys_ok cols fks \<longleftrightarrow> distinct (map fk_name fks) \<and> (\<forall>f\<in>set fks. foreign_key_ok cols f)"

lemma foreign_key_column_Inr:
  assumes "foreign_key_column table cols fkname os n = Inr os'"
  obtains i where "os' = os @ [i]" and "i \<notin> set os" and "live_column cols i"
proof -
  from assms obtain i where i: "position (\<lambda>c. col_name c = n) cols = Some i"
    by (auto simp: foreign_key_column_def result_simps)
  then show ?thesis
    using that [of i] assms resolve_in_range [OF i]
    by (auto simp: foreign_key_column_def result_simps reject_dropped_Inr split: if_splits)
qed

lemma build_foreign_key_ok:
  assumes "build_foreign_key table cols fks spec = Inr fks'" and "foreign_keys_ok cols fks"
  shows "foreign_keys_ok cols fks'"
proof -
  from assms(1) obtain os where fold:
      "try_fold (foreign_key_column table cols (fb_name spec)) [] (fb_columns spec) = Inr os"
    and fks': "fks' = fks @ [finish spec os]" and ne: "fb_columns spec \<noteq> []"
    and new: "\<not> list_ex (\<lambda>f. fk_name f = fb_name spec) fks"
    by (auto simp: build_foreign_key_def result_simps split: if_splits)
  have "distinct os \<and> (\<forall>i\<in>set os. live_column cols i)"
    by (rule try_fold_inv [OF fold]) (auto elim!: foreign_key_column_Inr)
  moreover have "length os = length (fb_columns spec)"
    by (rule try_fold_length [OF fold, unfolded list.size add_0]) (auto elim: foreign_key_column_Inr)
  ultimately show ?thesis
    using assms(2) fks' ne new
    by (auto simp: foreign_keys_ok_def foreign_key_ok_def finish_def list_ex_iff)
qed

lemma check_checks_Inr:
  "check_checks table ks = Inr u \<longleftrightarrow>
     distinct (map ck_name ks) \<and>
     (\<forall>k\<in>set ks. \<forall>m. ck_message k = Some m \<longrightarrow> (\<exists>c\<in>set m. \<not> is_whitespace c))"
  by (auto simp: check_checks_def try_distinct_ok trim_blank split: option.splits if_splits)
    (auto simp: is_some_and_def trim_blank split: option.splits)


section \<open>The whole of \<open>build\<close>\<close>

lemma apply_changes_Inr:
  "apply_changes table b = Inr b' \<longleftrightarrow>
     (\<exists>cols. try_fold (apply_change table (tb_schema_version b)) (tb_columns b) (tb_changes b) = Inr cols \<and>
        b' = b\<lparr>tb_columns := cols, tb_changes := []\<rparr>)"
  by (auto simp: apply_changes_def result_simps)

lemma build_Inr:
  assumes "build b = Inr t"
  obtains cols where
    "distinct (map col_name (tb_columns b))"
    "\<forall>c\<in>set (tb_columns b). check_column (tb_name b) c = Inr () \<and>
       check_managed (tb_name b) (tb_primary_key b) c = Inr ()"
    "try_fold (apply_change (tb_name b) (tb_schema_version b)) (tb_columns b) (tb_changes b) = Inr cols"
    "distinct (concat (map column_names cols))"
    "\<forall>c\<in>set cols. is_dropped c \<longrightarrow> col_default c = None"
    "resolve_primary_key (tb_name b) cols (tb_primary_key b) = Inr (td_primary_key t)"
    "resolve_tenant (tb_name b) cols (td_primary_key t) (tb_tenant_column b) = Inr (td_tenant_column t)"
    "resolve_soft_delete (tb_name b) cols (tb_soft_delete b) = Inr (td_soft_delete t)"
    "try_fold (build_index (tb_name b) cols) [] (tb_indexes b) = Inr (td_indexes t)"
    "check_checks (tb_name b) (td_checks t) = Inr ()"
    "try_fold (build_foreign_key (tb_name b) cols) [] (tb_foreign_keys b) = Inr (td_foreign_keys t)"
    "td_columns t = cols" "td_schema_version t = tb_schema_version b"
    "td_body_columns t = compute_body_columns cols (td_primary_key t)"
    "td_stored_columns t = compute_stored_columns cols (td_body_columns t)"
  using assms that
  by (auto simp: build_def Let_def rbind_eq_Inr apply_changes_Inr try_each_ok check_duplicate_columns_def
      check_name_resolution_def check_evolution_def try_distinct_ok split: if_splits)

lemma built_columns_ok:
  assumes "builder_inv b" and "build b = Inr t" and "c \<in> set (td_columns t)"
  shows "column_ok (td_schema_version t) c \<and>
    (col_managed c \<noteq> None \<longrightarrow> col_name c \<notin> set (tb_primary_key b)) \<and>
    (col_added_in c = 0 \<or> col_nullable c \<or> col_default c \<noteq> None)"
proof (rule build_Inr [OF assms(2)])
  fix cols
  assume names: "distinct (map col_name (tb_columns b))"
    and checks: "\<forall>c\<in>set (tb_columns b). check_column (tb_name b) c = Inr () \<and>
       check_managed (tb_name b) (tb_primary_key b) c = Inr ()"
    and fold: "try_fold (apply_change (tb_name b) (tb_schema_version b)) (tb_columns b) (tb_changes b) = Inr cols"
    and drop: "\<forall>c\<in>set cols. is_dropped c \<longrightarrow> col_default c = None"
    and t: "td_columns t = cols" "td_schema_version t = tb_schema_version b"
  have "\<forall>c\<in>set (tb_columns b). changed_ok (tb_schema_version b) c"
    using assms(1) by (auto simp: builder_inv_def fresh_column_def changed_ok_def)
  from changes_shape [OF fold this]
  have shape: "list_all2 same_shape cols (tb_columns b)"
    and changed: "\<forall>c\<in>set cols. changed_ok (tb_schema_version b) c" by auto
  from assms(3) t obtain i where i: "i < length cols" "c = cols ! i" by (auto simp: in_set_conv_nth)
  let ?d = "tb_columns b ! i"
  have d: "i < length (tb_columns b)" "?d \<in> set (tb_columns b)" "same_shape c ?d"
    using shape i by (auto simp: list_all2_conv_all_nth)
  have "col_default c \<noteq> None" if "\<exists>v. ChangeDefault (col_name ?d) v \<in> set (tb_changes b)"
    using changes_default [OF fold names d(1)] that i(2) by blast
  moreover have "fresh_column (tb_changes b) ?d" using assms(1) d(2) by (simp add: builder_inv_def)
  ultimately have "col_added_in c = 0 \<or> col_nullable c \<or> col_default c \<noteq> None"
    using d(3) by (auto simp: fresh_column_def same_shape_def)
  moreover have "col_default c \<noteq> None \<longrightarrow> \<not> is_dropped c" "changed_ok (tb_schema_version b) c"
    using drop changed i by auto
  ultimately show ?thesis
    using checks d t
    by (auto simp: column_ok_def changed_ok_def same_shape_def check_column_Inr check_managed_Inr)
qed

lemma built_table_ok:
  assumes "builder_inv b" and "build b = Inr t"
  shows "table_ok t"
proof (rule build_Inr [OF assms(2)])
  fix cols
  assume names: "distinct (concat (map column_names cols))"
    and key: "resolve_primary_key (tb_name b) cols (tb_primary_key b) = Inr (td_primary_key t)"
    and tenant: "resolve_tenant (tb_name b) cols (td_primary_key t) (tb_tenant_column b) = Inr (td_tenant_column t)"
    and soft: "resolve_soft_delete (tb_name b) cols (tb_soft_delete b) = Inr (td_soft_delete t)"
    and ixs: "try_fold (build_index (tb_name b) cols) [] (tb_indexes b) = Inr (td_indexes t)"
    and checks: "check_checks (tb_name b) (td_checks t) = Inr ()"
    and fks: "try_fold (build_foreign_key (tb_name b) cols) [] (tb_foreign_keys b) = Inr (td_foreign_keys t)"
    and t: "td_columns t = cols"
      "td_body_columns t = compute_body_columns cols (td_primary_key t)"
      "td_stored_columns t = compute_stored_columns cols (td_body_columns t)"
  note col = built_columns_ok [OF assms]
  have key_ok: "key_ok cols (td_primary_key t)"
    using resolve_primary_key_ok [OF key] col t(1) by blast
  then have "\<forall>i. td_tenant_column t = Some i \<longrightarrow> hd (td_primary_key t) = i"
    using tenant resolve_tenant_Inr by (auto simp: key_ok_def)
  moreover have "indexes_ok cols (td_indexes t)"
    by (rule try_fold_inv [OF ixs]) (simp add: indexes_ok_def, rule build_index_ok)
  moreover have "foreign_keys_ok cols (td_foreign_keys t)"
    by (rule try_fold_inv [OF fks]) (simp add: foreign_keys_ok_def, rule build_foreign_key_ok)
  moreover have "td_stored_columns t = filter (\<lambda>i. \<not> is_dropped (cols ! i)) (td_body_columns t)"
    using t by (auto simp: compute_stored_columns_def compute_body_columns_def intro: filter_cong)
  ultimately show ?thesis
    using names key_ok resolve_soft_delete_ok [OF soft key_ok] checks t col
    by (simp add: table_ok_def Let_def indexes_ok_def foreign_keys_ok_def check_checks_Inr
        compute_body_columns_def)
qed

text \<open>C21. What \<open>build\<close> checks holds of every table that builds: names are unique over current and
  former ones, the primary key is a non-empty list of distinct, live, orderable, non-nullable columns
  that the store does not manage, the tenant column comes first in it, indexes are well formed with
  unique ids and names, foreign key columns are live, defaults are of the column's type, drops come
  after the column's addition and not after the current version, and the body and stored column lists
  are exactly the non-key and the non-key non-dropped columns in order. The kernel relies on more than
  this: that no column is added after the current version, and that managed columns are live, are
  hypotheses of the theorems on stored rows, since \<open>build\<close> does not check them.\<close>

theorem build_table_ok:
  assumes "constructed b" and "build b = Inr t"
  shows "table_ok t"
  using constructed_inv [OF assms(1)] assms(2) by (rule built_table_ok)

text \<open>The table a builder gives, for examples whose builder succeeds.\<close>

definition built :: "TableBuilder \<Rightarrow> TableDef" where
  "built b = (case build b of Inr t \<Rightarrow> t | Inl _ \<Rightarrow> undefined)"

text \<open>A table with every feature: a tenant, a renamed, a dropped and a defaulted column, a managed and
  a soft-delete timestamp, a unique, a partial and a text index, a check and a foreign key.\<close>

definition orders_builder :: TableBuilder where
  "orders_builder =
     (tb_foreign_key (fb_column ''tenant'' (fb_column ''id'' (ForeignKeyDef_builder ''self'' 7)))
      \<circ> tb_check (with_message [0x21] (CheckDef_new ''positive'' (\<lambda>_. Some True)))
      \<circ> tb_index (text_index (ib_column ''note'' (IndexDef_builder ''terms'' 3)))
      \<circ> tb_index (only_where (\<lambda>_. None) (ib_column_with ''total'' Desc (IndexDef_builder ''by_total'' 2)))
      \<circ> tb_index (unique (ib_column ''email'' (IndexDef_builder ''by_email'' 1)))
      \<circ> tb_set_soft_delete ''deleted'' \<circ> tb_set_tenant_column ''tenant''
      \<circ> tb_set_primary_key [''tenant'', ''id''] \<circ> managed_for ''created'' CreatedAt
      \<circ> renamed_column ''email'' ''mail'' \<circ> drop_column ''legacy'' 2
      \<circ> added_column_with_default ''status'' TStr 1 (Str [0x6E]) \<circ> tb_column ''created'' TI64
      \<circ> nullable_column ''deleted'' TI64 \<circ> nullable_column ''note'' TStr \<circ> nullable_column ''legacy'' TBool
      \<circ> decimal_column ''total'' 2 \<circ> tb_column ''email'' TStr \<circ> tb_column ''id'' TU64
      \<circ> tb_column ''tenant'' TStr \<circ> tb_set_schema_version 2)
     (TableDef_builder ''orders'' 7)"

lemma orders_constructed: "constructed orders_builder"
  by (simp add: orders_builder_def constructed.intros)

text \<open>Evaluation of \<open>build\<close> on a concrete builder: the definitions of its steps, to be used with the
  weak congruences that keep a continuation unevaluated until its argument is a result.\<close>

lemmas build_eval = builder_defs build_def Let_def check_duplicate_columns_def
  check_column_def check_managed_def MAX_SCALE_def apply_changes_def apply_change_def
  check_name_resolution_def column_names_def check_evolution_def is_dropped_def
  resolve_primary_key_def key_column_def resolve_def reject_unkeyable_def reject_dropped_def
  resolve_tenant_def resolve_soft_delete_def build_index_def index_column_def text_reason_def
  check_checks_def build_foreign_key_def foreign_key_column_def finish_def
  IndexDef_builder_def ib_column_def ib_column_with_def unique_def only_where_def text_index_def
  CheckDef_new_def with_message_def trim_def is_whitespace_def ForeignKeyDef_builder_def fb_column_def
  compute_body_columns_def compute_stored_columns_def upt_rec update_last_def

lemmas build_congs = rbind_weak_cong let_weak_cong

lemma orders_builds:
  "case build orders_builder of
     Inr t \<Rightarrow> td_primary_key t = [0, 1] \<and> td_stored_columns t = [2, 3, 5, 6, 7, 8] \<and>
       length (td_columns t) = 9 \<and> col_previous_names (td_columns t ! 2) = [''mail'']
   | Inl _ \<Rightarrow> False"
  by (simp add: orders_builder_def build_eval cong: build_congs)

theorem build_table_ok_witness: "\<exists>t. build orders_builder = Inr t \<and> table_ok t"
  using orders_builds build_table_ok [OF orders_constructed] by (auto split: sum.splits)

text \<open>A table that builds can read rows from before any of its columns was added: a column added
  after version 0 is nullable or has a default. The check is nowhere in \<open>build\<close>; the builder's methods
  make the other case unrepresentable, whatever changes are recorded afterwards.\<close>

theorem build_evolvable:
  assumes "constructed b" and "build b = Inr t"
  shows "\<forall>c\<in>set (td_columns t). col_added_in c = 0 \<or> col_nullable c \<or> col_default c \<noteq> None"
  using built_columns_ok [OF constructed_inv [OF assms(1)] assms(2)] by blast

theorem build_evolvable_witness:
  "\<exists>t. build orders_builder = Inr t \<and>
     (\<forall>c\<in>set (td_columns t). col_added_in c = 0 \<or> col_nullable c \<or> col_default c \<noteq> None)"
  using orders_builds build_evolvable [OF orders_constructed] by (auto split: sum.splits)

section \<open>Name resolution\<close>

lemma names_distinct_nth:
  assumes "distinct (concat (map column_names cols))" and "i < length cols" and "j < length cols"
    and "n \<in> set (column_names (cols ! i))" and "n \<in> set (column_names (cols ! j))"
  shows "i = j"
  using assms
proof (induction cols arbitrary: i j)
  case (Cons c cols)
  have "n \<notin> set (column_names (cols ! k))" if "n \<in> set (column_names c)" "k < length cols" for k
    using Cons.prems(1) that nth_mem [of k cols] by fastforce
  then show ?case using Cons by (cases i; cases j) auto
qed simp

text \<open>Name resolution is exact: in a table that built, a name resolves to a column exactly when
  it is that column's current name or one it had before a rename, and to one column only.\<close>

theorem ordinal_of_exact:
  assumes "table_ok t"
  shows "ordinal_of t n = Some i \<longleftrightarrow>
    i < length (td_columns t) \<and> n \<in> set (column_names (td_columns t ! i))"
proof
  assume "ordinal_of t n = Some i"
  then show "i < length (td_columns t) \<and> n \<in> set (column_names (td_columns t ! i))"
    by (auto simp: ordinal_of_def answers_to_def column_names_def list_ex_iff
        dest: position_Some split: option.splits)
next
  assume i: "i < length (td_columns t) \<and> n \<in> set (column_names (td_columns t ! i))"
  have uniq: "j = i" if "j < length (td_columns t)" "n \<in> set (column_names (td_columns t ! j))" for j
    using names_distinct_nth [of "td_columns t" j i n] assms i that by (simp add: table_ok_def Let_def)
  show "ordinal_of t n = Some i"
  proof (cases "position (\<lambda>c. col_name c = n) (td_columns t)")
    case None
    have "position (\<lambda>c. answers_to c n) (td_columns t) = Some i"
    proof (rule position_first)
      show "answers_to (td_columns t ! i) n"
        using i by (auto simp: answers_to_def column_names_def list_ex_iff)
      show "\<not> answers_to (td_columns t ! j) n" if "j < i" for j
        using uniq [of j] i that by (auto simp: answers_to_def column_names_def list_ex_iff)
    qed (use i in simp)
    then show ?thesis using None by (simp add: ordinal_of_def)
  next
    case (Some j)
    then have "j = i" using position_Some [OF Some] uniq by (auto simp: column_names_def)
    then show ?thesis using Some by (simp add: ordinal_of_def)
  qed
qed



theorem ordinal_of_exact_witness: "\<exists>t. build orders_builder = Inr t \<and> ordinal_of t ''mail'' = Some 2"
proof -
  from orders_builds obtain t where t: "build orders_builder = Inr t"
    "length (td_columns t) = 9" "col_previous_names (td_columns t ! 2) = [''mail'']"
    by (auto split: sum.splits)
  have "table_ok t" using constructed_inv [OF orders_constructed] t(1) by (rule built_table_ok)
  from ordinal_of_exact [OF this, of "''mail''" 2] t show ?thesis by (simp add: column_names_def)
qed

end
