(* ===== verification/Schema_Catalog.thy ===== *)
theory Schema_Catalog
  imports Schema_Build
begin

text \<open>
  The catalog of \<open>crates/slate-schema/src/catalog.rs\<close>: tables with unique ids and names, index ids
  unique over the whole catalog (an index key does not name its table), foreign keys checked against
  the primary key they reference, and the refusal of an edge from a tenant-scoped child to a shared
  parent. \<open>insert\<close> takes \<open>&mut self\<close>, so it returns the catalog it leaves behind beside its result.
\<close>

section \<open>Operations\<close>

record Catalog =
  cat_tables :: "TableDef list"

definition Catalog_new :: Catalog where
  "Catalog_new = \<lparr>cat_tables = []\<rparr>"

definition cat_table :: "Catalog \<Rightarrow> TableId \<Rightarrow> TableDef option" where
  "cat_table c i = find (\<lambda>t. td_id t = i) (cat_tables c)"

definition table_by_name :: "Catalog \<Rightarrow> string \<Rightarrow> TableDef option" where
  "table_by_name c n = find (\<lambda>t. td_name t = n) (cat_tables c)"

definition check_index_id :: "Catalog \<Rightarrow> TableDef \<Rightarrow> IndexDef \<Rightarrow> SchemaError + unit" where
  "check_index_id c t ix =
     (case find_map (\<lambda>owner. map_option (\<lambda>i. (owner, i)) (find (\<lambda>i. ix_id i = ix_id ix) (td_indexes owner)))
             (cat_tables c) of
        Some (owner, clashing) \<Rightarrow>
          Inl (DuplicateIndexId (ix_id ix) (ix_name ix) (td_name t) (ix_name clashing) (td_name owner))
      | None \<Rightarrow> Inr ())"

definition refuse_cross_tenant_edges :: "Catalog \<Rightarrow> SchemaError + unit" where
  "refuse_cross_tenant_edges c =
     try_each (\<lambda>t.
       try_each (\<lambda>key.
         case cat_table c (fk_parent key) of
           None \<Rightarrow> Inr ()
         | Some parent \<Rightarrow>
             if td_tenant_column t \<noteq> None \<and> td_tenant_column parent = None
             then Inl (CrossTenantForeignKey (td_name t) (fk_name key) (td_name parent) (fk_on_delete key))
             else Inr ())
         (td_foreign_keys t))
       (cat_tables c)"

definition Catalog_insert :: "TableDef \<Rightarrow> Catalog \<Rightarrow> (SchemaError + unit) \<times> Catalog" where
  "Catalog_insert t c =
     (case find (\<lambda>u. td_id u = td_id t \<or> td_name u = td_name t) (cat_tables c) of
        Some existing \<Rightarrow> (Inl (DuplicateTable (td_name existing)), c)
      | None \<Rightarrow>
          (case try_each (check_index_id c t) (td_indexes t) of
             Inl e \<Rightarrow> (Inl e, c)
           | Inr _ \<Rightarrow>
               let c = c\<lparr>cat_tables := cat_tables c @ [t]\<rparr> in
               (case refuse_cross_tenant_edges c of
                  Inl refusal \<Rightarrow> (Inl refusal, c\<lparr>cat_tables := butlast (cat_tables c)\<rparr>)
                | Inr _ \<Rightarrow> (Inr (), c))))"

definition check_column_pair ::
  "TableDef \<Rightarrow> ForeignKeyDef \<Rightarrow> TableDef \<Rightarrow> Ordinal \<times> Ordinal \<Rightarrow> SchemaError + unit" where
  "check_column_pair t key parent p =
     (case (td_column t (fst p), td_column parent (snd p)) of
        (Some child_column, Some parent_column) \<Rightarrow>
          if col_ty child_column \<noteq> col_ty parent_column
          then Inl (ForeignKeyTypeMismatch (td_name t) (fk_name key) (td_name parent)
                      (col_name child_column) (col_ty parent_column) (col_ty child_column))
          else Inr ()
      | _ \<Rightarrow> Inr ())"

definition validate_foreign_key :: "Catalog \<Rightarrow> TableDef \<Rightarrow> ForeignKeyDef \<Rightarrow> SchemaError + unit" where
  "validate_foreign_key c t key =
     rbind (ok_or (UnknownForeignKeyParent (td_name t) (fk_name key) (fk_parent key))
              (cat_table c (fk_parent key))) (\<lambda>parent.
     let parent_key = td_primary_key parent in
     if length (fk_columns key) \<noteq> length parent_key
     then Inl (ForeignKeyWidthMismatch (td_name t) (fk_name key) (td_name parent)
                 (length parent_key) (length (fk_columns key)))
     else
       rbind (try_each (check_column_pair t key parent) (zip (fk_columns key) parent_key)) (\<lambda>_.
       if td_tenant_column t \<noteq> None \<and> td_tenant_column parent = None
       then Inl (CrossTenantForeignKey (td_name t) (fk_name key) (td_name parent) (fk_on_delete key))
       else Inr ()))"

definition validate_foreign_keys :: "Catalog \<Rightarrow> SchemaError + unit" where
  "validate_foreign_keys c =
     try_each (\<lambda>t. try_each (validate_foreign_key c t) (td_foreign_keys t)) (cat_tables c)"

definition from_tables :: "TableDef list \<Rightarrow> SchemaError + Catalog" where
  "from_tables ts =
     rbind (try_fold (\<lambda>c t. case Catalog_insert t c of (res, c') \<Rightarrow> rbind res (\<lambda>_. Inr c')) Catalog_new ts)
       (\<lambda>c. rbind (validate_foreign_keys c) (\<lambda>_. Inr c))"

definition referencing :: "Catalog \<Rightarrow> TableId \<Rightarrow> (TableDef \<times> ForeignKeyDef) list" where
  "referencing c parent =
     concat (map (\<lambda>t. map (\<lambda>key. (t, key)) (filter (\<lambda>key. fk_parent key = parent) (td_foreign_keys t)))
       (cat_tables c))"

section \<open>The invariant of a catalog\<close>

definition index_ids :: "TableDef list \<Rightarrow> IndexId list" where
  "index_ids ts = concat (map (\<lambda>t. map ix_id (td_indexes t)) ts)"

definition catalog_ok :: "Catalog \<Rightarrow> bool" where
  "catalog_ok c \<longleftrightarrow>
     distinct (map td_id (cat_tables c)) \<and> distinct (map td_name (cat_tables c)) \<and>
     distinct (index_ids (cat_tables c)) \<and>
     (\<forall>t\<in>set (cat_tables c). \<forall>key\<in>set (td_foreign_keys t). \<forall>p\<in>set (cat_tables c).
        td_id p = fk_parent key \<longrightarrow> td_tenant_column t \<noteq> None \<longrightarrow> td_tenant_column p \<noteq> None)"

lemma find_distinct:
  "distinct (map f xs) \<Longrightarrow> x \<in> set xs \<Longrightarrow> find (\<lambda>y. f y = f x) xs = Some x"
  by (induction xs) auto

lemma find_Some_set: "find P xs = Some x \<Longrightarrow> x \<in> set xs \<and> P x"
  by (auto simp: find_Some_iff)

lemma check_index_id_Inr:
  "check_index_id c t ix = Inr u \<longleftrightarrow> ix_id ix \<notin> set (index_ids (cat_tables c))"
proof -
  have "check_index_id c t ix = Inr u \<longleftrightarrow>
      find_map (\<lambda>owner. map_option (\<lambda>i. (owner, i)) (find (\<lambda>i. ix_id i = ix_id ix) (td_indexes owner)))
        (cat_tables c) = None"
    by (simp add: check_index_id_def split: option.splits)
  then show ?thesis
    by (simp add: find_map_None find_None_iff index_ids_def image_iff) metis
qed

lemma cat_table_iff:
  "distinct (map td_id (cat_tables c)) \<Longrightarrow>
   cat_table c i = Some p \<longleftrightarrow> p \<in> set (cat_tables c) \<and> td_id p = i"
  using find_distinct [of td_id "cat_tables c"] find_Some_set
  by (fastforce simp: cat_table_def)

lemma refuse_Inr:
  assumes "distinct (map td_id (cat_tables c))"
  shows "refuse_cross_tenant_edges c = Inr () \<longleftrightarrow>
    (\<forall>t\<in>set (cat_tables c). \<forall>key\<in>set (td_foreign_keys t). \<forall>p\<in>set (cat_tables c).
       td_id p = fk_parent key \<longrightarrow> td_tenant_column t \<noteq> None \<longrightarrow> td_tenant_column p \<noteq> None)"
proof -
  have "(case cat_table c i of None \<Rightarrow> Inr () | Some p \<Rightarrow> if B \<and> td_tenant_column p = None then Inl (e p) else Inr ()) = Inr ()
      \<longleftrightarrow> (\<forall>p\<in>set (cat_tables c). td_id p = i \<longrightarrow> B \<longrightarrow> td_tenant_column p \<noteq> None)"
    for i B and e :: "TableDef \<Rightarrow> SchemaError"
  proof (cases "cat_table c i")
    case None
    then have "\<forall>p\<in>set (cat_tables c). td_id p \<noteq> i" using cat_table_iff [OF assms, of i] by auto
    then show ?thesis using None by simp
  next
    case (Some q)
    then have "p \<in> set (cat_tables c) \<and> td_id p = i \<longleftrightarrow> p = q" for p
      by (metis cat_table_iff [OF assms] option.inject)
    then have "(\<forall>p\<in>set (cat_tables c). td_id p = i \<longrightarrow> B \<longrightarrow> td_tenant_column p \<noteq> None) \<longleftrightarrow>
        (B \<longrightarrow> td_tenant_column q \<noteq> None)" by metis
    then show ?thesis using Some by simp
  qed
  then show ?thesis by (simp add: refuse_cross_tenant_edges_def try_each_ok)
qed

section \<open>Insertion\<close>

lemma catalog_ok_snoc:
  assumes "catalog_ok c" and "table_ok t"
  shows "catalog_ok (c\<lparr>cat_tables := cat_tables c @ [t]\<rparr>) \<longleftrightarrow>
    find (\<lambda>u. td_id u = td_id t \<or> td_name u = td_name t) (cat_tables c) = None \<and>
    try_each (check_index_id c t) (td_indexes t) = Inr () \<and>
    refuse_cross_tenant_edges (c\<lparr>cat_tables := cat_tables c @ [t]\<rparr>) = Inr ()"
    (is "?ok \<longleftrightarrow> ?new \<and> ?ids \<and> ?edges")
proof -
  let ?c = "c\<lparr>cat_tables := cat_tables c @ [t]\<rparr>"
  have new: "?new \<longleftrightarrow> distinct (map td_id (cat_tables ?c)) \<and> distinct (map td_name (cat_tables ?c))"
    using assms(1) by (simp add: catalog_ok_def find_None_iff image_iff) metis
  have "distinct (map ix_id (td_indexes t))" using assms(2) by (simp add: table_ok_def Let_def)
  moreover have "?ids \<longleftrightarrow> set (index_ids (cat_tables c)) \<inter> ix_id ` set (td_indexes t) = {}"
    by (auto simp: try_each_ok check_index_id_Inr)
  ultimately have ids: "?ids \<longleftrightarrow> distinct (index_ids (cat_tables ?c))"
    using assms(1) by (simp add: catalog_ok_def) (simp add: index_ids_def)
  show ?thesis using new ids refuse_Inr [of ?c] unfolding catalog_ok_def by blast
qed

text \<open>C35. Inserting a table keeps the catalog sound and never half-succeeds: table ids and names stay
  unique, index ids stay unique over the whole catalog, no tenant-scoped table gets a foreign key
  into a shared one, in whichever order the two arrive; a refused insertion leaves the catalog
  unchanged; and an insertion is refused only when the result would break one of these rules.\<close>

theorem catalog_insert_sound:
  assumes "catalog_ok c" and "table_ok t" and "Catalog_insert t c = (res, c')"
  shows "catalog_ok c' \<and>
    (res = Inr () \<and> cat_tables c' = cat_tables c @ [t] \<or> (\<exists>e. res = Inl e) \<and> c' = c) \<and>
    (res = Inr () \<longleftrightarrow> catalog_ok (c\<lparr>cat_tables := cat_tables c @ [t]\<rparr>))"
proof -
  note ok = catalog_ok_snoc [OF assms(1,2)]
  show ?thesis
  proof (cases "catalog_ok (c\<lparr>cat_tables := cat_tables c @ [t]\<rparr>)")
    case True
    then show ?thesis using assms(3) ok by (auto simp: Catalog_insert_def Let_def)
  next
    case False
    then have "\<exists>e. res = Inl e \<and> c' = c"
      using assms(3) ok
      by (auto simp: Catalog_insert_def Let_def eq_commute [of "Inl _" "try_each _ _"]
          eq_commute [of "Inl _" "refuse_cross_tenant_edges _"] split: option.splits sum.splits)
    then show ?thesis using False assms(1) by auto
  qed
qed

section \<open>Building a catalog\<close>

definition foreign_keys_valid :: "Catalog \<Rightarrow> bool" where
  "foreign_keys_valid c \<longleftrightarrow>
     (\<forall>t\<in>set (cat_tables c). \<forall>key\<in>set (td_foreign_keys t).
        \<exists>p\<in>set (cat_tables c). td_id p = fk_parent key \<and>
          key_types t (fk_columns key) = primary_key_types p \<and>
          (td_tenant_column t \<noteq> None \<longrightarrow> td_tenant_column p \<noteq> None))"

lemma validate_foreign_key_Inr:
  assumes "validate_foreign_key c t key = Inr ()" and "table_ok t" and "\<forall>p\<in>set (cat_tables c). table_ok p"
    and "key \<in> set (td_foreign_keys t)"
  shows "\<exists>p\<in>set (cat_tables c). td_id p = fk_parent key \<and>
    key_types t (fk_columns key) = primary_key_types p \<and>
    (td_tenant_column t \<noteq> None \<longrightarrow> td_tenant_column p \<noteq> None)"
proof -
  from assms(1) obtain p where p: "cat_table c (fk_parent key) = Some p"
      "length (fk_columns key) = length (td_primary_key p)"
      "try_each (check_column_pair t key p) (zip (fk_columns key) (td_primary_key p)) = Inr ()"
      "td_tenant_column t \<noteq> None \<longrightarrow> td_tenant_column p \<noteq> None"
    by (auto simp: validate_foreign_key_def Let_def result_simps split: if_splits)
  have mem: "p \<in> set (cat_tables c)" "td_id p = fk_parent key"
    using p(1) find_Some_set unfolding cat_table_def by fastforce+
  have child: "\<forall>i\<in>set (fk_columns key). i < length (td_columns t)"
    using assms(2,4) by (auto simp: table_ok_def Let_def foreign_key_ok_def live_column_def)
  have parent: "\<forall>i\<in>set (td_primary_key p). i < length (td_columns p)"
    using assms(3) mem(1) by (auto simp: table_ok_def Let_def key_ok_def keyable_def live_column_def)
  have "key_types t (fk_columns key) = primary_key_types p"
  proof (rule nth_equalityI)
    fix n
    assume "n < length (key_types t (fk_columns key))"
    then have n: "n < length (fk_columns key)" by (simp add: key_types_def)
    then have "(fk_columns key ! n, td_primary_key p ! n) \<in> set (zip (fk_columns key) (td_primary_key p))"
      using p(2) by (auto simp: in_set_zip)
    then have "check_column_pair t key p (fk_columns key ! n, td_primary_key p ! n) = Inr ()"
      using p(3) by (simp add: try_each_ok)
    then show "key_types t (fk_columns key) ! n = primary_key_types p ! n"
      using n p(2) child parent
      by (auto simp: check_column_pair_def td_column_def key_types_def primary_key_types_def split: if_splits)
  qed (use p(2) in \<open>simp add: key_types_def primary_key_types_def\<close>)
  then show ?thesis using mem p(4) by blast
qed

lemma insert_fold_ok:
  assumes "try_fold (\<lambda>c t. case Catalog_insert t c of (res, c') \<Rightarrow> rbind res (\<lambda>_. Inr c')) c ts = Inr c'"
    and "catalog_ok c" and "\<forall>t\<in>set ts. table_ok t"
  shows "catalog_ok c' \<and> cat_tables c' = cat_tables c @ ts"
  using assms
proof (induction ts arbitrary: c)
  case (Cons t ts)
  obtain res d where d: "Catalog_insert t c = (res, d)" by fastforce
  with Cons.prems(1) have res: "res = Inr ()" by (auto simp: result_simps)
  have fold: "try_fold (\<lambda>c t. case Catalog_insert t c of (res, c') \<Rightarrow> rbind res (\<lambda>_. Inr c')) d ts = Inr c'"
    using Cons.prems(1) d res by simp
  have "catalog_ok (c\<lparr>cat_tables := cat_tables c @ [t]\<rparr>) \<and> d = c\<lparr>cat_tables := cat_tables c @ [t]\<rparr>"
    using d res catalog_ok_snoc [OF Cons.prems(2), of t] Cons.prems(3)
    by (auto simp: Catalog_insert_def Let_def split: option.splits sum.splits)
  then show ?case using Cons.IH [OF fold] Cons.prems(3) by simp
qed simp

text \<open>A catalog built from tables holds them all, in order, with the invariant of insertion, and
  every foreign key finds its parent there with a primary key of exactly the referencing columns'
  types, so a reference encodes to a key the parent can have.\<close>

theorem from_tables_sound:
  assumes "\<forall>t\<in>set ts. table_ok t" and "from_tables ts = Inr c"
  shows "cat_tables c = ts \<and> catalog_ok c \<and> foreign_keys_valid c"
proof -
  from assms(2) have fold: "try_fold (\<lambda>c t. case Catalog_insert t c of (res, c') \<Rightarrow> rbind res (\<lambda>_. Inr c'))
      Catalog_new ts = Inr c" and valid: "validate_foreign_keys c = Inr ()"
    by (auto simp: from_tables_def result_simps)
  have "catalog_ok Catalog_new" by (simp add: catalog_ok_def Catalog_new_def index_ids_def)
  then have c: "catalog_ok c \<and> cat_tables c = ts"
    using insert_fold_ok [OF fold _ assms(1)] by (simp add: Catalog_new_def)
  then show ?thesis
    using valid validate_foreign_key_Inr [of c] assms(1)
    by (simp add: foreign_keys_valid_def validate_foreign_keys_def try_each_ok)
qed

text \<open>Two tables of one tenant-scoped schema. The child's foreign key has the parent's key types, but
  its first column is not the child's tenant column.\<close>

definition parent_builder :: TableBuilder where
  "parent_builder =
     (tb_set_tenant_column ''t'' \<circ> tb_set_primary_key [''t'', ''id''] \<circ> tb_column ''id'' TU64
      \<circ> tb_column ''t'' TStr) (TableDef_builder ''parent'' 1)"

definition child_builder :: TableBuilder where
  "child_builder =
     (tb_foreign_key (on_delete Cascade (fb_column ''id'' (fb_column ''owner'' (ForeignKeyDef_builder ''up'' 1))))
      \<circ> tb_index (ib_column ''owner'' (IndexDef_builder ''by_owner'' 4))
      \<circ> tb_set_tenant_column ''t'' \<circ> tb_set_primary_key [''t'', ''id''] \<circ> tb_column ''owner'' TStr
      \<circ> tb_column ''id'' TU64 \<circ> tb_column ''t'' TStr) (TableDef_builder ''child'' 2)"

lemma parent_built: "build parent_builder = Inr (built parent_builder)"
  and child_built: "build child_builder = Inr (built child_builder)"
  by (simp_all add: built_def parent_builder_def child_builder_def on_delete_def build_eval cong: build_congs)

lemma family_ok: "table_ok (built parent_builder)" "table_ok (built child_builder)"
proof -
  have "constructed parent_builder" "constructed child_builder"
    by (simp_all add: parent_builder_def child_builder_def constructed.intros)
  then show "table_ok (built parent_builder)" "table_ok (built child_builder)"
    using parent_built child_built constructed_inv built_table_ok by blast+
qed

lemmas catalog_eval = from_tables_def Catalog_insert_def Catalog_new_def check_index_id_def
  refuse_cross_tenant_edges_def cat_table_def validate_foreign_keys_def validate_foreign_key_def
  check_column_pair_def td_column_def

lemma family_catalog:
  "from_tables [built parent_builder, built child_builder] =
     Inr \<lparr>cat_tables = [built parent_builder, built child_builder]\<rparr>"
  by (simp add: built_def parent_builder_def child_builder_def on_delete_def build_eval catalog_eval
      cong: build_congs)

theorem catalog_insert_sound_witness:
  "catalog_ok (snd (Catalog_insert (built parent_builder) Catalog_new))"
proof -
  have "catalog_ok Catalog_new" by (simp add: catalog_ok_def Catalog_new_def index_ids_def)
  from catalog_insert_sound [OF this family_ok(1) prod.collapse [symmetric]] show ?thesis by blast
qed

theorem from_tables_sound_witness:
  "foreign_keys_valid \<lparr>cat_tables = [built parent_builder, built child_builder]\<rparr>"
  using from_tables_sound [OF _ family_catalog] family_ok by simp

text \<open>The catalog accepts a cascading foreign key of a tenant-scoped child that is not led by the
  child's tenant column, so the rows a cascade from a parent reaches are not confined to one tenant
  by the key encoding.\<close>

theorem cascade_edge_outside_tenant:
  "\<exists>p t key. from_tables [p, t] = Inr \<lparr>cat_tables = [p, t]\<rparr> \<and> table_ok p \<and> table_ok t \<and>
     key \<in> set (td_foreign_keys t) \<and> fk_parent key = td_id p \<and> fk_on_delete key = Cascade \<and>
     td_tenant_column t = Some 0 \<and> td_tenant_column p = Some 0 \<and> 0 \<notin> set (fk_columns key)"
proof -
  let ?t = "built child_builder"
  have "\<exists>key\<in>set (td_foreign_keys ?t). fk_parent key = td_id (built parent_builder) \<and>
      fk_on_delete key = Cascade \<and> 0 \<notin> set (fk_columns key)"
    and "td_tenant_column ?t = Some 0" and "td_tenant_column (built parent_builder) = Some 0"
    by (simp_all add: built_def parent_builder_def child_builder_def on_delete_def build_eval cong: build_congs)
  then show ?thesis using family_catalog family_ok by blast
qed

lemma referencing_iff:
  "(t, key) \<in> set (referencing c p) \<longleftrightarrow>
     t \<in> set (cat_tables c) \<and> key \<in> set (td_foreign_keys t) \<and> fk_parent key = p"
  by (auto simp: referencing_def)


end
