(* ===== verification/Schema_Row.thy ===== *)
theory Schema_Row
  imports Schema_Build Tuple_Roundtrip Column_Set
begin

text \<open>
  Rows and the row body codec of \<open>crates/slate-schema/src/row.rs\<close>: validation against a table, the
  body \<open><format><version><stored columns>\<close>, and the decoder, which reads a body written by an older
  version of the schema and skips the columns a query does not want. A \<open>Row\<close> is the list of its
  values. The laws: a body written under one version of a schema reads back under every later one
  as evolution demands, and a projection is the full row with the other columns blanked.
\<close>

section \<open>Validation\<close>

definition validate_elements :: "TableDef \<Rightarrow> ColumnDef \<Rightarrow> Value \<Rightarrow> SchemaError + unit" where
  "validate_elements t c v =
     (case (element_type c, v) of
        (Some element, Array elements) \<Rightarrow>
          try_each (\<lambda>(index, item).
            if value_type item \<noteq> Some element
            then Inl (ArrayElementTypeMismatch (td_name t) (col_name c) index element (type_name item))
            else Inr ()) (enumerate 0 elements)
      | _ \<Rightarrow> Inr ())"

definition validate_column :: "TableDef \<Rightarrow> ColumnDef \<times> Value \<Rightarrow> SchemaError + unit" where
  "validate_column t cv =
     (case cv of (c, v) \<Rightarrow>
      if is_dropped c then
        if is_null v then Inr () else Inl (DroppedColumnValue (td_name t) (col_name c))
      else
        rbind
          (case value_type v of
             None \<Rightarrow> if \<not> col_nullable c then Inl (UnexpectedNull (td_name t) (col_name c)) else Inr ()
           | Some actual \<Rightarrow>
               if actual \<noteq> col_ty c
               then Inl (ValueTypeMismatch (td_name t) (col_name c) (col_ty c) (type_name v))
               else Inr ())
          (\<lambda>_. validate_elements t c v))"

definition validate_index :: "TableDef \<Rightarrow> Row \<Rightarrow> IndexDef \<Rightarrow> SchemaError + unit" where
  "validate_index t row ix =
     (case ix_expression ix of
        None \<Rightarrow> Inr ()
      | Some e \<Rightarrow>
          let v = ie_compute e row in
          (case value_type v of
             Some actual \<Rightarrow>
               if actual \<noteq> ie_produces e
               then Inl (IndexValueTypeMismatch (td_name t) (ix_name ix) (ie_produces e) (type_name v))
               else Inr ()
           | None \<Rightarrow> Inr ()))"

definition validate :: "Row \<Rightarrow> TableDef \<Rightarrow> SchemaError + unit" where
  "validate row t =
     (if length row \<noteq> length (td_columns t)
      then Inl (ColumnCountMismatch (td_name t) (length (td_columns t)) (length row))
      else
        rbind (try_each (validate_column t) (zip (td_columns t) row)) (\<lambda>_.
        try_each (validate_index t row) (td_indexes t)))"

section \<open>The body\<close>

definition ROW_FORMAT_V1 :: u8 where
  "ROW_FORMAT_V1 = 1"

definition encode_body :: "TableDef \<Rightarrow> Row \<Rightarrow> bytes" where
  "encode_body t row =
     fold (\<lambda>i out. encode_value_into out (value_or_null row i) Asc) (td_stored_columns t)
       (ROW_FORMAT_V1 # u32_to_be_bytes (td_schema_version t))"

definition present_at :: "ColumnDef \<Rightarrow> u32 \<Rightarrow> bool" where
  "present_at c v = (col_added_in c \<le> v \<and> is_none_or (\<lambda>at. v < at) (col_dropped_in c))"

definition fill_key :: "TableDef \<Rightarrow> Value list \<Rightarrow> Value list \<Rightarrow> Value list" where
  "fill_key t primary_key values = fold (\<lambda>(i, v) vs. vs[i := v]) (zip (td_primary_key t) primary_key) values"

definition decode_column ::
  "TableDef \<Rightarrow> u32 \<Rightarrow> ColumnSet option \<Rightarrow> Value list \<times> TupleReader \<times> nat \<Rightarrow> Ordinal \<Rightarrow>
     SchemaError + (Value list \<times> TupleReader \<times> nat)" where
  "decode_column t written wanted s i =
     (case s of (values, reader, decoded) \<Rightarrow>
      case td_column t i of
        None \<Rightarrow> Inr (values, reader, decoded)
      | Some c \<Rightarrow>
          if \<not> present_at c written then
            if is_none_or (\<lambda>at. written < at) (col_dropped_in c) then
              (case col_default c of
                 Some d \<Rightarrow>
                   Inr (if is_none_or (\<lambda>w. ColumnSet_contains w i) wanted then values[i := d] else values,
                        reader, decoded)
               | None \<Rightarrow>
                   if \<not> col_nullable c
                   then Inl (IncompatibleSchemaEvolution (td_name t) (col_name c) written)
                   else Inr (values, reader, decoded))
            else Inr (values, reader, decoded)
          else
            let decoded = decoded + 1 in
            if is_dropped c \<or> is_some_and (\<lambda>w. \<not> ColumnSet_contains w i) wanted then
              rbind (map_err (RowDecode (td_name t)) (skip Asc reader)) (\<lambda>(_, reader).
              Inr (values, reader, decoded))
            else
              rbind (map_err (RowDecode (td_name t)) (tuple_read (col_ty c) Asc reader)) (\<lambda>(v, reader).
              Inr (values[i := v], reader, decoded)))"

definition decode_payload ::
  "TableDef \<Rightarrow> Value list \<Rightarrow> bytes \<Rightarrow> u32 \<Rightarrow> ColumnSet option \<Rightarrow> Value list \<Rightarrow> SchemaError + Row" where
  "decode_payload t primary_key payload written wanted values =
     rbind (try_fold (decode_column t written wanted) (values, TupleReader_new payload, 0)
              (td_body_columns t)) (\<lambda>(values, reader, decoded).
     if \<not> reader_is_empty reader
     then Inl (RowDecode (td_name t) (TrailingBytes decoded (length (remainder reader))))
     else Inr (fill_key t primary_key values))"

definition decode_row_columns ::
  "TableDef \<Rightarrow> Value list \<Rightarrow> bytes \<Rightarrow> ColumnSet option \<Rightarrow> SchemaError + Row" where
  "decode_row_columns t primary_key body wanted =
     (case body of
        [] \<Rightarrow> Inl (RowDecode (td_name t) (Truncated 0 1))
      | format # rest \<Rightarrow>
          if format \<noteq> ROW_FORMAT_V1 then Inl (UnsupportedRowFormat (td_name t) format)
          else
            let header_len = 1 + 4 in
            if length body < header_len
            then Inl (RowDecode (td_name t) (Truncated (length body) (header_len - length body)))
            else
              let written = of_nat (of_be (take 4 rest)) in
              if written > td_schema_version t
              then Inl (RowFromFutureSchema (td_name t) written (td_schema_version t))
              else
                let values = replicate (length (td_columns t)) Null in
                if is_some_and (\<lambda>w. \<not> list_ex (\<lambda>i. ColumnSet_contains w i) (td_body_columns t)) wanted
                then Inr (fill_key t primary_key values)
                else decode_payload t primary_key (drop header_len body) written wanted values)"

definition decode_row :: "TableDef \<Rightarrow> Value list \<Rightarrow> bytes \<Rightarrow> SchemaError + Row" where
  "decode_row t primary_key body = decode_row_columns t primary_key body None"

section \<open>Partial rows\<close>

record PartialRow =
  pr_values :: "Value option list"

definition PartialRow_for_table :: "TableDef \<Rightarrow> PartialRow" where
  "PartialRow_for_table t = \<lparr>pr_values = replicate (length (td_columns t)) None\<rparr>"

definition PartialRow_set :: "Ordinal \<Rightarrow> Value \<Rightarrow> PartialRow \<Rightarrow> PartialRow" where
  "PartialRow_set i v p = p\<lparr>pr_values := (pr_values p)[i := Some v]\<rparr>"

definition PartialRow_is_set :: "PartialRow \<Rightarrow> Ordinal \<Rightarrow> bool" where
  "PartialRow_is_set p i = is_some_and (\<lambda>x. x \<noteq> None) (get (pr_values p) i)"

definition fill_unset :: "ColumnDef \<times> Value option \<Rightarrow> Value" where
  "fill_unset cs =
     (case cs of (c, supplied) \<Rightarrow>
      case supplied of
        Some v \<Rightarrow> v
      | None \<Rightarrow>
          if col_managed c \<noteq> None then I64 0
          else (case col_default c of Some d \<Rightarrow> d | None \<Rightarrow> Null))"

definition PartialRow_into_row :: "PartialRow \<Rightarrow> TableDef \<Rightarrow> SchemaError + Row" where
  "PartialRow_into_row p t =
     (if length (pr_values p) \<noteq> length (td_columns t)
      then Inl (ColumnCountMismatch (td_name t) (length (td_columns t)) (length (pr_values p)))
      else
        let row = map fill_unset (zip (td_columns t) (pr_values p)) in
        rbind (validate row t) (\<lambda>_. Inr row))"

section \<open>What validation accepts\<close>

definition column_accepts :: "ColumnDef \<Rightarrow> Value \<Rightarrow> bool" where
  "column_accepts c v \<longleftrightarrow>
     (if is_dropped c then v = Null
      else if v = Null then col_nullable c
      else value_type v = Some (col_ty c) \<and>
        (\<forall>e es. col_ty c = TArray \<longrightarrow> col_element c = Some e \<longrightarrow> v = Array es \<longrightarrow>
           (\<forall>x\<in>set es. value_type x = Some e)))"

definition row_valid :: "TableDef \<Rightarrow> Row \<Rightarrow> bool" where
  "row_valid t row \<longleftrightarrow>
     length row = length (td_columns t) \<and>
     (\<forall>i<length row. column_accepts (td_columns t ! i) (row ! i)) \<and>
     (\<forall>ix\<in>set (td_indexes t). \<forall>e. ix_expression ix = Some e \<longrightarrow>
        has_type (ie_produces e) (ie_compute e row))"

lemma try_each_enumerate:
  "try_each (\<lambda>(i, x). if Q x then Inl (e i x) else Inr ()) (enumerate n xs) = Inr () \<longleftrightarrow> (\<forall>x\<in>set xs. \<not> Q x)"
  by (induction xs arbitrary: n) auto

lemma validate_elements_Inr:
  "validate_elements t c v = Inr u \<longleftrightarrow>
     (\<forall>e es. col_ty c = TArray \<longrightarrow> col_element c = Some e \<longrightarrow> v = Array es \<longrightarrow>
        (\<forall>x\<in>set es. value_type x = Some e))"
proof (cases "\<exists>e es. element_type c = Some e \<and> v = Array es")
  case True
  then obtain e es where "element_type c = Some e" "v = Array es" by blast
  then show ?thesis
    by (auto simp: validate_elements_def try_each_enumerate element_type_def split: ValueType.splits)
next
  case False
  then show ?thesis
    by (auto simp: validate_elements_def element_type_def split: ValueType.splits option.splits Value.splits)
qed

lemma validate_column_Inr: "validate_column t (c, v) = Inr u \<longleftrightarrow> column_accepts c v"
  by (auto simp: validate_column_def column_accepts_def rbind_eq_Inr validate_elements_Inr split: option.splits if_splits)

lemma validate_index_Inr:
  "validate_index t row ix = Inr u \<longleftrightarrow>
     (\<forall>e. ix_expression ix = Some e \<longrightarrow> has_type (ie_produces e) (ie_compute e row))"
  by (auto simp: validate_index_def has_type_def Let_def split: option.splits)

lemma validate_Inr: "validate row t = Inr u \<longleftrightarrow> row_valid t row"
  by (auto simp: validate_def row_valid_def rbind_eq_Inr try_each_ok set_zip validate_column_Inr
      validate_index_Inr split: if_splits)


section \<open>Bodies as bytes\<close>

definition header :: "TableDef \<Rightarrow> bytes" where
  "header t = ROW_FORMAT_V1 # u32_to_be_bytes (td_schema_version t)"

lemma encode_body_bytes:
  "encode_body t row = header t @ tuple_bytes [] (project row (td_stored_columns t))"
proof -
  have "fold (\<lambda>i out. encode_value_into out (value_or_null row i) Asc) os out =
      out @ tuple_bytes [] (project row os)" for os out
    by (induction os arbitrary: out) (simp_all add: encode_value_into_dir project_def)
  then show ?thesis by (simp add: encode_body_def header_def)
qed

lemma u32_bytes:
  "length (u32_to_be_bytes w) = 4" "of_nat (of_be (u32_to_be_bytes w)) = (w :: u32)"
  using unsigned_less [of w, where 'a = nat] by (simp_all add: u32_to_be_bytes_def of_be_to_be)

lemma decode_header:
  "decode_row_columns t key (header t' @ payload) wanted =
     (if td_schema_version t' > td_schema_version t
      then Inl (RowFromFutureSchema (td_name t) (td_schema_version t') (td_schema_version t))
      else if is_some_and (\<lambda>w. \<not> list_ex (\<lambda>i. ColumnSet_contains w i) (td_body_columns t)) wanted
      then Inr (fill_key t key (replicate (length (td_columns t)) Null))
      else decode_payload t key payload (td_schema_version t') wanted (replicate (length (td_columns t)) Null))"
  by (simp add: decode_row_columns_def header_def Let_def u32_bytes)

lemma length_fill_key [simp]: "length (fill_key t key vs) = length vs"
proof -
  have "length (fold (\<lambda>(i, v) vs. vs[i := v]) ps vs) = length vs" for ps :: "(nat \<times> Value) list" and vs
    by (induction ps arbitrary: vs) (auto split: prod.splits)
  then show ?thesis by (simp add: fill_key_def)
qed

lemma fold_update_nth:
  "distinct is \<Longrightarrow> j < length vs \<Longrightarrow>
   fold (\<lambda>(i, v) vs. vs[i := v]) (zip is xs) vs ! j =
     (case map_of (zip is xs) j of None \<Rightarrow> vs ! j | Some v \<Rightarrow> v)"
proof (induction "is" xs arbitrary: vs rule: list_induct2')
  case (4 i "is" x xs)
  then show ?case
    by (auto simp: nth_list_update dest: map_of_SomeD set_zip_leftD split: option.splits)
qed auto

lemma fill_key_nth:
  assumes "distinct (td_primary_key t)" and "j < length vs"
  shows "fill_key t (map f (td_primary_key t)) vs ! j = (if j \<in> set (td_primary_key t) then f j else vs ! j)"
  using assms by (simp add: fill_key_def fold_update_nth map_of_zip_map)

section \<open>Schema evolution\<close>

text \<open>A table is evolved from another when it has the same primary key and the old columns at their
  old ordinals and types, a drop is for ever, a new drop comes after the old version, and a new
  column is added after the old version.\<close>

definition evolves :: "TableDef \<Rightarrow> TableDef \<Rightarrow> bool" where
  "evolves old new \<longleftrightarrow>
     td_primary_key old = td_primary_key new \<and> td_schema_version old \<le> td_schema_version new \<and>
     length (td_columns old) \<le> length (td_columns new) \<and>
     (\<forall>i<length (td_columns old).
        let c = td_columns old ! i; d = td_columns new ! i in
        col_ty d = col_ty c \<and> col_added_in d = col_added_in c \<and>
        (\<forall>v. col_dropped_in c = Some v \<longrightarrow> col_dropped_in d = Some v) \<and>
        (\<forall>v. col_dropped_in c = None \<longrightarrow> col_dropped_in d = Some v \<longrightarrow> td_schema_version old < v)) \<and>
     (\<forall>i<length (td_columns new). length (td_columns old) \<le> i \<longrightarrow>
        td_schema_version old < col_added_in (td_columns new ! i))"

text \<open>Every column was added by the current version.\<close>

definition versions_ok :: "TableDef \<Rightarrow> bool" where
  "versions_ok t \<longleftrightarrow> (\<forall>c\<in>set (td_columns t). col_added_in c \<le> td_schema_version t)"

definition evolvable :: "TableDef \<Rightarrow> bool" where
  "evolvable t \<longleftrightarrow> (\<forall>c\<in>set (td_columns t). col_added_in c = 0 \<or> col_nullable c \<or> col_default c \<noteq> None)"

text \<open>What a column of a row written under an old version holds under a new one.\<close>

definition evolved_value :: "TableDef \<Rightarrow> TableDef \<Rightarrow> Row \<Rightarrow> Ordinal \<Rightarrow> Value" where
  "evolved_value old new row i =
     (if i \<in> set (td_primary_key new) then row ! i
      else if is_dropped (td_columns new ! i) then Null
      else if i < length (td_columns old) then canon (row ! i)
      else (case col_default (td_columns new ! i) of Some v \<Rightarrow> v | None \<Rightarrow> Null))"

definition stored :: "TableDef \<Rightarrow> Ordinal \<Rightarrow> bool" where
  "stored t i \<longleftrightarrow> i < length (td_columns t) \<and> \<not> is_dropped (td_columns t ! i)"

lemma stored_of_new_body:
  assumes "table_ok old" and "table_ok new" and "evolves old new"
  shows "filter (stored old) (td_body_columns new) = td_stored_columns old"
proof -
  have le: "[0..<length (td_columns new)] = [0..<length (td_columns old)] @ [length (td_columns old)..<length (td_columns new)]"
    using assms(3) upt_add_eq_append [of 0 "length (td_columns old)" "length (td_columns new) - length (td_columns old)"]
    by (simp add: evolves_def)
  have "filter (stored old) (filter (\<lambda>i. i \<notin> set (td_primary_key old)) [length (td_columns old)..<length (td_columns new)]) = []"
    by (simp add: filter_empty_conv stored_def)
  moreover have "filter (stored old) (filter (\<lambda>i. i \<notin> set (td_primary_key old)) [0..<length (td_columns old)]) =
      filter (\<lambda>i. \<not> is_dropped (td_columns old ! i)) (filter (\<lambda>i. i \<notin> set (td_primary_key old)) [0..<length (td_columns old)])"
    by (rule filter_cong) (auto simp: stored_def)
  ultimately show ?thesis
    using assms le by (simp add: table_ok_def Let_def evolves_def)
qed

lemma present_iff_stored:
  assumes "table_ok old" and "versions_ok old" and "evolves old new" and "i < length (td_columns new)"
  shows "present_at (td_columns new ! i) (td_schema_version old) \<longleftrightarrow> stored old i"
proof (cases "i < length (td_columns old)")
  case False
  then show ?thesis using assms by (auto simp: evolves_def present_at_def stored_def)
next
  case True
  let ?c = "td_columns old ! i"
  have mem: "?c \<in> set (td_columns old)" using True by simp
  have c: "col_added_in ?c \<le> td_schema_version old"
    "\<forall>v. col_dropped_in ?c = Some v \<longrightarrow> v \<le> td_schema_version old"
    using assms(1,2) mem by (auto simp: versions_ok_def table_ok_def Let_def column_ok_def)
  have d: "col_added_in (td_columns new ! i) = col_added_in ?c"
    "\<forall>v. col_dropped_in ?c = Some v \<longrightarrow> col_dropped_in (td_columns new ! i) = Some v"
    "\<forall>v. col_dropped_in ?c = None \<longrightarrow> col_dropped_in (td_columns new ! i) = Some v \<longrightarrow> td_schema_version old < v"
    using assms(3) True by (auto simp: evolves_def Let_def)
  show ?thesis
  proof (cases "col_dropped_in ?c")
    case None
    then show ?thesis
      using True c d by (cases "col_dropped_in (td_columns new ! i)") (auto simp: present_at_def stored_def is_dropped_def)
  next
    case (Some v)
    then show ?thesis using True c d by (auto simp: present_at_def stored_def is_dropped_def)
  qed
qed


text \<open>A value a live column accepts is one the codec round-trips.\<close>

lemma column_accepts_fits:
  assumes "column_ok sv c" and "column_accepts c v" and "\<not> is_dropped c" and "wf_value v"
  shows "fits (col_ty c) v"
proof (cases "is_array v")
  case False
  then have "flat v" by (cases v) auto
  then show ?thesis using assms(2-4) by (auto simp: fits_def column_accepts_def has_type_def split: if_splits)
next
  case True
  then obtain es where es: "v = Array es" by (cases v) auto
  then have ty: "col_ty c = TArray" using assms(2,3) by (auto simp: column_accepts_def)
  then obtain e where "col_element c = Some e" "e \<noteq> TArray" using assms(1) by (auto simp: column_ok_def)
  then have "\<forall>x\<in>set es. value_type x \<noteq> Some TArray"
    using assms(2,3) es ty by (auto simp: column_accepts_def)
  then have "flat v" using es by (auto simp: list_all_iff elim!: is_array.elims(2))
  then show ?thesis using assms(4) es ty by (auto simp: fits_def has_type_def)
qed

lemma stored_fits:
  assumes "table_ok t" and "row_valid t row" and "list_all wf_value row" and "stored t i"
  shows "fits (col_ty (td_columns t ! i)) (row ! i)"
proof -
  have i: "i < length (td_columns t)" "i < length row" "\<not> is_dropped (td_columns t ! i)"
    using assms(2,4) by (auto simp: stored_def row_valid_def)
  show ?thesis
  proof (rule column_accepts_fits [OF _ _ i(3)])
    show "column_ok (td_schema_version t) (td_columns t ! i)"
      using assms(1) i(1) by (auto simp: table_ok_def Let_def)
    show "column_accepts (td_columns t ! i) (row ! i)" using assms(2) i by (auto simp: row_valid_def)
    show "wf_value (row ! i)" using assms(3) i by (auto simp: list_all_length)
  qed
qed

definition stored_bytes :: "TableDef \<Rightarrow> Row \<Rightarrow> Ordinal \<Rightarrow> bytes" where
  "stored_bytes t row i = (if stored t i then dir_bytes Asc (row ! i) else [])"

lemma update_null: "vals ! i = Null \<Longrightarrow> vals[i := Null] = vals"
  by (metis list_update_id)

lemma not_stored_evolved:
  assumes "table_ok old" and "table_ok new" and "versions_ok old" and "evolves old new" and "evolvable new"
    and "i < length (td_columns new)" and "i \<notin> set (td_primary_key new)" and "\<not> stored old i" and "vals ! i = Null"
  shows "decode_column new (td_schema_version old) None (vals, r, k) i =
    Inr (vals[i := evolved_value old new row i], r, k)"
proof -
  let ?d = "td_columns new ! i"
  have absent: "\<not> present_at ?d (td_schema_version old)"
    using present_iff_stored [OF assms(1,3,4,6)] assms(8) by simp
  have mem: "?d \<in> set (td_columns new)" using assms(6) by simp
  show ?thesis
  proof (cases "i < length (td_columns old)")
    case True
    then obtain v where v: "col_dropped_in (td_columns old ! i) = Some v"
      using assms(8) by (auto simp: stored_def is_dropped_def)
    have "td_columns old ! i \<in> set (td_columns old)" using True by simp
    then have "v \<le> td_schema_version old"
      using assms(1) v by (auto simp: table_ok_def Let_def column_ok_def)
    moreover have "col_dropped_in ?d = Some v" using assms(4) True v by (auto simp: evolves_def Let_def)
    ultimately show ?thesis
      using absent assms(6,7,9)
      by (auto simp: decode_column_def td_column_def evolved_value_def is_dropped_def update_null)
  next
    case False
    then have added: "td_schema_version old < col_added_in ?d" using assms(4,6) by (simp add: evolves_def)
    have ok: "column_ok (td_schema_version new) ?d" using assms(2) mem by (simp add: table_ok_def Let_def)
    then have "is_none_or (\<lambda>at. td_schema_version old < at) (col_dropped_in ?d)"
      using added less_trans by (cases "col_dropped_in ?d") (auto simp: column_ok_def)
    moreover have "col_default ?d = None \<Longrightarrow> col_nullable ?d"
      using assms(5) mem added by (auto simp: evolvable_def)
    moreover have "is_dropped ?d \<Longrightarrow> col_default ?d = None"
      using ok by (cases "col_default ?d") (auto simp: column_ok_def)
    ultimately show ?thesis
      using absent assms(6,7,9) False
      by (auto simp: decode_column_def td_column_def evolved_value_def update_null split: option.splits)
  qed
qed

lemma decode_column_evolved:
  assumes "table_ok old" and "table_ok new" and "versions_ok old" and "evolves old new" and "evolvable new"
    and "row_valid old row" and "list_all wf_value row"
    and "i < length (td_columns new)" and "i \<notin> set (td_primary_key new)" and "vals ! i = Null"
    and "length pre + length (stored_bytes old row i) < 2 ^ 64"
  shows "decode_column new (td_schema_version old) None (vals, cursor pre (stored_bytes old row i @ rest), k) i =
    Inr (vals[i := evolved_value old new row i], cursor (pre @ stored_bytes old row i) rest,
         if stored old i then k + 1 else k)"
proof (cases "stored old i")
  case False
  then show ?thesis using not_stored_evolved [OF assms(1-5,8,9)] assms(10) by (simp add: stored_bytes_def)
next
  case True
  then have old: "i < length (td_columns old)" by (simp add: stored_def)
  have fit: "fits (col_ty (td_columns old ! i)) (row ! i)" by (rule stored_fits [OF assms(1,6,7) True])
  have ty: "col_ty (td_columns new ! i) = col_ty (td_columns old ! i)"
    using assms(4) old by (simp add: evolves_def Let_def)
  have len: "length pre + length (element_bytes (row ! i)) < 2 ^ 64"
    using assms(11) True by (simp add: stored_bytes_def dir_bytes_def)
  have present: "present_at (td_columns new ! i) (td_schema_version old)"
    using present_iff_stored [OF assms(1,3,4,8)] True by simp
  show ?thesis
    using True old present assms(8-10) ty fit len
    by (auto simp: decode_column_def td_column_def stored_bytes_def evolved_value_def fits_def Let_def
        skip_flat tuple_read_element update_null)
qed

lemma tuple_bytes_project_filter:
  assumes "\<forall>i\<in>set os. P i \<longrightarrow> i < length row"
  shows "tuple_bytes [] (project row (filter P os)) = concat (map (\<lambda>i. if P i then dir_bytes Asc (row ! i) else []) os)"
  using assms by (induction os) (auto simp: project_def direction_at_def)

definition update_all :: "(nat \<Rightarrow> 'a) \<Rightarrow> nat list \<Rightarrow> 'a list \<Rightarrow> 'a list" where
  "update_all f is xs = fold (\<lambda>i xs. xs[i := f i]) is xs"

lemma update_all_simps [simp]:
  "update_all f [] xs = xs"
  "update_all f (i # is) xs = update_all f is (xs[i := f i])"
  "length (update_all f is xs) = length xs"
proof -
  show "length (update_all f is xs) = length xs"
    unfolding update_all_def by (induction "is" arbitrary: xs) auto
qed (simp_all add: update_all_def)

lemma update_all_nth: "j < length xs \<Longrightarrow> update_all f is xs ! j = (if j \<in> set is then f j else xs ! j)"
  by (induction "is" arbitrary: xs) (auto simp: nth_list_update)

lemma decode_columns_evolved:
  assumes "table_ok old" and "table_ok new" and "versions_ok old" and "evolves old new" and "evolvable new"
    and "row_valid old row" and "list_all wf_value row"
    and "distinct os" and "\<forall>i\<in>set os. i < length (td_columns new) \<and> i \<notin> set (td_primary_key new) \<and> vals ! i = Null"
    and "length pre + length (concat (map (stored_bytes old row) os)) < 2 ^ 64"
  shows "try_fold (decode_column new (td_schema_version old) None)
      (vals, cursor pre (concat (map (stored_bytes old row) os) @ rest), k) os =
    Inr (update_all (evolved_value old new row) os vals, cursor (pre @ concat (map (stored_bytes old row) os)) rest,
         k + length (filter (stored old) os))"
  using assms(8-10)
proof (induction os arbitrary: vals pre k)
  case (Cons i os)
  let ?bs = "concat (map (stored_bytes old row) os)" and ?vals = "vals[i := evolved_value old new row i]"
  have step: "decode_column new (td_schema_version old) None
      (vals, cursor pre (stored_bytes old row i @ ?bs @ rest), k) i =
      Inr (?vals, cursor (pre @ stored_bytes old row i) (?bs @ rest), if stored old i then k + 1 else k)"
    using Cons.prems by (intro decode_column_evolved [OF assms(1-7)]) auto
  have "\<forall>j\<in>set os. ?vals ! j = Null"
    using Cons.prems(1,2) by (metis distinct.simps(2) list.set_intros(2) nth_list_update_neq)
  then have "try_fold (decode_column new (td_schema_version old) None)
      (?vals, cursor (pre @ stored_bytes old row i) (?bs @ rest), k') os =
      Inr (update_all (evolved_value old new row) os ?vals, cursor ((pre @ stored_bytes old row i) @ ?bs) rest,
        k' + length (filter (stored old) os))" for k'
    using Cons.prems by (intro Cons.IH) auto
  then show ?case using step by simp
qed simp

text \<open>Reading a row written under an older version of the schema.\<close>

lemma decode_evolved:
  assumes "table_ok old" and "table_ok new" and "versions_ok old" and "evolves old new" and "evolvable new"
    and "row_valid old row" and "list_all wf_value row" and "length (encode_body old row) < 2 ^ 64"
  shows "decode_row new (primary_key_values row old) (encode_body old row) =
    Inr (map (evolved_value old new row) [0..<length (td_columns new)])"
proof -
  let ?n = "length (td_columns new)" and ?body = "td_body_columns new"
  let ?bs = "concat (map (stored_bytes old row) ?body)" and ?nulls = "replicate ?n Null"
  have body: "?body = filter (\<lambda>i. i \<notin> set (td_primary_key new)) [0..<?n]" "distinct (td_primary_key new)"
    using assms(2) by (auto simp: table_ok_def Let_def key_ok_def)
  have width: "length row = length (td_columns old)" using assms(6) by (simp add: row_valid_def)
  have bytes: "encode_body old row = header old @ ?bs"
    using tuple_bytes_project_filter [of ?body "stored old" row] width stored_of_new_body [OF assms(1,2,4)]
    by (simp add: encode_body_bytes stored_bytes_def [abs_def] stored_def)
  have loop: "try_fold (decode_column new (td_schema_version old) None) (?nulls, cursor [] (?bs @ []), 0) ?body =
      Inr (update_all (evolved_value old new row) ?body ?nulls, cursor ([] @ ?bs) [], 0 + length (filter (stored old) ?body))"
    by (rule decode_columns_evolved [OF assms(1-7)]) (use assms(8) bytes body in auto)
  have key: "primary_key_values row old = map ((!) row) (td_primary_key new)"
    using assms(1,4) width
    by (auto simp: primary_key_values_def project_in_range evolves_def table_ok_def Let_def key_ok_def
        keyable_def live_column_def)
  have "fill_key new (map ((!) row) (td_primary_key new)) (update_all (evolved_value old new row) ?body ?nulls) =
      map (evolved_value old new row) [0..<?n]"
    by (rule nth_equalityI) (use body in \<open>auto simp: fill_key_nth update_all_nth evolved_value_def\<close>)
  then have "decode_payload new (primary_key_values row old) ?bs (td_schema_version old) None ?nulls =
      Inr (map (evolved_value old new row) [0..<?n])"
    using loop by (simp add: decode_payload_def new_cursor key) (simp add: cursor_def reader_is_empty_def)
  moreover have "td_schema_version old \<le> td_schema_version new" using assms(4) by (simp add: evolves_def)
  ultimately show ?thesis
    by (simp add: decode_row_def bytes decode_header)
qed


section \<open>Projections\<close>

definition blank :: "(nat \<Rightarrow> bool) \<Rightarrow> Value list \<Rightarrow> Value list" where
  "blank keep vs = map (\<lambda>i. if keep i then vs ! i else Null) [0..<length vs]"

lemma length_blank [simp]: "length (blank keep vs) = length vs"
  by (simp add: blank_def)

lemma blank_nth [simp]: "i < length vs \<Longrightarrow> blank keep vs ! i = (if keep i then vs ! i else Null)"
  by (simp add: blank_def)

lemma blank_update [simp]:
  "blank keep (vs[i := v]) = (if keep i then (blank keep vs)[i := v] else blank keep vs)"
proof (cases "i < length vs")
  case True
  then show ?thesis by (intro nth_equalityI) (auto simp: nth_list_update)
qed (simp add: list_update_beyond)

text \<open>One column read for a projection follows the same column read in full.\<close>

lemma decode_column_project:
  assumes "decode_column t written None (vs, r, k) i = Inr (vs', r', k')" and "within r"
  shows "decode_column t written (Some w) (blank (ColumnSet_contains w) vs, r, k) i =
      Inr (blank (ColumnSet_contains w) vs', r', k') \<and> within r'"
proof (cases "td_column t i")
  case (Some c)
  show ?thesis
  proof (cases "present_at c written \<and> \<not> is_dropped c")
    case True
    then obtain v where v: "tuple_read (col_ty c) Asc r = Inr (v, r')" "vs' = vs[i := v]" "k' = k + 1"
      using assms(1) Some by (auto simp: decode_column_def Let_def rbind_eq_Inr)
    have "skip Asc r = Inr ((), r')" by (rule skip_reads_typed [OF assms(2) v(1)])
    then show ?thesis using True Some v skip_within [of Asc r r'] assms(2) by (simp add: decode_column_def Let_def)
  next
    case False
    then show ?thesis
      using assms Some
      by (auto simp: decode_column_def Let_def rbind_eq_Inr split: if_splits option.splits intro: skip_within)
  qed
qed (use assms in \<open>simp add: decode_column_def\<close>)

lemma decode_columns_project:
  assumes "try_fold (decode_column t written None) (vs, r, k) os = Inr (vs', r', k')" and "within r"
  shows "try_fold (decode_column t written (Some w)) (blank (ColumnSet_contains w) vs, r, k) os =
    Inr (blank (ColumnSet_contains w) vs', r', k')"
  using assms
proof (induction os arbitrary: vs r k)
  case (Cons i os)
  from Cons.prems(1) obtain us r1 k1 where s: "decode_column t written None (vs, r, k) i = Inr (us, r1, k1)"
    "try_fold (decode_column t written None) (us, r1, k1) os = Inr (vs', r', k')"
    by (auto simp: rbind_eq_Inr)
  then show ?case using decode_column_project [OF s(1) Cons.prems(2)] Cons.IH [OF s(2)] by simp
qed simp

text \<open>The loop writes only the columns it walks.\<close>

lemma decode_column_frame:
  "decode_column t written wanted (vs, r, k) i = Inr (vs', r', k') \<Longrightarrow>
     length vs' = length vs \<and> (\<forall>j. j \<noteq> i \<longrightarrow> vs' ! j = vs ! j)"
  by (auto simp: decode_column_def Let_def rbind_eq_Inr split: option.splits if_splits)

lemma decode_columns_frame:
  "try_fold (decode_column t written wanted) (vs, r, k) os = Inr (vs', r', k') \<Longrightarrow>
     length vs' = length vs \<and> (\<forall>j. j \<notin> set os \<longrightarrow> vs' ! j = vs ! j)"
proof (induction os arbitrary: vs r k)
  case (Cons i os)
  from Cons.prems obtain us r1 k1 where s: "decode_column t written wanted (vs, r, k) i = Inr (us, r1, k1)"
    "try_fold (decode_column t written wanted) (us, r1, k1) os = Inr (vs', r', k')"
    by (auto simp: rbind_eq_Inr)
  then show ?case using decode_column_frame [OF s(1)] Cons.IH [OF s(2)] by simp
qed simp

lemma fill_key_blank:
  assumes "distinct (td_primary_key t)" and "\<forall>i\<in>set (td_primary_key t). i < length vs \<longrightarrow> vs ! i = Null"
  shows "fill_key t key (blank keep vs) =
    blank (\<lambda>i. i \<in> set (td_primary_key t) \<or> keep i) (fill_key t key vs)"
proof (rule nth_equalityI)
  fix j
  assume "j < length (fill_key t key (blank keep vs))"
  then have j: "j < length vs" by simp
  have "map_of (zip (td_primary_key t) key) j = Some v \<Longrightarrow> j \<in> set (td_primary_key t)" for v
    by (auto dest: map_of_SomeD set_zip_leftD)
  then show "fill_key t key (blank keep vs) ! j =
      blank (\<lambda>i. i \<in> set (td_primary_key t) \<or> keep i) (fill_key t key vs) ! j"
    using assms j fold_update_nth [OF assms(1), of j vs key] fold_update_nth [OF assms(1), of j "blank keep vs" key]
    by (auto simp: fill_key_def [symmetric] split: option.splits)
qed simp

lemma decode_project:
  assumes "table_ok t" and "length body < 2 ^ 64" and "decode_row t key body = Inr row"
  shows "decode_row_columns t key body (Some w) =
    Inr (blank (\<lambda>i. i \<in> set (td_primary_key t) \<or> ColumnSet_contains w i) row)"
proof -
  let ?nulls = "replicate (length (td_columns t)) Null"
  obtain rest where body: "body = ROW_FORMAT_V1 # rest" "5 \<le> length body"
    using assms(3) by (auto simp: decode_row_def decode_row_columns_def Let_def split: list.splits if_splits)
  let ?v = "of_nat (of_be (take 4 rest)) :: u32" and ?p = "drop 5 body"
  have ver: "\<not> ?v > td_schema_version t" and full: "decode_payload t key ?p ?v None ?nulls = Inr row"
    using assms(3) body by (auto simp: decode_row_def decode_row_columns_def Let_def split: if_splits)
  from full obtain vs r k where loop: "try_fold (decode_column t ?v None) (?nulls, TupleReader_new ?p, 0)
      (td_body_columns t) = Inr (vs, r, k)" and e: "reader_is_empty r" and row: "row = fill_key t key vs"
    by (auto simp: decode_payload_def rbind_eq_Inr split: if_splits)
  have len: "length vs = length (td_columns t)"
    using decode_columns_frame [OF loop] by simp
  have key: "distinct (td_primary_key t)" "\<forall>i\<in>set (td_primary_key t). i < length vs \<longrightarrow> vs ! i = Null"
    using assms(1) decode_columns_frame [OF loop] len by (auto simp: table_ok_def Let_def key_ok_def)
  have nulls: "blank f ?nulls = ?nulls" for f by (rule nth_equalityI) auto
  have slow: "decode_payload t key ?p ?v (Some w) ?nulls =
      Inr (blank (\<lambda>i. i \<in> set (td_primary_key t) \<or> ColumnSet_contains w i) row)"
    using decode_columns_project [OF loop, of w] e nulls fill_key_blank [OF key, of key] assms(2) row
    by (simp add: decode_payload_def within_def TupleReader_new_def)
  show ?thesis
  proof (cases "list_ex (\<lambda>i. ColumnSet_contains w i) (td_body_columns t)")
    case True
    then show ?thesis using body ver slow by (simp add: decode_row_columns_def Let_def)
  next
    case False
    then have "blank (\<lambda>i. ColumnSet_contains w i) vs = ?nulls"
      using assms(1) len key(2) by (intro nth_equalityI) (auto simp: list_ex_iff table_ok_def Let_def)
    then show ?thesis
      using False body ver fill_key_blank [OF key, of key "ColumnSet_contains w"] row by (simp add: decode_row_columns_def Let_def)
  qed
qed


section \<open>The properties of the row codec\<close>

text \<open>C4. A row survives schema evolution: a row that was valid under one version of a table and
  stored then reads back under every later version with its primary key and its surviving columns
  as written (floats and array elements in canonical form), a null in every column dropped since,
  and the default, or null, in every column added since.\<close>

theorem row_survives_evolution:
  assumes "table_ok old" and "table_ok new" and "versions_ok old" and "evolves old new" and "evolvable new"
    and "validate row old = Inr ()" and "list_all wf_value row" and "length (encode_body old row) < 2 ^ 64"
  shows "decode_row new (primary_key_values row old) (encode_body old row) =
    Inr (map (evolved_value old new row) [0..<length (td_columns new)])"
  using assms by (intro decode_evolved) (simp_all add: validate_Inr)

text \<open>A table before and after a migration: \<open>flag\<close> is dropped and \<open>age\<close> added in version 1.\<close>

definition people_builder_v0 :: TableBuilder where
  "people_builder_v0 =
     (tb_set_primary_key [''id''] \<circ> nullable_column ''flag'' TBool \<circ> tb_column ''name'' TStr
       \<circ> tb_column ''id'' TU64) (TableDef_builder ''people'' 1)"

definition people_builder_v1 :: TableBuilder where
  "people_builder_v1 =
     (tb_set_schema_version 1 \<circ> tb_set_primary_key [''id''] \<circ> drop_column ''flag'' 1
       \<circ> added_column_with_default ''age'' TI64 1 (I64 7) \<circ> nullable_column ''flag'' TBool
       \<circ> tb_column ''name'' TStr \<circ> tb_column ''id'' TU64) (TableDef_builder ''people'' 1)"

definition people_v0 :: TableDef where
  "people_v0 = built people_builder_v0"

definition people_v1 :: TableDef where
  "people_v1 = built people_builder_v1"

lemma people_build: "build people_builder_v0 = Inr people_v0" "build people_builder_v1 = Inr people_v1"
  by (simp_all add: people_v0_def people_v1_def people_builder_v0_def people_builder_v1_def built_def
      build_eval cong: build_congs)

lemma people_explicit:
  "people_v0 =
     \<lparr>td_id = 1, td_name = ''people'',
      td_columns =
        [\<lparr>col_name = ''id'', col_ty = TU64, col_nullable = False, col_added_in = 0, col_dropped_in = None,
          col_default = None, col_previous_names = [], col_scale = 0, col_element = None, col_managed = None\<rparr>,
         \<lparr>col_name = ''name'', col_ty = TStr, col_nullable = False, col_added_in = 0, col_dropped_in = None,
          col_default = None, col_previous_names = [], col_scale = 0, col_element = None, col_managed = None\<rparr>,
         \<lparr>col_name = ''flag'', col_ty = TBool, col_nullable = True, col_added_in = 0, col_dropped_in = None,
          col_default = None, col_previous_names = [], col_scale = 0, col_element = None, col_managed = None\<rparr>],
      td_primary_key = [0], td_body_columns = [1, 2], td_stored_columns = [1, 2], td_indexes = [],
      td_checks = [], td_foreign_keys = [], td_tenant_column = None, td_soft_delete = None,
      td_schema_version = 0\<rparr>"
  "people_v1 =
     \<lparr>td_id = 1, td_name = ''people'',
      td_columns =
        [\<lparr>col_name = ''id'', col_ty = TU64, col_nullable = False, col_added_in = 0, col_dropped_in = None,
          col_default = None, col_previous_names = [], col_scale = 0, col_element = None, col_managed = None\<rparr>,
         \<lparr>col_name = ''name'', col_ty = TStr, col_nullable = False, col_added_in = 0, col_dropped_in = None,
          col_default = None, col_previous_names = [], col_scale = 0, col_element = None, col_managed = None\<rparr>,
         \<lparr>col_name = ''flag'', col_ty = TBool, col_nullable = True, col_added_in = 0, col_dropped_in = Some 1,
          col_default = None, col_previous_names = [], col_scale = 0, col_element = None, col_managed = None\<rparr>,
         \<lparr>col_name = ''age'', col_ty = TI64, col_nullable = False, col_added_in = 1, col_dropped_in = None,
          col_default = Some (I64 7), col_previous_names = [], col_scale = 0, col_element = None,
          col_managed = None\<rparr>],
      td_primary_key = [0], td_body_columns = [1, 2, 3], td_stored_columns = [1, 3], td_indexes = [],
      td_checks = [], td_foreign_keys = [], td_tenant_column = None, td_soft_delete = None,
      td_schema_version = 1\<rparr>"
  by (simp_all add: people_v0_def people_v1_def people_builder_v0_def people_builder_v1_def built_def
      build_eval cong: build_congs)

lemma people_ok: "table_ok people_v0" "table_ok people_v1"
proof -
  have "constructed people_builder_v0" "constructed people_builder_v1"
    by (simp_all add: people_builder_v0_def people_builder_v1_def constructed.intros)
  then show "table_ok people_v0" "table_ok people_v1"
    using people_build constructed_inv built_table_ok by blast+
qed

lemma people_versions:
  "versions_ok people_v0" "versions_ok people_v1" "evolvable people_v1" "evolves people_v0 people_v1"
  by (simp_all add: people_explicit versions_ok_def evolvable_def evolves_def Let_def All_less_Suc numeral_eq_Suc)

lemma alice_valid:
  "validate [U64 1, Str [0x61], Bool True] people_v0 = Inr ()"
  "encode_body people_v0 [U64 1, Str [0x61], Bool True] = [1, 0, 0, 0, 0, 0x05, 0x61, 0x00, 0x00, 0x03]"
  unfolding people_explicit by code_simp+

theorem row_survives_evolution_witness:
  "decode_row people_v1 [U64 1] [1, 0, 0, 0, 0, 0x05, 0x61, 0x00, 0x00, 0x03] =
     Inr [U64 1, Str [0x61], Null, I64 7]"
  using row_survives_evolution [OF people_ok people_versions(1,4,3) alice_valid(1)] alice_valid(2)
  by (simp add: people_explicit primary_key_values_def project_def evolved_value_def is_dropped_def upt_rec
      from_utf8_def utf8_decode.simps)


text \<open>Storing a row and reading it back under the same table gives the row, up to the value
  order's equality, for every row that validation accepts.\<close>

theorem row_round_trip:
  assumes "constructed b" and "build b = Inr t" and "versions_ok t"
    and "validate row t = Inr ()" and "list_all wf_value row" and "length (encode_body t row) < 2 ^ 64"
  shows "\<exists>row'. decode_row t (primary_key_values row t) (encode_body t row) = Inr row' \<and>
    list_all2 value_eq row' row"
proof -
  have ok: "table_ok t" "evolvable t"
    using built_table_ok built_columns_ok constructed_inv assms(1,2) unfolding evolvable_def by blast+
  have "evolves t t" by (auto simp: evolves_def Let_def)
  note rt = decode_evolved [OF ok(1) ok(1) assms(3) this ok(2) _ assms(5,6)]
  have valid: "row_valid t row" using assms(4) by (simp add: validate_Inr)
  have "value_eq (evolved_value t t row i) (row ! i)" if i: "i < length (td_columns t)" for i
  proof -
    have wf: "wf_value (row ! i)" using valid i assms(5) by (simp add: row_valid_def list_all_length)
    have "is_dropped (td_columns t ! i) \<Longrightarrow> row ! i = Null"
      using valid i by (auto simp: row_valid_def column_accepts_def)
    then show ?thesis
      using i canon_equal [OF wf] asc.cmp_refl [OF wf]
      by (auto simp: evolved_value_def value_eq_def)
  qed
  then have "list_all2 value_eq (map (evolved_value t t row) [0..<length (td_columns t)]) row"
    using valid by (auto simp: list_all2_conv_all_nth row_valid_def)
  then show ?thesis using rt [OF valid] by blast
qed

theorem row_round_trip_witness:
  "\<exists>row'. decode_row people_v0 [U64 1] [1, 0, 0, 0, 0, 0x05, 0x61, 0x00, 0x00, 0x03] = Inr row' \<and>
     list_all2 value_eq row' [U64 1, Str [0x61], Bool True]"
proof -
  have b: "constructed people_builder_v0" by (simp add: people_builder_v0_def constructed.intros)
  have "list_all wf_value [U64 1, Str [0x61], Bool True]"
    by (simp add: from_utf8_def utf8_decode.simps)
  then show ?thesis
    using row_round_trip [OF b people_build(1) people_versions(1) alice_valid(1)] alice_valid(2)
    by (simp add: primary_key_values_def project_def people_explicit(1))
qed

text \<open>C36. A projection is the full row with the unwanted columns blanked: on any body, whoever wrote
  it, wherever the full decode succeeds the decode of a column set succeeds with the same values in
  the key columns and the wanted columns and nulls elsewhere.\<close>

theorem projection_of_decode:
  assumes "table_ok t" and "length body < 2 ^ 64" and "decode_row t key body = Inr row"
  shows "decode_row_columns t key body (Some w) =
    Inr (blank (\<lambda>i. i \<in> set (td_primary_key t) \<or> ColumnSet_contains w i) row)"
  using assms by (rule decode_project)

theorem projection_of_decode_witness:
  "decode_row_columns people_v1 [U64 1] [1, 0, 0, 0, 0, 0x05, 0x61, 0x00, 0x00, 0x03]
     (Some (ColumnSet_from_iter [3])) = Inr [U64 1, Null, Null, I64 7]"
proof -
  have "decode_row people_v1 [U64 1] [1, 0, 0, 0, 0, 0x05, 0x61, 0x00, 0x00, 0x03] =
      Inr [U64 1, Str [0x61], Null, I64 7]"
    unfolding people_explicit by code_simp
  from projection_of_decode [OF people_ok(2) _ this, of "ColumnSet_from_iter [3]"] show ?thesis
    by (simp add: blank_def people_explicit contains_cs_set upt_rec)
qed

text \<open>C39. A table that builds never meets a stored row it must refuse for want of a value: whatever
  body is read, with whatever projection, the decoder does not report an incompatible evolution.\<close>

theorem never_incompatible:
  assumes "constructed b" and "build b = Inr t"
  shows "decode_row_columns t key body wanted \<noteq> Inl (IncompatibleSchemaEvolution tn cn v)"
proof
  assume "decode_row_columns t key body wanted = Inl (IncompatibleSchemaEvolution tn cn v)"
  then obtain p w vs where "try_fold (decode_column t w wanted) (vs, TupleReader_new p, 0) (td_body_columns t) =
      Inl (IncompatibleSchemaEvolution tn cn v)"
    by (auto simp: decode_row_columns_def decode_payload_def Let_def rbind_def
        split: list.splits if_splits sum.splits prod.splits)
  from try_fold_Inl [OF this] obtain s i where
    "decode_column t w wanted s i = Inl (IncompatibleSchemaEvolution tn cn v)" by blast
  then obtain c where c: "td_column t i = Some c" "\<not> present_at c w"
      "is_none_or (\<lambda>at. w < at) (col_dropped_in c)" "col_default c = None" "\<not> col_nullable c"
    by (auto simp: decode_column_def Let_def rbind_def map_err_def
        split: prod.splits option.splits if_splits sum.splits)
  then have "c \<in> set (td_columns t)" "col_added_in c \<noteq> 0"
    by (auto simp: td_column_def present_at_def)
  then show False using built_columns_ok [OF constructed_inv [OF assms(1)] assms(2)] c(4,5) by blast
qed

theorem never_incompatible_witness:
  "decode_row_columns people_v1 [U64 1] [1, 0, 0, 0, 0] None \<noteq>
     Inl (IncompatibleSchemaEvolution ''people'' ''age'' 0)"
proof -
  have "constructed people_builder_v1" by (simp add: people_builder_v1_def constructed.intros)
  from never_incompatible [OF this people_build(2)] show ?thesis .
qed

text \<open>C38. Validation accepts exactly the rows the schema describes: of the table's width, a null in
  every dropped column, in every other column a value of the column's type, or a null where the
  column is nullable, elements of the declared type in an array, and for an expression index a
  computed value of the declared type or null. A partial row yields a row exactly when the values
  supplied, completed by placeholders, defaults and nulls, form such a row.\<close>

theorem validate_exact:
  "(validate row t = Inr ()) = row_valid t row \<and>
   (PartialRow_into_row p t = Inr row) =
     (length (pr_values p) = length (td_columns t) \<and> row_valid t row \<and>
      (\<forall>i<length (td_columns t). row ! i =
         (case pr_values p ! i of
            Some v \<Rightarrow> v
          | None \<Rightarrow>
              if col_managed (td_columns t ! i) \<noteq> None then I64 0
              else (case col_default (td_columns t ! i) of Some d \<Rightarrow> d | None \<Rightarrow> Null))))"
proof -
  let ?filled = "map fill_unset (zip (td_columns t) (pr_values p))"
  let ?val = "\<lambda>i. case pr_values p ! i of Some v \<Rightarrow> v | None \<Rightarrow>
    if col_managed (td_columns t ! i) \<noteq> None then I64 0
    else (case col_default (td_columns t ! i) of Some d \<Rightarrow> d | None \<Rightarrow> Null)"
  have filled: "row = ?filled \<longleftrightarrow> length row = length (td_columns t) \<and> (\<forall>i<length (td_columns t). row ! i = ?val i)"
    if len: "length (pr_values p) = length (td_columns t)"
  proof -
    have "?filled ! i = ?val i" if "i < length (td_columns t)" for i
      using that len by (auto simp: fill_unset_def split: option.splits)
    then show ?thesis using len by (auto simp only: list_eq_iff_nth_eq length_map length_zip min.idem)
  qed
  have into: "PartialRow_into_row p t = Inr row \<longleftrightarrow>
      length (pr_values p) = length (td_columns t) \<and> row = ?filled \<and> row_valid t row"
    by (auto simp: PartialRow_into_row_def Let_def rbind_eq_Inr validate_Inr)
  have "row_valid t row \<Longrightarrow> length row = length (td_columns t)" by (simp add: row_valid_def)
  then show ?thesis unfolding into validate_Inr using filled by blast
qed

theorem validate_exact_witness:
  "validate [U64 1, Str [0x61], Bool True] people_v0 = Inr () \<and>
   row_valid people_v0 [U64 1, Str [0x61], Bool True] \<and>
   PartialRow_into_row \<lparr>pr_values = [Some (U64 1), None, Some (Bool True)]\<rparr> people_v0 \<noteq>
     Inr [U64 1, Str [0x61], Bool True]"
  using validate_exact [of "[U64 1, Str [0x61], Bool True]" people_v0 "\<lparr>pr_values = [Some (U64 1), None, Some (Bool True)]\<rparr>"]
    alice_valid(1)
  by (auto simp: people_explicit(1) All_less_Suc)

section \<open>Where the code falls short\<close>

text \<open>\<open>build\<close> refuses a drop after the current schema version, but not an addition after it: the
  encoder writes such a column and the decoder takes it for absent, so no stored row reads back.\<close>

definition future_builder :: TableBuilder where
  "future_builder =
     (tb_set_primary_key [''id''] \<circ> added_column ''x'' TBool 1 \<circ> tb_column ''id'' TU64)
       (TableDef_builder ''t'' 1)"

lemma future_explicit:
  "build future_builder = Inr
     \<lparr>td_id = 1, td_name = ''t'',
      td_columns =
        [\<lparr>col_name = ''id'', col_ty = TU64, col_nullable = False, col_added_in = 0, col_dropped_in = None,
          col_default = None, col_previous_names = [], col_scale = 0, col_element = None, col_managed = None\<rparr>,
         \<lparr>col_name = ''x'', col_ty = TBool, col_nullable = True, col_added_in = 1, col_dropped_in = None,
          col_default = None, col_previous_names = [], col_scale = 0, col_element = None, col_managed = None\<rparr>],
      td_primary_key = [0], td_body_columns = [1], td_stored_columns = [1], td_indexes = [],
      td_checks = [], td_foreign_keys = [], td_tenant_column = None, td_soft_delete = None,
      td_schema_version = 0\<rparr>"
  by (simp add: future_builder_def build_eval cong: build_congs)

theorem future_column_unreadable:
  "\<exists>t. build future_builder = Inr t \<and> validate [U64 1, Bool True] t = Inr () \<and>
     decode_row t [U64 1] (encode_body t [U64 1, Bool True]) = Inl (RowDecode ''t'' (TrailingBytes 0 1))"
  unfolding future_explicit sum.inject simp_thms by code_simp

text \<open>An array column of unsigned integers accepts unsigned elements, but its elements are read back
  as signed where they fit, so a row read from the store no longer validates.\<close>

definition array_builder :: TableBuilder where
  "array_builder =
     (tb_set_primary_key [''id''] \<circ> array_column ''xs'' TU64 \<circ> tb_column ''id'' TU64)
       (TableDef_builder ''t'' 1)"

lemma array_explicit:
  "build array_builder = Inr
     \<lparr>td_id = 1, td_name = ''t'',
      td_columns =
        [\<lparr>col_name = ''id'', col_ty = TU64, col_nullable = False, col_added_in = 0, col_dropped_in = None,
          col_default = None, col_previous_names = [], col_scale = 0, col_element = None, col_managed = None\<rparr>,
         \<lparr>col_name = ''xs'', col_ty = TArray, col_nullable = False, col_added_in = 0, col_dropped_in = None,
          col_default = None, col_previous_names = [], col_scale = 0, col_element = Some TU64,
          col_managed = None\<rparr>],
      td_primary_key = [0], td_body_columns = [1], td_stored_columns = [1], td_indexes = [],
      td_checks = [], td_foreign_keys = [], td_tenant_column = None, td_soft_delete = None,
      td_schema_version = 0\<rparr>"
  by (simp add: array_builder_def build_eval cong: build_congs)

theorem unsigned_array_revalidation:
  "\<exists>t. build array_builder = Inr t \<and> validate [U64 1, Array [U64 5]] t = Inr () \<and>
     decode_row t [U64 1] (encode_body t [U64 1, Array [U64 5]]) = Inr [U64 1, Array [I64 5]] \<and>
     validate [U64 1, Array [I64 5]] t = Inl (ArrayElementTypeMismatch ''t'' ''xs'' 0 TU64 ''i64'')"
  unfolding array_explicit sum.inject simp_thms by code_simp

text \<open>\<open>build\<close> accepts a dropped column as the soft-delete column. The stamp of a delete is then never
  stored: the body written for the deleted row is the body of the row itself.\<close>

definition dropped_stamp_builder :: TableBuilder where
  "dropped_stamp_builder =
     (tb_set_schema_version 1 \<circ> tb_set_soft_delete ''gone'' \<circ> tb_set_primary_key [''id''] \<circ> drop_column ''gone'' 1
       \<circ> nullable_column ''gone'' TI64 \<circ> tb_column ''id'' TU64) (TableDef_builder ''t'' 1)"

theorem dropped_soft_delete_column:
  "\<exists>t. build dropped_stamp_builder = Inr t \<and> td_soft_delete t = Some 1 \<and>
     (\<forall>row now. encode_body t (row[1 := I64 now]) = encode_body t row)"
  by (simp add: dropped_stamp_builder_def build_eval encode_body_def cong: build_congs)

end
