(* ===== verification/Keyspace.thy ===== *)
theory Keyspace
  imports Schema_Row Schema_Catalog Key_Range Kernel_Error
begin

text \<open>
  The layout of the key space, \<open>crates/slate-kernel/src/keys.rs\<close>: row keys, index entries and schema
  state in one ordered space. The laws: keys decode to what they were built from, the spaces of
  different tables and indexes are disjoint, a tenant's rows and index entries are exactly a key
  range, and two entries of a unique index share a key exactly when they violate it.
\<close>

section \<open>Keys\<close>

definition ROW_SPACE :: u8 where "ROW_SPACE = 0x01"
definition INDEX_SPACE :: u8 where "INDEX_SPACE = 0x02"
definition META_SPACE :: u8 where "META_SPACE = 0x03"
definition HEADER_LEN :: nat where "HEADER_LEN = 1 + 4"

definition key_header :: "u8 \<Rightarrow> u32 \<Rightarrow> bytes" where
  "key_header space i = space # u32_to_be_bytes i"

definition key_append :: "bytes \<Rightarrow> Value list \<Rightarrow> bytes" where
  "key_append out vs = fold (\<lambda>v out. encode_value_into out v Asc) vs out"

definition table_prefix :: "TableDef \<Rightarrow> bytes" where
  "table_prefix t = key_header ROW_SPACE (td_id t)"

definition meta_key :: "TableId \<Rightarrow> bytes" where
  "meta_key i = key_header META_SPACE i"

definition meta_prefix :: bytes where
  "meta_prefix = [META_SPACE]"

definition table_tenant_prefix :: "TableDef \<Rightarrow> Value \<Rightarrow> bytes option" where
  "table_tenant_prefix t tenant =
     (case td_tenant_column t of
        None \<Rightarrow> None
      | Some _ \<Rightarrow> Some (encode_value_into (table_prefix t) tenant Asc))"

definition row_key :: "TableDef \<Rightarrow> Value list \<Rightarrow> bytes" where
  "row_key t primary_key = key_append (key_header ROW_SPACE (td_id t)) primary_key"

definition decode_row_key :: "TableDef \<Rightarrow> bytes \<Rightarrow> KernelError + Value list" where
  "decode_row_key t key =
     (if length key < HEADER_LEN
      then Inl (KeyDecode (Truncated (length key) (HEADER_LEN - min (length key) HEADER_LEN)))
      else map_err KeyDecode (decode (drop HEADER_LEN key) (primary_key_types t)))"

definition index_prefix :: "TableDef \<Rightarrow> IndexDef \<Rightarrow> Value option \<Rightarrow> bytes" where
  "index_prefix t ix tenant =
     (let out = key_header INDEX_SPACE (ix_id ix) in
      case (td_tenant_column t, tenant) of
        (Some _, Some v) \<Rightarrow> encode_value_into out v Asc
      | _ \<Rightarrow> out)"

definition index_prefix_of :: "IndexId \<Rightarrow> bytes" where
  "index_prefix_of i = key_header INDEX_SPACE i"

record IndexEntry =
  en_key :: bytes
  en_value :: bytes
  en_enforces_uniqueness :: bool

definition tenant_value :: "TableDef \<Rightarrow> Value list \<Rightarrow> Value option" where
  "tenant_value t primary_key =
     (case td_tenant_column t of None \<Rightarrow> None | Some _ \<Rightarrow> get primary_key 0)"

definition index_entry :: "TableDef \<Rightarrow> IndexDef \<Rightarrow> Value list \<Rightarrow> Value list \<Rightarrow> IndexEntry" where
  "index_entry t ix values primary_key =
     (let key = key_header INDEX_SPACE (ix_id ix);
          key = (case tenant_value t primary_key of
                   Some tenant \<Rightarrow> encode_value_into key tenant Asc
                 | None \<Rightarrow> key);
          key = fold (\<lambda>(v, d) out. encode_value_into out v d) (zip values (key_directions ix)) key;
          enforces = (ix_unique ix \<and> \<not> list_ex is_null values)
      in if enforces
         then \<lparr>en_key = key, en_value = encode primary_key, en_enforces_uniqueness = enforces\<rparr>
         else \<lparr>en_key = key_append key primary_key, en_value = [], en_enforces_uniqueness = enforces\<rparr>)"

definition decode_index_entry ::
  "TableDef \<Rightarrow> IndexDef \<Rightarrow> bytes \<Rightarrow> bytes \<Rightarrow> KernelError + (Value list \<times> Value list)" where
  "decode_index_entry t ix key val =
     (let corrupt = CorruptIndexEntry (td_name t) (ix_name ix) in
      if length key < HEADER_LEN then Inl corrupt
      else
        let body = drop HEADER_LEN key in
        rbind
          (if td_tenant_column t \<noteq> None then
             rbind (ok_or corrupt (get (primary_key_types t) 0)) (\<lambda>tenant_type.
             rbind (map_err KeyDecode (decode_prefix body [tenant_type])) (\<lambda>(_, rest). Inr rest))
           else Inr body) (\<lambda>body.
        rbind (map_err KeyDecode (decode_prefix_with body (index_key_types t ix) (key_directions ix)))
          (\<lambda>(values, rest).
        let all_present = (ix_unique ix \<and> \<not> list_ex is_null values) in
        rbind
          (if all_present then
             if rest \<noteq> [] then Inl corrupt else map_err KeyDecode (decode val (primary_key_types t))
           else
             if val \<noteq> [] then Inl corrupt else map_err KeyDecode (decode rest (primary_key_types t)))
          (\<lambda>primary_key. Inr (values, primary_key)))))"

section \<open>Their bytes\<close>

lemma key_append_bytes: "key_append out vs = out @ tuple_bytes [] vs"
  unfolding key_append_def by (induction vs arbitrary: out) (simp_all add: encode_value_into_dir)

lemma length_key_header [simp]: "length (key_header space i) = 5"
  by (simp add: key_header_def u32_bytes)

lemma u32_to_be_bytes_inj: "u32_to_be_bytes i = u32_to_be_bytes j \<longleftrightarrow> i = j"
  using u32_bytes(2) by metis

lemma key_header_inj [simp]: "key_header s i = key_header s' j \<longleftrightarrow> s = s' \<and> i = j"
  by (simp add: key_header_def u32_to_be_bytes_inj)

lemma prefix_key_header:
  "prefix (key_header s i @ us) (key_header s' j @ vs) \<longleftrightarrow> s = s' \<and> i = j \<and> prefix us vs"
  by (auto simp: prefix_def)

lemma row_key_bytes: "row_key t pk = table_prefix t @ tuple_bytes [] pk"
  by (simp add: row_key_def table_prefix_def key_append_bytes)

definition tenant_bytes :: "TableDef \<Rightarrow> Value list \<Rightarrow> bytes" where
  "tenant_bytes t pk = (case tenant_value t pk of Some v \<Rightarrow> dir_bytes Asc v | None \<Rightarrow> [])"

definition enforces :: "IndexDef \<Rightarrow> Value list \<Rightarrow> bool" where
  "enforces ix vs \<longleftrightarrow> ix_unique ix \<and> Null \<notin> set vs"

lemma fold_zip_encode:
  "length vs = length ds \<Longrightarrow>
   fold (\<lambda>(v, d) out. out @ dir_bytes d v) (zip vs ds) out = out @ tuple_bytes ds vs"
proof (induction vs ds arbitrary: out rule: list_induct2)
  case (Cons v vs d ds)
  then show ?case by (simp add: direction_at_def)
qed simp

lemma index_entry_bytes:
  assumes "length vs = length (key_directions ix)"
  shows "index_entry t ix vs pk =
    \<lparr>en_key = key_header INDEX_SPACE (ix_id ix) @ tenant_bytes t pk @ tuple_bytes (key_directions ix) vs @
       (if enforces ix vs then [] else tuple_bytes [] pk),
     en_value = (if enforces ix vs then tuple_bytes [] pk else []),
     en_enforces_uniqueness = enforces ix vs\<rparr>"
proof -
  have "list_ex is_null vs \<longleftrightarrow> Null \<in> set vs" by (auto simp: list_ex_iff)
  then show ?thesis
    using assms
    by (simp add: index_entry_def Let_def fold_zip_encode key_append_bytes encode_bytes tenant_bytes_def
        enforces_def encode_value_into_dir split: option.split)
qed

text \<open>Concatenated tuples come apart in one way only.\<close>

lemma dir_cmp_Equal: "dir_cmp d a b = Equal \<longleftrightarrow> value_eq a b"
  by (cases d; cases "value_cmp a b") (simp_all add: dir_cmp_def value_eq_def)

lemma tuple_split:
  assumes "list_all wf_value xs" and "list_all wf_value ys" and "length xs = length ys"
  shows "tuple_bytes ds xs @ us = tuple_bytes ds ys @ vs \<longleftrightarrow> list_all2 value_eq xs ys \<and> us = vs"
  using assms
proof (induction ds xs ys rule: tuple_cmp.induct)
  case (4 ds x xs y ys)
  let ?d = "direction_at ds 0"
  have ok: "wf_value x" "wf_value y" using "4.prems" by auto
  have "dir_bytes ?d x @ tuple_bytes (tl ds) xs @ us = dir_bytes ?d y @ tuple_bytes (tl ds) ys @ vs \<longleftrightarrow>
      dir_bytes ?d x = dir_bytes ?d y \<and> tuple_bytes (tl ds) xs @ us = tuple_bytes (tl ds) ys @ vs"
    using elem.split_unique [of x y ?d] ok by (metis same_append_eq)
  then show ?case using 4 ok elem.enc_eq_iff [of x y ?d] dir_cmp_Equal by simp
qed simp_all

lemma tuple_prefix_split:
  assumes "list_all wf_value xs" and "list_all wf_value ys" and "length xs = length ys"
  shows "prefix (tuple_bytes ds xs) (tuple_bytes ds ys @ vs) \<longleftrightarrow> list_all2 value_eq xs ys"
proof
  assume "prefix (tuple_bytes ds xs) (tuple_bytes ds ys @ vs)"
  then obtain us where "tuple_bytes ds xs @ us = tuple_bytes ds ys @ vs" by (auto simp: prefix_def)
  then show "list_all2 value_eq xs ys" using tuple_split [OF assms] by blast
next
  assume "list_all2 value_eq xs ys"
  then have "tuple_bytes ds xs @ vs = tuple_bytes ds ys @ vs" using tuple_split [OF assms] by blast
  then show "prefix (tuple_bytes ds xs) (tuple_bytes ds ys @ vs)" by (metis prefixI)
qed


section \<open>Decoding\<close>

text \<open>A key that fits a table: the values of its primary key columns, of their types.\<close>

definition key_fits :: "TableDef \<Rightarrow> Value list \<Rightarrow> bool" where
  "key_fits t pk \<longleftrightarrow> list_all2 fits (primary_key_types t) pk"

definition values_fit :: "TableDef \<Rightarrow> IndexDef \<Rightarrow> Value list \<Rightarrow> bool" where
  "values_fit t ix vs \<longleftrightarrow> list_all2 fits (index_key_types t ix) vs"

lemma fits_wf: "list_all2 fits tys vs \<Longrightarrow> list_all wf_value vs"
  by (auto simp: list_all2_conv_all_nth list_all_length fits_def)

lemma key_fits_wf: "key_fits t pk \<Longrightarrow> list_all wf_value pk \<and> length pk = length (primary_key_types t)"
  using fits_wf by (auto simp: key_fits_def dest: list_all2_lengthD)

lemma values_fit_wf:
  "values_fit t ix vs \<Longrightarrow> list_all wf_value vs \<and> length vs = length (key_directions ix)"
  using fits_wf by (auto simp: values_fit_def key_directions_def index_key_types_def key_types_def
      dest!: list_all2_lengthD split: option.split)

lemma decode_bytes:
  assumes "list_all2 fits tys vs" and "length (tuple_bytes [] vs) < 2 ^ 64"
  shows "decode (tuple_bytes [] vs) tys = Inr (map canon vs)"
  using decode_prefix_with_bytes [of tys vs "[]" "[]"] assms
  by (simp add: decode_def decode_prefix_def encode_with_bytes)

lemma decode_row_key_bytes:
  assumes "key_fits t pk" and "length (row_key t pk) < 2 ^ 64"
  shows "decode_row_key t (row_key t pk) = Inr (map canon pk)"
  using assms decode_bytes [of "primary_key_types t" pk]
  by (simp add: decode_row_key_def row_key_bytes table_prefix_def HEADER_LEN_def key_fits_def)

lemma null_canon: "Null \<in> set (map canon vs) \<longleftrightarrow> Null \<in> set vs"
proof -
  have "canon v = Null \<longleftrightarrow> v = Null" for v by (cases v) auto
  then show ?thesis by (simp add: image_iff eq_commute [of Null])
qed

lemma decode_index_entry_bytes:
  assumes "key_fits t pk" and "values_fit t ix vs" and "pk \<noteq> []"
    and "length (en_key (index_entry t ix vs pk)) + length (en_value (index_entry t ix vs pk)) < 2 ^ 64"
  shows "decode_index_entry t ix (en_key (index_entry t ix vs pk)) (en_value (index_entry t ix vs pk)) =
    Inr (map canon vs, map canon pk)"
proof -
  have len: "length vs = length (key_directions ix)"
    using values_fit_wf [OF assms(2)] by simp
  note e = index_entry_bytes [OF len, of t pk]
  let ?tail = "if enforces ix vs then [] else tuple_bytes [] pk"
  let ?rest = "tuple_bytes (key_directions ix) vs @ ?tail"
  have pk: "decode (tuple_bytes [] pk) (primary_key_types t) = Inr (map canon pk)"
    using decode_bytes assms(1,4) e by (auto simp: key_fits_def split: if_splits)
  have vals: "decode_prefix_with ?rest (index_key_types t ix) (key_directions ix) = Inr (map canon vs, ?tail)"
    using decode_prefix_with_bytes [of "index_key_types t ix" vs "key_directions ix" ?tail] assms(2,4) e
    by (simp add: values_fit_def encode_with_bytes)
  have present: "list_ex is_null (map canon vs) \<longleftrightarrow> Null \<in> set vs"
    using null_canon [of vs] by (auto simp: list_ex_iff)
  have tenant: "(if td_tenant_column t \<noteq> None then
       rbind (ok_or c (get (primary_key_types t) 0)) (\<lambda>ty.
       rbind (map_err KeyDecode (decode_prefix (tenant_bytes t pk @ ?rest) [ty])) (\<lambda>(_, rest). Inr rest))
     else Inr (tenant_bytes t pk @ ?rest)) = Inr ?rest" for c
  proof (cases "td_tenant_column t")
    case None
    then show ?thesis by (simp add: tenant_bytes_def tenant_value_def)
  next
    case (Some i)
    obtain v ty vs' tys where hd: "pk = v # vs'" "primary_key_types t = ty # tys" "fits ty v"
      using assms(1,3) by (auto simp: key_fits_def list_all2_Cons2 neq_Nil_conv)
    have "decode_prefix (tuple_bytes [] [v] @ ?rest) [ty] = Inr ([canon v], ?rest)"
      using decode_prefix_with_bytes [of "[ty]" "[v]" "[]" ?rest] hd assms(4) e Some
      by (simp add: decode_prefix_def encode_with_bytes tenant_bytes_def tenant_value_def direction_at_def)
    then show ?thesis
      using Some hd by (simp add: tenant_bytes_def tenant_value_def direction_at_def)
  qed
  show ?thesis
    unfolding decode_index_entry_def Let_def e
    using tenant vals present pk
    by (auto simp: HEADER_LEN_def enforces_def tuple_bytes_Nil_iff)
qed

text \<open>An example: the child table of the catalog's example, with one index on a string column.\<close>

definition child_index :: IndexDef where
  "child_index = hd (td_indexes (built child_builder))"

lemma child_facts:
  "primary_key_types (built child_builder) = [TStr, TU64]" "td_tenant_column (built child_builder) = Some 0"
  "td_indexes (built child_builder) = [child_index]" "td_id (built child_builder) = 2"
  "index_key_types (built child_builder) child_index = [TStr]" "key_directions child_index = [Asc]"
  "ix_unique child_index = False" "ix_id child_index = 4"
  by (simp_all add: child_index_def built_def child_builder_def on_delete_def build_eval primary_key_types_def
      index_key_types_def key_types_def key_directions_def cong: build_congs)

lemma child_fits:
  "key_fits (built child_builder) [Str [0x61], U64 1]" "values_fit (built child_builder) child_index [Str [0x62]]"
  by (simp_all add: key_fits_def values_fit_def child_facts fits_def has_type_def from_utf8_def utf8_decode.simps)

section \<open>Properties of the layout\<close>

text \<open>A row key decodes to the primary key it was built from, and the keys of a table's rows are
  in the order of their primary keys, equal only for equal keys.\<close>

theorem row_key_faithful:
  assumes "key_fits t pk" and "key_fits t pk'" and "length (row_key t pk) < 2 ^ 64"
  shows "decode_row_key t (row_key t pk) = Inr (map canon pk) \<and>
    cmp_lin (row_key t pk) (row_key t pk') = lex_cmp value_cmp pk pk' \<and>
    (row_key t pk = row_key t pk') = list_all2 value_eq pk pk'"
proof -
  have wf: "list_all wf_value pk" "list_all wf_value pk'" "length pk = length pk'"
    using key_fits_wf assms(1,2) by auto
  show ?thesis
    using decode_row_key_bytes [OF assms(1,3)] tuple_byte_order [OF wf(1,2), of "[]"] tuple_split [OF wf, of "[]" "[]" "[]"]
    by (simp add: row_key_bytes tuple_cmp_asc)
qed

theorem row_key_faithful_witness:
  "decode_row_key (built child_builder) (row_key (built child_builder) [Str [0x61], U64 1]) = Inr [Str [0x61], U64 1]"
proof -
  have "row_key (built child_builder) [Str [0x61], U64 1] = [1, 0, 0, 0, 2, 5, 0x61, 0, 0, 0x16, 1]"
    unfolding row_key_def child_facts by code_simp
  then show ?thesis using row_key_faithful [OF child_fits(1) child_fits(1)] by simp
qed

text \<open>C37. An index entry decodes to the indexed values and the primary key of its row, wherever the
  entry put the primary key.\<close>

theorem index_entry_faithful:
  assumes "key_fits t pk" and "values_fit t ix vs" and "pk \<noteq> []"
    and "length (en_key (index_entry t ix vs pk)) + length (en_value (index_entry t ix vs pk)) < 2 ^ 64"
  shows "decode_index_entry t ix (en_key (index_entry t ix vs pk)) (en_value (index_entry t ix vs pk)) =
    Inr (map canon vs, map canon pk)"
  using assms by (rule decode_index_entry_bytes)


lemma child_entry:
  "index_entry (built child_builder) child_index [Str [0x62]] [Str [0x61], U64 1] =
     \<lparr>en_key = [2, 0, 0, 0, 4, 5, 0x61, 0, 0, 5, 0x62, 0, 0, 5, 0x61, 0, 0, 0x16, 1], en_value = [],
      en_enforces_uniqueness = False\<rparr>"
  unfolding index_entry_def tenant_value_def child_facts by code_simp

theorem index_entry_faithful_witness:
  "decode_index_entry (built child_builder) child_index
     [2, 0, 0, 0, 4, 5, 0x61, 0, 0, 5, 0x62, 0, 0, 5, 0x61, 0, 0, 0x16, 1] [] =
   Inr ([Str [0x62]], [Str [0x61], U64 1])"
  using index_entry_faithful [OF child_fits] by (simp add: child_entry)

lemma tenant_bytes_Some:
  assumes "td_tenant_column t = Some i" and "pk \<noteq> []"
  shows "tenant_bytes t pk = tuple_bytes [] [hd pk]"
  using assms by (cases pk) (simp_all add: tenant_bytes_def tenant_value_def direction_at_def)

lemma tenant_bytes_None: "td_tenant_column t = None \<Longrightarrow> tenant_bytes t pk = []"
  by (simp add: tenant_bytes_def tenant_value_def)

lemma hd_prefix:
  assumes "wf_value v" and "list_all wf_value pk" and "pk \<noteq> []"
  shows "prefix (tuple_bytes [] [v]) (tuple_bytes [] pk @ rest) \<longleftrightarrow> value_eq v (hd pk)"
proof -
  obtain w ws where pk: "pk = w # ws" using assms(3) by (cases pk) auto
  have "tuple_bytes [] pk @ rest = tuple_bytes [] [w] @ tuple_bytes [] ws @ rest" using pk by simp
  then show ?thesis
    using tuple_prefix_split [of "[v]" "[w]" "[]" "tuple_bytes [] ws @ rest"] assms pk by simp
qed

lemma tenant_row_range:
  assumes "table_tenant_prefix t v = Some p" and "wf_value v" and "list_all wf_value pk" and "pk \<noteq> []"
  shows "range_contains (KeyRange_prefix p) (row_key t pk) \<longleftrightarrow> value_eq v (hd pk)"
proof -
  have p: "p = table_prefix t @ tuple_bytes [] [v]"
    using assms(1) by (simp add: table_tenant_prefix_def encode_value_into_dir direction_at_def split: option.splits)
  show ?thesis
    using hd_prefix [OF assms(2-4), of "[]"] unfolding prefix_contains p row_key_bytes table_prefix_def
    by (simp add: prefix_key_header del: tuple_bytes.simps)
qed

text \<open>C6. Tenants are physically separate: the key range the kernel scans for one tenant of a
  tenant-scoped table contains the key of a row, and the range it scans of an index contains the
  entry of a row, exactly when the row belongs to that tenant.\<close>

theorem tenant_isolation:
  assumes "td_tenant_column t = Some i" and "table_tenant_prefix t v = Some p" and "wf_value v"
    and "key_fits t pk" and "pk \<noteq> []" and "values_fit t ix vs"
  shows "range_contains (KeyRange_prefix p) (row_key t pk) = value_eq v (hd pk) \<and>
    range_contains (KeyRange_prefix (index_prefix t ix (Some v))) (en_key (index_entry t ix vs pk)) =
      value_eq v (hd pk)"
proof -
  have wf: "list_all wf_value pk" and len: "length vs = length (key_directions ix)"
    using key_fits_wf [OF assms(4)] values_fit_wf [OF assms(6)] by simp_all
  have q: "index_prefix t ix (Some v) = key_header INDEX_SPACE (ix_id ix) @ tuple_bytes [] [v]"
    using assms(1) by (simp add: index_prefix_def encode_value_into_dir direction_at_def)
  have "prefix (tuple_bytes [] [v]) (tuple_bytes [] [hd pk] @ rest) \<longleftrightarrow> value_eq v (hd pk)" for rest
    using hd_prefix [OF assms(3), of "[hd pk]" rest] wf assms(5) by (cases pk) auto
  then show ?thesis
    using tenant_row_range [OF assms(2,3) wf assms(5)]
    unfolding prefix_contains q index_entry_bytes [OF len] tenant_bytes_Some [OF assms(1,5)]
    by (simp add: prefix_key_header del: tuple_bytes.simps)
qed

theorem tenant_isolation_witness:
  "\<not> range_contains (KeyRange_prefix (index_prefix (built child_builder) child_index (Some (Str [0x63]))))
       (en_key (index_entry (built child_builder) child_index [Str [0x62]] [Str [0x61], U64 1]))"
proof -
  have "table_tenant_prefix (built child_builder) (Str [0x63]) =
      Some (encode_value_into (table_prefix (built child_builder)) (Str [0x63]) Asc)"
    by (simp add: table_tenant_prefix_def child_facts)
  from tenant_isolation [OF child_facts(2) this _ child_fits(1) _ child_fits(2)] show ?thesis
    by (simp add: from_utf8_def utf8_decode.simps value_eq_def value_cmp.simps cmp_lin_def)
qed

lemma catalog_index_unique:
  assumes "distinct (index_ids ts)" and "t \<in> set ts" and "t' \<in> set ts"
    and "ix \<in> set (td_indexes t)" and "ix' \<in> set (td_indexes t')" and "ix_id ix = ix_id ix'"
  shows "t = t' \<and> ix = ix'"
  using assms
proof (induction ts)
  case (Cons u ts)
  have disj: "set (map ix_id (td_indexes u)) \<inter> set (index_ids ts) = {}" "distinct (map ix_id (td_indexes u))"
    "distinct (index_ids ts)" using Cons.prems(1) by (auto simp: index_ids_def)
  have mem: "ix_id x \<in> set (index_ids ts)" if "w \<in> set ts" "x \<in> set (td_indexes w)" for w x
    using that by (auto simp: index_ids_def)
  consider "t = u" "t' = u" | "t = u" "t' \<in> set ts" | "t \<in> set ts" "t' = u" | "t \<in> set ts" "t' \<in> set ts"
    using Cons.prems(2,3) by auto
  then show ?case
  proof cases
    case 1
    then show ?thesis using disj(2) Cons.prems(4-6) by (auto simp: distinct_map inj_on_def)
  next
    case 2
    then show ?thesis using disj(1) mem [OF _ Cons.prems(5)] Cons.prems(4,6) by force
  next
    case 3
    then show ?thesis using disj(1) mem [OF _ Cons.prems(4)] Cons.prems(5,6) by force
  next
    case 4
    then show ?thesis using Cons.IH disj(3) Cons.prems(4-6) by blast
  qed
qed simp

text \<open>C25. The spaces of a catalog's tables and indexes are disjoint. For any two indexes of any two tables,
  which may be the same, so for tables that have an index: the range of a table's rows
  contains the keys of that table's rows and no others, the range of an index contains that index's
  entries and no others of any table, and neither contains the other's keys or the schema state.\<close>

theorem keyspaces_disjoint:
  assumes "catalog_ok c" and "t \<in> set (cat_tables c)" and "t' \<in> set (cat_tables c)"
    and "ix \<in> set (td_indexes t)" and "ix' \<in> set (td_indexes t')" and "values_fit t' ix' vs"
  shows "range_contains (KeyRange_prefix (table_prefix t)) (row_key t' pk) = (t = t') \<and>
    range_contains (KeyRange_prefix (index_prefix t ix None)) (en_key (index_entry t' ix' vs pk)) =
      (t = t' \<and> ix = ix') \<and>
    \<not> range_contains (KeyRange_prefix (table_prefix t)) (en_key (index_entry t' ix' vs pk)) \<and>
    \<not> range_contains (KeyRange_prefix (index_prefix t ix None)) (row_key t' pk) \<and>
    \<not> range_contains (KeyRange_prefix (table_prefix t)) (meta_key i) \<and>
    \<not> range_contains (KeyRange_prefix (index_prefix t ix None)) (meta_key i)"
proof -
  have len: "length vs = length (key_directions ix')" using values_fit_wf [OF assms(6)] by simp
  have ids: "td_id t = td_id t' \<longleftrightarrow> t = t'"
    using assms(1-3) by (auto simp: catalog_ok_def distinct_map inj_on_def)
  have ixs: "ix_id ix = ix_id ix' \<longleftrightarrow> t = t' \<and> ix = ix'"
    using catalog_index_unique [of "cat_tables c" t t' ix ix'] assms(1-5) by (auto simp: catalog_ok_def)
  have plain: "index_prefix t ix None = key_header INDEX_SPACE (ix_id ix)"
    by (simp add: index_prefix_def Let_def split: option.split)
  show ?thesis
    using prefix_key_header [of _ _ "[]"] ids ixs
    unfolding prefix_contains row_key_bytes index_entry_bytes [OF len] table_prefix_def meta_key_def plain
    by (auto simp: ROW_SPACE_def INDEX_SPACE_def META_SPACE_def prefix_key_header [of _ _ "[]" _ _ "[]", simplified])
qed

theorem keyspaces_disjoint_witness:
  "\<not> range_contains (KeyRange_prefix (table_prefix (built child_builder)))
       (en_key (index_entry (built child_builder) child_index [Str [0x62]] [Str [0x61], U64 1]))"
proof -
  have "catalog_ok \<lparr>cat_tables = [built child_builder]\<rparr>"
    by (simp add: catalog_ok_def index_ids_def child_facts)
  from keyspaces_disjoint [OF this, of "built child_builder" "built child_builder" child_index child_index]
  show ?thesis using child_fits(2) by (simp add: child_facts)
qed

section \<open>Unique indexes\<close>

lemma value_eq_Null: "value_eq Null v \<longleftrightarrow> v = Null" "value_eq v Null \<longleftrightarrow> v = Null"
proof -
  have "value_cmp Null Null = Equal" by (simp add: value_cmp.simps)
  then show "value_eq Null v \<longleftrightarrow> v = Null" "value_eq v Null \<longleftrightarrow> v = Null"
    using value_cmp_rank [of Null v] value_cmp_rank [of v Null] class_rank_0 [of v]
    by (cases "v = Null"; simp add: value_eq_def)+
qed

lemma enforces_cong: "list_all2 value_eq vs vs' \<Longrightarrow> enforces ix vs = enforces ix vs'"
proof -
  assume "list_all2 value_eq vs vs'"
  then have "Null \<in> set vs \<longleftrightarrow> Null \<in> set vs'"
    by (induction rule: list_all2_induct) (auto simp: value_eq_Null)
  then show ?thesis by (simp add: enforces_def)
qed

text \<open>The values of one entry, as many as the index has key parts and of kinds the types allow.\<close>

definition entry_values :: "IndexDef \<Rightarrow> Value list \<Rightarrow> bool" where
  "entry_values ix vs \<longleftrightarrow> list_all wf_value vs \<and> length vs = length (key_directions ix)"

lemma values_fit_entry: "values_fit t ix vs \<Longrightarrow> entry_values ix vs"
  using values_fit_wf by (simp add: entry_values_def)

lemma index_key_eq:
  assumes "key_fits t pk" and "key_fits t pk'" and "pk \<noteq> []" and "pk' \<noteq> []"
    and "entry_values ix vs" and "entry_values ix vs'"
  shows "en_key (index_entry t ix vs pk) = en_key (index_entry t ix vs' pk') \<longleftrightarrow>
    (td_tenant_column t \<noteq> None \<longrightarrow> value_eq (hd pk) (hd pk')) \<and> list_all2 value_eq vs vs' \<and>
    (enforces ix vs \<or> list_all2 value_eq pk pk')"
proof -
  have wf: "list_all wf_value pk" "list_all wf_value pk'" "length pk = length pk'"
    "list_all wf_value vs" "list_all wf_value vs'" "length vs = length vs'"
    and len: "length vs = length (key_directions ix)" "length vs' = length (key_directions ix)"
    using key_fits_wf [OF assms(1)] key_fits_wf [OF assms(2)] assms(5,6) by (simp_all add: entry_values_def)
  let ?tail = "\<lambda>vs pk. if enforces ix vs then [] else tuple_bytes [] pk"
  let ?ds = "key_directions ix"
  have tail: "list_all2 value_eq vs vs' \<Longrightarrow> ?tail vs pk = ?tail vs' pk' \<longleftrightarrow> enforces ix vs \<or> list_all2 value_eq pk pk'"
    using enforces_cong [of vs vs' ix] tuple_split [OF wf(1-3), of "[]" "[]" "[]"] by simp
  have "tenant_bytes t pk @ us = tenant_bytes t pk' @ us' \<longleftrightarrow>
      (td_tenant_column t \<noteq> None \<longrightarrow> value_eq (hd pk) (hd pk')) \<and> us = us'" for us us'
  proof (cases "td_tenant_column t")
    case (Some i)
    have "list_all wf_value [hd pk]" "list_all wf_value [hd pk']"
      using wf assms(3,4) by (auto simp: neq_Nil_conv)
    from tuple_split [OF this, of "[]" us us'] show ?thesis
      unfolding tenant_bytes_Some [OF Some assms(3)] tenant_bytes_Some [OF Some assms(4)] using Some by simp
  qed (simp add: tenant_bytes_None)
  then show ?thesis
    using tuple_split [OF wf(4-6), of ?ds "?tail vs pk" "?tail vs' pk'"] tail
    by (auto simp: index_entry_bytes [OF len(1)] index_entry_bytes [OF len(2)])
qed

text \<open>C24. A unique index is enforced by its keys: two entries of one index have the same key exactly
  when they belong to one tenant, agree on the indexed values, and either the index is unique and no
  indexed value is null, or they are entries of the same row. Nulls never collide, and entries of a
  non-unique index never do.\<close>

theorem unique_keys_collide:
  assumes "key_fits t pk" and "key_fits t pk'" and "pk \<noteq> []" and "pk' \<noteq> []"
    and "values_fit t ix vs" and "values_fit t ix vs'"
  shows "(en_key (index_entry t ix vs pk) = en_key (index_entry t ix vs' pk')) =
    ((td_tenant_column t \<noteq> None \<longrightarrow> value_eq (hd pk) (hd pk')) \<and> list_all2 value_eq vs vs' \<and>
     (ix_unique ix \<and> Null \<notin> set vs \<or> list_all2 value_eq pk pk'))"
  using index_key_eq [OF assms(1-4) values_fit_entry [OF assms(5)] values_fit_entry [OF assms(6)]]
  by (simp add: enforces_def)


text \<open>On a unique version of the example's index, two rows of one tenant with one indexed value
  collide.\<close>

theorem unique_keys_collide_witness:
  "en_key (index_entry (built child_builder) (child_index\<lparr>ix_unique := True\<rparr>) [Str [0x62]] [Str [0x61], U64 1]) =
   en_key (index_entry (built child_builder) (child_index\<lparr>ix_unique := True\<rparr>) [Str [0x62]] [Str [0x61], U64 2])"
proof -
  let ?ix = "child_index\<lparr>ix_unique := True\<rparr>"
  have fit: "values_fit (built child_builder) ?ix [Str [0x62]]"
    using child_fits(2) by (cases "ix_expression child_index") (simp_all add: values_fit_def index_key_types_def)
  have two: "key_fits (built child_builder) [Str [0x61], U64 2]"
    using child_fits(1) by (simp add: key_fits_def child_facts fits_def has_type_def)
  have "list_all2 value_eq [Str [0x62]] [Str [0x62]]" "value_eq (Str [0x61]) (Str [0x61])"
    by (simp_all add: value_eq_def value_cmp.simps cmp_lin_def)
  then show ?thesis
    using unique_keys_collide [OF child_fits(1) two _ _ fit fit] by simp
qed

end
