(* ===== verification/Like_Pattern.thy ===== *)
theory Like_Pattern
  imports Rust_Loops Utf8
begin

text \<open>
  SQL's \<open>LIKE\<close>, \<open>crates/slate-kernel/src/expr.rs\<close>: the iterative matcher with one point to
  backtrack to, and the literal prefix a pattern requires. The specification is the recursive
  reading of a pattern as a list of tokens.
\<close>

section \<open>The matcher\<close>

abbreviation c_percent :: nat where "c_percent \<equiv> 0x25"
abbreviation c_underscore :: nat where "c_underscore \<equiv> 0x5F"
abbreviation c_backslash :: nat where "c_backslash \<equiv> 0x5C"

text \<open>The loop's state: the positions in the text and in the pattern, and the position of the last
  percent sign with the position of the text it resumes from. The two jumps back to it are the same
  code.\<close>

function like_loop :: "nat list \<Rightarrow> nat list \<Rightarrow> nat \<Rightarrow> nat \<Rightarrow> nat option \<Rightarrow> nat \<Rightarrow> bool" where
  "like_loop subj pattern t p star_p star_t =
     (if t < length subj then
        let retry = (case star_p of
                       Some star \<Rightarrow> like_loop subj pattern (star_t + 1) (star + 1) star_p (star_t + 1)
                     | None \<Rightarrow> False) in
        case get pattern p of
          None \<Rightarrow> retry
        | Some c \<Rightarrow>
            if c = c_percent then like_loop subj pattern t (p + 1) (Some p) t
            else if c = c_underscore then like_loop subj pattern (t + 1) (p + 1) star_p star_t
            else
              let literal = (if c = c_backslash
                             then (case get pattern (p + 1) of Some d \<Rightarrow> d | None \<Rightarrow> c_backslash)
                             else c);
                  width = (if c = c_backslash then 2 else 1)
              in if get subj t = Some literal
                 then like_loop subj pattern (t + 1) (p + width) star_p star_t
                 else retry
      else list_all (\<lambda>c. c = c_percent) (drop p pattern))"
  by pat_completeness auto
termination
  by (relation "measures
      [\<lambda>(subj, pattern, t, p, star_p, star_t). case star_p of Some s \<Rightarrow> if p \<le> s then 1 else 0 | None \<Rightarrow> 0,
       \<lambda>(subj, pattern, t, p, star_p, star_t). length pattern - (case star_p of Some s \<Rightarrow> s + 1 | None \<Rightarrow> 0),
       \<lambda>(subj, pattern, t, p, star_p, star_t). length subj - star_t,
       \<lambda>(subj, pattern, t, p, star_p, star_t). length subj - t]")
     (auto split: option.splits if_splits)

declare like_loop.simps [simp del]

definition like_matches :: "bytes \<Rightarrow> bytes \<Rightarrow> bool" where
  "like_matches subj pattern = like_loop (chars subj) (chars pattern) 0 0 None 0"

fun prefix_loop :: "nat list \<Rightarrow> nat list \<Rightarrow> nat list" where
  "prefix_loop pre [] = pre"
| "prefix_loop pre (c # cs) =
     (if c = c_percent \<or> c = c_underscore then pre
      else if c = c_backslash then
        (case cs of
           escaped # cs \<Rightarrow> prefix_loop (pre @ [escaped]) cs
         | [] \<Rightarrow> prefix_loop (pre @ [c_backslash]) [])
      else prefix_loop (pre @ [c]) cs)"

definition like_prefix :: "bytes \<Rightarrow> bytes option" where
  "like_prefix pattern =
     (let pre = prefix_loop [] (chars pattern)
      in if pre \<noteq> [] then Some (utf8_encode pre) else None)"

section \<open>What a pattern means\<close>

datatype like_token = Any_Run | Any_One | Literal nat

fun like_tokens :: "nat list \<Rightarrow> like_token list" where
  "like_tokens [] = []"
| "like_tokens (c # cs) =
     (if c = c_percent then Any_Run # like_tokens cs
      else if c = c_underscore then Any_One # like_tokens cs
      else if c = c_backslash then
        (case cs of d # ds \<Rightarrow> Literal d # like_tokens ds | [] \<Rightarrow> [Literal c_backslash])
      else Literal c # like_tokens cs)"

fun token_matches :: "like_token \<Rightarrow> nat \<Rightarrow> bool" where
  "token_matches Any_Run c = False"
| "token_matches Any_One c = True"
| "token_matches (Literal d) c = (c = d)"

fun tokens_match :: "like_token list \<Rightarrow> nat list \<Rightarrow> bool" where
  "tokens_match [] cs = (cs = [])"
| "tokens_match (Any_Run # ts) cs = (\<exists>k\<le>length cs. tokens_match ts (drop k cs))"
| "tokens_match (t # ts) cs = (case cs of [] \<Rightarrow> False | c # cs \<Rightarrow> token_matches t c \<and> tokens_match ts cs)"

section \<open>The matcher is exact\<close>

text \<open>A run of tokens that each take one character.\<close>

lemma tokens_match_fixed:
  assumes "Any_Run \<notin> set seg"
  shows "tokens_match (seg @ ts) cs \<longleftrightarrow>
    length seg \<le> length cs \<and> list_all2 token_matches seg (take (length seg) cs) \<and>
    tokens_match ts (drop (length seg) cs)"
  using assms
proof (induction seg arbitrary: cs)
  case (Cons t seg)
  then have "t \<noteq> Any_Run" by auto
  then show ?case using Cons by (cases t; cases cs) auto
qed simp

lemma tokens_match_run:
  assumes "t \<le> length cs"
  shows "tokens_match (Any_Run # ts) (drop t cs) \<longleftrightarrow>
    (\<exists>k\<ge>t. k \<le> length cs \<and> tokens_match ts (drop k cs))"
proof -
  have "(\<exists>k\<le>length cs - t. P (t + k)) \<longleftrightarrow> (\<exists>k\<ge>t. k \<le> length cs \<and> P k)" for P
  proof
    assume "\<exists>k\<ge>t. k \<le> length cs \<and> P k"
    then obtain k where "t \<le> k" "k \<le> length cs" "P k" by blast
    then show "\<exists>k\<le>length cs - t. P (t + k)" by (intro exI [of _ "k - t"]) auto
  next
    assume "\<exists>k\<le>length cs - t. P (t + k)"
    then obtain k where "k \<le> length cs - t" "P (t + k)" by blast
    then show "\<exists>k\<ge>t. k \<le> length cs \<and> P k" using assms by (intro exI [of _ "t + k"]) auto
  qed
  from this [of "\<lambda>k. tokens_match ts (drop k cs)"] show ?thesis by (simp add: add.commute)
qed

lemma like_tokens_at:
  assumes "get pattern p = Some c"
  shows "like_tokens (drop p pattern) =
    (if c = c_percent then Any_Run # like_tokens (drop (p + 1) pattern)
     else if c = c_underscore then Any_One # like_tokens (drop (p + 1) pattern)
     else if c = c_backslash then
       Literal (case get pattern (p + 1) of Some d \<Rightarrow> d | None \<Rightarrow> c_backslash) #
         like_tokens (drop (p + 2) pattern)
     else Literal c # like_tokens (drop (p + 1) pattern))"
proof -
  have p: "p < length pattern" "pattern ! p = c" using assms by auto
  then have d: "drop p pattern = c # drop (p + 1) pattern"
    by (metis Cons_nth_drop_Suc Suc_eq_plus1)
  show ?thesis
  proof (cases "p + 1 < length pattern")
    case True
    then have "drop (p + 1) pattern = pattern ! (p + 1) # drop (p + 2) pattern"
      by (metis Cons_nth_drop_Suc add_Suc_right one_add_one plus_1_eq_Suc Suc_eq_plus1)
    then show ?thesis using True by (simp add: d)
  next
    case False
    then show ?thesis by (simp add: d get_def)
  qed
qed

lemma tokens_match_nil: "tokens_match (like_tokens cs) [] \<longleftrightarrow> list_all (\<lambda>c. c = c_percent) cs"
proof (induction cs rule: like_tokens.induct)
  case (2 c cs)
  then show ?case by (cases cs) auto
qed simp

text \<open>The part of the pattern after the last percent sign that has been matched so far takes exactly
  the characters since the point to resume from.\<close>

definition like_inv :: "nat list \<Rightarrow> nat list \<Rightarrow> nat \<Rightarrow> nat \<Rightarrow> nat option \<Rightarrow> nat \<Rightarrow> bool" where
  "like_inv subj pattern t p star_p star_t \<longleftrightarrow>
     t \<le> length subj \<and>
     (\<forall>s. star_p = Some s \<longrightarrow> star_t \<le> t \<and>
        (\<exists>seg. Any_Run \<notin> set seg \<and> length seg = t - star_t \<and>
           like_tokens (drop (s + 1) pattern) = seg @ like_tokens (drop p pattern)))"

text \<open>What the rest of the loop decides: a match from here, or one from a later point to resume
  from.\<close>

definition like_ahead :: "nat list \<Rightarrow> nat list \<Rightarrow> nat \<Rightarrow> nat \<Rightarrow> nat option \<Rightarrow> nat \<Rightarrow> bool" where
  "like_ahead subj pattern t p star_p star_t \<longleftrightarrow>
     tokens_match (like_tokens (drop p pattern)) (drop t subj) \<or>
     (\<exists>s k. star_p = Some s \<and> star_t < k \<and> k \<le> length subj \<and>
        tokens_match (like_tokens (drop (s + 1) pattern)) (drop k subj))"

lemma like_ahead_retry:
  assumes "t < length subj" and "like_inv subj pattern t p star_p star_t"
    and "\<not> tokens_match (like_tokens (drop p pattern)) (drop t subj)"
  shows "like_ahead subj pattern t p star_p star_t \<longleftrightarrow>
    (case star_p of
       Some s \<Rightarrow> like_ahead subj pattern (star_t + 1) (s + 1) star_p (star_t + 1) \<and>
         like_inv subj pattern (star_t + 1) (s + 1) star_p (star_t + 1)
     | None \<Rightarrow> False)"
proof (cases star_p)
  case (Some s)
  have "star_t + 1 \<le> length subj" using assms(1,2) Some by (auto simp: like_inv_def)
  then have inv: "like_inv subj pattern (star_t + 1) (s + 1) star_p (star_t + 1)"
    by (simp add: like_inv_def Some)
  have "(\<exists>k. star_t < k \<and> k \<le> length subj \<and> P k) \<longleftrightarrow>
      P (star_t + 1) \<or> (\<exists>k. star_t + 1 < k \<and> k \<le> length subj \<and> P k)" for P
    using \<open>star_t + 1 \<le> length subj\<close> by (metis Suc_eq_plus1 Suc_leI Suc_lessI lessI less_trans)
  then show ?thesis using Some assms(3) inv by (simp add: like_ahead_def)
qed (use assms in \<open>simp add: like_ahead_def\<close>)

lemma like_ahead_star:
  assumes "t < length subj" and "like_inv subj pattern t p star_p star_t"
    and "get pattern p = Some c_percent"
  shows "like_ahead subj pattern t p star_p star_t \<longleftrightarrow> like_ahead subj pattern t (p + 1) (Some p) t"
proof -
  let ?Q = "like_tokens (drop (p + 1) pattern)"
  have tok: "like_tokens (drop p pattern) = Any_Run # ?Q" using like_tokens_at [OF assms(3)] by simp
  note here = tokens_match_run [OF less_imp_le [OF assms(1)], of ?Q]
  have later: "tokens_match (Any_Run # ?Q) (drop t subj)"
    if "star_p = Some s" "star_t < k" "k \<le> length subj"
      "tokens_match (like_tokens (drop (s + 1) pattern)) (drop k subj)" for s k
  proof -
    obtain seg where seg: "Any_Run \<notin> set seg" "length seg = t - star_t" "star_t \<le> t"
      "like_tokens (drop (s + 1) pattern) = seg @ Any_Run # ?Q"
      using assms(2) \<open>star_p = Some s\<close> tok by (auto simp: like_inv_def)
    have "tokens_match (Any_Run # ?Q) (drop (k + (t - star_t)) subj)" "k + (t - star_t) \<le> length subj"
      using that(3,4) tokens_match_fixed [OF seg(1), of "Any_Run # ?Q" "drop k subj"]
      unfolding seg(4) by (auto simp: seg(2) add.commute)
    then obtain j where "k + (t - star_t) \<le> j" "j \<le> length subj" "tokens_match ?Q (drop j subj)"
      using tokens_match_run by blast
    then show ?thesis unfolding here using that(2) seg(3) by (intro exI [of _ j]) auto
  qed
  have "(\<exists>k\<ge>t. k \<le> length subj \<and> P k) \<longleftrightarrow> P t \<or> (\<exists>k>t. k \<le> length subj \<and> P k)" for P
    using assms(1) by (metis le_less less_imp_le)
  then show ?thesis using later unfolding like_ahead_def tok here by auto
qed

lemma like_ahead_end:
  assumes "like_inv subj pattern (length subj) p star_p star_t"
  shows "like_ahead subj pattern (length subj) p star_p star_t \<longleftrightarrow> list_all (\<lambda>c. c = c_percent) (drop p pattern)"
proof -
  have False
    if "star_p = Some s" "star_t < k" "k \<le> length subj"
      "tokens_match (like_tokens (drop (s + 1) pattern)) (drop k subj)" for s k
  proof -
    obtain seg where seg: "Any_Run \<notin> set seg" "length seg = length subj - star_t" "star_t \<le> length subj"
      "like_tokens (drop (s + 1) pattern) = seg @ like_tokens (drop p pattern)"
      using assms \<open>star_p = Some s\<close> by (auto simp: like_inv_def)
    show False
      using that tokens_match_fixed [OF seg(1), of "like_tokens (drop p pattern)" "drop k subj"] seg(2,3)
      unfolding seg(4) by auto
  qed
  then show ?thesis unfolding like_ahead_def by (auto simp: tokens_match_nil)
qed

lemma like_inv_step:
  assumes "t < length subj" and "like_inv subj pattern t p star_p star_t"
    and "like_tokens (drop p pattern) = tok # like_tokens (drop p' pattern)" and "tok \<noteq> Any_Run"
  shows "like_inv subj pattern (t + 1) p' star_p star_t"
  unfolding like_inv_def
proof (intro conjI allI impI)
  fix s assume "star_p = Some s"
  then obtain seg where seg: "Any_Run \<notin> set seg" "length seg = t - star_t" "star_t \<le> t"
    "like_tokens (drop (s + 1) pattern) = seg @ tok # like_tokens (drop p' pattern)"
    using assms(2,3) by (auto simp: like_inv_def)
  then show "star_t \<le> t + 1"
    "\<exists>seg. Any_Run \<notin> set seg \<and> length seg = t + 1 - star_t \<and>
       like_tokens (drop (s + 1) pattern) = seg @ like_tokens (drop p' pattern)"
    using assms(4) by (auto intro!: exI [of _ "seg @ [tok]"])
qed (use assms(1) in simp)

lemma like_ahead_step:
  assumes "t < length subj" and "like_tokens (drop p pattern) = tok # like_tokens (drop p' pattern)"
    and "tok \<noteq> Any_Run" and "token_matches tok (subj ! t)"
  shows "like_ahead subj pattern t p star_p star_t \<longleftrightarrow> like_ahead subj pattern (t + 1) p' star_p star_t"
proof -
  have "drop t subj = subj ! t # drop (t + 1) subj" using assms(1) by (metis Cons_nth_drop_Suc Suc_eq_plus1)
  then have "tokens_match (like_tokens (drop p pattern)) (drop t subj) \<longleftrightarrow>
      tokens_match (like_tokens (drop p' pattern)) (drop (t + 1) subj)"
    using assms(2-4) by (cases tok) auto
  then show ?thesis by (simp add: like_ahead_def)
qed

lemma like_loop_ahead:
  "like_inv subj pattern t p star_p star_t \<Longrightarrow>
    like_loop subj pattern t p star_p star_t = like_ahead subj pattern t p star_p star_t"
proof (induction subj pattern t p star_p star_t rule: like_loop.induct)
  case (1 subj pattern t p star_p star_t)
  let ?retry = "case star_p of
      Some star \<Rightarrow> like_loop subj pattern (star_t + 1) (star + 1) star_p (star_t + 1)
    | None \<Rightarrow> False"
  show ?case
  proof (cases "t < length subj")
    case t: True
    have retry: "?retry = like_ahead subj pattern t p star_p star_t"
      if "\<not> tokens_match (like_tokens (drop p pattern)) (drop t subj)"
      using like_ahead_retry [OF t "1.prems" that] "1.IH"(1) [OF t] "1.prems" t
      by (auto simp: like_inv_def split: option.splits)
    have d: "drop t subj = subj ! t # drop (t + 1) subj" using t by (metis Cons_nth_drop_Suc Suc_eq_plus1)
    show ?thesis
    proof (cases "get pattern p")
      case None
      then have "\<not> tokens_match (like_tokens (drop p pattern)) (drop t subj)" using t by (simp add: not_le)
      note r = retry [OF this]
      show ?thesis by (subst like_loop.simps) (simp only: Let_def None t if_True option.case r)
    next
      case (Some c)
      note tok = like_tokens_at [OF Some]
      let ?lit = "if c = c_backslash then (case get pattern (p + 1) of Some d \<Rightarrow> d | None \<Rightarrow> c_backslash) else c"
      let ?w = "if c = c_backslash then 2 else 1"
      consider "c = c_percent" | "c = c_underscore" | "c \<noteq> c_percent" "c \<noteq> c_underscore" by blast
      then show ?thesis
      proof cases
        case c: 1
        have inv: "like_inv subj pattern t (p + 1) (Some p) t" using t by (simp add: like_inv_def)
        have "like_loop subj pattern t p star_p star_t = like_loop subj pattern t (p + 1) (Some p) t"
          by (subst like_loop.simps) (simp only: Let_def Some t c if_True option.case simp_thms)
        then show ?thesis
          using "1.IH"(2) [OF t refl Some c inv] like_ahead_star [OF t "1.prems"] Some c by simp
      next
        case c: 2
        have tk: "like_tokens (drop p pattern) = Any_One # like_tokens (drop (p + 1) pattern)"
          using tok c by simp
        have "like_loop subj pattern t p star_p star_t = like_loop subj pattern (t + 1) (p + 1) star_p star_t"
          by (subst like_loop.simps) (simp add: Let_def Some t c del: get_eq_Some)
        moreover have "c \<noteq> c_percent" using c by simp
        ultimately show ?thesis
          using "1.IH"(3) [OF t refl Some _ c] like_inv_step [OF t "1.prems" tk] like_ahead_step [OF t tk]
          by simp
      next
        case c: 3
        have tk: "like_tokens (drop p pattern) = Literal ?lit # like_tokens (drop (p + ?w) pattern)"
          using tok c by simp
        show ?thesis
        proof (cases "get subj t = Some ?lit")
          case True
          have "like_loop subj pattern t p star_p star_t = like_loop subj pattern (t + 1) (p + ?w) star_p star_t"
            using t Some c True by (subst like_loop.simps) (simp add: Let_def)
          moreover have "subj ! t = ?lit" using True t by simp
          ultimately show ?thesis
            using "1.IH"(4) [OF t refl Some c refl refl True] like_inv_step [OF t "1.prems" tk]
              like_ahead_step [OF t tk] by simp
        next
          case False
          then have "\<not> tokens_match (like_tokens (drop p pattern)) (drop t subj)"
            using t unfolding tk d by simp
          moreover have "like_loop subj pattern t p star_p star_t = ?retry"
            using t Some c False by (subst like_loop.simps) (simp only: Let_def if_True if_False option.case)
          ultimately show ?thesis using retry by simp
        qed
      qed
    qed
  next
    case False
    then have "t = length subj" using "1.prems" by (simp add: like_inv_def)
    then show ?thesis using like_ahead_end "1.prems" by (subst like_loop.simps) simp
  qed
qed

section \<open>Properties\<close>

text \<open>C33. The iterative \<open>LIKE\<close> matcher, which keeps only the last percent sign to go back to, returns
  on every subj and pattern, and answers exactly what the pattern means: a percent sign takes any
  run of characters, an underscore one character, a backslash the next character as it is and a
  trailing backslash itself.\<close>

theorem like_matches_exact:
  "like_matches subj pattern = tokens_match (like_tokens (chars pattern)) (chars subj)"
proof -
  have "like_inv (chars subj) (chars pattern) 0 0 None 0" by (simp add: like_inv_def)
  then show ?thesis by (simp add: like_matches_def like_loop_ahead like_ahead_def)
qed

fun literals :: "like_token list \<Rightarrow> nat list" where
  "literals (Literal c # ts) = c # literals ts"
| "literals _ = []"

lemma prefix_loop_literals: "prefix_loop pre cs = pre @ literals (like_tokens cs)"
proof (induction cs arbitrary: pre rule: like_tokens.induct)
  case (2 c cs)
  show ?case
  proof (cases "c = c_backslash")
    case True
    then show ?thesis using 2 by (cases cs) simp_all
  next
    case False
    then show ?thesis using 2 by simp
  qed
qed simp

lemma literals_prefix: "tokens_match ts cs \<Longrightarrow> prefix (literals ts) cs"
  by (induction ts arbitrary: cs rule: literals.induct) (auto split: list.splits)

lemma match_prefix:
  assumes "from_utf8 subj" and "like_matches subj pattern" and "like_prefix pattern = Some pre"
  shows "prefix pre subj \<and> pre \<noteq> []"
proof -
  have "prefix (prefix_loop [] (chars pattern)) (chars subj)"
    using assms(2) literals_prefix by (simp add: like_matches_exact prefix_loop_literals)
  then have "prefix (utf8_encode (prefix_loop [] (chars pattern))) (utf8_encode (chars subj))"
    by (auto simp: prefix_def utf8_encode_def)
  moreover have "utf8_encode (chars subj) = subj" using assms(1) utf8_encode_chars by simp
  ultimately show ?thesis
    using assms(3) by (auto simp: like_prefix_def Let_def utf8_encode_def split: if_splits)
qed

text \<open>Every text that matches a pattern starts with the pattern's literal prefix, so bounding a
  scan by that prefix loses no match; and a pattern has a literal prefix unless it is empty or begins
  with a wildcard.\<close>

theorem like_prefix_sound:
  assumes "from_utf8 subj" and "like_matches subj pattern" and "like_prefix pattern = Some pre"
  shows "prefix pre subj \<and> pre \<noteq> []"
  using assms by (rule match_prefix)

theorem like_prefix_sound_witness:
  "prefix [0x61, 0x62] ([0x61, 0x62, 0x63] :: bytes) \<and> [0x61, 0x62] \<noteq> ([] :: bytes)"
proof (rule like_prefix_sound [of _ "[0x61, 0x62, 0x25]"])
  show "from_utf8 [0x61, 0x62, 0x63]" by (simp add: from_utf8_def utf8_decode.simps)
qed (code_simp, code_simp)

end
