(* ===== verification/Predicate_Expr.thy ===== *)
theory Predicate_Expr
  imports Schema_Types Sorted_Slices Like_Pattern Tuple_Order
begin

text \<open>
  Predicates over rows, \<open>crates/slate-kernel/src/expr.rs\<close>: three-valued evaluation, the smart
  conjunction, conjuncts, the rewriting for repeated evaluation, the columns a predicate reads, and
  the cache of compiled patterns. The Unicode tables and the regular expression engine, which are
  not part of the repository, are a parameter.
\<close>

section \<open>Truth values and operators\<close>

record Env =
  env_unicode :: Unicode
  env_regex :: "bytes \<Rightarrow> bool \<Rightarrow> string + (bytes \<Rightarrow> bool)"

datatype Truth = Truth_True | Truth_False | Truth_Unknown

definition truth_admits :: "Truth \<Rightarrow> bool" where
  "truth_admits t = (case t of Truth_True \<Rightarrow> True | _ \<Rightarrow> False)"

fun truth_negate :: "Truth \<Rightarrow> Truth" where
  "truth_negate Truth_True = Truth_False"
| "truth_negate Truth_False = Truth_True"
| "truth_negate Truth_Unknown = Truth_Unknown"

definition truth_from :: "bool \<Rightarrow> Truth" where
  "truth_from b = (if b then Truth_True else Truth_False)"

datatype CmpOp = Op_Eq | Op_Ne | Op_Lt | Op_Le | Op_Gt | Op_Ge

fun mirrored :: "CmpOp \<Rightarrow> CmpOp" where
  "mirrored Op_Eq = Op_Eq"
| "mirrored Op_Ne = Op_Ne"
| "mirrored Op_Lt = Op_Gt"
| "mirrored Op_Le = Op_Ge"
| "mirrored Op_Gt = Op_Lt"
| "mirrored Op_Ge = Op_Le"

fun op_apply :: "CmpOp \<Rightarrow> ordering \<Rightarrow> bool" where
  "op_apply Op_Eq c = (c = Equal)"
| "op_apply Op_Ne c = (c \<noteq> Equal)"
| "op_apply Op_Lt c = (c = Less)"
| "op_apply Op_Le c = (c = Less \<or> c = Equal)"
| "op_apply Op_Gt c = (c = Greater)"
| "op_apply Op_Ge c = (c = Greater \<or> c = Equal)"

definition IN_LOOKUP_THRESHOLD :: nat where
  "IN_LOOKUP_THRESHOLD = 16"

section \<open>Predicates\<close>

datatype Expr =
    Expr_True
  | Expr_False
  | Expr_Compare Ordinal CmpOp Value
  | Expr_CompareColumns Ordinal CmpOp Ordinal
  | Expr_IsNull Ordinal bool
  | Expr_Like Ordinal bytes bool bool
  | Expr_Matches Ordinal bytes bool bool
  | Expr_Contains Ordinal "bytes list"
  | Expr_In Ordinal "Value list"
  | Expr_InSorted Ordinal "Value list" bool
  | Expr_And "Expr list"
  | Expr_Or "Expr list"
  | Expr_Not Expr

definition NODE_NAMES :: "string list" where
  "NODE_NAMES =
     [''true'', ''false'', ''compare'', ''compare_columns'', ''is_null'', ''like'', ''matches'',
      ''contains'', ''in'', ''in_sorted'', ''and'', ''or'', ''not'']"

fun node_name :: "Expr \<Rightarrow> string" where
  "node_name Expr_True = ''true''"
| "node_name Expr_False = ''false''"
| "node_name (Expr_Compare _ _ _) = ''compare''"
| "node_name (Expr_CompareColumns _ _ _) = ''compare_columns''"
| "node_name (Expr_IsNull _ _) = ''is_null''"
| "node_name (Expr_Like _ _ _ _) = ''like''"
| "node_name (Expr_Matches _ _ _ _) = ''matches''"
| "node_name (Expr_Contains _ _) = ''contains''"
| "node_name (Expr_In _ _) = ''in''"
| "node_name (Expr_InSorted _ _ _) = ''in_sorted''"
| "node_name (Expr_And _) = ''and''"
| "node_name (Expr_Or _) = ''or''"
| "node_name (Expr_Not _) = ''not''"

definition expr_eq :: "Ordinal \<Rightarrow> Value \<Rightarrow> Expr" where
  "expr_eq c v = Expr_Compare c Op_Eq v"

definition expr_contains :: "Unicode \<Rightarrow> Ordinal \<Rightarrow> bytes \<Rightarrow> Expr" where
  "expr_contains u c txt = Expr_Contains c (tokenize u txt)"

definition expr_and :: "Expr \<Rightarrow> Expr \<Rightarrow> Expr" where
  "expr_and a b =
     (if a = Expr_False \<or> b = Expr_False then Expr_False
      else if a = Expr_True then b
      else if b = Expr_True then a
      else case (a, b) of
        (Expr_And xs, Expr_And ys) \<Rightarrow> Expr_And (xs @ ys)
      | (Expr_And xs, e) \<Rightarrow> Expr_And (xs @ [e])
      | (e, Expr_And xs) \<Rightarrow> Expr_And (xs @ [e])
      | (a, b) \<Rightarrow> Expr_And [a, b])"

definition expr_all :: "Expr list \<Rightarrow> Expr" where
  "expr_all parts = foldl expr_and Expr_True parts"

fun conjuncts :: "Expr \<Rightarrow> Expr list" where
  "conjuncts Expr_True = []"
| "conjuncts (Expr_And parts) = concat (map conjuncts parts)"
| "conjuncts e = [e]"

section \<open>Evaluation\<close>

text \<open>The loops over the parts of a conjunction and of a disjunction; the parts' results are computed
  as the loop reaches them, which a pure evaluator cannot tell apart from computing them first.\<close>

fun and_loop :: "Truth \<Rightarrow> Truth list \<Rightarrow> Truth" where
  "and_loop result [] = result"
| "and_loop result (t # ts) =
     (case t of
        Truth_False \<Rightarrow> Truth_False
      | Truth_Unknown \<Rightarrow> and_loop Truth_Unknown ts
      | Truth_True \<Rightarrow> and_loop result ts)"

fun or_loop :: "Truth \<Rightarrow> Truth list \<Rightarrow> Truth" where
  "or_loop result [] = result"
| "or_loop result (t # ts) =
     (case t of
        Truth_True \<Rightarrow> Truth_True
      | Truth_Unknown \<Rightarrow> or_loop Truth_Unknown ts
      | Truth_False \<Rightarrow> or_loop result ts)"

definition lowered :: "Env \<Rightarrow> bytes \<Rightarrow> bytes" where
  "lowered env s = utf8_encode (to_lowercase (env_unicode env) (chars s))"

fun evaluate_over :: "Env \<Rightarrow> (Ordinal \<Rightarrow> Value option) \<Rightarrow> Expr \<Rightarrow> Truth" where
  "evaluate_over env row Expr_True = Truth_True"
| "evaluate_over env row Expr_False = Truth_False"
| "evaluate_over env row (Expr_Compare column oper v) =
     (case row column of
        None \<Rightarrow> Truth_Unknown
      | Some actual \<Rightarrow>
          if is_null actual \<or> is_null v then Truth_Unknown
          else truth_from (op_apply oper (value_cmp actual v)))"
| "evaluate_over env row (Expr_CompareColumns left oper right) =
     (case (row left, row right) of
        (Some a, Some b) \<Rightarrow>
          if is_null a \<or> is_null b then Truth_Unknown else truth_from (op_apply oper (value_cmp a b))
      | _ \<Rightarrow> Truth_Unknown)"
| "evaluate_over env row (Expr_Like column pattern negated insensitive) =
     (case row column of
        Some (Str txt) \<Rightarrow>
          let matched = (if insensitive then like_matches (lowered env txt) (lowered env pattern)
                         else like_matches txt pattern)
          in truth_from (matched \<noteq> negated)
      | _ \<Rightarrow> Truth_Unknown)"
| "evaluate_over env row (Expr_Matches column pattern negated insensitive) =
     (case row column of
        Some (Str txt) \<Rightarrow>
          (case env_regex env pattern insensitive of
             Inl _ \<Rightarrow> truth_from negated
           | Inr is_match \<Rightarrow> truth_from (is_match txt \<noteq> negated))
      | _ \<Rightarrow> Truth_Unknown)"
| "evaluate_over env row (Expr_Contains column terms) =
     (case row column of
        Some (Str txt) \<Rightarrow>
          if terms = [] then Truth_False
          else
            let held = tokenize (env_unicode env) txt
            in truth_from (list_all (\<lambda>term. term \<in> set held) terms)
      | _ \<Rightarrow> Truth_Unknown)"
| "evaluate_over env row (Expr_IsNull column negated) =
     (let null = is_none_or is_null (row column) in truth_from (null \<noteq> negated))"
| "evaluate_over env row (Expr_InSorted column vs any_null) =
     (case row column of
        None \<Rightarrow> Truth_Unknown
      | Some actual \<Rightarrow>
          if is_null actual then Truth_Unknown
          else if binary_search value_cmp vs actual then Truth_True
          else if any_null then Truth_Unknown
          else Truth_False)"
| "evaluate_over env row (Expr_In column vs) =
     (case row column of
        None \<Rightarrow> Truth_Unknown
      | Some actual \<Rightarrow>
          if is_null actual then Truth_Unknown
          else if list_ex (\<lambda>v. \<not> is_null v \<and> value_eq v actual) vs then Truth_True
          else if list_ex is_null vs then Truth_Unknown
          else Truth_False)"
| "evaluate_over env row (Expr_And parts) = and_loop Truth_True (map (evaluate_over env row) parts)"
| "evaluate_over env row (Expr_Or parts) = or_loop Truth_False (map (evaluate_over env row) parts)"
| "evaluate_over env row (Expr_Not inner) = truth_negate (evaluate_over env row inner)"

definition evaluate :: "Env \<Rightarrow> Expr \<Rightarrow> Row \<Rightarrow> Truth" where
  "evaluate env e row = evaluate_over env (get row) e"

definition expr_admits :: "Env \<Rightarrow> Expr \<Rightarrow> Row \<Rightarrow> bool" where
  "expr_admits env e row = truth_admits (evaluate env e row)"

definition expr_truth :: "Env \<Rightarrow> Expr \<Rightarrow> Predicate" where
  "expr_truth env e = (\<lambda>row.
     case evaluate env e row of
       Truth_True \<Rightarrow> Some True
     | Truth_False \<Rightarrow> Some False
     | Truth_Unknown \<Rightarrow> None)"

section \<open>Rewriting and inspection\<close>

fun map_columns :: "(Ordinal \<Rightarrow> Ordinal) \<Rightarrow> Expr \<Rightarrow> Expr" where
  "map_columns f Expr_True = Expr_True"
| "map_columns f Expr_False = Expr_False"
| "map_columns f (Expr_Compare c oper v) = Expr_Compare (f c) oper v"
| "map_columns f (Expr_CompareColumns l oper r) = Expr_CompareColumns (f l) oper (f r)"
| "map_columns f (Expr_Contains c terms) = Expr_Contains (f c) terms"
| "map_columns f (Expr_Like c p negated insensitive) = Expr_Like (f c) p negated insensitive"
| "map_columns f (Expr_Matches c p negated insensitive) = Expr_Matches (f c) p negated insensitive"
| "map_columns f (Expr_IsNull c negated) = Expr_IsNull (f c) negated"
| "map_columns f (Expr_In c vs) = Expr_In (f c) vs"
| "map_columns f (Expr_InSorted c vs any_null) = Expr_InSorted (f c) vs any_null"
| "map_columns f (Expr_And parts) = Expr_And (map (map_columns f) parts)"
| "map_columns f (Expr_Or parts) = Expr_Or (map (map_columns f) parts)"
| "map_columns f (Expr_Not inner) = Expr_Not (map_columns f inner)"

fun prepared :: "Expr \<Rightarrow> Expr" where
  "prepared (Expr_In c vs) =
     (if IN_LOOKUP_THRESHOLD \<le> length vs then
        let any_null = list_ex is_null vs;
            sorted = sort_by value_cmp (filter (\<lambda>v. \<not> is_null v) vs)
        in Expr_InSorted c (dedup_by value_eq sorted) any_null
      else Expr_In c vs)"
| "prepared (Expr_And parts) = Expr_And (map prepared parts)"
| "prepared (Expr_Or parts) = Expr_Or (map prepared parts)"
| "prepared (Expr_Not inner) = Expr_Not (prepared inner)"
| "prepared e = e"

fun column_type_conflict :: "(Ordinal \<Rightarrow> ValueType option) \<Rightarrow> Expr \<Rightarrow> (Ordinal \<times> Ordinal) option" where
  "column_type_conflict types (Expr_CompareColumns l _ r) =
     (case (types l, types r) of
        (Some a, Some b) \<Rightarrow> if a \<noteq> b then Some (l, r) else None
      | _ \<Rightarrow> None)"
| "column_type_conflict types (Expr_And parts) = find_map (column_type_conflict types) parts"
| "column_type_conflict types (Expr_Or parts) = find_map (column_type_conflict types) parts"
| "column_type_conflict types (Expr_Not inner) = column_type_conflict types inner"
| "column_type_conflict types _ = None"

fun collect_columns :: "Expr \<Rightarrow> Ordinal set \<Rightarrow> Ordinal set" where
  "collect_columns Expr_True out = out"
| "collect_columns Expr_False out = out"
| "collect_columns (Expr_Compare c _ _) out = insert c out"
| "collect_columns (Expr_IsNull c _) out = insert c out"
| "collect_columns (Expr_In c _) out = insert c out"
| "collect_columns (Expr_InSorted c _ _) out = insert c out"
| "collect_columns (Expr_Like c _ _ _) out = insert c out"
| "collect_columns (Expr_Matches c _ _ _) out = insert c out"
| "collect_columns (Expr_Contains c _) out = insert c out"
| "collect_columns (Expr_CompareColumns l _ r) out = insert r (insert l out)"
| "collect_columns (Expr_And parts) out = fold collect_columns parts out"
| "collect_columns (Expr_Or parts) out = fold collect_columns parts out"
| "collect_columns (Expr_Not inner) out = collect_columns inner out"

definition expr_columns :: "Expr \<Rightarrow> Ordinal set" where
  "expr_columns e = collect_columns e {}"

fun widest_in_list :: "Expr \<Rightarrow> nat" where
  "widest_in_list (Expr_In _ vs) = length vs"
| "widest_in_list (Expr_InSorted _ vs _) = length vs"
| "widest_in_list (Expr_And parts) = fold max (map widest_in_list parts) 0"
| "widest_in_list (Expr_Or parts) = fold max (map widest_in_list parts) 0"
| "widest_in_list (Expr_Not inner) = widest_in_list inner"
| "widest_in_list _ = 0"

fun regex_error :: "Env \<Rightarrow> Expr \<Rightarrow> string option" where
  "regex_error env (Expr_Matches _ pattern _ insensitive) =
     (case env_regex env pattern insensitive of Inl e \<Rightarrow> Some e | Inr _ \<Rightarrow> None)"
| "regex_error env (Expr_And parts) = find_map (regex_error env) parts"
| "regex_error env (Expr_Or parts) = find_map (regex_error env) parts"
| "regex_error env (Expr_Not inner) = regex_error env inner"
| "regex_error env _ = None"

section \<open>The cache of compiled patterns\<close>

definition PATTERN_CACHE :: nat where
  "PATTERN_CACHE = 64"

text \<open>A thread's two maps, by case-sensitivity, each an association list with distinct keys. The maps
  live as long as the thread and start empty.\<close>

type_synonym pattern_cache = "(bytes \<times> (bytes \<Rightarrow> bool)) list"

record Patterns =
  SENSITIVE :: pattern_cache
  INSENSITIVE :: pattern_cache

definition Patterns_new :: Patterns where
  "Patterns_new = \<lparr>SENSITIVE = [], INSENSITIVE = []\<rparr>"

definition patterns_of :: "bool \<Rightarrow> Patterns \<Rightarrow> pattern_cache" where
  "patterns_of insensitive ps = (if insensitive then INSENSITIVE ps else SENSITIVE ps)"

definition set_patterns :: "bool \<Rightarrow> pattern_cache \<Rightarrow> Patterns \<Rightarrow> Patterns" where
  "set_patterns insensitive cache ps =
     (if insensitive then ps\<lparr>INSENSITIVE := cache\<rparr> else ps\<lparr>SENSITIVE := cache\<rparr>)"

definition compile :: "Env \<Rightarrow> bytes \<Rightarrow> bool \<Rightarrow> Patterns \<Rightarrow> (string + (bytes \<Rightarrow> bool)) \<times> Patterns" where
  "compile env pattern insensitive ps =
     (let cache = patterns_of insensitive ps
      in case map_of cache pattern of
           Some found \<Rightarrow> (Inr found, ps)
         | None \<Rightarrow>
             (case env_regex env pattern insensitive of
                Inl e \<Rightarrow> (Inl e, ps)
              | Inr compiled \<Rightarrow>
                  let cache = (if PATTERN_CACHE \<le> length cache then [] else cache)
                  in (Inr compiled, set_patterns insensitive ((pattern, compiled) # cache) ps)))"

text \<open>The maps of a thread after the calls it made.\<close>

fun compiled_after :: "Env \<Rightarrow> (bytes \<times> bool) list \<Rightarrow> Patterns \<Rightarrow> Patterns" where
  "compiled_after env [] ps = ps"
| "compiled_after env ((pattern, insensitive) # calls) ps =
     compiled_after env calls (snd (compile env pattern insensitive ps))"

section \<open>The laws of evaluation\<close>

named_theorems expr_simps

lemma truth_admits_simps [simp]:
  "truth_admits Truth_True" "\<not> truth_admits Truth_False" "\<not> truth_admits Truth_Unknown"
  by (simp_all add: truth_admits_def)

lemma truth_admits_iff: "truth_admits t \<longleftrightarrow> t = Truth_True"
  by (cases t) simp_all

lemma truth_from_simps [simp]:
  "truth_from True = Truth_True" "truth_from False = Truth_False" "truth_from b \<noteq> Truth_Unknown"
  by (simp_all add: truth_from_def)

lemma and_loop_iff [expr_simps]:
  "and_loop r ts = (if Truth_False \<in> set ts then Truth_False else if Truth_Unknown \<in> set ts then Truth_Unknown else r)"
  by (induction r ts rule: and_loop.induct) (auto split: Truth.splits)

lemma or_loop_iff [expr_simps]:
  "or_loop r ts = (if Truth_True \<in> set ts then Truth_True else if Truth_Unknown \<in> set ts then Truth_Unknown else r)"
  by (induction r ts rule: or_loop.induct) (auto split: Truth.splits)

lemma evaluate_expr_and:
  "evaluate_over env row (expr_and a b) = and_loop Truth_True [evaluate_over env row a, evaluate_over env row b]"
proof -
  consider "a = Expr_False \<or> b = Expr_False" | "a = Expr_True" | "b = Expr_True"
    | "a \<noteq> Expr_False" "b \<noteq> Expr_False" "a \<noteq> Expr_True" "b \<noteq> Expr_True" by blast
  then show ?thesis
  proof cases
    case 4
    then show ?thesis
      by (cases a; cases b) (auto simp: expr_and_def expr_simps)
  qed (auto simp: expr_and_def expr_simps intro: Truth.exhaust [of "evaluate_over env row _"])
qed

lemma and_loop_single [simp]: "and_loop Truth_True [t] = t"
  by (cases t) simp_all

lemma and_loop_pair: "and_loop Truth_True (s # t # ts) = and_loop Truth_True (and_loop Truth_True [s, t] # ts)"
  by (cases s; cases t) (simp_all add: expr_simps)

lemma and_loop_append: "and_loop Truth_True (ss @ ts) = and_loop Truth_True [and_loop Truth_True ss, and_loop Truth_True ts]"
  by (simp add: and_loop_iff)

lemma and_loop_concat: "and_loop Truth_True (concat tss) = and_loop Truth_True (map (and_loop Truth_True) tss)"
proof (induction tss)
  case (Cons ts tss)
  have "and_loop Truth_True (t # us) = and_loop Truth_True [t, and_loop Truth_True us]" for t us
    by (cases t) (simp_all add: and_loop_iff)
  then show ?case using Cons by (simp only: concat.simps list.map and_loop_append [of ts])
qed simp

lemma evaluate_expr_all:
  "evaluate_over env row (expr_all es) = and_loop Truth_True (map (evaluate_over env row) es)"
proof -
  have "evaluate_over env row (foldl expr_and e es) =
      and_loop Truth_True (evaluate_over env row e # map (evaluate_over env row) es)" for e
  proof (induction es arbitrary: e)
    case (Cons x es)
    show ?case by (simp only: foldl_Cons list.map Cons evaluate_expr_and) (rule and_loop_pair [symmetric])
  qed (simp only: foldl_Nil list.map and_loop_single)
  from this [of Expr_True] show ?thesis by (simp add: expr_all_def)
qed

lemma evaluate_conjuncts:
  "evaluate_over env row e = and_loop Truth_True (map (evaluate_over env row) (conjuncts e))"
proof (induction e)
  case (Expr_And parts)
  then have "map (evaluate_over env row) parts =
      map (and_loop Truth_True) (map (\<lambda>p. map (evaluate_over env row) (conjuncts p)) parts)"
    by simp
  then have "evaluate_over env row (Expr_And parts) =
      and_loop Truth_True (concat (map (\<lambda>p. map (evaluate_over env row) (conjuncts p)) parts))"
    by (simp only: evaluate_over.simps and_loop_concat)
  then show ?case by (simp add: map_concat comp_def)
next
  case Expr_True
  show ?case by simp
qed (simp_all only: conjuncts.simps list.map and_loop_single)

lemma evaluate_map_columns: "evaluate_over env row (map_columns f e) = evaluate_over env (\<lambda>i. row (f i)) e"
proof (induction e)
  case (Expr_And parts)
  then have "map (evaluate_over env row) (map (map_columns f) parts) = map (evaluate_over env (\<lambda>i. row (f i))) parts"
    by simp
  then show ?case by (simp only: map_columns.simps evaluate_over.simps)
next
  case (Expr_Or parts)
  then have "map (evaluate_over env row) (map (map_columns f) parts) = map (evaluate_over env (\<lambda>i. row (f i))) parts"
    by simp
  then show ?case by (simp only: map_columns.simps evaluate_over.simps)
qed simp_all

lemma fold_collect:
  assumes "\<And>e out. e \<in> set es \<Longrightarrow> collect_columns e out = collect_columns e {} \<union> out"
  shows "fold collect_columns es out = (\<Union>e\<in>set es. collect_columns e {}) \<union> out"
  using assms
proof (induction es arbitrary: out)
  case (Cons e es)
  have "fold collect_columns es (collect_columns e out) = (\<Union>e\<in>set es. collect_columns e {}) \<union> collect_columns e out"
    by (rule Cons.IH, rule Cons.prems) simp
  moreover have "collect_columns e out = collect_columns e {} \<union> out" by (rule Cons.prems) simp
  ultimately show ?case by (simp only: fold_simps list.set UN_insert) blast
qed simp

lemma collect_columns_union: "collect_columns e out = collect_columns e {} \<union> out"
proof (induction e arbitrary: out)
  case (Expr_And es)
  note fold = fold_collect [of es, OF Expr_And.IH]
  show ?case by (simp only: collect_columns.simps fold [of out] fold [of "{}"] sup_bot_right)
next
  case (Expr_Or es)
  note fold = fold_collect [of es, OF Expr_Or.IH]
  show ?case by (simp only: collect_columns.simps fold [of out] fold [of "{}"] sup_bot_right)
next
  case (Expr_Not e)
  show ?case by (simp only: collect_columns.simps) (rule Expr_Not.IH)
qed auto

lemma expr_columns_parts:
  "expr_columns (Expr_And es) = (\<Union>e\<in>set es. expr_columns e)"
  "expr_columns (Expr_Or es) = (\<Union>e\<in>set es. expr_columns e)"
  "expr_columns (Expr_Not e) = expr_columns e"
  using fold_collect [OF collect_columns_union, of es "{}"] by (simp_all add: expr_columns_def)

lemma evaluate_agree:
  "(\<And>i. i \<in> expr_columns e \<Longrightarrow> row i = row' i) \<Longrightarrow> evaluate_over env row e = evaluate_over env row' e"
proof (induction e)
  case (Expr_And es)
  then have "map (evaluate_over env row) es = map (evaluate_over env row') es"
    by (auto simp: expr_columns_parts)
  then show ?case by (simp only: evaluate_over.simps)
next
  case (Expr_Or es)
  then have "map (evaluate_over env row) es = map (evaluate_over env row') es"
    by (auto simp: expr_columns_parts)
  then show ?case by (simp only: evaluate_over.simps)
next
  case (Expr_Not e)
  then show ?case by (simp add: expr_columns_parts)
qed (auto simp: expr_columns_def)

section \<open>Preparing a predicate\<close>

text \<open>The values of the lists a predicate holds are values the types allow.\<close>

fun expr_wf :: "Expr \<Rightarrow> bool" where
  "expr_wf (Expr_Compare _ _ v) = wf_value v"
| "expr_wf (Expr_In _ vs) = list_all wf_value vs"
| "expr_wf (Expr_InSorted _ vs _) = list_all wf_value vs"
| "expr_wf (Expr_And parts) = list_all expr_wf parts"
| "expr_wf (Expr_Or parts) = list_all expr_wf parts"
| "expr_wf (Expr_Not inner) = expr_wf inner"
| "expr_wf _ = True"

lemma in_sorted_lookup:
  assumes "list_all wf_value vs" and "wf_value v" and "v \<noteq> Null"
  shows "binary_search value_cmp (dedup_by value_eq (sort_by value_cmp (filter (\<lambda>v. \<not> is_null v) vs))) v \<longleftrightarrow>
    list_ex (\<lambda>x. \<not> is_null x \<and> value_eq x v) vs"
proof -
  have "list_all wf_value (filter (\<lambda>v. \<not> is_null v) vs)" using assms(1) by (auto simp: list_all_iff)
  from asc.total.lookup_arranged [OF this assms(2)] show ?thesis
    by (auto simp: value_eq_def [abs_def] list_ex_iff)
qed

lemma evaluate_prepared:
  assumes "\<And>i v. row i = Some v \<Longrightarrow> wf_value v"
  shows "expr_wf e \<Longrightarrow> evaluate_over env row (prepared e) = evaluate_over env row e"
proof (induction e rule: prepared.induct)
  case (1 c vs)
  show ?case
  proof (cases "row c")
    case (Some v)
    then show ?thesis using 1 assms [OF Some] in_sorted_lookup [of vs v] by (simp add: Let_def)
  qed (simp add: Let_def)
next
  case (2 parts)
  then have "map (evaluate_over env row) (map prepared parts) = map (evaluate_over env row) parts"
    by (auto simp: list_all_iff)
  then show ?case by (simp only: prepared.simps evaluate_over.simps)
next
  case (3 parts)
  then have "map (evaluate_over env row) (map prepared parts) = map (evaluate_over env row) parts"
    by (auto simp: list_all_iff)
  then show ?case by (simp only: prepared.simps evaluate_over.simps)
qed simp_all

section \<open>What is unknown stays open\<close>

fun tests_null :: "Expr \<Rightarrow> bool" where
  "tests_null (Expr_IsNull _ _) = True"
| "tests_null (Expr_And parts) = list_ex tests_null parts"
| "tests_null (Expr_Or parts) = list_ex tests_null parts"
| "tests_null (Expr_Not inner) = tests_null inner"
| "tests_null _ = False"

text \<open>A row that agrees with another wherever that one has a value.\<close>

definition fills :: "(Ordinal \<Rightarrow> Value option) \<Rightarrow> (Ordinal \<Rightarrow> Value option) \<Rightarrow> bool" where
  "fills row row' \<longleftrightarrow> (\<forall>i v. row i = Some v \<longrightarrow> v \<noteq> Null \<longrightarrow> row' i = Some v)"

lemma evaluate_fills:
  assumes "fills row row'"
  shows "\<not> tests_null e \<Longrightarrow> evaluate_over env row e \<noteq> Truth_Unknown \<Longrightarrow>
    evaluate_over env row' e = evaluate_over env row e"
proof (induction e)
  case (Expr_Compare c oper v)
  then show ?case using assms by (cases "row c") (auto simp: fills_def split: if_splits)
next
  case (Expr_CompareColumns l oper r)
  then show ?case using assms by (cases "row l"; cases "row r") (auto simp: fills_def split: if_splits)
next
  case (Expr_Like c p n i)
  then obtain str where "row c = Some (Str str)" by (auto split: option.splits Value.splits)
  then show ?case using assms by (simp add: fills_def)
next
  case (Expr_Matches c p n i)
  then obtain str where "row c = Some (Str str)" by (auto split: option.splits Value.splits)
  then show ?case using assms by (simp add: fills_def)
next
  case (Expr_Contains c terms)
  then obtain str where "row c = Some (Str str)" by (auto split: option.splits Value.splits)
  then show ?case using assms by (simp add: fills_def)
next
  case (Expr_In c vs)
  then show ?case using assms by (cases "row c") (auto simp: fills_def split: if_splits)
next
  case (Expr_InSorted c vs any_null)
  then show ?case using assms by (cases "row c") (auto simp: fills_def split: if_splits)
next
  case (Expr_And es)
  have same: "evaluate_over env row' e = evaluate_over env row e"
    if "e \<in> set es" "evaluate_over env row e \<noteq> Truth_Unknown" for e
    using Expr_And that by (auto simp: list_ex_iff)
  show ?case
  proof (cases "\<exists>e\<in>set es. evaluate_over env row e = Truth_False")
    case True
    then obtain e where e: "e \<in> set es" "evaluate_over env row e = Truth_False" by blast
    then have "evaluate_over env row' e = Truth_False" using same [of e] by simp
    with e have "Truth_False \<in> evaluate_over env row ` set es" "Truth_False \<in> evaluate_over env row' ` set es"
      by (metis image_eqI)+
    then show ?thesis by (simp add: and_loop_iff)
  next
    case False
    then have "evaluate_over env row e \<noteq> Truth_Unknown" if "e \<in> set es" for e
      using Expr_And.prems(2) that by (auto simp: and_loop_iff image_iff split: if_splits)
    then have "map (evaluate_over env row') es = map (evaluate_over env row) es" using same by simp
    then show ?thesis by (simp only: evaluate_over.simps)
  qed
next
  case (Expr_Or es)
  have same: "evaluate_over env row' e = evaluate_over env row e"
    if "e \<in> set es" "evaluate_over env row e \<noteq> Truth_Unknown" for e
    using Expr_Or that by (auto simp: list_ex_iff)
  show ?case
  proof (cases "\<exists>e\<in>set es. evaluate_over env row e = Truth_True")
    case True
    then obtain e where e: "e \<in> set es" "evaluate_over env row e = Truth_True" by blast
    then have "evaluate_over env row' e = Truth_True" using same [of e] by simp
    with e have "Truth_True \<in> evaluate_over env row ` set es" "Truth_True \<in> evaluate_over env row' ` set es"
      by (metis image_eqI)+
    then show ?thesis by (simp add: or_loop_iff)
  next
    case False
    then have "evaluate_over env row e \<noteq> Truth_Unknown" if "e \<in> set es" for e
      using Expr_Or.prems(2) that by (auto simp: or_loop_iff image_iff split: if_splits)
    then have "map (evaluate_over env row') es = map (evaluate_over env row) es" using same by simp
    then show ?thesis by (simp only: evaluate_over.simps)
  qed
next
  case (Expr_Not e)
  then show ?case by (cases "evaluate_over env row e") auto
qed simp_all

section \<open>The pattern cache\<close>

text \<open>Maps that hold only what the engine compiles in their own case mode, each pattern once.\<close>

definition cache_ok :: "Env \<Rightarrow> Patterns \<Rightarrow> bool" where
  "cache_ok env ps \<longleftrightarrow>
     (\<forall>insensitive. let cache = patterns_of insensitive ps in
        distinct (map fst cache) \<and> length cache \<le> PATTERN_CACHE \<and>
        (\<forall>(p, compiled)\<in>set cache. env_regex env p insensitive = Inr compiled))"

lemma patterns_of_set:
  "patterns_of i (set_patterns j cache ps) = (if i = j then cache else patterns_of i ps)"
  by (simp add: patterns_of_def set_patterns_def)

lemma compile_result:
  assumes "cache_ok env ps"
  shows "fst (compile env pattern insensitive ps) = env_regex env pattern insensitive \<and>
    cache_ok env (snd (compile env pattern insensitive ps)) \<and>
    patterns_of (\<not> insensitive) (snd (compile env pattern insensitive ps)) = patterns_of (\<not> insensitive) ps"
proof (cases "map_of (patterns_of insensitive ps) pattern")
  case (Some found)
  then have "(pattern, found) \<in> set (patterns_of insensitive ps)" by (rule map_of_SomeD)
  then have "env_regex env pattern insensitive = Inr found" using assms unfolding cache_ok_def Let_def by blast
  then show ?thesis using assms Some by (simp add: compile_def)
next
  case None
  then have new: "pattern \<notin> fst ` set (patterns_of insensitive ps)" by (simp add: map_of_eq_None_iff)
  show ?thesis
  proof (cases "env_regex env pattern insensitive")
    case (Inl e)
    then show ?thesis using assms None by (simp add: compile_def)
  next
    case (Inr compiled)
    let ?cache = "if PATTERN_CACHE \<le> length (patterns_of insensitive ps) then [] else patterns_of insensitive ps"
    have "compile env pattern insensitive ps = (Inr compiled, set_patterns insensitive ((pattern, compiled) # ?cache) ps)"
      using None Inr by (simp add: compile_def Let_def)
    moreover have "cache_ok env (set_patterns insensitive ((pattern, compiled) # ?cache) ps)"
      using assms new Inr by (auto simp: cache_ok_def patterns_of_set Let_def PATTERN_CACHE_def)
    ultimately show ?thesis using Inr by (simp add: patterns_of_set)
  qed
qed

lemma compiled_after_ok: "cache_ok env ps \<Longrightarrow> cache_ok env (compiled_after env calls ps)"
  by (induction env calls ps rule: compiled_after.induct) (simp_all add: compile_result)

section \<open>Properties\<close>

text \<open>Conjoining predicates, which is how a policy reaches every query, means what conjunction
  means: the simplifying conjunction of two predicates, of a list, and the list of a predicate's
  conjuncts all evaluate like the plain conjunction of their parts, unknown results included, so a
  row passes exactly when it passes every part.\<close>

theorem conjunction_exact:
  "evaluate_over env row (expr_and a b) = evaluate_over env row (Expr_And [a, b]) \<and>
   evaluate_over env row (expr_all es) = evaluate_over env row (Expr_And es) \<and>
   evaluate_over env row a = evaluate_over env row (Expr_And (conjuncts a)) \<and>
   (expr_admits env (expr_and a b) r = (expr_admits env a r \<and> expr_admits env b r)) \<and>
   (expr_admits env (Expr_And es) r = list_all (\<lambda>e. expr_admits env e r) es) \<and>
   (expr_admits env (Expr_Or es) r = list_ex (\<lambda>e. expr_admits env e r) es)"
proof (intro conjI)
  show "evaluate_over env row a = evaluate_over env row (Expr_And (conjuncts a))"
    by (simp only: evaluate_over.simps) (rule evaluate_conjuncts)
  show "(expr_admits env (expr_and a b) r = (expr_admits env a r \<and> expr_admits env b r))"
    by (cases "evaluate_over env (get r) a"; cases "evaluate_over env (get r) b")
      (simp_all add: expr_admits_def evaluate_def evaluate_expr_and)
  show "expr_admits env (Expr_And es) r = list_all (\<lambda>e. expr_admits env e r) es"
    by (auto simp: expr_admits_def evaluate_def and_loop_iff truth_admits_iff list_all_iff image_iff)
      (metis Truth.exhaust Truth.distinct)+
  show "expr_admits env (Expr_Or es) r = list_ex (\<lambda>e. expr_admits env e r) es"
    by (auto simp: expr_admits_def evaluate_def or_loop_iff truth_admits_iff list_ex_iff image_iff)
      (metis Truth.exhaust Truth.distinct)+
qed (simp_all only: evaluate_over.simps evaluate_expr_and evaluate_expr_all list.map)

text \<open>C31. Preparing a predicate for repeated evaluation changes no answer: a long \<open>IN\<close> list sorted,
  deduplicated, stripped of its nulls and searched by bisection gives on every row the result, true,
  false or unknown, of scanning the list.\<close>

theorem prepared_equivalent:
  assumes "expr_wf e" and "list_all wf_value row"
  shows "evaluate env (prepared e) row = evaluate env e row"
  unfolding evaluate_def using assms by (intro evaluate_prepared) (auto simp: list_all_length)

definition no_tables :: Env where
  "no_tables =
     \<lparr>env_unicode = \<lparr>is_alphanumeric = (\<lambda>c. 0x30 \<le> c \<and> c < 0x80), to_lowercase = id\<rparr>,
      env_regex = (\<lambda>_ _. Inl ''no engine'')\<rparr>"

theorem prepared_equivalent_witness:
  "evaluate no_tables (prepared (Expr_In 0 (Null # map (\<lambda>i. I64 (of_nat (20 - i))) [0..<20]))) [U64 7] = Truth_True"
proof -
  let ?e = "Expr_In 0 (Null # map (\<lambda>i. I64 (of_nat (20 - i))) [0..<20])"
  have "evaluate no_tables ?e [U64 7] = Truth_True" by code_simp
  moreover have "expr_wf ?e" by (simp add: list_all_iff)
  ultimately show ?thesis using prepared_equivalent [of ?e "[U64 7]" no_tables] by simp
qed

text \<open>C32. A null never decides a predicate that does not ask about nulls: whenever such a predicate
  is true, or false, on a row with nulls or missing columns, it has the same result however those are
  filled in. In particular the negation of a comparison never admits a row on the strength of a null,
  which is what a policy that denies by comparison rests on.\<close>

theorem nulls_never_decide:
  assumes "fills row row'" and "\<not> tests_null e"
    and "evaluate_over env row e \<noteq> Truth_Unknown"
  shows "evaluate_over env row' e = evaluate_over env row e"
  using evaluate_fills [OF assms(1)] assms(2,3) by blast

theorem nulls_never_decide_witness:
  "evaluate_over no_tables (get [U64 4, Null]) (Expr_Not (expr_eq 1 (U64 1))) = Truth_Unknown \<and>
   evaluate_over no_tables (get [U64 4, U64 1]) (Expr_Or [expr_eq 0 (U64 4), expr_eq 1 (U64 2)]) = Truth_True"
proof -
  have "fills (get [U64 4, Null]) (get [U64 4, U64 1])"
    by (auto simp: fills_def less_Suc_eq nth_Cons')
  moreover have "evaluate_over no_tables (get [U64 4, Null]) (Expr_Or [expr_eq 0 (U64 4), expr_eq 1 (U64 2)]) = Truth_True"
    by code_simp
  ultimately show ?thesis
    using nulls_never_decide [of "get [U64 4, Null]" "get [U64 4, U64 1]" "Expr_Or [expr_eq 0 (U64 4), expr_eq 1 (U64 2)]" no_tables]
    by (simp add: expr_eq_def)
qed

text \<open>A predicate reads only the columns it lists: rows that agree on those give the same result,
  and renumbering its columns gives the predicate over the renumbered row.\<close>

theorem columns_suffice:
  assumes "\<forall>i\<in>expr_columns e. row i = row' i"
  shows "evaluate_over env row e = evaluate_over env row' e \<and>
    evaluate_over env row'' (map_columns f e) = evaluate_over env (\<lambda>i. row'' (f i)) e"
  using assms evaluate_agree [of e row row'] evaluate_map_columns by metis

theorem columns_suffice_witness:
  "evaluate_over no_tables (get [U64 4, Null]) (expr_eq 0 (U64 4)) =
   evaluate_over no_tables (get [U64 4, Bool True]) (expr_eq 0 (U64 4))"
  using columns_suffice [of "expr_eq 0 (U64 4)" "get [U64 4, Null]" "get [U64 4, Bool True]"]
  by (simp add: expr_columns_def expr_eq_def)

text \<open>C34. The cache of compiled patterns is transparent and bounded. Whatever patterns a thread has asked
  for before, in either case mode, asking for a pattern answers what the engine compiles it to in the
  case mode asked for, an error of the engine included, touches the map of that mode alone, and leaves
  at most 64 patterns in each map.\<close>

theorem compile_cached:
  "let ps = compiled_after env calls Patterns_new
   in \<exists>ps'. compile env pattern insensitive ps = (env_regex env pattern insensitive, ps') \<and>
        patterns_of (\<not> insensitive) ps' = patterns_of (\<not> insensitive) ps \<and>
        length (SENSITIVE ps') \<le> 64 \<and> length (INSENSITIVE ps') \<le> 64"
proof -
  let ?ps = "compiled_after env calls Patterns_new"
  have "cache_ok env Patterns_new" by (simp add: cache_ok_def patterns_of_def Patterns_new_def)
  then have "cache_ok env ?ps" by (rule compiled_after_ok)
  note step = compile_result [OF this, of pattern insensitive]
  let ?ps' = "snd (compile env pattern insensitive ?ps)"
  have "length (patterns_of i ?ps') \<le> 64" for i using step by (simp add: cache_ok_def Let_def PATTERN_CACHE_def)
  from this [of False] this [of True] show ?thesis
    unfolding Let_def using step by (intro exI [of _ ?ps']) (simp add: patterns_of_def prod_eq_iff)
qed

text \<open>A pattern asked for in both case modes, then again: the second answers come from the maps.\<close>

definition two_modes :: Env where
  "two_modes = no_tables\<lparr>env_regex := (\<lambda>p insensitive. Inr (\<lambda>s. s = p \<or> insensitive \<and> s = [0x41]))\<rparr>"

theorem compile_cached_witness:
  "let ps = compiled_after two_modes [([0x61], False), ([0x61], True)] Patterns_new
   in map fst (SENSITIVE ps) = [[0x61]] \<and> map fst (INSENSITIVE ps) = [[0x61]] \<and>
      (\<exists>matcher. compile two_modes [0x61] False ps = (Inr matcher, ps) \<and> \<not> matcher [0x41]) \<and>
      (\<exists>matcher. compile two_modes [0x61] True ps = (Inr matcher, ps) \<and> matcher [0x41])"
proof -
  let ?calls = "[([0x61], False), ([0x61], True)]"
  let ?ps = "compiled_after two_modes ?calls Patterns_new"
  have held: "map fst (SENSITIVE ?ps) = [[0x61]]" "map fst (INSENSITIVE ?ps) = [[0x61]]"
    by (simp_all add: compile_def patterns_of_def set_patterns_def Patterns_new_def two_modes_def PATTERN_CACHE_def)
  have hit: "snd (compile two_modes [0x61] i ?ps) = ?ps" for i
    by (cases i) (simp_all add: compile_def patterns_of_def set_patterns_def Patterns_new_def two_modes_def PATTERN_CACHE_def)
  have "\<exists>matcher. compile two_modes [0x61] i ?ps = (Inr matcher, ?ps) \<and> matcher [0x41] = i" for i
    using compile_cached [of two_modes ?calls "[0x61]" i, unfolded Let_def] hit [of i] by (auto simp: two_modes_def)
  from this [of False] this [of True] show ?thesis unfolding Let_def using held by auto
qed

end
