(* ===== verification/Row_Keys.thy ===== *)
theory Row_Keys
  imports Keyspace
begin

text \<open>
  The keys of a valid row: its primary key fits the table's key, and the values each index keys it
  by are values an entry can have. What the schema layer checks is exactly what the key space needs.
\<close>

text \<open>What the code relies on from Unicode lowercasing: it maps scalar values to scalar values, as a
  function from strings to strings must.\<close>

definition unicode_ok :: "Unicode \<Rightarrow> bool" where
  "unicode_ok u \<longleftrightarrow> (\<forall>cs. list_all is_scalar cs \<longrightarrow> list_all is_scalar (to_lowercase u cs))"

text \<open>The values of an expression index are computed by user code; what is asked of it is that it
  returns a value the types allow.\<close>

definition computed_wf :: "TableDef \<Rightarrow> Row \<Rightarrow> bool" where
  "computed_wf t row \<longleftrightarrow>
     (\<forall>ix\<in>set (td_indexes t). \<forall>e. ix_expression ix = Some e \<longrightarrow> wf_value (ie_compute e row))"

definition row_ok :: "TableDef \<Rightarrow> Row \<Rightarrow> bool" where
  "row_ok t row \<longleftrightarrow> row_valid t row \<and> list_all wf_value row \<and> computed_wf t row"

lemma key_column_live:
  assumes "table_ok t" and "i \<in> set (td_primary_key t)"
  shows "i < length (td_columns t) \<and> \<not> is_dropped (td_columns t ! i) \<and> \<not> col_nullable (td_columns t ! i)"
  using assms by (auto simp: table_ok_def Let_def key_ok_def keyable_def live_column_def)

lemma row_ok_length: "row_ok t row \<Longrightarrow> length row = length (td_columns t)"
  by (simp add: row_ok_def row_valid_def)

lemma row_ok_fits:
  assumes "table_ok t" and "row_ok t row" and "i < length (td_columns t)" and "\<not> is_dropped (td_columns t ! i)"
  shows "fits (col_ty (td_columns t ! i)) (row ! i)"
proof -
  have "column_ok (td_schema_version t) (td_columns t ! i)"
    using assms(1,3) by (simp add: table_ok_def Let_def)
  moreover have "column_accepts (td_columns t ! i) (row ! i)" "wf_value (row ! i)"
    using assms(2,3) by (auto simp: row_ok_def row_valid_def list_all_length)
  ultimately show ?thesis using assms(4) by (intro column_accepts_fits)
qed

lemma row_key_fits:
  assumes "table_ok t" and "row_ok t row"
  shows "key_fits t (primary_key_values row t) \<and> primary_key_values row t \<noteq> []"
proof -
  have "fits (case get (td_columns t) i of None \<Rightarrow> TBytes | Some c \<Rightarrow> col_ty c) (value_or_null row i)"
    if "i \<in> set (td_primary_key t)" for i
    using row_ok_fits [OF assms] key_column_live [OF assms(1) that] row_ok_length [OF assms(2)]
    by (simp add: value_or_null_less)
  moreover have "td_primary_key t \<noteq> []" using assms(1) by (simp add: table_ok_def Let_def key_ok_def)
  ultimately show ?thesis
    by (simp add: key_fits_def primary_key_types_def key_types_def primary_key_values_def project_def
        list_all2_conv_all_nth)
qed

lemma row_key_nonnull:
  assumes "table_ok t" and "row_ok t row"
  shows "Null \<notin> set (primary_key_values row t)"
proof -
  have "row ! i \<noteq> Null" if "i \<in> set (td_primary_key t)" for i
    using assms(2) key_column_live [OF assms(1) that]
    by (auto simp: row_ok_def row_valid_def column_accepts_def split: if_splits)
  then show ?thesis
    using key_column_live [OF assms(1)] row_ok_length [OF assms(2)]
    by (auto simp: primary_key_values_def project_def value_or_null_less image_iff) metis
qed

lemma hd_tenant:
  assumes "table_ok t" and "row_ok t row" and "td_tenant_column t = Some c"
  shows "hd (primary_key_values row t) = row ! c \<and> c < length row"
proof -
  have "hd (td_primary_key t) = c" "td_primary_key t \<noteq> []"
    using assms(1,3) by (auto simp: table_ok_def Let_def key_ok_def)
  then have "c \<in> set (td_primary_key t)" "hd (primary_key_values row t) = value_or_null row c"
    by (auto simp: primary_key_values_def project_def hd_map)
  then show ?thesis
    using key_column_live [OF assms(1)] row_ok_length [OF assms(2)] by (simp add: value_or_null_less)
qed

lemma tokenize_utf8: "unicode_ok u \<Longrightarrow> from_utf8 s \<Longrightarrow> w \<in> set (tokenize u s) \<Longrightarrow> from_utf8 w"
proof -
  assume u: "unicode_ok u" and s: "from_utf8 s" and "w \<in> set (tokenize u s)"
  then obtain p where p: "run_of (\<lambda>c. \<not> is_alphanumeric u c) (chars s) p" "w = utf8_encode (to_lowercase u p)"
    using split_run_of by (auto simp: tokenize_def Let_def)
  then have "set p \<subseteq> set (chars s)" by (auto simp: run_of_def)
  then have "list_all is_scalar p" using utf8_encode_chars [OF s] by (auto simp: list_all_iff)
  then show "from_utf8 w" using u p(2) chars_utf8_encode by (simp add: unicode_ok_def)
qed

lemma key_sets_entry:
  assumes "table_ok t" and "row_ok t row" and "unicode_ok u" and "ix \<in> set (td_indexes t)"
    and "vs \<in> set (key_sets u ix row)"
  shows "entry_values ix vs"
proof -
  have ixok: "index_ok (td_columns t) ix" using assms(1,4) by (simp add: table_ok_def Let_def)
  have wf: "wf_value (value_or_null row i)" for i
    using assms(2) by (auto simp: row_ok_def list_all_length value_or_null_def get_def)
  show ?thesis
  proof (cases "ix_text ix")
    case False
    then show ?thesis
      using assms(2,4,5) wf
      by (auto simp: key_sets_def key_values_def index_values_def entry_values_def key_directions_def
          row_ok_def computed_wf_def list_all_iff split: option.splits)
  next
    case True
    then obtain c where c: "ix_columns ix = [c]" "ix_expression ix = None"
      using ixok by (auto simp: index_ok_def)
    then obtain s w where s: "get row (ic_ordinal c) = Some (Str s)" "w \<in> set (tokenize u s)" "vs = [Str w]"
      using assms(5) True
      by (cases "get row (ic_ordinal c)") (auto simp: key_sets_def simp del: get_eq_Some split: Value.splits)
    have "from_utf8 s" using wf [of "ic_ordinal c"] s(1) by (simp add: value_or_null_def del: get_eq_Some)
    then show ?thesis using tokenize_utf8 [OF assms(3)] s c by (simp add: entry_values_def key_directions_def)
  qed
qed

end
