(* ===== verification/Security.thy ===== *)
theory Security
  imports Predicate_Expr Row_Keys
begin

text \<open>
  Row-level security and role-based access control, \<open>crates/slate-kernel/src/security.rs\<close>: grants,
  policies, the columns a caller may read, and the mandatory predicate that every read and write
  carries. A policy's predicate is a function of the caller's context, as in the source; sets of
  roles, actions and ordinals are sets, and iterating over one goes in ascending order.
\<close>

section \<open>Actions, principals and contexts\<close>

datatype Action = Read | Insert | Update | Delete | Explain | ReadDeleted

definition Action_ALL :: "Action list" where
  "Action_ALL = [Read, Insert, Update, Delete]"

definition Action_EVERYTHING :: "Action list" where
  "Action_EVERYTHING = [Read, Insert, Update, Delete, Explain, ReadDeleted]"

fun action_name :: "Action \<Rightarrow> string" where
  "action_name ReadDeleted = ''read_deleted''"
| "action_name Read = ''read''"
| "action_name Insert = ''insert''"
| "action_name Update = ''update''"
| "action_name Delete = ''delete''"
| "action_name Explain = ''explain''"

record Principal =
  pr_id :: Value
  pr_tenant :: "Value option"
  pr_roles :: "string set"

definition Principal_new :: "Value \<Rightarrow> Principal" where
  "Principal_new i = \<lparr>pr_id = i, pr_tenant = None, pr_roles = {}\<rparr>"

definition with_tenant :: "Value \<Rightarrow> Principal \<Rightarrow> Principal" where
  "with_tenant tenant p = p\<lparr>pr_tenant := Some tenant\<rparr>"

definition with_role :: "string \<Rightarrow> Principal \<Rightarrow> Principal" where
  "with_role role p = p\<lparr>pr_roles := insert role (pr_roles p)\<rparr>"

record SecurityContext =
  ctx_principal :: Principal
  ctx_bypass :: bool

definition SecurityContext_new :: "Principal \<Rightarrow> SecurityContext" where
  "SecurityContext_new p = \<lparr>ctx_principal = p, ctx_bypass = False\<rparr>"

definition superuser :: SecurityContext where
  "superuser = \<lparr>ctx_principal = Principal_new Null, ctx_bypass = True\<rparr>"

definition is_superuser :: "SecurityContext \<Rightarrow> bool" where
  "is_superuser ctx = ctx_bypass ctx"

section \<open>Policies and grants\<close>

record Policy =
  po_name :: string
  po_table :: TableId
  po_actions :: "Action set"
  po_roles :: "string set"
  po_predicate :: "SecurityContext \<Rightarrow> Expr"

definition Policy_new :: "string \<Rightarrow> TableId \<Rightarrow> Action list \<Rightarrow> (SecurityContext \<Rightarrow> Expr) \<Rightarrow> Policy" where
  "Policy_new n t actions p =
     \<lparr>po_name = n, po_table = t, po_actions = set actions, po_roles = {}, po_predicate = p\<rparr>"

definition for_role :: "string \<Rightarrow> Policy \<Rightarrow> Policy" where
  "for_role role p = p\<lparr>po_roles := insert role (po_roles p)\<rparr>"

definition applies_to :: "Policy \<Rightarrow> SecurityContext \<Rightarrow> TableId \<Rightarrow> Action \<Rightarrow> bool" where
  "applies_to p ctx t action \<longleftrightarrow>
     po_table p = t \<and> action \<in> po_actions p \<and>
     (po_roles p = {} \<or> (\<exists>r\<in>po_roles p. r \<in> pr_roles (ctx_principal ctx)))"

record Grant =
  gr_role :: string
  gr_table :: TableId
  gr_actions :: "Action set"
  gr_columns :: "Ordinal set option"

definition Grant_new :: "string \<Rightarrow> TableId \<Rightarrow> Action list \<Rightarrow> Grant" where
  "Grant_new role t actions =
     \<lparr>gr_role = role, gr_table = t, gr_actions = set actions, gr_columns = None\<rparr>"

definition read_columns :: "string \<Rightarrow> TableDef \<Rightarrow> Ordinal list \<Rightarrow> KernelError + Grant" where
  "read_columns role t os =
     (let columns = set os in
      case find (\<lambda>c. length (td_columns t) \<le> c) (sorted_list_of_set columns) of
        Some stray \<Rightarrow> Inl (InvalidGrant (td_name t) (StrayColumn stray))
      | None \<Rightarrow>
          (case find (\<lambda>k. k \<notin> columns) (td_primary_key t) of
             Some key \<Rightarrow>
               let name = (case get (td_columns t) key of None \<Rightarrow> ''?'' | Some c \<Rightarrow> col_name c)
               in Inl (InvalidGrant (td_name t) (KeyColumnMissing name))
           | None \<Rightarrow>
               Inr \<lparr>gr_role = role, gr_table = td_id t, gr_actions = {Read}, gr_columns = Some columns\<rparr>))"

record SecurityCatalog =
  sc_grants :: "Grant list"
  sc_policies :: "Policy list"
  sc_rls_enabled :: "TableId \<Rightarrow> bool option"

datatype Deleted = Hidden | Visible

definition SecurityCatalog_new :: SecurityCatalog where
  "SecurityCatalog_new = \<lparr>sc_grants = [], sc_policies = [], sc_rls_enabled = Map.empty\<rparr>"

definition add_grant :: "Grant \<Rightarrow> SecurityCatalog \<Rightarrow> SecurityCatalog" where
  "add_grant g s = s\<lparr>sc_grants := sc_grants s @ [g]\<rparr>"

definition add_policy :: "Policy \<Rightarrow> SecurityCatalog \<Rightarrow> SecurityCatalog" where
  "add_policy p s =
     s\<lparr>sc_rls_enabled := (sc_rls_enabled s)(po_table p \<mapsto> True), sc_policies := sc_policies s @ [p]\<rparr>"

definition enable_rls :: "TableId \<Rightarrow> SecurityCatalog \<Rightarrow> SecurityCatalog" where
  "enable_rls t s =
     (case sc_rls_enabled s t of
        Some _ \<Rightarrow> s
      | None \<Rightarrow> s\<lparr>sc_rls_enabled := (sc_rls_enabled s)(t \<mapsto> True)\<rparr>)"

section \<open>What a caller may do and read\<close>

definition grants :: "SecurityCatalog \<Rightarrow> SecurityContext \<Rightarrow> TableDef \<Rightarrow> Action \<Rightarrow> bool" where
  "grants s ctx t action \<longleftrightarrow>
     is_superuser ctx \<or>
     list_ex (\<lambda>g. gr_table g = td_id t \<and> action \<in> gr_actions g \<and> gr_role g \<in> pr_roles (ctx_principal ctx))
       (sc_grants s)"

definition authorize :: "SecurityCatalog \<Rightarrow> SecurityContext \<Rightarrow> TableDef \<Rightarrow> Action \<Rightarrow> KernelError + unit" where
  "authorize s ctx t action =
     (if grants s ctx t action then Inr () else Inl (AccessDenied (td_name t) (action_name action)))"

text \<open>The loop over the caller's read grants: \<open>None\<close> when it returns at a table-level one.\<close>

fun readable_loop :: "Ordinal set \<Rightarrow> bool \<Rightarrow> Grant list \<Rightarrow> (Ordinal set \<times> bool) option" where
  "readable_loop columns narrowed [] = Some (columns, narrowed)"
| "readable_loop columns narrowed (g # gs) =
     (case gr_columns g of
        None \<Rightarrow> None
      | Some some \<Rightarrow> readable_loop (columns \<union> some) True gs)"

definition readable :: "SecurityCatalog \<Rightarrow> SecurityContext \<Rightarrow> TableDef \<Rightarrow> Ordinal set option" where
  "readable s ctx t =
     (if is_superuser ctx then None
      else
        case readable_loop {} False
               (filter (\<lambda>g. gr_table g = td_id t \<and> Read \<in> gr_actions g \<and>
                            gr_role g \<in> pr_roles (ctx_principal ctx)) (sc_grants s)) of
          None \<Rightarrow> None
        | Some (columns, narrowed) \<Rightarrow>
            if \<not> narrowed then None
            else if card columns = length (td_columns t) then None
            else Some columns)"

definition concealed :: "SecurityCatalog \<Rightarrow> SecurityContext \<Rightarrow> TableDef \<Rightarrow> Ordinal list" where
  "concealed s ctx t =
     (case readable s ctx t of
        None \<Rightarrow> []
      | Some cols \<Rightarrow> filter (\<lambda>c. c \<notin> cols) [0..<length (td_columns t)])"

definition require_every_column ::
  "SecurityCatalog \<Rightarrow> SecurityContext \<Rightarrow> TableDef \<Rightarrow> string \<Rightarrow> KernelError + unit" where
  "require_every_column s ctx t action =
     (case readable s ctx t of
        None \<Rightarrow> Inr ()
      | Some _ \<Rightarrow> Inl (ColumnsWithheld (td_name t) action))"

section \<open>The mandatory predicate\<close>

definition tenant_filter :: "SecurityContext \<Rightarrow> TableDef \<Rightarrow> KernelError + Expr" where
  "tenant_filter ctx t =
     (case td_tenant_column t of
        None \<Rightarrow> Inr Expr_True
      | Some tenant_column \<Rightarrow>
          (case pr_tenant (ctx_principal ctx) of
             None \<Rightarrow> Inl (TenantRequired (td_name t))
           | Some tenant \<Rightarrow> Inr (expr_eq tenant_column tenant)))"

definition row_filter_with ::
  "SecurityCatalog \<Rightarrow> SecurityContext \<Rightarrow> TableDef \<Rightarrow> Action \<Rightarrow> Deleted \<Rightarrow> KernelError + Expr" where
  "row_filter_with s ctx t action deleted =
     (let not_deleted = (case (deleted, td_soft_delete t) of
                           (Hidden, Some column) \<Rightarrow> Expr_IsNull column False
                         | _ \<Rightarrow> Expr_True) in
      if is_superuser ctx then Inr not_deleted
      else
        rbind (tenant_filter ctx t) (\<lambda>filt.
        let filt =
          (if sc_rls_enabled s (td_id t) = Some True then
             let applicable = filter (\<lambda>p. applies_to p ctx (td_id t) action) (sc_policies s);
                 policy_filter = (if applicable = [] then Expr_False
                                  else Expr_Or (map (\<lambda>p. po_predicate p ctx) applicable))
             in expr_and filt policy_filter
           else filt)
        in Inr (expr_and filt not_deleted)))"

definition row_filter :: "SecurityCatalog \<Rightarrow> SecurityContext \<Rightarrow> TableDef \<Rightarrow> Action \<Rightarrow> KernelError + Expr" where
  "row_filter s ctx t action = row_filter_with s ctx t action Hidden"

definition permits_row_with ::
  "Env \<Rightarrow> SecurityCatalog \<Rightarrow> SecurityContext \<Rightarrow> TableDef \<Rightarrow> Action \<Rightarrow> Row \<Rightarrow> Deleted \<Rightarrow> KernelError + bool" where
  "permits_row_with env s ctx t action row deleted =
     rbind (row_filter_with s ctx t action deleted) (\<lambda>filt. Inr (expr_admits env filt row))"

definition permits_row ::
  "Env \<Rightarrow> SecurityCatalog \<Rightarrow> SecurityContext \<Rightarrow> TableDef \<Rightarrow> Action \<Rightarrow> Row \<Rightarrow> KernelError + bool" where
  "permits_row env s ctx t action row = permits_row_with env s ctx t action row Hidden"

section \<open>What the predicate admits\<close>

text \<open>The specification: who may touch which row.\<close>

definition in_tenant :: "SecurityContext \<Rightarrow> TableDef \<Rightarrow> Row \<Rightarrow> bool" where
  "in_tenant ctx t row \<longleftrightarrow>
     (\<forall>c. td_tenant_column t = Some c \<longrightarrow>
        (\<exists>tenant v. pr_tenant (ctx_principal ctx) = Some tenant \<and> tenant \<noteq> Null \<and>
           get row c = Some v \<and> v \<noteq> Null \<and> value_eq v tenant))"

definition policy_admits ::
  "Env \<Rightarrow> SecurityCatalog \<Rightarrow> SecurityContext \<Rightarrow> TableDef \<Rightarrow> Action \<Rightarrow> Row \<Rightarrow> bool" where
  "policy_admits env s ctx t action row \<longleftrightarrow>
     sc_rls_enabled s (td_id t) \<noteq> Some True \<or>
     (\<exists>p\<in>set (sc_policies s). applies_to p ctx (td_id t) action \<and> expr_admits env (po_predicate p ctx) row)"

definition retired :: "TableDef \<Rightarrow> Row \<Rightarrow> bool" where
  "retired t row \<longleftrightarrow> (\<exists>c v. td_soft_delete t = Some c \<and> get row c = Some v \<and> v \<noteq> Null)"

lemma expr_admits_and: "expr_admits env (expr_and a b) row \<longleftrightarrow> expr_admits env a row \<and> expr_admits env b row"
  by (cases "evaluate_over env (get row) a"; cases "evaluate_over env (get row) b")
    (simp_all add: expr_admits_def evaluate_def evaluate_expr_and)

lemma expr_admits_or: "expr_admits env (Expr_Or es) row \<longleftrightarrow> (\<exists>e\<in>set es. expr_admits env e row)"
  by (auto simp: expr_admits_def evaluate_def or_loop_iff truth_admits_iff image_iff) (metis Truth.exhaust)+

lemma expr_admits_simps [simp]:
  "expr_admits env Expr_True row"
  "\<not> expr_admits env Expr_False row"
  "expr_admits env (Expr_IsNull c False) row \<longleftrightarrow> (\<forall>v. get row c = Some v \<longrightarrow> v = Null)"
  by (auto simp: expr_admits_def evaluate_def truth_admits_iff truth_from_def is_none_or_def get_def)

lemma expr_admits_eq:
  "expr_admits env (expr_eq c v) row \<longleftrightarrow> (\<exists>a. get row c = Some a \<and> a \<noteq> Null \<and> v \<noteq> Null \<and> value_eq a v)"
  by (auto simp: expr_admits_def evaluate_def expr_eq_def truth_admits_iff truth_from_def value_eq_def get_def)

lemma row_filter_Inl:
  "row_filter_with s ctx t action deleted = Inl e \<longleftrightarrow>
     \<not> is_superuser ctx \<and> td_tenant_column t \<noteq> None \<and> pr_tenant (ctx_principal ctx) = None \<and>
     e = TenantRequired (td_name t)"
  by (auto simp: row_filter_with_def tenant_filter_def Let_def split: option.splits)

lemma row_filter_admits:
  assumes "row_filter_with s ctx t action deleted = Inr f"
  shows "expr_admits env f row \<longleftrightarrow>
    (is_superuser ctx \<or> in_tenant ctx t row \<and> policy_admits env s ctx t action row) \<and>
    (deleted = Hidden \<longrightarrow> \<not> retired t row)"
proof -
  let ?nd = "case (deleted, td_soft_delete t) of (Hidden, Some column) \<Rightarrow> Expr_IsNull column False | _ \<Rightarrow> Expr_True"
  have nd: "expr_admits env ?nd row \<longleftrightarrow> (deleted = Hidden \<longrightarrow> \<not> retired t row)"
    by (cases deleted; cases "td_soft_delete t") (auto simp: retired_def)
  show ?thesis
  proof (cases "is_superuser ctx")
    case True
    then show ?thesis using assms nd by (simp add: row_filter_with_def Let_def)
  next
    case False
    then obtain g where g: "tenant_filter ctx t = Inr g"
      using assms by (cases "tenant_filter ctx t") (auto simp: row_filter_with_def Let_def)
    have tenant: "expr_admits env g row \<longleftrightarrow> in_tenant ctx t row"
      using g by (auto simp: tenant_filter_def in_tenant_def expr_admits_eq split: option.splits)
    let ?app = "filter (\<lambda>p. applies_to p ctx (td_id t) action) (sc_policies s)"
    let ?pf = "if ?app = [] then Expr_False else Expr_Or (map (\<lambda>p. po_predicate p ctx) ?app)"
    have policy: "expr_admits env ?pf row \<longleftrightarrow>
        (\<exists>p\<in>set (sc_policies s). applies_to p ctx (td_id t) action \<and> expr_admits env (po_predicate p ctx) row)"
      by (auto simp: expr_admits_or filter_empty_conv)
    show ?thesis
    proof (cases "sc_rls_enabled s (td_id t) = Some True")
      case True
      then have "f = expr_and (expr_and g ?pf) ?nd"
        using assms False g unfolding row_filter_with_def by (simp add: Let_def)
      then show ?thesis
        using False True tenant policy nd by (simp only: expr_admits_and policy_admits_def) blast
    next
      case off: False
      then have "f = expr_and g ?nd" using assms False g unfolding row_filter_with_def by (simp add: Let_def)
      then show ?thesis using False off tenant nd by (simp only: expr_admits_and policy_admits_def) blast
    qed
  qed
qed

section \<open>What column grants conceal\<close>

definition held_reads :: "SecurityCatalog \<Rightarrow> SecurityContext \<Rightarrow> TableDef \<Rightarrow> Grant list" where
  "held_reads s ctx t =
     filter (\<lambda>g. gr_table g = td_id t \<and> Read \<in> gr_actions g \<and> gr_role g \<in> pr_roles (ctx_principal ctx))
       (sc_grants s)"

text \<open>What \<open>Grant::new\<close> and \<open>Grant::read_columns\<close> make: a whole-table grant, or columns of the table
  with its whole key.\<close>

definition grant_ok :: "TableDef \<Rightarrow> Grant \<Rightarrow> bool" where
  "grant_ok t g \<longleftrightarrow>
     (\<forall>cols. gr_columns g = Some cols \<longrightarrow>
        cols \<subseteq> {..<length (td_columns t)} \<and> set (td_primary_key t) \<subseteq> cols)"

lemma read_columns_ok: "read_columns role t os = Inr g \<Longrightarrow> grant_ok t g"
  by (auto simp: read_columns_def grant_ok_def Let_def find_None_iff not_le split: option.splits)

lemma Grant_new_ok: "grant_ok t (Grant_new role i actions)"
  by (simp add: grant_ok_def Grant_new_def)

lemma readable_loop_eq:
  "readable_loop columns narrowed gs =
     (if \<exists>g\<in>set gs. gr_columns g = None then None
      else Some (columns \<union> (\<Union>g\<in>set gs. the (gr_columns g)), narrowed \<or> gs \<noteq> []))"
  by (induction columns narrowed gs rule: readable_loop.induct) (auto split: option.splits)

lemma readable_eq:
  "readable s ctx t =
     (let gs = held_reads s ctx t; cols = (\<Union>g\<in>set gs. the (gr_columns g)) in
      if is_superuser ctx \<or> gs = [] \<or> (\<exists>g\<in>set gs. gr_columns g = None) \<or> card cols = length (td_columns t)
      then None else Some cols)"
  by (simp add: readable_def readable_loop_eq held_reads_def [symmetric] Let_def)

section \<open>Properties\<close>

text \<open>C26. The mandatory predicate decides exactly by the rules: a superuser passes; anyone else only
  rows of their own tenant, on a tenant-scoped table, and, where row-level security is on, only rows
  that a policy applying to their roles and the action admits, so that no policy means no row; a
  retired row passes only where retired rows were asked for, for the superuser too. The only error is
  a caller without a tenant on a tenant-scoped table.\<close>

theorem permits_row_exact:
  "permits_row_with env s ctx t action row deleted =
     (if \<not> is_superuser ctx \<and> td_tenant_column t \<noteq> None \<and> pr_tenant (ctx_principal ctx) = None
      then Inl (TenantRequired (td_name t))
      else Inr ((is_superuser ctx \<or> in_tenant ctx t row \<and> policy_admits env s ctx t action row) \<and>
                (deleted = Visible \<or> \<not> retired t row)))"
proof (cases "row_filter_with s ctx t action deleted")
  case (Inl e)
  then show ?thesis using row_filter_Inl [of s ctx t action deleted e] by (simp add: permits_row_with_def)
next
  case (Inr f)
  then have "\<not> (\<not> is_superuser ctx \<and> td_tenant_column t \<noteq> None \<and> pr_tenant (ctx_principal ctx) = None)"
    using row_filter_Inl [of s ctx t action deleted] by (metis Inl_Inr_False)
  moreover have "(deleted = Hidden \<longrightarrow> \<not> retired t row) \<longleftrightarrow> (deleted = Visible \<or> \<not> retired t row)"
    by (cases deleted) simp_all
  ultimately show ?thesis
    using Inr row_filter_admits [OF Inr, of env row] by (simp add: permits_row_with_def)
qed

definition alice :: SecurityContext where
  "alice = SecurityContext_new (with_role ''app'' (with_tenant (Str [0x61]) (Principal_new (U64 1))))"

theorem permits_row_exact_witness:
  "permits_row_with no_tables (enable_rls 2 SecurityCatalog_new) alice (built child_builder) Read
     [Str [0x61], U64 1, Str [0x62]] Hidden = Inr False"
  using permits_row_exact [of no_tables "enable_rls 2 SecurityCatalog_new" alice "built child_builder" Read
      "[Str [0x61], U64 1, Str [0x62]]" Hidden]
  by (simp add: child_facts policy_admits_def enable_rls_def SecurityCatalog_new_def alice_def
      with_tenant_def with_role_def SecurityContext_new_def Principal_new_def is_superuser_def)

lemma child_row_ok: "row_ok (built child_builder) [Str [0x61], U64 1, Str [0x62]]"
  by (simp add: row_ok_def row_valid_def computed_wf_def built_def child_builder_def on_delete_def build_eval
      column_accepts_def is_dropped_def less_Suc_eq nth_Cons' from_utf8_def utf8_decode.simps cong: build_congs)

text \<open>C27. The tenant restriction is physical: whatever the grants and policies are, a row of a
  tenant-scoped table that a caller's predicate admits has its key inside the range of the caller's
  tenant, and outside the range of every other tenant.\<close>

theorem permitted_rows_in_tenant_range:
  assumes "table_ok t" and "row_ok t row" and "td_tenant_column t = Some c" and "\<not> is_superuser ctx"
    and "pr_tenant (ctx_principal ctx) = Some v" and "wf_value v" and "wf_value w" and "\<not> value_eq w v"
    and "table_tenant_prefix t v = Some p" and "table_tenant_prefix t w = Some q"
    and "permits_row_with env s ctx t action row deleted = Inr True"
  shows "range_contains (KeyRange_prefix p) (row_key t (primary_key_values row t)) \<and>
    \<not> range_contains (KeyRange_prefix q) (row_key t (primary_key_values row t))"
proof -
  have "in_tenant ctx t row"
    using assms(4,11) row_filter_admits [of s ctx t action deleted]
    by (auto simp: permits_row_with_def rbind_eq_Inr)
  moreover note hd_tenant [OF assms(1-3)]
  ultimately have eq: "value_eq (hd (primary_key_values row t)) v" using assms(3,5) by (auto simp: in_tenant_def)
  have pk: "list_all wf_value (primary_key_values row t)" "primary_key_values row t \<noteq> []"
    using row_key_fits [OF assms(1,2)] key_fits_wf by blast+
  then have hd: "wf_value (hd (primary_key_values row t))" by (cases "primary_key_values row t") auto
  have "value_eq v (hd (primary_key_values row t))" "\<not> value_eq w (hd (primary_key_values row t))"
    using eq assms(8) asc.total.eq_sym [OF hd assms(6)] asc.total.eq_left [OF hd assms(6,7)]
      asc.total.eq_sym [OF hd assms(7)] asc.total.eq_sym [OF assms(6,7)]
    by (auto simp: value_eq_def)
  then show ?thesis
    using tenant_row_range [OF assms(9,6) pk] tenant_row_range [OF assms(10,7) pk] by simp
qed

theorem permitted_rows_in_tenant_range_witness:
  "\<not> range_contains (KeyRange_prefix (encode_value_into (table_prefix (built child_builder)) (Str [0x63]) Asc))
      (row_key (built child_builder) (primary_key_values [Str [0x61], U64 1, Str [0x62]] (built child_builder)))"
proof -
  have ctx: "\<not> is_superuser alice" "pr_tenant (ctx_principal alice) = Some (Str [0x61])"
    by (simp_all add: alice_def SecurityContext_new_def is_superuser_def with_role_def with_tenant_def)
  have "value_eq (Str [0x61]) (Str [0x61])" by (simp add: value_eq_def value_cmp.simps cmp_lin_def)
  then have "in_tenant alice (built child_builder) [Str [0x61], U64 1, Str [0x62]]"
    using ctx by (simp add: in_tenant_def child_facts)
  then have "permits_row_with no_tables SecurityCatalog_new alice (built child_builder) Read
      [Str [0x61], U64 1, Str [0x62]] Visible = Inr True"
    using ctx row_filter_admits [of SecurityCatalog_new alice "built child_builder" Read Visible]
      row_filter_Inl [of SecurityCatalog_new alice "built child_builder" Read Visible]
    by (cases "row_filter_with SecurityCatalog_new alice (built child_builder) Read Visible")
      (auto simp: permits_row_with_def policy_admits_def SecurityCatalog_new_def)
  from permitted_rows_in_tenant_range [OF family_ok(2) child_row_ok child_facts(2) ctx _ _ _ _ _ this,
      of "Str [0x63]"]
  show ?thesis
    by (simp add: table_tenant_prefix_def child_facts from_utf8_def utf8_decode.simps value_eq_def
        value_cmp.simps cmp_lin_def)
qed

text \<open>C28. Column grants conceal exactly what no grant shows: a column is withheld from a caller when
  they hold read grants on the table, all of them column grants, and none of them lists the column;
  one table-level grant shows everything, a caller with no read grant is not narrowed, and the
  primary key is never withheld.\<close>

theorem concealed_exact:
  assumes "\<forall>g\<in>set (sc_grants s). gr_table g = td_id t \<longrightarrow> grant_ok t g"
  shows "(c \<in> set (concealed s ctx t)) =
     (c < length (td_columns t) \<and> \<not> is_superuser ctx \<and> held_reads s ctx t \<noteq> [] \<and>
      (\<forall>g\<in>set (held_reads s ctx t). \<exists>cols. gr_columns g = Some cols \<and> c \<notin> cols)) \<and>
    (c \<in> set (td_primary_key t) \<longrightarrow> c \<notin> set (concealed s ctx t))"
proof -
  let ?gs = "held_reads s ctx t"
  let ?cols = "\<Union>g\<in>set ?gs. the (gr_columns g)"
  have ok: "grant_ok t g" if "g \<in> set ?gs" for g using assms that by (auto simp: held_reads_def)
  have full: "?cols = {..<length (td_columns t)}"
    if "\<forall>g\<in>set ?gs. gr_columns g \<noteq> None" "card ?cols = length (td_columns t)"
  proof (rule card_subset_eq)
    show "?cols \<subseteq> {..<length (td_columns t)}" using ok that(1) by (fastforce simp: grant_ok_def)
  qed (use that(2) in simp_all)
  have key: "set (td_primary_key t) \<subseteq> ?cols" if narrowed: "\<forall>g\<in>set ?gs. gr_columns g \<noteq> None" "?gs \<noteq> []"
  proof -
    obtain g where g: "g \<in> set ?gs" using narrowed(2) by (cases ?gs) auto
    then obtain cols where "gr_columns g = Some cols" using narrowed(1) by auto
    then show ?thesis using ok [OF g] g by (force simp: grant_ok_def)
  qed
  show ?thesis
  proof (cases "readable s ctx t")
    case None
    then have "concealed s ctx t = []" by (simp add: concealed_def)
    moreover have "is_superuser ctx \<or> ?gs = [] \<or> (\<exists>g\<in>set ?gs. gr_columns g = None) \<or>
        card ?cols = length (td_columns t)"
      using None by (simp add: readable_eq Let_def split: if_splits)
    ultimately show ?thesis using full by fastforce
  next
    case (Some cols)
    then have "cols = ?cols" "\<not> is_superuser ctx" "?gs \<noteq> []" "\<forall>g\<in>set ?gs. gr_columns g \<noteq> None"
      by (auto simp: readable_eq Let_def split: if_splits)
    moreover from this have "set (concealed s ctx t) = {c. c < length (td_columns t) \<and> c \<notin> ?cols}"
      using Some by (auto simp: concealed_def)
    ultimately show ?thesis using key by force
  qed
qed

theorem concealed_exact_witness:
  "2 \<in> set (concealed (add_grant \<lparr>gr_role = ''app'', gr_table = 2, gr_actions = {Read}, gr_columns = Some {0, 1}\<rparr>
      SecurityCatalog_new) alice (built child_builder))"
proof -
  let ?g = "\<lparr>gr_role = ''app'', gr_table = 2, gr_actions = {Read}, gr_columns = Some {0, 1}\<rparr>"
  let ?s = "add_grant ?g SecurityCatalog_new"
  have key: "td_primary_key (built child_builder) = [0, 1]" "length (td_columns (built child_builder)) = 3"
    by (simp_all add: built_def child_builder_def on_delete_def build_eval cong: build_congs)
  have "\<forall>g\<in>set (sc_grants ?s). gr_table g = td_id (built child_builder) \<longrightarrow> grant_ok (built child_builder) g"
    by (simp add: add_grant_def SecurityCatalog_new_def grant_ok_def key)
  from concealed_exact [OF this, of 2 alice] show ?thesis
    by (simp add: held_reads_def add_grant_def SecurityCatalog_new_def alice_def with_role_def with_tenant_def
        SecurityContext_new_def Principal_new_def is_superuser_def child_facts key)
qed

end
