(* ===== verification/Plan_Implies.thy ===== *)
theory Plan_Implies
  imports Predicate_Expr Keyspace
begin

text \<open>
  The implication test of \<open>crates/slate-kernel/src/plan.rs\<close>, which decides whether a partial index may
  serve a query: every row the query admits must be one the index holds an entry for. The test is
  syntactic and answers no when it cannot tell; it is shown to answer yes only when the implication
  holds of every row.
\<close>

section \<open>The test\<close>

text \<open>The derived equality of predicates compares literals with the equality of values.\<close>

fun expr_same :: "Expr \<Rightarrow> Expr \<Rightarrow> bool" where
  "expr_same Expr_True f = (f = Expr_True)"
| "expr_same Expr_False f = (f = Expr_False)"
| "expr_same (Expr_Compare c oper v) f =
     (case f of Expr_Compare d oper' w \<Rightarrow> c = d \<and> oper = oper' \<and> value_eq v w | _ \<Rightarrow> False)"
| "expr_same (Expr_CompareColumns l oper r) f = (f = Expr_CompareColumns l oper r)"
| "expr_same (Expr_IsNull c n) f = (f = Expr_IsNull c n)"
| "expr_same (Expr_Like c p n i) f = (f = Expr_Like c p n i)"
| "expr_same (Expr_Matches c p n i) f = (f = Expr_Matches c p n i)"
| "expr_same (Expr_Contains c ts) f = (f = Expr_Contains c ts)"
| "expr_same (Expr_In c vs) f = (case f of Expr_In d ws \<Rightarrow> c = d \<and> list_all2 value_eq vs ws | _ \<Rightarrow> False)"
| "expr_same (Expr_InSorted c vs n) f =
     (case f of Expr_InSorted d ws m \<Rightarrow> c = d \<and> list_all2 value_eq vs ws \<and> n = m | _ \<Rightarrow> False)"
| "expr_same (Expr_And es) f = (case f of Expr_And fs \<Rightarrow> list_all2 expr_same es fs | _ \<Rightarrow> False)"
| "expr_same (Expr_Or es) f = (case f of Expr_Or fs \<Rightarrow> list_all2 expr_same es fs | _ \<Rightarrow> False)"
| "expr_same (Expr_Not e) f = (case f of Expr_Not g \<Rightarrow> expr_same e g | _ \<Rightarrow> False)"

definition not_null_goal :: "Expr \<Rightarrow> Ordinal option" where
  "not_null_goal goal =
     (case goal of
        Expr_IsNull column True \<Rightarrow> Some column
      | Expr_Not (Expr_IsNull column False) \<Rightarrow> Some column
      | _ \<Rightarrow> None)"

definition lit_satisfies :: "Value \<Rightarrow> CmpOp \<Rightarrow> Value \<Rightarrow> bool" where
  "lit_satisfies v oper goal_value =
     (let c = value_cmp v goal_value in
      case oper of
        Op_Eq \<Rightarrow> c = Equal
      | Op_Ne \<Rightarrow> c \<noteq> Equal
      | Op_Lt \<Rightarrow> c = Less
      | Op_Le \<Rightarrow> c = Less \<or> c = Equal
      | Op_Gt \<Rightarrow> c = Greater
      | Op_Ge \<Rightarrow> c = Greater \<or> c = Equal)"

definition comparison_implies :: "CmpOp \<Rightarrow> Value \<Rightarrow> CmpOp \<Rightarrow> Value \<Rightarrow> bool" where
  "comparison_implies held v goal goal_value =
     (let c = value_cmp v goal_value in
      case (held, goal) of
        (Op_Eq, _) \<Rightarrow> lit_satisfies v goal goal_value
      | (Op_Ne, _) \<Rightarrow> False
      | (Op_Lt, Op_Lt) \<Rightarrow> c \<noteq> Greater
      | (Op_Lt, Op_Le) \<Rightarrow> c \<noteq> Greater
      | (Op_Le, Op_Lt) \<Rightarrow> c = Less
      | (Op_Le, Op_Le) \<Rightarrow> c \<noteq> Greater
      | (Op_Gt, Op_Gt) \<Rightarrow> c \<noteq> Less
      | (Op_Gt, Op_Ge) \<Rightarrow> c \<noteq> Less
      | (Op_Ge, Op_Gt) \<Rightarrow> c = Greater
      | (Op_Ge, Op_Ge) \<Rightarrow> c \<noteq> Less
      | (Op_Lt, Op_Ne) \<Rightarrow> c \<noteq> Greater
      | (Op_Le, Op_Ne) \<Rightarrow> c = Less
      | (Op_Gt, Op_Ne) \<Rightarrow> c \<noteq> Less
      | (Op_Ge, Op_Ne) \<Rightarrow> c = Greater
      | _ \<Rightarrow> False)"

definition unknown_on_null :: "Expr \<Rightarrow> Ordinal \<Rightarrow> bool" where
  "unknown_on_null query column =
     (case query of
        Expr_Compare on _ v \<Rightarrow> on = column \<and> \<not> is_null v
      | Expr_In on _ \<Rightarrow> on = column
      | Expr_Like on _ _ _ \<Rightarrow> on = column
      | Expr_Matches on _ _ _ \<Rightarrow> on = column
      | Expr_CompareColumns left _ right \<Rightarrow> left = column \<or> right = column
      | _ \<Rightarrow> False)"

definition excludes_nulls :: "Expr \<Rightarrow> Ordinal \<Rightarrow> bool" where
  "excludes_nulls query column =
     (case query of
        Expr_IsNull on True \<Rightarrow> on = column
      | Expr_Not (Expr_IsNull on False) \<Rightarrow> on = column
      | Expr_Not inner \<Rightarrow> unknown_on_null inner column
      | _ \<Rightarrow> unknown_on_null query column)"

definition leaf_implies :: "Expr \<Rightarrow> Expr \<Rightarrow> bool" where
  "leaf_implies query goal =
     (case not_null_goal goal of
        Some column \<Rightarrow> excludes_nulls query column
      | None \<Rightarrow>
          (case goal of
             Expr_Compare column oper goal_value \<Rightarrow>
               if is_null goal_value then False
               else
                 (case query of
                    Expr_Compare on held v \<Rightarrow>
                      on = column \<and> \<not> is_null v \<and> comparison_implies held v oper goal_value
                  | Expr_In on vs \<Rightarrow>
                      on = column \<and> vs \<noteq> [] \<and> list_all (\<lambda>v. \<not> is_null v \<and> lit_satisfies v oper goal_value) vs
                  | _ \<Rightarrow> False)
           | _ \<Rightarrow> False))"

lemma conjuncts_size: "e \<in> set (conjuncts q) \<Longrightarrow> size e \<le> size q"
proof (induction q)
  case (Expr_And parts)
  then obtain p where p: "p \<in> set parts" "e \<in> set (conjuncts p)" by auto
  then have "size e \<le> size p" using Expr_And.IH by blast
  also have "size p \<le> size_list size parts" using p(1) by (rule size_list_estimation') simp
  finally show ?case by simp
qed auto

lemma conjuncts_And_size: "e \<in> set (conjuncts (Expr_And parts)) \<Longrightarrow> size e < size (Expr_And parts)"
proof -
  assume "e \<in> set (conjuncts (Expr_And parts))"
  then obtain p where p: "p \<in> set parts" "e \<in> set (conjuncts p)" by auto
  then have "size e \<le> size p" using conjuncts_size by blast
  also have "size p \<le> size_list size parts" using p(1) by (rule size_list_estimation') simp
  finally show ?thesis by simp
qed

function implies_one :: "Expr \<Rightarrow> Expr \<Rightarrow> bool" where
  "implies_one query goal =
     (expr_same query goal \<or> goal = Expr_True \<or>
      (case goal of Expr_Or branches \<Rightarrow> list_ex (implies_one query) branches | _ \<Rightarrow> False) \<or>
      (case query of
         Expr_False \<Rightarrow> True
       | Expr_And _ \<Rightarrow> list_ex (\<lambda>conjunct. implies_one conjunct goal) (conjuncts query)
       | Expr_Or branches \<Rightarrow> branches \<noteq> [] \<and> list_all (\<lambda>branch. implies_one branch goal) branches
       | _ \<Rightarrow> leaf_implies query goal))"
  by pat_completeness auto
termination
proof (relation "measure (\<lambda>(q, g). size q + size g)")
  fix query goal branches branch
  assume "goal = Expr_Or branches" "branch \<in> set branches"
  then have "size branch < size goal" using size_list_estimation' [of branch branches "size branch" size] by simp
  then show "((query, branch), (query, goal)) \<in> measure (\<lambda>(q, g). size q + size g)" by simp
next
  fix query goal parts conjunct
  assume "query = Expr_And parts" "conjunct \<in> set (conjuncts query)"
  then show "((conjunct, goal), (query, goal)) \<in> measure (\<lambda>(q, g). size q + size g)"
    using conjuncts_And_size by simp
next
  fix query goal branches branch
  assume "query = Expr_Or branches" "branch \<in> set branches"
  then have "size branch < size query" using size_list_estimation' [of branch branches "size branch" size] by simp
  then show "((branch, goal), (query, goal)) \<in> measure (\<lambda>(q, g). size q + size g)" by simp
qed simp

declare implies_one.simps [simp del]

definition implies :: "Expr \<Rightarrow> Expr \<Rightarrow> bool" where
  "implies query index = list_all (implies_one query) (conjuncts index)"

section \<open>Comparisons of literals\<close>

lemma value_cmp_bytes: "wf_value a \<Longrightarrow> wf_value b \<Longrightarrow> value_cmp a b = cmp_lin (element_bytes a) (element_bytes b)"
  by (rule asc.byte_order [symmetric])

lemma value_eq_cmp:
  assumes "wf_value v" and "wf_value w" and "wf_value a" and "value_eq v w"
  shows "value_cmp a v = value_cmp a w" and "value_cmp v a = value_cmp w a"
proof -
  have "element_bytes v = element_bytes w" using assms(1,2,4) asc.enc_eq_iff value_eq_def by blast
  then show "value_cmp a v = value_cmp a w" "value_cmp v a = value_cmp w a"
    using assms(1-3) by (simp_all only: value_cmp_bytes)
qed

lemma value_eq_null: "value_eq v w \<Longrightarrow> (v = Null) = (w = Null)"
  using value_eq_Null by metis

lemma lit_satisfies_op: "lit_satisfies v oper g = op_apply oper (value_cmp v g)"
  by (cases oper; cases "value_cmp v g") (simp_all add: lit_satisfies_def)

lemma comparison_implies_sound:
  assumes "wf_value a" and "wf_value v" and "wf_value g"
    and "comparison_implies held v goal g" and "op_apply held (value_cmp a v)"
  shows "op_apply goal (value_cmp a g)"
proof -
  let ?a = "element_bytes a" and ?v = "element_bytes v" and ?g = "element_bytes g"
  have cmp: "value_cmp a v = cmp_lin ?a ?v" "value_cmp v g = cmp_lin ?v ?g" "value_cmp a g = cmp_lin ?a ?g"
    using assms(1-3) by (simp_all add: value_cmp_bytes)
  have iff: "op_apply oper (cmp_lin x y) =
      (case oper of Op_Eq \<Rightarrow> x = y | Op_Ne \<Rightarrow> x \<noteq> y | Op_Lt \<Rightarrow> x < y | Op_Le \<Rightarrow> x \<le> y | Op_Gt \<Rightarrow> y < x | Op_Ge \<Rightarrow> y \<le> x)"
    for oper and x y :: bytes
    by (cases oper) (auto simp: cmp_lin_def)
  have goal: "op_apply goal (cmp_lin ?a ?g)"
    using assms(4,5) unfolding comparison_implies_def lit_satisfies_op cmp Let_def iff
    by (cases held; cases goal) (auto simp: cmp_lin_def split: if_splits)
  then show ?thesis by (simp add: cmp)
qed

section \<open>Predicates that are the same\<close>

lemma search_loop_cong:
  assumes "\<And>i. i < n \<Longrightarrow> probe i = probe' i" and "base + sz \<le> n"
  shows "search_loop probe base sz = search_loop probe' base sz"
  using assms
proof (induction probe base sz rule: search_loop.induct)
  case (1 probe base sz)
  show ?case
  proof (cases "1 < sz")
    case True
    let ?half = "sz div 2" let ?mid = "base + ?half"
    have "probe ?mid = probe' ?mid" using "1.prems" True by auto
    then have step: "search_loop probe base sz = search_loop probe (if probe ?mid = Greater then base else ?mid) (sz - ?half)"
      "search_loop probe' base sz = search_loop probe' (if probe ?mid = Greater then base else ?mid) (sz - ?half)"
      using True by (subst search_loop.simps, simp add: Let_def)+
    show ?thesis
      unfolding step using "1.prems" True by (intro "1.IH" [OF True refl refl]) auto
  next
    case False
    then show ?thesis by (simp add: search_loop.simps)
  qed
qed

lemma search_loop_bound: "sz > 0 \<Longrightarrow> base + sz \<le> n \<Longrightarrow> search_loop probe base sz < n"
proof (induction probe base sz rule: search_loop.induct)
  case (1 probe base sz)
  show ?case
  proof (cases "1 < sz")
    case True
    then have "search_loop probe (if probe (base + sz div 2) = Greater then base else base + sz div 2) (sz - sz div 2) < n"
      using "1.prems" by (intro "1.IH" [OF True refl refl]) auto
    then show ?thesis using True by (subst search_loop.simps) (simp add: Let_def)
  next
    case False
    then show ?thesis using "1.prems" by (simp add: search_loop.simps)
  qed
qed

lemma binary_search_cong:
  assumes "list_all2 value_eq vs ws" and "list_all wf_value vs" and "list_all wf_value ws" and "wf_value x"
  shows "binary_search value_cmp vs x = binary_search value_cmp ws x"
proof -
  have len: "length vs = length ws" using assms(1) by (rule list_all2_lengthD)
  have cmp: "value_cmp (vs ! i) x = value_cmp (ws ! i) x" if "i < length ws" for i
    using assms that value_eq_cmp(2) [of "vs ! i" "ws ! i" x] by (simp add: list_all2_conv_all_nth list_all_length)
  show ?thesis
  proof (cases "ws = []")
    case False
    let ?p = "\<lambda>i. value_cmp (vs ! i) x" and ?q = "\<lambda>i. value_cmp (ws ! i) x"
    have loop: "search_loop ?p 0 (length ws) = search_loop ?q 0 (length ws)"
      by (rule search_loop_cong [of "length ws"]) (simp_all add: cmp)
    have "search_loop ?q 0 (length ws) < length ws"
      by (rule search_loop_bound) (use False in auto)
    then show ?thesis using False len cmp loop by (auto simp: binary_search_def)
  qed (use len in \<open>simp add: binary_search_def\<close>)
qed

lemma map_evaluate_same:
  assumes "list_all2 same es fs" and "\<And>e f. e \<in> set es \<Longrightarrow> same e f \<Longrightarrow> f \<in> set fs \<Longrightarrow> g e = g f"
  shows "map g es = map g fs"
  using assms by (induction es fs rule: list_all2_induct) simp_all

lemma evaluate_same:
  assumes "\<And>i v. row i = Some v \<Longrightarrow> wf_value v"
  shows "expr_same e f \<Longrightarrow> expr_wf e \<Longrightarrow> expr_wf f \<Longrightarrow> evaluate_over env row e = evaluate_over env row f"
proof (induction e arbitrary: f)
  case (Expr_Compare c oper v)
  then obtain w where f: "f = Expr_Compare c oper w" "value_eq v w" by (auto split: Expr.splits)
  show ?case
  proof (cases "row c")
    case (Some a)
    then have "value_cmp a v = value_cmp a w" using value_eq_cmp(1) assms f Expr_Compare.prems by simp
    then show ?thesis using Some f value_eq_null [OF f(2)] by simp
  qed (simp add: f)
next
  case (Expr_In c vs)
  then obtain ws where f: "f = Expr_In c ws" "list_all2 value_eq vs ws" by (auto split: Expr.splits)
  have nulls: "list_ex is_null vs = list_ex is_null ws"
    using f(2) by (induction vs ws rule: list_all2_induct) (auto dest: value_eq_null)
  show ?case
  proof (cases "row c")
    case (Some a)
    have "list_ex (\<lambda>v. \<not> is_null v \<and> value_eq v a) vs = list_ex (\<lambda>v. \<not> is_null v \<and> value_eq v a) ws"
      using f(2) Expr_In.prems(2,3) unfolding f(1)
    proof (induction vs ws rule: list_all2_induct)
      case (Cons v vs w ws)
      then have "value_cmp v a = value_cmp w a" using value_eq_cmp(2) assms Some by simp
      then show ?case using Cons value_eq_null [of v w] by (simp add: value_eq_def)
    qed simp
    then show ?thesis using Some f(1) nulls by simp
  qed (simp add: f(1))
next
  case (Expr_InSorted c vs n)
  then obtain ws where f: "f = Expr_InSorted c ws n" "list_all2 value_eq vs ws" by (auto split: Expr.splits)
  show ?case
  proof (cases "row c")
    case (Some a)
    then have "binary_search value_cmp vs a = binary_search value_cmp ws a"
      using binary_search_cong f assms Expr_InSorted.prems by simp
    then show ?thesis using Some f(1) by simp
  qed (simp add: f(1))
next
  case (Expr_And es)
  then obtain fs where f: "f = Expr_And fs" "list_all2 expr_same es fs" by (auto split: Expr.splits)
  have "map (evaluate_over env row) es = map (evaluate_over env row) fs"
    using f(2) Expr_And unfolding f(1) by (intro map_evaluate_same [where same = expr_same]) (auto simp: list_all_iff)
  then show ?case by (simp only: f(1) evaluate_over.simps)
next
  case (Expr_Or es)
  then obtain fs where f: "f = Expr_Or fs" "list_all2 expr_same es fs" by (auto split: Expr.splits)
  have "map (evaluate_over env row) es = map (evaluate_over env row) fs"
    using f(2) Expr_Or unfolding f(1) by (intro map_evaluate_same [where same = expr_same]) (auto simp: list_all_iff)
  then show ?case by (simp only: f(1) evaluate_over.simps)
next
  case (Expr_Not e)
  then obtain g where "f = Expr_Not g" "expr_same e g" by (auto split: Expr.splits)
  then show ?case using Expr_Not by simp
qed (auto split: Expr.splits)

section \<open>The test is sound\<close>

lemma unknown_on_null_sound:
  assumes "unknown_on_null q c" and "row c = None \<or> row c = Some Null"
  shows "evaluate_over env row q = Truth_Unknown"
  using assms by (auto simp: unknown_on_null_def split: Expr.splits option.splits)

lemma excludes_nulls_sound:
  assumes "excludes_nulls q c" and "evaluate_over env row q = Truth_True"
  shows "\<exists>v. row c = Some v \<and> v \<noteq> Null"
proof (rule ccontr)
  assume "\<not> ?thesis"
  then have null: "row c = None \<or> row c = Some Null" by (cases "row c") auto
  have unknown: "evaluate_over env row p = Truth_Unknown" if "unknown_on_null p c" for p
    using that null by (rule unknown_on_null_sound)
  have isnull: "is_none_or is_null (row c)" using null by (auto simp: is_none_or_def)
  consider "q = Expr_IsNull c True" | "q = Expr_Not (Expr_IsNull c False)"
    | inner where "q = Expr_Not inner" "unknown_on_null inner c" | "unknown_on_null q c"
    using assms(1) unfolding excludes_nulls_def by (auto split: Expr.splits bool.splits)
  then show False
    by cases (use assms(2) isnull unknown in \<open>auto simp: unknown_on_null_def\<close>)
qed

lemma not_null_goal_Some:
  assumes "not_null_goal g = Some c"
  shows "evaluate_over env row g = Truth_True \<longleftrightarrow> (\<exists>v. row c = Some v \<and> v \<noteq> Null)"
proof -
  have "g = Expr_IsNull c True \<or> g = Expr_Not (Expr_IsNull c False)"
    using assms by (auto simp: not_null_goal_def split: Expr.splits bool.splits)
  then show ?thesis by (cases "row c") (auto simp: is_none_or_def truth_from_def)
qed

lemma leaf_implies_sound:
  assumes "leaf_implies q g" and "expr_wf q" and "expr_wf g" and "\<And>i v. row i = Some v \<Longrightarrow> wf_value v"
    and "evaluate_over env row q = Truth_True"
  shows "evaluate_over env row g = Truth_True"
proof (cases "not_null_goal g")
  case (Some c)
  then show ?thesis
    using assms(1,5) excludes_nulls_sound not_null_goal_Some [OF Some] by (simp add: leaf_implies_def)
next
  case None
  then obtain c oper gv where g: "g = Expr_Compare c oper gv" "gv \<noteq> Null"
    using assms(1) by (auto simp: leaf_implies_def split: Expr.splits if_splits)
  consider held v where "q = Expr_Compare c held v" "v \<noteq> Null" "comparison_implies held v oper gv"
    | vs where "q = Expr_In c vs" "\<And>v. v \<in> set vs \<Longrightarrow> v \<noteq> Null \<and> lit_satisfies v oper gv"
    using assms(1) None g by (auto simp: leaf_implies_def list_all_iff split: Expr.splits)
  then show ?thesis
  proof cases
    case (1 held v)
    then obtain a where a: "row c = Some a" "a \<noteq> Null" "op_apply held (value_cmp a v)"
      using assms(5) by (auto simp: truth_from_def split: option.splits if_splits)
    then have "op_apply oper (value_cmp a gv)"
      using comparison_implies_sound [of a v gv held oper] 1 assms(2-4) g by simp
    then show ?thesis using a g by simp
  next
    case (2 vs)
    then obtain a v where a: "row c = Some a" "a \<noteq> Null" "v \<in> set vs" "value_eq v a"
      using assms(5) by (auto simp: list_ex_iff split: option.splits if_splits)
    then have "wf_value a" "wf_value v" "wf_value gv" "op_apply oper (value_cmp v gv)"
      using assms(2-4) 2 g by (auto simp: lit_satisfies_op list_all_iff)
    moreover from this have "value_cmp v gv = value_cmp a gv" using value_eq_cmp(2) a(4) by blast
    ultimately show ?thesis using a(1,2) g by simp
  qed
qed

lemma conjuncts_wf: "p \<in> set (conjuncts e) \<Longrightarrow> expr_wf e \<Longrightarrow> expr_wf p"
  by (induction e) (auto simp: list_all_iff)

lemma conjunct_true:
  "p \<in> set (conjuncts e) \<Longrightarrow> evaluate_over env row e = Truth_True \<Longrightarrow> evaluate_over env row p = Truth_True"
  using evaluate_conjuncts [of env row e]
  by (cases "evaluate_over env row p") (auto simp: and_loop_iff image_iff split: if_splits)

lemma conjuncts_true:
  "(\<And>p. p \<in> set (conjuncts e) \<Longrightarrow> evaluate_over env row p = Truth_True) \<Longrightarrow> evaluate_over env row e = Truth_True"
  using evaluate_conjuncts [of env row e] by (auto simp: and_loop_iff image_iff)

lemma implies_one_sound:
  assumes "\<And>i v. row i = Some v \<Longrightarrow> wf_value v"
  shows "implies_one q g \<Longrightarrow> expr_wf q \<Longrightarrow> expr_wf g \<Longrightarrow> evaluate_over env row q = Truth_True \<Longrightarrow>
    evaluate_over env row g = Truth_True"
proof (induction q g rule: implies_one.induct)
  case (1 q g)
  consider "expr_same q g" | "g = Expr_True"
    | bs b where "g = Expr_Or bs" "b \<in> set bs" "implies_one q b"
    | "q = Expr_False"
    | ps p where "q = Expr_And ps" "p \<in> set (conjuncts q)" "implies_one p g"
    | bs where "q = Expr_Or bs" "\<And>b. b \<in> set bs \<Longrightarrow> implies_one b g"
    | "leaf_implies q g"
    using "1.prems"(1) unfolding implies_one.simps [of q g]
    by (elim disjE) (auto simp: list_ex_iff list_all_iff split: Expr.splits, blast)
  then show ?case
  proof cases
    case 1
    have "evaluate_over env row q = evaluate_over env row g"
      by (rule evaluate_same [OF _ 1 "1.prems"(2,3)]) (rule assms)
    then show ?thesis using "1.prems"(4) by simp
  next
    case (3 bs b)
    then have "evaluate_over env row b = Truth_True" using "1.IH"(1) "1.prems" by (auto simp: list_all_iff)
    then have "Truth_True \<in> set (map (evaluate_over env row) bs)" using 3(2) by force
    then show ?thesis by (simp only: 3(1) evaluate_over.simps or_loop_iff if_True)
  next
    case (5 ps p)
    have "expr_wf p" using 5(2) "1.prems"(2) by (rule conjuncts_wf)
    have "evaluate_over env row p = Truth_True" using 5(2) "1.prems"(4) by (rule conjunct_true)
    then show ?thesis using "1.IH"(2) 5 "1.prems" \<open>expr_wf p\<close> by blast
  next
    case (6 bs)
    then obtain b where "b \<in> set bs" "evaluate_over env row b = Truth_True"
      using "1.prems"(4) by (auto simp: or_loop_iff image_iff split: if_splits)
    then show ?thesis using "1.IH"(3) [OF 6(1)] 6 "1.prems" by (auto simp: list_all_iff)
  next
    case 7
    then show ?thesis using leaf_implies_sound "1.prems" assms by blast
  qed (use "1.prems" in simp_all)
qed

text \<open>The implication test never claims too much: when it says that a query implies a partial
  index's predicate, every row that the query admits is a row the predicate admits, under the
  three-valued logic of the evaluator, nulls and missing columns included.\<close>

theorem implies_sound:
  assumes "implies query index" and "expr_wf query" and "expr_wf index" and "list_all wf_value row"
    and "expr_admits env query row"
  shows "expr_admits env index row"
proof -
  have wf: "get row i = Some v \<Longrightarrow> wf_value v" for i v using assms(4) by (auto simp: list_all_length)
  have "evaluate_over env (get row) p = Truth_True" if "p \<in> set (conjuncts index)" for p
    using assms implies_one_sound [of "get row" query p env, OF wf] that conjuncts_wf [OF that]
    by (auto simp: implies_def list_all_iff expr_admits_def evaluate_def truth_admits_iff)
  then show ?thesis using conjuncts_true by (simp add: expr_admits_def evaluate_def truth_admits_iff)
qed

theorem implies_sound_witness:
  "expr_admits no_tables (Expr_And [Expr_Compare 0 Op_Gt (U64 3), Expr_IsNull 1 True]) [U64 11, Bool True]"
proof -
  let ?q = "Expr_And [Expr_Or [Expr_Compare 0 Op_Gt (U64 10), Expr_In 0 [U64 4, U64 5]], Expr_Not (Expr_Compare 1 Op_Eq (Bool False))]"
  have "implies ?q (Expr_And [Expr_Compare 0 Op_Gt (U64 3), Expr_IsNull 1 True])" by code_simp
  moreover have "expr_admits no_tables ?q [U64 11, Bool True]" by code_simp
  ultimately show ?thesis using implies_sound [of ?q _ "[U64 11, Bool True]" no_tables] by simp
qed

end
