(* ===== verification/Kv_Interface.thy ===== *)
theory Kv_Interface
  imports Memory_Store Rust_Loops
begin

text \<open>
  The store traits of \<open>crates/slate-kernel/src/store.rs\<close> as the record layer sees them: a trait
  object is the record of its methods over an opaque state, and fallible methods that write return a
  result beside the new state. Computations of the record layer thread such a state and stop at the
  first error, keeping what was done before it, as the source's question mark does. The contract of
  a transaction that does not fail is the locale \<open>kv_transaction\<close>; the in-memory store meets it.
\<close>

section \<open>Computations with state and errors\<close>

type_synonym ('s, 'a) comp = "'s \<Rightarrow> (KernelError + 'a) \<times> 's"

definition sreturn :: "'a \<Rightarrow> ('s, 'a) comp" where
  "sreturn x = (\<lambda>s. (Inr x, s))"

definition sresult :: "KernelError + 'a \<Rightarrow> ('s, 'a) comp" where
  "sresult r = (\<lambda>s. (r, s))"

definition sbind :: "('s, 'a) comp \<Rightarrow> ('a \<Rightarrow> ('s, 'b) comp) \<Rightarrow> ('s, 'b) comp" where
  "sbind m k = (\<lambda>s. case m s of (Inl e, s') \<Rightarrow> (Inl e, s') | (Inr x, s') \<Rightarrow> k x s')"

fun seach :: "('a \<Rightarrow> ('s, unit) comp) \<Rightarrow> 'a list \<Rightarrow> ('s, unit) comp" where
  "seach f [] = sreturn ()"
| "seach f (x # xs) = sbind (f x) (\<lambda>_. seach f xs)"

named_theorems comp_simps

lemma sreturn_run [comp_simps]: "sreturn x s = (Inr x, s)"
  by (simp add: sreturn_def)

lemma sresult_run [comp_simps]: "sresult r s = (r, s)"
  by (simp add: sresult_def)

lemma sbind_run [comp_simps]:
  "m s = (Inl e, s') \<Longrightarrow> sbind m k s = (Inl e, s')"
  "m s = (Inr x, s') \<Longrightarrow> sbind m k s = k x s'"
  by (simp_all add: sbind_def)

lemma sbind_sresult [comp_simps]:
  "sbind (sresult (Inl e)) k = sresult (Inl e)"
  "sbind (sresult (Inr x)) k = k x"
  "sbind (sreturn x) k = k x"
  by (auto simp: sbind_def sresult_def sreturn_def)

lemma sbind_Inr:
  "sbind m k s = (Inr y, s') \<longleftrightarrow> (\<exists>x s1. m s = (Inr x, s1) \<and> k x s1 = (Inr y, s'))"
  by (auto simp: sbind_def split: prod.splits sum.splits)

section \<open>The traits\<close>

record 'x Kv =
  kv_get :: "'x \<Rightarrow> bytes \<Rightarrow> KernelError + bytes option"
  kv_scan :: "'x \<Rightarrow> KeyRange \<Rightarrow> ScanOrder \<Rightarrow> KernelError + (bytes \<times> bytes) list"
  kv_put :: "bytes \<Rightarrow> bytes \<Rightarrow> ('x, unit) comp"
  kv_delete :: "bytes \<Rightarrow> ('x, unit) comp"
  kv_commit :: "('x, nat option) comp"
  kv_rollback :: "'x \<Rightarrow> 'x"

section \<open>The contract of a transaction\<close>

locale kv_transaction =
  fixes kv :: "'x Kv"
    and ok :: "'x \<Rightarrow> bool"
    and view :: "'x \<Rightarrow> bytes \<Rightarrow> bytes option"
  assumes get_view: "ok x \<Longrightarrow> kv_get kv x k = Inr (view x k)"
    and put_view: "ok x \<Longrightarrow> \<exists>x'. kv_put kv k v x = (Inr (), x') \<and> ok x' \<and> view x' = (view x)(k := Some v)"
    and delete_view: "ok x \<Longrightarrow> \<exists>x'. kv_delete kv k x = (Inr (), x') \<and> ok x' \<and> view x' = (view x)(k := None)"
    and scan_view: "ok x \<Longrightarrow> \<exists>kvs. kv_scan kv x r Ascending = Inr kvs \<and> sorted_wrt (<) (map fst kvs) \<and>
      kv_scan kv x r Descending = Inr (rev kvs) \<and>
      (\<forall>k v. (k, v) \<in> set kvs \<longleftrightarrow> range_contains r k \<and> view x k = Some v)"

section \<open>The memory store meets it\<close>

definition memory_kv :: "(MemoryTransaction \<times> Shared) Kv" where
  "memory_kv =
     \<lparr>kv_get = (\<lambda>(t, s) k. Inr (txn_get t k)),
      kv_scan = (\<lambda>(t, s) r ord. Inr (txn_scan t r ord)),
      kv_put = (\<lambda>k v (t, s). (Inr (), txn_put k v t, s)),
      kv_delete = (\<lambda>k (t, s). (Inr (), txn_delete k t, s)),
      kv_commit = (\<lambda>(t, s). txn_commit t s),
      kv_rollback = (\<lambda>(t, s). (txn_rollback t, s))\<rparr>"

definition memory_ok :: "MemoryTransaction \<times> Shared \<Rightarrow> bool" where
  "memory_ok = (\<lambda>(t, s). txn_ok t)"

definition memory_view :: "MemoryTransaction \<times> Shared \<Rightarrow> bytes \<Rightarrow> bytes option" where
  "memory_view = (\<lambda>(t, s). txn_get t)"

lemma txn_get_writes:
  assumes "txn_ok t"
  shows "txn_get (txn_put k v t) = (txn_get t)(k := Some v)"
    and "txn_get (txn_delete k t) = (txn_get t)(k := None)"
  using assms by (auto simp: txn_get_def txn_put_def txn_delete_def base_def txn_ok_def btree_simps fun_eq_iff
      split: option.split)

interpretation memory: kv_transaction memory_kv memory_ok memory_view
proof
  fix x :: "MemoryTransaction \<times> Shared" and k v :: bytes and r
  assume "memory_ok x"
  obtain t s where x: "x = (t, s)" by (cases x)
  then have ok: "txn_ok t" using \<open>memory_ok x\<close> by (simp add: memory_ok_def)
  show "kv_get memory_kv x k = Inr (memory_view x k)" by (simp add: x memory_kv_def memory_view_def)
  show "\<exists>x'. kv_put memory_kv k v x = (Inr (), x') \<and> memory_ok x' \<and> memory_view x' = (memory_view x)(k := Some v)"
    using ok by (simp add: x memory_kv_def memory_view_def memory_ok_def txn_get_writes)
  show "\<exists>x'. kv_delete memory_kv k x = (Inr (), x') \<and> memory_ok x' \<and> memory_view x' = (memory_view x)(k := None)"
    using ok by (simp add: x memory_kv_def memory_view_def memory_ok_def txn_get_writes)
  have "btree (visible_range t r)" "bt_get (visible_range t r) k = (if range_contains r k then txn_get t k else None)" for k
    using visible_range_get [OF ok] by blast+
  moreover from this(1) have "(k, v) \<in> set (visible_range t r) \<longleftrightarrow> bt_get (visible_range t r) k = Some v" for k v
    using bt_get_set by metis
  ultimately show "\<exists>kvs. kv_scan memory_kv x r Ascending = Inr kvs \<and> sorted_wrt (<) (map fst kvs) \<and>
      kv_scan memory_kv x r Descending = Inr (rev kvs) \<and>
      (\<forall>k v. (k, v) \<in> set kvs \<longleftrightarrow> range_contains r k \<and> memory_view x k = Some v)"
    by (simp add: x memory_kv_def memory_view_def txn_scan_def Let_def btree_def)
qed

end
