(* ===== verification/Record_Write.thy ===== *)
theory Record_Write
  imports Kv_Interface Security
begin

text \<open>
  The write path of \<open>crates/slate-kernel/src/record.rs\<close> below the checks: stamping managed columns,
  writing a row with its index entries reconciled against the row it replaces, enforcing unique
  indexes, erasing a row, retiring it under soft delete, and committing. The clock is a parameter, a
  sequence of readings of which each call takes the next. Every operation is shown to act on the
  contents of a transaction as an operation on finite maps.
\<close>

section \<open>The store and its transactions\<close>

record 'x RecordStore =
  rs_kv :: "'x Kv"
  rs_env :: Env
  rs_catalog :: Catalog
  rs_security :: SecurityCatalog
  rs_clock :: "nat \<Rightarrow> i64"

record 'x RecordTransaction =
  rt_txn :: 'x
  rt_poisoned :: bool
  rt_ticks :: nat

definition clock_now :: "'x RecordStore \<Rightarrow> ('x RecordTransaction, i64) comp" where
  "clock_now rs = (\<lambda>st. (Inr (rs_clock rs (rt_ticks st)), st\<lparr>rt_ticks := rt_ticks st + 1\<rparr>))"

definition txn_lookup :: "'x RecordStore \<Rightarrow> bytes \<Rightarrow> ('x RecordTransaction, bytes option) comp" where
  "txn_lookup rs k = (\<lambda>st. (kv_get (rs_kv rs) (rt_txn st) k, st))"

text \<open>A computation of the transaction, as one of the record transaction.\<close>

definition on_txn :: "('x, 'a) comp \<Rightarrow> ('x RecordTransaction, 'a) comp" where
  "on_txn m = (\<lambda>st. let (r, x) = m (rt_txn st) in (r, st\<lparr>rt_txn := x\<rparr>))"

definition poison_on_err :: "('x RecordTransaction, 'a) comp \<Rightarrow> ('x RecordTransaction, 'a) comp" where
  "poison_on_err m = (\<lambda>st.
     case m st of
       (Inl e, st') \<Rightarrow> (Inl e, st'\<lparr>rt_poisoned := True\<rparr>)
     | (Inr x, st') \<Rightarrow> (Inr x, st'))"

text \<open>The transaction's own writes. Each place that writes wraps the write in \<open>poison_on_err\<close> itself.\<close>

definition store_put :: "'x RecordStore \<Rightarrow> bytes \<Rightarrow> bytes \<Rightarrow> ('x RecordTransaction, unit) comp" where
  "store_put rs k v = on_txn (kv_put (rs_kv rs) k v)"

definition store_delete :: "'x RecordStore \<Rightarrow> bytes \<Rightarrow> ('x RecordTransaction, unit) comp" where
  "store_delete rs k = on_txn (kv_delete (rs_kv rs) k)"

section \<open>Managed columns\<close>

fun stamp_loop :: "i64 \<Rightarrow> Row option \<Rightarrow> (nat \<times> ColumnDef) list \<Rightarrow> Value list \<Rightarrow> Value list" where
  "stamp_loop now previous [] values = values"
| "stamp_loop now previous ((at, column) # rest) values =
     stamp_loop now previous rest
       (case (col_managed column, col_ty column) of
          (Some managed, TI64) \<Rightarrow>
            values[at :=
              (case managed of
                 CreatedAt \<Rightarrow>
                   (case Option.bind previous (\<lambda>before. get before at) of
                      Some (I64 held) \<Rightarrow> I64 held
                    | _ \<Rightarrow> I64 now)
               | UpdatedAt \<Rightarrow> I64 now)]
        | _ \<Rightarrow> values)"

definition stamp :: "'x RecordStore \<Rightarrow> TableDef \<Rightarrow> Row \<Rightarrow> Row option \<Rightarrow> ('x RecordTransaction, Row option) comp" where
  "stamp rs t row previous =
     (if list_all (\<lambda>c. col_managed c = None) (td_columns t) then sreturn None
      else sbind (clock_now rs) (\<lambda>now.
        sreturn (Some (stamp_loop now previous (enumerate 0 (td_columns t)) row))))"

section \<open>Index entries\<close>

definition entries_for :: "Unicode \<Rightarrow> TableDef \<Rightarrow> IndexDef \<Rightarrow> Row \<Rightarrow> IndexEntry list" where
  "entries_for u t ix row =
     (let primary_key = primary_key_values row t
      in map (\<lambda>values. index_entry t ix values primary_key) (key_sets u ix row))"

definition check_unique ::
  "'x RecordStore \<Rightarrow> TableDef \<Rightarrow> IndexDef \<Rightarrow> IndexEntry \<Rightarrow> Value list \<Rightarrow> ('x RecordTransaction, unit) comp" where
  "check_unique rs t ix entry primary_key =
     sbind (txn_lookup rs (en_key entry)) (\<lambda>found.
       case found of
         None \<Rightarrow> sreturn ()
       | Some existing \<Rightarrow>
           sbind (sresult (map_err KeyDecode (decode existing (primary_key_types t)))) (\<lambda>owner.
           if \<not> list_all2 value_eq owner primary_key
           then sresult (Inl (UniqueViolation (td_name t) (ix_name ix)))
           else sreturn ()))"

definition unchanged :: "IndexEntry \<Rightarrow> IndexEntry list \<Rightarrow> bool" where
  "unchanged entry against = list_ex (\<lambda>other. en_key other = en_key entry) against"

text \<open>One turn of the loop over the indexes.\<close>

definition write_index ::
  "'x RecordStore \<Rightarrow> TableDef \<Rightarrow> Row \<Rightarrow> Row option \<Rightarrow> bool \<Rightarrow> IndexDef \<Rightarrow> ('x RecordTransaction, unit) comp" where
  "write_index rs t row previous verify_unique ix =
     (let u = env_unicode (rs_env rs);
          primary_key = primary_key_values row t;
          new_entries = (if admits ix row then entries_for u t ix row else []);
          old_entries = (case previous of
                           Some old \<Rightarrow> if admits ix old then entries_for u t ix old else []
                         | None \<Rightarrow> [])
      in sbind (seach (\<lambda>old. if \<not> unchanged old new_entries then poison_on_err (store_delete rs (en_key old)) else sreturn ())
                  old_entries) (\<lambda>_.
         seach (\<lambda>new.
             if unchanged new old_entries then sreturn ()
             else
               sbind (if verify_unique \<and> en_enforces_uniqueness new
                      then check_unique rs t ix new primary_key else sreturn ()) (\<lambda>_.
               poison_on_err (store_put rs (en_key new) (en_value new))))
           new_entries))"

definition write_row_with ::
  "'x RecordStore \<Rightarrow> TableDef \<Rightarrow> Row \<Rightarrow> Row option \<Rightarrow> bool \<Rightarrow> ('x RecordTransaction, unit) comp" where
  "write_row_with rs t row previous verify_unique =
     sbind (stamp rs t row previous) (\<lambda>stamped.
     let row = (case stamped of Some r \<Rightarrow> r | None \<Rightarrow> row);
         primary_key = primary_key_values row t
     in sbind (seach (write_index rs t row previous verify_unique) (td_indexes t)) (\<lambda>_.
        poison_on_err (store_put rs (row_key t primary_key) (encode_body t row))))"

definition write_row ::
  "'x RecordStore \<Rightarrow> TableDef \<Rightarrow> Row \<Rightarrow> Row option \<Rightarrow> ('x RecordTransaction, unit) comp" where
  "write_row rs t row previous = write_row_with rs t row previous True"

definition erase_row :: "'x RecordStore \<Rightarrow> TableDef \<Rightarrow> Row \<Rightarrow> ('x RecordTransaction, unit) comp" where
  "erase_row rs t row =
     sbind (seach (\<lambda>ix. seach (\<lambda>entry. poison_on_err (store_delete rs (en_key entry)))
                          (entries_for (env_unicode (rs_env rs)) t ix row))
              (filter (\<lambda>ix. admits ix row) (td_indexes t))) (\<lambda>_.
     poison_on_err (store_delete rs (row_key t (primary_key_values row t))))"

definition remove_row :: "'x RecordStore \<Rightarrow> TableDef \<Rightarrow> Row \<Rightarrow> ('x RecordTransaction, unit) comp" where
  "remove_row rs t row =
     (case td_soft_delete t of
        Some column \<Rightarrow>
          sbind (clock_now rs) (\<lambda>now.
          if column < length row
          then write_row_with rs t (row[column := I64 now]) (Some row) False
          else sresult (Inl (KernelSchema (ColumnCountMismatch (td_name t) (length (td_columns t)) (length row)))))
      | None \<Rightarrow> erase_row rs t row)"

definition commit :: "'x RecordStore \<Rightarrow> ('x RecordTransaction, nat option) comp" where
  "commit rs = (\<lambda>st.
     if rt_poisoned st then (Inl TransactionPoisoned, st\<lparr>rt_txn := kv_rollback (rs_kv rs) (rt_txn st)\<rparr>)
     else on_txn (kv_commit (rs_kv rs)) st)"

definition rollback :: "'x RecordStore \<Rightarrow> 'x RecordTransaction \<Rightarrow> 'x RecordTransaction" where
  "rollback rs st = st\<lparr>rt_txn := kv_rollback (rs_kv rs) (rt_txn st)\<rparr>"

section \<open>The same writes on a map\<close>

type_synonym contents = "bytes \<Rightarrow> bytes option"

definition unique_check :: "TableDef \<Rightarrow> IndexDef \<Rightarrow> IndexEntry \<Rightarrow> Value list \<Rightarrow> contents \<Rightarrow> KernelError + unit" where
  "unique_check t ix entry primary_key m =
     (case m (en_key entry) of
        None \<Rightarrow> Inr ()
      | Some existing \<Rightarrow>
          rbind (map_err KeyDecode (decode existing (primary_key_types t))) (\<lambda>owner.
          if \<not> list_all2 value_eq owner primary_key
          then Inl (UniqueViolation (td_name t) (ix_name ix)) else Inr ()))"

definition delete_entries :: "IndexEntry list \<Rightarrow> IndexEntry list \<Rightarrow> contents \<Rightarrow> contents" where
  "delete_entries olds news m = fold (\<lambda>old m. if unchanged old news then m else m(en_key old := None)) olds m"

definition put_entries ::
  "TableDef \<Rightarrow> IndexDef \<Rightarrow> Value list \<Rightarrow> bool \<Rightarrow> IndexEntry list \<Rightarrow> IndexEntry list \<Rightarrow> contents \<Rightarrow> KernelError + contents" where
  "put_entries t ix primary_key verify_unique olds news m =
     try_fold (\<lambda>m new.
         if unchanged new olds then Inr m
         else
           rbind (if verify_unique \<and> en_enforces_uniqueness new then unique_check t ix new primary_key m else Inr ()) (\<lambda>_.
           Inr (m(en_key new := Some (en_value new))))) m news"

definition held_entries :: "Unicode \<Rightarrow> TableDef \<Rightarrow> IndexDef \<Rightarrow> Row \<Rightarrow> IndexEntry list" where
  "held_entries u t ix row = (if admits ix row then entries_for u t ix row else [])"

definition old_entries :: "Unicode \<Rightarrow> TableDef \<Rightarrow> IndexDef \<Rightarrow> Row option \<Rightarrow> IndexEntry list" where
  "old_entries u t ix previous = (case previous of Some old \<Rightarrow> held_entries u t ix old | None \<Rightarrow> [])"

definition index_map ::
  "Unicode \<Rightarrow> TableDef \<Rightarrow> Row \<Rightarrow> Row option \<Rightarrow> bool \<Rightarrow> IndexDef \<Rightarrow> contents \<Rightarrow> KernelError + contents" where
  "index_map u t row previous verify_unique ix m =
     put_entries t ix (primary_key_values row t) verify_unique (old_entries u t ix previous)
       (held_entries u t ix row)
       (delete_entries (old_entries u t ix previous) (held_entries u t ix row) m)"

definition write_map ::
  "Unicode \<Rightarrow> TableDef \<Rightarrow> Row \<Rightarrow> Row option \<Rightarrow> bool \<Rightarrow> contents \<Rightarrow> KernelError + contents" where
  "write_map u t row previous verify_unique m =
     rbind (try_fold (\<lambda>m ix. index_map u t row previous verify_unique ix m) m (td_indexes t)) (\<lambda>m.
     Inr (m(row_key t (primary_key_values row t) := Some (encode_body t row))))"

definition erase_map :: "Unicode \<Rightarrow> TableDef \<Rightarrow> Row \<Rightarrow> contents \<Rightarrow> contents" where
  "erase_map u t row m =
     (fold (\<lambda>ix m. fold (\<lambda>e m. m(en_key e := None)) (held_entries u t ix row) m) (td_indexes t) m)
       (row_key t (primary_key_values row t) := None)"

definition stamped_row :: "'x RecordStore \<Rightarrow> TableDef \<Rightarrow> Row \<Rightarrow> Row option \<Rightarrow> 'x RecordTransaction \<Rightarrow> Row" where
  "stamped_row rs t row previous st =
     (if list_all (\<lambda>c. col_managed c = None) (td_columns t) then row
      else stamp_loop (rs_clock rs (rt_ticks st)) previous (enumerate 0 (td_columns t)) row)"

section \<open>The refinement\<close>

text \<open>A computation acts on the contents as a function does: the same error, or success with the
  contents the function gives, the transaction usable and the clock where it was.\<close>

definition healthy :: "('x \<Rightarrow> bool) \<Rightarrow> 'x RecordTransaction \<Rightarrow> bool" where
  "healthy ok st \<longleftrightarrow> ok (rt_txn st) \<and> \<not> rt_poisoned st"

definition acts ::
  "('x \<Rightarrow> bool) \<Rightarrow> ('x \<Rightarrow> contents) \<Rightarrow> ('x RecordTransaction, unit) comp \<Rightarrow> (contents \<Rightarrow> KernelError + contents) \<Rightarrow> bool" where
  "acts ok view f g \<longleftrightarrow>
     (\<forall>st. healthy ok st \<longrightarrow>
        (case g (view (rt_txn st)) of
           Inl e \<Rightarrow> \<exists>st'. f st = (Inl e, st') \<and> healthy ok st'
         | Inr m \<Rightarrow> \<exists>st'. f st = (Inr (), st') \<and> healthy ok st' \<and> view (rt_txn st') = m \<and> rt_ticks st' = rt_ticks st))"

lemma acts_Inl:
  assumes "acts ok view f g" and "healthy ok st" and "g (view (rt_txn st)) = Inl e"
  shows "\<exists>st'. f st = (Inl e, st') \<and> healthy ok st'"
  using assms unfolding acts_def by (elim allE [of _ st]) simp

lemma acts_Inr:
  assumes "acts ok view f g" and "healthy ok st" and "g (view (rt_txn st)) = Inr m"
  shows "\<exists>st'. f st = (Inr (), st') \<and> healthy ok st' \<and> view (rt_txn st') = m \<and> rt_ticks st' = rt_ticks st"
  using assms unfolding acts_def by (elim allE [of _ st]) simp

lemma actsI:
  assumes "\<And>st e. healthy ok st \<Longrightarrow> g (view (rt_txn st)) = Inl e \<Longrightarrow> \<exists>st'. f st = (Inl e, st') \<and> healthy ok st'"
    and "\<And>st m. healthy ok st \<Longrightarrow> g (view (rt_txn st)) = Inr m \<Longrightarrow>
      \<exists>st'. f st = (Inr (), st') \<and> healthy ok st' \<and> view (rt_txn st') = m \<and> rt_ticks st' = rt_ticks st"
  shows "acts ok view f g"
  unfolding acts_def using assms by (auto split: sum.split)

lemma acts_sreturn: "acts ok view (sreturn ()) Inr"
  by (simp add: acts_def comp_simps)

lemma acts_sbind:
  assumes "acts ok view f g" and "acts ok view f' g'"
  shows "acts ok view (sbind f (\<lambda>_. f')) (\<lambda>m. rbind (g m) g')"
proof (rule actsI)
  fix st e
  assume st: "healthy ok st" and "rbind (g (view (rt_txn st))) g' = Inl e"
  then consider "g (view (rt_txn st)) = Inl e" | m where "g (view (rt_txn st)) = Inr m" "g' m = Inl e"
    by (cases "g (view (rt_txn st))") auto
  then show "\<exists>st'. sbind f (\<lambda>_. f') st = (Inl e, st') \<and> healthy ok st'"
  proof cases
    case 1
    then show ?thesis using acts_Inl [OF assms(1) st] by (auto simp: sbind_def)
  next
    case (2 m)
    then obtain s1 where s1: "f st = (Inr (), s1)" "healthy ok s1" "view (rt_txn s1) = m"
      using acts_Inr [OF assms(1) st] by blast
    then show ?thesis using acts_Inl [OF assms(2) s1(2)] 2(2) by (simp add: sbind_def)
  qed
next
  fix st m
  assume st: "healthy ok st" and "rbind (g (view (rt_txn st))) g' = Inr m"
  then obtain m1 where m1: "g (view (rt_txn st)) = Inr m1" "g' m1 = Inr m" by (auto simp: rbind_eq_Inr)
  then obtain s1 where s1: "f st = (Inr (), s1)" "healthy ok s1" "view (rt_txn s1) = m1" "rt_ticks s1 = rt_ticks st"
    using acts_Inr [OF assms(1) st] by blast
  show "\<exists>st'. sbind f (\<lambda>_. f') st = (Inr (), st') \<and> healthy ok st' \<and> view (rt_txn st') = m \<and> rt_ticks st' = rt_ticks st"
    using acts_Inr [OF assms(2) s1(2)] m1(2) s1 by (simp add: sbind_def)
qed

lemma acts_if: "(b \<Longrightarrow> acts ok view f g) \<Longrightarrow> (\<not> b \<Longrightarrow> acts ok view f' g') \<Longrightarrow>
    acts ok view (if b then f else f') (\<lambda>m. if b then g m else g' m)"
  by (cases b) simp_all

lemma acts_seach: "(\<And>x. x \<in> set xs \<Longrightarrow> acts ok view (f x) (\<lambda>m. g m x)) \<Longrightarrow>
    acts ok view (seach f xs) (\<lambda>m. try_fold g m xs)"
proof (induction xs)
  case (Cons x xs)
  have "acts ok view (seach f xs) (\<lambda>m. try_fold g m xs)" by (rule Cons.IH) (use Cons.prems in auto)
  from acts_sbind [OF Cons.prems [of x] this] show ?case by simp
qed (simp add: acts_sreturn)

lemma try_fold_total: "try_fold (\<lambda>s x. Inr (g x s)) s xs = Inr (fold g xs s)"
  by (induction xs arbitrary: s) simp_all

context kv_transaction
begin

lemma acts_put: "rs_kv rs = kv \<Longrightarrow> acts ok view (poison_on_err (store_put rs k v)) (\<lambda>m. Inr (m(k := Some v)))"
proof -
  assume rs: "rs_kv rs = kv"
  show ?thesis
    unfolding acts_def
  proof (intro allI impI)
    fix st assume "healthy ok st"
    then obtain x where "kv_put kv k v (rt_txn st) = (Inr (), x)" "ok x" "view x = (view (rt_txn st))(k := Some v)"
      using put_view [of "rt_txn st" k v] by (auto simp: healthy_def)
    then show "case Inr ((view (rt_txn st))(k := Some v)) of
        Inl e \<Rightarrow> \<exists>st'. poison_on_err (store_put rs k v) st = (Inl e, st') \<and> healthy ok st'
      | Inr m \<Rightarrow> \<exists>st'. poison_on_err (store_put rs k v) st = (Inr (), st') \<and> healthy ok st' \<and> view (rt_txn st') = m \<and> rt_ticks st' = rt_ticks st"
      using \<open>healthy ok st\<close> by (simp add: store_put_def poison_on_err_def on_txn_def rs healthy_def)
  qed
qed

lemma acts_delete: "rs_kv rs = kv \<Longrightarrow> acts ok view (poison_on_err (store_delete rs k)) (\<lambda>m. Inr (m(k := None)))"
proof -
  assume rs: "rs_kv rs = kv"
  show ?thesis
    unfolding acts_def
  proof (intro allI impI)
    fix st assume "healthy ok st"
    then obtain x where "kv_delete kv k (rt_txn st) = (Inr (), x)" "ok x" "view x = (view (rt_txn st))(k := None)"
      using delete_view [of "rt_txn st" k] by (auto simp: healthy_def)
    then show "case Inr ((view (rt_txn st))(k := None)) of
        Inl e \<Rightarrow> \<exists>st'. poison_on_err (store_delete rs k) st = (Inl e, st') \<and> healthy ok st'
      | Inr m \<Rightarrow> \<exists>st'. poison_on_err (store_delete rs k) st = (Inr (), st') \<and> healthy ok st' \<and> view (rt_txn st') = m \<and> rt_ticks st' = rt_ticks st"
      using \<open>healthy ok st\<close> by (simp add: store_delete_def poison_on_err_def on_txn_def rs healthy_def)
  qed
qed

lemma acts_check_unique:
  assumes "rs_kv rs = kv"
  shows "acts ok view (check_unique rs t ix entry pk) (\<lambda>m. rbind (unique_check t ix entry pk m) (\<lambda>_. Inr m))"
  unfolding acts_def
proof (intro allI impI)
  fix st assume "healthy ok st"
  then have look: "txn_lookup rs (en_key entry) st = (Inr (view (rt_txn st) (en_key entry)), st)"
    using get_view by (simp add: txn_lookup_def assms healthy_def)
  show "case rbind (unique_check t ix entry pk (view (rt_txn st))) (\<lambda>_. Inr (view (rt_txn st))) of
      Inl e \<Rightarrow> \<exists>st'. check_unique rs t ix entry pk st = (Inl e, st') \<and> healthy ok st'
    | Inr m \<Rightarrow> \<exists>st'. check_unique rs t ix entry pk st = (Inr (), st') \<and> healthy ok st' \<and> view (rt_txn st') = m \<and> rt_ticks st' = rt_ticks st"
  proof (cases "view (rt_txn st) (en_key entry)")
    case None
    then show ?thesis
      using look \<open>healthy ok st\<close> by (simp add: check_unique_def unique_check_def sbind_run(2) sreturn_run)
  next
    case (Some existing)
    then show ?thesis
      using look \<open>healthy ok st\<close>
      by (cases "decode existing (primary_key_types t)")
        (simp_all add: check_unique_def unique_check_def sbind_run(2) comp_simps)
  qed
qed

lemma acts_write_index:
  assumes "rs_kv rs = kv"
  shows "acts ok view (write_index rs t row previous verify_unique ix)
    (index_map (env_unicode (rs_env rs)) t row previous verify_unique ix)"
proof -
  let ?u = "env_unicode (rs_env rs)" and ?pk = "primary_key_values row t"
  let ?news = "held_entries ?u t ix row" and ?olds = "old_entries ?u t ix previous"
  have "acts ok view (if \<not> unchanged old ?news then poison_on_err (store_delete rs (en_key old)) else sreturn ())
      (\<lambda>m. Inr (if unchanged old ?news then m else m(en_key old := None)))" for old
    using acts_if [OF acts_delete [OF assms] acts_sreturn, of "\<not> unchanged old ?news" "en_key old"]
    by (cases "unchanged old ?news") simp_all
  from acts_seach [OF this, where xs = ?olds]
  have del: "acts ok view (seach (\<lambda>old. if \<not> unchanged old ?news then poison_on_err (store_delete rs (en_key old)) else sreturn ()) ?olds)
      (\<lambda>m. Inr (delete_entries ?olds ?news m))"
    unfolding try_fold_total delete_entries_def .
  have verify: "acts ok view (if verify_unique \<and> en_enforces_uniqueness new then check_unique rs t ix new ?pk else sreturn ())
      (\<lambda>m. rbind (if verify_unique \<and> en_enforces_uniqueness new then unique_check t ix new ?pk m else Inr ()) (\<lambda>_. Inr m))" for new
    using acts_check_unique [OF assms] acts_sreturn
    by (cases verify_unique; cases "en_enforces_uniqueness new") simp_all
  let ?f = "\<lambda>new. if unchanged new ?olds then sreturn ()
    else sbind (if verify_unique \<and> en_enforces_uniqueness new then check_unique rs t ix new ?pk else sreturn ()) (\<lambda>_.
         poison_on_err (store_put rs (en_key new) (en_value new)))"
  let ?g = "\<lambda>m new. if unchanged new ?olds then Inr m
    else rbind (if verify_unique \<and> en_enforces_uniqueness new then unique_check t ix new ?pk m else Inr ()) (\<lambda>_.
         Inr (m(en_key new := Some (en_value new))))"
  have "acts ok view (?f new) (\<lambda>m. ?g m new)" for new
    using acts_if [OF acts_sreturn acts_sbind [OF verify acts_put [OF assms]],
        of "unchanged new ?olds" new "en_key new" "en_value new"] by (simp only: rbind_assoc rbind_simps)
  then have "acts ok view (seach ?f ?news) (\<lambda>m. try_fold ?g m ?news)" by (intro acts_seach)
  from acts_sbind [OF del this] show ?thesis
    unfolding write_index_def index_map_def [abs_def] put_entries_def [abs_def] Let_def
      held_entries_def [symmetric] old_entries_def [symmetric] rbind_simps .
qed

text \<open>The row a write stores: the row given, or its stamped copy, which takes one reading of the
  clock.\<close>

lemma stamp_run:
  "stamp rs t row previous st =
     (if list_all (\<lambda>c. col_managed c = None) (td_columns t) then (Inr None, st)
      else (Inr (Some (stamp_loop (rs_clock rs (rt_ticks st)) previous (enumerate 0 (td_columns t)) row)),
            st\<lparr>rt_ticks := rt_ticks st + 1\<rparr>))"
  by (simp add: stamp_def clock_now_def sbind_def comp_simps)

lemma write_row_run:
  assumes "rs_kv rs = kv" and "healthy ok st" and r_def: "r = stamped_row rs t row previous st"
  shows "case write_map (env_unicode (rs_env rs)) t r previous verify_unique (view (rt_txn st)) of
      Inl e \<Rightarrow> \<exists>st'. write_row_with rs t row previous verify_unique st = (Inl e, st') \<and> healthy ok st'
    | Inr m \<Rightarrow> \<exists>st'. write_row_with rs t row previous verify_unique st = (Inr (), st') \<and> healthy ok st' \<and> view (rt_txn st') = m"
proof -
  obtain st1 where st1: "write_row_with rs t row previous verify_unique st =
      sbind (seach (write_index rs t r previous verify_unique) (td_indexes t)) (\<lambda>_.
        poison_on_err (store_put rs (row_key t (primary_key_values r t)) (encode_body t r))) st1"
    "healthy ok st1" "rt_txn st1 = rt_txn st"
    using assms(2)
    by (cases "list_all (\<lambda>c. col_managed c = None) (td_columns t)")
      (auto simp: write_row_with_def sbind_def [of "stamp rs t row previous"] stamp_run r_def stamped_row_def
        healthy_def Let_def)
  have acts: "acts ok view (sbind (seach (write_index rs t r previous verify_unique) (td_indexes t)) (\<lambda>_.
        poison_on_err (store_put rs (row_key t (primary_key_values r t)) (encode_body t r))))
      (write_map (env_unicode (rs_env rs)) t r previous verify_unique)"
    unfolding write_map_def [abs_def]
    by (intro acts_sbind acts_seach acts_write_index acts_put assms(1))
  show ?thesis
    using acts_Inl [OF acts st1(2)] acts_Inr [OF acts st1(2)] st1(1,3) by (auto split: sum.split)
qed

lemma acts_erase:
  assumes "rs_kv rs = kv"
  shows "acts ok view (erase_row rs t row) (\<lambda>m. Inr (erase_map (env_unicode (rs_env rs)) t row m))"
proof -
  let ?u = "env_unicode (rs_env rs)"
  have del: "acts ok view (seach (\<lambda>entry. poison_on_err (store_delete rs (en_key entry))) es)
      (\<lambda>m. Inr (fold (\<lambda>e m. m(en_key e := None)) es m))" for es
    using acts_seach [where f = "\<lambda>e. poison_on_err (store_delete rs (en_key e))" and g = "\<lambda>m e. Inr (m(en_key e := None))" and xs = es,
        OF acts_delete [OF assms]]
    by (simp add: try_fold_total)
  have "acts ok view (seach (\<lambda>ix. seach (\<lambda>entry. poison_on_err (store_delete rs (en_key entry))) (entries_for ?u t ix row)) ixs)
      (\<lambda>m. Inr (fold (\<lambda>ix m. fold (\<lambda>e m. m(en_key e := None)) (entries_for ?u t ix row) m) ixs m))" for ixs
    using acts_seach [where f = "\<lambda>ix. seach (\<lambda>entry. poison_on_err (store_delete rs (en_key entry))) (entries_for ?u t ix row)"
        and g = "\<lambda>m ix. Inr (fold (\<lambda>e m. m(en_key e := None)) (entries_for ?u t ix row) m)" and xs = ixs, OF del]
    by (simp add: try_fold_total)
  note all = acts_sbind [OF this [of "filter (\<lambda>ix. admits ix row) (td_indexes t)"]
      acts_delete [OF assms, of "row_key t (primary_key_values row t)"]]
  have "fold (\<lambda>ix m. fold (\<lambda>e m. m(en_key e := None)) (entries_for ?u t ix row) m) (filter (\<lambda>ix. admits ix row) ixs) m =
      fold (\<lambda>ix m. fold (\<lambda>e m. m(en_key e := None)) (held_entries ?u t ix row) m) ixs m" for ixs and m :: contents
    by (induction ixs arbitrary: m) (simp_all add: held_entries_def)
  then show ?thesis using all by (simp add: erase_row_def erase_map_def)
qed

end

end
