(* ===== verification/Record_Index.thy ===== *)
theory Record_Index
  imports Record_Write
begin

text \<open>
  Rows and indexes stay in step. A table's part of the store represents a set of rows when its row
  keys hold exactly these rows and each of its indexes holds exactly their entries. Writing a row
  replaces the row under its key in that set, or is refused by a unique index, and touches nothing
  else; erasing one removes it.
\<close>

section \<open>The set of rows a store represents\<close>

abbreviation key_of :: "TableDef \<Rightarrow> Row \<Rightarrow> bytes" where
  "key_of t row \<equiv> row_key t (primary_key_values row t)"

text \<open>A row as it reads back: floats and array elements in the form the decoder gives.\<close>

definition canonical :: "Row \<Rightarrow> bool" where
  "canonical row \<longleftrightarrow> map canon row = row"

definition stored_ok :: "TableDef \<Rightarrow> Row \<Rightarrow> bool" where
  "stored_ok t row \<longleftrightarrow> row_ok t row \<and> canonical row \<and> length (key_of t row) < 2 ^ 64"

definition represents :: "Unicode \<Rightarrow> TableDef \<Rightarrow> Row set \<Rightarrow> contents \<Rightarrow> bool" where
  "represents u t R m \<longleftrightarrow>
     (\<forall>r\<in>R. stored_ok t r) \<and>
     (\<forall>k. prefix (table_prefix t) k \<longrightarrow> m k \<noteq> None \<longrightarrow> (\<exists>r\<in>R. key_of t r = k)) \<and>
     (\<forall>r\<in>R. \<exists>body. m (key_of t r) = Some body \<and> decode_row t (primary_key_values r t) body = Inr r) \<and>
     (\<forall>ix\<in>set (td_indexes t). \<forall>k v. prefix (index_prefix_of (ix_id ix)) k \<longrightarrow>
        (m k = Some v \<longleftrightarrow> (\<exists>r\<in>R. \<exists>e\<in>set (held_entries u t ix r). en_key e = k \<and> en_value e = v)))"

text \<open>The keys of a table: its rows' and its indexes'.\<close>

definition own_key :: "TableDef \<Rightarrow> bytes \<Rightarrow> bool" where
  "own_key t k \<longleftrightarrow> prefix (table_prefix t) k \<or> (\<exists>ix\<in>set (td_indexes t). prefix (index_prefix_of (ix_id ix)) k)"

text \<open>The row a write replaces is the one under its key.\<close>

definition replaces :: "TableDef \<Rightarrow> Row set \<Rightarrow> Row \<Rightarrow> Row option \<Rightarrow> bool" where
  "replaces t R row previous \<longleftrightarrow>
     (case previous of
        Some old \<Rightarrow> old \<in> R \<and> key_of t old = key_of t row
      | None \<Rightarrow> \<forall>s\<in>R. key_of t s \<noteq> key_of t row)"

definition others :: "Row set \<Rightarrow> Row option \<Rightarrow> Row set" where
  "others R previous = R - set_option previous"

definition has_key :: "bytes \<Rightarrow> IndexEntry list \<Rightarrow> bool" where
  "has_key k es \<longleftrightarrow> (\<exists>e\<in>set es. en_key e = k)"

text \<open>Another row holds an entry under a key the row would write.\<close>

definition collides :: "Unicode \<Rightarrow> TableDef \<Rightarrow> Row set \<Rightarrow> Row option \<Rightarrow> Row \<Rightarrow> IndexDef \<Rightarrow> bool" where
  "collides u t R previous row ix \<longleftrightarrow>
     (\<exists>s\<in>others R previous. \<exists>e\<in>set (held_entries u t ix s). has_key (en_key e) (held_entries u t ix row))"

section \<open>Keys of rows and entries\<close>

lemma canonical_key: "canonical row \<Longrightarrow> map canon (primary_key_values row t) = primary_key_values row t"
proof -
  assume "canonical row"
  then have "canon (value_or_null row i) = value_or_null row i" for i
    unfolding canonical_def by (cases "i < length row") (auto simp: value_or_null_def get_def list_eq_iff_nth_eq)
  then show ?thesis by (simp add: primary_key_values_def project_def)
qed

lemma key_of_eq:
  assumes "table_ok t" and "stored_ok t r" and "stored_ok t s" and "key_of t r = key_of t s"
  shows "primary_key_values r t = primary_key_values s t"
proof -
  have "decode_row_key t (key_of t x) = Inr (primary_key_values x t)" if "stored_ok t x" for x
    using that decode_row_key_bytes [of t "primary_key_values x t"] row_key_fits [OF assms(1), of x] canonical_key
    by (simp add: stored_ok_def)
  then show ?thesis using assms(2-4) by (metis Inr_inject)
qed

lemma key_of_value_eq:
  assumes "table_ok t" and "row_ok t r" and "row_ok t s"
  shows "list_all2 value_eq (primary_key_values r t) (primary_key_values s t) \<longleftrightarrow> key_of t r = key_of t s"
proof -
  have "list_all wf_value (primary_key_values r t)" "list_all wf_value (primary_key_values s t)"
    "length (primary_key_values r t) = length (primary_key_values s t)"
    using row_key_fits [OF assms(1)] key_fits_wf assms(2,3) by (blast, blast, simp add: primary_key_values_def)
  from tuple_split [OF this, of "[]" "[]" "[]"] show ?thesis by (simp add: row_key_bytes)
qed

lemma represented_once:
  assumes "table_ok t" and "represents u t R m" and "r \<in> R" and "s \<in> R" and "key_of t r = key_of t s"
  shows "r = s"
proof -
  have ok: "stored_ok t r" "stored_ok t s" using assms(2-4) by (auto simp: represents_def)
  have "primary_key_values r t = primary_key_values s t" by (rule key_of_eq [OF assms(1) ok assms(5)])
  moreover obtain body where "m (key_of t r) = Some body" "decode_row t (primary_key_values r t) body = Inr r"
    using assms(2,3) by (auto simp: represents_def)
  moreover obtain body' where "m (key_of t s) = Some body'" "decode_row t (primary_key_values s t) body' = Inr s"
    using assms(2,4) by (auto simp: represents_def)
  ultimately show ?thesis by simp
qed

lemma held_entry:
  assumes "table_ok t" and "row_ok t r" and "unicode_ok u" and "ix \<in> set (td_indexes t)"
    and "e \<in> set (held_entries u t ix r)"
  obtains vs where "entry_values ix vs" and "e = index_entry t ix vs (primary_key_values r t)"
  using assms key_sets_entry [OF assms(1-4)]
  by (auto simp: held_entries_def entries_for_def Let_def split: if_splits)

lemma held_entry_space:
  assumes "table_ok t" and "row_ok t r" and "unicode_ok u" and "ix \<in> set (td_indexes t)"
    and "e \<in> set (held_entries u t ix r)"
  shows "prefix (index_prefix_of (ix_id ix)) (en_key e)"
proof -
  obtain vs where "entry_values ix vs" "e = index_entry t ix vs (primary_key_values r t)"
    by (rule held_entry [OF assms])
  then show ?thesis by (simp add: index_entry_bytes entry_values_def index_prefix_of_def prefix_def)
qed

text \<open>Two entries of one index under one key enforce uniqueness, or are the same row's.\<close>

lemma same_entry_key:
  assumes "table_ok t" and "unicode_ok u" and "ix \<in> set (td_indexes t)"
    and "row_ok t r" and "e \<in> set (held_entries u t ix r)"
    and "row_ok t s" and "f \<in> set (held_entries u t ix s)" and "en_key e = en_key f"
  shows "en_enforces_uniqueness e = en_enforces_uniqueness f \<and>
    (en_enforces_uniqueness e \<or> key_of t r = key_of t s) \<and>
    (key_of t r = key_of t s \<longrightarrow> en_value e = en_value f) \<and>
    (en_enforces_uniqueness e \<longrightarrow> en_value e = en_value f \<longrightarrow> key_of t r = key_of t s)"
proof -
  obtain vs where e: "entry_values ix vs" "e = index_entry t ix vs (primary_key_values r t)"
    by (rule held_entry [OF assms(1,4,2,3,5)])
  obtain ws where f: "entry_values ix ws" "f = index_entry t ix ws (primary_key_values s t)"
    by (rule held_entry [OF assms(1,6,2,3,7)])
  have fits: "key_fits t (primary_key_values r t)" "key_fits t (primary_key_values s t)"
    "primary_key_values r t \<noteq> []" "primary_key_values s t \<noteq> []"
    using row_key_fits [OF assms(1)] assms(4,6) by blast+
  have eq: "list_all2 value_eq vs ws" "enforces ix vs \<or> key_of t r = key_of t s"
    using index_key_eq [OF fits e(1) f(1)] assms(8) key_of_value_eq [OF assms(1,4,6)]
    unfolding e(2) f(2) by simp_all
  then have "enforces ix vs = enforces ix ws" using enforces_cong by blast
  then show ?thesis
    using eq(2) e f by (simp add: index_entry_bytes entry_values_def row_key_bytes)
qed

lemma unique_single:
  assumes "table_ok t" and "ix \<in> set (td_indexes t)" and "ix_unique ix"
  shows "key_sets u ix row = [key_values ix row]"
proof -
  have "index_ok (td_columns t) ix" using assms(1,2) by (simp add: table_ok_def Let_def)
  then show ?thesis using assms(3) by (auto simp: index_ok_def key_sets_def)
qed

lemma enforcing_unique: "en_enforces_uniqueness e \<Longrightarrow> e \<in> set (held_entries u t ix r) \<Longrightarrow> ix_unique ix"
  by (auto simp: held_entries_def entries_for_def index_entry_def Let_def split: if_splits)

section \<open>One index\<close>

lemma has_key_simps [simp]: "\<not> has_key k []" "has_key k (e # es) \<longleftrightarrow> en_key e = k \<or> has_key k es"
  by (auto simp: has_key_def)

lemma has_key_member: "e \<in> set es \<Longrightarrow> has_key (en_key e) es"
  by (auto simp: has_key_def)

lemma unchanged_iff: "unchanged e es \<longleftrightarrow> has_key (en_key e) es"
  by (auto simp: unchanged_def list_ex_iff has_key_def)

lemma delete_entries_eq:
  "delete_entries olds news m k = (if has_key k olds \<and> \<not> has_key k news then None else m k)"
  unfolding delete_entries_def by (induction olds arbitrary: m) (auto simp: unchanged_iff)

lemma put_entries_eq:
  assumes "put_entries t ix pk v olds news m = Inr m'"
    and "\<And>e f. e \<in> set news \<Longrightarrow> f \<in> set news \<Longrightarrow> en_key e = en_key f \<Longrightarrow> en_value e = en_value f"
  shows "(\<forall>k. \<not> has_key k news \<or> has_key k olds \<longrightarrow> m' k = m k) \<and>
    (\<forall>e\<in>set news. \<not> has_key (en_key e) olds \<longrightarrow> m' (en_key e) = Some (en_value e))"
  using assms
proof (induction news arbitrary: m)
  case Nil
  then show ?case by (simp add: put_entries_def)
next
  case (Cons n ns)
  show ?case
  proof (cases "unchanged n olds")
    case True
    then have "put_entries t ix pk v olds ns m = Inr m'" using Cons.prems(1) by (simp add: put_entries_def)
    note IH = Cons.IH [OF this Cons.prems(2)]
    have "(\<forall>k. \<not> has_key k ns \<or> has_key k olds \<longrightarrow> m' k = m k) \<and>
        (\<forall>e\<in>set ns. \<not> has_key (en_key e) olds \<longrightarrow> m' (en_key e) = Some (en_value e))"
      by (rule IH) simp_all
    then show ?thesis using True by (auto simp: unchanged_iff)
  next
    case False
    then have "put_entries t ix pk v olds ns (m(en_key n := Some (en_value n))) = Inr m'"
      using Cons.prems(1) by (auto simp: put_entries_def rbind_eq_Inr split: if_splits)
    note IH = Cons.IH [OF this Cons.prems(2)]
    have same: "(\<forall>k. \<not> has_key k ns \<or> has_key k olds \<longrightarrow> m' k = (m(en_key n := Some (en_value n))) k) \<and>
        (\<forall>e\<in>set ns. \<not> has_key (en_key e) olds \<longrightarrow> m' (en_key e) = Some (en_value e))"
      by (rule IH) simp_all
    have "m' (en_key n) = Some (en_value n)"
    proof (cases "has_key (en_key n) ns")
      case True
      then obtain e where e: "e \<in> set ns" "en_key e = en_key n" by (auto simp: has_key_def)
      then have "en_value e = en_value n" using Cons.prems(2) [of e n] by simp
      then show ?thesis using same e False unchanged_iff by metis
    next
      case fresh: False
      then show ?thesis using same by simp
    qed
    then show ?thesis using same False by (auto simp: unchanged_iff)
  qed
qed

lemma entry_owner:
  assumes "table_ok t" and "unicode_ok u" and "represents u t R m" and "ix \<in> set (td_indexes t)"
    and "r \<in> R" and "e \<in> set (held_entries u t ix r)" and "s \<in> R" and "f \<in> set (held_entries u t ix s)"
    and "en_key e = en_key f"
  shows "r = s"
proof -
  have ok: "row_ok t r" "row_ok t s" using assms(3,5,7) by (auto simp: represents_def stored_ok_def)
  have p: "prefix (index_prefix_of (ix_id ix)) (en_key e)" by (rule held_entry_space [OF assms(1) ok(1) assms(2,4,6)])
  have "m (en_key e) = Some (en_value e)" "m (en_key e) = Some (en_value f)"
    using assms(3-9) p unfolding represents_def by metis+
  then have "en_value e = en_value f" by simp
  then have "key_of t r = key_of t s"
    using same_entry_key [OF assms(1,2,4) ok(1) assms(6) ok(2) assms(8,9)] by blast
  then show ?thesis using represented_once [OF assms(1,3,5,7)] by blast
qed

text \<open>What all lemmas on one write share: the row, the rows it joins and the row it replaces.\<close>

definition write_ready :: "Unicode \<Rightarrow> TableDef \<Rightarrow> Row set \<Rightarrow> contents \<Rightarrow> Row \<Rightarrow> Row option \<Rightarrow> bool" where
  "write_ready u t R m row previous \<longleftrightarrow>
     table_ok t \<and> unicode_ok u \<and> represents u t R m \<and> stored_ok t row \<and> replaces t R row previous"

lemma old_entries_cases:
  assumes "e \<in> set (old_entries u t ix previous)"
  obtains p where "previous = Some p" and "e \<in> set (held_entries u t ix p)"
  using assms by (cases previous) (auto simp: old_entries_def)

lemma others_key:
  assumes "write_ready u t R m r previous" and "s \<in> others R previous"
  shows "s \<in> R \<and> key_of t s \<noteq> key_of t r"
proof -
  have s: "s \<in> R" using assms(2) by (simp add: others_def)
  have "key_of t s \<noteq> key_of t r"
  proof (cases previous)
    case None
    then show ?thesis using assms(1) s by (auto simp: write_ready_def replaces_def)
  next
    case (Some p)
    then have "p \<in> R" "key_of t p = key_of t r" "s \<noteq> p"
      using assms by (auto simp: write_ready_def replaces_def others_def)
    then show ?thesis using represented_once [of t u R m s p] assms(1) s by (auto simp: write_ready_def)
  qed
  with s show ?thesis by blast
qed

text \<open>A collision is always between enforcing entries, and never about a key the row already holds.\<close>

lemma collision:
  assumes "write_ready u t R m r previous" and "ix \<in> set (td_indexes t)"
    and "s \<in> others R previous" and "f \<in> set (held_entries u t ix s)"
    and "e \<in> set (held_entries u t ix r)" and "en_key e = en_key f"
  shows "en_enforces_uniqueness e \<and> en_enforces_uniqueness f \<and> \<not> has_key (en_key e) (old_entries u t ix previous)"
proof -
  have s: "s \<in> R" "key_of t s \<noteq> key_of t r" using others_key [OF assms(1,3)] by blast+
  have T: "table_ok t" "unicode_ok u" "represents u t R m" "row_ok t r" "row_ok t s"
    using assms(1) s(1) by (auto simp: write_ready_def stored_ok_def represents_def)
  have "\<not> has_key (en_key e) (old_entries u t ix previous)"
  proof
    assume "has_key (en_key e) (old_entries u t ix previous)"
    then obtain p g where g: "previous = Some p" "g \<in> set (held_entries u t ix p)" "en_key g = en_key e"
      by (auto simp: has_key_def elim: old_entries_cases)
    have "p \<in> R" using assms(1) g(1) by (simp add: write_ready_def replaces_def)
    then have "s = p" using entry_owner [OF T(1-3) assms(2) s(1) assms(4) _ g(2)] g(3) assms(6) by simp
    then show False using assms(3) g(1) by (simp add: others_def)
  qed
  then show ?thesis
    using same_entry_key [OF T(1,2) assms(2) T(4) assms(5) T(5) assms(4,6)] s(2) by auto
qed

lemma index_map_ok:
  assumes "write_ready u t R m0 r previous" and "ix \<in> set (td_indexes t)"
    and agree: "\<And>k. prefix (index_prefix_of (ix_id ix)) k \<Longrightarrow> m k = m0 k"
    and run: "index_map u t r previous v ix m = Inr m'" and "\<not> collides u t R previous r ix"
  shows "(\<forall>k. \<not> prefix (index_prefix_of (ix_id ix)) k \<longrightarrow> m' k = m k) \<and>
    (\<forall>k val. prefix (index_prefix_of (ix_id ix)) k \<longrightarrow>
       (m' k = Some val \<longleftrightarrow>
        (\<exists>s\<in>insert r (others R previous). \<exists>e\<in>set (held_entries u t ix s). en_key e = k \<and> en_value e = val)))"
proof -
  let ?O = "old_entries u t ix previous" and ?N = "held_entries u t ix r"
  have T: "table_ok t" "unicode_ok u" "represents u t R m0" "row_ok t r"
    using assms(1) by (auto simp: write_ready_def stored_ok_def)
  have rows: "row_ok t s" if "s \<in> R" for s using T(3) that by (auto simp: represents_def stored_ok_def)
  have prev: "p \<in> R \<and> key_of t p = key_of t r" if "previous = Some p" for p
    using assms(1) that by (simp add: write_ready_def replaces_def)
  have spaceN: "prefix (index_prefix_of (ix_id ix)) k" if "has_key k ?N" for k
    using that held_entry_space [OF T(1,4,2) assms(2)] by (auto simp: has_key_def)
  have spaceO: "prefix (index_prefix_of (ix_id ix)) k" if "has_key k ?O" for k
    using that prev rows held_entry_space [OF T(1) _ T(2) assms(2)]
    by (auto simp: has_key_def elim!: old_entries_cases)
  have same: "en_value e = en_value f" if "e \<in> set ?N" "f \<in> set ?N" "en_key e = en_key f" for e f
    using same_entry_key [OF T(1,2) assms(2) T(4) that(1) T(4) that(2,3)] by simp
  have oldnew: "en_value e = en_value f" if "e \<in> set ?N" "f \<in> set ?O" "en_key e = en_key f" for e f
    using same_entry_key [OF T(1,2) assms(2) T(4) that(1)] that prev rows
    by (metis old_entries_cases)
  have mk: "m k = Some val \<longleftrightarrow> (\<exists>s\<in>R. \<exists>e\<in>set (held_entries u t ix s). en_key e = k \<and> en_value e = val)"
    if "prefix (index_prefix_of (ix_id ix)) k" for k val
    using agree [OF that] T(3) assms(2) that by (auto simp: represents_def)
  have only: "has_key k (held_entries u t ix s) \<Longrightarrow> \<not> has_key k ?N" if "s \<in> others R previous" for s k
    using assms(5) that by (auto simp: collides_def has_key_def)
  note put = put_entries_eq [OF run [unfolded index_map_def] same]
  have keep: "m' k = (if has_key k ?O \<and> \<not> has_key k ?N then None else m k)" if "\<not> has_key k ?N \<or> has_key k ?O" for k
    using put that delete_entries_eq [of ?O ?N m k] by metis
  have new: "m' (en_key e) = Some (en_value e)" if "e \<in> set ?N" "\<not> has_key (en_key e) ?O" for e
    using put that by blast
  have inside: "m' k = Some val \<longleftrightarrow>
      (\<exists>e\<in>set ?N. en_key e = k \<and> en_value e = val) \<or>
      (\<exists>s\<in>others R previous. \<exists>e\<in>set (held_entries u t ix s). en_key e = k \<and> en_value e = val)"
    if k: "prefix (index_prefix_of (ix_id ix)) k" for k val
  proof (cases "has_key k ?N")
    case True
    then obtain e where e: "e \<in> set ?N" "en_key e = k" by (auto simp: has_key_def)
    have "m' k = Some (en_value e)"
    proof (cases "has_key k ?O")
      case False
      then show ?thesis using new e by blast
    next
      case old: True
      then obtain f p where f: "f \<in> set ?O" "en_key f = k" "previous = Some p" "f \<in> set (held_entries u t ix p)"
        by (metis has_key_def old_entries_cases)
      then have "m k = Some (en_value f)" using mk [OF k] prev by blast
      moreover have "en_value e = en_value f" using oldnew [of e f] e f by simp
      ultimately show ?thesis using keep [of k] old True by simp
    qed
    moreover have "(\<exists>f\<in>set ?N. en_key f = k \<and> en_value f = val) \<longleftrightarrow> en_value e = val"
      using same e by metis
    moreover have "\<not> (\<exists>s\<in>others R previous. \<exists>e\<in>set (held_entries u t ix s). en_key e = k \<and> en_value e = val)"
      using only True by (metis has_key_def)
    ultimately show ?thesis by (simp only: option.inject) blast
  next
    case False
    then have none: "\<not> (\<exists>e\<in>set ?N. en_key e = k)" by (simp add: has_key_def)
    show ?thesis
    proof (cases "has_key k ?O")
      case True
      then obtain f p where f: "en_key f = k" "previous = Some p" "f \<in> set (held_entries u t ix p)"
        by (metis has_key_def old_entries_cases)
      have "\<not> (\<exists>s\<in>others R previous. \<exists>e\<in>set (held_entries u t ix s). en_key e = k)"
        using entry_owner [OF T(1-3) assms(2) _ _ _ f(3)] f prev by (auto simp: others_def)
      then show ?thesis using keep [of k] True False none by auto
    next
      case fresh: False
      then have "(\<exists>s\<in>R. \<exists>e\<in>set (held_entries u t ix s). en_key e = k \<and> en_value e = val) \<longleftrightarrow>
          (\<exists>s\<in>others R previous. \<exists>e\<in>set (held_entries u t ix s). en_key e = k \<and> en_value e = val)"
        by (cases previous) (auto simp: others_def old_entries_def has_key_def)
      then show ?thesis using keep [of k] False fresh none mk [OF k] by auto
    qed
  qed
  have "m' k = m k" if "\<not> prefix (index_prefix_of (ix_id ix)) k" for k
  proof -
    have "\<not> has_key k ?N" "\<not> has_key k ?O" using spaceN spaceO that by blast+
    then show ?thesis using keep [of k] by simp
  qed
  then show ?thesis using inside by auto
qed

lemma put_entries_total:
  assumes "\<And>n. n \<in> set news \<Longrightarrow> \<not> (v \<and> en_enforces_uniqueness n \<and> \<not> unchanged n olds)"
  shows "\<exists>m'. put_entries t ix pk v olds news m = Inr m'"
  using assms
proof (induction news arbitrary: m)
  case (Cons n ns)
  have IH: "\<exists>m'. put_entries t ix pk v olds ns m1 = Inr m'" for m1 by (rule Cons.IH) (use Cons.prems in auto)
  then show ?case using Cons.prems [of n] by (auto simp: put_entries_def)
qed (simp add: put_entries_def)

text \<open>The unique check refuses exactly the collisions.\<close>

lemma index_map_result:
  assumes "write_ready u t R m0 r previous" and "ix \<in> set (td_indexes t)"
    and agree: "\<And>k. prefix (index_prefix_of (ix_id ix)) k \<Longrightarrow> m k = m0 k"
  shows "if v \<and> collides u t R previous r ix
    then index_map u t r previous v ix m = Inl (UniqueViolation (td_name t) (ix_name ix))
    else \<exists>m'. index_map u t r previous v ix m = Inr m'"
proof -
  let ?O = "old_entries u t ix previous" and ?N = "held_entries u t ix r"
  let ?m1 = "delete_entries ?O ?N m" and ?pk = "primary_key_values r t"
  have T: "table_ok t" "unicode_ok u" "represents u t R m0" "row_ok t r"
    using assms(1) by (auto simp: write_ready_def stored_ok_def)
  show ?thesis
  proof (cases "\<exists>e. ?N = [e] \<and> v \<and> en_enforces_uniqueness e \<and> \<not> unchanged e ?O")
    case False
    have calm: "\<not> (v \<and> en_enforces_uniqueness n \<and> \<not> unchanged n ?O)" if n: "n \<in> set ?N" for n
    proof
      assume bad: "v \<and> en_enforces_uniqueness n \<and> \<not> unchanged n ?O"
      then have "ix_unique ix" using enforcing_unique n by blast
      then have "\<exists>e. ?N = [e]"
        using n unique_single [OF T(1) assms(2)] by (auto simp: held_entries_def entries_for_def Let_def split: if_splits)
      then show False using False n bad by auto
    qed
    have "\<not> (v \<and> collides u t R previous r ix)"
    proof
      assume c: "v \<and> collides u t R previous r ix"
      then obtain s f e where "s \<in> others R previous" "f \<in> set (held_entries u t ix s)" "e \<in> set ?N" "en_key e = en_key f"
        by (auto simp: collides_def has_key_def)
      from collision [OF assms(1,2) this] calm [OF this(3)] c show False by (simp add: unchanged_iff)
    qed
    moreover have "\<exists>m'. index_map u t r previous v ix m = Inr m'"
      unfolding index_map_def by (rule put_entries_total) (rule calm)
    ultimately show ?thesis by (simp only: if_False)
  next
    case True
    then obtain e where e: "?N = [e]" "v" "en_enforces_uniqueness e" "\<not> unchanged e ?O" by blast
    have space: "prefix (index_prefix_of (ix_id ix)) (en_key e)"
      using held_entry_space [OF T(1,4,2) assms(2)] e(1) by simp
    have at: "?m1 (en_key e) = m0 (en_key e)"
      using agree [OF space] e(4) by (simp add: delete_entries_eq unchanged_iff)
    have run: "index_map u t r previous v ix m =
        rbind (unique_check t ix e ?pk ?m1) (\<lambda>_. Inr (?m1(en_key e := Some (en_value e))))"
      using e by (simp add: index_map_def put_entries_def rbind_assoc)
    show ?thesis
    proof (cases "m0 (en_key e)")
      case None
      then have "\<not> (\<exists>s\<in>R. \<exists>f\<in>set (held_entries u t ix s). en_key f = en_key e)"
        using T(3) assms(2) space unfolding represents_def by (metis option.distinct(1))
      then have "\<not> collides u t R previous r ix" using e(1) unfolding collides_def others_def by fastforce
      then show ?thesis using run None at by (simp add: unique_check_def)
    next
      case (Some existing)
      then obtain s f where f: "s \<in> R" "f \<in> set (held_entries u t ix s)" "en_key f = en_key e" "en_value f = existing"
        using T(3) assms(2) space unfolding represents_def by metis
      have s: "s \<in> others R previous"
        using f e(4) by (cases previous) (auto simp: others_def old_entries_def unchanged_iff has_key_def)
      have oks: "stored_ok t s" "row_ok t s" using T(3) f(1) by (auto simp: represents_def stored_ok_def)
      have enf: "en_enforces_uniqueness f" using collision [OF assms(1,2) s f(2), of e] e(1) f(3) by simp
      obtain vs where vs: "entry_values ix vs" "f = index_entry t ix vs (primary_key_values s t)"
        by (rule held_entry [OF T(1) oks(2) T(2) assms(2) f(2)])
      then have "existing = tuple_bytes [] (primary_key_values s t)"
        using enf f(4) by (auto simp: index_entry_bytes entry_values_def)
      moreover have "length (tuple_bytes [] (primary_key_values s t)) < 2 ^ 64"
        using oks(1) by (simp add: stored_ok_def row_key_bytes)
      ultimately have dec: "decode existing (primary_key_types t) = Inr (primary_key_values s t)"
        using decode_bytes [of "primary_key_types t" "primary_key_values s t"] row_key_fits [OF T(1) oks(2)]
          canonical_key [of s t] oks(1) by (simp add: key_fits_def stored_ok_def)
      have "\<not> list_all2 value_eq (primary_key_values s t) ?pk"
        using key_of_value_eq [OF T(1) oks(2) T(4)] others_key [OF assms(1) s] by blast
      moreover have "collides u t R previous r ix" unfolding collides_def using e(1) f(3) by (intro bexI [OF _ s] bexI [OF _ f(2)]) simp
      ultimately show ?thesis using run dec Some at e(2) by (simp add: unique_check_def)
    qed
  qed
qed

section \<open>A whole write\<close>

lemma index_spaces_disjoint:
  "prefix (index_prefix_of i) k \<Longrightarrow> prefix (index_prefix_of j) k \<Longrightarrow> i = j"
  "prefix (index_prefix_of i) k \<Longrightarrow> \<not> prefix (table_prefix t) k"
proof -
  show "prefix (index_prefix_of i) k \<Longrightarrow> prefix (index_prefix_of j) k \<Longrightarrow> i = j"
    by (auto simp: index_prefix_of_def prefix_def key_header_def u32_to_be_bytes_inj append_eq_append_conv
        length_to_be)
  show "prefix (index_prefix_of i) k \<Longrightarrow> \<not> prefix (table_prefix t) k"
    by (auto simp: index_prefix_of_def table_prefix_def prefix_def key_header_def INDEX_SPACE_def ROW_SPACE_def)
qed

text \<open>An index holds the entries of a set of rows.\<close>

definition index_holds :: "Unicode \<Rightarrow> TableDef \<Rightarrow> Row set \<Rightarrow> IndexDef \<Rightarrow> contents \<Rightarrow> bool" where
  "index_holds u t R ix m \<longleftrightarrow>
     (\<forall>k v. prefix (index_prefix_of (ix_id ix)) k \<longrightarrow>
        (m k = Some v \<longleftrightarrow> (\<exists>r\<in>R. \<exists>e\<in>set (held_entries u t ix r). en_key e = k \<and> en_value e = v)))"

lemma index_step:
  assumes "write_ready u t R m0 r previous" and "ix \<in> set (td_indexes t)"
    and "\<And>k. prefix (index_prefix_of (ix_id ix)) k \<Longrightarrow> m k = m0 k" and "\<not> collides u t R previous r ix"
  shows "\<exists>m'. index_map u t r previous v ix m = Inr m' \<and>
    (\<forall>k. \<not> prefix (index_prefix_of (ix_id ix)) k \<longrightarrow> m' k = m k) \<and>
    index_holds u t (insert r (others R previous)) ix m'"
proof -
  obtain m' where m': "index_map u t r previous v ix m = Inr m'"
    using index_map_result [OF assms(1-3), of v] assms(4) by auto
  show ?thesis using index_map_ok [OF assms(1-3) m' assms(4)] m' by (auto simp: index_holds_def)
qed

lemma fold_indexes:
  assumes "write_ready u t R m0 r previous" and "set ixs \<subseteq> set (td_indexes t)" and "distinct (map ix_id ixs)"
    and "\<And>ix k. ix \<in> set ixs \<Longrightarrow> prefix (index_prefix_of (ix_id ix)) k \<Longrightarrow> m k = m0 k"
    and "\<And>ix. ix \<in> set ixs \<Longrightarrow> \<not> collides u t R previous r ix"
  shows "\<exists>m'. try_fold (\<lambda>m ix. index_map u t r previous v ix m) m ixs = Inr m' \<and>
    (\<forall>k. (\<forall>ix\<in>set ixs. \<not> prefix (index_prefix_of (ix_id ix)) k) \<longrightarrow> m' k = m k) \<and>
    (\<forall>ix\<in>set ixs. index_holds u t (insert r (others R previous)) ix m')"
  using assms(2-5)
proof (induction ixs arbitrary: m)
  case (Cons x xs)
  obtain m1 where m1: "index_map u t r previous v x m = Inr m1"
    "\<And>k. \<not> prefix (index_prefix_of (ix_id x)) k \<Longrightarrow> m1 k = m k"
    "index_holds u t (insert r (others R previous)) x m1"
    using index_step [OF assms(1), of x m v] Cons.prems by auto
  have apart: "\<not> prefix (index_prefix_of (ix_id x)) k" if "y \<in> set xs" "prefix (index_prefix_of (ix_id y)) k" for y k
    using that Cons.prems(2) index_spaces_disjoint(1) by fastforce
  have "\<exists>m'. try_fold (\<lambda>m ix. index_map u t r previous v ix m) m1 xs = Inr m' \<and>
      (\<forall>k. (\<forall>ix\<in>set xs. \<not> prefix (index_prefix_of (ix_id ix)) k) \<longrightarrow> m' k = m1 k) \<and>
      (\<forall>ix\<in>set xs. index_holds u t (insert r (others R previous)) ix m')"
    by (rule Cons.IH) (use Cons.prems m1(2) apart in auto)
  then obtain m' where m': "try_fold (\<lambda>m ix. index_map u t r previous v ix m) m1 xs = Inr m'"
    "\<And>k. \<forall>ix\<in>set xs. \<not> prefix (index_prefix_of (ix_id ix)) k \<Longrightarrow> m' k = m1 k"
    "\<forall>ix\<in>set xs. index_holds u t (insert r (others R previous)) ix m'" by blast
  have "index_holds u t (insert r (others R previous)) x m'"
    using m1(3) m'(2) apart unfolding index_holds_def by metis
  then show ?case using m1(1,2) m' by auto
qed auto

lemma fold_indexes_collision:
  assumes "write_ready u t R m0 r previous" and "set ixs \<subseteq> set (td_indexes t)" and "distinct (map ix_id ixs)"
    and "\<And>ix k. ix \<in> set ixs \<Longrightarrow> prefix (index_prefix_of (ix_id ix)) k \<Longrightarrow> m k = m0 k"
    and "find (collides u t R previous r) ixs = Some ix"
  shows "try_fold (\<lambda>m ix. index_map u t r previous True ix m) m ixs = Inl (UniqueViolation (td_name t) (ix_name ix))"
  using assms(2-5)
proof (induction ixs arbitrary: m)
  case (Cons x xs)
  have x: "x \<in> set (td_indexes t)" "\<And>k. prefix (index_prefix_of (ix_id x)) k \<Longrightarrow> m k = m0 k" using Cons.prems by auto
  show ?case
  proof (cases "collides u t R previous r x")
    case True
    then show ?thesis using index_map_result [OF assms(1) x, of True] Cons.prems(4) by simp
  next
    case False
    obtain m1 where m1: "index_map u t r previous True x m = Inr m1"
      "\<And>k. \<not> prefix (index_prefix_of (ix_id x)) k \<Longrightarrow> m1 k = m k"
      using index_step [OF assms(1) x False, of True] by auto
    have apart: "\<not> prefix (index_prefix_of (ix_id x)) k" if "y \<in> set xs" "prefix (index_prefix_of (ix_id y)) k" for y k
      using that Cons.prems(2) index_spaces_disjoint(1) by fastforce
    have "try_fold (\<lambda>m ix. index_map u t r previous True ix m) m1 xs = Inl (UniqueViolation (td_name t) (ix_name ix))"
      by (rule Cons.IH) (use Cons.prems False m1(2) apart in auto)
    then show ?thesis using m1(1) by simp
  qed
qed simp

lemma represents_iff:
  "represents u t R m \<longleftrightarrow>
     (\<forall>r\<in>R. stored_ok t r) \<and>
     (\<forall>k. prefix (table_prefix t) k \<longrightarrow> m k \<noteq> None \<longrightarrow> (\<exists>r\<in>R. key_of t r = k)) \<and>
     (\<forall>r\<in>R. \<exists>body. m (key_of t r) = Some body \<and> decode_row t (primary_key_values r t) body = Inr r) \<and>
     (\<forall>ix\<in>set (td_indexes t). index_holds u t R ix m)"
  by (simp add: represents_def index_holds_def)

text \<open>What a row needs to be readable again: columns no newer than the table, and a body of a size
  the machine can address.\<close>

definition writable :: "TableDef \<Rightarrow> Row \<Rightarrow> bool" where
  "writable t row \<longleftrightarrow> versions_ok t \<and> evolvable t \<and> length (encode_body t row) < 2 ^ 64"

lemma body_round_trip:
  assumes "table_ok t" and "stored_ok t row" and "writable t row"
  shows "decode_row t (primary_key_values row t) (encode_body t row) = Inr row"
proof -
  have valid: "row_valid t row" "list_all wf_value row" "length row = length (td_columns t)"
    using assms(2) by (auto simp: stored_ok_def row_ok_def row_valid_def)
  have "evolves t t" by (auto simp: evolves_def Let_def)
  from decode_evolved [OF assms(1,1) _ this _ valid(1,2)] assms(3)
  have dec: "decode_row t (primary_key_values row t) (encode_body t row) =
      Inr (map (evolved_value t t row) [0..<length (td_columns t)])"
    by (simp add: writable_def)
  have canon: "canon (row ! i) = row ! i" if "i < length row" for i
    using assms(2) that unfolding stored_ok_def canonical_def by (metis nth_map)
  have "evolved_value t t row i = row ! i" if "i < length row" for i
    using canon [OF that] valid that by (auto simp: evolved_value_def row_valid_def column_accepts_def)
  then have "map (evolved_value t t row) [0..<length (td_columns t)] = row"
    using valid(3) by (intro nth_equalityI) auto
  then show ?thesis using dec by simp
qed

lemma key_of_space: "prefix (table_prefix t) (key_of t row)"
  by (simp add: row_key_bytes)

lemma write_map_ok:
  assumes "write_ready u t R m r previous" and "writable t r"
    and "\<And>ix. ix \<in> set (td_indexes t) \<Longrightarrow> \<not> collides u t R previous r ix"
  shows "\<exists>m'. write_map u t r previous v m = Inr m' \<and>
    represents u t (insert r (others R previous)) m' \<and> (\<forall>k. \<not> own_key t k \<longrightarrow> m' k = m k)"
proof -
  have T: "table_ok t" "represents u t R m" "stored_ok t r" "distinct (map ix_id (td_indexes t))"
    using assms(1) by (auto simp: write_ready_def table_ok_def Let_def)
  obtain m1 where m1: "try_fold (\<lambda>m ix. index_map u t r previous v ix m) m (td_indexes t) = Inr m1"
    "\<And>k. \<forall>ix\<in>set (td_indexes t). \<not> prefix (index_prefix_of (ix_id ix)) k \<Longrightarrow> m1 k = m k"
    "\<forall>ix\<in>set (td_indexes t). index_holds u t (insert r (others R previous)) ix m1"
    using fold_indexes [OF assms(1) subset_refl T(4) refl assms(3)] by blast
  let ?m' = "m1(key_of t r := Some (encode_body t r))"
  have row: "m1 k = m k" if "prefix (table_prefix t) k" for k
    using m1(2) that index_spaces_disjoint(2) by blast
  have "represents u t (insert r (others R previous)) ?m'"
    unfolding represents_iff
  proof (intro conjI ballI allI impI)
    show "stored_ok t s" if "s \<in> insert r (others R previous)" for s
      using that T(2,3) by (auto simp: others_def represents_def)
  next
    fix k assume k: "prefix (table_prefix t) k" "?m' k \<noteq> None"
    show "\<exists>s\<in>insert r (others R previous). key_of t s = k"
    proof (cases "k = key_of t r")
      case False
      then obtain s where s: "s \<in> R" "key_of t s = k" using k T(2) row [OF k(1)] by (auto simp: represents_def)
      moreover have "s \<notin> set_option previous"
        using assms(1) s False by (cases previous) (auto simp: write_ready_def replaces_def)
      ultimately show ?thesis by (auto simp: others_def)
    qed simp
  next
    fix s assume s: "s \<in> insert r (others R previous)"
    show "\<exists>body. ?m' (key_of t s) = Some body \<and> decode_row t (primary_key_values s t) body = Inr s"
    proof (cases "s = r")
      case True
      then show ?thesis using body_round_trip [OF T(1,3) assms(2)] by simp
    next
      case False
      then have "s \<in> R" "key_of t s \<noteq> key_of t r" using s others_key [OF assms(1)] by auto
      then show ?thesis using T(2) row [OF key_of_space] by (simp add: represents_def)
    qed
  next
    fix ix assume ix: "ix \<in> set (td_indexes t)"
    have "?m' k = m1 k" if "prefix (index_prefix_of (ix_id ix)) k" for k
      using that index_spaces_disjoint(2) key_of_space by fastforce
    then show "index_holds u t (insert r (others R previous)) ix ?m'"
      using m1(3) ix by (simp add: index_holds_def)
  qed
  moreover have "?m' k = m k" if "\<not> own_key t k" for k
    using that m1(2) key_of_space [of t r] by (auto simp: own_key_def)
  moreover have "write_map u t r previous v m = Inr ?m'" using m1(1) by (simp add: write_map_def)
  ultimately show ?thesis by blast
qed

lemma write_map_collision:
  assumes "write_ready u t R m r previous" and "find (collides u t R previous r) (td_indexes t) = Some ix"
  shows "write_map u t r previous True m = Inl (UniqueViolation (td_name t) (ix_name ix))"
proof -
  have "distinct (map ix_id (td_indexes t))" using assms(1) by (auto simp: write_ready_def table_ok_def Let_def)
  from fold_indexes_collision [OF assms(1) subset_refl this refl assms(2)] show ?thesis
    by (simp add: write_map_def)
qed

section \<open>Removing a row\<close>

lemma erase_entries_eq:
  "(fold (\<lambda>ix m. fold (\<lambda>e m. m(en_key e := None)) (f ix) m) ixs m) k =
     (if \<exists>ix\<in>set ixs. has_key k (f ix) then None else m k)"
proof -
  have one: "(fold (\<lambda>e m. m(en_key e := None)) es m) k = (if has_key k es then None else m k)" for es m
    by (induction es arbitrary: m) auto
  show ?thesis by (induction ixs arbitrary: m) (auto simp: one)
qed

lemma erase_map_ok:
  assumes "table_ok t" and "unicode_ok u" and "represents u t R m" and "r \<in> R"
  shows "represents u t (R - {r}) (erase_map u t r m) \<and> (\<forall>k. \<not> own_key t k \<longrightarrow> erase_map u t r m k = m k)"
proof -
  let ?gone = "\<lambda>k. \<exists>ix\<in>set (td_indexes t). has_key k (held_entries u t ix r)"
  have ok: "row_ok t s" "stored_ok t s" if "s \<in> R" for s using assms(3) that by (auto simp: represents_def stored_ok_def)
  have eq: "erase_map u t r m k = (if k = key_of t r \<or> ?gone k then None else m k)" for k
    by (simp add: erase_map_def erase_entries_eq)
  have space: "prefix (index_prefix_of (ix_id ix)) k" if "ix \<in> set (td_indexes t)" "has_key k (held_entries u t ix r)" for ix k
    using that held_entry_space [OF assms(1) ok(1) [OF assms(4)] assms(2)] by (auto simp: has_key_def)
  have row: "erase_map u t r m k = (if k = key_of t r then None else m k)" if "prefix (table_prefix t) k" for k
    using eq that space index_spaces_disjoint(2) by metis
  have "represents u t (R - {r}) (erase_map u t r m)"
    unfolding represents_iff
  proof (intro conjI ballI allI impI)
    show "stored_ok t s" if "s \<in> R - {r}" for s using ok that by blast
  next
    fix k assume k: "prefix (table_prefix t) k" "erase_map u t r m k \<noteq> None"
    then have "m k \<noteq> None" "k \<noteq> key_of t r" using row by (auto split: if_splits)
    then obtain s where "s \<in> R" "key_of t s = k" using assms(3) k(1) by (auto simp: represents_def)
    then show "\<exists>s\<in>R - {r}. key_of t s = k" using \<open>k \<noteq> key_of t r\<close> by blast
  next
    fix s assume s: "s \<in> R - {r}"
    then have "key_of t s \<noteq> key_of t r" using represented_once [OF assms(1,3)] assms(4) by blast
    then show "\<exists>body. erase_map u t r m (key_of t s) = Some body \<and> decode_row t (primary_key_values s t) body = Inr s"
      using assms(3) s row [OF key_of_space] by (simp add: represents_def)
  next
    fix ix assume ix: "ix \<in> set (td_indexes t)"
    have "index_holds u t R ix m" using assms(3) ix by (simp add: represents_iff)
    moreover have "erase_map u t r m k = (if has_key k (held_entries u t ix r) then None else m k)"
      if "prefix (index_prefix_of (ix_id ix)) k" for k
    proof -
      have "ix' = ix" if "ix' \<in> set (td_indexes t)" "prefix (index_prefix_of (ix_id ix')) k" for ix'
        using that \<open>prefix (index_prefix_of (ix_id ix)) k\<close> ix assms(1) index_spaces_disjoint(1)
        by (auto simp: table_ok_def Let_def distinct_map inj_on_def)
      moreover have "k \<noteq> key_of t r" using that index_spaces_disjoint(2) key_of_space by blast
      ultimately show ?thesis using eq space ix by metis
    qed
    moreover have "s = r" if "s \<in> R" "e \<in> set (held_entries u t ix s)" "has_key (en_key e) (held_entries u t ix r)" for s e
      using that entry_owner [OF assms(1-3) ix] assms(4) by (metis has_key_def)
    ultimately show "index_holds u t (R - {r}) ix (erase_map u t r m)"
      unfolding index_holds_def by (auto simp: has_key_member)
  qed
  moreover have "erase_map u t r m k = m k" if "\<not> own_key t k" for k
    using that eq space key_of_space [of t r] by (auto simp: own_key_def)
  ultimately show ?thesis by blast
qed

end
