(* ===== verification/Plan_Access.thy ===== *)
theory Plan_Access
  imports Plan_Implies Record_Index
begin

text \<open>
  The planner, \<open>crates/slate-kernel/src/plan.rs\<close>: what a predicate says of each column, the key range
  this gives on a key's columns, the candidates it makes of the primary key and of every index, and the
  choice among them. What it costs to walk a candidate is arithmetic on floating point statistics; here
  it is a parameter, the question whether one candidate is cheaper than another, and so is the order in
  which the terms of a search are preferred. No property depends on either.
\<close>

section \<open>Queries\<close>

datatype NullsOrder = NullsFirst | NullsLast

fun natural_for :: "Direction \<Rightarrow> NullsOrder" where
  "natural_for Asc = NullsFirst"
| "natural_for Desc = NullsLast"

record SortKey =
  sk_column :: Ordinal
  sk_direction :: Direction
  sk_nulls :: NullsOrder

definition matches_storage :: "SortKey \<Rightarrow> Direction \<Rightarrow> ScanOrder \<Rightarrow> bool" where
  "matches_storage k laid ord =
     (let effective = (case (laid, ord) of
                         (Asc, Ascending) \<Rightarrow> Asc
                       | (Desc, Descending) \<Rightarrow> Asc
                       | _ \<Rightarrow> Desc)
      in sk_direction k = effective \<and> sk_nulls k = natural_for effective)"

datatype AccessHint = Hint_TableScan | Hint_Index IndexId

datatype Projection = Projection_All | Projection_Columns "Ordinal list"

definition projection_columns :: "Projection \<Rightarrow> Ordinal list option" where
  "projection_columns p = (case p of Projection_All \<Rightarrow> None | Projection_Columns cs \<Rightarrow> Some cs)"

datatype Access =
    PointGet "Value list"
  | TableScan KeyRange
  | IndexScan IndexId KeyRange bool
  | IndexScans IndexId "KeyRange list" bool
  | PointGets "Value list list"
  | Access_Nothing

definition MAX_POINT_GETS :: nat where "MAX_POINT_GETS = 1024"
definition MAX_INDEX_RANGES :: nat where "MAX_INDEX_RANGES = 1024"

section \<open>What a predicate says about a column\<close>

record ColumnConstraints =
  cc_equals :: "Value option"
  cc_ranges :: "(CmpOp \<times> Value) list"
  cc_any_of :: "Value list option"
  cc_starts_with :: "Value option"

type_synonym constraints = "(Ordinal \<times> ColumnConstraints) list"

definition cc_default :: ColumnConstraints where
  "cc_default = \<lparr>cc_equals = None, cc_ranges = [], cc_any_of = None, cc_starts_with = None\<rparr>"

text \<open>The entry of a column, found or appended, and changed in place.\<close>

fun with_entry :: "Ordinal \<Rightarrow> (ColumnConstraints \<Rightarrow> ColumnConstraints) \<Rightarrow> constraints \<Rightarrow> constraints" where
  "with_entry i f [] = [(i, f cc_default)]"
| "with_entry i f ((j, c) # cs) = (if j = i then (j, f c) # cs else (j, c) # with_entry i f cs)"

definition get_or_insert :: "'a option \<Rightarrow> 'a \<Rightarrow> 'a option" where
  "get_or_insert x y = (case x of None \<Rightarrow> Some y | Some z \<Rightarrow> Some z)"

definition constrain :: "Expr \<Rightarrow> constraints \<Rightarrow> constraints" where
  "constrain conjunct out =
     (case conjunct of
        Expr_Compare column oper v \<Rightarrow>
          if is_null v then out
          else with_entry column (\<lambda>c.
                 case oper of
                   Op_Eq \<Rightarrow> c\<lparr>cc_equals := Some v\<rparr>
                 | Op_Ne \<Rightarrow> c
                 | _ \<Rightarrow> c\<lparr>cc_ranges := cc_ranges c @ [(oper, v)]\<rparr>) out
      | Expr_Like column pattern False False \<Rightarrow>
          (case like_prefix pattern of
             Some p \<Rightarrow> with_entry column (\<lambda>c. c\<lparr>cc_starts_with := get_or_insert (cc_starts_with c) (Str p)\<rparr>) out
           | None \<Rightarrow> out)
      | Expr_In column vs \<Rightarrow>
          if vs = [] then out
          else with_entry column (\<lambda>c. c\<lparr>cc_any_of := get_or_insert (cc_any_of c) vs\<rparr>) out
      | Expr_IsNull column False \<Rightarrow> with_entry column (\<lambda>c. c\<lparr>cc_equals := Some Null\<rparr>) out
      | _ \<Rightarrow> out)"

definition collect_constraints :: "Expr list \<Rightarrow> constraints" where
  "collect_constraints es = fold constrain es []"

definition constraints_for :: "constraints \<Rightarrow> Ordinal \<Rightarrow> ColumnConstraints option" where
  "constraints_for cs i = map_option snd (find (\<lambda>(j, _). j = i) cs)"

definition equals_for :: "constraints \<Rightarrow> Ordinal \<Rightarrow> Value option" where
  "equals_for cs i = Option.bind (constraints_for cs i) cc_equals"

section \<open>The range on a key\<close>

definition empty_range :: "bytes \<Rightarrow> KeyRange" where
  "empty_range at = KeyRange_new (Included at) (Excluded at)"

definition bound_for :: "bytes \<Rightarrow> CmpOp \<Rightarrow> Value \<Rightarrow> Direction \<Rightarrow> KeyRange" where
  "bound_for pre oper v d =
     (let oper = (case d of Asc \<Rightarrow> oper | Desc \<Rightarrow> mirrored oper);
          boundary = encode_value_into pre v d;
          after_boundary = prefix_successor boundary
      in case oper of
           Op_Lt \<Rightarrow> KeyRange_new Unbounded (Excluded boundary)
         | Op_Le \<Rightarrow> KeyRange_new Unbounded (case after_boundary of None \<Rightarrow> Unbounded | Some b \<Rightarrow> Excluded b)
         | Op_Gt \<Rightarrow> (case after_boundary of
                        None \<Rightarrow> empty_range boundary
                      | Some start \<Rightarrow> KeyRange_new (Included start) Unbounded)
         | Op_Ge \<Rightarrow> KeyRange_new (Included boundary) Unbounded
         | _ \<Rightarrow> KeyRange_all)"

text \<open>The columns pinned by equalities, longest prefix first: the bytes they give and their number.\<close>

fun pin_loop :: "constraints \<Rightarrow> bytes \<Rightarrow> nat \<Rightarrow> (Ordinal \<times> Direction) list \<Rightarrow> bytes \<times> nat" where
  "pin_loop cs pre n [] = (pre, n)"
| "pin_loop cs pre n ((i, d) # cols) =
     (case equals_for cs i of
        None \<Rightarrow> (pre, n)
      | Some v \<Rightarrow> pin_loop cs (encode_value_into pre v d) (n + 1) cols)"

definition prefix_term :: "constraints \<Rightarrow> bytes \<Rightarrow> (Ordinal \<times> Direction) option \<Rightarrow> bytes option" where
  "prefix_term cs pre col =
     (case col of
        None \<Rightarrow> None
      | Some (i, d) \<Rightarrow>
          (case constraints_for cs i of
             None \<Rightarrow> None
           | Some c \<Rightarrow>
               if cc_equals c = None \<and> cc_ranges c = [] then
                 (case cc_starts_with c of
                    None \<Rightarrow> None
                  | Some start \<Rightarrow>
                      (let (whole, bounded) = encode_prefix_into pre start d
                       in if whole then Some bounded else None))
               else None))"

definition range_term :: "constraints \<Rightarrow> (Ordinal \<times> Direction) option \<Rightarrow> ((CmpOp \<times> Value) list \<times> Direction) option" where
  "range_term cs col =
     (case col of
        None \<Rightarrow> None
      | Some (i, d) \<Rightarrow>
          (case constraints_for cs i of
             None \<Rightarrow> None
           | Some c \<Rightarrow> if cc_equals c = None then Some (cc_ranges c, d) else None))"

definition match_key :: "bytes \<Rightarrow> (Ordinal \<times> Direction) list \<Rightarrow> constraints \<Rightarrow> KeyRange" where
  "match_key base_key key_columns cs =
     (let (pre, equality_columns) = pin_loop cs base_key 0 key_columns;
          next_col = get key_columns equality_columns
      in case prefix_term cs pre next_col of
           Some bounded \<Rightarrow> KeyRange_prefix bounded
         | None \<Rightarrow>
             (case range_term cs next_col of
                Some (ranges, d) \<Rightarrow>
                  if ranges \<noteq> []
                  then fold (\<lambda>(oper, v) result. intersect result (bound_for pre oper v d)) ranges (KeyRange_prefix pre)
                  else KeyRange_prefix pre
              | None \<Rightarrow> KeyRange_prefix pre))"

section \<open>Candidates from the primary key\<close>

record Candidate =
  ca_access :: Access
  ca_natural_order :: "(Ordinal \<times> Direction) list"

fun satisfies_loop :: "ScanOrder \<Rightarrow> (Ordinal \<times> Direction) list \<Rightarrow> SortKey list \<Rightarrow> bool" where
  "satisfies_loop ord produced [] = True"
| "satisfies_loop ord [] (k # ks) = False"
| "satisfies_loop ord ((column, laid) # produced) (k # ks) =
     (column = sk_column k \<and> matches_storage k laid ord \<and> satisfies_loop ord produced ks)"

definition candidate_satisfies :: "Candidate \<Rightarrow> SortKey list \<Rightarrow> ScanOrder \<Rightarrow> Ordinal set \<Rightarrow> bool" where
  "candidate_satisfies c sort_keys ord pinned =
     satisfies_loop ord (filter (\<lambda>(column, _). column \<notin> pinned) (ca_natural_order c))
       (filter (\<lambda>k. sk_column k \<notin> pinned) sort_keys)"

definition primary_columns :: "TableDef \<Rightarrow> (Ordinal \<times> Direction) list" where
  "primary_columns t = map (\<lambda>i. (i, Asc)) (td_primary_key t)"

definition match_primary_key :: "TableDef \<Rightarrow> constraints \<Rightarrow> bool \<Rightarrow> Candidate" where
  "match_primary_key t cs ordered =
     (let key_columns = primary_columns t;
          full_key = those (map (\<lambda>(i, _). equals_for cs i) key_columns)
      in case full_key of
           Some key \<Rightarrow>
             if key \<noteq> [] then \<lparr>ca_access = PointGet key, ca_natural_order = []\<rparr>
             else \<lparr>ca_access = TableScan (match_key (table_prefix t) key_columns cs),
                   ca_natural_order = (if ordered then key_columns else [])\<rparr>
         | None \<Rightarrow>
             \<lparr>ca_access = TableScan (match_key (table_prefix t) key_columns cs),
              ca_natural_order = (if ordered then key_columns else [])\<rparr>)"

text \<open>The loop over the key columns: the fixed values, with the place and the values of the one list.\<close>

fun point_get_loop ::
  "constraints \<Rightarrow> Value option list \<Rightarrow> (nat \<times> Value list) option \<Rightarrow> (Ordinal \<times> Direction) list \<Rightarrow>
     (Value option list \<times> (nat \<times> Value list) option) option" where
  "point_get_loop cs fixed varying [] = Some (fixed, varying)"
| "point_get_loop cs fixed varying ((i, d) # cols) =
     (case constraints_for cs i of
        None \<Rightarrow> None
      | Some c \<Rightarrow>
          (case cc_equals c of
             Some v \<Rightarrow> point_get_loop cs (fixed @ [Some v]) varying cols
           | None \<Rightarrow>
               if varying \<noteq> None then None
               else
                 (case cc_any_of c of
                    None \<Rightarrow> None
                  | Some vs \<Rightarrow> point_get_loop cs (fixed @ [None]) (Some (length fixed, vs)) cols)))"

definition flatten_key :: "Value option list \<Rightarrow> Value list" where
  "flatten_key key = concat (map (\<lambda>v. case v of None \<Rightarrow> [] | Some x \<Rightarrow> [x]) key)"

definition point_get_set :: "(Ordinal \<times> Direction) list \<Rightarrow> constraints \<Rightarrow> Value list list option" where
  "point_get_set key_columns cs =
     (if key_columns = [] then None
      else
        case point_get_loop cs [] None key_columns of
          None \<Rightarrow> None
        | Some (fixed, None) \<Rightarrow> None
        | Some (fixed, Some (at, vs)) \<Rightarrow>
            if vs = [] \<or> MAX_POINT_GETS < length vs then None
            else
              let keys = map (\<lambda>v. flatten_key (fixed[at := Some v])) vs in
              if list_ex (\<lambda>key. length key \<noteq> length key_columns) keys then None
              else Some (dedup_by (list_all2 value_eq) (sort_by (lex_cmp value_cmp) keys)))"

definition match_point_gets :: "TableDef \<Rightarrow> constraints \<Rightarrow> Candidate option" where
  "match_point_gets t cs =
     map_option (\<lambda>keys. \<lparr>ca_access = PointGets keys, ca_natural_order = []\<rparr>)
       (point_get_set (primary_columns t) cs)"

section \<open>Candidates from an index\<close>

text \<open>What the planner asks of code it cannot see through: the columns a computed value reads, the
  predicate and the expression behind an index definition where they are ones of this layer, the order
  of preference of the terms of a search, which of two costed candidates is cheaper, and whether the
  residual of the chosen one is expected to reject enough to be worth a decoding pass of its own.\<close>

record 's Planner =
  pn_columns :: "'s \<Rightarrow> Ordinal set"
  pn_predicate :: "IndexDef \<Rightarrow> Expr option"
  pn_expression :: "IndexDef \<Rightarrow> 's option"
  pn_term_rank :: "Ordinal \<Rightarrow> bytes \<Rightarrow> int"
  pn_cheaper :: "Candidate \<times> bool \<Rightarrow> Candidate \<times> bool \<Rightarrow> bool"
  pn_filter_first :: "Candidate option \<Rightarrow> bool"

datatype Needed = Needed_All | Needed_Some "Ordinal set"

record 's MatchContext =
  mc_table :: TableDef
  mc_predicate :: Expr
  mc_constraints :: constraints
  mc_needed :: Needed
  mc_ordered :: bool
  mc_compute :: "'s list"
  mc_width :: nat

definition expression_position :: "'s Planner \<Rightarrow> IndexDef \<Rightarrow> 's list \<Rightarrow> nat option" where
  "expression_position pn ix compute =
     Option.bind (pn_expression pn ix) (\<lambda>e. position (\<lambda>s. s = e) compute)"

definition holds_column :: "TableDef \<Rightarrow> IndexDef \<Rightarrow> Ordinal \<Rightarrow> bool" where
  "holds_column t ix i \<longleftrightarrow> list_ex (\<lambda>c. ic_ordinal c = i) (ix_columns ix) \<or> i \<in> set (td_primary_key t)"

text \<open>Which computed values a scan of the index can produce without the row.\<close>

fun available_loop ::
  "('s \<Rightarrow> Ordinal set) \<Rightarrow> (Ordinal \<Rightarrow> bool) \<Rightarrow> nat \<Rightarrow> nat \<Rightarrow> nat option \<Rightarrow> bool list \<Rightarrow> 's list \<Rightarrow> bool list" where
  "available_loop cols holds width count from_entry available [] = available"
| "available_loop cols holds width count from_entry available (s # ss) =
     (let supplied =
        Some (length available) = from_entry \<or>
        (\<forall>i\<in>cols s.
           if i < width then holds i
           else case get available (i - width) of
                  Some ready \<Rightarrow> ready
                | None \<Rightarrow> count \<le> i - width)
      in available_loop cols holds width count from_entry (available @ [supplied]) ss)"

definition covers :: "'s Planner \<Rightarrow> 's MatchContext \<Rightarrow> IndexDef \<Rightarrow> bool" where
  "covers pn cx ix =
     (if ix_text ix then False
      else
        let holds = holds_column (mc_table cx) ix;
            from_entry = expression_position pn ix (mc_compute cx);
            available = available_loop (pn_columns pn) holds (mc_width cx) (length (mc_compute cx)) from_entry []
                          (mc_compute cx);
            holds_value = (\<lambda>i. if i < mc_width cx then holds i
                              else case get available (i - mc_width cx) of None \<Rightarrow> True | Some b \<Rightarrow> b)
        in case mc_needed cx of
             Needed_All \<Rightarrow> list_all holds [0..<length (td_columns (mc_table cx))]
           | Needed_Some columns \<Rightarrow> (\<forall>i\<in>columns. holds_value i))"

text \<open>\<open>min_by\<close> keeps the first of equal elements.\<close>

definition min_by_rank :: "('a \<Rightarrow> int) \<Rightarrow> 'a list \<Rightarrow> 'a option" where
  "min_by_rank rank xs =
     (case xs of
        [] \<Rightarrow> None
      | x # ys \<Rightarrow> Some (fold (\<lambda>y best. if rank y < rank best then y else best) ys x))"

definition text_term :: "'s Planner \<Rightarrow> 's MatchContext \<Rightarrow> IndexDef \<Rightarrow> bytes option" where
  "text_term pn cx ix =
     (case ix_columns ix of
        [] \<Rightarrow> None
      | c # _ \<Rightarrow>
          Option.bind
            (find_map (\<lambda>conjunct. case conjunct of
                 Expr_Contains column terms \<Rightarrow> if column = ic_ordinal c then Some terms else None
               | _ \<Rightarrow> None) (conjuncts (mc_predicate cx)))
            (min_by_rank (pn_term_rank pn (ic_ordinal c))))"

definition match_text_index :: "'s Planner \<Rightarrow> 's MatchContext \<Rightarrow> IndexDef \<Rightarrow> Candidate option" where
  "match_text_index pn cx ix =
     Option.bind (text_term pn cx ix) (\<lambda>term.
     Option.bind
       (case td_tenant_column (mc_table cx) of
          None \<Rightarrow> Some (index_prefix (mc_table cx) ix None)
        | Some tenant \<Rightarrow>
            map_option (\<lambda>v. encode_value_into (index_prefix (mc_table cx) ix None) v Asc)
              (equals_for (mc_constraints cx) tenant)) (\<lambda>pre.
     Some \<lparr>ca_access = IndexScan (ix_id ix) (KeyRange_prefix (encode_value_into pre (Str term) Asc)) False,
           ca_natural_order = (if mc_ordered cx then primary_columns (mc_table cx) else [])\<rparr>))"

definition meets_other_bounds :: "ColumnConstraints \<Rightarrow> Value \<Rightarrow> bool" where
  "meets_other_bounds c v =
     (if \<not> list_all (\<lambda>(oper, bnd). lit_satisfies v oper bnd) (cc_ranges c) then False
      else case (cc_starts_with c, v) of
             (Some (Str p), Str s) \<Rightarrow> prefix p s
           | (Some _, _) \<Rightarrow> False
           | (None, _) \<Rightarrow> True)"

definition start_bytes :: "KeyRange \<Rightarrow> bytes option" where
  "start_bytes r =
     (case range_start r of Unbounded \<Rightarrow> None | Included k \<Rightarrow> Some k | Excluded k \<Rightarrow> Some k)"

text \<open>The order of \<open>Option\<close>: nothing sorts first.\<close>

definition start_cmp :: "KeyRange \<Rightarrow> KeyRange \<Rightarrow> ordering" where
  "start_cmp a b =
     (case (start_bytes a, start_bytes b) of
        (None, None) \<Rightarrow> Equal
      | (None, Some _) \<Rightarrow> Less
      | (Some _, None) \<Rightarrow> Greater
      | (Some x, Some y) \<Rightarrow> cmp_lin x y)"

fun pin_value :: "Ordinal \<Rightarrow> Value \<Rightarrow> constraints \<Rightarrow> constraints" where
  "pin_value i v [] = []"
| "pin_value i v ((j, c) # cs) =
     (if j = i then (j, c\<lparr>cc_equals := Some v, cc_any_of := None\<rparr>) # cs else (j, c) # pin_value i v cs)"

definition in_ranges ::
  "bytes \<Rightarrow> (Ordinal \<times> Direction) list \<Rightarrow> constraints \<Rightarrow> KeyRange list option" where
  "in_ranges base_key key_columns cs =
     Option.bind (position (\<lambda>(i, _). equals_for cs i = None) key_columns) (\<lambda>at.
     Option.bind (get key_columns at) (\<lambda>(i, _).
     Option.bind (constraints_for cs i) (\<lambda>c.
     Option.bind (cc_any_of c) (\<lambda>vs.
     if MAX_INDEX_RANGES < length vs then None
     else
       let distinct_values = dedup_by value_eq (sort_by value_cmp (filter (\<lambda>v. \<not> is_null v) vs)) in
       if distinct_values = [] \<or> MAX_INDEX_RANGES < length distinct_values then None
       else
         let ranges = filter (\<lambda>r. \<not> range_is_empty r)
               (map (\<lambda>v. match_key base_key key_columns (pin_value i v cs))
                 (filter (meets_other_bounds c) distinct_values))
         in if ranges = [] then None else Some (sort_by start_cmp ranges)))))"

definition match_index :: "'s Planner \<Rightarrow> 's MatchContext \<Rightarrow> IndexDef \<Rightarrow> Candidate option" where
  "match_index pn cx ix =
     (let usable = (case ix_predicate ix of
                      None \<Rightarrow> True
                    | Some _ \<Rightarrow>
                        (case pn_predicate pn ix of
                           Some p \<Rightarrow> implies (mc_predicate cx) p
                         | None \<Rightarrow> False))
      in
      if \<not> usable then None
      else if ix_text ix then match_text_index pn cx ix
      else
        Option.bind
          (case ix_expression ix of
             None \<Rightarrow> Some (map (\<lambda>c. (ic_ordinal c, ic_direction c)) (ix_columns ix))
           | Some declared \<Rightarrow>
               map_option (\<lambda>at. [(mc_width cx + at, ie_direction declared)])
                 (expression_position pn ix (mc_compute cx))) (\<lambda>own_columns.
        let key_columns = (case td_tenant_column (mc_table cx) of
                             None \<Rightarrow> own_columns
                           | Some tenant \<Rightarrow> (tenant, Asc) # own_columns);
            base_key = index_prefix (mc_table cx) ix None;
            natural_order = (if mc_ordered cx then key_columns @ primary_columns (mc_table cx) else []);
            covering = covers pn cx ix
        in case in_ranges base_key key_columns (mc_constraints cx) of
             Some [r] \<Rightarrow> Some \<lparr>ca_access = IndexScan (ix_id ix) r covering, ca_natural_order = natural_order\<rparr>
           | Some ranges \<Rightarrow>
               Some \<lparr>ca_access = IndexScans (ix_id ix) ranges covering, ca_natural_order = natural_order\<rparr>
           | None \<Rightarrow>
               Some \<lparr>ca_access = IndexScan (ix_id ix) (match_key base_key key_columns (mc_constraints cx)) covering,
                     ca_natural_order = natural_order\<rparr>))"

section \<open>The plan\<close>

record Plan =
  pl_access :: Access
  pl_residual :: Expr
  pl_order :: ScanOrder
  pl_sort :: "SortKey list option"
  pl_predicate_columns :: ColumnSet
  pl_output_columns :: ColumnSet
  pl_filter_first :: bool
  pl_concealed :: "Ordinal list"

definition expanded_inputs :: "'s Planner \<Rightarrow> Ordinal \<Rightarrow> nat \<Rightarrow> 's list \<Rightarrow> Ordinal list" where
  "expanded_inputs pn i width compute =
     (if i < width then [i]
      else case get compute (i - width) of
             None \<Rightarrow> []
           | Some s \<Rightarrow> sorted_list_of_set (pn_columns pn s))"

text \<open>\<open>consider_candidate\<close>: a candidate replaces the best one so far when it is strictly cheaper.\<close>

definition consider_candidate ::
  "'s Planner \<Rightarrow> SortKey list \<Rightarrow> ScanOrder \<Rightarrow> Ordinal set \<Rightarrow> Candidate \<Rightarrow> (Candidate \<times> bool) option \<Rightarrow> (Candidate \<times> bool) option" where
  "consider_candidate pn sort_keys ord pinned c best =
     (let must_sort = (sort_keys \<noteq> [] \<and> \<not> candidate_satisfies c sort_keys ord pinned)
      in case best of
           None \<Rightarrow> Some (c, must_sort)
         | Some current \<Rightarrow> if pn_cheaper pn (c, must_sort) current then Some (c, must_sort) else Some current)"

definition drop_empty :: "Access \<Rightarrow> Access" where
  "drop_empty access =
     (case access of
        TableScan r \<Rightarrow> if range_is_empty r then Access_Nothing else access
      | IndexScan _ r _ \<Rightarrow> if range_is_empty r then Access_Nothing else access
      | IndexScans _ ranges _ \<Rightarrow> if list_all range_is_empty ranges then Access_Nothing else access
      | _ \<Rightarrow> access)"

definition unsatisfiable :: "Expr list \<Rightarrow> bool" where
  "unsatisfiable es =
     list_ex (\<lambda>c. case c of Expr_Compare _ _ v \<Rightarrow> is_null v | Expr_False \<Rightarrow> True | _ \<Rightarrow> False) es"

definition candidates ::
  "'s Planner \<Rightarrow> 's MatchContext \<Rightarrow> AccessHint option \<Rightarrow> Candidate list" where
  "candidates pn cx hint =
     (let t = mc_table cx;
          primary = match_primary_key t (mc_constraints cx) (mc_ordered cx);
          from_key = (case hint of
                        Some (Hint_Index _) \<Rightarrow> []
                      | _ \<Rightarrow> primary # (case match_point_gets t (mc_constraints cx) of None \<Rightarrow> [] | Some c \<Rightarrow> [c]));
          wanted = (\<lambda>ix. case hint of
                          Some Hint_TableScan \<Rightarrow> False
                        | Some (Hint_Index i) \<Rightarrow> i = ix_id ix
                        | None \<Rightarrow> True);
          from_indexes = List.map_filter (match_index pn cx) (filter wanted (td_indexes t));
          all_candidates = from_key @ from_indexes
      in if all_candidates = [] then [primary] else all_candidates)"

definition plan_hinted ::
  "'s Planner \<Rightarrow> TableDef \<Rightarrow> Expr \<Rightarrow> ScanOrder \<Rightarrow> Projection \<Rightarrow> SortKey list \<Rightarrow> AccessHint option \<Rightarrow> 's list \<Rightarrow> Plan" where
  "plan_hinted pn t predicate ord projection sort_keys hint compute =
     (let es = conjuncts predicate;
          width = length (td_columns t);
          read = sorted_list_of_set (expr_columns predicate);
          predicate_columns = ColumnSet_from_iter (concat (map (\<lambda>c. expanded_inputs pn c width compute) read));
          output_columns =
            (case projection_columns projection of
               None \<Rightarrow> ColumnSet_all width
             | Some columns \<Rightarrow>
                 fold ColumnSet_insert
                   (filter (\<lambda>c. c < width) columns @ filter (\<lambda>c. c < width) (map sk_column sort_keys))
                   (ColumnSet_from_iter (filter (\<lambda>c. c < width) read)))
      in
      if unsatisfiable es
      then \<lparr>pl_access = Access_Nothing, pl_residual = prepared predicate, pl_order = ord, pl_sort = None,
            pl_predicate_columns = predicate_columns, pl_output_columns = output_columns,
            pl_filter_first = False, pl_concealed = []\<rparr>
      else
        let cs = collect_constraints es;
            pinned = set (map fst (filter (\<lambda>(_, c). cc_equals c \<noteq> None) cs));
            needed = (case projection_columns projection of
                        None \<Rightarrow> Needed_All
                      | Some columns \<Rightarrow>
                          Needed_Some (expr_columns predicate \<union> set columns \<union> sk_column ` set sort_keys \<union>
                            {width..<width + length compute}));
            cx = \<lparr>mc_table = t, mc_predicate = predicate, mc_constraints = cs, mc_needed = needed,
                  mc_ordered = (sort_keys \<noteq> []), mc_compute = compute, mc_width = width\<rparr>;
            best = fold (consider_candidate pn sort_keys ord pinned) (candidates pn cx hint) None;
            (access, must_sort) =
              (case best of
                 None \<Rightarrow> (TableScan (KeyRange_prefix (table_prefix t)), sort_keys \<noteq> [])
               | Some (c, must_sort) \<Rightarrow> (ca_access c, must_sort))
        in \<lparr>pl_access = drop_empty access, pl_residual = prepared predicate, pl_order = ord,
            pl_sort = (if must_sort then Some sort_keys else None),
            pl_predicate_columns = predicate_columns, pl_output_columns = output_columns,
            pl_filter_first = pn_filter_first pn (map_option fst best), pl_concealed = []\<rparr>)"

datatype CursorFault = WrongKeyWidth | WalksIndex IndexId | ReadsKeySet

definition resume_after :: "Plan \<Rightarrow> TableDef \<Rightarrow> Value list \<Rightarrow> CursorFault + Plan" where
  "resume_after p t key =
     (if length key \<noteq> length (td_primary_key t) then Inl WrongKeyWidth
      else
        let boundary = row_key t key in
        rbind
          (case pl_access p of
             TableScan r \<Rightarrow>
               Inr (TableScan (intersect r
                 (case pl_order p of
                    Ascending \<Rightarrow> KeyRange_new (Excluded boundary) Unbounded
                  | Descending \<Rightarrow> KeyRange_new Unbounded (Excluded boundary))))
           | PointGet one \<Rightarrow>
               let at = row_key t one;
                   past = (case pl_order p of Ascending \<Rightarrow> boundary < at | Descending \<Rightarrow> at < boundary)
               in Inr (if past then PointGet one else Access_Nothing)
           | Access_Nothing \<Rightarrow> Inr Access_Nothing
           | IndexScan i _ _ \<Rightarrow> Inl (WalksIndex i)
           | IndexScans i _ _ \<Rightarrow> Inl (WalksIndex i)
           | PointGets _ \<Rightarrow> Inl ReadsKeySet) (\<lambda>access.
        Inr (p\<lparr>pl_access :=
          (case access of TableScan r \<Rightarrow> if range_is_empty r then Access_Nothing else access | _ \<Rightarrow> access)\<rparr>)))"

end
