(* ===== verification/Query_Rows.thy ===== *)
theory Query_Rows
  imports Plan_Access
begin

text \<open>
  Rows on their way out of a query, \<open>crates/slate-kernel/src/exec.rs\<close>: values computed per row and
  appended to it, a row rebuilt from an index entry, the order a sort asks for, and decoding a stored
  row far enough to filter it and then far enough to return it. How a computed value is evaluated is a
  parameter, a function of the row so far.
\<close>

section \<open>Computed values\<close>

fun extend_loop ::
  "('s \<Rightarrow> Row \<Rightarrow> Value) \<Rightarrow> (nat \<times> Value) option \<Rightarrow> nat \<Rightarrow> Row \<Rightarrow> 's list \<Rightarrow> Row" where
  "extend_loop eval from_entry n so_far [] = so_far"
| "extend_loop eval from_entry n so_far (s # ss) =
     (let v = (case from_entry of
                 Some (from, v) \<Rightarrow> if from = n then v else eval s so_far
               | None \<Rightarrow> eval s so_far)
      in extend_loop eval from_entry (n + 1) (so_far @ [v]) ss)"

definition extend_row ::
  "('s \<Rightarrow> Row \<Rightarrow> Value) \<Rightarrow> Row \<Rightarrow> 's list \<Rightarrow> Ordinal list \<Rightarrow> (nat \<times> Value) option \<Rightarrow> Row" where
  "extend_row eval row compute transient from_entry =
     (if compute = [] then row
      else fold (\<lambda>i vs. vs[i := Null]) transient (extend_loop eval from_entry 0 row compute))"

definition wanted_columns :: "ColumnSet \<Rightarrow> TableDef \<Rightarrow> ColumnSet option" where
  "wanted_columns columns t = (if covers_all columns (length (td_columns t)) then None else Some columns)"

section \<open>The order of rows\<close>

text \<open>Where two rows differ on a sort key, the result is decided there; a null's place is absolute.\<close>

definition key_ordering :: "Value \<Rightarrow> Value \<Rightarrow> SortKey \<Rightarrow> ordering" where
  "key_ordering a b k =
     (case (is_null a, is_null b) of
        (True, True) \<Rightarrow> Equal
      | (False, False) \<Rightarrow> (case sk_direction k of Asc \<Rightarrow> value_cmp a b | Desc \<Rightarrow> value_cmp b a)
      | _ \<Rightarrow>
          let nulls_low = (sk_nulls k = NullsFirst);
              a_first = (is_null a = nulls_low)
          in if a_first then Less else Greater)"

fun compare_rows :: "Row \<Rightarrow> Row \<Rightarrow> SortKey list \<Rightarrow> ordering" where
  "compare_rows l r [] = Equal"
| "compare_rows l r (k # ks) =
     (case (get l (sk_column k), get r (sk_column k)) of
        (Some a, Some b) \<Rightarrow>
          (let c = key_ordering a b k in if c \<noteq> Equal then c else compare_rows l r ks)
      | _ \<Rightarrow> compare_rows l r ks)"

section \<open>Rows from entries and from bodies\<close>

definition row_from_index_entry ::
  "TableDef \<Rightarrow> IndexDef \<Rightarrow> Value list \<Rightarrow> Value list \<Rightarrow> ColumnSet \<Rightarrow> Row" where
  "row_from_index_entry t ix indexed primary_key wanted =
     (let values = replicate (length (td_columns t)) Null;
          values = fold (\<lambda>(c, v) vs. if ColumnSet_contains wanted (ic_ordinal c) then vs[ic_ordinal c := v] else vs)
                     (zip (ix_columns ix) indexed) values
      in fold (\<lambda>(i, v) vs. vs[i := v]) (zip (td_primary_key t) primary_key) values)"

definition materialise ::
  "Env \<Rightarrow> ('s \<Rightarrow> Row \<Rightarrow> Value) \<Rightarrow> TableDef \<Rightarrow> Expr \<Rightarrow> ColumnSet \<Rightarrow> ColumnSet \<Rightarrow> bool \<Rightarrow> 's list \<Rightarrow> Ordinal list \<Rightarrow>
     Value list \<Rightarrow> bytes \<Rightarrow> SchemaError + Row option" where
  "materialise env eval t residual filter_columns decode_columns two_phase compute transient primary_key body =
     (if compute \<noteq> [] then
        rbind (decode_row_columns t primary_key body (wanted_columns decode_columns t)) (\<lambda>decoded.
        let extended = extend_row eval decoded compute transient None
        in Inr (if expr_admits env residual extended then Some extended else None))
      else
        let first = (if two_phase then filter_columns else decode_columns) in
        rbind (decode_row_columns t primary_key body (wanted_columns first t)) (\<lambda>decoded.
        if \<not> expr_admits env residual decoded then Inr None
        else if \<not> two_phase then Inr (Some decoded)
        else
          rbind (decode_row_columns t primary_key body (wanted_columns decode_columns t)) (\<lambda>whole.
          Inr (Some whole))))"

section \<open>Laws\<close>

lemma extend_loop_append:
  "\<exists>extra. extend_loop eval None n so_far ss = so_far @ extra \<and> length extra = length ss \<and>
     (\<forall>k < length ss. extra ! k = eval (ss ! k) (so_far @ take k extra))"
proof (induction ss arbitrary: n so_far)
  case (Cons s ss)
  obtain extra where extra: "extend_loop eval None (n + 1) (so_far @ [eval s so_far]) ss = (so_far @ [eval s so_far]) @ extra"
    "length extra = length ss" "\<forall>k < length ss. extra ! k = eval (ss ! k) ((so_far @ [eval s so_far]) @ take k extra)"
    using Cons by blast
  show ?case
  proof (intro exI conjI allI impI)
    show "extend_loop eval None n so_far (s # ss) = so_far @ (eval s so_far # extra)" using extra(1) by simp
    show "(eval s so_far # extra) ! k = eval ((s # ss) ! k) (so_far @ take k (eval s so_far # extra))"
      if "k < length (s # ss)" for k
      using that extra(3) by (cases k) simp_all
  qed (simp add: extra(2))
qed simp

lemma extend_append:
  obtains extra where "extend_row eval row compute [] None = row @ extra" and "length extra = length compute"
    and "\<And>k. k < length compute \<Longrightarrow> extra ! k = eval (compute ! k) (row @ take k extra)"
proof (cases "compute = []")
  case True
  then show thesis using that [of "[]"] by (simp add: extend_row_def)
next
  case False
  obtain extra where "extend_loop eval None 0 row compute = row @ extra" "length extra = length compute"
    "\<forall>k < length compute. extra ! k = eval (compute ! k) (row @ take k extra)"
    using extend_loop_append [of eval 0 row compute] by blast
  then show thesis using that [of extra] False by (simp add: extend_row_def)
qed

end
