(* ===== verification/Plan_Sound.thy ===== *)
theory Plan_Sound
  imports Query_Rows
begin

text \<open>
  A plan misses nothing. Every row that a predicate admits lies within the keys the chosen access path
  walks, whichever candidate the cost model prefers: the constraints collected from the predicate hold
  of the row, the key of a row that meets them lies in the range made of them, and the partial index
  a plan reads holds an entry for it.
\<close>

section \<open>A row meets the constraints\<close>

definition column_meets :: "ColumnConstraints \<Rightarrow> Value \<Rightarrow> bool" where
  "column_meets c v \<longleftrightarrow>
     (\<forall>w. cc_equals c = Some w \<longrightarrow> wf_value w \<and> value_eq v w) \<and>
     (\<forall>(oper, w)\<in>set (cc_ranges c). wf_value w \<and> oper \<noteq> Op_Eq \<and> oper \<noteq> Op_Ne \<and> op_apply oper (value_cmp v w)) \<and>
     (\<forall>vs. cc_any_of c = Some vs \<longrightarrow> list_all wf_value vs \<and> (\<exists>w\<in>set vs. w \<noteq> Null \<and> value_eq w v)) \<and>
     (\<forall>p. cc_starts_with c = Some p \<longrightarrow> (\<exists>q s. p = Str q \<and> v = Str s \<and> prefix q s))"

definition constraints_met :: "(Ordinal \<Rightarrow> Value) \<Rightarrow> constraints \<Rightarrow> bool" where
  "constraints_met at cs \<longleftrightarrow> (\<forall>(i, c)\<in>set cs. column_meets c (at i))"

lemma column_meets_default [simp]: "column_meets cc_default v"
  by (simp add: column_meets_def cc_default_def)

lemma with_entry_met:
  assumes "constraints_met at cs" and "\<And>c. column_meets c (at i) \<Longrightarrow> column_meets (f c) (at i)"
  shows "constraints_met at (with_entry i f cs)"
  using assms by (induction i f cs rule: with_entry.induct) (auto simp: constraints_met_def)

lemma constraints_for_met: "constraints_met at cs \<Longrightarrow> constraints_for cs i = Some c \<Longrightarrow> column_meets c (at i)"
  by (auto simp: constraints_met_def constraints_for_def find_Some_iff) (metis case_prodD nth_mem)

lemma equals_for_met:
  "constraints_met at cs \<Longrightarrow> equals_for cs i = Some w \<Longrightarrow> wf_value w \<and> value_eq (at i) w"
  using constraints_for_met [of at cs i]
  by (auto simp: equals_for_def column_meets_def split: bind_splits)

lemma constrain_met:
  assumes "constraints_met (value_or_null row) out" and "list_all wf_value row" and "expr_wf e"
    and "evaluate_over env (get row) e = Truth_True"
  shows "constraints_met (value_or_null row) (constrain e out)"
proof -
  have wf: "get row i = Some v \<Longrightarrow> wf_value v" for i v using assms(2) by (auto simp: list_all_length)
  show ?thesis
  proof (cases e)
    case (Expr_Compare i oper w)
    then obtain v where v: "get row i = Some v" "w \<noteq> Null" "op_apply oper (value_cmp v w)" "wf_value w"
      using assms(3,4) by (auto simp del: get_eq_Some split: option.splits if_splits simp: truth_from_def)
    then have at: "value_or_null row i = v" by (simp add: value_or_null_def)
    have "constraints_met (value_or_null row) (with_entry i (\<lambda>c.
        case oper of Op_Eq \<Rightarrow> c\<lparr>cc_equals := Some w\<rparr> | Op_Ne \<Rightarrow> c | _ \<Rightarrow> c\<lparr>cc_ranges := cc_ranges c @ [(oper, w)]\<rparr>) out)"
      by (rule with_entry_met [OF assms(1)], unfold at)
        (use v in \<open>cases oper; auto simp: column_meets_def value_eq_def\<close>)
    then show ?thesis using v(2) Expr_Compare by (simp add: constrain_def)
  next
    case (Expr_Like i pattern negated insensitive)
    show ?thesis
    proof (cases "\<not> negated \<and> \<not> insensitive")
      case True
      then obtain s where s: "get row i = Some (Str s)" "like_matches s pattern"
        using assms(4) Expr_Like
        by (auto simp: truth_from_def Let_def simp del: get_eq_Some split: option.splits Value.splits if_splits)
      then have at: "value_or_null row i = Str s" and utf: "from_utf8 s"
        using wf [OF s(1)] by (simp_all add: value_or_null_def)
      have "constraints_met (value_or_null row)
          (with_entry i (\<lambda>c. c\<lparr>cc_starts_with := get_or_insert (cc_starts_with c) (Str p)\<rparr>) out)"
        if "like_prefix pattern = Some p" for p
        by (rule with_entry_met [OF assms(1)], unfold at)
          (use match_prefix [OF utf s(2) that] in \<open>auto simp: column_meets_def get_or_insert_def split: option.splits\<close>)
      then show ?thesis using True assms(1) Expr_Like by (auto simp: constrain_def split: option.splits)
    qed (use Expr_Like assms(1) in \<open>auto simp: constrain_def split: bool.splits\<close>)
  next
    case (Expr_In i vs)
    then obtain v w where v: "get row i = Some v" "w \<in> set vs" "w \<noteq> Null" "value_eq w v"
      using assms(4) by (auto simp: list_ex_iff simp del: get_eq_Some split: option.splits if_splits)
    then have at: "value_or_null row i = v" by (simp add: value_or_null_def)
    have "constraints_met (value_or_null row) (with_entry i (\<lambda>c. c\<lparr>cc_any_of := get_or_insert (cc_any_of c) vs\<rparr>) out)"
      by (rule with_entry_met [OF assms(1)], unfold at)
        (use v assms(3) Expr_In in \<open>auto simp: column_meets_def get_or_insert_def split: option.splits\<close>)
    then show ?thesis using Expr_In assms(1) by (simp add: constrain_def)
  next
    case (Expr_IsNull i negated)
    show ?thesis
    proof (cases negated)
      case False
      then have at: "value_or_null row i = Null"
        using assms(4) Expr_IsNull
        by (cases "get row i") (auto simp: is_none_or_def value_or_null_def truth_from_def simp del: get_eq_Some get_eq_None split: if_splits)
      have "constraints_met (value_or_null row) (with_entry i (\<lambda>c. c\<lparr>cc_equals := Some Null\<rparr>) out)"
        by (rule with_entry_met [OF assms(1)], unfold at)
          (auto simp: column_meets_def value_eq_Null)
      then show ?thesis using Expr_IsNull False by (simp add: constrain_def)
    qed (use Expr_IsNull assms(1) in \<open>simp add: constrain_def\<close>)
  qed (use assms(1) in \<open>simp_all add: constrain_def\<close>)
qed

lemma collect_met:
  assumes "list_all wf_value row" and "expr_wf predicate" and "expr_admits env predicate row"
  shows "constraints_met (value_or_null row) (collect_constraints (conjuncts predicate))"
proof -
  have "constraints_met (value_or_null row) (fold constrain es out)"
    if "set es \<subseteq> set (conjuncts predicate)" "constraints_met (value_or_null row) out" for es out
    using that
  proof (induction es arbitrary: out)
    case (Cons e es)
    have "constraints_met (value_or_null row) (constrain e out)"
      using Cons.prems assms conjunct_true [of e predicate] conjuncts_wf [of e predicate]
      by (intro constrain_met [of _ _ _ env]) (auto simp: expr_admits_def evaluate_def truth_admits_iff)
    then show ?case using Cons by simp
  qed simp
  from this [OF subset_refl, of "[]"] show ?thesis by (simp add: collect_constraints_def constraints_met_def)
qed

section \<open>The range on a key holds the keys that meet it\<close>

definition key_bytes :: "(Ordinal \<Rightarrow> Value) \<Rightarrow> (Ordinal \<times> Direction) list \<Rightarrow> bytes" where
  "key_bytes at cols = concat (map (\<lambda>(i, d). dir_bytes d (at i)) cols)"

lemma key_bytes_simps [simp]:
  "key_bytes at [] = []" "key_bytes at ((i, d) # cols) = dir_bytes d (at i) @ key_bytes at cols"
  by (simp_all add: key_bytes_def)

lemma value_eq_bytes: "wf_value v \<Longrightarrow> wf_value w \<Longrightarrow> value_eq v w \<Longrightarrow> dir_bytes d v = dir_bytes d w"
  using elem.enc_eq_iff dir_cmp_Equal by blast

lemma pin_loop_bytes:
  assumes "constraints_met at cs" and "\<And>i. wf_value (at i)"
  shows "\<exists>m. pin_loop cs pre n cols = (pre @ key_bytes at (take m cols), n + m) \<and> m \<le> length cols"
proof (induction cols arbitrary: pre n)
  case Nil
  show ?case by (intro exI [of _ 0]) simp
next
  case (Cons col cols)
  obtain i d where col: "col = (i, d)" by (cases col)
  show ?case
  proof (cases "equals_for cs i")
    case None
    then show ?thesis using col by (intro exI [of _ 0]) simp
  next
    case (Some w)
    then have "dir_bytes d w = dir_bytes d (at i)"
      using equals_for_met [OF assms(1) Some] assms(2) [of i] value_eq_bytes by metis
    moreover obtain m where "pin_loop cs (pre @ dir_bytes d w) (n + 1) cols =
        (pre @ dir_bytes d w @ key_bytes at (take m cols), n + 1 + m)" "m \<le> length cols"
      using Cons.IH [of "pre @ dir_bytes d w" "n + 1"] by auto
    ultimately show ?thesis using col Some by (intro exI [of _ "Suc m"]) (simp add: encode_value_into_dir)
  qed
qed

lemma mirrored_apply:
  "op_apply (case d of Asc \<Rightarrow> oper | Desc \<Rightarrow> mirrored oper) (dir_cmp d v w) = op_apply oper (value_cmp v w)"
  by (cases d; cases oper; cases "value_cmp v w") (simp_all add: dir_cmp_def)

lemma dir_bytes_order:
  assumes "wf_value v" and "wf_value w"
  shows "dir_cmp d v w = Less \<Longrightarrow> pre @ dir_bytes d v @ rest < pre @ dir_bytes d w"
    and "dir_cmp d v w = Equal \<Longrightarrow> prefix (pre @ dir_bytes d w) (pre @ dir_bytes d v @ rest)"
    and "dir_cmp d v w = Greater \<Longrightarrow> pre @ dir_bytes d w < pre @ dir_bytes d v @ rest \<and>
      \<not> prefix (pre @ dir_bytes d w) (pre @ dir_bytes d v @ rest)"
proof -
  note agree = elem.enc_agrees [OF assms, of d]
  show "pre @ dir_bytes d v @ rest < pre @ dir_bytes d w" if "dir_cmp d v w = Less"
    using agrees_cmp_lin_append [OF agree, of rest "[]"] that by (simp add: cmp_lin_simps)
  show "prefix (pre @ dir_bytes d w) (pre @ dir_bytes d v @ rest)" if "dir_cmp d v w = Equal"
    using agrees_equal_iff [OF agree] that by simp
  show "pre @ dir_bytes d w < pre @ dir_bytes d v @ rest \<and> \<not> prefix (pre @ dir_bytes d w) (pre @ dir_bytes d v @ rest)"
    if "dir_cmp d v w = Greater"
  proof
    show "pre @ dir_bytes d w < pre @ dir_bytes d v @ rest"
      using agrees_cmp_lin_append [OF agree, of rest "[]"] that by (simp add: cmp_lin_simps)
    show "\<not> prefix (pre @ dir_bytes d w) (pre @ dir_bytes d v @ rest)"
    proof
      assume "prefix (pre @ dir_bytes d w) (pre @ dir_bytes d v @ rest)"
      then obtain zs where "dir_bytes d w @ zs = dir_bytes d v @ rest" by (auto simp: prefix_def)
      then have "dir_bytes d v = dir_bytes d w" using elem.split_unique assms by metis
      then show False using agrees_equal_iff [OF agree] that by simp
    qed
  qed
qed

lemma successor_bounds:
  assumes "prefix_successor p = Some s"
  shows "prefix p k \<Longrightarrow> k < s" and "p \<le> k \<Longrightarrow> \<not> prefix p k \<Longrightarrow> s \<le> k"
  using prefix_contains [of p k] assms
  by (auto simp: KeyRange_prefix_def prefix_range_def range_contains_def)

lemma prefix_le: "prefix p k \<Longrightarrow> p \<le> (k :: bytes)"
  using prefix_contains [of p k]
  by (auto simp: KeyRange_prefix_def prefix_range_def range_contains_def split: option.splits)

lemma no_successor: "prefix_successor p = None \<Longrightarrow> p \<le> k \<Longrightarrow> prefix p k"
  using prefix_contains [of p k] by (auto simp: KeyRange_prefix_def prefix_range_def range_contains_def)

lemma bound_for_contains:
  assumes "wf_value v" and "wf_value w" and "op_apply oper (value_cmp v w)"
  shows "range_contains (bound_for pre oper w d) (pre @ dir_bytes d v @ rest)"
proof -
  let ?b = "pre @ dir_bytes d w" and ?k = "pre @ dir_bytes d v @ rest"
  define oper' where "oper' = (case d of Asc \<Rightarrow> oper | Desc \<Rightarrow> mirrored oper)"
  have holds: "op_apply oper' (dir_cmp d v w)" using assms(3) mirrored_apply by (simp add: oper'_def)
  note order = dir_bytes_order [OF assms(1,2), of d pre rest]
  have self: "?b < s" if "prefix_successor ?b = Some s" for s using successor_bounds(1) [OF that] by simp
  have le: "?k < s" if "prefix_successor ?b = Some s" "dir_cmp d v w \<noteq> Greater" for s
  proof (cases "dir_cmp d v w")
    case Less
    then show ?thesis using order(1) self [OF that(1)] by (meson less_trans)
  next
    case Equal
    then show ?thesis using order(2) successor_bounds(1) [OF that(1)] by blast
  qed (use that(2) in simp)
  have gt: "s \<le> ?k" if "prefix_successor ?b = Some s" "dir_cmp d v w = Greater" for s
    by (rule successor_bounds(2) [OF that(1)]) (use order(3) [OF that(2)] in \<open>blast intro: less_imp_le\<close>)+
  have ge: "?b \<le> ?k" if "dir_cmp d v w \<noteq> Less"
  proof (cases "dir_cmp d v w")
    case Equal
    then show ?thesis using order(2) prefix_le by blast
  next
    case Greater
    then show ?thesis using order(3) less_imp_le by blast
  qed (use that in simp)
  have some: "prefix_successor ?b \<noteq> None" if "dir_cmp d v w = Greater"
    using no_successor order(3) [OF that] less_imp_le by blast
  show ?thesis
    unfolding bound_for_def Let_def oper'_def [symmetric] encode_value_into_dir
    using holds order le gt ge some
    by (cases oper') (auto simp: range_contains_def KeyRange_new_def KeyRange_all_def split: option.splits)
qed

lemma prefix_term_contains:
  assumes "constraints_met at cs" and "prefix_term cs pre (Some (i, d)) = Some bounded"
  shows "prefix bounded (pre @ dir_bytes d (at i) @ rest)"
proof -
  obtain c start where c: "constraints_for cs i = Some c" "cc_starts_with c = Some start"
    "encode_prefix_into pre start d = (True, bounded)"
    using assms(2) by (auto simp: prefix_term_def split: option.splits prod.splits if_splits)
  then obtain q s where q: "start = Str q" "at i = Str s" "prefix q s"
    using constraints_for_met [OF assms(1) c(1)] by (auto simp: column_meets_def)
  have "prefix (map (\<lambda>x. x XOR dir_mask d) (c_STR # concat (map esc_byte q))) (dir_bytes d (at i) @ rest)"
    unfolding dir_bytes_def prefix_masked prefix_str_iff using q by blast
  then show ?thesis using c(3) q(1) by (auto simp: encode_prefix_into_bytes)
qed

lemma match_key_contains:
  assumes "constraints_met at cs" and "\<And>i. wf_value (at i)"
  shows "range_contains (match_key base_key cols cs) (base_key @ key_bytes at cols @ rest)"
proof -
  obtain m where pins: "pin_loop cs base_key 0 cols = (base_key @ key_bytes at (take m cols), m)" "m \<le> length cols"
    using pin_loop_bytes [OF assms, of base_key 0 cols] by auto
  define pre where "pre = base_key @ key_bytes at (take m cols)"
  have key: "base_key @ key_bytes at cols @ rest = pre @ key_bytes at (drop m cols) @ rest"
    unfolding pre_def key_bytes_def by (metis append.assoc append_take_drop_id concat_append map_append)
  have plain: "range_contains (KeyRange_prefix pre) (base_key @ key_bytes at cols @ rest)"
    by (simp add: key prefix_contains)
  show ?thesis
  proof (cases "get cols m")
    case None
    then show ?thesis
      using pins plain unfolding match_key_def Let_def
      by (simp only: None prod.case pre_def [symmetric] prefix_term_def range_term_def option.case)
  next
    case (Some col)
    obtain i d where col: "col = (i, d)" by (cases col)
    have "drop m cols = (i, d) # drop (Suc m) cols" using Some col by (auto simp: Cons_nth_drop_Suc [symmetric])
    then have key': "base_key @ key_bytes at cols @ rest = pre @ dir_bytes d (at i) @ key_bytes at (drop (Suc m) cols) @ rest"
      using key by simp
    have bounds: "range_contains (fold (\<lambda>(oper, v) result. intersect result (bound_for pre oper v d)) rs r)
        (base_key @ key_bytes at cols @ rest)"
      if "range_contains r (base_key @ key_bytes at cols @ rest)"
        "\<forall>(oper, w)\<in>set rs. wf_value w \<and> op_apply oper (value_cmp (at i) w)" for rs r
      using that by (induction rs arbitrary: r) (auto simp: key' bound_for_contains assms(2))
    have ranges: "\<forall>(oper, w)\<in>set rs. wf_value w \<and> op_apply oper (value_cmp (at i) w)"
      if "range_term cs (Some (i, d)) = Some (rs, d')" for rs d'
      using that constraints_for_met [OF assms(1), of i]
      by (auto simp: range_term_def column_meets_def split: option.splits if_splits)
    have dirs: "d' = d" if "range_term cs (Some (i, d)) = Some (rs, d')" for rs d'
      using that by (auto simp: range_term_def split: option.splits if_splits)
    show ?thesis
    proof (cases "prefix_term cs pre (Some (i, d))")
      case (Some bounded)
      then show ?thesis
        using pins \<open>get cols m = Some col\<close> col prefix_term_contains [OF assms(1) Some]
        by (simp add: match_key_def pre_def [symmetric] prefix_contains key' Let_def del: get_eq_Some)
    next
      case None
      show ?thesis
      proof (cases "range_term cs (Some (i, d))")
        case None': None
        then show ?thesis
          using pins None \<open>get cols m = Some col\<close> col plain
          by (simp add: match_key_def pre_def [symmetric] Let_def del: get_eq_Some)
      next
        case (Some rd)
        obtain rs where "rd = (rs, d)" using dirs Some by (cases rd) auto
        then show ?thesis
          using pins None Some \<open>get cols m = Some col\<close> col plain bounds [OF plain ranges]
          by (simp add: match_key_def pre_def [symmetric] Let_def del: get_eq_Some)
      qed
    qed
  qed
qed


section \<open>Several ranges, several keys\<close>

lemma arranged_values:
  assumes "list_all wf_value vs" and "w \<in> set vs" and "w \<noteq> Null" and "wf_value v" and "value_eq w v"
  shows "\<exists>x\<in>set (dedup_by value_eq (sort_by value_cmp (filter (\<lambda>v. \<not> is_null v) vs))). wf_value x \<and> value_eq v x"
proof -
  let ?xs = "sort_by value_cmp (filter (\<lambda>v. \<not> is_null v) vs)"
  have wf: "list_all wf_value (filter (\<lambda>v. \<not> is_null v) vs)" using assms(1) by (auto simp: list_all_iff)
  have "value_eq = (\<lambda>a b. value_cmp a b = Equal)" by (simp add: fun_eq_iff value_eq_def)
  moreover have "list_all wf_value ?xs" using wf by (simp add: list_all_iff)
  moreover have "w \<in> set ?xs" using assms(2,3) by simp
  ultimately obtain x where x: "x \<in> set (dedup_by value_eq ?xs)" "value_cmp x w = Equal"
    using asc.total.dedup_sorted [OF _ asc.total.sort_by_sorted [OF wf]] by auto
  have "x \<in> set ?xs" using x(1) set_dedup_by [of value_eq ?xs] by blast
  then have "wf_value x" "wf_value w" using wf assms(1,2) by (auto simp: list_all_iff)
  moreover from this have "value_eq v x"
    using x(2) assms(4,5) asc.enc_eq_iff unfolding value_eq_def by metis
  ultimately show ?thesis using x(1) by blast
qed

lemma pin_value_met:
  "constraints_met at cs \<Longrightarrow> wf_value w \<Longrightarrow> value_eq (at i) w \<Longrightarrow> constraints_met at (pin_value i w cs)"
  by (induction i w cs rule: pin_value.induct) (auto simp: constraints_met_def column_meets_def)

lemma meets_other_bounds_met:
  assumes "column_meets c v" and "wf_value v" and "wf_value w" and "value_eq v w"
  shows "meets_other_bounds c w"
proof -
  have "list_all (\<lambda>(oper, bnd). lit_satisfies w oper bnd) (cc_ranges c)"
    using assms(1) value_eq_cmp(2) [OF assms(2,3) _ assms(4)]
    by (auto simp: column_meets_def list_all_iff lit_satisfies_op)
  moreover have "w = v" if "v = Str s" for s
    using that assms(4) by (cases w) (auto simp: value_eq_def value_cmp.simps lex_cmp_lin)
  ultimately show ?thesis
    using assms(1) by (auto simp: meets_other_bounds_def column_meets_def split: option.splits Value.splits)
qed

lemma not_empty: "range_contains r k \<Longrightarrow> \<not> range_is_empty r"
  by (auto simp: range_is_empty_def range_contains_def split: Bound.splits)

lemma in_ranges_contains:
  assumes "constraints_met at cs" and "\<And>i. wf_value (at i)" and "in_ranges base_key cols cs = Some ranges"
  shows "\<exists>r\<in>set ranges. range_contains r (base_key @ key_bytes at cols @ rest)"
proof -
  obtain i c vs where c: "constraints_for cs i = Some c" "cc_any_of c = Some vs"
    and ranges: "set ranges = set (filter (\<lambda>r. \<not> range_is_empty r)
      (map (\<lambda>v. match_key base_key cols (pin_value i v cs))
        (filter (meets_other_bounds c) (dedup_by value_eq (sort_by value_cmp (filter (\<lambda>v. \<not> is_null v) vs))))))"
    using assms(3)
    by (auto simp: in_ranges_def Let_def simp del: set_filter set_map get_eq_Some split: bind_splits if_splits)
  have meets: "column_meets c (at i)" by (rule constraints_for_met [OF assms(1) c(1)])
  then obtain w where "list_all wf_value vs" "w \<in> set vs" "w \<noteq> Null" "value_eq w (at i)"
    using c(2) by (auto simp: column_meets_def)
  then obtain x where x: "x \<in> set (dedup_by value_eq (sort_by value_cmp (filter (\<lambda>v. \<not> is_null v) vs)))"
      "wf_value x" "value_eq (at i) x"
    using arranged_values assms(2) by blast
  have "range_contains (match_key base_key cols (pin_value i x cs)) (base_key @ key_bytes at cols @ rest)"
    by (rule match_key_contains [OF pin_value_met [OF assms(1) x(2,3)] assms(2)])
  then show ?thesis
    using x(1) meets_other_bounds_met [OF meets assms(2) x(2,3)] not_empty unfolding ranges by auto
qed

text \<open>The keys an \<open>IN\<close> on the primary key gives: the fixed values are the row's, with a hole where the
  list stands.\<close>

definition fixed_from ::
  "(Ordinal \<Rightarrow> Value \<Rightarrow> bool) \<Rightarrow> (Ordinal \<Rightarrow> Value list \<Rightarrow> bool) \<Rightarrow> Value option list \<Rightarrow> (nat \<times> Value list) option \<Rightarrow>
     Ordinal list \<Rightarrow> bool" where
  "fixed_from P Q fixed varying os \<longleftrightarrow>
     list_all2 (\<lambda>f i. \<forall>v. f = Some v \<longrightarrow> P i v) fixed os \<and>
     (case varying of None \<Rightarrow> True | Some (n, vs) \<Rightarrow> n < length os \<and> Q (os ! n) vs)"

lemma point_get_loop_from:
  assumes "\<And>i c v. constraints_for cs i = Some c \<Longrightarrow> cc_equals c = Some v \<Longrightarrow> P i v"
    and "\<And>i c vs. constraints_for cs i = Some c \<Longrightarrow> cc_any_of c = Some vs \<Longrightarrow> Q i vs"
  shows "fixed_from P Q fixed varying os \<Longrightarrow> point_get_loop cs fixed varying cols = Some (fixed', varying') \<Longrightarrow>
    fixed_from P Q fixed' varying' (os @ map fst cols)"
proof (induction cols arbitrary: fixed varying os)
  case (Cons col cols)
  obtain i d where col: "col = (i, d)" by (cases col)
  obtain c where c: "constraints_for cs i = Some c" using Cons.prems(2) col by (auto split: option.splits)
  have all: "list_all2 (\<lambda>f i. \<forall>v. f = Some v \<longrightarrow> P i v) fixed os"
    using Cons.prems(1) by (simp add: fixed_from_def)
  note len = list_all2_lengthD [OF all]
  show ?case
  proof (cases "cc_equals c")
    case (Some v)
    have "P i v" by (rule assms(1) [OF c Some])
    then have "fixed_from P Q (fixed @ [Some v]) varying (os @ [i])"
      using Cons.prems(1) all by (auto simp: fixed_from_def list_all2_appendI nth_append split: option.splits)
    from Cons.IH [OF this] show ?thesis using Cons.prems(2) col c Some by simp
  next
    case None
    then obtain vs where vs: "varying = None" "cc_any_of c = Some vs"
      using Cons.prems(2) col c by (cases varying) (auto split: option.splits)
    have "Q i vs" by (rule assms(2) [OF c vs(2)])
    then have "fixed_from P Q (fixed @ [None]) (Some (length fixed, vs)) (os @ [i])"
      using all len by (simp add: fixed_from_def list_all2_appendI)
    from Cons.IH [OF this] show ?thesis using Cons.prems(2) col c None vs by simp
  qed
qed simp

abbreviation fixed_met :: "(Ordinal \<Rightarrow> Value) \<Rightarrow> Value option list \<Rightarrow> (nat \<times> Value list) option \<Rightarrow> Ordinal list \<Rightarrow> bool" where
  "fixed_met at \<equiv> fixed_from (\<lambda>i v. wf_value v \<and> value_eq (at i) v)
     (\<lambda>i vs. list_all wf_value vs \<and> (\<exists>w\<in>set vs. value_eq w (at i)))"

lemma point_get_loop_met:
  assumes "constraints_met at cs" and "fixed_met at fixed varying os"
    and "point_get_loop cs fixed varying cols = Some (fixed', varying')"
  shows "fixed_met at fixed' varying' (os @ map fst cols)"
proof (rule point_get_loop_from [OF _ _ assms(2,3)])
  fix i c
  assume "constraints_for cs i = Some c"
  then have meets: "column_meets c (at i)" by (rule constraints_for_met [OF assms(1)])
  show "wf_value v \<and> value_eq (at i) v" if "cc_equals c = Some v" for v using meets that by (simp add: column_meets_def)
  show "list_all wf_value vs \<and> (\<exists>w\<in>set vs. value_eq w (at i))" if "cc_any_of c = Some vs" for vs
    using meets that by (auto simp: column_meets_def)
qed

lemma set_flatten_key: "set (flatten_key fs) = {v. Some v \<in> set fs}"
  by (auto simp: flatten_key_def split: option.splits)

lemma flatten_key_met:
  assumes "list_all2 (\<lambda>f i. \<forall>v. f = Some v \<longrightarrow> P i v) fixed os"
    and "length (flatten_key fixed) = length os"
  shows "list_all2 (\<lambda>v i. P i v) (flatten_key fixed) os"
proof -
  have short: "length (flatten_key fs) \<le> length fs" for fs
    unfolding flatten_key_def by (induction fs) (auto split: option.splits)
  show ?thesis
    using assms
  proof (induction fixed os rule: list_all2_induct)
    case (Cons f fs i os)
    have "length (flatten_key fs) \<le> length os" using short [of fs] list_all2_lengthD [OF Cons.hyps(2)] by simp
    then obtain v where "f = Some v" using Cons.prems by (cases f) (auto simp: flatten_key_def)
    then show ?case using Cons by (simp add: flatten_key_def)
  qed (simp add: flatten_key_def)
qed

interpretation keys: total_comparison "list_all wf_value" "lex_cmp value_cmp"
proof
  have cmp: "lex_cmp value_cmp a b = cmp_lin (concat (map element_bytes a)) (concat (map element_bytes b))"
    if "list_all wf_value a" "list_all wf_value b" for a b
    using asc.concat_byte_order that by simp
  fix a b c assume ab: "list_all wf_value a" "list_all wf_value b"
  show "lex_cmp value_cmp a a = Equal" by (simp only: cmp [OF ab(1) ab(1)] cmp_lin_simps)
  show "lex_cmp value_cmp b a = reverse_ordering (lex_cmp value_cmp a b)"
    unfolding cmp [OF ab] cmp [OF ab(2) ab(1)] by (auto simp: cmp_lin_def)
  assume c: "list_all wf_value c" "lex_cmp value_cmp a b \<noteq> Greater" "lex_cmp value_cmp b c \<noteq> Greater"
  then show "lex_cmp value_cmp a c \<noteq> Greater \<and>
      (lex_cmp value_cmp a c = Equal \<longrightarrow> lex_cmp value_cmp a b = Equal \<and> lex_cmp value_cmp b c = Equal)"
    unfolding cmp [OF ab] cmp [OF ab(2) c(1)] cmp [OF ab(1) c(1)] by (auto simp: cmp_lin_def split: if_splits)
qed

lemma key_list_cmp:
  "list_all2 value_eq xs ys \<longleftrightarrow> lex_cmp value_cmp xs ys = Equal"
proof (induction xs arbitrary: ys)
  case (Cons x xs)
  then show ?case by (cases ys) (auto simp: value_eq_def split: ordering.splits)
qed (case_tac ys; simp)


section \<open>What an access path reaches\<close>

definition reaches :: "Unicode \<Rightarrow> TableDef \<Rightarrow> Row \<Rightarrow> Access \<Rightarrow> bool" where
  "reaches u t row access =
     (case access of
        PointGet key \<Rightarrow> row_key t key = key_of t row
      | PointGets keys \<Rightarrow> \<exists>key\<in>set keys. row_key t key = key_of t row
      | TableScan r \<Rightarrow> range_contains r (key_of t row)
      | IndexScan i r _ \<Rightarrow>
          \<exists>ix\<in>set (td_indexes t). ix_id ix = i \<and> (\<exists>e\<in>set (held_entries u t ix row). range_contains r (en_key e))
      | IndexScans i rs _ \<Rightarrow>
          \<exists>ix\<in>set (td_indexes t). ix_id ix = i \<and>
            (\<exists>e\<in>set (held_entries u t ix row). \<exists>r\<in>set rs. range_contains r (en_key e))
      | Access_Nothing \<Rightarrow> False)"

text \<open>A row of the table, the row a query sees it as with its computed values, and the columns' values.\<close>

definition seen_as :: "TableDef \<Rightarrow> Row \<Rightarrow> Row \<Rightarrow> bool" where
  "seen_as t row ext \<longleftrightarrow> row_ok t row \<and> (\<exists>extra. ext = row @ extra) \<and> list_all wf_value ext"

lemma seen_wf: "seen_as t row ext \<Longrightarrow> wf_value (value_or_null ext i)"
  by (auto simp: seen_as_def value_or_null_def get_def list_all_length)

lemma seen_column: "seen_as t row ext \<Longrightarrow> i < length (td_columns t) \<Longrightarrow> value_or_null ext i = value_or_null row i"
  using row_ok_length by (auto simp: seen_as_def value_or_null_def get_def nth_append)

lemma seen_key:
  assumes "table_ok t" and "seen_as t row ext"
  shows "primary_key_values row t = map (value_or_null ext) (td_primary_key t)"
  using key_column_live [OF assms(1)] seen_column [OF assms(2)] by (simp add: primary_key_values_def project_def)

lemma row_key_met:
  assumes "table_ok t" and "seen_as t row ext"
    and "list_all2 (\<lambda>v i. wf_value v \<and> value_eq (value_or_null ext i) v) key (td_primary_key t)"
  shows "row_key t key = key_of t row"
proof -
  have "list_all2 value_eq (primary_key_values row t) key"
    using assms(3) unfolding seen_key [OF assms(1,2)] by (auto simp: list_all2_conv_all_nth)
  moreover have "list_all wf_value key" using assms(3) by (auto simp: list_all2_conv_all_nth list_all_length)
  moreover have "list_all wf_value (primary_key_values row t)"
    using row_key_fits [OF assms(1)] key_fits_wf assms(2) by (auto simp: seen_as_def)
  ultimately have "tuple_bytes [] (primary_key_values row t) @ [] = tuple_bytes [] key @ []"
    using tuple_split [of "primary_key_values row t" key "[]" "[]" "[]"] by (blast dest: list_all2_lengthD)
  then show ?thesis by (simp add: row_key_bytes)
qed

lemma key_bytes_asc: "key_bytes at (map (\<lambda>i. (i, Asc)) os) = tuple_bytes [] (map at os)"
  by (induction os) (simp_all add: direction_at_def)

lemma key_of_bytes:
  assumes "table_ok t" and "seen_as t row ext"
  shows "key_of t row = table_prefix t @ key_bytes (value_or_null ext) (primary_columns t)"
  by (simp add: row_key_bytes primary_columns_def key_bytes_asc seen_key [OF assms])

lemma those_map: "those (map f xs) = Some ys \<longleftrightarrow> list_all2 (\<lambda>x y. f x = Some y) xs ys"
proof (induction xs arbitrary: ys)
  case (Cons x xs)
  then show ?case by (cases "f x"; cases ys) (auto split: option.splits)
qed auto

lemma match_primary_key_reaches:
  assumes "table_ok t" and "seen_as t row ext" and "constraints_met (value_or_null ext) cs"
  shows "reaches u t row (ca_access (match_primary_key t cs ordered))"
proof -
  have scan: "range_contains (match_key (table_prefix t) (primary_columns t) cs) (key_of t row)"
    using match_key_contains [OF assms(3) seen_wf [OF assms(2)], of "table_prefix t" "primary_columns t" "[]"]
    by (simp add: key_of_bytes [OF assms(1,2)])
  show ?thesis
  proof (cases "those (map (\<lambda>(i, _). equals_for cs i) (primary_columns t))")
    case (Some key)
    then have "list_all2 (\<lambda>i v. equals_for cs i = Some v) (td_primary_key t) key"
      by (auto simp: those_map primary_columns_def list_all2_conv_all_nth)
    then have "list_all2 (\<lambda>v i. wf_value v \<and> value_eq (value_or_null ext i) v) key (td_primary_key t)"
      using equals_for_met [OF assms(3)] by (auto simp: list_all2_conv_all_nth)
    from row_key_met [OF assms(1,2) this] show ?thesis
      using Some scan by (simp add: match_primary_key_def reaches_def Let_def)
  qed (use scan in \<open>simp add: match_primary_key_def reaches_def Let_def\<close>)
qed

lemma point_get_set_met:
  assumes "constraints_met at cs" and "\<And>i. wf_value (at i)" and "point_get_set cols cs = Some keys"
  shows "\<exists>key\<in>set keys. list_all2 (\<lambda>v i. wf_value v \<and> value_eq (at i) v) key (map fst cols)"
proof -
  obtain fixed n vs where loop: "point_get_loop cs [] None cols = Some (fixed, Some (n, vs))"
    and lens: "\<And>v. v \<in> set vs \<Longrightarrow> length (flatten_key (fixed[n := Some v])) = length cols"
    and keys: "keys = dedup_by (list_all2 value_eq) (sort_by (lex_cmp value_cmp) (map (\<lambda>v. flatten_key (fixed[n := Some v])) vs))"
    using assms(3)
    by (auto simp: point_get_set_def Let_def list_ex_iff split: if_splits option.splits)
  have met: "fixed_met at fixed (Some (n, vs)) (map fst cols)"
    using point_get_loop_met [OF assms(1) _ loop, of "[]"] by (simp add: fixed_from_def del: nth_map)
  let ?fits = "\<lambda>v i. wf_value v \<and> value_eq (at i) v"
  obtain w where w: "w \<in> set vs" "wf_value w" "value_eq (at (map fst cols ! n)) w" "n < length cols"
    using met assms(2) asc.total.eq_sym by (auto simp: fixed_from_def list_all_iff value_eq_def)
  have key: "list_all2 ?fits (flatten_key (fixed[n := Some v])) (map fst cols)"
    if "v \<in> set vs" "wf_value v" "value_eq (at (map fst cols ! n)) v" for v
  proof (rule flatten_key_met)
    show "list_all2 (\<lambda>f i. \<forall>v. f = Some v \<longrightarrow> wf_value v \<and> value_eq (at i) v) (fixed[n := Some v]) (map fst cols)"
      using met that by (auto simp: fixed_from_def list_all2_conv_all_nth nth_list_update)
  qed (use lens [OF that(1)] in simp)
  have fixed_wf: "wf_value x" if "Some x \<in> set fixed" for x
    using met that by (auto simp: fixed_from_def list_all2_conv_all_nth in_set_conv_nth)
  have "wf_value v" if "v \<in> set vs" for v using met that by (auto simp: fixed_from_def list_all_iff)
  then have all_wf: "list_all wf_value (flatten_key (fixed[n := Some v]))" if "v \<in> set vs" for v
    using fixed_wf that set_update_subset_insert [of fixed n "Some v"]
    unfolding list_all_iff set_flatten_key by blast
  let ?keys = "map (\<lambda>v. flatten_key (fixed[n := Some v])) vs" and ?key = "flatten_key (fixed[n := Some w])"
  have wf: "list_all (list_all wf_value) ?keys" using all_wf by (simp add: list_all_iff)
  moreover have "list_all2 value_eq = (\<lambda>a b. lex_cmp value_cmp a b = Equal)" by (simp add: fun_eq_iff key_list_cmp)
  moreover have "list_all (list_all wf_value) (sort_by (lex_cmp value_cmp) ?keys)" using all_wf by (simp add: list_all_iff)
  moreover have "?key \<in> set (sort_by (lex_cmp value_cmp) ?keys)" using w(1) by simp
  ultimately obtain k where k: "k \<in> set keys" "list_all2 value_eq k ?key"
    using keys.dedup_sorted [OF _ keys.sort_by_sorted [OF wf]] unfolding keys by metis
  have "k \<in> set ?keys" using k(1) set_dedup_by [of "list_all2 value_eq"] unfolding keys by fastforce
  then have "list_all wf_value k" using wf by (auto simp: list_all_iff)
  then have "list_all2 ?fits k (map fst cols)"
    using k(2) key [OF w(1-3)] assms(2) value_eq_cmp(1)
    by (auto simp: list_all2_conv_all_nth list_all_length value_eq_def)
  then show ?thesis using k(1) by blast
qed


lemma match_point_gets_reaches:
  assumes "table_ok t" and "seen_as t row ext" and "constraints_met (value_or_null ext) cs"
    and "match_point_gets t cs = Some c"
  shows "reaches u t row (ca_access c)"
proof -
  obtain ks where ks: "point_get_set (primary_columns t) cs = Some ks" "ca_access c = PointGets ks"
    using assms(4) by (auto simp: match_point_gets_def)
  have "map fst (primary_columns t) = td_primary_key t" by (simp add: primary_columns_def comp_def)
  then show ?thesis
    using point_get_set_met [OF assms(3) seen_wf [OF assms(2)] ks(1)] row_key_met [OF assms(1,2)] ks(2)
    by (auto simp: reaches_def)
qed

section \<open>What an index scan reaches\<close>

lemma find_map_Some: "find_map f xs = Some y \<Longrightarrow> \<exists>x\<in>set xs. f x = Some y"
  by (induction xs) (auto split: option.splits)

text \<open>What the planner is told about indexes is true: a predicate it sees is the one that decides which
  rows the index holds, and reads columns of the table only; an expression it sees computes the value
  the index keys on, from the table's own columns. A search index is ascending.\<close>

definition planner_ok :: "'s Planner \<Rightarrow> Env \<Rightarrow> ('s \<Rightarrow> Row \<Rightarrow> Value) \<Rightarrow> TableDef \<Rightarrow> bool" where
  "planner_ok pn env eval t \<longleftrightarrow>
     (\<forall>ix\<in>set (td_indexes t).
        (\<forall>p. pn_predicate pn ix = Some p \<longrightarrow>
           expr_wf p \<and> expr_columns p \<subseteq> {..<length (td_columns t)} \<and> ix_predicate ix = Some (expr_truth env p)) \<and>
        (\<forall>s e row extra. pn_expression pn ix = Some s \<longrightarrow> ix_expression ix = Some e \<longrightarrow>
           length row = length (td_columns t) \<longrightarrow> eval s (row @ extra) = ie_compute e row))"

definition text_ascending :: "TableDef \<Rightarrow> bool" where
  "text_ascending t \<longleftrightarrow>
     (\<forall>ix\<in>set (td_indexes t). ix_text ix \<longrightarrow> (\<forall>c\<in>set (ix_columns ix). ic_direction c = Asc))"

lemma partial_holds:
  assumes "planner_ok pn env eval t" and "ix \<in> set (td_indexes t)" and "pn_predicate pn ix = Some p"
    and "seen_as t row ext" and "implies predicate p" and "expr_wf predicate" and "expr_admits env predicate ext"
  shows "admits ix row"
proof -
  have p: "expr_wf p" "expr_columns p \<subseteq> {..<length (td_columns t)}" "ix_predicate ix = Some (expr_truth env p)"
    using assms(1-3) by (auto simp: planner_ok_def)
  have wf: "get ext i = Some v \<Longrightarrow> wf_value v" for i v
    using assms(4) by (auto simp: seen_as_def list_all_length)
  have "evaluate_over env (get ext) q = Truth_True" if "q \<in> set (conjuncts p)" for q
    using assms(5-7) implies_one_sound [of "get ext" predicate q env, OF wf] that conjuncts_wf [OF that p(1)]
    by (auto simp: implies_def list_all_iff expr_admits_def evaluate_def truth_admits_iff)
  then have "evaluate_over env (get ext) p = Truth_True" by (rule conjuncts_true)
  moreover have "evaluate_over env (get ext) p = evaluate_over env (get row) p"
    using p(2) assms(4) row_ok_length by (intro evaluate_agree) (auto simp: seen_as_def get_def nth_append)
  ultimately show ?thesis by (simp add: admits_def p(3) is_none_or_def expr_truth_def evaluate_def)
qed

lemma index_prefix_None: "index_prefix t ix None = key_header INDEX_SPACE (ix_id ix)"
  by (simp add: index_prefix_def Let_def split: option.split)

lemma tenant_layout:
  assumes "table_ok t" and "seen_as t row ext"
  shows "tenant_bytes t (primary_key_values row t) =
    key_bytes (value_or_null ext) (case td_tenant_column t of None \<Rightarrow> [] | Some c \<Rightarrow> [(c, Asc)])"
proof (cases "td_tenant_column t")
  case (Some c)
  have "primary_key_values row t \<noteq> []" using row_key_fits [OF assms(1)] assms(2) by (auto simp: seen_as_def)
  moreover have "hd (primary_key_values row t) = value_or_null ext c"
    using hd_tenant [OF assms(1) _ Some, of row] assms(2) row_ok_length seen_column [OF assms(2), of c]
    by (auto simp: seen_as_def)
  ultimately show ?thesis
    using Some by (cases "primary_key_values row t") (simp_all add: tenant_bytes_def tenant_value_def get_def)
qed (simp add: tenant_bytes_def tenant_value_def)

lemma entry_key_bytes:
  assumes "table_ok t" and "seen_as t row ext" and "admits ix row" and "vs \<in> set (key_sets u ix row)"
    and "length vs = length (key_directions ix)"
  shows "\<exists>e\<in>set (held_entries u t ix row). \<exists>rest.
    en_key e = index_prefix t ix None @
      key_bytes (value_or_null ext) (case td_tenant_column t of None \<Rightarrow> [] | Some c \<Rightarrow> [(c, Asc)]) @
      tuple_bytes (key_directions ix) vs @ rest"
proof -
  let ?e = "index_entry t ix vs (primary_key_values row t)"
  have "en_key ?e = index_prefix t ix None @
      key_bytes (value_or_null ext) (case td_tenant_column t of None \<Rightarrow> [] | Some c \<Rightarrow> [(c, Asc)]) @
      tuple_bytes (key_directions ix) vs @ (if enforces ix vs then [] else tuple_bytes [] (primary_key_values row t))"
    by (simp add: index_entry_bytes [OF assms(5)] index_prefix_None tenant_layout [OF assms(1,2)])
  moreover have "?e \<in> set (held_entries u t ix row)"
    using assms(3,4) by (simp add: held_entries_def entries_for_def Let_def)
  ultimately show ?thesis by blast
qed

lemma column_bytes:
  "tuple_bytes (map snd cols) (map (\<lambda>(i, d). at i) cols) = key_bytes at cols"
  by (induction cols) (auto simp: direction_at_def)


lemma bracket_append: "key_bytes at (xs @ ys) = key_bytes at xs @ key_bytes at ys"
  by (simp add: key_bytes_def)

text \<open>The columns an index is matched on are the ones its entries are keyed by.\<close>

lemma match_values:
  assumes "table_ok t" and "seen_as t row ext" and "planner_ok pn env eval t" and "ix \<in> set (td_indexes t)"
    and "ext = extend_row eval row compute [] None"
    and "(case ix_expression ix of
             None \<Rightarrow> Some (map (\<lambda>c. (ic_ordinal c, ic_direction c)) (ix_columns ix))
           | Some declared \<Rightarrow>
               map_option (\<lambda>at. [(length (td_columns t) + at, ie_direction declared)])
                 (expression_position pn ix compute)) = Some own"
  shows "key_values ix row = map (\<lambda>(i, d). value_or_null ext i) own \<and> key_directions ix = map snd own"
proof (cases "ix_expression ix")
  case None
  then have own: "own = map (\<lambda>c. (ic_ordinal c, ic_direction c)) (ix_columns ix)" using assms(6) by simp
  have "index_ok (td_columns t) ix" using assms(1,4) by (simp add: table_ok_def Let_def)
  then have "value_or_null row (ic_ordinal c) = value_or_null ext (ic_ordinal c)" if "c \<in> set (ix_columns ix)" for c
    using that seen_column [OF assms(2)] by (simp add: index_ok_def keyable_def live_column_def)
  then show ?thesis using None own by (simp add: key_values_def index_values_def key_directions_def)
next
  case (Some declared)
  then obtain k s where k: "own = [(length (td_columns t) + k, ie_direction declared)]" "k < length compute"
      "pn_expression pn ix = Some s" "compute ! k = s"
    using assms(6) by (auto simp: expression_position_def dest: position_Some split: bind_splits)
  obtain extra where extra: "ext = row @ extra" "length extra = length compute"
    "extra ! k = eval (compute ! k) (row @ take k extra)"
    using extend_append [of eval row compute] assms(5) k(2) by metis
  have len: "length row = length (td_columns t)" using assms(2) row_ok_length by (simp add: seen_as_def)
  have "extra ! k = ie_compute declared row"
    using assms(3,4) k(3,4) Some len unfolding extra(3) planner_ok_def by blast
  then have "value_or_null ext (length (td_columns t) + k) = ie_compute declared row"
    using extra k(2) len by (simp add: value_or_null_def get_def nth_append)
  then show ?thesis using k(1) Some by (simp add: key_values_def key_directions_def)
qed

lemma match_columns:
  assumes "table_ok t" and "seen_as t row ext" and "planner_ok pn env eval t" and "ix \<in> set (td_indexes t)"
    and "ext = extend_row eval row compute [] None"
    and "(case ix_expression ix of
             None \<Rightarrow> Some (map (\<lambda>c. (ic_ordinal c, ic_direction c)) (ix_columns ix))
           | Some declared \<Rightarrow>
               map_option (\<lambda>at. [(length (td_columns t) + at, ie_direction declared)])
                 (expression_position pn ix compute)) = Some own"
  shows "tuple_bytes (key_directions ix) (key_values ix row) = key_bytes (value_or_null ext) own \<and>
    length (key_values ix row) = length (key_directions ix)"
  using match_values [OF assms] column_bytes by simp

lemma min_by_rank_in: "min_by_rank f xs = Some x \<Longrightarrow> x \<in> set xs"
proof -
  have "fold (\<lambda>y best. if f y < f best then y else best) ys b \<in> insert b (set ys)" for ys b
    by (induction ys arbitrary: b) auto
  then show "min_by_rank f xs = Some x \<Longrightarrow> x \<in> set xs" by (auto simp: min_by_rank_def split: list.splits)
qed

lemma match_text_reaches:
  assumes "table_ok t" and "seen_as t row ext" and "constraints_met (value_or_null ext) cs"
    and "text_ascending t" and "ix \<in> set (td_indexes t)" and "ix_text ix" and "admits ix row"
    and "expr_admits env (mc_predicate cx) ext" and "mc_table cx = t" and "mc_constraints cx = cs"
    and "match_text_index pn cx ix = Some c"
  shows "reaches (env_unicode env) t row (ca_access c)"
proof -
  obtain col where col: "ix_columns ix = [col]" "ix_expression ix = None" "ic_ordinal col < length (td_columns t)"
    "ic_direction col = Asc"
    using assms(1,4-6) by (auto simp: table_ok_def Let_def index_ok_def keyable_def live_column_def text_ascending_def)
  obtain w pre where w: "text_term pn cx ix = Some w"
    and pre: "(case td_tenant_column t of
          None \<Rightarrow> Some (index_prefix t ix None)
        | Some tenant \<Rightarrow> map_option (\<lambda>v. encode_value_into (index_prefix t ix None) v Asc) (equals_for cs tenant)) = Some pre"
    and c: "ca_access c = IndexScan (ix_id ix) (KeyRange_prefix (pre @ dir_bytes Asc (Str w))) False"
    using assms(9-11) by (auto simp: match_text_index_def encode_value_into_dir split: bind_splits)
  obtain ws where ws: "Expr_Contains (ic_ordinal col) ws \<in> set (conjuncts (mc_predicate cx))" "w \<in> set ws"
    using w col(1)
    by (auto simp: text_term_def dest!: find_map_Some min_by_rank_in split: bind_splits Expr.splits if_splits)
  have "evaluate_over env (get ext) (Expr_Contains (ic_ordinal col) ws) = Truth_True"
    using conjunct_true [OF ws(1)] assms(8) by (simp add: expr_admits_def evaluate_def truth_admits_iff)
  then obtain s where s: "get ext (ic_ordinal col) = Some (Str s)" "w \<in> set (tokenize (env_unicode env) s)"
    using ws(2) by (auto simp: truth_from_def list_all_iff simp del: get_eq_Some split: option.splits Value.splits if_splits)
  have "get row (ic_ordinal col) = Some (Str s)"
    using s(1) assms(2) row_ok_length col(3) by (auto simp: seen_as_def get_def nth_append split: if_splits)
  then have "[Str w] \<in> set (key_sets (env_unicode env) ix row)"
    using assms(6) col(1) s(2) by (simp add: key_sets_def del: get_eq_Some)
  from entry_key_bytes [OF assms(1,2,7) this] obtain e rest where e: "e \<in> set (held_entries (env_unicode env) t ix row)"
    "en_key e = index_prefix t ix None @
      key_bytes (value_or_null ext) (case td_tenant_column t of None \<Rightarrow> [] | Some c \<Rightarrow> [(c, Asc)]) @
      dir_bytes Asc (Str w) @ rest"
    using col by (auto simp: key_directions_def direction_at_def)
  have "pre = index_prefix t ix None @ key_bytes (value_or_null ext) (case td_tenant_column t of None \<Rightarrow> [] | Some c \<Rightarrow> [(c, Asc)])"
    using pre equals_for_met [OF assms(3)] value_eq_bytes [OF seen_wf [OF assms(2)], symmetric]
    by (auto simp: encode_value_into_dir split: option.splits)
  then have "range_contains (KeyRange_prefix (pre @ dir_bytes Asc (Str w))) (en_key e)"
    by (simp add: prefix_contains e(2))
  then show ?thesis using e(1) c assms(5) by (auto simp: reaches_def)
qed


lemma match_index_reaches:
  assumes "table_ok t" and "seen_as t row ext" and "constraints_met (value_or_null ext) cs"
    and "text_ascending t" and "planner_ok pn env eval t" and "ix \<in> set (td_indexes t)"
    and "ext = extend_row eval row compute [] None" and "expr_wf (mc_predicate cx)"
    and "expr_admits env (mc_predicate cx) ext" and "mc_table cx = t" and "mc_constraints cx = cs"
    and "mc_compute cx = compute" and "mc_width cx = length (td_columns t)"
    and "match_index pn cx ix = Some c"
  shows "reaches (env_unicode env) t row (ca_access c)"
proof -
  have admits: "admits ix row"
  proof (cases "ix_predicate ix")
    case None
    then show ?thesis by (simp add: admits_def is_none_or_def)
  next
    case (Some p)
    then obtain q where "pn_predicate pn ix = Some q" "implies (mc_predicate cx) q"
      using assms(14) by (auto simp: match_index_def Let_def split: option.splits if_splits)
    then show ?thesis using partial_holds assms(2,5,6,8,9) by blast
  qed
  show ?thesis
  proof (cases "ix_text ix")
    case True
    then have "match_text_index pn cx ix = Some c"
      using assms(14) by (simp add: match_index_def Let_def split: if_splits)
    then show ?thesis using match_text_reaches [OF assms(1-4,6) True admits assms(9-11)] by blast
  next
    case False
    obtain own where own: "(case ix_expression ix of
             None \<Rightarrow> Some (map (\<lambda>c. (ic_ordinal c, ic_direction c)) (ix_columns ix))
           | Some declared \<Rightarrow>
               map_option (\<lambda>at. [(length (td_columns t) + at, ie_direction declared)])
                 (expression_position pn ix compute)) = Some own"
      using assms(14) False unfolding match_index_def Let_def assms(12,13)
      by (fastforce split: if_splits bind_split_asm)
    define cols where "cols = (case td_tenant_column t of None \<Rightarrow> own | Some tenant \<Rightarrow> (tenant, Asc) # own)"
    let ?tenant = "case td_tenant_column t of None \<Rightarrow> [] | Some c \<Rightarrow> [(c, Asc)]"
    note keyed = match_columns [OF assms(1,2,5,6,7) own]
    have "key_values ix row \<in> set (key_sets (env_unicode env) ix row)" using False by (simp add: key_sets_def)
    from entry_key_bytes [OF assms(1,2) admits this] obtain e rest where
      e: "e \<in> set (held_entries (env_unicode env) t ix row)"
        "en_key e = index_prefix t ix None @ key_bytes (value_or_null ext) ?tenant @ key_bytes (value_or_null ext) own @ rest"
      using keyed by auto
    have "cols = ?tenant @ own" by (simp add: cols_def split: option.split)
    then have key: "en_key e = index_prefix t ix None @ key_bytes (value_or_null ext) cols @ rest"
      using e(2) by (simp add: bracket_append)
    note wf = seen_wf [OF assms(2)]
    have scan: "range_contains (match_key (index_prefix t ix None) cols cs) (en_key e)"
      unfolding key by (rule match_key_contains [OF assms(3) wf])
    show ?thesis
    proof (cases "in_ranges (index_prefix t ix None) cols cs")
      case None
      then have "ca_access c = IndexScan (ix_id ix) (match_key (index_prefix t ix None) cols cs) (covers pn cx ix)"
        using assms(14) False unfolding match_index_def Let_def assms(10-13) own
        by (auto simp: cols_def [symmetric] split: if_splits)
      then show ?thesis using scan e(1) assms(6) by (auto simp: reaches_def)
    next
      case (Some ranges)
      then have "\<exists>r\<in>set ranges. range_contains r (en_key e)"
        unfolding key by (rule in_ranges_contains [OF assms(3) wf])
      moreover have "ca_access c = IndexScans (ix_id ix) ranges (covers pn cx ix) \<or>
          (\<exists>r. ranges = [r] \<and> ca_access c = IndexScan (ix_id ix) r (covers pn cx ix))"
        using assms(14) False Some unfolding match_index_def Let_def assms(10-13) own
        by (auto simp: cols_def [symmetric] split: if_splits list.splits)
      ultimately show ?thesis using e(1) assms(6) by (elim disjE exE conjE) (simp_all add: reaches_def, blast+)
    qed
  qed
qed

section \<open>The plan reaches every admitted row\<close>

lemma fold_consider:
  "fold (consider_candidate pn sort_keys ord pinned) cs best = Some (c, m) \<Longrightarrow>
     c \<in> set cs \<or> (\<exists>m'. best = Some (c, m'))"
proof (induction cs arbitrary: best)
  case (Cons x cs)
  have "c \<in> set cs \<or> (\<exists>m'. consider_candidate pn sort_keys ord pinned x best = Some (c, m'))"
    by (rule Cons.IH) (use Cons.prems in simp)
  moreover have "c = x \<or> (\<exists>m''. best = Some (c, m''))"
    if "consider_candidate pn sort_keys ord pinned x best = Some (c, m')" for m'
    using that by (auto simp: consider_candidate_def Let_def split: option.splits if_splits)
  ultimately show ?case by auto
qed simp

lemma fold_consider_Some: "cs \<noteq> [] \<Longrightarrow> fold (consider_candidate pn sort_keys ord pinned) cs None \<noteq> None"
proof -
  have "fold (consider_candidate pn sort_keys ord pinned) cs best \<noteq> None" if "best \<noteq> None" for cs best
    using that
  proof (induction cs arbitrary: best)
    case (Cons c cs)
    have "consider_candidate pn sort_keys ord pinned c best \<noteq> None"
      by (simp add: consider_candidate_def Let_def split: option.splits)
    from Cons.IH [OF this] show ?case by simp
  qed simp
  moreover have "consider_candidate pn sort_keys ord pinned c None \<noteq> None" for c
    by (simp add: consider_candidate_def Let_def)
  ultimately show "cs \<noteq> [] \<Longrightarrow> ?thesis" by (metis fold_simps(2) neq_Nil_conv)
qed

lemma candidates_nonempty: "candidates pn cx hint \<noteq> []"
  by (simp add: candidates_def Let_def)

lemma candidates_reach:
  assumes "table_ok t" and "seen_as t row ext" and "constraints_met (value_or_null ext) cs"
    and "text_ascending t" and "planner_ok pn env eval t"
    and "ext = extend_row eval row compute [] None" and "expr_wf (mc_predicate cx)"
    and "expr_admits env (mc_predicate cx) ext" and "mc_table cx = t" and "mc_constraints cx = cs"
    and "mc_compute cx = compute" and "mc_width cx = length (td_columns t)"
    and "c \<in> set (candidates pn cx hint)"
  shows "reaches (env_unicode env) t row (ca_access c)"
proof -
  consider "c = match_primary_key t cs (mc_ordered cx)" | "match_point_gets t cs = Some c"
    | ix where "ix \<in> set (td_indexes t)" "match_index pn cx ix = Some c"
    using assms(9,10,13)
    by (auto simp: candidates_def Let_def map_filter_def split: if_splits option.splits AccessHint.splits)
  then show ?thesis
  proof cases
    case 3
    show ?thesis by (rule match_index_reaches [OF assms(1-5) 3(1) assms(6-12) 3(2)])
  qed (use match_primary_key_reaches match_point_gets_reaches assms(1-3) in blast)+
qed

lemma drop_empty_reaches: "reaches u t row access \<Longrightarrow> reaches u t row (drop_empty access)"
  by (auto simp: reaches_def drop_empty_def list_all_iff split: Access.splits dest: not_empty)

lemma satisfiable:
  assumes "expr_admits env predicate ext"
  shows "\<not> unsatisfiable (conjuncts predicate)"
proof
  assume "unsatisfiable (conjuncts predicate)"
  then obtain q where q: "q \<in> set (conjuncts predicate)"
    "case q of Expr_Compare _ _ v \<Rightarrow> is_null v | Expr_False \<Rightarrow> True | _ \<Rightarrow> False"
    unfolding unsatisfiable_def list_ex_iff by blast
  have "evaluate_over env (get ext) q = Truth_True"
    using conjunct_true [OF q(1)] assms by (simp add: expr_admits_def evaluate_def truth_admits_iff)
  then show False using q(2) by (cases q) (auto split: option.splits)
qed

lemma plan_access_reaches:
  assumes "table_ok t" and "row_ok t row" and "text_ascending t" and "planner_ok pn env eval t"
    and "expr_wf predicate" and "list_all wf_value (extend_row eval row compute [] None)"
    and "expr_admits env predicate (extend_row eval row compute [] None)"
  shows "reaches (env_unicode env) t row
    (pl_access (plan_hinted pn t predicate ord projection sort_keys hint compute))"
proof -
  let ?ext = "extend_row eval row compute [] None" and ?cs = "collect_constraints (conjuncts predicate)"
  obtain extra where "?ext = row @ extra" using extend_append [of eval row compute] by metis
  then have seen: "seen_as t row ?ext" using assms(2,6) by (auto simp: seen_as_def)
  have met: "constraints_met (value_or_null ?ext) ?cs" by (rule collect_met [OF assms(6,5,7)])
  obtain cx pinned c m where
    cx: "mc_table cx = t" "mc_predicate cx = predicate" "mc_constraints cx = ?cs" "mc_compute cx = compute"
      "mc_width cx = length (td_columns t)"
    and best: "fold (consider_candidate pn sort_keys ord pinned) (candidates pn cx hint) None = Some (c, m)"
    and plan: "pl_access (plan_hinted pn t predicate ord projection sort_keys hint compute) = drop_empty (ca_access c)"
  proof -
    let ?width = "length (td_columns t)"
    let ?needed = "case projection_columns projection of
        None \<Rightarrow> Needed_All
      | Some columns \<Rightarrow> Needed_Some (expr_columns predicate \<union> set columns \<union> sk_column ` set sort_keys \<union>
                            {?width..<?width + length compute})"
    let ?cx = "\<lparr>mc_table = t, mc_predicate = predicate, mc_constraints = ?cs, mc_needed = ?needed,
                  mc_ordered = (sort_keys \<noteq> []), mc_compute = compute, mc_width = ?width\<rparr>"
    let ?pinned = "set (map fst (filter (\<lambda>(_, c). cc_equals c \<noteq> None) ?cs))"
    obtain c m where cm: "fold (consider_candidate pn sort_keys ord ?pinned) (candidates pn ?cx hint) None = Some (c, m)"
      using fold_consider_Some [OF candidates_nonempty [of pn ?cx hint]] by fastforce
    have "pl_access (plan_hinted pn t predicate ord projection sort_keys hint compute) = drop_empty (ca_access c)"
      using cm satisfiable [OF assms(7)] unfolding plan_hinted_def Let_def by simp
    then show thesis using that [of ?cx ?pinned c m] cm by simp
  qed
  have "c \<in> set (candidates pn cx hint)" using fold_consider [OF best] by simp
  then have "reaches (env_unicode env) t row (ca_access c)"
    using candidates_reach [OF assms(1) seen met assms(3,4) refl _ _ cx(1,3,4,5)] cx(2) assms(5,7) by simp
  then show ?thesis using plan drop_empty_reaches by simp
qed


section \<open>Properties\<close>

text \<open>C11. A plan loses no row. Whatever the statistics say of the cost of the candidates, and whatever
  the caller hints, a row the predicate admits lies in what the chosen access path reads: under the key
  of a point read, in the range of a table scan, or with one of its index entries in a range of the
  index scan, a partial index included. What the path reads beyond that is filtered by the plan's
  residual, which admits exactly the rows the predicate admits.\<close>

theorem plan_reaches:
  assumes "table_ok t" and "row_ok t row" and "text_ascending t" and "planner_ok pn env eval t"
    and "expr_wf predicate" and "list_all wf_value (extend_row eval row compute [] None)"
  shows "(expr_admits env predicate (extend_row eval row compute [] None) \<longrightarrow>
      reaches (env_unicode env) t row
        (pl_access (plan_hinted pn t predicate ord projection sort_keys hint compute))) \<and>
    expr_admits env (pl_residual (plan_hinted pn t predicate ord projection sort_keys hint compute))
      (extend_row eval row compute [] None) =
    expr_admits env predicate (extend_row eval row compute [] None)"
proof -
  let ?plan = "plan_hinted pn t predicate ord projection sort_keys hint compute"
  have "pl_residual ?plan = prepared predicate" by (simp add: plan_hinted_def Let_def split: prod.split)
  moreover have "evaluate_over env (get ext) (prepared predicate) = evaluate_over env (get ext) predicate"
    if "list_all wf_value ext" for ext
    using that assms(5) by (intro evaluate_prepared) (auto simp: list_all_length)
  ultimately show ?thesis
    using plan_access_reaches [OF assms] assms(6) by (simp add: expr_admits_def evaluate_def)
qed

text \<open>A table of notes with an index in descending order, a partial index and a search index, whose
  direction is a parameter.\<close>

definition notes_builder :: "Direction \<Rightarrow> TableBuilder" where
  "notes_builder d =
     (tb_index (text_index (ib_column_with ''title'' d (IndexDef_builder ''words'' 3)))
      \<circ> tb_index (only_where (expr_truth no_tables (Expr_IsNull 1 True)) (ib_column ''title'' (IndexDef_builder ''kinds'' 2)))
      \<circ> tb_index (ib_column_with ''kind'' Desc (IndexDef_builder ''by_kind'' 1))
      \<circ> tb_set_primary_key [''id''] \<circ> tb_column ''title'' TStr \<circ> nullable_column ''kind'' TStr \<circ> tb_column ''id'' TU64)
     (TableDef_builder ''notes'' 1)"

definition note_table :: "Direction \<Rightarrow> TableDef" where
  "note_table d = built (notes_builder d)"

lemma note_table_build: "build (notes_builder d) = Inr (note_table d)"
  by (simp add: note_table_def notes_builder_def built_def build_eval cong: build_congs)

lemma note_table_explicit:
  "note_table d =
     \<lparr>td_id = 1, td_name = ''notes'',
      td_columns =
        [\<lparr>col_name = ''id'', col_ty = TU64, col_nullable = False, col_added_in = 0, col_dropped_in = None,
          col_default = None, col_previous_names = [], col_scale = 0, col_element = None, col_managed = None\<rparr>,
         \<lparr>col_name = ''kind'', col_ty = TStr, col_nullable = True, col_added_in = 0, col_dropped_in = None,
          col_default = None, col_previous_names = [], col_scale = 0, col_element = None, col_managed = None\<rparr>,
         \<lparr>col_name = ''title'', col_ty = TStr, col_nullable = False, col_added_in = 0, col_dropped_in = None,
          col_default = None, col_previous_names = [], col_scale = 0, col_element = None, col_managed = None\<rparr>],
      td_primary_key = [0], td_body_columns = [1, 2], td_stored_columns = [1, 2],
      td_indexes =
        [\<lparr>ix_id = 1, ix_name = ''by_kind'', ix_columns = [\<lparr>ic_ordinal = 1, ic_direction = Desc\<rparr>],
          ix_unique = False, ix_predicate = None, ix_expression = None, ix_text = False\<rparr>,
         \<lparr>ix_id = 2, ix_name = ''kinds'', ix_columns = [\<lparr>ic_ordinal = 2, ic_direction = Asc\<rparr>],
          ix_unique = False, ix_predicate = Some (expr_truth no_tables (Expr_IsNull 1 True)), ix_expression = None,
          ix_text = False\<rparr>,
         \<lparr>ix_id = 3, ix_name = ''words'', ix_columns = [\<lparr>ic_ordinal = 2, ic_direction = d\<rparr>],
          ix_unique = False, ix_predicate = None, ix_expression = None, ix_text = True\<rparr>],
      td_checks = [], td_foreign_keys = [], td_tenant_column = None, td_soft_delete = None,
      td_schema_version = 0\<rparr>"
  by (simp add: note_table_def notes_builder_def built_def build_eval cong: build_congs)

lemma note_table_ok: "table_ok (note_table d)"
proof -
  have "constructed (notes_builder d)" by (simp add: notes_builder_def constructed.intros)
  then show ?thesis using note_table_build constructed_inv built_table_ok by blast
qed

text \<open>A planner that takes the last candidate it is offered.\<close>

definition last_planner :: "unit Planner" where
  "last_planner =
     \<lparr>pn_columns = (\<lambda>_. {}), pn_predicate = (\<lambda>ix. if ix_id ix = 2 then Some (Expr_IsNull 1 True) else None),
      pn_expression = (\<lambda>_. None), pn_term_rank = (\<lambda>_ _. 0), pn_cheaper = (\<lambda>_ _. True),
      pn_filter_first = (\<lambda>_. False)\<rparr>"

lemma last_planner_ok: "planner_ok last_planner no_tables eval (note_table d)"
  by (auto simp: planner_ok_def last_planner_def note_table_explicit expr_columns_def)

abbreviation note_row :: Row where
  "note_row \<equiv> [U64 1, Str [0x61], Str [0x67, 0x6F, 0x20, 0x75, 0x70]]"

lemma note_row_ok: "row_ok (note_table d) note_row"
  by (simp add: row_ok_def row_valid_def note_table_explicit column_accepts_def is_dropped_def less_Suc_eq nth_Cons'
      computed_wf_def from_utf8_def utf8_decode.simps)

lemma extend_nothing [simp]: "extend_row eval row [] transient from_entry = row"
  by (simp add: extend_row_def)

theorem plan_reaches_witness:
  "reaches (env_unicode no_tables) (note_table Asc) note_row
     (pl_access (plan_hinted last_planner (note_table Asc)
        (Expr_And [Expr_In 1 [Str [0x61], Null, Str [0x62]], Expr_Contains 2 [[0x67, 0x6F], [0x75, 0x70]]])
        Ascending Projection_All [] None []))"
proof -
  let ?p = "Expr_And [Expr_In 1 [Str [0x61], Null, Str [0x62]], Expr_Contains 2 [[0x67, 0x6F], [0x75, 0x70]]]"
  have "text_ascending (note_table Asc)" by (simp add: text_ascending_def note_table_explicit)
  moreover have "list_all wf_value note_row" by (simp add: from_utf8_def utf8_decode.simps)
  moreover have "expr_wf ?p" by (simp add: from_utf8_def utf8_decode.simps)
  moreover have "expr_admits no_tables ?p note_row" by code_simp
  ultimately show ?thesis
    using plan_reaches [OF note_table_ok note_row_ok _ last_planner_ok, of Asc ?p "\<lambda>_ _. Null" "[]"] by simp
qed

text \<open>Why the search indexes above are asked to be ascending: an index declared in descending order. The
  builder accepts the direction and the writer encodes every term in it, but the planner ranges over the
  ascending encoding of the term. Here a row that contains the word, and that the predicate admits, has
  its entry outside the range the planner chose.\<close>

lemma descending_search_misses:
  "build (notes_builder Desc) = Inr (note_table Desc) \<and>
   expr_admits no_tables (Expr_Contains 2 [[0x67, 0x6F]]) note_row \<and>
   held_entries (env_unicode no_tables) (note_table Desc) (td_indexes (note_table Desc) ! 2) note_row \<noteq> [] \<and>
   (\<exists>r. pl_access (plan_hinted last_planner (note_table Desc) (Expr_Contains 2 [[0x67, 0x6F]]) Ascending Projection_All
         [] (Some (Hint_Index 3)) []) = IndexScan 3 r False) \<and>
   \<not> reaches (env_unicode no_tables) (note_table Desc) note_row
      (pl_access (plan_hinted last_planner (note_table Desc) (Expr_Contains 2 [[0x67, 0x6F]]) Ascending Projection_All
         [] (Some (Hint_Index 3)) []))"
proof (intro conjI)
  show "build (notes_builder Desc) = Inr (note_table Desc)" by (rule note_table_build)
  show "expr_admits no_tables (Expr_Contains 2 [[0x67, 0x6F]]) note_row" by code_simp
  show "held_entries (env_unicode no_tables) (note_table Desc) (td_indexes (note_table Desc) ! 2) note_row \<noteq> []"
    unfolding note_table_explicit by code_simp
  have access: "pl_access (plan_hinted last_planner (note_table Desc) (Expr_Contains 2 [[0x67, 0x6F]]) Ascending Projection_All
         [] (Some (Hint_Index 3)) []) =
      IndexScan 3 (KeyRange_prefix [0x02, 0, 0, 0, 3, c_STR, 0x67, 0x6F, 0, 0]) False"
    unfolding note_table_explicit by code_simp
  then show "\<exists>r. pl_access (plan_hinted last_planner (note_table Desc) (Expr_Contains 2 [[0x67, 0x6F]]) Ascending Projection_All
         [] (Some (Hint_Index 3)) []) = IndexScan 3 r False" by blast
  show "\<not> reaches (env_unicode no_tables) (note_table Desc) note_row
      (pl_access (plan_hinted last_planner (note_table Desc) (Expr_Contains 2 [[0x67, 0x6F]]) Ascending Projection_All
         [] (Some (Hint_Index 3)) []))"
    unfolding access reaches_def note_table_explicit by code_simp
qed

lemma resume_reaches:
  assumes "resume_after p t key = Inr p'"
  shows "length key = length (td_primary_key t)"
    and "reaches u t row (pl_access p') =
      (reaches u t row (pl_access p) \<and>
       (case pl_order p of Ascending \<Rightarrow> row_key t key < key_of t row | Descending \<Rightarrow> key_of t row < row_key t key))"
proof -
  show key: "length key = length (td_primary_key t)" using assms by (auto simp: resume_after_def split: if_splits)
  have narrowed: "range_contains (KeyRange_new (Excluded b) Unbounded) k = (b < k)"
    "range_contains (KeyRange_new Unbounded (Excluded b)) k = (k < b)" for b k
    by (simp_all add: range_contains_def KeyRange_new_def)
  have scan: "reaches u t row (TableScan r) = range_contains r (key_of t row)" for r by (simp add: reaches_def)
  have empty: "\<not> reaches u t row Access_Nothing" by (simp add: reaches_def)
  show "reaches u t row (pl_access p') =
      (reaches u t row (pl_access p) \<and>
       (case pl_order p of Ascending \<Rightarrow> row_key t key < key_of t row | Descending \<Rightarrow> key_of t row < row_key t key))"
  proof (cases "pl_access p")
    case (TableScan r)
    then show ?thesis
      using assms key not_empty [of _ "key_of t row"]
      by (cases "pl_order p") (auto simp: resume_after_def Let_def scan empty narrowed split: if_splits)
  next
    case (PointGet one)
    then show ?thesis
      using assms key by (cases "pl_order p") (auto simp: resume_after_def Let_def reaches_def split: if_splits)
  qed (use assms key empty in \<open>auto simp: resume_after_def Let_def\<close>)
qed

text \<open>C29. Resuming a plan after a key is exact: the resumed plan reads the rows of the original that lie
  strictly past the key in the direction of the walk, and no others; a plan that cannot be resumed is
  refused, and so is a key of the wrong width.\<close>

theorem resume_exact:
  "case resume_after p t key of
     Inr p' \<Rightarrow>
       length key = length (td_primary_key t) \<and>
       reaches u t row (pl_access p') =
         (reaches u t row (pl_access p) \<and>
          (case pl_order p of
             Ascending \<Rightarrow> row_key t key < key_of t row
           | Descending \<Rightarrow> key_of t row < row_key t key))
   | Inl fault \<Rightarrow>
       (case fault of
          WrongKeyWidth \<Rightarrow> length key \<noteq> length (td_primary_key t)
        | WalksIndex i \<Rightarrow> \<exists>r rs c. pl_access p = IndexScan i r c \<or> pl_access p = IndexScans i rs c
        | ReadsKeySet \<Rightarrow> \<exists>keys. pl_access p = PointGets keys)"
proof (cases "resume_after p t key")
  case (Inl fault)
  then show ?thesis by (auto simp: resume_after_def Let_def split: if_splits Access.splits)
next
  case (Inr p')
  then show ?thesis using resume_reaches(1) [OF Inr] resume_reaches(2) [OF Inr, of u row] by simp
qed

end
