(* ===== verification/Record_Ops.thy ===== *)
theory Record_Ops
  imports Record_Index Decimal
begin

text \<open>
  The single-row operations of \<open>crates/slate-kernel/src/record.rs\<close> and the secured read of
  \<open>crates/slate-kernel/src/read.rs\<close>: grants, validation, row policy, checks, foreign keys, and the
  write. The specification is an operation on a database, which gives each table a set of rows; every
  operation is shown to refine it, errors included.
\<close>

section \<open>Reading one row\<close>

definition read_row_unchecked ::
  "'x RecordStore \<Rightarrow> TableDef \<Rightarrow> Value list \<Rightarrow> ('x RecordTransaction, Row option) comp" where
  "read_row_unchecked rs t primary_key =
     sbind (txn_lookup rs (row_key t primary_key)) (\<lambda>found.
       case found of
         None \<Rightarrow> sreturn None
       | Some body \<Rightarrow>
           sbind (sresult (map_err KernelSchema (decode_row t primary_key body))) (\<lambda>row. sreturn (Some row)))"

definition conceal :: "Row \<Rightarrow> Ordinal list \<Rightarrow> Row" where
  "conceal row hidden =
     (if hidden = [] then row else fold (\<lambda>i values. values[i := Null]) hidden row)"

definition reads_get ::
  "'x RecordStore \<Rightarrow> SecurityContext \<Rightarrow> TableDef \<Rightarrow> Value list \<Rightarrow> ('x RecordTransaction, Row option) comp" where
  "reads_get rs ctx t primary_key =
     sbind (sresult (authorize (rs_security rs) ctx t Read)) (\<lambda>_.
     sbind (sresult (row_filter (rs_security rs) ctx t Read)) (\<lambda>filt.
     let hidden = concealed (rs_security rs) ctx t in
     sbind (read_row_unchecked rs t primary_key) (\<lambda>found.
     sreturn (map_option (\<lambda>row. conceal row hidden)
       (case found of
          None \<Rightarrow> None
        | Some row \<Rightarrow> if expr_admits (rs_env rs) filt row then Some row else None)))))"

definition visible_row_with ::
  "'x RecordStore \<Rightarrow> SecurityContext \<Rightarrow> TableDef \<Rightarrow> Action \<Rightarrow> Value list \<Rightarrow> Deleted \<Rightarrow> ('x RecordTransaction, Row option) comp" where
  "visible_row_with rs ctx t action primary_key deleted =
     sbind (read_row_unchecked rs t primary_key) (\<lambda>found.
       case found of
         None \<Rightarrow> sreturn None
       | Some row \<Rightarrow>
           sbind (sresult (permits_row_with (rs_env rs) (rs_security rs) ctx t action row deleted)) (\<lambda>permitted.
           sreturn (if permitted then Some row else None)))"

definition visible_row ::
  "'x RecordStore \<Rightarrow> SecurityContext \<Rightarrow> TableDef \<Rightarrow> Action \<Rightarrow> Value list \<Rightarrow> ('x RecordTransaction, Row option) comp" where
  "visible_row rs ctx t action primary_key = visible_row_with rs ctx t action primary_key Hidden"

definition retired_rows_reachable :: "SecurityCatalog \<Rightarrow> SecurityContext \<Rightarrow> TableDef \<Rightarrow> Deleted" where
  "retired_rows_reachable s ctx t =
     (if td_soft_delete t = None then Visible
      else if grants s ctx t ReadDeleted then Visible
      else Hidden)"

section \<open>The checks of a write\<close>

definition check_row_against :: "Env \<Rightarrow> TableDef \<Rightarrow> Row \<Rightarrow> Expr \<Rightarrow> KernelError + unit" where
  "check_row_against env t row filt =
     (case td_soft_delete t of
        Some column \<Rightarrow>
          (case get row column of
             Some v \<Rightarrow>
               if v \<noteq> Null
               then Inl (SoftDeleteColumnSupplied (td_name t)
                           (case td_column t column of None \<Rightarrow> digits column | Some c \<Rightarrow> col_name c))
               else if expr_admits env filt row then Inr () else Inl (RowCheckFailed (td_name t))
           | None \<Rightarrow> if expr_admits env filt row then Inr () else Inl (RowCheckFailed (td_name t)))
      | None \<Rightarrow> if expr_admits env filt row then Inr () else Inl (RowCheckFailed (td_name t)))"

definition check_row ::
  "Env \<Rightarrow> SecurityCatalog \<Rightarrow> SecurityContext \<Rightarrow> TableDef \<Rightarrow> Action \<Rightarrow> Row \<Rightarrow> KernelError + unit" where
  "check_row env s ctx t action row =
     rbind (row_filter_with s ctx t action Visible) (check_row_against env t row)"

definition check_constraints :: "TableDef \<Rightarrow> Row \<Rightarrow> KernelError + unit" where
  "check_constraints t row =
     (let violations = map (\<lambda>k. \<lparr>cf_check = ck_name k, cf_column = ck_column k, cf_message = ck_message k\<rparr>)
                         (filter (\<lambda>k. \<not> satisfied_by k row) (td_checks t))
      in if violations = [] then Inr () else Inl (KernelSchema (CheckViolation (td_name t) violations)))"

definition parent_of :: "Catalog \<Rightarrow> ForeignKeyDef \<Rightarrow> KernelError + TableDef" where
  "parent_of c f = ok_or (UnknownTable (fk_parent f)) (cat_table c (fk_parent f))"

text \<open>The reference the replaced row already held.\<close>

definition same_reference :: "ForeignKeyDef \<Rightarrow> Row option \<Rightarrow> Value list \<Rightarrow> bool" where
  "same_reference f previous key =
     (case Option.bind previous (parent_key f) of
        None \<Rightarrow> False
      | Some held \<Rightarrow> list_all2 value_eq held key)"

definition check_foreign_key ::
  "'x RecordStore \<Rightarrow> SecurityContext \<Rightarrow> TableDef \<Rightarrow> Row \<Rightarrow> Row option \<Rightarrow> bytes set \<Rightarrow> ForeignKeyDef \<Rightarrow> ('x RecordTransaction, unit) comp" where
  "check_foreign_key rs ctx t row previous known f =
     (case parent_key f row of
        None \<Rightarrow> sreturn ()
      | Some key \<Rightarrow>
          if same_reference f previous key then sreturn ()
          else
            sbind (sresult (parent_of (rs_catalog rs) f)) (\<lambda>parent.
            if row_key parent key \<in> known then sreturn ()
            else
              sbind (reads_get rs ctx parent key) (\<lambda>found.
              if found = None
              then sresult (Inl (KernelSchema (ForeignKeyViolation (td_name t) (fk_name f) (td_name parent))))
              else sreturn ())))"

definition check_foreign_keys ::
  "'x RecordStore \<Rightarrow> SecurityContext \<Rightarrow> TableDef \<Rightarrow> Row \<Rightarrow> Row option \<Rightarrow> bytes set \<Rightarrow> ('x RecordTransaction, unit) comp" where
  "check_foreign_keys rs ctx t row previous known =
     seach (check_foreign_key rs ctx t row previous known) (td_foreign_keys t)"

section \<open>The operations\<close>

definition insert_row ::
  "'x RecordStore \<Rightarrow> SecurityContext \<Rightarrow> TableDef \<Rightarrow> Row \<Rightarrow> ('x RecordTransaction, unit) comp" where
  "insert_row rs ctx t row =
     sbind (sresult (authorize (rs_security rs) ctx t Insert)) (\<lambda>_.
     sbind (sresult (map_err KernelSchema (validate row t))) (\<lambda>_.
     sbind (sresult (check_row (rs_env rs) (rs_security rs) ctx t Insert row)) (\<lambda>_.
     sbind (sresult (check_constraints t row)) (\<lambda>_.
     sbind (read_row_unchecked rs t (primary_key_values row t)) (\<lambda>found.
     if found \<noteq> None then sresult (Inl (DuplicatePrimaryKey (td_name t)))
     else
       sbind (check_foreign_keys rs ctx t row None {}) (\<lambda>_.
       write_row rs t row None))))))"

definition insert_partial ::
  "'x RecordStore \<Rightarrow> SecurityContext \<Rightarrow> TableDef \<Rightarrow> PartialRow \<Rightarrow> ('x RecordTransaction, unit) comp" where
  "insert_partial rs ctx t p =
     sbind (sresult (map_err KernelSchema (PartialRow_into_row p t))) (\<lambda>row. insert_row rs ctx t row)"

definition update_row ::
  "'x RecordStore \<Rightarrow> SecurityContext \<Rightarrow> TableDef \<Rightarrow> Row \<Rightarrow> ('x RecordTransaction, unit) comp" where
  "update_row rs ctx t row =
     sbind (sresult (authorize (rs_security rs) ctx t Update)) (\<lambda>_.
     sbind (sresult (require_every_column (rs_security rs) ctx t ''a whole-row update'')) (\<lambda>_.
     sbind (sresult (map_err KernelSchema (validate row t))) (\<lambda>_.
     sbind (visible_row_with rs ctx t Update (primary_key_values row t)
              (retired_rows_reachable (rs_security rs) ctx t)) (\<lambda>found.
     case found of
       None \<Rightarrow> sresult (Inl (RowNotFound (td_name t)))
     | Some existing \<Rightarrow>
         sbind (sresult (check_row (rs_env rs) (rs_security rs) ctx t Update row)) (\<lambda>_.
         sbind (sresult (check_constraints t row)) (\<lambda>_.
         sbind (check_foreign_keys rs ctx t row (Some existing) {}) (\<lambda>_.
         write_row rs t row (Some existing))))))))"

definition update_if_unchanged ::
  "'x RecordStore \<Rightarrow> SecurityContext \<Rightarrow> TableDef \<Rightarrow> Row \<Rightarrow> Row \<Rightarrow> ('x RecordTransaction, unit) comp" where
  "update_if_unchanged rs ctx t row expected =
     sbind (sresult (authorize (rs_security rs) ctx t Update)) (\<lambda>_.
     sbind (sresult (require_every_column (rs_security rs) ctx t ''a compare-and-swap update'')) (\<lambda>_.
     sbind (sresult (map_err KernelSchema (validate row t))) (\<lambda>_.
     sbind (sresult (map_err KernelSchema (validate expected t))) (\<lambda>_.
     if \<not> list_all2 value_eq (primary_key_values expected t) (primary_key_values row t)
     then sresult (Inl (RowChanged (td_name t)))
     else
       sbind (visible_row rs ctx t Update (primary_key_values row t)) (\<lambda>found.
       case found of
         None \<Rightarrow> sresult (Inl (RowNotFound (td_name t)))
       | Some existing \<Rightarrow>
           if \<not> list_all2 value_eq existing expected then sresult (Inl (RowChanged (td_name t)))
           else
             sbind (sresult (check_row (rs_env rs) (rs_security rs) ctx t Update row)) (\<lambda>_.
             sbind (sresult (check_constraints t row)) (\<lambda>_.
             sbind (check_foreign_keys rs ctx t row (Some existing) {}) (\<lambda>_.
             write_row rs t row (Some existing)))))))))"

definition upsert ::
  "'x RecordStore \<Rightarrow> SecurityContext \<Rightarrow> TableDef \<Rightarrow> Row \<Rightarrow> ('x RecordTransaction, unit) comp" where
  "upsert rs ctx t row =
     sbind (sresult (authorize (rs_security rs) ctx t Insert)) (\<lambda>_.
     sbind (sresult (authorize (rs_security rs) ctx t Update)) (\<lambda>_.
     sbind (sresult (require_every_column (rs_security rs) ctx t ''an upsert'')) (\<lambda>_.
     sbind (sresult (map_err KernelSchema (validate row t))) (\<lambda>_.
     sbind (sresult (check_row (rs_env rs) (rs_security rs) ctx t Insert row)) (\<lambda>_.
     sbind (read_row_unchecked rs t (primary_key_values row t)) (\<lambda>existing.
     let action = (if existing \<noteq> None then Update else Insert) in
     sbind (case existing of
              None \<Rightarrow> sreturn ()
            | Some current \<Rightarrow>
                sbind (sresult (permits_row_with (rs_env rs) (rs_security rs) ctx t Update current
                         (retired_rows_reachable (rs_security rs) ctx t))) (\<lambda>permitted.
                if \<not> permitted then sresult (Inl (RowNotFound (td_name t))) else sreturn ())) (\<lambda>_.
     sbind (sresult (check_row (rs_env rs) (rs_security rs) ctx t action row)) (\<lambda>_.
     sbind (sresult (check_constraints t row)) (\<lambda>_.
     sbind (check_foreign_keys rs ctx t row existing {}) (\<lambda>_.
     write_row rs t row existing))))))))))"

section \<open>The database\<close>

type_synonym database = "TableId \<Rightarrow> Row set"

definition database_of :: "'x RecordStore \<Rightarrow> database \<Rightarrow> contents \<Rightarrow> bool" where
  "database_of rs D m \<longleftrightarrow>
     (\<forall>t\<in>set (cat_tables (rs_catalog rs)). represents (env_unicode (rs_env rs)) t (D (td_id t)) m)"

text \<open>What index expressions, which are user code, must compute: a value of the declared type.\<close>

definition computes_ok :: "TableDef \<Rightarrow> bool" where
  "computes_ok t \<longleftrightarrow>
     (\<forall>ix\<in>set (td_indexes t). \<forall>e row. ix_expression ix = Some e \<longrightarrow> length row = length (td_columns t) \<longrightarrow>
        list_all wf_value row \<longrightarrow> has_type (ie_produces e) (ie_compute e row) \<and> wf_value (ie_compute e row))"

text \<open>The builder lets a column be both managed and dropped; the write path would then stamp a column
  the body does not store.\<close>

definition managed_live :: "TableDef \<Rightarrow> bool" where
  "managed_live t \<longleftrightarrow> (\<forall>c\<in>set (td_columns t). col_managed c \<noteq> None \<longrightarrow> \<not> is_dropped c)"

definition schema_ok :: "Catalog \<Rightarrow> bool" where
  "schema_ok c \<longleftrightarrow>
     catalog_ok c \<and> foreign_keys_valid c \<and>
     (\<forall>t\<in>set (cat_tables c). table_ok t \<and> versions_ok t \<and> evolvable t \<and> computes_ok t \<and> managed_live t)"

definition serves ::
  "('x \<Rightarrow> bool) \<Rightarrow> ('x \<Rightarrow> contents) \<Rightarrow> 'x RecordStore \<Rightarrow> database \<Rightarrow> 'x RecordTransaction \<Rightarrow> bool" where
  "serves ok view rs D st \<longleftrightarrow>
     healthy ok st \<and> schema_ok (rs_catalog rs) \<and> unicode_ok (env_unicode (rs_env rs)) \<and>
     database_of rs D (view (rt_txn st))"

text \<open>What validation does not check of a row: strings are UTF-8, not-a-number is the canonical one,
  and the keys made of it fit the address space.\<close>

definition row_sound :: "TableDef \<Rightarrow> Row \<Rightarrow> bool" where
  "row_sound t row \<longleftrightarrow>
     list_all wf_value row \<and> canonical row \<and>
     (\<forall>os\<in>set (td_primary_key t # map fk_columns (td_foreign_keys t)).
        length (tuple_bytes [] (map (value_or_null row) os)) + 5 < 2 ^ 64)"

text \<open>The row a table holds under a primary key.\<close>

definition row_under :: "TableDef \<Rightarrow> Row set \<Rightarrow> Value list \<Rightarrow> Row option \<Rightarrow> bool" where
  "row_under t R key found \<longleftrightarrow>
     (case found of
        Some r \<Rightarrow> r \<in> R \<and> primary_key_values r t = key
      | None \<Rightarrow> \<forall>r\<in>R. primary_key_values r t \<noteq> key)"

section \<open>The specification\<close>

definition fk_spec ::
  "'x RecordStore \<Rightarrow> SecurityContext \<Rightarrow> database \<Rightarrow> TableDef \<Rightarrow> Row \<Rightarrow> Row option \<Rightarrow> ForeignKeyDef \<Rightarrow> KernelError + unit" where
  "fk_spec rs ctx D t row previous f =
     (case parent_key f row of
        None \<Rightarrow> Inr ()
      | Some key \<Rightarrow>
          if same_reference f previous key then Inr ()
          else
            rbind (parent_of (rs_catalog rs) f) (\<lambda>parent.
            rbind (authorize (rs_security rs) ctx parent Read) (\<lambda>_.
            rbind (row_filter (rs_security rs) ctx parent Read) (\<lambda>filt.
            if \<exists>p\<in>D (td_id parent). primary_key_values p parent = key \<and> expr_admits (rs_env rs) filt p then Inr ()
            else Inl (KernelSchema (ForeignKeyViolation (td_name t) (fk_name f) (td_name parent)))))))"

definition store_spec :: "'x RecordStore \<Rightarrow> TableDef \<Rightarrow> Row \<Rightarrow> Row option \<Rightarrow> database \<Rightarrow> KernelError + database" where
  "store_spec rs t r previous D =
     (case find (collides (env_unicode (rs_env rs)) t (D (td_id t)) previous r) (td_indexes t) of
        Some ix \<Rightarrow> Inl (UniqueViolation (td_name t) (ix_name ix))
      | None \<Rightarrow> Inr (D(td_id t := insert r (others (D (td_id t)) previous))))"

text \<open>The checks every write ends with, and the write.\<close>

definition finish_spec ::
  "'x RecordStore \<Rightarrow> SecurityContext \<Rightarrow> TableDef \<Rightarrow> Row \<Rightarrow> Row \<Rightarrow> Row option \<Rightarrow> database \<Rightarrow> KernelError + database" where
  "finish_spec rs ctx t row r previous D =
     rbind (try_each (fk_spec rs ctx D t row previous) (td_foreign_keys t)) (\<lambda>_. store_spec rs t r previous D)"

definition insert_spec ::
  "'x RecordStore \<Rightarrow> SecurityContext \<Rightarrow> TableDef \<Rightarrow> Row \<Rightarrow> Row \<Rightarrow> Row option \<Rightarrow> database \<Rightarrow> KernelError + database" where
  "insert_spec rs ctx t row r previous D =
     rbind (authorize (rs_security rs) ctx t Insert) (\<lambda>_.
     rbind (map_err KernelSchema (validate row t)) (\<lambda>_.
     rbind (check_row (rs_env rs) (rs_security rs) ctx t Insert row) (\<lambda>_.
     rbind (check_constraints t row) (\<lambda>_.
     if previous \<noteq> None then Inl (DuplicatePrimaryKey (td_name t))
     else finish_spec rs ctx t row r None D))))"

text \<open>The row an update may replace, and the replacement.\<close>

definition replace_spec ::
  "'x RecordStore \<Rightarrow> SecurityContext \<Rightarrow> TableDef \<Rightarrow> Row \<Rightarrow> Row \<Rightarrow> Row \<Rightarrow> database \<Rightarrow> KernelError + database" where
  "replace_spec rs ctx t row r existing D =
     rbind (check_row (rs_env rs) (rs_security rs) ctx t Update row) (\<lambda>_.
     rbind (check_constraints t row) (\<lambda>_.
     finish_spec rs ctx t row r (Some existing) D))"

definition visible_spec ::
  "'x RecordStore \<Rightarrow> SecurityContext \<Rightarrow> TableDef \<Rightarrow> Row option \<Rightarrow> Deleted \<Rightarrow> KernelError + Row option" where
  "visible_spec rs ctx t previous deleted =
     (case previous of
        None \<Rightarrow> Inr None
      | Some row \<Rightarrow>
          rbind (permits_row_with (rs_env rs) (rs_security rs) ctx t Update row deleted) (\<lambda>permitted.
          Inr (if permitted then Some row else None)))"

definition update_spec ::
  "'x RecordStore \<Rightarrow> SecurityContext \<Rightarrow> TableDef \<Rightarrow> Row \<Rightarrow> Row \<Rightarrow> Row option \<Rightarrow> database \<Rightarrow> KernelError + database" where
  "update_spec rs ctx t row r previous D =
     rbind (authorize (rs_security rs) ctx t Update) (\<lambda>_.
     rbind (require_every_column (rs_security rs) ctx t ''a whole-row update'') (\<lambda>_.
     rbind (map_err KernelSchema (validate row t)) (\<lambda>_.
     rbind (visible_spec rs ctx t previous (retired_rows_reachable (rs_security rs) ctx t)) (\<lambda>found.
     case found of
       None \<Rightarrow> Inl (RowNotFound (td_name t))
     | Some existing \<Rightarrow> replace_spec rs ctx t row r existing D))))"

definition swap_spec ::
  "'x RecordStore \<Rightarrow> SecurityContext \<Rightarrow> TableDef \<Rightarrow> Row \<Rightarrow> Row \<Rightarrow> Row \<Rightarrow> Row option \<Rightarrow> database \<Rightarrow> KernelError + database" where
  "swap_spec rs ctx t row expected r previous D =
     rbind (authorize (rs_security rs) ctx t Update) (\<lambda>_.
     rbind (require_every_column (rs_security rs) ctx t ''a compare-and-swap update'') (\<lambda>_.
     rbind (map_err KernelSchema (validate row t)) (\<lambda>_.
     rbind (map_err KernelSchema (validate expected t)) (\<lambda>_.
     if \<not> list_all2 value_eq (primary_key_values expected t) (primary_key_values row t)
     then Inl (RowChanged (td_name t))
     else
       rbind (visible_spec rs ctx t previous Hidden) (\<lambda>found.
       case found of
         None \<Rightarrow> Inl (RowNotFound (td_name t))
       | Some existing \<Rightarrow>
           if \<not> list_all2 value_eq existing expected then Inl (RowChanged (td_name t))
           else replace_spec rs ctx t row r existing D)))))"

definition upsert_spec ::
  "'x RecordStore \<Rightarrow> SecurityContext \<Rightarrow> TableDef \<Rightarrow> Row \<Rightarrow> Row \<Rightarrow> Row option \<Rightarrow> database \<Rightarrow> KernelError + database" where
  "upsert_spec rs ctx t row r previous D =
     rbind (authorize (rs_security rs) ctx t Insert) (\<lambda>_.
     rbind (authorize (rs_security rs) ctx t Update) (\<lambda>_.
     rbind (require_every_column (rs_security rs) ctx t ''an upsert'') (\<lambda>_.
     rbind (map_err KernelSchema (validate row t)) (\<lambda>_.
     rbind (check_row (rs_env rs) (rs_security rs) ctx t Insert row) (\<lambda>_.
     case previous of
       None \<Rightarrow> rbind (check_constraints t row) (\<lambda>_. finish_spec rs ctx t row r None D)
     | Some existing \<Rightarrow>
         rbind (visible_spec rs ctx t previous (retired_rows_reachable (rs_security rs) ctx t)) (\<lambda>found.
         if found = None then Inl (RowNotFound (td_name t)) else replace_spec rs ctx t row r existing D))))))"

text \<open>An operation meets the specification: the same error with the transaction still usable, or
  success with the contents of the database it asks for.\<close>

definition meets ::
  "('x \<Rightarrow> bool) \<Rightarrow> ('x \<Rightarrow> contents) \<Rightarrow> 'x RecordStore \<Rightarrow> ('x RecordTransaction, unit) comp \<Rightarrow> 'x RecordTransaction \<Rightarrow>
     KernelError + database \<Rightarrow> bool" where
  "meets ok view rs f st g \<longleftrightarrow>
     (case g of
        Inl e \<Rightarrow> \<exists>st'. f st = (Inl e, st') \<and> healthy ok st'
      | Inr D \<Rightarrow> \<exists>st'. f st = (Inr (), st') \<and> healthy ok st' \<and> database_of rs D (view (rt_txn st')))"

section \<open>Stamped rows\<close>

lemma stamp_loop_length [simp]: "length (stamp_loop now previous ics row) = length row"
  by (induction now previous ics row rule: stamp_loop.induct) (simp_all split: option.split ValueType.split)

lemma stamp_loop_nth:
  assumes "n + length cols = length row" and "i < length row"
  shows "stamp_loop now previous (enumerate n cols) row ! i = row ! i \<or>
    n \<le> i \<and> col_managed (cols ! (i - n)) \<noteq> None \<and> col_ty (cols ! (i - n)) = TI64 \<and>
    (\<exists>w. stamp_loop now previous (enumerate n cols) row ! i = I64 w)"
  using assms
proof (induction cols arbitrary: n row)
  case (Cons c cols)
  let ?new = "\<lambda>managed. case managed of CreatedAt \<Rightarrow>
      (case Option.bind previous (\<lambda>before. get before n) of Some (I64 held) \<Rightarrow> I64 held | _ \<Rightarrow> I64 now)
    | UpdatedAt \<Rightarrow> I64 now"
  have new: "\<exists>w. ?new managed = I64 w" for managed
    by (cases managed) (simp_all split: option.split Value.split)
  define row' where "row' = (case (col_managed c, col_ty c) of (Some managed, TI64) \<Rightarrow> row[n := ?new managed] | _ \<Rightarrow> row)"
  have row': "stamp_loop now previous (enumerate n (c # cols)) row = stamp_loop now previous (enumerate (Suc n) cols) row'"
    "row' = row \<or> (col_managed c \<noteq> None \<and> col_ty c = TI64 \<and> (\<exists>w. row' = row[n := I64 w]))"
  proof -
    show "stamp_loop now previous (enumerate n (c # cols)) row = stamp_loop now previous (enumerate (Suc n) cols) row'"
      by (simp add: row'_def)
    show "row' = row \<or> (col_managed c \<noteq> None \<and> col_ty c = TI64 \<and> (\<exists>w. row' = row[n := I64 w]))"
    proof (cases "\<exists>managed. col_managed c = Some managed \<and> col_ty c = TI64")
      case True
      then show ?thesis using new by (auto simp: row'_def) metis
    next
      case False
      then have "row' = row" by (auto simp: row'_def split: option.split ValueType.split)
      then show ?thesis by blast
    qed
  qed
  then have "length row' = length row" by auto
  then have IH: "stamp_loop now previous (enumerate (Suc n) cols) row' ! i = row' ! i \<or>
      Suc n \<le> i \<and> col_managed (cols ! (i - Suc n)) \<noteq> None \<and> col_ty (cols ! (i - Suc n)) = TI64 \<and>
      (\<exists>w. stamp_loop now previous (enumerate (Suc n) cols) row' ! i = I64 w)"
    using Cons.prems by (intro Cons.IH) auto
  show ?case
  proof (cases "Suc n \<le> i")
    case True
    then have "i - n = Suc (i - Suc n)" "row' ! i = row ! i" using row'(2) by auto
    then show ?thesis using IH row'(1) True by auto
  next
    case False
    then show ?thesis using IH row' Cons.prems(2) by (cases "i = n") auto
  qed
qed simp

lemma stamped_nth:
  assumes "length row = length (td_columns t)" and "i < length row" and "r = stamped_row rs t row previous st"
  shows "length r = length row \<and> (r ! i = row ! i \<or>
    col_managed (td_columns t ! i) \<noteq> None \<and> col_ty (td_columns t ! i) = TI64 \<and> (\<exists>w. r ! i = I64 w))"
  using stamp_loop_nth [of 0 "td_columns t" row i] assms by (auto simp: stamped_row_def)

lemma row_sound_key: "row_sound t row \<Longrightarrow> length (key_of t row) < 2 ^ 64"
  by (simp add: row_sound_def row_key_bytes primary_key_values_def project_def table_prefix_def)

lemma valid_stored:
  assumes "computes_ok t" and "row_valid t row" and "row_sound t row"
  shows "stored_ok t row"
  using assms row_sound_key [OF assms(3)]
  by (auto simp: stored_ok_def row_ok_def computed_wf_def computes_ok_def row_sound_def row_valid_def)

lemma stamped_ok:
  assumes "table_ok t" and "computes_ok t" and "stored_ok t row" and live: "managed_live t" and r: "r = stamped_row rs t row previous st"
  shows "stored_ok t r \<and> primary_key_values r t = primary_key_values row t"
proof -
  have valid: "row_valid t row" "list_all wf_value row" "canonical row" "length (key_of t row) < 2 ^ 64"
    using assms(3) by (auto simp: stored_ok_def row_ok_def)
  then have len: "length row = length (td_columns t)" by (simp add: row_valid_def)
  have lr: "length r = length row" using r by (simp add: stamped_row_def)
  have at: "r ! i = row ! i \<or>
      col_managed (td_columns t ! i) \<noteq> None \<and> col_ty (td_columns t ! i) = TI64 \<and> (\<exists>w. r ! i = I64 w)" if "i < length row" for i
    using stamped_nth [OF len that r] by blast
  have key: "primary_key_values r t = primary_key_values row t"
  proof -
    have "value_or_null r i = value_or_null row i" if "i \<in> set (td_primary_key t)" for i
    proof -
      have "i < length row" "col_managed (td_columns t ! i) = None"
        using assms(1) that key_column_live [OF assms(1) that] len by (auto simp: table_ok_def Let_def key_ok_def)
      then show ?thesis using at [of i] lr by (simp add: value_or_null_less)
    qed
    then show ?thesis by (simp add: primary_key_values_def project_def)
  qed
  have wf: "list_all wf_value r"
    unfolding list_all_length
  proof (intro allI impI)
    fix i assume "i < length r"
    then show "wf_value (r ! i)" using at [of i] valid(2) lr by (auto simp: list_all_length)
  qed
  have "canonical r"
    unfolding canonical_def
  proof (rule nth_equalityI)
    fix i assume "i < length (map canon r)"
    then show "map canon r ! i = r ! i"
      using at [of i] valid(3) lr by (auto simp: canonical_def list_eq_iff_nth_eq)
  qed simp
  moreover have "row_valid t r"
  proof -
    have "column_accepts (td_columns t ! i) (r ! i)" if "i < length r" for i
    proof -
      have "column_accepts (td_columns t ! i) (row ! i)" using valid(1) that lr by (simp add: row_valid_def)
      moreover have "\<not> is_dropped (td_columns t ! i)" if "col_managed (td_columns t ! i) \<noteq> None"
        using live that \<open>i < length r\<close> lr len by (simp add: managed_live_def)
      ultimately show ?thesis
        using at [of i] that lr by (cases "r ! i = row ! i") (auto simp: column_accepts_def [of _ "I64 _"])
    qed
    then show ?thesis using assms(2) wf lr len by (auto simp: row_valid_def computes_ok_def)
  qed
  ultimately show ?thesis
    using assms(2) wf key valid(4) lr len
    by (auto simp: stored_ok_def row_ok_def computed_wf_def computes_ok_def)
qed

section \<open>Tables keep to their own keys\<close>

lemma represents_cong:
  assumes "represents u t R m" and "\<And>k. own_key t k \<Longrightarrow> m' k = m k"
  shows "represents u t R m'"
proof -
  have "m' k = m k" if "prefix (table_prefix t) k" for k using assms(2) that by (simp add: own_key_def)
  moreover have "m' k = m k" if "ix \<in> set (td_indexes t)" "prefix (index_prefix_of (ix_id ix)) k" for ix k
    using assms(2) that by (auto simp: own_key_def)
  ultimately show ?thesis
    using assms(1) key_of_space unfolding represents_iff index_holds_def by simp
qed

lemma own_keys_disjoint:
  assumes "catalog_ok c" and "t \<in> set (cat_tables c)" and "t' \<in> set (cat_tables c)" and "t' \<noteq> t" and "own_key t' k"
  shows "\<not> own_key t k"
proof
  assume "own_key t k"
  have "td_id t' \<noteq> td_id t" using assms by (auto simp: catalog_ok_def distinct_map inj_on_def)
  then have "\<not> (prefix (table_prefix t) k \<and> prefix (table_prefix t') k)"
    by (auto simp: table_prefix_def prefix_def key_header_def append_eq_append_conv length_to_be u32_to_be_bytes_inj)
  moreover have "ix_id ix \<noteq> ix_id ix'" if "ix \<in> set (td_indexes t)" "ix' \<in> set (td_indexes t')" for ix ix'
    using catalog_index_unique [of "cat_tables c" t t' ix ix'] assms(1-4) that by (auto simp: catalog_ok_def)
  ultimately show False
    using assms(5) \<open>own_key t k\<close> index_spaces_disjoint unfolding own_key_def by metis
qed

lemma database_update:
  assumes "schema_ok (rs_catalog rs)" and "database_of rs D m" and "t \<in> set (cat_tables (rs_catalog rs))"
    and "represents (env_unicode (rs_env rs)) t R m'" and "\<And>k. \<not> own_key t k \<Longrightarrow> m' k = m k"
  shows "database_of rs (D(td_id t := R)) m'"
  unfolding database_of_def
proof
  fix t' assume t': "t' \<in> set (cat_tables (rs_catalog rs))"
  show "represents (env_unicode (rs_env rs)) t' ((D(td_id t := R)) (td_id t')) m'"
  proof (cases "t' = t")
    case False
    have ok: "catalog_ok (rs_catalog rs)" using assms(1) by (simp add: schema_ok_def)
    then have "td_id t' \<noteq> td_id t" using assms(3) t' False by (auto simp: catalog_ok_def distinct_map inj_on_def)
    moreover have "represents (env_unicode (rs_env rs)) t' (D (td_id t')) m" using assms(2) t' by (simp add: database_of_def)
    ultimately show ?thesis
      using represents_cong [of _ t' "D (td_id t')" m m'] own_keys_disjoint [OF ok assms(3) t' False] assms(5) by simp
  qed (simp add: assms(4))
qed

section \<open>Reading\<close>

lemma parent_key_Some:
  assumes "parent_key f row = Some key"
  shows "key = map (\<lambda>i. row ! i) (fk_columns f) \<and> (\<forall>i\<in>set (fk_columns f). i < length row)"
proof -
  have "parent_key_loop row acc os = Some key \<Longrightarrow> key = acc @ map (\<lambda>i. row ! i) os \<and> (\<forall>i\<in>set os. i < length row)" for acc os
  proof (induction os arbitrary: acc)
    case (Cons i os)
    then have "i < length row" "parent_key_loop row (acc @ [row ! i]) os = Some key"
      by (auto simp: get_def split: option.splits if_splits)
    then show ?case using Cons.IH [of "acc @ [row ! i]"] by simp
  qed simp
  from this [of "[]"] show ?thesis using assms by (simp add: parent_key_def)
qed

lemma reference_fits:
  assumes "schema_ok c" and "t \<in> set (cat_tables c)" and "f \<in> set (td_foreign_keys t)" and "stored_ok t row"
    and "row_sound t row" and "parent_key f row = Some key" and "parent_of c f = Inr p"
  shows "p \<in> set (cat_tables c) \<and> key_fits p key \<and> map canon key = key \<and> length (row_key p key) < 2 ^ 64"
proof -
  have c: "catalog_ok c" "foreign_keys_valid c" "table_ok t" using assms(1,2) by (auto simp: schema_ok_def)
  have ids: "distinct (map td_id (cat_tables c))" using c(1) by (simp add: catalog_ok_def)
  have p: "p \<in> set (cat_tables c)" "td_id p = fk_parent f"
    using assms(7) cat_table_iff [OF ids] by (auto simp: parent_of_def)
  have types: "key_types t (fk_columns f) = primary_key_types p"
    using c(2) assms(2,3) p ids unfolding foreign_keys_valid_def by (metis cat_table_iff option.inject)
  have key: "key = map (\<lambda>i. row ! i) (fk_columns f)" "\<forall>i\<in>set (fk_columns f). i < length row"
    using parent_key_Some [OF assms(6)] by blast+
  have ok: "row_ok t row" "length row = length (td_columns t)"
    using assms(4) row_ok_length by (auto simp: stored_ok_def)
  have "foreign_key_ok (td_columns t) f" using c(3) assms(3) by (simp add: table_ok_def Let_def)
  then have "fits (col_ty (td_columns t ! i)) (row ! i)" if "i \<in> set (fk_columns f)" for i
    using row_ok_fits [OF c(3) ok(1), of i] that key(2) ok(2) by (auto simp: foreign_key_ok_def live_column_def)
  then have "key_fits p key"
    using key ok(2) unfolding key_fits_def types [symmetric]
    by (simp add: key_types_def list_all2_conv_all_nth get_def)
  moreover have "map canon key = key"
    using assms(4) key unfolding stored_ok_def canonical_def by (auto simp: list_eq_iff_nth_eq)
  moreover have "length (tuple_bytes [] (map (value_or_null row) (fk_columns f))) + 5 < 2 ^ 64"
    using assms(3,5) by (auto simp: row_sound_def)
  moreover have "key = map (value_or_null row) (fk_columns f)" using key by (simp add: value_or_null_less)
  ultimately show ?thesis using p by (simp add: row_key_bytes table_prefix_def)
qed

lemma stored_key_decodes:
  assumes "table_ok t" and "stored_ok t r"
  shows "decode_row_key t (key_of t r) = Inr (primary_key_values r t)"
  using assms(2) decode_row_key_bytes [of t "primary_key_values r t"] row_key_fits [OF assms(1), of r]
    canonical_key [of r t] by (simp add: stored_ok_def)

lemma key_bytes_eq:
  assumes "table_ok t" and "stored_ok t r" and "key_fits t key" and "map canon key = key"
    and "length (row_key t key) < 2 ^ 64" and "key_of t r = row_key t key"
  shows "primary_key_values r t = key"
proof -
  have "Inr (primary_key_values r t) = decode_row_key t (row_key t key)"
    using stored_key_decodes [OF assms(1,2)] unfolding assms(6) by (rule sym)
  also have "\<dots> = Inr key" using decode_row_key_bytes [OF assms(3,5)] unfolding assms(4) .
  finally show ?thesis by (rule Inr_inject)
qed

lemma row_under_replaces:
  assumes "table_ok t" and "represents u t R m" and "stored_ok t row"
    and "row_under t R (primary_key_values row t) previous"
  shows "replaces t R row previous"
proof (cases previous)
  case None
  then show ?thesis
    using assms key_of_eq [OF assms(1) _ assms(3)] by (auto simp: replaces_def row_under_def represents_def)
qed (use assms(4) in \<open>simp add: replaces_def row_under_def\<close>)

lemma seach_readonly: "(\<And>x. x \<in> set xs \<Longrightarrow> f x st = (g x, st)) \<Longrightarrow> seach f xs st = (try_each g xs, st)"
proof (induction xs)
  case (Cons x xs)
  then have "seach f xs st = (try_each g xs, st)" by simp
  then show ?case using Cons.prems [of x] by (cases "g x") (auto simp: sbind_def)
qed (simp add: comp_simps)

lemma meets_sbind:
  assumes "f st = (c, st)" and "healthy ok st" and "\<And>x. c = Inr x \<Longrightarrow> meets ok view rs (k x) st (g x)"
  shows "meets ok view rs (sbind f k) st (rbind c g)"
proof (cases c)
  case (Inl e)
  then show ?thesis using assms(1,2) by (simp add: meets_def sbind_def)
next
  case (Inr x)
  then have "sbind f k st = k x st" using assms(1) by (simp add: sbind_def)
  then show ?thesis using assms(3) [OF Inr] unfolding Inr meets_def by (cases "g x") simp_all
qed

lemma meets_read: "f st = (Inr x, st) \<Longrightarrow> meets ok view rs (k x) st g \<Longrightarrow> meets ok view rs (sbind f k) st g"
  by (cases g) (simp_all add: meets_def sbind_def)

lemma meets_error: "healthy ok st \<Longrightarrow> meets ok view rs (sresult (Inl e)) st (Inl e)"
  by (simp add: meets_def comp_simps)

context kv_transaction
begin

lemma read_row_run:
  assumes "rs_kv rs = kv" and "healthy ok st" and "table_ok t" and "represents u t R (view (rt_txn st))"
    and "key_fits t key" and "map canon key = key" and "length (row_key t key) < 2 ^ 64"
    and "row_under t R key found"
  shows "read_row_unchecked rs t key st = (Inr found, st)"
proof -
  have look: "txn_lookup rs (row_key t key) st = (Inr (view (rt_txn st) (row_key t key)), st)"
    using get_view assms(1,2) by (simp add: txn_lookup_def healthy_def)
  show ?thesis
  proof (cases found)
    case None
    have "view (rt_txn st) (row_key t key) = None"
    proof (rule ccontr)
      assume "view (rt_txn st) (row_key t key) \<noteq> None"
      then obtain r where r: "r \<in> R" "key_of t r = row_key t key"
        using assms(4) unfolding represents_def row_key_bytes by (metis prefixI)
      then have "primary_key_values r t = key"
        using assms(4) key_bytes_eq [OF assms(3) _ assms(5-7)] by (auto simp: represents_def)
      then show False using None assms(8) r(1) by (simp add: row_under_def)
    qed
    then show ?thesis using look None by (simp add: read_row_unchecked_def sbind_run(2) comp_simps)
  next
    case (Some r)
    then have "r \<in> R" "primary_key_values r t = key" using assms(8) by (auto simp: row_under_def)
    then obtain body where "view (rt_txn st) (row_key t key) = Some body" "decode_row t key body = Inr r"
      using assms(4) unfolding represents_def by blast
    then show ?thesis using look Some by (simp add: read_row_unchecked_def sbind_run(2) comp_simps)
  qed
qed

lemma row_under_ex: "\<exists>found. row_under t R key found"
proof (cases "\<exists>r\<in>R. primary_key_values r t = key")
  case True
  then obtain r where "r \<in> R" "primary_key_values r t = key" by blast
  then have "row_under t R key (Some r)" by (simp add: row_under_def)
  then show ?thesis ..
next
  case False
  then have "row_under t R key None" by (simp add: row_under_def)
  then show ?thesis ..
qed

lemma reads_get_run:
  assumes "rs_kv rs = kv" and "healthy ok st" and "table_ok t" and "represents u t R (view (rt_txn st))"
    and "key_fits t key" and "map canon key = key" and "length (row_key t key) < 2 ^ 64"
    and "row_under t R key found"
  shows "reads_get rs ctx t key st =
    (rbind (authorize (rs_security rs) ctx t Read) (\<lambda>_.
     rbind (row_filter (rs_security rs) ctx t Read) (\<lambda>filt.
     Inr (case found of
            None \<Rightarrow> None
          | Some row \<Rightarrow>
              if expr_admits (rs_env rs) filt row then Some (conceal row (concealed (rs_security rs) ctx t)) else None))), st)"
  using read_row_run [OF assms]
  by (cases "authorize (rs_security rs) ctx t Read"; cases "row_filter (rs_security rs) ctx t Read"; cases found)
    (simp_all add: reads_get_def Let_def sbind_def comp_simps)

lemma check_foreign_key_run:
  assumes "rs_kv rs = kv" and "serves ok view rs D st" and "t \<in> set (cat_tables (rs_catalog rs))"
    and "stored_ok t row" and "row_sound t row" and "f \<in> set (td_foreign_keys t)"
  shows "check_foreign_key rs ctx t row previous {} f st = (fk_spec rs ctx D t row previous f, st)"
proof (cases "\<exists>key p. parent_key f row = Some key \<and> \<not> same_reference f previous key \<and> parent_of (rs_catalog rs) f = Inr p")
  case False
  then show ?thesis
    by (cases "parent_key f row"; cases "parent_of (rs_catalog rs) f")
      (auto simp: check_foreign_key_def fk_spec_def comp_simps)
next
  case True
  then obtain key p where key: "parent_key f row = Some key" "\<not> same_reference f previous key"
    "parent_of (rs_catalog rs) f = Inr p" by blast
  have s: "healthy ok st" "schema_ok (rs_catalog rs)" "database_of rs D (view (rt_txn st))"
    using assms(2) by (auto simp: serves_def)
  have fit: "p \<in> set (cat_tables (rs_catalog rs))" "key_fits p key" "map canon key = key" "length (row_key p key) < 2 ^ 64"
    using reference_fits [OF s(2) assms(3,6,4,5) key(1,3)] by blast+
  have rep: "table_ok p" "represents (env_unicode (rs_env rs)) p (D (td_id p)) (view (rt_txn st))"
    using s fit(1) by (auto simp: schema_ok_def database_of_def)
  obtain found where found: "row_under p (D (td_id p)) key found" using row_under_ex by blast
  have only: "(\<exists>q\<in>D (td_id p). primary_key_values q p = key \<and> expr_admits (rs_env rs) filt q) =
      (case found of None \<Rightarrow> False | Some q \<Rightarrow> expr_admits (rs_env rs) filt q)" for filt
    using found represented_once [OF rep] unfolding row_under_def by (cases found) (simp_all, metis)
  show ?thesis
    using reads_get_run [OF assms(1) s(1) rep fit(2-4) found, of ctx] key
    by (cases "authorize (rs_security rs) ctx p Read"; cases "row_filter (rs_security rs) ctx p Read"; cases found)
      (simp_all add: check_foreign_key_def fk_spec_def only sbind_def comp_simps)
qed

lemma check_foreign_keys_run:
  assumes "rs_kv rs = kv" and "serves ok view rs D st" and "t \<in> set (cat_tables (rs_catalog rs))"
    and "stored_ok t row" and "row_sound t row"
  shows "check_foreign_keys rs ctx t row previous {} st = (try_each (fk_spec rs ctx D t row previous) (td_foreign_keys t), st)"
  unfolding check_foreign_keys_def using assms by (intro seach_readonly check_foreign_key_run) auto

lemma write_meets:
  assumes "rs_kv rs = kv" and "serves ok view rs D st" and "t \<in> set (cat_tables (rs_catalog rs))"
    and "stored_ok t row" and "row_under t (D (td_id t)) (primary_key_values row t) previous"
    and r: "r = stamped_row rs t row previous st" and "length (encode_body t r) < 2 ^ 64"
  shows "meets ok view rs (write_row rs t row previous) st (store_spec rs t r previous D)"
proof -
  let ?u = "env_unicode (rs_env rs)" and ?m = "view (rt_txn st)" and ?R = "D (td_id t)"
  have s: "healthy ok st" "schema_ok (rs_catalog rs)" "database_of rs D ?m" "unicode_ok ?u"
    using assms(2) by (auto simp: serves_def)
  have T: "table_ok t" "versions_ok t" "evolvable t" "computes_ok t" "managed_live t" "represents ?u t ?R ?m"
    using s assms(3) by (auto simp: schema_ok_def database_of_def)
  have stamped: "stored_ok t r" "primary_key_values r t = primary_key_values row t"
    using stamped_ok [OF T(1,4) assms(4) T(5) r] by blast+
  have "replaces t ?R r previous"
    using row_under_replaces [OF T(1,6) stamped(1)] assms(5) stamped(2) by simp
  then have ready: "write_ready ?u t ?R ?m r previous" "writable t r"
    using T s(4) stamped(1) assms(7) by (simp_all add: write_ready_def writable_def)
  show ?thesis
  proof (cases "find (collides ?u t ?R previous r) (td_indexes t)")
    case None
    then have "\<not> collides ?u t ?R previous r ix" if "ix \<in> set (td_indexes t)" for ix
      using that by (simp add: find_None_iff)
    then obtain m' where m': "write_map ?u t r previous True ?m = Inr m'"
      "represents ?u t (insert r (others ?R previous)) m'" "\<And>k. \<not> own_key t k \<Longrightarrow> m' k = ?m k"
      using write_map_ok [OF ready] by blast
    then show ?thesis
      using write_row_run [OF assms(1) s(1) r, of True] database_update [OF s(2,3) assms(3) m'(2,3)] None
      by (auto simp: meets_def store_spec_def write_row_def)
  next
    case (Some ix)
    then show ?thesis
      using write_row_run [OF assms(1) s(1) r, of True] write_map_collision [OF ready(1) Some]
      by (simp add: meets_def store_spec_def write_row_def)
  qed
qed

text \<open>What the operations share: the row given passed validation.\<close>

lemma finish_meets:
  assumes "rs_kv rs = kv" and "serves ok view rs D st" and "t \<in> set (cat_tables (rs_catalog rs))"
    and "row_sound t row" and "row_under t (D (td_id t)) (primary_key_values row t) previous"
    and "r = stamped_row rs t row previous st" and "length (encode_body t r) < 2 ^ 64"
    and "validate row t = Inr ()"
  shows "meets ok view rs (sbind (check_foreign_keys rs ctx t row previous {}) (\<lambda>_. write_row rs t row previous)) st
    (finish_spec rs ctx t row r previous D)"
proof -
  have "computes_ok t" using assms(2,3) by (auto simp: serves_def schema_ok_def)
  then have "stored_ok t row" using valid_stored assms(4,8) by (simp add: validate_Inr)
  then show ?thesis
    unfolding finish_spec_def using assms
    by (intro meets_sbind check_foreign_keys_run write_meets) (auto simp: serves_def)
qed

lemma replace_meets:
  assumes "rs_kv rs = kv" and "serves ok view rs D st" and "t \<in> set (cat_tables (rs_catalog rs))"
    and "row_sound t row" and "row_under t (D (td_id t)) (primary_key_values row t) (Some existing)"
    and "r = stamped_row rs t row (Some existing) st" and "length (encode_body t r) < 2 ^ 64"
    and "validate row t = Inr ()"
  shows "meets ok view rs
    (sbind (sresult (check_row (rs_env rs) (rs_security rs) ctx t Update row)) (\<lambda>_.
     sbind (sresult (check_constraints t row)) (\<lambda>_.
     sbind (check_foreign_keys rs ctx t row (Some existing) {}) (\<lambda>_. write_row rs t row (Some existing))))) st
    (replace_spec rs ctx t row r existing D)"
  unfolding replace_spec_def using assms
  by (intro meets_sbind finish_meets sresult_run) (auto simp: serves_def)

lemma own_row_run:
  assumes "rs_kv rs = kv" and "serves ok view rs D st" and "t \<in> set (cat_tables (rs_catalog rs))"
    and "row_sound t row" and "row_under t (D (td_id t)) (primary_key_values row t) previous"
    and "validate row t = Inr ()"
  shows "read_row_unchecked rs t (primary_key_values row t) st = (Inr previous, st)"
    and "visible_row_with rs ctx t Update (primary_key_values row t) deleted st = (visible_spec rs ctx t previous deleted, st)"
proof -
  have T: "computes_ok t" "table_ok t" "healthy ok st" "represents (env_unicode (rs_env rs)) t (D (td_id t)) (view (rt_txn st))"
    using assms(2,3) by (auto simp: serves_def schema_ok_def database_of_def)
  then have ok: "stored_ok t row" using valid_stored assms(4,6) by (simp add: validate_Inr)
  then have fit: "key_fits t (primary_key_values row t)" "map canon (primary_key_values row t) = primary_key_values row t"
    "length (key_of t row) < 2 ^ 64"
    using row_key_fits [OF T(2)] canonical_key by (auto simp: stored_ok_def)
  show read: "read_row_unchecked rs t (primary_key_values row t) st = (Inr previous, st)"
    by (rule read_row_run [OF assms(1) T(3,2,4) fit assms(5)])
  show "visible_row_with rs ctx t Update (primary_key_values row t) deleted st = (visible_spec rs ctx t previous deleted, st)"
  proof (cases previous)
    case (Some old)
    then show ?thesis
      using read by (cases "permits_row_with (rs_env rs) (rs_security rs) ctx t Update old deleted")
        (simp_all add: visible_row_with_def visible_spec_def sbind_def comp_simps)
  qed (use read in \<open>simp add: visible_row_with_def visible_spec_def sbind_def comp_simps\<close>)
qed

lemma insert_meets:
  assumes "rs_kv rs = kv" and "serves ok view rs D st" and "t \<in> set (cat_tables (rs_catalog rs))"
    and "row_sound t row" and "row_under t (D (td_id t)) (primary_key_values row t) previous"
    and "r = stamped_row rs t row previous st" and "length (encode_body t r) < 2 ^ 64"
  shows "meets ok view rs (insert_row rs ctx t row) st (insert_spec rs ctx t row r previous D)"
proof -
  have st: "healthy ok st" using assms(2) by (simp add: serves_def)
  have rest: "meets ok view rs (sbind (read_row_unchecked rs t (primary_key_values row t)) (\<lambda>found.
       if found \<noteq> None then sresult (Inl (DuplicatePrimaryKey (td_name t)))
       else sbind (check_foreign_keys rs ctx t row None {}) (\<lambda>_. write_row rs t row None))) st
      (if previous \<noteq> None then Inl (DuplicatePrimaryKey (td_name t)) else finish_spec rs ctx t row r None D)"
    if v: "validate row t = Inr ()"
  proof -
    have "meets ok view rs (if previous \<noteq> None then sresult (Inl (DuplicatePrimaryKey (td_name t)))
        else sbind (check_foreign_keys rs ctx t row None {}) (\<lambda>_. write_row rs t row None)) st
      (if previous \<noteq> None then Inl (DuplicatePrimaryKey (td_name t)) else finish_spec rs ctx t row r None D)"
      using finish_meets [OF assms v] meets_error [OF st] by (cases previous) simp_all
    with own_row_run(1) [OF assms(1-5) v] show ?thesis by (rule meets_read)
  qed
  show ?thesis
    unfolding insert_row_def insert_spec_def
    by (intro meets_sbind sresult_run st rest) simp
qed

lemma visible_found:
  "visible_spec rs ctx t previous deleted = Inr (Some existing) \<Longrightarrow> previous = Some existing"
  by (cases previous) (auto simp: visible_spec_def rbind_eq_Inr split: if_splits)

lemma update_meets:
  assumes "rs_kv rs = kv" and "serves ok view rs D st" and "t \<in> set (cat_tables (rs_catalog rs))"
    and "row_sound t row" and "row_under t (D (td_id t)) (primary_key_values row t) previous"
    and "r = stamped_row rs t row previous st" and "length (encode_body t r) < 2 ^ 64"
  shows "meets ok view rs (update_row rs ctx t row) st (update_spec rs ctx t row r previous D)"
proof -
  have st: "healthy ok st" using assms(2) by (simp add: serves_def)
  let ?f = "\<lambda>found. case found of None \<Rightarrow> sresult (Inl (RowNotFound (td_name t)))
    | Some existing \<Rightarrow>
        sbind (sresult (check_row (rs_env rs) (rs_security rs) ctx t Update row)) (\<lambda>_.
        sbind (sresult (check_constraints t row)) (\<lambda>_.
        sbind (check_foreign_keys rs ctx t row (Some existing) {}) (\<lambda>_. write_row rs t row (Some existing))))"
  let ?g = "\<lambda>found. case found of None \<Rightarrow> Inl (RowNotFound (td_name t)) | Some existing \<Rightarrow> replace_spec rs ctx t row r existing D"
  have rest: "meets ok view rs (sbind (visible_row_with rs ctx t Update (primary_key_values row t) del) ?f) st
      (rbind (visible_spec rs ctx t previous del) ?g)" if v: "validate row t = Inr ()" for del
  proof (rule meets_sbind)
    show "visible_row_with rs ctx t Update (primary_key_values row t) del st = (visible_spec rs ctx t previous del, st)"
      by (rule own_row_run(2) [OF assms(1-5) v])
    show "meets ok view rs (?f found) st (?g found)" if "visible_spec rs ctx t previous del = Inr found" for found
    proof (cases found)
      case (Some existing)
      then have p: "previous = Some existing" using that visible_found by blast
      show ?thesis using replace_meets [OF assms [unfolded p] v] Some by simp
    qed (simp add: meets_error [OF st])
  qed (rule st)
  show ?thesis
    unfolding update_row_def update_spec_def
    by (intro meets_sbind sresult_run st rest) simp
qed

lemma swap_meets:
  assumes "rs_kv rs = kv" and "serves ok view rs D st" and "t \<in> set (cat_tables (rs_catalog rs))"
    and "row_sound t row" and "row_under t (D (td_id t)) (primary_key_values row t) previous"
    and "r = stamped_row rs t row previous st" and "length (encode_body t r) < 2 ^ 64"
  shows "meets ok view rs (update_if_unchanged rs ctx t row expected) st (swap_spec rs ctx t row expected r previous D)"
proof -
  have st: "healthy ok st" using assms(2) by (simp add: serves_def)
  let ?f = "\<lambda>found. case found of None \<Rightarrow> sresult (Inl (RowNotFound (td_name t)))
    | Some existing \<Rightarrow>
        if \<not> list_all2 value_eq existing expected then sresult (Inl (RowChanged (td_name t)))
        else
          sbind (sresult (check_row (rs_env rs) (rs_security rs) ctx t Update row)) (\<lambda>_.
          sbind (sresult (check_constraints t row)) (\<lambda>_.
          sbind (check_foreign_keys rs ctx t row (Some existing) {}) (\<lambda>_. write_row rs t row (Some existing))))"
  let ?g = "\<lambda>found. case found of None \<Rightarrow> Inl (RowNotFound (td_name t))
    | Some existing \<Rightarrow>
        if \<not> list_all2 value_eq existing expected then Inl (RowChanged (td_name t))
        else replace_spec rs ctx t row r existing D"
  have rest: "meets ok view rs (sbind (visible_row rs ctx t Update (primary_key_values row t)) ?f) st
      (rbind (visible_spec rs ctx t previous Hidden) ?g)" if v: "validate row t = Inr ()"
  proof (rule meets_sbind)
    show "visible_row rs ctx t Update (primary_key_values row t) st = (visible_spec rs ctx t previous Hidden, st)"
      unfolding visible_row_def by (rule own_row_run(2) [OF assms(1-5) v])
    show "meets ok view rs (?f found) st (?g found)" if "visible_spec rs ctx t previous Hidden = Inr found" for found
    proof (cases found)
      case (Some existing)
      then have p: "previous = Some existing" using that visible_found by blast
      show ?thesis using replace_meets [OF assms [unfolded p] v] meets_error [OF st] Some by simp
    qed (simp add: meets_error [OF st])
  qed (rule st)
  have guarded: "meets ok view rs
      (if b then sresult (Inl (RowChanged (td_name t)))
       else sbind (visible_row rs ctx t Update (primary_key_values row t)) ?f) st
      (if b then Inl (RowChanged (td_name t)) else rbind (visible_spec rs ctx t previous Hidden) ?g)"
    if "validate row t = Inr ()" for b
    using rest [OF that] meets_error [OF st] by (cases b) simp_all
  show ?thesis
    unfolding update_if_unchanged_def swap_spec_def
    by (intro meets_sbind sresult_run st guarded) simp
qed

lemma upsert_meets:
  assumes "rs_kv rs = kv" and "serves ok view rs D st" and "t \<in> set (cat_tables (rs_catalog rs))"
    and "row_sound t row" and "row_under t (D (td_id t)) (primary_key_values row t) previous"
    and "r = stamped_row rs t row previous st" and "length (encode_body t r) < 2 ^ 64"
  shows "meets ok view rs (upsert rs ctx t row) st (upsert_spec rs ctx t row r previous D)"
proof -
  have st: "healthy ok st" using assms(2) by (simp add: serves_def)
  let ?del = "retired_rows_reachable (rs_security rs) ctx t"
  let ?f = "\<lambda>existing.
     sbind (case existing of
              None \<Rightarrow> sreturn ()
            | Some current \<Rightarrow>
                sbind (sresult (permits_row_with (rs_env rs) (rs_security rs) ctx t Update current ?del)) (\<lambda>permitted.
                if \<not> permitted then sresult (Inl (RowNotFound (td_name t))) else sreturn ())) (\<lambda>_.
     sbind (sresult (check_row (rs_env rs) (rs_security rs) ctx t (if existing \<noteq> None then Update else Insert) row)) (\<lambda>_.
     sbind (sresult (check_constraints t row)) (\<lambda>_.
     sbind (check_foreign_keys rs ctx t row existing {}) (\<lambda>_.
     write_row rs t row existing))))"
  let ?g = "case previous of
       None \<Rightarrow> rbind (check_constraints t row) (\<lambda>_. finish_spec rs ctx t row r None D)
     | Some existing \<Rightarrow>
         rbind (visible_spec rs ctx t previous ?del) (\<lambda>found.
         if found = None then Inl (RowNotFound (td_name t)) else replace_spec rs ctx t row r existing D)"
  have rest: "meets ok view rs (?f previous) st ?g"
    if v: "validate row t = Inr ()" and c: "check_row (rs_env rs) (rs_security rs) ctx t Insert row = Inr x" for x
  proof (cases previous)
    case None
    then show ?thesis
      using finish_meets [OF assms v] c
      by (simp add: sbind_sresult) (intro meets_sbind sresult_run st, simp)
  next
    case (Some existing)
    show ?thesis
    proof (cases "permits_row_with (rs_env rs) (rs_security rs) ctx t Update existing ?del")
      case (Inl e)
      then show ?thesis using Some meets_error [OF st] by (simp add: visible_spec_def sbind_sresult)
    next
      case (Inr b)
      then show ?thesis
        using Some meets_error [OF st] replace_meets [OF assms [unfolded Some] v, of ctx]
        by (cases b) (simp_all add: visible_spec_def sbind_sresult)
    qed
  qed
  have read: "meets ok view rs (sbind (read_row_unchecked rs t (primary_key_values row t)) ?f) st ?g"
    if v: "validate row t = Inr ()" and c: "check_row (rs_env rs) (rs_security rs) ctx t Insert row = Inr x" for x
    using own_row_run(1) [OF assms(1-5) v] rest [OF v c] by (rule meets_read)
  show ?thesis
    unfolding upsert_def upsert_spec_def Let_def
    by (intro meets_sbind sresult_run st read) simp_all
qed

end

end
