(* ===== verification/Query_Exec.thy ===== *)
theory Query_Exec
  imports Plan_Sound Record_Ops
begin

text \<open>
  The executor, \<open>crates/slate-kernel/src/exec.rs\<close>, with the cursors of \<open>read.rs\<close> and the request of
  \<open>query.rs\<close>: a cursor whose source is walked one row at a time, row reads kept in flight up to a
  bound, several index ranges walked in turn, rows collected and sorted, and the window of a limit and
  an offset. An iterator over the store is the list of the pairs it has yet to yield. Window functions
  and the heap that keeps the best rows of a sort are parameters of the cur; of the heap the code
  relies on what the standard library promises, that popping removes a greatest element.
\<close>

section \<open>Requests and ceilings\<close>

record ('s, 'w) Query =
  q_filter :: Expr
  q_order :: ScanOrder
  q_projection :: Projection
  q_sort :: "SortKey list"
  q_limit :: "nat option"
  q_offset :: nat
  q_hint :: "AccessHint option"
  q_compute :: "'s list"
  q_window :: "'w list"
  q_after :: "Value list option"
  q_paging :: bool
  q_include_deleted :: bool

record ExecutionLimits =
  max_groups :: nat
  max_distinct :: nat
  max_sort_rows :: nat
  max_window_rows :: nat
  max_in_values :: nat

definition DEFAULT_PREFETCH :: nat where "DEFAULT_PREFETCH = 16"

text \<open>The snapshot a cursor reads, with what it is given to evaluate, to order and to window rows.\<close>

record ('x, 's, 'w) Exec =
  ex_kv :: "'x Kv"
  ex_snapshot :: 'x
  ex_point_in_time :: bool
  ex_env :: Env
  ex_eval :: "'s \<Rightarrow> Row \<Rightarrow> Value"
  ex_windows :: "'w list \<Rightarrow> Row list \<Rightarrow> KernelError + Row list"
  ex_pop :: "(Row \<Rightarrow> Row \<Rightarrow> ordering) \<Rightarrow> Row list \<Rightarrow> Row \<times> Row list"

section \<open>Cursors over the store\<close>

type_synonym kvs = "(bytes \<times> bytes) list"
type_synonym RawRow = "Value list \<times> bytes"

definition read_row_body :: "('x, 's, 'w) Exec \<Rightarrow> TableDef \<Rightarrow> Value list \<Rightarrow> KernelError + bytes option" where
  "read_row_body ex t primary_key = kv_get (ex_kv ex) (ex_snapshot ex) (row_key t primary_key)"

definition read_row_projected ::
  "('x, 's, 'w) Exec \<Rightarrow> TableDef \<Rightarrow> Value list \<Rightarrow> ColumnSet \<Rightarrow> KernelError + Row option" where
  "read_row_projected ex t primary_key wanted =
     rbind (kv_get (ex_kv ex) (ex_snapshot ex) (row_key t primary_key)) (\<lambda>found.
     case found of
       None \<Rightarrow> Inr None
     | Some body \<Rightarrow>
         rbind (map_err KernelSchema (decode_row_columns t primary_key body (Some wanted))) (\<lambda>row. Inr (Some row)))"

definition scan_store :: "('x, 's, 'w) Exec \<Rightarrow> KeyRange \<Rightarrow> ScanOrder \<Rightarrow> KernelError + kvs" where
  "scan_store ex r ord = kv_scan (ex_kv ex) (ex_snapshot ex) r ord"

fun next_raw :: "TableDef \<Rightarrow> kvs \<Rightarrow> (KernelError + RawRow option) \<times> kvs" where
  "next_raw t [] = (Inr None, [])"
| "next_raw t ((k, v) # kvs) = (rbind (decode_row_key t k) (\<lambda>pk. Inr (Some (pk, v))), kvs)"

fun next_entry :: "TableDef \<Rightarrow> IndexDef \<Rightarrow> kvs \<Rightarrow> (KernelError + (Value list \<times> Value list) option) \<times> kvs" where
  "next_entry t ix [] = (Inr None, [])"
| "next_entry t ix ((k, v) # kvs) = (rbind (decode_index_entry t ix k v) (\<lambda>e. Inr (Some e)), kvs)"

function next_index_entry ::
  "('x, 's, 'w) Exec \<Rightarrow> TableDef \<Rightarrow> IndexDef \<Rightarrow> ScanOrder \<Rightarrow> kvs \<Rightarrow> KeyRange list \<Rightarrow>
     (KernelError + (Value list \<times> Value list) option) \<times> kvs \<times> KeyRange list" where
  "next_index_entry ex t ix ord cur rest =
     (case next_entry t ix cur of
        (Inl e, cur) \<Rightarrow> (Inl e, cur, rest)
      | (Inr (Some entry), cur) \<Rightarrow> (Inr (Some entry), cur, rest)
      | (Inr None, cur) \<Rightarrow>
          (case rest of
             [] \<Rightarrow> (Inr None, cur, [])
           | r # rest \<Rightarrow>
               (case scan_store ex r ord of
                  Inl e \<Rightarrow> (Inl e, cur, rest)
                | Inr cur \<Rightarrow> next_index_entry ex t ix ord cur rest)))"
  by pat_completeness auto
termination by (relation "measure (\<lambda>(_, _, _, _, _, rest). length rest)") auto

declare next_index_entry.simps [simp del]

section \<open>The cursor\<close>

type_synonym inflight = "(KernelError + RawRow option) list"

datatype Source =
    Source_Rows kvs
  | Source_Index IndexDef kvs "KeyRange list" ScanOrder inflight bool
  | Source_Covering IndexDef kvs "KeyRange list" ScanOrder
  | Source_Point "Row option"
  | Source_Points "Value list list" inflight bool
  | Source_Sorted "Row list"
  | Source_Empty

record 's QueryCursor =
  qc_table :: TableDef
  qc_source :: Source
  qc_residual :: Expr
  qc_filter_columns :: ColumnSet
  qc_decode_columns :: ColumnSet
  qc_two_phase :: bool
  qc_transient :: "Ordinal list"
  qc_concealed :: "Ordinal list"
  qc_from_entry :: "nat option"
  qc_compute :: "'s list"
  qc_prefetch :: nat
  qc_limit :: "nat option"
  qc_offset :: nat
  qc_skipped :: nat
  qc_yielded :: nat

definition materialise_raw :: "('x, 's, 'w) Exec \<Rightarrow> 's QueryCursor \<Rightarrow> RawRow \<Rightarrow> KernelError + Row option" where
  "materialise_raw ex qc raw =
     map_err KernelSchema
       (materialise (ex_env ex) (ex_eval ex) (qc_table qc) (qc_residual qc) (qc_filter_columns qc)
          (qc_decode_columns qc) (qc_two_phase qc) (qc_compute qc) (qc_transient qc) (fst raw) (snd raw))"

definition fetch :: "('x, 's, 'w) Exec \<Rightarrow> TableDef \<Rightarrow> Value list \<Rightarrow> KernelError + RawRow option" where
  "fetch ex t primary_key =
     rbind (read_row_body ex t primary_key) (\<lambda>body. Inr (map_option (\<lambda>b. (primary_key, b)) body))"

fun rows_loop :: "('x, 's, 'w) Exec \<Rightarrow> 's QueryCursor \<Rightarrow> kvs \<Rightarrow> (KernelError + Row option) \<times> kvs" where
  "rows_loop ex qc [] = (Inr None, [])"
| "rows_loop ex qc (kv # kvs) =
     (case fst (next_raw (qc_table qc) (kv # kvs)) of
        Inl e \<Rightarrow> (Inl e, kvs)
      | Inr None \<Rightarrow> (Inr None, kvs)
      | Inr (Some raw) \<Rightarrow>
          (case materialise_raw ex qc raw of
             Inl e \<Rightarrow> (Inl e, kvs)
           | Inr (Some row) \<Rightarrow> (Inr (Some row), kvs)
           | Inr None \<Rightarrow> rows_loop ex qc kvs))"

text \<open>Filling the pipeline of row reads, from keys that were given and from index entries.\<close>

fun fill_points ::
  "('x, 's, 'w) Exec \<Rightarrow> TableDef \<Rightarrow> nat \<Rightarrow> Value list list \<Rightarrow> inflight \<Rightarrow> bool \<Rightarrow> Value list list \<times> inflight \<times> bool" where
  "fill_points ex t prefetch keys inflight exhausted =
     (if \<not> exhausted \<and> length inflight < prefetch then
        (case keys of
           [] \<Rightarrow> ([], inflight, True)
         | key # keys \<Rightarrow> fill_points ex t prefetch keys (inflight @ [fetch ex t key]) exhausted)
      else (keys, inflight, exhausted))"

function fill_index ::
  "('x, 's, 'w) Exec \<Rightarrow> TableDef \<Rightarrow> IndexDef \<Rightarrow> ScanOrder \<Rightarrow> nat \<Rightarrow> kvs \<Rightarrow> KeyRange list \<Rightarrow> inflight \<Rightarrow> bool \<Rightarrow>
     (KernelError + unit) \<times> kvs \<times> KeyRange list \<times> inflight \<times> bool" where
  "fill_index ex t ix ord prefetch cur rest inflight exhausted =
     (if \<not> exhausted \<and> length inflight < prefetch then
        (case next_index_entry ex t ix ord cur rest of
           (Inl e, cur, rest) \<Rightarrow> (Inl e, cur, rest, inflight, exhausted)
         | (Inr None, cur, rest) \<Rightarrow> (Inr (), cur, rest, inflight, True)
         | (Inr (Some (_, primary_key)), cur, rest) \<Rightarrow>
             fill_index ex t ix ord prefetch cur rest (inflight @ [fetch ex t primary_key]) exhausted)
      else (Inr (), cur, rest, inflight, exhausted))"
  by pat_completeness auto
termination by (relation "measure (\<lambda>(_, _, _, _, prefetch, _, _, inflight, _). prefetch - length inflight)") auto

declare fill_points.simps [simp del] fill_index.simps [simp del]


section \<open>The pipeline shrinks\<close>

text \<open>What is left of an index walk: the entries of the open range and of the ranges to come.\<close>

definition entries_left :: "('x, 's, 'w) Exec \<Rightarrow> ScanOrder \<Rightarrow> kvs \<Rightarrow> KeyRange list \<Rightarrow> nat" where
  "entries_left ex ord cur rest =
     length cur + sum_list (map (\<lambda>r. case scan_store ex r ord of Inl _ \<Rightarrow> 0 | Inr kvs \<Rightarrow> length kvs) rest)"

lemma next_index_entry_simps [simp]:
  "next_index_entry ex t ix ord ((k, v) # kvs) rest =
     (rbind (decode_index_entry t ix k v) (\<lambda>e. Inr (Some e)), kvs, rest)"
  "next_index_entry ex t ix ord [] [] = (Inr None, [], [])"
  "next_index_entry ex t ix ord [] (r # rest) =
     (case scan_store ex r ord of
        Inl e \<Rightarrow> (Inl e, [], rest)
      | Inr kvs \<Rightarrow> next_index_entry ex t ix ord kvs rest)"
  by (subst next_index_entry.simps, cases "decode_index_entry t ix k v", simp_all)
    (subst next_index_entry.simps, simp)+

lemma next_index_entry_left:
  "next_index_entry ex t ix ord cur rest = (res, cur', rest') \<Longrightarrow>
     entries_left ex ord cur' rest' \<le> entries_left ex ord cur rest \<and>
     (\<forall>e. res = Inr (Some e) \<longrightarrow> entries_left ex ord cur' rest' < entries_left ex ord cur rest)"
proof (induction rest arbitrary: cur)
  case Nil
  then show ?case by (cases cur) (auto simp: entries_left_def)
next
  case (Cons r rest)
  show ?case
  proof (cases cur)
    case Nil
    then show ?thesis
      using Cons by (cases "scan_store ex r ord") (fastforce simp: entries_left_def)+
  qed (use Cons.prems in \<open>auto simp: entries_left_def\<close>)
qed

lemma fill_index_left:
  "fill_index ex t ix ord prefetch cur rest inflight exhausted = (res, cur', rest', inflight', exhausted') \<Longrightarrow>
     length inflight' + (if exhausted' then 0 else entries_left ex ord cur' rest')
       \<le> length inflight + (if exhausted then 0 else entries_left ex ord cur rest)"
proof (induction ex t ix ord prefetch cur rest inflight exhausted rule: fill_index.induct)
  case (1 ex t ix ord prefetch cur rest inflight exhausted)
  show ?case
  proof (cases "\<not> exhausted \<and> length inflight < prefetch")
    case True
    obtain res1 cur1 rest1 where step: "next_index_entry ex t ix ord cur rest = (res1, cur1, rest1)"
      by (metis prod_cases3)
    note less = next_index_entry_left [OF step]
    show ?thesis
    proof (cases res1)
      case (Inr found)
      show ?thesis
      proof (cases found)
        case (Some e)
        obtain vs pk where e: "e = (vs, pk)" by (cases e)
        have "length inflight' + (if exhausted' then 0 else entries_left ex ord cur' rest')
            \<le> length (inflight @ [fetch ex t pk]) + (if exhausted then 0 else entries_left ex ord cur1 rest1)"
          using "1.IH" [OF True step [symmetric] Inr Some e [symmetric] refl] "1.prems" True step Inr Some e
          by (simp add: fill_index.simps [of ex t ix ord prefetch cur])
        then show ?thesis using True less Inr Some by simp
      qed (use True step Inr less "1.prems" in \<open>auto simp: fill_index.simps [of ex t ix ord prefetch cur]\<close>)
    qed (use True step less "1.prems" in \<open>auto simp: fill_index.simps [of ex t ix ord prefetch cur]\<close>)
  qed (use "1.prems" in \<open>auto simp: fill_index.simps [of ex t ix ord prefetch cur]\<close>)
qed

lemma fill_points_left:
  "fill_points ex t prefetch ks inflight exhausted = (ks', inflight', exhausted') \<Longrightarrow>
     length inflight' + (if exhausted' then 0 else length ks') \<le> length inflight + (if exhausted then 0 else length ks)"
proof (induction ks arbitrary: inflight)
  case Nil
  then show ?case by (auto simp: fill_points.simps [of ex t prefetch "[]"] split: if_splits)
next
  case (Cons key ks)
  show ?case
  proof (cases "\<not> exhausted \<and> length inflight < prefetch")
    case True
    then show ?thesis using Cons by (simp add: fill_points.simps [of ex t prefetch "key # ks"]) fastforce
  qed (use Cons.prems in \<open>auto simp: fill_points.simps [of ex t prefetch "key # ks"]\<close>)
qed

section \<open>The next row\<close>

function points_loop ::
  "('x, 's, 'w) Exec \<Rightarrow> 's QueryCursor \<Rightarrow> Value list list \<Rightarrow> inflight \<Rightarrow> bool \<Rightarrow> (KernelError + Row option) \<times> Source" where
  "points_loop ex qc ks inflight exhausted =
     (case fill_points ex (qc_table qc) (qc_prefetch qc) ks inflight exhausted of (ks, inflight, exhausted) \<Rightarrow>
      case inflight of
        [] \<Rightarrow> (Inr None, Source_Points ks [] exhausted)
      | Inl e # inflight \<Rightarrow> (Inl e, Source_Points ks inflight exhausted)
      | Inr None # inflight \<Rightarrow> points_loop ex qc ks inflight exhausted
      | Inr (Some raw) # inflight \<Rightarrow>
          (case materialise_raw ex qc raw of
             Inl e \<Rightarrow> (Inl e, Source_Points ks inflight exhausted)
           | Inr (Some row) \<Rightarrow> (Inr (Some row), Source_Points ks inflight exhausted)
           | Inr None \<Rightarrow> points_loop ex qc ks inflight exhausted))"
  by pat_completeness auto
termination
  by (relation "measure (\<lambda>(_, _, ks, inflight, exhausted). length inflight + (if exhausted then 0 else length ks))")
    (auto dest!: fill_points_left [OF sym])

function index_loop ::
  "('x, 's, 'w) Exec \<Rightarrow> 's QueryCursor \<Rightarrow> IndexDef \<Rightarrow> ScanOrder \<Rightarrow> kvs \<Rightarrow> KeyRange list \<Rightarrow> inflight \<Rightarrow> bool \<Rightarrow>
     (KernelError + Row option) \<times> Source" where
  "index_loop ex qc ix ord cur rest inflight exhausted =
     (case fill_index ex (qc_table qc) ix ord (qc_prefetch qc) cur rest inflight exhausted of
        (Inl e, cur, rest, inflight, exhausted) \<Rightarrow> (Inl e, Source_Index ix cur rest ord inflight exhausted)
      | (Inr _, cur, rest, inflight, exhausted) \<Rightarrow>
          (case inflight of
             [] \<Rightarrow> (Inr None, Source_Index ix cur rest ord [] exhausted)
           | Inl e # inflight \<Rightarrow> (Inl e, Source_Index ix cur rest ord inflight exhausted)
           | Inr None # inflight \<Rightarrow>
               if ex_point_in_time ex
               then (Inl (CorruptIndexEntry (td_name (qc_table qc)) (ix_name ix)),
                     Source_Index ix cur rest ord inflight exhausted)
               else index_loop ex qc ix ord cur rest inflight exhausted
           | Inr (Some raw) # inflight \<Rightarrow>
               (case materialise_raw ex qc raw of
                  Inl e \<Rightarrow> (Inl e, Source_Index ix cur rest ord inflight exhausted)
                | Inr (Some row) \<Rightarrow> (Inr (Some row), Source_Index ix cur rest ord inflight exhausted)
                | Inr None \<Rightarrow> index_loop ex qc ix ord cur rest inflight exhausted)))"
  by pat_completeness auto
termination
  by (relation "measure (\<lambda>(ex, _, _, ord, cur, rest, inflight, exhausted).
        length inflight + (if exhausted then 0 else entries_left ex ord cur rest))")
    (auto dest!: fill_index_left [OF sym])

definition entry_row ::
  "('x, 's, 'w) Exec \<Rightarrow> 's QueryCursor \<Rightarrow> IndexDef \<Rightarrow> Value list \<Rightarrow> Value list \<Rightarrow> Row" where
  "entry_row ex qc ix indexed primary_key =
     (let row = row_from_index_entry (qc_table qc) ix indexed primary_key (qc_decode_columns qc);
          held = Option.bind (qc_from_entry qc) (\<lambda>position. map_option (\<lambda>v. (position, v)) (get indexed 0))
      in extend_row (ex_eval ex) row (qc_compute qc) (qc_transient qc) held)"

function covering_loop ::
  "('x, 's, 'w) Exec \<Rightarrow> 's QueryCursor \<Rightarrow> IndexDef \<Rightarrow> ScanOrder \<Rightarrow> kvs \<Rightarrow> KeyRange list \<Rightarrow>
     (KernelError + Row option) \<times> Source" where
  "covering_loop ex qc ix ord cur rest =
     (case next_index_entry ex (qc_table qc) ix ord cur rest of
        (Inl e, cur, rest) \<Rightarrow> (Inl e, Source_Covering ix cur rest ord)
      | (Inr None, cur, rest) \<Rightarrow> (Inr None, Source_Covering ix cur rest ord)
      | (Inr (Some (indexed, primary_key)), cur, rest) \<Rightarrow>
          if expr_admits (ex_env ex) (qc_residual qc) (entry_row ex qc ix indexed primary_key)
          then (Inr (Some (entry_row ex qc ix indexed primary_key)), Source_Covering ix cur rest ord)
          else covering_loop ex qc ix ord cur rest)"
  by pat_completeness auto
termination
  by (relation "measure (\<lambda>(ex, _, _, ord, cur, rest). entries_left ex ord cur rest)")
    (auto dest!: next_index_entry_left [OF sym])

declare points_loop.simps [simp del] index_loop.simps [simp del] covering_loop.simps [simp del]


fun sorted_loop :: "('x, 's, 'w) Exec \<Rightarrow> 's QueryCursor \<Rightarrow> Row list \<Rightarrow> (KernelError + Row option) \<times> Row list" where
  "sorted_loop ex qc [] = (Inr None, [])"
| "sorted_loop ex qc (row # rows) =
     (if expr_admits (ex_env ex) (qc_residual qc) row then (Inr (Some row), rows) else sorted_loop ex qc rows)"

definition next_admitted :: "('x, 's, 'w) Exec \<Rightarrow> 's QueryCursor \<Rightarrow> (KernelError + Row option) \<times> 's QueryCursor" where
  "next_admitted ex qc =
     (case (case qc_source qc of
              Source_Rows kvs \<Rightarrow> apsnd Source_Rows (rows_loop ex qc kvs)
            | Source_Points ks inflight exhausted \<Rightarrow> points_loop ex qc ks inflight exhausted
            | Source_Index ix cur rest ord inflight exhausted \<Rightarrow> index_loop ex qc ix ord cur rest inflight exhausted
            | Source_Covering ix cur rest ord \<Rightarrow> covering_loop ex qc ix ord cur rest
            | Source_Sorted rows \<Rightarrow> apsnd Source_Sorted (sorted_loop ex qc rows)
            | Source_Point found \<Rightarrow>
                (case found of
                   None \<Rightarrow> (Inr None, Source_Point None)
                 | Some row \<Rightarrow>
                     let row = extend_row (ex_eval ex) row (qc_compute qc) (qc_transient qc) None
                     in (Inr (if expr_admits (ex_env ex) (qc_residual qc) row then Some row else None), Source_Point None))
            | Source_Empty \<Rightarrow> (Inr None, Source_Empty)) of
        (res, src) \<Rightarrow> (res, qc\<lparr>qc_source := src\<rparr>))"

definition source_left :: "('x, 's, 'w) Exec \<Rightarrow> Source \<Rightarrow> nat" where
  "source_left ex src =
     (case src of
        Source_Rows kvs \<Rightarrow> length kvs
      | Source_Points ks inflight exhausted \<Rightarrow> length inflight + (if exhausted then 0 else length ks)
      | Source_Index ix cur rest ord inflight exhausted \<Rightarrow>
          length inflight + (if exhausted then 0 else entries_left ex ord cur rest)
      | Source_Covering ix cur rest ord \<Rightarrow> entries_left ex ord cur rest
      | Source_Sorted rows \<Rightarrow> length rows
      | Source_Point found \<Rightarrow> (if found = None then 0 else 1)
      | Source_Empty \<Rightarrow> 0)"

lemma rows_loop_left: "rows_loop ex qc kvs = (Inr (Some row), kvs') \<Longrightarrow> length kvs' < length kvs"
  by (induction kvs) (auto split: sum.splits option.splits)

lemma sorted_loop_left: "sorted_loop ex qc rows = (Inr (Some row), rows') \<Longrightarrow> length rows' < length rows"
  by (induction rows) (auto split: if_splits)

lemma points_loop_left:
  "points_loop ex qc ks inflight exhausted = (Inr (Some row), src) \<Longrightarrow>
     source_left ex src < source_left ex (Source_Points ks inflight exhausted)"
proof (induction ex qc ks inflight exhausted rule: points_loop.induct)
  case (1 ex qc ks inflight exhausted)
  obtain ks1 in1 ex1 where fill: "fill_points ex (qc_table qc) (qc_prefetch qc) ks inflight exhausted = (ks1, in1, ex1)"
    by (metis prod_cases3)
  note prems = "1.prems" [unfolded points_loop.simps [of ex qc ks inflight exhausted] fill prod.case]
  obtain found in2 where in1: "in1 = Inr found # in2" using prems by (auto split: list.splits sum.splits)
  have "source_left ex src < Suc (source_left ex (Source_Points ks1 in2 ex1))"
  proof (cases found)
    case None
    then have "points_loop ex qc ks1 in2 ex1 = (Inr (Some row), src)" using prems in1 by simp
    from "1.IH"(1) [OF fill [symmetric] refl in1 refl None this] show ?thesis by simp
  next
    case (Some raw)
    show ?thesis
    proof (cases "materialise_raw ex qc raw")
      case (Inr got)
      show ?thesis
      proof (cases got)
        case None
        then have "points_loop ex qc ks1 in2 ex1 = (Inr (Some row), src)" using prems in1 Some Inr by simp
        from "1.IH"(2) [OF fill [symmetric] refl in1 refl Some Inr None this] show ?thesis by simp
      qed (use prems in1 Some Inr in simp)
    qed (use prems in1 Some in simp)
  qed
  then show ?case using fill_points_left [OF fill] in1 by (simp add: source_left_def)
qed

lemma index_loop_left:
  "index_loop ex qc ix ord cur rest inflight exhausted = (Inr (Some row), src) \<Longrightarrow>
     source_left ex src < source_left ex (Source_Index ix cur rest ord inflight exhausted)"
proof (induction ex qc ix ord cur rest inflight exhausted rule: index_loop.induct)
  case (1 ex qc ix ord cur rest inflight exhausted)
  obtain res cur1 rest1 in1 ex1 where
    fill: "fill_index ex (qc_table qc) ix ord (qc_prefetch qc) cur rest inflight exhausted = (res, cur1, rest1, in1, ex1)"
    by (metis prod_cases5)
  note prems = "1.prems" [unfolded index_loop.simps [of ex qc ix ord cur rest inflight exhausted] fill prod.case]
  obtain u found in2 where in1: "res = Inr u" "in1 = Inr found # in2" using prems by (auto split: list.splits sum.splits)
  have fill': "(Inr u, cur1, rest1, in1, ex1) = fill_index ex (qc_table qc) ix ord (qc_prefetch qc) cur rest inflight exhausted"
    using fill in1(1) by simp
  have "source_left ex src < Suc (source_left ex (Source_Index ix cur1 rest1 ord in2 ex1))"
  proof (cases found)
    case None
    then have "\<not> ex_point_in_time ex" "index_loop ex qc ix ord cur1 rest1 in2 ex1 = (Inr (Some row), src)"
      using prems in1 by (simp_all split: if_splits)
    from "1.IH"(1) [OF fill' refl refl refl refl in1(2) refl None this] show ?thesis by simp
  next
    case (Some raw)
    show ?thesis
    proof (cases "materialise_raw ex qc raw")
      case (Inr got)
      show ?thesis
      proof (cases got)
        case None
        then have "index_loop ex qc ix ord cur1 rest1 in2 ex1 = (Inr (Some row), src)" using prems in1 Some Inr by simp
        from "1.IH"(2) [OF fill' refl refl refl refl in1(2) refl Some Inr None this] show ?thesis by simp
      qed (use prems in1 Some Inr in simp)
    qed (use prems in1 Some in simp)
  qed
  then show ?case using fill_index_left [OF fill] in1 by (simp add: source_left_def)
qed

lemma covering_loop_left:
  "covering_loop ex qc ix ord cur rest = (Inr (Some row), src) \<Longrightarrow>
     source_left ex src < source_left ex (Source_Covering ix cur rest ord)"
proof (induction ex qc ix ord cur rest rule: covering_loop.induct)
  case (1 ex qc ix ord cur rest)
  obtain res cur1 rest1 where step: "next_index_entry ex (qc_table qc) ix ord cur rest = (res, cur1, rest1)"
    by (metis prod_cases3)
  note prems = "1.prems" [unfolded covering_loop.simps [of ex qc ix ord cur rest] step prod.case]
  obtain indexed pk where res: "res = Inr (Some (indexed, pk))" using prems by (auto split: sum.splits option.splits)
  have less: "source_left ex (Source_Covering ix cur1 rest1 ord) < source_left ex (Source_Covering ix cur rest ord)"
    using next_index_entry_left [OF step] res by (simp add: source_left_def)
  have "source_left ex src \<le> source_left ex (Source_Covering ix cur1 rest1 ord)"
  proof (cases "expr_admits (ex_env ex) (qc_residual qc) (entry_row ex qc ix indexed pk)")
    case False
    then show ?thesis
      using prems res "1.IH" [OF step [symmetric] res refl refl refl] by simp
  qed (use prems res in auto)
  then show ?case using less by simp
qed


lemma next_admitted_qc:
  assumes "next_admitted ex qc = (res, qc')"
  shows "\<exists>src. qc' = qc\<lparr>qc_source := src\<rparr>"
  using assms by (auto simp: next_admitted_def split: prod.splits)

lemma next_admitted_left:
  assumes "next_admitted ex qc = (Inr (Some row), qc')"
  shows "source_left ex (qc_source qc') < source_left ex (qc_source qc)"
proof (cases "qc_source qc")
  case (Source_Rows kvs)
  then show ?thesis using assms rows_loop_left [of ex qc kvs row]
    by (auto simp: next_admitted_def source_left_def apsnd_def map_prod_def split: prod.splits)
next
  case (Source_Sorted rows)
  then show ?thesis using assms sorted_loop_left [of ex qc rows row]
    by (auto simp: next_admitted_def source_left_def apsnd_def map_prod_def split: prod.splits)
next
  case (Source_Point found)
  then show ?thesis using assms
    by (auto simp: next_admitted_def source_left_def Let_def split: option.splits if_splits)
next
  case (Source_Points ks inflight exhausted)
  then show ?thesis using assms points_loop_left [of ex qc] by (auto simp: next_admitted_def split: prod.splits)
next
  case (Source_Index ix cur rest ord inflight exhausted)
  then show ?thesis using assms index_loop_left [of ex qc] by (auto simp: next_admitted_def split: prod.splits)
next
  case (Source_Covering ix cur rest ord)
  then show ?thesis using assms covering_loop_left [of ex qc] by (auto simp: next_admitted_def split: prod.splits)
qed (use assms in \<open>simp add: next_admitted_def\<close>)

section \<open>Draining a cursor\<close>

function next_loop :: "('x, 's, 'w) Exec \<Rightarrow> 's QueryCursor \<Rightarrow> (KernelError + Row option) \<times> 's QueryCursor" where
  "next_loop ex qc =
     (case next_admitted ex qc of
        (Inl e, qc) \<Rightarrow> (Inl e, qc)
      | (Inr None, qc) \<Rightarrow> (Inr None, qc)
      | (Inr (Some row), qc) \<Rightarrow>
          if qc_skipped qc < qc_offset qc then next_loop ex (qc\<lparr>qc_skipped := qc_skipped qc + 1\<rparr>)
          else (Inr (Some (conceal row (qc_concealed qc))), qc\<lparr>qc_yielded := qc_yielded qc + 1\<rparr>))"
  by pat_completeness auto
termination
  by (relation "measure (\<lambda>(ex, qc). source_left ex (qc_source qc))") (auto dest!: next_admitted_left [OF sym])

declare next_loop.simps [simp del]

definition next_row :: "('x, 's, 'w) Exec \<Rightarrow> 's QueryCursor \<Rightarrow> (KernelError + Row option) \<times> 's QueryCursor" where
  "next_row ex qc = (if is_some_and (\<lambda>l. l \<le> qc_yielded qc) (qc_limit qc) then (Inr None, qc) else next_loop ex qc)"

lemma next_loop_left:
  "next_loop ex qc = (Inr (Some row), qc') \<Longrightarrow> source_left ex (qc_source qc') < source_left ex (qc_source qc)"
proof (induction ex qc rule: next_loop.induct)
  case (1 ex qc)
  obtain res qc1 where step: "next_admitted ex qc = (res, qc1)" by (metis surj_pair)
  note prems = "1.prems" [unfolded next_loop.simps [of ex qc] step prod.case]
  obtain r where r: "res = Inr (Some r)" using prems by (auto split: sum.splits option.splits)
  have less: "source_left ex (qc_source qc1) < source_left ex (qc_source qc)"
    using next_admitted_left step r by blast
  show ?case
  proof (cases "qc_skipped qc1 < qc_offset qc1")
    case True
    then have "source_left ex (qc_source qc') < source_left ex (qc_source (qc1\<lparr>qc_skipped := qc_skipped qc1 + 1\<rparr>))"
      using "1.IH" [OF step [symmetric] r refl True] prems r by simp
    then show ?thesis using less by simp
  next
    case False
    then have "qc_source qc' = qc_source qc1" using prems r by auto
    then show ?thesis using less by simp
  qed
qed

function collect_loop :: "('x, 's, 'w) Exec \<Rightarrow> 's QueryCursor \<Rightarrow> Row list \<Rightarrow> KernelError + Row list" where
  "collect_loop ex qc out =
     (case next_row ex qc of
        (Inl e, _) \<Rightarrow> Inl e
      | (Inr None, _) \<Rightarrow> Inr out
      | (Inr (Some row), qc) \<Rightarrow> collect_loop ex qc (out @ [row]))"
  by pat_completeness auto
termination
  by (relation "measure (\<lambda>(ex, qc, _). source_left ex (qc_source qc))")
    (auto simp: next_row_def dest!: next_loop_left [OF sym] split: if_splits)

declare collect_loop.simps [simp del]

definition collect_rows :: "('x, 's, 'w) Exec \<Rightarrow> 's QueryCursor \<Rightarrow> KernelError + Row list" where
  "collect_rows ex qc = collect_loop ex qc []"

function count_loop :: "('x, 's, 'w) Exec \<Rightarrow> 's QueryCursor \<Rightarrow> nat \<Rightarrow> KernelError + nat" where
  "count_loop ex qc n =
     (case next_row ex qc of
        (Inl e, _) \<Rightarrow> Inl e
      | (Inr None, _) \<Rightarrow> Inr n
      | (Inr (Some row), qc) \<Rightarrow> count_loop ex qc (n + 1))"
  by pat_completeness auto
termination
  by (relation "measure (\<lambda>(ex, qc, _). source_left ex (qc_source qc))")
    (auto simp: next_row_def dest!: next_loop_left [OF sym] split: if_splits)

declare count_loop.simps [simp del]

definition count_rows :: "('x, 's, 'w) Exec \<Rightarrow> 's QueryCursor \<Rightarrow> KernelError + nat" where
  "count_rows ex qc = count_loop ex qc 0"

text \<open>Rows collected under a ceiling, whose error is the one given.\<close>

function admitted_loop ::
  "('x, 's, 'w) Exec \<Rightarrow> nat \<Rightarrow> KernelError \<Rightarrow> 's QueryCursor \<Rightarrow> Row list \<Rightarrow> KernelError + (Row list \<times> 's QueryCursor)" where
  "admitted_loop ex ceiling too_many qc rows =
     (case next_admitted ex qc of
        (Inl e, _) \<Rightarrow> Inl e
      | (Inr None, qc) \<Rightarrow> Inr (rows, qc)
      | (Inr (Some row), qc) \<Rightarrow>
          if ceiling \<le> length rows then Inl too_many
          else admitted_loop ex ceiling too_many qc (rows @ [row]))"
  by pat_completeness auto
termination
  by (relation "measure (\<lambda>(ex, _, _, qc, _). source_left ex (qc_source qc))")
    (auto dest!: next_admitted_left [OF sym])

text \<open>The best rows of a sort under a limit: a heap that drops its greatest row when it is over.\<close>

function heap_loop ::
  "('x, 's, 'w) Exec \<Rightarrow> (Row \<Rightarrow> Row \<Rightarrow> ordering) \<Rightarrow> nat \<Rightarrow> 's QueryCursor \<Rightarrow> Row list \<Rightarrow> KernelError + (Row list \<times> 's QueryCursor)" where
  "heap_loop ex cmp window qc heap =
     (case next_admitted ex qc of
        (Inl e, _) \<Rightarrow> Inl e
      | (Inr None, qc) \<Rightarrow> Inr (heap, qc)
      | (Inr (Some row), qc) \<Rightarrow>
          let heap = row # heap
          in heap_loop ex cmp window qc (if window < length heap then snd (ex_pop ex cmp heap) else heap))"
  by pat_completeness auto
termination
  by (relation "measure (\<lambda>(ex, _, _, qc, _). source_left ex (qc_source qc))")
    (auto dest!: next_admitted_left [OF sym])

declare admitted_loop.simps [simp del] heap_loop.simps [simp del]

fun drain_heap :: "('x, 's, 'w) Exec \<Rightarrow> (Row \<Rightarrow> Row \<Rightarrow> ordering) \<Rightarrow> nat \<Rightarrow> Row list \<Rightarrow> Row list" where
  "drain_heap ex cmp 0 heap = []"
| "drain_heap ex cmp (Suc n) heap = (case ex_pop ex cmp heap of (row, heap) \<Rightarrow> row # drain_heap ex cmp n heap)"

definition top_n ::
  "('x, 's, 'w) Exec \<Rightarrow> nat \<Rightarrow> SortKey list \<Rightarrow> 's QueryCursor \<Rightarrow> KernelError + (Row list \<times> 's QueryCursor)" where
  "top_n ex window sort_keys qc =
     (let cmp = (\<lambda>a b. compare_rows a b sort_keys) in
      rbind (heap_loop ex cmp window qc []) (\<lambda>(heap, qc).
      Inr (rev (drain_heap ex cmp (length heap) heap), qc)))"

section \<open>Opening a cursor\<close>

definition saturating_add :: "nat \<Rightarrow> nat \<Rightarrow> nat" where
  "saturating_add a b = min (a + b) (2 ^ 64 - 1)"

text \<open>The columns computed values read are decoded too, and remembered to be put back to null.\<close>

definition decode_inputs ::
  "'s Planner \<Rightarrow> nat \<Rightarrow> 's list \<Rightarrow> ColumnSet \<Rightarrow> ColumnSet \<times> Ordinal list" where
  "decode_inputs pn width compute output_columns =
     fold (\<lambda>input (decode_columns, transient).
         if width \<le> input \<or> ColumnSet_contains decode_columns input then (decode_columns, transient)
         else (ColumnSet_insert input decode_columns, transient @ [input]))
       (concat (map (\<lambda>s. sorted_list_of_set (pn_columns pn s)) compute)) (output_columns, [])"

definition index_source ::
  "('x, 's, 'w) Exec \<Rightarrow> TableDef \<Rightarrow> IndexId \<Rightarrow> KeyRange list \<Rightarrow> bool \<Rightarrow> ScanOrder \<Rightarrow> KernelError + Source" where
  "index_source ex t i ranges covering ord =
     rbind (ok_or (UnknownTable (td_id t)) (td_index t i)) (\<lambda>ix.
     case ranges of
       [] \<Rightarrow> Inr Source_Empty
     | first # rest \<Rightarrow>
         rbind (scan_store ex first ord) (\<lambda>cur.
         Inr (if covering then Source_Covering ix cur rest ord else Source_Index ix cur rest ord [] False)))"

definition open_source ::
  "('x, 's, 'w) Exec \<Rightarrow> TableDef \<Rightarrow> Plan \<Rightarrow> ColumnSet \<Rightarrow> KernelError + Source" where
  "open_source ex t plan decode_columns =
     (case pl_access plan of
        Access_Nothing \<Rightarrow> Inr Source_Empty
      | PointGet key \<Rightarrow> rbind (read_row_projected ex t key decode_columns) (\<lambda>found. Inr (Source_Point found))
      | PointGets ks \<Rightarrow> Inr (Source_Points ks [] False)
      | TableScan r \<Rightarrow> rbind (scan_store ex r (pl_order plan)) (\<lambda>kvs. Inr (Source_Rows kvs))
      | IndexScan i r covering \<Rightarrow> index_source ex t i [r] covering (pl_order plan)
      | IndexScans i ranges covering \<Rightarrow>
          index_source ex t i (case pl_order plan of Ascending \<Rightarrow> ranges | Descending \<Rightarrow> rev ranges) covering
            (pl_order plan))"

definition plan_from_entry :: "'s Planner \<Rightarrow> TableDef \<Rightarrow> Plan \<Rightarrow> 's list \<Rightarrow> nat option" where
  "plan_from_entry pn t plan compute =
     (case pl_access plan of
        IndexScan i _ True \<Rightarrow> Option.bind (td_index t i) (\<lambda>ix. expression_position pn ix compute)
      | IndexScans i _ True \<Rightarrow> Option.bind (td_index t i) (\<lambda>ix. expression_position pn ix compute)
      | _ \<Rightarrow> None)"

definition initial_cursor ::
  "'s Planner \<Rightarrow> TableDef \<Rightarrow> Plan \<Rightarrow> 's list \<Rightarrow> Source \<Rightarrow> 's QueryCursor" where
  "initial_cursor pn t plan compute src =
     (let (decode_columns, transient) = decode_inputs pn (length (td_columns t)) compute (pl_output_columns plan)
      in \<lparr>qc_table = t, qc_source = src, qc_residual = pl_residual plan,
          qc_filter_columns = pl_predicate_columns plan, qc_decode_columns = decode_columns,
          qc_two_phase = (pl_filter_first plan \<and> \<not> contains_all (pl_predicate_columns plan) decode_columns),
          qc_transient = transient, qc_concealed = pl_concealed plan,
          qc_from_entry = plan_from_entry pn t plan compute, qc_compute = compute,
          qc_prefetch = DEFAULT_PREFETCH, qc_limit = None, qc_offset = 0, qc_skipped = 0, qc_yielded = 0\<rparr>)"

definition hand_out :: "Row list \<Rightarrow> 's QueryCursor \<Rightarrow> 's QueryCursor" where
  "hand_out rows qc = qc\<lparr>qc_source := Source_Sorted rows, qc_residual := Expr_True\<rparr>"

definition open_cursor ::
  "('x, 's, 'w) Exec \<Rightarrow> 's Planner \<Rightarrow> ExecutionLimits \<Rightarrow> TableDef \<Rightarrow> Plan \<Rightarrow> ('s, 'w) Query \<Rightarrow>
     KernelError + 's QueryCursor" where
  "open_cursor ex pn limits t plan q =
     (if max_in_values limits < widest_in_list (q_filter q)
      then Inl (InListTooLarge (max_in_values limits) (widest_in_list (q_filter q)))
      else
        let decode_columns = fst (decode_inputs pn (length (td_columns t)) (q_compute q) (pl_output_columns plan)) in
        rbind (open_source ex t plan decode_columns) (\<lambda>src.
        let qc = initial_cursor pn t plan (q_compute q) src in
        if q_window q \<noteq> [] then
          rbind (admitted_loop ex (max_window_rows limits) (WindowTooLarge (max_window_rows limits)) qc [])
            (\<lambda>(rows, qc).
          rbind (ex_windows ex (q_window q) rows) (\<lambda>rows.
          Inr (hand_out (case pl_sort plan of
                           None \<Rightarrow> rows
                         | Some sort_keys \<Rightarrow> sort_by (\<lambda>a b. compare_rows a b sort_keys) rows) qc)))
        else
          (case pl_sort plan of
             None \<Rightarrow> Inr qc
           | Some sort_keys \<Rightarrow>
               (case map_option (\<lambda>l. saturating_add l (q_offset q)) (q_limit q) of
                  Some window \<Rightarrow>
                    if 0 < window
                    then rbind (top_n ex window sort_keys qc) (\<lambda>(rows, qc). Inr (hand_out rows qc))
                    else Inr (hand_out [] qc)
                | None \<Rightarrow>
                    rbind (admitted_loop ex (max_sort_rows limits) (SortTooLarge (max_sort_rows limits)) qc [])
                      (\<lambda>(rows, qc).
                    Inr (hand_out (sort_by (\<lambda>a b. compare_rows a b sort_keys) rows) qc))))))"

definition with_window :: "nat option \<Rightarrow> nat \<Rightarrow> 's QueryCursor \<Rightarrow> 's QueryCursor" where
  "with_window limit offset qc =
     (let qc = qc\<lparr>qc_limit := limit, qc_offset := offset\<rparr> in
      case limit of
        None \<Rightarrow> qc
      | Some l \<Rightarrow>
          let window = saturating_add l offset in
          if 0 < window \<and> window < qc_prefetch qc then qc\<lparr>qc_prefetch := window\<rparr> else qc)"

end
