(* ===== verification/Query_Stream.thy ===== *)
theory Query_Stream
  imports Query_Exec "HOL-Library.Multiset"
begin

text \<open>
  What a cursor yields. The rows a source has yet to yield are a function of the source: the loops of
  the executor step through that list, whatever is in flight and however far ahead the pipeline reads,
  so draining a cursor gives its window of the list, counting gives the window's length, a sort gives a
  sorted arrangement of it, and the bounded heap the first rows of one.
\<close>

section \<open>Lists of fallible\<close>

primrec outcomes :: "('a \<Rightarrow> KernelError + 'b option) \<Rightarrow> 'a list \<Rightarrow> KernelError + 'b list" where
  "outcomes f [] = Inr []"
| "outcomes f (x # xs) =
     rbind (f x) (\<lambda>found. rbind (outcomes f xs) (\<lambda>ys. Inr (case found of None \<Rightarrow> ys | Some y \<Rightarrow> y # ys)))"

lemma outcomes_append:
  "outcomes f (xs @ ys) = rbind (outcomes f xs) (\<lambda>as. rbind (outcomes f ys) (\<lambda>bs. Inr (as @ bs)))"
  by (induction xs) (auto simp: rbind_def split: sum.splits option.splits)

lemma outcomes_ok: "(\<And>x. x \<in> set xs \<Longrightarrow> f x = Inr (out x)) \<Longrightarrow> outcomes f xs = Inr (List.map_filter out xs)"
  by (induction xs) (auto simp: List.map_filter_simps split: option.split)

lemma outcomes_cong: "(\<And>x. x \<in> set xs \<Longrightarrow> f x = g x) \<Longrightarrow> outcomes f xs = outcomes g xs"
  by (induction xs) auto

section \<open>The rows a source has yet to yield\<close>

definition row_step :: "('x, 's, 'w) Exec \<Rightarrow> 's QueryCursor \<Rightarrow> bytes \<times> bytes \<Rightarrow> KernelError + Row option" where
  "row_step ex qc kv = rbind (decode_row_key (qc_table qc) (fst kv)) (\<lambda>pk. materialise_raw ex qc (pk, snd kv))"

definition read_step ::
  "('x, 's, 'w) Exec \<Rightarrow> 's QueryCursor \<Rightarrow> (KernelError + Row option) \<Rightarrow> (KernelError + RawRow option) \<Rightarrow>
     KernelError + Row option" where
  "read_step ex qc missing read =
     rbind read (\<lambda>found. case found of None \<Rightarrow> missing | Some raw \<Rightarrow> materialise_raw ex qc raw)"

definition missing_row :: "('x, 's, 'w) Exec \<Rightarrow> TableDef \<Rightarrow> IndexDef \<Rightarrow> KernelError + Row option" where
  "missing_row ex t ix =
     (if ex_point_in_time ex then Inl (CorruptIndexEntry (td_name t) (ix_name ix)) else Inr None)"

definition admitted :: "('x, 's, 'w) Exec \<Rightarrow> 's QueryCursor \<Rightarrow> Row list \<Rightarrow> Row list" where
  "admitted ex qc = filter (expr_admits (ex_env ex) (qc_residual qc))"

definition all_entries ::
  "('x, 's, 'w) Exec \<Rightarrow> TableDef \<Rightarrow> IndexDef \<Rightarrow> ScanOrder \<Rightarrow> kvs \<Rightarrow> KeyRange list \<Rightarrow>
     KernelError + (Value list \<times> Value list) list" where
  "all_entries ex t ix ord cur rest =
     rbind (outcomes (\<lambda>r. rbind (scan_store ex r ord) (\<lambda>kvs. Inr (Some kvs))) rest) (\<lambda>kvss.
     outcomes (\<lambda>(k, v). rbind (decode_index_entry t ix k v) (\<lambda>e. Inr (Some e))) (cur @ concat kvss))"

definition source_yields :: "('x, 's, 'w) Exec \<Rightarrow> 's QueryCursor \<Rightarrow> Row list \<Rightarrow> bool" where
  "source_yields ex qc rows \<longleftrightarrow>
     (case qc_source qc of
        Source_Rows kvs \<Rightarrow> outcomes (row_step ex qc) kvs = Inr rows
      | Source_Points ks inflight exhausted \<Rightarrow>
          outcomes (read_step ex qc (Inr None))
            (inflight @ (if exhausted then [] else map (fetch ex (qc_table qc)) ks)) = Inr rows
      | Source_Index ix cur rest ord inflight exhausted \<Rightarrow>
          (\<exists>es. (\<not> exhausted \<longrightarrow> all_entries ex (qc_table qc) ix ord cur rest = Inr es) \<and>
             outcomes (read_step ex qc (missing_row ex (qc_table qc) ix))
               (inflight @ (if exhausted then [] else map (\<lambda>e. fetch ex (qc_table qc) (snd e)) es)) = Inr rows)
      | Source_Covering ix cur rest ord \<Rightarrow>
          (\<exists>es. all_entries ex (qc_table qc) ix ord cur rest = Inr es \<and>
             rows = admitted ex qc (map (\<lambda>e. entry_row ex qc ix (fst e) (snd e)) es))
      | Source_Sorted rs \<Rightarrow> rows = admitted ex qc rs
      | Source_Point found \<Rightarrow>
          rows = admitted ex qc (case found of
            None \<Rightarrow> [] | Some r \<Rightarrow> [extend_row (ex_eval ex) r (qc_compute qc) (qc_transient qc) None])
      | Source_Empty \<Rightarrow> rows = [])"

text \<open>None of these depend on the source or on the window.\<close>

lemma materialise_raw_window [simp]:
  "materialise_raw ex (qc\<lparr>qc_source := src\<rparr>) = materialise_raw ex qc"
  "materialise_raw ex (qc\<lparr>qc_skipped := n\<rparr>) = materialise_raw ex qc"
  "materialise_raw ex (qc\<lparr>qc_yielded := n\<rparr>) = materialise_raw ex qc"
  "materialise_raw ex (qc\<lparr>qc_limit := l\<rparr>) = materialise_raw ex qc"
  "materialise_raw ex (qc\<lparr>qc_offset := n\<rparr>) = materialise_raw ex qc"
  "materialise_raw ex (qc\<lparr>qc_prefetch := n\<rparr>) = materialise_raw ex qc"
  "materialise_raw ex (qc\<lparr>qc_concealed := os\<rparr>) = materialise_raw ex qc"
  by (simp_all add: fun_eq_iff materialise_raw_def)

lemma entry_row_window [simp]:
  "entry_row ex (qc\<lparr>qc_source := src\<rparr>) = entry_row ex qc"
  "entry_row ex (qc\<lparr>qc_skipped := n\<rparr>) = entry_row ex qc"
  "entry_row ex (qc\<lparr>qc_yielded := n\<rparr>) = entry_row ex qc"
  "entry_row ex (qc\<lparr>qc_limit := l\<rparr>) = entry_row ex qc"
  "entry_row ex (qc\<lparr>qc_offset := n\<rparr>) = entry_row ex qc"
  "entry_row ex (qc\<lparr>qc_prefetch := n\<rparr>) = entry_row ex qc"
  "entry_row ex (qc\<lparr>qc_concealed := os\<rparr>) = entry_row ex qc"
  by (simp_all add: fun_eq_iff entry_row_def)

lemma row_step_window [simp]:
  "row_step ex (qc\<lparr>qc_source := src\<rparr>) = row_step ex qc"
  "row_step ex (qc\<lparr>qc_skipped := n\<rparr>) = row_step ex qc"
  "row_step ex (qc\<lparr>qc_yielded := n\<rparr>) = row_step ex qc"
  "row_step ex (qc\<lparr>qc_limit := l\<rparr>) = row_step ex qc"
  "row_step ex (qc\<lparr>qc_offset := n\<rparr>) = row_step ex qc"
  "row_step ex (qc\<lparr>qc_prefetch := n\<rparr>) = row_step ex qc"
  "row_step ex (qc\<lparr>qc_concealed := os\<rparr>) = row_step ex qc"
  by (simp_all add: fun_eq_iff row_step_def)

lemma read_step_window [simp]:
  "read_step ex (qc\<lparr>qc_source := src\<rparr>) = read_step ex qc"
  "read_step ex (qc\<lparr>qc_skipped := n\<rparr>) = read_step ex qc"
  "read_step ex (qc\<lparr>qc_yielded := n\<rparr>) = read_step ex qc"
  "read_step ex (qc\<lparr>qc_limit := l\<rparr>) = read_step ex qc"
  "read_step ex (qc\<lparr>qc_offset := n\<rparr>) = read_step ex qc"
  "read_step ex (qc\<lparr>qc_prefetch := n\<rparr>) = read_step ex qc"
  "read_step ex (qc\<lparr>qc_concealed := os\<rparr>) = read_step ex qc"
  by (simp_all add: fun_eq_iff read_step_def rbind_def split: sum.split option.split)

lemma admitted_window [simp]:
  "admitted ex (qc\<lparr>qc_source := src\<rparr>) = admitted ex qc"
  "admitted ex (qc\<lparr>qc_skipped := n\<rparr>) = admitted ex qc"
  "admitted ex (qc\<lparr>qc_yielded := n\<rparr>) = admitted ex qc"
  "admitted ex (qc\<lparr>qc_limit := l\<rparr>) = admitted ex qc"
  "admitted ex (qc\<lparr>qc_offset := n\<rparr>) = admitted ex qc"
  "admitted ex (qc\<lparr>qc_prefetch := n\<rparr>) = admitted ex qc"
  "admitted ex (qc\<lparr>qc_concealed := os\<rparr>) = admitted ex qc"
  by (simp_all add: fun_eq_iff admitted_def)

lemma source_yields_window [simp]:
  "source_yields ex (qc\<lparr>qc_skipped := n\<rparr>) rows = source_yields ex qc rows"
  "source_yields ex (qc\<lparr>qc_yielded := n\<rparr>) rows = source_yields ex qc rows"
  "source_yields ex (qc\<lparr>qc_limit := l\<rparr>) rows = source_yields ex qc rows"
  "source_yields ex (qc\<lparr>qc_offset := n\<rparr>) rows = source_yields ex qc rows"
  "source_yields ex (qc\<lparr>qc_prefetch := n\<rparr>) rows = source_yields ex qc rows"
  "source_yields ex (qc\<lparr>qc_concealed := os\<rparr>) rows = source_yields ex qc rows"
  "source_yields ex (qc\<lparr>qc_skipped := n, qc_source := src\<rparr>) rows = source_yields ex (qc\<lparr>qc_source := src\<rparr>) rows"
  by (simp_all add: source_yields_def split: Source.split option.split)

section \<open>One step\<close>

lemma rows_loop_step:
  "outcomes (row_step ex qc) kvs = Inr rows \<Longrightarrow>
     \<exists>kvs'. rows_loop ex qc kvs = (Inr (case rows of [] \<Rightarrow> None | r # _ \<Rightarrow> Some r), kvs') \<and>
       (rows \<noteq> [] \<longrightarrow> outcomes (row_step ex qc) kvs' = Inr (tl rows))"
proof (induction kvs)
  case (Cons kv kvs)
  obtain k v where kv: "kv = (k, v)" by (cases kv)
  show ?case using Cons
    by (auto simp: kv row_step_def rbind_def split: sum.splits option.splits)
qed simp

lemma sorted_loop_step:
  "\<exists>rs'. sorted_loop ex qc rs = (Inr (case admitted ex qc rs of [] \<Rightarrow> None | r # _ \<Rightarrow> Some r), rs') \<and>
     (admitted ex qc rs \<noteq> [] \<longrightarrow> admitted ex qc rs' = tl (admitted ex qc rs))"
  by (induction rs) (auto simp: admitted_def)

lemma next_index_entry_step:
  "all_entries ex t ix ord cur rest = Inr es \<Longrightarrow>
     \<exists>cur' rest'. next_index_entry ex t ix ord cur rest = (Inr (case es of [] \<Rightarrow> None | e # _ \<Rightarrow> Some e), cur', rest') \<and>
       (es \<noteq> [] \<longrightarrow> all_entries ex t ix ord cur' rest' = Inr (tl es))"
proof (induction rest arbitrary: cur)
  case Nil
  show ?case
  proof (cases cur)
    case (Cons kv kvs)
    then show ?thesis using Nil
      by (cases kv; intro exI [of _ kvs] exI [of _ "[]"]) (auto simp: all_entries_def rbind_def split: sum.splits)
  qed (use Nil in \<open>simp add: all_entries_def\<close>)
next
  case (Cons r rest)
  show ?case
  proof (cases cur)
    case Nil
    then obtain kvs where scan: "scan_store ex r ord = Inr kvs" "all_entries ex t ix ord kvs rest = Inr es"
      using Cons.prems by (auto simp: all_entries_def rbind_def split: sum.splits)
    from Cons.IH [OF scan(2)] scan(1) Nil show ?thesis by simp
  next
    case (Cons kv kvs)
    then show ?thesis using Cons.prems
      by (cases kv; intro exI [of _ kvs] exI [of _ "r # rest"]) (auto simp: all_entries_def rbind_def split: sum.splits)
  qed
qed

lemma fill_points_step:
  assumes "0 < prefetch"
  shows "\<exists>ks' inflight' exhausted'. fill_points ex t prefetch ks inflight exhausted = (ks', inflight', exhausted') \<and>
     inflight' @ (if exhausted' then [] else map (fetch ex t) ks') =
       inflight @ (if exhausted then [] else map (fetch ex t) ks) \<and> (inflight' = [] \<longrightarrow> exhausted')"
proof (induction ks arbitrary: inflight)
  case Nil
  then show ?case using assms by (auto simp: fill_points.simps [of ex t prefetch "[]"])
next
  case (Cons key ks)
  show ?case
  proof (cases "\<not> exhausted \<and> length inflight < prefetch")
    case True
    then show ?thesis using Cons [of "inflight @ [fetch ex t key]"]
      by (simp add: fill_points.simps [of ex t prefetch "key # ks"])
  next
    case False
    then show ?thesis using assms by (auto simp: fill_points.simps [of ex t prefetch "key # ks"])
  qed
qed

lemma fill_index_step:
  assumes "0 < prefetch"
  shows "(\<not> exhausted \<longrightarrow> all_entries ex t ix ord cur rest = Inr es) \<Longrightarrow>
     \<exists>cur' rest' inflight' exhausted' es'.
       fill_index ex t ix ord prefetch cur rest inflight exhausted = (Inr (), cur', rest', inflight', exhausted') \<and>
       (\<not> exhausted' \<longrightarrow> all_entries ex t ix ord cur' rest' = Inr es') \<and>
       inflight' @ (if exhausted' then [] else map (\<lambda>e. fetch ex t (snd e)) es') =
         inflight @ (if exhausted then [] else map (\<lambda>e. fetch ex t (snd e)) es) \<and> (inflight' = [] \<longrightarrow> exhausted')"
proof (induction es arbitrary: cur rest inflight)
  case Nil
  show ?case
  proof (cases "\<not> exhausted \<and> length inflight < prefetch")
    case True
    then show ?thesis using Nil next_index_entry_step [of ex t ix ord cur rest "[]"]
      by (auto simp: fill_index.simps [of ex t ix ord prefetch cur])
  next
    case False
    then show ?thesis using assms Nil by (auto simp: fill_index.simps [of ex t ix ord prefetch cur])
  qed
next
  case (Cons e es)
  show ?case
  proof (cases "\<not> exhausted \<and> length inflight < prefetch")
    case True
    then obtain cur1 rest1 where step: "next_index_entry ex t ix ord cur rest = (Inr (Some e), cur1, rest1)"
      "all_entries ex t ix ord cur1 rest1 = Inr es"
      using Cons.prems next_index_entry_step [of ex t ix ord cur rest "e # es"] by auto
    have "fill_index ex t ix ord prefetch cur rest inflight exhausted =
        fill_index ex t ix ord prefetch cur1 rest1 (inflight @ [fetch ex t (snd e)]) exhausted"
      using True step(1) by (cases e) (simp add: fill_index.simps [of ex t ix ord prefetch cur])
    then show ?thesis using Cons.IH [of cur1 rest1 "inflight @ [fetch ex t (snd e)]"] True step(2) by simp
  next
    case False
    then have "fill_index ex t ix ord prefetch cur rest inflight exhausted = (Inr (), cur, rest, inflight, exhausted)"
      by (auto simp: fill_index.simps [of ex t ix ord prefetch cur])
    then show ?thesis using assms False Cons.prems by (intro exI [of _ cur] exI [of _ rest] exI [of _ inflight] exI [of _ exhausted] exI [of _ "e # es"]) auto
  qed
qed


lemma points_loop_step:
  assumes "0 < qc_prefetch qc"
  shows "source_yields ex (qc\<lparr>qc_source := Source_Points ks inflight exhausted\<rparr>) rows \<Longrightarrow>
     \<exists>src. points_loop ex qc ks inflight exhausted = (Inr (case rows of [] \<Rightarrow> None | r # _ \<Rightarrow> Some r), src) \<and>
       (rows \<noteq> [] \<longrightarrow> source_yields ex (qc\<lparr>qc_source := src\<rparr>) (tl rows))"
  using assms
proof (induction ex qc ks inflight exhausted rule: points_loop.induct)
  case (1 ex qc ks inflight exhausted)
  let ?pending = "\<lambda>ks inflight exhausted. inflight @ (if exhausted then [] else map (fetch ex (qc_table qc)) ks)"
  obtain ks1 in1 ex1 where fill: "fill_points ex (qc_table qc) (qc_prefetch qc) ks inflight exhausted = (ks1, in1, ex1)"
    "?pending ks1 in1 ex1 = ?pending ks inflight exhausted" "in1 = [] \<longrightarrow> ex1"
    using fill_points_step [OF "1.prems"(2)] by metis
  have yields: "outcomes (read_step ex qc (Inr None)) (?pending ks1 in1 ex1) = Inr rows"
    using "1.prems"(1) fill(2) by (simp add: source_yields_def cong: if_cong)
  show ?case
  proof (cases in1)
    case Nil
    then show ?thesis using fill yields by (simp add: points_loop.simps [of ex qc ks])
  next
    case (Cons read in2)
    then obtain found where read: "read = Inr found" using yields by (cases read) (auto simp: read_step_def)
    show ?thesis
    proof (cases found)
      case None
      have "source_yields ex (qc\<lparr>qc_source := Source_Points ks1 in2 ex1\<rparr>) rows"
        using yields Cons read None
        by (auto simp: source_yields_def read_step_def rbind_def split: sum.splits cong: if_cong)
      from "1.IH"(1) [OF fill(1) [symmetric] refl Cons read None this "1.prems"(2)] show ?thesis
        using fill(1) Cons read None by (simp add: points_loop.simps [of ex qc ks])
    next
      case (Some raw)
      then obtain got where got: "materialise_raw ex qc raw = Inr got"
        using yields Cons read by (cases "materialise_raw ex qc raw") (auto simp: read_step_def)
      have rest: "source_yields ex (qc\<lparr>qc_source := Source_Points ks1 in2 ex1\<rparr>) (case got of None \<Rightarrow> rows | Some _ \<Rightarrow> tl rows)"
        and head: "got \<noteq> None \<Longrightarrow> rows \<noteq> [] \<and> got = Some (hd rows)"
        using yields Cons read Some got
        by (auto simp: source_yields_def read_step_def rbind_def split: sum.splits option.splits cong: if_cong)
      show ?thesis
      proof (cases got)
        case None
        then have "source_yields ex (qc\<lparr>qc_source := Source_Points ks1 in2 ex1\<rparr>) rows" using rest by simp
        from "1.IH"(2) [OF fill(1) [symmetric] refl Cons read Some got None this "1.prems"(2)] show ?thesis
          using fill(1) Cons read Some got None by (simp add: points_loop.simps [of ex qc ks])
      next
        case (Some row)
        then show ?thesis using head rest fill(1) Cons read \<open>found = Some raw\<close> got
          by (cases rows) (simp_all add: points_loop.simps [of ex qc ks])
      qed
    qed
  qed
qed

lemma index_loop_step:
  assumes "0 < qc_prefetch qc"
  shows "source_yields ex (qc\<lparr>qc_source := Source_Index ix cur rest ord inflight exhausted\<rparr>) rows \<Longrightarrow>
     \<exists>src. index_loop ex qc ix ord cur rest inflight exhausted = (Inr (case rows of [] \<Rightarrow> None | r # _ \<Rightarrow> Some r), src) \<and>
       (rows \<noteq> [] \<longrightarrow> source_yields ex (qc\<lparr>qc_source := src\<rparr>) (tl rows))"
  using assms
proof (induction ex qc ix ord cur rest inflight exhausted rule: index_loop.induct)
  case (1 ex qc ix ord cur rest inflight exhausted)
  let ?pending = "\<lambda>es inflight exhausted. inflight @ (if exhausted then [] else map (\<lambda>e. fetch ex (qc_table qc) (snd e)) es)"
  let ?missing = "missing_row ex (qc_table qc) ix"
  obtain es where es: "\<not> exhausted \<longrightarrow> all_entries ex (qc_table qc) ix ord cur rest = Inr es"
    "outcomes (read_step ex qc ?missing) (?pending es inflight exhausted) = Inr rows"
    using "1.prems"(1) by (auto simp: source_yields_def cong: if_cong)
  obtain cur1 rest1 in1 ex1 es1 where
    fill: "fill_index ex (qc_table qc) ix ord (qc_prefetch qc) cur rest inflight exhausted = (Inr (), cur1, rest1, in1, ex1)"
    "\<not> ex1 \<longrightarrow> all_entries ex (qc_table qc) ix ord cur1 rest1 = Inr es1"
    "?pending es1 in1 ex1 = ?pending es inflight exhausted" "in1 = [] \<longrightarrow> ex1"
    using fill_index_step [OF "1.prems"(2) es(1)] by metis
  note yields = es(2) [folded fill(3)]
  show ?case
  proof (cases in1)
    case Nil
    then show ?thesis using fill yields by (simp add: index_loop.simps [of ex qc ix ord cur])
  next
    case (Cons read in2)
    then obtain found where read: "read = Inr found" using yields by (cases read) (auto simp: read_step_def)
    have resume: "source_yields ex (qc\<lparr>qc_source := Source_Index ix cur1 rest1 ord in2 ex1\<rparr>) rs"
      if "outcomes (read_step ex qc ?missing) (?pending es1 in2 ex1) = Inr rs" for rs
      using that fill(2) by (auto simp: source_yields_def cong: if_cong)
    show ?thesis
    proof (cases found)
      case None
      then have miss: "\<not> ex_point_in_time ex" and
        later: "outcomes (read_step ex qc ?missing) (?pending es1 in2 ex1) = Inr rows"
        using yields Cons read
        by (auto simp: read_step_def missing_row_def rbind_def split: sum.splits if_splits)
      from "1.IH"(1) [OF fill(1) [symmetric] refl refl refl refl Cons read None miss resume [OF later] "1.prems"(2)]
      show ?thesis using fill(1) Cons read None miss by (simp add: index_loop.simps [of ex qc ix ord cur])
    next
      case (Some raw)
      then obtain got where got: "materialise_raw ex qc raw = Inr got"
        using yields Cons read by (cases "materialise_raw ex qc raw") (auto simp: read_step_def)
      have later: "outcomes (read_step ex qc ?missing) (?pending es1 in2 ex1) = Inr (case got of None \<Rightarrow> rows | Some _ \<Rightarrow> tl rows)"
        and head: "got \<noteq> None \<Longrightarrow> rows \<noteq> [] \<and> got = Some (hd rows)"
        using yields Cons read Some got by (auto simp: read_step_def rbind_def split: sum.splits option.splits)
      show ?thesis
      proof (cases got)
        case None
        from "1.IH"(2) [OF fill(1) [symmetric] refl refl refl refl Cons read Some got None
            resume [OF later, unfolded None option.case] "1.prems"(2)]
        show ?thesis using fill(1) Cons read Some got None by (simp add: index_loop.simps [of ex qc ix ord cur])
      next
        case (Some row)
        then show ?thesis using head resume [OF later] fill(1) Cons read \<open>found = Some raw\<close> got
          by (cases rows) (simp_all add: index_loop.simps [of ex qc ix ord cur])
      qed
    qed
  qed
qed

lemma covering_loop_step:
  "all_entries ex (qc_table qc) ix ord cur rest = Inr es \<Longrightarrow>
     rows = admitted ex qc (map (\<lambda>e. entry_row ex qc ix (fst e) (snd e)) es) \<Longrightarrow>
     \<exists>src. covering_loop ex qc ix ord cur rest = (Inr (case rows of [] \<Rightarrow> None | r # _ \<Rightarrow> Some r), src) \<and>
       (rows \<noteq> [] \<longrightarrow> source_yields ex (qc\<lparr>qc_source := src\<rparr>) (tl rows))"
proof (induction es arbitrary: cur rest)
  case Nil
  then show ?case using next_index_entry_step [OF Nil(1)]
    by (auto simp: covering_loop.simps [of ex qc ix ord cur] admitted_def)
next
  case (Cons e es)
  obtain cur1 rest1 where step: "next_index_entry ex (qc_table qc) ix ord cur rest = (Inr (Some e), cur1, rest1)"
    "all_entries ex (qc_table qc) ix ord cur1 rest1 = Inr es"
    using next_index_entry_step [OF Cons.prems(1)] by auto
  show ?case
  proof (cases "expr_admits (ex_env ex) (qc_residual qc) (entry_row ex qc ix (fst e) (snd e))")
    case True
    then show ?thesis using step Cons.prems(2)
      by (cases e) (auto simp: covering_loop.simps [of ex qc ix ord cur] admitted_def source_yields_def)
  next
    case False
    then have "covering_loop ex qc ix ord cur rest = covering_loop ex qc ix ord cur1 rest1"
      using step(1) by (cases e) (simp add: covering_loop.simps [of ex qc ix ord cur])
    then show ?thesis using Cons.IH [OF step(2)] False Cons.prems(2) by (simp add: admitted_def)
  qed
qed

lemma next_admitted_step:
  assumes "source_yields ex qc rows" and "0 < qc_prefetch qc"
  obtains src where "next_admitted ex qc = (Inr (case rows of [] \<Rightarrow> None | r # _ \<Rightarrow> Some r), qc\<lparr>qc_source := src\<rparr>)"
    and "rows \<noteq> [] \<Longrightarrow> source_yields ex (qc\<lparr>qc_source := src\<rparr>) (tl rows)"
proof -
  have "\<exists>src. next_admitted ex qc = (Inr (case rows of [] \<Rightarrow> None | r # _ \<Rightarrow> Some r), qc\<lparr>qc_source := src\<rparr>) \<and>
    (rows \<noteq> [] \<longrightarrow> source_yields ex (qc\<lparr>qc_source := src\<rparr>) (tl rows))"
  proof (cases "qc_source qc")
    case (Source_Rows kvs)
    then have "outcomes (row_step ex qc) kvs = Inr rows" using assms(1) by (simp add: source_yields_def)
    from rows_loop_step [OF this] obtain kvs' where
      "rows_loop ex qc kvs = (Inr (case rows of [] \<Rightarrow> None | r # _ \<Rightarrow> Some r), kvs')"
      "rows \<noteq> [] \<longrightarrow> outcomes (row_step ex qc) kvs' = Inr (tl rows)" by blast
    then show ?thesis using Source_Rows by (auto simp: next_admitted_def source_yields_def)
  next
    case (Source_Points ks inflight exhausted)
    then have "source_yields ex (qc\<lparr>qc_source := Source_Points ks inflight exhausted\<rparr>) rows"
      using assms(1) by (simp flip: Source_Points)
    from points_loop_step [OF assms(2) this] show ?thesis using Source_Points by (auto simp: next_admitted_def)
  next
    case (Source_Index ix cur rest ord inflight exhausted)
    then have "source_yields ex (qc\<lparr>qc_source := Source_Index ix cur rest ord inflight exhausted\<rparr>) rows"
      using assms(1) by (simp flip: Source_Index)
    from index_loop_step [OF assms(2) this] show ?thesis using Source_Index by (auto simp: next_admitted_def)
  next
    case (Source_Covering ix cur rest ord)
    then obtain es where "all_entries ex (qc_table qc) ix ord cur rest = Inr es"
      "rows = admitted ex qc (map (\<lambda>e. entry_row ex qc ix (fst e) (snd e)) es)"
      using assms(1) by (auto simp: source_yields_def)
    from covering_loop_step [OF this] show ?thesis using Source_Covering by (auto simp: next_admitted_def)
  next
    case (Source_Sorted rs)
    then show ?thesis using sorted_loop_step [of ex qc rs] assms(1)
      by (auto simp: next_admitted_def source_yields_def admitted_def)
  next
    case (Source_Point found)
    then show ?thesis using assms(1)
      by (auto simp: next_admitted_def source_yields_def admitted_def Let_def split: option.splits)
  next
    case Source_Empty
    then show ?thesis using assms(1) by (auto simp: next_admitted_def source_yields_def)
  qed
  then show thesis using that by blast
qed


section \<open>Draining\<close>

definition windowed :: "nat option \<Rightarrow> nat \<Rightarrow> 'a list \<Rightarrow> 'a list" where
  "windowed limit offset xs = (case limit of None \<Rightarrow> drop offset xs | Some l \<Rightarrow> take l (drop offset xs))"

lemma next_loop_step:
  "source_yields ex qc rows \<Longrightarrow> 0 < qc_prefetch qc \<Longrightarrow>
     (drop (qc_offset qc - qc_skipped qc) rows = [] \<longrightarrow> (\<exists>qc'. next_loop ex qc = (Inr None, qc'))) \<and>
     (\<forall>r rs. drop (qc_offset qc - qc_skipped qc) rows = r # rs \<longrightarrow>
        (\<exists>src. source_yields ex (qc\<lparr>qc_source := src\<rparr>) rs \<and>
           next_loop ex qc = (Inr (Some (conceal r (qc_concealed qc))),
             qc\<lparr>qc_source := src, qc_skipped := max (qc_skipped qc) (qc_offset qc), qc_yielded := qc_yielded qc + 1\<rparr>)))"
proof (induction "qc_offset qc - qc_skipped qc" arbitrary: qc rows)
  case 0
  obtain src where step: "next_admitted ex qc = (Inr (case rows of [] \<Rightarrow> None | r # _ \<Rightarrow> Some r), qc\<lparr>qc_source := src\<rparr>)"
    "rows \<noteq> [] \<Longrightarrow> source_yields ex (qc\<lparr>qc_source := src\<rparr>) (tl rows)"
    using next_admitted_step [OF 0(2,3)] by metis
  have "qc\<lparr>qc_source := src, qc_skipped := max (qc_skipped qc) (qc_offset qc)\<rparr> = qc\<lparr>qc_source := src\<rparr>"
    using 0(1) by (simp add: max_def)
  then show ?case using 0(1) step by (cases rows) (auto simp: next_loop.simps [of ex qc])
next
  case (Suc n)
  obtain src where step: "next_admitted ex qc = (Inr (case rows of [] \<Rightarrow> None | r # _ \<Rightarrow> Some r), qc\<lparr>qc_source := src\<rparr>)"
    "rows \<noteq> [] \<Longrightarrow> source_yields ex (qc\<lparr>qc_source := src\<rparr>) (tl rows)"
    using next_admitted_step [OF Suc(3,4)] by metis
  show ?case
  proof (cases rows)
    case Nil
    then show ?thesis using step by (simp add: next_loop.simps [of ex qc])
  next
    case (Cons r rs)
    let ?qc = "qc\<lparr>qc_source := src, qc_skipped := qc_skipped qc + 1\<rparr>"
    have "qc_skipped qc < qc_offset qc" using Suc(2) by linarith
    then have skipped: "next_loop ex qc = next_loop ex ?qc"
      using step(1) Cons by (simp add: next_loop.simps [of ex qc])
    have fields: "qc_offset ?qc - qc_skipped ?qc = n" "source_yields ex ?qc rs" "0 < qc_prefetch ?qc"
      using Suc(2,4) step(2) Cons by simp_all
    have "max (qc_skipped qc + 1) (qc_offset qc) = max (qc_skipped qc) (qc_offset qc)" using Suc(2) by simp
    moreover have "drop (qc_offset qc - qc_skipped qc) rows = drop n rs" using Suc(2) Cons by (metis drop_Suc_Cons)
    ultimately show ?thesis
      using Suc(1) [OF fields(1) [symmetric] fields(2,3)] fields(1) unfolding skipped by simp
  qed
qed

lemma windowed_next:
  "windowed (Some 0) n xs = []" "drop n xs = [] \<Longrightarrow> windowed limit n xs = []"
  "drop n xs = y # ys \<Longrightarrow> windowed None n xs = y # windowed None 0 ys"
  "drop n xs = y # ys \<Longrightarrow> windowed (Some (Suc l)) n xs = y # windowed (Some l) 0 ys"
  by (auto simp: windowed_def split: option.split)

definition remaining :: "'s QueryCursor \<Rightarrow> 'a list \<Rightarrow> 'a list" where
  "remaining qc rows =
     windowed (map_option (\<lambda>l. l - qc_yielded qc) (qc_limit qc)) (qc_offset qc - qc_skipped qc) rows"

lemma next_row_step:
  assumes "source_yields ex qc rows" and "0 < qc_prefetch qc"
  shows "(remaining qc rows = [] \<longrightarrow> (\<exists>qc'. next_row ex qc = (Inr None, qc'))) \<and>
    (\<forall>r rs. remaining qc rows = r # rs \<longrightarrow>
       (\<exists>qc' rows'. next_row ex qc = (Inr (Some (conceal r (qc_concealed qc))), qc') \<and>
          source_yields ex qc' rows' \<and> qc_prefetch qc' = qc_prefetch qc \<and> qc_concealed qc' = qc_concealed qc \<and>
          remaining qc' rows' = rs))"
proof (cases "is_some_and (\<lambda>l. l \<le> qc_yielded qc) (qc_limit qc)")
  case True
  then show ?thesis by (auto simp: next_row_def remaining_def windowed_def is_some_and_def split: option.splits)
next
  case False
  then have open_: "qc_limit qc = None \<or> (\<exists>l. qc_limit qc = Some (qc_yielded qc + Suc l))"
    by (auto simp: is_some_and_def not_le less_iff_Suc_add split: option.splits)
  note step = next_loop_step [OF assms]
  show ?thesis
  proof (cases "drop (qc_offset qc - qc_skipped qc) rows")
    case Nil
    then show ?thesis using False step by (auto simp: next_row_def remaining_def windowed_next)
  next
    case (Cons r rs)
    then obtain src where src: "source_yields ex (qc\<lparr>qc_source := src\<rparr>) rs"
      "next_loop ex qc = (Inr (Some (conceal r (qc_concealed qc))),
         qc\<lparr>qc_source := src, qc_skipped := max (qc_skipped qc) (qc_offset qc), qc_yielded := qc_yielded qc + 1\<rparr>)"
      using step by blast
    have "remaining qc rows =
        r # remaining (qc\<lparr>qc_source := src, qc_skipped := max (qc_skipped qc) (qc_offset qc), qc_yielded := qc_yielded qc + 1\<rparr>) rs"
      using open_ Cons by (auto simp: remaining_def windowed_next max_def)
    then show ?thesis using False src by (auto simp: next_row_def)
  qed
qed

lemma collect_yields:
  "source_yields ex qc rows \<Longrightarrow> 0 < qc_prefetch qc \<Longrightarrow> remaining qc rows = out' \<Longrightarrow>
     collect_loop ex qc out = Inr (out @ map (\<lambda>r. conceal r (qc_concealed qc)) out')"
proof (induction out' arbitrary: qc rows out)
  case Nil
  then show ?case using next_row_step [OF Nil(1,2)] by (auto simp: collect_loop.simps [of ex qc])
next
  case (Cons r rs)
  obtain qc' rows' where step: "next_row ex qc = (Inr (Some (conceal r (qc_concealed qc))), qc')"
    "source_yields ex qc' rows'" "qc_prefetch qc' = qc_prefetch qc" "qc_concealed qc' = qc_concealed qc"
    "remaining qc' rows' = rs"
    using next_row_step [OF Cons(2,3)] Cons(4) by blast
  then show ?case using Cons.IH [OF step(2) _ step(5)] Cons.prems(2) by (simp add: collect_loop.simps [of ex qc])
qed

lemma count_yields:
  "source_yields ex qc rows \<Longrightarrow> 0 < qc_prefetch qc \<Longrightarrow> remaining qc rows = out' \<Longrightarrow>
     count_loop ex qc n = Inr (n + length out')"
proof (induction out' arbitrary: qc rows n)
  case Nil
  then show ?case using next_row_step [OF Nil(1,2)] by (auto simp: count_loop.simps [of ex qc])
next
  case (Cons r rs)
  obtain qc' rows' where step: "next_row ex qc = (Inr (Some (conceal r (qc_concealed qc))), qc')"
    "source_yields ex qc' rows'" "qc_prefetch qc' = qc_prefetch qc" "remaining qc' rows' = rs"
    using next_row_step [OF Cons(2,3)] Cons(4) by blast
  then show ?case using Cons.IH [OF step(2) _ step(4)] Cons.prems(2) by (simp add: count_loop.simps [of ex qc])
qed

lemma admitted_yields:
  "source_yields ex qc rows \<Longrightarrow> 0 < qc_prefetch qc \<Longrightarrow>
     \<exists>src. admitted_loop ex ceiling too_many qc out =
       (if ceiling < length out + length rows \<and> rows \<noteq> [] then Inl too_many else Inr (out @ rows, qc\<lparr>qc_source := src\<rparr>))"
proof (induction rows arbitrary: qc out)
  case Nil
  obtain src where "next_admitted ex qc = (Inr None, qc\<lparr>qc_source := src\<rparr>)"
    using next_admitted_step [OF Nil] by (metis list.simps(4))
  then show ?case by (auto simp: admitted_loop.simps [of ex ceiling too_many qc])
next
  case (Cons r rs)
  obtain src where step: "next_admitted ex qc = (Inr (Some r), qc\<lparr>qc_source := src\<rparr>)"
    "source_yields ex (qc\<lparr>qc_source := src\<rparr>) rs"
    using next_admitted_step [OF Cons(2,3)] by (metis list.distinct(1) list.sel(3) list.simps(5))
  show ?case
  proof (cases "ceiling \<le> length out")
    case True
    then show ?thesis using step(1) by (simp add: admitted_loop.simps [of ex ceiling too_many qc])
  next
    case False
    have "0 < qc_prefetch (qc\<lparr>qc_source := src\<rparr>)" using Cons(3) by simp
    from Cons.IH [OF step(2) this, of "out @ [r]"] show ?thesis
      using False step(1) by (auto simp: admitted_loop.simps [of ex ceiling too_many qc] split: if_splits)
  qed
qed


section \<open>Sorted rows\<close>

definition row_shape :: "nat \<Rightarrow> Row \<Rightarrow> bool" where
  "row_shape n r \<longleftrightarrow> length r = n \<and> list_all wf_value r"

lemma key_ordering_total: "total_comparison wf_value (\<lambda>a b. key_ordering a b k)"
proof -
  have cmp: "wf_value a \<Longrightarrow> value_cmp a a = Equal"
    "wf_value a \<Longrightarrow> wf_value b \<Longrightarrow> value_cmp b a = reverse_ordering (value_cmp a b)"
    "wf_value a \<Longrightarrow> wf_value b \<Longrightarrow> wf_value c \<Longrightarrow> value_cmp a b \<noteq> Greater \<Longrightarrow> value_cmp b c \<noteq> Greater \<Longrightarrow>
       value_cmp a c \<noteq> Greater \<and> (value_cmp a c = Equal \<longrightarrow> value_cmp a b = Equal \<and> value_cmp b c = Equal)" for a b c
    by (rule asc.total.refl asc.total.antisym asc.total.trans; assumption)+
  show ?thesis
  proof
    fix a b c
    show "key_ordering a a k = Equal" if "wf_value a"
      using that cmp(1) by (auto simp: key_ordering_def split: Direction.split bool.split)
    show "key_ordering b a k = reverse_ordering (key_ordering a b k)" if "wf_value a" "wf_value b"
      using cmp(2) [OF that]
      by (cases "is_null a"; cases "is_null b"; cases "sk_direction k"; cases "value_cmp a b")
        (simp_all add: key_ordering_def Let_def)
    show "key_ordering a c k \<noteq> Greater \<and> (key_ordering a c k = Equal \<longrightarrow> key_ordering a b k = Equal \<and> key_ordering b c k = Equal)"
      if "wf_value a" "wf_value b" "wf_value c" "key_ordering a b k \<noteq> Greater" "key_ordering b c k \<noteq> Greater"
    proof (cases "is_null a \<or> is_null b \<or> is_null c")
      case True
      then show ?thesis using that(4,5)
        by (cases "is_null a"; cases "is_null b"; cases "is_null c") (simp_all add: key_ordering_def Let_def split: if_splits)
    next
      case False
      then have plain: "key_ordering x y k = (case sk_direction k of Asc \<Rightarrow> value_cmp x y | Desc \<Rightarrow> value_cmp y x)"
        if "x \<in> {a, b, c}" "y \<in> {a, b, c}" for x y using that by (auto simp: key_ordering_def)
      show ?thesis
      proof (cases "sk_direction k")
        case Asc
        then show ?thesis using cmp(3) [OF that(1-3)] that(4,5) by (simp add: plain)
      next
        case Desc
        then show ?thesis using cmp(3) [OF that(3,2,1)] that(4,5) by (simp add: plain)
      qed
    qed
  qed
qed


lemma lexicographic_total:
  assumes "total_comparison ok c" and "total_comparison ok d"
    and "\<And>a b. ok a \<Longrightarrow> ok b \<Longrightarrow> e a b = (if c a b \<noteq> Equal then c a b else d a b)"
  shows "total_comparison ok e"
proof
  fix x y z
  note c = total_comparison.refl [OF assms(1)] total_comparison.antisym [OF assms(1)] total_comparison.trans [OF assms(1)]
  note d = total_comparison.refl [OF assms(2)] total_comparison.antisym [OF assms(2)] total_comparison.trans [OF assms(2)]
  show "e x x = Equal" if "ok x" using that by (simp add: assms(3) c(1) d(1))
  show "e y x = reverse_ordering (e x y)" if "ok x" "ok y"
    using c(2) [OF that] d(2) [OF that] that by (cases "c x y") (simp_all add: assms(3))
  show "e x z \<noteq> Greater \<and> (e x z = Equal \<longrightarrow> e x y = Equal \<and> e y z = Equal)"
    if "ok x" "ok y" "ok z" "e x y \<noteq> Greater" "e y z \<noteq> Greater"
  proof -
    have "c x y \<noteq> Greater" "c y z \<noteq> Greater" using that by (auto simp: assms(3) split: if_splits)
    from c(3) [OF that(1-3) this] have xz: "c x z \<noteq> Greater" "c x z = Equal \<Longrightarrow> c x y = Equal \<and> c y z = Equal" by simp_all
    show ?thesis
    proof (cases "c x z = Equal")
      case True
      then show ?thesis using xz that d(3) [OF that(1-3)] by (simp add: assms(3))
    qed (use xz that in \<open>simp add: assms(3)\<close>)
  qed
qed

lemma key_at_total:
  assumes "i < n"
  shows "total_comparison (row_shape n) (\<lambda>a b. key_ordering (a ! i) (b ! i) k)"
proof -
  have wf: "row_shape n a \<Longrightarrow> wf_value (a ! i)" for a using assms by (simp add: row_shape_def list_all_length)
  note total = key_ordering_total [of k]
  show ?thesis
    by standard (rule total_comparison.refl [OF total] total_comparison.antisym [OF total] total_comparison.trans [OF total];
      simp add: wf)+
qed

lemma compare_rows_total: "total_comparison (row_shape n) (\<lambda>a b. compare_rows a b ks)"
proof (induction ks)
  case Nil
  show ?case by standard simp_all
next
  case (Cons k ks)
  show ?case
  proof (cases "sk_column k < n")
    case True
    show ?thesis
      by (rule lexicographic_total [OF key_at_total [OF True] Cons])
        (use True in \<open>auto simp: row_shape_def get_def Let_def\<close>)
  next
    case False
    have same: "compare_rows a b (k # ks) = compare_rows a b ks" if "row_shape n a" for a b
      using that False by (simp add: row_shape_def get_def split: option.split)
    show ?thesis
    proof
      fix a b c assume "row_shape n a"
      then show "compare_rows a a (k # ks) = Equal" using total_comparison.refl [OF Cons] by (simp only: same)
      assume "row_shape n b"
      with \<open>row_shape n a\<close> show "compare_rows b a (k # ks) = reverse_ordering (compare_rows a b (k # ks))"
        using total_comparison.antisym [OF Cons, of a b] by (simp only: same)
      assume "row_shape n c" "compare_rows a b (k # ks) \<noteq> Greater" "compare_rows b c (k # ks) \<noteq> Greater"
      with \<open>row_shape n a\<close> \<open>row_shape n b\<close>
      show "compare_rows a c (k # ks) \<noteq> Greater \<and>
          (compare_rows a c (k # ks) = Equal \<longrightarrow> compare_rows a b (k # ks) = Equal \<and> compare_rows b c (k # ks) = Equal)"
        using total_comparison.trans [OF Cons, of a b c] by (simp add: same del: compare_rows.simps)
    qed
  qed
qed

interpretation rows: total_comparison "row_shape n" "\<lambda>a b. compare_rows a b ks" for n ks
  by (rule compare_rows_total)

lemma mset_insert_by [simp]: "mset (insert_by cmp x ys) = add_mset x (mset ys)"
  by (induction ys) auto

lemma mset_sort_by [simp]: "mset (sort_by cmp xs) = mset xs"
  unfolding sort_by_def by (induction xs) auto

section \<open>The bounded heap\<close>

text \<open>What the standard library promises of its heap: popping removes a greatest element.\<close>

definition pops_greatest :: "(('a \<Rightarrow> 'a \<Rightarrow> ordering) \<Rightarrow> 'a list \<Rightarrow> 'a \<times> 'a list) \<Rightarrow> bool" where
  "pops_greatest pop \<longleftrightarrow>
     (\<forall>ok cmp heap. total_comparison ok cmp \<longrightarrow> list_all ok heap \<longrightarrow> heap \<noteq> [] \<longrightarrow>
        mset heap = add_mset (fst (pop cmp heap)) (mset (snd (pop cmp heap))) \<and>
        (\<forall>y\<in>set heap. cmp y (fst (pop cmp heap)) \<noteq> Greater))"

lemma pops_greatestD:
  assumes "pops_greatest pop" and "total_comparison ok cmp" and "list_all ok heap" and "heap \<noteq> []"
  obtains x rest where "pop cmp heap = (x, rest)" and "mset heap = add_mset x (mset rest)"
    and "\<And>y. y \<in> set heap \<Longrightarrow> cmp y x \<noteq> Greater"
  using assms unfolding pops_greatest_def by (metis prod.collapse)

lemma heap_yields:
  assumes pop: "pops_greatest (ex_pop ex)" and total: "total_comparison ok cmp"
  shows "source_yields ex qc rows \<Longrightarrow> 0 < qc_prefetch qc \<Longrightarrow> list_all ok rows \<Longrightarrow> list_all ok heap \<Longrightarrow>
     length heap \<le> window \<Longrightarrow> (\<forall>d\<in>#dropped. ok d \<and> length heap = window \<and> (\<forall>h\<in>set heap. cmp h d \<noteq> Greater)) \<Longrightarrow>
     \<exists>heap' dropped' src. heap_loop ex cmp window qc heap = Inr (heap', qc\<lparr>qc_source := src\<rparr>) \<and>
       mset heap' + dropped' = mset heap + dropped + mset rows \<and>
       length heap' = min window (length heap + length rows) \<and>
       (\<forall>d\<in>#dropped'. \<forall>h\<in>set heap'. cmp h d \<noteq> Greater)"
proof (induction rows arbitrary: qc heap dropped)
  case Nil
  obtain src where "next_admitted ex qc = (Inr None, qc\<lparr>qc_source := src\<rparr>)"
    using next_admitted_step [OF Nil(1,2)] by (metis list.simps(4))
  then have "heap_loop ex cmp window qc heap = Inr (heap, qc\<lparr>qc_source := src\<rparr>)"
    by (simp add: heap_loop.simps [of ex cmp window qc])
  then show ?case using Nil.prems by (intro exI [of _ heap] exI [of _ dropped]) auto
next
  case (Cons r rs)
  obtain src where step: "next_admitted ex qc = (Inr (Some r), qc\<lparr>qc_source := src\<rparr>)"
    "source_yields ex (qc\<lparr>qc_source := src\<rparr>) rs"
    using next_admitted_step [OF Cons(2,3)] by (metis list.distinct(1) list.sel(3) list.simps(5))
  let ?qc = "qc\<lparr>qc_source := src\<rparr>"
  have oks: "list_all ok (r # heap)" "list_all ok rs" "0 < qc_prefetch ?qc" using Cons.prems by simp_all
  show ?case
  proof (cases "window < length (r # heap)")
    case False
    then have none: "dropped = {#}" using Cons.prems(6) by (metis leD length_Cons lessI multiset_nonemptyE)
    have "heap_loop ex cmp window qc heap = heap_loop ex cmp window ?qc (r # heap)"
      using step(1) False by (simp add: heap_loop.simps [of ex cmp window qc] Let_def)
    then show ?thesis
      using Cons.IH [OF step(2) oks(3,2,1), of "{#}"] False none by (simp add: Let_def)
  next
    case True
    then have full: "length heap = window" using Cons.prems(5) by simp
    obtain x rest where popped: "ex_pop ex cmp (r # heap) = (x, rest)" "mset (r # heap) = add_mset x (mset rest)"
      "\<And>y. y \<in> set (r # heap) \<Longrightarrow> cmp y x \<noteq> Greater"
      using pops_greatestD [OF pop total oks(1)] by blast
    have len: "length rest = window" using arg_cong [OF popped(2), of size] full by simp
    have sub: "x \<in> set (r # heap)" "set rest \<subseteq> set (r # heap)"
      using popped(2) by (metis insert_iff set_mset_add_mset_insert set_mset_mset, metis set_mset_add_mset_insert set_mset_mset subset_insertI)
    have ok_rest: "list_all ok rest" "ok x" using sub oks(1) by (auto simp: list_all_iff)
    have below: "ok d \<and> length rest = window \<and> (\<forall>h\<in>set rest. cmp h d \<noteq> Greater)" if "d \<in># add_mset x dropped" for d
    proof (cases "d = x")
      case True
      then show ?thesis using popped(3) sub len ok_rest by blast
    next
      case False
      then have d: "ok d" "\<And>h. h \<in> set heap \<Longrightarrow> cmp h d \<noteq> Greater" using that Cons.prems(6) by auto
      have "cmp h d \<noteq> Greater" if h: "h \<in> set rest" for h
      proof (cases "h \<in> set heap")
        case False
        then have "h = r" using h sub by auto
        moreover have "mset rest \<noteq> mset heap" using False h mset_eq_setD by metis
        ultimately have "x \<noteq> r" using popped(2) by auto
        then have "cmp x d \<noteq> Greater" "cmp h x \<noteq> Greater" using sub d popped(3) h by auto
        then show ?thesis
          using total_comparison.trans [OF total, of h x d] d(1) ok_rest h by (auto simp: list_all_iff)
      qed (rule d(2))
      then show ?thesis using d len by blast
    qed
    have loop: "heap_loop ex cmp window qc heap = heap_loop ex cmp window ?qc rest"
      using step(1) True popped(1) by (simp add: heap_loop.simps [of ex cmp window qc] Let_def)
    have sum: "mset heap + dropped + mset (r # rs) = mset rest + add_mset x dropped + mset rs"
      using popped(2) by (simp add: union_assoc)
    show ?thesis unfolding loop sum
      using Cons.IH [OF step(2) oks(3,2) ok_rest(1), of "add_mset x dropped"] below len full by simp
  qed
qed

lemma drain_heap_sorted:
  assumes "pops_greatest (ex_pop ex)" and "total_comparison ok cmp"
  shows "list_all ok heap \<Longrightarrow> n = length heap \<Longrightarrow>
     mset (drain_heap ex cmp n heap) = mset heap \<and>
     sorted_wrt (\<lambda>a b. cmp b a \<noteq> Greater) (drain_heap ex cmp n heap)"
proof (induction n arbitrary: heap)
  case (Suc n)
  then have "heap \<noteq> []" by auto
  from pops_greatestD [OF assms Suc.prems(1) this] obtain x rest where
    popped: "ex_pop ex cmp heap = (x, rest)" "mset heap = add_mset x (mset rest)" "\<And>y. y \<in> set heap \<Longrightarrow> cmp y x \<noteq> Greater"
    by blast
  have sub: "set rest \<subseteq> set heap" using popped(2) by (metis set_mset_add_mset_insert set_mset_mset subset_insertI)
  moreover have "n = length rest" using arg_cong [OF popped(2), of size] Suc.prems(2) by simp
  ultimately have ih: "mset (drain_heap ex cmp n rest) = mset rest"
    "sorted_wrt (\<lambda>a b. cmp b a \<noteq> Greater) (drain_heap ex cmp n rest)"
    using Suc.IH [of rest] Suc.prems(1) by (auto simp: list_all_iff)
  then have "set (drain_heap ex cmp n rest) \<subseteq> set heap" using sub by (metis set_mset_mset)
  then show ?case using ih popped by auto
qed simp

text \<open>The rows the heap keeps are the first of a sorted arrangement of all of them.\<close>

lemma top_n_yields:
  assumes "pops_greatest (ex_pop ex)" and "source_yields ex qc rows" and "0 < qc_prefetch qc" and "list_all (row_shape n) rows"
  obtains full src where "top_n ex window ks qc = Inr (take window full, qc\<lparr>qc_source := src\<rparr>)"
    and "mset full = mset rows" and "sorted_wrt (\<lambda>a b. compare_rows a b ks \<noteq> Greater) full"
proof -
  let ?cmp = "\<lambda>a b. compare_rows a b ks"
  obtain heap dropped src where loop: "heap_loop ex ?cmp window qc [] = Inr (heap, qc\<lparr>qc_source := src\<rparr>)"
    "mset heap + dropped = mset rows" "length heap = min window (length rows)"
    "\<forall>d\<in>#dropped. \<forall>h\<in>set heap. ?cmp h d \<noteq> Greater"
    using heap_yields [OF assms(1) compare_rows_total [of n ks] assms(2,3,4), of "[]" window "{#}"] by auto
  have "set heap \<subseteq> set rows" "set_mset dropped \<subseteq> set rows"
    using loop(2) by (metis set_mset_mset set_mset_union sup_ge1, metis set_mset_mset set_mset_union sup_ge2)
  then have shapes: "list_all (row_shape n) heap" "\<And>d. d \<in># dropped \<Longrightarrow> row_shape n d"
    using assms(4) by (auto simp: list_all_iff)
  obtain ds where ds: "mset ds = dropped" by (metis ex_mset)
  let ?best = "rev (drain_heap ex ?cmp (length heap) heap)" and ?rest = "sort_by ?cmp ds"
  note drained = drain_heap_sorted [OF assms(1) compare_rows_total [of n ks] shapes(1) refl]
  have rest: "mset ?rest = dropped" using ds by (simp add: mset_sort_by)
  have "sorted_wrt (\<lambda>a b. ?cmp a b \<noteq> Greater) ?rest"
    using rows.sort_by_sorted [of n ds] shapes(2) ds by (auto simp: list_all_iff)
  moreover have "sorted_wrt (\<lambda>a b. ?cmp a b \<noteq> Greater) ?best" using drained by (simp add: sorted_wrt_rev)
  moreover have "?cmp h d \<noteq> Greater" if "h \<in> set ?best" "d \<in> set ?rest" for h d
    using that loop(4) drained rest ds by (metis set_mset_mset set_rev set_sort_by)
  ultimately have "sorted_wrt (\<lambda>a b. ?cmp a b \<noteq> Greater) (?best @ ?rest)" by (auto simp: sorted_wrt_append)
  moreover have "mset (?best @ ?rest) = mset rows" using drained rest loop(2) by simp
  moreover have "take window (?best @ ?rest) = ?best"
  proof -
    have "length ?best = length heap" using drained by (metis length_rev mset_eq_length)
    moreover have "length heap < window \<Longrightarrow> ds = []" using loop(2,3) ds by (cases ds) (auto dest: arg_cong [of _ _ size])
    ultimately show ?thesis using loop(3) by (cases "length heap < window") (auto simp: sort_by_def)
  qed
  ultimately show thesis
    using that [of "?best @ ?rest" src] loop(1) by (simp add: top_n_def Let_def)
qed


section \<open>Opening and draining a cursor\<close>

text \<open>A cursor hands out the window of a list of rows, withheld columns nulled, and counts it.\<close>

definition hands_out :: "('x, 's, 'w) Exec \<Rightarrow> ('s, 'w) Query \<Rightarrow> 's QueryCursor \<Rightarrow> Ordinal list \<Rightarrow> Row list \<Rightarrow> bool" where
  "hands_out ex q qc hidden rows \<longleftrightarrow>
     collect_rows ex (with_window (q_limit q) (q_offset q) qc) =
       Inr (map (\<lambda>r. conceal r hidden) (windowed (q_limit q) (q_offset q) rows)) \<and>
     count_rows ex (with_window (q_limit q) (q_offset q) qc) = Inr (length (windowed (q_limit q) (q_offset q) rows))"

definition fresh_cursor :: "'s QueryCursor \<Rightarrow> bool" where
  "fresh_cursor qc \<longleftrightarrow> 0 < qc_prefetch qc \<and> qc_skipped qc = 0 \<and> qc_yielded qc = 0"

lemma yields_hands_out:
  assumes "source_yields ex qc rows" and "fresh_cursor qc"
  shows "hands_out ex q qc (qc_concealed qc) rows"
proof -
  let ?qc = "with_window (q_limit q) (q_offset q) qc"
  have qc: "qc_limit ?qc = q_limit q" "qc_offset ?qc = q_offset q" "qc_skipped ?qc = 0" "qc_yielded ?qc = 0"
    "qc_concealed ?qc = qc_concealed qc" "0 < qc_prefetch ?qc" "source_yields ex ?qc rows"
    using assms by (auto simp: with_window_def fresh_cursor_def Let_def split: option.split)
  have rem: "remaining ?qc rows = windowed (q_limit q) (q_offset q) rows"
    by (simp add: remaining_def qc option.map_ident)
  from collect_yields [OF qc(7,6) rem, of "[]"] count_yields [OF qc(7,6) rem, of 0] show ?thesis
    by (simp add: hands_out_def collect_rows_def count_rows_def qc(5))
qed

lemma admits_True [simp]: "expr_admits env Expr_True row"
  by (simp add: expr_admits_def evaluate_def)

lemma hand_out_hands_out:
  assumes "fresh_cursor qc"
  shows "hands_out ex q (hand_out rows qc) (qc_concealed qc) rows"
proof -
  have "source_yields ex (hand_out rows qc) rows" by (simp add: source_yields_def hand_out_def admitted_def)
  moreover have "fresh_cursor (hand_out rows qc)" using assms by (simp add: fresh_cursor_def hand_out_def)
  ultimately show ?thesis using yields_hands_out [of ex "hand_out rows qc" rows q] by (simp add: hand_out_def)
qed

lemma windowed_take:
  assumes "length rows < 2 ^ 64"
  shows "windowed (Some l) n (take (saturating_add l n) rows) = windowed (Some l) n rows"
proof (cases "l + n \<le> 2 ^ 64 - 1")
  case True
  then show ?thesis by (simp add: windowed_def saturating_add_def drop_take)
next
  case False
  then have "length rows \<le> saturating_add l n" using assms by (simp add: saturating_add_def)
  then show ?thesis by (simp add: windowed_def)
qed

lemma hands_out_same: "windowed (q_limit q) (q_offset q) rows = windowed (q_limit q) (q_offset q) rows' \<Longrightarrow>
    hands_out ex q qc hidden rows = hands_out ex q qc hidden rows'"
  by (simp add: hands_out_def)

text \<open>The rows a cursor hands out: the source's, in the order asked for when the plan has to sort.\<close>

definition arranges :: "Plan \<Rightarrow> Row list \<Rightarrow> Row list \<Rightarrow> bool" where
  "arranges plan rows full \<longleftrightarrow>
     (case pl_sort plan of
        None \<Rightarrow> full = rows
      | Some ks \<Rightarrow> mset full = mset rows \<and> sorted_wrt (\<lambda>a b. compare_rows a b ks \<noteq> Greater) full)"

lemma open_cursor_yields:
  assumes "open_source ex t plan (fst (decode_inputs pn (length (td_columns t)) (q_compute q) (pl_output_columns plan))) = Inr src"
    and "source_yields ex (initial_cursor pn t plan (q_compute q) src) rows"
    and "pops_greatest (ex_pop ex)" and "list_all (row_shape n) rows" and "length rows < 2 ^ 64"
    and "widest_in_list (q_filter q) \<le> max_in_values limits" and "q_window q = []"
    and "pl_sort plan = None \<or> q_limit q \<noteq> None \<or> length rows \<le> max_sort_rows limits"
  shows "\<exists>qc full. open_cursor ex pn limits t plan q = Inr qc \<and> arranges plan rows full \<and>
    hands_out ex q qc (pl_concealed plan) full"
proof -
  let ?qc = "initial_cursor pn t plan (q_compute q) src"
  have fresh: "fresh_cursor ?qc" "qc_concealed ?qc = pl_concealed plan"
    by (simp_all add: fresh_cursor_def initial_cursor_def DEFAULT_PREFETCH_def split_def Let_def)
  then have pre: "0 < qc_prefetch ?qc" by (simp add: fresh_cursor_def)
  have source: "fresh_cursor (?qc\<lparr>qc_source := s\<rparr>)" for s using fresh(1) by (simp add: fresh_cursor_def)
  note handed = hand_out_hands_out [OF source, of ex q, simplified, unfolded fresh(2)]
  note opens = open_cursor_def [of ex pn limits t plan q] assms(1,6,7)
  show ?thesis
  proof (cases "pl_sort plan")
    case None
    then show ?thesis using yields_hands_out [OF assms(2) fresh(1), of q] fresh(2) opens by (simp add: arranges_def Let_def)
  next
    case (Some ks)
    show ?thesis
    proof (cases "q_limit q")
      case None
      obtain s where loop: "admitted_loop ex (max_sort_rows limits) (SortTooLarge (max_sort_rows limits)) ?qc [] =
          Inr (rows, ?qc\<lparr>qc_source := s\<rparr>)"
        using admitted_yields [OF assms(2) pre, of "max_sort_rows limits" _ "[]"] assms(8) Some None by fastforce
      let ?full = "sort_by (\<lambda>a b. compare_rows a b ks) rows"
      have "open_cursor ex pn limits t plan q = Inr (hand_out ?full (?qc\<lparr>qc_source := s\<rparr>))"
        using opens Some None loop by (simp add: Let_def)
      moreover have "arranges plan rows ?full"
        using rows.sort_by_sorted [OF assms(4), of ks] Some by (simp add: arranges_def)
      ultimately show ?thesis using handed by blast
    next
      case (Some l)
      show ?thesis
      proof (cases "0 < saturating_add l (q_offset q)")
        case True
        obtain full s where top: "top_n ex (saturating_add l (q_offset q)) ks ?qc =
            Inr (take (saturating_add l (q_offset q)) full, ?qc\<lparr>qc_source := s\<rparr>)"
          "mset full = mset rows" "sorted_wrt (\<lambda>a b. compare_rows a b ks \<noteq> Greater) full"
          using top_n_yields [OF assms(3,2) pre assms(4)] by metis
        have "open_cursor ex pn limits t plan q =
            Inr (hand_out (take (saturating_add l (q_offset q)) full) (?qc\<lparr>qc_source := s\<rparr>))"
          using opens Some \<open>pl_sort plan = Some ks\<close> True top(1) by (simp add: Let_def)
        moreover have "length full < 2 ^ 64" using top(2) assms(5) by (metis mset_eq_length)
        then have "windowed (q_limit q) (q_offset q) (take (saturating_add l (q_offset q)) full) =
            windowed (q_limit q) (q_offset q) full"
          using windowed_take [of full l "q_offset q"] Some by simp
        moreover have "arranges plan rows full" using top \<open>pl_sort plan = Some ks\<close> by (simp add: arranges_def)
        ultimately show ?thesis using handed hands_out_same by metis
      next
        case False
        then have "l = 0" by (simp add: saturating_add_def split: if_splits)
        then have "windowed (q_limit q) (q_offset q) [] = windowed (q_limit q) (q_offset q) (sort_by (\<lambda>a b. compare_rows a b ks) rows)"
          using Some by (simp add: windowed_def)
        moreover have "open_cursor ex pn limits t plan q = Inr (hand_out [] (?qc\<lparr>qc_source := src\<rparr>))"
          using opens Some \<open>pl_sort plan = Some ks\<close> False
          by (simp add: Let_def initial_cursor_def hand_out_def split_def)
        moreover have "arranges plan rows (sort_by (\<lambda>a b. compare_rows a b ks) rows)"
          using rows.sort_by_sorted [OF assms(4), of ks] \<open>pl_sort plan = Some ks\<close> by (simp add: arranges_def)
        ultimately show ?thesis using handed hands_out_same by metis
      qed
    qed
  qed
qed

end
