(* ===== verification/Query_Answer.thy ===== *)
theory Query_Answer
  imports Query_Stream
begin

text \<open>
  The answer a query owes for one row, and that every way of reading the row gives it: decoded whole or
  in two phases, read by its key, or assembled from an index entry that covers the query. The answer
  keeps the columns asked for, sorted by and filtered on, and appends the computed values.
\<close>

section \<open>The answer for a row\<close>

text \<open>What is relied on of computed values: they depend on the columns they report.\<close>

definition reads_only :: "'s Planner \<Rightarrow> ('s \<Rightarrow> Row \<Rightarrow> Value) \<Rightarrow> bool" where
  "reads_only pn eval \<longleftrightarrow>
     (\<forall>s. finite (pn_columns pn s) \<and>
        (\<forall>row row'. (\<forall>i\<in>pn_columns pn s. get row i = get row' i) \<longrightarrow> eval s row = eval s row'))"

definition computes_from :: "'s Planner \<Rightarrow> 's list \<Rightarrow> Ordinal \<Rightarrow> bool" where
  "computes_from pn compute i \<longleftrightarrow> (\<exists>s\<in>set compute. i \<in> pn_columns pn s)"

definition shown :: "'s Planner \<Rightarrow> TableDef \<Rightarrow> ColumnSet \<Rightarrow> 's list \<Rightarrow> Ordinal \<Rightarrow> bool" where
  "shown pn t out compute i \<longleftrightarrow> i \<in> cs_set out \<or> i \<in> set (td_primary_key t) \<and> \<not> computes_from pn compute i"

definition answer ::
  "'s Planner \<Rightarrow> ('s \<Rightarrow> Row \<Rightarrow> Value) \<Rightarrow> TableDef \<Rightarrow> ColumnSet \<Rightarrow> 's list \<Rightarrow> Row \<Rightarrow> Row" where
  "answer pn eval t out compute row =
     blank (shown pn t out compute) row @ drop (length row) (extend_row eval row compute [] None)"

lemma fold_inputs:
  "fold (\<lambda>input (dc, tr). if width \<le> input \<or> ColumnSet_contains dc input then (dc, tr)
       else (ColumnSet_insert input dc, tr @ [input])) xs (dc, tr) = (dc', tr') \<Longrightarrow> cs_inv dc \<Longrightarrow>
     cs_inv dc' \<and> cs_set dc' = cs_set dc \<union> {i \<in> set xs. i < width} \<and>
     set tr' = set tr \<union> ({i \<in> set xs. i < width} - cs_set dc)"
proof (induction xs arbitrary: dc tr)
  case (Cons x xs)
  show ?case
  proof (cases "width \<le> x \<or> ColumnSet_contains dc x")
    case True
    then show ?thesis using Cons by (auto simp: contains_cs_set)
  next
    case False
    then have "cs_inv dc' \<and> cs_set dc' = cs_set (ColumnSet_insert x dc) \<union> {i \<in> set xs. i < width} \<and>
        set tr' = set (tr @ [x]) \<union> ({i \<in> set xs. i < width} - cs_set (ColumnSet_insert x dc))"
      using Cons.IH [of "ColumnSet_insert x dc" "tr @ [x]"] Cons.prems by (simp add: cs_inv_insert)
    then show ?thesis using False by (auto simp: contains_cs_set cs_set_insert)
  qed
qed simp

lemma decode_inputs_sets:
  assumes "decode_inputs pn width compute out = (dc, tr)" and "cs_inv out" and "reads_only pn eval"
  shows "cs_inv dc \<and> cs_set dc = cs_set out \<union> {i. computes_from pn compute i \<and> i < width} \<and>
    set tr = {i. computes_from pn compute i \<and> i < width} - cs_set out"
proof -
  have "set (concat (map (\<lambda>s. sorted_list_of_set (pn_columns pn s)) compute)) = {i. computes_from pn compute i}"
    using assms(3) by (auto simp: reads_only_def computes_from_def)
  then show ?thesis using fold_inputs [OF assms(1) [unfolded decode_inputs_def] assms(2)] by auto
qed

section \<open>Computed values\<close>

text \<open>A computed value comes out the same from the whole row and from a row that has its inputs, or from an
  entry that holds it.\<close>

lemma extend_loop_agree:
  assumes "reads_only pn eval" and "length a = length b"
  shows "(\<And>k. k < length ss \<Longrightarrow>
        (\<exists>v. held = Some (n + k, v) \<and> (\<forall>x. eval (ss ! k) (b @ x) = v)) \<or>
        (\<forall>v. held \<noteq> Some (n + k, v)) \<and> (\<forall>i\<in>pn_columns pn (ss ! k). i < length b \<longrightarrow> a ! i = b ! i)) \<Longrightarrow>
     \<exists>extra. extend_loop eval held n (a @ x) ss = a @ x @ extra \<and> extend_loop eval None n (b @ x) ss = b @ x @ extra"
proof (induction ss arbitrary: n x)
  case (Cons s ss)
  have later: "(\<exists>v. held = Some (Suc n + k, v) \<and> (\<forall>x. eval (ss ! k) (b @ x) = v)) \<or>
      (\<forall>v. held \<noteq> Some (Suc n + k, v)) \<and> (\<forall>i\<in>pn_columns pn (ss ! k). i < length b \<longrightarrow> a ! i = b ! i)"
    if "k < length ss" for k using Cons.prems [of "Suc k"] that by simp
  have first: "(case held of Some (from, v) \<Rightarrow> if from = n then v else eval s (a @ x) | None \<Rightarrow> eval s (a @ x)) =
      eval s (b @ x)"
  proof (cases "\<exists>v. held = Some (n, v)")
    case True
    then show ?thesis using Cons.prems [of 0] by auto
  next
    case False
    then have "\<forall>i\<in>pn_columns pn s. i < length b \<longrightarrow> a ! i = b ! i" using Cons.prems [of 0] by auto
    then have "get (a @ x) i = get (b @ x) i" if "i \<in> pn_columns pn s" for i
      using that assms(2) by (auto simp: get_def nth_append)
    then have "eval s (a @ x) = eval s (b @ x)" using assms(1) by (auto simp: reads_only_def)
    then show ?thesis using False by (auto split: option.split)
  qed
  from Cons.IH [of "Suc n" "x @ [eval s (b @ x)]", OF later] show ?case by (auto simp: first)
qed simp

lemma fold_null_append:
  "set tr \<subseteq> {..<length a} \<Longrightarrow> fold (\<lambda>i vs. vs[i := Null]) tr (a @ x) = fold (\<lambda>i vs. vs[i := Null]) tr a @ x"
  by (induction tr arbitrary: a) (simp_all add: list_update_append)

lemma fold_null_nth:
  "length (fold (\<lambda>i vs. vs[i := Null]) tr a) = length (a :: Row)"
  "i < length a \<Longrightarrow> fold (\<lambda>i vs. vs[i := Null]) tr a ! i = (if i \<in> set tr then Null else a ! i)"
  by (induction tr arbitrary: a) (auto simp: nth_list_update)

lemma extend_row_answer:
  assumes "reads_only pn eval" and "length a = length row" and "set tr \<subseteq> {..<length row}"
    and "\<And>i. i < length row \<Longrightarrow>
      (if i \<in> set tr then Null else a ! i) = (if shown pn t out compute i then row ! i else Null)"
    and "\<And>k. k < length compute \<Longrightarrow>
      (\<exists>v. held = Some (k, v) \<and> (\<forall>x. eval (compute ! k) (row @ x) = v)) \<or>
      (\<forall>v. held \<noteq> Some (k, v)) \<and> (\<forall>i\<in>pn_columns pn (compute ! k). i < length row \<longrightarrow> a ! i = row ! i)"
    and "compute = [] \<Longrightarrow> tr = []"
  shows "extend_row eval a compute tr held = answer pn eval t out compute row"
proof -
  have base: "fold (\<lambda>i vs. vs[i := Null]) tr a = blank (shown pn t out compute) row"
    by (rule nth_equalityI) (use assms(2,4) in \<open>simp_all add: fold_null_nth blank_def\<close>)
  show ?thesis
  proof (cases "compute = []")
    case True
    then show ?thesis using base assms(6) by (simp add: answer_def extend_row_def)
  next
    case False
    obtain extra where "extend_loop eval held 0 (a @ []) compute = a @ [] @ extra"
      "extend_loop eval None 0 (row @ []) compute = row @ [] @ extra"
      using extend_loop_agree [OF assms(1,2), of compute held 0 "[]"] assms(5) by auto
    then show ?thesis
      using False base assms(2,3) by (simp add: answer_def extend_row_def fold_null_append)
  qed
qed


section \<open>Decoding\<close>

lemma wanted_blank:
  assumes "table_ok t" and "length body < 2 ^ 64" and "decode_row t pk body = Inr row"
    and "cs_inv c" and "cs_set c \<subseteq> {..<length (td_columns t)}" and "length row = length (td_columns t)"
  shows "decode_row_columns t pk body (wanted_columns c t) =
    Inr (blank (\<lambda>i. i \<in> set (td_primary_key t) \<or> i \<in> cs_set c) row)"
proof (cases "covers_all c (length (td_columns t))")
  case True
  then have "card {..<length (td_columns t)} \<le> card (cs_set c)" using assms(4) by (simp add: covers_all_def cs_inv_def)
  then have "cs_set c = {..<length (td_columns t)}" using card_seteq [OF finite_lessThan assms(5)] by simp
  then have "blank (\<lambda>i. i \<in> set (td_primary_key t) \<or> i \<in> cs_set c) row = row"
    using assms(6) by (intro nth_equalityI) (simp_all add: blank_def)
  then show ?thesis using True assms(3) by (simp add: wanted_columns_def decode_row_def)
next
  case False
  then show ?thesis using decode_project [OF assms(1-3), of c] by (simp add: wanted_columns_def contains_cs_set)
qed

lemma admits_agree:
  assumes "expr_wf predicate" and "list_all wf_value a" and "list_all wf_value b"
    and "\<And>i. i \<in> expr_columns predicate \<Longrightarrow> get a i = get b i"
  shows "expr_admits env (prepared predicate) a = expr_admits env predicate b"
proof -
  have "evaluate_over env (get a) (prepared predicate) = evaluate_over env (get a) predicate"
    using assms(1,2) by (intro evaluate_prepared) (auto simp: list_all_length)
  also have "\<dots> = evaluate_over env (get b) predicate" using assms(4) by (rule evaluate_agree)
  finally show ?thesis by (simp add: expr_admits_def evaluate_def)
qed

section \<open>The columns of a plan\<close>

lemma finite_expr_columns [simp]: "finite (expr_columns e)"
  by (induction e) (auto simp: expr_columns_parts, auto simp: expr_columns_def)

lemma plan_columns:
  fixes pn :: "'s Planner"
  assumes "plan = (plan_hinted pn t predicate ord projection sort_keys hint compute)\<lparr>pl_access := access, pl_concealed := hidden\<rparr>"
  defines "width \<equiv> length (td_columns t)"
  shows "pl_residual plan = prepared predicate" and "pl_concealed plan = hidden" and "pl_order plan = ord"
    and "cs_inv (pl_output_columns plan)" and "cs_set (pl_output_columns plan) \<subseteq> {..<width}"
    and "expr_columns predicate \<inter> {..<width} \<subseteq> cs_set (pl_output_columns plan)"
    and "cs_inv (pl_predicate_columns plan)"
    and "compute = [] \<Longrightarrow> cs_set (pl_predicate_columns plan) = expr_columns predicate \<inter> {..<width}"
    and "sk_column ` set sort_keys \<inter> {..<width} \<subseteq> cs_set (pl_output_columns plan)"
proof -
  have out: "pl_output_columns plan = (case projection_columns projection of
      None \<Rightarrow> ColumnSet_all width
    | Some columns \<Rightarrow>
        fold ColumnSet_insert
          (filter (\<lambda>c. c < width) columns @ filter (\<lambda>c. c < width) (map sk_column sort_keys))
          (ColumnSet_from_iter (filter (\<lambda>c. c < width) (sorted_list_of_set (expr_columns predicate)))))"
    unfolding width_def by (simp add: assms(1) plan_hinted_def Let_def split_def)
  have pred: "pl_predicate_columns plan = ColumnSet_from_iter (concat (map (\<lambda>c. expanded_inputs pn c width compute)
      (sorted_list_of_set (expr_columns predicate))))"
    unfolding width_def by (simp add: assms(1) plan_hinted_def Let_def split_def)
  show "pl_residual plan = prepared predicate" "pl_concealed plan = hidden" "pl_order plan = ord"
    by (simp_all add: assms(1) plan_hinted_def Let_def split_def)
  show "cs_inv (pl_output_columns plan)" "cs_set (pl_output_columns plan) \<subseteq> {..<width}"
    "expr_columns predicate \<inter> {..<width} \<subseteq> cs_set (pl_output_columns plan)"
    "sk_column ` set sort_keys \<inter> {..<width} \<subseteq> cs_set (pl_output_columns plan)"
    unfolding out by (auto simp: fold_insert ColumnSet_all_def split: option.split)
  show "cs_inv (pl_predicate_columns plan)" by (simp add: pred)
  show "cs_set (pl_predicate_columns plan) = expr_columns predicate \<inter> {..<width}" if "compute = []"
    using that by (auto simp: pred expanded_inputs_def get_def split: if_splits)
qed

lemma blank_wf: "list_all wf_value row \<Longrightarrow> list_all wf_value (blank keep row)"
  by (auto simp: blank_def list_all_length)

lemma get_blank: "get (blank keep row) i = (if i < length row then Some (if keep i then row ! i else Null) else None)"
  by (simp add: get_def blank_def)

text \<open>What a query computes and returns for the rows of a table, and that its columns suffice.\<close>

definition query_fits :: "'s Planner \<Rightarrow> ('s \<Rightarrow> Row \<Rightarrow> Value) \<Rightarrow> TableDef \<Rightarrow> Expr \<Rightarrow> 's list \<Rightarrow> Row \<Rightarrow> bool" where
  "query_fits pn eval t predicate compute row \<longleftrightarrow>
     row_ok t row \<and> reads_only pn eval \<and> expr_wf predicate \<and> list_all wf_value (extend_row eval row compute [] None)"

lemma answer_columns:
  assumes "query_fits pn eval t predicate compute row"
    and "expr_columns predicate \<inter> {..<length (td_columns t)} \<subseteq> cs_set out"
  shows "expr_admits env (prepared predicate) (answer pn eval t out compute row) =
      expr_admits env predicate (extend_row eval row compute [] None)"
    and "row_shape (length (td_columns t) + length compute) (answer pn eval t out compute row)"
proof -
  have len: "length row = length (td_columns t)" using assms(1) row_ok_length by (auto simp: query_fits_def)
  obtain extra where extra: "extend_row eval row compute [] None = row @ extra" "length extra = length compute"
    by (rule extend_append)
  have ans: "answer pn eval t out compute row = blank (shown pn t out compute) row @ extra"
    by (simp add: answer_def extra(1))
  have wf: "list_all wf_value (row @ extra)" using assms(1) extra(1) by (simp add: query_fits_def)
  then have wf': "list_all wf_value (blank (shown pn t out compute) row @ extra)" using blank_wf by simp
  have "get (blank (shown pn t out compute) row @ extra) i = get (row @ extra) i" if "i \<in> expr_columns predicate" for i
    using that assms(2) len by (auto simp: get_def nth_append blank_def shown_def)
  then show "expr_admits env (prepared predicate) (answer pn eval t out compute row) =
      expr_admits env predicate (extend_row eval row compute [] None)"
    unfolding ans extra(1) using admits_agree [OF _ wf' wf] assms(1) by (simp add: query_fits_def)
  show "row_shape (length (td_columns t) + length compute) (answer pn eval t out compute row)"
    using wf' len extra(2) by (simp add: ans row_shape_def)
qed


section \<open>Rows read whole\<close>

lemma initial_cursor_simps [simp]:
  "qc_table (initial_cursor pn t plan compute src) = t"
  "qc_source (initial_cursor pn t plan compute src) = src"
  "qc_residual (initial_cursor pn t plan compute src) = pl_residual plan"
  "qc_filter_columns (initial_cursor pn t plan compute src) = pl_predicate_columns plan"
  "qc_compute (initial_cursor pn t plan compute src) = compute"
  "qc_from_entry (initial_cursor pn t plan compute src) = plan_from_entry pn t plan compute"
  "qc_decode_columns (initial_cursor pn t plan compute src) =
     fst (decode_inputs pn (length (td_columns t)) compute (pl_output_columns plan))"
  "qc_transient (initial_cursor pn t plan compute src) =
     snd (decode_inputs pn (length (td_columns t)) compute (pl_output_columns plan))"
  by (simp_all add: initial_cursor_def split_def Let_def)

text \<open>A row decoded in the columns the cursor decodes extends to the answer.\<close>

lemma decoded_answer:
  assumes "reads_only pn eval" and "cs_inv out" and "decode_inputs pn (length row) compute out = (dc, tr)"
  shows "extend_row eval (blank (\<lambda>i. i \<in> set (td_primary_key t) \<or> i \<in> cs_set dc) row) compute tr None =
    answer pn eval t out compute row"
proof -
  note sets = decode_inputs_sets [OF assms(3,2,1)]
  show ?thesis
  proof (rule extend_row_answer [OF assms(1)])
    show "set tr \<subseteq> {..<length row}" using sets by auto
    show "(if i \<in> set tr then Null else blank (\<lambda>i. i \<in> set (td_primary_key t) \<or> i \<in> cs_set dc) row ! i) =
        (if shown pn t out compute i then row ! i else Null)" if "i < length row" for i
      using that sets by (auto simp: blank_def shown_def)
    show "(\<exists>v. None = Some (k, v) \<and> (\<forall>x. eval (compute ! k) (row @ x) = v)) \<or>
        (\<forall>v. None \<noteq> Some (k, v)) \<and>
        (\<forall>i\<in>pn_columns pn (compute ! k). i < length row \<longrightarrow> blank (\<lambda>i. i \<in> set (td_primary_key t) \<or> i \<in> cs_set dc) row ! i = row ! i)"
      if "k < length compute" for k
      using that sets by (auto simp: blank_def computes_from_def)
    show "tr = []" if "compute = []" using that sets by (auto simp: computes_from_def)
  qed simp
qed

lemma materialise_answer:
  assumes "table_ok t" and "length body < 2 ^ 64" and "decode_row t pk body = Inr row"
    and "query_fits pn (ex_eval ex) t predicate compute row"
    and "plan = (plan_hinted pn t predicate ord projection sort_keys hint compute)\<lparr>pl_access := access, pl_concealed := hidden\<rparr>"
  shows "materialise_raw ex (initial_cursor pn t plan compute src) (pk, body) =
    Inr (if expr_admits (ex_env ex) predicate (extend_row (ex_eval ex) row compute [] None)
         then Some (answer pn (ex_eval ex) t (pl_output_columns plan) compute row) else None)"
proof -
  note cols = plan_columns [OF assms(5)]
  have len: "length row = length (td_columns t)" and reads: "reads_only pn (ex_eval ex)" and wf: "list_all wf_value row"
    using assms(4) row_ok_length by (auto simp: query_fits_def row_ok_def)
  obtain dc tr where di: "decode_inputs pn (length (td_columns t)) compute (pl_output_columns plan) = (dc, tr)"
    by fastforce
  note sets = decode_inputs_sets [OF di cols(4) reads]
  have dcs: "cs_inv dc" "cs_set dc \<subseteq> {..<length (td_columns t)}" using sets cols(5) by auto
  note whole = wanted_blank [OF assms(1-3) dcs len]
  note ext = decoded_answer [OF reads cols(4) di [folded len], of t]
  note ans = answer_columns(1) [OF assms(4) cols(6), of "ex_env ex"]
  show ?thesis
  proof (cases "compute = []")
    case False
    then show ?thesis
      by (simp add: materialise_raw_def materialise_def di whole ext cols(1) ans Let_def map_err_def)
  next
    case True
    note di' = di [unfolded True]
    let ?phase = "qc_two_phase (initial_cursor pn t plan compute src)"
    let ?first = "if ?phase then pl_predicate_columns plan else dc"
    have first: "cs_inv ?first" "cs_set ?first \<subseteq> {..<length (td_columns t)}" using dcs cols(7,8) True by auto
    let ?keep = "\<lambda>i. i \<in> set (td_primary_key t) \<or> i \<in> cs_set ?first"
    have "expr_admits (ex_env ex) (prepared predicate) (blank ?keep row) = expr_admits (ex_env ex) predicate row"
    proof (rule admits_agree)
      show "get (blank ?keep row) i = get row i" if "i \<in> expr_columns predicate" for i
        using that sets cols(6,8) True len by (auto simp: get_blank get_def)
    qed (use assms(4) wf blank_wf in \<open>auto simp: query_fits_def\<close>)
    moreover have "blank (\<lambda>i. i \<in> set (td_primary_key t) \<or> i \<in> cs_set dc) row =
        answer pn (ex_eval ex) t (pl_output_columns plan) compute row"
      using ext True by simp
    ultimately show ?thesis
      using True wanted_blank [OF assms(1-3) first len] whole
      by (auto simp: materialise_raw_def materialise_def di' cols(1) Let_def map_err_def)
  qed
qed

lemma projected_answer:
  assumes "table_ok t" and "length body < 2 ^ 64" and "decode_row t pk body = Inr row"
    and "query_fits pn eval t predicate compute row"
    and "plan = (plan_hinted pn t predicate ord projection sort_keys hint compute)\<lparr>pl_access := access, pl_concealed := hidden\<rparr>"
    and "decode_inputs pn (length (td_columns t)) compute (pl_output_columns plan) = (dc, tr)"
  shows "\<exists>decoded. decode_row_columns t pk body (Some dc) = Inr decoded \<and>
    extend_row eval decoded compute tr None = answer pn eval t (pl_output_columns plan) compute row"
proof -
  have len: "length row = length (td_columns t)" and reads: "reads_only pn eval"
    using assms(4) row_ok_length by (auto simp: query_fits_def)
  show ?thesis
    using decode_project [OF assms(1-3), of dc] decoded_answer [OF reads plan_columns(4) [OF assms(5)] assms(6) [folded len], of t]
    by (simp add: contains_cs_set)
qed


section \<open>Rows from entries\<close>

text \<open>What is relied on of index expressions: the planner sees the expression of an index that has one, and
  it gives a value of its declared type in the form the decoder gives back.\<close>

definition expressions_ok :: "'s Planner \<Rightarrow> TableDef \<Rightarrow> bool" where
  "expressions_ok pn t \<longleftrightarrow>
     (\<forall>ix\<in>set (td_indexes t).
        (pn_expression pn ix \<noteq> None \<longrightarrow> ix_expression ix \<noteq> None) \<and>
        (\<forall>e row. ix_expression ix = Some e \<longrightarrow> row_ok t row \<longrightarrow>
           fits (ie_produces e) (ie_compute e row) \<and> canon (ie_compute e row) = ie_compute e row))"

lemma fold_assign:
  "length (fold (\<lambda>(c, v) vs. if keep c then vs[at c := v] else vs) ps (start :: 'a list)) = length start"
  "(\<And>c v. (c, v) \<in> set ps \<Longrightarrow> v = g (at c)) \<Longrightarrow> i < length start \<Longrightarrow>
     fold (\<lambda>(c, v) vs. if keep c then vs[at c := v] else vs) ps start ! i =
       (if list_ex (\<lambda>(c, _). at c = i \<and> keep c) ps then g i else start ! i)"
proof (induction ps arbitrary: start)
  case (Cons p ps)
  obtain c v where p: "p = (c, v)" by (cases p)
  { case 1 then show ?case using Cons.IH(1) by (simp add: p) }
  { case 2
    then have v: "v = g (at c)" by (auto simp: p)
    have "fold (\<lambda>(c, v) vs. if keep c then vs[at c := v] else vs) ps (if keep c then start[at c := v] else start) ! i =
        (if list_ex (\<lambda>(c, _). at c = i \<and> keep c) ps then g i else (if keep c then start[at c := v] else start) ! i)"
      using Cons.IH(2) [of "if keep c then start[at c := v] else start"] 2 by simp
    then show ?case using 2(2) v 
      by (cases "keep c"; cases "at c = i"; cases "list_ex (\<lambda>(c, _). at c = i \<and> keep c) ps") (simp_all add: p) }
qed simp_all

lemma entry_row_length:
  "length (row_from_index_entry t ix vs pk dc) = length (td_columns t)"
proof -
  have "length (fold (\<lambda>(i, v) vs. vs[i := v]) ps start) = length (start :: Row)" for ps start
    by (induction ps arbitrary: start) auto
  then show ?thesis by (simp add: row_from_index_entry_def fold_assign(1))
qed

lemma entry_row_nth:
  assumes "table_ok t" and "ix \<in> set (td_indexes t)" and "\<not> ix_text ix" and "row_ok t row" and "i < length row"
  shows "row_from_index_entry t ix (key_values ix row) (primary_key_values row t) dc ! i =
    (if i \<in> set (td_primary_key t) \<or> holds_column t ix i \<and> i \<in> cs_set dc then row ! i else Null)"
proof -
  have len: "length row = length (td_columns t)" using assms(4) by (rule row_ok_length)
  have ix: "index_ok (td_columns t) ix" using assms(1,2) by (simp add: table_ok_def Let_def)
  let ?g = "\<lambda>j. value_or_null row j"
  have vals: "zip (ix_columns ix) (key_values ix row) = map (\<lambda>c. (c, ?g (ic_ordinal c))) (ix_columns ix)"
  proof (cases "ix_expression ix")
    case None
    then show ?thesis
      by (simp add: key_values_def index_values_def project_def zip_map2 zip_same_conv_map)
  next
    case (Some e)
    then show ?thesis using ix by (simp add: index_ok_def)
  qed
  have keys: "zip (td_primary_key t) (primary_key_values row t) = map (\<lambda>j. (j, ?g j)) (td_primary_key t)"
    by (simp add: primary_key_values_def project_def zip_map2 zip_same_conv_map)
  let ?nulls = "replicate (length (td_columns t)) Null"
  let ?mid = "fold (\<lambda>(c, v) vs. if ColumnSet_contains dc (ic_ordinal c) then vs[ic_ordinal c := v] else vs)
      (map (\<lambda>c. (c, ?g (ic_ordinal c))) (ix_columns ix)) ?nulls"
  note mid = fold_assign(1) [where keep = "\<lambda>c. ColumnSet_contains dc (ic_ordinal c)" and at = ic_ordinal
      and ps = "map (\<lambda>c. (c, ?g (ic_ordinal c))) (ix_columns ix)" and start = ?nulls]
    fold_assign(2) [where keep = "\<lambda>c. ColumnSet_contains dc (ic_ordinal c)" and at = ic_ordinal and g = ?g
      and ps = "map (\<lambda>c. (c, ?g (ic_ordinal c))) (ix_columns ix)" and start = ?nulls and i = i]
  note last = fold_assign(1) [where keep = "\<lambda>_ :: nat. True" and at = "\<lambda>j. j"
      and ps = "map (\<lambda>j. (j, ?g j)) (td_primary_key t)" and start = ?mid]
    fold_assign(2) [where keep = "\<lambda>_ :: nat. True" and at = "\<lambda>j. j" and g = ?g
      and ps = "map (\<lambda>j. (j, ?g j)) (td_primary_key t)" and start = ?mid and i = i]
  have g: "?g i = row ! i" using assms(5) by (simp add: value_or_null_def get_def)
  have entry: "row_from_index_entry t ix (key_values ix row) (primary_key_values row t) dc =
      fold (\<lambda>(i, v) vs. vs[i := v]) (map (\<lambda>j. (j, ?g j)) (td_primary_key t)) ?mid"
    by (simp add: row_from_index_entry_def vals keys)
  have i: "i < length ?nulls" "i < length ?mid" using assms(5) len mid(1) by simp_all
  have "?mid ! i = (if list_ex (\<lambda>(c, _). ic_ordinal c = i \<and> ColumnSet_contains dc (ic_ordinal c))
      (map (\<lambda>c. (c, ?g (ic_ordinal c))) (ix_columns ix)) then ?g i else ?nulls ! i)"
    by (rule mid(2)) (use i in auto)
  then have "?mid ! i = (if holds_column t ix i \<and> i \<in> cs_set dc then row ! i else Null)"
    if "i \<notin> set (td_primary_key t)"
    unfolding g using i(1) that by (auto simp: list_ex_iff holds_column_def contains_cs_set)
  moreover have "fold (\<lambda>(i, v) vs. if True then vs[i := v] else vs) (map (\<lambda>j. (j, ?g j)) (td_primary_key t)) ?mid ! i =
      (if list_ex (\<lambda>(c, _). c = i \<and> True) (map (\<lambda>j. (j, ?g j)) (td_primary_key t)) then ?g i else ?mid ! i)"
    by (rule last(2)) (use i in auto)
  then have "fold (\<lambda>(i, v) vs. vs[i := v]) (map (\<lambda>j. (j, ?g j)) (td_primary_key t)) ?mid ! i =
      (if i \<in> set (td_primary_key t) then row ! i else ?mid ! i)"
    unfolding g by (auto simp: list_ex_iff)
  ultimately show "row_from_index_entry t ix (key_values ix row) (primary_key_values row t) dc ! i =
      (if i \<in> set (td_primary_key t) \<or> holds_column t ix i \<and> i \<in> cs_set dc then row ! i else Null)"
    unfolding entry by auto
qed


lemma available_loop_all:
  "take (length available) (available_loop cols holds width n_all from available ss) = available \<and>
   length (available_loop cols holds width n_all from available ss) = length available + length ss \<and>
   (\<forall>k < length ss. available_loop cols holds width n_all from available ss ! (length available + k) \<longrightarrow>
      Some (length available + k) = from \<or> (\<forall>i\<in>cols (ss ! k). i < width \<longrightarrow> holds i))"
proof (induction ss arbitrary: available)
  case (Cons s ss)
  define ready where "ready \<longleftrightarrow> Some (length available) = from \<or>
    (\<forall>i\<in>cols s. if i < width then holds i else case get available (i - width) of Some r \<Rightarrow> r | None \<Rightarrow> n_all \<le> i - width)"
  have ready: "ready \<Longrightarrow> Some (length available) = from \<or> (\<forall>i\<in>cols s. i < width \<longrightarrow> holds i)"
    unfolding ready_def by (metis (mono_tags, lifting))
  have loop: "available_loop cols holds width n_all from available (s # ss) =
      available_loop cols holds width n_all from (available @ [ready]) ss"
    by (simp only: available_loop.simps Let_def ready_def)
  let ?all = "available_loop cols holds width n_all from (available @ [ready]) ss"
  have ih: "take (Suc (length available)) ?all = available @ [ready]" "length ?all = Suc (length available + length ss)"
    "\<And>k. k < length ss \<Longrightarrow> ?all ! (Suc (length available) + k) \<Longrightarrow>
       Some (Suc (length available) + k) = from \<or> (\<forall>i\<in>cols (ss ! k). i < width \<longrightarrow> holds i)"
    using Cons [of "available @ [ready]"] by simp_all
  have "?all ! length available = take (Suc (length available)) ?all ! length available"
    "take (length available) ?all = take (length available) (take (Suc (length available)) ?all)" by simp_all
  then have at: "?all ! length available = ready" "take (length available) ?all = available" unfolding ih(1) by simp_all
  have "Some (length available + k) = from \<or> (\<forall>i\<in>cols ((s # ss) ! k). i < width \<longrightarrow> holds i)"
    if "k < length (s # ss)" "?all ! (length available + k)" for k
    using that at(1) ih(3) ready by (cases k) auto
  then show ?case unfolding loop using ih(2) at(2) by simp
qed simp

text \<open>The context the planner matches an index in.\<close>

definition plan_context ::
  "TableDef \<Rightarrow> Expr \<Rightarrow> Projection \<Rightarrow> SortKey list \<Rightarrow> 's list \<Rightarrow> 's MatchContext \<Rightarrow> bool" where
  "plan_context t predicate projection sort_keys compute cx \<longleftrightarrow>
     mc_table cx = t \<and> mc_compute cx = compute \<and> mc_width cx = length (td_columns t) \<and> mc_predicate cx = predicate \<and>
     mc_constraints cx = collect_constraints (conjuncts predicate) \<and>
     mc_needed cx =
       (case projection_columns projection of
          None \<Rightarrow> Needed_All
        | Some columns \<Rightarrow>
            Needed_Some (expr_columns predicate \<union> set columns \<union> sk_column ` set sort_keys \<union>
              {length (td_columns t)..<length (td_columns t) + length compute}))"

lemma covers_columns:
  assumes "covers pn cx ix" and "plan_context t predicate projection sort_keys compute cx"
    and "plan = (plan_hinted pn t predicate ord projection sort_keys hint compute)\<lparr>pl_access := access, pl_concealed := hidden\<rparr>"
  shows "\<not> ix_text ix" and "i \<in> cs_set (pl_output_columns plan) \<Longrightarrow> holds_column t ix i"
    and "k < length compute \<Longrightarrow>
      Some k = expression_position pn ix compute \<or>
      (\<forall>i\<in>pn_columns pn (compute ! k). i < length (td_columns t) \<longrightarrow> holds_column t ix i)"
proof -
  show plain: "\<not> ix_text ix" using assms(1) by (auto simp: covers_def split: if_splits)
  let ?width = "length (td_columns t)" and ?holds = "holds_column t ix"
  let ?available = "available_loop (pn_columns pn) ?holds ?width (length compute) (expression_position pn ix compute) [] compute"
  note cx = assms(2) [unfolded plan_context_def]
  note avail = available_loop_all [of "[]" "pn_columns pn" ?holds ?width "length compute" "expression_position pn ix compute" compute]
  have out: "pl_output_columns plan = (case projection_columns projection of
      None \<Rightarrow> ColumnSet_all ?width
    | Some columns \<Rightarrow>
        fold ColumnSet_insert
          (filter (\<lambda>c. c < ?width) columns @ filter (\<lambda>c. c < ?width) (map sk_column sort_keys))
          (ColumnSet_from_iter (filter (\<lambda>c. c < ?width) (sorted_list_of_set (expr_columns predicate)))))"
    by (simp add: assms(3) plan_hinted_def Let_def split_def)
  have "(\<forall>i\<in>cs_set (pl_output_columns plan). ?holds i) \<and>
      (\<forall>k<length compute. Some k = expression_position pn ix compute \<or> (\<forall>i\<in>pn_columns pn (compute ! k). i < ?width \<longrightarrow> ?holds i))"
  proof (cases "projection_columns projection")
    case None
    then have "\<And>i. i < ?width \<Longrightarrow> ?holds i" using assms(1) cx plain by (auto simp: covers_def Let_def list_all_iff)
    then show ?thesis using None by (auto simp: out ColumnSet_all_def fold_insert)
  next
    case (Some columns)
    let ?stands = "\<lambda>i. if i < ?width then ?holds i else case get ?available (i - ?width) of None \<Rightarrow> True | Some b \<Rightarrow> b"
    have held: "?stands i" if "i \<in> expr_columns predicate \<union> set columns \<union> sk_column ` set sort_keys \<union> {?width..<?width + length compute}" for i
    proof -
      have "\<forall>i\<in>expr_columns predicate \<union> set columns \<union> sk_column ` set sort_keys \<union> {?width..<?width + length compute}. ?stands i"
        using assms(1) cx plain Some by (simp add: covers_def Let_def cong: if_cong)
      then show ?thesis using that by blast
    qed
    have "?available ! k" if "k < length compute" for k
      using held [of "?width + k"] that avail by (auto simp: get_def)
    then have "Some k = expression_position pn ix compute \<or> (\<forall>i\<in>pn_columns pn (compute ! k). i < ?width \<longrightarrow> ?holds i)"
      if "k < length compute" for k using that avail by auto
    moreover have "?holds i" if "i \<in> cs_set (pl_output_columns plan)" for i
      using that held [of i] Some by (auto simp: out fold_insert)
    ultimately show ?thesis by blast
  qed
  then show "i \<in> cs_set (pl_output_columns plan) \<Longrightarrow> ?holds i" and "k < length compute \<Longrightarrow>
      Some k = expression_position pn ix compute \<or> (\<forall>i\<in>pn_columns pn (compute ! k). i < ?width \<longrightarrow> ?holds i)"
    by blast+
qed

lemma covering_answer:
  assumes "table_ok t" and "ix \<in> set (td_indexes t)" and "covers pn cx ix"
    and "plan_context t predicate projection sort_keys compute cx"
    and "plan = (plan_hinted pn t predicate ord projection sort_keys hint compute)\<lparr>pl_access := access, pl_concealed := hidden\<rparr>"
    and "query_fits pn eval t predicate compute row" and "planner_ok pn env eval t" and "expressions_ok pn t"
    and "decode_inputs pn (length (td_columns t)) compute (pl_output_columns plan) = (dc, tr)"
  shows "extend_row eval (row_from_index_entry t ix (key_values ix row) (primary_key_values row t) dc) compute tr
      (Option.bind (expression_position pn ix compute) (\<lambda>p. map_option (\<lambda>v. (p, v)) (get (key_values ix row) 0))) =
    answer pn eval t (pl_output_columns plan) compute row"
proof -
  let ?row = "row_from_index_entry t ix (key_values ix row) (primary_key_values row t) dc"
  let ?held = "Option.bind (expression_position pn ix compute) (\<lambda>p. map_option (\<lambda>v. (p, v)) (get (key_values ix row) 0))"
  note cov = covers_columns [OF assms(3-5)]
  have ok: "row_ok t row" and reads: "reads_only pn eval" using assms(6) by (simp_all add: query_fits_def)
  have len: "length row = length (td_columns t)" using ok by (rule row_ok_length)
  note sets = decode_inputs_sets [OF assms(9) plan_columns(4) [OF assms(5)] reads]
  note entry = entry_row_nth [OF assms(1,2) cov(1) ok]
  have held: "?held = Some (p, v) \<Longrightarrow> expression_position pn ix compute = Some p \<and> (\<forall>x. eval (compute ! p) (row @ x) = v)" for p v
  proof -
    assume "?held = Some (p, v)"
    then have p: "expression_position pn ix compute = Some p" "get (key_values ix row) 0 = Some v"
      by (auto simp: bind_eq_Some_conv simp del: get_eq_Some)
    then obtain s where s: "pn_expression pn ix = Some s" "compute ! p = s"
      using position_Some by (fastforce simp: expression_position_def bind_eq_Some_conv)
    then obtain e where e: "ix_expression ix = Some e" using assms(2,8) by (auto simp: expressions_ok_def)
    then have "v = ie_compute e row" using p(2) by (simp add: key_values_def get_def)
    then show ?thesis using assms(2,7) s e p(1) len by (auto simp: planner_ok_def)
  qed
  have given: "expression_position pn ix compute = Some p \<Longrightarrow> \<exists>v. ?held = Some (p, v)" for p
  proof -
    assume p: "expression_position pn ix compute = Some p"
    then have "pn_expression pn ix \<noteq> None" by (auto simp: expression_position_def bind_eq_Some_conv)
    then obtain e where "ix_expression ix = Some e" using assms(2,8) by (auto simp: expressions_ok_def)
    then show ?thesis using p by (simp add: key_values_def get_def)
  qed
  show ?thesis
  proof (rule extend_row_answer [OF reads])
    show "length ?row = length row" by (simp add: entry_row_length len)
    show "set tr \<subseteq> {..<length row}" using sets len by auto
    show "(if i \<in> set tr then Null else ?row ! i) = (if shown pn t (pl_output_columns plan) compute i then row ! i else Null)"
      if "i < length row" for i
      using that sets cov(2) [of i] len by (auto simp: entry shown_def)
    show "(\<exists>v. ?held = Some (k, v) \<and> (\<forall>x. eval (compute ! k) (row @ x) = v)) \<or>
        (\<forall>v. ?held \<noteq> Some (k, v)) \<and> (\<forall>i\<in>pn_columns pn (compute ! k). i < length row \<longrightarrow> ?row ! i = row ! i)"
      if kth: "k < length compute" for k
    proof (cases "expression_position pn ix compute = Some k")
      case True
      then show ?thesis using given held by blast
    next
      case False
      moreover have "?row ! i = row ! i" if i: "i \<in> pn_columns pn (compute ! k)" "i < length row" for i
        using cov(3) [OF kth] False i sets len kth by (auto simp: entry computes_from_def)
      ultimately show ?thesis using held by blast
    qed
    show "tr = []" if "compute = []" using that sets by (auto simp: computes_from_def)
  qed
qed

end
