(* ===== verification/Plan_Shape.thy ===== *)
theory Plan_Shape
  imports Query_Answer
begin

text \<open>
  What an access path of the planner looks like, beyond reaching every admitted row: its ranges stay
  inside the key space of the table or of the index, no key lies in two of its ranges, its point keys are
  distinct keys of the table, and a row has at most one entry in what a scan of an index reads. So a walk
  over it meets every row it reaches once.
\<close>

section \<open>Literals\<close>

text \<open>A literal compared for equality with a column of the primary key has the column's type, in the form
  it reads back: the key of a point read is made of such literals, and returned as the row's key.\<close>

definition key_literal :: "TableDef \<Rightarrow> Ordinal \<Rightarrow> Value \<Rightarrow> bool" where
  "key_literal t i v \<longleftrightarrow> (i \<in> set (td_primary_key t) \<longrightarrow> fits (col_ty (td_columns t ! i)) v \<and> canon v = v)"

definition literals_ok :: "TableDef \<Rightarrow> Expr \<Rightarrow> bool" where
  "literals_ok t predicate \<longleftrightarrow>
     (\<forall>e\<in>set (conjuncts predicate).
        case e of
          Expr_Compare i Op_Eq v \<Rightarrow> key_literal t i v
        | Expr_In i vs \<Rightarrow> list_all (key_literal t i) vs
        | _ \<Rightarrow> True)"

definition column_from :: "(Ordinal \<Rightarrow> Value \<Rightarrow> bool) \<Rightarrow> Ordinal \<Rightarrow> ColumnConstraints \<Rightarrow> bool" where
  "column_from P i c \<longleftrightarrow>
     (\<forall>v. cc_equals c = Some v \<longrightarrow> P i v) \<and> (\<forall>vs. cc_any_of c = Some vs \<longrightarrow> list_all (P i) vs)"

definition values_from :: "(Ordinal \<Rightarrow> Value \<Rightarrow> bool) \<Rightarrow> constraints \<Rightarrow> bool" where
  "values_from P cs \<longleftrightarrow> (\<forall>(i, c)\<in>set cs. column_from P i c)"

lemma with_entry_values:
  assumes "\<And>c. column_from P i c \<Longrightarrow> column_from P i (f c)"
  shows "values_from P out \<Longrightarrow> values_from P (with_entry i f out)"
proof (induction out)
  case Nil
  have "column_from P i cc_default" by (simp add: column_from_def cc_default_def)
  then show ?case using assms by (simp add: values_from_def)
next
  case (Cons jc out)
  then show ?case using assms by (cases jc) (auto simp: values_from_def)
qed

lemma constrain_values:
  assumes "\<And>i. P i Null" and "values_from P out"
    and "case e of Expr_Compare i Op_Eq v \<Rightarrow> P i v | Expr_In i vs \<Rightarrow> list_all (P i) vs | _ \<Rightarrow> True"
  shows "values_from P (constrain e out)"
proof (cases e)
  case (Expr_Compare i oper v)
  then show ?thesis using assms(2,3)
    by (auto simp: constrain_def column_from_def intro!: with_entry_values split: CmpOp.splits)
next
  case (Expr_In i vs)
  then show ?thesis using assms(2,3)
    by (auto simp: constrain_def column_from_def get_or_insert_def intro!: with_entry_values split: option.splits)
next
  case (Expr_IsNull i negated)
  then show ?thesis using assms(1,2)
    by (cases negated) (auto simp: constrain_def column_from_def intro!: with_entry_values)
next
  case (Expr_Like i pattern insensitive negated)
  then show ?thesis using assms(2)
    by (cases insensitive; cases negated)
      (auto simp: constrain_def column_from_def intro!: with_entry_values split: option.splits)
qed (use assms(2) in \<open>simp_all add: constrain_def\<close>)

lemma collect_values:
  assumes "\<And>i. P i Null"
    and "\<And>e. e \<in> set es \<Longrightarrow> case e of Expr_Compare i Op_Eq v \<Rightarrow> P i v | Expr_In i vs \<Rightarrow> list_all (P i) vs | _ \<Rightarrow> True"
  shows "values_from P (collect_constraints es)"
proof -
  have "values_from P (fold constrain es out)" if "values_from P out" for out
    using assms(2) that by (induction es arbitrary: out) (simp_all add: constrain_values [where P = P, OF assms(1)])
  from this [of "[]"] show ?thesis by (simp add: collect_constraints_def values_from_def)
qed

text \<open>The values of the constraints of a predicate.\<close>

definition usable_literal :: "TableDef \<Rightarrow> Ordinal \<Rightarrow> Value \<Rightarrow> bool" where
  "usable_literal t i v \<longleftrightarrow> wf_value v \<and> key_literal t i v"

lemma predicate_values:
  assumes "expr_wf predicate" and "literals_ok t predicate"
  shows "values_from (usable_literal t) (collect_constraints (conjuncts predicate))"
proof (rule collect_values)
  show "usable_literal t i Null" for i by (simp add: usable_literal_def key_literal_def fits_def has_type_def)
  fix e
  assume e: "e \<in> set (conjuncts predicate)"
  have "expr_wf e" by (rule conjuncts_wf [OF e assms(1)])
  moreover have "case e of Expr_Compare i Op_Eq v \<Rightarrow> key_literal t i v | Expr_In i vs \<Rightarrow> list_all (key_literal t i) vs | _ \<Rightarrow> True"
    using assms(2) e by (simp add: literals_ok_def)
  ultimately show "case e of Expr_Compare i Op_Eq v \<Rightarrow> usable_literal t i v
      | Expr_In i vs \<Rightarrow> list_all (usable_literal t i) vs | _ \<Rightarrow> True"
    by (auto simp: usable_literal_def list_all_iff split: Expr.splits CmpOp.splits)
qed

lemma constraints_for_from: "values_from P cs \<Longrightarrow> constraints_for cs i = Some c \<Longrightarrow> column_from P i c"
  by (auto simp: values_from_def constraints_for_def find_Some_iff) (metis (mono_tags, lifting) case_prodD nth_mem)

lemma equals_for_from: "values_from P cs \<Longrightarrow> equals_for cs i = Some v \<Longrightarrow> P i v"
  using constraints_for_from [of P cs i] by (auto simp: equals_for_def column_from_def bind_eq_Some_conv)

section \<open>Ranges on a key\<close>

lemma pin_loop_prefix: "prefix pre (fst (pin_loop cs pre n cols))"
proof (induction cs pre n cols rule: pin_loop.induct)
  case (2 cs pre n i d cols)
  then show ?case
    by (cases "equals_for cs i") (auto simp: encode_value_into_dir intro: prefix_order.trans [OF prefixI])
qed simp

lemma prefix_term_prefix: "prefix_term cs pre col = Some bounded \<Longrightarrow> prefix pre bounded"
proof -
  assume "prefix_term cs pre col = Some bounded"
  then obtain start d where "encode_prefix_into pre start d = (True, bounded)"
    by (auto simp: prefix_term_def split: option.splits prod.splits if_splits)
  then show ?thesis by (cases start) (auto simp: encode_prefix_into_bytes, auto simp: encode_prefix_into_def)
qed

lemma fold_intersect_within:
  "range_contains (fold (\<lambda>(oper, v) result. intersect result (bound_for pre oper v d)) rs r) k \<Longrightarrow> range_contains r k"
proof (induction rs arbitrary: r)
  case (Cons x rs)
  obtain oper v where x: "x = (oper, v)" by (cases x)
  have "range_contains (intersect r (bound_for pre oper v d)) k" by (rule Cons.IH) (use Cons.prems x in simp)
  then show ?case by simp
qed simp

lemma match_key_within:
  assumes "range_contains (match_key base_key cols cs) k"
  shows "prefix (fst (pin_loop cs base_key 0 cols)) k"
proof -
  obtain pre n where pins: "pin_loop cs base_key 0 cols = (pre, n)" by fastforce
  show ?thesis
  proof (cases "prefix_term cs pre (get cols n)")
    case (Some bounded)
    then show ?thesis
      using assms pins prefix_term_prefix [OF Some] by (auto simp: match_key_def prefix_contains intro: prefix_order.trans)
  next
    case None
    then have "range_contains (KeyRange_prefix pre) k"
      using assms pins by (auto simp: match_key_def dest: fold_intersect_within split: option.splits if_splits)
    then show ?thesis using pins by (simp add: prefix_contains)
  qed
qed

lemma match_key_base: "range_contains (match_key base_key cols cs) k \<Longrightarrow> prefix base_key k"
  using match_key_within pin_loop_prefix prefix_order.trans by blast


text \<open>A list on a column of the key: each value's range lies behind the value's bytes, so ranges of different
  values share no key.\<close>

definition read_once :: "KeyRange list \<Rightarrow> bool" where
  "read_once ranges \<longleftrightarrow> (\<forall>k. length (filter (\<lambda>r. range_contains r k) ranges) \<le> 1)"

lemma constraints_for_pin:
  "constraints_for (pin_value i v cs) j =
     (if j = i then map_option (\<lambda>c. c\<lparr>cc_equals := Some v, cc_any_of := None\<rparr>) (constraints_for cs i) else constraints_for cs j)"
  by (induction i v cs rule: pin_value.induct) (auto simp: constraints_for_def)

lemma equals_for_pin:
  "equals_for (pin_value i v cs) j = (if j = i \<and> constraints_for cs i \<noteq> None then Some v else equals_for cs j)"
  by (auto simp: equals_for_def constraints_for_pin)

lemma pinned_prefix:
  assumes "constraints_for cs i \<noteq> None" and "equals_for cs i = None"
  shows "position (\<lambda>(i, _). equals_for cs i = None) cols = Some at \<Longrightarrow> cols ! at = (i, d) \<Longrightarrow>
     \<exists>p. \<forall>v. prefix (p @ dir_bytes d v) (fst (pin_loop (pin_value i v cs) base_key n cols))"
proof (induction cols arbitrary: at base_key n)
  case (Cons col cols)
  obtain j e where col: "col = (j, e)" by (cases col)
  show ?case
  proof (cases "equals_for cs j")
    case None
    then have "j = i" "e = d" using Cons.prems col by auto
    then show ?thesis using assms pin_loop_prefix
      by (intro exI [of _ base_key]) (simp add: col equals_for_pin encode_value_into_dir)
  next
    case (Some w)
    then have "j \<noteq> i" using assms(2) by auto
    then obtain at' where at: "position (\<lambda>(i, _). equals_for cs i = None) cols = Some at'" "at = Suc at'" "j \<noteq> i"
      using Cons.prems(1) col Some by auto
    then have "cols ! at' = (i, d)" using Cons.prems(2) by simp
    from Cons.IH [OF at(1) this, of "base_key @ dir_bytes e w" "n + 1"] show ?thesis
      using Some at(3) by (simp add: col equals_for_pin encode_value_into_dir)
  qed
qed simp

lemma at_most_one:
  assumes "sorted_wrt R xs" and "\<And>x y. x \<in> set xs \<Longrightarrow> y \<in> set xs \<Longrightarrow> Q x \<Longrightarrow> Q y \<Longrightarrow> \<not> R x y"
  shows "length (filter Q xs) \<le> 1"
proof (rule ccontr)
  assume "\<not> length (filter Q xs) \<le> 1"
  then obtain x y zs where xy: "filter Q xs = x # y # zs" by (cases "filter Q xs"; cases "tl (filter Q xs)") auto
  have "R x y" using sorted_wrt_filter [OF assms(1), of Q] xy by simp
  moreover have "x \<in> set (filter Q xs)" "y \<in> set (filter Q xs)" using xy by simp_all
  ultimately show False using assms(2) by auto
qed

lemma filter_map_le: "length (filter P (filter Q (map f (filter M xs)))) \<le> length (filter (\<lambda>x. P (f x)) xs)"
  by (induction xs) auto

text \<open>The ranges of a list: each lies behind the bytes of its value.\<close>

lemma in_ranges_blocks:
  assumes "in_ranges base_key cols cs = Some ranges" and "values_from (\<lambda>_. wf_value) cs"
  obtains f M dv p d where
    "ranges = sort_by start_cmp (filter (\<lambda>r. \<not> range_is_empty r) (map f (filter M dv)))"
    and "sorted_wrt (\<lambda>a b. value_cmp a b = Less) dv" and "list_all wf_value dv"
    and "\<And>v k. range_contains (f v) k \<Longrightarrow> prefix (p @ dir_bytes d v) k \<and> prefix base_key k"
proof -
  obtain at i d c vs where c: "position (\<lambda>(i, _). equals_for cs i = None) cols = Some at" "get cols at = Some (i, d)"
      "constraints_for cs i = Some c" "cc_any_of c = Some vs"
    and ranges: "ranges = sort_by start_cmp (filter (\<lambda>r. \<not> range_is_empty r)
      (map (\<lambda>v. match_key base_key cols (pin_value i v cs))
        (filter (meets_other_bounds c) (dedup_by value_eq (sort_by value_cmp (filter (\<lambda>v. \<not> is_null v) vs))))))"
    using assms(1) by (auto simp: in_ranges_def Let_def simp del: get_eq_Some split: bind_splits if_splits)
  have at: "cols ! at = (i, d)" "equals_for cs i = None"
    using c(1,2) position_Some [OF c(1)] by (auto simp: get_def split: if_splits)
  let ?dv = "dedup_by value_eq (sort_by value_cmp (filter (\<lambda>v. \<not> is_null v) vs))"
  have wf: "list_all wf_value (filter (\<lambda>v. \<not> is_null v) vs)"
    using constraints_for_from [OF assms(2) c(3)] c(4) by (auto simp: column_from_def list_all_iff)
  then have wf': "list_all wf_value (sort_by value_cmp (filter (\<lambda>v. \<not> is_null v) vs))" by (simp add: list_all_iff)
  have "value_eq = (\<lambda>a b. value_cmp a b = Equal)" by (simp add: fun_eq_iff value_eq_def)
  then have sorted: "sorted_wrt (\<lambda>a b. value_cmp a b = Less) ?dv"
    using asc.total.dedup_sorted [OF wf' asc.total.sort_by_sorted [OF wf]] by simp
  have dv_wf: "list_all wf_value ?dv"
    using set_dedup_by [of value_eq "sort_by value_cmp (filter (\<lambda>v. \<not> is_null v) vs)"] wf' unfolding list_all_iff by blast
  obtain p where p: "\<And>v. prefix (p @ dir_bytes d v) (fst (pin_loop (pin_value i v cs) base_key 0 cols))"
    using pinned_prefix [OF _ at(2) c(1) at(1), of base_key 0] c(3) by auto
  have "prefix (p @ dir_bytes d v) k \<and> prefix base_key k" if "range_contains (match_key base_key cols (pin_value i v cs)) k" for v k
    using prefix_order.trans [OF p match_key_within [OF that]] match_key_base [OF that] by simp
  then show thesis by (rule that [OF ranges sorted dv_wf])
qed

lemma diverging_blocks:
  assumes "wf_value v" and "wf_value w" and "value_cmp v w \<noteq> Equal"
  shows "diverges (dir_bytes d v) (dir_bytes d w) \<or> diverges (dir_bytes d w) (dir_bytes d v)"
  using assms(3) elem.enc_less_iff [OF assms(1,2), of d] elem.enc_less_iff [OF assms(2,1), of d] asc.total.antisym [OF assms(1,2)]
  by (cases d; cases "value_cmp v w") (simp_all add: dir_cmp_def)

text \<open>Each range of the list ends before the next begins.\<close>

definition in_sequence :: "KeyRange list \<Rightarrow> bool" where
  "in_sequence = sorted_wrt (\<lambda>r s. \<forall>k l. range_contains r k \<longrightarrow> range_contains s l \<longrightarrow> k < l)"

interpretation starts: total_comparison "\<lambda>_. True" start_cmp
  by unfold_locales (auto simp: start_cmp_def cmp_lin_def split: option.splits if_splits)

lemma read_once_apart:
  assumes "read_once ranges" and "i < j" and "j < length ranges" and "range_contains (ranges ! i) k"
  shows "\<not> range_contains (ranges ! j) k"
proof
  assume "range_contains (ranges ! j) k"
  then have "{i, j} \<subseteq> {n. n < length ranges \<and> range_contains (ranges ! n) k}" using assms(2-4) by auto
  then have "card {i, j} \<le> length (filter (\<lambda>r. range_contains r k) ranges)"
    unfolding length_filter_conv_card by (intro card_mono) auto
  then show False using assms(1,2) unfolding read_once_def by (metis One_nat_def Suc_1 card_2_iff le_trans less_irrefl_nat not_less_eq_eq numerals(1))
qed

lemma strict_sorted_eq:
  assumes "sorted_wrt (\<lambda>a b. value_cmp a b = Less) vs" and "list_all wf_value vs" and "v \<in> set vs" and "w \<in> set vs"
    and "value_cmp v w = Equal"
  shows "v = w"
proof -
  obtain i j where ij: "i < length vs" "vs ! i = v" "j < length vs" "vs ! j = w" using assms(3,4) by (auto simp: in_set_conv_nth)
  have "value_cmp w v = Equal" using assms asc.total.eq_sym by (metis list_all_iff)
  then show ?thesis
    using assms(1,5) ij unfolding sorted_wrt_iff_nth_less by (metis linorder_neqE_nat ordering.distinct(1))
qed

lemma earlier_block:
  assumes "start_cmp r s \<noteq> Greater" and "\<And>k. range_contains r k \<Longrightarrow> prefix P k" and "\<And>k. range_contains s k \<Longrightarrow> prefix Q k"
    and "diverges P Q \<or> diverges Q P" and "range_contains r k" and "range_contains s l"
  shows "k < l"
proof -
  obtain x y where xy: "k = P @ x" "l = Q @ y" using assms(2) [OF assms(5)] assms(3) [OF assms(6)] by (auto simp: prefix_def)
  from assms(4) show ?thesis
  proof
    assume later: "diverges Q P"
    have between: "l < l @ [0]" "l @ [0] < k" using xy diverges_append_less [OF later, of "y @ [0]" x] append_less_append [of l "[]" "[0]"] by simp_all
    then have "above_start (range_start r) (l @ [0])"
      using assms(1,6) by (auto simp: start_cmp_def start_bytes_def range_contains_def cmp_lin_def split: Bound.splits if_splits)
    moreover have "below_end (range_end r) (l @ [0])"
      using between(2) assms(5) by (cases "range_end r") (auto simp: range_contains_def)
    ultimately have "range_contains r (l @ [0])" by (simp add: range_contains_def)
    then have "prefix P (l @ [0])" by (rule assms(2))
    moreover have "diverges (l @ [0]) P" using diverges_append [OF later, of "y @ [0]" "[]"] xy(2) by simp
    ultimately show ?thesis using diverges_not_prefix by blast
  qed (use xy diverges_append_less in blast)
qed

lemma in_ranges_once:
  assumes "in_ranges base_key cols cs = Some ranges" and "values_from (\<lambda>_. wf_value) cs"
  shows "read_once ranges" and "\<And>r k. r \<in> set ranges \<Longrightarrow> range_contains r k \<Longrightarrow> prefix base_key k"
    and "in_sequence ranges"
proof -
  obtain f M dv p d where ranges: "ranges = sort_by start_cmp (filter (\<lambda>r. \<not> range_is_empty r) (map f (filter M dv)))"
    and sorted: "sorted_wrt (\<lambda>a b. value_cmp a b = Less) dv" and wf: "list_all wf_value dv"
    and block: "\<And>v k. range_contains (f v) k \<Longrightarrow> prefix (p @ dir_bytes d v) k \<and> prefix base_key k"
    by (rule in_ranges_blocks [OF assms]) (rule that)
  show "prefix base_key k" if "r \<in> set ranges" "range_contains r k" for r k
    using that block unfolding ranges by auto
  have apart: "value_cmp v w = Equal" if "range_contains (f v) k" "range_contains (f w) k" "v \<in> set dv" "w \<in> set dv" for v w k
  proof -
    have "prefix (p @ dir_bytes d v) k" "prefix (p @ dir_bytes d w) k" using block that by blast+
    then obtain ys zs where "dir_bytes d v @ ys = dir_bytes d w @ zs" by (auto simp: prefix_def)
    then have "dir_bytes d v = dir_bytes d w" using elem.split_unique wf that(3,4) by (metis list_all_iff)
    then show ?thesis using elem.enc_eq_iff wf that(3,4) by (metis dir_cmp_Equal value_eq_def list_all_iff)
  qed
  show once: "read_once ranges"
    unfolding read_once_def
  proof
    fix k
    have "length (filter (\<lambda>v. range_contains (f v) k) dv) \<le> 1" by (rule at_most_one [OF sorted]) (use apart in force)
    moreover have "length (filter (\<lambda>r. range_contains r k) ranges) =
        length (filter (\<lambda>r. range_contains r k) (filter (\<lambda>r. \<not> range_is_empty r) (map f (filter M dv))))"
      unfolding ranges by (metis mset_filter mset_sort_by size_mset)
    moreover have "\<dots> \<le> length (filter (\<lambda>v. range_contains (f v) k) dv)" by (rule filter_map_le)
    ultimately show "length (filter (\<lambda>r. range_contains r k) ranges) \<le> 1" by linarith
  qed
  show "in_sequence ranges"
    unfolding in_sequence_def sorted_wrt_iff_nth_less
  proof (intro allI impI)
    fix i j k l
    assume ij: "i < j" "j < length ranges" "range_contains (ranges ! i) k" "range_contains (ranges ! j) l"
    have "ranges ! i \<in> set ranges" "ranges ! j \<in> set ranges" using ij(1,2) by simp_all
    then obtain v w where vw: "v \<in> set dv" "w \<in> set dv" "ranges ! i = f v" "ranges ! j = f w" unfolding ranges by auto
    have "list_all (\<lambda>_. True) (filter (\<lambda>r. \<not> range_is_empty r) (map f (filter M dv)))" by (simp add: list_all_iff)
    from starts.sort_by_sorted [OF this] have "start_cmp (ranges ! i) (ranges ! j) \<noteq> Greater"
      using ij(1,2) unfolding ranges sorted_wrt_iff_nth_less by blast
    moreover have "value_cmp v w \<noteq> Equal"
    proof
      assume "value_cmp v w = Equal"
      then have "v = w" using strict_sorted_eq [OF sorted wf vw(1,2)] by simp
      then show False using read_once_apart [OF once ij(1,2)] ij(3) vw(3,4) by simp
    qed
    ultimately show "k < l"
      using earlier_block [of "f v" "f w" "p @ dir_bytes d v" "p @ dir_bytes d w" k l] block diverging_blocks [of v w d] wf vw ij(3,4)
      by (simp add: list_all_iff)
  qed
qed


section \<open>The shape of an access path\<close>

definition proper_key :: "TableDef \<Rightarrow> Value list \<Rightarrow> bool" where
  "proper_key t key \<longleftrightarrow> key_fits t key \<and> map canon key = key"

definition index_walk ::
  "Unicode \<Rightarrow> 's Planner \<Rightarrow> 's MatchContext \<Rightarrow> TableDef \<Rightarrow> IndexDef \<Rightarrow> KeyRange list \<Rightarrow> bool \<Rightarrow> bool" where
  "index_walk u pn cx t ix ranges covering \<longleftrightarrow>
     ix \<in> set (td_indexes t) \<and> read_once ranges \<and> (covering \<longrightarrow> covers pn cx ix) \<and>
     (\<forall>r\<in>set ranges. \<forall>k. range_contains r k \<longrightarrow> prefix (index_prefix_of (ix_id ix)) k) \<and>
     (\<forall>row e f. row_ok t row \<longrightarrow> e \<in> set (held_entries u t ix row) \<longrightarrow> f \<in> set (held_entries u t ix row) \<longrightarrow>
        (\<exists>r\<in>set ranges. range_contains r (en_key e)) \<longrightarrow> (\<exists>r\<in>set ranges. range_contains r (en_key f)) \<longrightarrow> e = f)"

definition walkable :: "Unicode \<Rightarrow> 's Planner \<Rightarrow> 's MatchContext \<Rightarrow> TableDef \<Rightarrow> Access \<Rightarrow> bool" where
  "walkable u pn cx t access \<longleftrightarrow>
     (case access of
        Access_Nothing \<Rightarrow> True
      | PointGet key \<Rightarrow> proper_key t key
      | PointGets ks \<Rightarrow> list_all (proper_key t) ks \<and> distinct (map (row_key t) ks)
      | TableScan r \<Rightarrow> \<forall>k. range_contains r k \<longrightarrow> prefix (table_prefix t) k
      | IndexScan i r covering \<Rightarrow> \<exists>ix. ix_id ix = i \<and> index_walk u pn cx t ix [r] covering
      | IndexScans i ranges covering \<Rightarrow> in_sequence ranges \<and> (\<exists>ix. ix_id ix = i \<and> index_walk u pn cx t ix ranges covering))"

lemma proper_key_from:
  assumes "table_ok t" and "list_all2 (\<lambda>v i. usable_literal t i v) key (td_primary_key t)"
  shows "proper_key t key"
proof -
  have "list_all2 (\<lambda>v i. fits (col_ty (td_columns t ! i)) v \<and> canon v = v) key (td_primary_key t)"
    using assms(2) by (auto simp: list_all2_conv_all_nth usable_literal_def key_literal_def)
  moreover have "i < length (td_columns t)" if "i \<in> set (td_primary_key t)" for i
    using key_column_live [OF assms(1) that] by blast
  ultimately show ?thesis
    by (auto simp: proper_key_def key_fits_def primary_key_types_def key_types_def list_all2_conv_all_nth get_def
        intro!: nth_equalityI)
qed

lemma match_primary_key_walkable:
  assumes "table_ok t" and "values_from (usable_literal t) cs"
  shows "walkable u pn cx t (ca_access (match_primary_key t cs ordered))"
proof -
  let ?full = "those (map (\<lambda>(i, _). equals_for cs i) (primary_columns t))"
  have scan: "walkable u pn cx t (TableScan (match_key (table_prefix t) (primary_columns t) cs))"
    using match_key_base by (auto simp: walkable_def)
  show ?thesis
  proof (cases ?full)
    case (Some key)
    then have "list_all2 (\<lambda>x y. (case x of (i, _) \<Rightarrow> equals_for cs i) = Some y) (primary_columns t) key"
      by (simp add: those_map)
    then have "list_all2 (\<lambda>v i. usable_literal t i v) key (td_primary_key t)"
      using equals_for_from [OF assms(2)] by (auto simp: primary_columns_def list_all2_conv_all_nth)
    then have "proper_key t key" by (rule proper_key_from [OF assms(1)])
    then show ?thesis using Some scan by (simp add: match_primary_key_def walkable_def Let_def)
  qed (use scan in \<open>simp add: match_primary_key_def Let_def\<close>)
qed

lemma row_key_distinct:
  assumes "list_all (\<lambda>key. list_all wf_value key \<and> length key = n) ks" and "sorted_wrt (\<lambda>a b. lex_cmp value_cmp a b = Less) ks"
  shows "distinct (map (row_key t) ks)"
  using assms
proof (induction ks)
  case (Cons key ks)
  have "row_key t key \<noteq> row_key t other" if "other \<in> set ks" for other
  proof
    assume "row_key t key = row_key t other"
    then have "list_all2 value_eq key other"
      using tuple_split [of key other "[]" "[]" "[]"] Cons.prems(1) that by (auto simp: row_key_bytes list_all_iff)
    then have "lex_cmp value_cmp key other = Equal" by (simp add: key_list_cmp)
    then show False using Cons.prems(2) that by simp
  qed
  then show ?case using Cons by auto
qed simp

lemma match_point_gets_walkable:
  assumes "table_ok t" and "values_from (usable_literal t) cs" and "match_point_gets t cs = Some c"
  shows "walkable u pn cx t (ca_access c)"
proof -
  let ?cols = "primary_columns t"
  have os: "map fst ?cols = td_primary_key t" by (simp add: primary_columns_def comp_def)
  obtain ks where ks: "point_get_set ?cols cs = Some ks" "ca_access c = PointGets ks"
    using assms(3) by (auto simp: match_point_gets_def)
  obtain fixed n vs where loop: "point_get_loop cs [] None ?cols = Some (fixed, Some (n, vs))"
    and lens: "\<And>v. v \<in> set vs \<Longrightarrow> length (flatten_key (fixed[n := Some v])) = length ?cols"
    and keys: "ks = dedup_by (list_all2 value_eq) (sort_by (lex_cmp value_cmp) (map (\<lambda>v. flatten_key (fixed[n := Some v])) vs))"
    using ks(1) by (auto simp: point_get_set_def Let_def list_ex_iff split: if_splits option.splits)
  have "fixed_from (usable_literal t) (\<lambda>i. list_all (usable_literal t i)) fixed (Some (n, vs)) ([] @ map fst ?cols)"
    using constraints_for_from [OF assms(2)]
    by (intro point_get_loop_from [OF _ _ _ loop]) (auto simp: fixed_from_def column_from_def)
  then have ff: "list_all2 (\<lambda>f i. \<forall>v. f = Some v \<longrightarrow> usable_literal t i v) fixed (td_primary_key t)"
      "list_all (usable_literal t (td_primary_key t ! n)) vs" "n < length (td_primary_key t)"
    by (simp_all add: fixed_from_def os del: map_map)
  have key: "list_all2 (\<lambda>v i. usable_literal t i v) (flatten_key (fixed[n := Some v])) (td_primary_key t)"
    if "v \<in> set vs" for v
    by (rule flatten_key_met)
      (use ff lens [OF that] that in \<open>auto simp: list_all2_conv_all_nth nth_list_update list_all_iff primary_columns_def\<close>)
  let ?keys = "map (\<lambda>v. flatten_key (fixed[n := Some v])) vs"
  have "list_all wf_value (flatten_key (fixed[n := Some v]))" if "v \<in> set vs" for v
    using key [OF that] by (auto simp: list_all2_conv_all_nth list_all_length usable_literal_def)
  then have wf: "list_all (list_all wf_value) ?keys" by (simp add: list_all_iff)
  have sub: "set ks \<subseteq> set ?keys" using set_dedup_by [of "list_all2 value_eq" "sort_by (lex_cmp value_cmp) ?keys"] by (simp add: keys)
  have "list_all2 value_eq = (\<lambda>a b. lex_cmp value_cmp a b = Equal)" by (simp add: fun_eq_iff key_list_cmp)
  then have sorted: "sorted_wrt (\<lambda>a b. lex_cmp value_cmp a b = Less) ks"
    using keys.dedup_sorted [OF _ keys.sort_by_sorted [OF wf]] wf unfolding keys by (simp add: list_all_iff)
  have "list_all (\<lambda>key. list_all wf_value key \<and> length key = length (td_primary_key t)) ks"
    using sub wf key by (fastforce simp: list_all_iff dest: list_all2_lengthD)
  from row_key_distinct [OF this sorted] have "distinct (map (row_key t) ks)" .
  moreover have "list_all (proper_key t) ks"
    using sub proper_key_from [OF assms(1) key] by (auto simp: list_all_iff)
  ultimately show ?thesis using ks(2) by (simp add: walkable_def)
qed


text \<open>An index that is not over the terms of a text has at most one entry for a row; in one that is, the range of a
  search lies behind the bytes of its term.\<close>

lemma single_entry:
  assumes "\<not> ix_text ix" and "e \<in> set (held_entries u t ix row)" and "f \<in> set (held_entries u t ix row)"
  shows "e = f"
  using assms by (auto simp: held_entries_def entries_for_def key_sets_def Let_def split: if_splits)

lemma str_bytes_unique:
  assumes "dir_bytes Asc (Str w) @ zs = dir_bytes Asc (Str x) @ rest"
  shows "w = x"
proof -
  have part: "prefix (c_STR # concat (map esc_byte v)) (element_bytes (Str v))" for v
    using prefix_str_iff [of v "Str v" "[]"] by simp
  have "element_bytes (Str w) @ zs = element_bytes (Str x) @ rest" using assms by (simp add: dir_bytes_def)
  then have "prefix (c_STR # concat (map esc_byte w)) (element_bytes (Str x) @ rest)"
    "prefix (c_STR # concat (map esc_byte x)) (element_bytes (Str w) @ zs)"
    using part [of w] part [of x] by (metis prefix_prefix)+
  then have "prefix w x" "prefix x w" unfolding prefix_str_iff by auto
  then show ?thesis by (rule prefix_order.antisym)
qed

lemma match_text_walkable:
  assumes "table_ok t" and "unicode_ok u" and "text_ascending t" and "ix \<in> set (td_indexes t)" and "ix_text ix"
    and "values_from (usable_literal t) cs" and "mc_table cx = t" and "mc_constraints cx = cs"
    and "match_text_index pn cx ix = Some c"
  shows "walkable u pn cx t (ca_access c)"
proof -
  obtain col where col: "ix_columns ix = [col]" "ix_expression ix = None" "ic_direction col = Asc"
    using assms(1,3-5) by (auto simp: table_ok_def Let_def index_ok_def text_ascending_def)
  let ?ip = "index_prefix_of (ix_id ix)"
  have ip: "index_prefix t ix None = ?ip" by (simp add: index_prefix_None index_prefix_of_def)
  obtain w pre where w: "text_term pn cx ix = Some w"
    and pre: "(case td_tenant_column t of
          None \<Rightarrow> Some (index_prefix t ix None)
        | Some tenant \<Rightarrow> map_option (\<lambda>v. encode_value_into (index_prefix t ix None) v Asc) (equals_for cs tenant)) = Some pre"
    and c: "ca_access c = IndexScan (ix_id ix) (KeyRange_prefix (pre @ dir_bytes Asc (Str w))) False"
    using assms(7-9) by (auto simp: match_text_index_def encode_value_into_dir split: bind_splits)
  obtain tenant where tenant: "pre = ?ip @ tenant"
    "tenant = [] \<and> td_tenant_column t = None \<or> (\<exists>v. wf_value v \<and> tenant = dir_bytes Asc v \<and> td_tenant_column t \<noteq> None)"
    using pre equals_for_from [OF assms(6)]
    by (auto simp: ip encode_value_into_dir usable_literal_def split: option.splits)
  have same: "x = w"
    if row: "row_ok t row" and x: "[Str x] \<in> set (key_sets u ix row)"
      and r: "prefix (pre @ dir_bytes Asc (Str w)) (en_key (index_entry t ix [Str x] (primary_key_values row t)))" for row x
  proof -
    have pk: "key_fits t (primary_key_values row t)" "primary_key_values row t \<noteq> []" using row_key_fits [OF assms(1) row] by blast+
    obtain rest where key: "en_key (index_entry t ix [Str x] (primary_key_values row t)) =
        ?ip @ tenant_bytes t (primary_key_values row t) @ dir_bytes Asc (Str x) @ rest"
      using index_entry_bytes [of "[Str x]" ix t "primary_key_values row t"] col
      by (auto simp: key_directions_def direction_at_def index_prefix_of_def)
    have tb: "td_tenant_column t = None \<Longrightarrow> tenant_bytes t (primary_key_values row t) = []"
      "td_tenant_column t \<noteq> None \<Longrightarrow> \<exists>v. wf_value v \<and> tenant_bytes t (primary_key_values row t) = dir_bytes Asc v"
      using pk key_fits_wf [OF pk(1)]
      by (auto simp: tenant_bytes_def tenant_value_def get_def list_all_length split: option.splits)
    obtain zs where zs: "tenant @ dir_bytes Asc (Str w) @ zs = tenant_bytes t (primary_key_values row t) @ dir_bytes Asc (Str x) @ rest"
      using r unfolding key tenant(1) by (auto simp: prefix_def)
    have "tenant = tenant_bytes t (primary_key_values row t)"
      using tenant(2) tb zs elem.split_unique by metis
    then have "dir_bytes Asc (Str w) @ zs = dir_bytes Asc (Str x) @ rest" using zs by simp
    then show "x = w" by (rule str_bytes_unique [symmetric])
  qed
  have entry: "\<exists>x. [Str x] \<in> set (key_sets u ix row) \<and> e = index_entry t ix [Str x] (primary_key_values row t)"
    if "e \<in> set (held_entries u t ix row)" for row e
    using that assms(5) col(1)
    by (auto simp: held_entries_def entries_for_def key_sets_def Let_def split: if_splits option.splits Value.splits)
  have "index_walk u pn cx t ix [KeyRange_prefix (pre @ dir_bytes Asc (Str w))] False"
    unfolding index_walk_def
  proof (intro conjI allI impI ballI)
    show "prefix ?ip k" if "r \<in> set [KeyRange_prefix (pre @ dir_bytes Asc (Str w))]" "range_contains r k" for r k
      using that tenant(1) by (auto simp: prefix_contains dest: append_prefixD)
    show "e = f"
      if "row_ok t row" "e \<in> set (held_entries u t ix row)" "f \<in> set (held_entries u t ix row)"
        "\<exists>r\<in>set [KeyRange_prefix (pre @ dir_bytes Asc (Str w))]. range_contains r (en_key e)"
        "\<exists>r\<in>set [KeyRange_prefix (pre @ dir_bytes Asc (Str w))]. range_contains r (en_key f)" for row e f
      using that entry [OF that(2)] entry [OF that(3)] same [OF that(1)] by (auto simp: prefix_contains)
  qed (use assms(4) in \<open>simp_all add: read_once_def\<close>)
  then show ?thesis using c by (auto simp: walkable_def)
qed

lemma match_index_walkable:
  assumes "table_ok t" and "unicode_ok u" and "text_ascending t" and "ix \<in> set (td_indexes t)"
    and "values_from (usable_literal t) cs" and "mc_table cx = t" and "mc_constraints cx = cs"
    and "match_index pn cx ix = Some c"
  shows "walkable u pn cx t (ca_access c)"
proof (cases "ix_text ix")
  case True
  then have "match_text_index pn cx ix = Some c" using assms(8) by (auto simp: match_index_def Let_def split: if_splits)
  from match_text_walkable [OF assms(1-4) True assms(5-7) this] show ?thesis .
next
  case False
  have ip: "index_prefix t ix None = index_prefix_of (ix_id ix)" by (simp add: index_prefix_None index_prefix_of_def)
  have wf: "values_from (\<lambda>_. wf_value) cs"
    using assms(5) by (auto simp: values_from_def column_from_def usable_literal_def list_all_iff)
  obtain own where own: "match_index pn cx ix = Some c"
    "(case ix_expression ix of
             None \<Rightarrow> Some (map (\<lambda>c. (ic_ordinal c, ic_direction c)) (ix_columns ix))
           | Some declared \<Rightarrow>
               map_option (\<lambda>at. [(mc_width cx + at, ie_direction declared)])
                 (expression_position pn ix (mc_compute cx))) = Some own"
    using assms(8) False by (auto simp: match_index_def Let_def split: if_splits bind_splits)
  define cols where "cols = (case td_tenant_column t of None \<Rightarrow> own | Some tenant \<Rightarrow> (tenant, Asc) # own)"
  let ?ranges = "in_ranges (index_prefix t ix None) cols cs"
  have access: "ca_access c = (case ?ranges of
      Some [r] \<Rightarrow> IndexScan (ix_id ix) r (covers pn cx ix)
    | Some ranges \<Rightarrow> IndexScans (ix_id ix) ranges (covers pn cx ix)
    | None \<Rightarrow> IndexScan (ix_id ix) (match_key (index_prefix t ix None) cols cs) (covers pn cx ix))"
    using own assms(6,7) False unfolding match_index_def Let_def cols_def [symmetric]
    by (auto simp: cols_def split: if_splits bind_splits option.splits list.splits)
  have walk: "index_walk u pn cx t ix ranges (covers pn cx ix)"
    if "read_once ranges" "\<And>r k. r \<in> set ranges \<Longrightarrow> range_contains r k \<Longrightarrow> prefix (index_prefix t ix None) k" for ranges
    using that assms(4) single_entry [OF False] by (auto simp: index_walk_def ip)
  show ?thesis
  proof (cases ?ranges)
    case None
    have "index_walk u pn cx t ix [match_key (index_prefix t ix None) cols cs] (covers pn cx ix)"
      by (rule walk) (auto simp: read_once_def dest: match_key_base)
    then show ?thesis using access None by (auto simp: walkable_def)
  next
    case (Some ranges)
    have "index_walk u pn cx t ix ranges (covers pn cx ix)"
      by (rule walk) (use in_ranges_once [OF Some wf] in auto)
    then show ?thesis using access Some in_ranges_once(3) [OF Some wf] by (auto simp: walkable_def split: list.splits)
  qed
qed

lemma drop_empty_walkable: "walkable u pn cx t access \<Longrightarrow> walkable u pn cx t (drop_empty access)"
  by (auto simp: walkable_def drop_empty_def split: Access.splits)

theorem plan_walkable:
  assumes "table_ok t" and "unicode_ok u" and "text_ascending t" and "expr_wf predicate" and "literals_ok t predicate"
  shows "\<exists>cx. plan_context t predicate projection sort_keys compute cx \<and>
    walkable u pn cx t (pl_access (plan_hinted pn t predicate ord projection sort_keys hint compute))"
proof -
  let ?width = "length (td_columns t)" and ?cs = "collect_constraints (conjuncts predicate)"
  let ?needed = "case projection_columns projection of
      None \<Rightarrow> Needed_All
    | Some columns \<Rightarrow> Needed_Some (expr_columns predicate \<union> set columns \<union> sk_column ` set sort_keys \<union>
                          {?width..<?width + length compute})"
  let ?cx = "\<lparr>mc_table = t, mc_predicate = predicate, mc_constraints = ?cs, mc_needed = ?needed,
                mc_ordered = (sort_keys \<noteq> []), mc_compute = compute, mc_width = ?width\<rparr>"
  let ?pinned = "set (map fst (filter (\<lambda>(_, c). cc_equals c \<noteq> None) ?cs))"
  let ?plan = "plan_hinted pn t predicate ord projection sort_keys hint compute"
  note vals = predicate_values [OF assms(4,5)]
  obtain c m where best: "fold (consider_candidate pn sort_keys ord ?pinned) (candidates pn ?cx hint) None = Some (c, m)"
    using fold_consider_Some [OF candidates_nonempty [of pn ?cx hint]] by fastforce
  have "c \<in> set (candidates pn ?cx hint)" using fold_consider [OF best] by simp
  then consider "c = match_primary_key t ?cs (sort_keys \<noteq> [])" | "match_point_gets t ?cs = Some c"
    | ix where "ix \<in> set (td_indexes t)" "match_index pn ?cx ix = Some c"
    by (auto simp: candidates_def Let_def map_filter_def split: if_splits option.splits AccessHint.splits)
  then have "walkable u pn ?cx t (ca_access c)"
  proof cases
    case 1
    then show ?thesis using match_primary_key_walkable [OF assms(1) vals] by blast
  next
    case 2
    then show ?thesis using match_point_gets_walkable [OF assms(1) vals] by blast
  next
    case (3 ix)
    then show ?thesis using match_index_walkable [OF assms(1-3) 3(1) vals _ _ 3(2)] by simp
  qed
  then have "walkable u pn ?cx t (drop_empty (ca_access c))" by (rule drop_empty_walkable)
  moreover have "pl_access ?plan = Access_Nothing \<or> pl_access ?plan = drop_empty (ca_access c)"
    using best unfolding plan_hinted_def Let_def by simp
  moreover have "walkable u pn ?cx t Access_Nothing" by (simp add: walkable_def)
  moreover have "plan_context t predicate projection sort_keys compute ?cx" by (simp add: plan_context_def)
  ultimately show ?thesis by metis
qed

end
