(* ===== verification/Query_Correct.thy ===== *)
theory Query_Correct
  imports Plan_Shape
begin

text \<open>
  A query answers what it asks. Over contents that represent a set of rows, whatever access path the
  planner chooses, draining the cursor gives the answers for exactly the rows the predicate admits, each
  once, in the order asked for and cut to the window of the limit and the offset.
\<close>

section \<open>The contents a cursor reads\<close>

definition reads_from :: "('x, 's, 'w) Exec \<Rightarrow> contents \<Rightarrow> bool" where
  "reads_from ex m \<longleftrightarrow>
     (\<forall>k. kv_get (ex_kv ex) (ex_snapshot ex) k = Inr (m k)) \<and>
     (\<forall>r. \<exists>kvs. kv_scan (ex_kv ex) (ex_snapshot ex) r Ascending = Inr kvs \<and> sorted_wrt (<) (map fst kvs) \<and>
        kv_scan (ex_kv ex) (ex_snapshot ex) r Descending = Inr (rev kvs) \<and>
        (\<forall>k v. (k, v) \<in> set kvs \<longleftrightarrow> range_contains r k \<and> m k = Some v))"

text \<open>No key and value are longer than the machine can address.\<close>

definition sized :: "contents \<Rightarrow> bool" where
  "sized m \<longleftrightarrow> (\<forall>k v. m k = Some v \<longrightarrow> length k + length v < 2 ^ 64)"

definition query_ready ::
  "('x, 's, 'w) Exec \<Rightarrow> 's Planner \<Rightarrow> TableDef \<Rightarrow> Row set \<Rightarrow> contents \<Rightarrow> Expr \<Rightarrow> 's list \<Rightarrow> bool" where
  "query_ready ex pn t R m predicate compute \<longleftrightarrow>
     table_ok t \<and> text_ascending t \<and> unicode_ok (env_unicode (ex_env ex)) \<and>
     planner_ok pn (ex_env ex) (ex_eval ex) t \<and> expressions_ok pn t \<and> reads_only pn (ex_eval ex) \<and>
     expr_wf predicate \<and> literals_ok t predicate \<and>
     represents (env_unicode (ex_env ex)) t R m \<and> reads_from ex m \<and> sized m \<and>
     (\<forall>row\<in>R. list_all wf_value (extend_row (ex_eval ex) row compute [] None))"

definition admits_row :: "('x, 's, 'w) Exec \<Rightarrow> Expr \<Rightarrow> 's list \<Rightarrow> Row \<Rightarrow> bool" where
  "admits_row ex predicate compute row \<longleftrightarrow>
     expr_admits (ex_env ex) predicate (extend_row (ex_eval ex) row compute [] None)"

text \<open>The order of a walk over keys.\<close>

fun walk_less :: "ScanOrder \<Rightarrow> bytes \<Rightarrow> bytes \<Rightarrow> bool" where
  "walk_less Ascending a b \<longleftrightarrow> a < b"
| "walk_less Descending a b \<longleftrightarrow> b < a"

lemma scan_pairs:
  assumes "reads_from ex m"
  obtains kvs where "scan_store ex r ord = Inr kvs" and "distinct (map fst kvs)"
    and "\<forall>k v. (k, v) \<in> set kvs \<longleftrightarrow> range_contains r k \<and> m k = Some v"
    and "sorted_wrt (walk_less ord) (map fst kvs)"
proof -
  obtain kvs where kvs: "kv_scan (ex_kv ex) (ex_snapshot ex) r Ascending = Inr kvs" "sorted_wrt (<) (map fst kvs)"
    "kv_scan (ex_kv ex) (ex_snapshot ex) r Descending = Inr (rev kvs)"
    "\<And>k v. (k, v) \<in> set kvs \<longleftrightarrow> range_contains r k \<and> m k = Some v"
    using assms unfolding reads_from_def by metis
  have "distinct (map fst kvs)" using kvs(2) strict_sorted_iff by blast
  moreover have "walk_less Ascending = (<)" "walk_less Descending = (>)" by (simp_all add: fun_eq_iff)
  ultimately show thesis using that [of kvs] that [of "rev kvs"] kvs
    by (cases ord) (simp_all add: scan_store_def rev_map [symmetric] sorted_wrt_rev)
qed

lemma outcomes_rows:
  assumes "\<And>x. x \<in> set xs \<Longrightarrow> f x = Inr (case row_of x of None \<Rightarrow> None | Some row \<Rightarrow> if P row then Some (g row) else None)"
  shows "outcomes f xs = Inr (map g (filter P (List.map_filter row_of xs)))"
  using assms by (induction xs) (auto simp: List.map_filter_simps split: option.splits)

lemma outcomes_map [simp]: "outcomes f (map g xs) = outcomes (\<lambda>x. f (g x)) xs"
  by (induction xs) simp_all

section \<open>Stored rows and entries\<close>

lemma ready_row:
  assumes "query_ready ex pn t R m predicate compute" and "row \<in> R"
  shows "query_fits pn (ex_eval ex) t predicate compute row" and "stored_ok t row"
    and "decode_row_key t (key_of t row) = Inr (primary_key_values row t)"
    and "\<exists>body. m (key_of t row) = Some body \<and> decode_row t (primary_key_values row t) body = Inr row \<and> length body < 2 ^ 64"
proof -
  have rep: "represents (env_unicode (ex_env ex)) t R m" and size: "sized m" and t: "table_ok t"
    using assms(1) by (simp_all add: query_ready_def)
  show ok: "stored_ok t row" using rep assms(2) by (simp add: represents_def)
  then show "query_fits pn (ex_eval ex) t predicate compute row"
    using assms by (simp add: query_fits_def query_ready_def stored_ok_def)
  show "decode_row_key t (key_of t row) = Inr (primary_key_values row t)" by (rule stored_key_decodes [OF t ok])
  show "\<exists>body. m (key_of t row) = Some body \<and> decode_row t (primary_key_values row t) body = Inr row \<and> length body < 2 ^ 64"
    using rep assms(2) size unfolding represents_def sized_def by (metis add_lessD1 add.commute)
qed

lemma row_of_key:
  assumes "query_ready ex pn t R m predicate compute" and "prefix (table_prefix t) k" and "m k = Some v"
  obtains row where "row \<in> R" and "key_of t row = k" and "decode_row t (primary_key_values row t) v = Inr row"
    and "length v < 2 ^ 64"
proof -
  obtain row where row: "row \<in> R" "key_of t row = k"
    using assms unfolding query_ready_def represents_def by blast
  then show thesis using that ready_row(4) [OF assms(1) row(1)] assms(3) by auto
qed

lemma same_key_row:
  assumes "query_ready ex pn t R m predicate compute" and "row \<in> R" and "other \<in> R" and "key_of t row = key_of t other"
  shows "row = other"
  using assms represented_once [of t "env_unicode (ex_env ex)" R m row other] by (simp add: query_ready_def)

text \<open>A row read by its key.\<close>

lemma fetch_row:
  assumes "query_ready ex pn t R m predicate compute" and "row \<in> R"
    and "plan = (plan_hinted pn t predicate ord projection sort_keys hint compute)\<lparr>pl_access := access, pl_concealed := hidden\<rparr>"
  shows "read_step ex (initial_cursor pn t plan compute src) missing (fetch ex t (primary_key_values row t)) =
    Inr (if admits_row ex predicate compute row
         then Some (answer pn (ex_eval ex) t (pl_output_columns plan) compute row) else None)"
proof -
  obtain body where body: "m (key_of t row) = Some body" "decode_row t (primary_key_values row t) body = Inr row"
    "length body < 2 ^ 64"
    using ready_row(4) [OF assms(1,2)] by blast
  have "fetch ex t (primary_key_values row t) = Inr (Some (primary_key_values row t, body))"
    using assms(1) body(1) by (simp add: fetch_def read_row_body_def query_ready_def reads_from_def)
  moreover have "table_ok t" using assms(1) by (simp add: query_ready_def)
  ultimately show ?thesis
    using materialise_answer [OF _ body(3,2) ready_row(1) [OF assms(1,2)] assms(3), of src]
    by (simp add: read_step_def admits_row_def)
qed


section \<open>What each source yields\<close>

text \<open>Which of two rows a walk over keys meets first.\<close>

definition entry_before :: "Unicode \<Rightarrow> TableDef \<Rightarrow> ScanOrder \<Rightarrow> IndexDef \<Rightarrow> KeyRange list \<Rightarrow> Row \<Rightarrow> Row \<Rightarrow> bool" where
  "entry_before u t ord ix ranges a b \<longleftrightarrow>
     (\<exists>e\<in>set (held_entries u t ix a). \<exists>f\<in>set (held_entries u t ix b).
        (\<exists>r\<in>set ranges. range_contains r (en_key e)) \<and> (\<exists>r\<in>set ranges. range_contains r (en_key f)) \<and>
        walk_less ord (en_key e) (en_key f))"

definition walks_before :: "Unicode \<Rightarrow> TableDef \<Rightarrow> ScanOrder \<Rightarrow> Access \<Rightarrow> Row \<Rightarrow> Row \<Rightarrow> bool" where
  "walks_before u t ord access a b \<longleftrightarrow>
     (case access of
        TableScan _ \<Rightarrow> walk_less ord (key_of t a) (key_of t b)
      | IndexScan i r _ \<Rightarrow> \<exists>ix\<in>set (td_indexes t). ix_id ix = i \<and> entry_before u t ord ix [r] a b
      | IndexScans i ranges _ \<Rightarrow> \<exists>ix\<in>set (td_indexes t). ix_id ix = i \<and> entry_before u t ord ix ranges a b
      | _ \<Rightarrow> True)"

text \<open>A source yields the answers of the admitted rows among a list of distinct rows, the reached ones in
  the order of the walk.\<close>

definition walks_rows ::
  "('x, 's, 'w) Exec \<Rightarrow> 's Planner \<Rightarrow> TableDef \<Rightarrow> Row set \<Rightarrow> Plan \<Rightarrow> Expr \<Rightarrow> 's list \<Rightarrow> Source \<Rightarrow> bool" where
  "walks_rows ex pn t R plan predicate compute src \<longleftrightarrow>
     (\<exists>rs. distinct rs \<and> set rs = {row \<in> R. reaches (env_unicode (ex_env ex)) t row (pl_access plan)} \<and>
        sorted_wrt (walks_before (env_unicode (ex_env ex)) t (pl_order plan) (pl_access plan)) rs \<and>
        source_yields ex (initial_cursor pn t plan compute src)
          (map (answer pn (ex_eval ex) t (pl_output_columns plan) compute) (filter (admits_row ex predicate compute) rs)))"

lemma table_scan_rows:
  assumes "query_ready ex pn t R m predicate compute" and "pl_access plan = TableScan r"
    and "\<And>k. range_contains r k \<Longrightarrow> prefix (table_prefix t) k"
    and "plan = (plan_hinted pn t predicate ord projection sort_keys hint compute)\<lparr>pl_access := access, pl_concealed := hidden\<rparr>"
  shows "\<exists>src. open_source ex t plan dc = Inr src \<and> walks_rows ex pn t R plan predicate compute src"
proof -
  have reads: "reads_from ex m" and t: "table_ok t" using assms(1) by (simp_all add: query_ready_def)
  obtain kvs where kvs: "scan_store ex r (pl_order plan) = Inr kvs" "distinct (map fst kvs)"
    "\<forall>k v. (k, v) \<in> set kvs \<longleftrightarrow> range_contains r k \<and> m k = Some v" "sorted_wrt (walk_less (pl_order plan)) (map fst kvs)"
    by (rule scan_pairs [OF reads, of r "pl_order plan"])
  have "\<exists>row. row \<in> R \<and> key_of t row = fst kv \<and> decode_row t (primary_key_values row t) (snd kv) = Inr row \<and> length (snd kv) < 2 ^ 64"
    if "kv \<in> set kvs" for kv
    using that kvs(3) assms(3) row_of_key [OF assms(1), of "fst kv" "snd kv"] by (metis prod.collapse)
  then obtain row_of where row_of: "\<And>kv. kv \<in> set kvs \<Longrightarrow> row_of kv \<in> R \<and> key_of t (row_of kv) = fst kv \<and>
      decode_row t (primary_key_values (row_of kv) t) (snd kv) = Inr (row_of kv) \<and> length (snd kv) < 2 ^ 64"
    by metis
  let ?qc = "initial_cursor pn t plan compute (Source_Rows kvs)"
  have "outcomes (row_step ex ?qc) kvs =
      Inr (map (answer pn (ex_eval ex) t (pl_output_columns plan) compute)
        (filter (admits_row ex predicate compute) (List.map_filter (\<lambda>kv. Some (row_of kv)) kvs)))"
  proof (rule outcomes_rows)
    fix kv
    assume "kv \<in> set kvs"
    note r = row_of [OF this]
    have "decode_row_key t (fst kv) = Inr (primary_key_values (row_of kv) t)"
      using ready_row(3) [OF assms(1)] r by metis
    then show "row_step ex ?qc kv = Inr (case Some (row_of kv) of None \<Rightarrow> None
        | Some row \<Rightarrow> if admits_row ex predicate compute row
            then Some (answer pn (ex_eval ex) t (pl_output_columns plan) compute row) else None)"
      using materialise_answer [OF t _ _ ready_row(1) [OF assms(1)] assms(4), of "snd kv" _ "row_of kv"] r
      by (simp add: row_step_def admits_row_def)
  qed
  moreover have "List.map_filter (\<lambda>kv. Some (row_of kv)) kvs = map row_of kvs" by (induction kvs) (simp_all add: List.map_filter_simps)
  moreover have keys: "map (key_of t) (map row_of kvs) = map fst kvs" using row_of by simp
  moreover have "distinct (map row_of kvs)" using keys kvs(2) by (metis distinct_map)
  moreover have "sorted_wrt (walks_before (env_unicode (ex_env ex)) t (pl_order plan) (pl_access plan)) (map row_of kvs)"
    using kvs(4) unfolding keys [symmetric] sorted_wrt_map by (simp add: walks_before_def assms(2))
  moreover have "set (map row_of kvs) = {row \<in> R. range_contains r (key_of t row)}"
  proof (intro equalityI subsetI)
    fix row
    assume "row \<in> {row \<in> R. range_contains r (key_of t row)}"
    moreover obtain body where "m (key_of t row) = Some body" using ready_row(4) [OF assms(1)] calculation by blast
    ultimately have "(key_of t row, body) \<in> set kvs" "row \<in> R" by (simp_all add: kvs(3))
    then have "row_of (key_of t row, body) = row"
      using row_of [of "(key_of t row, body)"] same_key_row [OF assms(1)] by (metis fst_conv)
    then show "row \<in> set (map row_of kvs)" using \<open>(key_of t row, body) \<in> set kvs\<close> by force
  qed (use row_of kvs(3) in force)
  ultimately have "walks_rows ex pn t R plan predicate compute (Source_Rows kvs)"
    using assms(2) unfolding walks_rows_def by (intro exI [of _ "map row_of kvs"]) (simp add: source_yields_def reaches_def)
  then show ?thesis using kvs(1) assms(2) by (simp add: open_source_def)
qed

text \<open>Rows read by given keys.\<close>

lemma key_row:
  assumes "query_ready ex pn t R m predicate compute" and "proper_key t key"
  shows "(\<forall>row\<in>R. key_of t row \<noteq> row_key t key) \<and> m (row_key t key) = None \<or>
    (\<exists>row\<in>R. primary_key_values row t = key)"
proof (cases "m (row_key t key)")
  case None
  then show ?thesis using ready_row(4) [OF assms(1)] by (metis option.distinct(1))
next
  case (Some body)
  have "prefix (table_prefix t) (row_key t key)" by (simp add: row_key_bytes)
  then obtain row where row: "row \<in> R" "key_of t row = row_key t key" using row_of_key [OF assms(1) _ Some] by metis
  have "length (row_key t key) < 2 ^ 64" using Some assms(1) unfolding query_ready_def sized_def by (metis add_lessD1)
  then have "primary_key_values row t = key"
    using key_bytes_eq [of t row key] ready_row(2) [OF assms(1) row(1)] row(2) assms by (simp add: query_ready_def proper_key_def)
  then show ?thesis using row(1) by blast
qed

lemma point_gets_rows:
  assumes "query_ready ex pn t R m predicate compute" and "pl_access plan = PointGets ks"
    and "list_all (proper_key t) ks" and "distinct (map (row_key t) ks)"
    and "plan = (plan_hinted pn t predicate ord projection sort_keys hint compute)\<lparr>pl_access := access, pl_concealed := hidden\<rparr>"
  shows "\<exists>src. open_source ex t plan dc = Inr src \<and> walks_rows ex pn t R plan predicate compute src"
proof -
  let ?under = "\<lambda>key found. case found of
      None \<Rightarrow> m (row_key t key) = None \<and> (\<forall>row\<in>R. key_of t row \<noteq> row_key t key)
    | Some row \<Rightarrow> row \<in> R \<and> primary_key_values row t = key"
  have "\<exists>found. ?under key found" if "key \<in> set ks" for key
  proof -
    have "proper_key t key" using assms(3) that by (simp add: list_all_iff)
    from key_row [OF assms(1) this] show ?thesis
    proof
      assume "(\<forall>row\<in>R. key_of t row \<noteq> row_key t key) \<and> m (row_key t key) = None"
      then show ?thesis by (intro exI [of _ None]) simp
    next
      assume "\<exists>row\<in>R. primary_key_values row t = key"
      then obtain row where "row \<in> R" "primary_key_values row t = key" by blast
      then show ?thesis by (intro exI [of _ "Some row"]) simp
    qed
  qed
  then have "\<forall>key\<in>set ks. \<exists>found. ?under key found" by blast
  from bchoice [OF this] obtain row_of where row_of: "\<And>key. key \<in> set ks \<Longrightarrow> ?under key (row_of key)" by blast
  let ?src = "Source_Points ks [] False" and ?qc = "initial_cursor pn t plan compute (Source_Points ks [] False)"
  have "outcomes (\<lambda>key. read_step ex ?qc (Inr None) (fetch ex t key)) ks =
      Inr (map (answer pn (ex_eval ex) t (pl_output_columns plan) compute)
        (filter (admits_row ex predicate compute) (List.map_filter row_of ks)))"
  proof (rule outcomes_rows)
    fix key
    assume key: "key \<in> set ks"
    show "read_step ex ?qc (Inr None) (fetch ex t key) = Inr (case row_of key of None \<Rightarrow> None
        | Some row \<Rightarrow> if admits_row ex predicate compute row
            then Some (answer pn (ex_eval ex) t (pl_output_columns plan) compute row) else None)"
    proof (cases "row_of key")
      case None
      then have "fetch ex t key = Inr None"
        using row_of [OF key] assms(1) by (simp add: fetch_def read_row_body_def query_ready_def reads_from_def)
      then show ?thesis using None by (simp add: read_step_def)
    next
      case (Some row)
      then have "row \<in> R" "primary_key_values row t = key" using row_of [OF key] by simp_all
      then show ?thesis using Some fetch_row [OF assms(1) _ assms(5), of row] by auto
    qed
  qed
  then have yields: "source_yields ex ?qc (map (answer pn (ex_eval ex) t (pl_output_columns plan) compute)
        (filter (admits_row ex predicate compute) (List.map_filter row_of ks)))"
    by (simp add: source_yields_def)
  have keys: "\<And>row key. key \<in> set ks \<Longrightarrow> row_of key = Some row \<Longrightarrow> key_of t row = row_key t key"
    using row_of by fastforce
  have "distinct (List.map_filter row_of ks)"
    using assms(4) keys
  proof (induction ks)
    case (Cons key ks)
    then show ?case by (auto simp: List.map_filter_def split: option.split) (metis image_eqI)
  qed (simp add: List.map_filter_simps)
  moreover have "set (List.map_filter row_of ks) = {row \<in> R. reaches (env_unicode (ex_env ex)) t row (pl_access plan)}"
  proof (intro equalityI subsetI)
    fix row
    assume "row \<in> set (List.map_filter row_of ks)"
    then obtain key where "key \<in> set ks" "row_of key = Some row" by (auto simp: List.map_filter_def)
    then show "row \<in> {row \<in> R. reaches (env_unicode (ex_env ex)) t row (pl_access plan)}"
      using row_of [of key] assms(2) by (auto simp: reaches_def)
  next
    fix row
    assume "row \<in> {row \<in> R. reaches (env_unicode (ex_env ex)) t row (pl_access plan)}"
    then obtain key where key: "row \<in> R" "key \<in> set ks" "row_key t key = key_of t row" using assms(2) by (auto simp: reaches_def)
    then obtain other where "row_of key = Some other" "other \<in> R" "primary_key_values other t = key"
      using row_of [OF key(2)] by (cases "row_of key") auto
    then have "row_of key = Some row" using same_key_row [OF assms(1) key(1)] key(3) by metis
    then show "row \<in> set (List.map_filter row_of ks)" using key(2) by (force simp: List.map_filter_def)
  qed
  moreover have "sorted_wrt (walks_before u t order (pl_access plan)) xs" for u order xs
    by (induction xs) (simp_all add: walks_before_def assms(2))
  ultimately have "walks_rows ex pn t R plan predicate compute ?src"
    using yields unfolding walks_rows_def by (intro exI [of _ "List.map_filter row_of ks"]) blast
  then show ?thesis using assms(2) by (simp add: open_source_def)
qed


lemma point_get_rows:
  assumes "query_ready ex pn t R m predicate compute" and "pl_access plan = PointGet key" and "proper_key t key"
    and "plan = (plan_hinted pn t predicate ord projection sort_keys hint compute)\<lparr>pl_access := access, pl_concealed := hidden\<rparr>"
    and "decode_inputs pn (length (td_columns t)) compute (pl_output_columns plan) = (dc, tr)"
  shows "\<exists>src. open_source ex t plan dc = Inr src \<and> walks_rows ex pn t R plan predicate compute src"
proof -
  have t: "table_ok t" and get: "kv_get (ex_kv ex) (ex_snapshot ex) k = Inr (m k)" for k
    using assms(1) by (simp_all add: query_ready_def reads_from_def)
  have reach: "reaches u t row (pl_access plan) = (row_key t key = key_of t row)" for u row
    using assms(2) by (simp add: reaches_def)
  from key_row [OF assms(1,3)] show ?thesis
  proof
    assume none: "(\<forall>row\<in>R. key_of t row \<noteq> row_key t key) \<and> m (row_key t key) = None"
    then have "walks_rows ex pn t R plan predicate compute (Source_Point None)"
      unfolding walks_rows_def reach by (intro exI [of _ "[]"]) (auto simp: source_yields_def admitted_def)
    then show ?thesis using none get assms(2) by (simp add: open_source_def read_row_projected_def)
  next
    assume "\<exists>row\<in>R. primary_key_values row t = key"
    then obtain row where row: "row \<in> R" "primary_key_values row t = key" by blast
    obtain body where body: "m (key_of t row) = Some body" "decode_row t key body = Inr row" "length body < 2 ^ 64"
      using ready_row(4) [OF assms(1) row(1)] row(2) by blast
    obtain decoded where decoded: "decode_row_columns t key body (Some dc) = Inr decoded"
      "extend_row (ex_eval ex) decoded compute tr None = answer pn (ex_eval ex) t (pl_output_columns plan) compute row"
      using projected_answer [OF t body(3,2) ready_row(1) [OF assms(1) row(1)] assms(4,5)] by blast
    have "{r \<in> R. row_key t key = key_of t r} = {row}" using row same_key_row [OF assms(1)] by auto
    moreover have "source_yields ex (initial_cursor pn t plan compute (Source_Point (Some decoded)))
        (map (answer pn (ex_eval ex) t (pl_output_columns plan) compute) (filter (admits_row ex predicate compute) [row]))"
      using answer_columns(1) [OF ready_row(1) [OF assms(1) row(1)] plan_columns(6) [OF assms(4)], of "ex_env ex"]
      by (simp add: source_yields_def admitted_def assms(5) decoded(2) plan_columns(1) [OF assms(4)] admits_row_def)
    ultimately have "walks_rows ex pn t R plan predicate compute (Source_Point (Some decoded))"
      unfolding walks_rows_def reach by (intro exI [of _ "[row]"]) simp
    then show ?thesis using get body(1) row(2) decoded(1) assms(2)
      by (simp add: open_source_def read_row_projected_def map_err_def)
  qed
qed

section \<open>Index entries\<close>

lemma key_sets_fit:
  assumes "query_ready ex pn t R m predicate compute" and "row \<in> R" and "ix \<in> set (td_indexes t)"
    and "vs \<in> set (key_sets (env_unicode (ex_env ex)) ix row)"
  shows "values_fit t ix vs" and "\<not> ix_text ix \<Longrightarrow> map canon vs = key_values ix row"
proof -
  let ?u = "env_unicode (ex_env ex)"
  have t: "table_ok t" and u: "unicode_ok ?u" and exprs: "expressions_ok pn t" and row: "row_ok t row" "canonical row"
    using assms(1) ready_row(2) [OF assms(1,2)] by (simp_all add: query_ready_def stored_ok_def)
  have ix: "index_ok (td_columns t) ix" using t assms(3) by (simp add: table_ok_def Let_def)
  have column: "fits (case get (td_columns t) (ic_ordinal c) of None \<Rightarrow> TBytes | Some d \<Rightarrow> col_ty d) (value_or_null row (ic_ordinal c))"
    if "c \<in> set (ix_columns ix)" for c
    using ix that row_ok_fits [OF t row(1)] row_ok_length [OF row(1)]
    by (auto simp: index_ok_def keyable_def live_column_def value_or_null_less get_def)
  have canon: "canon (value_or_null row i) = value_or_null row i" for i
    using row(2) by (cases "i < length row") (auto simp: canonical_def value_or_null_def get_def list_eq_iff_nth_eq)
  have "values_fit t ix vs \<and> (\<not> ix_text ix \<longrightarrow> map canon vs = key_values ix row)"
  proof (cases "ix_text ix")
    case False
    then have vs: "vs = key_values ix row" using assms(4) by (simp add: key_sets_def)
    show ?thesis
    proof (cases "ix_expression ix")
      case None
      then show ?thesis using column canon
        by (auto simp: vs values_fit_def index_key_types_def key_types_def key_values_def index_values_def
            list_all2_conv_all_nth)
    next
      case (Some e)
      then show ?thesis using exprs assms(3) row(1)
        by (auto simp: vs values_fit_def index_key_types_def key_values_def expressions_ok_def)
    qed
  next
    case True
    then obtain c where c: "ix_columns ix = [c]" "ix_expression ix = None" "col_ty (td_columns t ! ic_ordinal c) = TStr"
        "ic_ordinal c < length (td_columns t)"
      using ix by (auto simp: index_ok_def keyable_def live_column_def)
    then obtain x where x: "vs = [Str x]"
      using assms(4) True by (auto simp: key_sets_def split: option.splits Value.splits)
    have "entry_values ix vs" by (rule key_sets_entry [OF t row(1) u assms(3,4)])
    then have "fits TStr (Str x)" by (simp add: x entry_values_def fits_def has_type_def)
    then show ?thesis using c True x by (simp add: values_fit_def index_key_types_def key_types_def get_def)
  qed
  then show "values_fit t ix vs" "\<not> ix_text ix \<Longrightarrow> map canon vs = key_values ix row" by simp_all
qed

definition entry_of ::
  "('x, 's, 'w) Exec \<Rightarrow> TableDef \<Rightarrow> Row set \<Rightarrow> IndexDef \<Rightarrow> bytes \<times> bytes \<Rightarrow> Row \<times> Value list \<Rightarrow> bool" where
  "entry_of ex t R ix kv re \<longleftrightarrow>
     fst re \<in> R \<and> (\<exists>e\<in>set (held_entries (env_unicode (ex_env ex)) t ix (fst re)). en_key e = fst kv) \<and>
     decode_index_entry t ix (fst kv) (snd kv) = Inr (snd re, primary_key_values (fst re) t) \<and>
     (\<not> ix_text ix \<longrightarrow> snd re = key_values ix (fst re))"

lemma entry_exists:
  assumes "query_ready ex pn t R m predicate compute" and "ix \<in> set (td_indexes t)"
    and "prefix (index_prefix_of (ix_id ix)) k" and "m k = Some v"
  shows "\<exists>re. entry_of ex t R ix (k, v) re"
proof -
  let ?u = "env_unicode (ex_env ex)"
  obtain row e where row: "row \<in> R" "e \<in> set (held_entries ?u t ix row)" "en_key e = k" "en_value e = v"
    using assms unfolding query_ready_def represents_def by metis
  obtain vs where vs: "vs \<in> set (key_sets ?u ix row)" "e = index_entry t ix vs (primary_key_values row t)"
    using row(2) by (auto simp: held_entries_def entries_for_def Let_def split: if_splits)
  have t: "table_ok t" using assms(1) by (simp add: query_ready_def)
  have ok: "row_ok t row" "canonical row" using ready_row(2) [OF assms(1) row(1)] by (simp_all add: stored_ok_def)
  have "length (en_key e) + length (en_value e) < 2 ^ 64"
    using assms(1,4) row(3,4) by (simp add: query_ready_def sized_def)
  then have "decode_index_entry t ix k v = Inr (map canon vs, primary_key_values row t)"
    using decode_index_entry_bytes [of t "primary_key_values row t" ix vs] row_key_fits [OF t ok(1)]
      key_sets_fit(1) [OF assms(1) row(1) assms(2) vs(1)] canonical_key [OF ok(2), of t] row(3,4) vs(2) by simp
  then have "entry_of ex t R ix (k, v) (row, map canon vs)"
    using row key_sets_fit(2) [OF assms(1) row(1) assms(2) vs(1)] by (auto simp: entry_of_def)
  then show ?thesis by blast
qed


text \<open>Ranges taken one after the other in the order of the walk.\<close>

definition walks_in_order :: "ScanOrder \<Rightarrow> KeyRange list \<Rightarrow> bool" where
  "walks_in_order ord = sorted_wrt (\<lambda>r s. \<forall>k l. range_contains r k \<longrightarrow> range_contains s l \<longrightarrow> walk_less ord k l)"

lemma scans:
  assumes "reads_from ex m"
  shows "read_once ranges \<Longrightarrow> walks_in_order ord ranges \<Longrightarrow>
    \<exists>kvss. outcomes (\<lambda>r. rbind (scan_store ex r ord) (\<lambda>kvs. Inr (Some kvs))) ranges = Inr kvss \<and>
      distinct (map fst (concat kvss)) \<and>
      (\<forall>k v. (k, v) \<in> set (concat kvss) \<longleftrightarrow> (\<exists>r\<in>set ranges. range_contains r k) \<and> m k = Some v) \<and>
      sorted_wrt (walk_less ord) (map fst (concat kvss))"
proof (induction ranges)
  case (Cons r ranges)
  have apart: "\<not> range_contains s k" if "range_contains r k" "s \<in> set ranges" for s k
  proof
    assume "range_contains s k"
    then have "filter (\<lambda>r. range_contains r k) ranges \<noteq> []" using that(2) by (auto simp: filter_empty_conv)
    then show False using Cons.prems that(1) by (auto simp: read_once_def dest: spec [of _ k])
  qed
  have "read_once ranges"
    unfolding read_once_def
  proof
    fix k
    have "length (filter (\<lambda>r. range_contains r k) ranges) \<le> length (filter (\<lambda>r. range_contains r k) (r # ranges))" by simp
    also have "\<dots> \<le> 1" using Cons.prems unfolding read_once_def by blast
    finally show "length (filter (\<lambda>r. range_contains r k) ranges) \<le> 1" .
  qed
  moreover have "walks_in_order ord ranges" using Cons.prems(2) by (simp add: walks_in_order_def)
  ultimately obtain kvss where ih: "outcomes (\<lambda>r. rbind (scan_store ex r ord) (\<lambda>kvs. Inr (Some kvs))) ranges = Inr kvss"
    "distinct (map fst (concat kvss))"
    "\<forall>k v. (k, v) \<in> set (concat kvss) \<longleftrightarrow> (\<exists>r\<in>set ranges. range_contains r k) \<and> m k = Some v"
    "sorted_wrt (walk_less ord) (map fst (concat kvss))" using Cons.IH by blast
  obtain kvs where kvs: "scan_store ex r ord = Inr kvs" "distinct (map fst kvs)"
    "\<forall>k v. (k, v) \<in> set kvs \<longleftrightarrow> range_contains r k \<and> m k = Some v" "sorted_wrt (walk_less ord) (map fst kvs)"
    by (rule scan_pairs [OF assms, of r ord])
  have "fst ` set kvs \<inter> fst ` set (concat kvss) = {}" using kvs(3) ih(3) apart by fastforce
  moreover have sep: "walk_less ord (fst x) (fst y)" if "x \<in> set kvs" "y \<in> set (concat kvss)" for x y
  proof -
    have "range_contains r (fst x)" "\<exists>s\<in>set ranges. range_contains s (fst y)"
      using that kvs(3) ih(3) by (metis prod.collapse)+
    then show ?thesis using Cons.prems(2) by (auto simp: walks_in_order_def)
  qed
  moreover have "sorted_wrt (walk_less ord) (map fst (concat (kvs # kvss)))"
    using sep kvs(4) ih(4) by (auto simp: sorted_wrt_append simp del: set_concat)
  ultimately show ?case using ih(1-3) kvs(1-3) by (intro exI [of _ "kvs # kvss"]) auto
qed simp

lemma td_index_own: "table_ok t \<Longrightarrow> ix \<in> set (td_indexes t) \<Longrightarrow> td_index t (ix_id ix) = Some ix"
proof -
  assume t: "table_ok t" and ix: "ix \<in> set (td_indexes t)"
  have "distinct (map ix_id (td_indexes t))" using t by (simp add: table_ok_def Let_def)
  then have same: "other = ix" if "other \<in> set (td_indexes t)" "ix_id other = ix_id ix" for other
    using that ix by (meson distinct_map inj_onD)
  show ?thesis
  proof (cases "td_index t (ix_id ix)")
    case None
    then show ?thesis using ix by (auto simp: td_index_def find_None_iff)
  next
    case (Some other)
    then have "other \<in> set (td_indexes t)" "ix_id other = ix_id ix" by (auto simp: td_index_def find_Some_iff)
    then show ?thesis using same Some by simp
  qed
qed

text \<open>The entries a walk over an index reads, with their owners: every row it reaches once.\<close>

lemma index_entries:
  assumes "query_ready ex pn t R m predicate compute" and "index_walk (env_unicode (ex_env ex)) pn cx t ix ranges covering"
    and "distinct (map fst kvs)"
    and "\<forall>k v. (k, v) \<in> set kvs \<longleftrightarrow> (\<exists>r\<in>set ranges. range_contains r k) \<and> m k = Some v"
  obtains rowent where "\<And>kv. kv \<in> set kvs \<Longrightarrow> entry_of ex t R ix kv (rowent kv)"
    and "distinct (map (\<lambda>kv. fst (rowent kv)) kvs)"
    and "set (map (\<lambda>kv. fst (rowent kv)) kvs) =
      {row \<in> R. \<exists>e\<in>set (held_entries (env_unicode (ex_env ex)) t ix row). \<exists>r\<in>set ranges. range_contains r (en_key e)}"
proof -
  let ?u = "env_unicode (ex_env ex)"
  have t: "table_ok t" and u: "unicode_ok ?u" and rep: "represents ?u t R m" using assms(1) by (simp_all add: query_ready_def)
  have ix: "ix \<in> set (td_indexes t)"
    and space: "\<And>r k. r \<in> set ranges \<Longrightarrow> range_contains r k \<Longrightarrow> prefix (index_prefix_of (ix_id ix)) k"
    and one: "\<And>row e f. row_ok t row \<Longrightarrow> e \<in> set (held_entries ?u t ix row) \<Longrightarrow> f \<in> set (held_entries ?u t ix row) \<Longrightarrow>
      \<exists>r\<in>set ranges. range_contains r (en_key e) \<Longrightarrow> \<exists>r\<in>set ranges. range_contains r (en_key f) \<Longrightarrow> e = f"
    using assms(2) unfolding index_walk_def by blast+
  have "\<forall>kv\<in>set kvs. \<exists>re. entry_of ex t R ix kv re"
    using entry_exists [OF assms(1) ix] space assms(4) by fast
  from bchoice [OF this] obtain rowent where re: "\<And>kv. kv \<in> set kvs \<Longrightarrow> entry_of ex t R ix kv (rowent kv)" by blast
  have "inj_on (\<lambda>kv. fst (rowent kv)) (set kvs)"
  proof (rule inj_onI)
    fix x y
    assume xy: "x \<in> set kvs" "y \<in> set kvs" "fst (rowent x) = fst (rowent y)"
    obtain e f where e: "e \<in> set (held_entries ?u t ix (fst (rowent x)))" "en_key e = fst x"
      and f: "f \<in> set (held_entries ?u t ix (fst (rowent x)))" "en_key f = fst y"
      using re [OF xy(1)] re [OF xy(2)] xy(3) by (auto simp: entry_of_def)
    have "row_ok t (fst (rowent x))" using re [OF xy(1)] ready_row(2) [OF assms(1)] by (simp add: entry_of_def stored_ok_def)
    moreover have "\<exists>r\<in>set ranges. range_contains r (fst x)" "\<exists>r\<in>set ranges. range_contains r (fst y)"
      "m (fst x) = Some (snd x)" "m (fst y) = Some (snd y)"
      using assms(4) xy(1,2) by (metis prod.collapse)+
    ultimately have "fst x = fst y" "m (fst x) = Some (snd x)" "m (fst y) = Some (snd y)" using one [OF _ e(1) f(1)] e(2) f(2) by simp_all
    then show "x = y" by (simp add: prod_eq_iff)
  qed
  moreover have "distinct kvs" using assms(3) by (simp add: distinct_map)
  ultimately have "distinct (map (\<lambda>kv. fst (rowent kv)) kvs)" by (simp add: distinct_map)
  moreover have "set (map (\<lambda>kv. fst (rowent kv)) kvs) =
      {row \<in> R. \<exists>e\<in>set (held_entries ?u t ix row). \<exists>r\<in>set ranges. range_contains r (en_key e)}" (is "?L = ?R")
  proof (intro equalityI subsetI)
    fix row
    assume "row \<in> ?L"
    then obtain kv where kv: "kv \<in> set kvs" "row = fst (rowent kv)" by auto
    have "\<exists>r\<in>set ranges. range_contains r (fst kv)" using assms(4) kv(1) by (metis prod.collapse)
    then show "row \<in> ?R" using re [OF kv(1)] kv(2) by (simp add: entry_of_def) metis
  next
    fix row
    assume "row \<in> ?R"
    then obtain e where e: "row \<in> R" "e \<in> set (held_entries ?u t ix row)" "\<exists>r\<in>set ranges. range_contains r (en_key e)" by blast
    have "prefix (index_prefix_of (ix_id ix)) (en_key e)" using space e(3) by blast
    then have "m (en_key e) = Some (en_value e)" using rep ix e(1,2) unfolding represents_def by blast
    then have kv: "(en_key e, en_value e) \<in> set kvs" using assms(4) e(3) by simp
    let ?owner = "fst (rowent (en_key e, en_value e))"
    obtain f where f: "f \<in> set (held_entries ?u t ix ?owner)" "en_key e = en_key f" "?owner \<in> R"
      using re [OF kv] unfolding entry_of_def by (metis fst_conv)
    have "row = ?owner" by (rule entry_owner [OF t u rep ix e(1,2) f(3,1,2)])
    then show "row \<in> ?L" using kv by force
  qed
  ultimately show thesis using that [of rowent] re by blast
qed


lemma index_rows:
  assumes "query_ready ex pn t R m predicate compute"
    and "index_walk (env_unicode (ex_env ex)) pn cx t ix ranges covering"
    and "plan_context t predicate projection sort_keys compute cx"
    and "plan = (plan_hinted pn t predicate ord projection sort_keys hint compute)\<lparr>pl_access := access, pl_concealed := hidden\<rparr>"
    and "\<And>row. reaches (env_unicode (ex_env ex)) t row (pl_access plan) \<longleftrightarrow>
      (\<exists>e\<in>set (held_entries (env_unicode (ex_env ex)) t ix row). \<exists>r\<in>set ranges. range_contains r (en_key e))"
    and "covering \<Longrightarrow> plan_from_entry pn t plan compute = expression_position pn ix compute"
    and "decode_inputs pn (length (td_columns t)) compute (pl_output_columns plan) = (dc, tr)"
    and "walks_in_order (pl_order plan) ranges"
    and "\<And>a b. walks_before (env_unicode (ex_env ex)) t (pl_order plan) (pl_access plan) a b \<longleftrightarrow>
      entry_before (env_unicode (ex_env ex)) t (pl_order plan) ix ranges a b"
  shows "\<exists>src. index_source ex t (ix_id ix) ranges covering (pl_order plan) = Inr src \<and> walks_rows ex pn t R plan predicate compute src"
proof -
  let ?order = "pl_order plan" and ?answer = "answer pn (ex_eval ex) t (pl_output_columns plan) compute" and ?adm = "admits_row ex predicate compute"
  have t: "table_ok t" and reads: "reads_from ex m" using assms(1) by (simp_all add: query_ready_def)
  have ix: "ix \<in> set (td_indexes t)" and once: "read_once ranges" and cov: "covering \<Longrightarrow> covers pn cx ix"
    using assms(2) by (simp_all add: index_walk_def)
  note own = td_index_own [OF t ix]
  obtain kvss where kvss: "outcomes (\<lambda>r. rbind (scan_store ex r ?order) (\<lambda>kvs. Inr (Some kvs))) ranges = Inr kvss"
    "distinct (map fst (concat kvss))"
    "\<forall>k v. (k, v) \<in> set (concat kvss) \<longleftrightarrow> (\<exists>r\<in>set ranges. range_contains r k) \<and> m k = Some v"
    "sorted_wrt (walk_less ?order) (map fst (concat kvss))"
    using scans [OF reads once assms(8)] by blast
  obtain rowent where re: "\<And>kv. kv \<in> set (concat kvss) \<Longrightarrow> entry_of ex t R ix kv (rowent kv)"
    "distinct (map (\<lambda>kv. fst (rowent kv)) (concat kvss))"
    "set (map (\<lambda>kv. fst (rowent kv)) (concat kvss)) = {row \<in> R. reaches (env_unicode (ex_env ex)) t row (pl_access plan)}"
    using index_entries [OF assms(1,2) kvss(2,3)] unfolding assms(5) by blast
  have order: "sorted_wrt (walks_before (env_unicode (ex_env ex)) t ?order (pl_access plan)) (map (\<lambda>kv. fst (rowent kv)) (concat kvss))"
    unfolding sorted_wrt_map
  proof (rule sorted_wrt_mono_rel)
    show "sorted_wrt (\<lambda>x y. walk_less ?order (fst x) (fst y)) (concat kvss)" using kvss(4) by (simp add: sorted_wrt_map)
    show "walks_before (env_unicode (ex_env ex)) t ?order (pl_access plan) (fst (rowent x)) (fst (rowent y))"
      if "x \<in> set (concat kvss)" "y \<in> set (concat kvss)" "walk_less ?order (fst x) (fst y)" for x y
    proof -
      have "\<exists>r\<in>set ranges. range_contains r (fst x)" "\<exists>r\<in>set ranges. range_contains r (fst y)"
        using that(1,2) kvss(3) by (metis prod.collapse)+
      then show ?thesis
        using re(1) [OF that(1)] re(1) [OF that(2)] that(3) unfolding assms(9) entry_of_def entry_before_def by metis
    qed
  qed
  let ?rs = "map (\<lambda>kv. fst (rowent kv)) (concat kvss)"
  let ?es = "map (\<lambda>kv. (snd (rowent kv), primary_key_values (fst (rowent kv)) t)) (concat kvss)"
  have entries: "outcomes (\<lambda>(k, v). rbind (decode_index_entry t ix k v) (\<lambda>e. Inr (Some e))) (concat kvss) = Inr ?es"
  proof -
    have "outcomes (\<lambda>(k, v). rbind (decode_index_entry t ix k v) (\<lambda>e. Inr (Some e))) (concat kvss) =
        Inr (List.map_filter (\<lambda>kv. Some (snd (rowent kv), primary_key_values (fst (rowent kv)) t)) (concat kvss))"
      by (rule outcomes_ok) (use re(1) in \<open>auto simp: entry_of_def split_def\<close>)
    then show ?thesis by (simp add: map_filter_def)
  qed
  have inR: "row \<in> R" if "row \<in> set ?rs" for row using that re(3) by blast
  show ?thesis
  proof (cases ranges)
    case Nil
    then have "walks_rows ex pn t R plan predicate compute Source_Empty"
      unfolding walks_rows_def by (intro exI [of _ "[]"]) (auto simp: source_yields_def assms(5))
    then show ?thesis using Nil own by (simp add: index_source_def)
  next
    case (Cons first rest)
    then obtain cur kvss' where cur: "scan_store ex first ?order = Inr cur" "kvss = cur # kvss'"
      "outcomes (\<lambda>r. rbind (scan_store ex r ?order) (\<lambda>kvs. Inr (Some kvs))) rest = Inr kvss'"
      using kvss(1) by (auto simp: rbind_def split: sum.splits)
    then have all: "all_entries ex t ix ?order cur rest = Inr ?es"
      using entries by (simp add: all_entries_def)
    show ?thesis
    proof (cases covering)
      case False
      let ?qc = "initial_cursor pn t plan compute (Source_Index ix cur rest ?order [] False)"
      have "outcomes (\<lambda>kv. read_step ex ?qc (missing_row ex t ix) (fetch ex t (primary_key_values (fst (rowent kv)) t))) (concat kvss) =
          Inr (map ?answer (filter ?adm (List.map_filter (\<lambda>kv. Some (fst (rowent kv))) (concat kvss))))"
        by (rule outcomes_rows) (use fetch_row [OF assms(1) _ assms(4)] inR in auto)
      then have "source_yields ex ?qc (map ?answer (filter ?adm ?rs))"
        using all by (auto simp: source_yields_def map_filter_def comp_def intro!: exI [of _ ?es])
      then have "walks_rows ex pn t R plan predicate compute (Source_Index ix cur rest ?order [] False)"
        using re(2,3) order unfolding walks_rows_def by blast
      then show ?thesis using False Cons own cur(1) by (simp add: index_source_def ok_or_def)
    next
      case True
      let ?qc = "initial_cursor pn t plan compute (Source_Covering ix cur rest ?order)"
      have plain: "\<not> ix_text ix" using covers_columns(1) [OF cov [OF True] assms(3,4)] .
      have row: "entry_row ex ?qc ix (snd (rowent kv)) (primary_key_values (fst (rowent kv)) t) = ?answer (fst (rowent kv))"
        if "kv \<in> set (concat kvss)" for kv
      proof -
        have R: "fst (rowent kv) \<in> R" "snd (rowent kv) = key_values ix (fst (rowent kv))"
          using re(1) [OF that] plain by (simp_all add: entry_of_def)
        have "planner_ok pn (ex_env ex) (ex_eval ex) t" "expressions_ok pn t" using assms(1) by (simp_all add: query_ready_def)
        from covering_answer [OF t ix cov [OF True] assms(3,4) ready_row(1) [OF assms(1) R(1)] this assms(7)]
        show ?thesis by (simp add: entry_row_def assms(6) [OF True] assms(7) R(2))
      qed
      have "admitted ex ?qc (map ?answer xs) = map ?answer (filter ?adm xs)" if "set xs \<subseteq> R" for xs
        using that answer_columns(1) [OF ready_row(1) [OF assms(1)] plan_columns(6) [OF assms(4)], of _ "ex_env ex"]
        by (induction xs) (auto simp: admitted_def plan_columns(1) [OF assms(4)] admits_row_def)
      moreover have "set ?rs \<subseteq> R" using inR by blast
      moreover have "map (\<lambda>e. entry_row ex ?qc ix (fst e) (snd e)) ?es = map ?answer ?rs" using row by simp
      ultimately have "source_yields ex ?qc (map ?answer (filter ?adm ?rs))"
        using all by (auto simp: source_yields_def simp del: map_map intro!: exI [of _ ?es])
      then have "walks_rows ex pn t R plan predicate compute (Source_Covering ix cur rest ?order)"
        using re(2,3) order unfolding walks_rows_def by blast
      then show ?thesis using True Cons own cur(1) by (simp add: index_source_def ok_or_def)
    qed
  qed
qed


section \<open>Every plan\<close>

lemma index_walk_rev: "index_walk u pn cx t ix ranges covering \<Longrightarrow> index_walk u pn cx t ix (rev ranges) covering"
  by (simp add: index_walk_def read_once_def rev_filter [symmetric])

lemma walks_in_order_simps:
  "walks_in_order ord [r]"
  "in_sequence ranges \<Longrightarrow> walks_in_order ord (case ord of Ascending \<Rightarrow> ranges | Descending \<Rightarrow> rev ranges)"
  by (auto simp: walks_in_order_def in_sequence_def sorted_wrt_rev split: ScanOrder.splits elim!: sorted_wrt_mono_rel [rotated])

lemma own_index_iff:
  assumes "table_ok t" and "ix \<in> set (td_indexes t)"
  shows "(\<exists>ix'\<in>set (td_indexes t). ix_id ix' = ix_id ix \<and> P ix') \<longleftrightarrow> P ix"
  using td_index_own [OF assms(1)] assms(2) by (metis option.inject)

lemma open_source_rows:
  assumes "query_ready ex pn t R m predicate compute"
    and "plan = (plan_hinted pn t predicate ord projection sort_keys hint compute)\<lparr>pl_access := access, pl_concealed := hidden\<rparr>"
    and "decode_inputs pn (length (td_columns t)) compute (pl_output_columns plan) = (dc, tr)"
    and cx: "plan_context t predicate projection sort_keys compute cx"
      "walkable (env_unicode (ex_env ex)) pn cx t (pl_access plan)"
  shows "\<exists>src. open_source ex t plan dc = Inr src \<and> walks_rows ex pn t R plan predicate compute src"
proof -
  let ?u = "env_unicode (ex_env ex)"
  have T: "table_ok t" using assms(1) by (simp add: query_ready_def)
  show ?thesis
  proof (cases "pl_access plan")
    case (PointGet key)
    then show ?thesis using point_get_rows [OF assms(1) PointGet _ assms(2,3)] cx(2) by (simp add: walkable_def)
  next
    case (PointGets ks)
    then show ?thesis using point_gets_rows [OF assms(1) PointGets _ _ assms(2)] cx(2) by (simp add: walkable_def)
  next
    case (TableScan r)
    then show ?thesis using table_scan_rows [OF assms(1) TableScan _ assms(2)] cx(2) by (simp add: walkable_def)
  next
    case Access_Nothing
    then have "walks_rows ex pn t R plan predicate compute Source_Empty"
      unfolding walks_rows_def by (intro exI [of _ "[]"]) (simp add: source_yields_def reaches_def)
    then show ?thesis using Access_Nothing by (simp add: open_source_def)
  next
    case (IndexScan i r covering)
    then obtain ix where ix: "ix_id ix = i" "index_walk ?u pn cx t ix [r] covering" using cx(2) by (auto simp: walkable_def)
    then have mem: "ix \<in> set (td_indexes t)" by (simp add: index_walk_def)
    have order: "walks_before ?u t (pl_order plan) (pl_access plan) a b \<longleftrightarrow> entry_before ?u t (pl_order plan) ix [r] a b" for a b
      unfolding walks_before_def IndexScan Access.case ix(1) [symmetric] own_index_iff [OF T mem] by simp
    have "reaches ?u t row (pl_access plan) \<longleftrightarrow>
        (\<exists>e\<in>set (held_entries ?u t ix row). \<exists>r\<in>set [r]. range_contains r (en_key e))" for row
      unfolding reaches_def IndexScan Access.case ix(1) [symmetric] own_index_iff [OF T mem] by simp
    moreover have "plan_from_entry pn t plan compute = expression_position pn ix compute" if covering
      using that IndexScan td_index_own [OF T mem] ix(1) by (simp add: plan_from_entry_def)
    ultimately show ?thesis
      using index_rows [OF assms(1) ix(2) cx(1) assms(2) _ _ assms(3) walks_in_order_simps(1) order] IndexScan ix(1)
      by (simp add: open_source_def)
  next
    case (IndexScans i ranges covering)
    then obtain ix where ix: "ix_id ix = i" "index_walk ?u pn cx t ix ranges covering" and seq: "in_sequence ranges"
      using cx(2) by (auto simp: walkable_def)
    then have mem: "ix \<in> set (td_indexes t)" by (simp add: index_walk_def)
    let ?ranges = "case pl_order plan of Ascending \<Rightarrow> ranges | Descending \<Rightarrow> rev ranges"
    have walk: "index_walk ?u pn cx t ix ?ranges covering" using ix(2) index_walk_rev by (auto split: ScanOrder.split)
    have sets: "set ?ranges = set ranges" by (simp split: ScanOrder.split)
    have order: "walks_before ?u t (pl_order plan) (pl_access plan) a b \<longleftrightarrow> entry_before ?u t (pl_order plan) ix ?ranges a b" for a b
      unfolding walks_before_def IndexScans Access.case ix(1) [symmetric] own_index_iff [OF T mem] entry_before_def sets by simp
    have "reaches ?u t row (pl_access plan) \<longleftrightarrow>
        (\<exists>e\<in>set (held_entries ?u t ix row). \<exists>r\<in>set ?ranges. range_contains r (en_key e))" for row
      unfolding reaches_def IndexScans Access.case ix(1) [symmetric] own_index_iff [OF T mem] sets by simp
    moreover have "plan_from_entry pn t plan compute = expression_position pn ix compute" if covering
      using that IndexScans td_index_own [OF T mem] ix(1) by (simp add: plan_from_entry_def)
    ultimately show ?thesis
      using index_rows [OF assms(1) walk cx(1) assms(2) _ _ assms(3) walks_in_order_simps(2) [OF seq] order] IndexScans ix(1)
      by (simp add: open_source_def)
  qed
qed

text \<open>The rows a table holds are finitely many: a scan of its key range lists them.\<close>

lemma ready_finite:
  assumes "query_ready ex pn t R m predicate compute"
  shows "finite R"
proof -
  have "reads_from ex m" using assms by (simp add: query_ready_def)
  then obtain kvs where kvs: "\<forall>k v. (k, v) \<in> set kvs \<longleftrightarrow> range_contains (KeyRange_prefix (table_prefix t)) k \<and> m k = Some v"
    by (rule scan_pairs [of ex m "KeyRange_prefix (table_prefix t)" Ascending])
  have "key_of t ` R \<subseteq> fst ` set kvs"
  proof
    fix k
    assume "k \<in> key_of t ` R"
    then obtain row where row: "row \<in> R" "k = key_of t row" by blast
    then obtain body where "m k = Some body" using ready_row(4) [OF assms] by blast
    then have "(k, body) \<in> set kvs" using kvs row(2) key_of_space by (simp add: prefix_contains)
    then show "k \<in> fst ` set kvs" by force
  qed
  then have "finite (key_of t ` R)" using finite_subset by blast
  moreover have "inj_on (key_of t) R" using same_key_row [OF assms] by (auto intro: inj_onI)
  ultimately show ?thesis by (rule finite_imageD)
qed

text \<open>The rows a query selects with a plan: those its access path reaches and its predicate admits, in
  the order the plan gives them.\<close>

definition selects ::
  "('x, 's, 'w) Exec \<Rightarrow> 's Planner \<Rightarrow> TableDef \<Rightarrow> Row set \<Rightarrow> Expr \<Rightarrow> 's list \<Rightarrow> Plan \<Rightarrow> Row list \<Rightarrow> bool" where
  "selects ex pn t R predicate compute plan rs \<longleftrightarrow>
     distinct rs \<and>
     set rs = {row \<in> R. reaches (env_unicode (ex_env ex)) t row (pl_access plan) \<and> admits_row ex predicate compute row} \<and>
     (case pl_sort plan of
        None \<Rightarrow> sorted_wrt (walks_before (env_unicode (ex_env ex)) t (pl_order plan) (pl_access plan)) rs
      | Some ks \<Rightarrow> sorted_wrt (\<lambda>a b. compare_rows a b ks \<noteq> Greater)
                     (map (answer pn (ex_eval ex) t (pl_output_columns plan) compute) rs))"

lemma source_answers:
  assumes "query_ready ex pn t R m predicate compute"
    and "plan = (plan_hinted pn t predicate ord projection sort_keys hint compute)\<lparr>pl_access := access, pl_concealed := hidden\<rparr>"
    and "plan_context t predicate projection sort_keys compute cx"
    and "walkable (env_unicode (ex_env ex)) pn cx t (pl_access plan)"
  shows "\<exists>src rs. open_source ex t plan (fst (decode_inputs pn (length (td_columns t)) compute (pl_output_columns plan))) = Inr src \<and>
    source_yields ex (initial_cursor pn t plan compute src) (map (answer pn (ex_eval ex) t (pl_output_columns plan) compute) rs) \<and>
    distinct rs \<and>
    set rs = {row \<in> R. reaches (env_unicode (ex_env ex)) t row (pl_access plan) \<and> admits_row ex predicate compute row} \<and>
    sorted_wrt (walks_before (env_unicode (ex_env ex)) t (pl_order plan) (pl_access plan)) rs"
proof -
  let ?u = "env_unicode (ex_env ex)" and ?adm = "admits_row ex predicate compute"
  obtain dc tr where di: "decode_inputs pn (length (td_columns t)) compute (pl_output_columns plan) = (dc, tr)" by fastforce
  obtain src rs where src: "open_source ex t plan dc = Inr src" "distinct rs"
    "set rs = {row \<in> R. reaches ?u t row (pl_access plan)}"
    "sorted_wrt (walks_before ?u t (pl_order plan) (pl_access plan)) rs"
    "source_yields ex (initial_cursor pn t plan compute src)
       (map (answer pn (ex_eval ex) t (pl_output_columns plan) compute) (filter ?adm rs))"
    using open_source_rows [OF assms(1,2) di assms(3,4)] unfolding walks_rows_def by blast
  have "set (filter ?adm rs) = {row \<in> R. reaches ?u t row (pl_access plan) \<and> ?adm row}" using src(3) by auto
  moreover have "distinct (filter ?adm rs)" using src(2) by simp
  moreover have "sorted_wrt (walks_before ?u t (pl_order plan) (pl_access plan)) (filter ?adm rs)"
    using src(4) by (rule sorted_wrt_filter)
  ultimately show ?thesis using src(1,5) di by (intro exI [of _ src] exI [of _ "filter ?adm rs"]) simp
qed

text \<open>A rearrangement of the answers rearranges the rows.\<close>

lemma rearranged:
  "mset ys = mset (map f xs) \<Longrightarrow> \<exists>zs. mset zs = mset xs \<and> map f zs = ys"
proof (induction ys arbitrary: xs)
  case (Cons y ys)
  then have "y \<in> set (map f xs)" by (metis list.set_intros(1) set_mset_mset)
  then obtain as x bs where xs: "xs = as @ x # bs" "f x = y" by (auto dest: split_list)
  then have "mset ys = mset (map f (as @ bs))" using Cons.prems by simp
  from Cons.IH [OF this] obtain zs where "mset zs = mset (as @ bs)" "map f zs = ys" by blast
  then show ?case using xs by (intro exI [of _ "x # zs"]) simp
qed simp

lemma query_answers:
  assumes "query_ready ex pn t R m predicate (q_compute q)"
    and "plan = (plan_hinted pn t predicate ord projection sort_keys hint (q_compute q))\<lparr>pl_access := access, pl_concealed := hidden\<rparr>"
    and "plan_context t predicate projection sort_keys (q_compute q) cx"
    and "walkable (env_unicode (ex_env ex)) pn cx t (pl_access plan)"
    and "pops_greatest (ex_pop ex)" and "card R < 2 ^ 64" and "q_window q = []"
    and "widest_in_list (q_filter q) \<le> max_in_values limits"
    and "pl_sort plan = None \<or> q_limit q \<noteq> None \<or> card R \<le> max_sort_rows limits"
  shows "\<exists>qc rs. open_cursor ex pn limits t plan q = Inr qc \<and> selects ex pn t R predicate (q_compute q) plan rs \<and>
    hands_out ex q qc (pl_concealed plan) (map (answer pn (ex_eval ex) t (pl_output_columns plan) (q_compute q)) rs)"
proof -
  let ?u = "env_unicode (ex_env ex)" and ?answer = "answer pn (ex_eval ex) t (pl_output_columns plan) (q_compute q)"
  let ?adm = "{row \<in> R. reaches ?u t row (pl_access plan) \<and> admits_row ex predicate (q_compute q) row}"
  obtain src rs where src: "open_source ex t plan (fst (decode_inputs pn (length (td_columns t)) (q_compute q) (pl_output_columns plan))) = Inr src"
    "source_yields ex (initial_cursor pn t plan (q_compute q) src) (map ?answer rs)"
    "distinct rs" "set rs = ?adm" "sorted_wrt (walks_before ?u t (pl_order plan) (pl_access plan)) rs"
    using source_answers [OF assms(1-4)] by blast
  have shape: "list_all (row_shape (length (td_columns t) + length (q_compute q))) (map ?answer rs)"
    using answer_columns(2) [OF ready_row(1) [OF assms(1)] plan_columns(6) [OF assms(2)]] src(4) by (auto simp: list_all_iff)
  have "length (map ?answer rs) = card ?adm" using distinct_card [OF src(3)] src(4) by simp
  also have "\<dots> \<le> card R" using ready_finite [OF assms(1)] by (intro card_mono) auto
  finally have "length (map ?answer rs) < 2 ^ 64"
    "pl_sort plan = None \<or> q_limit q \<noteq> None \<or> length (map ?answer rs) \<le> max_sort_rows limits"
    using assms(6,9) by auto
  from open_cursor_yields [OF src(1,2) assms(5) shape this(1) assms(8,7) this(2)] obtain qc full where
    out: "open_cursor ex pn limits t plan q = Inr qc" "arranges plan (map ?answer rs) full"
    "hands_out ex q qc (pl_concealed plan) full" by blast
  show ?thesis
  proof (cases "pl_sort plan")
    case None
    then show ?thesis using out src(3-5) by (auto simp: arranges_def selects_def)
  next
    case (Some ks)
    then have full: "mset full = mset (map ?answer rs)" "sorted_wrt (\<lambda>a b. compare_rows a b ks \<noteq> Greater) full"
      using out(2) by (auto simp: arranges_def)
    from rearranged [OF full(1)] obtain zs where zs: "mset zs = mset rs" "map ?answer zs = full" by blast
    have "distinct zs" "set zs = ?adm"
      using mset_eq_imp_distinct_iff [OF zs(1)] mset_eq_setD [OF zs(1)] src(3,4) by simp_all
    then have "selects ex pn t R predicate (q_compute q) plan zs" using Some full(2) zs(2) by (simp add: selects_def)
    then show ?thesis using out(1,3) zs(2) by blast
  qed
qed

end
