(* ===== verification/Query_Order.thy ===== *)
theory Query_Order
  imports Query_Correct
begin

text \<open>
  The order a plan delivers. Where the planner decides that the walk of a candidate already gives the
  order asked for, it leaves the sort out; this is the proof that it may: the bytes of the keys walked
  order the rows by the columns they lay out, a column pinned by an equality distinguishes no two rows,
  and what remains of the layout starts with the keys of the sort.
\<close>

section \<open>Keys in byte order\<close>

text \<open>The comparison of two rows over laid out columns.\<close>

fun lay_cmp :: "(Ordinal \<Rightarrow> Value) \<Rightarrow> (Ordinal \<Rightarrow> Value) \<Rightarrow> (Ordinal \<times> Direction) list \<Rightarrow> ordering" where
  "lay_cmp a b [] = Equal"
| "lay_cmp a b ((i, d) # cols) = then_with (dir_cmp d (a i) (b i)) (lay_cmp a b cols)"

lemma lay_cmp_bytes:
  assumes "\<And>i. wf_value (a i)" and "\<And>i. wf_value (b i)"
  shows "key_bytes a cols @ x < key_bytes b cols @ y \<Longrightarrow> lay_cmp a b cols = Less \<or> lay_cmp a b cols = Equal \<and> x < y"
proof (induction cols)
  case (Cons col cols)
  obtain i d where col: "col = (i, d)" by (cases col)
  have "dir_cmp d (a i) (b i) \<noteq> Greater"
  proof
    assume "dir_cmp d (a i) (b i) = Greater"
    then have "dir_cmp d (b i) (a i) = Less" using elem.cmp_antisym [of "a i" "b i" d] assms by simp
    then have "diverges (dir_bytes d (b i)) (dir_bytes d (a i))" using elem.enc_less_iff assms by blast
    from diverges_append_less [OF this] have "key_bytes b (col # cols) @ y < key_bytes a (col # cols) @ x" by (simp add: col)
    then show False using Cons.prems by simp
  qed
  moreover have "dir_bytes d (a i) = dir_bytes d (b i)" if "dir_cmp d (a i) (b i) = Equal"
    using that elem.enc_eq_iff assms by blast
  ultimately show ?case using Cons by (cases "dir_cmp d (a i) (b i)") (simp_all add: col)
qed simp

lemma lay_cmp_append: "lay_cmp a b (xs @ ys) = then_with (lay_cmp a b xs) (lay_cmp a b ys)"
proof (induction xs)
  case (Cons x xs)
  then show ?case by (cases x; cases "dir_cmp (snd x) (a (fst x)) (b (fst x))") simp_all
qed simp

lemma lay_cmp_Equal: "lay_cmp a b cols = Equal \<Longrightarrow> (\<forall>(i, d)\<in>set cols. value_eq (a i) (b i))"
proof (induction cols)
  case (Cons col cols)
  then show ?case by (cases col; cases "dir_cmp (snd col) (a (fst col)) (b (fst col))") (auto simp: dir_cmp_Equal)
qed simp

section \<open>Sort keys\<close>

lemma compare_rows_Cons:
  assumes "length l = length r"
  shows "compare_rows l r (k # ks) =
    then_with (key_ordering (value_or_null l (sk_column k)) (value_or_null r (sk_column k)) k) (compare_rows l r ks)"
proof (cases "sk_column k < length l")
  case True
  then show ?thesis using assms
    by (cases "key_ordering (l ! sk_column k) (r ! sk_column k) k") (simp_all add: value_or_null_def get_def)
qed (use assms in \<open>simp add: value_or_null_def get_def key_ordering_def\<close>)

lemma compare_rows_cong:
  "(\<And>k. k \<in> set ks \<Longrightarrow> get l (sk_column k) = get l' (sk_column k) \<and> get r (sk_column k) = get r' (sk_column k)) \<Longrightarrow>
     compare_rows l r ks = compare_rows l' r' ks"
proof (induction ks)
  case (Cons k ks)
  have eqs: "get l (sk_column k) = get l' (sk_column k)" "get r (sk_column k) = get r' (sk_column k)" using Cons.prems by simp_all
  have rest: "compare_rows l r ks = compare_rows l' r' ks" by (rule Cons.IH) (use Cons.prems in simp)
  show ?case unfolding compare_rows.simps eqs rest ..
qed simp

lemma null_least:
  "value_cmp Null v = (if v = Null then Equal else Less)" "value_cmp v Null = (if v = Null then Equal else Greater)"
  by (cases v; simp add: value_cmp.simps)+

lemma reverse_twice: "reverse_ordering (reverse_ordering c) = c"
  by (cases c) simp_all

lemma key_ordering_dir:
  assumes "matches_storage k laid ord" and "wf_value a" and "wf_value b"
  shows "key_ordering a b k = (case ord of Ascending \<Rightarrow> dir_cmp laid a b | Descending \<Rightarrow> dir_cmp laid b a)"
  using assms(1) asc.total.antisym [OF assms(2,3)]
  by (cases laid; cases ord; cases "a = Null"; cases "b = Null")
    (auto simp: matches_storage_def key_ordering_def dir_cmp_def null_least reverse_twice)

text \<open>The row a walk meets first, compared with the other over the layout.\<close>

definition walk_cmp :: "ScanOrder \<Rightarrow> Row \<Rightarrow> Row \<Rightarrow> (Ordinal \<times> Direction) list \<Rightarrow> ordering" where
  "walk_cmp ord l r cols =
     (case ord of
        Ascending \<Rightarrow> lay_cmp (value_or_null l) (value_or_null r) cols
      | Descending \<Rightarrow> lay_cmp (value_or_null r) (value_or_null l) cols)"

lemma walk_cmp_simps [simp]:
  "walk_cmp ord l r [] = Equal"
  "walk_cmp ord l r ((i, d) # cols) =
     then_with (case ord of Ascending \<Rightarrow> dir_cmp d (value_or_null l i) (value_or_null r i)
                          | Descending \<Rightarrow> dir_cmp d (value_or_null r i) (value_or_null l i)) (walk_cmp ord l r cols)"
  by (simp_all add: walk_cmp_def split: ScanOrder.split)

lemma satisfied_prefix:
  assumes "length l = length r" and "\<And>i. wf_value (value_or_null l i)" and "\<And>i. wf_value (value_or_null r i)"
  shows "satisfies_loop ord produced ks \<Longrightarrow> walk_cmp ord l r produced \<noteq> Greater \<Longrightarrow> compare_rows l r ks \<noteq> Greater"
proof (induction ord produced ks rule: satisfies_loop.induct)
  case (3 ord column laid produced k ks)
  then have k: "column = sk_column k" "matches_storage k laid ord" "satisfies_loop ord produced ks" by simp_all
  show ?case
    using 3 key_ordering_dir [OF k(2) assms(2,3), of "sk_column k" "sk_column k"] k(1)
    unfolding compare_rows_Cons [OF assms(1)] by (cases ord) (auto split: if_splits)
qed simp_all

text \<open>A column on which both rows hold the same value decides nothing.\<close>

lemma walk_cmp_pinned:
  assumes "\<And>i. wf_value (value_or_null l i)" and "\<And>i. wf_value (value_or_null r i)"
    and "\<And>i. i \<in> pinned \<Longrightarrow> value_eq (value_or_null l i) (value_or_null r i)"
  shows "walk_cmp ord l r (filter (\<lambda>(column, _). column \<notin> pinned) cols) = walk_cmp ord l r cols"
proof (induction cols)
  case (Cons col cols)
  obtain i d where col: "col = (i, d)" by (cases col)
  have "dir_cmp d (value_or_null l i) (value_or_null r i) = Equal \<and> dir_cmp d (value_or_null r i) (value_or_null l i) = Equal"
    if "i \<in> pinned"
    using assms(3) [OF that] asc.total.eq_sym assms(1,2) unfolding dir_cmp_Equal value_eq_def by blast
  then show ?case using Cons by (cases ord) (auto simp: col)
qed simp

lemma compare_rows_pinned:
  assumes "length l = length r" and "\<And>i. wf_value (value_or_null l i)" and "\<And>i. wf_value (value_or_null r i)"
    and "\<And>i. i \<in> pinned \<Longrightarrow> value_eq (value_or_null l i) (value_or_null r i)"
  shows "compare_rows l r (filter (\<lambda>k. sk_column k \<notin> pinned) ks) = compare_rows l r ks"
proof (induction ks)
  case (Cons k ks)
  let ?a = "value_or_null l (sk_column k)" and ?b = "value_or_null r (sk_column k)"
  have "key_ordering ?a ?b k = Equal" if "sk_column k \<in> pinned"
  proof -
    have eq: "value_cmp ?a ?b = Equal" "value_cmp ?b ?a = Equal"
      using assms(4) [OF that] asc.total.eq_sym assms(2,3) unfolding value_eq_def by blast+
    then have "is_null ?a = is_null ?b" by (auto simp: null_least split: if_splits)
    then show ?thesis using eq by (auto simp: key_ordering_def split: Direction.split)
  qed
  then show ?case
    using Cons compare_rows_Cons [OF assms(1), of k] by (cases "sk_column k \<in> pinned") (simp_all del: compare_rows.simps)
qed simp

lemma satisfied_order:
  assumes "length l = length r" and "\<And>i. wf_value (value_or_null l i)" and "\<And>i. wf_value (value_or_null r i)"
    and "\<And>i. i \<in> pinned \<Longrightarrow> value_eq (value_or_null l i) (value_or_null r i)"
    and "candidate_satisfies c ks ord pinned" and "walk_cmp ord l r (ca_natural_order c) \<noteq> Greater"
  shows "compare_rows l r ks \<noteq> Greater"
  using satisfied_prefix [OF assms(1-3)] assms(5,6) walk_cmp_pinned [OF assms(2-4)] compare_rows_pinned [OF assms(1-4)]
  unfolding candidate_satisfies_def by metis

section \<open>The layout a candidate walks\<close>

lemma walk_cmp_keys:
  assumes "\<And>i. wf_value (value_or_null l i)" and "\<And>i. wf_value (value_or_null r i)"
    and "walk_less ord (p @ key_bytes (value_or_null l) cols @ x) (p @ key_bytes (value_or_null r) cols @ y)"
  shows "walk_cmp ord l r cols = Less \<or> walk_cmp ord l r cols = Equal \<and> walk_less ord x y"
  using assms(3) lay_cmp_bytes [OF assms(1,2)] lay_cmp_bytes [OF assms(2,1)]
  by (cases ord) (auto simp: walk_cmp_def)

lemma walk_cmp_append: "walk_cmp ord l r (xs @ ys) = then_with (walk_cmp ord l r xs) (walk_cmp ord l r ys)"
  by (simp add: walk_cmp_def lay_cmp_append split: ScanOrder.split)

lemma table_order:
  assumes "table_ok t" and "seen_as t a ea" and "seen_as t b eb" and "walk_less ord (key_of t a) (key_of t b)"
  shows "walk_cmp ord ea eb (primary_columns t) \<noteq> Greater"
  using walk_cmp_keys [OF seen_wf [OF assms(2)] seen_wf [OF assms(3)], of ord "table_prefix t" "primary_columns t" "[]" "[]"]
    assms(4) unfolding key_of_bytes [OF assms(1,2)] key_of_bytes [OF assms(1,3)] by auto

text \<open>The key of an entry over the columns its index is matched on.\<close>

lemma entry_layout:
  assumes "table_ok t" and "seen_as t row ext" and "planner_ok pn env eval t" and "ix \<in> set (td_indexes t)"
    and "ext = extend_row eval row compute [] None" and "\<not> ix_text ix"
    and "(case ix_expression ix of
             None \<Rightarrow> Some (map (\<lambda>c. (ic_ordinal c, ic_direction c)) (ix_columns ix))
           | Some declared \<Rightarrow>
               map_option (\<lambda>at. [(length (td_columns t) + at, ie_direction declared)])
                 (expression_position pn ix compute)) = Some own"
    and "e \<in> set (held_entries u t ix row)"
  shows "en_key e = index_prefix t ix None @
      key_bytes (value_or_null ext) (case td_tenant_column t of None \<Rightarrow> own | Some c \<Rightarrow> (c, Asc) # own) @
      (if enforces ix (key_values ix row) then [] else key_bytes (value_or_null ext) (primary_columns t))"
proof -
  note keyed = match_columns [OF assms(1-5,7)]
  have e: "e = index_entry t ix (key_values ix row) (primary_key_values row t)" "admits ix row"
    using assms(6,8) by (auto simp: held_entries_def entries_for_def key_sets_def Let_def split: if_splits)
  have tenant: "tenant_bytes t (primary_key_values row t) =
      key_bytes (value_or_null ext) (case td_tenant_column t of None \<Rightarrow> [] | Some c \<Rightarrow> [(c, Asc)])"
    by (rule tenant_layout [OF assms(1,2)])
  have "tuple_bytes [] (primary_key_values row t) = key_bytes (value_or_null ext) (primary_columns t)"
    by (simp add: primary_columns_def key_bytes_asc seen_key [OF assms(1,2)])
  then show ?thesis
    using keyed by (auto simp: e(1) index_entry_bytes tenant index_prefix_None bracket_append [symmetric] split: option.split)
qed

lemma equal_enforces:
  assumes "table_ok t" and "seen_as t a ea" and "seen_as t b eb" and "planner_ok pn env eval t" and "ix \<in> set (td_indexes t)"
    and "ea = extend_row eval a compute [] None" and "eb = extend_row eval b compute [] None" and "\<not> ix_text ix"
    and own: "(case ix_expression ix of
             None \<Rightarrow> Some (map (\<lambda>c. (ic_ordinal c, ic_direction c)) (ix_columns ix))
           | Some declared \<Rightarrow>
               map_option (\<lambda>at. [(length (td_columns t) + at, ie_direction declared)])
                 (expression_position pn ix compute)) = Some own"
    and "walk_cmp ord ea eb (case td_tenant_column t of None \<Rightarrow> own | Some c \<Rightarrow> (c, Asc) # own) = Equal"
  shows "enforces ix (key_values ix a) = enforces ix (key_values ix b)"
proof -
  have "walk_cmp ord ea eb own = Equal" using assms(10) by (auto split: option.splits)
  then have eq: "\<forall>(i, d)\<in>set own. value_eq (value_or_null ea i) (value_or_null eb i) \<or> value_eq (value_or_null eb i) (value_or_null ea i)"
    using lay_cmp_Equal [of "value_or_null ea" "value_or_null eb" own] lay_cmp_Equal [of "value_or_null eb" "value_or_null ea" own]
    by (cases ord) (auto simp: walk_cmp_def)
  have "Null \<in> set (key_values ix a) \<longleftrightarrow> (\<exists>(i, d)\<in>set own. value_or_null ea i = Null)"
    "Null \<in> set (key_values ix b) \<longleftrightarrow> (\<exists>(i, d)\<in>set own. value_or_null eb i = Null)"
    using match_values [OF assms(1,2,4,5,6,9)] match_values [OF assms(1,3,4,5,7,9)] by (force simp: image_iff)+
  then show ?thesis using eq by (fastforce simp: enforces_def value_eq_Null)
qed

lemma index_order:
  assumes "table_ok t" and "seen_as t a ea" and "seen_as t b eb" and "planner_ok pn env eval t" and "ix \<in> set (td_indexes t)"
    and "ea = extend_row eval a compute [] None" and "eb = extend_row eval b compute [] None" and "\<not> ix_text ix"
    and own: "(case ix_expression ix of
             None \<Rightarrow> Some (map (\<lambda>c. (ic_ordinal c, ic_direction c)) (ix_columns ix))
           | Some declared \<Rightarrow>
               map_option (\<lambda>at. [(length (td_columns t) + at, ie_direction declared)])
                 (expression_position pn ix compute)) = Some own"
    and "entry_before u t ord ix ranges a b"
  shows "walk_cmp ord ea eb ((case td_tenant_column t of None \<Rightarrow> own | Some c \<Rightarrow> (c, Asc) # own) @ primary_columns t) \<noteq> Greater"
proof -
  let ?cols = "case td_tenant_column t of None \<Rightarrow> own | Some c \<Rightarrow> (c, Asc) # own"
  let ?rest = "\<lambda>row ext. if enforces ix (key_values ix row) then [] else key_bytes (value_or_null ext) (primary_columns t)"
  note wf = seen_wf [OF assms(2)] seen_wf [OF assms(3)]
  obtain e f where ef: "e \<in> set (held_entries u t ix a)" "f \<in> set (held_entries u t ix b)" "walk_less ord (en_key e) (en_key f)"
    using assms(10) by (auto simp: entry_before_def)
  have "walk_cmp ord ea eb ?cols = Less \<or> walk_cmp ord ea eb ?cols = Equal \<and> walk_less ord (?rest a ea) (?rest b eb)"
    using ef(3) entry_layout [OF assms(1,2,4,5,6,8,9) ef(1)] entry_layout [OF assms(1,3,4,5,7,8,9) ef(2)]
    by (intro walk_cmp_keys [OF wf]) simp
  moreover have "walk_cmp ord ea eb (primary_columns t) \<noteq> Greater"
    if eq: "walk_cmp ord ea eb ?cols = Equal" and "walk_less ord (?rest a ea) (?rest b eb)"
  proof -
    have "enforces ix (key_values ix a) = enforces ix (key_values ix b)" by (rule equal_enforces [OF assms(1-9) eq])
    then have "walk_less ord (key_bytes (value_or_null ea) (primary_columns t)) (key_bytes (value_or_null eb) (primary_columns t))"
      using that(2) by (cases ord) (auto split: if_splits)
    then show ?thesis using walk_cmp_keys [OF wf, of ord "[]" "primary_columns t" "[]" "[]"] by auto
  qed
  ultimately show ?thesis by (auto simp: walk_cmp_append)
qed

text \<open>A search index is walked over the entries of one term, and of one tenant.\<close>

lemma text_layout:
  assumes "table_ok t" and "seen_as t row ext" and "unicode_ok u" and "text_ascending t"
    and "ix \<in> set (td_indexes t)" and "ix_text ix" and "constraints_met (value_or_null ext) cs"
    and "(case td_tenant_column t of
          None \<Rightarrow> Some (index_prefix t ix None)
        | Some tenant \<Rightarrow> map_option (\<lambda>v. encode_value_into (index_prefix t ix None) v Asc) (equals_for cs tenant)) = Some pre"
    and "e \<in> set (held_entries u t ix row)"
    and "range_contains (KeyRange_prefix (pre @ dir_bytes Asc (Str w))) (en_key e)"
  shows "en_key e = pre @ dir_bytes Asc (Str w) @ key_bytes (value_or_null ext) (primary_columns t)"
proof -
  obtain col where col: "ix_columns ix = [col]" "ix_expression ix = None" "ic_direction col = Asc" "\<not> ix_unique ix"
    using assms(1,4-6) by (auto simp: table_ok_def Let_def index_ok_def text_ascending_def)
  obtain x where x: "e = index_entry t ix [Str x] (primary_key_values row t)"
    using assms(6,9) col(1) by (auto simp: held_entries_def entries_for_def key_sets_def Let_def split: if_splits option.splits Value.splits)
  have "pre = index_prefix t ix None @ tenant_bytes t (primary_key_values row t)"
    unfolding tenant_layout [OF assms(1,2)] using assms(8) equals_for_met [OF assms(7)] value_eq_bytes [OF seen_wf [OF assms(2)], symmetric]
    by (auto simp: encode_value_into_dir split: option.splits)
  moreover have "tuple_bytes [] (primary_key_values row t) = key_bytes (value_or_null ext) (primary_columns t)"
    by (simp add: primary_columns_def key_bytes_asc seen_key [OF assms(1,2)])
  ultimately have key: "en_key e = pre @ dir_bytes Asc (Str x) @ key_bytes (value_or_null ext) (primary_columns t)"
    using col by (simp add: x index_entry_bytes key_directions_def direction_at_def enforces_def index_prefix_None)
  then obtain zs where "dir_bytes Asc (Str w) @ zs = dir_bytes Asc (Str x) @ key_bytes (value_or_null ext) (primary_columns t)"
    using assms(10) by (auto simp: prefix_contains prefix_def)
  then have "w = x" by (rule str_bytes_unique)
  then show ?thesis using key by simp
qed

lemma text_order:
  assumes "table_ok t" and "seen_as t a ea" and "seen_as t b eb" and "unicode_ok u" and "text_ascending t"
    and "ix \<in> set (td_indexes t)" and "ix_text ix"
    and "constraints_met (value_or_null ea) cs" and "constraints_met (value_or_null eb) cs"
    and "mc_table cx = t" and "mc_constraints cx = cs" and "match_text_index pn cx ix = Some c"
    and "ca_access c = IndexScan i r covering" and "entry_before u t ord ix [r] a b"
  shows "walk_cmp ord ea eb (primary_columns t) \<noteq> Greater"
proof -
  obtain w pre where pre: "(case td_tenant_column t of
          None \<Rightarrow> Some (index_prefix t ix None)
        | Some tenant \<Rightarrow> map_option (\<lambda>v. encode_value_into (index_prefix t ix None) v Asc) (equals_for cs tenant)) = Some pre"
    and r: "r = KeyRange_prefix (pre @ dir_bytes Asc (Str w))"
    using assms(10-13) by (auto simp: match_text_index_def encode_value_into_dir split: bind_splits)
  have key: "en_key e = pre @ dir_bytes Asc (Str w) @ key_bytes (value_or_null ext) (primary_columns t)"
    if "e \<in> set (held_entries u t ix row)" "range_contains r (en_key e)" "seen_as t row ext"
      "constraints_met (value_or_null ext) cs" for e row ext
    by (rule text_layout [OF assms(1) that(3) assms(4-7) that(4) pre that(1)]) (use that(2) r in simp)
  obtain e f where ef: "e \<in> set (held_entries u t ix a)" "f \<in> set (held_entries u t ix b)" "range_contains r (en_key e)"
    "range_contains r (en_key f)" "walk_less ord (en_key e) (en_key f)"
    using assms(14) by (auto simp: entry_before_def)
  show ?thesis
    using walk_cmp_keys [OF seen_wf [OF assms(2)] seen_wf [OF assms(3)], of ord "pre @ dir_bytes Asc (Str w)" "primary_columns t" "[]" "[]"]
      ef(5) key [OF ef(1,3) assms(2,8)] key [OF ef(2,4) assms(3,9)] by auto
qed

section \<open>The order of a plan\<close>

lemma fold_consider_flag:
  "fold (consider_candidate pn sort_keys ord pinned) cs best = Some (c, must) \<Longrightarrow>
     (\<And>c' m. best = Some (c', m) \<Longrightarrow> m = (sort_keys \<noteq> [] \<and> \<not> candidate_satisfies c' sort_keys ord pinned)) \<Longrightarrow>
     must = (sort_keys \<noteq> [] \<and> \<not> candidate_satisfies c sort_keys ord pinned)"
proof (induction cs arbitrary: best)
  case (Cons x cs)
  show ?case
  proof (rule Cons.IH)
    show "fold (consider_candidate pn sort_keys ord pinned) cs (consider_candidate pn sort_keys ord pinned x best) = Some (c, must)"
      using Cons.prems(1) by simp
    show "m = (sort_keys \<noteq> [] \<and> \<not> candidate_satisfies c' sort_keys ord pinned)"
      if "consider_candidate pn sort_keys ord pinned x best = Some (c', m)" for c' m
      using that Cons.prems(2) by (auto simp: consider_candidate_def Let_def split: option.splits if_splits)
  qed
qed simp

lemma pinned_agree:
  assumes "constraints_met f cs" and "constraints_met g cs" and "wf_value (f i)" and "wf_value (g i)"
    and "(i, c) \<in> set cs" and "cc_equals c \<noteq> None"
  shows "value_eq (f i) (g i)"
proof -
  obtain v where "cc_equals c = Some v" using assms(6) by blast
  then have v: "wf_value v" "value_eq (f i) v" "value_eq (g i) v"
    using assms(1,2,5) by (auto simp: constraints_met_def column_meets_def)
  then show ?thesis
    using asc.total.eq_left [OF assms(3) v(1) assms(4)] asc.total.eq_sym [OF assms(4) v(1)] by (simp add: value_eq_def)
qed

lemma match_primary_key_order:
  assumes "table_ok t" and "seen_as t a ea" and "seen_as t b eb"
    and "walks_before u t ord (ca_access (match_primary_key t cs ordered)) a b"
  shows "walk_cmp ord ea eb (ca_natural_order (match_primary_key t cs ordered)) \<noteq> Greater"
  using assms(4) table_order [OF assms(1-3), of ord]
  by (auto simp: match_primary_key_def Let_def walks_before_def split: option.splits if_splits)

lemma match_index_order:
  assumes "table_ok t" and "seen_as t a ea" and "seen_as t b eb" and "planner_ok pn env eval t" and "unicode_ok u"
    and "text_ascending t" and "ix \<in> set (td_indexes t)"
    and "ea = extend_row eval a compute [] None" and "eb = extend_row eval b compute [] None"
    and "constraints_met (value_or_null ea) cs" and "constraints_met (value_or_null eb) cs"
    and cx: "mc_table cx = t" "mc_constraints cx = cs" "mc_compute cx = compute" "mc_width cx = length (td_columns t)"
    and c: "match_index pn cx ix = Some c" and "walks_before u t ord (ca_access c) a b"
  shows "walk_cmp ord ea eb (ca_natural_order c) \<noteq> Greater"
proof (cases "ix_text ix")
  case True
  then have search: "match_text_index pn cx ix = Some c" using c by (simp add: match_index_def Let_def split: if_splits)
  then obtain r where r: "ca_access c = IndexScan (ix_id ix) r False"
      "ca_natural_order c = (if mc_ordered cx then primary_columns t else [])"
    using cx(1) by (auto simp: match_text_index_def split: bind_splits)
  have "entry_before u t ord ix [r] a b"
    using assms(17) own_index_iff [OF assms(1,7)] by (simp add: walks_before_def r(1))
  from text_order [OF assms(1-3,5-7) True assms(10,11) cx(1,2) search r(1) this] show ?thesis by (simp add: r(2))
next
  case False
  obtain own where own: "(case ix_expression ix of
             None \<Rightarrow> Some (map (\<lambda>c. (ic_ordinal c, ic_direction c)) (ix_columns ix))
           | Some declared \<Rightarrow>
               map_option (\<lambda>at. [(length (td_columns t) + at, ie_direction declared)])
                 (expression_position pn ix compute)) = Some own"
    using c False unfolding match_index_def Let_def cx(3,4) by (fastforce split: if_splits bind_split_asm)
  let ?cols = "case td_tenant_column t of None \<Rightarrow> own | Some c \<Rightarrow> (c, Asc) # own"
  have natural: "ca_natural_order c = (if mc_ordered cx then ?cols @ primary_columns t else []) \<and>
      ((\<exists>r. ca_access c = IndexScan (ix_id ix) r (covers pn cx ix)) \<or>
       (\<exists>rs. ca_access c = IndexScans (ix_id ix) rs (covers pn cx ix)))"
    using c False unfolding match_index_def Let_def cx own by (auto split: if_splits option.splits list.splits)
  then obtain ranges where "entry_before u t ord ix ranges a b"
    using assms(17) own_index_iff [OF assms(1,7)] by (auto simp: walks_before_def)
  from index_order [OF assms(1-4,7-9) False own this] show ?thesis using natural by simp
qed

lemma plan_order:
  assumes "table_ok t" and "planner_ok pn env eval t" and "unicode_ok (env_unicode env)" and "text_ascending t" and "expr_wf predicate"
    and "row_ok t a" and "row_ok t b"
    and "list_all wf_value (extend_row eval a compute [] None)" and "list_all wf_value (extend_row eval b compute [] None)"
    and "expr_admits env predicate (extend_row eval a compute [] None)" and "expr_admits env predicate (extend_row eval b compute [] None)"
    and "pl_sort (plan_hinted pn t predicate ord projection sort_keys hint compute) = None"
    and "pl_access (plan_hinted pn t predicate ord projection sort_keys hint compute) \<noteq> Access_Nothing"
    and "walks_before (env_unicode env) t ord (pl_access (plan_hinted pn t predicate ord projection sort_keys hint compute)) a b"
  shows "compare_rows (extend_row eval a compute [] None) (extend_row eval b compute [] None) sort_keys \<noteq> Greater"
proof (cases "sort_keys = []")
  case False
  let ?width = "length (td_columns t)" and ?cs = "collect_constraints (conjuncts predicate)"
  let ?ea = "extend_row eval a compute [] None" and ?eb = "extend_row eval b compute [] None"
  let ?needed = "case projection_columns projection of
      None \<Rightarrow> Needed_All
    | Some columns \<Rightarrow> Needed_Some (expr_columns predicate \<union> set columns \<union> sk_column ` set sort_keys \<union>
                          {?width..<?width + length compute})"
  let ?cx = "\<lparr>mc_table = t, mc_predicate = predicate, mc_constraints = ?cs, mc_needed = ?needed,
                mc_ordered = (sort_keys \<noteq> []), mc_compute = compute, mc_width = ?width\<rparr>"
  let ?pinned = "set (map fst (filter (\<lambda>(_, c). cc_equals c \<noteq> None) ?cs))"
  let ?plan = "plan_hinted pn t predicate ord projection sort_keys hint compute"
  obtain xa xb where ext: "?ea = a @ xa" "?eb = b @ xb" "length xa = length compute" "length xb = length compute"
    using extend_append by metis
  have seen: "seen_as t a ?ea" "seen_as t b ?eb" using assms(6-9) ext by (auto simp: seen_as_def)
  have met: "constraints_met (value_or_null ?ea) ?cs" "constraints_met (value_or_null ?eb) ?cs"
    using collect_met [OF assms(8,5,10)] collect_met [OF assms(9,5,11)] .
  obtain c m where best: "fold (consider_candidate pn sort_keys ord ?pinned) (candidates pn ?cx hint) None = Some (c, m)"
    using fold_consider_Some [OF candidates_nonempty [of pn ?cx hint]] by fastforce
  have sat: "\<not> unsatisfiable (conjuncts predicate)" using assms(13) by (auto simp: plan_hinted_def Let_def)
  have pl: "pl_access ?plan = drop_empty (ca_access c)" "pl_sort ?plan = (if m then Some sort_keys else None)"
    using sat best by (simp_all add: plan_hinted_def Let_def)
  have "candidate_satisfies c sort_keys ord ?pinned" using fold_consider_flag [OF best] pl(2) assms(12) False by (auto split: if_splits)
  moreover have "pl_access ?plan = ca_access c"
    using pl(1) assms(13) by (auto simp: drop_empty_def split: Access.splits if_splits)
  then have before: "walks_before (env_unicode env) t ord (ca_access c) a b" using assms(14) by simp
  moreover have "c \<in> set (candidates pn ?cx hint)" using fold_consider [OF best] by simp
  then consider "c = match_primary_key t ?cs (sort_keys \<noteq> [])" | "match_point_gets t ?cs = Some c"
    | ix where "ix \<in> set (td_indexes t)" "match_index pn ?cx ix = Some c"
    by (auto simp: candidates_def Let_def map_filter_def split: if_splits option.splits AccessHint.splits)
  then have "walk_cmp ord ?ea ?eb (ca_natural_order c) \<noteq> Greater"
  proof cases
    case 1
    then show ?thesis using match_primary_key_order [OF assms(1) seen] before by blast
  next
    case 2
    then show ?thesis by (auto simp: match_point_gets_def)
  next
    case (3 ix)
    then show ?thesis using match_index_order [OF assms(1) seen assms(2-4) 3(1) refl refl met _ _ _ _ 3(2) before] by simp
  qed
  moreover have "value_eq (value_or_null ?ea i) (value_or_null ?eb i)" if "i \<in> ?pinned" for i
    using that pinned_agree [OF met seen_wf [OF seen(1)] seen_wf [OF seen(2)]] by auto
  moreover have "length ?ea = length ?eb" using ext row_ok_length assms(6,7) by simp
  ultimately show ?thesis using satisfied_order [OF _ seen_wf [OF seen(1)] seen_wf [OF seen(2)]] by blast
qed simp

text \<open>The rows a query selects are handed out in the order it asks for, sorted by the executor or not.\<close>

lemma selected_order:
  assumes "query_ready ex pn t R m predicate compute"
    and "plan = (plan_hinted pn t predicate ord projection sort_keys hint compute)\<lparr>pl_access := access, pl_concealed := hidden\<rparr>"
    and "\<And>row. reaches (env_unicode (ex_env ex)) t row access \<Longrightarrow>
      reaches (env_unicode (ex_env ex)) t row (pl_access (plan_hinted pn t predicate ord projection sort_keys hint compute))"
    and "\<And>a b. reaches (env_unicode (ex_env ex)) t a access \<Longrightarrow> walks_before (env_unicode (ex_env ex)) t ord access a b \<Longrightarrow>
      walks_before (env_unicode (ex_env ex)) t ord (pl_access (plan_hinted pn t predicate ord projection sort_keys hint compute)) a b"
    and "selects ex pn t R predicate compute plan rs"
  shows "sorted_wrt (\<lambda>a b. compare_rows a b sort_keys \<noteq> Greater) (map (answer pn (ex_eval ex) t (pl_output_columns plan) compute) rs)"
proof -
  let ?hinted = "plan_hinted pn t predicate ord projection sort_keys hint compute"
  let ?u = "env_unicode (ex_env ex)" and ?answer = "answer pn (ex_eval ex) t (pl_output_columns plan) compute"
  let ?ext = "\<lambda>row. extend_row (ex_eval ex) row compute [] None"
  have pl: "pl_access plan = access" "pl_order plan = ord" "pl_sort plan = pl_sort ?hinted" using plan_columns(3) [OF assms(2)] assms(2) by simp_all
  show ?thesis
  proof (cases "pl_sort plan")
    case (Some ks)
    then have "ks = sort_keys" using pl(3) by (simp add: plan_hinted_def Let_def split: if_splits prod.splits)
    then show ?thesis using assms(5) Some by (simp add: selects_def)
  next
    case None
    then have walk: "sorted_wrt (walks_before ?u t ord access) rs"
      and mem: "\<And>row. row \<in> set rs \<Longrightarrow> row \<in> R \<and> reaches ?u t row access \<and> admits_row ex predicate compute row"
      using assms(5) by (simp_all add: selects_def pl)
    have sees: "get (?answer row) (sk_column k) = get (?ext row) (sk_column k)" if "row \<in> R" "k \<in> set sort_keys" for row k
    proof -
      obtain extra where "?ext row = row @ extra" by (rule extend_append)
      moreover have "sk_column k < length row \<Longrightarrow> sk_column k \<in> cs_set (pl_output_columns plan)"
        using plan_columns(9) [OF assms(2)] that row_ok_length ready_row(2) [OF assms(1) that(1)] by (auto simp: stored_ok_def)
      ultimately show ?thesis by (auto simp: answer_def get_def nth_append blank_def shown_def)
    qed
    show ?thesis
      unfolding sorted_wrt_map
    proof (rule sorted_wrt_mono_rel [OF _ walk])
      fix a b
      assume ab: "a \<in> set rs" "b \<in> set rs" "walks_before ?u t ord access a b"
      have rows: "row_ok t row" "list_all wf_value (?ext row)" "expr_admits (ex_env ex) predicate (?ext row)" if "row \<in> set rs" for row
        using mem [OF that] ready_row(2) [OF assms(1)] assms(1) by (auto simp: stored_ok_def admits_row_def query_ready_def)
      have "table_ok t" "planner_ok pn (ex_env ex) (ex_eval ex) t" "unicode_ok ?u" "text_ascending t" "expr_wf predicate"
        using assms(1) by (simp_all add: query_ready_def)
      moreover have "reaches ?u t a (pl_access ?hinted)" using assms(3) mem [OF ab(1)] by blast
      then have "pl_access ?hinted \<noteq> Access_Nothing" by (auto simp: reaches_def)
      ultimately have "compare_rows (?ext a) (?ext b) sort_keys \<noteq> Greater"
        using plan_order [OF _ _ _ _ _ rows(1) [OF ab(1)] rows(1) [OF ab(2)] rows(2) [OF ab(1)] rows(2) [OF ab(2)]
            rows(3) [OF ab(1)] rows(3) [OF ab(2)], of pn ord projection sort_keys hint] None pl(3) assms(4) [OF _ ab(3)] mem [OF ab(1)] by simp
      then show "compare_rows (?answer a) (?answer b) sort_keys \<noteq> Greater"
        using compare_rows_cong [of sort_keys "?answer a" "?ext a" "?answer b" "?ext b"] sees mem ab(1,2) by simp
    qed
  qed
qed

end
