(* ===== verification/Record_Refinement.thy ===== *)
theory Record_Refinement
  imports Record_Ops
begin

text \<open>
  What the single-row operations promise of a store over the in-memory engine, and of any engine: the
  refinement of the specification of every write, the secured read, and uniqueness. The example is a
  table of accounts with a unique index and a managed column.
\<close>

section \<open>An example store\<close>

definition accounts_builder :: TableBuilder where
  "accounts_builder =
     (tb_index (unique (ib_column ''email'' (IndexDef_builder ''by_email'' 5)))
      \<circ> managed_for ''created'' CreatedAt \<circ> tb_set_primary_key [''id'']
      \<circ> tb_column ''created'' TI64 \<circ> tb_column ''email'' TStr \<circ> tb_column ''id'' TU64)
     (TableDef_builder ''accounts'' 1)"

definition accounts :: TableDef where
  "accounts = built accounts_builder"

lemma accounts_build: "build accounts_builder = Inr accounts"
  by (simp add: accounts_def accounts_builder_def built_def build_eval cong: build_congs)

lemma accounts_explicit:
  "accounts =
     \<lparr>td_id = 1, td_name = ''accounts'',
      td_columns =
        [\<lparr>col_name = ''id'', col_ty = TU64, col_nullable = False, col_added_in = 0, col_dropped_in = None,
          col_default = None, col_previous_names = [], col_scale = 0, col_element = None, col_managed = None\<rparr>,
         \<lparr>col_name = ''email'', col_ty = TStr, col_nullable = False, col_added_in = 0, col_dropped_in = None,
          col_default = None, col_previous_names = [], col_scale = 0, col_element = None, col_managed = None\<rparr>,
         \<lparr>col_name = ''created'', col_ty = TI64, col_nullable = False, col_added_in = 0, col_dropped_in = None,
          col_default = None, col_previous_names = [], col_scale = 0, col_element = None,
          col_managed = Some CreatedAt\<rparr>],
      td_primary_key = [0], td_body_columns = [1, 2], td_stored_columns = [1, 2],
      td_indexes =
        [\<lparr>ix_id = 5, ix_name = ''by_email'', ix_columns = [\<lparr>ic_ordinal = 1, ic_direction = Asc\<rparr>],
          ix_unique = True, ix_predicate = None, ix_expression = None, ix_text = False\<rparr>],
      td_checks = [], td_foreign_keys = [], td_tenant_column = None, td_soft_delete = None,
      td_schema_version = 0\<rparr>"
  by (simp add: accounts_def accounts_builder_def built_def build_eval cong: build_congs)

lemma accounts_ok: "table_ok accounts"
proof -
  have "constructed accounts_builder" by (simp add: accounts_builder_def constructed.intros)
  then show ?thesis using accounts_build constructed_inv built_table_ok by blast
qed

definition bank :: "(MemoryTransaction \<times> Shared) RecordStore" where
  "bank = \<lparr>rs_kv = memory_kv, rs_env = no_tables, rs_catalog = \<lparr>cat_tables = [accounts]\<rparr>,
           rs_security = SecurityCatalog_new, rs_clock = (\<lambda>_. 7)\<rparr>"

definition bank_opened :: "(MemoryTransaction \<times> Shared) RecordTransaction" where
  "bank_opened = \<lparr>rt_txn = txn_open Shared_default, rt_poisoned = False, rt_ticks = 0\<rparr>"

lemma bank_simps [simp]:
  "rs_kv bank = memory_kv" "rs_env bank = no_tables" "cat_tables (rs_catalog bank) = [accounts]"
  "rs_security bank = SecurityCatalog_new" "rs_clock bank n = 7"
  by (simp_all add: bank_def)

lemma bank_schema: "schema_ok (rs_catalog bank)" "unicode_ok (env_unicode (rs_env bank))"
proof -
  show "schema_ok (rs_catalog bank)"
    using accounts_ok
    by (simp add: schema_ok_def catalog_ok_def foreign_keys_valid_def index_ids_def versions_ok_def evolvable_def
        computes_ok_def managed_live_def accounts_explicit is_dropped_def)
  show "unicode_ok (env_unicode (rs_env bank))" by (simp add: unicode_ok_def no_tables_def)
qed

lemma bank_serves: "serves memory_ok memory_view bank (\<lambda>_. {}) bank_opened"
proof -
  have "memory_view (rt_txn bank_opened) k = None" "memory_ok (rt_txn bank_opened)" for k
    by (simp_all add: bank_opened_def txn_open_def Shared_default_def register_def Let_def memory_view_def
        memory_ok_def txn_get_def base_def txn_ok_def btree_simps)
  then show ?thesis
    using bank_schema by (simp add: serves_def healthy_def bank_opened_def database_of_def represents_def)
qed

abbreviation account :: "u64 \<Rightarrow> u8 \<Rightarrow> i64 \<Rightarrow> Row" where
  "account i e c \<equiv> [U64 i, Str [e], I64 c]"

lemma account_facts:
  "primary_key_values (account i e c) accounts = [U64 i]" "td_id accounts = 1" "td_name accounts = ''accounts''"
  "td_foreign_keys accounts = []" "td_checks accounts = []" "td_soft_delete accounts = None"
  "td_tenant_column accounts = None"
  by (simp_all add: accounts_explicit primary_key_values_def project_def value_or_null_def get_def)

lemma account_valid: "e < 0x80 \<Longrightarrow> validate (account i e c) accounts = Inr ()"
  by (simp add: validate_Inr row_valid_def accounts_explicit column_accepts_def is_dropped_def less_Suc_eq nth_Cons')

lemma account_bytes:
  "tuple_bytes [] [U64 1] = [0x16, 1]" "tuple_bytes [] [U64 2] = [0x16, 2]"
  unfolding encode_bytes [symmetric] by code_simp+

lemma account_dir_bytes: "dir_bytes Asc (U64 1) = [0x16, 1]" "dir_bytes Asc (U64 2) = [0x16, 2]"
  using account_bytes by simp_all

lemma account_sound: "row_sound accounts (account 1 0x61 c)" "row_sound accounts (account 2 0x61 c)"
  "row_sound accounts (account 1 0x62 c)"
  by (simp_all add: row_sound_def canonical_def accounts_explicit from_utf8_def utf8_decode.simps
      value_or_null_def get_def account_dir_bytes)

lemma account_stamped:
  "stamped_row bank accounts (account i e c) None st = account i e 7"
  "stamped_row bank accounts (account i e c) (Some (account i' e' c')) st = account i e c'"
  by (simp_all add: stamped_row_def accounts_explicit get_def)

lemma account_body:
  "length (encode_body accounts (account 1 0x61 7)) < 2 ^ 64" "length (encode_body accounts (account 2 0x61 7)) < 2 ^ 64"
  "length (encode_body accounts (account 1 0x62 7)) < 2 ^ 64"
proof -
  have "encode_body accounts (account 1 0x61 7) = [1, 0, 0, 0, 0, 5, 0x61, 0, 0, 0x16, 7]"
    "encode_body accounts (account 2 0x61 7) = [1, 0, 0, 0, 0, 5, 0x61, 0, 0, 0x16, 7]"
    "encode_body accounts (account 1 0x62 7) = [1, 0, 0, 0, 0, 5, 0x62, 0, 0, 0x16, 7]"
    unfolding accounts_explicit by code_simp+
  then show "length (encode_body accounts (account 1 0x61 7)) < 2 ^ 64"
    "length (encode_body accounts (account 2 0x61 7)) < 2 ^ 64"
    "length (encode_body accounts (account 1 0x62 7)) < 2 ^ 64" by simp_all
qed

definition by_email :: IndexDef where
  "by_email = hd (td_indexes accounts)"

lemma account_entries:
  "held_entries u accounts by_email (account 1 0x61 7) =
     [\<lparr>en_key = [2, 0, 0, 0, 5, 5, 0x61, 0, 0], en_value = [0x16, 1], en_enforces_uniqueness = True\<rparr>]"
  "held_entries u accounts by_email (account 2 0x61 7) =
     [\<lparr>en_key = [2, 0, 0, 0, 5, 5, 0x61, 0, 0], en_value = [0x16, 2], en_enforces_uniqueness = True\<rparr>]"
  "held_entries u accounts by_email (account 1 0x62 7) =
     [\<lparr>en_key = [2, 0, 0, 0, 5, 5, 0x62, 0, 0], en_value = [0x16, 1], en_enforces_uniqueness = True\<rparr>]"
proof -
  have one: "held_entries u accounts by_email row =
      [index_entry accounts by_email (index_values row by_email) (primary_key_values row accounts)]" for row
    by (simp add: held_entries_def entries_for_def admits_def key_sets_def key_values_def by_email_def accounts_explicit)
  show "held_entries u accounts by_email (account 1 0x61 7) =
     [\<lparr>en_key = [2, 0, 0, 0, 5, 5, 0x61, 0, 0], en_value = [0x16, 1], en_enforces_uniqueness = True\<rparr>]"
    "held_entries u accounts by_email (account 2 0x61 7) =
     [\<lparr>en_key = [2, 0, 0, 0, 5, 5, 0x61, 0, 0], en_value = [0x16, 2], en_enforces_uniqueness = True\<rparr>]"
    "held_entries u accounts by_email (account 1 0x62 7) =
     [\<lparr>en_key = [2, 0, 0, 0, 5, 5, 0x62, 0, 0], en_value = [0x16, 1], en_enforces_uniqueness = True\<rparr>]"
    unfolding one unfolding by_email_def accounts_explicit by code_simp+
qed

lemma account_indexes: "td_indexes accounts = [by_email]" "ix_name by_email = ''by_email''"
  by (simp_all add: by_email_def accounts_explicit)

lemma bank_checks:
  "authorize (rs_security bank) superuser accounts a = Inr ()"
  "require_every_column (rs_security bank) superuser accounts w = Inr ()"
  "check_row (rs_env bank) (rs_security bank) superuser accounts a row = Inr ()"
  "check_constraints accounts row = Inr ()"
  "permits_row_with (rs_env bank) (rs_security bank) superuser accounts a row del = Inr True"
  by (simp_all add: authorize_def grants_def superuser_def is_superuser_def require_every_column_def readable_def
      check_row_def row_filter_with_def check_row_against_def check_constraints_def account_facts
      permits_row_with_def Let_def split: Deleted.split)

text \<open>A first row in, from the library's side of the refinement, for the examples that need one.\<close>

definition one_account :: database where
  "one_account = (\<lambda>_. {})(1 := {account 1 0x61 7})"

lemma first_insert:
  assumes "meets memory_ok memory_view bank (insert_row bank superuser accounts (account 1 0x61 0)) bank_opened
    (insert_spec bank superuser accounts (account 1 0x61 0) (account 1 0x61 7) None (\<lambda>_. {}))"
  shows "\<exists>st. insert_row bank superuser accounts (account 1 0x61 0) bank_opened = (Inr (), st) \<and>
    serves memory_ok memory_view bank one_account st"
proof -
  have "insert_spec bank superuser accounts (account 1 0x61 0) (account 1 0x61 7) None (\<lambda>_. {}) = Inr one_account"
    by (simp add: insert_spec_def bank_checks [simplified] account_valid finish_spec_def store_spec_def
        account_facts account_indexes collides_def others_def one_account_def)
  then show ?thesis using assms bank_schema by (simp add: meets_def serves_def)
qed

lemma bank_opened_account:
  obtains st where "serves memory_ok memory_view bank one_account st"
proof -
  have "meets memory_ok memory_view bank (insert_row bank superuser accounts (account 1 0x61 0)) bank_opened
      (insert_spec bank superuser accounts (account 1 0x61 0) (account 1 0x61 7) None (\<lambda>_. {}))"
    by (rule memory.insert_meets [OF bank_simps(1) bank_serves _ account_sound(1)]) (simp_all add: row_under_def one_account_def account_facts account_body [simplified] account_stamped)
  from first_insert [OF this] that show ?thesis by blast
qed

section \<open>Writes\<close>

text \<open>C1. Inserting a row does to a store exactly what the specification does to the set of rows of each
  table: the grant, the shape of the row, the policy and the checks are asked in that order, a taken
  key, a missing or hidden parent and a taken unique slot are refused with their error, and otherwise
  the stamped row joins its table, every index of the table follows, and no other table is touched. An
  error leaves the transaction usable.\<close>

theorem insert_refines:
  assumes "rs_kv rs = memory_kv" and "serves memory_ok memory_view rs D st"
    and "t \<in> set (cat_tables (rs_catalog rs))" and "row_sound t row"
    and "row_under t (D (td_id t)) (primary_key_values row t) previous"
    and "r = stamped_row rs t row previous st" and "length (encode_body t r) < 2 ^ 64"
  shows "meets memory_ok memory_view rs (insert_row rs ctx t row) st (insert_spec rs ctx t row r previous D)"
  using assms by (rule memory.insert_meets)

theorem insert_refines_witness:
  "(\<exists>st. insert_row bank superuser accounts (account 1 0x61 0) bank_opened = (Inr (), st) \<and>
      serves memory_ok memory_view bank one_account st) \<and>
   (\<exists>st st'. serves memory_ok memory_view bank one_account st \<and>
      insert_row bank superuser accounts (account 2 0x61 0) st = (Inl (UniqueViolation ''accounts'' ''by_email''), st'))"
proof -
  obtain st where st: "serves memory_ok memory_view bank one_account st" by (rule bank_opened_account)
  have "meets memory_ok memory_view bank (insert_row bank superuser accounts (account 2 0x61 0)) st
      (insert_spec bank superuser accounts (account 2 0x61 0) (account 2 0x61 7) None one_account)"
    by (rule insert_refines [OF bank_simps(1) st _ account_sound(2)]) (simp_all add: row_under_def one_account_def account_facts account_body [simplified] account_stamped)
  moreover have "insert_spec bank superuser accounts (account 2 0x61 0) (account 2 0x61 7) None one_account =
      Inl (UniqueViolation ''accounts'' ''by_email'')"
    by (simp add: insert_spec_def bank_checks [simplified] account_valid finish_spec_def store_spec_def
        account_facts account_indexes collides_def others_def one_account_def account_entries)
  ultimately have "\<exists>st'. insert_row bank superuser accounts (account 2 0x61 0) st = (Inl (UniqueViolation ''accounts'' ''by_email''), st')"
    by (auto simp: meets_def)
  moreover have "\<exists>st. insert_row bank superuser accounts (account 1 0x61 0) bank_opened = (Inr (), st) \<and>
      serves memory_ok memory_view bank one_account st"
    by (rule first_insert, rule insert_refines [OF bank_simps(1) bank_serves _ account_sound(1)]) (simp_all add: row_under_def one_account_def account_facts account_body [simplified] account_stamped)
  ultimately show ?thesis using st by blast
qed

text \<open>C7. Replacing a row does what its specification does, in each of the three operations that replace
  one. A row the caller may not update, or one a soft delete retired and the caller may not see, is
  reported missing, never overwritten; a row the policy or a check refuses, or whose new parent is
  missing, is refused; a unique slot held by another row is refused; otherwise the stamped row takes
  the place of the one under its key, in the table and in each of its indexes, and nothing else
  changes. An upsert also inserts where the key is free. The compare-and-swap update loses no update:
  it succeeds only when the row under the key equals the expected row column by column.\<close>

theorem replacements_refine:
  assumes "rs_kv rs = memory_kv" and "serves memory_ok memory_view rs D st"
    and "t \<in> set (cat_tables (rs_catalog rs))" and "row_sound t row"
    and "row_under t (D (td_id t)) (primary_key_values row t) previous"
    and "r = stamped_row rs t row previous st" and "length (encode_body t r) < 2 ^ 64"
  shows "meets memory_ok memory_view rs (update_row rs ctx t row) st (update_spec rs ctx t row r previous D) \<and>
    meets memory_ok memory_view rs (upsert rs ctx t row) st (upsert_spec rs ctx t row r previous D) \<and>
    meets memory_ok memory_view rs (update_if_unchanged rs ctx t row expected) st
      (swap_spec rs ctx t row expected r previous D) \<and>
    (\<forall>D'. swap_spec rs ctx t row expected r previous D = Inr D' \<longrightarrow>
       (\<exists>existing\<in>D (td_id t). previous = Some existing \<and> list_all2 value_eq existing expected))"
proof -
  have "\<exists>existing\<in>D (td_id t). previous = Some existing \<and> list_all2 value_eq existing expected"
    if swapped: "swap_spec rs ctx t row expected r previous D = Inr D'" for D'
  proof -
    obtain existing where "visible_spec rs ctx t previous Hidden = Inr (Some existing)" "list_all2 value_eq existing expected"
      using swapped by (auto simp: swap_spec_def rbind_eq_Inr split: if_splits option.splits)
    moreover from this(1) have "previous = Some existing" by (rule memory.visible_found)
    ultimately show ?thesis using assms(5) by (simp add: row_under_def)
  qed
  then show ?thesis
    using memory.update_meets [OF assms] memory.upsert_meets [OF assms] memory.swap_meets [OF assms] by blast
qed

theorem replacements_refine_witness:
  "\<exists>st. serves memory_ok memory_view bank one_account st \<and>
     (\<exists>st'. update_row bank superuser accounts (account 1 0x62 0) st = (Inr (), st') \<and>
        database_of bank ((\<lambda>_. {})(1 := {account 1 0x62 7})) (memory_view (rt_txn st'))) \<and>
     (\<exists>st'. upsert bank superuser accounts (account 1 0x62 0) st = (Inr (), st') \<and>
        database_of bank ((\<lambda>_. {})(1 := {account 1 0x62 7})) (memory_view (rt_txn st'))) \<and>
     (\<exists>st'. update_if_unchanged bank superuser accounts (account 1 0x62 0) (account 1 0x63 7) st =
        (Inl (RowChanged ''accounts''), st'))"
proof -
  let ?row = "account 1 0x62 0" and ?r = "account 1 0x62 7" and ?old = "account 1 0x61 7"
  obtain st where st: "serves memory_ok memory_view bank one_account st" by (rule bank_opened_account)
  have run: "meets memory_ok memory_view bank (update_row bank superuser accounts ?row) st
        (update_spec bank superuser accounts ?row ?r (Some ?old) one_account) \<and>
      meets memory_ok memory_view bank (upsert bank superuser accounts ?row) st
        (upsert_spec bank superuser accounts ?row ?r (Some ?old) one_account) \<and>
      meets memory_ok memory_view bank (update_if_unchanged bank superuser accounts ?row (account 1 0x63 7)) st
        (swap_spec bank superuser accounts ?row (account 1 0x63 7) ?r (Some ?old) one_account)"
  proof -
    have mem: "accounts \<in> set (cat_tables (rs_catalog bank))" by simp
    have under: "row_under accounts (one_account (td_id accounts)) (primary_key_values ?row accounts) (Some ?old)"
      by (simp add: row_under_def one_account_def account_facts)
    have stamped: "?r = stamped_row bank accounts ?row (Some ?old) st" by (simp only: account_stamped)
    show ?thesis
      using replacements_refine [OF bank_simps(1) st mem account_sound(3) under stamped account_body(3)] by blast
  qed
  have "update_spec bank superuser accounts ?row ?r (Some ?old) one_account = Inr ((\<lambda>_. {})(1 := {?r}))"
    by (simp add: update_spec_def bank_checks [simplified] account_valid finish_spec_def store_spec_def replace_spec_def
        visible_spec_def account_facts account_indexes collides_def others_def one_account_def)
  moreover have "upsert_spec bank superuser accounts ?row ?r (Some ?old) one_account = Inr ((\<lambda>_. {})(1 := {?r}))"
    by (simp add: upsert_spec_def bank_checks [simplified] account_valid finish_spec_def store_spec_def replace_spec_def
        visible_spec_def account_facts account_indexes collides_def others_def one_account_def)
  moreover have "swap_spec bank superuser accounts ?row (account 1 0x63 7) ?r (Some ?old) one_account =
      Inl (RowChanged ''accounts'')"
    by (simp add: swap_spec_def bank_checks [simplified] account_valid visible_spec_def account_facts
        value_eq_def value_cmp.simps cmp_lin_def)
  ultimately show ?thesis using run st by (auto simp: meets_def)
qed

section \<open>Reads and invariants\<close>

lemma conceal_nth:
  "conceal row hidden = map (\<lambda>i. if i \<in> set hidden then Null else row ! i) [0..<length row]"
proof -
  have "length (fold (\<lambda>i values. values[i := Null]) hidden row) = length row" for row :: Row
    by (induction hidden arbitrary: row) simp_all
  moreover have "fold (\<lambda>i values. values[i := Null]) hidden row ! j = (if j \<in> set hidden then Null else row ! j)"
    if "j < length row" for j and row :: Row
    using that by (induction hidden arbitrary: row) (auto simp: nth_list_update)
  ultimately have "fold (\<lambda>i values. values[i := Null]) hidden row =
      map (\<lambda>i. if i \<in> set hidden then Null else row ! i) [0..<length row]"
    by (intro nth_equalityI) simp_all
  then show ?thesis by (simp add: conceal_def map_nth)
qed

text \<open>C8. A read by primary key answers from the database alone: without the grant it is refused, on a
  tenant-scoped table without a tenant it is refused, and otherwise it returns the row under the key
  exactly when that row is in the caller's tenant, admitted by the policies and not retired, with the
  columns withheld from the caller put to null and every other column as stored; the transaction is
  left as it was.\<close>

theorem get_exact:
  assumes "rs_kv rs = memory_kv" and "serves memory_ok memory_view rs D st" and "t \<in> set (cat_tables (rs_catalog rs))"
    and "key_fits t key" and "map canon key = key" and "length (row_key t key) < 2 ^ 64"
    and "row_under t (D (td_id t)) key found"
  shows "reads_get rs ctx t key st =
    (if \<not> grants (rs_security rs) ctx t Read then Inl (AccessDenied (td_name t) (action_name Read))
     else if \<not> is_superuser ctx \<and> td_tenant_column t \<noteq> None \<and> pr_tenant (ctx_principal ctx) = None
       then Inl (TenantRequired (td_name t))
     else Inr (case found of
         None \<Rightarrow> None
       | Some row \<Rightarrow>
           if (is_superuser ctx \<or> in_tenant ctx t row \<and> policy_admits (rs_env rs) (rs_security rs) ctx t Read row) \<and>
              \<not> retired t row
           then Some (map (\<lambda>i. if i \<in> set (concealed (rs_security rs) ctx t) then Null else row ! i) [0..<length row])
           else None), st)"
proof -
  have s: "healthy memory_ok st" "table_ok t"
    "represents (env_unicode (rs_env rs)) t (D (td_id t)) (memory_view (rt_txn st))"
    using assms(2,3) by (auto simp: serves_def schema_ok_def database_of_def)
  note run = memory.reads_get_run [OF assms(1) s assms(4-7), of ctx]
  show ?thesis
  proof (cases "row_filter (rs_security rs) ctx t Read")
    case (Inl e)
    then have "\<not> is_superuser ctx \<and> td_tenant_column t \<noteq> None \<and> pr_tenant (ctx_principal ctx) = None"
      "e = TenantRequired (td_name t)"
      using row_filter_Inl [of "rs_security rs" ctx t Read Hidden e] by (auto simp: row_filter_def)
    then show ?thesis unfolding run Inl authorize_def by simp
  next
    case (Inr f)
    then have admits: "expr_admits (rs_env rs) f row \<longleftrightarrow>
        (is_superuser ctx \<or> in_tenant ctx t row \<and> policy_admits (rs_env rs) (rs_security rs) ctx t Read row) \<and>
        \<not> retired t row" for row
      using row_filter_admits by (simp add: row_filter_def)
    have tenant: "\<not> (\<not> is_superuser ctx \<and> td_tenant_column t \<noteq> None \<and> pr_tenant (ctx_principal ctx) = None)"
      using Inr row_filter_Inl [of "rs_security rs" ctx t Read Hidden] by (auto simp: row_filter_def)
    show ?thesis unfolding run Inr authorize_def conceal_nth if_not_P [OF tenant]
      by (cases found) (simp_all add: admits)
  qed
qed

theorem get_exact_witness:
  "\<exists>st. serves memory_ok memory_view bank one_account st \<and>
     reads_get bank superuser accounts [U64 1] st = (Inr (Some (account 1 0x61 7)), st) \<and>
     reads_get bank alice accounts [U64 1] st = (Inl (AccessDenied ''accounts'' ''read''), st)"
proof -
  obtain st where st: "serves memory_ok memory_view bank one_account st" by (rule bank_opened_account)
  have under: "row_under accounts (one_account (td_id accounts)) [U64 1] (Some (account 1 0x61 7))"
    by (simp add: row_under_def one_account_def account_facts)
  have "primary_key_types accounts = [TU64]" by (simp add: accounts_explicit primary_key_types_def key_types_def)
  then have fit: "key_fits accounts [U64 1]" "map canon [U64 1] = [U64 1]" "length (row_key accounts [U64 1]) < 2 ^ 64"
    by (simp_all add: key_fits_def fits_def has_type_def row_key_bytes table_prefix_def account_dir_bytes)
  have mem: "accounts \<in> set (cat_tables (rs_catalog bank))" by simp
  note get = get_exact [OF bank_simps(1) st mem fit under]
  have "reads_get bank superuser accounts [U64 1] st = (Inr (Some (account 1 0x61 7)), st)"
    using get [of superuser]
    by (simp add: grants_def superuser_def is_superuser_def retired_def account_facts concealed_def readable_def upt_rec)
  moreover have "reads_get bank alice accounts [U64 1] st = (Inl (AccessDenied ''accounts'' ''read''), st)"
    using get [of alice]
    by (simp add: grants_def alice_def SecurityContext_new_def is_superuser_def SecurityCatalog_new_def account_facts)
  ultimately show ?thesis using st by blast
qed

text \<open>In a state that serves a database, two rows of a table that a unique index admits, of one tenant
  where the table has tenants, with equal values under the index and no null among them, are the same
  row.\<close>

lemma unique_entry:
  assumes "serves memory_ok memory_view rs D st" and "t \<in> set (cat_tables (rs_catalog rs))"
    and "ix \<in> set (td_indexes t)" and "ix_unique ix" and "r \<in> D (td_id t)" and "s \<in> D (td_id t)"
    and "admits ix r" and "admits ix s" and "list_all2 value_eq (key_values ix r) (key_values ix s)"
    and "Null \<notin> set (key_values ix r)"
    and "td_tenant_column t = None \<or> value_eq (hd (primary_key_values r t)) (hd (primary_key_values s t))"
  shows "r = s"
proof -
  let ?u = "env_unicode (rs_env rs)"
  have T: "table_ok t" "unicode_ok ?u" "represents ?u t (D (td_id t)) (memory_view (rt_txn st))"
    using assms(1,2) by (auto simp: serves_def schema_ok_def database_of_def)
  have ok: "row_ok t r" "row_ok t s" using T(3) assms(5,6) by (auto simp: represents_def stored_ok_def)
  let ?e = "\<lambda>x. index_entry t ix (key_values ix x) (primary_key_values x t)"
  have one: "held_entries ?u t ix x = [?e x]" if "admits ix x" for x
    using that unique_single [OF T(1) assms(3,4)] by (simp add: held_entries_def entries_for_def)
  have vals: "entry_values ix (key_values ix x)" if "row_ok t x" for x
    using key_sets_entry [OF T(1) that T(2) assms(3)] unique_single [OF T(1) assms(3,4)] by simp
  have "en_key (?e r) = en_key (?e s)"
    using index_key_eq [of t "primary_key_values r t" "primary_key_values s t" ix "key_values ix r" "key_values ix s"]
      row_key_fits [OF T(1) ok(1)] row_key_fits [OF T(1) ok(2)] vals ok assms(4,9-11) by (auto simp: enforces_def)
  then show ?thesis
    using entry_owner [OF T assms(3,5) _ assms(6), of "?e r" "?e s"] one assms(7,8) by simp
qed

end
