(* ===== verification/Query_Secure.thy ===== *)
theory Query_Secure
  imports Query_Order Record_Refinement
begin

text \<open>
  Reads under the caller's rights, \<open>SecuredReads\<close> of \<open>crates/slate-kernel/src/read.rs\<close>: a request is
  authorised, refused where it names a column the caller may not read, planned with the caller's row
  filter conjoined to its own, resumed after a cursor or refused where a cursor cannot say where a page
  ended, executed, and its withheld columns put back to null. The statistics that cost plans, the check
  of decimal scales and the columns of window functions are parameters.
\<close>

section \<open>Requests\<close>

record ('x, 's, 'w) SecuredReads =
  sr_exec :: "('x, 's, 'w) Exec"
  sr_security :: SecurityCatalog
  sr_statistics :: "TableDef \<Rightarrow> nat option \<Rightarrow> 's Planner"
  sr_limits :: ExecutionLimits
  sr_columns :: "'s \<Rightarrow> Ordinal set"
  sr_check_scales :: "TableDef \<Rightarrow> 's list \<Rightarrow> KernelError + unit"
  sr_window_columns :: "'w \<Rightarrow> Ordinal set"

definition planning_limit :: "('s, 'w) Query \<Rightarrow> nat option" where
  "planning_limit q = map_option (\<lambda>l. saturating_add l (q_offset q)) (q_limit q)"

definition planner_for :: "('x, 's, 'w) SecuredReads \<Rightarrow> TableDef \<Rightarrow> ('s, 'w) Query \<Rightarrow> 's Planner" where
  "planner_for sr t q = (sr_statistics sr t (planning_limit q))\<lparr>pn_columns := sr_columns sr\<rparr>"

definition refuse_unreadable ::
  "('x, 's, 'w) SecuredReads \<Rightarrow> TableDef \<Rightarrow> ('s, 'w) Query \<Rightarrow> Ordinal set \<Rightarrow> string \<Rightarrow> KernelError + unit" where
  "refuse_unreadable sr t q cols action =
     (let referenced =
        expr_columns (q_filter q) \<union>
        (case projection_columns (q_projection q) of None \<Rightarrow> {} | Some columns \<Rightarrow> set columns) \<union>
        sk_column ` set (q_sort q) \<union>
        \<Union> (sr_window_columns sr ` set (q_window q)) \<union>
        \<Union> (sr_columns sr ` set (q_compute q))
      in if \<exists>c\<in>referenced. c < length (td_columns t) \<and> c \<notin> cols
         then Inl (ColumnsWithheld (td_name t) action)
         else Inr ())"

definition readable_projection :: "('s, 'w) Query \<Rightarrow> Ordinal set \<Rightarrow> ('s, 'w) Query" where
  "readable_projection q cols =
     (case projection_columns (q_projection q) of
        None \<Rightarrow> q\<lparr>q_projection := Projection_Columns (sorted_list_of_set cols)\<rparr>
      | Some _ \<Rightarrow> q)"

definition widened :: "('x, 's, 'w) SecuredReads \<Rightarrow> Projection \<Rightarrow> 'w list \<Rightarrow> Projection" where
  "widened sr projection windows =
     (if windows = [] then projection
      else
        case projection_columns projection of
          None \<Rightarrow> projection
        | Some columns \<Rightarrow>
            Projection_Columns (sorted_list_of_set (set columns \<union> \<Union> (sr_window_columns sr ` set windows))))"

section \<open>Refused cursors\<close>

definition cursor_error :: "TableDef \<Rightarrow> Value list \<Rightarrow> CursorFault \<Rightarrow> KernelError" where
  "cursor_error t key fault =
     InvalidCursor (td_name t)
       (case fault of
          WrongKeyWidth \<Rightarrow>
            ''a cursor is a whole primary key: `'' @ td_name t @ ''` has '' @ digits (length (td_primary_key t)) @
            '' key column'' @ (if length (td_primary_key t) = 1 then '''' else ''s'') @ '', and this one has '' @
            digits (length key)
        | WalksIndex i \<Rightarrow>
            ''this plan walks index '' @ digits (unat i) @ '' and yields rows in that index's order, where a primary '' @
            ''key does not say where the page ended. Drop the ORDER BY, or page by offset''
        | ReadsKeySet \<Rightarrow>
            ''this plan reads a set of keys named by an `IN`, which is already bounded and is not a range to resume inside'')"

definition window_on_page :: string where
  "window_on_page =
     ''this read computes a window, which is defined over every selected row.                          A page '' @
     ''is not every selected row, so the window would restart on each                          one and report a '' @
     ''number for the page as if it were for the query''"

definition sorted_page :: string where
  "sorted_page =
     ''this query is sorted into an order the primary key does not give, so the rows are re-ordered after they '' @
     ''are read and a key does not say where the page ended. Order by the primary key, or page by offset''"

section \<open>Planning and executing\<close>

definition plan_secured ::
  "('x, 's, 'w) SecuredReads \<Rightarrow> SecurityContext \<Rightarrow> TableDef \<Rightarrow> ('s, 'w) Query \<Rightarrow> KernelError + Plan" where
  "plan_secured sr ctx t q =
     rbind (authorize (sr_security sr) ctx t Read) (\<lambda>_.
     rbind (if q_include_deleted q \<and> td_soft_delete t \<noteq> None then authorize (sr_security sr) ctx t ReadDeleted else Inr ()) (\<lambda>_.
     rbind (sr_check_scales sr t (q_compute q)) (\<lambda>_.
     rbind (case column_type_conflict (\<lambda>c. map_option col_ty (td_column t c)) (q_filter q) of
              Some (a, b) \<Rightarrow> Inl (ComparisonTypeMismatch (td_name t) a b)
            | None \<Rightarrow> Inr ()) (\<lambda>_.
     rbind (row_filter_with (sr_security sr) ctx t Read (if q_include_deleted q then Visible else Hidden)) (\<lambda>filt.
     let secured = expr_and (q_filter q) filt;
         pn = planner_for sr t q
     in if (q_paging q \<or> q_after q \<noteq> None) \<and> q_window q \<noteq> [] then Inl (InvalidCursor (td_name t) window_on_page)
        else if \<not> q_paging q then
          Inr (plan_hinted pn t secured (q_order q) (widened sr (q_projection q) (q_window q)) (q_sort q) (q_hint q) (q_compute q))
        else
          let hint = (case q_hint q of None \<Rightarrow> Some Hint_TableScan | Some h \<Rightarrow> Some h);
              plan = plan_hinted pn t secured (q_order q) (q_projection q) (q_sort q) hint (q_compute q)
          in if pl_sort plan \<noteq> None then Inl (InvalidCursor (td_name t) sorted_page)
             else
               case q_after q of
                 Some after \<Rightarrow> map_err (cursor_error t after) (resume_after plan t after)
               | None \<Rightarrow> Inr plan)))))"

definition plan_query ::
  "('x, 's, 'w) SecuredReads \<Rightarrow> SecurityContext \<Rightarrow> TableDef \<Rightarrow> ('s, 'w) Query \<Rightarrow> KernelError + Plan" where
  "plan_query sr ctx t q =
     rbind (authorize (sr_security sr) ctx t Read) (\<lambda>_.
     case readable (sr_security sr) ctx t of
       None \<Rightarrow> plan_secured sr ctx t q
     | Some cols \<Rightarrow>
         rbind (refuse_unreadable sr t q cols ''this read'') (\<lambda>_.
         rbind (plan_secured sr ctx t (readable_projection q cols)) (\<lambda>plan.
         Inr (plan\<lparr>pl_concealed := concealed (sr_security sr) ctx t\<rparr>))))"

definition execute ::
  "('x, 's, 'w) SecuredReads \<Rightarrow> SecurityContext \<Rightarrow> TableDef \<Rightarrow> ('s, 'w) Query \<Rightarrow> KernelError + 's QueryCursor" where
  "execute sr ctx t q =
     rbind (plan_query sr ctx t q) (\<lambda>plan.
     rbind (open_cursor (sr_exec sr) (planner_for sr t q) (sr_limits sr) t plan q) (\<lambda>qc.
     Inr (with_window (q_limit q) (q_offset q) qc)))"

definition execute_for_write ::
  "('x, 's, 'w) SecuredReads \<Rightarrow> SecurityContext \<Rightarrow> TableDef \<Rightarrow> ('s, 'w) Query \<Rightarrow> KernelError + 's QueryCursor" where
  "execute_for_write sr ctx t q =
     rbind (authorize (sr_security sr) ctx t Read) (\<lambda>_.
     rbind (case readable (sr_security sr) ctx t of
              None \<Rightarrow> Inr ()
            | Some cols \<Rightarrow> refuse_unreadable sr t q cols ''this write's predicate'') (\<lambda>_.
     rbind (plan_secured sr ctx t q) (\<lambda>plan.
     rbind (open_cursor (sr_exec sr) (planner_for sr t q) (sr_limits sr) t plan q) (\<lambda>qc.
     Inr (with_window (q_limit q) (q_offset q) qc)))))"

fun authorize_explain :: "('x, 's, 'w) SecuredReads \<Rightarrow> SecurityContext \<Rightarrow> TableDef list \<Rightarrow> KernelError + unit" where
  "authorize_explain sr ctx [] = Inr ()"
| "authorize_explain sr ctx (t # ts) =
     rbind (authorize (sr_security sr) ctx t Explain) (\<lambda>_.
     rbind (require_every_column (sr_security sr) ctx t ''EXPLAIN'') (\<lambda>_.
     authorize_explain sr ctx ts))"

section \<open>What an accepted request is planned as\<close>

definition row_filter_of :: "('x, 's, 'w) SecuredReads \<Rightarrow> SecurityContext \<Rightarrow> TableDef \<Rightarrow> ('s, 'w) Query \<Rightarrow> KernelError + Expr" where
  "row_filter_of sr ctx t q = row_filter_with (sr_security sr) ctx t Read (if q_include_deleted q then Visible else Hidden)"

text \<open>The plan of an accepted request: of the table with the caller's filter conjoined, resumed where the
  request pages and carries a cursor.\<close>

definition planned_as ::
  "('x, 's, 'w) SecuredReads \<Rightarrow> TableDef \<Rightarrow> ('s, 'w) Query \<Rightarrow> Expr \<Rightarrow> Projection \<Rightarrow> Plan \<Rightarrow> Access \<Rightarrow> bool" where
  "planned_as sr t q filt projection base_plan access \<longleftrightarrow>
     (\<exists>hint. base_plan = plan_hinted (planner_for sr t q) t (expr_and (q_filter q) filt) (q_order q) projection (q_sort q) hint (q_compute q)) \<and>
     (case q_after q of
        Some key \<Rightarrow>
          if q_paging q then \<exists>p. resume_after base_plan t key = Inr p \<and> access = pl_access p
          else access = pl_access base_plan
      | None \<Rightarrow> access = pl_access base_plan) \<and>
     (q_paging q \<longrightarrow> pl_sort base_plan = None)"

lemma plan_hinted_shown: "pl_concealed (plan_hinted pn t predicate ord projection sort_keys hint compute) = []"
  by (simp add: plan_hinted_def Let_def split: prod.split)

lemma nothing_concealed: "pl_concealed p = [] \<Longrightarrow> p\<lparr>pl_access := access, pl_concealed := []\<rparr> = p\<lparr>pl_access := access\<rparr>"
  by (cases p) simp

lemma resume_after_form: "resume_after p t key = Inr p' \<Longrightarrow> p' = p\<lparr>pl_access := pl_access p'\<rparr>"
  by (auto simp: resume_after_def Let_def split: if_splits Access.splits)

lemma plan_secured_form:
  assumes "plan_secured sr ctx t q = Inr plan" and "q_window q = []"
  obtains filt base_plan access where "row_filter_of sr ctx t q = Inr filt"
    and "planned_as sr t q filt (q_projection q) base_plan access"
    and "plan = base_plan\<lparr>pl_access := access, pl_concealed := []\<rparr>"
proof -
  obtain filt where filt: "row_filter_of sr ctx t q = Inr filt"
    using assms(1) by (auto simp: plan_secured_def row_filter_of_def rbind_eq_Inr)
  let ?plan = "\<lambda>hint. plan_hinted (planner_for sr t q) t (expr_and (q_filter q) filt) (q_order q) (q_projection q) (q_sort q) hint (q_compute q)"
  show thesis
  proof (cases "q_paging q")
    case False
    then have "plan = ?plan (q_hint q)"
      using assms filt by (auto simp: plan_secured_def row_filter_of_def rbind_eq_Inr widened_def)
    then have "plan = (?plan (q_hint q))\<lparr>pl_access := pl_access (?plan (q_hint q)), pl_concealed := []\<rparr>"
      by (simp add: nothing_concealed plan_hinted_shown)
    moreover have "planned_as sr t q filt (q_projection q) (?plan (q_hint q)) (pl_access (?plan (q_hint q)))"
      using False by (auto simp: planned_as_def split: option.split)
    ultimately show ?thesis using that filt by blast
  next
    case True
    let ?hint = "case q_hint q of None \<Rightarrow> Some Hint_TableScan | Some h \<Rightarrow> Some h"
    have sort: "pl_sort (?plan ?hint) = None"
      and plan: "(case q_after q of Some after \<Rightarrow> resume_after (?plan ?hint) t after = Inr plan | None \<Rightarrow> plan = ?plan ?hint)"
      using assms True filt
      by (auto simp: plan_secured_def row_filter_of_def rbind_eq_Inr Let_def split: if_splits option.splits)
    have "planned_as sr t q filt (q_projection q) (?plan ?hint) (pl_access plan) \<and> plan = (?plan ?hint)\<lparr>pl_access := pl_access plan\<rparr>"
    proof (cases "q_after q")
      case None
      then show ?thesis using plan sort by (auto simp: planned_as_def)
    next
      case (Some key)
      then have res: "resume_after (?plan ?hint) t key = Inr plan" using plan by simp
      then show ?thesis using resume_after_form [OF res] Some True sort unfolding planned_as_def by auto
    qed
    moreover have "(?plan ?hint)\<lparr>pl_access := pl_access plan, pl_concealed := []\<rparr> = (?plan ?hint)\<lparr>pl_access := pl_access plan\<rparr>"
      by (rule nothing_concealed [OF plan_hinted_shown])
    ultimately show ?thesis using that filt by metis
  qed
qed

text \<open>The columns a request names, or all the caller may read.\<close>

definition requested :: "('x, 's, 'w) SecuredReads \<Rightarrow> SecurityContext \<Rightarrow> TableDef \<Rightarrow> ('s, 'w) Query \<Rightarrow> Ordinal set" where
  "requested sr ctx t q =
     (case projection_columns (q_projection q) of
        None \<Rightarrow> {..<length (td_columns t)} - set (concealed (sr_security sr) ctx t)
      | Some columns \<Rightarrow> set columns)"

lemma outputs_requested:
  assumes "planned_as sr t q filt projection base_plan access"
  shows "projection_columns projection = None \<Longrightarrow> {..<length (td_columns t)} \<subseteq> cs_set (pl_output_columns base_plan)"
    and "projection_columns projection = Some columns \<Longrightarrow>
      set columns \<inter> {..<length (td_columns t)} \<subseteq> cs_set (pl_output_columns base_plan)"
  using assms by (auto simp: planned_as_def plan_hinted_def Let_def fold_insert ColumnSet_all_def split: prod.splits)

lemma readable_finite:
  assumes "\<forall>g\<in>set (sc_grants s). gr_table g = td_id t \<longrightarrow> grant_ok t g" and "readable s ctx t = Some cols"
  shows "finite cols"
proof -
  have "cols = (\<Union>g\<in>set (held_reads s ctx t). the (gr_columns g))" "\<forall>g\<in>set (held_reads s ctx t). gr_columns g \<noteq> None"
    using assms(2) by (auto simp: readable_eq Let_def split: if_splits)
  moreover have "finite (the (gr_columns g))" if "g \<in> set (held_reads s ctx t)" "gr_columns g \<noteq> None" for g
    using that assms(1) finite_subset [of _ "{..<length (td_columns t)}"] by (auto simp: held_reads_def grant_ok_def)
  ultimately show ?thesis by auto
qed

lemma plan_query_form:
  assumes "plan_query sr ctx t q = Inr plan" and "q_window q = []"
    and "\<forall>g\<in>set (sc_grants (sr_security sr)). gr_table g = td_id t \<longrightarrow> grant_ok t g"
  obtains filt base_plan projection access where "row_filter_of sr ctx t q = Inr filt"
    and "planned_as sr t q filt projection base_plan access"
    and "plan = base_plan\<lparr>pl_access := access, pl_concealed := concealed (sr_security sr) ctx t\<rparr>"
    and "requested sr ctx t q \<inter> {..<length (td_columns t)} \<subseteq> cs_set (pl_output_columns plan)"
proof (cases "readable (sr_security sr) ctx t")
  case None
  then have hidden: "concealed (sr_security sr) ctx t = []" by (simp add: concealed_def)
  have "plan_secured sr ctx t q = Inr plan" using assms(1) None by (auto simp: plan_query_def rbind_eq_Inr)
  then obtain filt base_plan access where p: "row_filter_of sr ctx t q = Inr filt"
    "planned_as sr t q filt (q_projection q) base_plan access" "plan = base_plan\<lparr>pl_access := access, pl_concealed := []\<rparr>"
    using plan_secured_form assms(2) by metis
  have "requested sr ctx t q \<inter> {..<length (td_columns t)} \<subseteq> cs_set (pl_output_columns plan)"
    using outputs_requested [OF p(2)] by (cases "projection_columns (q_projection q)") (auto simp: requested_def hidden p(3))
  then show thesis using that [OF p(1,2)] p(3) hidden by simp
next
  case (Some cols)
  let ?q = "readable_projection q cols" and ?hidden = "concealed (sr_security sr) ctx t"
  have same: "q_window ?q = q_window q" "row_filter_of sr ctx t ?q = row_filter_of sr ctx t q"
    "planned_as sr t ?q = planned_as sr t q"
    by (auto simp: readable_projection_def row_filter_of_def planned_as_def planner_for_def planning_limit_def fun_eq_iff split: option.split)
  obtain plan0 where plan0: "plan_secured sr ctx t ?q = Inr plan0" "plan = plan0\<lparr>pl_concealed := ?hidden\<rparr>"
    using assms(1) Some by (auto simp: plan_query_def rbind_eq_Inr)
  obtain filt base_plan access where p: "row_filter_of sr ctx t q = Inr filt"
    "planned_as sr t q filt (q_projection ?q) base_plan access" "plan0 = base_plan\<lparr>pl_access := access, pl_concealed := []\<rparr>"
    using plan_secured_form [OF plan0(1)] assms(2) unfolding same by metis
  have "{..<length (td_columns t)} - set ?hidden \<subseteq> cols" using Some by (auto simp: concealed_def)
  moreover have "finite cols" using assms(3) Some by (rule readable_finite)
  ultimately have "requested sr ctx t q \<inter> {..<length (td_columns t)} \<subseteq> cs_set (pl_output_columns plan)"
    using outputs_requested(2) [OF p(2)]
    by (cases "q_projection q") (auto simp: requested_def readable_projection_def projection_columns_def plan0(2) p(3))
  then show thesis using that [OF p(1,2)] p(3) plan0(2) by simp
qed

section \<open>What an accepted request answers\<close>

text \<open>Which rows a request may see, and which its page begins after.\<close>

definition may_see ::
  "('x, 's, 'w) SecuredReads \<Rightarrow> SecurityContext \<Rightarrow> TableDef \<Rightarrow> ('s, 'w) Query \<Rightarrow> Row \<Rightarrow> bool" where
  "may_see sr ctx t q row \<longleftrightarrow>
     (is_superuser ctx \<or> in_tenant ctx t row \<and> policy_admits (ex_env (sr_exec sr)) (sr_security sr) ctx t Read row) \<and>
     (q_include_deleted q \<or> \<not> retired t row)"

definition past_cursor :: "TableDef \<Rightarrow> ('s, 'w) Query \<Rightarrow> Row \<Rightarrow> bool" where
  "past_cursor t q row \<longleftrightarrow>
     (case q_after q of
        Some key \<Rightarrow> q_paging q \<longrightarrow> walk_less (q_order q) (row_key t key) (key_of t row)
      | None \<Rightarrow> True)"

lemma conjuncts_and: "set (conjuncts (expr_and a b)) \<subseteq> set (conjuncts a) \<union> set (conjuncts b)"
  by (auto simp: expr_and_def split: Expr.splits if_splits)

lemma expr_wf_and: "expr_wf a \<Longrightarrow> expr_wf b \<Longrightarrow> expr_wf (expr_and a b)"
  by (auto simp: expr_and_def split: Expr.splits)

lemma literals_and: "literals_ok t a \<Longrightarrow> literals_ok t b \<Longrightarrow> literals_ok t (expr_and a b)"
  using conjuncts_and [of a b] unfolding literals_ok_def by blast

lemma resumed_walkable:
  assumes "walkable u pn cx t (pl_access p)" and "resume_after p t key = Inr p'"
  shows "walkable u pn cx t (pl_access p')"
  using assms by (auto simp: walkable_def resume_after_def Let_def split: if_splits Access.splits ScanOrder.splits)

lemma resumed_walk:
  assumes "resume_after p t key = Inr p'" and "reaches u t a (pl_access p')"
  shows "walks_before u t ord (pl_access p') a b = walks_before u t ord (pl_access p) a b"
  using assms by (auto simp: walks_before_def resume_after_def reaches_def Let_def split: if_splits Access.splits)

text \<open>What the reads run over: a transaction of the memory store, with a heap that pops a greatest element.\<close>

definition reads_transaction ::
  "(MemoryTransaction \<times> Shared, 's, 'w) SecuredReads \<Rightarrow> (MemoryTransaction \<times> Shared) RecordStore \<Rightarrow>
     (MemoryTransaction \<times> Shared) RecordTransaction \<Rightarrow> bool" where
  "reads_transaction sr rs st \<longleftrightarrow>
     ex_kv (sr_exec sr) = memory_kv \<and> ex_snapshot (sr_exec sr) = rt_txn st \<and> ex_env (sr_exec sr) = rs_env rs \<and>
     sized (memory_view (rt_txn st)) \<and> pops_greatest (ex_pop (sr_exec sr))"

text \<open>What is asked of a request: what its parameters say of expressions is true, literals are well formed
  and those that fix a key column are of the column's type, in the request and in the caller's filter,
  the filter reads columns of the table, values computed from the rows are well formed, and no ceiling
  of the execution is met.\<close>

definition request_ok ::
  "('x, 's, 'w) SecuredReads \<Rightarrow> SecurityContext \<Rightarrow> TableDef \<Rightarrow> Row set \<Rightarrow> ('s, 'w) Query \<Rightarrow> bool" where
  "request_ok sr ctx t R q \<longleftrightarrow>
     (let ex = sr_exec sr; pn = planner_for sr t q in
      text_ascending t \<and> planner_ok pn (ex_env ex) (ex_eval ex) t \<and> expressions_ok pn t \<and> reads_only pn (ex_eval ex) \<and>
      expr_wf (q_filter q) \<and> literals_ok t (q_filter q) \<and>
      (\<forall>filt. row_filter_of sr ctx t q = Inr filt \<longrightarrow>
         expr_wf filt \<and> literals_ok t filt \<and> expr_columns filt \<subseteq> {..<length (td_columns t)}) \<and>
      (\<forall>g\<in>set (sc_grants (sr_security sr)). gr_table g = td_id t \<longrightarrow> grant_ok t g) \<and>
      (\<forall>row\<in>R. list_all wf_value (extend_row (ex_eval ex) row (q_compute q) [] None)) \<and>
      q_window q = [] \<and> card R < 2 ^ 64 \<and> widest_in_list (q_filter q) \<le> max_in_values (sr_limits sr) \<and>
      (q_limit q = None \<longrightarrow> card R \<le> max_sort_rows (sr_limits sr)))"

lemma transaction_ready:
  assumes "serves memory_ok memory_view rs D st" and "t \<in> set (cat_tables (rs_catalog rs))" and "reads_transaction sr rs st"
    and "request_ok sr ctx t (D (td_id t)) q" and "row_filter_of sr ctx t q = Inr filt"
  shows "query_ready (sr_exec sr) (planner_for sr t q) t (D (td_id t)) (memory_view (rt_txn st)) (expr_and (q_filter q) filt) (q_compute q)"
proof -
  have ok: "memory_ok (rt_txn st)" "table_ok t" "unicode_ok (env_unicode (rs_env rs))"
    "represents (env_unicode (rs_env rs)) t (D (td_id t)) (memory_view (rt_txn st))"
    using assms(1,2) by (auto simp: serves_def healthy_def schema_ok_def database_of_def)
  then have "reads_from (sr_exec sr) (memory_view (rt_txn st))"
    using memory.get_view [OF ok(1)] memory.scan_view [OF ok(1)] assms(3) by (simp add: reads_from_def reads_transaction_def)
  then show ?thesis
    using ok assms(3-5) expr_wf_and literals_and by (simp add: query_ready_def reads_transaction_def request_ok_def Let_def)
qed

lemma admits_secured:
  assumes "query_ready ex pn t R m (expr_and f filt) compute" and "expr_columns filt \<subseteq> {..<length (td_columns t)}" and "row \<in> R"
  shows "admits_row ex (expr_and f filt) compute row \<longleftrightarrow> admits_row ex f compute row \<and> expr_admits (ex_env ex) filt row"
proof -
  obtain extra where ext: "extend_row (ex_eval ex) row compute [] None = row @ extra" by (rule extend_append)
  have "length row = length (td_columns t)" using ready_row(2) [OF assms(1,3)] row_ok_length by (simp add: stored_ok_def)
  then have "evaluate_over (ex_env ex) (get (row @ extra)) filt = evaluate_over (ex_env ex) (get row) filt"
    using assms(2) by (intro evaluate_agree) (auto simp: get_def nth_append)
  then show ?thesis by (simp add: admits_row_def expr_admits_and ext) (simp add: expr_admits_def evaluate_def)
qed

lemma windowed_map: "windowed limit offset (map f xs) = map f (windowed limit offset xs)"
  by (simp add: windowed_def drop_map take_map split: option.split)

text \<open>The access path of an accepted request reaches, of the rows its predicate admits, those past its cursor.\<close>

lemma planned_reaches:
  assumes "query_ready ex (planner_for sr t q) t R m (expr_and (q_filter q) filt) (q_compute q)"
    and "planned_as sr t q filt projection base_plan access" and "row \<in> R"
    and "admits_row ex (expr_and (q_filter q) filt) (q_compute q) row"
  shows "reaches (env_unicode (ex_env ex)) t row access \<longleftrightarrow> past_cursor t q row"
proof -
  obtain hint where base_plan: "base_plan = plan_hinted (planner_for sr t q) t (expr_and (q_filter q) filt) (q_order q) projection (q_sort q) hint (q_compute q)"
    using assms(2) by (auto simp: planned_as_def)
  have row: "row_ok t row" using ready_row(2) [OF assms(1,3)] by (simp add: stored_ok_def)
  have all: "reaches (env_unicode (ex_env ex)) t row (pl_access base_plan)"
    unfolding base_plan by (rule plan_access_reaches) (use row assms(1,3,4) in \<open>auto simp: query_ready_def admits_row_def\<close>)
  have ord: "pl_order base_plan = q_order q" by (simp add: base_plan plan_hinted_def Let_def split: prod.split)
  show ?thesis
  proof (cases "q_after q")
    case (Some key)
    show ?thesis
    proof (cases "q_paging q")
      case True
      then obtain p where p: "resume_after base_plan t key = Inr p" "access = pl_access p"
        using assms(2) Some by (auto simp: planned_as_def)
      show ?thesis using resume_reaches(2) [OF p(1)] all True Some p(2) ord by (cases "q_order q") (simp_all add: past_cursor_def)
    qed (use assms(2) Some all in \<open>simp add: planned_as_def past_cursor_def\<close>)
  qed (use assms(2) all in \<open>simp add: planned_as_def past_cursor_def\<close>)
qed

lemma planned_paths:
  assumes "planned_as sr t q filt projection base_plan access"
  shows "access = pl_access base_plan \<or> (\<exists>key p. resume_after base_plan t key = Inr p \<and> access = pl_access p)"
  using assms by (auto simp: planned_as_def split: option.splits if_splits)

text \<open>Draining the cursor of an accepted request.\<close>

lemma request_answers:
  assumes "serves memory_ok memory_view rs D st" and "t \<in> set (cat_tables (rs_catalog rs))" and "reads_transaction sr rs st"
    and "request_ok sr ctx t (D (td_id t)) q" and "plan_query sr ctx t q = Inr plan"
  obtains qc found where "execute sr ctx t q = Inr qc" and "distinct found"
    and "set found = {row \<in> D (td_id t). admits_row (sr_exec sr) (q_filter q) (q_compute q) row \<and> may_see sr ctx t q row \<and> past_cursor t q row}"
    and "\<And>row. row \<in> set found \<Longrightarrow> reaches (env_unicode (ex_env (sr_exec sr))) t row (pl_access plan)"
    and "requested sr ctx t q \<inter> {..<length (td_columns t)} \<subseteq> cs_set (pl_output_columns plan)"
    and "sorted_wrt (\<lambda>a b. compare_rows a b (q_sort q) \<noteq> Greater)
      (map (answer (planner_for sr t q) (ex_eval (sr_exec sr)) t (pl_output_columns plan) (q_compute q)) found)"
    and "q_paging q \<Longrightarrow> pl_sort plan = None"
    and "pl_sort plan = None \<Longrightarrow> sorted_wrt (walks_before (env_unicode (ex_env (sr_exec sr))) t (q_order q) (pl_access plan)) found"
    and "collect_rows (sr_exec sr) qc = Inr (map (\<lambda>row. conceal (answer (planner_for sr t q) (ex_eval (sr_exec sr)) t (pl_output_columns plan) (q_compute q) row)
          (concealed (sr_security sr) ctx t)) (windowed (q_limit q) (q_offset q) found))"
    and "count_rows (sr_exec sr) qc = Inr (length (windowed (q_limit q) (q_offset q) found))"
proof -
  let ?ex = "sr_exec sr" and ?pn = "planner_for sr t q" and ?R = "D (td_id t)"
  let ?u = "env_unicode (ex_env ?ex)"
  have window: "q_window q = []" and limits: "card ?R < 2 ^ 64" "widest_in_list (q_filter q) \<le> max_in_values (sr_limits sr)"
    "q_limit q = None \<longrightarrow> card ?R \<le> max_sort_rows (sr_limits sr)"
    and grants: "\<forall>g\<in>set (sc_grants (sr_security sr)). gr_table g = td_id t \<longrightarrow> grant_ok t g"
    using assms(4) by (simp_all add: request_ok_def Let_def)
  obtain filt base_plan projection access where filt: "row_filter_of sr ctx t q = Inr filt"
    and p: "planned_as sr t q filt projection base_plan access"
    and plan: "plan = base_plan\<lparr>pl_access := access, pl_concealed := concealed (sr_security sr) ctx t\<rparr>"
    and shown: "requested sr ctx t q \<inter> {..<length (td_columns t)} \<subseteq> cs_set (pl_output_columns plan)"
    by (rule plan_query_form [OF assms(5) window grants])
  let ?predicate = "expr_and (q_filter q) filt"
  obtain hint where base_plan: "base_plan = plan_hinted ?pn t ?predicate (q_order q) projection (q_sort q) hint (q_compute q)"
    using p by (auto simp: planned_as_def)
  note plan' = plan [unfolded base_plan]
  have ready: "query_ready ?ex ?pn t ?R (memory_view (rt_txn st)) ?predicate (q_compute q)"
    by (rule transaction_ready [OF assms(1-4) filt])
  have "table_ok t" "unicode_ok ?u" "text_ascending t" "expr_wf ?predicate" "literals_ok t ?predicate"
    using ready by (simp_all add: query_ready_def)
  from plan_walkable [OF this] obtain cx where cx: "plan_context t ?predicate projection (q_sort q) (q_compute q) cx"
    "walkable ?u ?pn cx t (pl_access base_plan)" unfolding base_plan by blast
  have access: "pl_access plan = access" and ord: "pl_order plan = q_order q"
    using plan_columns(3) [OF plan'] by (simp_all add: plan)
  have walk: "walkable ?u ?pn cx t (pl_access plan)"
    using planned_paths [OF p] resumed_walkable [OF cx(2)] cx(2) unfolding access by auto
  have "pops_greatest (ex_pop ?ex)" using assms(3) by (simp add: reads_transaction_def)
  from query_answers [OF ready plan' cx(1) walk this limits(1) window limits(2)] limits(3) obtain qc found where
    qc: "open_cursor ?ex ?pn (sr_limits sr) t plan q = Inr qc" "selects ?ex ?pn t ?R ?predicate (q_compute q) plan found"
    "hands_out ?ex q qc (pl_concealed plan) (map (answer ?pn (ex_eval ?ex) t (pl_output_columns plan) (q_compute q)) found)" by blast
  have sel: "admits_row ?ex ?predicate (q_compute q) row \<longleftrightarrow> admits_row ?ex (q_filter q) (q_compute q) row \<and> may_see sr ctx t q row"
    if "row \<in> ?R" for row
  proof -
    have "expr_columns filt \<subseteq> {..<length (td_columns t)}" using assms(4) filt by (simp add: request_ok_def Let_def)
    then show ?thesis
      using admits_secured [OF ready _ that] row_filter_admits [OF filt [unfolded row_filter_of_def], of "ex_env ?ex" row]
      by (auto simp: may_see_def)
  qed
  show thesis
  proof (rule that)
    show "execute sr ctx t q = Inr (with_window (q_limit q) (q_offset q) qc)" using qc(1) assms(5) by (simp add: execute_def)
    show "distinct found" using qc(2) by (simp add: selects_def)
    show "set found = {row \<in> ?R. admits_row ?ex (q_filter q) (q_compute q) row \<and> may_see sr ctx t q row \<and> past_cursor t q row}"
      using qc(2) planned_reaches [OF ready p] sel by (auto simp: selects_def access)
    show "reaches ?u t row (pl_access plan)" if "row \<in> set found" for row using qc(2) that by (simp add: selects_def)
    show "requested sr ctx t q \<inter> {..<length (td_columns t)} \<subseteq> cs_set (pl_output_columns plan)" by (rule shown)
    show "sorted_wrt (\<lambda>a b. compare_rows a b (q_sort q) \<noteq> Greater)
        (map (answer ?pn (ex_eval ?ex) t (pl_output_columns plan) (q_compute q)) found)"
      by (rule selected_order [OF ready plan' _ _ qc(2)])
        (use planned_paths [OF p] resume_reaches(2) resumed_walk in \<open>auto simp: base_plan\<close>)
    show "q_paging q \<Longrightarrow> pl_sort plan = None" using p by (simp add: planned_as_def plan)
    show "pl_sort plan = None \<Longrightarrow> sorted_wrt (walks_before ?u t (q_order q) (pl_access plan)) found"
      using qc(2) by (simp add: selects_def ord)
    show "collect_rows ?ex (with_window (q_limit q) (q_offset q) qc) =
        Inr (map (\<lambda>row. conceal (answer ?pn (ex_eval ?ex) t (pl_output_columns plan) (q_compute q) row)
            (concealed (sr_security sr) ctx t)) (windowed (q_limit q) (q_offset q) found))"
      using qc(3) by (simp add: hands_out_def plan windowed_map)
    show "count_rows ?ex (with_window (q_limit q) (q_offset q) qc) = Inr (length (windowed (q_limit q) (q_offset q) found))"
      using qc(3) by (simp add: hands_out_def windowed_map)
  qed
qed

end
