(* ===== verification/Query_Results.thy ===== *)
theory Query_Results
  imports Query_Secure
begin

text \<open>
  What a caller gets. A request that is accepted answers exactly the rows it asks for and may see, in the
  order it asks for; a cursor continues a page where it ended; and what is withheld from a caller has
  no influence on what they are handed.
\<close>

section \<open>Pages\<close>

lemma resume_concealed:
  "resume_after (p\<lparr>pl_concealed := hidden\<rparr>) t key = rbind (resume_after p t key) (\<lambda>p'. Inr (p'\<lparr>pl_concealed := hidden\<rparr>))"
  by (simp add: resume_after_def Let_def split: Access.split ScanOrder.split)

lemma plan_secured_after:
  assumes "plan_secured sr ctx t q = Inr plan" and "q_paging q" and "q_after q = None" and "q_window q = []"
  shows "plan_secured sr ctx t (q\<lparr>q_after := Some key\<rparr>) = map_err (cursor_error t key) (resume_after plan t key)"
  using assms by (auto simp: plan_secured_def rbind_eq_Inr Let_def planner_for_def planning_limit_def split: if_splits)

lemma plan_query_after:
  assumes "plan_query sr ctx t q = Inr plan" and "q_paging q" and "q_after q = None" and "q_window q = []"
  shows "plan_query sr ctx t (q\<lparr>q_after := Some key\<rparr>) = map_err (cursor_error t key) (resume_after plan t key)"
proof (cases "readable (sr_security sr) ctx t")
  case None
  then show ?thesis using assms plan_secured_after [OF _ assms(2-4)] by (auto simp: plan_query_def rbind_eq_Inr)
next
  case (Some cols)
  let ?q = "readable_projection q cols"
  have q: "q_paging ?q" "q_after ?q = None" "q_window ?q = []"
    "readable_projection (q\<lparr>q_after := Some key\<rparr>) cols = ?q\<lparr>q_after := Some key\<rparr>"
    using assms(2-4) by (simp_all add: readable_projection_def split: option.split)
  obtain plan0 where "plan_secured sr ctx t ?q = Inr plan0" "plan = plan0\<lparr>pl_concealed := concealed (sr_security sr) ctx t\<rparr>"
    using assms(1) Some by (auto simp: plan_query_def rbind_eq_Inr)
  then show ?thesis
    using assms(1) Some plan_secured_after [OF _ q(1-3), of sr ctx t plan0]
    by (auto simp: plan_query_def rbind_eq_Inr q(4) resume_concealed refuse_unreadable_def map_err_def split: sum.splits)
qed

lemma key_sorted_unique:
  assumes "sorted_wrt (\<lambda>a b. walk_less ord (f a) (f b)) xs" and "sorted_wrt (\<lambda>a b. walk_less ord (f a) (f b)) ys" and "set xs = set ys"
  shows "xs = ys"
proof -
  have strict: "map f xs = map f ys \<and> distinct (map f xs)"
  proof (cases ord)
    case Ascending
    then have "sorted_wrt (<) (map f xs)" "sorted_wrt (<) (map f ys)" using assms by (simp_all add: sorted_wrt_map)
    then show ?thesis using assms(3) strict_sorted_equal [of "map f xs" "map f ys"] strict_sorted_iff by auto
  next
    case Descending
    then have "sorted_wrt (<) (rev (map f xs))" "sorted_wrt (<) (rev (map f ys))"
      using assms by (simp_all add: sorted_wrt_map sorted_wrt_rev)
    moreover from this(1) have "distinct (rev (map f xs))" using strict_sorted_iff by blast
    ultimately show ?thesis using assms(3) strict_sorted_equal [of "rev (map f xs)" "rev (map f ys)"] by simp
  qed
  then have "inj_on f (set xs \<union> set ys)" using assms(3) by (simp add: distinct_map)
  then show ?thesis using strict map_inj_on by blast
qed

lemma walk_less_order: "\<not> walk_less ord k k" "walk_less ord k l \<Longrightarrow> \<not> walk_less ord l k"
  by (cases ord; auto)+

lemma past_nth:
  assumes "sorted_wrt (\<lambda>a b. walk_less ord (f a) (f b)) xs" and "i < length xs"
  shows "{x \<in> set xs. walk_less ord (f (xs ! i)) (f x)} = set (drop (Suc i) xs)"
proof -
  have split: "xs = take i xs @ xs ! i # drop (Suc i) xs" using assms(2) by (rule id_take_nth_drop)
  have "sorted_wrt (\<lambda>a b. walk_less ord (f a) (f b)) (take i xs @ xs ! i # drop (Suc i) xs)" using assms(1) split by simp
  then have before: "\<And>x. x \<in> set (take i xs) \<Longrightarrow> walk_less ord (f x) (f (xs ! i))"
    and after: "\<And>x. x \<in> set (drop (Suc i) xs) \<Longrightarrow> walk_less ord (f (xs ! i)) (f x)"
    by (auto simp: sorted_wrt_append)
  have "set xs = set (take i xs) \<union> insert (xs ! i) (set (drop (Suc i) xs))" by (subst split) simp
  then show ?thesis using before after walk_less_order by blast
qed

text \<open>The rows of a page walk up the table's own keys, or are at most one.\<close>

definition keyed_path :: "Access \<Rightarrow> bool" where
  "keyed_path access \<longleftrightarrow> (case access of TableScan _ \<Rightarrow> True | PointGet _ \<Rightarrow> True | Access_Nothing \<Rightarrow> True | _ \<Rightarrow> False)"

lemma resume_keyed: "resume_after p t key = Inr p' \<Longrightarrow> keyed_path (pl_access p) \<and> keyed_path (pl_access p')"
  by (auto simp: keyed_path_def resume_after_def Let_def split: if_splits Access.splits)

lemma keyed_order:
  assumes "query_ready ex pn t R m predicate compute" and "keyed_path access" and "distinct found" and "set found \<subseteq> R"
    and reached: "\<And>row. row \<in> set found \<Longrightarrow> reaches u t row access" and "sorted_wrt (walks_before u t ord access) found"
  shows "sorted_wrt (\<lambda>a b. walk_less ord (key_of t a) (key_of t b)) found"
proof (cases access)
  case (TableScan r)
  have "walks_before u t ord (TableScan r) = (\<lambda>a b. walk_less ord (key_of t a) (key_of t b))"
    by (simp add: walks_before_def fun_eq_iff)
  then show ?thesis using assms(6) TableScan by simp
next
  case (PointGet one)
  have "a = b" if "a \<in> set found" "b \<in> set found" for a b
  proof (rule same_key_row [OF assms(1)])
    show "a \<in> R" "b \<in> R" using that assms(4) by auto
    show "key_of t a = key_of t b" using reached [OF that(1)] reached [OF that(2)] PointGet by (simp add: reaches_def)
  qed
  then have "\<forall>a\<in>set found. \<forall>b\<in>set found. a = b" by blast
  then have "found = [] \<or> (\<exists>a. found = [a])" using assms(3)
    by (metis distinct_length_2_or_more list.set_intros(1) list.set_intros(2) remdups_adj.cases)
  then show ?thesis by auto
next
  case Access_Nothing
  then have "found = []" using reached by (cases found) (auto simp: reaches_def)
  then show ?thesis by simp
qed (use assms(2) in \<open>simp_all add: keyed_path_def\<close>)

text \<open>The rows a request finds, drained through its own shape of a row.\<close>

definition request_shape :: "('x, 's, 'w) SecuredReads \<Rightarrow> SecurityContext \<Rightarrow> TableDef \<Rightarrow> ('s, 'w) Query \<Rightarrow> ColumnSet \<Rightarrow> Row \<Rightarrow> Row" where
  "request_shape sr ctx t q out row =
     conceal (answer (planner_for sr t q) (ex_eval (sr_exec sr)) t out (q_compute q) row) (concealed (sr_security sr) ctx t)"

definition finds ::
  "('x, 's, 'w) SecuredReads \<Rightarrow> SecurityContext \<Rightarrow> TableDef \<Rightarrow> Row set \<Rightarrow> ('s, 'w) Query \<Rightarrow> Row set" where
  "finds sr ctx t R q = {row \<in> R. admits_row (sr_exec sr) (q_filter q) (q_compute q) row \<and> may_see sr ctx t q row}"

lemma paged_answers:
  assumes "serves memory_ok memory_view rs D st" and "t \<in> set (cat_tables (rs_catalog rs))" and "reads_transaction sr rs st"
    and "request_ok sr ctx t (D (td_id t)) q" and "plan_query sr ctx t q = Inr plan" and "q_paging q"
  obtains qc found where "execute sr ctx t q = Inr qc" and "distinct found"
    and "set found = {row \<in> finds sr ctx t (D (td_id t)) q. past_cursor t q row}"
    and "collect_rows (sr_exec sr) qc =
      Inr (map (request_shape sr ctx t q (pl_output_columns plan)) (windowed (q_limit q) (q_offset q) found))"
    and "keyed_path (pl_access plan) \<Longrightarrow> sorted_wrt (\<lambda>a b. walk_less (q_order q) (key_of t a) (key_of t b)) found"
proof -
  let ?u = "env_unicode (ex_env (sr_exec sr))"
  obtain qc found where qc: "execute sr ctx t q = Inr qc" "distinct found"
    "set found = {row \<in> D (td_id t). admits_row (sr_exec sr) (q_filter q) (q_compute q) row \<and> may_see sr ctx t q row \<and> past_cursor t q row}"
    "\<And>row. row \<in> set found \<Longrightarrow> reaches ?u t row (pl_access plan)"
    "q_paging q \<Longrightarrow> pl_sort plan = None"
    "pl_sort plan = None \<Longrightarrow> sorted_wrt (walks_before ?u t (q_order q) (pl_access plan)) found"
    "collect_rows (sr_exec sr) qc = Inr (map (\<lambda>row. conceal (answer (planner_for sr t q) (ex_eval (sr_exec sr)) t
        (pl_output_columns plan) (q_compute q) row) (concealed (sr_security sr) ctx t)) (windowed (q_limit q) (q_offset q) found))"
    by (rule request_answers [OF assms(1-5)]) (rule that)
  have "q_window q = []" "\<forall>g\<in>set (sc_grants (sr_security sr)). gr_table g = td_id t \<longrightarrow> grant_ok t g"
    using assms(4) by (simp_all add: request_ok_def Let_def)
  then obtain filt where "row_filter_of sr ctx t q = Inr filt" using plan_query_form [OF assms(5)] by metis
  note ready = transaction_ready [OF assms(1-4) this]
  have keyed: "sorted_wrt (\<lambda>a b. walk_less (q_order q) (key_of t a) (key_of t b)) found" if "keyed_path (pl_access plan)"
    by (rule keyed_order [OF ready that qc(2) _ qc(4) qc(6) [OF qc(5) [OF assms(6)]]]) (use qc(3) in auto)
  show thesis by (rule that [OF qc(1,2) _ _ keyed]) (use qc(3,7) in \<open>auto simp: finds_def request_shape_def [abs_def]\<close>)
qed

lemma cursor_free:
  "request_ok sr ctx t R (q\<lparr>q_after := key\<rparr>) = request_ok sr ctx t R q"
  "finds sr ctx t R (q\<lparr>q_after := key\<rparr>) = finds sr ctx t R q"
  "request_shape sr ctx t (q\<lparr>q_after := key\<rparr>) out = request_shape sr ctx t q out"
  by (simp_all add: request_ok_def finds_def may_see_def request_shape_def [abs_def] planner_for_def planning_limit_def row_filter_of_def)

text \<open>C9. Paging neither loses nor repeats a row. Where a paged request is accepted, its rows form one
  list, of which the first page is the window the request asks for; and for every row of the list the
  request that carries the row's key as its cursor is either refused, with an error about the cursor,
  or returns the same window of the rest of the list, the rows after that one.\<close>

theorem pages_continue:
  assumes "serves memory_ok memory_view rs D st" and "t \<in> set (cat_tables (rs_catalog rs))" and "reads_transaction sr rs st"
    and "request_ok sr ctx t (D (td_id t)) q" and "plan_query sr ctx t q = Inr plan" and "q_paging q" and "q_after q = None"
  shows "\<exists>qc found out. execute sr ctx t q = Inr qc \<and> distinct found \<and> set found = finds sr ctx t (D (td_id t)) q \<and>
    collect_rows (sr_exec sr) qc = Inr (map (request_shape sr ctx t q out) (windowed (q_limit q) (q_offset q) found)) \<and>
    (\<forall>i<length found.
       case execute sr ctx t (q\<lparr>q_after := Some (primary_key_values (found ! i) t)\<rparr>) of
         Inl e \<Rightarrow> \<exists>reason. e = InvalidCursor (td_name t) reason
       | Inr qc' \<Rightarrow> collect_rows (sr_exec sr) qc' =
           Inr (map (request_shape sr ctx t q out) (windowed (q_limit q) (q_offset q) (drop (Suc i) found))))"
proof -
  let ?shape = "request_shape sr ctx t q (pl_output_columns plan)"
  have window: "q_window q = []" using assms(4) by (simp add: request_ok_def Let_def)
  obtain qc found where qc: "execute sr ctx t q = Inr qc" "distinct found"
    "set found = {row \<in> finds sr ctx t (D (td_id t)) q. past_cursor t q row}"
    "collect_rows (sr_exec sr) qc = Inr (map ?shape (windowed (q_limit q) (q_offset q) found))"
    "keyed_path (pl_access plan) \<Longrightarrow> sorted_wrt (\<lambda>a b. walk_less (q_order q) (key_of t a) (key_of t b)) found"
    by (rule paged_answers [OF assms(1-6)]) (rule that)
  have all: "set found = finds sr ctx t (D (td_id t)) q" using qc(3) assms(7) by (simp add: past_cursor_def)
  have "case execute sr ctx t (q\<lparr>q_after := Some (primary_key_values (found ! i) t)\<rparr>) of
         Inl e \<Rightarrow> \<exists>reason. e = InvalidCursor (td_name t) reason
       | Inr qc' \<Rightarrow> collect_rows (sr_exec sr) qc' = Inr (map ?shape (windowed (q_limit q) (q_offset q) (drop (Suc i) found)))"
    if i: "i < length found" for i
  proof (cases "resume_after plan t (primary_key_values (found ! i) t)")
    case (Inl fault)
    then show ?thesis using plan_query_after [OF assms(5-7) window] by (simp add: execute_def cursor_error_def)
  next
    case (Inr plan')
    let ?q = "q\<lparr>q_after := Some (primary_key_values (found ! i) t)\<rparr>"
    have plan': "plan_query sr ctx t ?q = Inr plan'" using Inr plan_query_after [OF assms(5-7) window] by simp
    have "pl_output_columns plan' = pl_output_columns plan" by (subst resume_after_form [OF Inr]) simp
    then have same: "request_ok sr ctx t (D (td_id t)) ?q" "q_paging ?q"
      "request_shape sr ctx t ?q (pl_output_columns plan') = ?shape"
      using assms(4,6) by (simp_all add: cursor_free)
    obtain qc' found' where qc': "execute sr ctx t ?q = Inr qc'" "distinct found'"
      "set found' = {row \<in> finds sr ctx t (D (td_id t)) ?q. past_cursor t ?q row}"
      "collect_rows (sr_exec sr) qc' = Inr (map ?shape (windowed (q_limit ?q) (q_offset ?q) found'))"
      "keyed_path (pl_access plan') \<Longrightarrow> sorted_wrt (\<lambda>a b. walk_less (q_order ?q) (key_of t a) (key_of t b)) found'"
      by (rule paged_answers [OF assms(1-3) same(1) plan' same(2), unfolded same(3)]) (rule that)
    note sorted = qc(5) [OF conjunct1 [OF resume_keyed [OF Inr]]]
    have "set found' = set (drop (Suc i) found)"
      using past_nth [OF sorted i] all qc'(3) assms(6) by (simp add: cursor_free past_cursor_def)
    then have "found' = drop (Suc i) found"
      using key_sorted_unique [OF _ sorted_wrt_drop [OF sorted]] qc'(5) [OF conjunct2 [OF resume_keyed [OF Inr]]] by simp
    then show ?thesis using qc'(1,4) by simp
  qed
  then show ?thesis using qc(1,2,4) all by (intro exI [of _ qc] exI [of _ found] exI [of _ "pl_output_columns plan"]) blast
qed

section \<open>What a request returns\<close>

text \<open>C2. A secured query is exact. Over a transaction of the memory store, whichever access path the
  planner takes, an accepted request runs, and draining its cursor gives, for exactly the rows of the
  table that its filter admits, that the caller's tenant, policies and view of retired rows allow, and
  that lie past its cursor, each once, the row with its computed values, with at least the columns
  asked for, and with every withheld column null, in the order asked for, cut to the window of the
  limit and the offset; counting the cursor counts the same rows.\<close>

theorem secured_query_exact:
  assumes "serves memory_ok memory_view rs D st" and "t \<in> set (cat_tables (rs_catalog rs))" and "reads_transaction sr rs st"
    and "request_ok sr ctx t (D (td_id t)) q" and "plan_query sr ctx t q = Inr plan"
  shows "\<exists>qc found out. execute sr ctx t q = Inr qc \<and> distinct found \<and>
    set found = {row \<in> finds sr ctx t (D (td_id t)) q. past_cursor t q row} \<and>
    requested sr ctx t q \<inter> {..<length (td_columns t)} \<subseteq> cs_set out \<and>
    sorted_wrt (\<lambda>a b. compare_rows a b (q_sort q) \<noteq> Greater)
      (map (answer (planner_for sr t q) (ex_eval (sr_exec sr)) t out (q_compute q)) found) \<and>
    collect_rows (sr_exec sr) qc = Inr (map (request_shape sr ctx t q out) (windowed (q_limit q) (q_offset q) found)) \<and>
    count_rows (sr_exec sr) qc = Inr (length (windowed (q_limit q) (q_offset q) found))"
proof -
  obtain qc found where "execute sr ctx t q = Inr qc" "distinct found"
    "set found = {row \<in> D (td_id t). admits_row (sr_exec sr) (q_filter q) (q_compute q) row \<and> may_see sr ctx t q row \<and> past_cursor t q row}"
    "requested sr ctx t q \<inter> {..<length (td_columns t)} \<subseteq> cs_set (pl_output_columns plan)"
    "sorted_wrt (\<lambda>a b. compare_rows a b (q_sort q) \<noteq> Greater)
      (map (answer (planner_for sr t q) (ex_eval (sr_exec sr)) t (pl_output_columns plan) (q_compute q)) found)"
    "collect_rows (sr_exec sr) qc = Inr (map (\<lambda>row. conceal (answer (planner_for sr t q) (ex_eval (sr_exec sr)) t
        (pl_output_columns plan) (q_compute q) row) (concealed (sr_security sr) ctx t)) (windowed (q_limit q) (q_offset q) found))"
    "count_rows (sr_exec sr) qc = Inr (length (windowed (q_limit q) (q_offset q) found))"
    by (rule request_answers [OF assms]) (rule that)
  then show ?thesis
    by (intro exI [of _ qc] exI [of _ found] exI [of _ "pl_output_columns plan"]) (simp add: finds_def request_shape_def [abs_def])
qed

section \<open>Withheld columns\<close>

text \<open>Two rows that agree on what a caller may read.\<close>

definition looks_like :: "TableDef \<Rightarrow> Ordinal list \<Rightarrow> Row \<Rightarrow> Row \<Rightarrow> bool" where
  "looks_like t hidden a b \<longleftrightarrow>
     length a = length (td_columns t) \<and> length b = length (td_columns t) \<and>
     (\<forall>i<length (td_columns t). i \<notin> set hidden \<longrightarrow> a ! i = b ! i)"

text \<open>An accepted request names readable columns only.\<close>

definition names_only :: "('x, 's, 'w) SecuredReads \<Rightarrow> TableDef \<Rightarrow> ('s, 'w) Query \<Rightarrow> Ordinal list \<Rightarrow> bool" where
  "names_only sr t q hidden \<longleftrightarrow>
     (\<forall>c\<in>expr_columns (q_filter q) \<union> sk_column ` set (q_sort q) \<union> \<Union> (sr_columns sr ` set (q_compute q)).
        c < length (td_columns t) \<longrightarrow> c \<notin> set hidden)"

lemma accepted_names:
  assumes "plan_query sr ctx t q = Inr plan"
  shows "names_only sr t q (concealed (sr_security sr) ctx t)"
proof (cases "readable (sr_security sr) ctx t")
  case (Some cols)
  then have "refuse_unreadable sr t q cols ''this read'' = Inr ()" using assms by (auto simp: plan_query_def rbind_eq_Inr)
  then show ?thesis using Some by (auto simp: refuse_unreadable_def Let_def names_only_def concealed_def split: if_splits)
qed (simp add: names_only_def concealed_def)

lemma computed_alike:
  assumes "reads_only pn eval" and "looks_like t hidden a b" and "extend_row eval a compute [] None = a @ xa"
    and "extend_row eval b compute [] None = b @ xb"
    and "\<And>s c. s \<in> set compute \<Longrightarrow> c \<in> pn_columns pn s \<Longrightarrow> c < length (td_columns t) \<Longrightarrow> c \<notin> set hidden"
  shows "xa = xb"
proof -
  obtain ya where ya: "extend_row eval a compute [] None = a @ ya" "length ya = length compute"
    "\<And>k. k < length compute \<Longrightarrow> ya ! k = eval (compute ! k) (a @ take k ya)"
    by (rule extend_append [of eval a compute]) (rule that)
  obtain yb where yb: "extend_row eval b compute [] None = b @ yb" "length yb = length compute"
    "\<And>k. k < length compute \<Longrightarrow> yb ! k = eval (compute ! k) (b @ take k yb)"
    by (rule extend_append [of eval b compute]) (rule that)
  have eqs: "xa = ya" "xb = yb" using assms(3,4) ya(1) yb(1) by simp_all
  have "take k ya = take k yb" if "k \<le> length compute" for k
    using that
  proof (induction k)
    case (Suc k)
    have len: "length a = length b" "length a = length (td_columns t)" using assms(2) by (simp_all add: looks_like_def)
    have "eval (compute ! k) (a @ take k ya) = eval (compute ! k) (b @ take k yb)"
    proof -
      have "get (a @ take k ya) c = get (b @ take k yb) c" if c: "c \<in> pn_columns pn (compute ! k)" for c
      proof (cases "c < length (td_columns t)")
        case True
        then have "c \<notin> set hidden" using assms(5) [OF _ c] Suc.prems by simp
        then show ?thesis using assms(2) True len by (simp add: looks_like_def get_def nth_append)
      qed (use Suc len in \<open>simp add: get_def nth_append\<close>)
      then show ?thesis using assms(1) by (auto simp: reads_only_def)
    qed
    then show ?case using Suc ya(2,3) yb(2,3) by (simp add: take_Suc_conv_app_nth)
  qed simp
  from this [of "length compute"] show ?thesis using ya(2) yb(2) eqs by simp
qed

lemma seen_alike:
  assumes "names_only sr t q hidden" and "reads_only (planner_for sr t q) (ex_eval (sr_exec sr))" and "looks_like t hidden a b"
  shows "admits_row (sr_exec sr) (q_filter q) (q_compute q) a = admits_row (sr_exec sr) (q_filter q) (q_compute q) b"
    and "conceal (answer (planner_for sr t q) (ex_eval (sr_exec sr)) t out (q_compute q) a) hidden =
      conceal (answer (planner_for sr t q) (ex_eval (sr_exec sr)) t out (q_compute q) b) hidden"
proof -
  let ?eval = "ex_eval (sr_exec sr)"
  obtain xa xb where ext: "extend_row ?eval a (q_compute q) [] None = a @ xa" "extend_row ?eval b (q_compute q) [] None = b @ xb"
    using extend_append by metis
  have "c \<notin> set hidden" if "s \<in> set (q_compute q)" "c \<in> pn_columns (planner_for sr t q) s" "c < length (td_columns t)" for s c
    using assms(1) that unfolding names_only_def planner_for_def by auto
  from computed_alike [OF assms(2,3) ext this] have x: "xb = xa" by simp
  have len: "length a = length b" "length a = length (td_columns t)" using assms(3) by (simp_all add: looks_like_def)
  have "evaluate_over (ex_env (sr_exec sr)) (get (a @ xa)) (q_filter q) = evaluate_over (ex_env (sr_exec sr)) (get (b @ xa)) (q_filter q)"
    using assms(1,3) len by (intro evaluate_agree) (auto simp: names_only_def looks_like_def get_def nth_append)
  then show "admits_row (sr_exec sr) (q_filter q) (q_compute q) a = admits_row (sr_exec sr) (q_filter q) (q_compute q) b"
    by (simp add: admits_row_def ext x expr_admits_def evaluate_def)
  show "conceal (answer (planner_for sr t q) ?eval t out (q_compute q) a) hidden =
      conceal (answer (planner_for sr t q) ?eval t out (q_compute q) b) hidden"
    using assms(3) len by (auto simp: conceal_nth answer_def ext x nth_append blank_def looks_like_def)
qed

text \<open>The columns a plan returns do not depend on the statistics.\<close>

definition outputs_of :: "TableDef \<Rightarrow> Expr \<Rightarrow> Projection \<Rightarrow> SortKey list \<Rightarrow> ColumnSet" where
  "outputs_of t predicate projection sort_keys =
     pl_output_columns (plan_hinted (\<lparr>pn_columns = \<lambda>_. {}, pn_predicate = \<lambda>_. None, pn_expression = \<lambda>_. None, pn_term_rank = \<lambda>_ _. 0,
       pn_cheaper = \<lambda>_ _. False, pn_filter_first = \<lambda>_. False\<rparr> :: unit Planner) t predicate Ascending projection sort_keys None [])"

lemma plan_hinted_outputs:
  "pl_output_columns (plan_hinted pn t predicate ord projection sort_keys hint compute) = outputs_of t predicate projection sort_keys"
  by (simp add: outputs_of_def plan_hinted_def Let_def split: prod.split)

lemma plan_query_outputs:
  assumes "plan_query sr ctx t q = Inr plan" and "q_window q = []" and "row_filter_of sr ctx t q = Inr filt"
  shows "pl_output_columns plan = outputs_of t (expr_and (q_filter q) filt)
    (case readable (sr_security sr) ctx t of None \<Rightarrow> q_projection q | Some cols \<Rightarrow> q_projection (readable_projection q cols)) (q_sort q)"
proof -
  have secured: "pl_output_columns p = outputs_of t (expr_and (q_filter q') filt) (q_projection q') (q_sort q')"
    if p: "plan_secured sr ctx t q' = Inr p" and w: "q_window q' = []" and filt: "row_filter_of sr ctx t q' = Inr filt" for q' p
  proof -
    obtain filt' base_plan access where f: "row_filter_of sr ctx t q' = Inr filt'"
      "planned_as sr t q' filt' (q_projection q') base_plan access" "p = base_plan\<lparr>pl_access := access, pl_concealed := []\<rparr>"
      using plan_secured_form [OF p w] by metis
    then show ?thesis using filt by (auto simp: planned_as_def plan_hinted_outputs)
  qed
  show ?thesis
  proof (cases "readable (sr_security sr) ctx t")
    case None
    then show ?thesis using assms secured by (auto simp: plan_query_def rbind_eq_Inr)
  next
    case (Some cols)
    let ?q = "readable_projection q cols"
    have q: "q_window ?q = []" "row_filter_of sr ctx t ?q = Inr filt" "q_filter ?q = q_filter q" "q_sort ?q = q_sort q"
      using assms(2,3) by (auto simp: readable_projection_def row_filter_of_def split: option.split)
    then show ?thesis using assms(1) Some secured [of ?q] by (auto simp: plan_query_def rbind_eq_Inr)
  qed
qed

text \<open>C10. What is withheld from a caller has no influence on what they are handed. Take two states of the
  store whose rows correspond one to one and differ in columns withheld from the caller only, and which
  the row filters judge alike: an unlimited request that is accepted over both, whatever the statistics
  make of its plan, returns the same rows, each as often, and so the same count.\<close>

theorem withheld_has_no_influence:
  assumes "serves memory_ok memory_view rs D st" and "serves memory_ok memory_view rs D' st'"
    and "t \<in> set (cat_tables (rs_catalog rs))" and "reads_transaction sr rs st"
    and other: "sr' = sr\<lparr>sr_exec := (sr_exec sr)\<lparr>ex_snapshot := rt_txn st'\<rparr>, sr_statistics := statistics'\<rparr>"
    and "sized (memory_view (rt_txn st'))"
    and "request_ok sr ctx t (D (td_id t)) q" and "request_ok sr' ctx t (D' (td_id t)) q"
    and "plan_query sr ctx t q = Inr plan" and "plan_query sr' ctx t q = Inr plan'"
    and "q_after q = None" and "q_limit q = None" and "q_offset q = 0"
    and "bij_betw f (D (td_id t)) (D' (td_id t))"
    and alike: "\<And>row. row \<in> D (td_id t) \<Longrightarrow> looks_like t (concealed (sr_security sr) ctx t) row (f row) \<and>
      may_see sr ctx t q (f row) = may_see sr ctx t q row"
  shows "\<exists>qc qc' rows rows'. execute sr ctx t q = Inr qc \<and> execute sr' ctx t q = Inr qc' \<and>
    collect_rows (sr_exec sr) qc = Inr rows \<and> collect_rows (sr_exec sr') qc' = Inr rows' \<and> mset rows = mset rows'"
proof -
  let ?R = "D (td_id t)" and ?R' = "D' (td_id t)"
  have reads': "reads_transaction sr' rs st'" using assms(4,6) by (simp add: reads_transaction_def other)
  have same: "ex_eval (sr_exec sr') = ex_eval (sr_exec sr)" "sr_security sr' = sr_security sr" "may_see sr' ctx t q = may_see sr ctx t q"
    "admits_row (sr_exec sr') (q_filter q) (q_compute q) = admits_row (sr_exec sr) (q_filter q) (q_compute q)"
    "row_filter_of sr' ctx t q = row_filter_of sr ctx t q"
    by (simp_all add: other may_see_def admits_row_def row_filter_of_def fun_eq_iff)
  have ok: "q_window q = []" "\<forall>g\<in>set (sc_grants (sr_security sr)). gr_table g = td_id t \<longrightarrow> grant_ok t g"
    "reads_only (planner_for sr t q) (ex_eval (sr_exec sr))"
    using assms(7) by (simp_all add: request_ok_def Let_def)
  obtain filt where filt: "row_filter_of sr ctx t q = Inr filt" using plan_query_form [OF assms(9) ok(1,2)] by metis
  have out: "pl_output_columns plan' = pl_output_columns plan"
    using plan_query_outputs [OF assms(9) ok(1) filt] plan_query_outputs [OF assms(10) ok(1), unfolded same, OF filt] by simp
  let ?shape = "request_shape sr ctx t q (pl_output_columns plan)"
  have shape: "request_shape sr' ctx t q (pl_output_columns plan') = ?shape"
    by (simp add: request_shape_def [abs_def] same out answer_def [abs_def] shown_def [abs_def] computes_from_def planner_for_def other)
  have past: "past_cursor t q row" for row using assms(11) by (simp add: past_cursor_def)
  obtain qc found where r: "execute sr ctx t q = Inr qc" "distinct found" "set found = finds sr ctx t ?R q"
    "collect_rows (sr_exec sr) qc = Inr (map ?shape found)"
    by (rule request_answers [OF assms(1,3,4,7,9)])
      (use that past assms(12,13) in \<open>simp add: finds_def request_shape_def [abs_def] windowed_def\<close>)
  obtain qc' found' where r': "execute sr' ctx t q = Inr qc'" "distinct found'" "set found' = finds sr ctx t ?R' q"
    "collect_rows (sr_exec sr') qc' = Inr (map ?shape found')"
    unfolding shape [symmetric]
    by (rule request_answers [OF assms(2,3) reads' assms(8,10)])
      (use that past assms(12,13) same in \<open>simp add: finds_def request_shape_def [abs_def] windowed_def\<close>)
  note alike' = seen_alike [OF accepted_names [OF assms(9)] ok(3) conjunct1 [OF alike]]
  have inj: "inj_on f (finds sr ctx t ?R q)" using assms(14) by (auto simp: bij_betw_def finds_def inj_on_def)
  have image: "finds sr ctx t ?R' q = f ` finds sr ctx t ?R q"
  proof -
    have "?R' = f ` ?R" using assms(14) by (simp add: bij_betw_def)
    moreover have "f row \<in> finds sr ctx t (f ` ?R) q \<longleftrightarrow> row \<in> finds sr ctx t ?R q" if "row \<in> ?R" for row
      using that alike [OF that] alike'(1) [OF that] by (simp add: finds_def)
    ultimately show ?thesis by (auto simp: finds_def)
  qed
  have "mset (map ?shape found') = image_mset ?shape (mset_set (finds sr ctx t ?R' q))"
    using r'(2,3) by (metis mset_map mset_set_set)
  also have "\<dots> = image_mset (\<lambda>row. ?shape (f row)) (mset_set (finds sr ctx t ?R q))"
    unfolding image image_mset_mset_set [OF inj, symmetric] by (simp add: multiset.map_comp comp_def)
  also have "\<dots> = image_mset ?shape (mset_set (finds sr ctx t ?R q))"
  proof (rule image_mset_cong)
    fix row
    assume "row \<in># mset_set (finds sr ctx t ?R q)"
    then have "row \<in> finds sr ctx t ?R q" by (metis elem_mset_set empty_iff infinite_set_mset_mset_set)
    then show "?shape (f row) = ?shape row" using alike'(2) by (simp add: request_shape_def finds_def)
  qed
  also have "\<dots> = mset (map ?shape found)" using r(2,3) by (metis mset_map mset_set_set)
  finally show ?thesis using r(1,4) r'(1,4) by auto
qed

section \<open>Examples\<close>

text \<open>A heap that pops the first of its greatest elements.\<close>

definition pop_greatest :: "('a \<Rightarrow> 'a \<Rightarrow> ordering) \<Rightarrow> 'a list \<Rightarrow> 'a \<times> 'a list" where
  "pop_greatest cmp heap =
     (let top = fold (\<lambda>y best. if cmp y best = Greater then y else best) heap (hd heap) in (top, remove1 top heap))"

context total_comparison
begin

lemma fold_greatest:
  "list_all ok ys \<Longrightarrow> ok b \<Longrightarrow>
     (let top = fold (\<lambda>y best. if cmp y best = Greater then y else best) ys b
      in top \<in> insert b (set ys) \<and> (\<forall>y\<in>insert b (set ys). cmp y top \<noteq> Greater))"
proof (induction ys arbitrary: b)
  case Nil
  then show ?case using refl by simp
next
  case (Cons y ys)
  define b' where "b' = (if cmp y b = Greater then y else b)"
  define top where "top = fold (\<lambda>y best. if cmp y best = Greater then y else best) ys b'"
  have ok: "ok b'" "ok y" "ok b" "list_all ok ys" using Cons.prems by (simp_all add: b'_def)
  have top: "top \<in> insert b' (set ys)" "\<forall>z\<in>insert b' (set ys). cmp z top \<noteq> Greater"
    using Cons.IH [OF ok(4,1)] by (simp_all add: Let_def top_def)
  have "ok top" using top(1) ok(1,4) unfolding list_all_iff by blast
  moreover have "cmp b b' \<noteq> Greater \<and> cmp y b' \<noteq> Greater"
  proof (cases "cmp y b = Greater")
    case True
    then show ?thesis using refl [OF ok(2)] antisym [OF ok(2,3)] by (simp add: b'_def)
  qed (use refl [OF ok(3)] in \<open>simp add: b'_def\<close>)
  ultimately have "cmp b top \<noteq> Greater" "cmp y top \<noteq> Greater" using trans [OF ok(3,1)] trans [OF ok(2,1)] top(2) by blast+
  moreover have "fold (\<lambda>y best. if cmp y best = Greater then y else best) (y # ys) b = top" by (simp add: top_def b'_def)
  moreover have "top \<in> insert b (set (y # ys))" using top(1) by (auto simp: b'_def split: if_splits)
  ultimately show ?case using top(2) unfolding Let_def by (metis insert_iff list.simps(15))
qed

end

lemma pop_greatest_ok: "pops_greatest pop_greatest"
  unfolding pops_greatest_def
proof (intro allI impI)
  fix ok cmp and heap :: "'a list"
  assume "total_comparison ok cmp" and heap: "list_all ok heap" "heap \<noteq> []"
  then have "ok (hd heap)" "insert (hd heap) (set heap) = set heap" by (auto simp: list_all_iff)
  then have "fst (pop_greatest cmp heap) \<in> set heap \<and> (\<forall>y\<in>set heap. cmp y (fst (pop_greatest cmp heap)) \<noteq> Greater)"
    using total_comparison.fold_greatest [OF \<open>total_comparison ok cmp\<close> heap(1), of "hd heap"] by (simp add: pop_greatest_def Let_def)
  then show "mset heap = add_mset (fst (pop_greatest cmp heap)) (mset (snd (pop_greatest cmp heap))) \<and>
      (\<forall>y\<in>set heap. cmp y (fst (pop_greatest cmp heap)) \<noteq> Greater)"
    by (simp add: pop_greatest_def Let_def)
qed

text \<open>Reads over the accounts: the last candidate is always the cheapest.\<close>

definition bank_reads ::
  "SecurityCatalog \<Rightarrow> (MemoryTransaction \<times> Shared) RecordTransaction \<Rightarrow> (MemoryTransaction \<times> Shared, unit, unit) SecuredReads" where
  "bank_reads s st =
     \<lparr>sr_exec = \<lparr>ex_kv = memory_kv, ex_snapshot = rt_txn st, ex_point_in_time = True, ex_env = no_tables, ex_eval = (\<lambda>_ _. Null),
        ex_windows = (\<lambda>_ rows. Inr rows), ex_pop = pop_greatest\<rparr>,
      sr_security = s, sr_statistics = (\<lambda>_ _. last_planner),
      sr_limits = \<lparr>max_groups = 8, max_distinct = 8, max_sort_rows = 8, max_window_rows = 8, max_in_values = 8\<rparr>,
      sr_columns = (\<lambda>_. {}), sr_check_scales = (\<lambda>_ _. Inr ()), sr_window_columns = (\<lambda>_. {})\<rparr>"

definition inserted :: "u64 \<Rightarrow> u8 \<Rightarrow> (MemoryTransaction \<times> Shared) RecordTransaction \<Rightarrow> (MemoryTransaction \<times> Shared) RecordTransaction" where
  "inserted i e st = snd (insert_row bank superuser accounts (account i e 0) st)"

lemma account_sizes: "length (encode_body accounts (account 2 0x62 7)) < 2 ^ 64" "row_sound accounts (account 2 0x62 c)"
proof -
  have "encode_body accounts (account 2 0x62 7) = [1, 0, 0, 0, 0, 5, 0x62, 0, 0, 0x16, 7]" unfolding accounts_explicit by code_simp
  then show "length (encode_body accounts (account 2 0x62 7)) < 2 ^ 64" by simp
  show "row_sound accounts (account 2 0x62 c)"
    by (simp add: row_sound_def canonical_def accounts_explicit from_utf8_def utf8_decode.simps value_or_null_def get_def account_dir_bytes)
qed

lemma insert_account:
  assumes "serves memory_ok memory_view bank ((\<lambda>_. {})(1 := R)) st" and "row_sound accounts (account i e 0)" and "e < 0x80"
    and "length (encode_body accounts (account i e 7)) < 2 ^ 64"
    and "\<forall>row\<in>R. primary_key_values row accounts \<noteq> [U64 i]"
    and "\<not> collides (env_unicode no_tables) accounts R None (account i e 7) by_email"
  shows "serves memory_ok memory_view bank ((\<lambda>_. {})(1 := insert (account i e 7) R)) (inserted i e st)"
proof -
  let ?D = "(\<lambda>_. {})(1 := R)"
  have "meets memory_ok memory_view bank (insert_row bank superuser accounts (account i e 0)) st
      (insert_spec bank superuser accounts (account i e 0) (account i e 7) None ?D)"
    by (rule memory.insert_meets [OF bank_simps(1) assms(1) _ assms(2)])
      (use assms(4,5) in \<open>simp_all add: row_under_def account_facts account_stamped\<close>)
  moreover have "insert_spec bank superuser accounts (account i e 0) (account i e 7) None ?D = Inr (?D(1 := insert (account i e 7) R))"
    using assms(3,6) by (simp add: insert_spec_def bank_checks [simplified] account_valid finish_spec_def store_spec_def
        account_facts account_indexes others_def)
  ultimately show ?thesis using bank_schema by (auto simp: meets_def serves_def inserted_def)
qed

lemma account_entry:
  "held_entries u accounts by_email (account 2 0x62 7) =
     [\<lparr>en_key = [2, 0, 0, 0, 5, 5, 0x62, 0, 0], en_value = [0x16, 2], en_enforces_uniqueness = True\<rparr>]"
proof -
  have "held_entries u accounts by_email (account 2 0x62 7) =
      [index_entry accounts by_email (index_values (account 2 0x62 7) by_email) (primary_key_values (account 2 0x62 7) accounts)]"
    by (simp add: held_entries_def entries_for_def admits_def key_sets_def key_values_def by_email_def accounts_explicit)
  then show ?thesis unfolding by_email_def accounts_explicit by code_simp
qed

lemma one_inserted:
  "serves memory_ok memory_view bank ((\<lambda>_. {})(1 := {account 1 0x61 7})) (inserted 1 0x61 bank_opened)"
  "serves memory_ok memory_view bank ((\<lambda>_. {})(1 := {account 1 0x62 7})) (inserted 1 0x62 bank_opened)"
proof -
  have "(\<lambda>_. {})(1 := {}) = (\<lambda>_ :: TableId. {} :: Row set)" by (simp add: fun_eq_iff)
  then have "serves memory_ok memory_view bank ((\<lambda>_. {})(1 := {})) bank_opened" using bank_serves by simp
  note insert_account [OF this] account_sound account_body
  then show "serves memory_ok memory_view bank ((\<lambda>_. {})(1 := {account 1 0x61 7})) (inserted 1 0x61 bank_opened)"
    "serves memory_ok memory_view bank ((\<lambda>_. {})(1 := {account 1 0x62 7})) (inserted 1 0x62 bank_opened)"
    by (simp_all add: collides_def others_def)
qed

lemma two_inserted:
  "serves memory_ok memory_view bank ((\<lambda>_. {})(1 := {account 2 0x62 7, account 1 0x61 7})) (inserted 2 0x62 (inserted 1 0x61 bank_opened))"
  by (rule insert_account [OF one_inserted(1) account_sizes(2) _ account_sizes(1)])
    (simp_all add: account_facts collides_def others_def account_entries account_entry)

lemma inserted_state:
  "rt_txn (inserted 1 0x61 bank_opened) =
     (\<lparr>snapshot = Some [], started_at = 0,
       pending = [([1, 0, 0, 0, 1, 0x16, 1], Some [1, 0, 0, 0, 0, 5, 0x61, 0, 0, 0x16, 7]),
         ([2, 0, 0, 0, 5, 5, 0x61, 0, 0], Some [0x16, 1])]\<rparr>,
      \<lparr>committed = [], version = 0, history = [], active = [(0, 1)]\<rparr>)"
  "rt_txn (inserted 1 0x62 bank_opened) =
     (\<lparr>snapshot = Some [], started_at = 0,
       pending = [([1, 0, 0, 0, 1, 0x16, 1], Some [1, 0, 0, 0, 0, 5, 0x62, 0, 0, 0x16, 7]),
         ([2, 0, 0, 0, 5, 5, 0x62, 0, 0], Some [0x16, 1])]\<rparr>,
      \<lparr>committed = [], version = 0, history = [], active = [(0, 1)]\<rparr>)"
  "rt_txn (inserted 2 0x62 (inserted 1 0x61 bank_opened)) =
     (\<lparr>snapshot = Some [], started_at = 0,
       pending = [([1, 0, 0, 0, 1, 0x16, 1], Some [1, 0, 0, 0, 0, 5, 0x61, 0, 0, 0x16, 7]),
         ([1, 0, 0, 0, 1, 0x16, 2], Some [1, 0, 0, 0, 0, 5, 0x62, 0, 0, 0x16, 7]),
         ([2, 0, 0, 0, 5, 5, 0x61, 0, 0], Some [0x16, 1]), ([2, 0, 0, 0, 5, 5, 0x62, 0, 0], Some [0x16, 2])]\<rparr>,
      \<lparr>committed = [], version = 0, history = [], active = [(0, 1)]\<rparr>)"
  unfolding inserted_def bank_def bank_opened_def accounts_explicit by code_simp+

lemma inserted_sized:
  "sized (memory_view (rt_txn (inserted 1 0x61 bank_opened)))" "sized (memory_view (rt_txn (inserted 1 0x62 bank_opened)))"
  "sized (memory_view (rt_txn (inserted 2 0x62 (inserted 1 0x61 bank_opened))))"
  by (auto simp: inserted_state sized_def memory_view_def txn_get_def base_def split: if_splits option.splits)

lemma bank_reads_transaction:
  "sized (memory_view (rt_txn st)) \<Longrightarrow> reads_transaction (bank_reads s st) bank st"
  by (simp add: reads_transaction_def bank_reads_def pop_greatest_ok)

definition accounts_query :: "(unit, unit) Query" where
  "accounts_query =
     \<lparr>q_filter = Expr_True, q_order = Ascending, q_projection = Projection_All, q_sort = [], q_limit = None, q_offset = 0, q_hint = None,
      q_compute = [], q_window = [], q_after = None, q_paging = False, q_include_deleted = False\<rparr>"

lemma bank_request:
  assumes "q_compute q = []" and "q_window q = []" and "expr_wf (q_filter q)" and "literals_ok accounts (q_filter q)"
    and "widest_in_list (q_filter q) \<le> 8" and "R \<subseteq> {account 1 0x61 7, account 1 0x62 7, account 2 0x62 7}"
    and "\<forall>g\<in>set (sc_grants s). gr_table g = 1 \<longrightarrow> grant_ok accounts g"
    and "\<And>filt. row_filter_of (bank_reads s st) ctx accounts q = Inr filt \<Longrightarrow> filt = Expr_True"
  shows "request_ok (bank_reads s st) ctx accounts R q"
proof -
  have "card R \<le> card {account 1 0x61 7, account 1 0x62 7, account 2 0x62 7}" using assms(6) by (intro card_mono) auto
  also have "\<dots> \<le> 3" by (simp add: card_insert_if)
  finally have card: "card R \<le> 3" .
  have rows: "\<forall>row\<in>R. list_all wf_value row" using assms(6) by (auto simp: from_utf8_def utf8_decode.simps)
  have index: "td_indexes accounts = [by_email]" "\<not> ix_text by_email" "ix_expression by_email = None" "ix_id by_email = 5"
    by (simp_all add: by_email_def accounts_explicit)
  have planner: "planner_for (bank_reads s st) accounts q = last_planner"
    by (simp add: planner_for_def bank_reads_def last_planner_def)
  have "text_ascending accounts" "planner_ok last_planner no_tables (\<lambda>_ _. Null) accounts" "expressions_ok last_planner accounts"
    "reads_only last_planner (\<lambda>_ _. Null)"
    by (simp_all add: text_ascending_def planner_ok_def expressions_ok_def reads_only_def last_planner_def index)
  moreover have "ex_env (sr_exec (bank_reads s st)) = no_tables" "ex_eval (sr_exec (bank_reads s st)) = (\<lambda>_ _. Null)"
    "sr_security (bank_reads s st) = s" "max_in_values (sr_limits (bank_reads s st)) = 8" "max_sort_rows (sr_limits (bank_reads s st)) = 8"
    by (simp_all add: bank_reads_def)
  moreover have "\<forall>filt. row_filter_of (bank_reads s st) ctx accounts q = Inr filt \<longrightarrow>
      expr_wf filt \<and> literals_ok accounts filt \<and> expr_columns filt \<subseteq> {..<length (td_columns accounts)}"
    using assms(8) by (auto simp: literals_ok_def expr_columns_def)
  moreover have "\<forall>row\<in>R. list_all wf_value (extend_row (\<lambda>_ _. Null) row (q_compute q) [] None)" using rows assms(1) by simp
  ultimately show ?thesis using assms(2-5,7) card unfolding request_ok_def Let_def planner by (simp add: account_facts)
qed

lemma bank_filter:
  "row_filter_of (bank_reads SecurityCatalog_new st) superuser accounts q = Inr filt \<Longrightarrow> filt = Expr_True"
  by (simp add: row_filter_of_def row_filter_with_def superuser_def is_superuser_def account_facts split: Deleted.splits if_splits)

definition email_query :: "(unit, unit) Query" where
  "email_query = accounts_query\<lparr>q_filter := Expr_Compare 1 Op_Eq (Str [0x62])\<rparr>"

abbreviation two_reads :: "(MemoryTransaction \<times> Shared, unit, unit) SecuredReads" where
  "two_reads \<equiv> bank_reads SecurityCatalog_new (inserted 2 0x62 (inserted 1 0x61 bank_opened))"

lemma two_reads_requests:
  "request_ok two_reads superuser accounts {account 2 0x62 7, account 1 0x61 7} email_query"
  "request_ok two_reads superuser accounts {account 2 0x62 7, account 1 0x61 7} (accounts_query\<lparr>q_paging := True, q_limit := Some 1\<rparr>)"
  by (rule bank_request [OF _ _ _ _ _ _ _ bank_filter]; simp add: email_query_def accounts_query_def literals_ok_def key_literal_def
      accounts_explicit from_utf8_def utf8_decode.simps SecurityCatalog_new_def)+

text \<open>A request without a sort is accepted on its grants and its types alone.\<close>

lemma unsorted_plan: "pl_sort (plan_hinted pn t predicate ord projection [] hint compute) = None"
proof -
  have "\<not> must" if "fold (consider_candidate pn [] ord pinned) cs None = Some (c, must)" for pinned cs c must
    using fold_consider_flag [OF that] by simp
  then show ?thesis by (auto simp: plan_hinted_def Let_def split: option.splits prod.splits)
qed

lemma unsorted_accepted:
  assumes "authorize (sr_security sr) ctx t Read = Inr ()" and "sr_check_scales sr t (q_compute q) = Inr ()"
    and "column_type_conflict (\<lambda>c. map_option col_ty (td_column t c)) (q_filter q) = None" and "row_filter_of sr ctx t q = Inr filt"
    and "\<not> q_include_deleted q" and "q_window q = []" and "q_after q = None" and "q_sort q = []"
    and "\<And>cols. readable (sr_security sr) ctx t = Some cols \<Longrightarrow> refuse_unreadable sr t q cols ''this read'' = Inr ()"
  shows "\<exists>plan. plan_query sr ctx t q = Inr plan"
proof -
  have secured: "\<exists>plan. plan_secured sr ctx t q' = Inr plan" if "q' = q \<or> q' = q\<lparr>q_projection := p\<rparr>" for q' p
    using that assms(1-8) by (auto simp: plan_secured_def row_filter_of_def unsorted_plan Let_def)
  show ?thesis
  proof (cases "readable (sr_security sr) ctx t")
    case None
    then show ?thesis using secured assms(1) by (simp add: plan_query_def)
  next
    case (Some cols)
    have "readable_projection q cols = q \<or> readable_projection q cols = q\<lparr>q_projection := Projection_Columns (sorted_list_of_set cols)\<rparr>"
      by (simp add: readable_projection_def split: option.split)
    from secured [OF this] show ?thesis using Some assms(1,9) by (auto simp: plan_query_def)
  qed
qed

lemma superuser_accepted:
  assumes "q_compute q = []" and "column_type_conflict (\<lambda>c. map_option col_ty (td_column accounts c)) (q_filter q) = None"
    and "\<not> q_include_deleted q" and "q_window q = []" and "q_after q = None" and "q_sort q = []"
  shows "\<exists>plan. plan_query (bank_reads SecurityCatalog_new st) superuser accounts q = Inr plan"
  by (rule unsorted_accepted [where filt = Expr_True])
    (use assms in \<open>simp_all add: bank_reads_def authorize_def grants_def superuser_def is_superuser_def readable_def row_filter_of_def
      row_filter_with_def account_facts\<close>)

lemma single_row: "distinct xs \<Longrightarrow> set xs = {a} \<Longrightarrow> xs = [a]"
  by (cases xs; cases "tl xs") auto

theorem secured_query_exact_witness:
  "\<exists>qc. execute two_reads superuser accounts email_query = Inr qc \<and>
     collect_rows (sr_exec two_reads) qc = Inr [account 2 0x62 7] \<and> count_rows (sr_exec two_reads) qc = Inr 1"
proof -
  let ?R = "{account 2 0x62 7, account 1 0x61 7}"
  have t: "accounts \<in> set (cat_tables (rs_catalog bank))" by simp
  obtain plan where plan: "plan_query two_reads superuser accounts email_query = Inr plan"
    using superuser_accepted [of email_query] by (auto simp: email_query_def accounts_query_def)
  have found: "{row \<in> finds two_reads superuser accounts ?R email_query. past_cursor accounts email_query row} = {account 2 0x62 7}"
    by (auto simp: finds_def may_see_def past_cursor_def admits_row_def email_query_def accounts_query_def superuser_def is_superuser_def
        retired_def account_facts bank_reads_def expr_admits_def evaluate_def get_def value_cmp.simps cmp_lin_def)
  obtain qc found out where q: "execute two_reads superuser accounts email_query = Inr qc" "distinct found"
    "set found = {account 2 0x62 7}" "requested two_reads superuser accounts email_query \<inter> {..<length (td_columns accounts)} \<subseteq> cs_set out"
    "collect_rows (sr_exec two_reads) qc = Inr (map (request_shape two_reads superuser accounts email_query out)
       (windowed (q_limit email_query) (q_offset email_query) found))"
    "count_rows (sr_exec two_reads) qc = Inr (length (windowed (q_limit email_query) (q_offset email_query) found))"
    using secured_query_exact [OF two_inserted t bank_reads_transaction [OF inserted_sized(3)] _ plan] two_reads_requests(1) found
    by (auto simp: account_facts)
  note one = single_row [OF q(2,3)]
  have "concealed SecurityCatalog_new superuser accounts = []" by (simp add: concealed_def readable_def superuser_def is_superuser_def)
  then have "{..<length (td_columns accounts)} \<subseteq> cs_set out"
    using q(4) by (auto simp: requested_def email_query_def accounts_query_def projection_columns_def bank_reads_def)
  then have "request_shape two_reads superuser accounts email_query out (account 2 0x62 7) = account 2 0x62 7"
    by (simp add: request_shape_def answer_def shown_def email_query_def accounts_query_def conceal_def blank_def bank_reads_def
        concealed_def readable_def superuser_def is_superuser_def accounts_explicit subset_iff less_Suc_eq numeral_eq_Suc)
  then show ?thesis using q(1,5,6) one by (simp add: windowed_def email_query_def accounts_query_def)
qed

theorem pages_continue_witness:
  "\<exists>qc found. execute two_reads superuser accounts (accounts_query\<lparr>q_paging := True, q_limit := Some 1\<rparr>) = Inr qc \<and>
     set found = {account 2 0x62 7, account 1 0x61 7} \<and> length found = 2 \<and>
     (\<exists>rows. collect_rows (sr_exec two_reads) qc = Inr rows \<and> length rows = 1)"
proof -
  let ?R = "{account 2 0x62 7, account 1 0x61 7}" and ?q = "accounts_query\<lparr>q_paging := True, q_limit := Some 1\<rparr>"
  have t: "accounts \<in> set (cat_tables (rs_catalog bank))" by simp
  obtain plan where plan: "plan_query two_reads superuser accounts ?q = Inr plan"
    using superuser_accepted [of ?q] by (auto simp: accounts_query_def)
  have found: "finds two_reads superuser accounts ?R ?q = ?R"
    by (auto simp: finds_def may_see_def admits_row_def accounts_query_def superuser_def is_superuser_def
        retired_def account_facts bank_reads_def expr_admits_def evaluate_def)
  have paging: "q_paging ?q" "q_after ?q = None" by (simp_all add: accounts_query_def)
  obtain qc found out where q: "execute two_reads superuser accounts ?q = Inr qc" "distinct found" "set found = ?R"
    "collect_rows (sr_exec two_reads) qc = Inr (map (request_shape two_reads superuser accounts ?q out)
       (windowed (q_limit ?q) (q_offset ?q) found))"
    using pages_continue [OF two_inserted t bank_reads_transaction [OF inserted_sized(3)] _ plan paging] two_reads_requests(2) found
    by (auto simp: account_facts)
  have "length found = 2" using distinct_card [OF q(2)] q(3) by simp
  then show ?thesis using q by (auto simp: windowed_def accounts_query_def)
qed

text \<open>A clerk who may read the keys and the stamps of the accounts, and not their addresses.\<close>

definition clerk :: SecurityContext where
  "clerk = \<lparr>ctx_principal = \<lparr>pr_id = Null, pr_tenant = None, pr_roles = {''clerk''}\<rparr>, ctx_bypass = False\<rparr>"

definition clerks :: SecurityCatalog where
  "clerks = add_grant \<lparr>gr_role = ''clerk'', gr_table = 1, gr_actions = {Read}, gr_columns = Some {0, 2}\<rparr> SecurityCatalog_new"

lemma clerk_grants:
  "read_columns ''clerk'' accounts [0, 2] = Inr \<lparr>gr_role = ''clerk'', gr_table = 1, gr_actions = {Read}, gr_columns = Some {0, 2}\<rparr>"
  "readable clerks clerk accounts = Some {0, 2}" "authorize clerks clerk accounts Read = Inr ()"
  by (simp_all add: clerks_def clerk_def add_grant_def SecurityCatalog_new_def read_columns_def readable_def authorize_def
      grants_def is_superuser_def accounts_explicit)

lemma clerk_sees:
  "concealed clerks clerk accounts = [1]" "row_filter_of (bank_reads clerks st) clerk accounts q = Inr Expr_True"
proof -
  show "concealed clerks clerk accounts = [1]" unfolding concealed_def clerk_grants(2) by (simp add: accounts_explicit upt_rec)
  show "row_filter_of (bank_reads clerks st) clerk accounts q = Inr Expr_True"
    by (simp add: row_filter_of_def row_filter_with_def tenant_filter_def bank_reads_def clerk_def clerks_def is_superuser_def
        account_facts expr_and_def add_grant_def SecurityCatalog_new_def split: Deleted.split)
qed

theorem withheld_has_no_influence_witness:
  "\<exists>qc qc' rows rows'. execute (bank_reads clerks (inserted 1 0x61 bank_opened)) clerk accounts accounts_query = Inr qc \<and>
     execute (bank_reads clerks (inserted 1 0x62 bank_opened)) clerk accounts accounts_query = Inr qc' \<and>
     collect_rows (sr_exec (bank_reads clerks (inserted 1 0x61 bank_opened))) qc = Inr rows \<and>
     collect_rows (sr_exec (bank_reads clerks (inserted 1 0x62 bank_opened))) qc' = Inr rows' \<and> mset rows = mset rows'"
proof -
  let ?s = "inserted 1 0x61 bank_opened" and ?s' = "inserted 1 0x62 bank_opened"
  have t: "accounts \<in> set (cat_tables (rs_catalog bank))" by simp
  have other: "bank_reads clerks ?s' = (bank_reads clerks ?s)\<lparr>sr_exec := (sr_exec (bank_reads clerks ?s))\<lparr>ex_snapshot := rt_txn ?s'\<rparr>,
      sr_statistics := sr_statistics (bank_reads clerks ?s)\<rparr>" by (simp add: bank_reads_def)
  have ok: "request_ok (bank_reads clerks st) clerk accounts {account 1 e 7} accounts_query" if "e = 0x61 \<or> e = 0x62" for st e
    by (rule bank_request)
      (use that clerk_sees(2) in \<open>auto simp: accounts_query_def literals_ok_def clerks_def add_grant_def SecurityCatalog_new_def grant_ok_def accounts_explicit\<close>)
  have accepted: "\<exists>plan. plan_query (bank_reads clerks st) clerk accounts accounts_query = Inr plan" for st
    by (rule unsorted_accepted [where filt = Expr_True])
      (use clerk_grants(2,3) clerk_sees(2) in \<open>simp_all add: accounts_query_def bank_reads_def refuse_unreadable_def projection_columns_def expr_columns_def\<close>)
  obtain plan plan' where plan: "plan_query (bank_reads clerks ?s) clerk accounts accounts_query = Inr plan"
    "plan_query (bank_reads clerks ?s') clerk accounts accounts_query = Inr plan'" using accepted by blast
  have alike: "looks_like accounts (concealed (sr_security (bank_reads clerks ?s)) clerk accounts) (account 1 0x61 7) (account 1 0x62 7)"
    "may_see (bank_reads clerks ?s) clerk accounts accounts_query row"
    if "row = account 1 0x61 7 \<or> row = account 1 0x62 7" for row
    using clerk_sees(1) by (auto simp: looks_like_def bank_reads_def accounts_explicit less_Suc_eq numeral_eq_Suc may_see_def
        in_tenant_def policy_admits_def clerks_def add_grant_def SecurityCatalog_new_def retired_def)
  show ?thesis
    by (rule withheld_has_no_influence [OF one_inserted t bank_reads_transaction [OF inserted_sized(1)] other inserted_sized(2)
          _ _ plan, where f = "\<lambda>_. account 1 0x62 7"])
      (use ok alike in \<open>auto simp: account_facts accounts_query_def bij_betw_def\<close>)
qed

end
