(* ===== verification/Record_Delete.thy ===== *)
theory Record_Delete
  imports Query_Results
begin

text \<open>
  Deleting rows, \<open>crates/slate-kernel/src/record.rs\<close>: the tables a cascade may reach, the rows that
  reference a parent, the walk that collects everything one delete removes before anything is written,
  the \<open>RESTRICT\<close> references that refuse it, and the deletes of a row by its key. The
  reads of a transaction are the secured reads of its own contents; statistics, limits, scalars and
  window functions are those of the reads given.
\<close>

section \<open>The reads of a transaction\<close>

definition reads_of ::
  "'x RecordStore \<Rightarrow> ('x, 's, 'w) SecuredReads \<Rightarrow> 'x RecordTransaction \<Rightarrow> ('x, 's, 'w) SecuredReads" where
  "reads_of rs given st =
     given\<lparr>sr_exec := (sr_exec given)\<lparr>ex_kv := rs_kv rs, ex_snapshot := rt_txn st, ex_env := rs_env rs\<rparr>,
          sr_security := rs_security rs\<rparr>"

text \<open>A computation over the reads, which leaves the transaction as it is.\<close>

definition reading ::
  "'x RecordStore \<Rightarrow> ('x, 's, 'w) SecuredReads \<Rightarrow> (('x, 's, 'w) SecuredReads \<Rightarrow> KernelError + 'a) \<Rightarrow>
     ('x RecordTransaction, 'a) comp" where
  "reading rs given f = (\<lambda>st. (f (reads_of rs given st), st))"

definition Query_all :: "('s, 'w) Query" where
  "Query_all =
     \<lparr>q_filter = Expr_True, q_order = Ascending, q_projection = Projection_All, q_sort = [], q_limit = None, q_offset = 0,
      q_hint = None, q_compute = [], q_window = [], q_after = None, q_paging = False, q_include_deleted = False\<rparr>"

section \<open>The tables of a cascade\<close>

fun reach_edges ::
  "(TableDef \<times> ForeignKeyDef) list \<Rightarrow> TableId list \<times> TableDef list \<Rightarrow> TableId list \<times> TableDef list" where
  "reach_edges [] (seen, out) = (seen, out)"
| "reach_edges ((child, foreign_key) # rest) (seen, out) =
     (if fk_on_delete foreign_key \<noteq> Cascade \<or> td_id child \<in> set seen then reach_edges rest (seen, out)
      else reach_edges rest (seen @ [td_id child], out @ [child]))"

lemma reach_edges_extends:
  "reach_edges es (seen, out) = (seen', out') \<Longrightarrow>
     \<exists>new. seen' = seen @ map td_id new \<and> out' = out @ new \<and> distinct (map td_id new) \<and>
       set (map td_id new) \<inter> set seen = {} \<and>
       set new \<subseteq> {t. \<exists>f. (t, f) \<in> set es \<and> fk_on_delete f = Cascade} \<and>
       (\<forall>(t, f)\<in>set es. fk_on_delete f = Cascade \<longrightarrow> td_id t \<in> set seen')"
proof (induction es arbitrary: seen out)
  case (Cons e es)
  obtain t f where e: "e = (t, f)" by fastforce
  show ?case
  proof (cases "fk_on_delete f \<noteq> Cascade \<or> td_id t \<in> set seen")
    case True
    then have "reach_edges es (seen, out) = (seen', out')" using Cons.prems e by simp
    from Cons.IH [OF this] obtain new where new: "seen' = seen @ map td_id new" "out' = out @ new"
      "distinct (map td_id new)" "set (map td_id new) \<inter> set seen = {}"
      "set new \<subseteq> {t. \<exists>f. (t, f) \<in> set es \<and> fk_on_delete f = Cascade}"
      "\<forall>(t, f)\<in>set es. fk_on_delete f = Cascade \<longrightarrow> td_id t \<in> set seen'" by blast
    moreover have "fk_on_delete f = Cascade \<longrightarrow> td_id t \<in> set seen'" using True new(1) by auto
    ultimately show ?thesis unfolding e by (intro exI [of _ new]) auto
  next
    case False
    then have "reach_edges es (seen @ [td_id t], out @ [t]) = (seen', out')" using Cons.prems e by simp
    from Cons.IH [OF this] obtain new where new: "seen' = (seen @ [td_id t]) @ map td_id new" "out' = (out @ [t]) @ new"
      "distinct (map td_id new)" "set (map td_id new) \<inter> set (seen @ [td_id t]) = {}"
      "set new \<subseteq> {t. \<exists>f. (t, f) \<in> set es \<and> fk_on_delete f = Cascade}"
      "\<forall>(t, f)\<in>set es. fk_on_delete f = Cascade \<longrightarrow> td_id t \<in> set seen'" by blast
    then show ?thesis using False unfolding e by (intro exI [of _ "t # new"]) auto
  qed
qed simp

function reach_loop :: "Catalog \<Rightarrow> nat \<Rightarrow> TableId list \<times> TableDef list \<Rightarrow> TableDef list" where
  "reach_loop c at (seen, out) =
     (if at < length seen then reach_loop c (at + 1) (reach_edges (referencing c (seen ! at)) (seen, out)) else out)"
  by pat_completeness auto

text \<open>Each round sees a table of the catalog for the first time, or moves on through those seen.\<close>

termination reach_loop
proof (relation "(\<lambda>(c, at, s). card (td_id ` set (cat_tables c) - set (fst s))) <*mlex*>
    measure (\<lambda>(c, at, s). length (fst s) - at)"; (rule wf_mlex wf_measure)?)
  show "wf (measure (\<lambda>(c, at, s). length (fst s) - at))" by simp
next
  fix c at and seen :: "TableId list" and out :: "TableDef list"
  assume at: "at < length seen"
  obtain seen' out' where step: "reach_edges (referencing c (seen ! at)) (seen, out) = (seen', out')" by fastforce
  then obtain new where new: "seen' = seen @ map td_id new" "set (map td_id new) \<inter> set seen = {}"
    "set new \<subseteq> {t. \<exists>f. (t, f) \<in> set (referencing c (seen ! at)) \<and> fk_on_delete f = Cascade}"
    using reach_edges_extends by blast
  let ?ids = "td_id ` set (cat_tables c)"
  have sub: "td_id ` set new \<subseteq> ?ids" using new(3) by (auto simp: referencing_iff)
  show "((c, at + 1, reach_edges (referencing c (seen ! at)) (seen, out)), c, at, seen, out)
      \<in> (\<lambda>(c, at, s). card (td_id ` set (cat_tables c) - set (fst s))) <*mlex*> measure (\<lambda>(c, at, s). length (fst s) - at)"
  proof (cases new)
    case Nil
    then show ?thesis unfolding step using at new(1) by (intro mlex_leq) (auto simp: mlex_prod_def)
  next
    case (Cons t ts)
    then have "?ids - set seen' \<subset> ?ids - set seen" using sub new(1,2) by auto
    then have "card (?ids - set seen') < card (?ids - set seen)" by (intro psubset_card_mono) auto
    then show ?thesis unfolding step by (intro mlex_less) simp
  qed
qed

declare reach_loop.simps [simp del]

definition cascade_reachable :: "Catalog \<Rightarrow> TableDef \<Rightarrow> TableDef list" where
  "cascade_reachable c t = reach_loop c 0 ([td_id t], [])"


text \<open>An edge from a parent to a child whose rows are deleted with the parent's.\<close>

definition cascade_edge :: "Catalog \<Rightarrow> TableId \<Rightarrow> TableId \<Rightarrow> bool" where
  "cascade_edge c i j \<longleftrightarrow> (\<exists>t f. (t, f) \<in> set (referencing c i) \<and> fk_on_delete f = Cascade \<and> td_id t = j)"

text \<open>A walk that ends with every step taken holds everything its start leads to.\<close>

lemma walk_complete:
  assumes "x \<in> S" and "\<And>y. y \<in> S \<Longrightarrow> step\<^sup>*\<^sup>* x y" and "\<And>y z. y \<in> S \<Longrightarrow> step y z \<Longrightarrow> z \<in> S"
  shows "S = {y. step\<^sup>*\<^sup>* x y}"
proof -
  have "y \<in> S" if "step\<^sup>*\<^sup>* x y" for y using that assms(1,3) by (induction rule: rtranclp_induct) auto
  then show ?thesis using assms(2) by blast
qed

lemma reach_loop_exact:
  assumes "seen = i # map td_id out" and "distinct seen" and "set out \<subseteq> set (cat_tables c)"
    and "\<And>j. j \<in> set seen \<Longrightarrow> (cascade_edge c)\<^sup>*\<^sup>* i j"
    and "\<And>k j. k < at \<Longrightarrow> k < length seen \<Longrightarrow> cascade_edge c (seen ! k) j \<Longrightarrow> j \<in> set seen"
  shows "distinct (i # map td_id (reach_loop c at (seen, out))) \<and> set (reach_loop c at (seen, out)) \<subseteq> set (cat_tables c) \<and>
    set (i # map td_id (reach_loop c at (seen, out))) = {j. (cascade_edge c)\<^sup>*\<^sup>* i j}"
  using assms
proof (induction c at "(seen, out)" arbitrary: seen out rule: reach_loop.induct)
  case (1 c at seen out)
  show ?case
  proof (cases "at < length seen")
    case False
    have "j \<in> set seen" if y: "y \<in> set seen" "cascade_edge c y j" for y j
    proof -
      obtain k where "k < length seen" "y = seen ! k" using y(1) by (auto simp: in_set_conv_nth)
      then show ?thesis using 1(6) [of k j] False y(2) by simp
    qed
    then have "set seen = {j. (cascade_edge c)\<^sup>*\<^sup>* i j}" using 1(2,5) by (intro walk_complete) auto
    moreover have "reach_loop c at (seen, out) = out" using False by (simp add: reach_loop.simps [of c at seen out])
    ultimately show ?thesis using 1(2-4) by simp
  next
    case True
    obtain seen' out' where step: "reach_edges (referencing c (seen ! at)) (seen, out) = (seen', out')" by fastforce
    obtain new where new: "seen' = seen @ map td_id new" "out' = out @ new" "distinct (map td_id new)"
      "set (map td_id new) \<inter> set seen = {}"
      "set new \<subseteq> {t. \<exists>f. (t, f) \<in> set (referencing c (seen ! at)) \<and> fk_on_delete f = Cascade}"
      "\<forall>(t, f)\<in>set (referencing c (seen ! at)). fk_on_delete f = Cascade \<longrightarrow> td_id t \<in> set seen'"
      using reach_edges_extends [OF step] by blast
    have edges: "cascade_edge c (seen ! at) (td_id t)" if "t \<in> set new" for t
      using new(5) that unfolding cascade_edge_def by blast
    have reached: "(cascade_edge c)\<^sup>*\<^sup>* i j" if "j \<in> set seen'" for j
      using that 1(5) edges 1(5) [OF nth_mem [OF True]] unfolding new(1)
      by (auto intro: rtranclp.rtrancl_into_rtrancl)
    have closed: "j \<in> set seen'" if k: "k < at + 1" "k < length seen'" "cascade_edge c (seen' ! k) j" for k j
    proof (cases "k < at")
      case True
      then show ?thesis using k(3) 1(6) [of k j] \<open>at < length seen\<close> by (simp add: new(1) nth_append)
    next
      case False
      then have "cascade_edge c (seen ! at) j" using k True by (simp add: new(1) nth_append less_Suc_eq)
      then show ?thesis using new(6) by (auto simp: cascade_edge_def)
    qed
    have "set out' \<subseteq> set (cat_tables c)" using 1(4) new(5) by (auto simp: new(2) referencing_iff)
    moreover have "distinct seen'" using 1(3) new(3,4) by (auto simp: new(1))
    moreover have "seen' = i # map td_id out'" using 1(2) by (simp add: new(1,2))
    moreover have "reach_loop c at (seen, out) = reach_loop c (at + 1) (seen', out')"
      using True step by (simp add: reach_loop.simps [of c at seen out])
    ultimately show ?thesis using 1(1) [OF True step _ _ _ reached closed] by simp
  qed
qed


section \<open>The rows one delete removes\<close>

definition CASCADE_LIMIT :: nat where "CASCADE_LIMIT = 10000"

definition referencing_query :: "ForeignKeyDef \<Rightarrow> Value list \<Rightarrow> Deleted \<Rightarrow> ('s, 'w) Query" where
  "referencing_query f key deleted =
     Query_all\<lparr>q_filter := expr_all (map (\<lambda>(i, v). expr_eq i v) (zip (fk_columns f) key)),
               q_include_deleted := (deleted = Visible)\<rparr>"

definition referencing_rows ::
  "('x, 's, 'w) SecuredReads \<Rightarrow> SecurityContext \<Rightarrow> TableDef \<Rightarrow> ForeignKeyDef \<Rightarrow> Value list \<Rightarrow> Deleted \<Rightarrow> KernelError + Row list" where
  "referencing_rows sr ctx child f key deleted =
     rbind (execute sr ctx child (referencing_query f key deleted)) (\<lambda>qc. collect_rows (sr_exec sr) qc)"

type_synonym walk = "bytes set \<times> (TableDef \<times> Row) list"

fun schedule_rows :: "TableDef \<Rightarrow> TableDef \<Rightarrow> Row list \<Rightarrow> walk \<Rightarrow> KernelError + walk" where
  "schedule_rows t child [] (scheduled, closure) = Inr (scheduled, closure)"
| "schedule_rows t child (found # rest) (scheduled, closure) =
     (let key = row_key child (primary_key_values found child)
      in if key \<in> scheduled then schedule_rows t child rest (scheduled, closure)
         else if CASCADE_LIMIT \<le> length closure then Inl (KernelSchema (CascadeTooLarge (td_name t) CASCADE_LIMIT))
         else schedule_rows t child rest (insert key scheduled, closure @ [(child, found)]))"

fun cascade_edges ::
  "('x, 's, 'w) SecuredReads \<Rightarrow> TableDef \<Rightarrow> Value list \<Rightarrow> (TableDef \<times> ForeignKeyDef) list \<Rightarrow> walk \<Rightarrow> KernelError + walk" where
  "cascade_edges sr t key [] w = Inr w"
| "cascade_edges sr t key ((child, f) # rest) w =
     (if fk_on_delete f \<noteq> Cascade then cascade_edges sr t key rest w
      else
        rbind (referencing_rows sr superuser child f key Hidden) (\<lambda>found.
        rbind (schedule_rows t child found w) (\<lambda>w'.
        cascade_edges sr t key rest w')))"

lemma schedule_rows_extends:
  "schedule_rows t child rows (scheduled, closure) = Inr (scheduled', closure') \<Longrightarrow>
     \<exists>new. closure' = closure @ new \<and> (new \<noteq> [] \<longrightarrow> length closure' \<le> CASCADE_LIMIT)"
proof (induction rows arbitrary: scheduled closure)
  case (Cons row rows)
  let ?key = "row_key child (primary_key_values row child)"
  show ?case
  proof (cases "?key \<in> scheduled")
    case True
    then show ?thesis using Cons by (simp add: Let_def)
  next
    case False
    then have room: "\<not> CASCADE_LIMIT \<le> length closure"
      and rest: "schedule_rows t child rows (insert ?key scheduled, closure @ [(child, row)]) = Inr (scheduled', closure')"
      using Cons.prems by (auto simp: Let_def split: if_splits)
    from Cons.IH [OF rest] obtain new where new: "closure' = (closure @ [(child, row)]) @ new"
      "new \<noteq> [] \<longrightarrow> length closure' \<le> CASCADE_LIMIT" by blast
    then show ?thesis using room by (intro exI [of _ "(child, row) # new"]) (cases new; simp)
  qed
qed simp

lemma cascade_edges_extends:
  "cascade_edges sr t key es (scheduled, closure) = Inr (scheduled', closure') \<Longrightarrow>
     \<exists>new. closure' = closure @ new \<and> (new \<noteq> [] \<longrightarrow> length closure' \<le> CASCADE_LIMIT)"
proof (induction es arbitrary: scheduled closure)
  case (Cons e es)
  obtain child f where e: "e = (child, f)" by fastforce
  show ?case
  proof (cases "fk_on_delete f = Cascade")
    case False
    then show ?thesis using Cons e by simp
  next
    case True
    then obtain found s1 c1 where step: "schedule_rows t child found (scheduled, closure) = Inr (s1, c1)"
      "cascade_edges sr t key es (s1, c1) = Inr (scheduled', closure')"
      using Cons.prems e by (auto simp: rbind_eq_Inr)
    obtain new1 where new1: "c1 = closure @ new1" "new1 \<noteq> [] \<longrightarrow> length c1 \<le> CASCADE_LIMIT"
      using schedule_rows_extends [OF step(1)] by blast
    obtain new2 where new2: "closure' = c1 @ new2" "new2 \<noteq> [] \<longrightarrow> length closure' \<le> CASCADE_LIMIT"
      using Cons.IH [OF step(2)] by blast
    show ?thesis using new1 new2 by (intro exI [of _ "new1 @ new2"]) (cases new2; auto)
  qed
qed simp

function cascade_loop ::
  "('x, 's, 'w) SecuredReads \<Rightarrow> Catalog \<Rightarrow> TableDef \<Rightarrow> nat \<Rightarrow> walk \<Rightarrow> KernelError + walk" where
  "cascade_loop sr c t at (scheduled, closure) =
     (if at < length closure
      then
        (let (parent, row) = closure ! at
         in case cascade_edges sr t (primary_key_values row parent) (referencing c (td_id parent)) (scheduled, closure) of
              Inl e \<Rightarrow> Inl e
            | Inr w \<Rightarrow> cascade_loop sr c t (at + 1) w)
      else Inr (scheduled, closure))"
  by pat_completeness auto

text \<open>Each round schedules a row below the limit for the first time, or moves on through those scheduled.\<close>

termination cascade_loop
proof (relation "(\<lambda>(sr, c, t, at, w). CASCADE_LIMIT - length (snd w)) <*mlex*> measure (\<lambda>(sr, c, t, at, w). length (snd w) - at)";
    (rule wf_mlex wf_measure)?)
  show "wf (measure (\<lambda>(sr, c, t, at, w). length (snd w) - at))" by simp
next
  fix sr :: "('x, 's, 'w) SecuredReads" and c t at scheduled and closure :: "(TableDef \<times> Row) list" and x parent row w
  assume at: "at < length closure"
    and step: "cascade_edges sr t (primary_key_values row parent) (referencing c (td_id parent)) (scheduled, closure) = Inr w"
  obtain scheduled' closure' where w: "w = (scheduled', closure')" by fastforce
  obtain new where new: "closure' = closure @ new" "new \<noteq> [] \<longrightarrow> length closure' \<le> CASCADE_LIMIT"
    using cascade_edges_extends [OF step [unfolded w]] by blast
  show "((sr, c, t, at + 1, w), sr, c, t, at, scheduled, closure) \<in>
      (\<lambda>(sr, c, t, at, w). CASCADE_LIMIT - length (snd w)) <*mlex*> measure (\<lambda>(sr, c, t, at, w). length (snd w) - at)"
  proof (cases new)
    case Nil
    then show ?thesis using at by (intro mlex_leq) (auto simp: w new(1))
  next
    case (Cons x xs)
    then have "CASCADE_LIMIT - length closure' < CASCADE_LIMIT - length closure" using new by auto
    then show ?thesis by (intro mlex_less) (simp add: w)
  qed
qed

declare cascade_loop.simps [simp del]

text \<open>The \<open>RESTRICT\<close> references into one row of the closure, and into all of them.\<close>

fun restrict_edges ::
  "('x, 's, 'w) SecuredReads \<Rightarrow> bytes set \<Rightarrow> TableDef \<Rightarrow> Value list \<Rightarrow> (TableDef \<times> ForeignKeyDef) list \<Rightarrow> KernelError + unit" where
  "restrict_edges sr scheduled parent key [] = Inr ()"
| "restrict_edges sr scheduled parent key ((child, f) # rest) =
     (if fk_on_delete f \<noteq> Restrict then restrict_edges sr scheduled parent key rest
      else
        rbind (referencing_rows sr superuser child f key Visible) (\<lambda>found.
        let blockers = filter (\<lambda>row. row_key child (primary_key_values row child) \<notin> scheduled) found
        in if blockers \<noteq> []
           then
             let all_retired =
               (case td_soft_delete child of
                  None \<Rightarrow> False
                | Some column \<Rightarrow> list_all (\<lambda>row. get row column \<noteq> None \<and> get row column \<noteq> Some Null) blockers)
             in Inl (KernelSchema (ForeignKeyRestricted (td_name parent) (td_name child) (fk_name f) all_retired))
           else restrict_edges sr scheduled parent key rest))"

definition deletion_closure ::
  "('x, 's, 'w) SecuredReads \<Rightarrow> Catalog \<Rightarrow> SecurityContext \<Rightarrow> TableDef \<Rightarrow> Row \<Rightarrow> KernelError + (TableDef \<times> Row) list" where
  "deletion_closure sr c ctx t row =
     (if referencing c (td_id t) = [] then Inr [(t, row)]
      else
        rbind (try_each (\<lambda>reachable. authorize (sr_security sr) ctx reachable Delete) (cascade_reachable c t)) (\<lambda>_.
        rbind (cascade_loop sr c t 0 ({row_key t (primary_key_values row t)}, [(t, row)])) (\<lambda>(scheduled, closure).
        rbind (try_each (\<lambda>(parent, row). restrict_edges sr scheduled parent (primary_key_values row parent)
                  (referencing c (td_id parent))) closure) (\<lambda>_.
        Inr closure))))"

section \<open>The operations\<close>

definition remove_all :: "'x RecordStore \<Rightarrow> (TableDef \<times> Row) list \<Rightarrow> ('x RecordTransaction, unit) comp" where
  "remove_all rs doomed = seach (\<lambda>(owner, row). remove_row rs owner row) doomed"

definition delete_row ::
  "'x RecordStore \<Rightarrow> ('x, 's, 'w) SecuredReads \<Rightarrow> SecurityContext \<Rightarrow> TableDef \<Rightarrow> Value list \<Rightarrow> ('x RecordTransaction, bool) comp" where
  "delete_row rs given ctx t primary_key =
     sbind (sresult (authorize (rs_security rs) ctx t Delete)) (\<lambda>_.
     sbind (visible_row rs ctx t Delete primary_key) (\<lambda>found.
     case found of
       None \<Rightarrow> sreturn False
     | Some existing \<Rightarrow>
         sbind (reading rs given (\<lambda>sr. deletion_closure sr (rs_catalog rs) ctx t existing)) (\<lambda>doomed.
         sbind (remove_all rs doomed) (\<lambda>_. sreturn True))))"

definition delete_if_unchanged ::
  "'x RecordStore \<Rightarrow> ('x, 's, 'w) SecuredReads \<Rightarrow> SecurityContext \<Rightarrow> TableDef \<Rightarrow> Value list \<Rightarrow> Row \<Rightarrow> ('x RecordTransaction, unit) comp" where
  "delete_if_unchanged rs given ctx t primary_key expected =
     sbind (sresult (authorize (rs_security rs) ctx t Delete)) (\<lambda>_.
     sbind (sresult (require_every_column (rs_security rs) ctx t ''a compare-and-swap delete'')) (\<lambda>_.
     sbind (sresult (map_err KernelSchema (validate expected t))) (\<lambda>_.
     if \<not> list_all2 value_eq (primary_key_values expected t) primary_key
     then sresult (Inl (RowChanged (td_name t)))
     else
       sbind (visible_row rs ctx t Delete primary_key) (\<lambda>found.
       case found of
         None \<Rightarrow> sresult (Inl (RowNotFound (td_name t)))
       | Some existing \<Rightarrow>
           if \<not> list_all2 value_eq existing expected then sresult (Inl (RowChanged (td_name t)))
           else
             sbind (reading rs given (\<lambda>sr. deletion_closure sr (rs_catalog rs) ctx t existing)) (\<lambda>doomed.
             remove_all rs doomed)))))"

end
