(* ===== verification/Record_Cascade.thy ===== *)
theory Record_Cascade
  imports Record_Delete
begin

text \<open>
  What a delete removes. The tables a cascade authorises are those its edges lead to; the rows found to
  reference a parent are exactly those that hold its key; the walk collects exactly what the cascading
  references lead to, whatever order they are met in and round any cycle; a delete is refused exactly when a
  reference that restricts would be left behind; and what is left of the database holds no live reference
  to a row that went.
\<close>

section \<open>The rows that reference a parent\<close>

lemma and_loop_True: "and_loop Truth_True ts = Truth_True \<longleftrightarrow> (\<forall>t\<in>set ts. t = Truth_True)"
  by (auto simp: and_loop_iff) (metis Truth.exhaust)

lemma equals_admits:
  "expr_admits env (expr_all (map (\<lambda>(i, v). expr_eq i v) ps)) row \<longleftrightarrow>
     (\<forall>(i, v)\<in>set ps. \<exists>a. get row i = Some a \<and> a \<noteq> Null \<and> v \<noteq> Null \<and> value_eq a v)"
proof -
  have one: "evaluate_over env (get row) (expr_eq i v) = Truth_True \<longleftrightarrow>
      (\<exists>a. get row i = Some a \<and> a \<noteq> Null \<and> v \<noteq> Null \<and> value_eq a v)" for i v
    by (auto simp: expr_eq_def value_eq_def truth_from_def split: option.split)
  have "truth_admits t \<longleftrightarrow> t = Truth_True" for t by (cases t) simp_all
  then show ?thesis
    by (simp add: expr_admits_def evaluate_def evaluate_expr_all and_loop_True split_beta one del: get_eq_Some)
qed

lemma parent_key_iff:
  "parent_key f row = Some key \<longleftrightarrow>
     length key = length (fk_columns f) \<and>
     (\<forall>n<length key. get row (fk_columns f ! n) = Some (key ! n) \<and> key ! n \<noteq> Null)"
proof -
  have "parent_key_loop row acc os = Some key \<longleftrightarrow>
      (\<exists>vs. key = acc @ vs \<and> list_all2 (\<lambda>i v. get row i = Some v \<and> v \<noteq> Null) os vs)" for acc os
  proof (induction os arbitrary: acc)
    case (Cons i os)
    show ?case
    proof (cases "get row i")
      case (Some v)
      then show ?thesis using Cons.IH [of "acc @ [v]"] by (auto simp: list_all2_Cons1)
    qed (auto simp: list_all2_Cons1 simp del: get_eq_Some get_eq_None)
  qed auto
  from this [of "[]"] show ?thesis by (auto simp: parent_key_def list_all2_conv_all_nth)
qed


lemma keys_eq:
  assumes "list_all2 fits tys key" and "list_all2 fits tys key'" and "map canon key = key" and "map canon key' = key'"
    and "length (tuple_bytes [] key) < 2 ^ 64" and "list_all2 value_eq key key'"
  shows "key = key'"
proof -
  have wf: "list_all wf_value key" "list_all wf_value key'" "length key = length key'"
    using assms(1,2) by (auto simp: list_all2_conv_all_nth list_all_length fits_def)
  have "tuple_bytes [] key = tuple_bytes [] key'" using tuple_split [OF wf, of "[]" "[]" "[]"] assms(6) by simp
  then have "decode (tuple_bytes [] key) tys = Inr key" "decode (tuple_bytes [] key) tys = Inr key'"
    using decode_bytes [OF assms(1)] decode_bytes [OF assms(2)] assms(3-5) by simp_all
  then show ?thesis by simp
qed

text \<open>The key of a stored parent, as the referencing columns of a child may hold it.\<close>

definition parent_fits :: "TableDef \<Rightarrow> ForeignKeyDef \<Rightarrow> Value list \<Rightarrow> bool" where
  "parent_fits t f key \<longleftrightarrow>
     list_all2 (\<lambda>i v. fits (col_ty (td_columns t ! i)) v \<and> canon v = v \<and> i < length (td_columns t)) (fk_columns f) key \<and>
     length (tuple_bytes [] key) < 2 ^ 64"

lemma stored_parent_fits:
  assumes "schema_ok c" and "p \<in> set (cat_tables c)" and "(t, f) \<in> set (referencing c (td_id p))" and "stored_ok p r"
  shows "parent_fits t f (primary_key_values r p)"
proof -
  let ?key = "primary_key_values r p"
  have t: "t \<in> set (cat_tables c)" "f \<in> set (td_foreign_keys t)" "fk_parent f = td_id p"
    using assms(3) by (simp_all add: referencing_iff)
  have c: "catalog_ok c" "foreign_keys_valid c" "table_ok p" "table_ok t" using assms(1,2) t(1) by (auto simp: schema_ok_def)
  have same: "p' = p" if "p' \<in> set (cat_tables c)" "td_id p' = td_id p" for p'
    using that assms(2) c(1) by (auto simp: catalog_ok_def distinct_map inj_on_def)
  have types: "key_types t (fk_columns f) = primary_key_types p"
    using c(2) t same unfolding foreign_keys_valid_def by metis
  have live: "\<forall>i\<in>set (fk_columns f). i < length (td_columns t)"
    using c(4) t(2) by (auto simp: table_ok_def Let_def foreign_key_ok_def live_column_def)
  have "key_fits p ?key" using row_key_fits [OF c(3)] assms(4) by (simp add: stored_ok_def)
  moreover have "map canon ?key = ?key" using canonical_key assms(4) by (simp add: stored_ok_def)
  moreover have "length (key_of p r) < 2 ^ 64" using assms(4) by (simp add: stored_ok_def)
  ultimately show ?thesis
    using live unfolding parent_fits_def key_fits_def types [symmetric] key_types_def
    by (auto simp: list_all2_conv_all_nth row_key_bytes table_prefix_def list_eq_iff_nth_eq)
qed

lemma refers_iff:
  assumes "table_ok t" and "f \<in> set (td_foreign_keys t)" and "stored_ok t s" and "parent_fits t f key"
  shows "expr_admits env (q_filter (referencing_query f key del :: ('s, 'w) Query)) s \<longleftrightarrow> parent_key f s = Some key"
proof -
  have ok: "row_ok t s" "canonical s" "length s = length (td_columns t)"
    using assms(3) row_ok_length by (auto simp: stored_ok_def)
  have live: "i < length (td_columns t) \<and> \<not> is_dropped (td_columns t ! i)" if "i \<in> set (fk_columns f)" for i
    using assms(1,2) that by (auto simp: table_ok_def Let_def foreign_key_ok_def live_column_def)
  have len: "length key = length (fk_columns f)" using assms(4) by (auto simp: parent_fits_def list_all2_conv_all_nth)
  let ?held = "map (\<lambda>i. s ! i) (fk_columns f)" and ?tys = "map (\<lambda>i. col_ty (td_columns t ! i)) (fk_columns f)"
  have fits: "list_all2 fits ?tys ?held" "list_all2 fits ?tys key" "map canon ?held = ?held" "map canon key = key"
    using row_ok_fits [OF assms(1) ok(1)] live assms(4) ok(2,3)
    by (auto simp: list_all2_conv_all_nth parent_fits_def canonical_def list_eq_iff_nth_eq)
  have wf: "list_all wf_value key" "list_all wf_value ?held" "length key = length ?held"
    using fits(1,2) len by (auto simp: list_all2_conv_all_nth list_all_length fits_def)
  have refl: "value_eq v v" if "v \<in> set key" for v
    using that wf(1) asc.total.refl by (auto simp: value_eq_def list_all_iff)
  have "expr_admits env (q_filter (referencing_query f key del :: ('s, 'w) Query)) s \<longleftrightarrow>
      (\<forall>n<length key. ?held ! n \<noteq> Null \<and> key ! n \<noteq> Null \<and> value_eq (?held ! n) (key ! n))"
    using len live ok(3) unfolding referencing_query_def by (simp add: equals_admits set_zip get_def) (auto simp: get_def)
  also have "\<dots> \<longleftrightarrow> ?held = key \<and> Null \<notin> set key"
  proof
    assume all: "\<forall>n<length key. ?held ! n \<noteq> Null \<and> key ! n \<noteq> Null \<and> value_eq (?held ! n) (key ! n)"
    then have "list_all2 value_eq ?held key" using len by (simp add: list_all2_conv_all_nth)
    moreover have "length (tuple_bytes [] ?held) < 2 ^ 64"
      using tuple_split [OF wf(2,1), of "[]" "[]" "[]"] wf(3) calculation assms(4) by (simp add: parent_fits_def)
    ultimately have "?held = key" by (intro keys_eq [OF fits])
    then show "?held = key \<and> Null \<notin> set key" using all by (auto simp: in_set_conv_nth)
  next
    assume "?held = key \<and> Null \<notin> set key"
    then show "\<forall>n<length key. ?held ! n \<noteq> Null \<and> key ! n \<noteq> Null \<and> value_eq (?held ! n) (key ! n)"
      using refl by (metis nth_mem)
  qed
  also have "\<dots> \<longleftrightarrow> parent_key f s = Some key"
    unfolding parent_key_iff using len live ok(3) by (auto simp: list_eq_iff_nth_eq get_def in_set_conv_nth)
  finally show ?thesis .
qed


section \<open>Reading them\<close>

text \<open>What is asked of the reads a cascade makes, over each table: what statistics and index expressions
  say of the table is true, grants are well formed, and no table outgrows what a read may collect.\<close>

definition tables_readable :: "('x, 's, 'w) SecuredReads \<Rightarrow> Catalog \<Rightarrow> database \<Rightarrow> bool" where
  "tables_readable sr c D \<longleftrightarrow>
     (\<forall>t\<in>set (cat_tables c).
        let ex = sr_exec sr; pn = (sr_statistics sr t None)\<lparr>pn_columns := sr_columns sr\<rparr> in
        text_ascending t \<and> planner_ok pn (ex_env ex) (ex_eval ex) t \<and> expressions_ok pn t \<and> reads_only pn (ex_eval ex) \<and>
        sr_check_scales sr t [] = Inr () \<and>
        (\<forall>g\<in>set (sc_grants (sr_security sr)). gr_table g = td_id t \<longrightarrow> grant_ok t g) \<and>
        card (D (td_id t)) < 2 ^ 64 \<and> card (D (td_id t)) \<le> max_sort_rows (sr_limits sr))"

lemma equals_form:
  "expr_all (map (\<lambda>(i, v). expr_eq i v) ps) =
     (case ps of [] \<Rightarrow> Expr_True | [(i, v)] \<Rightarrow> expr_eq i v | _ \<Rightarrow> Expr_And (map (\<lambda>(i, v). expr_eq i v) ps))"
proof -
  have grow: "foldl expr_and (Expr_And es) (map (\<lambda>(i, v). expr_eq i v) qs) = Expr_And (es @ map (\<lambda>(i, v). expr_eq i v) qs)" for es qs
    by (induction qs arbitrary: es) (auto simp: expr_and_def expr_eq_def)
  show ?thesis
  proof (cases ps)
    case (Cons p qs)
    then show ?thesis
      using grow by (cases qs) (auto simp: expr_all_def expr_and_def expr_eq_def split: prod.splits)
  qed (simp add: expr_all_def)
qed

lemma equals_plain:
  "column_type_conflict types (expr_all (map (\<lambda>(i, v). expr_eq i v) ps)) = None"
  "widest_in_list (expr_all (map (\<lambda>(i, v). expr_eq i v) ps)) = 0"
  "expr_wf (expr_all (map (\<lambda>(i, v). expr_eq i v) ps)) \<longleftrightarrow> (\<forall>(i, v)\<in>set ps. wf_value v)"
  "set (conjuncts (expr_all (map (\<lambda>(i, v). expr_eq i v) ps))) = (\<lambda>(i, v). expr_eq i v) ` set ps"
proof -
  have none: "find_map (column_type_conflict types) (map (\<lambda>(i, v). expr_eq i v) qs) = None" for qs
    by (auto simp: find_map_None expr_eq_def)
  have zero: "fold max (map widest_in_list (map (\<lambda>(i, v). expr_eq i v) qs)) 0 = 0" for qs
    by (induction qs) (auto simp: expr_eq_def)
  have cs: "set (concat (map conjuncts (map (\<lambda>(i, v). expr_eq i v) qs))) = (\<lambda>(i, v). expr_eq i v) ` set qs" for qs
    by (auto simp: expr_eq_def)
  show "column_type_conflict types (expr_all (map (\<lambda>(i, v). expr_eq i v) ps)) = None"
    unfolding equals_form using none [of ps] by (auto simp: expr_eq_def split_def split: list.split)
  show "widest_in_list (expr_all (map (\<lambda>(i, v). expr_eq i v) ps)) = 0"
    unfolding equals_form using zero [of ps] by (auto simp: expr_eq_def split_def split: list.split)
  show "expr_wf (expr_all (map (\<lambda>(i, v). expr_eq i v) ps)) \<longleftrightarrow> (\<forall>(i, v)\<in>set ps. wf_value v)"
    unfolding equals_form by (auto simp: expr_eq_def list_all_iff split: list.split prod.split)
  show "set (conjuncts (expr_all (map (\<lambda>(i, v). expr_eq i v) ps))) = (\<lambda>(i, v). expr_eq i v) ` set ps"
    unfolding equals_form using cs [of ps] by (auto simp: expr_eq_def split: list.split prod.split)
qed

lemma superuser_filter:
  assumes "table_ok t" and "row_filter_of sr superuser t q = Inr filt"
  shows "expr_wf filt \<and> literals_ok t filt \<and> expr_columns filt \<subseteq> {..<length (td_columns t)}"
proof -
  have "filt = Expr_True \<or> (\<exists>i. td_soft_delete t = Some i \<and> filt = Expr_IsNull i False)"
    using assms(2) by (auto simp: row_filter_of_def row_filter_with_def superuser_def is_superuser_def Let_def
        split: Deleted.splits option.splits if_splits)
  moreover have "i < length (td_columns t)" if "td_soft_delete t = Some i" for i
    using assms(1) that by (simp add: table_ok_def Let_def soft_delete_ok_def)
  ultimately show ?thesis by (auto simp: literals_ok_def expr_columns_def)
qed

lemma referencing_request:
  fixes sr :: "(MemoryTransaction \<times> Shared, 's, 'w) SecuredReads"
  assumes "serves memory_ok memory_view rs D st" and "tables_readable sr (rs_catalog rs) D" and "t \<in> set (cat_tables (rs_catalog rs))"
    and "parent_fits t f key"
  shows "request_ok sr superuser t (D (td_id t)) (referencing_query f key del)"
    and "\<exists>plan. plan_query sr superuser t (referencing_query f key del) = Inr plan"
proof -
  let ?q = "referencing_query f key del :: ('s, 'w) Query"
  have ok: "table_ok t" "represents (env_unicode (rs_env rs)) t (D (td_id t)) (memory_view (rt_txn st))"
    using assms(1,3) by (auto simp: serves_def schema_ok_def database_of_def)
  have rows: "\<forall>row\<in>D (td_id t). list_all wf_value row"
    using ok(2) by (auto simp: represents_def stored_ok_def row_ok_def)
  have q: "q_window ?q = []" "q_compute ?q = []" "q_limit ?q = None" "q_after ?q = None" "q_sort ?q = []" "\<not> q_paging ?q"
    by (simp_all add: referencing_query_def Query_all_def)
  have planner: "planner_for sr t ?q = (sr_statistics sr t None)\<lparr>pn_columns := sr_columns sr\<rparr>"
    by (simp add: planner_for_def planning_limit_def q)
  have lits: "\<forall>(i, v)\<in>set (zip (fk_columns f) key). fits (col_ty (td_columns t ! i)) v \<and> canon v = v"
    using assms(4) by (auto simp: parent_fits_def list_all2_iff)
  then have "expr_wf (q_filter ?q)" by (auto simp: referencing_query_def equals_plain fits_def)
  moreover have "set (conjuncts (q_filter ?q)) = (\<lambda>(i, v). expr_eq i v) ` set (zip (fk_columns f) key)"
    by (simp add: referencing_query_def equals_plain)
  then have "literals_ok t (q_filter ?q)" using lits by (auto simp: literals_ok_def key_literal_def expr_eq_def)
  moreover have "widest_in_list (q_filter ?q) = 0" by (simp add: referencing_query_def equals_plain)
  ultimately show "request_ok sr superuser t (D (td_id t)) ?q"
    using assms(2,3) superuser_filter [OF ok(1), of sr ?q] rows q unfolding request_ok_def tables_readable_def Let_def planner
    by (simp add: extend_row_def)
  have "\<exists>filt. row_filter_of sr superuser t ?q = Inr filt"
    by (simp add: row_filter_of_def row_filter_with_def superuser_def is_superuser_def Let_def)
  moreover have "sr_check_scales sr t [] = Inr ()" using assms(2,3) by (simp add: tables_readable_def Let_def)
  moreover have "column_type_conflict types (q_filter ?q) = None" for types by (simp add: referencing_query_def equals_plain)
  ultimately show "\<exists>plan. plan_query sr superuser t ?q = Inr plan"
    using q by (auto simp: plan_query_def plan_secured_def authorize_def grants_def superuser_def is_superuser_def readable_def
        row_filter_of_def Let_def)
qed

text \<open>The rows of a child that hold a parent's key, each once and whole.\<close>

lemma referencing_rows_exact:
  fixes sr :: "(MemoryTransaction \<times> Shared, 's, 'w) SecuredReads"
  assumes "serves memory_ok memory_view rs D st" and "reads_transaction sr rs st" and "tables_readable sr (rs_catalog rs) D"
    and "t \<in> set (cat_tables (rs_catalog rs))" and "f \<in> set (td_foreign_keys t)" and "parent_fits t f key"
  obtains found where "referencing_rows sr superuser t f key del = Inr found" and "distinct found"
    and "set found = {s \<in> D (td_id t). parent_key f s = Some key \<and> (del = Visible \<or> \<not> retired t s)}"
proof -
  let ?q = "referencing_query f key del :: ('s, 'w) Query"
  note req = referencing_request [OF assms(1,3,4,6), of del]
  obtain plan where plan: "plan_query sr superuser t ?q = Inr plan" using req(2) by blast
  obtain qc found where qc: "execute sr superuser t ?q = Inr qc" "distinct found"
    "set found = {row \<in> D (td_id t). admits_row (sr_exec sr) (q_filter ?q) (q_compute ?q) row \<and>
       may_see sr superuser t ?q row \<and> past_cursor t ?q row}"
    "requested sr superuser t ?q \<inter> {..<length (td_columns t)} \<subseteq> cs_set (pl_output_columns plan)"
    "collect_rows (sr_exec sr) qc = Inr (map (\<lambda>row. conceal (answer (planner_for sr t ?q) (ex_eval (sr_exec sr)) t
        (pl_output_columns plan) (q_compute ?q) row) (concealed (sr_security sr) superuser t)) (windowed (q_limit ?q) (q_offset ?q) found))"
    by (rule request_answers [OF assms(1,4,2) req(1) plan]) (rule that)
  have T: "table_ok t" "\<And>row. row \<in> D (td_id t) \<Longrightarrow> stored_ok t row"
    using assms(1,4) by (auto simp: serves_def schema_ok_def database_of_def represents_def)
  have q: "q_compute ?q = []" "q_limit ?q = None" "q_offset ?q = 0" "q_after ?q = None" "q_projection ?q = Projection_All"
    "q_include_deleted ?q = (del = Visible)"
    by (simp_all add: referencing_query_def Query_all_def)
  have none: "concealed (sr_security sr) superuser t = []" by (simp add: concealed_def readable_def superuser_def is_superuser_def)
  then have all: "{..<length (td_columns t)} \<subseteq> cs_set (pl_output_columns plan)"
    using qc(4) by (simp add: requested_def q projection_columns_def)
  have "answer (planner_for sr t ?q) (ex_eval (sr_exec sr)) t (pl_output_columns plan) [] row = row" if "row \<in> set found" for row
  proof -
    have "length row = length (td_columns t)" using that qc(3) T(2) row_ok_length by (auto simp: stored_ok_def)
    then have "\<forall>i<length row. shown (planner_for sr t ?q) t (pl_output_columns plan) [] i" using all by (auto simp: shown_def)
    then have "blank (shown (planner_for sr t ?q) t (pl_output_columns plan) []) row = row"
      by (intro nth_equalityI) (simp_all add: blank_def)
    then show ?thesis by (simp add: answer_def extend_row_def)
  qed
  then have rows: "collect_rows (sr_exec sr) qc = Inr found"
    using qc(5) by (simp add: q none conceal_def windowed_def map_idI)
  have sel: "admits_row (sr_exec sr) (q_filter ?q) [] row \<longleftrightarrow> parent_key f row = Some key" if "row \<in> D (td_id t)" for row
    using refers_iff [OF T(1) assms(5) T(2) [OF that] assms(6), of _ del] by (simp add: admits_row_def extend_row_def)
  have see: "may_see sr superuser t ?q row \<longleftrightarrow> del = Visible \<or> \<not> retired t row" for row
    by (simp add: may_see_def q superuser_def is_superuser_def)
  show thesis
  proof (rule that)
    show "referencing_rows sr superuser t f key del = Inr found" using qc(1) rows by (simp add: referencing_rows_def)
    show "distinct found" by (rule qc(2))
    show "set found = {s \<in> D (td_id t). parent_key f s = Some key \<and> (del = Visible \<or> \<not> retired t s)}"
      unfolding qc(3) see past_cursor_def q using sel by auto
  qed
qed


section \<open>The walk\<close>

definition cascades :: "Catalog \<Rightarrow> database \<Rightarrow> TableDef \<times> Row \<Rightarrow> TableDef \<times> Row \<Rightarrow> bool" where
  "cascades c D x y \<longleftrightarrow>
     (\<exists>f. (fst y, f) \<in> set (referencing c (td_id (fst x))) \<and> fk_on_delete f = Cascade \<and> snd y \<in> D (td_id (fst y)) \<and>
        \<not> retired (fst y) (snd y) \<and> parent_key f (snd y) = Some (primary_key_values (snd x) (fst x)))"

text \<open>A row of the database, with its table.\<close>

definition held :: "Catalog \<Rightarrow> database \<Rightarrow> TableDef \<times> Row \<Rightarrow> bool" where
  "held c D x \<longleftrightarrow> fst x \<in> set (cat_tables c) \<and> snd x \<in> D (td_id (fst x))"

abbreviation pair_key :: "TableDef \<times> Row \<Rightarrow> bytes" where
  "pair_key x \<equiv> key_of (fst x) (snd x)"

text \<open>A set of more rows than one delete may remove.\<close>

definition too_many :: "(TableDef \<times> Row) set \<Rightarrow> bool" where
  "too_many S \<longleftrightarrow> (\<exists>T. T \<subseteq> S \<and> finite T \<and> CASCADE_LIMIT < card T)"

lemma too_many_mono: "too_many S \<Longrightarrow> S \<subseteq> T \<Longrightarrow> too_many T"
  by (auto simp: too_many_def)

definition walk_ok :: "Catalog \<Rightarrow> database \<Rightarrow> walk \<Rightarrow> bool" where
  "walk_ok c D w \<longleftrightarrow>
     fst w = pair_key ` set (snd w) \<and> distinct (snd w) \<and> (\<forall>x\<in>set (snd w). held c D x) \<and> length (snd w) \<le> CASCADE_LIMIT"

lemma held_stored:
  assumes "serves ok view rs D st" and "held (rs_catalog rs) D x"
  shows "table_ok (fst x)" and "stored_ok (fst x) (snd x)"
  using assms by (auto simp: serves_def schema_ok_def database_of_def represents_def held_def)

lemma held_key_inj:
  assumes "serves ok view rs D st" and "held (rs_catalog rs) D x" and "held (rs_catalog rs) D y" and "pair_key x = pair_key y"
  shows "x = y"
proof -
  have c: "catalog_ok (rs_catalog rs)" using assms(1) by (simp add: serves_def schema_ok_def)
  have t: "fst x \<in> set (cat_tables (rs_catalog rs))" "fst y \<in> set (cat_tables (rs_catalog rs))"
    "snd x \<in> D (td_id (fst x))" "snd y \<in> D (td_id (fst y))" using assms(2,3) by (simp_all add: held_def)
  have "own_key (fst x) (pair_key x)" "own_key (fst y) (pair_key x)"
    using key_of_space [of "fst x" "snd x"] key_of_space [of "fst y" "snd y"] assms(4) by (simp_all add: own_key_def)
  then have same: "fst x = fst y" using own_keys_disjoint [OF c t(1,2)] by metis
  have "table_ok (fst x)" "represents (env_unicode (rs_env rs)) (fst x) (D (td_id (fst x))) (view (rt_txn st))"
    using assms(1) t(1) by (auto simp: serves_def schema_ok_def database_of_def)
  then have "snd x = snd y" using represented_once t(3,4) assms(4) same by metis
  then show ?thesis using same by (simp add: prod_eq_iff)
qed

lemma schedule_rows_result:
  assumes "serves ok view rs D st" and "walk_ok (rs_catalog rs) D (scheduled, closure)"
    and "\<And>row. row \<in> set rows \<Longrightarrow> held (rs_catalog rs) D (child, row)"
  shows "case schedule_rows t child rows (scheduled, closure) of
      Inl e \<Rightarrow> e = KernelSchema (CascadeTooLarge (td_name t) CASCADE_LIMIT) \<and> too_many (set closure \<union> Pair child ` set rows)
    | Inr w \<Rightarrow> walk_ok (rs_catalog rs) D w \<and> set (snd w) = set closure \<union> Pair child ` set rows \<and> (\<exists>new. snd w = closure @ new)"
  using assms(2,3)
proof (induction rows arbitrary: scheduled closure)
  case (Cons row rows)
  let ?x = "(child, row)"
  have x: "held (rs_catalog rs) D ?x" using Cons.prems(2) by simp
  have rows: "\<And>row. row \<in> set rows \<Longrightarrow> held (rs_catalog rs) D (child, row)" using Cons.prems(2) by simp
  have inv: "scheduled = pair_key ` set closure" "distinct closure" "\<forall>y\<in>set closure. held (rs_catalog rs) D y"
    "length closure \<le> CASCADE_LIMIT"
    using Cons.prems(1) by (simp_all add: walk_ok_def)
  have seen: "key_of child row \<in> scheduled \<longleftrightarrow> ?x \<in> set closure"
  proof
    assume "key_of child row \<in> scheduled"
    then obtain y where "y \<in> set closure" "pair_key y = pair_key ?x" using inv(1) by auto
    then show "?x \<in> set closure" using held_key_inj [OF assms(1) _ x] inv(3) by metis
  qed (use inv(1) in force)
  show ?case
  proof (cases "?x \<in> set closure")
    case True
    then have sets: "set closure \<union> Pair child ` set (row # rows) = set closure \<union> Pair child ` set rows" by auto
    have run: "schedule_rows t child (row # rows) (scheduled, closure) = schedule_rows t child rows (scheduled, closure)"
      using True seen by (simp add: Let_def)
    show ?thesis using Cons.IH [OF Cons.prems(1) rows] unfolding run sets .
  next
    case new: False
    show ?thesis
    proof (cases "CASCADE_LIMIT \<le> length closure")
      case True
      have "too_many (set closure \<union> Pair child ` set (row # rows))" unfolding too_many_def
        using True new inv(2) by (intro exI [of _ "insert ?x (set closure)"]) (auto simp: distinct_card)
      then show ?thesis using True new seen by (simp add: Let_def)
    next
      case False
      have "walk_ok (rs_catalog rs) D (insert (key_of child row) scheduled, closure @ [?x])"
        using inv x new False by (auto simp: walk_ok_def)
      from Cons.IH [OF this rows] show ?thesis using False new seen by (auto simp: Let_def split: sum.splits)
    qed
  qed
qed simp

lemma cascade_edges_result:
  fixes sr :: "(MemoryTransaction \<times> Shared, 's, 'w) SecuredReads"
  assumes "serves memory_ok memory_view rs D st" and "reads_transaction sr rs st" and "tables_readable sr (rs_catalog rs) D"
    and "walk_ok (rs_catalog rs) D (scheduled, closure)" and "held (rs_catalog rs) D x"
    and "set es \<subseteq> set (referencing (rs_catalog rs) (td_id (fst x)))"
  shows "let next = {y. \<exists>f. (fst y, f) \<in> set es \<and> fk_on_delete f = Cascade \<and> snd y \<in> D (td_id (fst y)) \<and>
        \<not> retired (fst y) (snd y) \<and> parent_key f (snd y) = Some (primary_key_values (snd x) (fst x))} in
    case cascade_edges sr t (primary_key_values (snd x) (fst x)) es (scheduled, closure) of
      Inl e \<Rightarrow> e = KernelSchema (CascadeTooLarge (td_name t) CASCADE_LIMIT) \<and> too_many (set closure \<union> next)
    | Inr w \<Rightarrow> walk_ok (rs_catalog rs) D w \<and> set (snd w) = set closure \<union> next \<and> (\<exists>new. snd w = closure @ new)"
  using assms(4,6)
proof (induction es arbitrary: scheduled closure)
  case (Cons e es)
  let ?key = "primary_key_values (snd x) (fst x)"
  let ?next = "\<lambda>es. {y. \<exists>f. (fst y, f) \<in> set es \<and> fk_on_delete f = Cascade \<and> snd y \<in> D (td_id (fst y)) \<and>
        \<not> retired (fst y) (snd y) \<and> parent_key f (snd y) = Some ?key}"
  obtain child f where e: "e = (child, f)" by fastforce
  have es: "set es \<subseteq> set (referencing (rs_catalog rs) (td_id (fst x)))" using Cons.prems(2) by simp
  show ?case
  proof (cases "fk_on_delete f = Cascade")
    case False
    then have "?next (e # es) = ?next es" by (auto simp: e)
    then show ?thesis using Cons.IH [OF Cons.prems(1) es] False by (simp add: e Let_def)
  next
    case True
    have edge: "(child, f) \<in> set (referencing (rs_catalog rs) (td_id (fst x)))" using Cons.prems(2) by (simp add: e)
    then have child: "child \<in> set (cat_tables (rs_catalog rs))" "f \<in> set (td_foreign_keys child)" by (simp_all add: referencing_iff)
    have fit: "parent_fits child f ?key"
      using stored_parent_fits [OF _ _ edge] held_stored [OF assms(1,5)] assms(1,5) by (simp add: serves_def held_def)
    obtain found where found: "referencing_rows sr superuser child f ?key Hidden = Inr found"
      "set found = {s \<in> D (td_id child). parent_key f s = Some ?key \<and> \<not> retired child s}"
      by (rule referencing_rows_exact [OF assms(1-3) child fit, of Hidden]) auto
    have rows: "\<And>row. row \<in> set found \<Longrightarrow> held (rs_catalog rs) D (child, row)" using found(2) child(1) by (simp add: held_def)
    have split: "?next (e # es) = Pair child ` set found \<union> ?next es" using True by (auto simp: e found(2))
    note step = schedule_rows_result [where t = t and rows = found, OF assms(1) Cons.prems(1) rows]
    show ?thesis
    proof (cases "schedule_rows t child found (scheduled, closure)")
      case (Inl err)
      then have "err = KernelSchema (CascadeTooLarge (td_name t) CASCADE_LIMIT)" "too_many (set closure \<union> Pair child ` set found)"
        using step by simp_all
      moreover from this(2) have "too_many (set closure \<union> ?next (e # es))" unfolding split by (rule too_many_mono) auto
      ultimately show ?thesis using Inl True found(1) by (simp add: e Let_def)
    next
      case (Inr w)
      obtain s1 c1 where w: "w = (s1, c1)" by fastforce
      have w1: "walk_ok (rs_catalog rs) D (s1, c1)" "set c1 = set closure \<union> Pair child ` set found" "\<exists>new. c1 = closure @ new"
        using step Inr by (simp_all add: w)
      have run: "cascade_edges sr t ?key (e # es) (scheduled, closure) = cascade_edges sr t ?key es (s1, c1)"
        using Inr True found(1) by (simp add: e w)
      have sets: "set c1 \<union> ?next es = set closure \<union> ?next (e # es)" unfolding split w1(2) by blast
      note rest = Cons.IH [OF w1(1) es, unfolded Let_def sets]
      show ?thesis
      proof (cases "cascade_edges sr t ?key es (s1, c1)")
        case (Inl err)
        then show ?thesis using rest unfolding run Let_def by simp
      next
        case (Inr w')
        then have "\<exists>new. snd w' = closure @ new" using rest w1(3) by auto
        then show ?thesis using rest Inr unfolding run Let_def by simp
      qed
    qed
  qed
qed simp


lemma cascade_loop_result:
  fixes sr :: "(MemoryTransaction \<times> Shared, 's, 'w) SecuredReads"
  assumes "serves memory_ok memory_view rs D st" and "reads_transaction sr rs st" and "tables_readable sr (rs_catalog rs) D"
    and "walk_ok (rs_catalog rs) D (scheduled, closure)" and "x \<in> set closure"
    and "\<And>y. y \<in> set closure \<Longrightarrow> (cascades (rs_catalog rs) D)\<^sup>*\<^sup>* x y"
    and "\<And>k y. k < at \<Longrightarrow> k < length closure \<Longrightarrow> cascades (rs_catalog rs) D (closure ! k) y \<Longrightarrow> y \<in> set closure"
  shows "let reached = {y. (cascades (rs_catalog rs) D)\<^sup>*\<^sup>* x y} in
    case cascade_loop sr (rs_catalog rs) t at (scheduled, closure) of
      Inl e \<Rightarrow> e = KernelSchema (CascadeTooLarge (td_name t) CASCADE_LIMIT) \<and> too_many reached
    | Inr w \<Rightarrow> walk_ok (rs_catalog rs) D w \<and> set (snd w) = reached \<and> (\<exists>new. snd w = closure @ new)"
  using assms(2-7)
proof (induction sr "rs_catalog rs" t at "(scheduled, closure)" arbitrary: scheduled closure rule: cascade_loop.induct [case_names step])
  case (step sr t at scheduled closure)
  let ?c = "rs_catalog rs"
  let ?reached = "{y. (cascades ?c D)\<^sup>*\<^sup>* x y}"
  show ?case
  proof (cases "at < length closure")
    case False
    have "y \<in> set closure" if z: "z \<in> set closure" "cascades ?c D z y" for y z
    proof -
      obtain k where "k < length closure" "z = closure ! k" using z(1) by (auto simp: in_set_conv_nth)
      then show ?thesis using step.prems(6) [of k y] False z(2) by simp
    qed
    then have "set closure = ?reached" using step.prems(4,5) by (intro walk_complete) auto
    moreover have "cascade_loop sr ?c t at (scheduled, closure) = Inr (scheduled, closure)" using False by (simp add: cascade_loop.simps)
    ultimately show ?thesis using step.prems(3) by simp
  next
    case True
    obtain parent row where at: "closure ! at = (parent, row)" by fastforce
    have mem: "(parent, row) \<in> set closure" using True at nth_mem by metis
    then have held: "held ?c D (parent, row)" using step.prems(3) by (simp add: walk_ok_def)
    let ?key = "primary_key_values row parent" and ?es = "referencing ?c (td_id parent)"
    let ?next = "{y. \<exists>f. (fst y, f) \<in> set ?es \<and> fk_on_delete f = Cascade \<and> snd y \<in> D (td_id (fst y)) \<and>
        \<not> retired (fst y) (snd y) \<and> parent_key f (snd y) = Some ?key}"
    have nextv: "?next = {y. cascades ?c D (parent, row) y}" by (simp add: cascades_def)
    have within: "set closure \<union> ?next \<subseteq> ?reached"
      using step.prems(5) step.prems(5) [OF mem] unfolding nextv by (auto intro: rtranclp.rtrancl_into_rtrancl)
    note edges = cascade_edges_result [OF assms(1) step.prems(1-3) held, of ?es t, simplified fst_conv snd_conv Let_def, OF subset_refl]
    show ?thesis
    proof (cases "cascade_edges sr t ?key ?es (scheduled, closure)")
      case (Inl e)
      then have "cascade_loop sr ?c t at (scheduled, closure) = Inl e" using True at by (simp add: cascade_loop.simps)
      moreover have "e = KernelSchema (CascadeTooLarge (td_name t) CASCADE_LIMIT)" "too_many (set closure \<union> ?next)"
        using edges Inl by simp_all
      ultimately show ?thesis using too_many_mono within by (simp add: Let_def)
    next
      case (Inr w)
      obtain s1 c1 where w: "w = (s1, c1)" by fastforce
      have run: "cascade_loop sr ?c t at (scheduled, closure) = cascade_loop sr ?c t (at + 1) (s1, c1)"
        using True at Inr by (simp add: cascade_loop.simps [of sr ?c t at] w)
      have w1: "walk_ok ?c D (s1, c1)" "set c1 = set closure \<union> ?next" "\<exists>new. c1 = closure @ new"
        using edges Inr by (simp_all add: w)
      obtain new where c1: "c1 = closure @ new" using w1(3) by blast
      have closed: "y \<in> set c1" if k: "k < at + 1" "k < length c1" "cascades ?c D (c1 ! k) y" for k y
      proof (cases "k < at")
        case False
        then have "cascades ?c D (parent, row) y" using k True at by (simp add: c1 nth_append less_Suc_eq)
        then show ?thesis unfolding w1(2) nextv by simp
      qed (use k(3) step.prems(6) [of k y] True in \<open>simp add: c1 nth_append\<close>)
      have start: "x \<in> set c1" and reach: "\<And>y. y \<in> set c1 \<Longrightarrow> (cascades ?c D)\<^sup>*\<^sup>* x y"
        using step.prems(4) within by (auto simp: w1(2))
      have rest: "case cascade_loop sr ?c t (at + 1) (s1, c1) of
          Inl e \<Rightarrow> e = KernelSchema (CascadeTooLarge (td_name t) CASCADE_LIMIT) \<and> too_many ?reached
        | Inr w \<Rightarrow> walk_ok ?c D w \<and> set (snd w) = ?reached \<and> (\<exists>new. snd w = c1 @ new)"
        by (rule step.hyps [OF True at [symmetric] refl Inr [unfolded w] step.prems(1,2) w1(1) start reach, unfolded Let_def])
          (assumption, rule closed)
      show ?thesis
      proof (cases "cascade_loop sr ?c t (at + 1) (s1, c1)")
        case (Inl err)
        then show ?thesis using rest unfolding run Let_def by simp
      next
        case (Inr w')
        then have "\<exists>new. snd w' = closure @ new" using rest w1(3) by auto
        then show ?thesis using rest Inr unfolding run Let_def by simp
      qed
    qed
  qed
qed


section \<open>References that restrict\<close>

text \<open>The rows of a child that keep a row of a closure from going: they hold its key under a reference that
  restricts, and stay.\<close>

definition blockers ::
  "database \<Rightarrow> (TableDef \<times> Row) set \<Rightarrow> TableDef \<times> Row \<Rightarrow> TableDef \<Rightarrow> ForeignKeyDef \<Rightarrow> Row set" where
  "blockers D S x t f =
     {s \<in> D (td_id t). parent_key f s = Some (primary_key_values (snd x) (fst x)) \<and> (t, s) \<notin> S}"

definition restricting :: "Catalog \<Rightarrow> TableDef \<times> Row \<Rightarrow> (TableDef \<times> ForeignKeyDef) set" where
  "restricting c x = {(t, f). (t, f) \<in> set (referencing c (td_id (fst x))) \<and> fk_on_delete f = Restrict}"

definition restricted_error :: "TableDef \<times> Row \<Rightarrow> TableDef \<Rightarrow> ForeignKeyDef \<Rightarrow> Row set \<Rightarrow> KernelError" where
  "restricted_error x t f B =
     KernelSchema (ForeignKeyRestricted (td_name (fst x)) (td_name t) (fk_name f) (\<forall>s\<in>B. retired t s))"

lemma all_retired:
  "B \<noteq> [] \<Longrightarrow>
   (case td_soft_delete t of
      None \<Rightarrow> False
    | Some column \<Rightarrow> list_all (\<lambda>row. get row column \<noteq> None \<and> get row column \<noteq> Some Null) B) \<longleftrightarrow>
   (\<forall>s\<in>set B. retired t s)"
  by (cases "td_soft_delete t") (auto simp: retired_def list_all_iff neq_Nil_conv simp del: get_eq_Some get_eq_None)

lemma restrict_edges_result:
  fixes sr :: "(MemoryTransaction \<times> Shared, 's, 'w) SecuredReads"
  assumes "serves memory_ok memory_view rs D st" and "reads_transaction sr rs st" and "tables_readable sr (rs_catalog rs) D"
    and "walk_ok (rs_catalog rs) D (scheduled, closure)" and "held (rs_catalog rs) D x"
    and "set es \<subseteq> set (referencing (rs_catalog rs) (td_id (fst x)))"
  shows "case restrict_edges sr scheduled (fst x) (primary_key_values (snd x) (fst x)) es of
      Inl e \<Rightarrow> \<exists>t f. (t, f) \<in> set es \<and> fk_on_delete f = Restrict \<and> blockers D (set closure) x t f \<noteq> {} \<and>
        e = restricted_error x t f (blockers D (set closure) x t f)
    | Inr _ \<Rightarrow> \<forall>(t, f)\<in>set es. fk_on_delete f = Restrict \<longrightarrow> blockers D (set closure) x t f = {}"
  using assms(6)
proof (induction es)
  case (Cons e es)
  let ?key = "primary_key_values (snd x) (fst x)" and ?S = "set closure"
  obtain child f where e: "e = (child, f)" by fastforce
  have es: "set es \<subseteq> set (referencing (rs_catalog rs) (td_id (fst x)))" using Cons.prems by simp
  have skip: ?case if "restrict_edges sr scheduled (fst x) ?key (e # es) = restrict_edges sr scheduled (fst x) ?key es"
    "fk_on_delete f = Restrict \<longrightarrow> blockers D ?S x child f = {}"
    using Cons.IH [OF es] that(2) unfolding that(1) by (auto simp: e split: sum.splits)
  show ?case
  proof (cases "fk_on_delete f = Restrict")
    case False
    then show ?thesis by (intro skip) (simp_all add: e)
  next
    case True
    have edge: "(child, f) \<in> set (referencing (rs_catalog rs) (td_id (fst x)))" using Cons.prems by (simp add: e)
    then have child: "child \<in> set (cat_tables (rs_catalog rs))" "f \<in> set (td_foreign_keys child)" by (simp_all add: referencing_iff)
    have fit: "parent_fits child f ?key"
      using stored_parent_fits [OF _ _ edge] held_stored [OF assms(1,5)] assms(1,5) by (simp add: serves_def held_def)
    obtain found where found: "referencing_rows sr superuser child f ?key Visible = Inr found"
      "set found = {s \<in> D (td_id child). parent_key f s = Some ?key}"
      by (rule referencing_rows_exact [OF assms(1-3) child fit, of Visible]) auto
    have inv: "scheduled = pair_key ` ?S" "\<forall>y\<in>?S. held (rs_catalog rs) D y" using assms(4) by (simp_all add: walk_ok_def)
    have seen: "key_of child s \<in> scheduled \<longleftrightarrow> (child, s) \<in> ?S" if "s \<in> set found" for s
    proof
      have s: "held (rs_catalog rs) D (child, s)" using that found(2) child(1) by (simp add: held_def)
      assume "key_of child s \<in> scheduled"
      then obtain y where "y \<in> ?S" "pair_key y = pair_key (child, s)" using inv(1) by auto
      then show "(child, s) \<in> ?S" using held_key_inj [OF assms(1) _ s] inv(2) by metis
    qed (use inv(1) in force)
    let ?B = "filter (\<lambda>row. key_of child row \<notin> scheduled) found"
    have B: "set ?B = blockers D ?S x child f" using seen found(2) by (auto simp: blockers_def)
    show ?thesis
    proof (cases "?B = []")
      case empty: True
      show ?thesis
      proof (rule skip)
        show "restrict_edges sr scheduled (fst x) ?key (e # es) = restrict_edges sr scheduled (fst x) ?key es"
          using empty True found(1) by (simp add: e Let_def)
        show "fk_on_delete f = Restrict \<longrightarrow> blockers D ?S x child f = {}" unfolding B [symmetric] using empty by simp
      qed
    next
      case False
      then have "restrict_edges sr scheduled (fst x) ?key (e # es) = Inl (restricted_error x child f (set ?B))"
        using True found(1) all_retired [OF False, of child] by (simp add: e Let_def restricted_error_def)
      moreover have "blockers D ?S x child f \<noteq> {}" using False unfolding B [symmetric] set_empty .
      ultimately show ?thesis using True unfolding B by (auto simp: e)
    qed
  qed
qed simp


section \<open>What one delete removes\<close>

definition doomed :: "Catalog \<Rightarrow> database \<Rightarrow> TableDef \<times> Row \<Rightarrow> (TableDef \<times> Row) set" where
  "doomed c D x = {y. (cascades c D)\<^sup>*\<^sup>* x y}"

text \<open>C30. The tables a cascade is authorised against are exactly those that cascading references lead to
  from the table, which itself is not among them, each once: they depend on the schema alone, and a
  cycle of references ends the walk like any other.\<close>

theorem cascade_reachable_exact:
  assumes "catalog_ok c"
  shows "distinct (cascade_reachable c t) \<and>
    set (cascade_reachable c t) =
      {u \<in> set (cat_tables c). td_id u \<noteq> td_id t \<and> (cascade_edge c)\<^sup>*\<^sup>* (td_id t) (td_id u)}"
proof -
  let ?out = "cascade_reachable c t"
  have out: "distinct (td_id t # map td_id ?out)" "set ?out \<subseteq> set (cat_tables c)"
    "set (td_id t # map td_id ?out) = {j. (cascade_edge c)\<^sup>*\<^sup>* (td_id t) j}"
    using reach_loop_exact [of "[td_id t]" "td_id t" "[]" c 0] by (simp_all add: cascade_reachable_def)
  have "u \<in> set ?out" if u: "u \<in> set (cat_tables c)" "td_id u \<noteq> td_id t" "(cascade_edge c)\<^sup>*\<^sup>* (td_id t) (td_id u)" for u
  proof -
    obtain v where "v \<in> set ?out" "td_id v = td_id u" using out(3) u(2,3) by fastforce
    moreover have "inj_on td_id (set (cat_tables c))" using assms by (simp add: catalog_ok_def distinct_map)
    ultimately show ?thesis using u(1) out(2) by (metis inj_onD subsetD)
  qed
  moreover have "td_id u \<noteq> td_id t \<and> (cascade_edge c)\<^sup>*\<^sup>* (td_id t) (td_id u)" if "u \<in> set ?out" for u
  proof -
    have "td_id u \<in> set (td_id t # map td_id ?out)" using that by simp
    moreover have "td_id t \<notin> td_id ` set ?out" using out(1) by simp
    ultimately show ?thesis using imageI [OF that, of td_id] unfolding out(3) by auto
  qed
  moreover have "distinct ?out" using out(1) by (simp add: distinct_map)
  ultimately show ?thesis using out(2) by blast
qed

lemma try_each_Inl: "try_each f xs = Inl e \<Longrightarrow> \<exists>x\<in>set xs. f x = Inl e"
proof (induction xs)
  case (Cons x xs)
  then show ?case by (cases "f x") auto
qed simp

lemma isolated_row:
  assumes "referencing c (td_id (fst x)) = []"
  shows "doomed c D x = {x}"
proof -
  have "\<not> cascades c D x y" for y using assms by (simp add: cascades_def)
  then show ?thesis unfolding doomed_def by (auto elim: converse_rtranclpE)
qed

text \<open>What the walk from a row answers, for a caller who may delete from the tables granted.\<close>

definition closure_spec ::
  "Catalog \<Rightarrow> database \<Rightarrow> (TableDef \<Rightarrow> bool) \<Rightarrow> TableDef \<times> Row \<Rightarrow> KernelError + (TableDef \<times> Row) list \<Rightarrow> bool" where
  "closure_spec c D granted root result \<longleftrightarrow>
     (let S = doomed c D root in
      case result of
        Inr closure \<Rightarrow>
          distinct closure \<and> set closure = S \<and> hd closure = root \<and> length closure \<le> CASCADE_LIMIT \<and>
          (\<forall>u\<in>set (cascade_reachable c (fst root)). granted u) \<and>
          (\<forall>x\<in>S. \<forall>(u, f)\<in>restricting c x. blockers D S x u f = {})
      | Inl e \<Rightarrow>
          (\<exists>u\<in>set (cascade_reachable c (fst root)). \<not> granted u \<and> e = AccessDenied (td_name u) (action_name Delete)) \<or>
          e = KernelSchema (CascadeTooLarge (td_name (fst root)) CASCADE_LIMIT) \<and> too_many S \<or>
          (\<exists>x\<in>S. \<exists>(u, f)\<in>restricting c x. blockers D S x u f \<noteq> {} \<and> e = restricted_error x u f (blockers D S x u f)))"

lemma deletion_closure_result:
  fixes sr :: "(MemoryTransaction \<times> Shared, 's, 'w) SecuredReads"
  assumes "serves memory_ok memory_view rs D st" and "reads_transaction sr rs st" and "tables_readable sr (rs_catalog rs) D"
    and "t \<in> set (cat_tables (rs_catalog rs))" and "row \<in> D (td_id t)"
  shows "closure_spec (rs_catalog rs) D (\<lambda>u. grants (sr_security sr) ctx u Delete) (t, row)
    (deletion_closure sr (rs_catalog rs) ctx t row)"
proof (cases "referencing (rs_catalog rs) (td_id t) = []")
  case True
  let ?c = "rs_catalog rs"
  have "cascade_reachable ?c t = []" using True by (simp add: cascade_reachable_def reach_loop.simps)
  then show ?thesis
    using True isolated_row [of ?c "(t, row)" D] by (simp add: closure_spec_def deletion_closure_def restricting_def CASCADE_LIMIT_def)
next
  case False
  let ?c = "rs_catalog rs" and ?S = "doomed (rs_catalog rs) D (t, row)"
  let ?w0 = "({key_of t row}, [(t, row)])"
  have "walk_ok ?c D ?w0" using assms(4,5) by (simp add: walk_ok_def held_def CASCADE_LIMIT_def)
  then have "case cascade_loop sr ?c t 0 ?w0 of
      Inl e \<Rightarrow> e = KernelSchema (CascadeTooLarge (td_name t) CASCADE_LIMIT) \<and> too_many ?S
    | Inr w \<Rightarrow> walk_ok ?c D w \<and> set (snd w) = ?S \<and> (\<exists>new. snd w = [(t, row)] @ new)"
    unfolding doomed_def by (rule cascade_loop_result [OF assms(1-3), unfolded Let_def]) auto
  then have walk: "case cascade_loop sr ?c t 0 ?w0 of
      Inl e \<Rightarrow> e = KernelSchema (CascadeTooLarge (td_name t) CASCADE_LIMIT) \<and> too_many ?S
    | Inr w \<Rightarrow> walk_ok ?c D w \<and> set (snd w) = ?S \<and> (\<exists>new. snd w = (t, row) # new)"
    by (simp only: append_Cons append_Nil)
  let ?auth = "try_each (\<lambda>u. authorize (sr_security sr) ctx u Delete) (cascade_reachable ?c t)"
  show ?thesis
  proof (cases ?auth)
    case (Inl e)
    then have "\<exists>u\<in>set (cascade_reachable ?c t). \<not> grants (sr_security sr) ctx u Delete \<and> e = AccessDenied (td_name u) (action_name Delete)"
      using try_each_Inl [OF Inl] by (auto simp: authorize_def split: if_splits)
    moreover have "deletion_closure sr ?c ctx t row = Inl e" using False Inl by (simp add: deletion_closure_def)
    ultimately show ?thesis by (simp add: closure_spec_def Let_def)
  next
    case auth: (Inr u)
    then have granted: "\<forall>u\<in>set (cascade_reachable ?c t). grants (sr_security sr) ctx u Delete"
      by (auto simp: try_each_ok authorize_def split: if_splits)
    show ?thesis
    proof (cases "cascade_loop sr ?c t 0 ?w0")
      case (Inl e)
      then have "deletion_closure sr ?c ctx t row = Inl e" using False auth by (simp add: deletion_closure_def)
      then show ?thesis using walk Inl by (simp add: closure_spec_def Let_def)
    next
      case (Inr w)
      obtain scheduled closure where w: "w = (scheduled, closure)" by fastforce
      have ok: "walk_ok ?c D (scheduled, closure)" "set closure = ?S" "\<exists>new. closure = (t, row) # new"
        using walk Inr by (simp_all add: w)
      let ?check = "\<lambda>x. restrict_edges sr scheduled (fst x) (primary_key_values (snd x) (fst x)) (referencing ?c (td_id (fst x)))"
      have run: "deletion_closure sr ?c ctx t row = rbind (try_each ?check closure) (\<lambda>_. Inr closure)"
        using False auth Inr by (simp add: deletion_closure_def w split_def)
      have checked: "case ?check x of
          Inl e \<Rightarrow> \<exists>(u, f)\<in>restricting ?c x. blockers D ?S x u f \<noteq> {} \<and> e = restricted_error x u f (blockers D ?S x u f)
        | Inr _ \<Rightarrow> \<forall>(u, f)\<in>restricting ?c x. blockers D ?S x u f = {}" if "x \<in> set closure" for x
      proof -
        have "held ?c D x" using ok(1) that by (simp add: walk_ok_def)
        from restrict_edges_result [OF assms(1-3) ok(1) this subset_refl] show ?thesis
          unfolding ok(2) by (auto simp: restricting_def split: sum.splits)
      qed
      show ?thesis
      proof (cases "try_each ?check closure")
        case (Inl e)
        from try_each_Inl [OF this] obtain x where x: "x \<in> set closure" "?check x = Inl e" by blast
        then have "x \<in> ?S" "\<exists>(u, f)\<in>restricting ?c x. blockers D ?S x u f \<noteq> {} \<and> e = restricted_error x u f (blockers D ?S x u f)"
          using checked [OF x(1)] ok(2) by simp_all
        moreover have "deletion_closure sr ?c ctx t row = Inl e" using run Inl by simp
        ultimately show ?thesis by (simp add: closure_spec_def Let_def) blast
      next
        case (Inr u)
        then have "\<forall>x\<in>set closure. ?check x = Inr ()" by (simp add: try_each_ok)
        then have "\<forall>(u, f)\<in>restricting ?c x. blockers D ?S x u f = {}" if "x \<in> ?S" for x
          using checked [of x] that unfolding ok(2) by simp
        moreover have "distinct closure" "length closure \<le> CASCADE_LIMIT" "hd closure = (t, row)" using ok(1,3) by (auto simp: walk_ok_def)
        ultimately show ?thesis using run Inr ok(2) granted by (simp add: closure_spec_def Let_def)
      qed
    qed
  qed
qed

text \<open>C20. A delete knows its whole consequence before it writes. From a row of the database the walk
  either gives the row and everything that cascading references of rows not yet retired lead to, each
  once, at most ten thousand, with the caller authorised on every table a cascade could reach and no
  restricting reference from outside into any of it; or it is refused, because such a grant is missing,
  because more rows would go than the limit allows, or because a restricting reference would be left,
  in which case the error says whether every row that blocks is retired. Row policies have no part in
  it.\<close>

theorem deletion_closure_exact:
  fixes sr :: "(MemoryTransaction \<times> Shared, 's, 'w) SecuredReads"
  assumes "serves memory_ok memory_view rs D st" and "reads_transaction sr rs st" and "tables_readable sr (rs_catalog rs) D"
    and "t \<in> set (cat_tables (rs_catalog rs))" and "row \<in> D (td_id t)"
  shows "closure_spec (rs_catalog rs) D (\<lambda>u. grants (sr_security sr) ctx u Delete) (t, row)
    (deletion_closure sr (rs_catalog rs) ctx t row)"
  using assms by (rule deletion_closure_result)

end
