(* ===== verification/Record_Removal.thy ===== *)
theory Record_Removal
  imports Record_Cascade
begin

text \<open>
  What a delete leaves. Removing one row erases it, or on a table with soft delete stamps it retired, in
  the table and in its indexes; a delete removes all it collected and nothing else, is refused with
  nothing written, and leaves every live reference resolved that was resolved before.
\<close>

section \<open>Removing one row\<close>

text \<open>The row a soft delete leaves in the place of one: retired, with managed columns stamped.\<close>

definition retirement :: "TableDef \<Rightarrow> Row \<Rightarrow> Row \<Rightarrow> bool" where
  "retirement t r r' \<longleftrightarrow>
     retired t r' \<and> length r' = length r \<and> primary_key_values r' t = primary_key_values r t \<and>
     (\<forall>i<length r. td_soft_delete t = Some i \<or> col_managed (td_columns t ! i) \<noteq> None \<or> r' ! i = r ! i)"

text \<open>What the code relies on when it retires rows without a check of unique indexes: the column is a
  live one, and a retired row takes no entry of a unique index that the live row did not have.\<close>

definition retires_ok :: "Unicode \<Rightarrow> TableDef \<Rightarrow> Row set \<Rightarrow> bool" where
  "retires_ok u t R \<longleftrightarrow>
     (\<forall>i. td_soft_delete t = Some i \<longrightarrow> \<not> is_dropped (td_columns t ! i)) \<and>
     (\<forall>r\<in>R. \<forall>r'. retirement t r r' \<longrightarrow>
        length (encode_body t r') < 2 ^ 64 \<and>
        (\<forall>ix\<in>set (td_indexes t). ix_unique ix \<longrightarrow> set (held_entries u t ix r') \<subseteq> set (held_entries u t ix r)))"

lemma overwritten_ok:
  assumes "table_ok t" and "computes_ok t" and "stored_ok t row" and "length r = length row"
    and at: "\<And>i. i < length row \<Longrightarrow> r ! i = row ! i \<or>
      i \<notin> set (td_primary_key t) \<and> col_ty (td_columns t ! i) = TI64 \<and> \<not> is_dropped (td_columns t ! i) \<and> (\<exists>w. r ! i = I64 w)"
  shows "stored_ok t r \<and> primary_key_values r t = primary_key_values row t"
proof -
  have valid: "row_valid t row" "list_all wf_value row" "canonical row" "length (key_of t row) < 2 ^ 64"
    using assms(3) by (auto simp: stored_ok_def row_ok_def)
  then have len: "length row = length (td_columns t)" by (simp add: row_valid_def)
  have "value_or_null r i = value_or_null row i" if "i \<in> set (td_primary_key t)" for i
    using at [of i] key_column_live [OF assms(1) that] that assms(4) len by (simp add: value_or_null_less)
  then have key: "primary_key_values r t = primary_key_values row t" by (simp add: primary_key_values_def project_def)
  have cell: "wf_value (r ! i) \<and> canon (r ! i) = r ! i \<and> column_accepts (td_columns t ! i) (r ! i)" if "i < length r" for i
    using at [of i] that valid assms(4)
    by (cases "r ! i = row ! i") (auto simp: list_all_length canonical_def list_eq_iff_nth_eq row_valid_def column_accepts_def [of _ "I64 _"])
  then have "list_all wf_value r" "canonical r" by (auto simp: list_all_length canonical_def list_eq_iff_nth_eq)
  moreover from this have "row_valid t r" using cell assms(2,4) len by (auto simp: row_valid_def computes_ok_def)
  ultimately show ?thesis
    using assms(2,4) key valid(4) len by (auto simp: stored_ok_def row_ok_def computed_wf_def computes_ok_def)
qed

context kv_transaction
begin

lemma erase_run:
  assumes "rs_kv rs = kv" and "serves ok view rs D st" and "t \<in> set (cat_tables (rs_catalog rs))" and "r \<in> D (td_id t)"
  shows "\<exists>st'. erase_row rs t r st = (Inr (), st') \<and> serves ok view rs (D(td_id t := D (td_id t) - {r})) st'"
proof -
  let ?u = "env_unicode (rs_env rs)"
  have s: "healthy ok st" "schema_ok (rs_catalog rs)" "database_of rs D (view (rt_txn st))" "unicode_ok ?u"
    using assms(2) by (auto simp: serves_def)
  have T: "table_ok t" "represents ?u t (D (td_id t)) (view (rt_txn st))" using s(2,3) assms(3) by (auto simp: schema_ok_def database_of_def)
  from acts_Inr [OF acts_erase [OF assms(1)] s(1)] obtain st' where st': "erase_row rs t r st = (Inr (), st')" "healthy ok st'"
    "view (rt_txn st') = erase_map ?u t r (view (rt_txn st))" by blast
  have erased: "represents ?u t (D (td_id t) - {r}) (view (rt_txn st'))" "\<And>k. \<not> own_key t k \<Longrightarrow> view (rt_txn st') k = view (rt_txn st) k"
    using erase_map_ok [OF T(1) s(4) T(2) assms(4)] st'(3) by auto
  show ?thesis using st'(1,2) s database_update [OF s(2,3) assms(3) erased] by (auto simp: serves_def)
qed

lemma retire_run:
  assumes "rs_kv rs = kv" and "serves ok view rs D st" and "t \<in> set (cat_tables (rs_catalog rs))" and "r \<in> D (td_id t)"
    and "td_soft_delete t = Some c" and "retires_ok (env_unicode (rs_env rs)) t {r}"
  shows "\<exists>st' r'. remove_row rs t r st = (Inr (), st') \<and> retirement t r r' \<and>
    serves ok view rs (D(td_id t := insert r' (D (td_id t) - {r}))) st'"
proof -
  let ?u = "env_unicode (rs_env rs)" and ?R = "D (td_id t)"
  have s: "healthy ok st" "schema_ok (rs_catalog rs)" "database_of rs D (view (rt_txn st))" "unicode_ok ?u"
    using assms(2) by (auto simp: serves_def)
  have T: "table_ok t" "versions_ok t" "evolvable t" "computes_ok t" "managed_live t" "represents ?u t ?R (view (rt_txn st))"
    using s(2,3) assms(3) by (auto simp: schema_ok_def database_of_def)
  have ok: "stored_ok t r" "length r = length (td_columns t)"
    using T(6) assms(4) row_ok_length by (auto simp: represents_def stored_ok_def)
  have soft: "c < length r" "c \<notin> set (td_primary_key t)" "col_ty (td_columns t ! c) = TI64" "\<not> is_dropped (td_columns t ! c)"
    "col_managed (td_columns t ! c) = None"
    using T(1) assms(5,6) ok(2) by (auto simp: table_ok_def Let_def soft_delete_ok_def retires_ok_def)
  define st1 where "st1 = st\<lparr>rt_ticks := rt_ticks st + 1\<rparr>"
  define row where "row = r[c := I64 (rs_clock rs (rt_ticks st))]"
  define r' where "r' = stamped_row rs t row (Some r) st1"
  have st1: "healthy ok st1" "view (rt_txn st1) = view (rt_txn st)" using s(1) by (simp_all add: st1_def healthy_def)
  have run: "remove_row rs t r st = write_row_with rs t row (Some r) False st1"
    using assms(5) soft(1) by (simp add: remove_row_def sbind_def clock_now_def st1_def row_def)
  have stamp: "length r' = length row \<and> (r' ! i = row ! i \<or>
      col_managed (td_columns t ! i) \<noteq> None \<and> col_ty (td_columns t ! i) = TI64 \<and> (\<exists>w. r' ! i = I64 w))" if "i < length r" for i
    using stamped_nth [of row t i r' rs "Some r" st1] that ok(2) by (simp add: row_def r'_def)
  have len: "length r' = length r" by (simp add: r'_def stamped_row_def row_def)
  have cells: "r' ! i = r ! i \<or>
      i \<notin> set (td_primary_key t) \<and> col_ty (td_columns t ! i) = TI64 \<and> \<not> is_dropped (td_columns t ! i) \<and> (\<exists>w. r' ! i = I64 w)"
    if "i < length r" for i
  proof (cases "i = c")
    case True
    then show ?thesis using stamp [OF that] soft that by (auto simp: row_def)
  next
    case False
    moreover have "col_managed (td_columns t ! i) = None" if "i \<in> set (td_primary_key t)"
      using T(1) that by (auto simp: table_ok_def Let_def key_ok_def)
    moreover have "\<not> is_dropped (td_columns t ! i)" if "col_managed (td_columns t ! i) \<noteq> None"
      using T(5) that \<open>i < length r\<close> ok(2) by (simp add: managed_live_def)
    ultimately show ?thesis using stamp [OF that] by (auto simp: row_def)
  qed
  have r': "stored_ok t r'" "primary_key_values r' t = primary_key_values r t"
    using overwritten_ok [OF T(1,4) ok(1) len cells] by blast+
  have "r' ! c = I64 (rs_clock rs (rt_ticks st))" using stamp [OF soft(1)] soft(1,5) by (simp add: row_def)
  then have "retired t r'" using assms(5) soft(1) len by (simp add: retired_def get_def)
  moreover have "td_soft_delete t = Some i \<or> col_managed (td_columns t ! i) \<noteq> None \<or> r' ! i = r ! i" if "i < length r" for i
    using stamp [OF that] assms(5) that by (cases "i = c") (auto simp: row_def)
  ultimately have retire: "retirement t r r'" using r'(2) len by (simp add: retirement_def)
  then have fits: "length (encode_body t r') < 2 ^ 64"
    "\<And>ix. ix \<in> set (td_indexes t) \<Longrightarrow> ix_unique ix \<Longrightarrow> set (held_entries ?u t ix r') \<subseteq> set (held_entries ?u t ix r)"
    using assms(6) by (auto simp: retires_ok_def)
  have ready: "write_ready ?u t ?R (view (rt_txn st)) r' (Some r)" "writable t r'"
    using T s(4) r' assms(4) fits(1) by (simp_all add: write_ready_def writable_def replaces_def)
  have free: "\<not> collides ?u t ?R (Some r) r' ix" if "ix \<in> set (td_indexes t)" for ix
  proof
    assume "collides ?u t ?R (Some r) r' ix"
    then obtain s e e' where e: "s \<in> others ?R (Some r)" "e \<in> set (held_entries ?u t ix s)" "e' \<in> set (held_entries ?u t ix r')"
      "en_key e' = en_key e" by (auto simp: collides_def has_key_def)
    have "en_enforces_uniqueness e'" "\<not> has_key (en_key e') (old_entries ?u t ix (Some r))"
      using collision [OF ready(1) that e(1-4)] by blast+
    moreover from this(1) have "e' \<in> set (held_entries ?u t ix r)" using fits(2) [OF that] enforcing_unique e(3) by blast
    ultimately show False by (auto simp: old_entries_def has_key_def)
  qed
  obtain m' where m': "write_map ?u t r' (Some r) False (view (rt_txn st)) = Inr m'"
    "represents ?u t (insert r' (others ?R (Some r))) m'" "\<And>k. \<not> own_key t k \<Longrightarrow> m' k = view (rt_txn st) k"
    using write_map_ok [OF ready free] by blast
  from write_row_run [OF assms(1) st1(1) r'_def, of False] obtain st' where st': "write_row_with rs t row (Some r) False st1 = (Inr (), st')"
    "healthy ok st'" "view (rt_txn st') = m'" unfolding st1(2) m'(1) by auto
  have "others ?R (Some r) = ?R - {r}" by (simp add: others_def)
  then show ?thesis
    using run st' retire s database_update [OF s(2,3) assms(3) m'(2,3)] by (auto simp: serves_def)
qed

end


section \<open>Removing what a delete collected\<close>

text \<open>What is left when a set of rows was removed: the other rows as they were and, on a table with soft
  delete, a retired row for each of its rows in the set; nothing else.\<close>

definition left_after :: "Catalog \<Rightarrow> database \<Rightarrow> (TableDef \<times> Row) set \<Rightarrow> database \<Rightarrow> bool" where
  "left_after c D S D' \<longleftrightarrow>
     (\<forall>t\<in>set (cat_tables c).
        {r \<in> D (td_id t). (t, r) \<notin> S} \<subseteq> D' (td_id t) \<and>
        (\<forall>r'\<in>D' (td_id t). r' \<in> D (td_id t) \<and> (t, r') \<notin> S \<or>
           td_soft_delete t \<noteq> None \<and> (\<exists>r. (t, r) \<in> S \<and> retirement t r r')) \<and>
        (td_soft_delete t \<noteq> None \<longrightarrow> (\<forall>r. (t, r) \<in> S \<longrightarrow> (\<exists>r'\<in>D' (td_id t). retirement t r r'))))"

lemma left_after_step:
  assumes D1: "D1 = D(td_id t := X \<union> (D (td_id t) - {r}))" and left: "left_after c D1 S D'"
    and X: "td_soft_delete t = None \<and> X = {} \<or> td_soft_delete t \<noteq> None \<and> (\<exists>r'. X = {r'} \<and> retirement t r r' \<and> (t, r') \<notin> S)"
    and "(t, r) \<notin> S" and "t \<in> set (cat_tables c)" and ids: "distinct (map td_id (cat_tables c))"
  shows "left_after c D (insert (t, r) S) D'"
  unfolding left_after_def
proof
  fix u assume u: "u \<in> set (cat_tables c)"
  have L: "{s \<in> D1 (td_id u). (u, s) \<notin> S} \<subseteq> D' (td_id u)"
    "\<And>s. s \<in> D' (td_id u) \<Longrightarrow> s \<in> D1 (td_id u) \<and> (u, s) \<notin> S \<or> td_soft_delete u \<noteq> None \<and> (\<exists>q. (u, q) \<in> S \<and> retirement u q s)"
    "\<And>q. td_soft_delete u \<noteq> None \<Longrightarrow> (u, q) \<in> S \<Longrightarrow> \<exists>s\<in>D' (td_id u). retirement u q s"
    using left u unfolding left_after_def by blast+
  show "{s \<in> D (td_id u). (u, s) \<notin> insert (t, r) S} \<subseteq> D' (td_id u) \<and>
      (\<forall>s\<in>D' (td_id u). s \<in> D (td_id u) \<and> (u, s) \<notin> insert (t, r) S \<or>
         td_soft_delete u \<noteq> None \<and> (\<exists>q. (u, q) \<in> insert (t, r) S \<and> retirement u q s)) \<and>
      (td_soft_delete u \<noteq> None \<longrightarrow> (\<forall>q. (u, q) \<in> insert (t, r) S \<longrightarrow> (\<exists>s\<in>D' (td_id u). retirement u q s)))"
  proof (cases "u = t")
    case False
    then have "td_id u \<noteq> td_id t" using u assms(5) ids by (auto simp: distinct_map inj_on_def)
    then have "D1 (td_id u) = D (td_id u)" by (simp add: D1)
    then show ?thesis using L False by auto
  next
    case True
    have rows: "D1 (td_id t) = X \<union> (D (td_id t) - {r})" by (simp add: D1)
    have soft: "\<exists>s\<in>D' (td_id u). retirement u r s" if "td_soft_delete u \<noteq> None"
      using X L(1) [unfolded rows True] that unfolding True by blast
    have old: "s \<in> D (td_id u) \<and> s \<noteq> r \<or> td_soft_delete u \<noteq> None \<and> retirement u r s" if "s \<in> D1 (td_id u)" for s
      using that [unfolded rows True] X unfolding True by blast
    show ?thesis
    proof (intro conjI ballI impI allI)
      show "{s \<in> D (td_id u). (u, s) \<notin> insert (t, r) S} \<subseteq> D' (td_id u)" using L(1) [unfolded rows True] unfolding True by blast
      show "s \<in> D (td_id u) \<and> (u, s) \<notin> insert (t, r) S \<or>
          td_soft_delete u \<noteq> None \<and> (\<exists>q. (u, q) \<in> insert (t, r) S \<and> retirement u q s)" if "s \<in> D' (td_id u)" for s
        using L(2) [OF that] old [of s] unfolding True by blast
      show "\<exists>s\<in>D' (td_id u). retirement u q s" if "td_soft_delete u \<noteq> None" "(u, q) \<in> insert (t, r) S" for q
        using that L(3) soft True by blast
    qed
  qed
qed

context kv_transaction
begin

lemma remove_run:
  assumes "rs_kv rs = kv" and "serves ok view rs D st" and "t \<in> set (cat_tables (rs_catalog rs))" and "r \<in> D (td_id t)"
    and "retires_ok (env_unicode (rs_env rs)) t {r}"
  shows "\<exists>st' X. remove_row rs t r st = (Inr (), st') \<and> serves ok view rs (D(td_id t := X \<union> (D (td_id t) - {r}))) st' \<and>
    (td_soft_delete t = None \<and> X = {} \<or> td_soft_delete t \<noteq> None \<and> (\<exists>r'. X = {r'} \<and> retirement t r r'))"
proof (cases "td_soft_delete t")
  case None
  then show ?thesis using erase_run [OF assms(1-4)] by (auto simp: remove_row_def intro!: exI [of _ "{}"])
next
  case (Some c)
  obtain st' r' where "remove_row rs t r st = (Inr (), st')" "retirement t r r'"
    "serves ok view rs (D(td_id t := insert r' (D (td_id t) - {r}))) st'"
    using retire_run [OF assms(1-4) Some assms(5)] by blast
  then show ?thesis using Some by (intro exI [of _ st'] exI [of _ "{r'}"]) simp
qed

lemma remove_all_run:
  assumes "rs_kv rs = kv" and "serves ok view rs D st" and "distinct xs"
    and "\<And>x. x \<in> set xs \<Longrightarrow> held (rs_catalog rs) D x \<and> retires_ok (env_unicode (rs_env rs)) (fst x) {snd x}"
  shows "\<exists>st' D'. remove_all rs xs st = (Inr (), st') \<and> serves ok view rs D' st' \<and> left_after (rs_catalog rs) D (set xs) D'"
  using assms(2-4)
proof (induction xs arbitrary: D st)
  case Nil
  then show ?case by (auto simp: remove_all_def comp_simps left_after_def)
next
  case (Cons x xs)
  let ?c = "rs_catalog rs"
  obtain t r where x: "x = (t, r)" by fastforce
  have hx: "held ?c D (t, r)" "retires_ok (env_unicode (rs_env rs)) t {r}" using Cons.prems(3) [of x] by (simp_all add: x)
  have t: "t \<in> set (cat_tables ?c)" "r \<in> D (td_id t)" using hx(1) by (simp_all add: held_def)
  have ids: "distinct (map td_id (cat_tables ?c))" using Cons.prems(1) by (simp add: serves_def schema_ok_def catalog_ok_def)
  obtain st1 X where step: "remove_row rs t r st = (Inr (), st1)" "serves ok view rs (D(td_id t := X \<union> (D (td_id t) - {r}))) st1"
    "td_soft_delete t = None \<and> X = {} \<or> td_soft_delete t \<noteq> None \<and> (\<exists>r'. X = {r'} \<and> retirement t r r')"
    using remove_run [OF assms(1) Cons.prems(1) t hx(2)] by blast
  let ?D1 = "D(td_id t := X \<union> (D (td_id t) - {r}))"
  have later: "held ?c D y" "retires_ok (env_unicode (rs_env rs)) (fst y) {snd y}" "y \<noteq> (t, r)" if "y \<in> set xs" for y
    using Cons.prems(2,3) that x by auto
  have "held ?c ?D1 y" if "y \<in> set xs" for y
  proof (cases "fst y = t")
    case True
    then have "snd y \<noteq> r" using later(3) [OF that] by (metis prod.collapse)
    then show ?thesis using later(1) [OF that] True by (simp add: held_def)
  next
    case False
    then have "td_id (fst y) \<noteq> td_id t" using later(1) [OF that] t(1) ids by (auto simp: held_def distinct_map inj_on_def)
    then show ?thesis using later(1) [OF that] by (simp add: held_def)
  qed
  then obtain st' D' where rest: "remove_all rs xs st1 = (Inr (), st')" "serves ok view rs D' st'" "left_after ?c ?D1 (set xs) D'"
    using Cons.IH [OF step(2)] Cons.prems(2) later(2) by (metis distinct.simps(2))
  have "(t, r') \<notin> set xs" if "retirement t r r'" for r'
  proof
    assume mem: "(t, r') \<in> set xs"
    then have "(t, r') = (t, r)"
      using held_key_inj [OF Cons.prems(1) later(1) [OF mem] hx(1)] that by (simp add: retirement_def)
    then show False using later(3) [OF mem] by simp
  qed
  then have "left_after ?c D (insert (t, r) (set xs)) D'"
    using left_after_step [OF refl rest(3) _ _ t(1) ids] step(3) later(3) by blast
  moreover have "remove_all rs (x # xs) st = (Inr (), st')" using step(1) rest(1) by (simp add: remove_all_def x sbind_def)
  ultimately show ?case using rest(2) by (auto simp: x)
qed

end


section \<open>Deleting a row\<close>

text \<open>Every reference of a live row resolves, to a live row.\<close>

definition intact :: "Catalog \<Rightarrow> database \<Rightarrow> bool" where
  "intact c D \<longleftrightarrow>
     (\<forall>t\<in>set (cat_tables c). \<forall>f\<in>set (td_foreign_keys t). \<forall>s\<in>D (td_id t). \<forall>key.
        \<not> retired t s \<longrightarrow> parent_key f s = Some key \<longrightarrow>
        (\<exists>p\<in>set (cat_tables c). td_id p = fk_parent f \<and>
           (\<exists>r\<in>D (td_id p). primary_key_values r p = key \<and> \<not> retired p r)))"

lemma left_intact:
  assumes "closure_spec c D granted root (Inr closure)" and "left_after c D (set closure) D'" and "intact c D"
  shows "intact c D'"
  unfolding intact_def
proof (intro ballI allI impI)
  fix t f s key
  assume t: "t \<in> set (cat_tables c)" "f \<in> set (td_foreign_keys t)" "s \<in> D' (td_id t)" "\<not> retired t s" "parent_key f s = Some key"
  let ?S = "doomed c D root"
  have S: "set closure = ?S" "\<forall>x\<in>?S. \<forall>(u, f)\<in>restricting c x. blockers D ?S x u f = {}"
    using assms(1) by (auto simp: closure_spec_def Let_def)
  have "s \<in> D (td_id t)" "(t, s) \<notin> ?S"
    using assms(2) t(1,3,4) unfolding left_after_def S(1) by (auto simp: retirement_def)
  then obtain p r where p: "p \<in> set (cat_tables c)" "td_id p = fk_parent f" "r \<in> D (td_id p)" "primary_key_values r p = key" "\<not> retired p r"
    using assms(3) t unfolding intact_def by blast
  have edge: "(t, f) \<in> set (referencing c (td_id p))" using t(1,2) p(2) by (simp add: referencing_iff)
  have "(p, r) \<notin> ?S"
  proof
    assume root: "(p, r) \<in> ?S"
    show False
    proof (cases "fk_on_delete f")
      case Restrict
      then have "blockers D ?S (p, r) t f = {}" using S(2) root edge by (fastforce simp: restricting_def)
      then show False using \<open>s \<in> D (td_id t)\<close> \<open>(t, s) \<notin> ?S\<close> t(5) p(4) by (auto simp: blockers_def)
    next
      case Cascade
      then have "cascades c D (p, r) (t, s)" using edge \<open>s \<in> D (td_id t)\<close> t(4,5) p(4) by (auto simp: cascades_def)
      then have "(t, s) \<in> ?S" using root unfolding doomed_def by (auto intro: rtranclp.rtrancl_into_rtrancl)
      then show False using \<open>(t, s) \<notin> ?S\<close> by blast
    qed
  qed
  then have "r \<in> D' (td_id p)" using assms(2) p(1,3) unfolding left_after_def S(1) by blast
  then show "\<exists>p\<in>set (cat_tables c). td_id p = fk_parent f \<and> (\<exists>r\<in>D' (td_id p). primary_key_values r p = key \<and> \<not> retired p r)"
    using p by blast
qed

lemma doomed_held:
  assumes "held c D x" and "y \<in> doomed c D x"
  shows "held c D y"
proof -
  have "(cascades c D)\<^sup>*\<^sup>* x y" using assms(2) by (simp add: doomed_def)
  then show ?thesis using assms(1)
    by (induction rule: rtranclp_induct) (auto simp: cascades_def held_def referencing_iff)
qed

text \<open>The caller may delete from a table, and may delete a row of it.\<close>

abbreviation may_delete :: "'x RecordStore \<Rightarrow> SecurityContext \<Rightarrow> TableDef \<Rightarrow> bool" where
  "may_delete rs ctx u \<equiv> grants (rs_security rs) ctx u Delete"

abbreviation permitted :: "'x RecordStore \<Rightarrow> SecurityContext \<Rightarrow> TableDef \<Rightarrow> Row \<Rightarrow> KernelError + bool" where
  "permitted rs ctx t row \<equiv> permits_row_with (rs_env rs) (rs_security rs) ctx t Delete row Hidden"

text \<open>A delete, branch by branch: the grant, the row under the key, whether the caller may delete it, the walk
  from it, and the removal of what was collected.\<close>

definition delete_outcome ::
  "'x RecordStore \<Rightarrow> ('x, 's, 'w) SecuredReads \<Rightarrow> SecurityContext \<Rightarrow> TableDef \<Rightarrow> Row option \<Rightarrow> 'x RecordTransaction \<Rightarrow>
     (KernelError + (TableDef \<times> Row) list option)" where
  "delete_outcome rs given ctx t found st =
     rbind (authorize (rs_security rs) ctx t Delete) (\<lambda>_.
     case found of
       None \<Rightarrow> Inr None
     | Some row \<Rightarrow>
         rbind (permitted rs ctx t row) (\<lambda>b.
         if \<not> b then Inr None
         else rbind (deletion_closure (reads_of rs given st) (rs_catalog rs) ctx t row) (\<lambda>closure. Inr (Some closure))))"

lemma rbind_eq_Inl: "rbind m k = Inl e \<longleftrightarrow> m = Inl e \<or> (\<exists>x. m = Inr x \<and> k x = Inl e)"
  by (cases m) auto

context kv_transaction
begin

lemma delete_row_run:
  assumes "read_row_unchecked rs t key st = (Inr found, st)"
  shows "delete_row rs given ctx t key st =
    (case delete_outcome rs given ctx t found st of
       Inl e \<Rightarrow> (Inl e, st)
     | Inr None \<Rightarrow> (Inr False, st)
     | Inr (Some closure) \<Rightarrow> sbind (remove_all rs closure) (\<lambda>_. sreturn True) st)"
proof (cases "grants (rs_security rs) ctx t Delete")
  case True
  show ?thesis
  proof (cases found)
    case None
    then show ?thesis
      using True assms by (simp add: delete_row_def delete_outcome_def authorize_def visible_row_def visible_row_with_def sbind_def comp_simps)
  next
    case (Some row)
    show ?thesis
    proof (cases "permitted rs ctx t row")
      case (Inl e)
      then show ?thesis
        using True Some assms by (simp add: delete_row_def delete_outcome_def authorize_def visible_row_def visible_row_with_def sbind_def comp_simps)
    next
      case (Inr b)
      then show ?thesis
        using True Some assms
        by (cases b; cases "deletion_closure (reads_of rs given st) (rs_catalog rs) ctx t row")
          (simp_all add: delete_row_def delete_outcome_def authorize_def visible_row_def visible_row_with_def sbind_def comp_simps reading_def)
    qed
  qed
qed (simp add: delete_row_def delete_outcome_def authorize_def sbind_def comp_simps)

lemma closure_removed:
  assumes "rs_kv rs = kv" and "serves ok view rs D st" and "held (rs_catalog rs) D root"
    and "closure_spec (rs_catalog rs) D granted root (Inr closure)"
    and "\<forall>u\<in>set (cat_tables (rs_catalog rs)). retires_ok (env_unicode (rs_env rs)) u (D (td_id u))"
  shows "\<exists>st' D'. remove_all rs closure st = (Inr (), st') \<and> serves ok view rs D' st' \<and>
    left_after (rs_catalog rs) D (doomed (rs_catalog rs) D root) D' \<and> (intact (rs_catalog rs) D \<longrightarrow> intact (rs_catalog rs) D')"
proof -
  let ?c = "rs_catalog rs"
  have closure: "set closure = doomed ?c D root" "distinct closure" using assms(4) by (simp_all add: closure_spec_def Let_def)
  have "held ?c D x \<and> retires_ok (env_unicode (rs_env rs)) (fst x) {snd x}" if "x \<in> set closure" for x
    using doomed_held [OF assms(3), of x] that assms(5) closure(1) by (auto simp: held_def retires_ok_def)
  from remove_all_run [OF assms(1,2) closure(2) this] obtain st' D' where
    "remove_all rs closure st = (Inr (), st')" "serves ok view rs D' st'" "left_after ?c D (set closure) D'" by blast
  then show ?thesis using left_intact [OF assms(4)] closure(1) by auto
qed

end


end
