(* ===== verification/Record_Deletions.thy ===== *)
theory Record_Deletions
  imports Record_Removal
begin

text \<open>
  Deletes at work: a table whose rows reference rows of the same table, from which one delete takes a row
  and its child, and a table with soft delete whose unique index holds the column that soft delete writes.
\<close>

section \<open>A tree\<close>

definition nodes_builder :: TableBuilder where
  "nodes_builder =
     (tb_foreign_key (on_delete Cascade (fb_column ''parent'' (ForeignKeyDef_builder ''up'' 1)))
      \<circ> tb_set_primary_key [''id''] \<circ> nullable_column ''parent'' TU64 \<circ> tb_column ''id'' TU64)
     (TableDef_builder ''nodes'' 1)"

definition nodes :: TableDef where
  "nodes = built nodes_builder"

lemma nodes_build: "build nodes_builder = Inr nodes"
  by (simp add: nodes_def nodes_builder_def on_delete_def built_def build_eval cong: build_congs)

lemma nodes_explicit:
  "nodes =
     \<lparr>td_id = 1, td_name = ''nodes'',
      td_columns =
        [\<lparr>col_name = ''id'', col_ty = TU64, col_nullable = False, col_added_in = 0, col_dropped_in = None,
          col_default = None, col_previous_names = [], col_scale = 0, col_element = None, col_managed = None\<rparr>,
         \<lparr>col_name = ''parent'', col_ty = TU64, col_nullable = True, col_added_in = 0, col_dropped_in = None,
          col_default = None, col_previous_names = [], col_scale = 0, col_element = None, col_managed = None\<rparr>],
      td_primary_key = [0], td_body_columns = [1], td_stored_columns = [1], td_indexes = [],
      td_checks = [],
      td_foreign_keys = [\<lparr>fk_name = ''up'', fk_columns = [1], fk_parent = 1, fk_on_delete = Cascade\<rparr>],
      td_tenant_column = None, td_soft_delete = None, td_schema_version = 0\<rparr>"
  by (simp add: nodes_def nodes_builder_def on_delete_def built_def build_eval cong: build_congs)

lemma nodes_ok: "table_ok nodes"
proof -
  have "constructed nodes_builder" by (simp add: nodes_builder_def constructed.intros)
  then show ?thesis using nodes_build constructed_inv built_table_ok by blast
qed

definition forest :: "(MemoryTransaction \<times> Shared) RecordStore" where
  "forest = bank\<lparr>rs_catalog := \<lparr>cat_tables = [nodes]\<rparr>\<rparr>"

lemma forest_simps [simp]:
  "rs_kv forest = memory_kv" "rs_env forest = no_tables" "cat_tables (rs_catalog forest) = [nodes]"
  "rs_security forest = SecurityCatalog_new" "rs_clock forest n = 7"
  by (simp_all add: forest_def)

abbreviation node :: "u64 \<Rightarrow> Value \<Rightarrow> Row" where
  "node i parent \<equiv> [U64 i, parent]"

lemma node_facts:
  "primary_key_values (node i v) nodes = [U64 i]" "td_id nodes = 1" "td_name nodes = ''nodes''" "td_checks nodes = []"
  "td_soft_delete nodes = None" "td_tenant_column nodes = None" "td_indexes nodes = []"
  by (simp_all add: nodes_explicit primary_key_values_def project_def value_or_null_def get_def)

lemma forest_schema: "schema_ok (rs_catalog forest)" "unicode_ok (env_unicode (rs_env forest))"
proof -
  show "schema_ok (rs_catalog forest)"
    using nodes_ok
    by (simp add: schema_ok_def catalog_ok_def foreign_keys_valid_def index_ids_def versions_ok_def evolvable_def
        computes_ok_def managed_live_def nodes_explicit is_dropped_def key_types_def primary_key_types_def)
  show "unicode_ok (env_unicode (rs_env forest))" using bank_schema(2) by simp
qed

lemma forest_serves: "serves memory_ok memory_view forest (\<lambda>_. {}) bank_opened"
proof -
  have "memory_view (rt_txn bank_opened) k = None" "memory_ok (rt_txn bank_opened)" for k
    by (simp_all add: bank_opened_def txn_open_def Shared_default_def register_def Let_def memory_view_def
        memory_ok_def txn_get_def base_def txn_ok_def btree_simps)
  then show ?thesis
    using forest_schema by (simp add: serves_def healthy_def bank_opened_def database_of_def represents_def)
qed


definition planted :: "u64 \<Rightarrow> Value \<Rightarrow> (MemoryTransaction \<times> Shared) RecordTransaction \<Rightarrow> (MemoryTransaction \<times> Shared) RecordTransaction" where
  "planted i v st = snd (insert_row forest superuser nodes (node i v) st)"

abbreviation tree :: "(MemoryTransaction \<times> Shared) RecordTransaction" where
  "tree \<equiv> planted 2 (U64 1) (planted 1 Null bank_opened)"

lemma node_checks:
  "authorize (rs_security forest) superuser nodes a = Inr ()"
  "check_row (rs_env forest) (rs_security forest) superuser nodes a row = Inr ()"
  "check_constraints nodes row = Inr ()"
  "row_filter (rs_security forest) superuser nodes a = Inr Expr_True"
  by (simp_all add: authorize_def grants_def superuser_def is_superuser_def check_row_def row_filter_def row_filter_with_def
      check_row_against_def check_constraints_def node_facts split: Deleted.split)

lemma node_valid: "v = Null \<or> v = U64 j \<Longrightarrow> validate (node i v) nodes = Inr ()"
  by (auto simp: validate_Inr row_valid_def nodes_explicit column_accepts_def is_dropped_def less_Suc_eq nth_Cons')

definition up :: ForeignKeyDef where
  "up = hd (td_foreign_keys nodes)"

lemma up_facts:
  "td_foreign_keys nodes = [up]" "fk_parent up = 1" "fk_on_delete up = Cascade"
  "parent_key up (node i v) = (if v = Null then None else Some [v])"
  by (auto simp: up_def nodes_explicit parent_key_def get_def)

lemma null_bytes: "dir_bytes Asc Null = [1]"
proof -
  have "tuple_bytes [] [Null] = [1]" unfolding encode_bytes [symmetric] by code_simp
  then show ?thesis by simp
qed

lemma node_sound: "row_sound nodes (node 1 Null)" "row_sound nodes (node 2 (U64 1))"
  by (simp_all add: row_sound_def canonical_def nodes_explicit value_or_null_def get_def account_dir_bytes null_bytes)

lemma node_body: "length (encode_body nodes (node 1 Null)) < 2 ^ 64" "length (encode_body nodes (node 2 (U64 1))) < 2 ^ 64"
proof -
  have "encode_body nodes (node 1 Null) = [1, 0, 0, 0, 0, 1]" "encode_body nodes (node 2 (U64 1)) = [1, 0, 0, 0, 0, 0x16, 1]"
    unfolding nodes_explicit by code_simp+
  then show "length (encode_body nodes (node 1 Null)) < 2 ^ 64" "length (encode_body nodes (node 2 (U64 1))) < 2 ^ 64" by simp_all
qed

lemma node_stamped: "stamped_row forest nodes row previous st = row"
  by (simp add: stamped_row_def nodes_explicit)

lemma plant:
  assumes "serves memory_ok memory_view forest ((\<lambda>_. {})(1 := R)) st" and "row_sound nodes (node i v)" and "v = Null \<or> v = U64 j \<and> node j Null \<in> R"
    and "length (encode_body nodes (node i v)) < 2 ^ 64" and "\<forall>row\<in>R. primary_key_values row nodes \<noteq> [U64 i]"
  shows "serves memory_ok memory_view forest ((\<lambda>_. {})(1 := insert (node i v) R)) (planted i v st)"
proof -
  let ?D = "(\<lambda>_. {})(1 := R)"
  have "meets memory_ok memory_view forest (insert_row forest superuser nodes (node i v)) st
      (insert_spec forest superuser nodes (node i v) (node i v) None ?D)"
    by (rule memory.insert_meets [OF forest_simps(1) assms(1) _ assms(2)])
      (use assms(4,5) in \<open>simp_all add: row_under_def node_facts node_stamped\<close>)
  moreover have "try_each (fk_spec forest superuser ?D nodes (node i v) None) (td_foreign_keys nodes) = Inr ()"
    using assms(3) node_checks
    by (auto simp: up_facts fk_spec_def same_reference_def parent_of_def cat_table_def node_facts intro: bexI [of _ "node j Null"])
  then have "insert_spec forest superuser nodes (node i v) (node i v) None ?D = Inr (?D(1 := insert (node i v) R))"
    using assms(3) node_valid [of v j i] by (auto simp: insert_spec_def node_checks [simplified] finish_spec_def store_spec_def node_facts others_def)
  ultimately show ?thesis using forest_schema by (auto simp: meets_def serves_def planted_def)
qed

lemma tree_serves: "serves memory_ok memory_view forest ((\<lambda>_. {})(1 := {node 2 (U64 1), node 1 Null})) tree"
proof -
  have "(\<lambda>_. {})(1 := {}) = (\<lambda>_ :: TableId. {} :: Row set)" by (simp add: fun_eq_iff)
  then have "serves memory_ok memory_view forest ((\<lambda>_. {})(1 := {})) bank_opened" using forest_serves by simp
  then have "serves memory_ok memory_view forest ((\<lambda>_. {})(1 := {node 1 Null})) (planted 1 Null bank_opened)"
    by (rule plant [OF _ node_sound(1) _ node_body(1)]) simp_all
  then show ?thesis by (rule plant [OF _ node_sound(2) _ node_body(2)]) (simp_all add: node_facts)
qed

lemma tree_sized: "sized (memory_view (rt_txn tree))"
proof -
  have "rt_txn tree = (\<lparr>snapshot = Some [], started_at = 0,
       pending = [([1, 0, 0, 0, 1, 0x16, 1], Some [1, 0, 0, 0, 0, 1]), ([1, 0, 0, 0, 1, 0x16, 2], Some [1, 0, 0, 0, 0, 0x16, 1])]\<rparr>,
      \<lparr>committed = [], version = 0, history = [], active = [(0, 1)]\<rparr>)"
    unfolding planted_def forest_def bank_def bank_opened_def nodes_explicit by code_simp
  then show ?thesis by (auto simp: sized_def memory_view_def txn_get_def base_def split: if_splits option.splits)
qed

abbreviation given_reads :: "(MemoryTransaction \<times> Shared, unit, unit) SecuredReads" where
  "given_reads \<equiv> bank_reads SecurityCatalog_new bank_opened"

lemma tree_reads:
  "reads_transaction (reads_of forest given_reads tree) forest tree"
  "tables_readable (reads_of forest given_reads tree) (rs_catalog forest) ((\<lambda>_. {})(1 := {node 2 (U64 1), node 1 Null}))"
proof -
  show "reads_transaction (reads_of forest given_reads tree) forest tree"
    using tree_sized by (simp add: reads_transaction_def reads_of_def bank_reads_def pop_greatest_ok)
  show "tables_readable (reads_of forest given_reads tree) (rs_catalog forest) ((\<lambda>_. {})(1 := {node 2 (U64 1), node 1 Null}))"
    by (simp add: tables_readable_def Let_def reads_of_def bank_reads_def text_ascending_def planner_ok_def expressions_ok_def
        reads_only_def last_planner_def node_facts SecurityCatalog_new_def card_insert_if)
qed

lemma tree_doomed:
  "doomed (rs_catalog forest) ((\<lambda>_. {})(1 := {node 2 (U64 1), node 1 Null})) (nodes, node 1 Null) = {(nodes, node 1 Null), (nodes, node 2 (U64 1))}"
proof -
  let ?step = "cascades (rs_catalog forest) ((\<lambda>_. {})(1 := {node 2 (U64 1), node 1 Null}))"
  have refs: "set (referencing (rs_catalog forest) 1) = {(nodes, up)}" by (simp add: referencing_def up_facts)
  have step: "?step (nodes, node i v) y \<longleftrightarrow> i = 1 \<and> y = (nodes, node 2 (U64 1))" for i v y
    by (cases y) (auto simp: cascades_def node_facts refs up_facts retired_def)
  have "{(nodes, node 1 Null), (nodes, node 2 (U64 1))} = {y. ?step\<^sup>*\<^sup>* (nodes, node 1 Null) y}"
    by (rule walk_complete) (auto simp: step)
  then show ?thesis by (simp add: doomed_def)
qed

abbreviation tree_rows :: database where
  "tree_rows \<equiv> (\<lambda>_. {})(1 := {node 2 (U64 1), node 1 Null})"

lemma few: "finite S \<Longrightarrow> card S \<le> CASCADE_LIMIT \<Longrightarrow> \<not> too_many S"
  unfolding too_many_def by (meson card_mono leD le_trans)

lemma two_elements:
  assumes "distinct xs" and "set xs = {x, y}" and "hd xs = x" and "x \<noteq> y"
  shows "xs = [x, y]"
proof -
  have "length xs = 2" using distinct_card [OF assms(1)] assms(2,4) by simp
  then obtain a b where "xs = [a, b]" by (auto simp: length_Suc_conv numeral_2_eq_2)
  then show ?thesis using assms by auto
qed

lemma tree_not_refused: "\<not> closure_spec (rs_catalog forest) tree_rows (may_delete forest superuser) (nodes, node 1 Null) (Inl e)"
proof -
  have granted: "may_delete forest superuser u" for u by (simp add: grants_def superuser_def is_superuser_def)
  have "\<not> too_many {(nodes, node 1 Null), (nodes, node 2 (U64 1))}" by (rule few) (simp_all add: CASCADE_LIMIT_def card_insert_if)
  moreover have "restricting (rs_catalog forest) (nodes, row) = {}" for row
    by (auto simp: restricting_def referencing_def up_facts)
  ultimately show ?thesis using granted by (simp add: closure_spec_def tree_doomed Let_def)
qed

theorem deletion_closure_exact_witness:
  "deletion_closure (reads_of forest given_reads tree) (rs_catalog forest) superuser nodes (node 1 Null) =
     Inr [(nodes, node 1 Null), (nodes, node 2 (U64 1))]"
proof -
  let ?result = "deletion_closure (reads_of forest given_reads tree) (rs_catalog forest) superuser nodes (node 1 Null)"
  have "closure_spec (rs_catalog forest) tree_rows (may_delete forest superuser) (nodes, node 1 Null) ?result"
    using deletion_closure_exact [OF tree_serves tree_reads, of nodes "node 1 Null" superuser]
    by (simp add: node_facts reads_of_def)
  moreover from this obtain closure where closure: "?result = Inr closure"
    using tree_not_refused by (cases ?result) auto
  ultimately have "distinct closure" "set closure = {(nodes, node 1 Null), (nodes, node 2 (U64 1))}" "hd closure = (nodes, node 1 Null)"
    by (simp_all add: closure_spec_def tree_doomed Let_def)
  from two_elements [OF this] show ?thesis using closure by simp
qed


section \<open>A chain of tables\<close>

definition leaves :: TableDef where
  "leaves = nodes\<lparr>td_id := 2, td_name := ''leaves''\<rparr>"

definition stones :: TableDef where
  "stones = nodes\<lparr>td_id := 3, td_name := ''stones'', td_foreign_keys := []\<rparr>"

definition orchard :: Catalog where
  "orchard = \<lparr>cat_tables = [nodes, leaves, stones]\<rparr>"

theorem cascade_reachable_exact_witness:
  "cascade_reachable orchard nodes = [leaves] \<and> (cascade_edge orchard)\<^sup>*\<^sup>* 1 2 \<and> \<not> (cascade_edge orchard)\<^sup>*\<^sup>* 1 3"
proof -
  have ids: "td_id nodes = 1" "td_id leaves = 2" "td_id stones = 3" by (simp_all add: leaves_def stones_def node_facts)
  have refs: "referencing orchard 1 = [(nodes, up), (leaves, up)]" "referencing orchard 2 = []"
    by (simp_all add: orchard_def referencing_def leaves_def stones_def up_facts)
  have "cascade_reachable orchard nodes = [leaves]"
    by (simp add: cascade_reachable_def reach_loop.simps ids refs up_facts)
  moreover have "catalog_ok orchard"
    by (simp add: catalog_ok_def orchard_def leaves_def stones_def node_facts index_ids_def)
  moreover have "(cascade_edge orchard)\<^sup>*\<^sup>* 1 2" "\<not> (cascade_edge orchard)\<^sup>*\<^sup>* 1 3"
    if "{leaves} = {u \<in> set (cat_tables orchard). td_id u \<noteq> td_id nodes \<and> (cascade_edge orchard)\<^sup>*\<^sup>* (td_id nodes) (td_id u)}"
  proof -
    have "leaves \<noteq> stones" using ids by auto
    then have "leaves \<in> {u \<in> set (cat_tables orchard). td_id u \<noteq> td_id nodes \<and> (cascade_edge orchard)\<^sup>*\<^sup>* (td_id nodes) (td_id u)}"
      "stones \<notin> {u \<in> set (cat_tables orchard). td_id u \<noteq> td_id nodes \<and> (cascade_edge orchard)\<^sup>*\<^sup>* (td_id nodes) (td_id u)}"
      unfolding that [symmetric] by simp_all
    then show "(cascade_edge orchard)\<^sup>*\<^sup>* 1 2" "\<not> (cascade_edge orchard)\<^sup>*\<^sup>* 1 3" by (simp_all add: ids orchard_def)
  qed
  ultimately show ?thesis
    using cascade_reachable_exact [of orchard nodes] by simp
qed

section \<open>A unique index over the column of soft delete\<close>

text \<open>A soft delete writes without a check of unique indexes, on the ground that it can only take entries
  away. An index over the column it writes gains one. Two rows that may live side by side, since the
  column is null in both, are retired at one reading of the clock and share a slot of the unique index:
  afterwards both rows are there with equal values under it, and the index leads to the second alone.\<close>

definition users_builder :: TableBuilder where
  "users_builder =
     (tb_index (unique (ib_column ''gone'' (ib_column ''email'' (IndexDef_builder ''by_email'' 5))))
      \<circ> tb_set_soft_delete ''gone'' \<circ> tb_set_primary_key [''id'']
      \<circ> nullable_column ''gone'' TI64 \<circ> tb_column ''email'' TStr \<circ> tb_column ''id'' TU64)
     (TableDef_builder ''users'' 1)"

definition users :: TableDef where
  "users = built users_builder"

lemma users_build: "build users_builder = Inr users"
  by (simp add: users_def users_builder_def built_def build_eval cong: build_congs)

lemma users_explicit:
  "users =
     \<lparr>td_id = 1, td_name = ''users'',
      td_columns =
        [\<lparr>col_name = ''id'', col_ty = TU64, col_nullable = False, col_added_in = 0, col_dropped_in = None,
          col_default = None, col_previous_names = [], col_scale = 0, col_element = None, col_managed = None\<rparr>,
         \<lparr>col_name = ''email'', col_ty = TStr, col_nullable = False, col_added_in = 0, col_dropped_in = None,
          col_default = None, col_previous_names = [], col_scale = 0, col_element = None, col_managed = None\<rparr>,
         \<lparr>col_name = ''gone'', col_ty = TI64, col_nullable = True, col_added_in = 0, col_dropped_in = None,
          col_default = None, col_previous_names = [], col_scale = 0, col_element = None, col_managed = None\<rparr>],
      td_primary_key = [0], td_body_columns = [1, 2], td_stored_columns = [1, 2],
      td_indexes =
        [\<lparr>ix_id = 5, ix_name = ''by_email'',
          ix_columns = [\<lparr>ic_ordinal = 1, ic_direction = Asc\<rparr>, \<lparr>ic_ordinal = 2, ic_direction = Asc\<rparr>],
          ix_unique = True, ix_predicate = None, ix_expression = None, ix_text = False\<rparr>],
      td_checks = [], td_foreign_keys = [], td_tenant_column = None, td_soft_delete = Some 2,
      td_schema_version = 0\<rparr>"
  by (simp add: users_def users_builder_def built_def build_eval cong: build_congs)

definition site :: "(MemoryTransaction \<times> Shared) RecordStore" where
  "site = bank\<lparr>rs_catalog := \<lparr>cat_tables = [users]\<rparr>\<rparr>"

lemma retired_rows_share_slot:
  "let (r1, st1) = insert_row site superuser users [U64 1, Str [0x61], Null] bank_opened;
       (r2, st2) = insert_row site superuser users [U64 2, Str [0x61], Null] st1;
       (r3, st3) = remove_row site users [U64 1, Str [0x61], Null] st2;
       (r4, st4) = remove_row site users [U64 2, Str [0x61], Null] st3;
       held = memory_view (rt_txn st4)
   in r1 = Inr () \<and> r2 = Inr () \<and> r3 = Inr () \<and> r4 = Inr () \<and>
      fst (read_row_unchecked site users [U64 1] st4) = Inr (Some [U64 1, Str [0x61], I64 7]) \<and>
      fst (read_row_unchecked site users [U64 2] st4) = Inr (Some [U64 2, Str [0x61], I64 7]) \<and>
      held (en_key (index_entry users (hd (td_indexes users)) [Str [0x61], I64 7] [U64 1])) = Some (encode [U64 2])"
  unfolding users_explicit site_def by code_simp

end
