(* ===== verification/Record_History.thy ===== *)
theory Record_History
  imports Record_Removal
begin

text \<open>
  What holds over a whole history of statements. The operations of a record transaction write through five
  places, each of which poisons the transaction when the store refuses; what those places keep, every
  operation keeps, which is the interface below. From it follow that a transaction in which a write
  failed is never committed, whatever store it runs on, and, over the memory store, that a unique index
  stays unique through any history of statements, commits and abandoned transactions.
\<close>

section \<open>What every statement keeps\<close>

definition keeps :: "('x RecordTransaction \<Rightarrow> bool) \<Rightarrow> ('x RecordTransaction, 'a) comp \<Rightarrow> bool" where
  "keeps P f \<longleftrightarrow> (\<forall>st. P st \<longrightarrow> P (snd (f st)))"

lemma keepsD: "keeps P f \<Longrightarrow> P st \<Longrightarrow> P (snd (f st))"
  by (simp add: keeps_def)

named_theorems keeps_intros

lemma keeps_pure [keeps_intros]:
  "keeps P (sreturn x)" "keeps P (sresult r)" "keeps P (txn_lookup rs k)" "keeps P (reading rs given g)"
  by (simp_all add: keeps_def comp_simps txn_lookup_def reading_def)

lemma keeps_sbind [keeps_intros]: "keeps P f \<Longrightarrow> (\<And>x. keeps P (k x)) \<Longrightarrow> keeps P (sbind f k)"
  by (fastforce simp: keeps_def sbind_def split: prod.split sum.split)

lemma keeps_if [keeps_intros]: "keeps P f \<Longrightarrow> keeps P g \<Longrightarrow> keeps P (if b then f else g)"
  by simp

lemma keeps_option [keeps_intros]: "keeps P f \<Longrightarrow> (\<And>x. keeps P (g x)) \<Longrightarrow> keeps P (case z of None \<Rightarrow> f | Some x \<Rightarrow> g x)"
  by (cases z) simp_all

lemma keeps_pair [keeps_intros]: "(\<And>x y. keeps P (g x y)) \<Longrightarrow> keeps P (case z of (x, y) \<Rightarrow> g x y)"
  by (cases z) simp

lemma keeps_seach [keeps_intros]: "(\<And>x. keeps P (f x)) \<Longrightarrow> keeps P (seach f xs)"
  by (induction xs) (auto intro: keeps_intros)

lemma keeps_reads [keeps_intros]:
  "keeps P (read_row_unchecked rs t key)" "keeps P (visible_row_with rs ctx t a key del)" "keeps P (reads_get rs ctx t key)"
  unfolding visible_row_with_def reads_get_def read_row_unchecked_def Let_def by (intro keeps_intros)+

lemma keeps_foreign_keys [keeps_intros]: "keeps P (check_foreign_keys rs ctx t row previous known)"
  unfolding check_foreign_keys_def check_foreign_key_def by (intro keeps_intros)

text \<open>The operations of a transaction, as steps of its state, whatever they answer. The reads a delete makes
  are any of those given: the statistics a plan rests on may change from statement to statement.\<close>

inductive record_step ::
  "'x RecordStore \<Rightarrow> ('x, 's, 'w) SecuredReads set \<Rightarrow> 'x RecordTransaction \<Rightarrow> 'x RecordTransaction \<Rightarrow> bool" for rs G where
  insert: "record_step rs G st (snd (insert_row rs ctx t row st))"
| insert_partial: "record_step rs G st (snd (insert_partial rs ctx t p st))"
| update: "record_step rs G st (snd (update_row rs ctx t row st))"
| swap: "record_step rs G st (snd (update_if_unchanged rs ctx t row expected st))"
| upsert: "record_step rs G st (snd (upsert rs ctx t row st))"
| delete: "given \<in> G \<Longrightarrow> record_step rs G st (snd (delete_row rs given ctx t key st))"
| delete_swap: "given \<in> G \<Longrightarrow> record_step rs G st (snd (delete_if_unchanged rs given ctx t key expected st))"
| get: "record_step rs G st (snd (reads_get rs ctx t key st))"

text \<open>The interface: a property of transactions that the clock and the wrapped writes keep.\<close>

locale statement_invariant =
  fixes rs :: "'x RecordStore"
    and P :: "'x RecordTransaction \<Rightarrow> bool"
  assumes clock_keeps: "keeps P (clock_now rs)"
    and put_keeps: "keeps P (poison_on_err (store_put rs k v))"
    and delete_keeps: "keeps P (poison_on_err (store_delete rs k))"
begin

lemma keeps_write_row_with: "keeps P (write_row_with rs t row previous v)"
  unfolding write_row_with_def write_index_def check_unique_def stamp_def Let_def
  by (intro keeps_intros clock_keeps put_keeps delete_keeps)

lemma keeps_insert: "keeps P (insert_row rs ctx t row)"
  unfolding insert_row_def write_row_def by (intro keeps_intros keeps_write_row_with)

lemma keeps_writes:
  "keeps P (insert_partial rs ctx t p)" "keeps P (update_row rs ctx t row)"
  "keeps P (update_if_unchanged rs ctx t row expected)" "keeps P (upsert rs ctx t row)"
  unfolding insert_partial_def update_row_def update_if_unchanged_def upsert_def visible_row_def write_row_def Let_def
  by (intro keeps_intros keeps_insert keeps_write_row_with)+

lemma keeps_remove_all: "keeps P (remove_all rs rows)"
  unfolding remove_all_def remove_row_def erase_row_def
  by (intro keeps_intros keeps_write_row_with clock_keeps delete_keeps)

lemma keeps_deletes:
  "keeps P (delete_row rs given ctx t key)" "keeps P (delete_if_unchanged rs given ctx t key expected)"
  unfolding delete_row_def delete_if_unchanged_def visible_row_def
  by (intro keeps_intros keeps_remove_all)+

lemma step_keeps: "record_step rs G st st' \<Longrightarrow> P st \<Longrightarrow> P st'"
  by (induction rule: record_step.induct)
    (auto intro: keepsD keeps_insert keeps_writes keeps_deletes keeps_reads(3))

lemma steps_keep: "(record_step rs G)\<^sup>*\<^sup>* st st' \<Longrightarrow> P st \<Longrightarrow> P st'"
  by (induction rule: rtranclp_induct) (auto intro: step_keeps)

end

section \<open>A write that failed is never committed\<close>

text \<open>A mark of a store that a write which succeeds does not set.\<close>

definition only_failures :: "'x Kv \<Rightarrow> ('x \<Rightarrow> bool) \<Rightarrow> bool" where
  "only_failures kv failed \<longleftrightarrow>
     (\<forall>k v x x'. kv_put kv k v x = (Inr (), x') \<longrightarrow> failed x' \<longrightarrow> failed x) \<and>
     (\<forall>k x x'. kv_delete kv k x = (Inr (), x') \<longrightarrow> failed x' \<longrightarrow> failed x)"

definition torn_is_poisoned :: "'x RecordStore \<Rightarrow> ('x \<Rightarrow> bool) \<Rightarrow> 'x RecordTransaction \<Rightarrow> bool" where
  "torn_is_poisoned rs failed st \<longleftrightarrow> only_failures (rs_kv rs) failed \<longrightarrow> failed (rt_txn st) \<longrightarrow> rt_poisoned st"

interpretation torn: statement_invariant rs "torn_is_poisoned rs failed" for rs failed
proof
  show "keeps (torn_is_poisoned rs failed) (clock_now rs)"
    by (simp add: keeps_def torn_is_poisoned_def clock_now_def)
  show "keeps (torn_is_poisoned rs failed) (poison_on_err (store_put rs k v))" for k v
    by (auto simp: keeps_def torn_is_poisoned_def only_failures_def poison_on_err_def store_put_def on_txn_def
        split: prod.split sum.split)
  show "keeps (torn_is_poisoned rs failed) (poison_on_err (store_delete rs k))" for k
    by (auto simp: keeps_def torn_is_poisoned_def only_failures_def poison_on_err_def store_delete_def on_txn_def
        split: prod.split sum.split)
qed

text \<open>C19. A transaction in which a write failed is never committed. Take any store and any mark that its
  successful writes do not set, such as that a write was refused by the disk. Whichever operations a
  transaction ran, and in whichever of them and at whichever of their writes the mark was set, a commit
  is then refused and discards what was buffered, so no part of a torn statement lands.\<close>

theorem poisoned_for_good:
  assumes "only_failures (rs_kv rs) failed" and "\<not> failed (rt_txn st)"
    and "(record_step rs G)\<^sup>*\<^sup>* st st'" and "failed (rt_txn st')"
  shows "commit rs st' = (Inl TransactionPoisoned, rollback rs st')"
proof -
  have "torn_is_poisoned rs failed st" using assms(2) by (simp add: torn_is_poisoned_def)
  with assms(3) have "torn_is_poisoned rs failed st'" by (rule torn.steps_keep)
  then show ?thesis using assms(1,4) by (simp add: torn_is_poisoned_def commit_def rollback_def)
qed

text \<open>A memory store whose disk refuses one key, and keeps a note that it did. The row of an account is put
  under that key after its index entry was buffered.\<close>

definition worn_kv :: "bytes \<Rightarrow> ((MemoryTransaction \<times> Shared) \<times> bool) Kv" where
  "worn_kv bad =
     \<lparr>kv_get = (\<lambda>(x, refused) k. kv_get memory_kv x k),
      kv_scan = (\<lambda>(x, refused) r ord. kv_scan memory_kv x r ord),
      kv_put = (\<lambda>k v (x, refused).
        if k = bad then (Inl (Storage ''disk full''), x, True)
        else let (r, x') = kv_put memory_kv k v x in (r, x', refused)),
      kv_delete = (\<lambda>k (x, refused). let (r, x') = kv_delete memory_kv k x in (r, x', refused)),
      kv_commit = (\<lambda>(x, refused). let (r, x') = kv_commit memory_kv x in (r, x', refused)),
      kv_rollback = (\<lambda>(x, refused). (kv_rollback memory_kv x, refused))\<rparr>"

definition worn :: "((MemoryTransaction \<times> Shared) \<times> bool) RecordStore" where
  "worn = \<lparr>rs_kv = worn_kv (row_key accounts [U64 1]), rs_env = no_tables, rs_catalog = \<lparr>cat_tables = [accounts]\<rparr>,
           rs_security = SecurityCatalog_new, rs_clock = (\<lambda>_. 7)\<rparr>"

definition worn_opened :: "((MemoryTransaction \<times> Shared) \<times> bool) RecordTransaction" where
  "worn_opened = \<lparr>rt_txn = (txn_open Shared_default, False), rt_poisoned = False, rt_ticks = 0\<rparr>"

lemma worn_insert:
  "let (r, st) = insert_row worn superuser accounts (account 1 0x61 0) worn_opened
   in r = Inl (Storage ''disk full'') \<and> snd (rt_txn st) \<and>
      bt_keys (pending (fst (fst (rt_txn st)))) = [[2, 0, 0, 0, 5, 5, 0x61, 0, 0]]"
  unfolding worn_def accounts_explicit by code_simp

theorem poisoned_for_good_witness:
  "\<exists>st. insert_row worn superuser accounts (account 1 0x61 0) worn_opened = (Inl (Storage ''disk full''), st) \<and>
     pending (fst (fst (rt_txn st))) \<noteq> [] \<and> commit worn st = (Inl TransactionPoisoned, rollback worn st)"
proof -
  obtain r st where run: "insert_row worn superuser accounts (account 1 0x61 0) worn_opened = (r, st)" by fastforce
  have st: "r = Inl (Storage ''disk full'')" "snd (rt_txn st)" "pending (fst (fst (rt_txn st))) \<noteq> []"
    using worn_insert unfolding run by (auto simp: bt_keys_def)
  have only: "only_failures (rs_kv worn) snd"
    by (auto simp: only_failures_def worn_def worn_kv_def memory_kv_def split: if_splits prod.splits)
  have "record_step worn ({} :: ((MemoryTransaction \<times> Shared) \<times> bool, unit, unit) SecuredReads set) worn_opened
      (snd (insert_row worn superuser accounts (account 1 0x61 0) worn_opened))" by (rule record_step.insert)
  then have "(record_step worn ({} :: ((MemoryTransaction \<times> Shared) \<times> bool, unit, unit) SecuredReads set))\<^sup>*\<^sup>* worn_opened st"
    unfolding run by simp
  from poisoned_for_good [OF only _ this st(2)] show ?thesis using run st by (simp add: worn_opened_def)
qed

text \<open>A refused check is different. The unique slots of a row are checked index by index, each after the
  entries of the indexes before it were buffered, and a refusal does not poison the transaction.\<close>

definition members_builder :: TableBuilder where
  "members_builder =
     (tb_index (unique (ib_column ''card'' (IndexDef_builder ''by_card'' 6)))
      \<circ> tb_index (ib_column ''email'' (IndexDef_builder ''by_email'' 5)) \<circ> tb_set_primary_key [''id'']
      \<circ> tb_column ''card'' TStr \<circ> tb_column ''email'' TStr \<circ> tb_column ''id'' TU64)
     (TableDef_builder ''members'' 1)"

definition members :: TableDef where
  "members = built members_builder"

lemma members_explicit:
  "members =
     \<lparr>td_id = 1, td_name = ''members'',
      td_columns =
        [\<lparr>col_name = ''id'', col_ty = TU64, col_nullable = False, col_added_in = 0, col_dropped_in = None,
          col_default = None, col_previous_names = [], col_scale = 0, col_element = None, col_managed = None\<rparr>,
         \<lparr>col_name = ''email'', col_ty = TStr, col_nullable = False, col_added_in = 0, col_dropped_in = None,
          col_default = None, col_previous_names = [], col_scale = 0, col_element = None, col_managed = None\<rparr>,
         \<lparr>col_name = ''card'', col_ty = TStr, col_nullable = False, col_added_in = 0, col_dropped_in = None,
          col_default = None, col_previous_names = [], col_scale = 0, col_element = None, col_managed = None\<rparr>],
      td_primary_key = [0], td_body_columns = [1, 2], td_stored_columns = [1, 2],
      td_indexes =
        [\<lparr>ix_id = 5, ix_name = ''by_email'', ix_columns = [\<lparr>ic_ordinal = 1, ic_direction = Asc\<rparr>],
          ix_unique = False, ix_predicate = None, ix_expression = None, ix_text = False\<rparr>,
         \<lparr>ix_id = 6, ix_name = ''by_card'', ix_columns = [\<lparr>ic_ordinal = 2, ic_direction = Asc\<rparr>],
          ix_unique = True, ix_predicate = None, ix_expression = None, ix_text = False\<rparr>],
      td_checks = [], td_foreign_keys = [], td_tenant_column = None, td_soft_delete = None,
      td_schema_version = 0\<rparr>"
  by (simp add: members_def members_builder_def built_def build_eval cong: build_congs)

definition club :: "(MemoryTransaction \<times> Shared) RecordStore" where
  "club = bank\<lparr>rs_catalog := \<lparr>cat_tables = [members]\<rparr>\<rparr>"

text \<open>The check of a unique slot can refuse a row after part of its index entries is buffered, and
  the transaction may then be committed: here the second insert is refused, its commit lands, and the
  store holds an entry of the first index for a row that is not there.\<close>

lemma refused_insert_leaves_entry:
  "let (r1, st1) = insert_row club superuser members [U64 1, Str [0x61], Str [0x63]] bank_opened;
       (r2, st2) = insert_row club superuser members [U64 2, Str [0x62], Str [0x63]] st1;
       (r3, st3) = commit club st2;
       landed = bt_get (committed (snd (rt_txn st3)))
   in r1 = Inr () \<and> r2 = Inl (UniqueViolation ''members'' ''by_card'') \<and> r3 = Inr (Some 1) \<and>
      landed (en_key (index_entry members (hd (td_indexes members)) [Str [0x62]] [U64 2])) = Some [] \<and>
      landed (row_key members [U64 2]) = None"
  unfolding members_explicit club_def by code_simp

section \<open>A unique index stays unique\<close>

text \<open>A transaction of a store over the memory engine, opened on what is committed, and what it leaves of the
  engine when it ends.\<close>

definition begin_on :: "Shared \<Rightarrow> nat \<Rightarrow> (MemoryTransaction \<times> Shared) RecordTransaction" where
  "begin_on s ticks = \<lparr>rt_txn = txn_open s, rt_poisoned = False, rt_ticks = ticks\<rparr>"

definition ended :: "(MemoryTransaction \<times> Shared) RecordTransaction \<Rightarrow> Shared" where
  "ended st = (case rt_txn st of (t, s) \<Rightarrow> txn_drop t s)"

text \<open>What is asked of a row given to a write beyond what the write checks itself, and of a key given to a
  delete: strings are UTF-8, keys and bodies fit the address space, and the reads a delete makes can read
  the tables.\<close>

definition row_given :: "(MemoryTransaction \<times> Shared) RecordStore \<Rightarrow> TableDef \<Rightarrow> Row \<Rightarrow> (MemoryTransaction \<times> Shared) RecordTransaction \<Rightarrow> bool" where
  "row_given rs t row st \<longleftrightarrow>
     t \<in> set (cat_tables (rs_catalog rs)) \<and> validate row t = Inr () \<and> row_sound t row \<and>
     (\<forall>found. fst (read_row_unchecked rs t (primary_key_values row t) st) = Inr found \<longrightarrow>
        length (encode_body t (stamped_row rs t row found st)) < 2 ^ 64)"

definition key_given :: "(MemoryTransaction \<times> Shared) RecordStore \<Rightarrow> TableDef \<Rightarrow> Value list \<Rightarrow> bool" where
  "key_given rs t key \<longleftrightarrow>
     t \<in> set (cat_tables (rs_catalog rs)) \<and> key_fits t key \<and> map canon key = key \<and> length (row_key t key) < 2 ^ 64"

definition deletes_given ::
  "(MemoryTransaction \<times> Shared) RecordStore \<Rightarrow> (MemoryTransaction \<times> Shared, 's, 'w) SecuredReads \<Rightarrow>
     (MemoryTransaction \<times> Shared) RecordTransaction \<Rightarrow> bool" where
  "deletes_given rs given st \<longleftrightarrow>
     reads_transaction (reads_of rs given st) rs st \<and>
     (\<forall>D. serves memory_ok memory_view rs D st \<longrightarrow>
        tables_readable (reads_of rs given st) (rs_catalog rs) D \<and>
        (\<forall>u\<in>set (cat_tables (rs_catalog rs)). retires_ok (env_unicode (rs_env rs)) u (D (td_id u))))"

text \<open>The histories of a store that started empty: statements that succeed one after the other, transactions
  committed and the next one opened, and transactions abandoned after any operations at all, failed
  ones among them.\<close>

inductive store_history ::
  "(MemoryTransaction \<times> Shared) RecordStore \<Rightarrow> (MemoryTransaction \<times> Shared, 's, 'w) SecuredReads set \<Rightarrow>
     (MemoryTransaction \<times> Shared) RecordTransaction \<Rightarrow> bool" for rs G where
  opened: "store_history rs G (begin_on Shared_default ticks)"
| inserted: "store_history rs G st \<Longrightarrow> row_given rs t row st \<Longrightarrow> insert_row rs ctx t row st = (Inr (), st') \<Longrightarrow>
    store_history rs G st'"
| updated: "store_history rs G st \<Longrightarrow> row_given rs t row st \<Longrightarrow> update_row rs ctx t row st = (Inr (), st') \<Longrightarrow>
    store_history rs G st'"
| swapped: "store_history rs G st \<Longrightarrow> row_given rs t row st \<Longrightarrow>
    update_if_unchanged rs ctx t row expected st = (Inr (), st') \<Longrightarrow> store_history rs G st'"
| upserted: "store_history rs G st \<Longrightarrow> row_given rs t row st \<Longrightarrow> upsert rs ctx t row st = (Inr (), st') \<Longrightarrow>
    store_history rs G st'"
| deleted: "store_history rs G st \<Longrightarrow> given \<in> G \<Longrightarrow> key_given rs t key \<Longrightarrow> deletes_given rs given st \<Longrightarrow>
    delete_row rs given ctx t key st = (Inr b, st') \<Longrightarrow> store_history rs G st'"
| swap_deleted: "store_history rs G st \<Longrightarrow> given \<in> G \<Longrightarrow> key_given rs t key \<Longrightarrow> deletes_given rs given st \<Longrightarrow>
    delete_if_unchanged rs given ctx t key expected st = (Inr (), st') \<Longrightarrow> store_history rs G st'"
| committed: "store_history rs G st \<Longrightarrow> commit rs st = (Inr v, st') \<Longrightarrow> store_history rs G (begin_on (ended st') ticks)"
| abandoned: "store_history rs G st \<Longrightarrow> (record_step rs G)\<^sup>*\<^sup>* st st' \<Longrightarrow>
    store_history rs G (begin_on (ended (rollback rs st')) ticks)"

text \<open>The engine under a transaction is where the transaction found it, until it commits.\<close>

definition on_engine :: "(MemoryTransaction \<times> Shared) RecordStore \<Rightarrow> Shared \<Rightarrow> (MemoryTransaction \<times> Shared) RecordTransaction \<Rightarrow> bool" where
  "on_engine rs s st \<longleftrightarrow>
     rs_kv rs = memory_kv \<longrightarrow> snd (rt_txn st) = s \<and> snapshot (fst (rt_txn st)) = Some (committed s)"

interpretation engine: statement_invariant rs "on_engine rs s" for rs s
proof
  show "keeps (on_engine rs s) (clock_now rs)"
    by (simp add: keeps_def on_engine_def clock_now_def)
  show "keeps (on_engine rs s) (poison_on_err (store_put rs k v))" for k v
    by (auto simp: keeps_def on_engine_def poison_on_err_def store_put_def on_txn_def memory_kv_def txn_put_def
        split: prod.split sum.split)
  show "keeps (on_engine rs s) (poison_on_err (store_delete rs k))" for k
    by (auto simp: keeps_def on_engine_def poison_on_err_def store_delete_def on_txn_def memory_kv_def txn_delete_def
        split: prod.split sum.split)
qed

text \<open>What a history keeps: the transaction serves a database, and so does what is committed under it.\<close>

definition committed_sound :: "(MemoryTransaction \<times> Shared) RecordStore \<Rightarrow> Shared \<Rightarrow> bool" where
  "committed_sound rs s \<longleftrightarrow> btree (committed s) \<and> (\<exists>D. database_of rs D (bt_get (committed s)))"

definition history_sound :: "(MemoryTransaction \<times> Shared) RecordStore \<Rightarrow> (MemoryTransaction \<times> Shared) RecordTransaction \<Rightarrow> bool" where
  "history_sound rs st \<longleftrightarrow>
     (\<exists>D. serves memory_ok memory_view rs D st) \<and> (\<exists>s. on_engine rs s st \<and> committed_sound rs s)"

lemma ended_committed: "committed (ended st) = committed (snd (rt_txn st))"
  by (simp add: ended_def txn_drop_def unregister_deactivate split_def)

lemma begin_sound:
  assumes "schema_ok (rs_catalog rs)" and "unicode_ok (env_unicode (rs_env rs))" and "committed_sound rs s"
  shows "history_sound rs (begin_on s ticks)"
proof -
  have "memory_view (rt_txn (begin_on s ticks)) = bt_get (committed s)" "healthy memory_ok (begin_on s ticks)"
    using assms(3) by (auto simp: begin_on_def txn_open_def register_def Let_def memory_view_def memory_ok_def txn_get_def
        base_def txn_ok_def healthy_def committed_sound_def btree_simps)
  moreover have "on_engine rs (snd (rt_txn (begin_on s ticks))) (begin_on s ticks)"
    "committed (snd (rt_txn (begin_on s ticks))) = committed s"
    by (simp_all add: on_engine_def begin_on_def txn_open_def register_def Let_def)
  ultimately show ?thesis using assms unfolding history_sound_def serves_def committed_sound_def by metis
qed

lemma meets_serves:
  assumes "meets ok view rs f st g" and "f st = (Inr (), st')" and "serves ok view rs D st"
  shows "\<exists>D'. serves ok view rs D' st'"
  using assms by (auto simp: meets_def serves_def split: sum.splits)

lemma write_serves:
  assumes "rs_kv rs = memory_kv" and "serves memory_ok memory_view rs D st" and "row_given rs t row st"
    and "f \<in> {insert_row rs ctx t row, update_row rs ctx t row, update_if_unchanged rs ctx t row expected, upsert rs ctx t row}"
    and "f st = (Inr (), st')"
  shows "\<exists>D'. serves memory_ok memory_view rs D' st'"
proof -
  have row: "t \<in> set (cat_tables (rs_catalog rs))" "row_sound t row" "validate row t = Inr ()"
    using assms(3) by (simp_all add: row_given_def)
  obtain previous where under: "row_under t (D (td_id t)) (primary_key_values row t) previous"
    using memory.row_under_ex by blast
  have "length (encode_body t (stamped_row rs t row previous st)) < 2 ^ 64"
    using memory.own_row_run(1) [OF assms(1,2) row(1,2) under row(3)] assms(3) by (simp add: row_given_def)
  note ready = assms(1,2) row(1,2) under refl this
  show ?thesis
    using assms(4,5) meets_serves [OF memory.insert_meets [OF ready] _ assms(2)]
      meets_serves [OF memory.update_meets [OF ready] _ assms(2)] meets_serves [OF memory.swap_meets [OF ready] _ assms(2)]
      meets_serves [OF memory.upsert_meets [OF ready] _ assms(2)] by blast
qed

lemma delete_serves:
  assumes "rs_kv rs = memory_kv" and "serves memory_ok memory_view rs D st" and "key_given rs t key"
    and "deletes_given rs given st" and "delete_row rs given ctx t key st = (Inr b, st')"
  shows "\<exists>D'. serves memory_ok memory_view rs D' st'"
proof -
  have t: "t \<in> set (cat_tables (rs_catalog rs))" and key: "key_fits t key" "map canon key = key" "length (row_key t key) < 2 ^ 64"
    using assms(3) by (simp_all add: key_given_def)
  have s: "healthy memory_ok st" "table_ok t" "represents (env_unicode (rs_env rs)) t (D (td_id t)) (memory_view (rt_txn st))"
    using assms(2) t by (auto simp: serves_def schema_ok_def database_of_def)
  have reads: "reads_transaction (reads_of rs given st) rs st" "tables_readable (reads_of rs given st) (rs_catalog rs) D"
    "\<forall>u\<in>set (cat_tables (rs_catalog rs)). retires_ok (env_unicode (rs_env rs)) u (D (td_id u))"
    using assms(2,4) by (auto simp: deletes_given_def)
  obtain found where found: "row_under t (D (td_id t)) key found" using memory.row_under_ex by blast
  note run = memory.delete_row_run [OF memory.read_row_run [OF assms(1) s key found], of given ctx]
  show ?thesis
  proof (cases "\<exists>closure. delete_outcome rs given ctx t found st = Inr (Some closure)")
    case False
    then have "st' = st" using assms(5) run by (auto split: sum.splits option.splits)
    then show ?thesis using assms(2) by blast
  next
    case True
    then obtain closure where outcome: "delete_outcome rs given ctx t found st = Inr (Some closure)" by blast
    then obtain row where closure: "found = Some row" "deletion_closure (reads_of rs given st) (rs_catalog rs) ctx t row = Inr closure"
      by (auto simp: delete_outcome_def rbind_eq_Inr split: if_splits option.splits)
    have row: "row \<in> D (td_id t)" using found closure(1) by (simp add: row_under_def)
    then have "held (rs_catalog rs) D (t, row)" using t by (simp add: held_def)
    from memory.closure_removed [OF assms(1,2) this deletion_closure_result [OF assms(2) reads(1,2) t row, of ctx, unfolded closure(2)] reads(3)]
    obtain st2 D' where "remove_all rs closure st = (Inr (), st2)" "serves memory_ok memory_view rs D' st2" by blast
    then show ?thesis using assms(5) run outcome by (auto simp: sbind_def comp_simps)
  qed
qed

text \<open>A compare-and-swap delete that succeeds did what a delete does.\<close>

lemma delete_if_unchanged_deletes:
  assumes "delete_if_unchanged rs given ctx t key expected st = (Inr (), st')"
  shows "delete_row rs given ctx t key st = (Inr True, st')"
proof -
  let ?rest = "\<lambda>existing. sbind (reading rs given (\<lambda>sr. deletion_closure sr (rs_catalog rs) ctx t existing)) (\<lambda>doomed. remove_all rs doomed)"
  obtain found s1 where v: "authorize (rs_security rs) ctx t Delete = Inr ()" "visible_row rs ctx t Delete key st = (Inr found, s1)"
    and rest: "(case found of
         None \<Rightarrow> sresult (Inl (RowNotFound (td_name t)))
       | Some existing \<Rightarrow>
           if \<not> list_all2 value_eq existing expected then sresult (Inl (RowChanged (td_name t))) else ?rest existing) s1 = (Inr (), st')"
    using assms unfolding delete_if_unchanged_def by (auto simp: sbind_Inr comp_simps split: if_splits)
  from rest obtain existing where "found = Some existing" "?rest existing s1 = (Inr (), st')"
    by (cases found) (auto simp: comp_simps split: if_splits)
  then show ?thesis using v by (auto simp: delete_row_def sbind_Inr comp_simps)
qed

lemma commit_sound:
  assumes "rs_kv rs = memory_kv" and "serves memory_ok memory_view rs D st" and "on_engine rs s st" and "committed_sound rs s"
    and "commit rs st = (Inr v, st')"
  shows "committed_sound rs (ended st')"
proof -
  obtain t where t: "rt_txn st = (t, s)" "snapshot t = Some (committed s)"
    using assms(1,3) by (cases "rt_txn st") (simp add: on_engine_def)
  have ok: "btree (pending t)" "btree (committed s)" "\<not> rt_poisoned st"
    using assms(2) t by (auto simp: serves_def healthy_def memory_ok_def txn_ok_def base_def)
  obtain t' s' where c: "txn_commit t s = (Inr v, t', s')" "rt_txn st' = (t', s')"
    using assms(1,5) ok(3) t(1) by (auto simp: commit_def on_txn_def memory_kv_def split: prod.splits)
  have "committed s' = apply_pending (pending t) (committed s)"
  proof (cases v)
    case None
    then show ?thesis using txn_commit_cases(3) [OF c(1)] by (simp add: apply_pending_def)
  next
    case (Some n)
    then show ?thesis using txn_commit_cases(5) [OF c(1), of n] by simp
  qed
  then have "bt_get (committed s') k = txn_get t k \<and> btree (committed s')" for k
    using apply_pending_get [OF ok(2,1), of k] t(2) by (auto simp: txn_get_def base_def split: option.split)
  then have "bt_get (committed s') = txn_get t" "btree (committed s')" by auto
  moreover have "database_of rs D (txn_get t)" using assms(2) t(1) by (simp add: serves_def memory_view_def)
  ultimately show ?thesis using c(2) by (auto simp: committed_sound_def ended_committed)
qed

lemma kept_sound:
  assumes "history_sound rs st" and "\<And>s. keeps (on_engine rs s) f" and "f st = (r, st')"
    and "\<exists>D. serves memory_ok memory_view rs D st'"
  shows "history_sound rs st'"
proof -
  obtain s where s: "on_engine rs s st" "committed_sound rs s" using assms(1) by (auto simp: history_sound_def)
  have "on_engine rs s st'" using keepsD [OF assms(2) s(1)] assms(3) by simp
  then show ?thesis using s(2) assms(4) by (auto simp: history_sound_def)
qed

lemma write_sound:
  assumes "rs_kv rs = memory_kv" and "history_sound rs st" and "row_given rs t row st"
    and "f \<in> {insert_row rs ctx t row, update_row rs ctx t row, update_if_unchanged rs ctx t row expected, upsert rs ctx t row}"
    and "f st = (Inr (), st')"
  shows "history_sound rs st'"
proof (rule kept_sound [where f = f, OF assms(2) _ assms(5)])
  show "keeps (on_engine rs s) f" for s
    using assms(4) engine.keeps_insert [of rs s] engine.keeps_writes [of rs s] by blast
  obtain D where "serves memory_ok memory_view rs D st" using assms(2) by (auto simp: history_sound_def)
  from write_serves [OF assms(1) this assms(3-5)] show "\<exists>D. serves memory_ok memory_view rs D st'" .
qed

lemma delete_sound:
  assumes "rs_kv rs = memory_kv" and "history_sound rs st" and "key_given rs t key" and "deletes_given rs given st"
    and "delete_row rs given ctx t key st = (Inr b, st')"
  shows "history_sound rs st'"
proof (rule kept_sound [OF assms(2) engine.keeps_deletes(1) assms(5)])
  obtain D where "serves memory_ok memory_view rs D st" using assms(2) by (auto simp: history_sound_def)
  from delete_serves [OF assms(1) this assms(3-5)] show "\<exists>D. serves memory_ok memory_view rs D st'" .
qed

lemma store_history_sound:
  assumes "store_history rs G st" and "rs_kv rs = memory_kv" and "schema_ok (rs_catalog rs)" and "unicode_ok (env_unicode (rs_env rs))"
  shows "history_sound rs st"
  using assms(1)
proof (induction rule: store_history.induct)
  case (opened ticks)
  have "database_of rs (\<lambda>_. {}) (bt_get (committed Shared_default))"
    by (simp add: Shared_default_def database_of_def represents_def btree_simps)
  then have "committed_sound rs Shared_default" by (auto simp: committed_sound_def Shared_default_def btree_simps)
  then show ?case by (rule begin_sound [OF assms(3,4)])
next
  case (inserted st t row ctx st')
  show ?case by (rule write_sound [where f = "insert_row rs ctx t row" and ctx = ctx, OF assms(2) inserted(4,2) _ inserted(3)]) simp
next
  case (updated st t row ctx st')
  show ?case by (rule write_sound [where f = "update_row rs ctx t row" and ctx = ctx, OF assms(2) updated(4,2) _ updated(3)]) simp
next
  case (swapped st t row ctx expected st')
  show ?case by (rule write_sound [where f = "update_if_unchanged rs ctx t row expected" and ctx = ctx and expected = expected, OF assms(2) swapped(4,2) _ swapped(3)]) simp
next
  case (upserted st t row ctx st')
  show ?case by (rule write_sound [where f = "upsert rs ctx t row" and ctx = ctx, OF assms(2) upserted(4,2) _ upserted(3)]) simp
next
  case (deleted st given t key ctx b st')
  show ?case by (rule delete_sound [OF assms(2) deleted(6,3-5)])
next
  case (swap_deleted st given t key ctx expected st')
  show ?case by (rule delete_sound [OF assms(2) swap_deleted(6,3,4) delete_if_unchanged_deletes [OF swap_deleted(5)]])
next
  case (committed st v st' ticks)
  then show ?case using commit_sound [OF assms(2) _ _ _ committed(2)] begin_sound [OF assms(3,4)] by (auto simp: history_sound_def)
next
  case (abandoned st st' ticks)
  obtain s where s: "on_engine rs s st" "committed_sound rs s" using abandoned(3) by (auto simp: history_sound_def)
  have "on_engine rs s st'" by (rule engine.steps_keep [OF abandoned(2) s(1)])
  then have "committed (ended (rollback rs st')) = committed s"
    using assms(2) by (cases "rt_txn st'") (simp add: ended_committed rollback_def on_engine_def memory_kv_def)
  then have "committed_sound rs (ended (rollback rs st'))" using s(2) by (simp add: committed_sound_def)
  then show ?case by (rule begin_sound [OF assms(3,4)])
qed


text \<open>Two accounts, the second inserted after the first was committed.\<close>

definition first_account :: "(MemoryTransaction \<times> Shared) RecordTransaction" where
  "first_account = snd (insert_row bank superuser accounts (account 1 0x62 0) (begin_on Shared_default 0))"

definition second_account :: "(MemoryTransaction \<times> Shared) RecordTransaction" where
  "second_account =
     snd (insert_row bank superuser accounts (account 2 0x61 0) (begin_on (ended (snd (commit bank first_account))) 2))"

lemma accounts_run:
  "fst (read_row_unchecked bank accounts [U64 1] (begin_on Shared_default 0)) = Inr None"
  "fst (insert_row bank superuser accounts (account 1 0x62 0) (begin_on Shared_default 0)) = Inr ()"
  "fst (commit bank first_account) = Inr (Some 1)"
  "fst (read_row_unchecked bank accounts [U64 2] (begin_on (ended (snd (commit bank first_account))) 2)) = Inr None"
  "fst (insert_row bank superuser accounts (account 2 0x61 0) (begin_on (ended (snd (commit bank first_account))) 2)) = Inr ()"
  "fst (read_row_unchecked bank accounts [U64 1] second_account) = Inr (Some (account 1 0x62 7))"
  "fst (read_row_unchecked bank accounts [U64 2] second_account) = Inr (Some (account 2 0x61 7))"
  unfolding second_account_def first_account_def bank_def accounts_explicit by code_simp+

lemma accounts_history: "store_history bank G second_account"
proof -
  have mem: "accounts \<in> set (cat_tables (rs_catalog bank))" by simp
  have "row_given bank accounts (account 1 0x62 0) (begin_on Shared_default 0)"
    using mem account_valid [of "0x62"] account_sound(3) account_body(3)
    by (simp add: row_given_def account_facts accounts_run account_stamped)
  then have first: "store_history bank G first_account"
    using store_history.inserted [OF store_history.opened, of bank accounts "account 1 0x62 0" 0 superuser first_account G] accounts_run(2)
    by (simp add: first_account_def prod_eq_iff)
  let ?st = "begin_on (ended (snd (commit bank first_account))) 2"
  have reopened: "store_history bank G ?st"
    using store_history.committed [OF first, of "Some 1" "snd (commit bank first_account)"] accounts_run(3) by (simp add: prod_eq_iff)
  have "row_given bank accounts (account 2 0x61 0) ?st"
    using mem account_valid [of "0x61"] account_sound(2) account_body(2)
    by (simp add: row_given_def account_facts accounts_run account_stamped)
  then show ?thesis
    using store_history.inserted [OF reopened, of accounts "account 2 0x61 0" superuser second_account] accounts_run(5)
    by (simp add: second_account_def prod_eq_iff)
qed


end
