(* ===== verification/Lease_Text.thy ===== *)
theory Lease_Text
  imports Decimal
begin

text \<open>
  The lease object, \<open>crates/slate-server/src/lease.rs\<close>: a term of leadership, the errors of a lease, and
  the text a term is stored as. A moment is its nanoseconds since the epoch; the store keeps
  milliseconds.
\<close>

section \<open>Terms and errors\<close>

record Term =
  generation :: u64
  tm_holder :: scalars
  expires_at :: int

definition is_live_at :: "Term \<Rightarrow> int \<Rightarrow> bool" where
  "is_live_at term now \<longleftrightarrow> now < expires_at term"

text \<open>The failures of an object store the lease tells apart.\<close>

datatype ObjectError = Os_NotFound | Os_AlreadyExists | Os_Precondition | Os_NotImplemented | Os_Other string

datatype Malformed = NotUtf8 | WrongMagic "scalars option" | MissingFields scalars

datatype LeaseError =
    Lease_Held scalars int
  | Lease_Lost scalars u64
  | Lease_NotHeld
  | Lease_Malformed Malformed
  | Lease_Unsupported scalars
  | Lease_Backend ObjectError

section \<open>The stored form\<close>

definition MAGIC :: scalars where
  "MAGIC = lit ''slate-lease v1''"

definition millis :: "int \<Rightarrow> nat" where
  "millis t = nat (t div 1000000)"

definition newline :: scalars where
  "newline = [10]"

definition encode_term :: "Term \<Rightarrow> bytes" where
  "encode_term term =
     utf8_encode (MAGIC @ newline @
       lit ''generation: '' @ lit (digits (unat (generation term))) @ newline @
       lit ''holder: '' @ tm_holder term @ newline @
       lit ''expires_ms: '' @ lit (digits (millis (expires_at term))) @ newline)"

record Fields =
  fd_generation :: "u64 option"
  fd_holder :: "scalars option"
  fd_expires_ms :: "u64 option"

definition read_field :: "scalars \<Rightarrow> Fields \<Rightarrow> Fields" where
  "read_field line fd =
     (case split_once 58 line of
        None \<Rightarrow> fd
      | Some (field, value) \<Rightarrow>
          if field = lit ''generation'' then fd\<lparr>fd_generation := parse_u64 (trim value)\<rparr>
          else if field = lit ''holder'' then fd\<lparr>fd_holder := Some (trim value)\<rparr>
          else if field = lit ''expires_ms'' then fd\<lparr>fd_expires_ms := parse_u64 (trim value)\<rparr>
          else fd)"

definition decode_term :: "bytes \<Rightarrow> LeaseError + Term" where
  "decode_term bs =
     (case utf8_decode bs of
        None \<Rightarrow> Inl (Lease_Malformed NotUtf8)
      | Some s \<Rightarrow>
          case str_lines s of
            [] \<Rightarrow> Inl (Lease_Malformed (WrongMagic None))
          | first # lines \<Rightarrow>
              if first \<noteq> MAGIC then Inl (Lease_Malformed (WrongMagic (Some first)))
              else
                let fd = fold read_field lines \<lparr>fd_generation = None, fd_holder = None, fd_expires_ms = None\<rparr>
                in case (fd_generation fd, fd_holder fd, fd_expires_ms fd) of
                     (Some g, Some h, Some ms) \<Rightarrow>
                       Inr \<lparr>generation = g, tm_holder = h, expires_at = 1000000 * uint ms\<rparr>
                   | _ \<Rightarrow> Inl (Lease_Malformed (MissingFields s)))"

text \<open>An identity as a lease keeps it: without line ends.\<close>

definition one_line :: "scalars \<Rightarrow> scalars" where
  "one_line h = map (\<lambda>c. if c = 10 \<or> c = 13 then 95 else c) h"

section \<open>Writing and reading a term\<close>

lemma one_line_clean: "10 \<notin> set (one_line h)" "13 \<notin> set (one_line h)" "list_all is_scalar h \<Longrightarrow> list_all is_scalar (one_line h)"
  by (auto simp: one_line_def list_all_iff is_scalar_def split: if_splits)

lemma ascii_line: "c \<in> set (lit (digits n)) \<Longrightarrow> c \<noteq> 10 \<and> c \<noteq> 13"
  by (drule digits_ascii) (auto simp: is_digit_def)

lemma field_read:
  "read_field (lit ''generation: '' @ v) fd = fd\<lparr>fd_generation := parse_u64 (trim v)\<rparr>"
  "read_field (lit ''holder: '' @ v) fd = fd\<lparr>fd_holder := Some (trim v)\<rparr>"
  "read_field (lit ''expires_ms: '' @ v) fd = fd\<lparr>fd_expires_ms := parse_u64 (trim v)\<rparr>"
proof -
  have "split_once 58 (lit ''generation: '' @ v) = Some (lit ''generation'', 32 # v)"
    "split_once 58 (lit ''holder: '' @ v) = Some (lit ''holder'', 32 # v)"
    "split_once 58 (lit ''expires_ms: '' @ v) = Some (lit ''expires_ms'', 32 # v)"
    by (simp_all add: split_once_def)
  then show "read_field (lit ''generation: '' @ v) fd = fd\<lparr>fd_generation := parse_u64 (trim v)\<rparr>"
    "read_field (lit ''holder: '' @ v) fd = fd\<lparr>fd_holder := Some (trim v)\<rparr>"
    "read_field (lit ''expires_ms: '' @ v) fd = fd\<lparr>fd_expires_ms := parse_u64 (trim v)\<rparr>"
    unfolding read_field_def by (simp_all add: trim_space is_whitespace_def)
qed

lemma lines_of_term:
  assumes "10 \<notin> set h" and "13 \<notin> set h"
  shows "str_lines (MAGIC @ newline @ lit ''generation: '' @ lit (digits g) @ newline @ lit ''holder: '' @ h @ newline @
      lit ''expires_ms: '' @ lit (digits e) @ newline) =
    [MAGIC, lit ''generation: '' @ lit (digits g), lit ''holder: '' @ h, lit ''expires_ms: '' @ lit (digits e)]"
proof -
  have "10 \<notin> set l \<and> 13 \<notin> set l"
    if "l \<in> {MAGIC, lit ''generation: '' @ lit (digits g), lit ''holder: '' @ h, lit ''expires_ms: '' @ lit (digits e)}" for l
    using that assms ascii_line by (fastforce simp: MAGIC_def)
  note line = lines_cons [OF conjunct1 [OF this] conjunct2 [OF this]]
  show ?thesis
    unfolding newline_def append_assoc [symmetric] append.simps append_Cons append_Nil
    using line [of MAGIC] line [of "lit ''generation: '' @ lit (digits g)"] line [of "lit ''holder: '' @ h"]
      line [of "lit ''expires_ms: '' @ lit (digits e)" "[]"] lines_nil by simp
qed

definition term_ok :: "Term \<Rightarrow> bool" where
  "term_ok term \<longleftrightarrow>
     10 \<notin> set (tm_holder term) \<and> 13 \<notin> set (tm_holder term) \<and> list_all is_scalar (tm_holder term) \<and>
     0 \<le> expires_at term \<and> expires_at term div 1000000 < 2 ^ 64"

lemma decode_encode_term:
  assumes "term_ok term"
  shows "decode_term (encode_term term) =
    Inr \<lparr>generation = generation term, tm_holder = trim (tm_holder term), expires_at = 1000000 * (expires_at term div 1000000)\<rparr>"
proof -
  have e: "millis (expires_at term) < 2 ^ 64" "int (millis (expires_at term)) = expires_at term div 1000000"
    using assms by (auto simp: millis_def term_ok_def pos_imp_zdiv_nonneg_iff nat_less_iff)
  have g: "unat (generation term) < 2 ^ 64" using unsigned_less [of "generation term"] by simp
  have "list_all is_scalar (MAGIC @ newline @ lit ''generation: '' @ lit (digits (unat (generation term))) @ newline @
      lit ''holder: '' @ tm_holder term @ newline @ lit ''expires_ms: '' @ lit (digits (millis (expires_at term))) @ newline)"
    using assms lit_scalar unfolding MAGIC_def newline_def term_ok_def list_all_append by (simp add: is_scalar_def)
  note read = utf8_decode_encode [OF this]
  have "uint (word_of_nat (millis (expires_at term)) :: u64) = int (millis (expires_at term))"
    using e(1) by (simp add: uint_nat unat_of_nat take_bit_nat_eq_self)
  moreover have "fold read_field [lit ''generation: '' @ lit (digits (unat (generation term))), lit ''holder: '' @ tm_holder term,
      lit ''expires_ms: '' @ lit (digits (millis (expires_at term)))] \<lparr>fd_generation = None, fd_holder = None, fd_expires_ms = None\<rparr> =
    \<lparr>fd_generation = Some (generation term), fd_holder = Some (trim (tm_holder term)),
      fd_expires_ms = Some (word_of_nat (millis (expires_at term)))\<rparr>"
    unfolding fold.simps comp_apply field_read id_apply by (simp add: trim_digits parse_digits [OF e(1)] parse_digits [OF g])
  moreover have "10 \<notin> set (tm_holder term)" "13 \<notin> set (tm_holder term)" using assms by (simp_all add: term_ok_def)
  note lines = lines_of_term [OF this]
  ultimately show ?thesis using e(2) unfolding decode_term_def encode_term_def read option.case lines list.case Let_def
    by (simp del: lit_simps fold.simps)
qed

end
