(* ===== verification/Lease.thy ===== *)
theory Lease
  imports Lease_Text
begin

text \<open>
  The lease over object storage, \<open>ObjectStoreLease\<close> of \<open>crates/slate-server/src/lease.rs\<close>. Each asynchronous
  function is a program: a tree of the calls it waits for, each with the rest of the function as a
  continuation, so that what other tasks and other processes do between two calls is not hidden. The
  object store and the clock answer from outside; what is shared between the tasks of one process is
  read and written by atomic local actions, and a mutex is a local action that has to wait.
\<close>

section \<open>Programs\<close>

record UpdateVersion =
  e_tag :: "string option"
  ob_version :: "string option"

datatype PutMode = Create | Update UpdateVersion

datatype ('n, 'r) io =
    Done 'r
  | Local "'n \<Rightarrow> ('n \<times> ('n, 'r) io) option"
  | Now "int \<Rightarrow> ('n, 'r) io"
  | Get scalars "ObjectError + bytes \<times> UpdateVersion \<Rightarrow> ('n, 'r) io"
  | Put scalars bytes PutMode "ObjectError + UpdateVersion \<Rightarrow> ('n, 'r) io"

primrec io_bind :: "('n, 'a) io \<Rightarrow> ('a \<Rightarrow> ('n, 'b) io) \<Rightarrow> ('n, 'b) io" where
  "io_bind (Done x) k = k x"
| "io_bind (Local f) k = Local (\<lambda>s. map_option (map_prod id (\<lambda>p. io_bind p k)) (f s))"
| "io_bind (Now c) k = Now (\<lambda>t. io_bind (c t) k)"
| "io_bind (Get path c) k = Get path (\<lambda>r. io_bind (c r) k)"
| "io_bind (Put path bs mode c) k = Put path bs mode (\<lambda>r. io_bind (c r) k)"

definition atomically :: "('n \<Rightarrow> 'n) \<Rightarrow> ('n, unit) io" where
  "atomically f = Local (\<lambda>s. Some (f s, Done ()))"

definition reading :: "('n \<Rightarrow> 'a) \<Rightarrow> ('n, 'a) io" where
  "reading f = Local (\<lambda>s. Some (s, Done (f s)))"

section \<open>The lease\<close>

record Held =
  hd_term :: Term
  hd_version :: UpdateVersion

record LeaseState =
  ls_held :: "Held option"
  ls_locked :: bool
  ls_conditional_update :: u8

record LeaseConfig =
  lc_path :: scalars
  lc_holder :: scalars
  lc_term_length :: int
  lc_store :: scalars

definition DEFAULT_TERM :: int where
  "DEFAULT_TERM = 15 * 1000000000"

definition UNKNOWN :: u8 where "UNKNOWN = 0"

definition SUPPORTED :: u8 where "SUPPORTED = 1"

definition UNSUPPORTED :: u8 where "UNSUPPORTED = 2"

definition PROBE_SUFFIX :: scalars where
  "PROBE_SUFFIX = lit ''.probe''"

definition IMPOSSIBLE_VERSION :: string where
  "IMPOSSIBLE_VERSION = ''slate-lease-capability-probe''"

definition with_holder :: "scalars \<Rightarrow> scalars \<Rightarrow> scalars \<Rightarrow> LeaseConfig" where
  "with_holder store path holder =
     \<lparr>lc_path = path, lc_holder = one_line holder, lc_term_length = DEFAULT_TERM, lc_store = store\<rparr>"

definition lease_new :: LeaseState where
  "lease_new = \<lparr>ls_held = None, ls_locked = False, ls_conditional_update = UNKNOWN\<rparr>"

definition lock_held :: "('a LeaseState_scheme, unit) io" where
  "lock_held = Local (\<lambda>s. if ls_locked s then None else Some (s\<lparr>ls_locked := True\<rparr>, Done ()))"

definition unlock_held :: "('a LeaseState_scheme, unit) io" where
  "unlock_held = atomically (\<lambda>s. s\<lparr>ls_locked := False\<rparr>)"

definition set_held :: "Held option \<Rightarrow> ('a LeaseState_scheme, unit) io" where
  "set_held h = atomically (\<lambda>s. s\<lparr>ls_held := h\<rparr>)"

text \<open>A function body between the lock and the drop of its guard.\<close>

definition guarded :: "('a LeaseState_scheme, 'r) io \<Rightarrow> ('a LeaseState_scheme, 'r) io" where
  "guarded body = io_bind lock_held (\<lambda>_. io_bind body (\<lambda>r. io_bind unlock_held (\<lambda>_. Done r)))"

definition lease_read :: "LeaseConfig \<Rightarrow> ('n, LeaseError + (Term \<times> UpdateVersion) option) io" where
  "lease_read lc =
     Get (lc_path lc) (\<lambda>r. Done
       (case r of
          Inr (bs, version) \<Rightarrow> rbind (decode_term bs) (\<lambda>term. Inr (Some (term, version)))
        | Inl e \<Rightarrow> if e = Os_NotFound then Inr None else Inl (Lease_Backend e)))"

definition lease_write :: "LeaseConfig \<Rightarrow> Term \<Rightarrow> PutMode \<Rightarrow> ('n, ObjectError + Held) io" where
  "lease_write lc term mode =
     Put (lc_path lc) (encode_term term) mode (\<lambda>r. Done (rbind r (\<lambda>version. Inr \<lparr>hd_term = term, hd_version = version\<rparr>)))"

definition require_conditional_update :: "LeaseConfig \<Rightarrow> ('a LeaseState_scheme, LeaseError + unit) io" where
  "require_conditional_update lc =
     io_bind (reading ls_conditional_update) (\<lambda>known.
     if known = SUPPORTED then Done (Inr ())
     else if known = UNSUPPORTED then Done (Inl (Lease_Unsupported (lc_store lc)))
     else
       Put (lc_path lc @ PROBE_SUFFIX) [] (Update \<lparr>e_tag = Some IMPOSSIBLE_VERSION, ob_version = None\<rparr>) (\<lambda>outcome.
       let supported = outcome \<noteq> Inl Os_NotImplemented
       in io_bind (atomically (\<lambda>s. s\<lparr>ls_conditional_update := if supported then SUPPORTED else UNSUPPORTED\<rparr>)) (\<lambda>_.
          Done (if supported then Inr () else Inl (Lease_Unsupported (lc_store lc))))))"

definition whoever_holds_it :: "LeaseConfig \<Rightarrow> ('n, scalars \<times> int) io" where
  "whoever_holds_it lc =
     io_bind (lease_read lc) (\<lambda>r. Done
       (case r of Inr (Some (term, _)) \<Rightarrow> (tm_holder term, expires_at term) | _ \<Rightarrow> (lit ''unknown'', 0)))"

text \<open>What a refused conditional write tells the caller.\<close>

definition held_by_another :: "LeaseConfig \<Rightarrow> ('n, LeaseError + 'r) io" where
  "held_by_another lc = io_bind (whoever_holds_it lc) (\<lambda>(holder, expires). Done (Inl (Lease_Held holder expires)))"

definition remember :: "Held \<Rightarrow> ('a LeaseState_scheme, LeaseError + Term) io" where
  "remember new = io_bind (set_held (Some new)) (\<lambda>_. Done (Inr (hd_term new)))"

definition next_generation :: "u64 \<Rightarrow> u64" where
  "next_generation g = (if g = - 1 then g else g + 1)"

definition take_free :: "LeaseConfig \<Rightarrow> int \<Rightarrow> ('a LeaseState_scheme, LeaseError + Term) io" where
  "take_free lc expires =
     io_bind (lease_write lc \<lparr>generation = 1, tm_holder = lc_holder lc, expires_at = expires\<rparr> Create) (\<lambda>w.
     case w of
       Inr new \<Rightarrow> remember new
     | Inl e \<Rightarrow> if e = Os_AlreadyExists then held_by_another lc else Done (Inl (Lease_Backend e)))"

definition take_over :: "LeaseConfig \<Rightarrow> int \<Rightarrow> Term \<Rightarrow> UpdateVersion \<Rightarrow> ('a LeaseState_scheme, LeaseError + Term) io" where
  "take_over lc expires current version =
     io_bind (lease_write lc
       \<lparr>generation = next_generation (generation current), tm_holder = lc_holder lc, expires_at = expires\<rparr> (Update version)) (\<lambda>w.
     case w of
       Inr new \<Rightarrow> remember new
     | Inl e \<Rightarrow> if e = Os_Precondition then io_bind (set_held None) (\<lambda>_. held_by_another lc) else Done (Inl (Lease_Backend e)))"

definition lease_acquire :: "LeaseConfig \<Rightarrow> ('a LeaseState_scheme, LeaseError + Term) io" where
  "lease_acquire lc =
     io_bind (require_conditional_update lc) (\<lambda>usable.
     case usable of
       Inl e \<Rightarrow> Done (Inl e)
     | Inr _ \<Rightarrow>
         guarded
           (Now (\<lambda>now.
            let expires = now + lc_term_length lc
            in io_bind (lease_read lc) (\<lambda>found.
               case found of
                 Inl e \<Rightarrow> Done (Inl e)
               | Inr None \<Rightarrow> take_free lc expires
               | Inr (Some (current, version)) \<Rightarrow>
                   if tm_holder current \<noteq> lc_holder lc \<and> is_live_at current now
                   then io_bind (set_held None) (\<lambda>_. Done (Inl (Lease_Held (tm_holder current) (expires_at current))))
                   else take_over lc expires current version))))"

definition lease_renew :: "LeaseConfig \<Rightarrow> ('a LeaseState_scheme, LeaseError + Term) io" where
  "lease_renew lc =
     guarded
       (io_bind (reading ls_held) (\<lambda>holding.
        case holding of
          None \<Rightarrow> Done (Inl Lease_NotHeld)
        | Some current \<Rightarrow>
            Now (\<lambda>now.
            io_bind (lease_write lc
              \<lparr>generation = generation (hd_term current), tm_holder = lc_holder lc, expires_at = now + lc_term_length lc\<rparr>
              (Update (hd_version current))) (\<lambda>w.
            case w of
              Inr new \<Rightarrow> remember new
            | Inl e \<Rightarrow>
                if e = Os_Precondition
                then io_bind (set_held None) (\<lambda>_.
                     io_bind (whoever_holds_it lc) (\<lambda>(holder, _). Done (Inl (Lease_Lost holder (generation (hd_term current))))))
                else Done (Inl (Lease_Backend e))))))"

definition lease_release :: "LeaseConfig \<Rightarrow> ('a LeaseState_scheme, LeaseError + unit) io" where
  "lease_release lc =
     guarded
       (io_bind (reading ls_held) (\<lambda>holding.
        io_bind (set_held None) (\<lambda>_.
        case holding of
          None \<Rightarrow> Done (Inl Lease_NotHeld)
        | Some current \<Rightarrow>
            Now (\<lambda>now.
            io_bind (lease_write lc
              \<lparr>generation = generation (hd_term current), tm_holder = lc_holder lc, expires_at = now\<rparr>
              (Update (hd_version current))) (\<lambda>w. Done
            (case w of
               Inr _ \<Rightarrow> Inr ()
             | Inl e \<Rightarrow> if e = Os_Precondition then Inr () else Inl (Lease_Backend e)))))))"

definition lease_observe :: "LeaseConfig \<Rightarrow> ('n, LeaseError + Term option) io" where
  "lease_observe lc = io_bind (lease_read lc) (\<lambda>r. Done (rbind r (\<lambda>found. Inr (map_option fst found))))"

text \<open>The status of a lease that is being taken or given up reads as not held.\<close>

definition lease_held :: "('a LeaseState_scheme, Term option) io" where
  "lease_held = reading (\<lambda>s. if ls_locked s then None else map_option hd_term (ls_held s))"

end
