(* ===== verification/Leadership.thy ===== *)
theory Leadership
  imports Lease
begin

text \<open>
  Holding the writer role and giving it up, \<open>crates/slate-server/src/leadership.rs\<close>: the standing of a node, the
  attempts to become and to stay the leader, stepping down, and one round of the loops that call them. The
  lease is the trait's methods, a record of programs, so that the loops run over any lease.
\<close>

section \<open>Standings\<close>

datatype StepDown = Fenced | LeaseLost | Resigned | LeaseUnusable

datatype Standing = Follower "scalars option" | Leader Term | SteppedDown StepDown

fun is_leader :: "Standing \<Rightarrow> bool" where
  "is_leader (Leader _) = True"
| "is_leader _ = False"

fun has_stepped_down :: "Standing \<Rightarrow> bool" where
  "has_stepped_down (SteppedDown _) = True"
| "has_stepped_down _ = False"

fun step_down_reason :: "StepDown \<Rightarrow> string" where
  "step_down_reason Fenced = ''fenced by another writer''"
| "step_down_reason LeaseLost = ''the lease was taken by another node''"
| "step_down_reason Resigned = ''resigned''"
| "step_down_reason LeaseUnusable = ''the storage backing the lease cannot support one''"

record Cadence =
  renew_every :: int
  campaign_every :: int

definition for_term :: "int \<Rightarrow> Cadence" where
  "for_term term_length = (let every = term_length div 3 in \<lparr>renew_every = every, campaign_every = every\<rparr>)"

section \<open>A node\<close>

record Node = LeaseState +
  nd_standing :: Standing

record 'n LeaseOps =
  op_acquire :: "('n, LeaseError + Term) io"
  op_renew :: "('n, LeaseError + Term) io"
  op_release :: "('n, LeaseError + unit) io"
  op_observe :: "('n, LeaseError + Term option) io"

definition object_store_lease :: "LeaseConfig \<Rightarrow> Node LeaseOps" where
  "object_store_lease lc =
     \<lparr>op_acquire = lease_acquire lc, op_renew = lease_renew lc, op_release = lease_release lc, op_observe = lease_observe lc\<rparr>"

lemma object_store_ops [simp]:
  "op_acquire (object_store_lease lc) = lease_acquire lc" "op_renew (object_store_lease lc) = lease_renew lc"
  "op_release (object_store_lease lc) = lease_release lc" "op_observe (object_store_lease lc) = lease_observe lc"
  by (simp_all add: object_store_lease_def)

definition leadership_new :: Node where
  "leadership_new = LeaseState.extend lease_new \<lparr>nd_standing = Follower None\<rparr>"

definition send_replace :: "Standing \<Rightarrow> (Node, unit) io" where
  "send_replace st = atomically (\<lambda>s. s\<lparr>nd_standing := st\<rparr>)"

definition term_held :: "Node \<Rightarrow> Term option" where
  "term_held s = (case nd_standing s of Leader term \<Rightarrow> Some term | _ \<Rightarrow> None)"

definition step_down :: "Node LeaseOps \<Rightarrow> StepDown \<Rightarrow> (Node, unit) io" where
  "step_down lease reason =
     io_bind (reading nd_standing) (\<lambda>st.
     if has_stepped_down st then Done ()
     else io_bind (send_replace (SteppedDown reason)) (\<lambda>_.
          io_bind (op_release lease) (\<lambda>_. Done ())))"

definition campaign :: "Node LeaseOps \<Rightarrow> (Node, bool) io" where
  "campaign lease =
     io_bind (reading nd_standing) (\<lambda>st.
     if has_stepped_down st then Done False
     else
       io_bind (op_acquire lease) (\<lambda>r.
       case r of
         Inr term \<Rightarrow> io_bind (send_replace (Leader term)) (\<lambda>_. Done True)
       | Inl (Lease_Held holder _) \<Rightarrow> io_bind (send_replace (Follower (Some holder))) (\<lambda>_. Done False)
       | Inl (Lease_Unsupported _) \<Rightarrow> io_bind (step_down lease LeaseUnusable) (\<lambda>_. Done False)
       | Inl _ \<Rightarrow> io_bind (send_replace (Follower None)) (\<lambda>_. Done False)))"

definition observed :: "scalars option \<Rightarrow> (Node, unit) io" where
  "observed holder =
     atomically (\<lambda>s.
       if has_stepped_down (nd_standing s) \<or> is_leader (nd_standing s) \<or> nd_standing s = Follower holder then s
       else s\<lparr>nd_standing := Follower holder\<rparr>)"

definition renew :: "Node LeaseOps \<Rightarrow> (Node, bool) io" where
  "renew lease =
     io_bind (reading nd_standing) (\<lambda>st.
     if \<not> is_leader st then Done False
     else
       io_bind (op_renew lease) (\<lambda>r.
       case r of
         Inr term \<Rightarrow> io_bind (send_replace (Leader term)) (\<lambda>_. Done True)
       | Inl (Lease_Lost _ _) \<Rightarrow> io_bind (step_down lease LeaseLost) (\<lambda>_. Done False)
       | Inl Lease_NotHeld \<Rightarrow> io_bind (step_down lease LeaseLost) (\<lambda>_. Done False)
       | Inl _ \<Rightarrow> Done True))"

definition fenced :: "Node LeaseOps \<Rightarrow> (Node, unit) io" where
  "fenced lease = step_down lease Fenced"

definition resign :: "Node LeaseOps \<Rightarrow> (Node, unit) io" where
  "resign lease = step_down lease Resigned"

section \<open>The loops\<close>

text \<open>One round of each loop: whether the loop goes on. The pauses between two calls are what the
  interleaving of tasks allows anywhere.\<close>

definition follow_round :: "Node LeaseOps \<Rightarrow> (Node, bool) io" where
  "follow_round lease =
     io_bind (reading nd_standing) (\<lambda>st.
     if has_stepped_down st then Done False
     else
       io_bind (op_observe lease) (\<lambda>r.
       io_bind (observed (case r of Inr (Some term) \<Rightarrow> Some (tm_holder term) | _ \<Rightarrow> None)) (\<lambda>_. Done True)))"

definition maintain_round :: "Node LeaseOps \<Rightarrow> (Node, bool) io" where
  "maintain_round lease =
     io_bind (reading nd_standing) (\<lambda>st.
     case st of
       SteppedDown _ \<Rightarrow> Done False
     | Leader _ \<Rightarrow> io_bind (renew lease) (\<lambda>_. Done True)
     | Follower _ \<Rightarrow> io_bind (campaign lease) (\<lambda>_. Done True))"

end
