(* ===== verification/Lease_Safety.thy ===== *)
theory Lease_Safety
  imports Leadership
begin

text \<open>
  The nodes of a deployment over one object store. Any number of nodes run any number of tasks, each the
  program of a call on the node's leadership, and a step is one atomic local action, one reading of a
  node's clock, or one request to the object store, which may fail, also after the write has landed. The
  store is a parameter; what the lease relies on is that its writes are conditional and that a version
  names one content. Clocks may say anything and disagree.
\<close>

section \<open>The system\<close>

record 'x World =
  w_get :: "'x \<Rightarrow> scalars \<Rightarrow> ObjectError + bytes \<times> UpdateVersion \<Rightarrow> bool"
  w_put :: "'x \<Rightarrow> scalars \<Rightarrow> bytes \<Rightarrow> PutMode \<Rightarrow> ObjectError + UpdateVersion \<Rightarrow> 'x \<Rightarrow> bool"

fun put_allowed :: "PutMode \<Rightarrow> (bytes \<times> UpdateVersion) option \<Rightarrow> bool" where
  "put_allowed Create found = (found = None)"
| "put_allowed (Update u) found = (\<exists>bs. found = Some (bs, u))"

definition conditional_store ::
  "'x World \<Rightarrow> ('x \<Rightarrow> scalars \<Rightarrow> (bytes \<times> UpdateVersion) option) \<Rightarrow> ('x \<Rightarrow> scalars \<Rightarrow> UpdateVersion \<Rightarrow> bytes option) \<Rightarrow> bool" where
  "conditional_store W view named \<longleftrightarrow>
     (\<forall>x path bs v. view x path = Some (bs, v) \<longrightarrow> named x path v = Some bs) \<and>
     (\<forall>x path bs v. w_get W x path (Inr (bs, v)) \<longrightarrow> view x path = Some (bs, v)) \<and>
     (\<forall>x path. w_get W x path (Inl Os_NotFound) \<longrightarrow> view x path = None) \<and>
     (\<forall>x path bs mode r x'. w_put W x path bs mode r x' \<longrightarrow>
        (\<forall>other. named x other \<subseteq>\<^sub>m named x' other) \<and>
        (view x' = view x \<and> (\<exists>e. r = Inl e) \<or>
         (\<exists>v. view x' = (view x)(path \<mapsto> (bs, v)) \<and> put_allowed mode (view x path) \<and> (r = Inr v \<or> (\<exists>s. r = Inl (Os_Other s))))))"

datatype Call = Call_Campaign | Call_Renew | Call_Fenced | Call_Resign | Call_FollowRound | Call_MaintainRound

definition program :: "LeaseConfig \<Rightarrow> Call \<Rightarrow> (Node, bool) io" where
  "program lc call =
     (let lease = object_store_lease lc
      in case call of
           Call_Campaign \<Rightarrow> campaign lease
         | Call_Renew \<Rightarrow> renew lease
         | Call_Fenced \<Rightarrow> io_bind (fenced lease) (\<lambda>_. Done True)
         | Call_Resign \<Rightarrow> io_bind (resign lease) (\<lambda>_. Done True)
         | Call_FollowRound \<Rightarrow> follow_round lease
         | Call_MaintainRound \<Rightarrow> maintain_round lease)"

record 'x System =
  sy_store :: 'x
  sy_nodes :: "nat \<Rightarrow> Node"
  sy_tasks :: "(nat \<times> (Node, bool) io) list"

text \<open>A clock reads a moment since the epoch that fits the stored form with room for a term.\<close>

definition sane :: "int \<Rightarrow> bool" where
  "sane t \<longleftrightarrow> 0 \<le> t \<and> t < 2 ^ 63 * 1000000"

inductive step :: "'x World \<Rightarrow> (nat \<Rightarrow> LeaseConfig) \<Rightarrow> 'x System \<Rightarrow> 'x System \<Rightarrow> bool" for W lc where
  Spawn: "step W lc sy (sy\<lparr>sy_tasks := sy_tasks sy @ [(n, program (lc n) call)]\<rparr>)"
| Local: "i < length (sy_tasks sy) \<Longrightarrow> sy_tasks sy ! i = (n, Local f) \<Longrightarrow> f (sy_nodes sy n) = Some (s, p) \<Longrightarrow>
    step W lc sy (sy\<lparr>sy_nodes := (sy_nodes sy)(n := s), sy_tasks := (sy_tasks sy)[i := (n, p)]\<rparr>)"
| Now: "i < length (sy_tasks sy) \<Longrightarrow> sy_tasks sy ! i = (n, Now c) \<Longrightarrow> sane t \<Longrightarrow>
    step W lc sy (sy\<lparr>sy_tasks := (sy_tasks sy)[i := (n, c t)]\<rparr>)"
| Get: "i < length (sy_tasks sy) \<Longrightarrow> sy_tasks sy ! i = (n, Get path c) \<Longrightarrow> w_get W (sy_store sy) path r \<Longrightarrow>
    step W lc sy (sy\<lparr>sy_tasks := (sy_tasks sy)[i := (n, c r)]\<rparr>)"
| Put: "i < length (sy_tasks sy) \<Longrightarrow> sy_tasks sy ! i = (n, Put path bs mode c) \<Longrightarrow> w_put W (sy_store sy) path bs mode r x \<Longrightarrow>
    step W lc sy (sy\<lparr>sy_store := x, sy_tasks := (sy_tasks sy)[i := (n, c r)]\<rparr>)"

definition initial_system :: "'x \<Rightarrow> 'x System" where
  "initial_system x = \<lparr>sy_store = x, sy_nodes = (\<lambda>_. leadership_new), sy_tasks = []\<rparr>"

inductive reachable :: "'x World \<Rightarrow> (nat \<Rightarrow> LeaseConfig) \<Rightarrow> 'x System \<Rightarrow> 'x System \<Rightarrow> bool" for W lc sy0 where
  Start: "reachable W lc sy0 sy0"
| Step: "reachable W lc sy0 sy \<Longrightarrow> step W lc sy sy' \<Longrightarrow> reachable W lc sy0 sy'"

text \<open>The nodes share the path of the lease; their identities differ and survive being stored.\<close>

definition deployment :: "(nat \<Rightarrow> LeaseConfig) \<Rightarrow> scalars \<Rightarrow> bool" where
  "deployment lc path \<longleftrightarrow>
     inj (\<lambda>n. lc_holder (lc n)) \<and>
     (\<forall>n. lc_path (lc n) = path \<and> 0 \<le> lc_term_length (lc n) \<and> lc_term_length (lc n) \<le> 2 ^ 63 * 1000000 \<and>
        10 \<notin> set (lc_holder (lc n)) \<and> 13 \<notin> set (lc_holder (lc n)) \<and> list_all is_scalar (lc_holder (lc n)) \<and>
        trim (lc_holder (lc n)) = lc_holder (lc n))"

section \<open>The history of the lease object\<close>

text \<open>A write that landed: by which node, of which term, at which version, and whether it took the lease or
  extended or ended a term already held.\<close>

record Entry =
  en_node :: nat
  en_term :: Term
  en_version :: UpdateVersion
  en_won :: bool

definition stored_expiry :: "Term \<Rightarrow> int" where
  "stored_expiry term = 1000000 * (expires_at term div 1000000)"

definition takes_over :: "LeaseConfig \<Rightarrow> Term \<Rightarrow> Term \<Rightarrow> bool" where
  "takes_over lc old new \<longleftrightarrow>
     generation new = next_generation (generation old) \<and>
     (tm_holder old = tm_holder new \<or> stored_expiry old \<le> expires_at new - lc_term_length lc)"

definition follows :: "(nat \<Rightarrow> LeaseConfig) \<Rightarrow> Entry \<Rightarrow> Entry \<Rightarrow> bool" where
  "follows lc e e' \<longleftrightarrow>
     (if en_won e' then takes_over (lc (en_node e')) (en_term e) (en_term e')
      else generation (en_term e') = generation (en_term e) \<and> en_node e' = en_node e)"

definition entry_ok :: "(nat \<Rightarrow> LeaseConfig) \<Rightarrow> Entry \<Rightarrow> bool" where
  "entry_ok lc e \<longleftrightarrow> term_ok (en_term e) \<and> tm_holder (en_term e) = lc_holder (lc (en_node e))"

text \<open>The writes in order, the latest first.\<close>

fun history :: "(nat \<Rightarrow> LeaseConfig) \<Rightarrow> Entry list \<Rightarrow> bool" where
  "history lc [] = True"
| "history lc [e] = (entry_ok lc e \<and> en_won e \<and> generation (en_term e) = 1)"
| "history lc (e' # e # log) = (entry_ok lc e' \<and> follows lc e e' \<and> history lc (e # log))"

lemma history_entries: "history lc log \<Longrightarrow> e \<in> set log \<Longrightarrow> entry_ok lc e"
  by (induction lc log rule: history.induct) auto

section \<open>What a task may do\<close>

definition node_ok :: "Entry set \<Rightarrow> nat \<Rightarrow> Node \<Rightarrow> bool" where
  "node_ok E n s \<longleftrightarrow>
     (\<forall>h. ls_held s = Some h \<longrightarrow> (\<exists>e\<in>E. en_node e = n \<and> en_term e = hd_term h \<and> en_version e = hd_version h)) \<and>
     (\<forall>term. nd_standing s = Leader term \<longrightarrow> (\<exists>e\<in>E. en_node e = n \<and> generation (en_term e) = generation term))"

definition seen :: "(nat \<Rightarrow> LeaseConfig) \<Rightarrow> Entry set \<Rightarrow> ObjectError + bytes \<times> UpdateVersion \<Rightarrow> bool" where
  "seen lc E r \<longleftrightarrow>
     (\<forall>bs v. r = Inr (bs, v) \<longrightarrow> (\<exists>e\<in>E. bs = encode_term (en_term e) \<and> v = en_version e \<and> entry_ok lc e))"

definition proper_write :: "(nat \<Rightarrow> LeaseConfig) \<Rightarrow> nat \<Rightarrow> Entry set \<Rightarrow> PutMode \<Rightarrow> Term \<Rightarrow> bool \<Rightarrow> bool" where
  "proper_write lc n E mode term won \<longleftrightarrow>
     term_ok term \<and> tm_holder term = lc_holder (lc n) \<and>
     (case mode of
        Create \<Rightarrow> won \<and> generation term = 1
      | Update u \<Rightarrow>
          \<exists>e\<in>E. en_version e = u \<and>
            (if won then takes_over (lc n) (en_term e) term
             else generation term = generation (en_term e) \<and> en_node e = n))"

definition landed :: "nat \<Rightarrow> Term \<Rightarrow> bool \<Rightarrow> Entry set \<Rightarrow> ObjectError + UpdateVersion \<Rightarrow> bool" where
  "landed n term won E r \<longleftrightarrow> (\<forall>v. r = Inr v \<longrightarrow> \<lparr>en_node = n, en_term = term, en_version = v, en_won = won\<rparr> \<in> E)"

text \<open>A program that keeps its node in order and only writes what it may, whatever has landed when it goes on;
  its result meets the postcondition.\<close>

primrec safe ::
  "(nat \<Rightarrow> LeaseConfig) \<Rightarrow> nat \<Rightarrow> (Entry set \<Rightarrow> 'r \<Rightarrow> bool) \<Rightarrow> (Node, 'r) io \<Rightarrow> Entry set \<Rightarrow> bool" where
  "safe lc n Q (Done r) = (\<lambda>E. \<forall>E'. E \<subseteq> E' \<longrightarrow> Q E' r)"
| "safe lc n Q (Local f) = (\<lambda>E. \<forall>E' s. E \<subseteq> E' \<longrightarrow> node_ok E' n s \<longrightarrow>
     (case map_option (map_prod id (safe lc n Q)) (f s) of None \<Rightarrow> True | Some (s', ok) \<Rightarrow> node_ok E' n s' \<and> ok E'))"
| "safe lc n Q (Now c) = (\<lambda>E. \<forall>E' t. E \<subseteq> E' \<longrightarrow> sane t \<longrightarrow> safe lc n Q (c t) E')"
| "safe lc n Q (Get path c) = (\<lambda>E. \<forall>E' r. E \<subseteq> E' \<longrightarrow> (path = lc_path (lc n) \<longrightarrow> seen lc E' r) \<longrightarrow> safe lc n Q (c r) E')"
| "safe lc n Q (Put path bs mode c) = (\<lambda>E.
     if path = lc_path (lc n)
     then \<exists>term won. bs = encode_term term \<and> proper_write lc n E mode term won \<and>
       (\<forall>E' r. E \<subseteq> E' \<longrightarrow> landed n term won E' r \<longrightarrow>
          safe lc n Q (c r) E')
     else \<forall>E' r. E \<subseteq> E' \<longrightarrow> safe lc n Q (c r) E')"

lemma safe_Local:
  "safe lc n Q (Local f) E \<longleftrightarrow>
     (\<forall>E' s s' p. E \<subseteq> E' \<longrightarrow> node_ok E' n s \<longrightarrow> f s = Some (s', p) \<longrightarrow> node_ok E' n s' \<and> safe lc n Q p E')"
  by (auto split: option.splits)

declare safe.simps(2) [simp del]

lemma proper_mono: "proper_write lc n E mode term won \<Longrightarrow> E \<subseteq> E' \<Longrightarrow> proper_write lc n E' mode term won"
  by (auto simp: proper_write_def split: PutMode.splits if_splits)

lemma safe_PutI:
  assumes "path = lc_path (lc n)" and "bs = encode_term tm" and "proper_write lc n E mode tm won"
    and "\<And>E' r. E \<subseteq> E' \<Longrightarrow> landed n tm won E' r \<Longrightarrow>
          safe lc n Q (c r) E'"
  shows "safe lc n Q (Put path bs mode c) E"
  using assms by (simp, intro exI [of _ tm] conjI exI [of _ won]) auto

lemma safe_PutE:
  assumes "safe lc n Q (Put path bs mode c) E" and "path = lc_path (lc n)"
  obtains tm won where "bs = encode_term tm" "proper_write lc n E mode tm won"
    "\<And>E' r. E \<subseteq> E' \<Longrightarrow> landed n tm won E' r \<Longrightarrow>
          safe lc n Q (c r) E'"
  using assms by auto

lemma safe_PutO:
  "path \<noteq> lc_path (lc n) \<Longrightarrow> safe lc n Q (Put path bs mode c) E \<longleftrightarrow> (\<forall>E' r. E \<subseteq> E' \<longrightarrow> safe lc n Q (c r) E')"
  by simp

declare safe.simps(5) [simp del]

lemma safe_mono: "safe lc n Q p E \<Longrightarrow> E \<subseteq> E' \<Longrightarrow> safe lc n Q p E'"
proof (induction p)
  case (Put path bs mode c)
  show ?case
  proof (cases "path = lc_path (lc n)")
    case True
    obtain tm won where w: "bs = encode_term tm" "proper_write lc n E mode tm won"
      "\<And>E' r. E \<subseteq> E' \<Longrightarrow> landed n tm won E' r \<Longrightarrow>
          safe lc n Q (c r) E'"
      by (rule safe_PutE [OF Put.prems(1) True]) (rule that)
    show ?thesis
      by (rule safe_PutI [where won = won, OF True w(1) proper_mono [OF w(2) Put.prems(2)]]) (use w(3) Put.prems(2) in blast)
  qed (use Put.prems in \<open>auto simp: safe_PutO\<close>)
qed (auto simp: safe_Local)

lemma safe_bind:
  "safe lc n Q p E \<Longrightarrow> (\<And>E' r. E \<subseteq> E' \<Longrightarrow> Q E' r \<Longrightarrow> safe lc n Q' (k r) E') \<Longrightarrow> safe lc n Q' (io_bind p k) E"
proof (induction p arbitrary: E)
  case (Done r)
  then show ?case by auto
next
  case (Local f)
  have "node_ok E' n s' \<and> safe lc n Q' (io_bind p k) E'" if "E \<subseteq> E'" "node_ok E' n s" "f s = Some (s', p)" for E' s s' p
  proof
    show "node_ok E' n s'" using Local.prems(1) that by (simp add: safe_Local)
    show "safe lc n Q' (io_bind p k) E'"
      by (rule Local.IH [of "Some (s', p)" "(s', p)" p]) (use rangeI [of f s] that Local.prems in \<open>auto simp: safe_Local\<close>)
  qed
  then show ?case by (auto simp: safe_Local)
next
  case (Put path bs mode c)
  show ?case
  proof (cases "path = lc_path (lc n)")
    case True
    obtain tm won where w: "bs = encode_term tm" "proper_write lc n E mode tm won"
      "\<And>E' r. E \<subseteq> E' \<Longrightarrow> landed n tm won E' r \<Longrightarrow>
          safe lc n Q (c r) E'"
      by (rule safe_PutE [OF Put.prems(1) True]) (rule that)
    have "safe lc n Q' (Put path bs mode (\<lambda>r. io_bind (c r) k)) E"
    proof (rule safe_PutI [where won = won, OF True w(1,2)])
      fix E' r
      assume E': "E \<subseteq> E'" "landed n tm won E' r"
      show "safe lc n Q' (io_bind (c r) k) E'"
        by (rule Put.IH [OF rangeI w(3) [OF E']]) (use Put.prems(2) E'(1) in auto)
    qed
    then show ?thesis by simp
  next
    case False
    have "safe lc n Q' (io_bind (c r) k) E'" if "E \<subseteq> E'" for E' r
      by (rule Put.IH [OF rangeI]) (use Put.prems that False in \<open>auto simp: safe_PutO\<close>)
    then show ?thesis using False by (simp add: safe_PutO)
  qed
next
  case (Now c)
  then show ?case using Now.IH [OF rangeI] by (auto 4 3)
next
  case (Get path c)
  then show ?case using Get.IH [OF rangeI] by (auto 4 3)
qed

section \<open>The operations are safe\<close>

lemma safe_reading:
  "(\<And>E' s. E \<subseteq> E' \<Longrightarrow> node_ok E' n s \<Longrightarrow> safe lc n Q (k (f s)) E') \<Longrightarrow> safe lc n Q (io_bind (reading f) k) E"
  by (simp add: reading_def safe_Local)

lemma safe_atomically:
  "(\<And>E' s. E \<subseteq> E' \<Longrightarrow> node_ok E' n s \<Longrightarrow> node_ok E' n (f s)) \<Longrightarrow> (\<And>E'. E \<subseteq> E' \<Longrightarrow> safe lc n Q (k ()) E') \<Longrightarrow>
     safe lc n Q (io_bind (atomically f) k) E"
  by (simp add: atomically_def safe_Local)

lemma safe_Done: "(\<And>E'. E \<subseteq> E' \<Longrightarrow> Q E' r) \<Longrightarrow> safe lc n Q (Done r) E"
  by simp

lemma node_ok_lease [simp]:
  "node_ok E n (s\<lparr>ls_locked := l\<rparr>) = node_ok E n s" "node_ok E n (s\<lparr>ls_conditional_update := c\<rparr>) = node_ok E n s"
  by (simp_all add: node_ok_def)

lemma safe_guarded:
  assumes "\<And>E'. E \<subseteq> E' \<Longrightarrow> safe lc n Q body E'" and "\<And>E E' r. Q E r \<Longrightarrow> E \<subseteq> E' \<Longrightarrow> Q E' r"
  shows "safe lc n Q (guarded body) E"
proof -
  have "safe lc n Q (io_bind body (\<lambda>r. io_bind unlock_held (\<lambda>_. Done r))) E'" if "E \<subseteq> E'" for E'
    by (rule safe_bind [OF assms(1) [OF that]]) (use assms(2) in \<open>auto simp: unlock_held_def intro!: safe_atomically\<close>)
  then show ?thesis by (simp add: guarded_def lock_held_def safe_Local)
qed

definition stored_term :: "Term \<Rightarrow> Term" where
  "stored_term tm = tm\<lparr>expires_at := stored_expiry tm\<rparr>"

lemma decode_entry: "deployment lc path \<Longrightarrow> entry_ok lc e \<Longrightarrow> decode_term (encode_term (en_term e)) = Inr (stored_term (en_term e))"
  by (simp add: entry_ok_def decode_encode_term deployment_def stored_term_def stored_expiry_def)

lemma safe_read:
  assumes "deployment lc path" and "\<And>E' e. E \<subseteq> E' \<Longrightarrow> safe lc n Q (k (Inl e)) E'" and "\<And>E'. E \<subseteq> E' \<Longrightarrow> safe lc n Q (k (Inr None)) E'"
    and "\<And>E' e. E \<subseteq> E' \<Longrightarrow> e \<in> E' \<Longrightarrow> entry_ok lc e \<Longrightarrow> safe lc n Q (k (Inr (Some (stored_term (en_term e), en_version e)))) E'"
  shows "safe lc n Q (io_bind (lease_read (lc n)) k) E"
proof -
  have "safe lc n Q (k (case r of Inr (bs, version) \<Rightarrow> rbind (decode_term bs) (\<lambda>term. Inr (Some (term, version)))
        | Inl e \<Rightarrow> if e = Os_NotFound then Inr None else Inl (Lease_Backend e))) E'"
    if "E \<subseteq> E'" "seen lc E' r" for E' r
    using that assms decode_entry [OF assms(1)] by (cases r) (auto simp: seen_def)
  then show ?thesis by (simp add: lease_read_def)
qed

lemma safe_write:
  assumes "proper_write lc n E mode tm won" and "\<And>E' e. E \<subseteq> E' \<Longrightarrow> safe lc n Q (k (Inl e)) E'"
    and "\<And>E' v. E \<subseteq> E' \<Longrightarrow> \<lparr>en_node = n, en_term = tm, en_version = v, en_won = won\<rparr> \<in> E' \<Longrightarrow>
      safe lc n Q (k (Inr \<lparr>hd_term = tm, hd_version = v\<rparr>)) E'"
  shows "safe lc n Q (io_bind (lease_write (lc n) tm mode) k) E"
proof -
  have "safe lc n Q (k (rbind r (\<lambda>version. Inr \<lparr>hd_term = tm, hd_version = version\<rparr>))) E'" if "E \<subseteq> E'" "landed n tm won E' r" for E' r
    using that assms(2,3) by (cases r) (auto simp: landed_def)
  then show ?thesis unfolding lease_write_def io_bind.simps by (intro safe_PutI [OF HOL.refl HOL.refl assms(1)])
qed

lemma safe_whoever:
  assumes "deployment lc path" and "\<And>E' r. E \<subseteq> E' \<Longrightarrow> safe lc n Q (k r) E'"
  shows "safe lc n Q (io_bind (whoever_holds_it (lc n)) k) E"
proof -
  have "safe lc n (\<lambda>_ _. True) (whoever_holds_it (lc n)) E" unfolding whoever_holds_it_def by (rule safe_read [OF assms(1)]) auto
  then show ?thesis by (rule safe_bind) (use assms(2) in auto)
qed

text \<open>A term handed to a node is one of its own.\<close>

definition granted :: "nat \<Rightarrow> Entry set \<Rightarrow> LeaseError + Term \<Rightarrow> bool" where
  "granted n E r \<longleftrightarrow> (\<forall>tm. r = Inr tm \<longrightarrow> (\<exists>e\<in>E. en_node e = n \<and> generation (en_term e) = generation tm))"

lemma granted_simps [simp]: "granted n E (Inl e)"
  by (simp add: granted_def)

lemma granted_mono: "granted n E r \<Longrightarrow> E \<subseteq> E' \<Longrightarrow> granted n E' r"
  unfolding granted_def by blast

lemma safe_set_held:
  assumes "\<And>E'. E \<subseteq> E' \<Longrightarrow> safe lc n Q (k ()) E'"
    and "\<And>E' h'. h = Some h' \<Longrightarrow> \<exists>e\<in>E. en_node e = n \<and> en_term e = hd_term h' \<and> en_version e = hd_version h'"
  shows "safe lc n Q (io_bind (set_held h) k) E"
  unfolding set_held_def by (rule safe_atomically) (use assms in \<open>fastforce simp: node_ok_def\<close>)+

lemma safe_remember:
  "\<lparr>en_node = n, en_term = tm, en_version = v, en_won = won\<rparr> \<in> E \<Longrightarrow>
     safe lc n (granted n) (remember \<lparr>hd_term = tm, hd_version = v\<rparr>) E"
  unfolding remember_def by (rule safe_set_held) (force simp: granted_def)+

lemma safe_another: "deployment lc path \<Longrightarrow> safe lc n (granted n) (held_by_another (lc n)) E"
  unfolding held_by_another_def by (rule safe_whoever) auto

lemma new_term_ok:
  assumes "deployment lc path" and "sane now" and "d = 0 \<or> d = lc_term_length (lc n)"
  shows "term_ok \<lparr>generation = g, tm_holder = lc_holder (lc n), expires_at = now + d\<rparr>"
proof -
  have d: "0 \<le> d" "d \<le> 2 ^ 63 * 1000000" using assms by (auto simp: deployment_def)
  then have "0 \<le> now + d" "now + d < 2 ^ 64 * 1000000" using assms(2) by (auto simp: sane_def)
  then have "(now + d) div 1000000 < 2 ^ 64" by linarith
  then show ?thesis using \<open>0 \<le> now + d\<close> assms(1) by (simp add: term_ok_def deployment_def)
qed

lemma safe_take_free:
  assumes "deployment lc path" and "sane now"
  shows "safe lc n (granted n) (take_free (lc n) (now + lc_term_length (lc n))) E"
  unfolding take_free_def
  by (rule safe_write [where won = True])
    (use new_term_ok [OF assms, where n = n and d = "lc_term_length (lc n)"] safe_another [OF assms(1)] safe_remember
      in \<open>auto simp: proper_write_def\<close>)

lemma safe_take_over:
  assumes "deployment lc path" and "sane now" and "e \<in> E" and "\<not> (tm_holder (en_term e) \<noteq> lc_holder (lc n) \<and> now < stored_expiry (en_term e))"
  shows "safe lc n (granted n) (take_over (lc n) (now + lc_term_length (lc n)) (stored_term (en_term e)) (en_version e)) E"
proof -
  have "proper_write lc n E (Update (en_version e)) \<lparr>generation = next_generation (generation (stored_term (en_term e))),
      tm_holder = lc_holder (lc n), expires_at = now + lc_term_length (lc n)\<rparr> True"
    using new_term_ok [OF assms(1,2), where n = n and d = "lc_term_length (lc n)"] assms(3,4)
    by (auto simp: proper_write_def takes_over_def stored_term_def)
  then show ?thesis
    unfolding take_over_def
    by (rule safe_write) (use safe_another [OF assms(1)] safe_remember in \<open>auto intro!: safe_set_held\<close>)
qed

lemma safe_require: "safe lc n (\<lambda>_ _. True) (require_conditional_update (lc n)) E"
proof -
  have "lc_path (lc n) @ PROBE_SUFFIX \<noteq> lc_path (lc n)" by (simp add: PROBE_SUFFIX_def)
  then show ?thesis
    unfolding require_conditional_update_def
    by (intro safe_reading) (auto simp: safe_PutO Let_def intro!: safe_atomically)
qed

lemma safe_acquire: "deployment lc path \<Longrightarrow> safe lc n (granted n) (lease_acquire (lc n)) E"
proof -
  assume dep: "deployment lc path"
  have body: "safe lc n (granted n) (Now (\<lambda>now. let expires = now + lc_term_length (lc n)
       in io_bind (lease_read (lc n)) (\<lambda>found. case found of
            Inl e \<Rightarrow> Done (Inl e)
          | Inr None \<Rightarrow> take_free (lc n) expires
          | Inr (Some (current, version)) \<Rightarrow>
              if tm_holder current \<noteq> lc_holder (lc n) \<and> is_live_at current now
              then io_bind (set_held None) (\<lambda>_. Done (Inl (Lease_Held (tm_holder current) (expires_at current))))
              else take_over (lc n) expires current version))) E" for E
    unfolding safe.simps Let_def
    by (intro allI impI safe_read [OF dep])
      (use safe_take_over [OF dep, where n = n] safe_take_free [OF dep] in \<open>auto simp: stored_term_def is_live_at_def intro!: safe_set_held\<close>)
  show ?thesis
    unfolding lease_acquire_def
    by (rule safe_bind [OF safe_require]) (auto split: sum.split intro!: safe_guarded body intro: granted_mono)
qed

lemma held_writable:
  assumes "deployment lc path" and "sane now" and "node_ok E n s" and "ls_held s = Some h" and "d = 0 \<or> d = lc_term_length (lc n)" and "E \<subseteq> E'"
  shows "proper_write lc n E' (Update (hd_version h))
    \<lparr>generation = generation (hd_term h), tm_holder = lc_holder (lc n), expires_at = now + d\<rparr> False"
  using new_term_ok [OF assms(1,2,5)] assms(3,4,6) unfolding proper_write_def node_ok_def by fastforce

lemma safe_renew_lease: "deployment lc path \<Longrightarrow> safe lc n (granted n) (lease_renew (lc n)) E"
proof -
  assume dep: "deployment lc path"
  have "safe lc n (granted n) (case ls_held s of None \<Rightarrow> Done (Inl Lease_NotHeld)
        | Some current \<Rightarrow> Now (\<lambda>now. io_bind (lease_write (lc n) \<lparr>generation = generation (hd_term current), tm_holder = lc_holder (lc n),
              expires_at = now + lc_term_length (lc n)\<rparr> (Update (hd_version current))) (\<lambda>w.
            case w of Inl e \<Rightarrow> if e = Os_Precondition
                then io_bind (set_held None) (\<lambda>_.
                     io_bind (whoever_holds_it (lc n)) (\<lambda>(holder, _). Done (Inl (Lease_Lost holder (generation (hd_term current))))))
                else Done (Inl (Lease_Backend e)) | Inr new \<Rightarrow> remember new))) F" if s: "node_ok F n s" for F s
  proof (cases "ls_held s")
    case (Some h)
    show ?thesis unfolding Some option.case safe.simps
      by (intro allI impI, rule safe_write [OF held_writable [OF dep _ s Some disjI2]])
        (use safe_remember in \<open>auto intro!: safe_set_held safe_whoever [OF dep]\<close>)
  qed simp
  then show ?thesis
    unfolding lease_renew_def by (intro safe_guarded safe_reading) (auto intro: granted_mono)
qed

lemma safe_release_lease: "deployment lc path \<Longrightarrow> safe lc n (\<lambda>_ _. True) (lease_release (lc n)) E"
proof -
  assume dep: "deployment lc path"
  have "safe lc n (\<lambda>_ _. True) (case ls_held s of None \<Rightarrow> Done (Inl Lease_NotHeld)
        | Some current \<Rightarrow> Now (\<lambda>now. io_bind (lease_write (lc n) \<lparr>generation = generation (hd_term current), tm_holder = lc_holder (lc n),
              expires_at = now\<rparr> (Update (hd_version current))) (\<lambda>w. Done
            (case w of Inl e \<Rightarrow> if e = Os_Precondition then Inr () else Inl (Lease_Backend e) | Inr _ \<Rightarrow> Inr ())))) G"
    if s: "node_ok F n s" and F: "F \<subseteq> G" for F G s
  proof (cases "ls_held s")
    case (Some h)
    have "proper_write lc n G' (Update (hd_version h)) \<lparr>generation = generation (hd_term h), tm_holder = lc_holder (lc n), expires_at = now\<rparr> False"
      if "sane now" "G \<subseteq> G'" for now G'
      using held_writable [OF dep that(1) s Some disjI1 [OF HOL.refl], of G'] F that(2) by simp
    then show ?thesis unfolding Some option.case safe.simps by (intro allI impI, intro safe_write) auto
  qed simp
  then show ?thesis
    unfolding lease_release_def by (intro safe_guarded safe_reading safe_set_held) auto
qed

lemma safe_send:
  assumes "\<And>E'. E \<subseteq> E' \<Longrightarrow> safe lc n Q (k ()) E'"
    and "\<And>tm. st = Leader tm \<Longrightarrow> \<exists>e\<in>E. en_node e = n \<and> generation (en_term e) = generation tm"
  shows "safe lc n Q (io_bind (send_replace st) k) E"
  unfolding send_replace_def by (rule safe_atomically) (use assms in \<open>fastforce simp: node_ok_def\<close>)+

lemma safe_step_down: "deployment lc path \<Longrightarrow> safe lc n (\<lambda>_ _. True) (step_down (object_store_lease (lc n)) reason) E"
  unfolding step_down_def
  by (intro safe_reading) (auto intro!: safe_send safe_bind [OF safe_release_lease])

lemma safe_campaign: "deployment lc path \<Longrightarrow> safe lc n (\<lambda>_ _. True) (campaign (object_store_lease (lc n))) E"
proof -
  assume dep: "deployment lc path"
  have "safe lc n (\<lambda>_ _. True) (io_bind (lease_acquire (lc n)) (\<lambda>r. case r of
         Inl (Lease_Held holder _) \<Rightarrow> io_bind (send_replace (Follower (Some holder))) (\<lambda>_. Done False)
       | Inl (Lease_Unsupported _) \<Rightarrow> io_bind (step_down (object_store_lease (lc n)) LeaseUnusable) (\<lambda>_. Done False)
       | Inl _ \<Rightarrow> io_bind (send_replace (Follower None)) (\<lambda>_. Done False)
       | Inr term \<Rightarrow> io_bind (send_replace (Leader term)) (\<lambda>_. Done True))) F" for F
    by (rule safe_bind [OF safe_acquire [OF dep]])
      (auto simp: granted_def split: sum.split LeaseError.split intro!: safe_send safe_bind [OF safe_step_down [OF dep]])
  then show ?thesis unfolding campaign_def by (intro safe_reading) (simp cong: sum.case_cong)
qed

lemma safe_renew: "deployment lc path \<Longrightarrow> safe lc n (\<lambda>_ _. True) (renew (object_store_lease (lc n))) E"
proof -
  assume dep: "deployment lc path"
  have "safe lc n (\<lambda>_ _. True) (io_bind (lease_renew (lc n)) (\<lambda>r. case r of
         Inl (Lease_Lost _ _) \<Rightarrow> io_bind (step_down (object_store_lease (lc n)) LeaseLost) (\<lambda>_. Done False)
       | Inl Lease_NotHeld \<Rightarrow> io_bind (step_down (object_store_lease (lc n)) LeaseLost) (\<lambda>_. Done False)
       | Inl _ \<Rightarrow> Done True
       | Inr term \<Rightarrow> io_bind (send_replace (Leader term)) (\<lambda>_. Done True))) F" for F
    by (rule safe_bind [OF safe_renew_lease [OF dep]])
      (auto simp: granted_def split: sum.split LeaseError.split intro!: safe_send safe_bind [OF safe_step_down [OF dep]])
  then show ?thesis unfolding renew_def by (intro safe_reading) (simp cong: sum.case_cong)
qed

lemma safe_observed: "(\<And>E'. E \<subseteq> E' \<Longrightarrow> safe lc n Q (k ()) E') \<Longrightarrow> safe lc n Q (io_bind (observed holder) k) E"
  unfolding observed_def by (rule safe_atomically) (auto simp: node_ok_def)

lemma safe_program:
  assumes "deployment lc path"
  shows "safe lc n (\<lambda>_ _. True) (program (lc n) call) E"
proof -
  have "safe lc n (\<lambda>_ _. True) (follow_round (object_store_lease (lc n))) E"
  proof -
    have "safe lc n (\<lambda>_ _. True) (lease_observe (lc n)) F" for F
      unfolding lease_observe_def by (rule safe_read [OF assms]) auto
    then show ?thesis unfolding follow_round_def
      by (intro safe_reading) (auto intro!: safe_bind [where Q = "\<lambda>_ _. True"] safe_observed)
  qed
  moreover have "safe lc n (\<lambda>_ _. True) (maintain_round (object_store_lease (lc n))) E"
    unfolding maintain_round_def
    by (intro safe_reading) (auto split: Standing.split intro!: safe_bind [OF safe_campaign [OF assms]] safe_bind [OF safe_renew [OF assms]])
  moreover have "safe lc n (\<lambda>_ _. True) (io_bind (step_down (object_store_lease (lc n)) reason) (\<lambda>_. Done True)) E" for reason
    by (rule safe_bind [OF safe_step_down [OF assms]]) auto
  ultimately show ?thesis
    using safe_campaign [OF assms] safe_renew [OF assms] unfolding program_def Let_def by (cases call) (simp_all add: fenced_def resign_def)
qed

section \<open>The invariant\<close>

definition lease_object :: "Entry list \<Rightarrow> (bytes \<times> UpdateVersion) option" where
  "lease_object log = (case log of [] \<Rightarrow> None | e # _ \<Rightarrow> Some (encode_term (en_term e), en_version e))"

definition tasks_ok :: "(nat \<Rightarrow> LeaseConfig) \<Rightarrow> Entry set \<Rightarrow> (nat \<times> (Node, bool) io) list \<Rightarrow> bool" where
  "tasks_ok lc E tasks \<longleftrightarrow> (\<forall>i<length tasks. safe lc (fst (tasks ! i)) (\<lambda>_ _. True) (snd (tasks ! i)) E)"

definition in_order ::
  "('x \<Rightarrow> scalars \<Rightarrow> (bytes \<times> UpdateVersion) option) \<Rightarrow> ('x \<Rightarrow> scalars \<Rightarrow> UpdateVersion \<Rightarrow> bytes option) \<Rightarrow>
   (nat \<Rightarrow> LeaseConfig) \<Rightarrow> scalars \<Rightarrow> 'x System \<Rightarrow> Entry list \<Rightarrow> bool" where
  "in_order view named lc path sy log \<longleftrightarrow>
     view (sy_store sy) path = lease_object log \<and> history lc log \<and>
     (\<forall>e\<in>set log. named (sy_store sy) path (en_version e) = Some (encode_term (en_term e))) \<and>
     (\<forall>n. node_ok (set log) n (sy_nodes sy n)) \<and>
     tasks_ok lc (set log) (sy_tasks sy)"

lemma same_content:
  assumes "deployment lc path" and "entry_ok lc e" and "entry_ok lc e'" and "encode_term (en_term e) = encode_term (en_term e')"
  shows "generation (en_term e) = generation (en_term e')" and "tm_holder (en_term e) = tm_holder (en_term e')"
    and "stored_expiry (en_term e) = stored_expiry (en_term e')" and "en_node e = en_node e'"
proof -
  have "stored_term (en_term e) = stored_term (en_term e')" using decode_entry [OF assms(1,2)] decode_entry [OF assms(1,3)] assms(4) by simp
  then show "generation (en_term e) = generation (en_term e')" "stored_expiry (en_term e) = stored_expiry (en_term e')"
    and h: "tm_holder (en_term e) = tm_holder (en_term e')"
    by (cases "en_term e"; cases "en_term e'"; simp add: stored_term_def)+
  then show "en_node e = en_node e'" using assms(1-3) by (auto simp: entry_ok_def deployment_def inj_def)
qed

lemma history_extend:
  assumes "deployment lc path" and "history lc log" and "put_allowed mode (lease_object log)" and "proper_write lc n (set log) mode tm won"
    and "\<And>e e'. e \<in> set log \<Longrightarrow> e' \<in> set log \<Longrightarrow> en_version e = en_version e' \<Longrightarrow> encode_term (en_term e) = encode_term (en_term e')"
  shows "history lc (\<lparr>en_node = n, en_term = tm, en_version = v, en_won = won\<rparr> # log)"
proof (cases log)
  case Nil
  then show ?thesis using assms(3,4) by (cases mode) (auto simp: proper_write_def entry_ok_def lease_object_def)
next
  case (Cons e rest)
  then obtain u where u: "mode = Update u" "en_version e = u" using assms(3) by (cases mode) (auto simp: lease_object_def)
  obtain e0 where e0: "e0 \<in> set log" "en_version e0 = u"
    "if won then takes_over (lc n) (en_term e0) tm else generation tm = generation (en_term e0) \<and> en_node e0 = n"
    using assms(4) u(1) by (auto simp: proper_write_def)
  have e: "e \<in> set log" using Cons by simp
  note same = same_content [OF assms(1) history_entries [OF assms(2) e0(1)] history_entries [OF assms(2) e] assms(5) [OF e0(1) e]]
  have "entry_ok lc \<lparr>en_node = n, en_term = tm, en_version = v, en_won = won\<rparr>" using assms(4) by (auto simp: proper_write_def entry_ok_def)
  moreover have "follows lc e \<lparr>en_node = n, en_term = tm, en_version = v, en_won = won\<rparr>"
    using e0(2,3) u(2) same by (auto simp: follows_def takes_over_def split: if_splits)
  ultimately show ?thesis using Cons assms(2) by simp
qed

lemma node_ok_mono: "node_ok E n s \<Longrightarrow> E \<subseteq> E' \<Longrightarrow> node_ok E' n s"
  unfolding node_ok_def by blast

lemma tasks_update:
  "tasks_ok lc E tasks \<Longrightarrow> E \<subseteq> E' \<Longrightarrow> safe lc n (\<lambda>_ _. True) p E' \<Longrightarrow> tasks_ok lc E' (tasks[i := (n, p)])"
  unfolding tasks_ok_def
proof (intro allI impI)
  fix k
  assume *: "\<forall>i<length tasks. safe lc (fst (tasks ! i)) (\<lambda>_ _. True) (snd (tasks ! i)) E" "E \<subseteq> E'" "safe lc n (\<lambda>_ _. True) p E'"
    "k < length (tasks[i := (n, p)])"
  show "safe lc (fst (tasks[i := (n, p)] ! k)) (\<lambda>_ _. True) (snd (tasks[i := (n, p)] ! k)) E'"
  proof (cases "k = i")
    case False
    then show ?thesis using * safe_mono [OF _ *(2), of lc "fst (tasks ! k)" "\<lambda>_ _. True" "snd (tasks ! k)"] by simp
  qed (use * in simp)
qed

lemma task_safe: "tasks_ok lc E tasks \<Longrightarrow> i < length tasks \<Longrightarrow> tasks ! i = (n, p) \<Longrightarrow> safe lc n (\<lambda>_ _. True) p E"
  by (force simp: tasks_ok_def)

lemma step_in_order:
  assumes "conditional_store W view named" and "deployment lc path" and "in_order view named lc path sy log" and "step W lc sy sy'"
  shows "\<exists>new. length new \<le> 1 \<and> in_order view named lc path sy' (new @ log)"
  using assms(4)
proof cases
  case (Spawn n call)
  then have "in_order view named lc path sy' ([] @ log)" using assms(3) safe_program [OF assms(2)] by (auto simp: in_order_def tasks_ok_def nth_append)
  then show ?thesis by (intro exI [of _ "[]"]) simp
next
  case (Local i n f s p)
  have "safe lc n (\<lambda>_ _. True) (Local f) (set log)" using task_safe Local(2,3) assms(3) by (fastforce simp: in_order_def)
  then have "node_ok (set log) n s" "safe lc n (\<lambda>_ _. True) p (set log)" using Local(4) assms(3) by (auto simp: safe_Local in_order_def)
  then have "in_order view named lc path sy' ([] @ log)" using assms(3) tasks_update [OF _ subset_refl] Local(1) by (simp add: in_order_def)
  then show ?thesis by (intro exI [of _ "[]"]) simp
next
  case (Now i n c t)
  have "safe lc n (\<lambda>_ _. True) (Now c) (set log)" using task_safe Now(2,3) assms(3) by (fastforce simp: in_order_def)
  then have "in_order view named lc path sy' ([] @ log)" using assms(3) tasks_update [OF _ subset_refl] Now(1,4) by (simp add: in_order_def)
  then show ?thesis by (intro exI [of _ "[]"]) simp
next
  case (Get i n p c r)
  have "seen lc (set log) r" if "p = path"
    using Get(4) assms(1,3) that history_entries
    by (auto simp: seen_def in_order_def conditional_store_def lease_object_def split: list.splits)
  moreover have "safe lc n (\<lambda>_ _. True) (Get p c) (set log)" using task_safe Get(2,3) assms(3) by (fastforce simp: in_order_def)
  moreover have "lc_path (lc n) = path" using assms(2) by (simp add: deployment_def)
  ultimately have "in_order view named lc path sy' ([] @ log)"
    using assms(3) tasks_update [OF _ subset_refl] Get(1) by (simp add: in_order_def)
  then show ?thesis by (intro exI [of _ "[]"]) simp
next
  case (Put i n p bs mode c r x)
  have path: "lc_path (lc n) = path" using assms(2) by (simp add: deployment_def)
  have task: "safe lc n (\<lambda>_ _. True) (Put p bs mode c) (set log)" using task_safe Put(2,3) assms(3) by (fastforce simp: in_order_def)
  have named: "named (sy_store sy) path \<subseteq>\<^sub>m named x path" and put: "view x = view (sy_store sy) \<and> (\<exists>e. r = Inl e) \<or>
      (\<exists>v. view x = (view (sy_store sy))(p \<mapsto> (bs, v)) \<and> put_allowed mode (view (sy_store sy) p) \<and> (r = Inr v \<or> (\<exists>s. r = Inl (Os_Other s))))"
    using assms(1) Put(4) by (auto simp: conditional_store_def)
  have kept: "named x path (en_version e) = Some (encode_term (en_term e))" if "e \<in> set log" for e
    using named assms(3) that unfolding map_le_def in_order_def by (metis domI)
  show ?thesis
  proof (cases "p = path")
    case False
    then have "view x path = view (sy_store sy) path" "safe lc n (\<lambda>_ _. True) (c r) (set log)"
      using put task path by (auto simp: safe_PutO)
    then have "in_order view named lc path sy' ([] @ log)"
      using assms(3) kept tasks_update [OF _ subset_refl] Put(1) by (simp add: in_order_def)
    then show ?thesis by (intro exI [of _ "[]"]) simp
  next
    case True
    obtain tm won where w: "bs = encode_term tm" "proper_write lc n (set log) mode tm won"
      "\<And>E' r. set log \<subseteq> E' \<Longrightarrow> landed n tm won E' r \<Longrightarrow> safe lc n (\<lambda>_ _. True) (c r) E'"
      by (rule safe_PutE [OF task]) (use True path in \<open>auto intro: that\<close>)
    from put show ?thesis
    proof (rule disjE)
      assume "view x = view (sy_store sy) \<and> (\<exists>e. r = Inl e)"
      then have "in_order view named lc path sy' ([] @ log)"
        using assms(3) kept tasks_update [OF _ subset_refl] w(3) [of "set log" r] Put(1) by (auto simp: in_order_def landed_def)
      then show ?thesis by (intro exI [of _ "[]"]) simp
    next
      assume "\<exists>v. view x = (view (sy_store sy))(p \<mapsto> (bs, v)) \<and> put_allowed mode (view (sy_store sy) p) \<and> (r = Inr v \<or> (\<exists>s. r = Inl (Os_Other s)))"
      then obtain v where v: "view x = (view (sy_store sy))(p \<mapsto> (bs, v))" "put_allowed mode (view (sy_store sy) p)" "r = Inr v \<or> (\<exists>s. r = Inl (Os_Other s))"
        by blast
      let ?e = "\<lparr>en_node = n, en_term = tm, en_version = v, en_won = won\<rparr>"
      have log: "view (sy_store sy) path = lease_object log" "history lc log" using assms(3) by (simp_all add: in_order_def)
      have "history lc (?e # log)"
        by (rule history_extend [OF assms(2) log(2) _ w(2)]) (use v(2) log(1) True kept option.inject in \<open>metis+\<close>)
      moreover have "named x path v = Some (encode_term tm)" using assms(1) v(1) w(1) True by (auto simp: conditional_store_def)
      moreover have "safe lc n (\<lambda>_ _. True) (c r) (set (?e # log))"
        by (rule w(3)) (use v(3) in \<open>auto simp: landed_def\<close>)
      moreover have "node_ok (set (?e # log)) k (sy_nodes sy k)" for k
        by (rule node_ok_mono [of "set log"]) (use assms(3) in \<open>auto simp: in_order_def\<close>)
      ultimately have "in_order view named lc path sy' ([?e] @ log)"
        using assms(3) kept tasks_update [of lc "set log" "sy_tasks sy" "set (?e # log)" n "c r" i] v(1) w(1) True Put(1)
        by (auto simp: in_order_def lease_object_def)
      then show ?thesis by (intro exI [of _ "[?e]"]) simp
    qed
  qed
qed

lemma reachable_in_order:
  assumes "conditional_store W view named" and "deployment lc path" and "view x path = None" and "reachable W lc (initial_system x) sy"
  shows "\<exists>log. in_order view named lc path sy log"
  using assms(4)
proof induction
  case Start
  have "in_order view named lc path (initial_system x) []"
    using assms(3) by (simp add: in_order_def initial_system_def lease_object_def node_ok_def tasks_ok_def leadership_new_def lease_new_def LeaseState.extend_def)
  then show ?case by blast
next
  case (Step sy sy')
  then show ?case using step_in_order [OF assms(1,2)] by blast
qed

section \<open>What the history says\<close>

lemma next_less: "g \<noteq> - 1 \<Longrightarrow> g < next_generation g"
proof -
  assume g: "g \<noteq> - 1"
  have "unat g \<noteq> 2 ^ 64 - 1"
  proof
    assume "unat g = 2 ^ 64 - 1"
    then have "g = word_of_nat (2 ^ 64 - 1)" by (metis of_nat_unat ucast_id)
    then show False using g by simp
  qed
  moreover have "unat g < 2 ^ 64" using unsigned_less [of g] by simp
  ultimately have "Suc (unat g) < 2 ^ 64" by linarith
  then show ?thesis using g by (simp add: next_generation_def word_less_nat_alt unat_word_ariths)
qed

lemma next_le: "g \<le> next_generation g"
  using next_less [of g] by (cases "g = - 1") (auto simp: next_generation_def)

lemma generations_grow: "history lc (e # log) \<Longrightarrow> e' \<in> set (e # log) \<Longrightarrow> generation (en_term e') \<le> generation (en_term e)"
proof (induction log arbitrary: e)
  case (Cons e0 log)
  have "generation (en_term e0) \<le> generation (en_term e)"
    using Cons.prems(1) next_le by (auto simp: follows_def takes_over_def split: if_splits)
  then show ?case using Cons.IH [of e0] Cons.prems by (cases "e' = e") (auto intro: order_trans)
qed simp

text \<open>Writes of one generation are one node's, as long as the counter has not saturated.\<close>

lemma generation_owner:
  "history lc (e # log) \<Longrightarrow> generation (en_term e) \<noteq> - 1 \<Longrightarrow> a \<in> set (e # log) \<Longrightarrow> b \<in> set (e # log) \<Longrightarrow>
     generation (en_term a) = generation (en_term b) \<Longrightarrow> en_node a = en_node b"
proof (induction log arbitrary: e a b)
  case (Cons e0 log)
  have hist: "history lc (e0 # log)" "follows lc e0 e" using Cons.prems(1) by simp_all
  have bound: "generation (en_term x) \<le> generation (en_term e0)" if "x \<in> set (e0 # log)" for x
    using generations_grow [OF hist(1) that] .
  have sat: "generation (en_term e0) \<noteq> - 1"
  proof
    assume "generation (en_term e0) = - 1"
    then have "generation (en_term e) = - 1" using hist(2) by (auto simp: follows_def takes_over_def next_generation_def split: if_splits)
    then show False using Cons.prems(2) by simp
  qed
  have old: "en_node x = en_node y" if "x \<in> set (e0 # log)" "y \<in> set (e0 # log)" "generation (en_term x) = generation (en_term y)" for x y
    by (rule Cons.IH [OF hist(1) sat that])
  have new: "en_node x = en_node e" if "x \<in> set (e0 # log)" "generation (en_term x) = generation (en_term e)" for x
  proof (cases "en_won e")
    case True
    then have "generation (en_term e0) < generation (en_term e)" using hist(2) next_less [OF sat] by (simp add: follows_def takes_over_def)
    then show ?thesis using bound [OF that(1)] that(2) by simp
  next
    case False
    then have "generation (en_term e) = generation (en_term e0)" "en_node e = en_node e0" using hist(2) by (simp_all add: follows_def)
    then show ?thesis using old [OF that(1), of e0] that(2) by simp
  qed
  show ?case using Cons.prems(3-5) old new by (metis set_ConsD)
qed simp

text \<open>The generation a reader finds in the lease object.\<close>

definition stored_generation :: "(bytes \<times> UpdateVersion) option \<Rightarrow> u64 option" where
  "stored_generation found =
     (case found of None \<Rightarrow> None | Some (bs, _) \<Rightarrow> (case decode_term bs of Inl _ \<Rightarrow> None | Inr tm \<Rightarrow> Some (generation tm)))"

lemma stored_generation_log:
  "deployment lc path \<Longrightarrow> history lc (e # log) \<Longrightarrow> stored_generation (lease_object (e # log)) = Some (generation (en_term e))"
  using history_entries [of lc "e # log" e] by (simp add: stored_generation_def lease_object_def decode_entry stored_term_def)

text \<open>C12. Two nodes that both believe they lead can always be ordered. Whatever the interleaving of tasks
  and nodes, whatever the clocks say and whichever requests fail, also after having landed: a node that
  stands as leader holds a term whose generation is at most the stored one, and two nodes that stand as
  leaders at once hold terms of different generations, as long as the counter has not saturated.\<close>

theorem leaders_are_ordered:
  assumes "conditional_store W view named" and "deployment lc path" and "view x path = None" and "reachable W lc (initial_system x) sy"
    and "nd_standing (sy_nodes sy n) = Leader term"
  shows "\<exists>g. stored_generation (view (sy_store sy) path) = Some g \<and> generation term \<le> g \<and>
    (\<forall>m term'. nd_standing (sy_nodes sy m) = Leader term' \<and> m \<noteq> n \<and> g \<noteq> - 1 \<longrightarrow> generation term' \<noteq> generation term)"
proof -
  obtain log where log: "in_order view named lc path sy log" using reachable_in_order [OF assms(1-4)] by blast
  have leads: "\<exists>e\<in>set log. en_node e = k \<and> generation (en_term e) = generation tm" if "nd_standing (sy_nodes sy k) = Leader tm" for k tm
    using log that by (simp add: in_order_def node_ok_def)
  obtain e where e: "e \<in> set log" "en_node e = n" "generation (en_term e) = generation term" using leads [OF assms(5)] by blast
  obtain top rest where top: "log = top # rest" using e(1) by (cases log) auto
  have hist: "history lc (top # rest)" "view (sy_store sy) path = lease_object (top # rest)" using log top by (simp_all add: in_order_def)
  have apart: "generation term' \<noteq> generation term"
    if m: "nd_standing (sy_nodes sy m) = Leader term'" "m \<noteq> n" "generation (en_term top) \<noteq> - 1" for m term'
  proof
    assume "generation term' = generation term"
    moreover obtain e' where "e' \<in> set log" "en_node e' = m" "generation (en_term e') = generation term'" using leads [OF m(1)] by blast
    ultimately show False using generation_owner [OF hist(1) m(3), of e' e] e top m(2) by simp
  qed
  show ?thesis
    using stored_generation_log [OF assms(2) hist(1)] hist generations_grow [OF hist(1), of e] e top apart
    by (intro exI [of _ "generation (en_term top)"]) auto
qed

text \<open>C13. No node takes a lease that its clock says another still holds, and none overwrites a successor.
  When a step changes the lease object from one term to another, the new term is either of the next
  generation, and then its holder is the old one or counted the new term from a moment at which the old
  term had run out, or of the same generation, and then its holder is the old one, extending or ending
  its own term.\<close>

theorem takeover_is_justified:
  assumes "conditional_store W view named" and "deployment lc path" and "view x path = None" and "reachable W lc (initial_system x) sy"
    and "step W lc sy sy'" and "view (sy_store sy) path = Some (old, v)" and "view (sy_store sy') path = Some (new, v')"
    and "view (sy_store sy') path \<noteq> view (sy_store sy) path"
  shows "\<exists>a b n. decode_term old = Inr a \<and> new = encode_term b \<and> tm_holder b = lc_holder (lc n) \<and>
    (generation b = next_generation (generation a) \<and>
       (tm_holder a = tm_holder b \<or> expires_at a \<le> expires_at b - lc_term_length (lc n)) \<or>
     generation b = generation a \<and> tm_holder b = tm_holder a)"
proof -
  obtain log where log: "in_order view named lc path sy log" using reachable_in_order [OF assms(1-4)] by blast
  obtain added where added: "length added \<le> 1" "in_order view named lc path sy' (added @ log)"
    using step_in_order [OF assms(1,2) log assms(5)] by blast
  have "added \<noteq> []" using added(2) log assms(8) by (auto simp: in_order_def)
  then obtain e' where e': "added = [e']" using added(1) by (cases added) auto
  obtain e rest where e: "log = e # rest" using log assms(6) by (cases log) (auto simp: in_order_def lease_object_def)
  have hist: "history lc (e' # e # rest)" using added(2) e' e by (simp add: in_order_def)
  have "decode_term old = Inr (stored_term (en_term e))" "new = encode_term (en_term e')"
    using log added(2) e e' assms(6,7) decode_entry [OF assms(2) history_entries [OF hist]] by (auto simp: in_order_def lease_object_def)
  moreover have "tm_holder (en_term e') = lc_holder (lc (en_node e'))" "tm_holder (en_term e) = lc_holder (lc (en_node e))"
    using history_entries [OF hist] by (auto simp: entry_ok_def)
  moreover have "follows lc e e'" using hist by simp
  ultimately show ?thesis
    by (intro exI [of _ "stored_term (en_term e)"] exI [of _ "en_term e'"] exI [of _ "en_node e'"])
      (auto simp: follows_def takes_over_def stored_term_def split: if_splits)
qed

end
