(* ===== verification/Lease_Runs.thy ===== *)
theory Lease_Runs
  imports Lease_Safety
begin

text \<open>
  What a node reaches: every call on its leadership ends with the lease's mutex free, a follower takes a lease
  that has run out, a node that has stepped down stays so unless a call was already under way, and the run
  in which one was.
\<close>

section \<open>Object stores that answer\<close>

record 'x ObjectStore =
  os_get :: "'x \<Rightarrow> scalars \<Rightarrow> ObjectError + bytes \<times> UpdateVersion"
  os_put :: "'x \<Rightarrow> scalars \<Rightarrow> bytes \<Rightarrow> PutMode \<Rightarrow> (ObjectError + UpdateVersion) \<times> 'x"

definition world_of :: "'x ObjectStore \<Rightarrow> 'x World" where
  "world_of os = \<lparr>w_get = (\<lambda>x path r. r = os_get os x path), w_put = (\<lambda>x path bs mode r x'. (r, x') = os_put os x path bs mode)\<rparr>"

text \<open>A program run alone, its node's clock standing at one moment: \<open>None\<close> where it would have to wait.\<close>

primrec run_alone :: "'x ObjectStore \<Rightarrow> int \<Rightarrow> ('n, 'r) io \<Rightarrow> 'n \<Rightarrow> 'x \<Rightarrow> ('r \<times> 'n \<times> 'x) option" where
  "run_alone os now (Done r) = (\<lambda>s x. Some (r, s, x))"
| "run_alone os now (Local f) =
     (\<lambda>s x. case map_option (map_prod id (run_alone os now)) (f s) of None \<Rightarrow> None | Some (s', run) \<Rightarrow> run s' x)"
| "run_alone os now (Now c) = (\<lambda>s x. run_alone os now (c now) s x)"
| "run_alone os now (Get path c) = (\<lambda>s x. run_alone os now (c (os_get os x path)) s x)"
| "run_alone os now (Put path bs mode c) =
     (\<lambda>s x. case os_put os x path bs mode of (r, x') \<Rightarrow> run_alone os now (c r) s x')"

lemma run_local: "run_alone os now (Local f) s x = (case f s of None \<Rightarrow> None | Some (s', p) \<Rightarrow> run_alone os now p s' x)"
  by (simp split: option.split)

declare run_alone.simps(2) [simp del]

lemma run_bind:
  "run_alone os now (io_bind p k) s x =
     (case run_alone os now p s x of None \<Rightarrow> None | Some (r, s', x') \<Rightarrow> run_alone os now (k r) s' x')"
proof (induction p arbitrary: s x)
  case (Local f)
  show ?case
  proof (cases "f s")
    case (Some a)
    obtain s' p where a: "a = (s', p)" by (cases a) auto
    have "run_alone os now (io_bind p k) s' x =
        (case run_alone os now p s' x of None \<Rightarrow> None | Some (r, s'', x') \<Rightarrow> run_alone os now (k r) s'' x')"
      by (rule Local.IH [of "f s" "(s', p)" p]) (use rangeI [of f s] Some a in auto)
    then show ?thesis using Some a by (simp add: run_local)
  qed (simp add: run_local)
qed (auto split: prod.split)

lemma run_reading [simp]: "run_alone os now (reading f) s x = Some (f s, s, x)"
  by (simp add: reading_def run_local)

lemma run_atomically [simp]: "run_alone os now (atomically f) s x = Some ((), f s, x)"
  by (simp add: atomically_def run_local)

lemma run_lock [simp]: "run_alone os now lock_held s x = (if ls_locked s then None else Some ((), s\<lparr>ls_locked := True\<rparr>, x))"
  by (simp add: lock_held_def run_local)

section \<open>Every call ends\<close>

text \<open>A body that does not wait and leaves the mutex as it is.\<close>

definition ends :: "'x ObjectStore \<Rightarrow> int \<Rightarrow> bool \<Rightarrow> ('a LeaseState_scheme, 'r) io \<Rightarrow> bool" where
  "ends os now locked p \<longleftrightarrow>
     (\<forall>s x. ls_locked s = locked \<longrightarrow> (\<exists>r s' x'. run_alone os now p s x = Some (r, s', x') \<and> ls_locked s' = locked))"

named_theorems ends_rules

lemma ends_bind [ends_rules]:
  fixes p :: "('a LeaseState_scheme, 'r) io"
  shows "ends os now l p \<Longrightarrow> (\<And>r. ends os now l (k r)) \<Longrightarrow> ends os now l (io_bind p k)"
  unfolding ends_def run_bind
proof (intro allI impI)
  fix s :: "'a LeaseState_scheme" and x
  assume *: "\<forall>s x. ls_locked s = l \<longrightarrow> (\<exists>r s' x'. run_alone os now p s x = Some (r, s', x') \<and> ls_locked s' = l)"
    "\<And>r. \<forall>s x. ls_locked s = l \<longrightarrow> (\<exists>r' s' x'. run_alone os now (k r) s x = Some (r', s', x') \<and> ls_locked s' = l)" "ls_locked s = l"
  then obtain r s' x' where "run_alone os now p s x = Some (r, s', x')" "ls_locked s' = l" by blast
  then show "\<exists>r s' x'. (case run_alone os now p s x of None \<Rightarrow> None | Some (r, s', x') \<Rightarrow> run_alone os now (k r) s' x') = Some (r, s', x') \<and> ls_locked s' = l"
    using *(2) [of r] by simp
qed

lemma ends_basic [ends_rules]:
  "ends os now l (Done r)" "ends os now l (reading g)" "(\<And>s. ls_locked (f s) = ls_locked s) \<Longrightarrow> ends os now l (atomically f)"
  by (simp_all add: ends_def)

lemma ends_outside [ends_rules]:
  "(\<And>t. ends os now l (c t)) \<Longrightarrow> ends os now l (Now c)" "(\<And>r. ends os now l (d r)) \<Longrightarrow> ends os now l (Get path d)"
  "(\<And>r. ends os now l (e r)) \<Longrightarrow> ends os now l (Put path bs mode e)"
  by (auto simp: ends_def split: prod.split)

lemma ends_guarded [ends_rules]:
  fixes body :: "('a LeaseState_scheme, 'r) io"
  assumes "ends os now True body"
  shows "ends os now False (guarded body)"
  unfolding ends_def
proof (intro allI impI)
  fix s :: "'a LeaseState_scheme" and x
  assume "ls_locked s = False"
  moreover obtain r s' x' where "run_alone os now body (s\<lparr>ls_locked := True\<rparr>) x = Some (r, s', x')"
    using assms [unfolded ends_def, rule_format, of "s\<lparr>ls_locked := True\<rparr>" x] by auto
  ultimately show "\<exists>r s' x'. run_alone os now (guarded body) s x = Some (r, s', x') \<and> ls_locked s' = False"
    by (simp add: guarded_def unlock_held_def run_bind)
qed

lemma ends_cases [ends_rules]:
  "(\<And>a. y = Inl a \<Longrightarrow> ends os now l (f a)) \<Longrightarrow> (\<And>b. y = Inr b \<Longrightarrow> ends os now l (g b)) \<Longrightarrow> ends os now l (case y of Inl a \<Rightarrow> f a | Inr b \<Rightarrow> g b)"
  "(z = None \<Longrightarrow> ends os now l h) \<Longrightarrow> (\<And>b. z = Some b \<Longrightarrow> ends os now l (k b)) \<Longrightarrow> ends os now l (case z of None \<Rightarrow> h | Some b \<Rightarrow> k b)"
  "(c \<Longrightarrow> ends os now l h) \<Longrightarrow> (\<not> c \<Longrightarrow> ends os now l h') \<Longrightarrow> ends os now l (if c then h else h')"
  "(\<And>a b. w = (a, b) \<Longrightarrow> ends os now l (q a b)) \<Longrightarrow> ends os now l (case w of (a, b) \<Rightarrow> q a b)"
  by (auto split: sum.split option.split prod.split)

lemma ends_lease:
  "ends os now l (lease_read lc)" "ends os now l (lease_write lc tm mode)" "ends os now l (whoever_holds_it lc)"
  "ends os now l (held_by_another lc)" "ends os now l (set_held h)" "ends os now l (remember new)" "ends os now l (take_free lc t)"
  "ends os now l (take_over lc t tm v)" "ends os now l (require_conditional_update lc)" "ends os now l (lease_observe lc)"
  unfolding lease_read_def lease_write_def whoever_holds_it_def held_by_another_def set_held_def remember_def take_free_def take_over_def
    require_conditional_update_def lease_observe_def Let_def
  by (intro ends_rules; simp)+

lemma ends_operations:
  "ends os now False (lease_acquire lc)" "ends os now False (lease_renew lc)" "ends os now False (lease_release lc)"
  unfolding lease_acquire_def lease_renew_def lease_release_def Let_def by (intro ends_rules ends_lease)+

lemma ends_leadership:
  "ends os now False (step_down (object_store_lease lc) reason)" "ends os now False (campaign (object_store_lease lc))"
  "ends os now False (renew (object_store_lease lc))" "ends os now False (follow_round (object_store_lease lc))"
  "ends os now False (maintain_round (object_store_lease lc))"
proof -
  have send: "ends os now False (send_replace st)" "ends os now False (observed h)" for st h
    unfolding send_replace_def observed_def by (intro ends_rules; simp)+
  show down: "ends os now False (step_down (object_store_lease lc) reason)" for reason
    unfolding step_down_def object_store_ops by (intro ends_rules ends_operations send)
  show camp: "ends os now False (campaign (object_store_lease lc))"
    unfolding campaign_def object_store_ops
    by (intro ends_rules ends_operations send) (auto split: LeaseError.split intro!: ends_rules send down)
  show ren: "ends os now False (renew (object_store_lease lc))"
    unfolding renew_def object_store_ops
    by (intro ends_rules ends_operations send) (auto split: LeaseError.split intro!: ends_rules send down)
  show "ends os now False (follow_round (object_store_lease lc))"
    unfolding follow_round_def object_store_ops by (intro ends_rules ends_lease send)
  show "ends os now False (maintain_round (object_store_lease lc))"
    unfolding maintain_round_def by (intro ends_rules) (auto split: Standing.split intro!: ends_rules camp ren)
qed

text \<open>C15. Every call on a node's leadership ends. Whatever the object store answers to each request and
  whatever the clock says, a call that finds the mutex free runs to its end, waits for nothing, and leaves
  the mutex free.\<close>

theorem calls_end:
  assumes "\<not> ls_locked s"
  shows "\<exists>r s' x'. run_alone os now (program lc call) s x = Some (r, s', x') \<and> \<not> ls_locked s'"
proof -
  have "ends os now False (program lc call)"
    unfolding program_def Let_def fenced_def resign_def
    using ends_leadership by (cases call) (auto intro!: ends_rules)
  then show ?thesis using assms by (simp add: ends_def)
qed

section \<open>A lease that has run out is taken\<close>

text \<open>A store that answers every request: reads find what is there, and a conditional write lands exactly when
  its condition holds.\<close>

definition answers :: "'x ObjectStore \<Rightarrow> ('x \<Rightarrow> scalars \<Rightarrow> (bytes \<times> UpdateVersion) option) \<Rightarrow> bool" where
  "answers os view \<longleftrightarrow>
     (\<forall>x path. os_get os x path = (case view x path of None \<Rightarrow> Inl Os_NotFound | Some found \<Rightarrow> Inr found)) \<and>
     (\<forall>x path bs mode. put_allowed mode (view x path) \<longrightarrow>
        (\<exists>v x'. os_put os x path bs mode = (Inr v, x') \<and> view x' = (view x)(path \<mapsto> (bs, v)))) \<and>
     (\<forall>x path bs mode. \<not> put_allowed mode (view x path) \<longrightarrow>
        (\<exists>x'. os_put os x path bs mode = (Inl (if mode = Create then Os_AlreadyExists else Os_Precondition), x') \<and> view x' = view x))"

lemma answers_put:
  assumes "answers os view" and "os_put os x path bs mode = (r, x')"
  shows "put_allowed mode (view x path) \<Longrightarrow> \<exists>v. r = Inr v \<and> view x' = (view x)(path \<mapsto> (bs, v))"
    and "\<not> put_allowed mode (view x path) \<Longrightarrow> r = Inl (if mode = Create then Os_AlreadyExists else Os_Precondition) \<and> view x' = view x"
proof -
  have "\<exists>v x'. os_put os x path bs mode = (Inr v, x') \<and> view x' = (view x)(path \<mapsto> (bs, v))" if "put_allowed mode (view x path)"
    using assms(1) that unfolding answers_def by blast
  then show "put_allowed mode (view x path) \<Longrightarrow> \<exists>v. r = Inr v \<and> view x' = (view x)(path \<mapsto> (bs, v))" using assms(2) by auto
  have "\<exists>x'. os_put os x path bs mode = (Inl (if mode = Create then Os_AlreadyExists else Os_Precondition), x') \<and> view x' = view x"
    if "\<not> put_allowed mode (view x path)"
    using assms(1) that unfolding answers_def by blast
  then show "\<not> put_allowed mode (view x path) \<Longrightarrow> r = Inl (if mode = Create then Os_AlreadyExists else Os_Precondition) \<and> view x' = view x"
    using assms(2) by auto
qed

lemma run_require:
  assumes "answers os view" and "ls_conditional_update s \<noteq> UNSUPPORTED"
  obtains x' where "run_alone os now (require_conditional_update lc) s x = Some (Inr (), s\<lparr>ls_conditional_update := SUPPORTED\<rparr>, x')"
    and "view x' (lc_path lc) = view x (lc_path lc)"
proof (cases "ls_conditional_update s = SUPPORTED")
  case True
  then have "run_alone os now (require_conditional_update lc) s x = Some (Inr (), s\<lparr>ls_conditional_update := SUPPORTED\<rparr>, x)"
    by (simp add: require_conditional_update_def run_bind)
  then show thesis by (rule that) simp
next
  case False
  let ?probe = "lc_path lc @ PROBE_SUFFIX" and ?mode = "Update \<lparr>e_tag = Some IMPOSSIBLE_VERSION, ob_version = None\<rparr>"
  obtain r x' where put: "os_put os x ?probe [] ?mode = (r, x')" by (cases "os_put os x ?probe [] ?mode") auto
  have "?probe \<noteq> lc_path lc" by (simp add: PROBE_SUFFIX_def)
  moreover note answers_put [OF assms(1) put]
  ultimately have *: "r \<noteq> Inl Os_NotImplemented" "view x' (lc_path lc) = view x (lc_path lc)"
    by (cases "put_allowed ?mode (view x ?probe)"; auto)+
  have "run_alone os now (require_conditional_update lc) s x = Some (Inr (), s\<lparr>ls_conditional_update := SUPPORTED\<rparr>, x')"
    using assms(2) False put *(1) by (simp add: require_conditional_update_def run_bind Let_def)
  then show thesis by (rule that) (rule *(2))
qed

text \<open>What a lease that is free to a node looks like: there is none, or its term has run out, or it is the node's
  own.\<close>

definition free_to :: "LeaseConfig \<Rightarrow> int \<Rightarrow> (bytes \<times> UpdateVersion) option \<Rightarrow> u64 \<Rightarrow> bool" where
  "free_to lc now found g \<longleftrightarrow>
     (case found of
        None \<Rightarrow> g = 1
      | Some (bs, _) \<Rightarrow>
          \<exists>tm. decode_term bs = Inr tm \<and> (tm_holder tm = lc_holder lc \<or> expires_at tm \<le> now) \<and> g = next_generation (generation tm))"

lemma run_acquire:
  assumes "answers os view" and "ls_conditional_update s \<noteq> UNSUPPORTED" and "\<not> ls_locked s" and "free_to lc now (view x (lc_path lc)) g"
  defines "tm \<equiv> \<lparr>generation = g, tm_holder = lc_holder lc, expires_at = now + lc_term_length lc\<rparr>"
  shows "\<exists>s' x' v. run_alone os now (lease_acquire lc) s x = Some (Inr tm, s', x') \<and> \<not> ls_locked s' \<and>
    ls_held s' = Some \<lparr>hd_term = tm, hd_version = v\<rparr> \<and> view x' (lc_path lc) = Some (encode_term tm, v)"
proof -
  obtain x1 where x1: "run_alone os now (require_conditional_update lc) s x = Some (Inr (), s\<lparr>ls_conditional_update := SUPPORTED\<rparr>, x1)"
    "view x1 (lc_path lc) = view x (lc_path lc)"
    by (rule run_require [OF assms(1,2)])
  have get: "os_get os x1 (lc_path lc) = (case view x1 (lc_path lc) of None \<Rightarrow> Inl Os_NotFound | Some found \<Rightarrow> Inr found)"
    using assms(1) by (simp add: answers_def)
  have land: "\<exists>v x'. os_put os x1 (lc_path lc) bs mode = (Inr v, x') \<and> view x' = (view x1)(lc_path lc \<mapsto> (bs, v))"
    if "put_allowed mode (view x1 (lc_path lc))" for bs mode
    using assms(1) that by (simp add: answers_def)
  show ?thesis
  proof (cases "view x (lc_path lc)")
    case None
    obtain v x2 where x2: "os_put os x1 (lc_path lc) (encode_term tm) Create = (Inr v, x2)" "view x2 = (view x1)(lc_path lc \<mapsto> (encode_term tm, v))"
      using land [of Create "encode_term tm"] x1(2) None by auto
    have "g = 1" using assms(4) None by (simp add: free_to_def)
    then show ?thesis
      using assms(3) x1 x2 None get
      by (simp add: lease_acquire_def run_bind guarded_def unlock_held_def lease_read_def take_free_def lease_write_def remember_def
          set_held_def tm_def Let_def)
  next
    case (Some found)
    obtain bs u old where old: "found = (bs, u)" "decode_term bs = Inr old" "tm_holder old = lc_holder lc \<or> expires_at old \<le> now"
      "g = next_generation (generation old)"
      using assms(4) Some by (auto simp: free_to_def)
    obtain v x2 where x2: "os_put os x1 (lc_path lc) (encode_term tm) (Update u) = (Inr v, x2)"
      "view x2 = (view x1)(lc_path lc \<mapsto> (encode_term tm, v))"
      using land [of "Update u" "encode_term tm"] x1(2) Some old(1) by auto
    show ?thesis
      using assms(3) x1 x2 Some old get
      by (auto simp: lease_acquire_def run_bind guarded_def unlock_held_def lease_read_def take_over_def lease_write_def remember_def
          set_held_def tm_def is_live_at_def Let_def)
  qed
qed

text \<open>C14. The writer role does not stay vacant. When the lease is absent or its term has run out by a
  follower's clock, then over a store that answers one round of the follower's loop makes it the leader,
  with the next generation and a term counted from that moment, and the lease object names it.\<close>

theorem follower_takes_over:
  assumes "answers os view" and "nd_standing s = Follower leader" and "\<not> ls_locked s" and "ls_conditional_update s \<noteq> UNSUPPORTED"
    and "free_to lc now (view x (lc_path lc)) g"
  shows "\<exists>s' x' v. run_alone os now (maintain_round (object_store_lease lc)) s x = Some (True, s', x') \<and> \<not> ls_locked s' \<and>
    nd_standing s' = Leader \<lparr>generation = g, tm_holder = lc_holder lc, expires_at = now + lc_term_length lc\<rparr> \<and>
    view x' (lc_path lc) = Some (encode_term \<lparr>generation = g, tm_holder = lc_holder lc, expires_at = now + lc_term_length lc\<rparr>, v)"
proof -
  let ?tm = "\<lparr>generation = g, tm_holder = lc_holder lc, expires_at = now + lc_term_length lc\<rparr>"
  obtain s' x' v where "run_alone os now (lease_acquire lc) s x = Some (Inr ?tm, s', x')" "\<not> ls_locked s'"
    "view x' (lc_path lc) = Some (encode_term ?tm, v)"
    using run_acquire [OF assms(1,4,3,5)] by blast
  then show ?thesis using assms(2) by (simp add: maintain_round_def campaign_def run_bind send_replace_def)
qed

section \<open>Stepping down\<close>

text \<open>A program that leaves the standing of a node that has stepped down as it is.\<close>

primrec quiet :: "(Node, 'r) io \<Rightarrow> bool" where
  "quiet (Done r) = True"
| "quiet (Local f) = (\<forall>s. has_stepped_down (nd_standing s) \<longrightarrow>
     (case map_option (map_prod id quiet) (f s) of None \<Rightarrow> True | Some (s', ok) \<Rightarrow> nd_standing s' = nd_standing s \<and> ok))"
| "quiet (Now c) = (\<forall>t. quiet (c t))"
| "quiet (Get path c) = (\<forall>r. quiet (c r))"
| "quiet (Put path bs mode c) = (\<forall>r. quiet (c r))"

lemma quiet_local:
  "quiet (Local f) \<longleftrightarrow>
     (\<forall>s s' p. has_stepped_down (nd_standing s) \<longrightarrow> f s = Some (s', p) \<longrightarrow> nd_standing s' = nd_standing s \<and> quiet p)"
  by (auto split: option.splits)

declare quiet.simps(2) [simp del]

named_theorems quiet_rules

lemma quiet_bind [quiet_rules]: "quiet p \<Longrightarrow> (\<And>r. quiet (k r)) \<Longrightarrow> quiet (io_bind p k)"
proof (induction p)
  case (Local f)
  have "nd_standing s' = nd_standing s \<and> quiet (io_bind p k)" if s: "has_stepped_down (nd_standing s)" "f s = Some (s', p)" for s s' p
  proof -
    have "nd_standing s' = nd_standing s" "quiet p" using Local.prems(1) s unfolding quiet_local by blast+
    moreover have "quiet (io_bind p k)"
      by (rule Local.IH [of "Some (s', p)" "(s', p)" p]) (use rangeI [of f s] s(2) \<open>quiet p\<close> Local.prems(2) in simp_all)
    ultimately show ?thesis by simp
  qed
  then show ?case by (auto simp: quiet_local)
qed auto

lemma quiet_check: "(\<And>st. has_stepped_down st \<Longrightarrow> quiet (k st)) \<Longrightarrow> quiet (io_bind (reading nd_standing) k)"
  by (simp add: reading_def quiet_local)

lemma quiet_basic [quiet_rules]:
  "quiet (Done r)" "quiet (reading f)" "(\<And>s. has_stepped_down (nd_standing s) \<Longrightarrow> nd_standing (g s) = nd_standing s) \<Longrightarrow> quiet (atomically g)"
  "(\<And>t. quiet (c t)) \<Longrightarrow> quiet (Now c)" "(\<And>r. quiet (d r)) \<Longrightarrow> quiet (Get path d)" "(\<And>r. quiet (e r)) \<Longrightarrow> quiet (Put path bs mode e)"
  "quiet lock_held"
  by (auto simp: reading_def atomically_def lock_held_def quiet_local)

lemma quiet_cases [quiet_rules]:
  "(\<And>a. y = Inl a \<Longrightarrow> quiet (f a)) \<Longrightarrow> (\<And>b. y = Inr b \<Longrightarrow> quiet (g b)) \<Longrightarrow> quiet (case y of Inl a \<Rightarrow> f a | Inr b \<Rightarrow> g b)"
  "(z = None \<Longrightarrow> quiet h) \<Longrightarrow> (\<And>b. z = Some b \<Longrightarrow> quiet (k b)) \<Longrightarrow> quiet (case z of None \<Rightarrow> h | Some b \<Rightarrow> k b)"
  "(c \<Longrightarrow> quiet h) \<Longrightarrow> (\<not> c \<Longrightarrow> quiet h') \<Longrightarrow> quiet (if c then h else h')"
  "(\<And>a b. w = (a, b) \<Longrightarrow> quiet (q a b)) \<Longrightarrow> quiet (case w of (a, b) \<Rightarrow> q a b)"
  by (auto split: sum.split option.split prod.split)

lemma quiet_program: "quiet (program lc call)"
proof -
  let ?l = "object_store_lease lc"
  have "quiet (campaign ?l)" "quiet (renew ?l)" "quiet (step_down ?l reason)" "quiet (maintain_round ?l)" for reason
    unfolding campaign_def renew_def step_down_def maintain_round_def
    by (rule quiet_check; case_tac st; simp)+
  moreover have "quiet (follow_round ?l)" unfolding follow_round_def by (rule quiet_check) simp
  ultimately show ?thesis
    unfolding program_def Let_def fenced_def resign_def by (cases call) (auto intro!: quiet_rules)
qed

definition node_quiet :: "nat \<Rightarrow> (nat \<times> (Node, bool) io) list \<Rightarrow> bool" where
  "node_quiet n tasks \<longleftrightarrow> (\<forall>i<length tasks. fst (tasks ! i) = n \<longrightarrow> quiet (snd (tasks ! i)))"

lemma node_quiet_update: "node_quiet n tasks \<Longrightarrow> (m = n \<Longrightarrow> quiet p) \<Longrightarrow> node_quiet n (tasks[i := (m, p)])"
  unfolding node_quiet_def
proof (intro allI impI)
  fix k
  assume *: "\<forall>i<length tasks. fst (tasks ! i) = n \<longrightarrow> quiet (snd (tasks ! i))" "m = n \<Longrightarrow> quiet p" "k < length (tasks[i := (m, p)])"
    "fst (tasks[i := (m, p)] ! k) = n"
  then show "quiet (snd (tasks[i := (m, p)] ! k))" by (cases "k = i") auto
qed

lemma node_quiet_task: "node_quiet n tasks \<Longrightarrow> i < length tasks \<Longrightarrow> tasks ! i = (n, p) \<Longrightarrow> quiet p"
  by (force simp: node_quiet_def)

lemma step_quiet:
  assumes "step W lc sy sy'" and "has_stepped_down (nd_standing (sy_nodes sy n))" and quiet: "node_quiet n (sy_tasks sy)"
  shows "nd_standing (sy_nodes sy' n) = nd_standing (sy_nodes sy n) \<and> node_quiet n (sy_tasks sy')"
  using assms(1)
proof cases
  case (Spawn m call)
  then show ?thesis using quiet quiet_program by (auto simp: node_quiet_def nth_append)
next
  case (Local i m f s p)
  have "nd_standing s = nd_standing (sy_nodes sy n) \<and> quiet p" if "m = n"
    using node_quiet_task [OF quiet, of i "Local f"] Local that assms(2) unfolding quiet_local by blast
  then show ?thesis using Local(1) node_quiet_update [OF quiet] by simp
next
  case (Now i m c t)
  then show ?thesis using node_quiet_task [OF quiet, of i "Now c"] node_quiet_update [OF quiet] by simp
next
  case (Get i m path c r)
  then show ?thesis using node_quiet_task [OF quiet, of i "Get path c"] node_quiet_update [OF quiet] by simp
next
  case (Put i m path bs mode c r x)
  then show ?thesis using node_quiet_task [OF quiet, of i "Put path bs mode c"] node_quiet_update [OF quiet] by simp
qed

text \<open>C16. Stepping down is for good, for a node with no call under way. From a state in which a node has
  stepped down and every call made on it has returned, no later calls on it or on other nodes, in any
  interleaving, change its standing.\<close>

theorem stepped_down_for_good:
  assumes "has_stepped_down (nd_standing (sy_nodes sy n))" and "\<And>i p. i < length (sy_tasks sy) \<Longrightarrow> sy_tasks sy ! i = (n, p) \<Longrightarrow> \<exists>r. p = Done r"
    and "reachable W lc sy sy'"
  shows "nd_standing (sy_nodes sy' n) = nd_standing (sy_nodes sy n)"
proof -
  have "nd_standing (sy_nodes sy' n) = nd_standing (sy_nodes sy n) \<and> node_quiet n (sy_tasks sy')"
    using assms(3)
  proof induction
    case Start
    have "quiet (snd (sy_tasks sy ! i))" if "i < length (sy_tasks sy)" "fst (sy_tasks sy ! i) = n" for i
      using assms(2) [OF that(1)] that(2) by (cases "sy_tasks sy ! i") auto
    then show ?case by (simp add: node_quiet_def)
  next
    case (Step sy1 sy2)
    then show ?case using step_quiet [OF Step.hyps(2), of n] assms(1) by auto
  qed
  then show ?thesis by blast
qed

section \<open>A store in memory\<close>

text \<open>Every write kept, the latest first; the version of a write is its number.\<close>

type_synonym objects = "(scalars \<times> bytes) list"

definition obj_version :: "nat \<Rightarrow> UpdateVersion" where
  "obj_version k = \<lparr>e_tag = Some (digits k), ob_version = None\<rparr>"

fun obj_view :: "objects \<Rightarrow> scalars \<Rightarrow> (bytes \<times> UpdateVersion) option" where
  "obj_view [] path = None"
| "obj_view ((p, bs) # x) path = (if p = path then Some (bs, obj_version (length x)) else obj_view x path)"

fun obj_named :: "objects \<Rightarrow> scalars \<Rightarrow> UpdateVersion \<Rightarrow> bytes option" where
  "obj_named [] path v = None"
| "obj_named ((p, bs) # x) path v = (if p = path \<and> v = obj_version (length x) then Some bs else obj_named x path v)"

fun obj_allowed :: "PutMode \<Rightarrow> (bytes \<times> UpdateVersion) option \<Rightarrow> bool" where
  "obj_allowed Create found = (case found of None \<Rightarrow> True | Some _ \<Rightarrow> False)"
| "obj_allowed (Update u) found = (case found of None \<Rightarrow> False | Some (_, v) \<Rightarrow> v = u)"

definition obj_store :: "objects ObjectStore" where
  "obj_store =
     \<lparr>os_get = (\<lambda>x path. case obj_view x path of None \<Rightarrow> Inl Os_NotFound | Some found \<Rightarrow> Inr found),
      os_put = (\<lambda>x path bs mode.
        if obj_allowed mode (obj_view x path) then (Inr (obj_version (length x)), (path, bs) # x)
        else (Inl (case mode of Create \<Rightarrow> Os_AlreadyExists | Update _ \<Rightarrow> Os_Precondition), x))\<rparr>"

lemma digits_inject: "digits m = digits n \<longleftrightarrow> m = n"
  by (metis number_of_digits)

lemma obj_allowed: "obj_allowed mode found = put_allowed mode found"
  by (cases mode; cases found) auto

lemma obj_named_fresh: "length x \<le> k \<Longrightarrow> obj_named x path (obj_version k) = None"
  by (induction x path "obj_version k" rule: obj_named.induct) (auto simp: obj_version_def digits_inject)

lemma obj_view_cons: "obj_view ((p, bs) # x) = (obj_view x)(p \<mapsto> (bs, obj_version (length x)))"
  by (auto simp: fun_eq_iff)

lemma obj_answers: "answers obj_store obj_view"
  unfolding answers_def obj_store_def ObjectStore.simps obj_allowed
  by (intro conjI allI impI) (auto simp: obj_view_cons split: PutMode.split)

lemma obj_conditional: "conditional_store (world_of obj_store) obj_view obj_named"
proof -
  have "obj_view x path = Some (bs, v) \<Longrightarrow> obj_named x path v = Some bs" for x path bs v
  proof (induction x path rule: obj_view.induct)
    case (2 p bs' x path)
    show ?case
    proof (cases "p = path")
      case False
      then have "obj_named x path v = Some bs" using 2 by simp
      moreover have "v \<noteq> obj_version (length x)" using calculation obj_named_fresh [of x "length x" path] by auto
      ultimately show ?thesis by simp
    qed (use 2 in auto)
  qed simp
  moreover have "obj_named x other \<subseteq>\<^sub>m obj_named ((path, bs) # x) other" for x path bs other
    using obj_named_fresh [of x "length x" other] by (auto simp: map_le_def)
  ultimately show ?thesis
    unfolding conditional_store_def world_of_def obj_store_def World.simps ObjectStore.simps obj_allowed
    by (intro conjI allI impI) (auto simp: obj_view_cons split: option.splits if_splits PutMode.splits)
qed

section \<open>Schedules\<close>

text \<open>A move of a schedule starts a call on a node, or lets a task go on for some steps, its clock standing at one
  moment.\<close>

datatype Move = Begin nat Call | Go nat nat int

fun advance_task :: "'x ObjectStore \<Rightarrow> nat \<Rightarrow> int \<Rightarrow> 'x System \<Rightarrow> 'x System option" where
  "advance_task os i now sy =
     (case get (sy_tasks sy) i of
        None \<Rightarrow> None
      | Some (n, p) \<Rightarrow>
          (case p of
             Done r \<Rightarrow> None
           | Local f \<Rightarrow>
               (case f (sy_nodes sy n) of
                  None \<Rightarrow> None
                | Some (s, q) \<Rightarrow> Some (sy\<lparr>sy_nodes := (sy_nodes sy)(n := s), sy_tasks := (sy_tasks sy)[i := (n, q)]\<rparr>))
           | Now c \<Rightarrow> if 0 \<le> now \<and> now < 9223372036854775808000000 then Some (sy\<lparr>sy_tasks := (sy_tasks sy)[i := (n, c now)]\<rparr>) else None
           | Get path c \<Rightarrow> Some (sy\<lparr>sy_tasks := (sy_tasks sy)[i := (n, c (os_get os (sy_store sy) path))]\<rparr>)
           | Put path bs mode c \<Rightarrow>
               (case os_put os (sy_store sy) path bs mode of
                  (r, x) \<Rightarrow> Some (sy\<lparr>sy_store := x, sy_tasks := (sy_tasks sy)[i := (n, c r)]\<rparr>))))"

fun advance_steps :: "'x ObjectStore \<Rightarrow> nat \<Rightarrow> nat \<Rightarrow> int \<Rightarrow> 'x System \<Rightarrow> 'x System option" where
  "advance_steps os i 0 now sy = Some sy"
| "advance_steps os i (Suc k) now sy = (case advance_task os i now sy of None \<Rightarrow> None | Some sy' \<Rightarrow> advance_steps os i k now sy')"

fun play :: "'x ObjectStore \<Rightarrow> (nat \<Rightarrow> LeaseConfig) \<Rightarrow> Move list \<Rightarrow> 'x System \<Rightarrow> 'x System option" where
  "play os lc [] sy = Some sy"
| "play os lc (Begin n call # moves) sy = play os lc moves (sy\<lparr>sy_tasks := sy_tasks sy @ [(n, program (lc n) call)]\<rparr>)"
| "play os lc (Go i k now # moves) sy = (case advance_steps os i k now sy of None \<Rightarrow> None | Some sy' \<Rightarrow> play os lc moves sy')"

lemma advance_step: "advance_task os i now sy = Some sy' \<Longrightarrow> step (world_of os) lc sy sy'"
  by (auto simp: world_of_def sane_def intro: step.intros split: option.splits prod.splits io.splits if_splits)

lemma reachable_trans: "reachable W lc sy1 sy2 \<Longrightarrow> reachable W lc sy sy1 \<Longrightarrow> reachable W lc sy sy2"
  by (induction rule: reachable.induct) (auto intro: reachable.intros)

lemma reachable_front: "step W lc sy sy1 \<Longrightarrow> reachable W lc sy1 sy2 \<Longrightarrow> reachable W lc sy sy2"
  by (rule reachable_trans) (auto intro: reachable.intros)

lemma steps_reachable: "advance_steps os i k now sy = Some sy' \<Longrightarrow> reachable (world_of os) lc sy sy'"
  by (induction os i k now sy rule: advance_steps.induct)
    (auto simp del: advance_task.simps intro: reachable.intros reachable_front [OF advance_step] split: option.splits)

lemma play_reachable: "play os lc moves sy = Some sy' \<Longrightarrow> reachable (world_of os) lc sy sy'"
proof (induction os lc moves sy rule: play.induct)
  case (2 os lc n call moves sy)
  then show ?case using reachable_front [OF step.Spawn] by simp
next
  case (3 os lc i k now moves sy)
  then show ?case using steps_reachable reachable_trans by (fastforce split: option.splits)
qed (auto intro: reachable.intros)

definition nodes_config :: "nat \<Rightarrow> LeaseConfig" where
  "nodes_config n = with_holder (lit ''memory'') (lit ''writer'') (lit ''node-'' @ lit (digits n))"

section \<open>A node that leads again after it was fenced\<close>

lemmas run_defs = program_def campaign_def renew_def fenced_def step_down_def lease_acquire_def lease_renew_def lease_release_def
  require_conditional_update_def guarded_def lock_held_def unlock_held_def set_held_def lease_read_def lease_write_def take_free_def
  remember_def send_replace_def reading_def atomically_def UNKNOWN_def SUPPORTED_def UNSUPPORTED_def PROBE_SUFFIX_def obj_store_def Let_def

definition first_term :: "LeaseConfig \<Rightarrow> int \<Rightarrow> Term" where
  "first_term lc now = \<lparr>generation = 1, tm_holder = lc_holder lc, expires_at = now + lc_term_length lc\<rparr>"

text \<open>Node 0 leads, and has made some calls.\<close>

definition leading :: "(nat \<Rightarrow> LeaseConfig) \<Rightarrow> bool \<Rightarrow> Standing \<Rightarrow> (nat \<times> (Node, bool) io) list \<Rightarrow> objects System" where
  "leading lc locked st tasks =
     \<lparr>sy_store = [(lc_path (lc 0), encode_term (first_term (lc 0) 0))],
      sy_nodes = (\<lambda>_. leadership_new)(0 := \<lparr>ls_held = Some \<lparr>hd_term = first_term (lc 0) 0, hd_version = obj_version 0\<rparr>, ls_locked = locked,
        ls_conditional_update = 1, nd_standing = st\<rparr>),
      sy_tasks = tasks\<rparr>"

lemma campaign_run:
  "play obj_store lc [Begin 0 Call_Campaign, Go 0 11 0] (initial_system []) =
     Some (leading lc False (Leader (first_term (lc 0) 0)) [(0, Done True)])"
  by (simp add: initial_system_def leadership_new_def lease_new_def LeaseState.extend_def numeral_eq_Suc run_defs leading_def first_term_def
      del: lit_simps)


lemma play_append: "play os lc (ms @ ns) sy = (case play os lc ms sy of None \<Rightarrow> None | Some sy' \<Rightarrow> play os lc ns sy')"
  by (induction os lc ms sy rule: play.induct) (auto split: option.split)

text \<open>A renewal reads its clock; meanwhile a write is fenced, and the node steps down; then the renewal lands.\<close>

definition fenced_run :: "Move list" where
  "fenced_run = [Begin 0 Call_Renew, Go 1 4 2000000, Begin 0 Call_Fenced, Go 2 2 2000000]"

lemma fenced_race:
  "map_option (\<lambda>sy. nd_standing (sy_nodes sy 0)) (play obj_store lc fenced_run (leading lc False (Leader (first_term (lc 0) 0)) [(0, Done True)])) =
     Some (SteppedDown Fenced)"
  "map_option (\<lambda>sy. nd_standing (sy_nodes sy 0))
     (play obj_store lc (fenced_run @ [Go 1 4 2000000]) (leading lc False (Leader (first_term (lc 0) 0)) [(0, Done True)])) =
     Some (Leader (first_term (lc 0) 2000000))"
  by (simp_all add: fenced_run_def leading_def first_term_def numeral_eq_Suc run_defs del: lit_simps)

text \<open>Stepping down is not terminal while a renewal is under way. In every deployment, over a store that
  answers every request: node 0 campaigns and leads; it starts to renew, and the renewal waits for its
  answer; the storage layer fences the writer and the node steps down; the renewal goes on, and the node
  stands as the leader again. The moves are those of the tasks, so that every state is one a run reaches.\<close>

lemma fenced_node_leads_again:
  "\<exists>sy sy'.
     play obj_store lc
       [Begin 0 Call_Campaign, Go 0 11 0, Begin 0 Call_Renew, Go 1 4 2000000, Begin 0 Call_Fenced, Go 2 2 2000000]
       (initial_system []) = Some sy \<and> nd_standing (sy_nodes sy 0) = SteppedDown Fenced \<and>
     play obj_store lc [Go 1 4 2000000] sy = Some sy' \<and> nd_standing (sy_nodes sy' 0) = Leader (first_term (lc 0) 2000000)"
proof -
  let ?start = "leading lc False (Leader (first_term (lc 0) 0)) [(0, Done True)]"
  obtain sy where sy: "play obj_store lc fenced_run ?start = Some sy" "nd_standing (sy_nodes sy 0) = SteppedDown Fenced"
    using fenced_race(1) [of lc] by auto
  obtain sy' where sy': "play obj_store lc [Go 1 4 2000000] sy = Some sy'"
    "nd_standing (sy_nodes sy' 0) = Leader (first_term (lc 0) 2000000)"
    using fenced_race(2) [of lc] sy(1) by (auto simp del: play.simps simp: play_append)
  have "play obj_store lc ([Begin 0 Call_Campaign, Go 0 11 0] @ fenced_run) (initial_system []) = Some sy"
    unfolding play_append campaign_run using sy(1) by (simp del: play.simps)
  then show ?thesis using sy(2) sy' unfolding fenced_run_def append_Cons append_Nil by blast
qed

section \<open>Examples\<close>

lemma nodes_holder: "lc_holder (nodes_config n) = lit ''node-'' @ lit (digits n)"
proof -
  have "c \<noteq> 10 \<and> c \<noteq> 13" if "c \<in> set (lit ''node-'' @ lit (digits n))" for c
    using that ascii_line by auto
  then show ?thesis by (simp add: nodes_config_def with_holder_def one_line_def map_idI del: lit_simps)
qed

lemma nodes_deployment: "deployment nodes_config (lit ''writer'')"
proof -
  have "inj (\<lambda>n. lc_holder (nodes_config n))"
    unfolding nodes_holder by (rule injI) (metis append_same_eq number_of_digits same_append_eq)
  moreover have "10 \<notin> set (lc_holder (nodes_config n)) \<and> 13 \<notin> set (lc_holder (nodes_config n)) \<and> list_all is_scalar (lc_holder (nodes_config n))" for n
    unfolding nodes_holder using ascii_line [of _ n] lit_scalar by (auto simp: list_all_append is_scalar_def)
  moreover have "trim (lc_holder (nodes_config n)) = lc_holder (nodes_config n)" for n
  proof (rule trim_id)
    have "last (lit (digits n)) \<in> set (lit (digits n))" using digits_ne by (intro last_in_set) (simp add: lit_def)
    then have "is_digit (last (lit (digits n)))" by (rule digits_ascii)
    then show "\<not> is_whitespace (hd (lc_holder (nodes_config n))) \<and> \<not> is_whitespace (last (lc_holder (nodes_config n)))"
      using digits_ne by (auto simp: nodes_holder is_whitespace_def is_digit_def lit_def)
  qed
  ultimately show ?thesis by (simp add: deployment_def nodes_config_def with_holder_def DEFAULT_TERM_def del: lit_simps)
qed

theorem leaders_are_ordered_witness:
  "\<exists>sy g. reachable (world_of obj_store) nodes_config (initial_system []) sy \<and>
     nd_standing (sy_nodes sy 0) = Leader (first_term (nodes_config 0) 0) \<and>
     stored_generation (obj_view (sy_store sy) (lit ''writer'')) = Some g \<and> generation (first_term (nodes_config 0) 0) \<le> g"
proof -
  let ?sy = "leading nodes_config False (Leader (first_term (nodes_config 0) 0)) [(0, Done True)]"
  have "nd_standing (sy_nodes ?sy 0) = Leader (first_term (nodes_config 0) 0)" by (simp add: leading_def)
  then show ?thesis
    using leaders_are_ordered [OF obj_conditional nodes_deployment _ play_reachable [OF campaign_run], of 0] play_reachable [OF campaign_run]
    by fastforce
qed

theorem calls_end_witness:
  "\<exists>r s' x'. run_alone obj_store 0 (program (nodes_config 0) Call_Campaign) leadership_new [] = Some (r, s', x') \<and> \<not> ls_locked s'"
  by (rule calls_end) (simp add: leadership_new_def lease_new_def LeaseState.extend_def)

theorem follower_takes_over_witness:
  "\<exists>s' x'. run_alone obj_store 0 (maintain_round (object_store_lease (nodes_config 0))) leadership_new [] = Some (True, s', x') \<and>
     nd_standing s' = Leader (first_term (nodes_config 0) 0)"
proof -
  have "nd_standing leadership_new = Follower None" "\<not> ls_locked leadership_new" "ls_conditional_update leadership_new \<noteq> UNSUPPORTED"
    "free_to (nodes_config 0) 0 (obj_view [] (lc_path (nodes_config 0))) 1"
    by (simp_all add: leadership_new_def lease_new_def LeaseState.extend_def UNKNOWN_def UNSUPPORTED_def free_to_def)
  from follower_takes_over [OF obj_answers this] show ?thesis by (auto simp: first_term_def)
qed

theorem stepped_down_for_good_witness:
  "\<exists>sy'. reachable (world_of obj_store) nodes_config (leading nodes_config False (SteppedDown Resigned) []) sy' \<and>
     length (sy_tasks sy') = 1 \<and> nd_standing (sy_nodes sy' 0) = SteppedDown Resigned"
proof -
  let ?sy = "leading nodes_config False (SteppedDown Resigned) []"
  have "\<exists>sy'. play obj_store nodes_config [Begin 0 Call_Campaign, Go 0 1 0] ?sy = Some sy' \<and> length (sy_tasks sy') = 1"
    by (simp add: leading_def run_defs del: lit_simps)
  then obtain sy' where sy': "play obj_store nodes_config [Begin 0 Call_Campaign, Go 0 1 0] ?sy = Some sy'" "length (sy_tasks sy') = 1" by blast
  have "has_stepped_down (nd_standing (sy_nodes ?sy 0))" "sy_tasks ?sy = []" by (simp_all add: leading_def)
  then have "nd_standing (sy_nodes sy' 0) = nd_standing (sy_nodes ?sy 0)"
    using stepped_down_for_good [OF _ _ play_reachable [OF sy'(1)], of 0] by simp
  then show ?thesis using play_reachable [OF sy'(1)] sy'(2) by (auto simp: leading_def)
qed

theorem takeover_is_justified_witness:
  "\<exists>sy sy' old v new v' a b n. step (world_of obj_store) nodes_config sy sy' \<and>
     obj_view (sy_store sy) (lit ''writer'') = Some (old, v) \<and> obj_view (sy_store sy') (lit ''writer'') = Some (new, v') \<and>
     decode_term old = Inr a \<and> new = encode_term b \<and> tm_holder b = lc_holder (nodes_config n) \<and>
     (generation b = next_generation (generation a) \<or> generation b = generation a \<and> tm_holder b = tm_holder a)"
proof -
  let ?start = "leading nodes_config False (Leader (first_term (nodes_config 0) 0)) [(0, Done True)]"
  have path: "lc_path (nodes_config 0) = lit ''writer''" by (simp add: nodes_config_def with_holder_def del: lit_simps)
  have "\<exists>sy. play obj_store nodes_config [Begin 0 Call_Renew, Go 1 4 2000000] ?start = Some sy \<and>
      obj_view (sy_store sy) (lc_path (nodes_config 0)) = Some (encode_term (first_term (nodes_config 0) 0), obj_version 0) \<and>
      (\<exists>sy'. advance_task obj_store 1 2000000 sy = Some sy' \<and>
        obj_view (sy_store sy') (lc_path (nodes_config 0)) = Some (encode_term (first_term (nodes_config 0) 2000000), obj_version 1))"
    by (simp add: leading_def first_term_def numeral_eq_Suc run_defs del: lit_simps)
  then obtain sy sy' where sy: "play obj_store nodes_config [Begin 0 Call_Renew, Go 1 4 2000000] ?start = Some sy"
    "obj_view (sy_store sy) (lit ''writer'') = Some (encode_term (first_term (nodes_config 0) 0), obj_version 0)"
    "advance_task obj_store 1 2000000 sy = Some sy'"
    "obj_view (sy_store sy') (lit ''writer'') = Some (encode_term (first_term (nodes_config 0) 2000000), obj_version 1)"
    unfolding path by blast
  have "obj_version 1 \<noteq> obj_version 0" by (simp add: obj_version_def digits_inject)
  then show ?thesis
    using takeover_is_justified [OF obj_conditional nodes_deployment _ reachable_trans [OF play_reachable [OF sy(1)] play_reachable [OF campaign_run]]
        advance_step [OF sy(3)] sy(2,4)] advance_step [OF sy(3)] sy(2,4) by fastforce
qed

end
