(* ===== verification/Spec2Isabelle.thy ===== *)
theory Spec2Isabelle
  imports Tuple_Order Tuple_Roundtrip Memory_Store Column_Set Schema_Catalog Schema_Row Keyspace
    Predicate_Expr Security Query_Results Record_Deletions Record_History Lease_Runs
begin

text \<open>
  A verification development for the slate record layer: an ORM-style record store in Rust over an
  ordered key-value store. A record layer turns typed rows into keys and values whose byte order is the
  order of the rows, keeps secondary indexes in step with the rows, and applies the access rules of a
  caller to everything it reads and writes. The parts modelled, from the bottom up, with the files under
  \<open>src/crates\<close> they model:

  \<^item> \<^bold>\<open>The tuple codec\<close>, \<open>slate-tuple\<close>. \<open>Tuple_Value\<close> is the value enum and its total order
    (\<open>value.rs\<close>), \<open>Tuple_Codec\<close> the encoder and the reader (\<open>codec.rs\<close>), \<open>Utf8\<close> the string checks
    of the language. \<open>Tuple_Words\<close> and \<open>Tuple_Order\<close> show that comparing encodings is comparing
    values, in each direction, and that a key prefix selects what it should; \<open>Tuple_Roundtrip\<close> that
    decoding inverts encoding and that skipping follows reading. \<open>Ordered_Code\<close> is the interface an
    order-preserving, prefix-free code of elements meets, with the lemmas for tuples proved once.
  \<^item> \<^bold>\<open>The store interface\<close>. \<open>Key_Range\<close> has ranges of keys (\<open>range.rs\<close>, \<open>store.rs\<close>), \<open>Btree_Map\<close>
    the ordered map of the standard library as a sorted association list, \<open>Memory_Store\<close> the
    transactional in-memory store (\<open>memory.rs\<close>) and the transition system of concurrent transactions,
    with snapshot reads, first committer wins and a bounded conflict history as invariants. A lock is
    the atomicity of a step. \<open>Kv_Interface\<close> is the transaction trait as a record of methods; its
    contract is the locale \<open>kv_transaction\<close>, which the memory store meets. \<open>Kernel_Error\<close> is the
    kernel's error enum (\<open>error.rs\<close>).
  \<^item> \<^bold>\<open>The schema\<close>, \<open>slate-schema\<close>. \<open>Column_Set\<close> is the bitset of columns (\<open>columns.rs\<close>), \<open>Text_Terms\<close>
    the tokenizer (\<open>text.rs\<close>), \<open>Schema_Types\<close> and \<open>Schema_Build\<close> the definitions with their builders
    (\<open>table.rs\<close>, \<open>constraint.rs\<close>): a table that builds has what \<open>build\<close> checks. The kernel relies on a
    little more, that additions are within the schema version and managed columns are live, which the
    theorems on stored rows assume.
    \<open>Schema_Catalog\<close> is the catalog (\<open>catalog.rs\<close>), \<open>Schema_Row\<close> rows and their bodies across schema
    versions (\<open>row.rs\<close>).
  \<^item> \<^bold>\<open>The key space\<close>, \<open>slate-kernel/src/keys.rs\<close>. \<open>Keyspace\<close> shows that the key spaces of tables and
    indexes are disjoint, that keys and entries decode to what they were made of, that unique entries
    collide exactly when they should, and that tenants are apart. \<open>Row_Keys\<close> derives from a valid row
    what the key space needs.
  \<^item> \<^bold>\<open>Predicates\<close>, \<open>expr.rs\<close>. \<open>Predicate_Expr\<close> has the three-valued evaluation, the rewriting for
    repeated evaluation and the pattern cache, \<open>Like_Pattern\<close> the matcher with its backtracking loop,
    \<open>Sorted_Slices\<close> sorting and bisection of the standard library under the contract of a total
    comparison. The regular expression engine is a parameter.
  \<^item> \<^bold>\<open>Access rules\<close>, \<open>security.rs\<close>. \<open>Security\<close> shows exactly which rows the mandatory predicate admits,
    that it keeps a caller inside the key range of their tenant, and which columns are withheld.
  \<^item> \<^bold>\<open>The record store\<close>, \<open>record.rs\<close> and the point read of \<open>read.rs\<close>. \<open>Record_Write\<close> has the write
    path and shows that it acts on the contents of a transaction as a function on finite maps, in any
    store that meets \<open>kv_transaction\<close>. \<open>Record_Index\<close> defines when contents represent a set of rows
    and shows that a write replaces one row in that set, or is refused by the first unique index with
    a collision, and that an erase removes one. \<open>Record_Ops\<close> has the operations with all their checks
    and their specification on a database, a set of rows per table; \<open>Record_Refinement\<close> has the
    refinements over the memory store and the secured read.
  \<^item> \<^bold>\<open>The planner\<close>, \<open>plan.rs\<close>. \<open>Plan_Implies\<close> has the test that a query implies a partial index's
    predicate, \<open>Plan_Access\<close> the constraints, the key ranges, the candidates of the primary key and of
    every kind of index, the choice and the resumption of a plan. \<open>Plan_Sound\<close> shows that the chosen
    access path reaches every row the predicate admits, whatever the costs and the hint.
  \<^item> \<^bold>\<open>The executor\<close>, \<open>exec.rs\<close> and the cursors of \<open>read.rs\<close>. \<open>Query_Rows\<close> has the functions on one row:
    decoding in two phases, computed values, rows assembled from index entries, the sort order.
    \<open>Query_Exec\<close> has the cursor with its sources, the reads kept in flight, the sorts and the window of
    a limit and an offset; every loop ends, because what is left of a source shrinks. \<open>Query_Stream\<close>
    shows that the cursor, drained, gives the rows of its source that the predicate admits, in order,
    sorted and cut as asked, whatever is kept in flight; \<open>Query_Answer\<close> that rows decoded in two phases
    and rows assembled from index entries hold what the request asked for; \<open>Plan_Shape\<close> that a plan's
    ranges are apart and in order, so that no row is read twice; \<open>Query_Correct\<close> puts these together over
    a store that represents a set of rows, and \<open>Query_Order\<close> shows that a plan without a sort delivers the
    order asked for.
  \<^item> \<^bold>\<open>Requests\<close>, \<open>SecuredReads\<close> of \<open>read.rs\<close>. \<open>Query_Secure\<close> has the planning of a request under its
    caller's rights, its refusals and its execution; \<open>Query_Results\<close> shows that an accepted request
    returns exactly the rows it asks for and may see, that pages continue each other, and that what is
    withheld from a caller has no influence on what they are handed.
  \<^item> \<^bold>\<open>Deletes\<close>, \<open>record.rs\<close>. \<open>Record_Delete\<close> has the walk over cascading references, the references that
    restrict, and the deletes; both walks end round any cycle, because a table or a row is scheduled once.
    \<open>Record_Cascade\<close> shows that the walks give exactly what the references lead to; it rests on the
    exactness of requests, since the rows that reference a parent are found by one. \<open>Record_Removal\<close> shows
    what a delete leaves: no live reference to a row that went. \<open>Record_Deletions\<close> has examples, with the
    unique slot two retired rows share.
  \<^item> \<^bold>\<open>Histories\<close>. \<open>Record_History\<close> states once, as the interface \<open>statement_invariant\<close>, what every operation
    keeps if the clock and the wrapped writes keep it, and shows with it that a transaction in which a
    write failed is never committed in any store, and that a unique index stays unique through every
    history of statements, commits and abandoned transactions over the memory store.
  \<^item> \<^bold>\<open>Leadership\<close>, \<open>slate-server/src/lease.rs\<close> and \<open>leadership.rs\<close>. \<open>Lease_Text\<close> is the lease object as text,
    with \<open>Decimal\<close> for the standard library's printing and parsing; \<open>Lease\<close> has the lease over conditional
    writes and \<open>Leadership\<close> the standing of a node, each asynchronous function as a program whose calls to
    the object store, the clock and shared state interleave with those of other tasks and nodes.
    \<open>Lease_Safety\<close> shows for every interleaving that leaders can be ordered by generation and that no one
    takes a lease that is live by their clock; \<open>Lease_Runs\<close> that every call ends, that a vacant lease is
    taken, and when stepping down is for good, with the run in which it is not.

  \<^bold>\<open>Conventions.\<close> \<open>Prelude\<close> and \<open>Rust_Loops\<close> hold results, options and the loop combinators of the
  source. A struct is a record, an enum a datatype, a machine integer a word of its width; lengths and
  ordinals, \<open>usize\<close> in the source, are natural numbers, and the theorems that decode bytes assume
  fewer than \<open>2 ^ 64\<close> of them, which every input the machine can hold satisfies. A fallible function
  returns a sum with the error on the left. Asynchronous functions are their sequential meaning within
  one transaction; interleaving of transactions is in the memory store's transition system. Loops are
  recursive functions with a termination proof, so no fuel is used.

  \<^bold>\<open>Parameters.\<close> The Unicode tables, the regular expression engine, index expressions, policy and check
  predicates, and the clock are arguments of the definitions that use them; what is asked of them is
  \<open>unicode_ok\<close>, that lowercasing gives characters, and \<open>computes_ok\<close>, that an index expression computes
  a value of its declared type. The planner's floating point cost model is the choice functions of a
  \<open>Planner\<close> record, about which nothing is assumed: soundness holds for every choice. Computed values,
  window functions and the standard library's heap are fields of the \<open>Planner\<close> and \<open>Exec\<close> records, and
  the check of decimal scales and the columns of a window function of the \<open>SecuredReads\<close> record. Of these
  \<open>reads_only\<close> asks that a computed value depends on the columns it reports, \<open>expressions_ok\<close> that an
  expression index computes what a request computes by the same expression, and \<open>pops_greatest\<close> that the
  heap pops a greatest element. \<open>request_ok\<close> collects what a theorem on requests asks of one: well formed
  literals, no window functions, in lists and sorts within the ceilings; \<open>tables_readable\<close> asks it of the
  requests a delete makes, and \<open>retires_ok\<close> that a retired row takes no slot of a unique index that the live
  row did not have, which the code relies on and does not check. The object store of a lease is a
  \<open>World\<close>, of which \<open>conditional_store\<close> asks that writes are conditional and a version names one content;
  requests may fail at any time, also after having landed. Clocks are unconstrained.

  \<^bold>\<open>Not modelled.\<close> Bulk writes, the writes over a predicate and the purge of retired rows of \<open>record.rs\<close>; joins
  (\<open>join.rs\<close>), scalar expressions, aggregates and windows, statistics and zone maps, migration, retries
  and continuation tokens. The decimal text forms of \<open>value.rs\<close>. The server, daemon and SQL crates lower
  requests of generated protocol types and of a third-party parser onto the operations above; of these, leadership is modelled; the file lease
  rests on the locks of an operating system; the SlateDB adapter, the derive macros, the
  bindings and the benchmarks are glue over code that is not in the repository.
\<close>

end
